(* ===== verification/Prelude.thy ===== *)
theory Prelude
  imports Main "HOL-Library.Word" "HOL-Library.Monad_Syntax"
begin

unbundle bit_operations_syntax

text \<open>
  Shared vocabulary of the development: the machine integers of the C code, bounds-checked
  access to caller-owned buffers, big-endian fields, C strings, and the lemmas on them that
  every component uses.

  A C buffer with its length is a byte list. Reading outside a buffer is undefined behaviour
  in C; here it is the value \<^const>\<open>None\<close> of the option monad, so that a parser which
  never reads out of range is a parser that never returns \<^const>\<open>None\<close>.
\<close>

section \<open>Machine integers and collections\<close>

type_synonym byte = "8 word"
type_synonym u16 = "16 word"
type_synonym u32 = "32 word"
type_synonym u64 = "64 word"
type_synonym bytes = "byte list"

named_theorems mem_simps \<open>unfolding of the buffer primitives\<close>
named_theorems len_simps \<open>lengths of buffers after stores\<close>

text \<open>Bounds stay arithmetic: \<open>0 < length xs\<close> is not turned into \<open>xs \<noteq> []\<close>.\<close>

declare length_greater_0_conv [simp del]

section \<open>Reading and writing buffers\<close>

definition rd8 :: "bytes \<Rightarrow> nat \<Rightarrow> byte option" where
  "rd8 xs i = (if i < length xs then Some (xs ! i) else None)"

definition be16 :: "byte \<Rightarrow> byte \<Rightarrow> u16" where
  "be16 a b = push_bit 8 (ucast a) OR ucast b"

definition be32 :: "byte \<Rightarrow> byte \<Rightarrow> byte \<Rightarrow> byte \<Rightarrow> u32" where
  "be32 a b c d = push_bit 24 (ucast a) OR push_bit 16 (ucast b) OR push_bit 8 (ucast c) OR ucast d"

definition hi8 :: "u16 \<Rightarrow> byte" where
  "hi8 v = ucast (drop_bit 8 v)"

definition lo8 :: "u16 \<Rightarrow> byte" where
  "lo8 v = ucast v"

definition rd16 :: "bytes \<Rightarrow> nat \<Rightarrow> u16 option" where
  "rd16 xs i = do { a \<leftarrow> rd8 xs i; b \<leftarrow> rd8 xs (i + 1); Some (be16 a b) }"

definition rd32 :: "bytes \<Rightarrow> nat \<Rightarrow> u32 option" where
  "rd32 xs i = do { a \<leftarrow> rd8 xs i; b \<leftarrow> rd8 xs (i + 1); c \<leftarrow> rd8 xs (i + 2); d \<leftarrow> rd8 xs (i + 3);
                    Some (be32 a b c d) }"

definition sub_buf :: "bytes \<Rightarrow> nat \<Rightarrow> nat \<Rightarrow> bytes option" where
  "sub_buf xs off n = (if off + n \<le> length xs then Some (take n (drop off xs)) else None)"

text \<open>\<open>put dst off src\<close> overwrites part of a buffer; \<open>blit dst off src\<close> is
  \<open>memcpy(dst + off, src, length src)\<close> into a buffer that is exactly \<open>length dst\<close> bytes
  long.\<close>

definition put :: "bytes \<Rightarrow> nat \<Rightarrow> bytes \<Rightarrow> bytes" where
  "put dst off src = take off dst @ src @ drop (off + length src) dst"

definition blit :: "bytes \<Rightarrow> nat \<Rightarrow> bytes \<Rightarrow> bytes option" where
  "blit dst off src =
     (if off + length src \<le> length dst then Some (put dst off src) else None)"

text \<open>A big-endian store: \<open>*(uint16_t *)(dst + off) = htons(v)\<close>.\<close>

definition be16_bytes :: "u16 \<Rightarrow> bytes" where
  "be16_bytes v = [hi8 v, lo8 v]"

definition be32_bytes :: "u32 \<Rightarrow> bytes" where
  "be32_bytes v = [ucast (drop_bit 24 v), ucast (drop_bit 16 v), ucast (drop_bit 8 v), ucast v]"

definition st8 :: "bytes \<Rightarrow> nat \<Rightarrow> byte \<Rightarrow> bytes option" where
  "st8 dst off v = blit dst off [v]"

definition st16 :: "bytes \<Rightarrow> nat \<Rightarrow> u16 \<Rightarrow> bytes option" where
  "st16 dst off v = blit dst off (be16_bytes v)"

definition st32 :: "bytes \<Rightarrow> nat \<Rightarrow> u32 \<Rightarrow> bytes option" where
  "st32 dst off v = blit dst off (be32_bytes v)"

subsection \<open>Laws of the buffer primitives\<close>

lemma rd8_Some [mem_simps]: "i < length xs \<Longrightarrow> rd8 xs i = Some (xs ! i)"
  by (simp add: rd8_def)

lemma rd16_Some [mem_simps]: "i + 1 < length xs \<Longrightarrow> rd16 xs i = Some (be16 (xs ! i) (xs ! (i + 1)))"
  by (simp add: rd16_def rd8_def)

lemma rd32_Some [mem_simps]:
  "i + 3 < length xs \<Longrightarrow>
   rd32 xs i = Some (be32 (xs ! i) (xs ! (i + 1)) (xs ! (i + 2)) (xs ! (i + 3)))"
  by (simp add: rd32_def rd8_def)

lemma sub_buf_Some [mem_simps]: "off + n \<le> length xs \<Longrightarrow> sub_buf xs off n = Some (take n (drop off xs))"
  by (simp add: sub_buf_def)

lemma blit_Some [mem_simps]: "off + length src \<le> length dst \<Longrightarrow> blit dst off src = Some (put dst off src)"
  by (simp add: blit_def)

lemma length_put [simp, len_simps]: "off + length src \<le> length dst \<Longrightarrow> length (put dst off src) = length dst"
  by (simp add: put_def)

lemma length_be16_bytes [simp, len_simps]: "length (be16_bytes v) = 2"
  by (simp add: be16_bytes_def)

lemma length_be32_bytes [simp, len_simps]: "length (be32_bytes v) = 4"
  by (simp add: be32_bytes_def)

lemma st8_Some [mem_simps]: "off < length dst \<Longrightarrow> st8 dst off v = Some (put dst off [v])"
  by (simp add: st8_def blit_def)

lemma st16_Some [mem_simps]: "off + 2 \<le> length dst \<Longrightarrow> st16 dst off v = Some (put dst off (be16_bytes v))"
  by (simp add: st16_def blit_def)

lemma st32_Some [mem_simps]: "off + 4 \<le> length dst \<Longrightarrow> st32 dst off v = Some (put dst off (be32_bytes v))"
  by (simp add: st32_def blit_def)

lemma nth_put:
  assumes "off + length src \<le> length dst" "i < length dst"
  shows "put dst off src ! i = (if off \<le> i \<and> i < off + length src then src ! (i - off) else dst ! i)"
  using assms by (auto simp: put_def nth_append)

lemma take_put_before [simp]: "n \<le> off \<Longrightarrow> off \<le> length dst \<Longrightarrow> take n (put dst off src) = take n dst"
  by (simp add: put_def min_def)

lemma drop_put_after [simp]:
  "off + length src \<le> n \<Longrightarrow> off + length src \<le> length dst \<Longrightarrow> drop n (put dst off src) = drop n dst"
  by (simp add: put_def drop_append)

lemma put_append_left [simp]:
  "off + length src \<le> length xs \<Longrightarrow> put (xs @ ys) off src = put xs off src @ ys"
  by (simp add: put_def)

lemma put_append_right:
  "off = length xs + k \<Longrightarrow> put (xs @ ys) off src = xs @ put ys k src"
  by (simp add: put_def add.assoc)

subsection \<open>Big-endian fields\<close>

lemma unat_bound: "unat (w :: 'a::len word) < 2 ^ LENGTH('a)"
  by (rule unsigned_less)

lemma unat_byte_less: "unat (b :: byte) < 256"
  using unat_bound [of b] by simp

lemma unat_ucast8_16 [simp]: "unat (ucast (a :: byte) :: u16) = unat a"
  using unat_bound [of a] by (simp add: unsigned_ucast_eq take_bit_nat_eq_self_iff)

lemma unat_ucast8_32 [simp]: "unat (ucast (a :: byte) :: u32) = unat a"
  using unat_bound [of a] by (simp add: unsigned_ucast_eq take_bit_nat_eq_self_iff)

lemma unat_ucast16_32 [simp]: "unat (ucast (a :: u16) :: u32) = unat a"
  using unat_bound [of a] by (simp add: unsigned_ucast_eq take_bit_nat_eq_self_iff)

lemma unat_be16: "unat (be16 a b) = 256 * unat a + unat b"
proof -
  have "push_bit 8 (ucast a :: u16) AND ucast b = 0"
    by (rule bit_word_eqI) (auto simp: bit_simps dest: bit_imp_le_length)
  then have "be16 a b = push_bit 8 (ucast a) + ucast b"
    by (simp add: be16_def disjunctive_add_eq_or [symmetric])
  moreover have "unat a < 256" "unat b < 256"
    using unat_bound [of a] unat_bound [of b] by simp_all
  ultimately show ?thesis
    by (simp add: unat_word_ariths push_bit_eq_mult)
qed

lemma unat_be16_less: "unat (be16 a b) < 65536"
  using unat_bound [of "be16 a b"] by simp

lemma be16_hi8_lo8 [simp]: "be16 (hi8 v) (lo8 v) = v"
  by (rule bit_word_eqI) (auto simp: be16_def hi8_def lo8_def bit_simps)

lemma hi8_be16 [simp]: "hi8 (be16 a b) = a"
  by (rule bit_word_eqI) (auto simp: be16_def hi8_def bit_simps dest: bit_imp_le_length)

lemma lo8_be16 [simp]: "lo8 (be16 a b) = b"
  by (rule bit_word_eqI) (auto simp: be16_def lo8_def bit_simps)

lemma be32_bytes_be32 [simp]:
  "be32 (ucast (drop_bit 24 v)) (ucast (drop_bit 16 v)) (ucast (drop_bit 8 v)) (ucast v) = v"
proof (rule bit_word_eqI)
  fix n assume "n < LENGTH(32)"
  then have "n < 8 \<or> (8 \<le> n \<and> n < 16) \<or> (16 \<le> n \<and> n < 24) \<or> (24 \<le> n \<and> n < 32)"
    by auto
  then show "bit (be32 (ucast (drop_bit 24 v)) (ucast (drop_bit 16 v)) (ucast (drop_bit 8 v))
      (ucast v)) n = bit v n"
    by (elim disjE) (auto simp: be32_def bit_simps)
qed

section \<open>Linear search\<close>

lemma find_append_case:
  "List.find P (xs @ ys) = (case List.find P xs of None \<Rightarrow> List.find P ys | Some x \<Rightarrow> Some x)"
  by (induction xs) auto

section \<open>Status-or-value results\<close>

text \<open>A call whose status is checked and passed on: \<open>if (status != OK) return status\<close>.\<close>

lemma bind_status_Inr_iff:
  "(r \<bind> (\<lambda>x. case x of Inl e \<Rightarrow> Some (Inl e) | Inr v \<Rightarrow> f v)) = Some (Inr y) \<longleftrightarrow>
     (\<exists>v. r = Some (Inr v) \<and> f v = Some (Inr y))"
  by (cases r) (auto split: sum.splits)

lemma bind_status_None_iff:
  "(r \<bind> (\<lambda>x. case x of Inl e \<Rightarrow> Some (Inl e) | Inr v \<Rightarrow> f v)) = None \<longleftrightarrow>
     r = None \<or> (\<exists>v. r = Some (Inr v) \<and> f v = None)"
  by (cases r) (auto split: sum.splits)

lemmas bind_status = bind_status_Inr_iff bind_status_None_iff

end
