(* ===== verification/Checksum.thy ===== *)
theory Checksum
  imports Prelude
begin

text \<open>
  The RFC 1071 checksum routines of \<open>src/packet/checksum.c\<close>, kept at the width of the C code
  (32-bit accumulator, 16-bit result), and the arithmetic that makes them correct: a header or
  segment whose checksum field holds the computed value passes the receiver's check.
\<close>

section \<open>The routines\<close>

fun checksum_accumulate :: "bytes \<Rightarrow> u32 \<Rightarrow> u32" where
  "checksum_accumulate (a # b # p) acc = checksum_accumulate p (acc + (push_bit 8 (ucast a) OR ucast b))"
| "checksum_accumulate [a] acc = acc + push_bit 8 (ucast a)"
| "checksum_accumulate [] acc = acc"

lemma unat_and_FFFF: "unat (acc AND 0xFFFF) = unat acc mod 65536" for acc :: u32
proof -
  have "acc AND 0xFFFF = take_bit 16 acc"
    by (simp add: take_bit_eq_mask mask_eq_exp_minus_1)
  then show ?thesis
    by (simp only: unsigned_take_bit_eq) (simp add: take_bit_eq_mod)
qed

lemma unat_drop16: "unat (drop_bit 16 acc) = unat acc div 65536" for acc :: u32
  using unat_bound [of acc]
  by (simp only: unsigned_drop_bit_eq) (simp add: take_bit_nat_eq_self drop_bit_eq_div)

lemma fold_step_less:
  fixes acc :: u32
  assumes "drop_bit 16 acc \<noteq> 0"
  shows "unat ((acc AND 0xFFFF) + drop_bit 16 acc) < unat acc"
    and "unat ((acc AND 0xFFFF) + drop_bit 16 acc) = unat acc mod 65536 + unat acc div 65536"
proof -
  define q r where "q = unat acc div 65536" and "r = unat acc mod 65536"
  have acc: "unat acc = 65536 * q + r"
    by (simp add: q_def r_def)
  have r: "r < 65536"
    by (simp add: r_def)
  have q: "q < 65536"
    using unat_bound [of acc] by (simp add: q_def less_mult_imp_div_less)
  show eq: "unat ((acc AND 0xFFFF) + drop_bit 16 acc) = unat acc mod 65536 + unat acc div 65536"
    using q r by (simp add: unat_word_ariths unat_and_FFFF unat_drop16 flip: q_def r_def)
  have "q \<noteq> 0"
    using assms unat_drop16 [of acc] by (metis q_def unat_eq_zero)
  then show "unat ((acc AND 0xFFFF) + drop_bit 16 acc) < unat acc"
    unfolding eq by (simp add: acc flip: q_def r_def)
qed

function checksum_fold :: "u32 \<Rightarrow> u32" where
  "checksum_fold acc =
     (if drop_bit 16 acc \<noteq> 0 then checksum_fold ((acc AND 0xFFFF) + drop_bit 16 acc) else acc)"
  by pat_completeness auto
termination
  by (relation "measure unat") (simp_all add: fold_step_less(1) del: One_nat_def)

declare checksum_fold.simps [simp del]

definition checksum_finalize :: "u32 \<Rightarrow> u16" where
  "checksum_finalize acc = ucast (NOT (checksum_fold acc))"

text \<open>The header checksum skips the two bytes of the checksum field itself.\<close>

definition checksum_ipv4_header :: "bytes \<Rightarrow> nat \<Rightarrow> u16 option" where
  "checksum_ipv4_header bytes ihl_bytes = do {
     a \<leftarrow> sub_buf bytes 0 10;
     b \<leftarrow> sub_buf bytes 12 (ihl_bytes - 12);
     Some (checksum_finalize (checksum_accumulate b (checksum_accumulate a 0)))
   }"

text \<open>\<open>ip\<close> is the IPv4 header: the source address is at offset 12, the destination at 16.\<close>

definition checksum_tcp_v4 :: "bytes \<Rightarrow> bytes \<Rightarrow> u16 option" where
  "checksum_tcp_v4 ip tcp_seg =
     (if length tcp_seg < 18 then Some 0
      else do {
        src \<leftarrow> sub_buf ip 12 4;
        dst \<leftarrow> sub_buf ip 16 4;
        let pseudo = [0, 6] @ be16_bytes (of_nat (length tcp_seg));
        let acc = checksum_accumulate src 0;
        let acc = checksum_accumulate dst acc;
        let acc = checksum_accumulate pseudo acc;
        let acc = checksum_accumulate (take 16 tcp_seg) acc;
        let acc = checksum_accumulate (drop 18 tcp_seg) acc;
        Some (checksum_finalize acc)
      })"

text \<open>\<open>ip\<close> is the IPv6 header: the source address is at offset 8, the destination at 24.\<close>

definition checksum_tcp_v6 :: "bytes \<Rightarrow> bytes \<Rightarrow> u16 option" where
  "checksum_tcp_v6 ip tcp_seg =
     (if length tcp_seg < 18 then Some 0
      else do {
        src \<leftarrow> sub_buf ip 8 16;
        dst \<leftarrow> sub_buf ip 24 16;
        let pseudo = be32_bytes (of_nat (length tcp_seg)) @ [0, 0, 0, 6];
        let acc = checksum_accumulate src 0;
        let acc = checksum_accumulate dst acc;
        let acc = checksum_accumulate pseudo acc;
        let acc = checksum_accumulate (take 16 tcp_seg) acc;
        let acc = checksum_accumulate (drop 18 tcp_seg) acc;
        Some (checksum_finalize acc)
      })"

section \<open>What the sums are\<close>

text \<open>The mathematical sum of the big-endian 16-bit words of a buffer, odd byte padded with 0.\<close>

fun sum16 :: "bytes \<Rightarrow> nat" where
  "sum16 (a # b # p) = 256 * unat a + unat b + sum16 p"
| "sum16 [a] = 256 * unat a"
| "sum16 [] = 0"

lemma sum16_append: "even (length xs) \<Longrightarrow> sum16 (xs @ ys) = sum16 xs + sum16 ys"
  by (induction xs rule: sum16.induct) auto

lemma sum16_bound: "sum16 xs \<le> 65535 * ((length xs + 1) div 2)"
proof (induction xs rule: sum16.induct)
  case (1 a b p)
  have "unat a \<le> 255" "unat b \<le> 255"
    using unat_byte_less [of a] unat_byte_less [of b] by simp_all
  with 1 show ?case by simp
next
  case (2 a)
  have "unat a \<le> 255" using unat_byte_less [of a] by simp
  then show ?case by simp
qed simp

lemma unat_word16_of_bytes:
  "unat (push_bit 8 (ucast a) OR ucast b :: u32) = 256 * unat a + unat b" for a b :: byte
proof -
  have "push_bit 8 (ucast a :: u32) AND ucast b = 0"
    by (rule bit_word_eqI) (auto simp: bit_simps dest: bit_imp_le_length)
  then have "(push_bit 8 (ucast a) OR ucast b :: u32) = push_bit 8 (ucast a) + ucast b"
    by (simp add: disjunctive_add_eq_or)
  moreover have "256 * unat a + unat b < 4294967296"
    using unat_byte_less [of a] unat_byte_less [of b] by linarith
  ultimately show ?thesis
    by (simp add: unat_word_ariths push_bit_eq_mult mult.commute)
qed

lemma unat_push8: "unat (push_bit 8 (ucast a) :: u32) = 256 * unat a" for a :: byte
  using unat_word16_of_bytes [of a 0] by simp

text \<open>The accumulator is the mathematical sum as long as that fits into 32 bits.\<close>

lemma unat_accumulate:
  "unat s + sum16 xs < 2 ^ 32 \<Longrightarrow> unat (checksum_accumulate xs s) = unat s + sum16 xs"
proof (induction xs s rule: checksum_accumulate.induct)
  case (1 a b p s)
  then show ?case by (simp add: unat_word_ariths unat_word16_of_bytes)
next
  case (2 a s)
  then show ?case by (simp add: unat_word_ariths unat_push8)
qed simp

lemma checksum_accumulate_append:
  "even (length xs) \<Longrightarrow> checksum_accumulate (xs @ ys) s = checksum_accumulate ys (checksum_accumulate xs s)"
  by (induction xs s rule: checksum_accumulate.induct) auto

section \<open>Folding is arithmetic modulo 65535\<close>

definition fold_nat :: "nat \<Rightarrow> nat" where
  "fold_nat n = (if n = 0 then 0 else if n mod 65535 = 0 then 65535 else n mod 65535)"

lemma fold_nat_step: "65536 \<le> n \<Longrightarrow> fold_nat (n mod 65536 + n div 65536) = fold_nat n"
proof -
  assume n: "65536 \<le> n"
  have "n = n div 65536 * 65536 + n mod 65536" by simp
  also have "\<dots> = 65535 * (n div 65536) + (n mod 65536 + n div 65536)" by simp
  finally have "n mod 65535 = (n mod 65536 + n div 65536) mod 65535"
    by (metis mod_mult_self4)
  moreover have "n mod 65536 + n div 65536 \<noteq> 0" using n by auto
  ultimately show ?thesis using n by (simp add: fold_nat_def)
qed

lemma unat_checksum_fold: "unat (checksum_fold s) = fold_nat (unat s)"
proof (induction s rule: checksum_fold.induct)
  case (1 s)
  have hi: "unat (drop_bit 16 s) = unat s div 65536"
    by (rule unat_drop16)
  show ?case
  proof (cases "drop_bit 16 s = 0")
    case True
    then have "unat s < 65536" using hi by simp
    then have "fold_nat (unat s) = unat s"
      by (cases "unat s = 65535") (auto simp: fold_nat_def)
    then show ?thesis using True by (simp add: checksum_fold.simps [of s])
  next
    case False
    then have "unat s div 65536 \<noteq> 0"
      using hi by (metis unat_eq_zero)
    then have "65536 \<le> unat s" by linarith
    then show ?thesis
      using 1 [OF False] False fold_step_less(2) [OF False]
      by (simp add: checksum_fold.simps [of s] fold_nat_step)
  qed
qed

lemma fold_nat_le: "fold_nat n \<le> 65535"
  by (auto simp: fold_nat_def less_imp_le)

lemma unat_checksum_finalize: "unat (checksum_finalize s) = 65535 - fold_nat (unat s)"
proof -
  let ?f = "checksum_fold s"
  have f: "unat ?f = fold_nat (unat s)" by (rule unat_checksum_fold)
  have "unat (NOT ?f) = unat (- 1 - ?f)"
    by (simp only: not_eq_complement diff_conv_add_uminus add.commute)
  also have "\<dots> = 4294967295 - unat ?f"
    by (subst unat_sub) (simp_all add: unsigned_minus_1_eq_mask mask_eq_exp_minus_1)
  finally have "unat (NOT ?f) = 4294967295 - unat ?f" .
  then have "unat (checksum_finalize s) = (4294967295 - unat ?f) mod 65536"
    by (simp add: checksum_finalize_def unsigned_ucast_eq take_bit_eq_mod)
  also have "4294967295 - unat ?f = (65535 - fold_nat (unat s)) + 65536 * 65535"
    using fold_nat_le [of "unat s"] by (simp add: f)
  also have "\<dots> mod 65536 = (65535 - fold_nat (unat s)) mod 65536"
    by (rule mod_mult_self2)
  also have "\<dots> = 65535 - fold_nat (unat s)"
    by (rule mod_less) simp
  finally show ?thesis .
qed

lemma checksum_finalize_eq_0_iff:
  "checksum_finalize s = 0 \<longleftrightarrow> unat s \<noteq> 0 \<and> unat s mod 65535 = 0"
proof -
  have "checksum_finalize s = 0 \<longleftrightarrow> unat (checksum_finalize s) = 0"
    by (simp add: unat_eq_zero)
  also have "\<dots> \<longleftrightarrow> fold_nat (unat s) = 65535"
    using fold_nat_le [of "unat s"] by (simp add: unat_checksum_finalize)
  also have "\<dots> \<longleftrightarrow> unat s \<noteq> 0 \<and> unat s mod 65535 = 0"
    by (auto simp: fold_nat_def split: if_splits)
  finally show ?thesis .
qed

section \<open>The receiver's check\<close>

text \<open>
  What an RFC 1071 receiver does: sum every word, the checksum field included, and accept if
  the complement of the folded sum is 0. For TCP the sum includes the pseudo header.
\<close>

definition rfc1071_ok :: "bytes \<Rightarrow> bool" where
  "rfc1071_ok xs \<longleftrightarrow> checksum_finalize (checksum_accumulate xs 0) = 0"

definition pseudo_v4 :: "bytes \<Rightarrow> nat \<Rightarrow> bytes" where
  "pseudo_v4 ip n = take 4 (drop 12 ip) @ take 4 (drop 16 ip) @ [0, 6] @ be16_bytes (of_nat n)"

definition pseudo_v6 :: "bytes \<Rightarrow> nat \<Rightarrow> bytes" where
  "pseudo_v6 ip n = take 16 (drop 8 ip) @ take 16 (drop 24 ip) @ be32_bytes (of_nat n) @ [0, 0, 0, 6]"

definition tcp_ok_v4 :: "bytes \<Rightarrow> bytes \<Rightarrow> bool" where
  "tcp_ok_v4 ip seg \<longleftrightarrow> rfc1071_ok (pseudo_v4 ip (length seg) @ seg)"

definition tcp_ok_v6 :: "bytes \<Rightarrow> bytes \<Rightarrow> bool" where
  "tcp_ok_v6 ip seg \<longleftrightarrow> rfc1071_ok (pseudo_v6 ip (length seg) @ seg)"

lemma sum16_small: "length xs \<le> 131000 \<Longrightarrow> sum16 xs < 2 ^ 32"
proof -
  assume "length xs \<le> 131000"
  then have "(length xs + 1) div 2 \<le> 65500" by linarith
  then have "65535 * ((length xs + 1) div 2) \<le> 65535 * 65500" by (rule mult_le_mono2)
  then show ?thesis using sum16_bound [of xs] by simp
qed

lemma rfc1071_ok_iff:
  "length xs \<le> 131000 \<Longrightarrow> rfc1071_ok xs \<longleftrightarrow> sum16 xs \<noteq> 0 \<and> sum16 xs mod 65535 = 0"
  using sum16_small [of xs]
  by (simp add: rfc1071_ok_def checksum_finalize_eq_0_iff unat_accumulate)

lemma sum16_be16_bytes [simp]: "sum16 (be16_bytes c) = unat c"
proof -
  have "unat c = unat (be16 (hi8 c) (lo8 c))" by simp
  also have "\<dots> = 256 * unat (hi8 c) + unat (lo8 c)" by (rule unat_be16)
  finally show ?thesis by (simp add: be16_bytes_def)
qed

lemma sum16_field:
  "even (length P) \<Longrightarrow> sum16 (P @ be16_bytes c @ Q) = sum16 P + unat c + sum16 Q"
  by (simp add: sum16_append)

text \<open>Storing the computed checksum makes the receiver's check succeed.\<close>

lemma checksum_field_ok:
  assumes "even (length P)" "length P + length Q \<le> 130000"
    and "c = checksum_finalize (checksum_accumulate Q (checksum_accumulate P 0))"
  shows "rfc1071_ok (P @ be16_bytes c @ Q)"
proof -
  let ?S = "sum16 P + sum16 Q"
  have "unat (checksum_accumulate (P @ Q) 0) = ?S"
    using sum16_small [of "P @ Q"] assms(1,2) by (simp add: unat_accumulate sum16_append)
  then have c: "unat c = 65535 - fold_nat ?S"
    using assms by (simp add: unat_checksum_finalize checksum_accumulate_append)
  have "?S + (65535 - fold_nat ?S) \<noteq> 0 \<and> (?S + (65535 - fold_nat ?S)) mod 65535 = 0"
  proof (cases "?S mod 65535 = 0")
    case True
    then show ?thesis by (auto simp: fold_nat_def mod_add_right_eq)
  next
    case False
    define m where "m = ?S mod 65535"
    have "m < 65535" by (simp add: m_def)
    have "(?S + (65535 - m)) mod 65535 = (m + (65535 - m)) mod 65535"
      unfolding m_def by (rule mod_add_left_eq [symmetric])
    with \<open>m < 65535\<close> have "(?S + (65535 - m)) mod 65535 = 0" by simp
    moreover have "fold_nat ?S = m" using False by (auto simp: fold_nat_def m_def)
    ultimately show ?thesis using False by auto
  qed
  then have "sum16 (P @ be16_bytes c @ Q) \<noteq> 0 \<and> sum16 (P @ be16_bytes c @ Q) mod 65535 = 0"
    using sum16_field [OF assms(1), of c Q] by (simp add: c ac_simps)
  then show ?thesis
    using assms(2) by (subst rfc1071_ok_iff) simp_all
qed

text \<open>Complementing a correct checksum breaks the check, except for the two representations
  of zero.\<close>

lemma unat_not16: "unat (NOT c) = 65535 - unat c" for c :: u16
proof -
  have "unat (NOT c) = unat (- 1 - c)"
    by (simp only: not_eq_complement diff_conv_add_uminus add.commute)
  also have "\<dots> = 65535 - unat c"
    by (subst unat_sub) (simp_all add: unsigned_minus_1_eq_mask mask_eq_exp_minus_1)
  finally show ?thesis .
qed

lemma checksum_complement:
  assumes "even (length P)" "length P + length Q \<le> 130000" "sum16 P + sum16 Q \<noteq> 0"
    and ok: "rfc1071_ok (P @ be16_bytes c @ Q)"
  shows "rfc1071_ok (P @ be16_bytes (NOT c) @ Q) \<longleftrightarrow> c = 0 \<or> c = 0xFFFF"
proof -
  define S where "S = sum16 P + sum16 Q"
  have cb: "unat c \<le> 65535" using unat_bound [of c] by simp
  have sums: "sum16 (P @ be16_bytes d @ Q) = S + unat d" for d
    using sum16_field [OF assms(1), of d Q] by (simp add: S_def)
  have iff: "rfc1071_ok (P @ be16_bytes d @ Q) \<longleftrightarrow> S + unat d \<noteq> 0 \<and> (S + unat d) mod 65535 = 0" for d
    using assms(2) by (subst rfc1071_ok_iff) (simp_all add: sums)
  from ok iff have dvd: "65535 dvd S + unat c" by auto
  have "rfc1071_ok (P @ be16_bytes (NOT c) @ Q) \<longleftrightarrow> 65535 dvd S + (65535 - unat c)"
    using assms(3) by (auto simp: iff unat_not16 S_def)
  also have "\<dots> \<longleftrightarrow> 65535 dvd 2 * unat c"
  proof -
    have "(S + (65535 - unat c)) + 2 * unat c = (S + unat c) + 65535"
      using cb by simp
    then show ?thesis
      using dvd dvd_add_right_iff dvd_add_left_iff dvd_add [OF dvd dvd_refl] by metis
  qed
  also have "\<dots> \<longleftrightarrow> 65535 dvd unat c"
    by (rule coprime_dvd_mult_right_iff) (simp add: coprime_right_2_iff_odd)
  also have "\<dots> \<longleftrightarrow> unat c = 0 \<or> unat c = 65535"
    using cb by (auto dest: dvd_imp_le)
  also have "\<dots> \<longleftrightarrow> c = 0 \<or> c = 0xFFFF"
    by (simp add: word_unat_eq_iff)
  finally show ?thesis .
qed

end
