(* ===== verification/Packet.thy ===== *)
theory Packet
  imports Checksum
begin

text \<open>
  The packet parsers of \<open>src/packet/ip.c\<close> and \<open>src/packet/tcp.c\<close> with the types of
  \<open>include/packet.h\<close>. A view keeps the header bytes and the payload bytes a C view points to;
  \<^const>\<open>None\<close> is a read outside the input buffer and is proved impossible.
\<close>

section \<open>Status codes, headers and views\<close>

text \<open>\<open>PACKET_OK\<close> is the right injection of the parsers' result.\<close>

datatype packet_status = PACKET_ERR_TRUNCATED | PACKET_ERR_MALFORMED | PACKET_ERR_UNSUPPORTED

definition TCP_FLAG_SYN :: byte where "TCP_FLAG_SYN = 0x02"
definition TCP_FLAG_ACK :: byte where "TCP_FLAG_ACK = 0x10"

text \<open>Sizes of the packed structs \<open>t_ipv4_header\<close>, \<open>t_ipv6_header\<close>, \<open>t_tcp_header\<close>.\<close>

abbreviation sizeof_ipv4_header :: nat where "sizeof_ipv4_header \<equiv> 20"
abbreviation sizeof_ipv6_header :: nat where "sizeof_ipv6_header \<equiv> 40"
abbreviation sizeof_tcp_header :: nat where "sizeof_tcp_header \<equiv> 20"

record ipv4_view =
  ip4_header :: bytes
  ip4_ihl_bytes :: nat
  ip4_total_len :: nat
  ip4_protocol :: byte
  ip4_payload :: bytes

record ipv6_view =
  ip6_header :: bytes
  ip6_next_header :: byte
  ip6_payload :: bytes

record tcp_view =
  tcp_header :: bytes
  tcp_offset_bytes :: nat
  tcp_seq :: u32
  tcp_ack :: u32
  tcp_flags :: byte
  tcp_payload :: bytes

section \<open>The parsers\<close>

definition packet_parse_ipv4 :: "bytes \<Rightarrow> (packet_status + ipv4_view) option" where
  "packet_parse_ipv4 data =
     (if length data < sizeof_ipv4_header then Some (Inl PACKET_ERR_TRUNCATED)
      else do {
        ver_ihl \<leftarrow> rd8 data 0;
        if drop_bit 4 ver_ihl \<noteq> 4 then Some (Inl PACKET_ERR_MALFORMED)
        else do {
          let ihl_bytes = unat ((ver_ihl AND 0x0F) * 4);
          if ihl_bytes < sizeof_ipv4_header \<or> ihl_bytes > length data
          then Some (Inl PACKET_ERR_TRUNCATED)
          else do {
            tl16 \<leftarrow> rd16 data 2;
            let total_len = unat tl16;
            if total_len < ihl_bytes \<or> total_len > length data
            then Some (Inl PACKET_ERR_TRUNCATED)
            else do {
              flags_frag \<leftarrow> rd16 data 6;
              if flags_frag AND 0x3FFF \<noteq> 0 then Some (Inl PACKET_ERR_UNSUPPORTED)
              else do {
                hdr \<leftarrow> sub_buf data 0 sizeof_ipv4_header;
                protocol \<leftarrow> rd8 data 9;
                payload \<leftarrow> sub_buf data ihl_bytes (total_len - ihl_bytes);
                Some (Inr \<lparr>ip4_header = hdr, ip4_ihl_bytes = ihl_bytes, ip4_total_len = total_len,
                           ip4_protocol = protocol, ip4_payload = payload\<rparr>)
              }
            }
          }
        }
      })"

definition packet_parse_ipv6 :: "bytes \<Rightarrow> (packet_status + ipv6_view) option" where
  "packet_parse_ipv6 data =
     (if length data < sizeof_ipv6_header then Some (Inl PACKET_ERR_TRUNCATED)
      else do {
        ver_class_flow \<leftarrow> rd32 data 0;
        if (ucast (drop_bit 28 ver_class_flow) :: byte) \<noteq> 6 then Some (Inl PACKET_ERR_MALFORMED)
        else do {
          pl16 \<leftarrow> rd16 data 4;
          let payload_len = unat pl16;
          if payload_len + sizeof_ipv6_header > length data
          then Some (Inl PACKET_ERR_TRUNCATED)
          else do {
            next_header \<leftarrow> rd8 data 6;
            if next_header \<noteq> 6 then Some (Inl PACKET_ERR_UNSUPPORTED)
            else do {
              hdr \<leftarrow> sub_buf data 0 sizeof_ipv6_header;
              payload \<leftarrow> sub_buf data sizeof_ipv6_header payload_len;
              Some (Inr \<lparr>ip6_header = hdr, ip6_next_header = next_header, ip6_payload = payload\<rparr>)
            }
          }
        }
      })"

definition packet_parse_tcp :: "bytes \<Rightarrow> (packet_status + tcp_view) option" where
  "packet_parse_tcp data =
     (if length data < sizeof_tcp_header then Some (Inl PACKET_ERR_TRUNCATED)
      else do {
        offset_reserved \<leftarrow> rd8 data 12;
        let offset_bytes = unat (drop_bit 4 offset_reserved * 4);
        if offset_bytes < sizeof_tcp_header \<or> offset_bytes > length data
        then Some (Inl PACKET_ERR_TRUNCATED)
        else do {
          hdr \<leftarrow> sub_buf data 0 sizeof_tcp_header;
          seq \<leftarrow> rd32 data 4;
          ack \<leftarrow> rd32 data 8;
          flags \<leftarrow> rd8 data 13;
          payload \<leftarrow> sub_buf data offset_bytes (length data - offset_bytes);
          Some (Inr \<lparr>tcp_header = hdr, tcp_offset_bytes = offset_bytes, tcp_seq = seq,
                     tcp_ack = ack, tcp_flags = flags, tcp_payload = payload\<rparr>)
        }
      })"

text \<open>The opening of \<open>packet_split_tcp_v4\<close>, \<open>packet_fragment_ipv4\<close> and
  \<open>packet_make_fake_tcp_v4\<close>: IPv4, protocol 6, then TCP.\<close>

definition parse_v4_tcp :: "bytes \<Rightarrow> (packet_status + ipv4_view \<times> tcp_view) option" where
  "parse_v4_tcp inp = do {
     r \<leftarrow> packet_parse_ipv4 inp;
     case r of Inl status \<Rightarrow> Some (Inl status)
     | Inr ip \<Rightarrow>
        if ip4_protocol ip \<noteq> 6 then Some (Inl PACKET_ERR_UNSUPPORTED)
        else do {
          t \<leftarrow> packet_parse_tcp (ip4_payload ip);
          case t of Inl status \<Rightarrow> Some (Inl status) | Inr tcp \<Rightarrow> Some (Inr (ip, tcp))
        }
   }"

definition parse_v6_tcp :: "bytes \<Rightarrow> (packet_status + ipv6_view \<times> tcp_view) option" where
  "parse_v6_tcp inp = do {
     r \<leftarrow> packet_parse_ipv6 inp;
     case r of Inl status \<Rightarrow> Some (Inl status)
     | Inr ip \<Rightarrow> do {
          t \<leftarrow> packet_parse_tcp (ip6_payload ip);
          case t of Inl status \<Rightarrow> Some (Inl status) | Inr tcp \<Rightarrow> Some (Inr (ip, tcp))
        }
   }"

section \<open>Characterisation of success\<close>

text \<open>The wire fields of an IPv4 header and a TCP header.\<close>

definition wire_ihl :: "bytes \<Rightarrow> nat" where
  "wire_ihl d = unat ((d ! 0 AND 0x0F) * 4)"

definition wire_total_len :: "bytes \<Rightarrow> nat" where
  "wire_total_len d = unat (be16 (d ! 2) (d ! 3))"

definition wire_doff :: "bytes \<Rightarrow> nat" where
  "wire_doff t = unat (drop_bit 4 (t ! 12) * 4)"

lemmas wire_defs = wire_ihl_def wire_total_len_def wire_doff_def

definition ipv4_wf :: "bytes \<Rightarrow> bool" where
  "ipv4_wf d \<longleftrightarrow> sizeof_ipv4_header \<le> length d \<and> drop_bit 4 (d ! 0) = 4 \<and>
     sizeof_ipv4_header \<le> wire_ihl d \<and> wire_ihl d \<le> wire_total_len d \<and> wire_total_len d \<le> length d \<and>
     be16 (d ! 6) (d ! 7) AND 0x3FFF = 0"

definition tcp_wf :: "bytes \<Rightarrow> bool" where
  "tcp_wf t \<longleftrightarrow> sizeof_tcp_header \<le> length t \<and> sizeof_tcp_header \<le> wire_doff t \<and> wire_doff t \<le> length t"

definition view_of_ipv4 :: "bytes \<Rightarrow> ipv4_view" where
  "view_of_ipv4 d = \<lparr>ip4_header = take 20 d, ip4_ihl_bytes = wire_ihl d, ip4_total_len = wire_total_len d,
     ip4_protocol = d ! 9, ip4_payload = take (wire_total_len d - wire_ihl d) (drop (wire_ihl d) d)\<rparr>"

definition view_of_tcp :: "bytes \<Rightarrow> tcp_view" where
  "view_of_tcp t = \<lparr>tcp_header = take 20 t, tcp_offset_bytes = wire_doff t,
     tcp_seq = be32 (t ! 4) (t ! 5) (t ! 6) (t ! 7), tcp_ack = be32 (t ! 8) (t ! 9) (t ! 10) (t ! 11),
     tcp_flags = t ! 13, tcp_payload = drop (wire_doff t) t\<rparr>"

lemma packet_parse_ipv4_Inr_iff:
  "packet_parse_ipv4 d = Some (Inr v) \<longleftrightarrow> ipv4_wf d \<and> v = view_of_ipv4 d"
  by (auto simp: packet_parse_ipv4_def ipv4_wf_def view_of_ipv4_def wire_defs mem_simps Let_def
      split: if_splits)

lemma packet_parse_tcp_Inr_iff:
  "packet_parse_tcp t = Some (Inr v) \<longleftrightarrow> tcp_wf t \<and> v = view_of_tcp t"
  by (auto simp: packet_parse_tcp_def tcp_wf_def view_of_tcp_def wire_defs mem_simps Let_def
      split: if_splits)

section \<open>No read outside the buffer\<close>

lemma packet_parse_ipv4_total: "packet_parse_ipv4 d \<noteq> None"
  by (auto simp: packet_parse_ipv4_def mem_simps Let_def)

lemma packet_parse_tcp_total: "packet_parse_tcp t \<noteq> None"
  by (auto simp: packet_parse_tcp_def mem_simps Let_def)

lemma packet_parse_ipv6_total: "packet_parse_ipv6 d \<noteq> None"
  by (auto simp: packet_parse_ipv6_def mem_simps Let_def)

definition ipv6_wf :: "bytes \<Rightarrow> bool" where
  "ipv6_wf d \<longleftrightarrow> sizeof_ipv6_header \<le> length d \<and>
     (ucast (drop_bit 28 (be32 (d ! 0) (d ! 1) (d ! 2) (d ! 3))) :: byte) = 6 \<and>
     unat (be16 (d ! 4) (d ! 5)) + sizeof_ipv6_header \<le> length d \<and> d ! 6 = 6"

definition view_of_ipv6 :: "bytes \<Rightarrow> ipv6_view" where
  "view_of_ipv6 d = \<lparr>ip6_header = take 40 d, ip6_next_header = d ! 6,
     ip6_payload = take (unat (be16 (d ! 4) (d ! 5))) (drop 40 d)\<rparr>"

lemma packet_parse_ipv6_Inr_iff:
  "packet_parse_ipv6 d = Some (Inr v) \<longleftrightarrow> ipv6_wf d \<and> v = view_of_ipv6 d"
  by (auto simp: packet_parse_ipv6_def ipv6_wf_def view_of_ipv6_def mem_simps Let_def
      numeral_2_eq_2 split: if_splits)

text \<open>The IP payload and TCP segment of a well-formed packet.\<close>

definition ipv4_payload_of :: "bytes \<Rightarrow> bytes" where
  "ipv4_payload_of d = take (wire_total_len d - wire_ihl d) (drop (wire_ihl d) d)"

definition v4_tcp_wf :: "bytes \<Rightarrow> bool" where
  "v4_tcp_wf d \<longleftrightarrow> ipv4_wf d \<and> d ! 9 = 6 \<and> tcp_wf (ipv4_payload_of d)"

lemma parse_v4_tcp_Inr_iff:
  "parse_v4_tcp d = Some (Inr (ip, tcp)) \<longleftrightarrow>
     v4_tcp_wf d \<and> ip = view_of_ipv4 d \<and> tcp = view_of_tcp (ipv4_payload_of d)"
  by (auto simp: parse_v4_tcp_def v4_tcp_wf_def bind_status packet_parse_ipv4_Inr_iff
      packet_parse_tcp_Inr_iff view_of_ipv4_def ipv4_payload_of_def split: if_splits)

lemma parse_v4_tcp_total: "parse_v4_tcp d \<noteq> None"
  by (auto simp only: parse_v4_tcp_def bind_status packet_parse_ipv4_total packet_parse_tcp_total
      split: if_splits)

definition v6_tcp_wf :: "bytes \<Rightarrow> bool" where
  "v6_tcp_wf d \<longleftrightarrow> ipv6_wf d \<and> tcp_wf (ip6_payload (view_of_ipv6 d))"

lemma parse_v6_tcp_Inr_iff:
  "parse_v6_tcp d = Some (Inr (ip, tcp)) \<longleftrightarrow>
     v6_tcp_wf d \<and> ip = view_of_ipv6 d \<and> tcp = view_of_tcp (ip6_payload (view_of_ipv6 d))"
  by (auto simp: parse_v6_tcp_def v6_tcp_wf_def bind_status packet_parse_ipv6_Inr_iff
      packet_parse_tcp_Inr_iff)

lemma parse_v6_tcp_total: "parse_v6_tcp d \<noteq> None"
  by (auto simp only: parse_v6_tcp_def bind_status packet_parse_ipv6_total packet_parse_tcp_total)

section \<open>Shape of a well-formed packet\<close>

lemma wire_ihl_le_60: "wire_ihl d \<le> 60"
proof -
  have "unat (d ! 0 AND 0x0F) \<le> unat (0x0F :: byte)"
    by (rule word_and_le1 [THEN word_le_nat_alt [THEN iffD1]])
  then show ?thesis by (simp add: wire_ihl_def unat_word_ariths)
qed

lemma even_wire_ihl: "even (wire_ihl d)"
proof -
  have "even ((unat (d ! 0 AND 0x0F) * 4) mod 256)"
    by (simp add: dvd_mod_iff)
  then show ?thesis by (simp add: wire_ihl_def unat_word_ariths)
qed

lemma wire_total_len_less: "wire_total_len d < 65536"
  by (simp add: wire_total_len_def unat_be16_less)

lemma ipv4_wf_split:
  assumes "ipv4_wf d"
  shows "take (wire_total_len d) d = take (wire_ihl d) d @ ipv4_payload_of d"
    and "length (take (wire_ihl d) d) = wire_ihl d"
    and "length (ipv4_payload_of d) = wire_total_len d - wire_ihl d"
  using assms by (auto simp: ipv4_wf_def ipv4_payload_of_def take_add [symmetric])

end
