(* ===== verification/Rebuild.thy ===== *)
theory Rebuild
  imports Packet
begin

text \<open>
  What the packet builders (\<open>split.c\<close>, \<open>fragment.c\<close>, \<open>fake.c\<close>) have in common: a rewritten
  IPv4 header followed by a rewritten IP payload, with the header checksum and, where the
  builder recomputes it, the TCP checksum stored last. The lemmas here are shared by the
  correctness proofs of the three builders.
\<close>

section \<open>Checksums of header and segment, without the field\<close>

definition hdr_csum :: "bytes \<Rightarrow> u16" where
  "hdr_csum h = checksum_finalize (checksum_accumulate (drop 12 h) (checksum_accumulate (take 10 h) 0))"

definition tcp_csum :: "bytes \<Rightarrow> bytes \<Rightarrow> u16" where
  "tcp_csum pseudo t =
     checksum_finalize (checksum_accumulate (drop 18 t) (checksum_accumulate (pseudo @ take 16 t) 0))"

lemma checksum_ipv4_header_eq:
  "12 \<le> length h \<Longrightarrow> ihl = length h \<Longrightarrow> checksum_ipv4_header (h @ r) ihl = Some (hdr_csum h)"
  by (simp add: checksum_ipv4_header_def hdr_csum_def mem_simps)

lemma pseudo_v4_append [simp]: "20 \<le> length h \<Longrightarrow> pseudo_v4 (h @ r) n = pseudo_v4 h n"
  by (simp add: pseudo_v4_def)

lemma pseudo_v6_append [simp]: "40 \<le> length h \<Longrightarrow> pseudo_v6 (h @ r) n = pseudo_v6 h n"
  by (simp add: pseudo_v6_def)

lemma length_pseudo_v4 [simp]: "20 \<le> length h \<Longrightarrow> length (pseudo_v4 h n) = 12"
  by (simp add: pseudo_v4_def)

lemma length_pseudo_v6 [simp]: "40 \<le> length h \<Longrightarrow> length (pseudo_v6 h n) = 40"
  by (simp add: pseudo_v6_def)

lemma checksum_tcp_v4_eq:
  assumes "20 \<le> length h" "18 \<le> length t"
  shows "checksum_tcp_v4 h t = Some (tcp_csum (pseudo_v4 h (length t)) t)"
proof -
  have "checksum_accumulate (pseudo_v4 h (length t) @ take 16 t) s =
      checksum_accumulate (take 16 t) (checksum_accumulate ([0, 6] @ be16_bytes (of_nat (length t)))
        (checksum_accumulate (take 4 (drop 16 h)) (checksum_accumulate (take 4 (drop 12 h)) s)))" for s
    using assms by (simp add: pseudo_v4_def checksum_accumulate_append)
  then show ?thesis
    using assms by (simp add: checksum_tcp_v4_def tcp_csum_def mem_simps Let_def)
qed

lemma checksum_tcp_v6_eq:
  assumes "40 \<le> length h" "18 \<le> length t"
  shows "checksum_tcp_v6 h t = Some (tcp_csum (pseudo_v6 h (length t)) t)"
proof -
  have "checksum_accumulate (pseudo_v6 h (length t) @ take 16 t) s =
      checksum_accumulate (take 16 t) (checksum_accumulate (be32_bytes (of_nat (length t)) @ [0, 0, 0, 6])
        (checksum_accumulate (take 16 (drop 24 h)) (checksum_accumulate (take 16 (drop 8 h)) s)))" for s
    using assms by (simp add: pseudo_v6_def checksum_accumulate_append)
  then show ?thesis
    using assms by (simp add: checksum_tcp_v6_def tcp_csum_def mem_simps Let_def)
qed

lemma put_put_same: "length x = length y \<Longrightarrow> off + length x \<le> length d \<Longrightarrow> put (put d off x) off y = put d off y"
  by (simp add: put_def)

lemma hdr_csum_put [simp]: "12 \<le> length h \<Longrightarrow> hdr_csum (put h 10 (be16_bytes v)) = hdr_csum h"
  by (simp add: hdr_csum_def)

lemma tcp_csum_put [simp]: "18 \<le> length t \<Longrightarrow> tcp_csum p (put t 16 (be16_bytes v)) = tcp_csum p t"
  by (simp add: tcp_csum_def)

lemma pseudo_v4_put [simp]:
  "off + length x \<le> 12 \<Longrightarrow> 20 \<le> length h \<Longrightarrow> pseudo_v4 (put h off x) n = pseudo_v4 h n"
  by (simp add: pseudo_v4_def)

lemma pseudo_v6_put [simp]:
  "off + length x \<le> 8 \<Longrightarrow> 40 \<le> length h \<Longrightarrow> pseudo_v6 (put h off x) n = pseudo_v6 h n"
  by (simp add: pseudo_v6_def)

lemma put_split: "off + length x \<le> length d \<Longrightarrow> put d off x = take off d @ x @ drop (off + length x) d"
  by (simp add: put_def)

text \<open>A stored header checksum verifies, and so does a stored TCP checksum.\<close>

lemma hdr_csum_ok:
  assumes "12 \<le> length h" "length h \<le> 60"
  shows "rfc1071_ok (put h 10 (be16_bytes (hdr_csum h)))"
  using checksum_field_ok [of "take 10 h" "drop 12 h"] assms
  by (simp add: put_def hdr_csum_def)

lemma tcp_csum_ok:
  assumes "even (length p)" "length p \<le> 40" "18 \<le> length t" "length t \<le> 65535"
  shows "rfc1071_ok (p @ put t 16 (be16_bytes (tcp_csum p t)))"
  using checksum_field_ok [of "p @ take 16 t" "drop 18 t"] assms
  by (simp add: put_def tcp_csum_def)

section \<open>A rewritten IPv4 header is well formed\<close>

definition new_v4_header :: "bytes \<Rightarrow> nat \<Rightarrow> bytes" where
  "new_v4_header h tlen =
     (let h1 = put h 2 (be16_bytes (of_nat tlen)) in put h1 10 (be16_bytes (hdr_csum h1)))"

lemma length_new_v4_header [simp]: "12 \<le> length h \<Longrightarrow> length (new_v4_header h n) = length h"
  by (simp add: new_v4_header_def Let_def)

lemma nth_new_v4_header:
  assumes "12 \<le> length h"
  shows "i < length h \<Longrightarrow> i \<notin> {2, 3, 10, 11} \<Longrightarrow> new_v4_header h n ! i = h ! i"
    and "new_v4_header h n ! 2 = hi8 (of_nat n)" and "new_v4_header h n ! 3 = lo8 (of_nat n)"
  using assms by (auto simp: new_v4_header_def Let_def nth_put be16_bytes_def)

lemma new_v4_header_csum_ok:
  "12 \<le> length h \<Longrightarrow> length h \<le> 60 \<Longrightarrow> rfc1071_ok (new_v4_header h n)"
  using hdr_csum_ok [of "put h 2 (be16_bytes (of_nat n))"]
  by (simp add: new_v4_header_def Let_def)

lemma pseudo_new_v4_header [simp]: "20 \<le> length h \<Longrightarrow> pseudo_v4 (new_v4_header h n) m = pseudo_v4 h m"
  by (simp add: new_v4_header_def Let_def)

lemma of_nat16_unat: "n < 65536 \<Longrightarrow> unat (of_nat n :: u16) = n"
  by (simp add: unat_of_nat)

text \<open>\<open>g\<close> is the header as copied (and patched) before the length and the checksum are
  stored, \<open>t\<close> the IP payload.\<close>

lemma framed_v4:
  assumes g: "20 \<le> length g" "wire_ihl g = length g" and t: "length g + length t < 65536"
  defines "h \<equiv> new_v4_header g (length g + length t)"
  shows "length h = length g" "rfc1071_ok h" "pseudo_v4 h m = pseudo_v4 g m"
    and "\<And>i. i < length g \<Longrightarrow> i \<notin> {2, 3, 10, 11} \<Longrightarrow> (h @ t) ! i = g ! i"
    and "wire_ihl (h @ t) = length g" "wire_total_len (h @ t) = length (h @ t)"
    and "ipv4_payload_of (h @ t) = t"
    and "ipv4_wf (h @ t) \<longleftrightarrow> drop_bit 4 (g ! 0) = 4 \<and> be16 (g ! 6) (g ! 7) AND 0x3FFF = 0"
proof -
  have le60: "length g \<le> 60" using wire_ihl_le_60 [of g] g by simp
  show len: "length h = length g" using g by (simp add: h_def)
  show "rfc1071_ok h" using g le60 by (simp add: h_def new_v4_header_csum_ok)
  show "pseudo_v4 h m = pseudo_v4 g m" using g by (simp add: h_def)
  show nth: "(h @ t) ! i = g ! i" if "i < length g" "i \<notin> {2, 3, 10, 11}" for i
    using that g len by (simp add: h_def nth_new_v4_header nth_append)
  show ihl: "wire_ihl (h @ t) = length g"
    using nth [of 0] g by (simp add: wire_ihl_def)
  have "h ! 2 = hi8 (of_nat (length g + length t))" "h ! 3 = lo8 (of_nat (length g + length t))"
    using g unfolding h_def by (simp_all add: nth_new_v4_header del: of_nat_add)
  then show tot: "wire_total_len (h @ t) = length (h @ t)"
    using g len t by (simp add: wire_total_len_def nth_append of_nat16_unat del: of_nat_add)
  show "ipv4_payload_of (h @ t) = t"
    unfolding ipv4_payload_of_def ihl tot by (simp add: len)
  show "ipv4_wf (h @ t) \<longleftrightarrow> drop_bit 4 (g ! 0) = 4 \<and> be16 (g ! 6) (g ! 7) AND 0x3FFF = 0"
    using g nth [of 0] nth [of 6] nth [of 7] unfolding ipv4_wf_def ihl tot by (simp add: len)
qed

text \<open>The header bytes of a well-formed packet, as copied by the builders.\<close>

lemma v4_header_of_wf:
  assumes wf: "ipv4_wf d"
  defines "g \<equiv> take (wire_ihl d) d"
  shows "length g = wire_ihl d" "20 \<le> length g" "wire_ihl g = length g" "drop_bit 4 (g ! 0) = 4"
    "be16 (g ! 6) (g ! 7) AND 0x3FFF = 0" "pseudo_v4 g m = pseudo_v4 d m"
    "length g + length (ipv4_payload_of d) < 65536"
proof -
  show len: "length g = wire_ihl d" using ipv4_wf_split(2) [OF wf] by (simp add: g_def)
  show twenty: "20 \<le> length g" using wf len by (simp add: ipv4_wf_def)
  then show "wire_ihl g = length g" "drop_bit 4 (g ! 0) = 4" "be16 (g ! 6) (g ! 7) AND 0x3FFF = 0"
    using wf len by (simp_all add: g_def ipv4_wf_def wire_ihl_def)
  show "pseudo_v4 g m = pseudo_v4 d m"
    using pseudo_v4_append [of g "drop (wire_ihl d) d" m] twenty by (simp add: g_def)
  show "length g + length (ipv4_payload_of d) < 65536"
    using wf wire_total_len_less [of d] by (simp add: len ipv4_wf_split(3) ipv4_wf_def)
qed

end
