(* ===== verification/Split.thy ===== *)
theory Split
  imports Rebuild
begin

text \<open>
  \<open>src/packet/split.c\<close>: a TCP segment is cut in two at a payload offset. Every store of the C
  code is a store of the model, in the same order; the output buffers are the byte lists the
  stores build. The two outputs are shown to be well-formed packets whose payloads are the two
  parts of the original one and whose checksums a receiver accepts.
\<close>

section \<open>The builders\<close>

definition split_v4_seg1 :: "bytes \<Rightarrow> ipv4_view \<Rightarrow> tcp_view \<Rightarrow> nat \<Rightarrow> bytes option" where
  "split_v4_seg1 inp ip tcp split_offset = do {
     let ihl = ip4_ihl_bytes ip;
     let hdrs_len = ihl + tcp_offset_bytes tcp;
     hdrs \<leftarrow> sub_buf inp 0 hdrs_len;
     chunk \<leftarrow> sub_buf (tcp_payload tcp) 0 split_offset;
     let out1 = hdrs @ chunk;
     let out1_len = hdrs_len + split_offset;
     out1 \<leftarrow> st16 out1 2 (of_nat out1_len);
     out1 \<leftarrow> st16 out1 10 0;
     csum \<leftarrow> checksum_ipv4_header out1 ihl;
     out1 \<leftarrow> st16 out1 10 csum;
     out1 \<leftarrow> st16 out1 (ihl + 16) 0;
     seg \<leftarrow> sub_buf out1 ihl (tcp_offset_bytes tcp + split_offset);
     csum \<leftarrow> checksum_tcp_v4 out1 seg;
     st16 out1 (ihl + 16) csum
   }"

definition split_v4_seg2 :: "bytes \<Rightarrow> ipv4_view \<Rightarrow> tcp_view \<Rightarrow> nat \<Rightarrow> bytes option" where
  "split_v4_seg2 inp ip tcp split_offset = do {
     let ihl = ip4_ihl_bytes ip;
     let hdrs_len = ihl + tcp_offset_bytes tcp;
     let rest_len = length (tcp_payload tcp) - split_offset;
     hdrs \<leftarrow> sub_buf inp 0 hdrs_len;
     chunk \<leftarrow> sub_buf (tcp_payload tcp) split_offset rest_len;
     let out2 = hdrs @ chunk;
     let out2_len = hdrs_len + rest_len;
     out2 \<leftarrow> st16 out2 2 (of_nat out2_len);
     out2 \<leftarrow> st16 out2 10 0;
     out2 \<leftarrow> st32 out2 (ihl + 4) (tcp_seq tcp + of_nat split_offset);
     out2 \<leftarrow> st16 out2 (ihl + 16) 0;
     csum \<leftarrow> checksum_ipv4_header out2 ihl;
     out2 \<leftarrow> st16 out2 10 csum;
     seg \<leftarrow> sub_buf out2 ihl (tcp_offset_bytes tcp + rest_len);
     csum \<leftarrow> checksum_tcp_v4 out2 seg;
     st16 out2 (ihl + 16) csum
   }"

definition packet_split_tcp_v4 :: "bytes \<Rightarrow> nat \<Rightarrow> (packet_status + bytes \<times> bytes) option" where
  "packet_split_tcp_v4 inp split_offset = do {
     r \<leftarrow> parse_v4_tcp inp;
     case r of Inl status \<Rightarrow> Some (Inl status)
     | Inr v \<Rightarrow>
        let ip = fst v; tcp = snd v in
        if split_offset = 0 \<or> length (tcp_payload tcp) \<le> split_offset
        then Some (Inl PACKET_ERR_MALFORMED)
        else do {
          out1 \<leftarrow> split_v4_seg1 inp ip tcp split_offset;
          out2 \<leftarrow> split_v4_seg2 inp ip tcp split_offset;
          Some (Inr (out1, out2))
        }
   }"

text \<open>\<open>upper_len\<close> is a \<open>uint16_t\<close>: the length stored and the length summed are both the
  truncated value.\<close>

definition split_v6_seg1 :: "bytes \<Rightarrow> tcp_view \<Rightarrow> nat \<Rightarrow> bytes option" where
  "split_v6_seg1 inp tcp split_offset = do {
     let hdrs_len = sizeof_ipv6_header + tcp_offset_bytes tcp;
     hdrs \<leftarrow> sub_buf inp 0 hdrs_len;
     chunk \<leftarrow> sub_buf (tcp_payload tcp) 0 split_offset;
     let out1 = hdrs @ chunk;
     let upper_len = (of_nat (tcp_offset_bytes tcp + split_offset) :: u16);
     out1 \<leftarrow> st16 out1 4 upper_len;
     out1 \<leftarrow> st16 out1 (40 + 16) 0;
     seg \<leftarrow> sub_buf out1 40 (unat upper_len);
     csum \<leftarrow> checksum_tcp_v6 out1 seg;
     st16 out1 (40 + 16) csum
   }"

definition split_v6_seg2 :: "bytes \<Rightarrow> tcp_view \<Rightarrow> nat \<Rightarrow> bytes option" where
  "split_v6_seg2 inp tcp split_offset = do {
     let hdrs_len = sizeof_ipv6_header + tcp_offset_bytes tcp;
     let rest_len = length (tcp_payload tcp) - split_offset;
     hdrs \<leftarrow> sub_buf inp 0 hdrs_len;
     chunk \<leftarrow> sub_buf (tcp_payload tcp) split_offset rest_len;
     let out2 = hdrs @ chunk;
     let upper_len = (of_nat (tcp_offset_bytes tcp + rest_len) :: u16);
     out2 \<leftarrow> st16 out2 4 upper_len;
     out2 \<leftarrow> st32 out2 (40 + 4) (tcp_seq tcp + of_nat split_offset);
     out2 \<leftarrow> st16 out2 (40 + 16) 0;
     seg \<leftarrow> sub_buf out2 40 (unat upper_len);
     csum \<leftarrow> checksum_tcp_v6 out2 seg;
     st16 out2 (40 + 16) csum
   }"

definition packet_split_tcp_v6 :: "bytes \<Rightarrow> nat \<Rightarrow> (packet_status + bytes \<times> bytes) option" where
  "packet_split_tcp_v6 inp split_offset = do {
     r \<leftarrow> parse_v6_tcp inp;
     case r of Inl status \<Rightarrow> Some (Inl status)
     | Inr v \<Rightarrow>
        let tcp = snd v in
        if split_offset = 0 \<or> length (tcp_payload tcp) \<le> split_offset
        then Some (Inl PACKET_ERR_MALFORMED)
        else do {
          out1 \<leftarrow> split_v6_seg1 inp tcp split_offset;
          out2 \<leftarrow> split_v6_seg2 inp tcp split_offset;
          Some (Inr (out1, out2))
        }
   }"

section \<open>What the stores build\<close>

lemma put_append_right' [simp]: "length xs = n \<Longrightarrow> put (xs @ ys) (n + k) src = xs @ put ys k src"
  by (rule put_append_right) simp

lemma put_put_commute:
  assumes "a + length x \<le> b" "b + length y \<le> length d"
  shows "put (put d a x) b y = put (put d b y) a x"
proof (rule nth_equalityI)
  show "length (put (put d a x) b y) = length (put (put d b y) a x)" using assms by simp
  fix i assume "i < length (put (put d a x) b y)"
  then show "put (put d a x) b y ! i = put (put d b y) a x ! i"
    using assms by (auto simp: nth_put)
qed

text \<open>\<open>g\<close>: the copied IP header, \<open>s\<close>: the TCP segment before its checksum is stored.\<close>

definition with_csum :: "bytes \<Rightarrow> bytes \<Rightarrow> bytes" where
  "with_csum p s = put s 16 (be16_bytes (tcp_csum p s))"

lemma length_with_csum [simp]: "18 \<le> length s \<Longrightarrow> length (with_csum p s) = length s"
  by (simp add: with_csum_def)

lemma nth_with_csum: "18 \<le> length s \<Longrightarrow> i < length s \<Longrightarrow> i \<noteq> 16 \<Longrightarrow> i \<noteq> 17 \<Longrightarrow> with_csum p s ! i = s ! i"
  by (auto simp: with_csum_def nth_put)

lemma wire_doff_with_csum [simp]: "18 \<le> length s \<Longrightarrow> wire_doff (with_csum p s) = wire_doff s"
  by (simp add: wire_doff_def nth_with_csum)

lemma tcp_csum_put_append [simp]:
  "18 \<le> length th \<Longrightarrow> tcp_csum p (put th 16 (be16_bytes v) @ r) = tcp_csum p (th @ r)"
  using tcp_csum_put [of "th @ r"] by simp

lemmas build_simps = mem_simps Let_def checksum_ipv4_header_eq checksum_tcp_v4_eq checksum_tcp_v6_eq
  put_put_same with_csum_def new_v4_header_def min_absorb2 add.assoc

lemma split_v4_seg1_eq:
  assumes "sub_buf inp 0 (ip4_ihl_bytes ip + tcp_offset_bytes tcp) = Some (g @ th)"
    and "length g = ip4_ihl_bytes ip" "length th = tcp_offset_bytes tcp"
    and "20 \<le> length g" "20 \<le> length th" "k \<le> length (tcp_payload tcp)"
  shows "split_v4_seg1 inp ip tcp k =
     Some (new_v4_header g (length g + (length th + k)) @
           with_csum (pseudo_v4 g (length th + k)) (th @ take k (tcp_payload tcp)))"
  using assms by (simp add: split_v4_seg1_def build_simps)

lemma split_v4_seg2_eq:
  assumes "sub_buf inp 0 (ip4_ihl_bytes ip + tcp_offset_bytes tcp) = Some (g @ th)"
    and "length g = ip4_ihl_bytes ip" "length th = tcp_offset_bytes tcp"
    and "20 \<le> length g" "20 \<le> length th" "k \<le> length (tcp_payload tcp)"
  defines "r \<equiv> drop k (tcp_payload tcp)"
  shows "split_v4_seg2 inp ip tcp k =
     Some (new_v4_header g (length g + (length th + length r)) @
           with_csum (pseudo_v4 g (length th + length r))
             (put th 4 (be32_bytes (tcp_seq tcp + of_nat k)) @ r))"
  using assms by (simp add: split_v4_seg2_def build_simps del: of_nat_add of_nat_diff)

section \<open>The pieces are well-formed packets\<close>

text \<open>\<open>v4_piece d out off chunk\<close>: \<open>out\<close> is a packet with valid checksums that carries
  \<open>chunk\<close> at position \<open>off\<close> of the segment in \<open>d\<close> and otherwise repeats the headers of
  \<open>d\<close>.\<close>

definition v4_piece :: "bytes \<Rightarrow> bytes \<Rightarrow> nat \<Rightarrow> bytes \<Rightarrow> bool" where
  "v4_piece d out off chunk \<longleftrightarrow> (\<exists>ip tcp ip' tcp'.
     parse_v4_tcp d = Some (Inr (ip, tcp)) \<and> parse_v4_tcp out = Some (Inr (ip', tcp')) \<and>
     tcp_payload tcp' = chunk \<and> tcp_seq tcp' = tcp_seq tcp + of_nat off \<and>
     tcp_ack tcp' = tcp_ack tcp \<and> tcp_flags tcp' = tcp_flags tcp \<and>
     tcp_offset_bytes tcp' = tcp_offset_bytes tcp \<and> take 4 (tcp_header tcp') = take 4 (tcp_header tcp) \<and>
     ip4_ihl_bytes ip' = ip4_ihl_bytes ip \<and> ip4_total_len ip' = length out \<and>
     (\<forall>i < ip4_ihl_bytes ip. i \<notin> {2, 3, 10, 11} \<longrightarrow> out ! i = d ! i) \<and>
     rfc1071_ok (take (ip4_ihl_bytes ip') out) \<and> tcp_ok_v4 (ip4_header ip') (ip4_payload ip'))"

lemma tcp_header_of_wf:
  assumes "tcp_wf t"
  shows "length (take (wire_doff t) t) = wire_doff t" "20 \<le> wire_doff t"
    "wire_doff (take (wire_doff t) t @ r) = wire_doff t"
  using assms by (auto simp: tcp_wf_def wire_doff_def min_absorb2 nth_append)

lemma with_csum_ok_v4:
  assumes "20 \<le> length g" "18 \<le> length s" "length s \<le> 65535"
  shows "rfc1071_ok (pseudo_v4 g (length s) @ with_csum (pseudo_v4 g (length s)) s)"
  using tcp_csum_ok [of "pseudo_v4 g (length s)" s] assms by (simp add: with_csum_def)

lemma v4_piece_of_parts:
  assumes wf: "v4_tcp_wf d"
  defines "g \<equiv> take (wire_ihl d) d" and "T \<equiv> ipv4_payload_of d"
  assumes len: "length th = wire_doff T" and "length chunk \<le> length T - wire_doff T"
    and same: "\<And>i. i < 16 \<Longrightarrow> i \<notin> {4, 5, 6, 7} \<Longrightarrow> th ! i = T ! i"
    and seq: "be32 (th ! 4) (th ! 5) (th ! 6) (th ! 7) = be32 (T ! 4) (T ! 5) (T ! 6) (T ! 7) + of_nat off"
  defines "s \<equiv> th @ chunk"
  defines "out \<equiv> new_v4_header g (length g + length s) @ with_csum (pseudo_v4 g (length s)) s"
  shows "v4_piece d out off chunk" "length out = length g + length s"
proof -
  have wf4: "ipv4_wf d" and p6: "d ! 9 = 6" and wft: "tcp_wf T"
    using wf by (simp_all add: v4_tcp_wf_def T_def)
  have doff: "20 \<le> wire_doff T" "wire_doff T \<le> length T" using wft by (simp_all add: tcp_wf_def)
  have lens: "length s \<le> length T" "20 \<le> length s" using assms doff by (simp_all add: s_def)
  note g = v4_header_of_wf [OF wf4, folded g_def]
  let ?s = "with_csum (pseudo_v4 g (length s)) s"
  have ls: "length ?s = length s" using lens by simp
  have lt: "length g + length ?s < 65536" using g(7) lens unfolding ls by (simp add: T_def)
  note fr = framed_v4 [OF g(2,3) lt, unfolded ls, folded out_def]
  show "length out = length g + length s" using fr(1) ls by (simp add: out_def)
  have nth_s: "?s ! i = th ! i" if "i < 16" for i
    using that lens len doff by (simp add: nth_with_csum) (simp add: s_def nth_append)
  have doff_s: "wire_doff ?s = wire_doff T" using nth_s [of 12] same [of 12] by (simp add: wire_doff_def)
  have wfs: "tcp_wf ?s" using doff_s ls lens len doff by (simp add: tcp_wf_def s_def)
  have pay: "drop (wire_doff T) ?s = chunk" using len doff unfolding with_csum_def s_def by simp
  have wfo: "v4_tcp_wf out"
    using fr(4) [of 9] fr(7,8) g p6 wfs by (simp add: v4_tcp_wf_def g_def)
  have hdr: "take 4 ?s = take 4 T"
    by (rule nth_equalityI) (use ls lens doff same nth_s in auto)
  have po: "parse_v4_tcp out = Some (Inr (view_of_ipv4 out, view_of_tcp ?s))"
    unfolding parse_v4_tcp_Inr_iff using wfo fr(7) by simp
  have pd: "parse_v4_tcp d = Some (Inr (view_of_ipv4 d, view_of_tcp T))"
    unfolding parse_v4_tcp_Inr_iff using wf by (simp add: T_def)
  show "v4_piece d out off chunk"
    unfolding v4_piece_def
  proof (intro exI conjI)
    show "parse_v4_tcp d = Some (Inr (view_of_ipv4 d, view_of_tcp T))" by (rule pd)
    show "parse_v4_tcp out = Some (Inr (view_of_ipv4 out, view_of_tcp ?s))" by (rule po)
    show "tcp_ok_v4 (ip4_header (view_of_ipv4 out)) (ip4_payload (view_of_ipv4 out))"
    proof -
      have "ip4_payload (view_of_ipv4 out) = ?s"
        using fr(7) by (simp add: view_of_ipv4_def ipv4_payload_of_def)
      moreover have "pseudo_v4 (take 20 out) n = pseudo_v4 g n" for n
        using fr(1,3) g(2) by (simp add: out_def pseudo_v4_def min_def drop_take)
      ultimately show ?thesis
        using with_csum_ok_v4 [of g s] g(2) lens lt ls
        by (simp add: tcp_ok_v4_def view_of_ipv4_def)
    qed
    show "rfc1071_ok (take (ip4_ihl_bytes (view_of_ipv4 out)) out)"
      using fr(1,2,5) by (simp add: view_of_ipv4_def out_def)
    show "\<forall>i < ip4_ihl_bytes (view_of_ipv4 d). i \<notin> {2, 3, 10, 11} \<longrightarrow> out ! i = d ! i"
      using fr(4) g(1) by (simp add: view_of_ipv4_def g_def)
  qed (use fr(5,6) doff_s pay nth_s same seq hdr g(1) in
      \<open>simp_all add: view_of_ipv4_def view_of_tcp_def take_take min_def\<close>)
qed

lemma v4_copied_headers:
  assumes wf: "v4_tcp_wf d"
  defines "T \<equiv> ipv4_payload_of d"
  shows "sub_buf d 0 (wire_ihl d + wire_doff T) = Some (take (wire_ihl d) d @ take (wire_doff T) T)"
proof -
  have "ipv4_wf d" "tcp_wf T" using wf by (simp_all add: v4_tcp_wf_def T_def)
  then have "wire_doff T \<le> wire_total_len d - wire_ihl d" "wire_ihl d \<le> wire_total_len d"
    "wire_total_len d \<le> length d"
    using ipv4_wf_split(3) [of d] by (simp_all add: tcp_wf_def T_def ipv4_wf_def)
  then show ?thesis
    by (simp add: sub_buf_def take_add T_def ipv4_payload_of_def take_take min_absorb1)
qed

lemma packet_split_tcp_v4_outputs:
  assumes wf: "v4_tcp_wf d" and k: "0 < k" "k < length (tcp_payload (view_of_tcp (ipv4_payload_of d)))"
  defines "P \<equiv> tcp_payload (view_of_tcp (ipv4_payload_of d))"
  shows "\<exists>o1 o2. packet_split_tcp_v4 d k = Some (Inr (o1, o2)) \<and>
    v4_piece d o1 0 (take k P) \<and> v4_piece d o2 k (drop k P) \<and>
    length o1 = wire_total_len d - (length P - k) \<and> length o2 = wire_total_len d - k"
proof -
  define g T where "g = take (wire_ihl d) d" and "T = ipv4_payload_of d"
  define th where "th = take (wire_doff T) T"
  let ?ip = "view_of_ipv4 d" and ?tcp = "view_of_tcp T"
  have wf4: "ipv4_wf d" and wft: "tcp_wf T" using wf by (simp_all add: v4_tcp_wf_def T_def)
  have P: "P = drop (wire_doff T) T" by (simp add: P_def T_def view_of_tcp_def)
  have doff: "20 \<le> wire_doff T" "wire_doff T \<le> length T" using wft by (simp_all add: tcp_wf_def)
  have lth: "length th = wire_doff T" using doff by (simp add: th_def)
  note g = v4_header_of_wf [OF wf4, folded g_def]
  have tot: "wire_total_len d = length g + length T"
    using wf4 g(1) by (simp add: T_def ipv4_wf_split(3) ipv4_wf_def)
  have flds: "ip4_ihl_bytes ?ip = length g" "tcp_offset_bytes ?tcp = length th" "tcp_payload ?tcp = P"
    using g(1) lth by (simp_all add: view_of_ipv4_def view_of_tcp_def P)
  have sub: "sub_buf d 0 (length g + length th) = Some (g @ th)"
    using v4_copied_headers [OF wf] g(1) lth by (simp add: g_def T_def th_def)
  have kP: "k < length P" using k by (simp add: P_def)
  have parse: "parse_v4_tcp d = Some (Inr (?ip, ?tcp))"
    using wf by (simp add: parse_v4_tcp_Inr_iff T_def)
  define th2 where "th2 = put th 4 (be32_bytes (tcp_seq ?tcp + of_nat k))"
  have l2: "length th2 = wire_doff T" and th20: "20 \<le> length th"
    using lth doff by (simp_all add: th2_def)
  have e1: "split_v4_seg1 d ?ip ?tcp k =
      Some (new_v4_header g (length g + length (th @ take k P)) @
            with_csum (pseudo_v4 g (length (th @ take k P))) (th @ take k P))"
    using split_v4_seg1_eq [of d ?ip ?tcp g th k, unfolded flds, OF sub refl refl g(2) th20 less_imp_le [OF kP]]
      kP by (simp only: length_append length_take min_absorb2 less_imp_le)
  have e2: "split_v4_seg2 d ?ip ?tcp k =
      Some (new_v4_header g (length g + length (th2 @ drop k P)) @
            with_csum (pseudo_v4 g (length (th2 @ drop k P))) (th2 @ drop k P))"
    using split_v4_seg2_eq [of d ?ip ?tcp g th k, unfolded flds, OF sub refl refl g(2) th20 less_imp_le [OF kP]]
      l2 lth by (simp only: length_append th2_def)
  have same1: "th ! i = T ! i" if "i < 16" for i using that doff by (simp add: th_def)
  have same2: "th2 ! i = T ! i" if "i < 16" "i \<notin> {4, 5, 6, 7}" for i
    using that same1 lth doff by (auto simp: th2_def nth_put)
  have seq2: "be32 (th2 ! 4) (th2 ! 5) (th2 ! 6) (th2 ! 7) = be32 (T ! 4) (T ! 5) (T ! 6) (T ! 7) + of_nat k"
    using lth doff by (simp add: th2_def nth_put be32_bytes_def view_of_tcp_def)
  have c1: "length (take k P) \<le> length T - wire_doff T" and c2: "length (drop k P) \<le> length T - wire_doff T"
    using kP by (simp_all add: P)
  have seq1: "be32 (th ! 4) (th ! 5) (th ! 6) (th ! 7) = be32 (T ! 4) (T ! 5) (T ! 6) (T ! 7) + of_nat 0"
    by (simp add: same1)
  note p1 = v4_piece_of_parts [OF wf, folded g_def T_def, OF lth c1 same1 seq1]
  note p2 = v4_piece_of_parts [OF wf, folded g_def T_def, OF l2 c2 same2 seq2]
  have out: "packet_split_tcp_v4 d k =
      Some (Inr (the (split_v4_seg1 d ?ip ?tcp k), the (split_v4_seg2 d ?ip ?tcp k)))"
    using e1 e2 k kP by (simp add: packet_split_tcp_v4_def parse flds)
  show ?thesis
  proof (intro exI conjI)
    show "packet_split_tcp_v4 d k =
      Some (Inr (the (split_v4_seg1 d ?ip ?tcp k), the (split_v4_seg2 d ?ip ?tcp k)))" by (rule out)
    show "v4_piece d (the (split_v4_seg1 d ?ip ?tcp k)) 0 (take k P)"
      unfolding e1 option.sel by (rule p1(1))
    show "v4_piece d (the (split_v4_seg2 d ?ip ?tcp k)) k (drop k P)"
      unfolding e2 option.sel by (rule p2(1))
    show "length (the (split_v4_seg1 d ?ip ?tcp k)) = wire_total_len d - (length P - k)"
      unfolding e1 option.sel p1(2) tot using g(2) lth kP doff by (simp add: P)
    show "length (the (split_v4_seg2 d ?ip ?tcp k)) = wire_total_len d - k"
      unfolding e2 option.sel p2(2) tot using g(2) l2 kP doff by (simp add: P)
  qed
qed

section \<open>IPv6\<close>

definition v6_piece :: "bytes \<Rightarrow> bytes \<Rightarrow> nat \<Rightarrow> bytes \<Rightarrow> bool" where
  "v6_piece d out off chunk \<longleftrightarrow> (\<exists>ip tcp ip' tcp'.
     parse_v6_tcp d = Some (Inr (ip, tcp)) \<and> parse_v6_tcp out = Some (Inr (ip', tcp')) \<and>
     tcp_payload tcp' = chunk \<and> tcp_seq tcp' = tcp_seq tcp + of_nat off \<and>
     tcp_ack tcp' = tcp_ack tcp \<and> tcp_flags tcp' = tcp_flags tcp \<and>
     tcp_offset_bytes tcp' = tcp_offset_bytes tcp \<and> take 4 (tcp_header tcp') = take 4 (tcp_header tcp) \<and>
     40 + length (ip6_payload ip') = length out \<and>
     (\<forall>i < 40. i \<notin> {4, 5} \<longrightarrow> out ! i = d ! i) \<and>
     tcp_ok_v6 (ip6_header ip') (ip6_payload ip'))"

definition v6_payload_of :: "bytes \<Rightarrow> bytes" where
  "v6_payload_of d = ip6_payload (view_of_ipv6 d)"

lemma put_v6_tcp:
  assumes "length xs = 40"
  shows "put (xs @ r) 56 x = xs @ put r 16 x" "put (xs @ r) 44 x = xs @ put r 4 x"
  using put_append_right' [of xs 40 r 16 x] put_append_right' [of xs 40 r 4 x] assms by simp_all

lemma split_v6_seg1_eq:
  assumes "sub_buf inp 0 (40 + tcp_offset_bytes tcp) = Some (g @ th)"
    and "length g = 40" "length th = tcp_offset_bytes tcp"
    and "20 \<le> length th" "k \<le> length (tcp_payload tcp)" "length th + k < 65536"
  shows "split_v6_seg1 inp tcp k =
     Some (put g 4 (be16_bytes (of_nat (length th + k))) @
           with_csum (pseudo_v6 g (length th + k)) (th @ take k (tcp_payload tcp)))"
  using assms by (simp add: split_v6_seg1_def build_simps put_v6_tcp of_nat16_unat del: of_nat_add)

lemma split_v6_seg2_eq:
  assumes "sub_buf inp 0 (40 + tcp_offset_bytes tcp) = Some (g @ th)"
    and "length g = 40" "length th = tcp_offset_bytes tcp"
    and "20 \<le> length th" "k \<le> length (tcp_payload tcp)"
  defines "r \<equiv> drop k (tcp_payload tcp)"
  assumes "length th + length r < 65536"
  shows "split_v6_seg2 inp tcp k =
     Some (put g 4 (be16_bytes (of_nat (length th + length r))) @
           with_csum (pseudo_v6 g (length th + length r))
             (put th 4 (be32_bytes (tcp_seq tcp + of_nat k)) @ r))"
  using assms
  by (simp add: split_v6_seg2_def build_simps put_v6_tcp of_nat16_unat del: of_nat_add of_nat_diff)

lemma v6_framed:
  assumes g: "length g = 40" and t: "length t < 65536"
  defines "h \<equiv> put g 4 (be16_bytes (of_nat (length t)))"
  shows "length h = 40" "\<And>i. i < 40 \<Longrightarrow> i \<notin> {4, 5} \<Longrightarrow> (h @ t) ! i = g ! i"
    "view_of_ipv6 (h @ t) = \<lparr>ip6_header = h, ip6_next_header = g ! 6, ip6_payload = t\<rparr>"
    "ipv6_wf (h @ t) \<longleftrightarrow> (ucast (drop_bit 28 (be32 (g ! 0) (g ! 1) (g ! 2) (g ! 3))) :: byte) = 6 \<and> g ! 6 = 6"
    "pseudo_v6 h n = pseudo_v6 g n"
proof -
  show len: "length h = 40" using g by (simp add: h_def)
  show nth: "(h @ t) ! i = g ! i" if "i < 40" "i \<notin> {4, 5}" for i
    using that g len by (auto simp: h_def nth_append nth_put)
  have "h ! 4 = hi8 (of_nat (length t))" "h ! 5 = lo8 (of_nat (length t))"
    using g by (simp_all add: h_def nth_put be16_bytes_def)
  then have pl: "unat (be16 ((h @ t) ! 4) ((h @ t) ! 5)) = length t"
    using len t by (simp add: nth_append of_nat16_unat)
  show "view_of_ipv6 (h @ t) = \<lparr>ip6_header = h, ip6_next_header = g ! 6, ip6_payload = t\<rparr>"
    using nth [of 6] len unfolding view_of_ipv6_def pl by simp
  show "ipv6_wf (h @ t) \<longleftrightarrow> (ucast (drop_bit 28 (be32 (g ! 0) (g ! 1) (g ! 2) (g ! 3))) :: byte) = 6 \<and> g ! 6 = 6"
    using nth [of 0] nth [of 1] nth [of 2] nth [of 3] nth [of 6] len unfolding ipv6_wf_def pl by simp
  show "pseudo_v6 h n = pseudo_v6 g n" using g by (simp add: h_def)
qed

lemma with_csum_ok_v6:
  assumes "40 \<le> length g" "18 \<le> length s" "length s \<le> 65535"
  shows "rfc1071_ok (pseudo_v6 g (length s) @ with_csum (pseudo_v6 g (length s)) s)"
  using tcp_csum_ok [of "pseudo_v6 g (length s)" s] assms by (simp add: with_csum_def)

lemma v6_header_of_wf:
  assumes "ipv6_wf d"
  shows "length (take 40 d) = 40" "length (v6_payload_of d) < 65536"
    "length (v6_payload_of d) = unat (be16 (d ! 4) (d ! 5))" "40 + length (v6_payload_of d) \<le> length d"
  using assms unat_be16_less [of "d ! 4" "d ! 5"]
  by (auto simp: ipv6_wf_def v6_payload_of_def view_of_ipv6_def)

lemma v6_piece_of_parts:
  assumes wf: "v6_tcp_wf d"
  defines "g \<equiv> take 40 d" and "T \<equiv> v6_payload_of d"
  assumes len: "length th = wire_doff T" and "length chunk \<le> length T - wire_doff T"
    and same: "\<And>i. i < 16 \<Longrightarrow> i \<notin> {4, 5, 6, 7} \<Longrightarrow> th ! i = T ! i"
    and seq: "be32 (th ! 4) (th ! 5) (th ! 6) (th ! 7) = be32 (T ! 4) (T ! 5) (T ! 6) (T ! 7) + of_nat off"
  defines "s \<equiv> th @ chunk"
  defines "out \<equiv> put g 4 (be16_bytes (of_nat (length s))) @ with_csum (pseudo_v6 g (length s)) s"
  shows "v6_piece d out off chunk" "length out = 40 + length s"
proof -
  have wf6: "ipv6_wf d" and wft: "tcp_wf T"
    using wf by (simp_all add: v6_tcp_wf_def T_def v6_payload_of_def)
  have doff: "20 \<le> wire_doff T" "wire_doff T \<le> length T" using wft by (simp_all add: tcp_wf_def)
  note g = v6_header_of_wf [OF wf6, folded g_def T_def]
  have lens: "length s \<le> length T" "20 \<le> length s" using assms doff by (simp_all add: s_def)
  let ?s = "with_csum (pseudo_v6 g (length s)) s"
  have ls: "length ?s = length s" using lens by simp
  have lt: "length ?s < 65536" using g lens ls by simp
  note fr = v6_framed [OF g(1) lt, unfolded ls, folded out_def]
  show "length out = 40 + length s" using fr(1) ls by (simp add: out_def)
  have nth_s: "?s ! i = th ! i" if "i < 16" for i
    using that lens len doff by (simp add: nth_with_csum) (simp add: s_def nth_append)
  have doff_s: "wire_doff ?s = wire_doff T" using nth_s [of 12] same [of 12] by (simp add: wire_doff_def)
  have wfs: "tcp_wf ?s" using doff_s ls lens len doff by (simp add: tcp_wf_def s_def)
  have pay: "drop (wire_doff T) ?s = chunk" using len doff unfolding with_csum_def s_def by simp
  have wfo: "v6_tcp_wf out"
    using fr(3,4) wf6 wfs by (simp add: v6_tcp_wf_def g_def ipv6_wf_def)
  have hdr: "take 4 ?s = take 4 T"
    by (rule nth_equalityI) (use ls lens doff same nth_s in auto)
  have po: "parse_v6_tcp out = Some (Inr (view_of_ipv6 out, view_of_tcp ?s))"
    unfolding parse_v6_tcp_Inr_iff using wfo fr(3) by simp
  have pd: "parse_v6_tcp d = Some (Inr (view_of_ipv6 d, view_of_tcp T))"
    unfolding parse_v6_tcp_Inr_iff using wf by (simp add: T_def v6_payload_of_def)
  show "v6_piece d out off chunk"
    unfolding v6_piece_def
  proof (intro exI conjI)
    show "parse_v6_tcp d = Some (Inr (view_of_ipv6 d, view_of_tcp T))" by (rule pd)
    show "parse_v6_tcp out = Some (Inr (view_of_ipv6 out, view_of_tcp ?s))" by (rule po)
    show "tcp_ok_v6 (ip6_header (view_of_ipv6 out)) (ip6_payload (view_of_ipv6 out))"
      using with_csum_ok_v6 [of g s] g(1) lens lt ls fr(5) by (simp add: fr(3) tcp_ok_v6_def)
    show "\<forall>i < 40. i \<notin> {4, 5} \<longrightarrow> out ! i = d ! i"
      using fr(2) by (simp add: g_def)
    show "40 + length (ip6_payload (view_of_ipv6 out)) = length out"
      using fr(1) by (simp add: fr(3)) (simp add: out_def)
  qed (use doff_s pay nth_s same seq hdr in \<open>simp_all add: view_of_tcp_def take_take min_def\<close>)
qed

lemma packet_split_tcp_v6_outputs:
  assumes wf: "v6_tcp_wf d" and k: "0 < k" "k < length (tcp_payload (view_of_tcp (v6_payload_of d)))"
  defines "P \<equiv> tcp_payload (view_of_tcp (v6_payload_of d))"
  shows "\<exists>o1 o2. packet_split_tcp_v6 d k = Some (Inr (o1, o2)) \<and>
    v6_piece d o1 0 (take k P) \<and> v6_piece d o2 k (drop k P) \<and>
    length o1 = 40 + length (v6_payload_of d) - (length P - k) \<and>
    length o2 = 40 + length (v6_payload_of d) - k"
proof -
  define g T where "g = take 40 d" and "T = v6_payload_of d"
  define th where "th = take (wire_doff T) T"
  let ?tcp = "view_of_tcp T"
  have wf6: "ipv6_wf d" and wft: "tcp_wf T"
    using wf by (simp_all add: v6_tcp_wf_def T_def v6_payload_of_def)
  have P: "P = drop (wire_doff T) T" by (simp add: P_def T_def view_of_tcp_def)
  have doff: "20 \<le> wire_doff T" "wire_doff T \<le> length T" using wft by (simp_all add: tcp_wf_def)
  note g = v6_header_of_wf [OF wf6, folded g_def T_def]
  define th2 where "th2 = put th 4 (be32_bytes (tcp_seq ?tcp + of_nat k))"
  have lth: "length th = wire_doff T" and l2: "length th2 = wire_doff T" and th20: "20 \<le> length th"
    using doff by (simp_all add: th_def th2_def)
  have flds: "tcp_offset_bytes ?tcp = length th" "tcp_payload ?tcp = P"
    using lth by (simp_all add: view_of_tcp_def P)
  have "wire_doff T \<le> unat (be16 (d ! 4) (d ! 5))" using doff g(3) by simp
  then have sub: "sub_buf d 0 (40 + length th) = Some (g @ th)"
    using lth g(3,4) by (simp add: sub_buf_def take_add g_def th_def)
      (simp add: T_def v6_payload_of_def view_of_ipv6_def take_take min_absorb1)
  have kP: "k < length P" using k by (simp add: P_def)
  have small: "length th + k < 65536" "length th + length (drop k P) < 65536"
    using g(2) kP lth doff by (simp_all add: P)
  have parse: "parse_v6_tcp d = Some (Inr (view_of_ipv6 d, ?tcp))"
    using wf by (simp add: parse_v6_tcp_Inr_iff T_def v6_payload_of_def)
  have e1: "split_v6_seg1 d ?tcp k =
      Some (put g 4 (be16_bytes (of_nat (length (th @ take k P)))) @
            with_csum (pseudo_v6 g (length (th @ take k P))) (th @ take k P))"
    using split_v6_seg1_eq [of d ?tcp g th k, unfolded flds, OF sub g(1) refl th20 less_imp_le [OF kP] small(1)]
      kP by (simp only: length_append length_take min_absorb2 less_imp_le)
  have e2: "split_v6_seg2 d ?tcp k =
      Some (put g 4 (be16_bytes (of_nat (length (th2 @ drop k P)))) @
            with_csum (pseudo_v6 g (length (th2 @ drop k P))) (th2 @ drop k P))"
    using split_v6_seg2_eq [of d ?tcp g th k, unfolded flds, OF sub g(1) refl th20 less_imp_le [OF kP] small(2)]
      l2 lth by (simp only: length_append th2_def)
  have same1: "th ! i = T ! i" if "i < 16" for i using that doff by (simp add: th_def)
  have same2: "th2 ! i = T ! i" if "i < 16" "i \<notin> {4, 5, 6, 7}" for i
    using that same1 lth doff by (auto simp: th2_def nth_put)
  have seq2: "be32 (th2 ! 4) (th2 ! 5) (th2 ! 6) (th2 ! 7) = be32 (T ! 4) (T ! 5) (T ! 6) (T ! 7) + of_nat k"
    using lth doff by (simp add: th2_def nth_put be32_bytes_def view_of_tcp_def)
  have c1: "length (take k P) \<le> length T - wire_doff T" and c2: "length (drop k P) \<le> length T - wire_doff T"
    using kP by (simp_all add: P)
  have seq1: "be32 (th ! 4) (th ! 5) (th ! 6) (th ! 7) = be32 (T ! 4) (T ! 5) (T ! 6) (T ! 7) + of_nat 0"
    by (simp add: same1)
  note p1 = v6_piece_of_parts [OF wf, folded g_def T_def, OF lth c1 same1 seq1]
  note p2 = v6_piece_of_parts [OF wf, folded g_def T_def, OF l2 c2 same2 seq2]
  have out: "packet_split_tcp_v6 d k =
      Some (Inr (the (split_v6_seg1 d ?tcp k), the (split_v6_seg2 d ?tcp k)))"
    using e1 e2 k kP by (simp add: packet_split_tcp_v6_def parse flds)
  show ?thesis
  proof (intro exI conjI)
    show "packet_split_tcp_v6 d k =
      Some (Inr (the (split_v6_seg1 d ?tcp k), the (split_v6_seg2 d ?tcp k)))" by (rule out)
    show "v6_piece d (the (split_v6_seg1 d ?tcp k)) 0 (take k P)"
      unfolding e1 option.sel by (rule p1(1))
    show "v6_piece d (the (split_v6_seg2 d ?tcp k)) k (drop k P)"
      unfolding e2 option.sel by (rule p2(1))
    show "length (the (split_v6_seg1 d ?tcp k)) = 40 + length (v6_payload_of d) - (length P - k)"
      unfolding e1 option.sel T_def [symmetric] using p1(2) g(1) lth kP doff by (simp add: P)
    show "length (the (split_v6_seg2 d ?tcp k)) = 40 + length (v6_payload_of d) - k"
      unfolding e2 option.sel T_def [symmetric] using p2(2) g(1) l2 kP doff by (simp add: P)
  qed
qed

section \<open>The contract of a segmenter\<close>

text \<open>The bytes a segment puts into the receiver's stream, by sequence number.\<close>

definition stream_of :: "tcp_view \<Rightarrow> u32 \<Rightarrow> byte option" where
  "stream_of v s = (let i = unat (s - tcp_seq v) in
     if i < length (tcp_payload v) then Some (tcp_payload v ! i) else None)"

lemma unat_sub_of_nat:
  fixes x :: u32
  assumes "k < 65536"
  shows "unat (x - of_nat k) = (if k \<le> unat x then unat x - k else unat x + 4294967296 - k)"
proof -
  have k: "unat (of_nat k :: u32) = k" using assms by (simp add: unat_of_nat)
  have "unat x < 4294967296" using unat_bound [of x] by simp
  then show ?thesis
    using assms by (simp add: unat_sub_if_size k word_size)
qed

lemma stream_of_pieces:
  assumes "tcp_payload v1 = take k (tcp_payload v)" "tcp_payload v2 = drop k (tcp_payload v)"
    and "tcp_seq v1 = tcp_seq v" "tcp_seq v2 = tcp_seq v + of_nat k"
    and "k < length (tcp_payload v)" "length (tcp_payload v) < 65536"
  shows "stream_of v1 ++ stream_of v2 = stream_of v" "stream_of v2 ++ stream_of v1 = stream_of v"
proof -
  let ?n = "length (tcp_payload v)"
  have v2: "unat (s - tcp_seq v2) = (let i = unat (s - tcp_seq v) in if k \<le> i then i - k else i + 4294967296 - k)" for s
    using unat_sub_of_nat [of k "s - tcp_seq v"] assms by (simp add: Let_def algebra_simps)
  show "stream_of v1 ++ stream_of v2 = stream_of v" "stream_of v2 ++ stream_of v1 = stream_of v"
    unfolding stream_of_def v2 map_add_def fun_eq_iff Let_def using assms by (auto simp: nth_append)
qed

text \<open>The contract the packet engine relies on, with \<open>parse\<close> the TCP view of a packet and
  \<open>piece\<close> the relation between a packet and a part of it.\<close>

locale segmenter =
  fixes split_tcp :: "bytes \<Rightarrow> nat \<Rightarrow> (packet_status + bytes \<times> bytes) option"
    and tcp_of :: "bytes \<Rightarrow> tcp_view option"
    and parse_status :: "bytes \<Rightarrow> packet_status option"
  assumes split_ok: "tcp_of d = Some v \<Longrightarrow> 0 < k \<Longrightarrow> k < length (tcp_payload v) \<Longrightarrow>
      \<exists>o1 o2 v1 v2. split_tcp d k = Some (Inr (o1, o2)) \<and> tcp_of o1 = Some v1 \<and> tcp_of o2 = Some v2 \<and>
        tcp_payload v1 = take k (tcp_payload v) \<and> tcp_payload v2 = drop k (tcp_payload v) \<and>
        tcp_seq v1 = tcp_seq v \<and> tcp_seq v2 = tcp_seq v + of_nat k \<and>
        length o1 \<le> length d \<and> length o2 \<le> length d"
    and split_range: "tcp_of d = Some v \<Longrightarrow> k = 0 \<or> length (tcp_payload v) \<le> k \<Longrightarrow>
      split_tcp d k = Some (Inl PACKET_ERR_MALFORMED)"
    and split_bad: "tcp_of d = None \<Longrightarrow> \<exists>st. parse_status d = Some st \<and> split_tcp d k = Some (Inl st)"
    and payload_small: "tcp_of d = Some v \<Longrightarrow> length (tcp_payload v) < 65536"
begin

lemma split_total: "split_tcp d k \<noteq> None"
proof (cases "tcp_of d")
  case None
  then show ?thesis using split_bad [of d k] by auto
next
  case (Some v)
  then show ?thesis using split_ok [of d v k] split_range [of d v k] by fastforce
qed

lemma split_Inr_iff:
  "(\<exists>os. split_tcp d k = Some (Inr os)) \<longleftrightarrow>
     (\<exists>v. tcp_of d = Some v \<and> 0 < k \<and> k < length (tcp_payload v))"
proof (cases "tcp_of d")
  case None
  then show ?thesis using split_bad [of d k] by auto
next
  case (Some v)
  then show ?thesis using split_ok [of d v k] split_range [of d v k] by fastforce
qed

text \<open>Whatever the order of arrival, the receiver sees the stream of the original segment.\<close>

lemma split_stream:
  assumes "split_tcp d k = Some (Inr (o1, o2))"
  shows "\<exists>v v1 v2. tcp_of d = Some v \<and> tcp_of o1 = Some v1 \<and> tcp_of o2 = Some v2 \<and>
    stream_of v1 ++ stream_of v2 = stream_of v \<and> stream_of v2 ++ stream_of v1 = stream_of v \<and>
    tcp_payload v1 \<noteq> [] \<and> tcp_payload v2 \<noteq> [] \<and> length o1 \<le> length d \<and> length o2 \<le> length d"
proof -
  obtain v where v: "tcp_of d = Some v" "0 < k" "k < length (tcp_payload v)"
    using assms split_Inr_iff by blast
  obtain v1 v2 where p: "tcp_of o1 = Some v1" "tcp_of o2 = Some v2"
      "tcp_payload v1 = take k (tcp_payload v)" "tcp_payload v2 = drop k (tcp_payload v)"
      "tcp_seq v1 = tcp_seq v" "tcp_seq v2 = tcp_seq v + of_nat k"
      "length o1 \<le> length d" "length o2 \<le> length d"
    using split_ok [OF v] assms by auto
  have "tcp_payload v1 \<noteq> []" "tcp_payload v2 \<noteq> []" using p v by auto
  then show ?thesis
    using stream_of_pieces [OF p(3,4,5,6) v(3) payload_small [OF v(1)]] p v(1) by blast
qed

end

text \<open>The TCP view and the parse status of a packet, by IP version.\<close>

definition tcp_of_v4 :: "bytes \<Rightarrow> tcp_view option" where
  "tcp_of_v4 d = (case parse_v4_tcp d of Some (Inr (ip, tcp)) \<Rightarrow> Some tcp | _ \<Rightarrow> None)"

definition status_of_v4 :: "bytes \<Rightarrow> packet_status option" where
  "status_of_v4 d = (case parse_v4_tcp d of Some (Inl st) \<Rightarrow> Some st | _ \<Rightarrow> None)"

definition tcp_of_v6 :: "bytes \<Rightarrow> tcp_view option" where
  "tcp_of_v6 d = (case parse_v6_tcp d of Some (Inr (ip, tcp)) \<Rightarrow> Some tcp | _ \<Rightarrow> None)"

definition status_of_v6 :: "bytes \<Rightarrow> packet_status option" where
  "status_of_v6 d = (case parse_v6_tcp d of Some (Inl st) \<Rightarrow> Some st | _ \<Rightarrow> None)"

lemma tcp_of_v4_Some: "tcp_of_v4 d = Some v \<longleftrightarrow> v4_tcp_wf d \<and> v = view_of_tcp (ipv4_payload_of d)"
proof
  assume "tcp_of_v4 d = Some v"
  then show "v4_tcp_wf d \<and> v = view_of_tcp (ipv4_payload_of d)"
    by (auto simp: tcp_of_v4_def parse_v4_tcp_Inr_iff split: option.splits sum.splits)
next
  assume r: "v4_tcp_wf d \<and> v = view_of_tcp (ipv4_payload_of d)"
  then have "parse_v4_tcp d = Some (Inr (view_of_ipv4 d, v))" by (simp add: parse_v4_tcp_Inr_iff)
  then show "tcp_of_v4 d = Some v" by (simp add: tcp_of_v4_def)
qed

lemma tcp_of_v6_Some: "tcp_of_v6 d = Some v \<longleftrightarrow> v6_tcp_wf d \<and> v = view_of_tcp (v6_payload_of d)"
proof
  assume "tcp_of_v6 d = Some v"
  then show "v6_tcp_wf d \<and> v = view_of_tcp (v6_payload_of d)"
    by (auto simp: tcp_of_v6_def parse_v6_tcp_Inr_iff v6_payload_of_def split: option.splits sum.splits)
next
  assume r: "v6_tcp_wf d \<and> v = view_of_tcp (v6_payload_of d)"
  then have "parse_v6_tcp d = Some (Inr (view_of_ipv6 d, v))"
    by (simp add: parse_v6_tcp_Inr_iff v6_payload_of_def)
  then show "tcp_of_v6 d = Some v" by (simp add: tcp_of_v6_def)
qed

lemma tcp_of_v4_None:
  "tcp_of_v4 d = None \<Longrightarrow> \<exists>st. status_of_v4 d = Some st \<and> packet_split_tcp_v4 d k = Some (Inl st)"
  using parse_v4_tcp_total [of d]
  by (auto simp: tcp_of_v4_def status_of_v4_def packet_split_tcp_v4_def split: option.splits sum.splits)

lemma tcp_of_v6_None:
  "tcp_of_v6 d = None \<Longrightarrow> \<exists>st. status_of_v6 d = Some st \<and> packet_split_tcp_v6 d k = Some (Inl st)"
  using parse_v6_tcp_total [of d]
  by (auto simp: tcp_of_v6_def status_of_v6_def packet_split_tcp_v6_def split: option.splits sum.splits)

lemma v4_piece_tcp:
  "v4_piece d out off chunk \<Longrightarrow> tcp_of_v4 d = Some v \<Longrightarrow>
   \<exists>v'. tcp_of_v4 out = Some v' \<and> tcp_payload v' = chunk \<and> tcp_seq v' = tcp_seq v + of_nat off"
  by (auto simp: v4_piece_def tcp_of_v4_def)

lemma v6_piece_tcp:
  "v6_piece d out off chunk \<Longrightarrow> tcp_of_v6 d = Some v \<Longrightarrow>
   \<exists>v'. tcp_of_v6 out = Some v' \<and> tcp_payload v' = chunk \<and> tcp_seq v' = tcp_seq v + of_nat off"
  by (auto simp: v6_piece_def tcp_of_v6_def)

interpretation seg4: segmenter packet_split_tcp_v4 tcp_of_v4 status_of_v4
proof unfold_locales
  fix d v k assume v: "tcp_of_v4 d = Some v" and k: "0 < k" "k < length (tcp_payload v)"
  then have wf: "v4_tcp_wf d" and ve: "v = view_of_tcp (ipv4_payload_of d)" by (simp_all add: tcp_of_v4_Some)
  from packet_split_tcp_v4_outputs [OF wf k [unfolded ve]] obtain o1 o2 where o:
    "packet_split_tcp_v4 d k = Some (Inr (o1, o2))" "v4_piece d o1 0 (take k (tcp_payload v))"
    "v4_piece d o2 k (drop k (tcp_payload v))" "length o1 \<le> wire_total_len d" "length o2 \<le> wire_total_len d"
    by (auto simp: ve)
  moreover have "wire_total_len d \<le> length d" using wf by (simp add: v4_tcp_wf_def ipv4_wf_def)
  ultimately show "\<exists>o1 o2 v1 v2. packet_split_tcp_v4 d k = Some (Inr (o1, o2)) \<and> tcp_of_v4 o1 = Some v1 \<and>
      tcp_of_v4 o2 = Some v2 \<and> tcp_payload v1 = take k (tcp_payload v) \<and>
      tcp_payload v2 = drop k (tcp_payload v) \<and> tcp_seq v1 = tcp_seq v \<and> tcp_seq v2 = tcp_seq v + of_nat k \<and>
      length o1 \<le> length d \<and> length o2 \<le> length d"
    using v4_piece_tcp [OF o(2) v] v4_piece_tcp [OF o(3) v] by fastforce
next
  fix d v k assume "tcp_of_v4 d = Some v" "k = 0 \<or> length (tcp_payload v) \<le> k"
  then show "packet_split_tcp_v4 d k = Some (Inl PACKET_ERR_MALFORMED)"
    by (auto simp: tcp_of_v4_def packet_split_tcp_v4_def split: option.splits sum.splits)
next
  fix d v assume "tcp_of_v4 d = Some v"
  then show "length (tcp_payload v) < 65536"
    using wire_total_len_less [of d]
    by (auto simp: tcp_of_v4_Some view_of_tcp_def v4_tcp_wf_def ipv4_wf_split(3))
qed (rule tcp_of_v4_None)

interpretation seg6: segmenter packet_split_tcp_v6 tcp_of_v6 status_of_v6
proof unfold_locales
  fix d v k assume v: "tcp_of_v6 d = Some v" and k: "0 < k" "k < length (tcp_payload v)"
  then have wf: "v6_tcp_wf d" and ve: "v = view_of_tcp (v6_payload_of d)" by (simp_all add: tcp_of_v6_Some)
  from packet_split_tcp_v6_outputs [OF wf k [unfolded ve]] obtain o1 o2 where o:
    "packet_split_tcp_v6 d k = Some (Inr (o1, o2))" "v6_piece d o1 0 (take k (tcp_payload v))"
    "v6_piece d o2 k (drop k (tcp_payload v))" "length o1 \<le> 40 + length (v6_payload_of d)"
    "length o2 \<le> 40 + length (v6_payload_of d)"
    by (auto simp: ve)
  moreover have "40 + length (v6_payload_of d) \<le> length d"
    using wf by (intro v6_header_of_wf(4)) (simp add: v6_tcp_wf_def)
  ultimately show "\<exists>o1 o2 v1 v2. packet_split_tcp_v6 d k = Some (Inr (o1, o2)) \<and> tcp_of_v6 o1 = Some v1 \<and>
      tcp_of_v6 o2 = Some v2 \<and> tcp_payload v1 = take k (tcp_payload v) \<and>
      tcp_payload v2 = drop k (tcp_payload v) \<and> tcp_seq v1 = tcp_seq v \<and> tcp_seq v2 = tcp_seq v + of_nat k \<and>
      length o1 \<le> length d \<and> length o2 \<le> length d"
    using v6_piece_tcp [OF o(2) v] v6_piece_tcp [OF o(3) v] by fastforce
next
  fix d v k assume "tcp_of_v6 d = Some v" "k = 0 \<or> length (tcp_payload v) \<le> k"
  then show "packet_split_tcp_v6 d k = Some (Inl PACKET_ERR_MALFORMED)"
    by (auto simp: tcp_of_v6_def packet_split_tcp_v6_def split: option.splits sum.splits)
next
  fix d v assume "tcp_of_v6 d = Some v"
  then show "length (tcp_payload v) < 65536"
    using v6_header_of_wf(2) [of d] by (auto simp: tcp_of_v6_Some view_of_tcp_def v6_tcp_wf_def)
qed (rule tcp_of_v6_None)

section \<open>Properties\<close>

text \<open>Two captured packets, one per IP version: a 5-byte payload behind 20-byte TCP headers.\<close>

definition sample_v4 :: bytes where
  "sample_v4 = [0x45, 0, 0, 45, 0x12, 0x34, 0x40, 0, 64, 6, 0x31, 0x12, 192, 168, 1, 2, 93, 184, 216, 34,
     0xC0, 0x01, 0x01, 0xBB, 0xFF, 0xFF, 0xFF, 0xFE, 0, 0, 0, 7, 0x50, 0x18, 1, 0, 0xB1, 0xAD, 0, 0,
     104, 101, 108, 108, 111]"

definition sample_v6 :: bytes where
  "sample_v6 = [0x60, 0, 0, 0, 0, 25, 6, 64] @ replicate 15 0 @ [1] @ replicate 15 0 @ [2] @
     [0xC0, 0x01, 0x01, 0xBB, 0xFF, 0xFF, 0xFF, 0xFE, 0, 0, 0, 7, 0x50, 0x18, 1, 0, 0xAB, 0xCD, 0, 0,
     104, 101, 108, 108, 111]"

lemma sample_v4_tcp: "tcp_of_v4 sample_v4 \<noteq> None \<and> tcp_payload (the (tcp_of_v4 sample_v4)) = [104, 101, 108, 108, 111]"
  by code_simp

lemma sample_v6_tcp: "tcp_of_v6 sample_v6 \<noteq> None \<and> tcp_payload (the (tcp_of_v6 sample_v6)) = [104, 101, 108, 108, 111]"
  by code_simp

text \<open>Claim C5: when \<open>packet_split_tcp_v4\<close> succeeds, the two outputs are the pieces of the
  captured segment: they parse, their payloads are the first \<open>k\<close> and the remaining bytes, the
  second sequence number is advanced by \<open>k\<close>, every other header byte is that of the original,
  and the IP header checksum and the TCP checksum of both are the ones a receiver accepts. Their
  lengths are those of the original minus the part each leaves out.\<close>

theorem split_v4_correct:
  assumes "packet_split_tcp_v4 d k = Some (Inr (o1, o2))"
  shows "\<exists>v. tcp_of_v4 d = Some v \<and> 0 < k \<and> k < length (tcp_payload v) \<and>
    v4_piece d o1 0 (take k (tcp_payload v)) \<and> v4_piece d o2 k (drop k (tcp_payload v)) \<and>
    length o1 + (length (tcp_payload v) - k) = wire_total_len d \<and> length o2 + k = wire_total_len d"
proof -
  obtain v where v: "tcp_of_v4 d = Some v" "0 < k" "k < length (tcp_payload v)"
    using assms seg4.split_Inr_iff by blast
  then have wf: "v4_tcp_wf d" and ve: "v = view_of_tcp (ipv4_payload_of d)" by (simp_all add: tcp_of_v4_Some)
  have "length (tcp_payload v) \<le> wire_total_len d"
    using wf by (simp add: ve view_of_tcp_def v4_tcp_wf_def ipv4_wf_split(3))
  then show ?thesis
    using packet_split_tcp_v4_outputs [OF wf v(2) v(3) [unfolded ve]] assms v by (auto simp: ve)
qed

theorem split_v4_correct_witness:
  "\<exists>o1 o2. packet_split_tcp_v4 sample_v4 2 = Some (Inr (o1, o2)) \<and>
     v4_piece sample_v4 o1 0 [104, 101] \<and> v4_piece sample_v4 o2 2 [108, 108, 111] \<and> length o1 = 42"
proof -
  obtain o1 o2 where o: "packet_split_tcp_v4 sample_v4 2 = Some (Inr (o1, o2))"
    using seg4.split_Inr_iff [of sample_v4 2] sample_v4_tcp by fastforce
  have "wire_total_len sample_v4 = 45" by code_simp
  then show ?thesis
    using split_v4_correct [OF o] sample_v4_tcp o by auto
qed

text \<open>Claim C33: \<open>packet_split_tcp_v6\<close> has the same contract over IPv6, with the payload length
  field of both outputs equal to the bytes they carry.\<close>

theorem split_v6_correct:
  assumes "packet_split_tcp_v6 d k = Some (Inr (o1, o2))"
  shows "\<exists>v. tcp_of_v6 d = Some v \<and> 0 < k \<and> k < length (tcp_payload v) \<and>
    v6_piece d o1 0 (take k (tcp_payload v)) \<and> v6_piece d o2 k (drop k (tcp_payload v))"
proof -
  obtain v where v: "tcp_of_v6 d = Some v" "0 < k" "k < length (tcp_payload v)"
    using assms seg6.split_Inr_iff by blast
  then have wf: "v6_tcp_wf d" and ve: "v = view_of_tcp (v6_payload_of d)" by (simp_all add: tcp_of_v6_Some)
  then show ?thesis
    using packet_split_tcp_v6_outputs [OF wf v(2) v(3) [unfolded ve]] assms v by (auto simp: ve)
qed

theorem split_v6_correct_witness:
  "\<exists>o1 o2. packet_split_tcp_v6 sample_v6 2 = Some (Inr (o1, o2)) \<and>
     v6_piece sample_v6 o1 0 [104, 101] \<and> v6_piece sample_v6 o2 2 [108, 108, 111]"
proof -
  obtain o1 o2 where o: "packet_split_tcp_v6 sample_v6 2 = Some (Inr (o1, o2))"
    using seg6.split_Inr_iff [of sample_v6 2] sample_v6_tcp by fastforce
  then show ?thesis
    using split_v6_correct [OF o] sample_v6_tcp by auto
qed

text \<open>No input makes the splitters read or write outside their buffers, and the
  status they return is determined: the status of the parse when the packet does not parse,
  \<open>PACKET_ERR_MALFORMED\<close> when the offset is 0 or not inside the payload, and success in every
  other case.\<close>

theorem split_status:
  "(case tcp_of_v4 d of None \<Rightarrow> packet_split_tcp_v4 d k = Some (Inl (the (status_of_v4 d)))
      | Some v \<Rightarrow> if k = 0 \<or> length (tcp_payload v) \<le> k
                 then packet_split_tcp_v4 d k = Some (Inl PACKET_ERR_MALFORMED)
                 else (\<exists>o1 o2. packet_split_tcp_v4 d k = Some (Inr (o1, o2)))) \<and>
   (case tcp_of_v6 d of None \<Rightarrow> packet_split_tcp_v6 d k = Some (Inl (the (status_of_v6 d)))
      | Some v \<Rightarrow> if k = 0 \<or> length (tcp_payload v) \<le> k
                 then packet_split_tcp_v6 d k = Some (Inl PACKET_ERR_MALFORMED)
                 else (\<exists>o1 o2. packet_split_tcp_v6 d k = Some (Inr (o1, o2))))"
  using seg4.split_bad [of d k] seg4.split_range [of d _ k] seg4.split_ok [of d _ k]
    seg6.split_bad [of d k] seg6.split_range [of d _ k] seg6.split_ok [of d _ k]
  by (fastforce split: option.split)

text \<open>The receiver reassembles the same byte stream from the two segments as from the
  original one, whichever of the two arrives first (the split strategy sends them in order, the
  disorder strategy in reverse), across the wrap-around of the 32-bit sequence number; neither
  segment is empty and neither is longer than the packet it replaces.\<close>

theorem split_stream_preserved:
  assumes "packet_split_tcp_v4 d k = Some (Inr (o1, o2)) \<and> tcp = tcp_of_v4 \<or>
           packet_split_tcp_v6 d k = Some (Inr (o1, o2)) \<and> tcp = tcp_of_v6"
  shows "\<exists>v v1 v2. tcp d = Some v \<and> tcp o1 = Some v1 \<and> tcp o2 = Some v2 \<and>
    stream_of v1 ++ stream_of v2 = stream_of v \<and> stream_of v2 ++ stream_of v1 = stream_of v \<and>
    tcp_payload v1 \<noteq> [] \<and> tcp_payload v2 \<noteq> [] \<and> length o1 \<le> length d \<and> length o2 \<le> length d"
  using assms seg4.split_stream seg6.split_stream by blast

theorem split_stream_preserved_witness:
  "\<exists>o1 o2 v v1 v2. packet_split_tcp_v4 sample_v4 2 = Some (Inr (o1, o2)) \<and>
     tcp_of_v4 sample_v4 = Some v \<and> tcp_of_v4 o1 = Some v1 \<and> tcp_of_v4 o2 = Some v2 \<and>
     tcp_seq v = 0xFFFFFFFE \<and> stream_of v2 ++ stream_of v1 = stream_of v"
proof -
  obtain o1 o2 where o: "packet_split_tcp_v4 sample_v4 2 = Some (Inr (o1, o2))"
    using seg4.split_Inr_iff [of sample_v4 2] sample_v4_tcp by fastforce
  have "map_option tcp_seq (tcp_of_v4 sample_v4) = Some 0xFFFFFFFE" by code_simp
  then show ?thesis
    using split_stream_preserved [of sample_v4 2 o1 o2 tcp_of_v4] o by auto
qed

end
