(* ===== verification/Fragment.thy ===== *)
theory Fragment
  imports Split
begin

text \<open>
  \<open>src/packet/fragment.c\<close> and \<open>src/packet/fake.c\<close>: the IPv4 fragmenter and the decoy builder.
  The fragmenter is specified by what an RFC 791 receiver reassembles; the decoy by the two
  checks (IP header checksum, TCP checksum) it must pass and fail.
\<close>

section \<open>Fragmentation\<close>

definition IP_FLAG_DF :: u16 where "IP_FLAG_DF = 0x4000"
definition IP_FLAG_MF :: u16 where "IP_FLAG_MF = 0x2000"
definition IP_FRAG_OFFSET_MASK :: u16 where "IP_FRAG_OFFSET_MASK = 0x1FFF"
definition IP_FRAG_UNIT :: nat where "IP_FRAG_UNIT = 8"

lemmas ip_frag_consts = IP_FLAG_DF_def IP_FLAG_MF_def IP_FRAG_OFFSET_MASK_def IP_FRAG_UNIT_def

definition fragment_first :: "bytes \<Rightarrow> ipv4_view \<Rightarrow> nat \<Rightarrow> bytes option" where
  "fragment_first inp ip frag_offset = do {
     let ihl = ip4_ihl_bytes ip;
     hdr \<leftarrow> sub_buf inp 0 ihl;
     chunk \<leftarrow> sub_buf (ip4_payload ip) 0 frag_offset;
     let out1 = hdr @ chunk;
     out1 \<leftarrow> st16 out1 2 (of_nat (ihl + frag_offset));
     ff \<leftarrow> rd16 out1 6;
     let flags_frag = ff AND IP_FLAG_DF;
     let flags_frag = (flags_frag AND NOT IP_FLAG_DF) OR IP_FLAG_MF;
     out1 \<leftarrow> st16 out1 6 flags_frag;
     out1 \<leftarrow> st16 out1 10 0;
     csum \<leftarrow> checksum_ipv4_header out1 ihl;
     st16 out1 10 csum
   }"

definition fragment_second :: "bytes \<Rightarrow> ipv4_view \<Rightarrow> nat \<Rightarrow> bytes option" where
  "fragment_second inp ip frag_offset = do {
     let ihl = ip4_ihl_bytes ip;
     let rest_len = length (ip4_payload ip) - frag_offset;
     hdr \<leftarrow> sub_buf inp 0 ihl;
     chunk \<leftarrow> sub_buf (ip4_payload ip) frag_offset rest_len;
     let out2 = hdr @ chunk;
     out2 \<leftarrow> st16 out2 2 (of_nat (ihl + rest_len));
     out2 \<leftarrow> st16 out2 6 (of_nat (frag_offset div IP_FRAG_UNIT));
     out2 \<leftarrow> st16 out2 10 0;
     csum \<leftarrow> checksum_ipv4_header out2 ihl;
     st16 out2 10 csum
   }"

definition packet_fragment_ipv4 :: "bytes \<Rightarrow> nat \<Rightarrow> (packet_status + bytes \<times> bytes) option" where
  "packet_fragment_ipv4 inp tcp_payload_split_offset = do {
     r \<leftarrow> parse_v4_tcp inp;
     case r of Inl status \<Rightarrow> Some (Inl status)
     | Inr v \<Rightarrow>
        let ip = fst v; tcp = snd v;
            raw_offset = tcp_offset_bytes tcp + tcp_payload_split_offset;
            frag_offset = ((raw_offset + IP_FRAG_UNIT - 1) div IP_FRAG_UNIT) * IP_FRAG_UNIT in
        if tcp_payload_split_offset = 0 \<or> length (tcp_payload tcp) \<le> tcp_payload_split_offset
        then Some (Inl PACKET_ERR_MALFORMED)
        else if frag_offset < tcp_offset_bytes tcp \<or> length (ip4_payload ip) \<le> frag_offset
        then Some (Inl PACKET_ERR_MALFORMED)
        else do {
          out1 \<leftarrow> fragment_first inp ip frag_offset;
          out2 \<leftarrow> fragment_second inp ip frag_offset;
          Some (Inr (out1, out2))
        }
   }"

section \<open>The decoy\<close>

text \<open>The complement is taken on the field as it lies in memory; complementing is byte-wise, so
  the byte order of the read and the write do not matter.\<close>

definition packet_make_fake_tcp_v4 :: "bytes \<Rightarrow> byte \<Rightarrow> (packet_status + bytes) option" where
  "packet_make_fake_tcp_v4 inp ttl = do {
     r \<leftarrow> parse_v4_tcp inp;
     case r of Inl status \<Rightarrow> Some (Inl status)
     | Inr v \<Rightarrow>
        let ip = fst v; tcp = snd v in
        if length (tcp_payload tcp) = 0 then Some (Inl PACKET_ERR_MALFORMED)
        else do {
          let out = inp;
          out \<leftarrow> st8 out 8 ttl;
          out \<leftarrow> st16 out 10 0;
          csum \<leftarrow> checksum_ipv4_header out (ip4_ihl_bytes ip);
          out \<leftarrow> st16 out 10 csum;
          field \<leftarrow> rd16 out (ip4_ihl_bytes ip + 16);
          out \<leftarrow> st16 out (ip4_ihl_bytes ip + 16) (NOT field);
          Some (Inr out)
        }
   }"

section \<open>What the fragmenter builds\<close>

definition wire_frag :: "bytes \<Rightarrow> u16" where
  "wire_frag d = be16 (d ! 6) (d ! 7)"

text \<open>\<open>frag_of d out ff chunk\<close>: \<open>out\<close> repeats the IP header of \<open>d\<close> with flags and offset
  \<open>ff\<close>, a valid header checksum and length, and carries \<open>chunk\<close>.\<close>

definition frag_of :: "bytes \<Rightarrow> bytes \<Rightarrow> u16 \<Rightarrow> bytes \<Rightarrow> bool" where
  "frag_of d out ff chunk \<longleftrightarrow>
     wire_ihl out = wire_ihl d \<and> wire_total_len out = length out \<and> wire_frag out = ff \<and>
     ipv4_payload_of out = chunk \<and> length out = wire_ihl d + length chunk \<and>
     rfc1071_ok (take (wire_ihl d) out) \<and>
     (\<forall>i < wire_ihl d. i \<notin> {2, 3, 6, 7, 10, 11} \<longrightarrow> out ! i = d ! i)"

lemma frag_of_parts:
  fixes ff :: u16
  assumes wf: "ipv4_wf d" and c: "length chunk \<le> length (ipv4_payload_of d)"
  defines "g \<equiv> put (take (wire_ihl d) d) 6 (be16_bytes ff)"
  shows "frag_of d (new_v4_header g (wire_ihl d + length chunk) @ chunk) ff chunk"
proof -
  note h = v4_header_of_wf [OF wf]
  have len: "length g = wire_ihl d" using h(1,2) by (simp add: g_def)
  have nthg: "g ! i = d ! i" if "i < wire_ihl d" "i \<notin> {6, 7}" for i
    using that h(1,2) by (auto simp: g_def nth_put)
  have ihl: "wire_ihl g = length g" using h(1,2) nthg [of 0] len by (simp add: wire_ihl_def)
  have lt: "length g + length chunk < 65536" using h(1,7) c len by simp
  note fr = framed_v4 [OF _ ihl lt, unfolded len]
  have ff: "be16 (g ! 6) (g ! 7) = ff" using h(1,2) by (simp add: g_def nth_put be16_bytes_def)
  show ?thesis
    unfolding frag_of_def wire_frag_def
    using fr h(1,2) ff nthg len by (auto simp: fr)
qed

lemma fragment_first_eq:
  assumes "sub_buf inp 0 (ip4_ihl_bytes ip) = Some g" "length g = ip4_ihl_bytes ip" "20 \<le> length g"
    and "fo \<le> length (ip4_payload ip)"
  shows "fragment_first inp ip fo =
    Some (new_v4_header (put g 6 (be16_bytes IP_FLAG_MF)) (length g + fo) @ take fo (ip4_payload ip))"
proof -
  have ff: "((x AND IP_FLAG_DF) AND NOT IP_FLAG_DF) OR IP_FLAG_MF = IP_FLAG_MF" for x
    by (rule bit_word_eqI) (auto simp: bit_simps)
  show ?thesis
    using assms put_put_commute [of 2 "be16_bytes (of_nat (length g + fo))" 6 "be16_bytes IP_FLAG_MF" g]
    by (simp add: fragment_first_def build_simps ff del: of_nat_add)
qed

lemma fragment_second_eq:
  assumes "sub_buf inp 0 (ip4_ihl_bytes ip) = Some g" "length g = ip4_ihl_bytes ip" "20 \<le> length g"
    and "fo \<le> length (ip4_payload ip)"
  defines "r \<equiv> drop fo (ip4_payload ip)"
  shows "fragment_second inp ip fo =
    Some (new_v4_header (put g 6 (be16_bytes (of_nat (fo div 8)))) (length g + length r) @ r)"
  using assms put_put_commute [of 2 "be16_bytes (of_nat (length g + length r))" 6 "be16_bytes (of_nat (fo div 8))" g]
  by (simp add: fragment_second_def build_simps IP_FRAG_UNIT_def del: of_nat_add of_nat_diff)

definition frag_boundary :: "nat \<Rightarrow> nat" where
  "frag_boundary raw = ((raw + 7) div 8) * 8"

lemma frag_boundary_bounds: "raw \<le> frag_boundary raw" "frag_boundary raw < raw + 8" "8 dvd frag_boundary raw"
proof -
  have "8 * ((raw + 7) div 8) + (raw + 7) mod 8 = raw + 7" by simp
  moreover have "(raw + 7) mod 8 < 8" by simp
  ultimately show "raw \<le> frag_boundary raw" "frag_boundary raw < raw + 8"
    unfolding frag_boundary_def by linarith+
qed (simp add: frag_boundary_def)

lemma packet_fragment_ipv4_eq:
  fixes k :: nat
  assumes wf: "v4_tcp_wf d"
  defines "T \<equiv> ipv4_payload_of d"
  defines "fo \<equiv> frag_boundary (wire_doff T + k)"
  shows "packet_fragment_ipv4 d k =
    (if k = 0 \<or> length T \<le> wire_doff T + k \<or> length T \<le> fo then Some (Inl PACKET_ERR_MALFORMED)
     else Some (Inr (the (fragment_first d (view_of_ipv4 d) fo), the (fragment_second d (view_of_ipv4 d) fo))))"
    and "fo \<le> length T \<Longrightarrow> fragment_first d (view_of_ipv4 d) fo =
      Some (new_v4_header (put (take (wire_ihl d) d) 6 (be16_bytes IP_FLAG_MF)) (wire_ihl d + fo) @ take fo T)"
    and "fo \<le> length T \<Longrightarrow> fragment_second d (view_of_ipv4 d) fo =
      Some (new_v4_header (put (take (wire_ihl d) d) 6 (be16_bytes (of_nat (fo div 8)))) (wire_ihl d + (length T - fo)) @ drop fo T)"
proof -
  have wf4: "ipv4_wf d" and wft: "tcp_wf T" using wf by (simp_all add: v4_tcp_wf_def T_def)
  note h = v4_header_of_wf [OF wf4]
  have parse: "parse_v4_tcp d = Some (Inr (view_of_ipv4 d, view_of_tcp T))"
    using wf by (simp add: parse_v4_tcp_Inr_iff T_def)
  have flds: "ip4_ihl_bytes (view_of_ipv4 d) = wire_ihl d" "ip4_payload (view_of_ipv4 d) = T"
    "tcp_offset_bytes (view_of_tcp T) = wire_doff T" "length (tcp_payload (view_of_tcp T)) = length T - wire_doff T"
    by (simp_all add: view_of_ipv4_def view_of_tcp_def T_def ipv4_payload_of_def)
  have doff: "wire_doff T \<le> length T" using wft by (simp add: tcp_wf_def)
  have sub: "sub_buf d 0 (wire_ihl d) = Some (take (wire_ihl d) d)"
    using wf4 by (simp add: sub_buf_def ipv4_wf_def)
  show first: "fragment_first d (view_of_ipv4 d) fo =
      Some (new_v4_header (put (take (wire_ihl d) d) 6 (be16_bytes IP_FLAG_MF)) (wire_ihl d + fo) @ take fo T)"
    if "fo \<le> length T"
    using fragment_first_eq [of d "view_of_ipv4 d" "take (wire_ihl d) d" fo, unfolded flds, OF sub h(1,2) that]
    unfolding h(1) .
  show second: "fragment_second d (view_of_ipv4 d) fo =
      Some (new_v4_header (put (take (wire_ihl d) d) 6 (be16_bytes (of_nat (fo div 8)))) (wire_ihl d + (length T - fo)) @ drop fo T)"
    if "fo \<le> length T"
    using fragment_second_eq [of d "view_of_ipv4 d" "take (wire_ihl d) d" fo, unfolded flds, OF sub h(1,2) that]
    unfolding h(1) length_drop .
  have fo: "((wire_doff T + k + IP_FRAG_UNIT - 1) div IP_FRAG_UNIT) * IP_FRAG_UNIT = fo"
    by (simp add: fo_def frag_boundary_def IP_FRAG_UNIT_def)
  have "\<not> fo < wire_doff T" using frag_boundary_bounds(1) [of "wire_doff T + k"] by (simp add: fo_def)
  then show "packet_fragment_ipv4 d k =
    (if k = 0 \<or> length T \<le> wire_doff T + k \<or> length T \<le> fo then Some (Inl PACKET_ERR_MALFORMED)
     else Some (Inr (the (fragment_first d (view_of_ipv4 d) fo), the (fragment_second d (view_of_ipv4 d) fo))))"
    unfolding packet_fragment_ipv4_def parse Let_def bind.simps sum.case fst_conv snd_conv flds fo
    using doff first second by auto
qed

lemma packet_fragment_ipv4_bad:
  "tcp_of_v4 d = None \<Longrightarrow> packet_fragment_ipv4 d k = Some (Inl (the (status_of_v4 d)))"
  using parse_v4_tcp_total [of d]
  by (auto simp: tcp_of_v4_def status_of_v4_def packet_fragment_ipv4_def split: option.splits sum.splits)

lemma frag_of_unsupported:
  assumes wf: "ipv4_wf d" and f: "frag_of d out ff chunk" and ff: "ff AND 0x3FFF \<noteq> 0"
  shows "packet_parse_ipv4 out = Some (Inl PACKET_ERR_UNSUPPORTED)"
proof -
  have len: "20 \<le> wire_ihl d" "length out = wire_ihl d + length chunk"
    and w: "wire_ihl out = wire_ihl d" "wire_total_len out = length out" "be16 (out ! 6) (out ! 7) = ff"
    using wf f by (auto simp: ipv4_wf_def frag_of_def wire_frag_def)
  have "out ! 0 = d ! 0" using f len by (auto simp: frag_of_def)
  then have "drop_bit 4 (out ! 0) = 4" using wf by (simp add: ipv4_wf_def)
  then show ?thesis
    using len w ff by (simp add: packet_parse_ipv4_def mem_simps Let_def wire_defs)
qed

lemma frag_field_MF: "IP_FLAG_MF AND 0x3FFF \<noteq> 0"
  by (simp add: IP_FLAG_MF_def)

lemma frag_field_offset:
  assumes "0 < fo" "fo < 65536" "8 dvd fo"
  defines "ff \<equiv> (of_nat (fo div 8) :: u16)"
  shows "8 * unat (ff AND IP_FRAG_OFFSET_MASK) = fo" "ff AND IP_FLAG_MF = 0" "ff AND IP_FLAG_DF = 0"
    "ff AND 0x3FFF \<noteq> 0"
proof -
  have u: "unat ff = fo div 8" and lt: "fo div 8 < 2 ^ 13" using assms by (simp_all add: ff_def unat_of_nat)
  have mask: "IP_FRAG_OFFSET_MASK = mask 13" by (simp add: IP_FRAG_OFFSET_MASK_def mask_eq_exp_minus_1)
  have tb: "take_bit 13 ff = ff"
    using u lt by (simp add: word_unat_eq_iff unsigned_take_bit_eq take_bit_nat_eq_self)
  then have and13: "ff AND mask 13 = ff" by (simp add: take_bit_eq_mask)
  then show "8 * unat (ff AND IP_FRAG_OFFSET_MASK) = fo" using u assms by (simp add: mask)
  have hi: "\<not> bit ff n" if "13 \<le> n" for n
    using that tb by (metis bit_take_bit_iff not_le)
  have zero: "ff AND x = 0" if "mask 13 AND x = 0" for x :: u16
    using that and13 and.assoc [of ff "mask 13" x] by simp
  show "ff AND IP_FLAG_MF = 0" "ff AND IP_FLAG_DF = 0"
    by (rule zero; simp add: ip_frag_consts mask_eq_exp_minus_1)+
  have "mask 13 AND (0x3FFF :: u16) = mask 13" by (simp add: mask_eq_exp_minus_1)
  then have "ff AND 0x3FFF = ff" using and13 by (metis and.assoc)
  then show "ff AND 0x3FFF \<noteq> 0" using u assms by auto
qed

section \<open>Properties of the fragmenter\<close>

text \<open>Claim C34: when \<open>packet_fragment_ipv4\<close> succeeds, the boundary is the first multiple of 8 at or
  after the requested split, so the first fragment holds the whole TCP header; the first fragment
  has MF set, DF clear and offset 0, the second has MF and DF clear and an offset field that is the
  boundary; both have a valid header checksum and length; concatenating what the two carry gives
  the unmodified IP payload (so the original TCP checksum still covers it); and
  \<open>packet_parse_ipv4\<close> answers \<open>PACKET_ERR_UNSUPPORTED\<close> for both, so the engine never processes
  its own fragments again.\<close>

theorem fragment_correct:
  assumes "packet_fragment_ipv4 d k = Some (Inr (o1, o2))"
  shows "\<exists>v ff fo. tcp_of_v4 d = Some v \<and> 0 < k \<and> k < length (tcp_payload v) \<and>
    8 dvd fo \<and> tcp_offset_bytes v + k \<le> fo \<and> fo < tcp_offset_bytes v + k + 8 \<and> fo < length (ipv4_payload_of d) \<and>
    frag_of d o1 IP_FLAG_MF (take fo (ipv4_payload_of d)) \<and> frag_of d o2 ff (drop fo (ipv4_payload_of d)) \<and>
    ff AND IP_FLAG_MF = 0 \<and> ff AND IP_FLAG_DF = 0 \<and> 8 * unat (ff AND IP_FRAG_OFFSET_MASK) = fo \<and>
    ipv4_payload_of o1 @ ipv4_payload_of o2 = ipv4_payload_of d \<and>
    packet_parse_ipv4 o1 = Some (Inl PACKET_ERR_UNSUPPORTED) \<and>
    packet_parse_ipv4 o2 = Some (Inl PACKET_ERR_UNSUPPORTED)"
proof -
  obtain v where v: "tcp_of_v4 d = Some v"
    using packet_fragment_ipv4_bad [of d k] assms by (cases "tcp_of_v4 d") auto
  then have wf: "v4_tcp_wf d" and ve: "v = view_of_tcp (ipv4_payload_of d)" by (simp_all add: tcp_of_v4_Some)
  then have wf4: "ipv4_wf d" by (simp add: v4_tcp_wf_def)
  define T fo where "T = ipv4_payload_of d" and "fo = frag_boundary (wire_doff T + k)"
  note eq = packet_fragment_ipv4_eq [OF wf, of k, folded T_def, folded fo_def]
  have k: "0 < k" "wire_doff T + k < length T" "fo < length T"
    using eq(1) assms by (auto split: if_splits)
  note b = frag_boundary_bounds [of "wire_doff T + k", folded fo_def]
  have o: "o1 = new_v4_header (put (take (wire_ihl d) d) 6 (be16_bytes IP_FLAG_MF)) (wire_ihl d + length (take fo T)) @ take fo T"
      "o2 = new_v4_header (put (take (wire_ihl d) d) 6 (be16_bytes (of_nat (fo div 8)))) (wire_ihl d + length (drop fo T)) @ drop fo T"
    using eq assms k by (simp_all del: of_nat_add of_nat_diff)
  have f: "frag_of d o1 IP_FLAG_MF (take fo T)" "frag_of d o2 (of_nat (fo div 8)) (drop fo T)"
    unfolding o by (rule frag_of_parts [OF wf4]; simp add: T_def)+
  have "length T < 65536" using v4_header_of_wf(7) [OF wf4] by (simp add: T_def)
  then have ff: "0 < fo" "fo < 65536" "8 dvd fo" using k b by auto
  note off = frag_field_offset [OF ff]
  have pays: "ipv4_payload_of o1 @ ipv4_payload_of o2 = T" using f by (simp add: frag_of_def)
  have flds: "tcp_offset_bytes v = wire_doff T" "length (tcp_payload v) = length T - wire_doff T"
    by (simp_all add: ve view_of_tcp_def T_def)
  show ?thesis
    using v k b f off pays flds frag_of_unsupported [OF wf4 f(1) frag_field_MF] frag_of_unsupported [OF wf4 f(2) off(4)]
    unfolding T_def [symmetric]
    by (intro exI [of _ v] exI [of _ "of_nat (fo div 8)"] exI [of _ fo] conjI) simp_all
qed

definition sample_v4_long :: bytes where
  "sample_v4_long = [0x45, 0, 0, 55] @ take 36 (drop 4 sample_v4) @
     [104, 101, 108, 108, 111, 32, 119, 111, 114, 108, 100, 33, 33, 33, 33]"

lemma sample_v4_long_tcp:
  "tcp_of_v4 sample_v4_long \<noteq> None" "tcp_offset_bytes (the (tcp_of_v4 sample_v4_long)) = 20"
  "\<exists>os. packet_fragment_ipv4 sample_v4_long 3 = Some (Inr os)"
proof -
  show t: "tcp_of_v4 sample_v4_long \<noteq> None" and "tcp_offset_bytes (the (tcp_of_v4 sample_v4_long)) = 20"
    by code_simp+
  have wf: "v4_tcp_wf sample_v4_long" using t tcp_of_v4_Some [of sample_v4_long] by auto
  have "length (ipv4_payload_of sample_v4_long) = 35" "wire_doff (ipv4_payload_of sample_v4_long) = 20"
    by code_simp+
  then show "\<exists>os. packet_fragment_ipv4 sample_v4_long 3 = Some (Inr os)"
    using packet_fragment_ipv4_eq(1) [OF wf, of 3] by (simp add: frag_boundary_def)
qed

theorem fragment_correct_witness:
  "\<exists>o1 o2. packet_fragment_ipv4 sample_v4_long 3 = Some (Inr (o1, o2)) \<and>
     frag_of sample_v4_long o1 IP_FLAG_MF (take 24 (ipv4_payload_of sample_v4_long)) \<and>
     ipv4_payload_of o1 @ ipv4_payload_of o2 = ipv4_payload_of sample_v4_long"
proof -
  obtain o1 o2 where o: "packet_fragment_ipv4 sample_v4_long 3 = Some (Inr (o1, o2))"
    using sample_v4_long_tcp(3) by auto
  have "fo = 24" if "8 dvd fo" "20 + 3 \<le> fo" "fo < 20 + 3 + 8" for fo :: nat
  proof -
    obtain c where "fo = 8 * c" using \<open>8 dvd fo\<close> by (elim dvdE)
    then show ?thesis using that by simp
  qed
  moreover obtain v ff fo where "tcp_of_v4 sample_v4_long = Some v" "8 dvd fo" "tcp_offset_bytes v + 3 \<le> fo"
      "fo < tcp_offset_bytes v + 3 + 8"
      "frag_of sample_v4_long o1 IP_FLAG_MF (take fo (ipv4_payload_of sample_v4_long))"
      "ipv4_payload_of o1 @ ipv4_payload_of o2 = ipv4_payload_of sample_v4_long"
    using fragment_correct [OF o] by blast
  ultimately show ?thesis
    using sample_v4_long_tcp(2) o by auto
qed

section \<open>What the decoy builder builds\<close>

lemma rfc1071_head_eq:
  assumes "12 \<le> length g"
  shows "checksum_ipv4_header (put (put g 8 [t]) 10 (be16_bytes v) @ r) (length g) = Some (hdr_csum (put g 8 [t]))"
  using assms by (subst checksum_ipv4_header_eq) simp_all

lemma packet_make_fake_tcp_v4_eq:
  assumes wf: "v4_tcp_wf d"
  defines "T \<equiv> ipv4_payload_of d" and "g \<equiv> take (wire_ihl d) d" and "rest \<equiv> drop (wire_total_len d) d"
  shows "packet_make_fake_tcp_v4 d ttl =
    (if length T \<le> wire_doff T then Some (Inl PACKET_ERR_MALFORMED)
     else Some (Inr (put (put g 8 [ttl]) 10 (be16_bytes (hdr_csum (put g 8 [ttl]))) @
                     put T 16 (be16_bytes (NOT (be16 (T ! 16) (T ! 17)))) @ rest)))"
proof -
  have wf4: "ipv4_wf d" and wft: "tcp_wf T" using wf by (simp_all add: v4_tcp_wf_def T_def)
  note h = v4_header_of_wf [OF wf4, folded g_def]
  have d: "d = g @ T @ rest"
    using ipv4_wf_split(1) [OF wf4] append_take_drop_id [of "wire_total_len d" d]
    unfolding g_def T_def rest_def by (metis append.assoc)
  have lenT: "20 \<le> length T" using wft by (simp add: tcp_wf_def)
  have parse: "parse_v4_tcp d = Some (Inr (view_of_ipv4 d, view_of_tcp T))"
    using wf by (simp add: parse_v4_tcp_Inr_iff T_def)
  have flds: "ip4_ihl_bytes (view_of_ipv4 d) = length g" "length (tcp_payload (view_of_tcp T)) = length T - wire_doff T"
    by (simp_all add: view_of_ipv4_def view_of_tcp_def h(1))
  have stores: "do { let out = d;
      out \<leftarrow> st8 out 8 ttl;
      out \<leftarrow> st16 out 10 0;
      csum \<leftarrow> checksum_ipv4_header out (length g);
      out \<leftarrow> st16 out 10 csum;
      field \<leftarrow> rd16 out (length g + 16);
      out \<leftarrow> st16 out (length g + 16) (NOT field);
      Some (Inr out :: packet_status + bytes) } =
    Some (Inr (put (put g 8 [ttl]) 10 (be16_bytes (hdr_csum (put g 8 [ttl]))) @
               put T 16 (be16_bytes (NOT (be16 (T ! 16) (T ! 17)))) @ rest))"
    unfolding Let_def using h(2) lenT
    by (subst (1) d) (simp add: mem_simps rfc1071_head_eq put_put_same nth_append)
  show ?thesis
    unfolding packet_make_fake_tcp_v4_def parse bind.simps sum.case fst_conv snd_conv Let_def flds
    using stores by (simp add: Let_def)
qed

lemma packet_make_fake_tcp_v4_bad:
  "tcp_of_v4 d = None \<Longrightarrow> packet_make_fake_tcp_v4 d ttl = Some (Inl (the (status_of_v4 d)))"
  using parse_v4_tcp_total [of d]
  by (auto simp: tcp_of_v4_def status_of_v4_def packet_make_fake_tcp_v4_def split: option.splits sum.splits)

text \<open>The TCP checksum field of a packet.\<close>

definition tcp_csum_field :: "bytes \<Rightarrow> u16" where
  "tcp_csum_field t = be16 (t ! 16) (t ! 17)"

lemma complemented_tcp_ok:
  assumes "20 \<le> length g" "20 \<le> length T" "length T \<le> 65535"
    and ok: "tcp_ok_v4 g T"
  shows "tcp_ok_v4 g (put T 16 (be16_bytes (NOT (tcp_csum_field T)))) \<longleftrightarrow>
    tcp_csum_field T = 0 \<or> tcp_csum_field T = 0xFFFF"
proof -
  define P where "P = pseudo_v4 g (length T) @ take 16 T"
  have T: "T = take 16 T @ be16_bytes (tcp_csum_field T) @ drop 18 T"
  proof -
    have "drop 16 T = T ! 16 # T ! 17 # drop 18 T"
      using assms(2) Cons_nth_drop_Suc [of 16 T] Cons_nth_drop_Suc [of 17 T] by simp
    then show ?thesis
      using append_take_drop_id [of 16 T] by (simp add: be16_bytes_def tcp_csum_field_def)
  qed
  have put: "put T 16 (be16_bytes x) = take 16 T @ be16_bytes x @ drop 18 T" for x
    by (simp add: put_def)
  have even: "even (length P)" using assms by (simp add: P_def)
  have "sum16 P = sum16 (pseudo_v4 g (length T)) + sum16 (take 16 T)"
    unfolding P_def using assms by (intro sum16_append) simp
  moreover have "sum16 (pseudo_v4 g (length T)) \<noteq> 0"
  proof -
    have ev: "even (length (take 4 (drop 12 g) @ take 4 (drop 16 g)))" using assms by simp
    have "pseudo_v4 g (length T) = (take 4 (drop 12 g) @ take 4 (drop 16 g)) @ [0, 6] @ be16_bytes (of_nat (length T))"
      by (simp add: pseudo_v4_def)
    then show ?thesis by (simp only: sum16_append [OF ev]) simp
  qed
  ultimately have nz: "sum16 P + sum16 (drop 18 T) \<noteq> 0" by simp
  have small: "length P + length (drop 18 T) \<le> 130000" using assms by (simp add: P_def)
  have "rfc1071_ok (P @ be16_bytes (tcp_csum_field T) @ drop 18 T)"
    using ok T by (simp add: tcp_ok_v4_def P_def)
  moreover have "length (put T 16 (be16_bytes x)) = length T" for x using assms by simp
  ultimately show ?thesis
    using checksum_complement [OF even small nz] by (simp only: tcp_ok_v4_def) (simp add: put P_def)
qed

lemma packet_make_fake_tcp_v4_Inr:
  assumes "packet_make_fake_tcp_v4 d ttl = Some (Inr out)"
  obtains v where "tcp_of_v4 d = Some v" "tcp_payload v \<noteq> []"
    "out = put (put (take (wire_ihl d) d) 8 [ttl]) 10 (be16_bytes (hdr_csum (put (take (wire_ihl d) d) 8 [ttl]))) @
       put (ipv4_payload_of d) 16 (be16_bytes (NOT (tcp_csum_field (ipv4_payload_of d)))) @
       drop (wire_total_len d) d"
proof -
  obtain v where v: "tcp_of_v4 d = Some v"
    using packet_make_fake_tcp_v4_bad [of d ttl] assms by (cases "tcp_of_v4 d") auto
  then have wf: "v4_tcp_wf d" and ve: "v = view_of_tcp (ipv4_payload_of d)" by (simp_all add: tcp_of_v4_Some)
  show thesis
    using packet_make_fake_tcp_v4_eq [OF wf, of ttl] assms v
    by (intro that [of v]) (auto simp: ve view_of_tcp_def tcp_csum_field_def split: if_splits)
qed

section \<open>Properties of the decoy builder\<close>

text \<open>\<open>decoy_of d ttl out\<close>: \<open>out\<close> is the packet \<open>d\<close> with the TTL replaced, a header checksum that
  verifies and the TCP checksum field complemented; every other byte is that of \<open>d\<close>.\<close>

definition decoy_of :: "bytes \<Rightarrow> byte \<Rightarrow> bytes \<Rightarrow> bool" where
  "decoy_of d ttl out \<longleftrightarrow> length out = length d \<and> out ! 8 = ttl \<and> rfc1071_ok (take (wire_ihl d) out) \<and>
     tcp_csum_field (ipv4_payload_of out) = NOT (tcp_csum_field (ipv4_payload_of d)) \<and>
     (\<forall>i < length d. i \<notin> {8, 10, 11, wire_ihl d + 16, wire_ihl d + 17} \<longrightarrow> out ! i = d ! i)"

lemma put_nth_other:
  "off + length x \<le> length d \<Longrightarrow> i < length d \<Longrightarrow> i < off \<or> off + length x \<le> i \<Longrightarrow> put d off x ! i = d ! i"
  by (auto simp: nth_put)

lemma decoy_of_parts:
  fixes ttl :: byte
  assumes wf: "v4_tcp_wf d"
  defines "T \<equiv> ipv4_payload_of d" and "g \<equiv> take (wire_ihl d) d" and "rest \<equiv> drop (wire_total_len d) d"
  defines "h \<equiv> put (put g 8 [ttl]) 10 (be16_bytes (hdr_csum (put g 8 [ttl])))"
  defines "s \<equiv> put T 16 (be16_bytes (NOT (tcp_csum_field T)))"
  shows "ipv4_payload_of (h @ s @ rest) = s" "v4_tcp_wf (h @ s @ rest)" "decoy_of d ttl (h @ s @ rest)"
    "pseudo_v4 (h @ s @ rest) n = pseudo_v4 d n"
proof -
  have wf4: "ipv4_wf d" and wft: "tcp_wf T" and p6: "d ! 9 = 6" using wf by (simp_all add: v4_tcp_wf_def T_def)
  note g = v4_header_of_wf [OF wf4, folded g_def]
  have lenT: "20 \<le> length T" "length T = wire_total_len d - wire_ihl d"
    using wft ipv4_wf_split(3) [OF wf4] by (simp_all add: tcp_wf_def T_def)
  have lens: "length h = wire_ihl d" "length s = length T" using g(1,2) lenT by (simp_all add: h_def s_def)
  have dd: "d = g @ T @ rest"
    using ipv4_wf_split(1) [OF wf4] append_take_drop_id [of "wire_total_len d" d]
    unfolding g_def T_def rest_def by (metis append.assoc)
  have lend: "length (h @ s @ rest) = length d" using lens g(1) arg_cong [OF dd, of length] by simp
  have hn: "h ! i = d ! i" if "i < wire_ihl d" "i \<notin> {8, 10, 11}" for i
    using that g(1,2) by (auto simp: h_def nth_put) (simp_all add: g_def)
  have on: "(h @ s @ rest) ! i = d ! i" if "i < wire_ihl d" "i \<notin> {8, 10, 11}" for i
    using that hn lens by (simp add: nth_append)
  have w: "wire_ihl (h @ s @ rest) = wire_ihl d" "wire_total_len (h @ s @ rest) = wire_total_len d"
    using on g(1,2) by (simp_all add: wire_ihl_def wire_total_len_def)
  show pay: "ipv4_payload_of (h @ s @ rest) = s"
    unfolding ipv4_payload_of_def w using lens lenT(2) by simp
  have "wire_doff s = wire_doff T" using lenT by (simp add: s_def wire_doff_def put_nth_other)
  then have "tcp_wf s" using wft lens by (simp add: tcp_wf_def)
  moreover have "ipv4_wf (h @ s @ rest)"
    using wf4 on g(1,2) w lend unfolding ipv4_wf_def by simp
  ultimately show "v4_tcp_wf (h @ s @ rest)"
    using pay on [of 9] p6 g(1,2) by (simp add: v4_tcp_wf_def)
  show "pseudo_v4 (h @ s @ rest) n = pseudo_v4 d n"
    using lens g(1,2,6) by (simp add: h_def)
  have "rfc1071_ok h"
    using hdr_csum_ok [of "put g 8 [ttl]"] g(1,2) wire_ihl_le_60 [of d] by (simp add: h_def)
  moreover have "(h @ s @ rest) ! i = d ! i"
    if "i < length d" "i \<notin> {8, 10, 11, wire_ihl d + 16, wire_ihl d + 17}" for i
  proof (cases "i < wire_ihl d")
    case False
    then have "(h @ s @ rest) ! i = (s @ rest) ! (i - wire_ihl d)" "d ! i = (T @ rest) ! (i - wire_ihl d)"
      using lens g(1) by (simp add: nth_append, subst dd, simp add: nth_append)
    moreover have "s ! j = T ! j" if "j < length T" "j \<noteq> 16" "j \<noteq> 17" for j
      using that lenT(1) by (auto simp: s_def nth_put)
    ultimately show ?thesis using that False lens by (auto simp: nth_append)
  qed (use that on in simp)
  moreover have "tcp_csum_field s = NOT (tcp_csum_field T)"
    using lenT unfolding tcp_csum_field_def [of s] by (simp add: s_def nth_put be16_bytes_def)
  moreover have "(h @ s @ rest) ! 8 = ttl"
    using lens g(1,2) by (simp add: nth_append h_def nth_put)
  ultimately show "decoy_of d ttl (h @ s @ rest)"
    using pay lend lens unfolding decoy_of_def by (simp add: T_def)
qed

text \<open>For every packet that carries TCP data \<open>packet_make_fake_tcp_v4\<close> builds a decoy: it
  parses, has the requested TTL and a header checksum that verifies, carries the complemented TCP
  checksum and differs from the captured packet in no other byte, so sequence number and payload
  are the ones the inspecting box expects.\<close>

theorem fake_correct:
  assumes "tcp_of_v4 d = Some v" "tcp_payload v \<noteq> []"
  shows "\<exists>out v'. packet_make_fake_tcp_v4 d ttl = Some (Inr out) \<and> decoy_of d ttl out \<and>
    tcp_of_v4 out = Some v' \<and> tcp_seq v' = tcp_seq v \<and> tcp_flags v' = tcp_flags v \<and>
    tcp_payload v' = tcp_payload v"
proof -
  have wf: "v4_tcp_wf d" and ve: "v = view_of_tcp (ipv4_payload_of d)" using assms by (simp_all add: tcp_of_v4_Some)
  define T where "T = ipv4_payload_of d"
  have "wire_doff T < length T" using assms(2) by (simp add: ve view_of_tcp_def T_def)
  then have eq: "packet_make_fake_tcp_v4 d ttl =
     Some (Inr (put (put (take (wire_ihl d) d) 8 [ttl]) 10 (be16_bytes (hdr_csum (put (take (wire_ihl d) d) 8 [ttl]))) @
       put T 16 (be16_bytes (NOT (tcp_csum_field T))) @ drop (wire_total_len d) d))"
    using packet_make_fake_tcp_v4_eq [OF wf, of ttl] by (simp add: T_def tcp_csum_field_def)
  note p = decoy_of_parts [OF wf, of ttl, folded T_def]
  have lenT: "20 \<le> length T" "20 \<le> wire_doff T" using wf by (simp_all add: v4_tcp_wf_def T_def tcp_wf_def)
  define s where "s = put T 16 (be16_bytes (NOT (tcp_csum_field T)))"
  have sn: "s ! i = T ! i" if "i < 16" for i using that lenT by (simp add: s_def put_nth_other)
  then have ds: "wire_doff s = wire_doff T" by (simp add: wire_doff_def)
  have "drop (wire_doff T) s = drop (wire_doff T) T" using lenT by (simp add: s_def)
  then have "tcp_seq (view_of_tcp s) = tcp_seq v" "tcp_flags (view_of_tcp s) = tcp_flags v"
    "tcp_payload (view_of_tcp s) = tcp_payload v"
    using sn ds unfolding ve T_def [symmetric] by (simp_all add: view_of_tcp_def)
  then show ?thesis
    using p(1,2,3) unfolding eq s_def by (auto simp: tcp_of_v4_Some)
qed

theorem fake_correct_witness:
  "\<exists>out. packet_make_fake_tcp_v4 sample_v4 3 = Some (Inr out) \<and> decoy_of sample_v4 3 out \<and> out ! 8 = 3"
proof -
  obtain v where "tcp_of_v4 sample_v4 = Some v" "tcp_payload v \<noteq> []"
    using sample_v4_tcp by (cases "tcp_of_v4 sample_v4") auto
  from fake_correct [OF this, of 3] show ?thesis by (auto simp: decoy_of_def)
qed

text \<open>Claim C37. When the captured packet's TCP checksum is right, the decoy's is wrong, and a
  receiver discards the decoy, unless the captured checksum field is 0x0000 or 0xFFFF: these are
  the two one's-complement representations of zero, complementing one gives the other, and the
  decoy then passes the receiver's check. The comment in \<open>fake.c\<close> says the complement is always
  invalid.\<close>

theorem fake_checksum_rejected_iff:
  assumes "packet_make_fake_tcp_v4 d ttl = Some (Inr out)" "tcp_ok_v4 d (ipv4_payload_of d)"
  shows "tcp_ok_v4 out (ipv4_payload_of out) \<longleftrightarrow>
    tcp_csum_field (ipv4_payload_of d) = 0x0000 \<or> tcp_csum_field (ipv4_payload_of d) = 0xFFFF"
proof -
  define T where "T = ipv4_payload_of d"
  obtain v where v: "tcp_of_v4 d = Some v" and out: "out =
      put (put (take (wire_ihl d) d) 8 [ttl]) 10 (be16_bytes (hdr_csum (put (take (wire_ihl d) d) 8 [ttl]))) @
      put T 16 (be16_bytes (NOT (tcp_csum_field T))) @ drop (wire_total_len d) d"
    using packet_make_fake_tcp_v4_Inr [OF assms(1)] unfolding T_def by metis
  have wf: "v4_tcp_wf d" using v by (simp add: tcp_of_v4_Some)
  then have lens: "20 \<le> length T" "length T \<le> 65535" "20 \<le> length d"
    using v4_header_of_wf(7) [of d] by (simp_all add: v4_tcp_wf_def tcp_wf_def T_def ipv4_wf_def)
  note p = decoy_of_parts [OF wf, of ttl, folded T_def, folded out]
  have "tcp_ok_v4 out (ipv4_payload_of out) \<longleftrightarrow> tcp_ok_v4 d (put T 16 (be16_bytes (NOT (tcp_csum_field T))))"
    unfolding p(1) tcp_ok_v4_def p(4) ..
  then show ?thesis
    using complemented_tcp_ok [OF lens(3,1,2)] assms(2) unfolding T_def by simp
qed

text \<open>The same packet with a valid TCP checksum of 0.\<close>

definition sample_v4_zero :: bytes where
  "sample_v4_zero = take 36 sample_v4 @ [0, 0, 177, 173] @ drop 40 sample_v4"

lemma sample_checksums:
  "tcp_ok_v4 sample_v4 (ipv4_payload_of sample_v4)" "tcp_ok_v4 sample_v4_zero (ipv4_payload_of sample_v4_zero)"
  "tcp_csum_field (ipv4_payload_of sample_v4) = 0xB1AD" "tcp_csum_field (ipv4_payload_of sample_v4_zero) = 0"
  "tcp_of_v4 sample_v4_zero \<noteq> None \<and> tcp_payload (the (tcp_of_v4 sample_v4_zero)) \<noteq> []"
  by code_simp+

lemma packet_make_fake_tcp_v4_defined:
  "tcp_of_v4 d \<noteq> None \<Longrightarrow> tcp_payload (the (tcp_of_v4 d)) \<noteq> [] \<Longrightarrow>
   \<exists>out. packet_make_fake_tcp_v4 d ttl = Some (Inr out)"
  using packet_make_fake_tcp_v4_eq [of d ttl]
  by (cases "tcp_of_v4 d") (auto simp: tcp_of_v4_Some view_of_tcp_def simp del: not_None_eq)

theorem fake_checksum_rejected_iff_witness:
  "(\<exists>out. packet_make_fake_tcp_v4 sample_v4 3 = Some (Inr out) \<and> \<not> tcp_ok_v4 out (ipv4_payload_of out)) \<and>
   (\<exists>out. packet_make_fake_tcp_v4 sample_v4_zero 3 = Some (Inr out) \<and> tcp_ok_v4 out (ipv4_payload_of out))"
proof -
  obtain out where o: "packet_make_fake_tcp_v4 sample_v4 3 = Some (Inr out)"
    using packet_make_fake_tcp_v4_defined [of sample_v4 3] sample_v4_tcp by auto
  obtain out' where o': "packet_make_fake_tcp_v4 sample_v4_zero 3 = Some (Inr out')"
    using packet_make_fake_tcp_v4_defined [of sample_v4_zero 3] sample_checksums(5) by auto
  show ?thesis
    using fake_checksum_rejected_iff [OF o sample_checksums(1)] fake_checksum_rejected_iff [OF o' sample_checksums(2)]
      sample_checksums(3,4) o o' by simp
qed

end
