(* ===== verification/Tls.thy ===== *)
theory Tls
  imports Packet
begin

text \<open>
  TLS: \<open>src/tls.c\<close> (where to cut a ClientHello, and record fragmentation) and
  \<open>src/tls/sni_extract.c\<close> (the host name of a ClientHello, and the inverse operation, gathering a
  fragmented handshake into one record). Reads and writes outside the buffers are \<^const>\<open>None\<close>.
  \<open>-1\<close> of the C functions that return \<open>ssize_t\<close> is the integer \<open>- 1\<close>.
\<close>

section \<open>The ClientHello walks\<close>

definition read_u16 :: "bytes \<Rightarrow> nat \<Rightarrow> nat option" where
  "read_u16 d p = map_option unat (rd16 d p)"

lemma read_u16_Some [mem_simps]: "p + 1 < length d \<Longrightarrow> read_u16 d p = Some (unat (be16 (d ! p) (d ! (p + 1))))"
  by (simp add: read_u16_def mem_simps)

text \<open>The extension loop of \<open>tls_find_sni_split\<close>.\<close>

function find_sni_ext :: "bytes \<Rightarrow> nat \<Rightarrow> nat \<Rightarrow> int option" where
  "find_sni_ext data pos ext_end =
     (if pos + 4 \<le> ext_end then do {
        extension_type \<leftarrow> read_u16 data pos;
        extension_len \<leftarrow> read_u16 data (pos + 2);
        if pos + 4 + extension_len > ext_end then Some (- 1)
        else if extension_type = 0x0000 then
          if extension_len < 5 then Some (- 1)
          else do {
            name_type \<leftarrow> rd8 data (pos + 4 + 2);
            if name_type \<noteq> 0 then Some (- 1)
            else do {
              name_len \<leftarrow> read_u16 data (pos + 4 + 3);
              if 5 + name_len > extension_len then Some (- 1)
              else if name_len < 2 then Some (- 1)
              else Some (int (pos + 4 + 5 + name_len div 2))
            }
          }
        else find_sni_ext data (pos + 4 + extension_len) ext_end
      }
      else Some (- 1))"
  by pat_completeness auto
termination
  by (relation "measure (\<lambda>(data, pos, ext_end). ext_end - pos)") auto

declare find_sni_ext.simps [simp del]

definition tls_find_sni_split :: "bytes \<Rightarrow> int option" where
  "tls_find_sni_split data =
     (let len = length data in
      if len < 5 then Some (- 1) else do {
      content_type \<leftarrow> rd8 data 0;
      if content_type \<noteq> 0x16 then Some (- 1) else do {
      let pos = 5;
      if pos + 4 > len then Some (- 1) else do {
      hs_type \<leftarrow> rd8 data pos;
      if hs_type \<noteq> 0x01 then Some (- 1) else do {
      let pos = pos + 4;
      if pos + 34 > len then Some (- 1) else do {
      let pos = pos + 34;
      if pos + 1 > len then Some (- 1) else do {
      session_len \<leftarrow> rd8 data pos;
      let pos = pos + 1;
      if pos + unat session_len > len then Some (- 1) else do {
      let pos = pos + unat session_len;
      if pos + 2 > len then Some (- 1) else do {
      cipher_len \<leftarrow> read_u16 data pos;
      let pos = pos + 2;
      if pos + cipher_len > len then Some (- 1) else do {
      let pos = pos + cipher_len;
      if pos + 1 > len then Some (- 1) else do {
      compression_len \<leftarrow> rd8 data pos;
      let pos = pos + 1;
      if pos + unat compression_len > len then Some (- 1) else do {
      let pos = pos + unat compression_len;
      if pos + 2 > len then Some (- 1) else do {
      extensions_len \<leftarrow> read_u16 data pos;
      let pos = pos + 2;
      if pos + extensions_len > len then Some (- 1)
      else find_sni_ext data pos (pos + extensions_len) }}}}}}}}}}}})"

definition TLS_CLIENTHELLO_CAP :: nat where "TLS_CLIENTHELLO_CAP = 16384"

text \<open>The extension loop of \<open>tls_parse_client_hello_sni\<close>; the value is the host name written to
  \<open>host_out\<close> (without its terminator).\<close>

function sni_ext :: "bytes \<Rightarrow> nat \<Rightarrow> nat \<Rightarrow> nat \<Rightarrow> (packet_status + bytes) option" where
  "sni_ext data pos ext_end host_out_size =
     (if pos + 4 \<le> ext_end then do {
        extension_type \<leftarrow> read_u16 data pos;
        extension_len \<leftarrow> read_u16 data (pos + 2);
        if pos + 4 + extension_len > ext_end then Some (Inl PACKET_ERR_MALFORMED)
        else if extension_type = 0x0000 then
          if extension_len < 5 then Some (Inl PACKET_ERR_MALFORMED)
          else do {
            name_type \<leftarrow> rd8 data (pos + 4 + 2);
            if name_type \<noteq> 0 then Some (Inl PACKET_ERR_MALFORMED)
            else do {
              name_len \<leftarrow> read_u16 data (pos + 4 + 3);
              if 5 + name_len > extension_len then Some (Inl PACKET_ERR_MALFORMED)
              else if name_len = 0 \<or> name_len \<ge> host_out_size then Some (Inl PACKET_ERR_MALFORMED)
              else do { name \<leftarrow> sub_buf data (pos + 4 + 5) name_len; Some (Inr name) }
            }
          }
        else sni_ext data (pos + 4 + extension_len) ext_end host_out_size
      }
      else Some (Inl PACKET_ERR_UNSUPPORTED))"
  by pat_completeness auto
termination
  by (relation "measure (\<lambda>(data, pos, ext_end, n). ext_end - pos)") auto

declare sni_ext.simps [simp del]

definition tls_parse_client_hello_sni :: "bytes \<Rightarrow> nat \<Rightarrow> (packet_status + bytes) option" where
  "tls_parse_client_hello_sni data host_out_size =
     (let len = length data in
      if host_out_size = 0 then Some (Inl PACKET_ERR_MALFORMED) else
      if len > TLS_CLIENTHELLO_CAP then Some (Inl PACKET_ERR_MALFORMED) else
      if len < 5 then Some (Inl PACKET_ERR_TRUNCATED) else do {
      content_type \<leftarrow> rd8 data 0;
      if content_type \<noteq> 0x16 then Some (Inl PACKET_ERR_UNSUPPORTED) else do {
      let pos = 5;
      if pos + 4 > len then Some (Inl PACKET_ERR_TRUNCATED) else do {
      hs_type \<leftarrow> rd8 data pos;
      if hs_type \<noteq> 0x01 then Some (Inl PACKET_ERR_UNSUPPORTED) else do {
      l2 \<leftarrow> rd8 data (pos + 1);
      l1 \<leftarrow> rd8 data (pos + 2);
      l0 \<leftarrow> rd8 data (pos + 3);
      let handshake_len = push_bit 16 (ucast l2 :: u32) OR push_bit 8 (ucast l1) OR ucast l0;
      if unat handshake_len > TLS_CLIENTHELLO_CAP then Some (Inl PACKET_ERR_MALFORMED) else do {
      let pos = pos + 4;
      if pos + 34 > len then Some (Inl PACKET_ERR_TRUNCATED) else do {
      let pos = pos + 34;
      if pos + 1 > len then Some (Inl PACKET_ERR_TRUNCATED) else do {
      session_len \<leftarrow> rd8 data pos;
      let pos = pos + 1;
      if pos + unat session_len > len then Some (Inl PACKET_ERR_TRUNCATED) else do {
      let pos = pos + unat session_len;
      if pos + 2 > len then Some (Inl PACKET_ERR_TRUNCATED) else do {
      cipher_len \<leftarrow> read_u16 data pos;
      let pos = pos + 2;
      if pos + cipher_len > len then Some (Inl PACKET_ERR_TRUNCATED) else do {
      let pos = pos + cipher_len;
      if pos + 1 > len then Some (Inl PACKET_ERR_TRUNCATED) else do {
      compression_len \<leftarrow> rd8 data pos;
      let pos = pos + 1;
      if pos + unat compression_len > len then Some (Inl PACKET_ERR_TRUNCATED) else do {
      let pos = pos + unat compression_len;
      if pos + 2 > len then Some (Inl PACKET_ERR_TRUNCATED) else do {
      extensions_len \<leftarrow> read_u16 data pos;
      let pos = pos + 2;
      if extensions_len > TLS_CLIENTHELLO_CAP then Some (Inl PACKET_ERR_MALFORMED) else
      if pos + extensions_len > len then Some (Inl PACKET_ERR_TRUNCATED)
      else sni_ext data pos (pos + extensions_len) host_out_size }}}}}}}}}}}}})"

section \<open>Record fragmentation and coalescing\<close>

text \<open>\<open>out\<close> is the caller's output buffer (\<open>out_size = length out\<close>); the value is the returned
  length and the buffer after the call.\<close>

definition tls_fragment_first_record :: "bytes \<Rightarrow> nat \<Rightarrow> bytes \<Rightarrow> (int \<times> bytes) option" where
  "tls_fragment_first_record data at out =
     (let len = length data in
      if len < 6 then Some (- 1, out) else do {
      c0 \<leftarrow> rd8 data 0;
      c1 \<leftarrow> rd8 data 1;
      if c0 \<noteq> 0x16 \<or> c1 \<noteq> 0x03 then Some (- 1, out) else do {
      record_len \<leftarrow> read_u16 data 3;
      if at < 1 \<or> at \<ge> record_len \<or> at \<ge> len - 5 \<or> length out < len + 5 then Some (- 1, out) else do {
      hdr \<leftarrow> sub_buf data 0 3;
      out \<leftarrow> blit out 0 hdr;
      out \<leftarrow> st8 out 3 (of_nat (at div 256));
      out \<leftarrow> st8 out 4 (of_nat at);
      body1 \<leftarrow> sub_buf data 5 at;
      out \<leftarrow> blit out 5 body1;
      out \<leftarrow> blit out (5 + at) hdr;
      out \<leftarrow> st8 out (5 + at + 3) (of_nat ((record_len - at) div 256));
      out \<leftarrow> st8 out (5 + at + 4) (of_nat (record_len - at));
      body2 \<leftarrow> sub_buf data (5 + at) (len - 5 - at);
      out \<leftarrow> blit out (10 + at) body2;
      Some (int (len + 5), out) }}})"

definition tls_record_split_point :: "bytes \<Rightarrow> nat option" where
  "tls_record_split_point data = do {
     split \<leftarrow> tls_find_sni_split data;
     if split > 5 then Some (nat split - 5) else Some 1
   }"

text \<open>The gathering loop: \<open>Inl\<close> is the early \<open>return -1\<close> (with the buffer as it is), \<open>Inr\<close> the state after the loop.\<close>

record coalesce_state =
  cs_pos :: nat
  cs_body :: nat
  cs_declared :: nat
  cs_records :: nat
  cs_out :: bytes

function coalesce_loop :: "bytes \<Rightarrow> coalesce_state \<Rightarrow> (bytes + coalesce_state) option" where
  "coalesce_loop inp s =
     (if cs_pos s + 5 \<le> length inp then do {
        content_type \<leftarrow> rd8 inp (cs_pos s);
        if content_type \<noteq> 0x16 then Some (Inr s) else do {
        rlen \<leftarrow> read_u16 inp (cs_pos s + 3);
        let avail = length inp - cs_pos s - 5;
        let avail = (if avail > rlen then rlen else avail);
        if cs_body s + avail > length (cs_out s) then Some (Inl (cs_out s)) else do {
        chunk \<leftarrow> sub_buf inp (cs_pos s + 5) avail;
        out \<leftarrow> blit (cs_out s) (cs_body s) chunk;
        let s' = \<lparr>cs_pos = cs_pos s + 5 + avail, cs_body = cs_body s + avail,
                  cs_declared = cs_declared s + rlen, cs_records = cs_records s + 1, cs_out = out\<rparr>;
        if avail < rlen then Some (Inr s') else coalesce_loop inp s' }}}
      else Some (Inr s))"
  by pat_completeness auto
termination
  by (relation "measure (\<lambda>(inp, s). length inp - cs_pos s)") auto

declare coalesce_loop.simps [simp del]

definition tls_coalesce_handshake_records :: "bytes \<Rightarrow> bytes \<Rightarrow> (int \<times> bytes) option" where
  "tls_coalesce_handshake_records inp out =
     (let len = length inp in
      if len < 5 then Some (- 1, out) else do {
      c0 \<leftarrow> rd8 inp 0;
      if c0 \<noteq> 0x16 then Some (- 1, out) else do {
      r \<leftarrow> coalesce_loop inp \<lparr>cs_pos = 0, cs_body = 5, cs_declared = 0, cs_records = 0, cs_out = out\<rparr>;
      case r of Inl out' \<Rightarrow> Some (- 1, out')
      | Inr s \<Rightarrow>
        if cs_records s < 2 \<or> cs_declared s > 16384 \<or> cs_body s + (len - cs_pos s) > length out
        then Some (- 1, cs_out s)
        else do {
          out \<leftarrow> st8 (cs_out s) 0 0x16;
          c1 \<leftarrow> rd8 inp 1;
          out \<leftarrow> st8 out 1 c1;
          c2 \<leftarrow> rd8 inp 2;
          out \<leftarrow> st8 out 2 c2;
          out \<leftarrow> st8 out 3 (of_nat (cs_declared s div 256));
          out \<leftarrow> st8 out 4 (of_nat (cs_declared s mod 256));
          tail \<leftarrow> sub_buf inp (cs_pos s) (len - cs_pos s);
          out \<leftarrow> blit out (cs_body s) tail;
          Some (int (cs_body s + len - cs_pos s), out) }}})"

section \<open>The walks stay inside the buffer\<close>

lemma find_sni_ext_total: "e \<le> length d \<Longrightarrow> find_sni_ext d pos e \<noteq> None"
proof (induction d pos e rule: find_sni_ext.induct)
  case (1 d pos e)
  show ?case
    by (subst find_sni_ext.simps) (use 1 in \<open>auto simp: mem_simps\<close>)
qed

lemma sni_ext_total: "e \<le> length d \<Longrightarrow> sni_ext d pos e n \<noteq> None"
proof (induction d pos e n rule: sni_ext.induct)
  case (1 d pos e n)
  show ?case
    by (subst sni_ext.simps) (use 1 in \<open>auto simp: mem_simps\<close>)
qed

lemma tls_find_sni_split_total: "tls_find_sni_split d \<noteq> None"
  unfolding tls_find_sni_split_def Let_def
  by (auto simp: mem_simps simp del: not_None_eq intro!: find_sni_ext_total)

lemma tls_parse_client_hello_sni_total: "tls_parse_client_hello_sni d n \<noteq> None"
  unfolding tls_parse_client_hello_sni_def Let_def
  by (auto simp: mem_simps simp del: not_None_eq intro!: sni_ext_total)

text \<open>More bytes do not change a walk that had all it needed.\<close>

lemma sni_ext_append: "e \<le> length d \<Longrightarrow> sni_ext (d @ r) pos e n = sni_ext d pos e n"
proof (induction d pos e n rule: sni_ext.induct)
  case (1 d pos e n)
  show ?case
    by (subst (1 2) sni_ext.simps) (use 1 in \<open>auto simp: mem_simps nth_append\<close>)
qed

text \<open>\<open>kept x y\<close>: unless \<open>x\<close> asks for more bytes, \<open>y\<close> is the same answer.\<close>

definition kept :: "(packet_status + 'a) option \<Rightarrow> (packet_status + 'a) option \<Rightarrow> bool" where
  "kept x y \<longleftrightarrow> x \<noteq> Some (Inl PACKET_ERR_TRUNCATED) \<longrightarrow> y = x"

lemma kept_trunc:
  "(c' \<Longrightarrow> c) \<Longrightarrow> (\<not> c \<Longrightarrow> kept x y) \<Longrightarrow>
   kept (if c then Some (Inl PACKET_ERR_TRUNCATED) else x) (if c' then Some (Inl PACKET_ERR_TRUNCATED) else y)"
  by (auto simp: kept_def)

lemma kept_if: "(\<not> c \<Longrightarrow> kept x y) \<Longrightarrow> kept (if c then z else x) (if c then z else y)"
  by (auto simp: kept_def)

lemma kept_rd8: "i < length d \<Longrightarrow> kept (f (d ! i)) (g (d ! i)) \<Longrightarrow> kept (rd8 d i \<bind> f) (rd8 (d @ r) i \<bind> g)"
  by (simp add: mem_simps nth_append)

lemma kept_read_u16:
  "i + 1 < length d \<Longrightarrow> (\<And>v. kept (f v) (g v)) \<Longrightarrow> kept (read_u16 d i \<bind> f) (read_u16 (d @ r) i \<bind> g)"
  by (simp add: mem_simps nth_append)

lemma kept_refl: "y = x \<Longrightarrow> kept x y"
  by (simp add: kept_def)

lemma tls_parse_append:
  assumes cap: "length (d @ r) \<le> TLS_CLIENTHELLO_CAP"
  shows "kept (tls_parse_client_hello_sni d n) (tls_parse_client_hello_sni (d @ r) n)"
proof -
  have "\<not> TLS_CLIENTHELLO_CAP < length d" "\<not> TLS_CLIENTHELLO_CAP < length (d @ r)" using cap by auto
  then show ?thesis
    unfolding tls_parse_client_hello_sni_def Let_def
    by (simp only: if_False)
      (rule kept_trunc kept_if kept_rd8 kept_read_u16 kept_refl sni_ext_append | simp; fail)+
qed

text \<open>Both walks find the same name.\<close>

lemma sni_ext_name:
  "sni_ext d pos e n = Some (Inr host) \<Longrightarrow> e \<le> length d \<Longrightarrow>
   \<exists>p. p + length host \<le> e \<and> host = take (length host) (drop p d) \<and> 0 < length host \<and> length host < n \<and>
     find_sni_ext d pos e = Some (if 2 \<le> length host then int (p + length host div 2) else - 1)"
proof (induction d pos e n rule: sni_ext.induct)
  case (1 d pos e n)
  have pos: "pos + 4 \<le> e" using 1(2) sni_ext.simps [of d pos e n] by (auto split: if_splits)
  define ty el where "ty = unat (be16 (d ! pos) (d ! (pos + 1)))"
    and "el = unat (be16 (d ! (pos + 2)) (d ! (pos + 3)))"
  have rd: "read_u16 d pos = Some ty" "read_u16 d (pos + 2) = Some el"
    using pos 1(3) by (simp_all add: ty_def el_def mem_simps numeral_3_eq_3)
  have el: "pos + 4 + el \<le> e"
    using 1(2) sni_ext.simps [of d pos e n] pos rd by (auto split: if_splits)
  show ?case
  proof (cases "ty = 0")
    case False
    then have eqs: "sni_ext d pos e n = sni_ext d (pos + 4 + el) e n"
      "find_sni_ext d pos e = find_sni_ext d (pos + 4 + el) e"
      using sni_ext.simps [of d pos e n] find_sni_ext.simps [of d pos e] pos rd el by simp_all
    show ?thesis
      unfolding eqs(2) by (rule 1(1) [OF pos rd]) (use False el 1(2,3) in \<open>simp_all add: eqs(1)\<close>)
  next
    case True
    define nl where "nl = unat (be16 (d ! (pos + 7)) (d ! (pos + 8)))"
    have el5: "5 \<le> el" using 1(2) sni_ext.simps [of d pos e n] True pos rd by (auto split: if_splits)
    have rd': "rd8 d (pos + 4 + 2) = Some (d ! (pos + 6))" "read_u16 d (pos + 4 + 3) = Some nl"
      using pos el el5 1(3) by (simp_all add: nl_def mem_simps add.commute)
    note eq = sni_ext.simps [of d pos e n] and eq' = find_sni_ext.simps [of d pos e]
    have h: "d ! (pos + 6) = 0" "5 + nl \<le> el" "0 < nl" "nl < n" "sub_buf d (pos + 4 + 5) nl = Some host"
      using 1(2) eq True pos rd rd' el el5 by (auto split: if_splits simp: bind_eq_Some_conv)
    have "host = take nl (drop (pos + 9) d)" "length host = nl"
      using h(2,5) el 1(3) by (auto simp: sub_buf_def add.commute split: if_splits)
    then show ?thesis
      using h eq' True pos rd rd' el el5 by (intro exI [of _ "pos + 9"]) (auto simp: add.commute)
  qed
qed

text \<open>\<open>agree\<close>: a host name found by the first walk is found by the second in the same extension
  block.\<close>

definition agree :: "bytes \<Rightarrow> nat \<Rightarrow> (packet_status + bytes) option \<Rightarrow> int option \<Rightarrow> bool" where
  "agree d n x y \<longleftrightarrow> (\<forall>host. x = Some (Inr host) \<longrightarrow>
     (\<exists>pos e. e \<le> length d \<and> sni_ext d pos e n = Some (Inr host) \<and> y = find_sni_ext d pos e))"

lemma agree_if: "(\<not> c \<Longrightarrow> agree d n x y) \<Longrightarrow> agree d n (if c then Some (Inl st) else x) (if c then w else y)"
  by (simp add: agree_def)

lemma agree_if_left: "(\<not> c \<Longrightarrow> agree d n x y) \<Longrightarrow> agree d n (if c then Some (Inl st) else x) y"
  by (simp add: agree_def)

lemma agree_rd8: "i < length d \<Longrightarrow> agree d n (f (d ! i)) (g (d ! i)) \<Longrightarrow> agree d n (rd8 d i \<bind> f) (rd8 d i \<bind> g)"
  by (simp add: mem_simps)

lemma agree_rd8_left: "i < length d \<Longrightarrow> agree d n (f (d ! i)) y \<Longrightarrow> agree d n (rd8 d i \<bind> f) y"
  by (simp add: mem_simps)

lemma agree_read_u16:
  "i + 1 < length d \<Longrightarrow> (\<And>v. agree d n (f v) (g v)) \<Longrightarrow> agree d n (read_u16 d i \<bind> f) (read_u16 d i \<bind> g)"
  by (simp add: mem_simps)

lemma agree_ext: "e \<le> length d \<Longrightarrow> agree d n (sni_ext d pos e n) (find_sni_ext d pos e)"
  by (auto simp: agree_def)

lemma tls_walks_agree: "agree d n (tls_parse_client_hello_sni d n) (tls_find_sni_split d)"
  unfolding tls_parse_client_hello_sni_def tls_find_sni_split_def Let_def
  by (rule agree_if agree_if_left agree_rd8 agree_rd8_left agree_read_u16 agree_ext | simp; fail)+

section \<open>An encoder for ClientHellos\<close>

text \<open>The RFC 8446 / RFC 6066 layout with a server name, written independently of the parsers.\<close>

definition len8 :: "bytes \<Rightarrow> bytes" where
  "len8 b = of_nat (length b) # b"

definition len16 :: "bytes \<Rightarrow> bytes" where
  "len16 b = be16_bytes (of_nat (length b)) @ b"

definition ext_bytes :: "u16 \<times> bytes \<Rightarrow> bytes" where
  "ext_bytes x = be16_bytes (fst x) @ len16 (snd x)"

definition sni_body :: "bytes \<Rightarrow> bytes" where
  "sni_body host = len16 (0 # len16 host)"

definition hello_exts :: "(u16 \<times> bytes) list \<Rightarrow> bytes \<Rightarrow> bytes \<Rightarrow> bytes" where
  "hello_exts pre host post = concat (map ext_bytes pre) @ ext_bytes (0, sni_body host) @ post"

record hello =
  ch_version_random :: bytes
  ch_session :: bytes
  ch_ciphers :: bytes
  ch_compression :: bytes
  ch_pre :: "(u16 \<times> bytes) list"
  ch_host :: bytes
  ch_post :: bytes

definition hello_prefix :: "hello \<Rightarrow> bytes" where
  "hello_prefix h = ch_version_random h @ len8 (ch_session h) @ len16 (ch_ciphers h) @ len8 (ch_compression h)"

definition hello_body :: "hello \<Rightarrow> bytes" where
  "hello_body h = hello_prefix h @ len16 (hello_exts (ch_pre h) (ch_host h) (ch_post h))"

definition hello_record :: "hello \<Rightarrow> bytes" where
  "hello_record h = [0x16, 3, 1] @ be16_bytes (of_nat (length (hello_body h) + 4)) @
     [1, 0] @ len16 (hello_body h)"

definition hello_ok :: "hello \<Rightarrow> bool" where
  "hello_ok h \<longleftrightarrow> length (ch_version_random h) = 34 \<and> length (ch_session h) < 256 \<and>
     length (ch_compression h) < 256 \<and> length (ch_host h) > 0 \<and>
     list_all (\<lambda>x. fst x \<noteq> 0) (ch_pre h) \<and> length (hello_record h) \<le> TLS_CLIENTHELLO_CAP"

text \<open>Reading at the end of a known prefix.\<close>

lemma rd8_at: "length P = i \<Longrightarrow> rd8 (P @ b # R) i = Some b"
  by (auto simp: rd8_def nth_append)

lemma read_u16_at: "length P = i \<Longrightarrow> read_u16 (P @ be16_bytes v @ R) i = Some (unat v)"
  by (auto simp: read_u16_def rd16_def rd8_def nth_append be16_bytes_def)

lemma read_len16_at: "length P = i \<Longrightarrow> length b < 65536 \<Longrightarrow> read_u16 (P @ len16 b @ R) i = Some (length b)"
  by (simp add: len16_def read_u16_at unat_of_nat)

lemma length_encoders [simp]:
  "length (len8 b) = Suc (length b)" "length (len16 b) = length b + 2"
  "length (ext_bytes x) = length (snd x) + 4" "length (sni_body host) = length host + 5"
  by (simp_all add: len8_def len16_def ext_bytes_def sni_body_def)

lemma ext_header_reads:
  assumes "length P = pos" "length (snd x) < 65536"
  shows "read_u16 (P @ ext_bytes x @ R) pos = Some (unat (fst x))"
    "read_u16 (P @ ext_bytes x @ R) (pos + 2) = Some (length (snd x))"
  using read_u16_at [OF assms(1), of "fst x" "len16 (snd x) @ R"]
    read_len16_at [of "P @ be16_bytes (fst x)" "pos + 2" "snd x" R] assms
  by (simp_all add: ext_bytes_def)

lemma sni_ext_skip:
  assumes "fst x \<noteq> 0" "length (snd x) < 65536" "length P = pos" "pos + length (ext_bytes x) \<le> e"
  shows "sni_ext (P @ ext_bytes x @ R) pos e n = sni_ext (P @ ext_bytes x @ R) (length (P @ ext_bytes x)) e n"
  using assms ext_header_reads [OF assms(3,2), of R]
  by (subst sni_ext.simps) (simp add: unat_eq_zero ac_simps)

lemma sni_ext_hit:
  assumes "length P = pos" "pos + length (ext_bytes (0, sni_body host)) \<le> e"
    and "0 < length host" "length host < n" "length host + 5 < 65536"
  shows "sni_ext (P @ ext_bytes (0, sni_body host) @ R) pos e n = Some (Inr host)"
proof -
  let ?d = "P @ ext_bytes (0, sni_body host) @ R"
  have rd: "read_u16 ?d pos = Some 0" "read_u16 ?d (pos + 2) = Some (length host + 5)"
    using ext_header_reads [OF assms(1), of "(0, sni_body host)" R] assms by simp_all
  let ?Q = "P @ be16_bytes 0 @ be16_bytes (of_nat (length host + 5)) @ be16_bytes (of_nat (length host + 3))"
  have d: "?d = ?Q @ 0 # len16 host @ R" "?d = (?Q @ [0]) @ len16 host @ R"
    "?d = (?Q @ [0] @ be16_bytes (of_nat (length host))) @ host @ R"
    by (simp_all add: ext_bytes_def sni_body_def len16_def add.commute)
  have "rd8 ?d (pos + 4 + 2) = Some 0" unfolding d(1) by (rule rd8_at) (simp add: assms)
  moreover have "read_u16 ?d (pos + 4 + 3) = Some (length host)"
    unfolding d(2) by (rule read_len16_at) (use assms in simp_all)
  moreover have "sub_buf ?d (pos + 4 + 5) (length host) = Some host"
    unfolding d(3) using assms by (simp add: sub_buf_def)
  ultimately show ?thesis
    using rd assms by (subst sni_ext.simps) auto
qed

lemma sni_ext_hello:
  assumes "list_all (\<lambda>x. fst x \<noteq> 0) pre" "length P = pos" "e = pos + length (hello_exts pre host post)"
    and "length (hello_exts pre host post) < 65536" "0 < length host" "length host < n"
  shows "sni_ext (P @ hello_exts pre host post) pos e n = Some (Inr host)"
  using assms
proof (induction pre arbitrary: P pos)
  case Nil
  then show ?case
    using sni_ext_hit [of P pos host e n post] by (simp add: hello_exts_def)
next
  case (Cons x pre)
  have d: "P @ hello_exts (x # pre) host post = P @ ext_bytes x @ hello_exts pre host post"
      "P @ hello_exts (x # pre) host post = (P @ ext_bytes x) @ hello_exts pre host post"
      "length (hello_exts (x # pre) host post) = length (ext_bytes x) + length (hello_exts pre host post)"
    by (simp_all add: hello_exts_def)
  have "sni_ext (P @ hello_exts (x # pre) host post) pos e n =
      sni_ext (P @ hello_exts (x # pre) host post) (length (P @ ext_bytes x)) e n"
    unfolding d(1) by (rule sni_ext_skip) (use Cons.prems d(3) in auto)
  also have "\<dots> = Some (Inr host)"
    unfolding d(2) by (rule Cons.IH) (use Cons.prems d(3) in auto)
  finally show ?case .
qed

lemma unat_of_nat8: "n < 256 \<Longrightarrow> unat (of_nat n :: byte) = n"
  by (simp add: unat_of_nat)

lemma tls_parse_hello:
  assumes ok: "hello_ok h" and n: "length (ch_host h) < n"
  shows "tls_parse_client_hello_sni (hello_record h) n = Some (Inr (ch_host h))"
proof -
  let ?d = "hello_record h" and ?vr = "ch_version_random h" and ?s = "ch_session h"
  let ?c = "ch_ciphers h" and ?z = "ch_compression h" and ?x = "hello_exts (ch_pre h) (ch_host h) (ch_post h)"
  let ?B = "length (hello_body h)"
  let ?H = "[0x16, 3, 1] @ be16_bytes (of_nat (?B + 4)) @ [1, 0] @ be16_bytes (of_nat ?B)"
  let ?P = "?H @ hello_prefix h"
  have lens: "length ?vr = 34" "length ?s < 256" "length ?z < 256" and cap: "length ?d \<le> 16384"
    using ok by (simp_all add: hello_ok_def TLS_CLIENTHELLO_CAP_def)
  have B: "?B = 34 + Suc (length ?s) + (length ?c + 2) + Suc (length ?z) + (length ?x + 2)"
    by (simp add: hello_body_def hello_prefix_def lens)
  have len: "length ?d = 9 + ?B" by (simp add: hello_record_def)
  have d: "?d = ?H @ ?vr @ len8 ?s @ len16 ?c @ len8 ?z @ len16 ?x"
    by (simp add: hello_record_def hello_body_def hello_prefix_def len16_def)
  have hdr: "rd8 ?d 0 = Some 0x16" "rd8 ?d 5 = Some 1" "rd8 ?d 6 = Some 0"
    "rd8 ?d 7 = Some (hi8 (of_nat ?B))" "rd8 ?d 8 = Some (lo8 (of_nat ?B))"
    unfolding d by (simp_all add: rd8_def be16_bytes_def)
  have "push_bit 8 (ucast (hi8 v) :: u32) OR ucast (lo8 v) = ucast v" for v :: u16
    by (rule bit_word_eqI) (auto simp: hi8_def lo8_def bit_simps dest: bit_imp_le_length)
  then have hl: "push_bit 8 (ucast (hi8 (of_nat ?B :: u16)) :: u32) OR ucast (lo8 (of_nat ?B)) = ucast (of_nat ?B :: u16)"
    by blast
  have hlen: "unat (ucast (of_nat ?B :: u16) :: u32) \<le> TLS_CLIENTHELLO_CAP"
    using len cap by (simp add: TLS_CLIENTHELLO_CAP_def unat_of_nat)
  have r1: "rd8 ?d 43 = Some (of_nat (length ?s))"
    using rd8_at [of "?H @ ?vr" 43 "of_nat (length ?s)"] unfolding d len8_def by (simp add: lens)
  have r2: "read_u16 ?d (44 + length ?s) = Some (length ?c)"
    using read_len16_at [of "?H @ ?vr @ len8 ?s" "44 + length ?s" ?c] B len cap unfolding d by (simp add: lens)
  have r3: "rd8 ?d (46 + length ?s + length ?c) = Some (of_nat (length ?z))"
    using rd8_at [of "?H @ ?vr @ len8 ?s @ len16 ?c" "46 + length ?s + length ?c" "of_nat (length ?z)"]
    unfolding d len8_def [of ?z] by (simp add: lens)
  have r4: "read_u16 ?d (47 + length ?s + length ?c + length ?z) = Some (length ?x)"
    using read_len16_at [of ?P "47 + length ?s + length ?c + length ?z" ?x "[]"] B len cap
    unfolding d hello_prefix_def by (simp add: lens)
  have fin: "sni_ext ?d (49 + length ?s + length ?c + length ?z)
      (49 + length ?s + length ?c + length ?z + length ?x) n = Some (Inr (ch_host h))"
    using sni_ext_hello [of "ch_pre h" "?P @ be16_bytes (of_nat (length ?x))" "49 + length ?s + length ?c + length ?z"
        _ "ch_host h" "ch_post h" n] ok n B len cap
    unfolding d hello_prefix_def len16_def [of ?x] by (simp add: lens hello_ok_def)
  show ?thesis
    unfolding tls_parse_client_hello_sni_def Let_def
    using r1 r2 r3 r4 fin hdr hlen hl B len cap lens n
    by (simp add: TLS_CLIENTHELLO_CAP_def unat_of_nat8 ac_simps)
qed

section \<open>What fragmentation writes\<close>

lemma be16_bytes_of_nat: "n < 65536 \<Longrightarrow> be16_bytes (of_nat n) = [of_nat (n div 256), of_nat n]"
proof -
  assume "n < 65536"
  moreover have "n div 256 < 256" using \<open>n < 65536\<close> by (simp add: less_mult_imp_div_less)
  ultimately have "hi8 (of_nat n) = of_nat (n div 256)" "lo8 (of_nat n) = of_nat n"
    by (simp_all add: hi8_def lo8_def word_unat_eq_iff unsigned_ucast_eq unat_of_nat
        drop_bit_eq_div take_bit_eq_mod mod_mod_cancel unat_div)
  then show ?thesis by (simp add: be16_bytes_def)
qed

lemma blit_next:
  "take off out = acc \<Longrightarrow> off + length src \<le> length out \<Longrightarrow>
   blit out off src = Some (put out off src) \<and> length (put out off src) = length out \<and>
   take (off + length src) (put out off src) = acc @ src"
  by (auto simp: blit_def put_def)

definition frag_bytes :: "bytes \<Rightarrow> nat \<Rightarrow> nat \<Rightarrow> bytes" where
  "frag_bytes d rl at = (take 3 d @ be16_bytes (of_nat at) @ take at (drop 5 d)) @
     (take 3 d @ be16_bytes (of_nat (rl - at)) @ drop (5 + at) d)"

definition frag_args_ok :: "bytes \<Rightarrow> nat \<Rightarrow> bytes \<Rightarrow> bool" where
  "frag_args_ok d at out \<longleftrightarrow> 6 \<le> length d \<and> d ! 0 = 0x16 \<and> d ! 1 = 0x03 \<and> 1 \<le> at \<and>
     at < unat (be16 (d ! 3) (d ! 4)) \<and> at < length d - 5 \<and> length d + 5 \<le> length out"

lemma tls_fragment_first_record_bad:
  "\<not> frag_args_ok d at out \<Longrightarrow> tls_fragment_first_record d at out = Some (- 1, out)"
  by (auto simp: tls_fragment_first_record_def frag_args_ok_def mem_simps Let_def)

lemma tls_fragment_first_record_ok:
  assumes ok: "frag_args_ok d at out"
  defines "rl \<equiv> unat (be16 (d ! 3) (d ! 4))"
  shows "\<exists>out'. tls_fragment_first_record d at out = Some (int (length d + 5), out') \<and>
    length out' = length out \<and> take (length d + 5) out' = frag_bytes d rl at"
proof -
  have a: "6 \<le> length d" "d ! 0 = 0x16" "d ! 1 = 0x03" "1 \<le> at" "at < rl" "at < length d - 5"
      "length d + 5 \<le> length out"
    using ok by (simp_all add: frag_args_ok_def rl_def)
  have rl: "rl < 65536" by (simp add: rl_def unat_be16_less)
  define b1 b2 h where "b1 = take at (drop 5 d)" and "b2 = drop (5 + at) d" and "h = take 3 d"
  have lens: "length h = 3" "length b1 = at" "length b2 = length d - 5 - at"
    using a by (auto simp: b1_def b2_def h_def)
  define o1 where "o1 = put out 0 h"
  define o2 where "o2 = put o1 3 [of_nat (at div 256)]"
  define o3 where "o3 = put o2 4 [of_nat at]"
  define o4 where "o4 = put o3 5 b1"
  define o5 where "o5 = put o4 (5 + at) h"
  define o6 where "o6 = put o5 (5 + at + 3) [of_nat ((rl - at) div 256)]"
  define o7 where "o7 = put o6 (5 + at + 4) [of_nat (rl - at)]"
  define o8 where "o8 = put o7 (10 + at) b2"
  have s1: "blit out 0 h = Some o1 \<and> length o1 = length out \<and> take 3 o1 = h"
    using blit_next [of 0 out "[]" h] a lens by (simp add: o1_def)
  have s2: "st8 o1 3 (of_nat (at div 256)) = Some o2 \<and> length o2 = length out \<and> take 4 o2 = h @ [of_nat (at div 256)]"
    using blit_next [of 3 o1 h "[of_nat (at div 256)]"] s1 a by (simp add: o2_def st8_def)
  have s3: "st8 o2 4 (of_nat at) = Some o3 \<and> length o3 = length out \<and> take 5 o3 = h @ [of_nat (at div 256), of_nat at]"
    using blit_next [of 4 o2 _ "[of_nat at]"] s2 a by (simp add: o3_def st8_def)
  have s4: "blit o3 5 b1 = Some o4 \<and> length o4 = length out \<and>
      take (5 + at) o4 = h @ [of_nat (at div 256), of_nat at] @ b1"
    using blit_next [of 5 o3 _ b1] s3 a lens by (simp add: o4_def)
  have s5: "blit o4 (5 + at) h = Some o5 \<and> length o5 = length out \<and>
      take (5 + at + 3) o5 = h @ [of_nat (at div 256), of_nat at] @ b1 @ h"
    using blit_next [of "5 + at" o4 _ h] s4 a lens by (simp add: o5_def)
  have s6: "st8 o5 (5 + at + 3) (of_nat ((rl - at) div 256)) = Some o6 \<and> length o6 = length out \<and>
      take (5 + at + 4) o6 = h @ [of_nat (at div 256), of_nat at] @ b1 @ h @ [of_nat ((rl - at) div 256)]"
    using blit_next [of "5 + at + 3" o5 _ "[of_nat ((rl - at) div 256)]"] s5 a by (simp add: o6_def st8_def)
  have s7: "st8 o6 (5 + at + 4) (of_nat (rl - at)) = Some o7 \<and> length o7 = length out \<and>
      take (10 + at) o7 = h @ [of_nat (at div 256), of_nat at] @ b1 @ h @ [of_nat ((rl - at) div 256), of_nat (rl - at)]"
    using blit_next [of "5 + at + 4" o6 _ "[of_nat (rl - at)]"] s6 a by (simp add: o7_def st8_def del: of_nat_diff)
  have s8: "blit o7 (10 + at) b2 = Some o8 \<and> length o8 = length out \<and>
      take (length d + 5) o8 = h @ [of_nat (at div 256), of_nat at] @ b1 @ h @ [of_nat ((rl - at) div 256), of_nat (rl - at)] @ b2"
  proof -
    have e: "length d + 5 = 10 + at + length b2" using a lens by simp
    show ?thesis
      unfolding e using e blit_next [of "10 + at" o7 _ b2] s7 a by (simp add: o8_def del: of_nat_diff)
  qed
  have sub: "sub_buf d 0 3 = Some h" "sub_buf d 5 at = Some b1" "sub_buf d (5 + at) (length d - 5 - at) = Some b2"
    using a by (simp_all add: sub_buf_def h_def b1_def b2_def)
  have rd: "rd8 d 0 = Some 0x16" "rd8 d 1 = Some 0x03" "read_u16 d 3 = Some rl"
    using a by (simp_all add: mem_simps rl_def)
  have "tls_fragment_first_record d at out = Some (int (length d + 5), o8)"
    unfolding tls_fragment_first_record_def Let_def
    using a rd sub s1 s2 s3 s4 s5 s6 s7 s8 by (simp del: of_nat_diff of_nat_add)
  then show ?thesis
    using s8 a rl be16_bytes_of_nat [of at] be16_bytes_of_nat [of "rl - at"]
    by (auto simp: frag_bytes_def h_def b1_def b2_def simp del: of_nat_diff)
qed

section \<open>What coalescing writes\<close>

text \<open>The reference: the bodies of the leading handshake records, their declared length, and what
  follows them. The last record may be cut short.\<close>

function gather :: "bytes \<Rightarrow> bytes list \<times> nat \<times> bytes" where
  "gather xs =
     (if 5 \<le> length xs \<and> xs ! 0 = 0x16
      then let rlen = unat (be16 (xs ! 3) (xs ! 4)); body = take rlen (drop 5 xs) in
           if length body < rlen then ([body], rlen, [])
           else let (bs, n, rest) = gather (drop (5 + rlen) xs) in (body # bs, rlen + n, rest)
      else ([], 0, xs))"
  by pat_completeness auto
termination
  by (relation "measure length") auto

declare gather.simps [simp del]

definition coalesced :: "bytes \<Rightarrow> bytes" where
  "coalesced d = (case gather d of (bs, n, rest) \<Rightarrow>
     [0x16, d ! 1, d ! 2] @ be16_bytes (of_nat n) @ concat bs @ rest)"

lemma gather_lengths:
  "gather xs = (bs, n, rest) \<Longrightarrow>
   (\<exists>pre. xs = pre @ rest \<and> length pre = 5 * length bs + length (concat bs))"
proof (induction xs arbitrary: bs n rest rule: gather.induct)
  case (1 xs)
  define rlen where "rlen = unat (be16 (xs ! 3) (xs ! 4))"
  show ?case
  proof (cases "5 \<le> length xs \<and> xs ! 0 = 0x16 \<and> \<not> length (take rlen (drop 5 xs)) < rlen")
    case True
    obtain bs' n' where g: "gather (drop (5 + rlen) xs) = (bs', n', rest)" "bs = take rlen (drop 5 xs) # bs'"
      using 1(2) gather.simps [of xs] True by (auto simp: Let_def rlen_def split: prod.splits if_splits)
    obtain pre where "drop (5 + rlen) xs = pre @ rest" "length pre = 5 * length bs' + length (concat bs')"
      using 1(1) [OF _ rlen_def refl _ g(1)] True by auto
    moreover have "xs = take (5 + rlen) xs @ drop (5 + rlen) xs" by simp
    ultimately have "xs = (take (5 + rlen) xs @ pre) @ rest"
        "length (take (5 + rlen) xs @ pre) = 5 * length bs + length (concat bs)"
      using True g(2) by (metis append.assoc, auto)
    then show ?thesis by blast
  next
    case False
    then show ?thesis
      using 1(2) gather.simps [of xs] by (auto simp: Let_def rlen_def split: if_splits)
  qed
qed

lemma coalesce_loop_gather:
  assumes "gather (drop (cs_pos s) inp) = (bs, n, rest)" "cs_pos s \<le> length inp"
    and "cs_body s \<le> cs_pos s + 5" "length inp \<le> length (cs_out s)" "5 \<le> length (cs_out s)"
    and "cs_body s \<le> length (cs_out s)"
  shows "\<exists>out'. coalesce_loop inp s = Some (Inr \<lparr>cs_pos = length inp - length rest,
      cs_body = cs_body s + length (concat bs), cs_declared = cs_declared s + n,
      cs_records = cs_records s + length bs, cs_out = out'\<rparr>) \<and> length out' = length (cs_out s) \<and>
      take (cs_body s + length (concat bs)) out' = take (cs_body s) (cs_out s) @ concat bs"
  using assms
proof (induction "drop (cs_pos s) inp" arbitrary: s bs n rest rule: gather.induct)
  case 1
  define xs where "xs = drop (cs_pos s) inp"
  show ?case
  proof (cases "5 \<le> length xs \<and> xs ! 0 = 0x16")
    case False
    then have "bs = []" "n = 0" "rest = xs" using 1(2) [folded xs_def] gather.simps [of xs] by auto
    moreover have "coalesce_loop inp s = Some (Inr s)"
      using False 1(3) by (subst coalesce_loop.simps) (auto simp: xs_def mem_simps)
    ultimately show ?thesis using 1(3) by (intro exI [of _ "cs_out s"]) (simp add: xs_def)
  next
    case T: True
    define rlen body where "rlen = unat (be16 (xs ! 3) (xs ! 4))" and "body = take rlen (drop 5 xs)"
    define avail where "avail = length body"
    have av: "avail = (if length inp - cs_pos s - 5 > rlen then rlen else length inp - cs_pos s - 5)"
      using T by (auto simp: avail_def body_def xs_def)
    have pos: "cs_pos s + 5 \<le> length inp" using T by (auto simp: xs_def)
    have rds: "rd8 inp (cs_pos s) = Some 0x16" "read_u16 inp (cs_pos s + 3) = Some rlen"
      using T pos by (simp_all add: mem_simps xs_def rlen_def add.commute)
    have room: "cs_body s + avail \<le> length (cs_out s)" "cs_pos s + 5 + avail \<le> length inp"
      using 1(3,4,5) pos av by auto
    have "take avail (drop 5 xs) = body"
      by (cases "rlen \<le> length xs - 5") (auto simp: avail_def body_def)
    then have sub: "sub_buf inp (cs_pos s + 5) avail = Some body"
      using room(2) by (auto simp: sub_buf_def xs_def add.commute)
    define out1 where "out1 = put (cs_out s) (cs_body s) body"
    have bl: "blit (cs_out s) (cs_body s) body = Some out1" "length out1 = length (cs_out s)"
        "take (cs_body s + avail) out1 = take (cs_body s) (cs_out s) @ body"
      using blit_next [of "cs_body s" "cs_out s" _ body] room(1) by (simp_all add: out1_def avail_def)
    define s1 where "s1 = \<lparr>cs_pos = cs_pos s + 5 + avail, cs_body = cs_body s + avail,
        cs_declared = cs_declared s + rlen, cs_records = cs_records s + 1, cs_out = out1\<rparr>"
    have step: "coalesce_loop inp s = (if avail < rlen then Some (Inr s1) else coalesce_loop inp s1)"
      unfolding coalesce_loop.simps [of inp s] if_P [OF pos] rds bind.simps Let_def av [symmetric]
      using sub bl(1) room(1) by (simp add: s1_def)
    have gs: "gather xs = (if avail < rlen then ([body], rlen, [])
        else let (bs, n, rest) = gather (drop (5 + rlen) xs) in (body # bs, rlen + n, rest))"
      unfolding gather.simps [of xs] if_P [OF T] Let_def rlen_def [symmetric] body_def [symmetric]
        avail_def [symmetric] ..
    show ?thesis
    proof (cases "avail < rlen")
      case True
      then have "bs = [body]" "n = rlen" "rest = []"
        using 1(2) [folded xs_def] gs by simp_all
      moreover have "cs_pos s + 5 + avail = length inp" using True av pos by (auto split: if_splits)
      ultimately show ?thesis using step True bl by (simp add: s1_def avail_def)
    next
      case False
      then have eq: "avail = rlen" using av by (auto split: if_splits)
      have dr: "drop (5 + rlen) xs = drop (cs_pos s1) inp" by (simp add: s1_def xs_def eq ac_simps)
      obtain bs' n' where g: "gather (drop (cs_pos s1) inp) = (bs', n', rest)" "bs = body # bs'" "n = rlen + n'"
        using 1(2) [folded xs_def] gs False by (auto simp: Let_def dr split: prod.splits)
      from 1(1) [folded xs_def, OF T rlen_def body_def _ dr g(1)] obtain out' where
        "coalesce_loop inp s1 = Some (Inr \<lparr>cs_pos = length inp - length rest,
          cs_body = cs_body s1 + length (concat bs'), cs_declared = cs_declared s1 + n',
          cs_records = cs_records s1 + length bs', cs_out = out'\<rparr>)" "length out' = length (cs_out s1)"
          "take (cs_body s1 + length (concat bs')) out' = take (cs_body s1) (cs_out s1) @ concat bs'"
        using room bl(2) 1(4,5,6) False by (auto simp: s1_def avail_def)
      then show ?thesis
        using step False bl g(2,3) by (simp add: s1_def avail_def add.assoc)
    qed
  qed
qed

lemma be16_bytes_of_nat':
  "n < 65536 \<Longrightarrow> be16_bytes (of_nat n) = [of_nat (n div 256), of_nat (n mod 256)]"
  by (simp add: be16_bytes_of_nat word_unat_eq_iff unat_of_nat)

text \<open>The header of the gathered record is stored over the first five bytes of the buffer.\<close>

lemma take_drop_prefix:
  "length H = m \<Longrightarrow> take (m + k) (H @ X) = H @ take k X" "length H = m \<Longrightarrow> drop (m + k) (H @ X) = drop k X"
  by simp_all

lemma header_stores:
  assumes "5 \<le> b" "b + length rst \<le> length out" "take b out = A @ B" "length A = 5"
  shows "\<exists>out'. do { o1 \<leftarrow> st8 out 0 u; o2 \<leftarrow> st8 o1 1 v; o3 \<leftarrow> st8 o2 2 w;
      o4 \<leftarrow> st8 o3 3 y; o5 \<leftarrow> st8 o4 4 z; blit o5 b rst } = Some out' \<and>
      take (b + length rst) out' = [u, v, w, y, z] @ B @ rst"
proof -
  obtain a0 a1 a2 a3 a4 where A: "A = [a0, a1, a2, a3, a4]"
    using assms(4) by (auto simp: length_Suc_conv eval_nat_numeral)
  have out: "out = [a0, a1, a2, a3, a4] @ B @ drop b out"
    using append_take_drop_id [of b out] assms(3) A by (metis append.assoc)
  have lb: "b = 5 + length B"
    using arg_cong [OF assms(3), of length] assms(1,2,4) by simp
  have "do { o1 \<leftarrow> st8 out 0 u; o2 \<leftarrow> st8 o1 1 v; o3 \<leftarrow> st8 o2 2 w;
      o4 \<leftarrow> st8 o3 3 y; o5 \<leftarrow> st8 o4 4 z; blit o5 b rst } = blit ([u, v, w, y, z] @ B @ drop b out) b rst"
    by (subst out) (simp add: mem_simps put_def)
  moreover have "take b ([u, v, w, y, z] @ B @ drop b out) = [u, v, w, y, z] @ B"
    using take_append [of b "[u, v, w, y, z] @ B" "drop b out"] lb by simp
  ultimately show ?thesis
    using blit_next [of b "[u, v, w, y, z] @ B @ drop b out" _ rst] assms(2) lb by auto
qed

lemma tls_coalesce_eq:
  assumes d: "5 \<le> length d" "d ! 0 = 0x16" and out: "length d \<le> length out"
    and g: "gather d = (bs, n, rest)"
  shows "\<exists>out'. tls_coalesce_handshake_records d out =
      Some (if length bs < 2 \<or> 16384 < n then - 1 else int (length (coalesced d)), out') \<and>
      (2 \<le> length bs \<and> n \<le> 16384 \<longrightarrow> take (length (coalesced d)) out' = coalesced d)"
proof -
  let ?s0 = "\<lparr>cs_pos = 0, cs_body = 5, cs_declared = 0, cs_records = 0, cs_out = out\<rparr>"
  obtain out1 where loop: "coalesce_loop d ?s0 = Some (Inr \<lparr>cs_pos = length d - length rest,
      cs_body = 5 + length (concat bs), cs_declared = n, cs_records = length bs, cs_out = out1\<rparr>)"
      "length out1 = length out" "take (5 + length (concat bs)) out1 = take 5 out @ concat bs"
    using coalesce_loop_gather [of ?s0 d bs n rest] g d out by auto
  obtain pre where pre: "d = pre @ rest" "length pre = 5 * length bs + length (concat bs)"
    using gather_lengths [OF g] by blast
  have lc: "length (coalesced d) = 5 + length (concat bs) + length rest" by (simp add: coalesced_def g)
  have rds: "rd8 d 0 = Some 0x16" "rd8 d 1 = Some (d ! 1)" "rd8 d 2 = Some (d ! 2)"
    using d by (simp_all add: mem_simps)
  show ?thesis
  proof (cases "length bs < 2 \<or> 16384 < n")
    case True
    then show ?thesis
      using d rds loop unfolding tls_coalesce_handshake_records_def by (auto simp: Let_def)
  next
    case False
    have room: "5 + length (concat bs) + length rest \<le> length out" using pre False out by auto
    have sub: "sub_buf d (length d - length rest) (length rest) = Some rest"
      by (simp add: sub_buf_def pre)
    have lr: "length d - (length d - length rest) = length rest" using pre by simp
    obtain out' where o: "do { o1 \<leftarrow> st8 out1 0 0x16; o2 \<leftarrow> st8 o1 1 (d ! 1); o3 \<leftarrow> st8 o2 2 (d ! 2);
        o4 \<leftarrow> st8 o3 3 (of_nat (n div 256)); o5 \<leftarrow> st8 o4 4 (of_nat (n mod 256));
        blit o5 (5 + length (concat bs)) rest } = Some out'"
        "take (5 + length (concat bs) + length rest) out' =
           [0x16, d ! 1, d ! 2, of_nat (n div 256), of_nat (n mod 256)] @ concat bs @ rest"
      using header_stores [of "5 + length (concat bs)" rest out1 "take 5 out" "concat bs"
          "0x16" "d ! 1" "d ! 2" "of_nat (n div 256)" "of_nat (n mod 256)"] room loop(2,3) d out by auto
    have "tls_coalesce_handshake_records d out = Some (int (length (coalesced d)), out')"
      unfolding tls_coalesce_handshake_records_def Let_def
      using d rds loop(1,2) False room sub o(1) lr lc pre
      by (auto simp: bind_eq_Some_conv)
    moreover have "coalesced d = [0x16, d ! 1, d ! 2, of_nat (n div 256), of_nat (n mod 256)] @ concat bs @ rest"
      using False be16_bytes_of_nat' [of n] by (simp add: coalesced_def g)
    ultimately show ?thesis
      using o(2) [folded lc] False by (intro exI [of _ out']) simp
  qed
qed

lemma gather_frag_bytes:
  assumes d: "6 \<le> length d" "d ! 0 = 0x16" and at: "1 \<le> at" "at < rl" "at < length d - 5"
    and rl: "rl = unat (be16 (d ! 3) (d ! 4))"
    and stop: "length (drop (5 + rl) d) < 5 \<or> drop (5 + rl) d ! 0 \<noteq> 0x16"
  shows "gather (frag_bytes d rl at) =
    ([take at (drop 5 d), take (rl - at) (drop (5 + at) d)], rl, drop (5 + rl) d)"
proof -
  have rl16: "rl < 65536" by (simp add: rl unat_be16_less)
  define h where "h = take 3 d"
  have h: "length h = 3" "h ! 0 = 0x16" using d by (simp_all add: h_def)
  obtain h1 h2 where h3: "h = [0x16, h1, h2]" using h by (auto simp: length_Suc_conv eval_nat_numeral)
  let ?r2 = "h @ be16_bytes (of_nat (rl - at)) @ drop (5 + at) d"
  have f: "frag_bytes d rl at = h @ be16_bytes (of_nat at) @ take at (drop 5 d) @ ?r2"
    by (simp add: frag_bytes_def h_def)
  have u: "unat (of_nat at :: u16) = at" "unat (of_nat (rl - at) :: u16) = rl - at"
    using rl16 at by (simp_all add: unat_of_nat del: of_nat_diff)
  have len1: "length (take at (drop 5 d)) = at" using at by simp
  have stp: "gather (drop (5 + rl) d) = ([], 0, drop (5 + rl) d)"
    using stop by (subst gather.simps) auto
  have g2: "gather ?r2 = ([take (rl - at) (drop (5 + at) d)], rl - at, drop (5 + rl) d)"
  proof (cases "length (take (rl - at) (drop (5 + at) d)) < rl - at")
    case True
    then have "drop (5 + rl) d = []" using at by simp
    then show ?thesis
      using True u by (subst gather.simps) (simp add: h3 be16_bytes_def Let_def del: of_nat_diff)
  next
    case False
    have "drop (5 + (rl - at)) ?r2 = drop (5 + rl) d" using at take_drop_prefix(2) [of "h @ be16_bytes (of_nat (rl - at))" 5 "rl - at" "drop (5 + at) d"] h
      by (simp add: ac_simps del: of_nat_diff)
    then show ?thesis
      using False u stp by (subst gather.simps) (simp add: h3 be16_bytes_def Let_def del: of_nat_diff)
  qed
  have "drop (5 + at) (frag_bytes d rl at) = ?r2"
    unfolding f using len1 h take_drop_prefix(2) [of "h @ be16_bytes (of_nat at)" 5 at "take at (drop 5 d) @ ?r2"]
    by simp
  moreover have "take at (drop 5 (frag_bytes d rl at)) = take at (drop 5 d)"
    unfolding f using len1 by (simp add: h3 be16_bytes_def)
  ultimately show ?thesis
    using g2 u len1 at by (subst gather.simps) (simp add: f h3 be16_bytes_def Let_def)
qed

text \<open>Whatever the size of the output buffer, the loop stays inside both buffers.\<close>

definition coalesce_inv :: "bytes \<Rightarrow> nat \<Rightarrow> coalesce_state \<Rightarrow> bool" where
  "coalesce_inv inp out_size s \<longleftrightarrow> cs_pos s \<le> length inp \<and> 5 \<le> cs_body s \<and> length (cs_out s) = out_size"

lemma coalesce_loop_inv:
  "coalesce_inv inp sz s \<Longrightarrow>
   (case coalesce_loop inp s of None \<Rightarrow> False | Some (Inl out) \<Rightarrow> length out = sz | Some (Inr s') \<Rightarrow> coalesce_inv inp sz s')"
proof (induction inp s rule: coalesce_loop.induct)
  case (1 inp s)
  show ?case
  proof (cases "cs_pos s + 5 \<le> length inp \<and> inp ! cs_pos s = 0x16")
    case False
    then show ?thesis
      using 1(2) by (subst coalesce_loop.simps) (auto simp: mem_simps)
  next
    case True
    define rlen where "rlen = unat (be16 (inp ! (cs_pos s + 3)) (inp ! (cs_pos s + 4)))"
    define avail where "avail = (if length inp - cs_pos s - 5 > rlen then rlen else length inp - cs_pos s - 5)"
    have rds: "rd8 inp (cs_pos s) = Some 0x16" "read_u16 inp (cs_pos s + 3) = Some rlen"
      using True by (simp_all add: mem_simps rlen_def add.commute)
    have av: "cs_pos s + 5 + avail \<le> length inp" using True by (auto simp: avail_def)
    let ?c = "take avail (drop (cs_pos s + 5) inp)"
    have sub: "sub_buf inp (cs_pos s + 5) avail = Some ?c" and lc: "length ?c = avail"
      using av by (simp_all add: sub_buf_def)
    define s1 where "s1 = \<lparr>cs_pos = cs_pos s + 5 + avail, cs_body = cs_body s + avail,
        cs_declared = cs_declared s + rlen, cs_records = cs_records s + 1, cs_out = put (cs_out s) (cs_body s) ?c\<rparr>"
    have step: "coalesce_loop inp s =
        (if cs_body s + avail > length (cs_out s) then Some (Inl (cs_out s))
         else if avail < rlen then Some (Inr s1) else coalesce_loop inp s1)"
      unfolding coalesce_loop.simps [of inp s] if_P [OF True [THEN conjunct1]] rds bind.simps Let_def
        avail_def [symmetric] sub
      using lc by (simp add: blit_def s1_def)
    have inv1: "coalesce_inv inp sz s1" if "\<not> cs_body s + avail > length (cs_out s)"
      using that 1(2) av lc by (simp add: coalesce_inv_def s1_def)
    have ih: "case coalesce_loop inp s1 of None \<Rightarrow> False | Some (Inl out) \<Rightarrow> length out = sz | Some (Inr s') \<Rightarrow> coalesce_inv inp sz s'"
      if "\<not> cs_body s + avail > length (cs_out s)" "\<not> avail < rlen"
      using 1(1) [OF conjunct1 [OF True] rds(1) _ rds(2) refl avail_def that(1) sub _ s1_def [unfolded One_nat_def [symmetric]] that(2) inv1 [OF that(1)]]
        that(1) lc by (simp add: blit_def)
    show ?thesis
      unfolding step using inv1 ih 1(2) by (auto simp: coalesce_inv_def)
  qed
qed

lemma tls_coalesce_total: "tls_coalesce_handshake_records d out \<noteq> None"
proof (cases "5 \<le> length d \<and> d ! 0 = 0x16")
  case False
  then show ?thesis by (auto simp: tls_coalesce_handshake_records_def Let_def mem_simps)
next
  case True
  let ?s0 = "\<lparr>cs_pos = 0, cs_body = 5, cs_declared = 0, cs_records = 0, cs_out = out\<rparr>"
  have inv: "case coalesce_loop d ?s0 of None \<Rightarrow> False | Some (Inl o') \<Rightarrow> length o' = length out
      | Some (Inr s') \<Rightarrow> coalesce_inv d (length out) s'"
    by (rule coalesce_loop_inv) (simp add: coalesce_inv_def)
  show ?thesis
    using True inv unfolding tls_coalesce_handshake_records_def Let_def coalesce_inv_def
    by (auto simp: mem_simps split: option.splits sum.splits)
qed

lemma list_head5:
  assumes "5 \<le> length d"
  shows "d = [d ! 0, d ! 1, d ! 2, d ! 3, d ! 4] @ drop 5 d"
  using assms by (auto simp: Cons_nth_drop_Suc eval_nat_numeral)

lemma split_inside_host:
  assumes "tls_parse_client_hello_sni d n = Some (Inr host)" "2 \<le> length host"
  shows "\<exists>p cut. tls_find_sni_split d = Some (int cut) \<and> p < cut \<and> cut < p + length host \<and>
    p + length host \<le> length d \<and> take (length host) (drop p d) = host \<and>
    (5 < cut \<longrightarrow> tls_record_split_point d = Some (cut - 5))"
proof -
  obtain pos e where w: "e \<le> length d" "sni_ext d pos e n = Some (Inr host)" "tls_find_sni_split d = find_sni_ext d pos e"
    using tls_walks_agree [of d n] assms(1) by (auto simp: agree_def)
  obtain p where "p + length host \<le> e" "host = take (length host) (drop p d)"
      "find_sni_ext d pos e = Some (int (p + length host div 2))"
    using sni_ext_name [OF w(2,1)] assms(2) by auto
  then show ?thesis
    using w assms(2)
    by (intro exI [of _ p] exI [of _ "p + length host div 2"]) (auto simp: tls_record_split_point_def)
qed

section \<open>Properties\<close>

text \<open>No input of any length makes the TLS routines read or write outside their
  buffers.\<close>

theorem tls_memory_safe:
  "tls_find_sni_split d \<noteq> None \<and> tls_record_split_point d \<noteq> None \<and>
   tls_parse_client_hello_sni d host_out_size \<noteq> None \<and>
   tls_fragment_first_record d at out \<noteq> None \<and> tls_coalesce_handshake_records d out \<noteq> None"
  using tls_find_sni_split_total [of d] tls_parse_client_hello_sni_total [of d host_out_size]
    tls_fragment_first_record_bad [of d at out] tls_fragment_first_record_ok [of d at out] tls_coalesce_total [of d out]
  by (cases "frag_args_ok d at out") (auto simp: tls_record_split_point_def)

text \<open>Claim C29: the parser is complete: for every well-formed ClientHello that fits in
  \<open>TLS_CLIENTHELLO_CAP\<close> (any session id, cipher suites, compression methods, any extensions before
  the server name and anything after it) it returns exactly the host name.\<close>

theorem sni_parse_complete:
  assumes "hello_ok h" "length (ch_host h) < host_out_size"
  shows "tls_parse_client_hello_sni (hello_record h) host_out_size = Some (Inr (ch_host h))"
  by (rule tls_parse_hello [OF assms])

definition sample_hello :: hello where
  "sample_hello = \<lparr>ch_version_random = replicate 34 3, ch_session = replicate 32 7, ch_ciphers = [0x13, 1, 0x13, 2],
     ch_compression = [0], ch_pre = [(0x0A, [0, 2, 0, 0x1D]), (0x10, [])], ch_host = [97, 46, 105, 111],
     ch_post = [0, 0x2B, 0, 1, 0]\<rparr>"

lemma sample_hello_ok: "hello_ok sample_hello"
  by code_simp

theorem sni_parse_complete_witness:
  "hello_ok sample_hello \<and>
   tls_parse_client_hello_sni (hello_record sample_hello) 256 = Some (Inr [97, 46, 105, 111])"
  using sni_parse_complete [OF sample_hello_ok, of 256] sample_hello_ok by (simp add: sample_hello_def)

text \<open>An answer is final: when the parser answers anything but
  \<open>PACKET_ERR_TRUNCATED\<close> for the bytes received so far, it gives the same answer for every longer
  input within the cap. Buffering and retrying only on \<open>PACKET_ERR_TRUNCATED\<close> loses nothing.\<close>

theorem sni_prefix_stable:
  assumes "tls_parse_client_hello_sni d n \<noteq> Some (Inl PACKET_ERR_TRUNCATED)"
    and "length (d @ later) \<le> TLS_CLIENTHELLO_CAP"
  shows "tls_parse_client_hello_sni (d @ later) n = tls_parse_client_hello_sni d n"
  using tls_parse_append [OF assms(2), of n] assms(1) by (simp add: kept_def)

theorem sni_prefix_stable_witness:
  "tls_parse_client_hello_sni (hello_record sample_hello @ [1, 2, 3]) 256 = Some (Inr [97, 46, 105, 111])"
proof -
  have parsed: "tls_parse_client_hello_sni (hello_record sample_hello) 256 = Some (Inr [97, 46, 105, 111])"
    using tls_parse_hello [OF sample_hello_ok, of 256] by (simp add: sample_hello_def)
  have "length (hello_record sample_hello @ [1, 2, 3]) \<le> TLS_CLIENTHELLO_CAP" by code_simp
  then show ?thesis
    using sni_prefix_stable [of "hello_record sample_hello" 256 "[1, 2, 3]"] parsed by simp
qed

text \<open>The two ClientHello walks agree: where the parser reports a host name of at
  least two bytes, \<open>tls_find_sni_split\<close> cuts strictly inside the bytes of that very name, and
  \<open>tls_record_split_point\<close> is the same point relative to the record body.\<close>

theorem sni_split_inside_host:
  assumes "tls_parse_client_hello_sni d n = Some (Inr host)" "2 \<le> length host"
  shows "\<exists>p cut. tls_find_sni_split d = Some (int cut) \<and> p < cut \<and> cut < p + length host \<and>
    p + length host \<le> length d \<and> take (length host) (drop p d) = host \<and>
    (5 < cut \<longrightarrow> tls_record_split_point d = Some (cut - 5))"
  by (rule split_inside_host [OF assms])

theorem sni_split_inside_host_witness:
  "\<exists>p cut. tls_find_sni_split (hello_record sample_hello) = Some (int cut) \<and> p < cut \<and> cut < p + 4 \<and>
     take 4 (drop p (hello_record sample_hello)) = [97, 46, 105, 111]"
proof -
  have parsed: "tls_parse_client_hello_sni (hello_record sample_hello) 256 = Some (Inr [97, 46, 105, 111])"
    using tls_parse_hello [OF sample_hello_ok, of 256] by (simp add: sample_hello_def)
  from sni_split_inside_host [OF this] show ?thesis by (auto simp: eval_nat_numeral)
qed

text \<open>Coalescing agrees with the reference \<open>gather\<close>: with an output buffer as long as
  the input it returns \<open>-1\<close> exactly when there are fewer than two handshake records or their bodies
  exceed a record, and otherwise writes one record with the concatenated bodies followed by the
  untouched rest.\<close>

theorem coalesce_is_gather:
  assumes "5 \<le> length d" "d ! 0 = 0x16" "length d \<le> length out" "gather d = (bodies, declared, rest)"
  shows "\<exists>out'. tls_coalesce_handshake_records d out =
      Some (if length bodies < 2 \<or> 16384 < declared then - 1 else int (length (coalesced d)), out') \<and>
      (2 \<le> length bodies \<and> declared \<le> 16384 \<longrightarrow> take (length (coalesced d)) out' = coalesced d)"
  by (rule tls_coalesce_eq [OF assms])

theorem coalesce_is_gather_witness:
  "\<exists>out'. tls_coalesce_handshake_records [0x16, 3, 1, 0, 1, 10, 0x16, 3, 3, 0, 2, 11, 12, 0x17] (replicate 14 0) =
     Some (9, out') \<and> take 9 out' = [0x16, 3, 1, 0, 3, 10, 11, 12, 0x17]"
proof -
  let ?d = "[0x16, 3, 1, 0, 1, 10, 0x16, 3, 3, 0, 2, 11, 12, 0x17] :: bytes"
  have g: "gather ?d = ([[10], [11, 12]], 3, [0x17])" by code_simp
  have c: "coalesced ?d = [0x16, 3, 1, 0, 3, 10, 11, 12, 0x17]" by code_simp
  show ?thesis
    using coalesce_is_gather [of ?d "replicate 14 0", OF _ _ _ g] by (simp add: c eval_nat_numeral)
qed

lemma coalesce_frag_bytes:
  assumes a: "6 \<le> length d" "d ! 0 = 0x16" "1 \<le> at" "at < rl" "at < length d - 5"
    and one: "unat (be16 (d ! 3) (d ! 4)) = rl" "rl \<le> 16384"
    and stop: "length (drop (5 + rl) d) < 5 \<or> drop (5 + rl) d ! 0 \<noteq> 0x16"
    and room: "length d + 5 \<le> length out2"
  shows "\<exists>out2'. tls_coalesce_handshake_records (frag_bytes d rl at) out2 = Some (int (length d), out2') \<and>
    take (length d) out2' = d"
proof -
  have g: "gather (frag_bytes d rl at) = ([take at (drop 5 d), take (rl - at) (drop (5 + at) d)], rl, drop (5 + rl) d)"
    by (rule gather_frag_bytes [OF a one(1) [symmetric] stop])
  have fl: "length (frag_bytes d rl at) = length d + 5" and f0: "frag_bytes d rl at ! 0 = 0x16"
    and f12: "frag_bytes d rl at ! 1 = d ! 1" "frag_bytes d rl at ! 2 = d ! 2"
    using a by (simp_all add: frag_bytes_def nth_append)
  have "take at (drop 5 d) @ take (rl - at) (drop (5 + at) d) @ drop (5 + rl) d = drop 5 d"
    using a(4) append_take_drop_id [of "rl - at" "drop (5 + at) d"] append_take_drop_id [of at "drop 5 d"]
    by (simp add: add.commute)
  moreover have "be16_bytes (of_nat rl) = [d ! 3, d ! 4]" by (simp add: one(1) [symmetric] be16_bytes_def)
  ultimately have c: "coalesced (frag_bytes d rl at) = d"
    using list_head5 [of d] a(1,2) f12 by (simp add: coalesced_def g)
  show ?thesis
    using tls_coalesce_eq [OF _ f0 _ g, of out2] fl room one(2) unfolding c by auto
qed

text \<open>Claim C30: coalescing undoes fragmentation: the two records that
  \<open>tls_fragment_first_record\<close> makes of a handshake record, complete or still arriving, are gathered
  back into the original bytes. So a receiver that reassembles handshake messages across records
  sees the unmodified ClientHello.\<close>

theorem fragment_coalesce_roundtrip:
  assumes frag: "tls_fragment_first_record d at out1 = Some (r, out1')" "r \<noteq> - 1"
    and one: "unat (be16 (d ! 3) (d ! 4)) = rl" "rl \<le> 16384"
    and stop: "length (drop (5 + rl) d) < 5 \<or> drop (5 + rl) d ! 0 \<noteq> 0x16"
    and room: "length d + 5 \<le> length out2"
  shows "\<exists>out2'. tls_coalesce_handshake_records (take (nat r) out1') out2 = Some (int (length d), out2') \<and>
    take (length d) out2' = d"
proof -
  have ok: "frag_args_ok d at out1" using tls_fragment_first_record_bad [of d at out1] frag by auto
  then have a: "6 \<le> length d" "d ! 0 = 0x16" "1 \<le> at" "at < rl" "at < length d - 5"
    using one by (simp_all add: frag_args_ok_def)
  have "take (nat r) out1' = frag_bytes d rl at"
    using tls_fragment_first_record_ok [OF ok] frag one by (auto simp: nat_add_distrib)
  then show ?thesis using coalesce_frag_bytes [OF a one stop room] by simp
qed

theorem fragment_coalesce_roundtrip_witness:
  "\<exists>out1' out2'. tls_fragment_first_record [0x16, 3, 1, 0, 4, 10, 11, 12, 13] 2 (replicate 20 0) = Some (14, out1') \<and>
     tls_coalesce_handshake_records (take 14 out1') (replicate 20 0) = Some (9, out2') \<and>
     take 9 out2' = [0x16, 3, 1, 0, 4, 10, 11, 12, 13]"
proof -
  let ?d = "[0x16, 3, 1, 0, 4, 10, 11, 12, 13] :: bytes" and ?o = "replicate 20 0 :: bytes"
  have "frag_args_ok ?d 2 ?o" by code_simp
  from tls_fragment_first_record_ok [OF this] obtain out1' where
    f: "tls_fragment_first_record ?d 2 ?o = Some (14, out1')" by auto
  have rl: "unat (be16 (?d ! 3) (?d ! 4)) = 4" by code_simp
  have "\<exists>out2'. tls_coalesce_handshake_records (take (nat 14) out1') ?o = Some (int (length ?d), out2') \<and>
      take (length ?d) out2' = ?d"
    by (rule fragment_coalesce_roundtrip [OF f _ rl]) simp_all
  then show ?thesis using f by (auto simp: eval_nat_numeral)
qed

end
