(* ===== verification/Http.thy ===== *)
theory Http
  imports Packet
begin

text \<open>
  \<open>src/http/http.c\<close>: the Host header of a plain HTTP request. The scanning loops are functions on
  the index; a read outside the buffer is \<^const>\<open>None\<close>.
\<close>

section \<open>The routines\<close>

definition ascii :: "string \<Rightarrow> bytes" where
  "ascii s = map of_char s"

abbreviation CR :: byte where "CR \<equiv> 13"
abbreviation LF :: byte where "LF \<equiv> 10"

definition HTTP_SCAN_CAP :: nat where "HTTP_SCAN_CAP = 8192"

definition http_methods :: "bytes list" where
  "http_methods = map ascii [''GET '', ''POST '', ''HEAD '', ''PUT '', ''DELETE '',
     ''OPTIONS '', ''CONNECT '', ''PATCH '', ''TRACE '']"

definition looks_like_request_line :: "bytes \<Rightarrow> bool" where
  "looks_like_request_line data =
     list_ex (\<lambda>m. length m \<le> length data \<and> take (length m) data = m) http_methods"

text \<open>The value is the offset of the blank line; the inner \<^const>\<open>None\<close> is \<open>*found == 0\<close>.\<close>

function find_header_end :: "bytes \<Rightarrow> nat \<Rightarrow> nat \<Rightarrow> nat option option" where
  "find_header_end data scan_len i =
     (if i + 4 \<le> scan_len then do {
        c0 \<leftarrow> rd8 data i;
        c1 \<leftarrow> rd8 data (i + 1);
        c2 \<leftarrow> rd8 data (i + 2);
        c3 \<leftarrow> rd8 data (i + 3);
        if c0 = CR \<and> c1 = LF \<and> c2 = CR \<and> c3 = LF then Some (Some i)
        else find_header_end data scan_len (i + 1)
      }
      else Some None)"
  by pat_completeness auto
termination
  by (relation "measure (\<lambda>(data, scan_len, i). scan_len - i)") auto

definition starts_with_host_header :: "bytes \<Rightarrow> bool" where
  "starts_with_host_header line =
     (5 \<le> length line \<and> map (\<lambda>b. b OR 0x20) (take 5 line) = ascii ''host:'')"

function skip_spaces :: "bytes \<Rightarrow> nat \<Rightarrow> nat \<Rightarrow> nat option" where
  "skip_spaces headers value_start i =
     (if value_start < i then do {
        c \<leftarrow> rd8 headers value_start;
        if c = 32 then skip_spaces headers (value_start + 1) i else Some value_start
      }
      else Some value_start)"
  by pat_completeness auto
termination
  by (relation "measure (\<lambda>(headers, value_start, i). i - value_start)") auto

function extract_host_line :: "bytes \<Rightarrow> nat \<Rightarrow> nat \<Rightarrow> nat \<Rightarrow> nat \<Rightarrow> (packet_status + bytes) option" where
  "extract_host_line headers headers_len host_out_size line_start i =
     (if i + 1 < headers_len then do {
        c0 \<leftarrow> rd8 headers i;
        c1 \<leftarrow> rd8 headers (i + 1);
        if c0 = CR \<and> c1 = LF then do {
          line \<leftarrow> sub_buf headers line_start (i - line_start);
          if starts_with_host_header line then do {
            value_start \<leftarrow> skip_spaces headers (line_start + 5) i;
            let value_len = i - value_start;
            if value_len = 0 \<or> value_len \<ge> host_out_size then Some (Inl PACKET_ERR_MALFORMED)
            else do { v \<leftarrow> sub_buf headers value_start value_len; Some (Inr v) }
          }
          else extract_host_line headers headers_len host_out_size (i + 2) (i + 2)
        }
        else extract_host_line headers headers_len host_out_size line_start (i + 1)
      }
      else Some (Inl PACKET_ERR_UNSUPPORTED))"
  by pat_completeness auto
termination
  by (relation "measure (\<lambda>(headers, headers_len, n, line_start, i). headers_len - i)") auto

declare find_header_end.simps [simp del] skip_spaces.simps [simp del] extract_host_line.simps [simp del]

definition http_parse_host :: "bytes \<Rightarrow> nat \<Rightarrow> (packet_status + bytes) option" where
  "http_parse_host data host_out_size =
     (let len = length data in
      if host_out_size = 0 then Some (Inl PACKET_ERR_MALFORMED)
      else if len < 4 then Some (Inl PACKET_ERR_TRUNCATED)
      else if \<not> looks_like_request_line data then Some (Inl PACKET_ERR_UNSUPPORTED)
      else do {
        let scan_len = (if len > HTTP_SCAN_CAP then HTTP_SCAN_CAP else len);
        found \<leftarrow> find_header_end data scan_len 0;
        case found of
          None \<Rightarrow> if len \<ge> HTTP_SCAN_CAP then Some (Inl PACKET_ERR_MALFORMED)
                  else Some (Inl PACKET_ERR_TRUNCATED)
        | Some header_end \<Rightarrow> extract_host_line data (header_end + 2) host_out_size 0 0
      })"

section \<open>The loops as list functions\<close>

definition blank_at :: "bytes \<Rightarrow> nat \<Rightarrow> bool" where
  "blank_at d i \<longleftrightarrow> d ! i = CR \<and> d ! (i + 1) = LF \<and> d ! (i + 2) = CR \<and> d ! (i + 3) = LF"

lemma find_header_end_eq:
  assumes "n \<le> length d"
  shows "find_header_end d n i = Some (List.find (blank_at d) [i..<n - 3])"
proof (induction "n - i" arbitrary: i)
  case 0
  then show ?case by (subst find_header_end.simps) simp
next
  case (Suc k)
  show ?case
  proof (cases "i + 4 \<le> n")
    case True
    then have up: "[i..<n - 3] = i # [i + 1..<n - 3]" by (simp add: upt_conv_Cons)
    have "find_header_end d n (i + 1) = Some (List.find (blank_at d) [i + 1..<n - 3])"
      using Suc by (intro Suc(1)) simp
    then show ?thesis
      unfolding find_header_end.simps [of d n i] up using True assms
      by (simp add: mem_simps blank_at_def)
  next
    case False
    then show ?thesis by (subst find_header_end.simps) simp
  qed
qed

lemma skip_spaces_eq:
  "i \<le> length h \<Longrightarrow> v \<le> i \<Longrightarrow>
   skip_spaces h v i = Some (v + length (takeWhile (\<lambda>c. c = 32) (take (i - v) (drop v h))))"
proof (induction "i - v" arbitrary: v)
  case 0
  then show ?case by (subst skip_spaces.simps) simp
next
  case (Suc k)
  then have "v < i" by simp
  then have "take (i - v) (drop v h) = h ! v # take (i - Suc v) (drop (Suc v) h)"
    using Suc(3) by (simp add: Cons_nth_drop_Suc [symmetric] take_Cons' del: Cons_nth_drop_Suc)
  then show ?case
    using Suc Suc(1) [of "Suc v"] \<open>v < i\<close> by (subst skip_spaces.simps) (simp add: mem_simps)
qed

text \<open>The lines of a header block (without their CRLF), and the value of a Host line.\<close>

fun split_crlf :: "bytes \<Rightarrow> bytes \<Rightarrow> bytes list" where
  "split_crlf acc (a # b # r) =
     (if a = CR \<and> b = LF then acc # split_crlf [] r else split_crlf (acc @ [a]) (b # r))"
| "split_crlf acc _ = []"

definition host_value :: "nat \<Rightarrow> bytes \<Rightarrow> packet_status + bytes" where
  "host_value n line = (let v = dropWhile (\<lambda>c. c = 32) (drop 5 line) in
     if v = [] \<or> n \<le> length v then Inl PACKET_ERR_MALFORMED else Inr v)"

definition host_of_lines :: "nat \<Rightarrow> bytes list \<Rightarrow> packet_status + bytes" where
  "host_of_lines n lines = (case List.find starts_with_host_header lines of
     None \<Rightarrow> Inl PACKET_ERR_UNSUPPORTED | Some line \<Rightarrow> host_value n line)"

lemma split_crlf_short: "length xs < 2 \<Longrightarrow> split_crlf acc xs = []"
  by (cases "(acc, xs)" rule: split_crlf.cases) auto

lemma extract_value:
  assumes "i \<le> length h" "ls + 5 \<le> i"
  shows "do { value_start \<leftarrow> skip_spaces h (ls + 5) i;
     let value_len = i - value_start;
     if value_len = 0 \<or> value_len \<ge> n then Some (Inl PACKET_ERR_MALFORMED)
     else do { v \<leftarrow> sub_buf h value_start value_len; Some (Inr v) } } =
   Some (host_value n (take (i - ls) (drop ls h)))"
proof -
  define x where "x = take (i - (ls + 5)) (drop (ls + 5) h)"
  define k where "k = length (takeWhile (\<lambda>c. c = 32) x)"
  have x: "drop 5 (take (i - ls) (drop ls h)) = x"
    by (simp add: x_def drop_take add.commute)
  have lx: "length x = i - (ls + 5)" using assms by (simp add: x_def)
  have k: "k \<le> length x" by (simp add: k_def length_takeWhile_le)
  have dw: "dropWhile (\<lambda>c. c = 32) x = drop k x" by (simp add: k_def dropWhile_eq_drop)
  have "drop k x = take (i - (ls + 5 + k)) (drop (ls + 5 + k) h)"
    by (simp add: x_def drop_take ac_simps)
  moreover have "ls + 5 + k \<le> i" using k lx assms by simp
  ultimately show ?thesis
    using assms skip_spaces_eq [OF assms, folded x_def, folded k_def] lx k
    unfolding host_value_def x dw by (auto simp: Let_def sub_buf_def)
qed

lemma extract_host_line_lines:
  assumes "hl \<le> length h" "ls \<le> i"
  shows "extract_host_line h hl n ls i =
    Some (host_of_lines n (split_crlf (take (i - ls) (drop ls h)) (drop i (take hl h))))"
  using assms
proof (induction "hl - i" arbitrary: i ls rule: less_induct)
  case less
  show ?case
  proof (cases "i + 1 < hl")
    case False
    then have "length (drop i (take hl h)) < 2" using less(2) by auto
    then have "split_crlf acc (drop i (take hl h)) = []" for acc by (rule split_crlf_short)
    then show ?thesis
      using False by (subst extract_host_line.simps) (simp add: host_of_lines_def)
  next
    case True
    let ?line = "take (i - ls) (drop ls h)"
    have rds: "rd8 h i = Some (h ! i)" "rd8 h (i + 1) = Some (h ! (i + 1))" "sub_buf h ls (i - ls) = Some ?line"
      using True less(2,3) by (simp_all add: mem_simps)
    have d2: "drop i (take hl h) = h ! i # h ! (i + 1) # drop (i + 2) (take hl h)"
      using True less(2) Cons_nth_drop_Suc [of i "take hl h"] Cons_nth_drop_Suc [of "Suc i" "take hl h"] by simp
    have d1: "drop (i + 1) (take hl h) = h ! (i + 1) # drop (i + 2) (take hl h)"
      using True less(2) Cons_nth_drop_Suc [of "Suc i" "take hl h"] by simp
    have nx: "extract_host_line h hl n ls (i + 1) =
        Some (host_of_lines n (split_crlf (take (i + 1 - ls) (drop ls h)) (drop (i + 1) (take hl h))))"
      "extract_host_line h hl n (i + 2) (i + 2) = Some (host_of_lines n (split_crlf [] (drop (i + 2) (take hl h))))"
      using less(1) [of "i + 1" ls] less(1) [of "i + 2" "i + 2"] True less(2,3) by simp_all
    have app: "take (i + 1 - ls) (drop ls h) = ?line @ [h ! i]"
      using True less(2,3) by (simp add: Suc_diff_le take_Suc_conv_app_nth)
    show ?thesis
    proof (cases "h ! i = CR \<and> h ! (i + 1) = LF")
      case False
      then show ?thesis
        unfolding extract_host_line.simps [of h hl n ls i] if_P [OF True] rds bind.simps if_not_P [OF False] nx app d1 d2
        by auto
    next
      case crlf: True
      show ?thesis
      proof (cases "starts_with_host_header ?line")
        case True
        then have "ls + 5 \<le> i" using less(2,3) \<open>i + 1 < hl\<close> by (auto simp: starts_with_host_header_def)
        then show ?thesis
          unfolding extract_host_line.simps [of h hl n ls i] if_P [OF \<open>i + 1 < hl\<close>] rds bind.simps if_P [OF crlf] if_P [OF True] d2
          using extract_value [of i h ls n] crlf True less(2) \<open>i + 1 < hl\<close> by (simp add: host_of_lines_def)
      next
        case False
        then show ?thesis
          unfolding extract_host_line.simps [of h hl n ls i] if_P [OF \<open>i + 1 < hl\<close>] rds bind.simps if_P [OF crlf] if_not_P [OF False] nx d2
          using crlf by (simp add: host_of_lines_def)
      qed
    qed
  qed
qed

lemma find_upt_first:
  assumes "List.find P [0..<k] = Some e" "k \<le> m" "\<And>i. i < k \<Longrightarrow> Q i = P i"
  shows "List.find Q [0..<m] = Some e"
proof -
  have "[0..<m] = [0..<k] @ [k..<m]" using assms(2) upt_add_eq_append [of 0 k "m - k"] by simp
  moreover have "List.find Q [0..<k] = List.find P [0..<k]"
    by (rule find_cong) (use assms(3) in auto)
  ultimately show ?thesis using assms(1) by (simp add: find_append_case)
qed

definition http_scan :: "bytes \<Rightarrow> nat option" where
  "http_scan d = List.find (blank_at d) [0..<min (length d) HTTP_SCAN_CAP - 3]"

lemma http_scan_bound: "http_scan d = Some e \<Longrightarrow> e + 4 \<le> length d"
  by (auto simp: http_scan_def find_Some_iff)

lemma http_parse_host_eq:
  "http_parse_host d n = Some
     (if n = 0 then Inl PACKET_ERR_MALFORMED
      else if length d < 4 then Inl PACKET_ERR_TRUNCATED
      else if \<not> looks_like_request_line d then Inl PACKET_ERR_UNSUPPORTED
      else case http_scan d of
             None \<Rightarrow> Inl (if HTTP_SCAN_CAP \<le> length d then PACKET_ERR_MALFORMED else PACKET_ERR_TRUNCATED)
           | Some e \<Rightarrow> host_of_lines n (split_crlf [] (take (e + 2) d)))"
proof -
  have m: "(if length d > HTTP_SCAN_CAP then HTTP_SCAN_CAP else length d) = min (length d) HTTP_SCAN_CAP" by auto
  have "extract_host_line d (e + 2) n 0 0 = Some (host_of_lines n (split_crlf [] (take (e + 2) d)))"
    if "http_scan d = Some e" for e
    using extract_host_line_lines [of "e + 2" d 0 0 n] http_scan_bound [OF that] by simp
  then show ?thesis
    unfolding http_parse_host_def Let_def m http_scan_def
    by (auto simp: find_header_end_eq split: option.splits)
qed

lemma looks_like_append: "looks_like_request_line d \<Longrightarrow> looks_like_request_line (d @ r)"
  unfolding looks_like_request_line_def list_ex_iff by (elim bexE, rule bexI) auto

lemma http_scan_append:
  assumes "http_scan d = Some e"
  shows "http_scan (d @ r) = Some e"
  unfolding http_scan_def
  by (rule find_upt_first [OF assms [unfolded http_scan_def]]) (auto simp: blank_at_def nth_append)

section \<open>Requests\<close>

text \<open>A request as a client writes it: header lines, a blank line, a body.\<close>

definition enc_lines :: "bytes list \<Rightarrow> bytes" where
  "enc_lines ls = concat (map (\<lambda>l. l @ [CR, LF]) ls)"

definition http_request :: "bytes list \<Rightarrow> bytes \<Rightarrow> bytes" where
  "http_request ls body = enc_lines ls @ [CR, LF] @ body"

lemma split_crlf_line: "CR \<notin> set l \<Longrightarrow> split_crlf acc (l @ CR # LF # r) = (acc @ l) # split_crlf [] r"
proof (induction l arbitrary: acc)
  case (Cons a l)
  then show ?case by (cases "l @ CR # LF # r") auto
qed simp

lemma split_enc_lines: "list_all (\<lambda>l. CR \<notin> set l) ls \<Longrightarrow> split_crlf [] (enc_lines ls) = ls"
  by (induction ls) (auto simp: enc_lines_def split_crlf_line)

lemma no_blank_inside:
  assumes "list_all (\<lambda>l. l \<noteq> [] \<and> CR \<notin> set l) ls" "i + 2 < length (enc_lines ls)"
  shows "\<not> blank_at (enc_lines ls @ r) i"
  using assms
proof (induction ls arbitrary: i)
  case (Cons l ls)
  let ?d = "enc_lines (l # ls) @ r"
  have d: "?d = l @ [CR, LF] @ enc_lines ls @ r" by (simp add: enc_lines_def)
  have cr: "CR \<notin> set l" and len: "length (enc_lines (l # ls)) = length l + 2 + length (enc_lines ls)"
    using Cons.prems by (simp_all add: enc_lines_def)
  consider "i < length l" | "i = length l" | "i = length l + 1" | "length l + 2 \<le> i" by linarith
  then show ?case
  proof cases
    case 1
    then have "?d ! i = l ! i" unfolding d by (simp add: nth_append)
    moreover have "l ! i \<noteq> CR" using 1 cr nth_mem [of i l] by metis
    ultimately show ?thesis by (simp add: blank_at_def)
  next
    case 2
    have "enc_lines ls \<noteq> []" using Cons.prems(2) 2 len by auto
    then obtain l' ls' where ls: "ls = l' # ls'" by (cases ls) (auto simp: enc_lines_def)
    then obtain a l'' where "l' = a # l''" "a \<noteq> CR" using Cons.prems(1) by (cases l') auto
    then have "?d ! (i + 2) = a" using 2 ls unfolding d by (simp add: nth_append enc_lines_def)
    then show ?thesis using \<open>a \<noteq> CR\<close> by (simp add: blank_at_def)
  next
    case 3
    then have "?d ! i = LF" unfolding d by (simp add: nth_append)
    then show ?thesis by (simp add: blank_at_def)
  next
    case 4
    then obtain j where j: "i = length (l @ [CR, LF]) + j" by (auto simp: le_iff_add)
    have shift: "?d ! (i + k) = (enc_lines ls @ r) ! (j + k)" for k
      using nth_append_length_plus [of "l @ [CR, LF]" "enc_lines ls @ r" "j + k"] unfolding d j
      by (simp add: add.assoc)
    have "\<not> blank_at (enc_lines ls @ r) j" using Cons j len by (intro Cons.IH) auto
    then show ?thesis using shift [of 0] shift [of 1] shift [of 2] shift [of 3] by (simp add: blank_at_def)
  qed
qed (simp add: enc_lines_def)

lemma http_scan_request:
  assumes ls: "list_all (\<lambda>l. l \<noteq> [] \<and> CR \<notin> set l) ls" "ls \<noteq> []" and cap: "length (enc_lines ls) + 2 \<le> HTTP_SCAN_CAP"
  shows "http_scan (http_request ls body) = Some (length (enc_lines ls) - 2)"
proof -
  obtain l ls' where l: "ls = ls' @ [l]" using ls(2) by (cases ls rule: rev_cases) auto
  define e where "e = length (enc_lines ls) - 2"
  let ?d = "http_request ls body"
  have E: "enc_lines ls = (enc_lines ls' @ l) @ [CR, LF]" by (simp add: enc_lines_def l)
  have e: "e = length (enc_lines ls' @ l)" by (simp add: e_def E)
  have d: "?d = (enc_lines ls' @ l) @ [CR, LF, CR, LF] @ body" by (simp add: http_request_def E)
  have at: "?d ! (e + k) = ([CR, LF, CR, LF] @ body) ! k" for k unfolding d e by (rule nth_append_length_plus)
  have blank: "blank_at ?d e" using at [of 0] at [of 1] at [of 2] at [of 3] by (simp add: blank_at_def)
  have none: "\<not> blank_at ?d i" if "i < e" for i
    unfolding http_request_def by (rule no_blank_inside [OF ls(1)]) (use that e_def in simp)
  have "e < min (length ?d) HTTP_SCAN_CAP - 3" using cap unfolding d by (simp add: e E)
  then show ?thesis
    unfolding http_scan_def find_Some_iff e_def [symmetric]
    using blank none by (intro exI [of _ e]) auto
qed

section \<open>Properties\<close>

text \<open>\<open>http_parse_host\<close> reads no byte outside its buffer, and its answer is the one of
  the line-based reference: the first Host line of the header block that ends at the first blank
  line within \<open>HTTP_SCAN_CAP\<close> bytes.\<close>

theorem http_parse_reference:
  "http_parse_host d n = Some
     (if n = 0 then Inl PACKET_ERR_MALFORMED
      else if length d < 4 then Inl PACKET_ERR_TRUNCATED
      else if \<not> looks_like_request_line d then Inl PACKET_ERR_UNSUPPORTED
      else case List.find (blank_at d) [0..<min (length d) HTTP_SCAN_CAP - 3] of
             None \<Rightarrow> Inl (if HTTP_SCAN_CAP \<le> length d then PACKET_ERR_MALFORMED else PACKET_ERR_TRUNCATED)
           | Some e \<Rightarrow> host_of_lines n (split_crlf [] (take (e + 2) d)))"
  unfolding http_parse_host_eq http_scan_def ..

text \<open>Claim C38: for every request with non-empty CR-free header lines whose first line starts with
  a known method and whose header block fits in \<open>HTTP_SCAN_CAP\<close>, the parser returns the value of
  the first Host header, whatever the body.\<close>

theorem http_parse_complete:
  assumes "looks_like_request_line req" "list_all (\<lambda>l. l \<noteq> [] \<and> CR \<notin> set l) (req # pre @ (host_line # post))"
    and "\<not> list_ex starts_with_host_header (req # pre)"
    and "starts_with_host_header host_line" "dropWhile (\<lambda>c. c = 32) (drop 5 host_line) = host"
    and "host \<noteq> []" "length host < n"
    and "length (enc_lines (req # pre @ (host_line # post))) + 2 \<le> HTTP_SCAN_CAP"
  shows "http_parse_host (http_request (req # pre @ (host_line # post)) body) n = Some (Inr host)"
proof -
  define ls where "ls = req # pre @ (host_line # post)"
  have ls: "list_all (\<lambda>l. l \<noteq> [] \<and> CR \<notin> set l) ls" "ls \<noteq> []" using assms(2) by (simp_all add: ls_def)
  let ?d = "http_request ls body"
  have d: "?d = req @ [CR, LF] @ enc_lines (pre @ (host_line # post)) @ [CR, LF] @ body"
    by (simp add: http_request_def ls_def enc_lines_def)
  have look: "looks_like_request_line ?d" unfolding d by (rule looks_like_append [OF assms(1)])
  have scan: "http_scan ?d = Some (length (enc_lines ls) - 2)"
    by (rule http_scan_request [OF ls]) (use assms(8) in \<open>simp add: ls_def\<close>)
  have two: "2 \<le> length (enc_lines ls)" "4 \<le> length ?d"
    using assms(4) by (simp_all add: http_request_def ls_def enc_lines_def starts_with_host_header_def)
  have "split_crlf [] (take (length (enc_lines ls) - 2 + 2) ?d) = ls"
    using two split_enc_lines [of ls] ls(1) by (simp add: http_request_def list_all_iff)
  moreover have "host_of_lines n ls = Inr host"
  proof -
    have f: "List.find starts_with_host_header (req # pre) = None"
      using assms(3) by (simp only: find_None_iff list_ex_iff) blast
    have "List.find starts_with_host_header ls = Some host_line"
      using find_append_case [of starts_with_host_header "req # pre" "host_line # post"] f assms(4) by (simp add: ls_def)
    then show ?thesis using assms(5,6,7) by (simp add: host_of_lines_def host_value_def Let_def)
  qed
  ultimately show ?thesis
    unfolding ls_def [symmetric] http_parse_host_eq using look scan two(2) assms(7) by simp
qed

theorem http_parse_complete_witness:
  "http_parse_host (http_request [ascii ''GET / HTTP/1.1'', ascii ''Accept: *'', ascii ''HOST:  a.io'', ascii ''Via: x''] [1, 2])
     256 = Some (Inr (ascii ''a.io''))"
proof -
  have "http_parse_host (http_request (ascii ''GET / HTTP/1.1'' # [ascii ''Accept: *''] @
      (ascii ''HOST:  a.io'' # [ascii ''Via: x''])) [1, 2]) 256 = Some (Inr (ascii ''a.io''))"
    by (rule http_parse_complete) code_simp+
  then show ?thesis by simp
qed

text \<open>Once the method is recognised, an answer other than
  \<open>PACKET_ERR_TRUNCATED\<close> does not change when more bytes arrive.\<close>

theorem http_prefix_stable:
  assumes "looks_like_request_line d" "http_parse_host d n \<noteq> Some (Inl PACKET_ERR_TRUNCATED)"
  shows "http_parse_host (d @ later) n = http_parse_host d n"
proof (cases "http_scan d")
  case None
  then have len: "n = 0 \<or> HTTP_SCAN_CAP \<le> length d"
    using assms unfolding http_parse_host_eq by (auto split: if_splits)
  moreover have "http_scan (d @ later) = None" if "HTTP_SCAN_CAP \<le> length d"
    using None that unfolding http_scan_def find_None_iff
    by (auto simp: blank_at_def nth_append min_def)
  ultimately show ?thesis
    using assms looks_like_append [OF assms(1), of later] None unfolding http_parse_host_eq
    by (auto split: if_splits)
next
  case (Some e)
  then show ?thesis
    using looks_like_append [OF assms(1), of later] assms(1) http_scan_append [OF Some, of later] http_scan_bound [OF Some]
    unfolding http_parse_host_eq by auto
qed

theorem http_prefix_stable_witness:
  "http_parse_host (http_request [ascii ''GET /'', ascii ''Host:a''] [] @ [7, 7]) 256 = Some (Inr [97])"
proof -
  have "looks_like_request_line (http_request [ascii ''GET /'', ascii ''Host:a''] [])"
    and p: "http_parse_host (http_request [ascii ''GET /'', ascii ''Host:a''] []) 256 = Some (Inr [97])"
    by code_simp+
  then show ?thesis using http_prefix_stable [of "http_request [ascii ''GET /'', ascii ''Host:a''] []" 256 "[7, 7]"] by simp
qed

text \<open>Before that the answer is not final: the first four to seven bytes of a request
  whose method is longer than four letters are answered \<open>PACKET_ERR_UNSUPPORTED\<close>, while the complete
  request has a Host header. \<open>http_parse.h\<close> promises \<open>PACKET_ERR_TRUNCATED\<close> for input that is valid
  so far.\<close>

theorem http_short_method_unsupported:
  "http_parse_host (ascii ''OPTIO'') 256 = Some (Inl PACKET_ERR_UNSUPPORTED) \<and>
   http_parse_host (ascii ''OPTIO'' @ ascii ''NS * HTTP/1.1'' @ [CR, LF] @ ascii ''Host: a.io'' @ [CR, LF, CR, LF]) 256 =
     Some (Inr (ascii ''a.io''))"
  by code_simp

end
