(* ===== verification/Slots.thy ===== *)
theory Slots
  imports Prelude
begin

text \<open>
  Fixed-size tables searched linearly: the flow table, the DNS cache, and the daemon's cooldown and
  direct-bad marks all choose a slot the same way (the entry that matches, else a reusable one, else
  the one with the smallest stamp). The scans are defined here once; the contract of a write through
  such a slot is a locale, interpreted for each table.
\<close>

section \<open>Scans\<close>

text \<open>\<open>while (i < n) { if (p(&t[i])) return i; i++; }\<close>\<close>

fun first_idx_from :: "nat \<Rightarrow> ('e \<Rightarrow> bool) \<Rightarrow> 'e list \<Rightarrow> nat option" where
  "first_idx_from i p (e # es) = (if p e then Some i else first_idx_from (i + 1) p es)"
| "first_idx_from i p [] = None"

definition first_idx :: "('e \<Rightarrow> bool) \<Rightarrow> 'e list \<Rightarrow> nat option" where
  "first_idx p es = first_idx_from 0 p es"

text \<open>\<open>oldest = 0; i = 1; while (i < n) { if (t[i].stamp < t[oldest].stamp) oldest = i; i++; }\<close>\<close>

fun oldest_idx_from :: "nat \<Rightarrow> ('e \<Rightarrow> int) \<Rightarrow> nat \<Rightarrow> int \<Rightarrow> 'e list \<Rightarrow> nat" where
  "oldest_idx_from i stamp oldest best (e # es) =
     (if stamp e < best then oldest_idx_from (i + 1) stamp i (stamp e) es
      else oldest_idx_from (i + 1) stamp oldest best es)"
| "oldest_idx_from i stamp oldest best [] = oldest"

definition oldest_idx :: "('e \<Rightarrow> int) \<Rightarrow> 'e list \<Rightarrow> nat" where
  "oldest_idx stamp es = (case es of [] \<Rightarrow> 0 | e # r \<Rightarrow> oldest_idx_from 1 stamp 0 (stamp e) r)"

definition slot_for :: "('e \<Rightarrow> bool) \<Rightarrow> ('e \<Rightarrow> bool) \<Rightarrow> ('e \<Rightarrow> int) \<Rightarrow> 'e list \<Rightarrow> nat" where
  "slot_for match reusable stamp es =
     (case first_idx match es of Some i \<Rightarrow> i
      | None \<Rightarrow> (case first_idx reusable es of Some i \<Rightarrow> i | None \<Rightarrow> oldest_idx stamp es))"

lemma first_idx_from_eq:
  "first_idx_from i p es = map_option (\<lambda>j. i + j) (first_idx_from 0 p es)"
proof (induction es arbitrary: i)
  case (Cons e es)
  show ?case
    using Cons.IH [of "i + 1"] Cons.IH [of 1] by (auto simp: option.map_comp comp_def)
qed simp

lemma first_idx_Some:
  "first_idx p es = Some i \<longleftrightarrow> i < length es \<and> p (es ! i) \<and> (\<forall>j < i. \<not> p (es ! j))"
  unfolding first_idx_def
proof (induction es arbitrary: i)
  case (Cons e es)
  show ?case
  proof (cases i)
    case 0
    then show ?thesis using first_idx_from_eq [of 1 p es] by auto
  next
    case (Suc k)
    have "first_idx_from 0 p (e # es) = Some (Suc k) \<longleftrightarrow> \<not> p e \<and> first_idx_from 0 p es = Some k"
      using first_idx_from_eq [of 1 p es] by auto
    then show ?thesis
      unfolding Suc Cons.IH by (auto simp: less_Suc_eq_0_disj)
  qed
qed simp

lemma first_idx_None: "first_idx p es = None \<longleftrightarrow> (\<forall>e \<in> set es. \<not> p e)"
  unfolding first_idx_def
proof (induction es)
  case (Cons e es)
  then show ?case using first_idx_from_eq [of 1 p es] by auto
qed simp

lemma first_idx_find: "List.find p es = map_option ((!) es) (first_idx p es)"
proof (cases "first_idx p es")
  case None
  then have "List.find p es = None" by (simp add: first_idx_None find_None_iff)
  then show ?thesis using None by simp
next
  case (Some i)
  then have "List.find p es = Some (es ! i)" unfolding first_idx_Some find_Some_iff by blast
  then show ?thesis using Some by simp
qed

lemma oldest_idx_from_min:
  "stamp (pre ! oldest) = best \<Longrightarrow> oldest < length pre \<Longrightarrow> (\<forall>e \<in> set pre. best \<le> stamp e) \<Longrightarrow> i = length pre \<Longrightarrow>
   (let k = oldest_idx_from i stamp oldest best es in
    k < length (pre @ es) \<and> (\<forall>e \<in> set (pre @ es). stamp ((pre @ es) ! k) \<le> stamp e))"
proof (induction es arbitrary: i oldest best pre)
  case Nil
  then show ?case by simp
next
  case (Cons e es)
  show ?case
  proof (cases "stamp e < best")
    case True
    have "let k = oldest_idx_from (i + 1) stamp i (stamp e) es in
        k < length ((pre @ [e]) @ es) \<and> (\<forall>x \<in> set ((pre @ [e]) @ es). stamp (((pre @ [e]) @ es) ! k) \<le> stamp x)"
      by (rule Cons.IH) (use Cons.prems True in \<open>auto simp: nth_append\<close>)
    then show ?thesis using True by simp
  next
    case False
    have "let k = oldest_idx_from (i + 1) stamp oldest best es in
        k < length ((pre @ [e]) @ es) \<and> (\<forall>x \<in> set ((pre @ [e]) @ es). stamp (((pre @ [e]) @ es) ! k) \<le> stamp x)"
      by (rule Cons.IH) (use Cons.prems False in \<open>auto simp: nth_append\<close>)
    then show ?thesis using False by simp
  qed
qed

lemma oldest_idx_min:
  assumes "es \<noteq> []"
  shows "oldest_idx stamp es < length es" "\<forall>e \<in> set es. stamp (es ! oldest_idx stamp es) \<le> stamp e"
proof -
  obtain e r where es: "es = e # r" using assms by (cases es) auto
  show "oldest_idx stamp es < length es" "\<forall>e \<in> set es. stamp (es ! oldest_idx stamp es) \<le> stamp e"
    using oldest_idx_from_min [of stamp "[e]" 0 "stamp e" 1 r] by (auto simp: oldest_idx_def es Let_def)
qed

lemma slot_for_bound: "es \<noteq> [] \<Longrightarrow> slot_for m r st es < length es"
  by (auto simp: slot_for_def first_idx_Some oldest_idx_min split: option.split)

lemma slot_for_cases:
  assumes "es \<noteq> []"
  shows "m (es ! slot_for m r st es) \<or> (\<forall>e \<in> set es. \<not> m e) \<and>
    (r (es ! slot_for m r st es) \<or> (\<forall>e \<in> set es. \<not> r e \<and> st (es ! slot_for m r st es) \<le> st e))"
  using oldest_idx_min [OF assms, of st] assms
  by (auto simp: slot_for_def first_idx_None first_idx_Some split: option.split)

section \<open>Writing through a slot\<close>

locale slot_store =
  fixes matches :: "'k \<Rightarrow> 'e \<Rightarrow> bool"
    and reusable :: "int \<Rightarrow> 'e \<Rightarrow> bool"
    and stamp :: "'e \<Rightarrow> int"
    and same :: "'k \<Rightarrow> 'k \<Rightarrow> bool"
  assumes match_same: "matches k e \<Longrightarrow> matches k' e \<longleftrightarrow> same k k'"
begin

text \<open>No two slots answer for the same key.\<close>

definition unique :: "'e list \<Rightarrow> bool" where
  "unique es \<longleftrightarrow> (\<forall>k i j. i < length es \<longrightarrow> j < length es \<longrightarrow> matches k (es ! i) \<longrightarrow> matches k (es ! j) \<longrightarrow> i = j)"

lemma unique_find:
  assumes "unique es" "i < length es" "matches k (es ! i)"
  shows "List.find (matches k) es = Some (es ! i)"
  using assms unfolding find_Some_iff unique_def by (intro exI [of _ i]) (metis less_trans nat_neq_iff)

lemma unique_clear:
  assumes "unique es" "\<And>k. \<not> matches k e'"
  shows "unique (es[i := e'])"
  unfolding unique_def
proof (intro allI impI)
  fix k a b assume ab: "a < length (es[i := e'])" "b < length (es[i := e'])"
    "matches k (es[i := e'] ! a)" "matches k (es[i := e'] ! b)"
  then have "a \<noteq> i" "b \<noteq> i" using assms(2) by (auto simp: nth_list_update)
  then show "a = b" using ab assms(1) unfolding unique_def by simp
qed

lemma unique_same_key:
  assumes "unique es" "i < length es" "\<And>k. matches k e' \<longleftrightarrow> matches k (es ! i)"
  shows "unique (es[i := e'])"
proof -
  have "matches k (es[i := e'] ! j) \<longleftrightarrow> matches k (es ! j)" if "j < length es" for k j
    using assms(3) that by (cases "j = i") auto
  then show ?thesis using assms(1) unfolding unique_def by simp
qed

lemma unique_append:
  assumes u: "unique es" and new: "\<And>x. x \<in> set es \<Longrightarrow> \<not> matches k x" and m: "matches k e"
  shows "unique (es @ [e])"
  unfolding unique_def
proof (intro allI impI)
  fix q a b
  assume ab: "a < length (es @ [e])" "b < length (es @ [e])" "matches q ((es @ [e]) ! a)" "matches q ((es @ [e]) ! b)"
  have no: "\<not> matches q (es ! j)" if "j < length es" "matches q e" for j
    using new [of "es ! j"] that match_same m by (metis nth_mem)
  show "a = b"
    using ab u no unfolding unique_def by (cases "a < length es"; cases "b < length es") (auto simp: nth_append less_Suc_eq)
qed

lemma store:
  fixes now :: int
  assumes u: "unique es" and ne: "es \<noteq> []" and m: "matches k e'"
  defines "i \<equiv> slot_for (matches k) (reusable now) stamp es"
  shows "unique (es[i := e'])" "List.find (matches k) (es[i := e']) = Some e'"
    and "\<not> same k k' \<Longrightarrow>
      List.find (matches k') (es[i := e']) = List.find (matches k') es \<or>
      List.find (matches k') (es[i := e']) = None \<and> matches k' (es ! i) \<and>
        (reusable now (es ! i) \<or> (\<forall>e \<in> set es. \<not> reusable now e \<and> stamp (es ! i) \<le> stamp e))"
proof -
  have i: "i < length es" unfolding i_def by (rule slot_for_bound [OF ne])
  note cs = slot_for_cases [OF ne, of "matches k" "reusable now" stamp, folded i_def]
  show un: "unique (es[i := e'])"
    unfolding unique_def
  proof (intro allI impI)
    fix q a b
    assume ab: "a < length (es[i := e'])" "b < length (es[i := e'])"
      "matches q (es[i := e'] ! a)" "matches q (es[i := e'] ! b)"
    have other: "a' = i" if "a' < length es" "matches k (es ! a')" for a'
    proof -
      have "es ! a' \<in> set es" using that by simp
      then have "matches k (es ! i)" using cs that by auto
      then show ?thesis using u that i unfolding unique_def by blast
    qed
    show "a = b"
    proof (cases "a = i \<or> b = i")
      case True
      then have "matches q e'" using ab by auto
      then have "same q k" "same k q" using match_same m by blast+
      then have "matches k (es[i := e'] ! a)" "matches k (es[i := e'] ! b)" using ab match_same by blast+
      then show ?thesis using ab other by (metis length_list_update nth_list_update_neq)
    next
      case False
      then show ?thesis using ab u unfolding unique_def by (simp add: nth_list_update)
    qed
  qed
  show "List.find (matches k) (es[i := e']) = Some e'"
    using unique_find [OF un, of i k] i m by simp
  assume ns: "\<not> same k k'"
  then have nm: "\<not> matches k' e'" using match_same [OF m] by simp
  show "List.find (matches k') (es[i := e']) = List.find (matches k') es \<or>
      List.find (matches k') (es[i := e']) = None \<and> matches k' (es ! i) \<and>
        (reusable now (es ! i) \<or> (\<forall>e \<in> set es. \<not> reusable now e \<and> stamp (es ! i) \<le> stamp e))"
  proof (cases "matches k' (es ! i)")
    case True
    then have "\<not> matches k (es ! i)" using ns match_same by blast
    have "\<not> matches k' (es[i := e'] ! j)" if "j < length es" for j
      using u True i that nm unfolding unique_def by (cases "j = i") auto
    then have "List.find (matches k') (es[i := e']) = None"
      by (auto simp: find_None_iff in_set_conv_nth)
    then show ?thesis using True cs \<open>\<not> matches k (es ! i)\<close> by blast
  next
    case False
    show ?thesis
    proof (cases "\<exists>j < length es. matches k' (es ! j)")
      case True
      then obtain j where j: "j < length es" "matches k' (es ! j)" by blast
      then have "j \<noteq> i" using False by auto
      then show ?thesis
        using unique_find [OF un, of j k'] unique_find [OF u, of j k'] j by simp
    next
      case no: False
      have "\<not> matches k' (es[i := e'] ! j)" if "j < length es" for j
        using no that nm by (cases "j = i") auto
      then have "List.find (matches k') (es[i := e']) = None" "List.find (matches k') es = None"
        using no by (auto simp: find_None_iff in_set_conv_nth)
      then show ?thesis by simp
    qed
  qed
qed

end

end
