(* ===== verification/Text.thy ===== *)
theory Text
  imports Prelude "HOL-Library.Char_ord"
begin

text \<open>
  C strings and line-oriented text, shared by the strategy configuration and the discovery cache:
  case-insensitive comparison, trimming, the line reader both parsers use, and the number formats
  of \<open>strtol\<close>, \<open>%lld\<close> and \<open>%llx\<close>. A C string is a \<^typ>\<open>string\<close> without NUL; a buffer whose first
  NUL ends it is cut by \<open>cstr\<close>. The second half is the contract of a table keyed by host name.
\<close>

section \<open>Characters and comparison\<close>

definition ascii_upper :: "char \<Rightarrow> bool" where
  "ascii_upper c = (65 \<le> (of_char c :: nat) \<and> (of_char c :: nat) \<le> 90)"

definition tolower_c :: "char \<Rightarrow> char" where
  "tolower_c c = (if ascii_upper c then char_of ((of_char c :: nat) + 32) else c)"

fun ieq :: "string \<Rightarrow> string \<Rightarrow> bool" where
  "ieq (a # as) (b # bs) = (if tolower_c a \<noteq> tolower_c b then False else ieq as bs)"
| "ieq as bs = (as = [] \<and> bs = [])"

lemma ieq_iff: "ieq a b \<longleftrightarrow> map tolower_c a = map tolower_c b"
  by (induction a b rule: ieq.induct) auto

lemma ieq_refl [simp]: "ieq a a"
  by (simp add: ieq_iff)

lemma ieq_sym: "ieq a b \<Longrightarrow> ieq b a"
  by (simp add: ieq_iff)

lemma ieq_trans: "ieq a b \<Longrightarrow> ieq b c \<Longrightarrow> ieq a c"
  by (simp add: ieq_iff)

lemma ieq_length: "ieq a b \<Longrightarrow> length a = length b"
  unfolding ieq_iff by (metis length_map)

lemma tolower_c_idem [simp]: "tolower_c (tolower_c c) = tolower_c c"
proof (cases "ascii_upper c")
  case True
  define n where "n = (of_char c :: nat)"
  have n: "65 \<le> n" "n \<le> 90" using True by (simp_all add: ascii_upper_def n_def)
  have "of_char (char_of (n + 32) :: char) = n + 32" using n by (simp add: of_char_of)
  then have "\<not> ascii_upper (char_of (n + 32))" using n by (simp add: ascii_upper_def)
  then show ?thesis using True by (simp add: tolower_c_def n_def)
qed (simp add: tolower_c_def)

section \<open>Buffers as strings, lines, trimming\<close>

definition cstr :: "string \<Rightarrow> string" where
  "cstr s = takeWhile (\<lambda>c. c \<noteq> CHR 0x00) s"

lemma cstr_id: "CHR 0x00 \<notin> set s \<Longrightarrow> cstr s = s"
  unfolding cstr_def by (rule takeWhile_eq_all_conv [THEN iffD2]) auto

text \<open>One round of the parsers' reading loop: at most 511 characters of the line are kept, the rest
  of the line is skipped, and so is the newline.\<close>

definition cut_line :: "string \<Rightarrow> string \<times> string" where
  "cut_line inp =
     (cstr (take 511 (takeWhile (\<lambda>c. c \<noteq> CHR 0x0A) inp)), drop 1 (dropWhile (\<lambda>c. c \<noteq> CHR 0x0A) inp))"

lemma cut_line_shorter: "inp \<noteq> [] \<Longrightarrow> length (snd (cut_line inp)) < length inp"
  using length_dropWhile_le [of "\<lambda>c. c \<noteq> CHR 0x0A" inp]
  by (cases inp) (auto simp: cut_line_def le_imp_less_Suc)

lemma cut_line_append:
  assumes "CHR 0x0A \<notin> set l" "CHR 0x00 \<notin> set l" "length l \<le> 511"
  shows "cut_line (l @ CHR 0x0A # rest) = (l, rest)"
proof -
  have "takeWhile (\<lambda>c. c \<noteq> CHR 0x0A) (l @ CHR 0x0A # rest) = l"
    "dropWhile (\<lambda>c. c \<noteq> CHR 0x0A) (l @ CHR 0x0A # rest) = CHR 0x0A # rest"
    using assms(1) by (induction l) auto
  then show ?thesis using assms by (simp add: cut_line_def cstr_id)
qed

definition trim_left :: "(char \<Rightarrow> bool) \<Rightarrow> string \<Rightarrow> string" where
  "trim_left P s = dropWhile P s"

definition trim_right :: "(char \<Rightarrow> bool) \<Rightarrow> string \<Rightarrow> string" where
  "trim_right P s = rev (dropWhile P (rev s))"

lemma trim_right_id: "s = [] \<or> \<not> P (last s) \<Longrightarrow> trim_right P s = s"
  by (cases s rule: rev_cases) (auto simp: trim_right_def)

lemma trim_left_id: "s = [] \<or> \<not> P (hd s) \<Longrightarrow> trim_left P s = s"
  by (cases s) (auto simp: trim_left_def)

section \<open>Numbers in text\<close>

definition isspace_c :: "char \<Rightarrow> bool" where
  "isspace_c c = (c \<in> set [CHR '' '', CHR 0x09, CHR 0x0A, CHR 0x0B, CHR 0x0C, CHR 0x0D])"

definition dec_digit :: "char \<Rightarrow> int option" where
  "dec_digit c = (let n = (of_char c :: int) in if 48 \<le> n \<and> n \<le> 57 then Some (n - 48) else None)"

definition hex_digit :: "char \<Rightarrow> int option" where
  "hex_digit c = (let n = (of_char c :: int) in
     if 48 \<le> n \<and> n \<le> 57 then Some (n - 48)
     else if 97 \<le> n \<and> n \<le> 102 then Some (n - 87)
     else if 65 \<le> n \<and> n \<le> 70 then Some (n - 55) else None)"

text \<open>The longest prefix of digits: its value and what follows.\<close>

fun digits :: "(char \<Rightarrow> int option) \<Rightarrow> int \<Rightarrow> int \<Rightarrow> string \<Rightarrow> int \<times> string" where
  "digits dig base acc (c # s) =
     (case dig c of None \<Rightarrow> (acc, c # s) | Some d \<Rightarrow> digits dig base (acc * base + d) s)"
| "digits dig base acc [] = (acc, [])"

definition clamp :: "int \<Rightarrow> int \<Rightarrow> int \<Rightarrow> int" where
  "clamp lo hi v = (if v < lo then lo else if v > hi then hi else v)"

text \<open>\<open>strtol(s, &end, 10)\<close> on an LP64 platform: leading white space, an optional sign, digits; no
  digits leave \<open>end == s\<close>. \<open>scanf\<close>'s \<open>%lld\<close> reads the same number.\<close>

definition sign_of :: "string \<Rightarrow> bool \<times> string" where
  "sign_of s = (case s of c # r \<Rightarrow> if c = CHR ''-'' then (True, r) else if c = CHR ''+'' then (False, r) else (False, s)
     | [] \<Rightarrow> (False, []))"

definition strtol10 :: "string \<Rightarrow> int \<times> string" where
  "strtol10 s = (case sign_of (dropWhile isspace_c s) of (neg, ds) \<Rightarrow>
     (case ds of c # _ \<Rightarrow>
        (if dec_digit c = None then (0, s)
         else case digits dec_digit 10 0 ds of (v, rest) \<Rightarrow>
           (clamp (- 9223372036854775808) 9223372036854775807 (if neg then - v else v), rest))
      | [] \<Rightarrow> (0, s)))"

text \<open>\<open>%llx\<close> of \<open>sscanf\<close>: optional sign, optional \<open>0x\<close> (which needs a digit after it), hexadecimal
  digits; the value and what follows, \<^const>\<open>None\<close> when nothing is converted. A minus sign negates
  modulo \<open>2 ^ 64\<close>; too large values are clamped.\<close>

definition drop_0x :: "string \<Rightarrow> string option" where
  "drop_0x s = (case s of a # b # r \<Rightarrow>
     if a = CHR ''0'' \<and> tolower_c b = CHR ''x'' then
       (case r of c # _ \<Rightarrow> if hex_digit c \<noteq> None then Some r else None | [] \<Rightarrow> None)
     else Some s | _ \<Rightarrow> Some s)"

definition scan_hex :: "string \<Rightarrow> (u64 \<times> string) option" where
  "scan_hex s = (case sign_of (dropWhile isspace_c s) of (neg, ds) \<Rightarrow>
     (case drop_0x ds of Some (c # r) \<Rightarrow>
        (if hex_digit c = None then None
         else case digits hex_digit 16 0 (c # r) of (v, rest) \<Rightarrow>
           Some (if v > 18446744073709551615 then - 1 else if neg then - of_int v else of_int v, rest))
      | _ \<Rightarrow> None))"

definition scan_llx :: "string \<Rightarrow> u64 option" where
  "scan_llx s = map_option fst (scan_hex s)"

text \<open>\<open>%lld\<close> and \<open>%d\<close>, the latter narrowed to 32 bits.\<close>

definition scan_dec :: "string \<Rightarrow> (int \<times> string) option" where
  "scan_dec s = (case strtol10 s of (v, rest) \<Rightarrow> if rest = s then None else Some (v, rest))"

definition scan_int :: "string \<Rightarrow> (int \<times> string) option" where
  "scan_int s = map_option (\<lambda>(v, rest). (sint (of_int v :: u32), rest)) (scan_dec s)"

definition scan_lld :: "string \<Rightarrow> int option" where
  "scan_lld s = map_option fst (scan_dec s)"

subsection \<open>Printing\<close>

definition digit_char :: "nat \<Rightarrow> char" where
  "digit_char n = char_of (if n < 10 then n + 48 else n + 87)"

text \<open>\<open>%0<k>llx\<close> of a value below \<open>16 ^ k\<close>, and \<open>%lld\<close>.\<close>

fun hex_fixed :: "nat \<Rightarrow> nat \<Rightarrow> string" where
  "hex_fixed 0 n = []"
| "hex_fixed (Suc k) n = hex_fixed k (n div 16) @ [digit_char (n mod 16)]"

fun dec_nat :: "nat \<Rightarrow> string" where
  "dec_nat n = (if n < 10 then [digit_char n] else dec_nat (n div 10) @ [digit_char (n mod 10)])"

declare dec_nat.simps [simp del]

definition print_lld :: "int \<Rightarrow> string" where
  "print_lld v = (if v < 0 then CHR ''-'' # dec_nat (nat (- v)) else dec_nat (nat v))"

lemma digit_char_values:
  "n < 16 \<Longrightarrow> hex_digit (digit_char n) = Some (int n)" "n < 10 \<Longrightarrow> dec_digit (digit_char n) = Some (int n)"
  "n < 16 \<Longrightarrow> \<not> isspace_c (digit_char n)" "n < 16 \<Longrightarrow> digit_char n \<noteq> CHR ''-'' \<and> digit_char n \<noteq> CHR ''+''"
  "n < 16 \<Longrightarrow> tolower_c (digit_char n) \<noteq> CHR ''x'' \<and> digit_char n \<noteq> CHR 0x00 \<and> digit_char n \<noteq> CHR ''#'' \<and> digit_char n \<noteq> CHR '';''"
proof -
  have all: "list_all (\<lambda>n. hex_digit (digit_char n) = Some (int n) \<and> (n < 10 \<longrightarrow> dec_digit (digit_char n) = Some (int n)) \<and>
      \<not> isspace_c (digit_char n) \<and> digit_char n \<noteq> CHR ''-'' \<and> digit_char n \<noteq> CHR ''+'' \<and>
      tolower_c (digit_char n) \<noteq> CHR ''x'' \<and> digit_char n \<noteq> CHR 0x00 \<and> digit_char n \<noteq> CHR ''#'' \<and> digit_char n \<noteq> CHR '';'') [0..<16]"
    by code_simp
  show "n < 16 \<Longrightarrow> hex_digit (digit_char n) = Some (int n)" "n < 10 \<Longrightarrow> dec_digit (digit_char n) = Some (int n)"
    "n < 16 \<Longrightarrow> \<not> isspace_c (digit_char n)" "n < 16 \<Longrightarrow> digit_char n \<noteq> CHR ''-'' \<and> digit_char n \<noteq> CHR ''+''"
    "n < 16 \<Longrightarrow> tolower_c (digit_char n) \<noteq> CHR ''x'' \<and> digit_char n \<noteq> CHR 0x00 \<and> digit_char n \<noteq> CHR ''#'' \<and> digit_char n \<noteq> CHR '';''"
    using all by (simp_all add: list_all_iff)
qed

lemma length_hex_fixed [simp]: "length (hex_fixed k n) = k"
  by (induction k arbitrary: n) auto

lemma hex_fixed_chars: "c \<in> set (hex_fixed k n) \<Longrightarrow> \<exists>d < 16. c = digit_char d"
  by (induction k arbitrary: n) (auto intro: exI [of _ "_ mod 16"])

lemma dec_nat_chars: "c \<in> set (dec_nat n) \<Longrightarrow> \<exists>d < 10. c = digit_char d"
proof (induction n rule: dec_nat.induct)
  case (1 n)
  show ?case
    using 1 by (subst (asm) (2) dec_nat.simps) (auto split: if_splits intro: exI [of _ "n mod 10"])
qed

lemma dec_nat_length: "n < 10 ^ k \<Longrightarrow> 0 < k \<Longrightarrow> length (dec_nat n) \<le> k"
proof (induction n arbitrary: k rule: dec_nat.induct)
  case (1 n)
  show ?case
  proof (cases "n < 10")
    case True
    then show ?thesis using 1(3) by (subst dec_nat.simps) simp
  next
    case False
    then obtain j where k: "k = Suc j" "0 < j"
      using 1(2,3) by (cases k; cases "k - 1") auto
    have "n div 10 < 10 ^ j" using 1(2) k by (simp add: less_mult_imp_div_less mult.commute)
    then show ?thesis using False 1(1) [OF False] k by (subst dec_nat.simps) simp
  qed
qed

lemma dec_nat_nonempty [simp]: "dec_nat n \<noteq> []"
  by (subst dec_nat.simps) simp

lemma digits_append:
  "list_all (\<lambda>c. dig c \<noteq> None) xs \<Longrightarrow> digits dig b acc (xs @ ys) = digits dig b (fst (digits dig b acc xs)) ys"
  by (induction xs arbitrary: acc) (auto split: option.splits)

lemma digits_stop: "ys = [] \<or> dig (hd ys) = None \<Longrightarrow> digits dig b acc ys = (acc, ys)"
  by (cases ys) (auto split: option.splits)

lemma digits_hex_fixed: "digits hex_digit 16 acc (hex_fixed k n) = (acc * 16 ^ k + int (n mod 16 ^ k), [])"
proof (induction k arbitrary: n acc)
  case (Suc k)
  have all: "list_all (\<lambda>c. hex_digit c \<noteq> None) (hex_fixed k (n div 16))"
    using hex_fixed_chars digit_char_values(1) by (fastforce simp: list_all_iff)
  have "n mod 16 ^ Suc k = 16 * (n div 16 mod 16 ^ k) + n mod 16"
    by (simp add: mod_mult2_eq)
  then show ?case
    by (simp add: digits_append [OF all] Suc digit_char_values algebra_simps)
qed simp

lemma digits_dec_nat:
  "ys = [] \<or> dec_digit (hd ys) = None \<Longrightarrow> digits dec_digit 10 0 (dec_nat n @ ys) = (int n, ys)"
proof -
  assume ys: "ys = [] \<or> dec_digit (hd ys) = None"
  have all: "list_all (\<lambda>c. dec_digit c \<noteq> None) (dec_nat n)" for n
    using dec_nat_chars digit_char_values(2) by (fastforce simp: list_all_iff)
  have "digits dec_digit 10 0 (dec_nat n) = (int n, [])"
  proof (induction n rule: dec_nat.induct)
    case (1 n)
    show ?case
    proof (cases "n < 10")
      case True
      then show ?thesis by (subst dec_nat.simps) (simp add: digit_char_values)
    next
      case False
      have "int (n div 10) * 10 + int (n mod 10) = int n" by (simp add: zdiv_int zmod_int)
      then show ?thesis
        using False by (subst dec_nat.simps) (simp add: digits_append [OF all] 1 digit_char_values)
    qed
  qed
  then show ?thesis using ys by (simp add: digits_append [OF all] digits_stop)
qed

lemma scan_hex_fixed:
  fixes w :: u64
  assumes ys: "ys = [] \<or> hex_digit (hd ys) = None"
  shows "scan_hex (hex_fixed 16 (unat w) @ ys) = Some (w, ys)"
proof -
  obtain c r where cr: "hex_fixed 16 (unat w) = c # r" by (cases "hex_fixed 16 (unat w)") (auto dest: arg_cong [of _ _ length])
  have chars: "\<exists>d < 16. x = digit_char d" if "x \<in> set (c # r)" for x
    using hex_fixed_chars [of x 16 "unat w"] that cr by simp
  have c: "\<not> isspace_c c" "c \<noteq> CHR ''-''" "c \<noteq> CHR ''+''" "hex_digit c \<noteq> None"
    using chars [of c] digit_char_values by auto
  obtain b r' where br: "r = b # r'" using arg_cong [OF cr, of length] by (cases r) auto
  have "tolower_c b \<noteq> CHR ''x''" using chars [of b] digit_char_values(5) br by auto
  then have "drop_0x (c # r @ ys) = Some (c # r @ ys)" by (simp add: drop_0x_def br)
  moreover have "sign_of (dropWhile isspace_c (c # r @ ys)) = (False, c # r @ ys)" using c by (simp add: sign_of_def)
  moreover have "unat w < 16 ^ 16" using unat_bound [of w] by simp
  then have "digits hex_digit 16 0 (c # r) = (int (unat w), [])"
    using digits_hex_fixed [of 0 16 "unat w"] cr by simp
  moreover have "list_all (\<lambda>x. hex_digit x \<noteq> None) (c # r)"
    using chars digit_char_values(1) by (fastforce simp: list_all_iff)
  ultimately have "digits hex_digit 16 0 ((c # r) @ ys) = (int (unat w), ys)"
    using ys by (simp only: digits_append digits_stop fst_conv)
  moreover have "unat w < 18446744073709551616" using unat_bound [of w] by simp
  then have "int (unat w) \<le> 18446744073709551615" by linarith
  ultimately show ?thesis
    using c(4) \<open>drop_0x (c # r @ ys) = Some (c # r @ ys)\<close> \<open>sign_of (dropWhile isspace_c (c # r @ ys)) = (False, c # r @ ys)\<close>
    unfolding scan_hex_def cr by simp
qed

lemma scan_hex_blank: "scan_hex (CHR '' '' # s) = scan_hex s"
  by (simp add: scan_hex_def isspace_c_def)

lemma scan_llx_hex_fixed: "scan_llx (hex_fixed 16 (unat (w :: u64))) = Some w"
  using scan_hex_fixed [of "[]" w] by (simp add: scan_llx_def)

lemma scan_dec_print:
  assumes "- 9223372036854775808 \<le> v" "v \<le> 9223372036854775807" and ys: "ys = [] \<or> dec_digit (hd ys) = None"
    and pre: "list_all isspace_c pre"
  shows "scan_dec (pre @ print_lld v @ ys) = Some (v, ys)"
proof -
  have sk: "dropWhile isspace_c (pre @ s) = dropWhile isspace_c s" for s
    using pre by (intro dropWhile_append2) (simp add: list_all_iff)
  define n where "n = nat (if v < 0 then - v else v)"
  obtain c r where cr: "dec_nat n = c # r" by (cases "dec_nat n") auto
  obtain d where d: "d < 10" "c = digit_char d" using dec_nat_chars [of c n] cr by auto
  have c: "\<not> isspace_c c" "c \<noteq> CHR ''-''" "c \<noteq> CHR ''+''" "dec_digit c \<noteq> None"
    using d digit_char_values [of d] by auto
  have "sign_of (dropWhile isspace_c (print_lld v @ ys)) = (v < 0, c # r @ ys)"
    using c cr by (auto simp: sign_of_def print_lld_def n_def isspace_c_def)
  moreover have "digits dec_digit 10 0 (c # r @ ys) = (int n, ys)" using digits_dec_nat [OF ys, of n] cr by simp
  ultimately have "strtol10 (pre @ print_lld v @ ys) = (v, ys)"
    using c(4) assms by (auto simp: strtol10_def clamp_def n_def sk)
  moreover have "ys \<noteq> pre @ print_lld v @ ys"
    by (rule notI, drule arg_cong [of _ _ length]) (simp add: print_lld_def split: if_splits)
  ultimately show ?thesis by (simp add: scan_dec_def)
qed

lemma scan_lld_print:
  assumes "- 9223372036854775808 \<le> v" "v \<le> 9223372036854775807"
  shows "scan_lld (print_lld v) = Some v"
  using scan_dec_print [OF assms, of "[]" "[]"] by (simp add: scan_lld_def)

section \<open>Tables keyed by host name\<close>

text \<open>The contract of \<open>set_domain_rule\<close> and \<open>discovery_cache_set\<close>: \<open>put\<close> may refuse (the table is
  full or the name too long), and otherwise changes what is found under this name, in any letter
  case, and under no other.\<close>

locale host_table =
  fixes tput :: "string \<Rightarrow> 'v \<Rightarrow> 's \<Rightarrow> 's option"
    and tget :: "'s \<Rightarrow> string \<Rightarrow> 'v option"
  assumes get_put: "tput k v s = Some s' \<Longrightarrow> tget s' k' = (if ieq k k' then Some v else tget s k')"
    and put_known: "tget s k \<noteq> None \<Longrightarrow> tput k v s \<noteq> None"
begin

text \<open>A sequence of writes, refused ones skipped, as the parsers perform them.\<close>

definition puts :: "(string \<times> 'v) list \<Rightarrow> 's \<Rightarrow> 's" where
  "puts kvs s = fold (\<lambda>(k, v) s. case tput k v s of None \<Rightarrow> s | Some s' \<Rightarrow> s') kvs s"

lemma put_again:
  assumes "tput k v s = Some s'"
  shows "\<exists>s''. tput k w s' = Some s'' \<and> tget s'' k = Some w"
proof -
  have "tget s' k \<noteq> None" using get_put [OF assms, of k] by simp
  then obtain s'' where "tput k w s' = Some s''" using put_known by blast
  then show ?thesis using get_put by fastforce
qed

lemma puts_unrelated: "list_all (\<lambda>kv. \<not> ieq (fst kv) k) kvs \<Longrightarrow> tget (puts kvs s) k = tget s k"
proof (induction kvs arbitrary: s)
  case (Cons kv kvs)
  then show ?case by (cases kv) (auto simp: puts_def get_put split: option.splits)
qed (simp add: puts_def)

lemma last_write_wins:
  assumes "list_all (\<lambda>kv. \<not> ieq (fst kv) k) post"
    and "tput k' v (puts pre s) \<noteq> None" "ieq k' k"
  shows "tget (puts (pre @ [(k', v)] @ post) s) k = Some v"
proof -
  obtain s' where s': "tput k' v (puts pre s) = Some s'" using assms(2) by auto
  have "puts (pre @ [(k', v)] @ post) s = puts post s'"
    using s' by (simp add: puts_def)
  then show ?thesis
    using puts_unrelated [OF assms(1), of s'] get_put [OF s', of k] assms(3) by simp
qed

end

end
