(* ===== verification/Strategy.thy ===== *)
theory Strategy
  imports Text
begin

text \<open>
  \<open>src/strategy/strategy.c\<close>: strategies, the whitelist of strategy chains, the configuration file
  and the rule that answers for a host name. Warnings printed to \<open>stderr\<close> are not modelled; the
  number of skipped lines is.
\<close>

section \<open>Strategies and chains\<close>

datatype t_strategy = STRATEGY_PASS | STRATEGY_SPLIT | STRATEGY_DISORDER | STRATEGY_FAKE
  | STRATEGY_FRAGMENT | STRATEGY_TLSREC | STRATEGY_TLSREC_SPLIT

definition STRATEGY_MAX_DOMAINS :: nat where "STRATEGY_MAX_DOMAINS = 256"
definition STRATEGY_DOMAIN_MAX :: nat where "STRATEGY_DOMAIN_MAX = 256"
definition STRATEGY_CHAIN_MAX :: nat where "STRATEGY_CHAIN_MAX = 2"
definition STRATEGY_DEFAULT_FAKE_TTL :: byte where "STRATEGY_DEFAULT_FAKE_TTL = 8"

text \<open>The first \<open>action_count\<close> actions of a \<open>t_strategy_chain\<close>.\<close>

type_synonym strategy_chain = "t_strategy list"

record strategy_rule =
  rule_domain :: string
  rule_chain :: strategy_chain

record strategy_config =
  default_strategy :: t_strategy
  rules :: "strategy_rule list"
  fake_ttl :: byte

definition strategy_config_init :: strategy_config where
  "strategy_config_init = \<lparr>default_strategy = STRATEGY_PASS, rules = [], fake_ttl = STRATEGY_DEFAULT_FAKE_TTL\<rparr>"

definition strategy_name :: "t_strategy \<Rightarrow> string" where
  "strategy_name s =
     (if s = STRATEGY_PASS then ''pass''
      else if s = STRATEGY_SPLIT then ''split''
      else if s = STRATEGY_DISORDER then ''disorder''
      else if s = STRATEGY_FAKE then ''fake''
      else if s = STRATEGY_FRAGMENT then ''fragment''
      else if s = STRATEGY_TLSREC then ''tlsrec''
      else if s = STRATEGY_TLSREC_SPLIT then ''tlsrec-split''
      else ''pass'')"

definition suffix_match :: "string \<Rightarrow> string \<Rightarrow> bool" where
  "suffix_match domain suffix =
     (let dlen = length domain; slen = length suffix in
      if slen = 0 \<or> hd suffix \<noteq> CHR ''.'' \<or> slen > dlen + 1 then False
      else if slen = dlen + 1 then ieq domain (tl suffix)
      else ieq (drop (dlen - slen) domain) suffix)"

definition strategy_from_name :: "string \<Rightarrow> t_strategy option" where
  "strategy_from_name name =
     (if ieq name ''pass'' then Some STRATEGY_PASS
      else if ieq name ''split'' then Some STRATEGY_SPLIT
      else if ieq name ''disorder'' then Some STRATEGY_DISORDER
      else if ieq name ''fake'' then Some STRATEGY_FAKE
      else if ieq name ''fragment'' then Some STRATEGY_FRAGMENT
      else if ieq name ''tlsrec'' then Some STRATEGY_TLSREC
      else if ieq name ''tlsrec-split'' then Some STRATEGY_TLSREC_SPLIT
      else None)"

definition chain_matches :: "strategy_chain \<Rightarrow> t_strategy list \<Rightarrow> bool" where
  "chain_matches chain pattern =
     (if length chain \<noteq> length pattern then False
      else list_all (\<lambda>i. chain ! i = pattern ! i) [0..<length pattern])"

definition strategy_chain_is_safe :: "strategy_chain \<Rightarrow> bool" where
  "strategy_chain_is_safe chain =
     (if length chain = 1 then True
      else if length chain = 2 then
        if chain_matches chain [STRATEGY_FAKE, STRATEGY_SPLIT] then True
        else if chain_matches chain [STRATEGY_SPLIT, STRATEGY_FAKE] then True
        else False
      else False)"

text \<open>The token loop: \<open>token\<close> holds at most 63 characters.\<close>

function chain_tokens :: "string \<Rightarrow> strategy_chain \<Rightarrow> strategy_chain option" where
  "chain_tokens s chain =
     (let token = take 63 (takeWhile (\<lambda>c. c \<noteq> CHR ''+'') s); rest = drop (length token) s in
      if rest \<noteq> [] \<and> hd rest \<noteq> CHR ''+'' then None
      else if token = [] then None
      else case strategy_from_name token of
        None \<Rightarrow> None
      | Some parsed \<Rightarrow>
          if length chain \<ge> STRATEGY_CHAIN_MAX then None
          else if rest = [] then Some (chain @ [parsed])
          else chain_tokens (tl rest) (chain @ [parsed]))"
  by pat_completeness auto
termination
  by (relation "measure (\<lambda>(s, chain). length s)") (auto simp: Let_def)

declare chain_tokens.simps [simp del]

definition strategy_chain_from_string :: "string \<Rightarrow> strategy_chain option" where
  "strategy_chain_from_string s =
     (case chain_tokens s [] of
        None \<Rightarrow> None
      | Some chain \<Rightarrow>
          let chain = (if length chain = 2 \<and> chain ! 0 = STRATEGY_SPLIT \<and> chain ! 1 = STRATEGY_DISORDER
                       then [STRATEGY_DISORDER] else chain) in
          if \<not> strategy_chain_is_safe chain then None else Some chain)"

text \<open>\<open>buf\<close> is what has been written so far; a character is dropped once only the terminator
  fits.\<close>

definition put_char :: "nat \<Rightarrow> char \<Rightarrow> string \<Rightarrow> string" where
  "put_char buf_size c buf = (if length buf + 1 < buf_size then buf @ [c] else buf)"

fun describe_loop :: "nat \<Rightarrow> nat \<Rightarrow> strategy_chain \<Rightarrow> string \<Rightarrow> string" where
  "describe_loop buf_size i (a # as) buf =
     (let buf = (if i > 0 then put_char buf_size (CHR ''+'') buf else buf) in
      describe_loop buf_size (i + 1) as (fold (put_char buf_size) (strategy_name a) buf))"
| "describe_loop buf_size i [] buf = buf"

definition strategy_chain_describe :: "strategy_chain \<Rightarrow> nat \<Rightarrow> string" where
  "strategy_chain_describe chain buf_size = (if buf_size = 0 then [] else describe_loop buf_size 0 chain [])"

section \<open>The rule for a host name\<close>

definition strategy_has_explicit_rule :: "strategy_config \<Rightarrow> string \<Rightarrow> strategy_chain option" where
  "strategy_has_explicit_rule cfg domain =
     (case List.find (\<lambda>r. \<not> (rule_domain r \<noteq> [] \<and> hd (rule_domain r) = CHR ''.'') \<and> ieq (rule_domain r) domain) (rules cfg) of
        Some r \<Rightarrow> Some (rule_chain r)
      | None \<Rightarrow>
          (case List.find (\<lambda>r. rule_domain r \<noteq> [] \<and> hd (rule_domain r) = CHR ''.'' \<and> suffix_match domain (rule_domain r)) (rules cfg) of
             Some r \<Rightarrow> Some (rule_chain r)
           | None \<Rightarrow> None))"

definition strategy_chain_for_domain :: "strategy_config \<Rightarrow> string \<Rightarrow> strategy_chain" where
  "strategy_chain_for_domain cfg domain =
     (case strategy_has_explicit_rule cfg domain of Some chain \<Rightarrow> chain | None \<Rightarrow> [default_strategy cfg])"

definition strategy_for_domain :: "strategy_config \<Rightarrow> string \<Rightarrow> t_strategy" where
  "strategy_for_domain cfg domain = strategy_chain_for_domain cfg domain ! 0"

section \<open>The configuration file\<close>

definition strategy_trim :: "string \<Rightarrow> string" where
  "strategy_trim s =
     trim_right (\<lambda>c. c = CHR '' '' \<or> c = CHR 0x09 \<or> c = CHR 0x0D)
       (trim_left (\<lambda>c. c = CHR '' '' \<or> c = CHR 0x09) s)"

definition parse_kv :: "string \<Rightarrow> (string \<times> string) option" where
  "parse_kv line =
     (if CHR ''='' \<notin> set line then None
      else let key = strategy_trim (takeWhile (\<lambda>c. c \<noteq> CHR ''='') line);
               val = strategy_trim (tl (dropWhile (\<lambda>c. c \<noteq> CHR ''='') line)) in
           if key = [] \<or> val = [] then None else Some (key, val))"

text \<open>The update of the first rule of the same name, or \<^const>\<open>None\<close> when there is none.\<close>

fun update_rule :: "string \<Rightarrow> strategy_chain \<Rightarrow> strategy_rule list \<Rightarrow> strategy_rule list option" where
  "update_rule domain chain (r # rs) =
     (if ieq (rule_domain r) domain then Some (r\<lparr>rule_chain := chain\<rparr> # rs)
      else map_option ((#) r) (update_rule domain chain rs))"
| "update_rule domain chain [] = None"

definition set_domain_rule :: "string \<Rightarrow> strategy_chain \<Rightarrow> strategy_config \<Rightarrow> strategy_config option" where
  "set_domain_rule domain chain cfg =
     (case update_rule domain chain (rules cfg) of
        Some rs \<Rightarrow> Some (cfg\<lparr>rules := rs\<rparr>)
      | None \<Rightarrow>
          if length (rules cfg) \<ge> STRATEGY_MAX_DOMAINS \<or> length domain \<ge> STRATEGY_DOMAIN_MAX then None
          else Some (cfg\<lparr>rules := rules cfg @ [\<lparr>rule_domain = domain, rule_chain = chain\<rparr>]\<rparr>))"

text \<open>\<open>Inl ()\<close> is the result \<open>-1\<close>; the right injection carries \<open>0\<close> or \<open>1\<close> and the
  configuration.\<close>

definition try_parse_fake_ttl :: "strategy_config \<Rightarrow> string \<Rightarrow> string \<Rightarrow> unit + bool \<times> strategy_config" where
  "try_parse_fake_ttl cfg key val =
     (if \<not> ieq key ''fake_ttl'' then Inr (False, cfg)
      else case strtol10 val of (ttl, rest) \<Rightarrow>
        if rest \<noteq> [] \<or> ttl < 1 \<or> ttl > 255 then Inl ()
        else Inr (True, cfg\<lparr>fake_ttl := of_int ttl\<rparr>))"

record parse_state =
  ps_cfg :: strategy_config
  ps_in_domains :: bool
  ps_skipped :: nat

definition skip_line :: "parse_state \<Rightarrow> parse_state" where
  "skip_line s = s\<lparr>ps_skipped := ps_skipped s + 1\<rparr>"

definition parse_line :: "string \<Rightarrow> parse_state \<Rightarrow> parse_state" where
  "parse_line raw s =
     (let line = strategy_trim raw in
      if line = [] \<or> hd line = CHR ''#'' \<or> hd line = CHR '';'' then s
      else if hd line = CHR ''['' then
        let s = s\<lparr>ps_in_domains := ieq line ''[domains]''\<rparr> in
        if \<not> ps_in_domains s then skip_line s else s
      else case parse_kv line of
        None \<Rightarrow> skip_line s
      | Some (key, val) \<Rightarrow>
          (case (if ps_in_domains s then Inr (False, ps_cfg s) else try_parse_fake_ttl (ps_cfg s) key val) of
             Inl _ \<Rightarrow> skip_line s
           | Inr (ttl_set, cfg) \<Rightarrow>
               if ttl_set then s\<lparr>ps_cfg := cfg\<rparr>
               else if \<not> ps_in_domains s \<and> ieq key ''default'' then
                 (case strategy_from_name val of
                    Some parsed \<Rightarrow> s\<lparr>ps_cfg := (ps_cfg s)\<lparr>default_strategy := parsed\<rparr>\<rparr>
                  | None \<Rightarrow> skip_line s)
               else if ps_in_domains s then
                 (case strategy_chain_from_string val of
                    None \<Rightarrow> skip_line s
                  | Some chain \<Rightarrow>
                      (case set_domain_rule key chain (ps_cfg s) of
                         None \<Rightarrow> skip_line s
                       | Some cfg' \<Rightarrow> s\<lparr>ps_cfg := cfg'\<rparr>))
               else skip_line s))"

function parse_lines :: "string \<Rightarrow> parse_state \<Rightarrow> parse_state" where
  "parse_lines inp s = (if inp = [] then s
     else parse_lines (snd (cut_line inp)) (parse_line (fst (cut_line inp)) s))"
  by pat_completeness auto
termination
  by (relation "measure (\<lambda>(inp, s). length inp)") (auto simp: cut_line_shorter)

declare parse_lines.simps [simp del]

definition strategy_config_parse :: "strategy_config \<Rightarrow> string \<Rightarrow> strategy_config \<times> nat" where
  "strategy_config_parse cfg inp =
     (let s = parse_lines inp \<lparr>ps_cfg = cfg, ps_in_domains = False, ps_skipped = 0\<rparr> in (ps_cfg s, ps_skipped s))"

section \<open>Names and chains\<close>

definition all_strategies :: "t_strategy list" where
  "all_strategies = [STRATEGY_PASS, STRATEGY_SPLIT, STRATEGY_DISORDER, STRATEGY_FAKE, STRATEGY_FRAGMENT,
     STRATEGY_TLSREC, STRATEGY_TLSREC_SPLIT]"

lemma each_strategy: "list_all P all_strategies \<Longrightarrow> P s"
  by (cases s) (simp_all add: all_strategies_def)

lemma strategy_from_name_name [simp]: "strategy_from_name (strategy_name s) = Some s"
  by (rule each_strategy [of "\<lambda>s. strategy_from_name (strategy_name s) = Some s"]) code_simp

lemma strategy_from_name_ieq: "ieq a b \<Longrightarrow> strategy_from_name a = strategy_from_name b"
  by (simp add: strategy_from_name_def ieq_iff)

lemma strategy_name_facts:
  "strategy_name s \<noteq> []" "CHR ''+'' \<notin> set (strategy_name s)" "length (strategy_name s) \<le> 12"
  "list_all (\<lambda>c. \<not> isspace_c c \<and> c \<noteq> CHR 0x00) (strategy_name s)"
proof -
  have "strategy_name s \<noteq> [] \<and> CHR ''+'' \<notin> set (strategy_name s) \<and> length (strategy_name s) \<le> 12 \<and>
      list_all (\<lambda>c. \<not> isspace_c c \<and> c \<noteq> CHR 0x00) (strategy_name s)"
    by (rule each_strategy [of "\<lambda>s. strategy_name s \<noteq> [] \<and> CHR ''+'' \<notin> set (strategy_name s) \<and>
        length (strategy_name s) \<le> 12 \<and> list_all (\<lambda>c. \<not> isspace_c c \<and> c \<noteq> CHR 0x00) (strategy_name s)"]) code_simp
  then show "strategy_name s \<noteq> []" "CHR ''+'' \<notin> set (strategy_name s)" "length (strategy_name s) \<le> 12"
    "list_all (\<lambda>c. \<not> isspace_c c \<and> c \<noteq> CHR 0x00) (strategy_name s)" by blast+
qed

lemma strategy_chain_is_safe_iff:
  "strategy_chain_is_safe c \<longleftrightarrow>
     (\<exists>a. c = [a]) \<or> c = [STRATEGY_FAKE, STRATEGY_SPLIT] \<or> c = [STRATEGY_SPLIT, STRATEGY_FAKE]"
proof -
  consider "length c = 0" | a where "c = [a]" | a b where "c = [a, b]" | "2 < length c"
    by (cases c; cases "tl c"; cases "tl (tl c)") auto
  then show ?thesis
    by cases (auto simp: strategy_chain_is_safe_def chain_matches_def)
qed

lemma fold_put_char:
  "fold (put_char n) cs buf = buf @ take (n - 1 - length buf) cs"
proof (induction cs arbitrary: buf)
  case (Cons c cs)
  then show ?case
    by (cases "length buf + 1 < n") (auto simp: put_char_def take_Cons' simp flip: diff_Suc_eq_diff_pred)
qed simp

text \<open>The full text of a chain.\<close>

fun join_plus :: "strategy_chain \<Rightarrow> string" where
  "join_plus [] = []"
| "join_plus [a] = strategy_name a"
| "join_plus (a # as) = strategy_name a @ CHR ''+'' # join_plus as"

fun join_rest :: "nat \<Rightarrow> strategy_chain \<Rightarrow> string" where
  "join_rest i [] = []"
| "join_rest i (a # as) = (if i > 0 then [CHR ''+''] else []) @ strategy_name a @ join_rest (i + 1) as"

lemma join_rest_pos: "0 < i \<Longrightarrow> 0 < j \<Longrightarrow> join_rest i c = join_rest j c"
proof (induction c arbitrary: i j)
  case (Cons a c)
  have "join_rest (i + 1) c = join_rest (j + 1) c" by (rule Cons.IH) simp_all
  then show ?case using Cons.prems by simp
qed simp

lemma join_rest_0: "join_rest 0 c = join_plus c"
proof (induction c rule: join_plus.induct)
  case (3 a b c)
  then show ?case using join_rest_pos [of "Suc (Suc 0)" "Suc 0" c] by simp
qed simp_all

lemma describe_loop_eq: "describe_loop n i c buf = buf @ take (n - 1 - length buf) (join_rest i c)"
proof (induction c arbitrary: i buf)
  case (Cons a c)
  define m pre where "m = n - 1 - length buf" and "pre = (if i > 0 then [CHR ''+''] else []) @ strategy_name a"
  have "describe_loop n i (a # c) buf = describe_loop n (i + 1) c (fold (put_char n) pre buf)"
    by (simp add: pre_def Let_def)
  also have "fold (put_char n) pre buf = buf @ take m pre" by (simp add: fold_put_char m_def)
  also have "describe_loop n (i + 1) c (buf @ take m pre) =
      (buf @ take m pre) @ take (n - 1 - length (buf @ take m pre)) (join_rest (i + 1) c)" by (rule Cons)
  also have "n - 1 - length (buf @ take m pre) = m - length pre" by (simp add: m_def)
  also have "(buf @ take m pre) @ take (m - length pre) (join_rest (i + 1) c) = buf @ take m (pre @ join_rest (i + 1) c)"
    by simp
  also have "pre @ join_rest (i + 1) c = join_rest i (a # c)" by (simp add: pre_def)
  finally show ?case by (simp add: m_def)
qed simp

lemma strategy_chain_describe_eq: "strategy_chain_describe c n = take (n - 1) (join_plus c)"
  by (simp add: strategy_chain_describe_def describe_loop_eq join_rest_0)

lemma takeWhile_not_plus: "CHR ''+'' \<notin> set t \<Longrightarrow> takeWhile (\<lambda>c. c \<noteq> CHR ''+'') (t @ CHR ''+'' # r) = t"
  by (induction t) auto

lemma takeWhile_no_plus: "CHR ''+'' \<notin> set t \<Longrightarrow> takeWhile (\<lambda>c. c \<noteq> CHR ''+'') t = t"
  by (induction t) auto

lemma chain_tokens_name:
  "length acc < 2 \<Longrightarrow> chain_tokens (strategy_name a) acc = Some (acc @ [a])"
  "length acc < 2 \<Longrightarrow> chain_tokens (strategy_name a @ CHR ''+'' # r) acc = chain_tokens r (acc @ [a])"
  using strategy_name_facts [of a]
  unfolding chain_tokens.simps [of "strategy_name a" acc] chain_tokens.simps [of "strategy_name a @ CHR ''+'' # r" acc]
  by (simp_all add: takeWhile_not_plus takeWhile_no_plus STRATEGY_CHAIN_MAX_def)

lemma chain_tokens_join: "c \<noteq> [] \<Longrightarrow> length acc + length c \<le> 2 \<Longrightarrow> chain_tokens (join_plus c) acc = Some (acc @ c)"
proof (induction c arbitrary: acc rule: join_plus.induct)
  case (2 a)
  then show ?case by (simp add: chain_tokens_name)
next
  case (3 a b c)
  then show ?case by (simp add: chain_tokens_name)
qed simp

lemma chain_from_join:
  "strategy_chain_is_safe c \<Longrightarrow> strategy_chain_from_string (join_plus c) = Some c"
  using chain_tokens_join [of c "[]"]
  by (auto simp: strategy_chain_from_string_def strategy_chain_is_safe_iff Let_def)

lemma join_plus_short: "strategy_chain_is_safe c \<Longrightarrow> length (join_plus c) \<le> 12"
  using strategy_name_facts(3) by (auto simp: strategy_chain_is_safe_iff) (simp_all add: strategy_name_def)

lemma strategy_chain_from_string_safe:
  "strategy_chain_from_string s = Some c \<Longrightarrow> strategy_chain_is_safe c"
  by (auto simp: strategy_chain_from_string_def Let_def split: option.splits if_splits)

section \<open>Rules\<close>

lemma suffix_match_iff:
  "suffix_match d s \<longleftrightarrow> s \<noteq> [] \<and> hd s = CHR ''.'' \<and> (ieq d (tl s) \<or> (\<exists>p q. d = p @ q \<and> ieq q s))"
proof (cases "s \<noteq> [] \<and> hd s = CHR ''.''")
  case True
  then obtain s' where s: "s = CHR ''.'' # s'" by (cases s) auto
  have a: "ieq d s' \<Longrightarrow> length d = length s'" by (rule ieq_length)
  have b: "(\<exists>p q. d = p @ q \<and> ieq q s) \<longleftrightarrow> length s \<le> length d \<and> ieq (drop (length d - length s) d) s"
  proof
    assume "\<exists>p q. d = p @ q \<and> ieq q s"
    then obtain p q where "d = p @ q" "ieq q s" by blast
    moreover have "length q = length s" using ieq_length [OF \<open>ieq q s\<close>] .
    ultimately show "length s \<le> length d \<and> ieq (drop (length d - length s) d) s" by simp
  next
    assume "length s \<le> length d \<and> ieq (drop (length d - length s) d) s"
    then show "\<exists>p q. d = p @ q \<and> ieq q s"
      by (intro exI [of _ "take (length d - length s) d"] exI [of _ "drop (length d - length s) d"]) simp
  qed
  show ?thesis
    using a unfolding suffix_match_def Let_def b by (auto simp: s)
qed (auto simp: suffix_match_def Let_def)

text \<open>The exact rule stored under a name.\<close>

definition rule_at :: "strategy_config \<Rightarrow> string \<Rightarrow> strategy_chain option" where
  "rule_at cfg d = map_option rule_chain (List.find (\<lambda>r. ieq (rule_domain r) d) (rules cfg))"

lemma update_rule_None: "update_rule d c rs = None \<longleftrightarrow> List.find (\<lambda>r. ieq (rule_domain r) d) rs = None"
  by (induction rs) auto

lemma update_rule_find:
  "update_rule d c rs = Some rs' \<Longrightarrow>
   map_option rule_chain (List.find (\<lambda>r. ieq (rule_domain r) k) rs') =
     (if ieq d k then Some c else map_option rule_chain (List.find (\<lambda>r. ieq (rule_domain r) k) rs))"
  by (induction rs arbitrary: rs') (auto simp: ieq_iff split: if_splits)

lemma update_rule_domains: "update_rule d c rs = Some rs' \<Longrightarrow> map rule_domain rs' = map rule_domain rs"
  by (induction rs arbitrary: rs') (auto split: if_splits)

lemma update_rule_chains: "update_rule d c rs = Some rs' \<Longrightarrow> set (map rule_chain rs') \<subseteq> insert c (set (map rule_chain rs))"
proof (induction rs arbitrary: rs')
  case (Cons r rs)
  show ?case
  proof (cases "ieq (rule_domain r) d")
    case False
    then obtain rs'' where "update_rule d c rs = Some rs''" "rs' = r # rs''" using Cons.prems by auto
    then show ?thesis using Cons.IH by auto
  qed (use Cons.prems in auto)
qed simp

lemma ieq_same: "ieq k k' \<Longrightarrow> ieq d k \<longleftrightarrow> ieq d k'"
  by (simp add: ieq_iff)

interpretation rule_table: host_table set_domain_rule rule_at
proof unfold_locales
  fix k v cfg cfg' k' assume "set_domain_rule k v cfg = Some cfg'"
  then show "rule_at cfg' k' = (if ieq k k' then Some v else rule_at cfg k')"
    using ieq_same [of k k'] update_rule_find [of k v "rules cfg" _ k']
    by (auto simp: set_domain_rule_def rule_at_def find_append_case update_rule_None
        split: option.splits if_splits)
next
  fix cfg k v assume "rule_at cfg k \<noteq> None"
  then show "set_domain_rule k v cfg \<noteq> None"
    by (auto simp: set_domain_rule_def rule_at_def update_rule_None split: option.splits)
qed

section \<open>The invariant of a configuration\<close>

definition cfg_inv :: "strategy_config \<Rightarrow> bool" where
  "cfg_inv cfg \<longleftrightarrow> length (rules cfg) \<le> STRATEGY_MAX_DOMAINS \<and>
     list_all (\<lambda>r. length (rule_domain r) < STRATEGY_DOMAIN_MAX \<and> strategy_chain_is_safe (rule_chain r)) (rules cfg) \<and>
     distinct (map (\<lambda>r. map tolower_c (rule_domain r)) (rules cfg)) \<and> fake_ttl cfg \<noteq> 0"

lemma cfg_inv_init: "cfg_inv strategy_config_init"
  by (simp add: cfg_inv_def strategy_config_init_def STRATEGY_DEFAULT_FAKE_TTL_def)

lemma set_domain_rule_inv:
  assumes "cfg_inv cfg" "strategy_chain_is_safe chain" "set_domain_rule d chain cfg = Some cfg'"
  shows "cfg_inv cfg'"
proof (cases "update_rule d chain (rules cfg)")
  case None
  then have "List.find (\<lambda>r. ieq (rule_domain r) d) (rules cfg) = None" by (simp add: update_rule_None)
  then have "map tolower_c d \<notin> set (map (\<lambda>r. map tolower_c (rule_domain r)) (rules cfg))"
    by (auto simp: find_None_iff ieq_iff)
  then show ?thesis
    using None assms by (auto simp: set_domain_rule_def cfg_inv_def split: if_splits)
next
  case (Some rs)
  then have cfg': "cfg' = cfg\<lparr>rules := rs\<rparr>" using assms(3) by (simp add: set_domain_rule_def)
  have dom: "map rule_domain rs = map rule_domain (rules cfg)" by (rule update_rule_domains [OF Some])
  then have len: "length rs = length (rules cfg)" by (rule map_eq_imp_length_eq)
  have "map (\<lambda>r. map tolower_c (rule_domain r)) rs = map (\<lambda>r. map tolower_c (rule_domain r)) (rules cfg)"
    using arg_cong [OF dom, of "map (map tolower_c)"] by (simp add: comp_def)
  moreover have "length (rule_domain r) < STRATEGY_DOMAIN_MAX" if "r \<in> set rs" for r
  proof -
    have "rule_domain r \<in> set (map rule_domain (rules cfg))" using that unfolding dom [symmetric] by simp
    then show ?thesis using assms(1) by (auto simp: cfg_inv_def list_all_iff)
  qed
  moreover have "strategy_chain_is_safe (rule_chain r)" if "r \<in> set rs" for r
    using update_rule_chains [OF Some] assms(1,2) that by (fastforce simp: cfg_inv_def list_all_iff)
  ultimately show ?thesis
    using assms(1) len by (simp add: cfg_inv_def cfg' list_all_iff)
qed

lemma of_int_byte_nonzero: "1 \<le> v \<Longrightarrow> v \<le> 255 \<Longrightarrow> (of_int v :: byte) \<noteq> 0"
  by (auto simp: word_of_int_eq_0_iff dest: zdvd_imp_le)

lemma try_parse_fake_ttl_inv:
  "try_parse_fake_ttl cfg key val = Inr (b, cfg') \<Longrightarrow> cfg_inv cfg \<Longrightarrow> cfg_inv cfg'"
  using of_int_byte_nonzero
  by (auto simp: try_parse_fake_ttl_def cfg_inv_def split: prod.splits if_splits)

lemma parse_line_inv: "cfg_inv (ps_cfg s) \<Longrightarrow> cfg_inv (ps_cfg (parse_line raw s))"
  unfolding parse_line_def Let_def
  by (auto simp: skip_line_def split: option.splits sum.splits prod.splits if_splits
      dest: try_parse_fake_ttl_inv set_domain_rule_inv strategy_chain_from_string_safe) (auto simp: cfg_inv_def)

lemma parse_lines_inv: "cfg_inv (ps_cfg s) \<Longrightarrow> cfg_inv (ps_cfg (parse_lines inp s))"
proof (induction inp s rule: parse_lines.induct)
  case (1 inp s)
  show ?case by (subst parse_lines.simps) (use 1 parse_line_inv in auto)
qed

section \<open>Properties\<close>

text \<open>Claim C39: whatever the text, parsing keeps the invariant of the configuration: at most 256
  rules, each name shorter than its buffer, no two rules for the same name in any letter case, every
  chain on the whitelist, and a decoy TTL that is never 0.\<close>

theorem strategy_config_parse_inv:
  assumes "cfg_inv cfg"
  shows "cfg_inv (fst (strategy_config_parse cfg inp))"
  using assms by (simp add: strategy_config_parse_def Let_def parse_lines_inv)

theorem strategy_config_parse_inv_witness:
  "cfg_inv (fst (strategy_config_parse strategy_config_init ''fake_ttl = 0''))"
  by (rule strategy_config_parse_inv [OF cfg_inv_init])

text \<open>A chain is accepted exactly when it is a single action, fake+split or split+fake
  after the normalisation of split+disorder; and what \<open>strategy_chain_describe\<close> prints for an
  accepted chain, in a buffer of 13 bytes or more, is read back as the same chain.\<close>

theorem chain_describe_roundtrip:
  assumes "strategy_chain_is_safe c" "13 \<le> buf_size"
  shows "strategy_chain_from_string (strategy_chain_describe c buf_size) = Some c \<and>
    ((\<exists>a. c = [a]) \<or> c = [STRATEGY_FAKE, STRATEGY_SPLIT] \<or> c = [STRATEGY_SPLIT, STRATEGY_FAKE])"
proof -
  have "strategy_chain_describe c buf_size = join_plus c"
    using join_plus_short [OF assms(1)] assms(2) by (simp add: strategy_chain_describe_eq)
  then show ?thesis
    using chain_from_join [OF assms(1)] assms(1) by (simp add: strategy_chain_is_safe_iff)
qed

theorem chain_describe_roundtrip_witness:
  "strategy_chain_from_string (strategy_chain_describe [STRATEGY_SPLIT, STRATEGY_FAKE] 64) = Some [STRATEGY_SPLIT, STRATEGY_FAKE]"
  using chain_describe_roundtrip [of "[STRATEGY_SPLIT, STRATEGY_FAKE]" 64] by (simp add: strategy_chain_is_safe_iff)

text \<open>Rules are last-write-wins: after a sequence of rule lines (refused ones skipped)
  the exact rule found for a name, in any letter case, is the last accepted one, and lines for
  other names do not affect it.\<close>

theorem rules_last_write_wins:
  assumes "list_all (\<lambda>kv. \<not> ieq (fst kv) d) post"
    and "set_domain_rule d' chain (rule_table.puts pre cfg) \<noteq> None" "ieq d' d"
  shows "rule_at (rule_table.puts (pre @ [(d', chain)] @ post) cfg) d = Some chain"
  using rule_table.last_write_wins [OF assms] .

theorem rules_last_write_wins_witness:
  "rule_at (rule_table.puts ([(''a.io'', [STRATEGY_FAKE])] @ [(''A.io'', [STRATEGY_SPLIT])] @ [(''b.io'', [STRATEGY_PASS])])
     strategy_config_init) ''a.IO'' = Some [STRATEGY_SPLIT]"
proof (rule rules_last_write_wins)
  show "list_all (\<lambda>kv. \<not> ieq (fst kv) ''a.IO'') [(''b.io'', [STRATEGY_PASS])]" by code_simp
  have "set_domain_rule ''A.io'' [STRATEGY_SPLIT] (case set_domain_rule ''a.io'' [STRATEGY_FAKE] strategy_config_init of
      None \<Rightarrow> strategy_config_init | Some s \<Rightarrow> s) \<noteq> None" by code_simp
  then show "set_domain_rule ''A.io'' [STRATEGY_SPLIT] (rule_table.puts [(''a.io'', [STRATEGY_FAKE])] strategy_config_init) \<noteq> None"
    by (simp add: rule_table.puts_def)
  show "ieq ''A.io'' ''a.IO''" by code_simp
qed

text \<open>The chain for a host name: the exact rule if there is one; otherwise the first rule,
  in file order, whose name starts with a dot and is a suffix of the host name on a label boundary
  (or the host name itself without the dot); otherwise the default strategy alone.\<close>

theorem strategy_precedence:
  "strategy_chain_for_domain cfg d =
    (case List.find (\<lambda>r. \<not> (rule_domain r \<noteq> [] \<and> hd (rule_domain r) = CHR ''.'') \<and> ieq (rule_domain r) d) (rules cfg) of
       Some r \<Rightarrow> rule_chain r
     | None \<Rightarrow>
        (case List.find (\<lambda>r. rule_domain r \<noteq> [] \<and> hd (rule_domain r) = CHR ''.'' \<and>
                (ieq d (tl (rule_domain r)) \<or> (\<exists>p q. d = p @ q \<and> ieq q (rule_domain r)))) (rules cfg) of
           Some r \<Rightarrow> rule_chain r
         | None \<Rightarrow> [default_strategy cfg]))"
proof -
  have e1: "(\<lambda>r. rule_domain r \<noteq> [] \<and> hd (rule_domain r) = CHR ''.'' \<and> suffix_match d (rule_domain r)) =
      (\<lambda>r. rule_domain r \<noteq> [] \<and> hd (rule_domain r) = CHR ''.'' \<and>
                (ieq d (tl (rule_domain r)) \<or> (\<exists>p q. d = p @ q \<and> ieq q (rule_domain r))))"
    by (auto simp: fun_eq_iff suffix_match_iff)
  show ?thesis
    unfolding strategy_chain_for_domain_def strategy_has_explicit_rule_def e1 by (simp split: option.split)
qed

text \<open>The suffix rule that answers is the first in the file, not the longest:
  \<open>strategy.h\<close> documents a longest-match suffix rule.\<close>

theorem suffix_rule_is_first_not_longest:
  "strategy_chain_for_domain
     (fst (strategy_config_parse strategy_config_init
        (''[domains]'' @ [CHR 0x0A] @ ''.com = split'' @ [CHR 0x0A] @ ''.example.com = fake'' @ [CHR 0x0A])))
     ''www.example.com'' = [STRATEGY_SPLIT]"
  by code_simp

text \<open>\<open>strategy_chain_is_safe\<close> rejects the chain split, disorder that \<open>strategy.h\<close> lists as
  safe; it only reaches the check as plain disorder.\<close>

theorem split_disorder_only_as_disorder:
  "\<not> strategy_chain_is_safe [STRATEGY_SPLIT, STRATEGY_DISORDER] \<and>
   strategy_chain_from_string ''split+disorder'' = Some [STRATEGY_DISORDER]"
  by code_simp

end
