(* ===== verification/Flow.thy ===== *)
theory Flow
  imports Slots Strategy
begin

text \<open>
  \<open>src/flow/flow.c\<close>: the flow table of packet mode. The array of entries is a list of length
  \<open>FLOW_TABLE_MAX\<close>; a pointer to an entry is its index; \<open>reasm\<close> with \<open>reasm_len\<close> is the list of the
  bytes buffered so far. Times are the integers an \<open>int64_t\<close> holds.
\<close>

section \<open>State\<close>

definition FLOW_TABLE_MAX :: nat where "FLOW_TABLE_MAX = 4096"
definition FLOW_DEFAULT_TIMEOUT_SECONDS :: int where "FLOW_DEFAULT_TIMEOUT_SECONDS = 30"
definition FLOW_REASSEMBLY_CAP :: nat where "FLOW_REASSEMBLY_CAP = 16384"

datatype flow_class = FLOW_UNCLASSIFIED | FLOW_HTTP | FLOW_TLS | FLOW_PASSTHROUGH

record flow_key =
  fk_family :: byte
  fk_src_addr :: bytes
  fk_dst_addr :: bytes
  fk_src_port :: u16
  fk_dst_port :: u16

record flow_entry =
  fe_in_use :: bool
  fe_key :: flow_key
  fe_class_hint :: flow_class
  fe_reasm :: bytes
  fe_created_at :: int
  fe_last_seen :: int
  fe_classification_done :: bool
  fe_strategy :: t_strategy
  fe_chain :: strategy_chain
  fe_strategy_decided :: bool
  fe_next_seq :: u32
  fe_seq_initialized :: bool

record flow_table =
  ft_entries :: "flow_entry list"
  ft_live_count :: nat

text \<open>All bytes zero: what \<open>memset\<close> leaves.\<close>

definition zero_key :: flow_key where
  "zero_key = \<lparr>fk_family = 0, fk_src_addr = replicate 16 0, fk_dst_addr = replicate 16 0, fk_src_port = 0, fk_dst_port = 0\<rparr>"

definition zero_entry :: flow_entry where
  "zero_entry = \<lparr>fe_in_use = False, fe_key = zero_key, fe_class_hint = FLOW_UNCLASSIFIED, fe_reasm = [],
     fe_created_at = 0, fe_last_seen = 0, fe_classification_done = False, fe_strategy = STRATEGY_PASS,
     fe_chain = [], fe_strategy_decided = False, fe_next_seq = 0, fe_seq_initialized = False\<rparr>"

section \<open>Operations\<close>

definition flow_table_init :: flow_table where
  "flow_table_init = \<lparr>ft_entries = replicate FLOW_TABLE_MAX zero_entry, ft_live_count = 0\<rparr>"

definition flow_key_equal :: "flow_key \<Rightarrow> flow_key \<Rightarrow> bool" where
  "flow_key_equal a b =
     (if fk_family a \<noteq> fk_family b then False
      else if fk_src_port a \<noteq> fk_src_port b \<or> fk_dst_port a \<noteq> fk_dst_port b then False
      else if fk_src_addr a \<noteq> fk_src_addr b then False
      else if fk_dst_addr a \<noteq> fk_dst_addr b then False
      else True)"

definition flow_reset :: "flow_key \<Rightarrow> int \<Rightarrow> flow_entry" where
  "flow_reset key now = zero_entry\<lparr>fe_in_use := True, fe_key := key, fe_class_hint := FLOW_UNCLASSIFIED,
     fe_created_at := now, fe_last_seen := now\<rparr>"

definition find_free_or_oldest :: "flow_table \<Rightarrow> nat" where
  "find_free_or_oldest t =
     (case first_idx (\<lambda>e. \<not> fe_in_use e) (ft_entries t) of
        Some i \<Rightarrow> i
      | None \<Rightarrow> oldest_idx fe_last_seen (ft_entries t))"

definition flow_lookup_or_create :: "flow_table \<Rightarrow> flow_key \<Rightarrow> int \<Rightarrow> flow_table \<times> nat" where
  "flow_lookup_or_create t key now =
     (case first_idx (\<lambda>e. fe_in_use e \<and> flow_key_equal (fe_key e) key) (ft_entries t) of
        Some i \<Rightarrow> (t\<lparr>ft_entries := (ft_entries t)[i := (ft_entries t ! i)\<lparr>fe_last_seen := now\<rparr>]\<rparr>, i)
      | None \<Rightarrow>
          let slot = find_free_or_oldest t;
              live = (if \<not> fe_in_use (ft_entries t ! slot) then ft_live_count t + 1 else ft_live_count t) in
          (\<lparr>ft_entries = (ft_entries t)[slot := flow_reset key now], ft_live_count = live\<rparr>, slot))"

definition flow_expired :: "int \<Rightarrow> int \<Rightarrow> flow_entry \<Rightarrow> bool" where
  "flow_expired now timeout e = (fe_in_use e \<and> now - fe_last_seen e > timeout)"

definition flow_evict_expired :: "flow_table \<Rightarrow> int \<Rightarrow> int \<Rightarrow> flow_table \<times> nat" where
  "flow_evict_expired t now timeout =
     (let evicted = length (filter (flow_expired now timeout) (ft_entries t)) in
      (\<lparr>ft_entries = map (\<lambda>e. if flow_expired now timeout e then zero_entry else e) (ft_entries t),
        ft_live_count = ft_live_count t - evicted\<rparr>, evicted))"

text \<open>\<^const>\<open>None\<close> is the result \<open>-1\<close>, which leaves the flow unchanged.\<close>

definition flow_reasm_append :: "flow_entry \<Rightarrow> bytes \<Rightarrow> flow_entry option" where
  "flow_reasm_append flow d =
     (if length (fe_reasm flow) + length d > FLOW_REASSEMBLY_CAP then None
      else Some (flow\<lparr>fe_reasm := fe_reasm flow @ d\<rparr>))"

definition flow_seq_is_next :: "flow_entry \<Rightarrow> u32 \<Rightarrow> nat \<Rightarrow> flow_entry \<times> bool" where
  "flow_seq_is_next flow seq payload_len =
     (if payload_len = 0 then (flow, False)
      else if \<not> fe_seq_initialized flow then
        (flow\<lparr>fe_seq_initialized := True, fe_next_seq := seq + of_nat payload_len\<rparr>, True)
      else if seq \<noteq> fe_next_seq flow then (flow, False)
      else (flow\<lparr>fe_next_seq := fe_next_seq flow + of_nat payload_len\<rparr>, True))"

definition flow_restart :: "flow_entry \<Rightarrow> int \<Rightarrow> flow_entry" where
  "flow_restart flow now = flow_reset (fe_key flow) now"

definition flow_invalidate_decisions :: "flow_table \<Rightarrow> flow_table \<times> nat" where
  "flow_invalidate_decisions t =
     (let hit = (\<lambda>e. fe_in_use e \<and> fe_strategy_decided e) in
      (t\<lparr>ft_entries := map (\<lambda>e. if hit e then e\<lparr>fe_strategy_decided := False, fe_strategy := STRATEGY_PASS,
            fe_chain := [STRATEGY_PASS]\<rparr> else e) (ft_entries t)\<rparr>,
       length (filter hit (ft_entries t))))"

section \<open>The table as a slot store\<close>

lemma flow_key_equal_iff [simp]: "flow_key_equal a b \<longleftrightarrow> a = b"
  by (auto simp: flow_key_equal_def)

definition flow_matches :: "flow_key \<Rightarrow> flow_entry \<Rightarrow> bool" where
  "flow_matches k e \<longleftrightarrow> fe_in_use e \<and> fe_key e = k"

interpretation flows: slot_store flow_matches "\<lambda>now e. \<not> fe_in_use e" fe_last_seen "(=)"
  by unfold_locales (auto simp: flow_matches_def)

text \<open>The invariant: 4096 slots, an exact live count, one live entry per key, and no reassembly
  buffer beyond its cap.\<close>

definition flow_inv :: "flow_table \<Rightarrow> bool" where
  "flow_inv t \<longleftrightarrow> length (ft_entries t) = FLOW_TABLE_MAX \<and>
     ft_live_count t = length (filter fe_in_use (ft_entries t)) \<and>
     (\<forall>i < FLOW_TABLE_MAX. \<forall>j < FLOW_TABLE_MAX. fe_in_use (ft_entries t ! i) \<longrightarrow> fe_in_use (ft_entries t ! j) \<longrightarrow>
        fe_key (ft_entries t ! i) = fe_key (ft_entries t ! j) \<longrightarrow> i = j) \<and>
     list_all (\<lambda>e. length (fe_reasm e) \<le> FLOW_REASSEMBLY_CAP) (ft_entries t)"

lemma flow_inv_alt:
  "flow_inv t \<longleftrightarrow> length (ft_entries t) = FLOW_TABLE_MAX \<and>
     ft_live_count t = length (filter fe_in_use (ft_entries t)) \<and> flows.unique (ft_entries t) \<and>
     list_all (\<lambda>e. length (fe_reasm e) \<le> FLOW_REASSEMBLY_CAP) (ft_entries t)"
  unfolding flow_inv_def flows.unique_def flow_matches_def by auto

lemma filter_update_count:
  assumes "i < length es"
  shows "length (filter p (es[i := e'])) + (if p (es ! i) then 1 else 0) = length (filter p es) + (if p e' then 1 else 0)"
  using assms
proof (induction es arbitrary: i)
  case (Cons e es)
  then show ?case by (cases i) auto
qed simp

lemma flow_inv_update:
  assumes "flow_inv t" "i < FLOW_TABLE_MAX" "fe_in_use e' = fe_in_use (ft_entries t ! i)"
    "fe_key e' = fe_key (ft_entries t ! i)" "length (fe_reasm e') \<le> FLOW_REASSEMBLY_CAP"
  shows "flow_inv (t\<lparr>ft_entries := (ft_entries t)[i := e']\<rparr>)"
proof -
  have "flows.unique ((ft_entries t)[i := e'])"
    using assms by (intro flows.unique_same_key) (auto simp: flow_inv_alt flow_matches_def)
  moreover have "length (filter fe_in_use ((ft_entries t)[i := e'])) = length (filter fe_in_use (ft_entries t))"
    using filter_update_count [of i "ft_entries t" fe_in_use e'] assms by (simp add: flow_inv_def split: if_splits)
  moreover have "list_all (\<lambda>e. length (fe_reasm e) \<le> FLOW_REASSEMBLY_CAP) ((ft_entries t)[i := e'])"
    using assms by (auto simp: flow_inv_def list_all_length nth_list_update)
  ultimately show ?thesis using assms(1) by (simp add: flow_inv_alt)
qed

lemma flow_table_max_pos [simp]: "0 < FLOW_TABLE_MAX"
  by (simp add: FLOW_TABLE_MAX_def)

definition flow_slot :: "flow_table \<Rightarrow> flow_key \<Rightarrow> nat" where
  "flow_slot t key = slot_for (flow_matches key) (\<lambda>e. \<not> fe_in_use e) fe_last_seen (ft_entries t)"

lemma flow_lookup_or_create_eq:
  "flow_lookup_or_create t key now =
    (let i = flow_slot t key; e = ft_entries t ! i in
     if first_idx (flow_matches key) (ft_entries t) \<noteq> None
     then (t\<lparr>ft_entries := (ft_entries t)[i := e\<lparr>fe_last_seen := now\<rparr>]\<rparr>, i)
     else (\<lparr>ft_entries = (ft_entries t)[i := flow_reset key now],
            ft_live_count = (if fe_in_use e then ft_live_count t else ft_live_count t + 1)\<rparr>, i))"
proof -
  have "(\<lambda>e. fe_in_use e \<and> flow_key_equal (fe_key e) key) = flow_matches key"
    by (auto simp: flow_matches_def)
  then show ?thesis
    by (auto simp: flow_lookup_or_create_def flow_slot_def slot_for_def find_free_or_oldest_def Let_def
        split: option.split)
qed

lemma flow_inv_entries: "flow_inv t \<Longrightarrow> ft_entries t \<noteq> []"
  by (auto simp: flow_inv_def FLOW_TABLE_MAX_def)

lemma flow_slot_bound: "flow_inv t \<Longrightarrow> flow_slot t key < FLOW_TABLE_MAX"
  using slot_for_bound [OF flow_inv_entries [of t], of "flow_matches key" "\<lambda>e. \<not> fe_in_use e" fe_last_seen]
  by (simp add: flow_slot_def flow_inv_def)

lemma flow_reset_facts [simp]:
  "fe_in_use (flow_reset k now)" "fe_key (flow_reset k now) = k" "fe_reasm (flow_reset k now) = []"
  "fe_last_seen (flow_reset k now) = now" "\<not> fe_strategy_decided (flow_reset k now)"
  "\<not> fe_classification_done (flow_reset k now)" "\<not> fe_seq_initialized (flow_reset k now)"
  by (simp_all add: flow_reset_def zero_entry_def)

lemma flow_lookup_inv:
  assumes inv: "flow_inv t"
  shows "flow_inv (fst (flow_lookup_or_create t key now))"
proof (cases "first_idx (flow_matches key) (ft_entries t)")
  case (Some j)
  then have "flow_slot t key = j" by (simp add: flow_slot_def slot_for_def)
  moreover have "length (fe_reasm (ft_entries t ! j)) \<le> FLOW_REASSEMBLY_CAP"
    using Some inv by (auto simp: flow_inv_def list_all_length first_idx_Some)
  ultimately show ?thesis
    using Some flow_inv_update [OF inv flow_slot_bound [OF inv, of key], of "(ft_entries t ! j)\<lparr>fe_last_seen := now\<rparr>"]
    by (simp add: flow_lookup_or_create_eq Let_def)
next
  case None
  define i where "i = flow_slot t key"
  have i: "i < length (ft_entries t)" using flow_slot_bound [OF inv, of key] inv by (simp add: i_def flow_inv_def)
  have "flows.unique ((ft_entries t)[i := flow_reset key now])"
    unfolding i_def flow_slot_def
    by (rule flows.store(1)) (use inv flow_inv_entries in \<open>auto simp: flow_inv_alt flow_matches_def\<close>)
  moreover have "length (filter fe_in_use ((ft_entries t)[i := flow_reset key now])) =
      (if fe_in_use (ft_entries t ! i) then ft_live_count t else ft_live_count t + 1)"
    using filter_update_count [OF i, of fe_in_use "flow_reset key now"] inv by (auto simp: flow_inv_def)
  moreover have "list_all (\<lambda>e. length (fe_reasm e) \<le> FLOW_REASSEMBLY_CAP) ((ft_entries t)[i := flow_reset key now])"
    using inv i by (auto simp: flow_inv_def list_all_length nth_list_update)
  ultimately show ?thesis
    using None inv by (simp add: flow_lookup_or_create_eq Let_def flow_inv_alt i_def)
qed

lemma flow_evict_inv: "flow_inv t \<Longrightarrow> flow_inv (fst (flow_evict_expired t now timeout))"
proof -
  assume inv: "flow_inv t"
  let ?f = "\<lambda>e. if flow_expired now timeout e then zero_entry else e"
  have count: "length (filter fe_in_use (map ?f es)) =
      length (filter fe_in_use es) - length (filter (flow_expired now timeout) es) \<and>
      length (filter (flow_expired now timeout) es) \<le> length (filter fe_in_use es)" for es
    by (induction es) (auto simp: flow_expired_def zero_entry_def)
  have nth: "fe_in_use (map ?f (ft_entries t) ! i) \<Longrightarrow> fe_in_use (ft_entries t ! i) \<and> map ?f (ft_entries t) ! i = ft_entries t ! i"
    if "i < length (ft_entries t)" for i
    using that by (auto simp: zero_entry_def split: if_splits)
  have "flows.unique (map ?f (ft_entries t))"
    unfolding flows.unique_def flow_matches_def
  proof (intro allI impI)
    fix k i j
    assume "i < length (map ?f (ft_entries t))" "j < length (map ?f (ft_entries t))"
      "fe_in_use (map ?f (ft_entries t) ! i) \<and> fe_key (map ?f (ft_entries t) ! i) = k"
      "fe_in_use (map ?f (ft_entries t) ! j) \<and> fe_key (map ?f (ft_entries t) ! j) = k"
    then show "i = j" using inv nth [of i] nth [of j] unfolding flow_inv_def by (metis length_map)
  qed
  then show ?thesis
    using inv count [of "ft_entries t"]
    by (auto simp: flow_inv_alt flow_evict_expired_def Let_def list_all_iff zero_entry_def)
qed

lemma flow_invalidate_inv: "flow_inv t \<Longrightarrow> flow_inv (fst (flow_invalidate_decisions t))"
proof -
  assume inv: "flow_inv t"
  let ?f = "\<lambda>e. if fe_in_use e \<and> fe_strategy_decided e then e\<lparr>fe_strategy_decided := False, fe_strategy := STRATEGY_PASS,
            fe_chain := [STRATEGY_PASS]\<rparr> else e"
  have same: "fe_in_use (?f e) = fe_in_use e" "fe_key (?f e) = fe_key e" "fe_reasm (?f e) = fe_reasm e" for e by auto
  have count: "length (filter fe_in_use (map ?f es)) = length (filter fe_in_use es)" for es
    by (induction es) auto
  have uniq: "flows.unique (map ?f (ft_entries t))"
    using inv unfolding flow_inv_alt flows.unique_def flow_matches_def by (auto simp: same)
  have cap: "list_all (\<lambda>e. length (fe_reasm e) \<le> FLOW_REASSEMBLY_CAP) (map ?f (ft_entries t))"
    using inv by (auto simp: flow_inv_alt list_all_iff)
  show ?thesis
    using inv uniq cap count [of "ft_entries t"] unfolding flow_inv_alt flow_invalidate_decisions_def
    by (simp add: Let_def)
qed

section \<open>Properties\<close>

text \<open>Claim C36: every operation of the flow table keeps its invariant (4096 slots, exact live count,
  at most one live entry per key, bounded reassembly buffers), starting from the empty table.\<close>

theorem flow_invariant:
  "flow_inv flow_table_init \<and>
   (flow_inv t \<longrightarrow>
      flow_inv (fst (flow_lookup_or_create t key now)) \<and>
      flow_inv (fst (flow_evict_expired t now timeout)) \<and>
      flow_inv (fst (flow_invalidate_decisions t)) \<and>
      (i < FLOW_TABLE_MAX \<longrightarrow>
         flow_inv (t\<lparr>ft_entries := (ft_entries t)[i := fst (flow_seq_is_next (ft_entries t ! i) seq n)]\<rparr>) \<and>
         flow_inv (t\<lparr>ft_entries := (ft_entries t)[i := case flow_reasm_append (ft_entries t ! i) d of
                      Some f \<Rightarrow> f | None \<Rightarrow> ft_entries t ! i]\<rparr>) \<and>
         (fe_in_use (ft_entries t ! i) \<longrightarrow>
            flow_inv (t\<lparr>ft_entries := (ft_entries t)[i := flow_restart (ft_entries t ! i) now]\<rparr>))))"
proof (intro conjI impI)
  show "flow_inv flow_table_init" by (simp add: flow_inv_def flow_table_init_def zero_entry_def list_all_length)
  assume inv: "flow_inv t"
  show "flow_inv (fst (flow_lookup_or_create t key now))" "flow_inv (fst (flow_evict_expired t now timeout))"
    "flow_inv (fst (flow_invalidate_decisions t))"
    by (rule flow_lookup_inv [OF inv] flow_evict_inv [OF inv] flow_invalidate_inv [OF inv])+
  assume i: "i < FLOW_TABLE_MAX"
  have cap: "length (fe_reasm (ft_entries t ! i)) \<le> FLOW_REASSEMBLY_CAP"
    using inv i by (auto simp: flow_inv_def list_all_length)
  note upd = flow_inv_update [OF inv i]
  show "flow_inv (t\<lparr>ft_entries := (ft_entries t)[i := fst (flow_seq_is_next (ft_entries t ! i) seq n)]\<rparr>)"
    by (rule upd) (use cap in \<open>simp_all add: flow_seq_is_next_def\<close>)
  show "flow_inv (t\<lparr>ft_entries := (ft_entries t)[i := case flow_reasm_append (ft_entries t ! i) d of
                      Some f \<Rightarrow> f | None \<Rightarrow> ft_entries t ! i]\<rparr>)"
    by (rule upd) (use cap in \<open>simp_all add: flow_reasm_append_def\<close>)
  assume "fe_in_use (ft_entries t ! i)"
  then show "flow_inv (t\<lparr>ft_entries := (ft_entries t)[i := flow_restart (ft_entries t ! i) now]\<rparr>)"
    by (intro upd) (simp_all add: flow_restart_def)
qed

theorem flow_invariant_witness:
  "flow_inv (fst (flow_lookup_or_create flow_table_init zero_key 7)) \<and>
   flow_inv (flow_table_init\<lparr>ft_entries := (ft_entries flow_table_init)
      [3 := fst (flow_seq_is_next (ft_entries flow_table_init ! 3) 100 20)]\<rparr>)"
  using flow_invariant [of flow_table_init zero_key 7 0 3 100 20 "[]"] unfolding FLOW_TABLE_MAX_def by simp

text \<open>\<open>flow_lookup_or_create\<close> returns the slot of a live entry for the key, stamped now. A
  live entry for the key is kept as it is; otherwise the entry is fresh and replaces a free slot, or,
  only when every slot is live, one whose \<open>last_seen\<close> is smallest. No other slot changes.\<close>

theorem flow_lookup_correct:
  assumes "flow_inv t" "flow_lookup_or_create t key now = (t', i)"
  shows "i < FLOW_TABLE_MAX \<and> fe_in_use (ft_entries t' ! i) \<and> fe_key (ft_entries t' ! i) = key \<and>
    fe_last_seen (ft_entries t' ! i) = now \<and>
    (\<forall>j < FLOW_TABLE_MAX. j \<noteq> i \<longrightarrow> ft_entries t' ! j = ft_entries t ! j) \<and>
    (if \<exists>e \<in> set (ft_entries t). fe_in_use e \<and> fe_key e = key
     then fe_in_use (ft_entries t ! i) \<and> fe_key (ft_entries t ! i) = key \<and>
          ft_entries t' ! i = (ft_entries t ! i)\<lparr>fe_last_seen := now\<rparr> \<and> ft_live_count t' = ft_live_count t
     else ft_entries t' ! i = flow_reset key now \<and>
          (if fe_in_use (ft_entries t ! i)
           then (\<forall>e \<in> set (ft_entries t). fe_in_use e \<and> fe_last_seen (ft_entries t ! i) \<le> fe_last_seen e) \<and>
                ft_live_count t' = ft_live_count t
           else ft_live_count t' = ft_live_count t + 1))"
proof -
  have i: "i = flow_slot t key" using assms(2) by (auto simp: flow_lookup_or_create_eq Let_def split: if_splits)
  have bound: "i < FLOW_TABLE_MAX" "length (ft_entries t) = FLOW_TABLE_MAX"
    using flow_slot_bound [OF assms(1)] assms(1) i by (simp_all add: flow_inv_def)
  note cs = slot_for_cases [OF flow_inv_entries [OF assms(1)], of "flow_matches key" "\<lambda>e. \<not> fe_in_use e" fe_last_seen,
      folded flow_slot_def, folded i]
  have ex: "(\<exists>e \<in> set (ft_entries t). fe_in_use e \<and> fe_key e = key) \<longleftrightarrow> first_idx (flow_matches key) (ft_entries t) \<noteq> None"
    by (simp add: first_idx_None flow_matches_def)
  show ?thesis
  proof (cases "first_idx (flow_matches key) (ft_entries t) = None")
    case True
    then have t': "t' = \<lparr>ft_entries = (ft_entries t)[i := flow_reset key now],
            ft_live_count = (if fe_in_use (ft_entries t ! i) then ft_live_count t else ft_live_count t + 1)\<rparr>"
      using assms(2) by (simp add: flow_lookup_or_create_eq Let_def flip: i)
    have "\<not> flow_matches key (ft_entries t ! i)" using True bound by (auto simp: first_idx_None)
    then show ?thesis
      using True ex bound cs by (auto simp: t')
  next
    case False
    then obtain j where "first_idx (flow_matches key) (ft_entries t) = Some j" by auto
    then have "j = i" "flow_matches key (ft_entries t ! j)"
      by (simp add: i flow_slot_def slot_for_def) (use \<open>first_idx _ _ = Some j\<close> in \<open>simp add: first_idx_Some\<close>)
    then have m: "fe_in_use (ft_entries t ! i)" "fe_key (ft_entries t ! i) = key" by (simp_all add: flow_matches_def)
    have t': "t' = t\<lparr>ft_entries := (ft_entries t)[i := (ft_entries t ! i)\<lparr>fe_last_seen := now\<rparr>]\<rparr>"
      using assms(2) False by (simp add: flow_lookup_or_create_eq Let_def flip: i)
    show ?thesis using False ex bound m by (simp add: t')
  qed
qed

lemma flow_inv_init: "flow_inv flow_table_init"
  by (simp add: flow_inv_def flow_table_init_def zero_entry_def list_all_length)

theorem flow_lookup_correct_witness:
  "\<exists>t' i. flow_lookup_or_create flow_table_init zero_key 7 = (t', i) \<and> ft_entries t' ! i = flow_reset zero_key 7 \<and>
     ft_live_count t' = 1"
proof -
  obtain t' i where r: "flow_lookup_or_create flow_table_init zero_key 7 = (t', i)" by fastforce
  have lt: "i < FLOW_TABLE_MAX" using flow_lookup_correct [OF flow_inv_init r] by blast
  have free: "\<not> fe_in_use (ft_entries flow_table_init ! i)" using lt by (simp add: flow_table_init_def zero_entry_def)
  have new: "\<not> (\<exists>e \<in> set (ft_entries flow_table_init). fe_in_use e \<and> fe_key e = zero_key)"
    by (simp add: flow_table_init_def zero_entry_def)
  have "ft_entries t' ! i = flow_reset zero_key 7 \<and> ft_live_count t' = ft_live_count flow_table_init + 1"
    using flow_lookup_correct [OF flow_inv_init r, unfolded if_not_P [OF new] if_not_P [OF free]] by blast
  moreover have "ft_live_count flow_table_init = 0" by (simp add: flow_table_init_def)
  ultimately show ?thesis using r by auto
qed

end
