(* ===== verification/Discovery.thy ===== *)
theory Discovery
  imports Strategy "HOL-Library.Sublist"
begin

text \<open>
  \<open>src/discovery/cache.c\<close>, \<open>src/discovery/ladder.c\<close> and the hash of \<open>src/discovery/netfingerprint.c\<close>:
  the ladder of candidate strategies that a discovery run walks, the on-disk cache of its outcomes,
  and the precedence of manual rules, cached outcomes and the default. The prober is a parameter: a
  function that returns a result and its own next state (its \<open>userdata\<close>). Files are modelled by what
  reading them gives. Fingerprints are 64-bit words, times the integers an \<open>int64_t\<close> holds.
\<close>

section \<open>The cache\<close>

definition DISCOVERY_CACHE_MAX :: nat where "DISCOVERY_CACHE_MAX = 256"
definition DISCOVERY_CACHE_DEFAULT_TTL_SECONDS :: int where "DISCOVERY_CACHE_DEFAULT_TTL_SECONDS = 24 * 3600"
definition NETFP_UNKNOWN :: u64 where "NETFP_UNKNOWN = 0"

record discovery_cache_entry =
  de_domain :: string
  de_chain :: strategy_chain
  de_fingerprint :: u64
  de_validated_at :: int

text \<open>The first \<open>count\<close> entries.\<close>

type_synonym discovery_cache = "discovery_cache_entry list"

definition discovery_cache_init :: discovery_cache where
  "discovery_cache_init = []"

fun update_entry :: "string \<Rightarrow> strategy_chain \<Rightarrow> u64 \<Rightarrow> int \<Rightarrow> discovery_cache \<Rightarrow> discovery_cache option" where
  "update_entry domain chain fingerprint now (e # es) =
     (if ieq (de_domain e) domain
      then Some (e\<lparr>de_chain := chain, de_fingerprint := fingerprint, de_validated_at := now\<rparr> # es)
      else map_option ((#) e) (update_entry domain chain fingerprint now es))"
| "update_entry domain chain fingerprint now [] = None"

text \<open>\<^const>\<open>None\<close> is the result \<open>-1\<close>, which leaves the cache as it is.\<close>

definition discovery_cache_set :: "string \<Rightarrow> strategy_chain \<Rightarrow> u64 \<Rightarrow> int \<Rightarrow> discovery_cache \<Rightarrow> discovery_cache option" where
  "discovery_cache_set domain chain fingerprint now cache =
     (case update_entry domain chain fingerprint now cache of
        Some cache' \<Rightarrow> Some cache'
      | None \<Rightarrow>
          if length cache \<ge> DISCOVERY_CACHE_MAX \<or> length domain \<ge> STRATEGY_DOMAIN_MAX then None
          else Some (cache @ [\<lparr>de_domain = domain, de_chain = chain, de_fingerprint = fingerprint, de_validated_at = now\<rparr>]))"

definition discovery_cache_lookup :: "discovery_cache \<Rightarrow> string \<Rightarrow> u64 \<Rightarrow> int \<Rightarrow> int \<Rightarrow> discovery_cache_entry option" where
  "discovery_cache_lookup cache domain current_fingerprint ttl_seconds now =
     (if current_fingerprint = NETFP_UNKNOWN then None
      else case List.find (\<lambda>e. ieq (de_domain e) domain) cache of
        None \<Rightarrow> None
      | Some e \<Rightarrow>
          if de_fingerprint e \<noteq> current_fingerprint then None
          else if now - de_validated_at e > ttl_seconds then None
          else if now < de_validated_at e then None
          else Some e)"

subsection \<open>The cache as text\<close>

text \<open>\<open>snprintf(..., "%s %016llx %lld %s\n", ...)\<close>\<close>

definition cache_line :: "discovery_cache_entry \<Rightarrow> string" where
  "cache_line e = de_domain e @ [CHR '' ''] @ hex_fixed 16 (unat (de_fingerprint e)) @ [CHR '' ''] @
     print_lld (de_validated_at e) @ [CHR '' ''] @ strategy_chain_describe (de_chain e) 64 @ [CHR 0x0A]"

text \<open>The loop: \<open>out\<close> is what the buffer holds before its terminator, \<open>pos\<close> the length the whole text
  would have.\<close>

fun serialize_loop :: "nat \<Rightarrow> discovery_cache \<Rightarrow> string \<Rightarrow> nat \<Rightarrow> string \<times> nat" where
  "serialize_loop out_size (e # es) out pos =
     (let out' = (if pos < out_size then take (out_size - 1) (out @ cache_line e) else out) in
      serialize_loop out_size es out' (pos + length (cache_line e)))"
| "serialize_loop out_size [] out pos = (out, pos)"

definition discovery_cache_serialize :: "discovery_cache \<Rightarrow> nat \<Rightarrow> string \<times> nat" where
  "discovery_cache_serialize cache out_size =
     (case serialize_loop out_size cache [] 0 of (out, pos) \<Rightarrow>
        if pos \<ge> out_size then (out, 0) else (out, pos))"

definition cache_trim :: "string \<Rightarrow> string" where
  "cache_trim s = trim_right (\<lambda>c. c = CHR '' '' \<or> c = CHR 0x09 \<or> c = CHR 0x0D \<or> c = CHR 0x0A) s"

text \<open>One \<open>%<w>s\<close> of \<open>sscanf\<close>: white space is skipped, then 1 to \<open>w\<close> other characters are read. A
  blank of the format skips white space as well.\<close>

definition scan_word :: "nat \<Rightarrow> string \<Rightarrow> (string \<times> string) option" where
  "scan_word w s =
     (let s' = dropWhile isspace_c s; word = take w (takeWhile (\<lambda>c. \<not> isspace_c c) s') in
      if word = [] then None else Some (word, drop (length word) s'))"

text \<open>\<open>sscanf(line, "%255s %31s %31s %63s", ...)\<close>, \<^const>\<open>None\<close> unless it converts four.\<close>

definition scan_fields :: "string \<Rightarrow> (string \<times> string \<times> string \<times> string) option" where
  "scan_fields line =
     (case scan_word 255 line of None \<Rightarrow> None | Some (domain, r1) \<Rightarrow>
     (case scan_word 31 r1 of None \<Rightarrow> None | Some (fp_hex, r2) \<Rightarrow>
     (case scan_word 31 r2 of None \<Rightarrow> None | Some (ts_dec, r3) \<Rightarrow>
     (case scan_word 63 r3 of None \<Rightarrow> None | Some (chain_str, _) \<Rightarrow> Some (domain, fp_hex, ts_dec, chain_str)))))"

text \<open>The body of the reading loop for one line: the cache and the number of lines skipped.\<close>

definition cache_parse_line :: "string \<Rightarrow> discovery_cache \<times> nat \<Rightarrow> discovery_cache \<times> nat" where
  "cache_parse_line raw st =
     (case st of (cache, skipped) \<Rightarrow>
      let line = cache_trim raw in
      if line = [] \<or> hd line = CHR ''#'' \<or> hd line = CHR '';'' then (cache, skipped)
      else case scan_fields line of
        None \<Rightarrow> (cache, skipped + 1)
      | Some (domain, fp_hex, ts_dec, chain_str) \<Rightarrow>
          (case (scan_llx fp_hex, scan_lld ts_dec, strategy_chain_from_string chain_str) of
             (Some fp, Some ts, Some chain) \<Rightarrow>
               (case discovery_cache_set domain chain fp ts cache of
                  None \<Rightarrow> (cache, skipped + 1)
                | Some cache' \<Rightarrow> (cache', skipped))
           | _ \<Rightarrow> (cache, skipped + 1)))"

function cache_parse_lines :: "string \<Rightarrow> discovery_cache \<times> nat \<Rightarrow> discovery_cache \<times> nat" where
  "cache_parse_lines inp st = (if inp = [] then st
     else cache_parse_lines (snd (cut_line inp)) (cache_parse_line (fst (cut_line inp)) st))"
  by pat_completeness auto
termination
  by (relation "measure (\<lambda>(inp, st). length inp)") (auto simp: cut_line_shorter)

declare cache_parse_lines.simps [simp del]

definition discovery_cache_parse :: "discovery_cache \<Rightarrow> string \<Rightarrow> discovery_cache \<times> nat" where
  "discovery_cache_parse cache inp = cache_parse_lines inp (cache, 0)"

text \<open>What opening and reading a file gives.\<close>

datatype file_read = Cannot_open | Read_error | Contents string

text \<open>\<open>buf\<close> holds 16384 characters. The second component is the result.\<close>

definition discovery_cache_load_file :: "file_read \<Rightarrow> discovery_cache \<times> int" where
  "discovery_cache_load_file f =
     (case f of
        Cannot_open \<Rightarrow> (discovery_cache_init, 0)
      | Read_error \<Rightarrow> (discovery_cache_init, -1)
      | Contents s \<Rightarrow> (fst (discovery_cache_parse discovery_cache_init (take 16383 s)), 0))"

text \<open>What is written to the file; \<^const>\<open>None\<close> when the save fails before it opens the file.\<close>

definition discovery_cache_save_file :: "discovery_cache \<Rightarrow> string option" where
  "discovery_cache_save_file cache =
     (case discovery_cache_serialize cache 16384 of (buf, written) \<Rightarrow>
        if written = 0 \<and> length cache > 0 then None else Some (take written buf))"

subsection \<open>Runtime selection\<close>

datatype t_strategy_source = STRATEGY_SOURCE_MANUAL | STRATEGY_SOURCE_AUTO | STRATEGY_SOURCE_DEFAULT

definition strategy_source_name :: "t_strategy_source \<Rightarrow> string" where
  "strategy_source_name s =
     (if s = STRATEGY_SOURCE_MANUAL then ''manual''
      else if s = STRATEGY_SOURCE_AUTO then ''auto-discovery''
      else ''default'')"

text \<open>The result, \<open>*out\<close> and \<open>*entry_out\<close>. A \<open>NULL\<close> cache is \<^const>\<open>None\<close>.\<close>

definition strategy_resolve_chain ::
  "strategy_config \<Rightarrow> discovery_cache option \<Rightarrow> u64 \<Rightarrow> int \<Rightarrow> string \<Rightarrow>
   t_strategy_source \<times> strategy_chain \<times> discovery_cache_entry option" where
  "strategy_resolve_chain cfg cache fingerprint now domain =
     (case strategy_has_explicit_rule cfg domain of
        Some chain \<Rightarrow> (STRATEGY_SOURCE_MANUAL, chain, None)
      | None \<Rightarrow>
          (case (case cache of None \<Rightarrow> None
                 | Some c \<Rightarrow> discovery_cache_lookup c domain fingerprint DISCOVERY_CACHE_DEFAULT_TTL_SECONDS now) of
             Some entry \<Rightarrow> (STRATEGY_SOURCE_AUTO, de_chain entry, Some entry)
           | None \<Rightarrow> (STRATEGY_SOURCE_DEFAULT, [default_strategy cfg], None)))"

section \<open>The ladder\<close>

datatype t_probe_result = PROBE_SUCCESS | PROBE_REMOTE_REJECTED | PROBE_LOCAL_ERROR | PROBE_TIMEOUT

definition DISCOVERY_LADDER_LEN :: nat where "DISCOVERY_LADDER_LEN = 7"
definition DISCOVERY_MAX_ATTEMPTS_PER_CANDIDATE :: nat where "DISCOVERY_MAX_ATTEMPTS_PER_CANDIDATE = 2"

definition g_discovery_ladder :: "strategy_chain list" where
  "g_discovery_ladder =
     [[STRATEGY_PASS], [STRATEGY_SPLIT], [STRATEGY_FAKE], [STRATEGY_DISORDER], [STRATEGY_FRAGMENT],
      [STRATEGY_FAKE, STRATEGY_SPLIT], [STRATEGY_SPLIT, STRATEGY_FAKE]]"

definition probe_result_name :: "t_probe_result \<Rightarrow> string" where
  "probe_result_name r =
     (if r = PROBE_SUCCESS then ''success''
      else if r = PROBE_REMOTE_REJECTED then ''remote_rejected''
      else if r = PROBE_LOCAL_ERROR then ''local_error''
      else if r = PROBE_TIMEOUT then ''timeout''
      else ''unknown'')"

type_synonym 'u prober = "string \<Rightarrow> strategy_chain \<Rightarrow> int \<Rightarrow> 'u \<Rightarrow> t_probe_result \<times> 'u"

text \<open>The inner loop: attempts on one candidate, with the last result and the prober's state.\<close>

function try_candidate :: "'u prober \<Rightarrow> string \<Rightarrow> int \<Rightarrow> strategy_chain \<Rightarrow> nat \<Rightarrow> t_probe_result \<Rightarrow> 'u \<Rightarrow> t_probe_result \<times> 'u" where
  "try_candidate prober domain timeout_ms candidate attempt result u =
     (if attempt < DISCOVERY_MAX_ATTEMPTS_PER_CANDIDATE then
        case prober domain candidate timeout_ms u of (r, u') \<Rightarrow>
          if r = PROBE_SUCCESS then (r, u')
          else if r = PROBE_LOCAL_ERROR then (r, u')
          else try_candidate prober domain timeout_ms candidate (attempt + 1) r u'
      else (result, u))"
  by pat_completeness auto
termination
  by (relation "measure (\<lambda>(p, d, t, c, attempt, r, u). DISCOVERY_MAX_ATTEMPTS_PER_CANDIDATE - attempt)") auto

declare try_candidate.simps [simp del]

fun run_ladder :: "'u prober \<Rightarrow> string \<Rightarrow> int \<Rightarrow> strategy_chain list \<Rightarrow> t_probe_result \<Rightarrow> 'u \<Rightarrow>
    (strategy_chain option \<times> t_probe_result) \<times> 'u" where
  "run_ladder prober domain timeout_ms (c # cs) result u =
     (case try_candidate prober domain timeout_ms c 0 result u of (r, u') \<Rightarrow>
        if r = PROBE_SUCCESS then ((Some c, r), u')
        else run_ladder prober domain timeout_ms cs r u')"
| "run_ladder prober domain timeout_ms [] result u = ((None, result), u)"

text \<open>The chain found (\<^const>\<open>None\<close> is the result 0), \<open>*out_last_result\<close>, and the prober's state.\<close>

definition discovery_run :: "string \<Rightarrow> 'u prober \<Rightarrow> 'u \<Rightarrow> int \<Rightarrow> (strategy_chain option \<times> t_probe_result) \<times> 'u" where
  "discovery_run domain prober u timeout_ms =
     run_ladder prober domain timeout_ms g_discovery_ladder PROBE_LOCAL_ERROR u"

definition probe_classify_openssl_output :: "string \<Rightarrow> t_probe_result" where
  "probe_classify_openssl_output out =
     (if \<not> sublist ''CONNECTED('' out then PROBE_LOCAL_ERROR
      else if \<not> sublist ''Verify return code:'' out then PROBE_REMOTE_REJECTED
      else if \<not> sublist ''Verify return code: 0 (ok)'' out then PROBE_REMOTE_REJECTED
      else PROBE_SUCCESS)"

section \<open>The network fingerprint\<close>

datatype t_link_type = LINK_UNKNOWN | LINK_ETHERNET | LINK_WIFI | LINK_OTHER

record net_profile =
  np_iface :: string
  np_link_type :: t_link_type
  np_ssid :: string
  np_has_ipv4_default :: bool
  np_has_ipv6_default :: bool

definition link_type_name :: "t_link_type \<Rightarrow> string" where
  "link_type_name t =
     (if t = LINK_ETHERNET then ''ethernet''
      else if t = LINK_WIFI then ''wifi''
      else if t = LINK_OTHER then ''other''
      else ''unknown'')"

fun fnv1a :: "u64 \<Rightarrow> bytes \<Rightarrow> u64" where
  "fnv1a hash (b # bs) = fnv1a ((hash XOR ucast b) * 1099511628211) bs"
| "fnv1a hash [] = hash"

text \<open>The bytes of a 32-bit object in memory, on a little-endian machine, and of a C string.\<close>

definition le32 :: "u32 \<Rightarrow> bytes" where
  "le32 w = [ucast w, ucast (drop_bit 8 w), ucast (drop_bit 16 w), ucast (drop_bit 24 w)]"

definition str_bytes :: "string \<Rightarrow> bytes" where
  "str_bytes s = map of_char s"

definition link_type_code :: "t_link_type \<Rightarrow> u32" where
  "link_type_code t = (case t of LINK_UNKNOWN \<Rightarrow> 0 | LINK_ETHERNET \<Rightarrow> 1 | LINK_WIFI \<Rightarrow> 2 | LINK_OTHER \<Rightarrow> 3)"

definition netfingerprint_hash :: "net_profile \<Rightarrow> u32 \<Rightarrow> bytes option \<Rightarrow> u64" where
  "netfingerprint_hash profile gw_raw gw_mac =
     (let hash = 1469598103934665603;
          hash = fnv1a hash (str_bytes (np_iface profile));
          hash = fnv1a hash (le32 gw_raw);
          hash = (case gw_mac of Some mac \<Rightarrow> fnv1a hash mac | None \<Rightarrow> hash);
          hash = fnv1a hash (le32 (link_type_code (np_link_type profile)));
          hash = fnv1a hash (str_bytes (np_ssid profile));
          hash = fnv1a hash (le32 (of_bool (np_has_ipv4_default profile)));
          hash = fnv1a hash (le32 (of_bool (np_has_ipv6_default profile))) in
      if hash = NETFP_UNKNOWN then 1 else hash)"

section \<open>The cache as a table of host names\<close>

abbreviation cache_put :: "string \<Rightarrow> strategy_chain \<times> u64 \<times> int \<Rightarrow> discovery_cache \<Rightarrow> discovery_cache option" where
  "cache_put k v \<equiv> (case v of (chain, fp, now) \<Rightarrow> discovery_cache_set k chain fp now)"

definition cache_at :: "discovery_cache \<Rightarrow> string \<Rightarrow> (strategy_chain \<times> u64 \<times> int) option" where
  "cache_at cache d = map_option (\<lambda>e. (de_chain e, de_fingerprint e, de_validated_at e))
     (List.find (\<lambda>e. ieq (de_domain e) d) cache)"

lemma update_entry_None: "update_entry d c f t es = None \<longleftrightarrow> List.find (\<lambda>e. ieq (de_domain e) d) es = None"
  by (induction es) auto

lemma update_entry_at:
  "update_entry d c f t es = Some es' \<Longrightarrow> cache_at es' k = (if ieq d k then Some (c, f, t) else cache_at es k)"
  unfolding cache_at_def by (induction es arbitrary: es') (auto simp: ieq_iff split: if_splits)

lemma update_entry_domains: "update_entry d c f t es = Some es' \<Longrightarrow> map de_domain es' = map de_domain es"
  by (induction es arbitrary: es') (auto split: if_splits)

lemma update_entry_set:
  "update_entry d c f t es = Some es' \<Longrightarrow> e \<in> set es' \<Longrightarrow> e \<in> set es \<or> de_chain e = c"
  by (induction es arbitrary: es') (auto split: if_splits)

interpretation cache_table: host_table cache_put cache_at
proof unfold_locales
  fix k v s s' k' assume put: "cache_put k v s = Some s'"
  show "cache_at s' k' = (if ieq k k' then Some v else cache_at s k')"
  proof (cases "update_entry k (fst v) (fst (snd v)) (snd (snd v)) s")
    case None
    then have f: "List.find (\<lambda>e. ieq (de_domain e) k) s = None" by (simp add: update_entry_None)
    have "ieq k k' \<Longrightarrow> List.find (\<lambda>e. ieq (de_domain e) k') s = None"
      using f ieq_same [of k k'] by (simp add: find_None_iff)
    then show ?thesis
      using put None by (auto simp: discovery_cache_set_def cache_at_def find_append_case split: prod.splits if_splits option.splits)
  next
    case (Some es)
    then show ?thesis
      using put update_entry_at [OF Some, of k'] by (auto simp: discovery_cache_set_def split: prod.splits)
  qed
next
  fix s k v assume "cache_at s k \<noteq> None"
  then have "update_entry k (fst v) (fst (snd v)) (snd (snd v)) s \<noteq> None"
    by (simp add: cache_at_def update_entry_None)
  then show "cache_put k v s \<noteq> None" by (auto simp: discovery_cache_set_def split: prod.splits)
qed

lemma lookup_cache_at:
  "discovery_cache_lookup cache d fp ttl now = Some e \<Longrightarrow>
   e \<in> set cache \<and> ieq (de_domain e) d \<and> fp \<noteq> NETFP_UNKNOWN \<and> de_fingerprint e = fp \<and>
   de_validated_at e \<le> now \<and> now \<le> de_validated_at e + ttl"
  by (auto simp: discovery_cache_lookup_def find_Some_iff split: if_splits option.splits)

lemma map_option_lookup:
  "map_option de_chain (discovery_cache_lookup cache d fp ttl now) =
    (case cache_at cache d of None \<Rightarrow> None
     | Some (chain, f, t) \<Rightarrow> if fp \<noteq> NETFP_UNKNOWN \<and> f = fp \<and> t \<le> now \<and> now \<le> t + ttl then Some chain else None)"
  by (auto simp: discovery_cache_lookup_def cache_at_def split: option.splits)

section \<open>The invariant of the cache\<close>

definition cache_inv :: "discovery_cache \<Rightarrow> bool" where
  "cache_inv cache \<longleftrightarrow> length cache \<le> DISCOVERY_CACHE_MAX \<and>
     list_all (\<lambda>e. length (de_domain e) < STRATEGY_DOMAIN_MAX \<and> strategy_chain_is_safe (de_chain e)) cache \<and>
     distinct (map (\<lambda>e. map tolower_c (de_domain e)) cache)"

lemma discovery_cache_set_inv:
  assumes "cache_inv cache" "strategy_chain_is_safe chain" "discovery_cache_set d chain f t cache = Some cache'"
  shows "cache_inv cache'"
proof (cases "update_entry d chain f t cache")
  case None
  then have "List.find (\<lambda>e. ieq (de_domain e) d) cache = None" by (simp add: update_entry_None)
  then have "map tolower_c d \<notin> set (map (\<lambda>e. map tolower_c (de_domain e)) cache)"
    by (auto simp: find_None_iff ieq_iff)
  then show ?thesis
    using None assms by (auto simp: discovery_cache_set_def cache_inv_def split: if_splits)
next
  case (Some es)
  then have es: "cache' = es" using assms(3) by (simp add: discovery_cache_set_def)
  have dom: "map de_domain es = map de_domain cache" by (rule update_entry_domains [OF Some])
  then have len: "length es = length cache" by (rule map_eq_imp_length_eq)
  have "map (\<lambda>e. map tolower_c (de_domain e)) es = map (\<lambda>e. map tolower_c (de_domain e)) cache"
    using arg_cong [OF dom, of "map (map tolower_c)"] by (simp add: comp_def)
  moreover have "length (de_domain e) < STRATEGY_DOMAIN_MAX" if "e \<in> set es" for e
  proof -
    have "de_domain e \<in> set (map de_domain cache)" using that unfolding dom [symmetric] by simp
    then show ?thesis using assms(1) by (auto simp: cache_inv_def list_all_iff)
  qed
  moreover have "strategy_chain_is_safe (de_chain e)" if "e \<in> set es" for e
    using update_entry_set [OF Some that] assms(1,2) by (auto simp: cache_inv_def list_all_iff)
  ultimately show ?thesis
    using assms(1) len by (simp add: cache_inv_def es list_all_iff)
qed

lemma cache_parse_line_inv: "cache_inv (fst st) \<Longrightarrow> cache_inv (fst (cache_parse_line raw st))"
  unfolding cache_parse_line_def Let_def
  by (auto split: option.splits prod.splits dest: discovery_cache_set_inv strategy_chain_from_string_safe)

lemma cache_parse_lines_inv: "cache_inv (fst st) \<Longrightarrow> cache_inv (fst (cache_parse_lines inp st))"
proof (induction inp st rule: cache_parse_lines.induct)
  case (1 inp st)
  show ?case by (subst cache_parse_lines.simps) (use 1 cache_parse_line_inv in auto)
qed

section \<open>Text round trip\<close>

lemma serialize_loop_eq:
  "out = take (n - 1) full \<Longrightarrow> pos = length full \<Longrightarrow>
   serialize_loop n es out pos =
     (take (n - 1) (full @ concat (map cache_line es)), length (full @ concat (map cache_line es)))"
proof (induction es arbitrary: out pos full)
  case (Cons e es)
  have "(if pos < n then take (n - 1) (out @ cache_line e) else out) = take (n - 1) (full @ cache_line e)"
    using Cons.prems by auto
  then have "serialize_loop n (e # es) out pos =
      serialize_loop n es (take (n - 1) (full @ cache_line e)) (length (full @ cache_line e))"
    unfolding serialize_loop.simps Let_def using Cons.prems(2) by simp
  also have "\<dots> = (take (n - 1) ((full @ cache_line e) @ concat (map cache_line es)),
      length ((full @ cache_line e) @ concat (map cache_line es)))" by (rule Cons.IH) simp_all
  finally show ?case by simp
qed simp

lemma discovery_cache_serialize_eq:
  "discovery_cache_serialize cache n =
    (let s = concat (map cache_line cache) in
     if length s < n then (s, length s) else (take (n - 1) s, 0))"
  using serialize_loop_eq [of "[]" n "[]" 0 cache] by (simp add: discovery_cache_serialize_def Let_def)

lemma scan_word_blank: "scan_word w (CHR '' '' # s) = scan_word w s"
  by (simp add: scan_word_def isspace_c_def)

lemma scan_word_append:
  assumes "t \<noteq> []" "list_all (\<lambda>c. \<not> isspace_c c) t" "length t \<le> w" "rest = [] \<or> isspace_c (hd rest)"
  shows "scan_word w (t @ rest) = Some (t, rest)"
proof -
  have "dropWhile isspace_c (t @ rest) = t @ rest" using assms(1,2) by (cases t) auto
  moreover have "takeWhile (\<lambda>c. \<not> isspace_c c) (t @ rest) = t"
    using assms(2,4) by (induction t) (auto simp: takeWhile_eq_Nil_iff)
  moreover have "0 < w" using assms(1,3) by (cases t) auto
  ultimately show ?thesis using assms(1,3) by (simp add: scan_word_def)
qed

text \<open>What an entry needs to survive the text format.\<close>

definition entry_ok :: "discovery_cache_entry \<Rightarrow> bool" where
  "entry_ok e \<longleftrightarrow> de_domain e \<noteq> [] \<and> list_all (\<lambda>c. \<not> isspace_c c \<and> c \<noteq> CHR 0x00) (de_domain e) \<and>
     hd (de_domain e) \<noteq> CHR ''#'' \<and> hd (de_domain e) \<noteq> CHR '';'' \<and>
     - 9223372036854775808 \<le> de_validated_at e \<and> de_validated_at e \<le> 9223372036854775807"

definition clean :: "string \<Rightarrow> bool" where
  "clean s \<longleftrightarrow> s \<noteq> [] \<and> list_all (\<lambda>c. \<not> isspace_c c \<and> c \<noteq> CHR 0x00) s"

lemma clean_word: "clean t \<Longrightarrow> length t \<le> w \<Longrightarrow> scan_word w (t @ CHR '' '' # r) = Some (t, CHR '' '' # r)"
  by (rule scan_word_append) (auto simp: clean_def list_all_iff isspace_c_def)

lemma digits_clean:
  assumes "s \<noteq> []" "\<And>c. c \<in> set s \<Longrightarrow> \<exists>d < 16. c = digit_char d"
  shows "clean s"
  unfolding clean_def list_all_iff
proof (intro conjI ballI)
  fix c assume "c \<in> set s"
  then obtain d where "d < 16" "c = digit_char d" using assms(2) by blast
  then show "\<not> isspace_c c" "c \<noteq> CHR 0x00" using digit_char_values(3,5) [of d] by simp_all
qed (rule assms)

lemma clean_hex: "clean (hex_fixed 16 n)"
proof (rule digits_clean)
  show "hex_fixed 16 n \<noteq> []" using length_hex_fixed [of 16 n] by (cases "hex_fixed 16 n") simp_all
qed (rule hex_fixed_chars)

lemma clean_print_lld: "clean (print_lld v)"
proof -
  have "clean (dec_nat n)" for n
  proof (rule digits_clean)
    fix c assume "c \<in> set (dec_nat n)"
    then obtain d where "d < 10" "c = digit_char d" using dec_nat_chars by blast
    then show "\<exists>d < 16. c = digit_char d" by (intro exI [of _ d]) simp
  qed simp
  then have d: "list_all (\<lambda>c. \<not> isspace_c c \<and> c \<noteq> CHR 0x00) (dec_nat n)" for n by (simp add: clean_def)
  have m: "\<not> isspace_c (CHR ''-'')" by (simp add: isspace_c_def)
  show ?thesis
    using d m by (simp add: clean_def print_lld_def)
qed

lemma print_lld_length:
  assumes "- 9223372036854775808 \<le> v" "v \<le> 9223372036854775807"
  shows "length (print_lld v) \<le> 20"
proof -
  have "nat (- v) < 10 ^ 19" "nat v < 10 ^ 19" using assms by auto
  then show ?thesis
    using dec_nat_length [of "nat (- v)" 19] dec_nat_length [of "nat v" 19] by (auto simp: print_lld_def)
qed

lemma describe_64: "strategy_chain_is_safe c \<Longrightarrow> strategy_chain_describe c 64 = join_plus c"
  using join_plus_short [of c] by (simp add: strategy_chain_describe_eq)

lemma clean_join_plus: "strategy_chain_is_safe c \<Longrightarrow> clean (join_plus c)"
  using strategy_name_facts(1,4) by (auto simp: strategy_chain_is_safe_iff clean_def isspace_c_def)

text \<open>The characters of a line before its newline.\<close>

definition line_body :: "discovery_cache_entry \<Rightarrow> string" where
  "line_body e = de_domain e @ CHR '' '' # hex_fixed 16 (unat (de_fingerprint e)) @ CHR '' '' #
     print_lld (de_validated_at e) @ CHR '' '' # join_plus (de_chain e)"

lemma cache_line_body: "strategy_chain_is_safe (de_chain e) \<Longrightarrow> cache_line e = line_body e @ [CHR 0x0A]"
  by (simp add: cache_line_def line_body_def describe_64)

lemma cache_line_length:
  "entry_ok e \<Longrightarrow> strategy_chain_is_safe (de_chain e) \<Longrightarrow> length (cache_line e) \<le> length (de_domain e) + 52"
  using join_plus_short [of "de_chain e"] print_lld_length [of "de_validated_at e"]
  by (simp add: cache_line_body line_body_def entry_ok_def)

lemma clean_no_nl: "clean s \<Longrightarrow> CHR 0x0A \<notin> set s \<and> CHR 0x00 \<notin> set s"
  by (auto simp: clean_def list_all_iff isspace_c_def)

lemma entry_ok_clean: "entry_ok e \<Longrightarrow> clean (de_domain e)"
  by (simp add: entry_ok_def clean_def)

lemma scan_fields_body:
  assumes "entry_ok e" "strategy_chain_is_safe (de_chain e)" "length (de_domain e) < 256"
  shows "scan_fields (line_body e) =
    Some (de_domain e, hex_fixed 16 (unat (de_fingerprint e)), print_lld (de_validated_at e), join_plus (de_chain e))"
proof -
  have "scan_word 63 (join_plus (de_chain e) @ []) = Some (join_plus (de_chain e), [])"
    using clean_join_plus [OF assms(2)] join_plus_short [OF assms(2)]
    by (intro scan_word_append) (auto simp: clean_def list_all_iff)
  moreover have "length (print_lld (de_validated_at e)) \<le> 31"
    using print_lld_length [of "de_validated_at e"] assms(1) by (simp add: entry_ok_def)
  ultimately show ?thesis
    using assms(3) entry_ok_clean [OF assms(1)]
    by (simp add: scan_fields_def line_body_def scan_word_blank clean_word clean_hex clean_print_lld)
qed

lemma cache_trim_body:
  assumes "strategy_chain_is_safe (de_chain e)"
  shows "cache_trim (line_body e) = line_body e"
proof -
  have c: "clean (join_plus (de_chain e))" by (rule clean_join_plus [OF assms])
  then have "\<not> isspace_c (last (join_plus (de_chain e)))" by (simp add: clean_def list_all_iff)
  moreover have "last (line_body e) = last (join_plus (de_chain e))" using c by (simp add: line_body_def clean_def)
  ultimately show ?thesis by (simp add: cache_trim_def trim_right_id isspace_c_def)
qed

lemma cache_parse_line_body:
  assumes e: "entry_ok e" and inv: "cache_inv (pre @ e # es)"
  shows "cache_parse_line (line_body e) (pre, k) = (pre @ [e], k)"
proof -
  have safe: "strategy_chain_is_safe (de_chain e)" and len: "length (de_domain e) < 256"
    using inv by (simp_all add: cache_inv_def STRATEGY_DOMAIN_MAX_def)
  have hd: "line_body e \<noteq> []" "hd (line_body e) = hd (de_domain e)"
    using e by (simp_all add: line_body_def entry_ok_def)
  have "List.find (\<lambda>x. ieq (de_domain x) (de_domain e)) pre = None"
    using inv by (auto simp: find_None_iff cache_inv_def ieq_iff image_iff)
  then have "update_entry (de_domain e) (de_chain e) (de_fingerprint e) (de_validated_at e) pre = None"
    by (simp add: update_entry_None)
  then have "discovery_cache_set (de_domain e) (de_chain e) (de_fingerprint e) (de_validated_at e) pre = Some (pre @ [e])"
    using inv by (simp add: discovery_cache_set_def cache_inv_def)
  moreover have "hd (de_domain e) \<noteq> CHR ''#''" "hd (de_domain e) \<noteq> CHR '';''" using e by (simp_all add: entry_ok_def)
  moreover have "scan_lld (print_lld (de_validated_at e)) = Some (de_validated_at e)"
    using e by (intro scan_lld_print) (simp_all add: entry_ok_def)
  ultimately show ?thesis
    using hd by (simp add: cache_parse_line_def cache_trim_body [OF safe] scan_fields_body [OF e safe len] Let_def
        scan_llx_hex_fixed chain_from_join [OF safe])
qed

lemma cut_line_body:
  assumes e: "entry_ok e" and safe: "strategy_chain_is_safe (de_chain e)" and len: "length (de_domain e) < 256"
  shows "cut_line (cache_line e @ rest) = (line_body e, rest)"
proof -
  have "length (line_body e) \<le> 511"
    using len join_plus_short [OF safe] print_lld_length [of "de_validated_at e"] e
    by (simp add: line_body_def entry_ok_def)
  moreover have "CHR 0x0A \<notin> set (line_body e)" "CHR 0x00 \<notin> set (line_body e)"
    using clean_no_nl [OF entry_ok_clean [OF e]] clean_no_nl [OF clean_hex] clean_no_nl [OF clean_print_lld]
      clean_no_nl [OF clean_join_plus [OF safe]] by (auto simp: line_body_def)
  ultimately show ?thesis
    using cut_line_append [of "line_body e" rest] by (simp add: cache_line_body [OF safe])
qed

lemma cache_parse_lines_concat:
  "list_all entry_ok es \<Longrightarrow> cache_inv (pre @ es) \<Longrightarrow>
   cache_parse_lines (concat (map cache_line es)) (pre, k) = (pre @ es, k)"
proof (induction es arbitrary: pre)
  case Nil
  then show ?case by (simp add: cache_parse_lines.simps)
next
  case (Cons e es)
  let ?rest = "concat (map cache_line es)"
  have e: "entry_ok e" and safe: "strategy_chain_is_safe (de_chain e)" and len: "length (de_domain e) < 256"
    using Cons.prems by (simp_all add: cache_inv_def STRATEGY_DOMAIN_MAX_def)
  have "cache_parse_lines (cache_line e @ ?rest) (pre, k) = cache_parse_lines ?rest (pre @ [e], k)"
    unfolding cache_parse_lines.simps [of "cache_line e @ ?rest"] cut_line_body [OF e safe len] fst_conv snd_conv
      cache_parse_line_body [OF e Cons.prems(2)] by (simp add: cache_line_body [OF safe])
  also have "\<dots> = (pre @ e # es, k)" using Cons.IH [of "pre @ [e]"] Cons.prems by simp
  finally show ?case by simp
qed

section \<open>Discovery runs\<close>

text \<open>A prober that keeps a log of its calls beside its own state.\<close>

definition logged :: "'u prober \<Rightarrow> ((strategy_chain \<times> t_probe_result) list \<times> 'u) prober" where
  "logged p d c t s = (case s of (log, u) \<Rightarrow> case p d c t u of (r, u') \<Rightarrow> (r, (log @ [(c, r)], u')))"

text \<open>The log of a run that tried the candidates \<open>cs\<close> with the results \<open>rss\<close>.\<close>

definition attempts :: "strategy_chain list \<Rightarrow> t_probe_result list list \<Rightarrow> (strategy_chain \<times> t_probe_result) list" where
  "attempts cs rss = concat (map2 (\<lambda>c rs. map (Pair c) rs) cs rss)"

text \<open>The results on one candidate: one or two, and only a rejection or a timeout is tried again.\<close>

definition candidate_results :: "t_probe_result list \<Rightarrow> bool" where
  "candidate_results rs \<longleftrightarrow> rs \<noteq> [] \<and> length rs \<le> DISCOVERY_MAX_ATTEMPTS_PER_CANDIDATE \<and>
     list_all (\<lambda>r. r = PROBE_REMOTE_REJECTED \<or> r = PROBE_TIMEOUT) (butlast rs)"

lemma try_candidate_unfold:
  "try_candidate p d t c 0 r0 u =
    (case p d c t u of (r, u') \<Rightarrow> if r = PROBE_SUCCESS \<or> r = PROBE_LOCAL_ERROR then (r, u') else p d c t u')"
  by (simp add: try_candidate.simps [of p d t c 0] try_candidate.simps [of p d t c "Suc 0"]
      try_candidate.simps [of p d t c "Suc (Suc 0)"] DISCOVERY_MAX_ATTEMPTS_PER_CANDIDATE_def split: prod.split)

lemma try_candidate_logged:
  "\<exists>rs u'. try_candidate (logged p) d t c 0 r0 (log, u) = (last rs, (log @ map (Pair c) rs, u')) \<and>
     try_candidate p d t c 0 r0 u = (last rs, u') \<and> candidate_results rs"
proof -
  obtain r1 u1 where 1: "p d c t u = (r1, u1)" by fastforce
  obtain r2 u2 where 2: "p d c t u1 = (r2, u2)" by fastforce
  show ?thesis
  proof (cases "r1 = PROBE_SUCCESS \<or> r1 = PROBE_LOCAL_ERROR")
    case True
    then show ?thesis
      by (intro exI [of _ "[r1]"] exI [of _ u1])
        (auto simp: try_candidate_unfold logged_def 1 candidate_results_def DISCOVERY_MAX_ATTEMPTS_PER_CANDIDATE_def)
  next
    case False
    then have "r1 = PROBE_REMOTE_REJECTED \<or> r1 = PROBE_TIMEOUT" by (cases r1) auto
    then show ?thesis
      using False by (intro exI [of _ "[r1, r2]"] exI [of _ u2])
        (auto simp: try_candidate_unfold logged_def 1 2 candidate_results_def DISCOVERY_MAX_ATTEMPTS_PER_CANDIDATE_def)
  qed
qed

text \<open>How a run over \<open>cs\<close> ends: at the first success, or after every candidate.\<close>

definition run_outcome :: "strategy_chain list \<Rightarrow> t_probe_result list list \<Rightarrow> strategy_chain option \<Rightarrow> bool" where
  "run_outcome cs rss found \<longleftrightarrow> length rss \<le> length cs \<and> list_all candidate_results rss \<and>
     list_all (\<lambda>rs. last rs \<noteq> PROBE_SUCCESS) (butlast rss) \<and>
     (case found of
        Some c \<Rightarrow> rss \<noteq> [] \<and> last (last rss) = PROBE_SUCCESS \<and> c = cs ! (length rss - 1)
      | None \<Rightarrow> length rss = length cs \<and> list_all (\<lambda>rs. last rs \<noteq> PROBE_SUCCESS) rss)"

lemma run_ladder_logged:
  "\<exists>rss found r u'. run_ladder (logged p) d t cs r0 (log, u) = ((found, r), (log @ attempts cs rss, u')) \<and>
     run_ladder p d t cs r0 u = ((found, r), u') \<and> run_outcome cs rss found"
proof (induction cs arbitrary: log u r0)
  case Nil
  then show ?case by (intro exI [of _ "[]"]) (auto simp: attempts_def run_outcome_def intro: exI [of _ None])
next
  case (Cons c cs)
  obtain rs u1 where t: "try_candidate (logged p) d t c 0 r0 (log, u) = (last rs, (log @ map (Pair c) rs, u1))"
    "try_candidate p d t c 0 r0 u = (last rs, u1)" "candidate_results rs"
    using try_candidate_logged [of p d t c r0 log u] by blast
  show ?case
  proof (cases "last rs = PROBE_SUCCESS")
    case True
    then show ?thesis
      using t by (intro exI [of _ "[rs]"] exI [of _ "Some c"] exI [of _ PROBE_SUCCESS] exI [of _ u1])
        (simp add: attempts_def run_outcome_def)
  next
    case False
    obtain rss found r u' where IH: "run_ladder (logged p) d t cs (last rs) (log @ map (Pair c) rs, u1) =
          ((found, r), ((log @ map (Pair c) rs) @ attempts cs rss, u'))"
        "run_ladder p d t cs (last rs) u1 = ((found, r), u')" "run_outcome cs rss found"
      using Cons.IH [of "last rs" "log @ map (Pair c) rs" u1] by blast
    have "run_outcome (c # cs) (rs # rss) found"
      using IH(3) t(3) False by (cases rss) (auto simp: run_outcome_def split: option.splits)
    then show ?thesis
      using t False IH by (intro exI [of _ "rs # rss"] exI [of _ found] exI [of _ r] exI [of _ u'])
        (simp add: attempts_def)
  qed
qed

lemma attempts_length:
  "list_all (\<lambda>rs. length rs \<le> k) rss \<Longrightarrow> length (attempts cs rss) \<le> k * length cs"
proof (induction cs arbitrary: rss)
  case (Cons c cs)
  show ?case
  proof (cases rss)
    case (Cons rs rss')
    then show ?thesis using Cons.IH [of rss'] Cons.prems by (simp add: attempts_def)
  qed (simp add: attempts_def)
qed (simp add: attempts_def)

section \<open>The hash\<close>

lemma fnv1a_append: "fnv1a h (xs @ ys) = fnv1a (fnv1a h xs) ys"
  by (induction xs arbitrary: h) auto

lemma fnv_prime_inj: "(a :: u64) * 1099511628211 = b * 1099511628211 \<Longrightarrow> a = b"
proof -
  assume "a * 1099511628211 = b * 1099511628211"
  then have "a * 1099511628211 * 14886173955864302971 = b * 1099511628211 * 14886173955864302971" by simp
  moreover have "(1099511628211 :: u64) * 14886173955864302971 = 1" by simp
  ultimately show "a = b" by (simp only: mult.assoc mult_1_right)
qed

lemma xor_cancel: "(a :: u64) XOR c = b XOR c \<Longrightarrow> a = b"
proof -
  assume "a XOR c = b XOR c"
  then have "(a XOR c) XOR c = (b XOR c) XOR c" by simp
  then show "a = b" by (simp add: xor.assoc)
qed

lemma fnv1a_inj: "fnv1a a bs = fnv1a b bs \<Longrightarrow> a = b"
proof (induction bs arbitrary: a b)
  case (Cons x bs)
  then have "(a XOR ucast x) * 1099511628211 = (b XOR ucast x) * 1099511628211" by auto
  then show ?case by (blast dest: fnv_prime_inj xor_cancel)
qed simp

lemma fnv1a_byte: "x \<noteq> y \<Longrightarrow> fnv1a h (pre @ x # post) \<noteq> fnv1a h (pre @ y # post)"
proof
  assume xy: "x \<noteq> y" and eq: "fnv1a h (pre @ x # post) = fnv1a h (pre @ y # post)"
  have "fnv1a (fnv1a h pre) [x] = fnv1a (fnv1a h pre) [y]"
    by (rule fnv1a_inj [of _ post]) (use eq in \<open>simp add: fnv1a_append\<close>)
  then have "(fnv1a h pre XOR ucast x) = (fnv1a h pre XOR ucast y)" by (simp add: fnv_prime_inj)
  then have "(ucast x :: u64) XOR fnv1a h pre = ucast y XOR fnv1a h pre" by (simp add: xor.commute)
  then have "(ucast x :: u64) = ucast y" by (rule xor_cancel)
  moreover have "unat (ucast x :: u64) = unat x" "unat (ucast y :: u64) = unat y" 
    by (simp_all add: unsigned_ucast_eq take_bit_nat_eq_self_iff unsigned_less [THEN less_trans])
  ultimately show False using xy by (metis unsigned_word_eqI)
qed

section \<open>Properties\<close>

text \<open>Saving and loading the cache gives the same cache back: when names are what a host
  name can be (no blank, no NUL, not a comment, shorter than 256), times fit in 64 bits and the cache
  satisfies its invariant, what a successful save writes is loaded as exactly that cache.\<close>

theorem discovery_save_load:
  assumes "cache_inv cache" "list_all entry_ok cache" "discovery_cache_save_file cache = Some file"
  shows "discovery_cache_load_file (Contents file) = (cache, 0) \<and> length file < 16384"
proof -
  let ?s = "concat (map cache_line cache)"
  have "length ?s < 16384"
  proof (rule ccontr)
    assume big: "\<not> length ?s < 16384"
    then have "cache \<noteq> []" by (cases cache) auto
    then show False
      using assms(3) big by (simp add: discovery_cache_save_file_def discovery_cache_serialize_eq Let_def)
  qed
  then have "file = ?s" "length ?s < 16384"
    using assms(3) by (auto simp: discovery_cache_save_file_def discovery_cache_serialize_eq Let_def split: if_splits)
  then show ?thesis
    using cache_parse_lines_concat [of cache "[]" 0] assms(1,2)
    by (simp add: discovery_cache_load_file_def discovery_cache_parse_def discovery_cache_init_def)
qed

theorem discovery_save_load_witness:
  "\<exists>cache file. length cache = 2 \<and> discovery_cache_save_file cache = Some file \<and>
     discovery_cache_load_file (Contents file) = (cache, 0)"
proof -
  define cache where "cache =
    [\<lparr>de_domain = ''a.io'', de_chain = [STRATEGY_FAKE, STRATEGY_SPLIT], de_fingerprint = 0xFE, de_validated_at = 1700000000\<rparr>,
     \<lparr>de_domain = ''b.io'', de_chain = [STRATEGY_PASS], de_fingerprint = 7, de_validated_at = -3\<rparr>]"
  have "list_all (\<lambda>e. length (de_domain e) < 256 \<and> length (de_chain e) \<le> 2 \<and> entry_ok e) cache"
    unfolding cache_def entry_ok_def by code_simp
  moreover have "strategy_chain_is_safe [STRATEGY_FAKE, STRATEGY_SPLIT]" "strategy_chain_is_safe [STRATEGY_PASS]" by code_simp+
  moreover have "map tolower_c ''a.io'' \<noteq> map tolower_c ''b.io''" by code_simp
  ultimately have inv: "cache_inv cache" "list_all entry_ok cache"
    by (simp_all add: cache_inv_def cache_def DISCOVERY_CACHE_MAX_def STRATEGY_DOMAIN_MAX_def)
  have "list_all (\<lambda>e. length (cache_line e) \<le> length (de_domain e) + 52) cache"
    using inv cache_line_length by (auto simp: cache_inv_def list_all_iff)
  then have "length (concat (map cache_line cache)) < 16384 \<and> concat (map cache_line cache) \<noteq> []"
    by (simp add: cache_def) (simp add: cache_line_def)
  then have "discovery_cache_save_file cache = Some (concat (map cache_line cache))"
    by (simp add: discovery_cache_save_file_def discovery_cache_serialize_eq Let_def)
  then obtain fl where f: "discovery_cache_save_file cache = Some fl" by blast
  show ?thesis
    using discovery_save_load [OF inv f] f by (intro exI [of _ cache] exI [of _ fl]) (simp add: cache_def)
qed

text \<open>The chain for a host: a manual rule always wins; otherwise the cached outcome, and
  only when it was recorded for this host (in any letter case) on this very network, the network is
  known, and it is at most a day old and not from the future; otherwise the default.\<close>

theorem resolve_precedence:
  "strategy_resolve_chain cfg cache fp now d =
    (case strategy_has_explicit_rule cfg d of
       Some chain \<Rightarrow> (STRATEGY_SOURCE_MANUAL, chain, None)
     | None \<Rightarrow>
        (case cache of None \<Rightarrow> (STRATEGY_SOURCE_DEFAULT, [default_strategy cfg], None)
         | Some c \<Rightarrow>
            (case List.find (\<lambda>e. ieq (de_domain e) d) c of
               Some e \<Rightarrow>
                 if fp \<noteq> 0 \<and> de_fingerprint e = fp \<and> de_validated_at e \<le> now \<and> now \<le> de_validated_at e + 86400
                 then (STRATEGY_SOURCE_AUTO, de_chain e, Some e)
                 else (STRATEGY_SOURCE_DEFAULT, [default_strategy cfg], None)
             | None \<Rightarrow> (STRATEGY_SOURCE_DEFAULT, [default_strategy cfg], None))))"
  by (auto simp: strategy_resolve_chain_def discovery_cache_lookup_def NETFP_UNKNOWN_def
      DISCOVERY_CACHE_DEFAULT_TTL_SECONDS_def split: option.splits)

text \<open>An outcome that was accepted by the cache is found again on the same network for as
  long as it is fresh, also through later writes for other hosts; on another network, on an
  unknown one, or once stale it is not.\<close>

theorem cache_set_lookup:
  assumes "discovery_cache_set d chain fp t cache = Some cache'" "list_all (\<lambda>kv. \<not> ieq (fst kv) d) later"
  shows "map_option de_chain (discovery_cache_lookup (cache_table.puts later cache') d fp' ttl now) =
    (if fp' = fp \<and> fp \<noteq> NETFP_UNKNOWN \<and> t \<le> now \<and> now \<le> t + ttl then Some chain else None)"
proof -
  have "cache_at (cache_table.puts later cache') d = Some (chain, fp, t)"
    using cache_table.puts_unrelated [OF assms(2), of cache'] cache_table.get_put [of d "(chain, fp, t)" cache cache' d] assms(1)
    by simp
  then show ?thesis by (auto simp: map_option_lookup)
qed

theorem cache_set_lookup_witness:
  "map_option de_chain (discovery_cache_lookup (cache_table.puts [(''b.io'', ([STRATEGY_PASS], 9, 5))]
     [\<lparr>de_domain = ''a.io'', de_chain = [STRATEGY_FAKE], de_fingerprint = 9, de_validated_at = 4\<rparr>]) ''a.io'' 9 60 10) =
   Some [STRATEGY_FAKE]"
proof -
  have "discovery_cache_set ''a.io'' [STRATEGY_FAKE] 9 4 [] =
      Some [\<lparr>de_domain = ''a.io'', de_chain = [STRATEGY_FAKE], de_fingerprint = 9, de_validated_at = 4\<rparr>]" by code_simp
  moreover have "list_all (\<lambda>kv. \<not> ieq (fst kv) ''a.io'') [(''b.io'', ([STRATEGY_PASS], 9 :: u64, 5 :: int))]" by code_simp
  ultimately show ?thesis
    using cache_set_lookup [of "''a.io''" "[STRATEGY_FAKE]" 9 4 "[]" _ "[(''b.io'', ([STRATEGY_PASS], 9, 5))]" 9 60 10]
    by (simp add: NETFP_UNKNOWN_def)
qed

text \<open>Whatever the file holds, a loaded cache satisfies its invariant: at most 256 entries,
  names that fit their buffer, only whitelisted chains, and one entry per host name.\<close>

theorem discovery_load_inv: "cache_inv (fst (discovery_cache_load_file f))"
proof -
  have "cache_inv discovery_cache_init" by (simp add: cache_inv_def discovery_cache_init_def)
  then show ?thesis
    by (cases f) (simp_all add: discovery_cache_load_file_def discovery_cache_parse_def cache_parse_lines_inv)
qed

text \<open>A discovery run, with any prober: the candidates are tried in the order of the
  ladder, one or two times each (a second time only after a rejection or a timeout), at most 14
  probes in all. It stops at the first success and returns that candidate; without one, every
  candidate of the ladder was tried. The log of calls does not influence the run.\<close>

theorem discovery_run_correct:
  "\<exists>rss found r log u'.
     discovery_run domain (logged p) ([], u) timeout_ms = ((found, r), (log, u')) \<and>
     discovery_run domain p u timeout_ms = ((found, r), u') \<and>
     log = attempts g_discovery_ladder rss \<and> length log \<le> 14 \<and> run_outcome g_discovery_ladder rss found"
proof -
  obtain rss found r u' where run: "run_ladder (logged p) domain timeout_ms g_discovery_ladder PROBE_LOCAL_ERROR ([], u) =
        ((found, r), ([] @ attempts g_discovery_ladder rss, u'))"
      "run_ladder p domain timeout_ms g_discovery_ladder PROBE_LOCAL_ERROR u = ((found, r), u')"
      "run_outcome g_discovery_ladder rss found"
    using run_ladder_logged [of p domain timeout_ms g_discovery_ladder PROBE_LOCAL_ERROR "[]" u] by blast
  have "list_all (\<lambda>rs. length rs \<le> 2) rss"
    using run(3) by (auto simp: run_outcome_def candidate_results_def list_all_iff DISCOVERY_MAX_ATTEMPTS_PER_CANDIDATE_def)
  then have "length (attempts g_discovery_ladder rss) \<le> 14"
    using attempts_length [of 2 rss g_discovery_ladder] by (simp add: g_discovery_ladder_def)
  then show ?thesis using run by (auto simp: discovery_run_def)
qed

text \<open>The fingerprint of a network is never the reserved value for an unknown network, and
  two gateways whose MAC addresses differ in one byte give different hashes before that value is
  remapped.\<close>

theorem netfingerprint_distinguishes:
  "netfingerprint_hash profile gw_raw gw_mac \<noteq> NETFP_UNKNOWN \<and>
   (x \<noteq> y \<longrightarrow>
    (let a = netfingerprint_hash profile gw_raw (Some (pre @ x # post));
         b = netfingerprint_hash profile gw_raw (Some (pre @ y # post)) in
     a \<noteq> b \<or> a = 1))"
proof -
  define h1 where "h1 = fnv1a (fnv1a 1469598103934665603 (str_bytes (np_iface profile))) (le32 gw_raw)"
  define rest where "rest = le32 (link_type_code (np_link_type profile)) @ str_bytes (np_ssid profile) @
    le32 (of_bool (np_has_ipv4_default profile)) @ le32 (of_bool (np_has_ipv6_default profile))"
  have eq: "netfingerprint_hash profile gw_raw (Some mac) =
      (let h = fnv1a h1 (mac @ rest) in if h = NETFP_UNKNOWN then 1 else h)" for mac
    by (simp add: netfingerprint_hash_def h1_def rest_def fnv1a_append Let_def)
  have "(if h = 0 then 1 else h) \<noteq> 0" for h :: u64 by simp
  then have "netfingerprint_hash profile gw_raw gw_mac \<noteq> NETFP_UNKNOWN"
    unfolding netfingerprint_hash_def NETFP_UNKNOWN_def Let_def by blast
  moreover have "x \<noteq> y \<Longrightarrow> fnv1a h1 (pre @ x # (post @ rest)) \<noteq> fnv1a h1 (pre @ y # (post @ rest))" by (rule fnv1a_byte)
  ultimately show ?thesis by (simp add: eq Let_def)
qed

theorem netfingerprint_distinguishes_witness:
  "let p = \<lparr>np_iface = ''eth0'', np_link_type = LINK_ETHERNET, np_ssid = [], np_has_ipv4_default = True, np_has_ipv6_default = False\<rparr>;
       a = netfingerprint_hash p 0x0101A8C0 (Some [2, 0, 0, 0, 0, 1]); b = netfingerprint_hash p 0x0101A8C0 (Some [2, 0, 0, 0, 0, 2])
   in a \<noteq> b \<or> a = 1"
  using netfingerprint_distinguishes [of _ "0x0101A8C0" None 1 2 "[2, 0, 0, 0, 0]" "[]"] by (simp add: Let_def)

end
