(* ===== verification/Engine.thy ===== *)
theory Engine
  imports Fragment Tls Http Flow Discovery
begin

text \<open>
  \<open>src/nfqueue/nfqueue_engine.c\<close>: what packet mode does with a queued packet. The context is the
  record \<open>engine_ctx\<close>; what the callback does to the outside world is a trace of raw-socket
  injections and queue verdicts. Whether a raw send succeeds is a parameter, a function of the trace
  so far and of the bytes. Log output is not modelled; the statistics are. \<^const>\<open>None\<close> is an access
  outside a buffer.
\<close>

section \<open>State\<close>

datatype log_level = LOG_ERROR | LOG_WARN | LOG_INFO | LOG_DEBUG

record engine_stats =
  packets_seen :: nat
  packets_passed :: nat
  packets_split :: nat
  packets_disorder :: nat
  packets_fragment :: nat
  fake_decoys_sent :: nat
  parse_failures :: nat
  unsupported_packets :: nat
  flows_created :: nat
  flows_expired :: nat
  raw_send_failures :: nat

record engine_ctx =
  ec_flows :: flow_table
  ec_strategies :: strategy_config
  ec_discovered :: discovery_cache
  ec_fingerprint :: u64
  ec_fingerprint_checked_at :: int
  ec_stats :: engine_stats

datatype verdict = NF_ACCEPT | NF_DROP

datatype action = Inject bytes bool | Verdict verdict

type_synonym trace = "action list"
type_synonym sender = "trace \<Rightarrow> bytes \<Rightarrow> bool"

definition zero_stats :: engine_stats where
  "zero_stats = \<lparr>packets_seen = 0, packets_passed = 0, packets_split = 0, packets_disorder = 0, packets_fragment = 0,
     fake_decoys_sent = 0, parse_failures = 0, unsupported_packets = 0, flows_created = 0, flows_expired = 0,
     raw_send_failures = 0\<rparr>"

abbreviation upd_stats :: "(engine_stats \<Rightarrow> engine_stats) \<Rightarrow> engine_ctx \<Rightarrow> engine_ctx" where
  "upd_stats f ctx \<equiv> ctx\<lparr>ec_stats := f (ec_stats ctx)\<rparr>"

section \<open>Operations\<close>

text \<open>The two environment variables; \<^const>\<open>None\<close> is an unset one.\<close>

definition log_level_from_env :: "string option \<Rightarrow> string option \<Rightarrow> log_level" where
  "log_level_from_env dpi_proxy_debug dpi_proxy_log_level =
     (if dpi_proxy_debug \<noteq> None then LOG_DEBUG
      else case dpi_proxy_log_level of
        None \<Rightarrow> LOG_WARN
      | Some env \<Rightarrow>
          if env = ''error'' then LOG_ERROR
          else if env = ''warn'' then LOG_WARN
          else if env = ''info'' then LOG_INFO
          else if env = ''debug'' then LOG_DEBUG
          else LOG_WARN)"

definition build_flow_key_v4 :: "ipv4_view \<Rightarrow> tcp_view \<Rightarrow> flow_key option" where
  "build_flow_key_v4 ip tcp = do {
     src \<leftarrow> sub_buf (ip4_header ip) 12 4;
     dst \<leftarrow> sub_buf (ip4_header ip) 16 4;
     sp \<leftarrow> rd16 (tcp_header tcp) 0;
     dp \<leftarrow> rd16 (tcp_header tcp) 2;
     Some \<lparr>fk_family = 4, fk_src_addr = src @ replicate 12 0, fk_dst_addr = dst @ replicate 12 0,
           fk_src_port = sp, fk_dst_port = dp\<rparr>
   }"

definition build_flow_key_v6 :: "ipv6_view \<Rightarrow> tcp_view \<Rightarrow> flow_key option" where
  "build_flow_key_v6 ip tcp = do {
     src \<leftarrow> sub_buf (ip6_header ip) 8 16;
     dst \<leftarrow> sub_buf (ip6_header ip) 24 16;
     sp \<leftarrow> rd16 (tcp_header tcp) 0;
     dp \<leftarrow> rd16 (tcp_header tcp) 2;
     Some \<lparr>fk_family = 6, fk_src_addr = src, fk_dst_addr = dst, fk_src_port = sp, fk_dst_port = dp\<rparr>
   }"

text \<open>The C string in the host buffer after a parser has written these bytes.\<close>

definition host_string :: "bytes \<Rightarrow> string" where
  "host_string h = cstr (map (\<lambda>b. char_of (unat b)) h)"

text \<open>The flow, the class and the host buffer, which was empty. \<open>host\<close> holds 256 bytes.\<close>

definition classify :: "flow_entry \<Rightarrow> bytes \<Rightarrow> nat \<Rightarrow> (flow_entry \<times> flow_class \<times> string) option" where
  "classify flow payload host_out_size =
     (if fe_classification_done flow \<or> length payload = 0 then Some (flow, FLOW_UNCLASSIFIED, [])
      else case flow_reasm_append flow payload of
        None \<Rightarrow> Some (flow\<lparr>fe_classification_done := True, fe_class_hint := FLOW_PASSTHROUGH\<rparr>, FLOW_PASSTHROUGH, [])
      | Some flow \<Rightarrow> do {
          status \<leftarrow> tls_parse_client_hello_sni (fe_reasm flow) host_out_size;
          case status of
            Inr host \<Rightarrow> Some (flow\<lparr>fe_classification_done := True, fe_class_hint := FLOW_TLS\<rparr>, FLOW_TLS, host_string host)
          | Inl e \<Rightarrow>
              if e = PACKET_ERR_TRUNCATED then Some (flow, FLOW_UNCLASSIFIED, [])
              else do {
                status \<leftarrow> http_parse_host (fe_reasm flow) host_out_size;
                case status of
                  Inr host \<Rightarrow> Some (flow\<lparr>fe_classification_done := True, fe_class_hint := FLOW_HTTP\<rparr>, FLOW_HTTP, host_string host)
                | Inl e \<Rightarrow>
                    if e = PACKET_ERR_TRUNCATED then Some (flow, FLOW_UNCLASSIFIED, [])
                    else Some (flow\<lparr>fe_classification_done := True, fe_class_hint := FLOW_PASSTHROUGH\<rparr>, FLOW_PASSTHROUGH, [])
              }
        })"

definition inject_or_log :: "sender \<Rightarrow> bytes \<Rightarrow> engine_ctx \<times> trace \<Rightarrow> bool \<times> engine_ctx \<times> trace" where
  "inject_or_log send buf s =
     (case s of (ctx, tr) \<Rightarrow>
      let ok = send tr buf;
          ctx = (if \<not> ok then upd_stats (raw_send_failures_update Suc) ctx else ctx) in
      (ok, ctx, tr @ [Inject buf ok]))"

text \<open>\<open>inject(a) && inject(b)\<close>: the second packet is sent only when the first was.\<close>

definition inject_both :: "sender \<Rightarrow> bytes \<Rightarrow> bytes \<Rightarrow> engine_ctx \<times> trace \<Rightarrow> bool \<times> engine_ctx \<times> trace" where
  "inject_both send a b s =
     (case inject_or_log send a s of (ok, s) \<Rightarrow> if ok then inject_or_log send b s else (False, s))"

definition set_verdict :: "verdict \<Rightarrow> engine_ctx \<times> trace \<Rightarrow> engine_ctx \<times> trace" where
  "set_verdict v s = (fst s, snd s @ [Verdict v])"

text \<open>\<^const>\<open>None\<close> inside is \<open>have_decoy == 0\<close>.\<close>

definition build_decoy :: "engine_ctx \<Rightarrow> bytes \<Rightarrow> bytes option option" where
  "build_decoy ctx template_pkt = do {
     r \<leftarrow> packet_make_fake_tcp_v4 template_pkt (fake_ttl (ec_strategies ctx));
     case r of Inl _ \<Rightarrow> Some None | Inr out \<Rightarrow> Some (Some out)
   }"

definition inject_decoy :: "sender \<Rightarrow> bytes option \<Rightarrow> engine_ctx \<times> trace \<Rightarrow> engine_ctx \<times> trace" where
  "inject_decoy send decoy s = (case decoy of None \<Rightarrow> s | Some d \<Rightarrow> snd (inject_or_log send d s))"

definition bump :: "bool \<Rightarrow> (engine_stats \<Rightarrow> engine_stats) \<Rightarrow> engine_ctx \<times> trace \<Rightarrow> engine_ctx \<times> trace" where
  "bump b f s = (if b then (upd_stats f (fst s), snd s) else s)"

text \<open>The first component is the result: \<^const>\<open>True\<close> when the verdict was given here.\<close>

definition try_apply_chain ::
  "sender \<Rightarrow> bytes \<Rightarrow> tcp_view \<Rightarrow> strategy_chain \<Rightarrow> engine_ctx \<times> trace \<Rightarrow> (bool \<times> engine_ctx \<times> trace) option" where
  "try_apply_chain send raw tcp chain s =
     (if chain = [STRATEGY_FAKE] then do {
        decoy \<leftarrow> build_decoy (fst s) raw;
        case decoy of
          None \<Rightarrow> Some (False, s)
        | Some d \<Rightarrow> (case inject_or_log send d s of (ok, s) \<Rightarrow> Some (False, bump ok (fake_decoys_sent_update Suc) s))
      }
      else do {
        split_offset \<leftarrow> tls_find_sni_split (tcp_payload tcp);
        if split_offset \<le> 0 \<or> nat split_offset \<ge> length (tcp_payload tcp) then Some (False, s)
        else if chain = [STRATEGY_FRAGMENT] then do {
          r \<leftarrow> packet_fragment_ipv4 raw (nat split_offset);
          case r of
            Inl _ \<Rightarrow> Some (False, s)
          | Inr (seg1, seg2) \<Rightarrow>
              (case inject_both send seg1 seg2 s of (ok, s) \<Rightarrow>
                 Some (True, set_verdict NF_DROP (bump ok (packets_fragment_update Suc) s)))
        }
        else do {
          r \<leftarrow> packet_split_tcp_v4 raw (nat split_offset);
          case r of
            Inl _ \<Rightarrow> Some (False, s)
          | Inr (seg1, seg2) \<Rightarrow>
              if chain = [STRATEGY_SPLIT] then
                (case inject_both send seg1 seg2 s of (ok, s) \<Rightarrow>
                   Some (True, set_verdict NF_DROP (bump ok (packets_split_update Suc) s)))
              else if chain = [STRATEGY_DISORDER] then
                (case inject_both send seg2 seg1 s of (ok, s) \<Rightarrow>
                   Some (True, set_verdict NF_DROP (bump ok (packets_disorder_update Suc) s)))
              else if chain = [STRATEGY_FAKE, STRATEGY_SPLIT] then do {
                decoy \<leftarrow> build_decoy (fst s) raw;
                let s = inject_decoy send decoy s;
                case inject_both send seg1 seg2 s of (ok, s) \<Rightarrow>
                  Some (True, set_verdict NF_DROP
                    (bump (decoy \<noteq> None) (fake_decoys_sent_update Suc) (bump ok (packets_split_update Suc) s)))
              }
              else if chain = [STRATEGY_SPLIT, STRATEGY_FAKE] then do {
                decoy \<leftarrow> build_decoy (fst s) seg2;
                let s = snd (inject_or_log send seg1 s);
                let s = inject_decoy send decoy s;
                case inject_or_log send seg2 s of (ok, s) \<Rightarrow>
                  Some (True, set_verdict NF_DROP
                    (bump (decoy \<noteq> None) (fake_decoys_sent_update Suc) (bump ok (packets_split_update Suc) s)))
              }
              else Some (False, s)
        }
      })"

text \<open>\<open>packets_passed++\<close> and \<open>NF_ACCEPT\<close>.\<close>

definition accept :: "engine_ctx \<times> trace \<Rightarrow> engine_ctx \<times> trace" where
  "accept s = set_verdict NF_ACCEPT (bump True (packets_passed_update Suc) s)"

text \<open>The block both families share: find the flow, restart it on a new SYN, and classify an in-order
  segment. The result is the context, the index of the flow, the class and the host buffer.\<close>

definition track_flow :: "flow_key \<Rightarrow> tcp_view \<Rightarrow> int \<Rightarrow> engine_ctx \<Rightarrow> (engine_ctx \<times> nat \<times> flow_class \<times> string) option" where
  "track_flow key tcp now ctx =
     (let flow_count_before = ft_live_count (ec_flows ctx) in
      case flow_lookup_or_create (ec_flows ctx) key now of (flows, i) \<Rightarrow>
      let created = (ft_live_count flows \<noteq> flow_count_before);
          stats = (if created then flows_created_update Suc (ec_stats ctx) else ec_stats ctx);
          flow = ft_entries flows ! i;
          flow = (if \<not> created \<and> tcp_flags tcp AND TCP_FLAG_SYN \<noteq> 0 \<and> tcp_flags tcp AND TCP_FLAG_ACK = 0
                  then flow_restart flow now else flow) in
      case flow_seq_is_next flow (tcp_seq tcp) (length (tcp_payload tcp)) of (flow, is_next) \<Rightarrow> do {
        (flow, classified, host) \<leftarrow>
          (if is_next then classify flow (tcp_payload tcp) 256 else Some (flow, FLOW_UNCLASSIFIED, []));
        Some (ctx\<lparr>ec_flows := flows\<lparr>ft_entries := (ft_entries flows)[i := flow]\<rparr>, ec_stats := stats\<rparr>, i, classified, host)
      })"

text \<open>From the choice of the chain to the verdict.\<close>

definition finish_packet ::
  "sender \<Rightarrow> bytes \<Rightarrow> bool \<Rightarrow> tcp_view \<Rightarrow> int \<Rightarrow> engine_ctx \<times> nat \<times> flow_class \<times> string \<Rightarrow> trace \<Rightarrow>
   (engine_ctx \<times> trace) option" where
  "finish_packet send raw is_v4 tcp now tracked tr =
     (case tracked of (ctx, i, classified, host) \<Rightarrow>
      let flow = ft_entries (ec_flows ctx) ! i;
          decided = (case strategy_resolve_chain (ec_strategies ctx) (Some (ec_discovered ctx)) (ec_fingerprint ctx) now host of
                       (source, chain, _) \<Rightarrow> chain);
          chain = (if host \<noteq> [] then decided
                   else if fe_strategy_decided flow then fe_chain flow else [STRATEGY_PASS]);
          strat = (if host \<noteq> [] then decided ! 0
                   else if fe_strategy_decided flow then fe_strategy flow else STRATEGY_PASS);
          flow = (if host \<noteq> [] then flow\<lparr>fe_strategy := strat, fe_chain := chain, fe_strategy_decided := True\<rparr> else flow);
          flows = (ec_flows ctx)\<lparr>ft_entries := (ft_entries (ec_flows ctx))[i := flow]\<rparr> in
      case flow_evict_expired flows now FLOW_DEFAULT_TIMEOUT_SECONDS of (flows, evicted) \<Rightarrow>
      let ctx = ctx\<lparr>ec_flows := flows, ec_stats := flows_expired_update (\<lambda>n. n + evicted) (ec_stats ctx)\<rparr>;
          flow = ft_entries flows ! i in
      if is_v4 \<and> classified = FLOW_TLS \<and> strat \<noteq> STRATEGY_PASS \<and> length (fe_reasm flow) = length (tcp_payload tcp)
      then do {
        (handled, s) \<leftarrow> try_apply_chain send raw tcp chain (ctx, tr);
        if handled then Some s else Some (accept s)
      }
      else Some (accept (ctx, tr)))"

text \<open>A packet that is not IP, not TCP or does not parse.\<close>

definition reject_packet :: "packet_status \<Rightarrow> engine_ctx \<times> trace \<Rightarrow> (engine_ctx \<times> trace) option" where
  "reject_packet st s = Some (accept (bump True
     (if st = PACKET_ERR_UNSUPPORTED then unsupported_packets_update Suc else parse_failures_update Suc) s))"

definition packet_callback :: "sender \<Rightarrow> bytes \<Rightarrow> int \<Rightarrow> engine_ctx \<times> trace \<Rightarrow> (engine_ctx \<times> trace) option" where
  "packet_callback send raw now s0 =
     (let s = bump True (packets_seen_update Suc) s0 in
      if length raw < 1 then Some (accept s)
      else do {
        b0 \<leftarrow> rd8 raw 0;
        if drop_bit 4 b0 = 4 then do {
          r \<leftarrow> packet_parse_ipv4 raw;
          case r of
            Inl st \<Rightarrow> reject_packet st s
          | Inr ip4 \<Rightarrow>
              if ip4_protocol ip4 \<noteq> 6 then reject_packet PACKET_ERR_UNSUPPORTED s
              else do {
                t \<leftarrow> packet_parse_tcp (ip4_payload ip4);
                case t of
                  Inl _ \<Rightarrow> reject_packet PACKET_ERR_MALFORMED s
                | Inr tcp \<Rightarrow> do {
                    key \<leftarrow> build_flow_key_v4 ip4 tcp;
                    tracked \<leftarrow> track_flow key tcp now (fst s);
                    finish_packet send raw True tcp now tracked (snd s)
                  }
              }
        }
        else if drop_bit 4 b0 = 6 then do {
          r \<leftarrow> packet_parse_ipv6 raw;
          case r of
            Inl st \<Rightarrow> reject_packet st s
          | Inr ip6 \<Rightarrow> do {
              t \<leftarrow> packet_parse_tcp (ip6_payload ip6);
              case t of
                Inl _ \<Rightarrow> reject_packet PACKET_ERR_MALFORMED s
              | Inr tcp \<Rightarrow> do {
                  key \<leftarrow> build_flow_key_v6 ip6 tcp;
                  tracked \<leftarrow> track_flow key tcp now (fst s);
                  finish_packet send raw False tcp now tracked (snd s)
                }
            }
        }
        else reject_packet PACKET_ERR_UNSUPPORTED s
      })"

section \<open>Configuration\<close>

definition FINGERPRINT_RETRY_SECONDS :: int where "FINGERPRINT_RETRY_SECONDS = 30"

text \<open>A failed read leaves \<open>n\<close> at what was read before, here nothing.\<close>

definition load_strategy_config :: "file_read \<Rightarrow> engine_ctx \<Rightarrow> engine_ctx" where
  "load_strategy_config f ctx =
     (case f of
        Cannot_open \<Rightarrow> ctx
      | Read_error \<Rightarrow> ctx\<lparr>ec_strategies := fst (strategy_config_parse (ec_strategies ctx) [])\<rparr>
      | Contents s \<Rightarrow> ctx\<lparr>ec_strategies := fst (strategy_config_parse (ec_strategies ctx) (take 8191 s))\<rparr>)"

text \<open>\<open>current\<close> is what \<open>netfingerprint_current\<close> returns.\<close>

definition load_discovery_cache :: "file_read \<Rightarrow> u64 \<Rightarrow> int \<Rightarrow> engine_ctx \<Rightarrow> engine_ctx" where
  "load_discovery_cache f current now ctx =
     ctx\<lparr>ec_discovered := fst (discovery_cache_load_file f), ec_fingerprint := current, ec_fingerprint_checked_at := now\<rparr>"

definition maybe_refresh_unknown_fingerprint :: "u64 \<Rightarrow> int \<Rightarrow> engine_ctx \<Rightarrow> engine_ctx" where
  "maybe_refresh_unknown_fingerprint current now ctx =
     (if ec_fingerprint ctx \<noteq> NETFP_UNKNOWN then ctx
      else if now - ec_fingerprint_checked_at ctx < FINGERPRINT_RETRY_SECONDS then ctx
      else ctx\<lparr>ec_fingerprint := current, ec_fingerprint_checked_at := now\<rparr>)"

definition reload_strategies :: "file_read \<Rightarrow> file_read \<Rightarrow> u64 \<Rightarrow> int \<Rightarrow> engine_ctx \<Rightarrow> engine_ctx" where
  "reload_strategies conf cache current now ctx =
     (let ctx = ctx\<lparr>ec_strategies := strategy_config_init\<rparr>;
          ctx = load_strategy_config conf ctx;
          ctx = load_discovery_cache cache current now ctx in
      ctx\<lparr>ec_flows := fst (flow_invalidate_decisions (ec_flows ctx))\<rparr>)"

text \<open>The context \<open>nfqueue_engine_run\<close> enters its loop with.\<close>

definition engine_init :: "file_read \<Rightarrow> file_read \<Rightarrow> u64 \<Rightarrow> int \<Rightarrow> engine_ctx" where
  "engine_init conf cache current now =
     load_discovery_cache cache current now (load_strategy_config conf
       \<lparr>ec_flows = flow_table_init, ec_strategies = strategy_config_init, ec_discovered = discovery_cache_init,
        ec_fingerprint = 0, ec_fingerprint_checked_at = 0, ec_stats = zero_stats\<rparr>)"

text \<open>The receive loop, as the steps its iterations are made of: a reload, the fingerprint check, and a
  packet taken from the queue.\<close>

inductive engine_step :: "sender \<Rightarrow> engine_ctx \<times> trace \<Rightarrow> engine_ctx \<times> trace \<Rightarrow> bool" for send where
  reload: "engine_step send (ctx, tr) (reload_strategies conf cache current now ctx, tr)"
| refresh: "engine_step send (ctx, tr) (maybe_refresh_unknown_fingerprint current now ctx, tr)"
| packet: "packet_callback send raw now s = Some s' \<Longrightarrow> engine_step send s s'"

inductive engine_reachable :: "sender \<Rightarrow> engine_ctx \<times> trace \<Rightarrow> bool" for send where
  start: "engine_reachable send (engine_init conf cache current now, [])"
| step: "engine_reachable send s \<Longrightarrow> engine_step send s s' \<Longrightarrow> engine_reachable send s'"


section \<open>What a step emits\<close>

text \<open>A step of the callback that only appends to the trace and counts, and leaves the two counters of
  the verdicts alone.\<close>

definition emits :: "engine_ctx \<times> trace \<Rightarrow> engine_ctx \<times> trace \<Rightarrow> trace \<Rightarrow> bool" where
  "emits s s' new \<longleftrightarrow> snd s' = snd s @ new \<and>
     (\<exists>st. fst s' = (fst s)\<lparr>ec_stats := st\<rparr> \<and> packets_seen st = packets_seen (ec_stats (fst s)) \<and>
           packets_passed st = packets_passed (ec_stats (fst s)))"

lemma emits_refl: "emits s s []"
  by (auto simp: emits_def intro: exI [of _ "ec_stats (fst s)"])

lemma emits_trans: "emits s s' a \<Longrightarrow> emits s' s'' b \<Longrightarrow> emits s s'' (a @ b)"
  unfolding emits_def by (elim conjE exE) (simp add: exI)

lemma emits_inject: "inject_or_log send b s = (ok, s') \<Longrightarrow> emits s s' [Inject b ok]"
proof -
  assume r: "inject_or_log send b s = (ok, s')"
  obtain ctx tr where s: "s = (ctx, tr)" by (cases s)
  have "fst s' = ctx\<lparr>ec_stats := if ok then ec_stats ctx else raw_send_failures_update Suc (ec_stats ctx)\<rparr>"
    "snd s' = tr @ [Inject b ok]"
    using r by (auto simp: inject_or_log_def s Let_def)
  then show "emits s s' [Inject b ok]"
    unfolding emits_def s
    by (intro conjI exI [of _ "if ok then ec_stats ctx else raw_send_failures_update Suc (ec_stats ctx)"]) simp_all
qed

lemma emits_bump:
  "emits s (bump b (packets_split_update Suc) s) []" "emits s (bump b (packets_disorder_update Suc) s) []"
  "emits s (bump b (packets_fragment_update Suc) s) []" "emits s (bump b (fake_decoys_sent_update Suc) s) []"
  using emits_refl [of s] by (auto simp: bump_def emits_def)

lemma emits_verdict: "emits s (set_verdict v s) [Verdict v]"
  by (auto simp: emits_def set_verdict_def intro: exI [of _ "ec_stats (fst s)"])

lemma emits_both:
  assumes "inject_both send a b s = (ok, s')"
  shows "\<exists>new. emits s s' new \<and> (new = [Inject a False] \<or> (\<exists>r. new = [Inject a True, Inject b r]))"
proof -
  obtain oa sa where a: "inject_or_log send a s = (oa, sa)" by (cases "inject_or_log send a s")
  obtain ob sb where b: "inject_or_log send b sa = (ob, sb)" by (cases "inject_or_log send b sa")
  show ?thesis
  proof (cases oa)
    case True
    then have "s' = sb" using assms a b by (simp add: inject_both_def)
    then show ?thesis using emits_trans [OF emits_inject [OF a] emits_inject [OF b]] True by auto
  next
    case False
    then show ?thesis using assms a emits_inject [OF a] by (auto simp: inject_both_def)
  qed
qed

lemma emits_decoy:
  "\<exists>new. emits s (inject_decoy send d s) new \<and> (new = [] \<or> (\<exists>b r. d = Some b \<and> new = [Inject b r]))"
proof (cases d)
  case None
  then show ?thesis using emits_refl by (auto simp: inject_decoy_def)
next
  case (Some b)
  obtain r s' where "inject_or_log send b s = (r, s')" by (cases "inject_or_log send b s")
  then show ?thesis using emits_inject [of send b s r s'] Some by (auto simp: inject_decoy_def)
qed

section \<open>Applying a chain\<close>

definition is_decoy :: "byte \<Rightarrow> bytes \<Rightarrow> bytes \<Rightarrow> bool" where
  "is_decoy ttl pkt d \<longleftrightarrow> packet_make_fake_tcp_v4 pkt ttl = Some (Inr d)"

definition cut_in_two :: "bytes \<Rightarrow> nat \<Rightarrow> bytes \<Rightarrow> bytes \<Rightarrow> bool" where
  "cut_in_two raw k s1 s2 \<longleftrightarrow>
     packet_split_tcp_v4 raw k = Some (Inr (s1, s2)) \<or> packet_fragment_ipv4 raw k = Some (Inr (s1, s2))"

text \<open>The injections that replace a dropped packet: only the two pieces of it and decoys, and both
  pieces unless a send failed.\<close>

definition replaced_by :: "byte \<Rightarrow> bytes \<Rightarrow> bytes \<Rightarrow> bytes \<Rightarrow> trace \<Rightarrow> bool" where
  "replaced_by ttl raw s1 s2 injs \<longleftrightarrow>
     list_all (\<lambda>a. case a of Inject b ok \<Rightarrow> b = s1 \<or> b = s2 \<or> is_decoy ttl raw b \<or> is_decoy ttl s2 b | Verdict _ \<Rightarrow> False) injs \<and>
     ((\<exists>b. Inject b False \<in> set injs) \<or> Inject s1 True \<in> set injs \<and> Inject s2 True \<in> set injs)"

text \<open>What \<open>try_apply_chain\<close> may do: return with nothing sent, or after one decoy; or replace the
  packet by its two pieces and drop it.\<close>

definition chain_outcome :: "byte \<Rightarrow> bytes \<Rightarrow> tcp_view \<Rightarrow> engine_ctx \<times> trace \<Rightarrow> bool \<times> engine_ctx \<times> trace \<Rightarrow> bool" where
  "chain_outcome ttl raw tcp s r \<longleftrightarrow>
     (if fst r
      then \<exists>injs k s1 s2. emits s (snd r) (injs @ [Verdict NF_DROP]) \<and>
             tls_find_sni_split (tcp_payload tcp) = Some (int k) \<and> 0 < k \<and> k < length (tcp_payload tcp) \<and>
             cut_in_two raw k s1 s2 \<and> replaced_by ttl raw s1 s2 injs
      else emits s (snd r) [] \<or> (\<exists>d ok. is_decoy ttl raw d \<and> emits s (snd r) [Inject d ok]))"

lemma packet_fragment_ipv4_total: "packet_fragment_ipv4 d k \<noteq> None"
proof (cases "tcp_of_v4 d")
  case (Some v)
  then show ?thesis using packet_fragment_ipv4_eq(1) [of d k] by (simp add: tcp_of_v4_Some)
qed (simp add: packet_fragment_ipv4_bad)

lemma packet_make_fake_tcp_v4_total: "packet_make_fake_tcp_v4 d ttl \<noteq> None"
proof (cases "tcp_of_v4 d")
  case (Some v)
  then show ?thesis using packet_make_fake_tcp_v4_eq [of d ttl] by (simp add: tcp_of_v4_Some)
qed (simp add: packet_make_fake_tcp_v4_bad)

lemma build_decoy_cases:
  "\<exists>d. build_decoy ctx pkt = Some d \<and> (\<forall>b. d = Some b \<longrightarrow> is_decoy (fake_ttl (ec_strategies ctx)) pkt b)"
proof -
  obtain r where r: "packet_make_fake_tcp_v4 pkt (fake_ttl (ec_strategies ctx)) = Some r"
    using packet_make_fake_tcp_v4_total by blast
  then show ?thesis by (cases r) (simp_all add: build_decoy_def is_decoy_def)
qed

lemma emits_bumped:
  assumes "emits s s' new"
  shows "emits s (bump b (packets_split_update Suc) s') new" "emits s (bump b (packets_disorder_update Suc) s') new"
    "emits s (bump b (packets_fragment_update Suc) s') new" "emits s (bump b (fake_decoys_sent_update Suc) s') new"
  using emits_trans [OF assms emits_bump(1)] emits_trans [OF assms emits_bump(2)]
    emits_trans [OF assms emits_bump(3)] emits_trans [OF assms emits_bump(4)] by simp_all

lemma chain_outcome_drop:
  assumes "emits s s' injs" "tls_find_sni_split (tcp_payload tcp) = Some (int k)" "0 < k" "k < length (tcp_payload tcp)"
    and "cut_in_two raw k s1 s2" "replaced_by ttl raw s1 s2 injs"
  shows "chain_outcome ttl raw tcp s (True, set_verdict NF_DROP s')"
proof -
  have "emits s (set_verdict NF_DROP s') (injs @ [Verdict NF_DROP])" by (rule emits_trans [OF assms(1) emits_verdict])
  then show ?thesis using assms(2-) unfolding chain_outcome_def by auto
qed

lemma chain_outcome_fake:
  assumes "is_decoy ttl raw d" "inject_or_log send d s = (ok, s')"
  shows "chain_outcome ttl raw tcp s (False, bump ok (fake_decoys_sent_update Suc) s')"
  using emits_bumped(4) [OF emits_inject [OF assms(2)]] assms(1) unfolding chain_outcome_def by auto

lemma chain_outcome_none: "chain_outcome ttl raw tcp s (False, s)"
  using emits_refl by (simp add: chain_outcome_def)

lemma chain_outcome_both:
  assumes cut: "tls_find_sni_split (tcp_payload tcp) = Some (int k)" "0 < k" "k < length (tcp_payload tcp)" "cut_in_two raw k s1 s2"
    and "emits s s0 pre" "pre = [] \<or> (\<exists>d r. pre = [Inject d r] \<and> is_decoy ttl raw d)"
    and "inject_both send a b s0 = (ok, s')" "a = s1 \<and> b = s2 \<or> a = s2 \<and> b = s1"
    and f: "f \<in> {packets_split_update Suc, packets_disorder_update Suc, packets_fragment_update Suc}"
  shows "chain_outcome ttl raw tcp s (True, set_verdict NF_DROP (bump dk (fake_decoys_sent_update Suc) (bump ok f s')))"
proof -
  obtain new where n: "emits s0 s' new" "new = [Inject a False] \<or> (\<exists>r. new = [Inject a True, Inject b r])"
    using emits_both [OF assms(7)] by blast
  have "emits s s' (pre @ new)" by (rule emits_trans [OF assms(5) n(1)])
  then have "emits s (bump ok f s') (pre @ new)" using f emits_bumped by blast
  then have e: "emits s (bump dk (fake_decoys_sent_update Suc) (bump ok f s')) (pre @ new)" by (rule emits_bumped)
  have "replaced_by ttl raw s1 s2 (pre @ new)"
    using n(2) assms(6,8) unfolding replaced_by_def by (elim disjE exE conjE) auto
  then show ?thesis by (rule chain_outcome_drop [OF e cut])
qed

lemma chain_outcome_interleaved:
  assumes cut: "tls_find_sni_split (tcp_payload tcp) = Some (int k)" "0 < k" "k < length (tcp_payload tcp)" "cut_in_two raw k s1 s2"
    and d: "\<And>b. d = Some b \<Longrightarrow> is_decoy ttl s2 b"
    and i: "inject_or_log send s2 (inject_decoy send d (snd (inject_or_log send s1 s))) = (ok, s')"
  shows "chain_outcome ttl raw tcp s
    (True, set_verdict NF_DROP (bump dk (fake_decoys_sent_update Suc) (bump ok (packets_split_update Suc) s')))"
proof -
  obtain o1 sa where a: "inject_or_log send s1 s = (o1, sa)" by (cases "inject_or_log send s1 s")
  obtain mid where m: "emits sa (inject_decoy send d sa) mid" "mid = [] \<or> (\<exists>b r. d = Some b \<and> mid = [Inject b r])"
    using emits_decoy by blast
  have "emits s s' (([Inject s1 o1] @ mid) @ [Inject s2 ok])"
    using emits_trans [OF emits_trans [OF emits_inject [OF a] m(1)] emits_inject] i a by simp
  then have e: "emits s (bump dk (fake_decoys_sent_update Suc) (bump ok (packets_split_update Suc) s'))
      (([Inject s1 o1] @ mid) @ [Inject s2 ok])" by (intro emits_bumped)
  have "replaced_by ttl raw s1 s2 (([Inject s1 o1] @ mid) @ [Inject s2 ok])"
    using m(2) d unfolding replaced_by_def by (elim disjE exE conjE) (cases o1; cases ok; auto)+
  then show ?thesis by (rule chain_outcome_drop [OF e cut])
qed

lemma bump_False [simp]: "bump False f s = s"
  by (simp add: bump_def)

lemma try_apply_chain_split:
  assumes notfake: "chain \<noteq> [STRATEGY_FAKE]" "chain \<noteq> [STRATEGY_FRAGMENT]"
    and k: "tls_find_sni_split (tcp_payload tcp) = Some (int k)" "0 < k" "k < length (tcp_payload tcp)"
    and r: "packet_split_tcp_v4 raw k = Some (Inr (s1, s2))"
  shows "\<exists>r. try_apply_chain send raw tcp chain s = Some r \<and> chain_outcome (fake_ttl (ec_strategies (fst s))) raw tcp s r"
proof -
  let ?ttl = "fake_ttl (ec_strategies (fst s))"
  have cut: "cut_in_two raw k s1 s2" using r by (simp add: cut_in_two_def)
  note both = chain_outcome_both [OF k cut]
  have kn: "k \<noteq> 0" "\<not> length (tcp_payload tcp) \<le> k" using k by simp_all
  note unf = try_apply_chain_def notfake k(1) kn r
  have ?thesis if c: "chain = [STRATEGY_SPLIT]"
  proof -
    obtain ok s' where i: "inject_both send s1 s2 s = (ok, s')" by (cases "inject_both send s1 s2 s")
    show ?thesis
      using both [OF emits_refl [of s], of ?ttl send s1 s2 ok s' "packets_split_update Suc" False] i c by (auto simp: unf)
  qed
  moreover have ?thesis if c: "chain = [STRATEGY_DISORDER]"
  proof -
    obtain ok s' where i: "inject_both send s2 s1 s = (ok, s')" by (cases "inject_both send s2 s1 s")
    show ?thesis
      using both [OF emits_refl [of s], of ?ttl send s2 s1 ok s' "packets_disorder_update Suc" False] i c by (auto simp: unf)
  qed
  moreover have ?thesis if c: "chain = [STRATEGY_FAKE, STRATEGY_SPLIT]"
  proof -
    obtain d where d: "build_decoy (fst s) raw = Some d" "\<And>b. d = Some b \<Longrightarrow> is_decoy ?ttl raw b"
      using build_decoy_cases by blast
    obtain pre where pre: "emits s (inject_decoy send d s) pre" "pre = [] \<or> (\<exists>b r. d = Some b \<and> pre = [Inject b r])"
      using emits_decoy by blast
    obtain ok s' where i: "inject_both send s1 s2 (inject_decoy send d s) = (ok, s')"
      by (cases "inject_both send s1 s2 (inject_decoy send d s)")
    show ?thesis
      using both [OF pre(1), of ?ttl send s1 s2 ok s' "packets_split_update Suc" "d \<noteq> None"] pre(2) d i c by (auto simp: unf)
  qed
  moreover have ?thesis if c: "chain = [STRATEGY_SPLIT, STRATEGY_FAKE]"
  proof -
    obtain d where d: "build_decoy (fst s) s2 = Some d" "\<And>b. d = Some b \<Longrightarrow> is_decoy ?ttl s2 b"
      using build_decoy_cases by blast
    obtain ok s' where i: "inject_or_log send s2 (inject_decoy send d (snd (inject_or_log send s1 s))) = (ok, s')"
      by (cases "inject_or_log send s2 (inject_decoy send d (snd (inject_or_log send s1 s)))")
    show ?thesis
      using chain_outcome_interleaved [OF k cut d(2) i, of "d \<noteq> None"] d(1) i c by (auto simp: unf)
  qed
  moreover have ?thesis if "chain \<notin> {[STRATEGY_SPLIT], [STRATEGY_DISORDER], [STRATEGY_FAKE, STRATEGY_SPLIT], [STRATEGY_SPLIT, STRATEGY_FAKE]}"
    using that chain_outcome_none by (auto simp: unf)
  ultimately show ?thesis by blast
qed

lemma try_apply_chain_outcome:
  "\<exists>r. try_apply_chain send raw tcp chain s = Some r \<and> chain_outcome (fake_ttl (ec_strategies (fst s))) raw tcp s r"
proof (cases "chain = [STRATEGY_FAKE]")
  case True
  obtain d where d: "build_decoy (fst s) raw = Some d" "\<And>b. d = Some b \<Longrightarrow> is_decoy (fake_ttl (ec_strategies (fst s))) raw b"
    using build_decoy_cases by blast
  show ?thesis
  proof (cases d)
    case None
    then show ?thesis using True d(1) chain_outcome_none by (simp add: try_apply_chain_def)
  next
    case (Some b)
    obtain ok s' where i: "inject_or_log send b s = (ok, s')" by (cases "inject_or_log send b s")
    show ?thesis using True d Some i chain_outcome_fake [OF d(2) i] by (simp add: try_apply_chain_def)
  qed
next
  case notfake: False
  let ?ttl = "fake_ttl (ec_strategies (fst s))"
  obtain off where off: "tls_find_sni_split (tcp_payload tcp) = Some off" using tls_find_sni_split_total by blast
  show ?thesis
  proof (cases "off \<le> 0 \<or> nat off \<ge> length (tcp_payload tcp)")
    case True
    then show ?thesis using notfake off chain_outcome_none by (auto simp: try_apply_chain_def)
  next
    case False
    define k where "k = nat off"
    have k: "tls_find_sni_split (tcp_payload tcp) = Some (int k)" "0 < k" "k < length (tcp_payload tcp)"
      using off False by (auto simp: k_def)
    have kn: "k \<noteq> 0" "\<not> length (tcp_payload tcp) \<le> k" using k by simp_all
    note unf = try_apply_chain_def notfake k(1) kn
    show ?thesis
    proof (cases "chain = [STRATEGY_FRAGMENT]")
      case True
      obtain r where r: "packet_fragment_ipv4 raw k = Some r" using packet_fragment_ipv4_total by blast
      show ?thesis
      proof (cases r)
        case (Inl e)
        then show ?thesis using True r k by (intro exI [of _ "(False, s)"]) (simp add: unf chain_outcome_none)
      next
        case (Inr p)
        then obtain s1 s2 where p: "r = Inr (s1, s2)" by (cases p) auto
        obtain ok s' where i: "inject_both send s1 s2 s = (ok, s')" by (cases "inject_both send s1 s2 s")
        have cut: "cut_in_two raw k s1 s2" using r p by (simp add: cut_in_two_def)
        have "chain_outcome ?ttl raw tcp s (True, set_verdict NF_DROP (bump ok (packets_fragment_update Suc) s'))"
          using chain_outcome_both [OF k cut emits_refl [of s], of ?ttl send s1 s2 ok s' "packets_fragment_update Suc" False] i by simp
        then show ?thesis
          using True r p i k by (intro exI [of _ "(True, set_verdict NF_DROP (bump ok (packets_fragment_update Suc) s'))"]) (simp add: unf)
      qed
    next
      case notfrag: False
      obtain r where r: "packet_split_tcp_v4 raw k = Some r" using seg4.split_total by blast
      show ?thesis
      proof (cases r)
        case (Inl e)
        then show ?thesis using notfrag r k by (intro exI [of _ "(False, s)"]) (simp add: unf chain_outcome_none)
      next
        case (Inr p)
        then obtain s1 s2 where p: "r = Inr (s1, s2)" by (cases p) auto
        show ?thesis using try_apply_chain_split [OF notfake notfrag k] r p by simp
      qed
    qed
  qed
qed

section \<open>Tracking the flow\<close>

lemma http_parse_host_total: "http_parse_host d n \<noteq> None"
  by (simp add: http_parse_host_eq)

text \<open>What classification leaves alone.\<close>

definition same_flow :: "flow_entry \<Rightarrow> flow_entry \<Rightarrow> bool" where
  "same_flow f g \<longleftrightarrow> fe_in_use g = fe_in_use f \<and> fe_key g = fe_key f \<and> fe_last_seen g = fe_last_seen f \<and>
     fe_strategy_decided g = fe_strategy_decided f \<and> fe_strategy g = fe_strategy f \<and> fe_chain g = fe_chain f \<and>
     (length (fe_reasm f) \<le> FLOW_REASSEMBLY_CAP \<longrightarrow> length (fe_reasm g) \<le> FLOW_REASSEMBLY_CAP)"

lemma classify_total:
  "\<exists>g c h. classify f p n = Some (g, c, h) \<and> same_flow f g \<and> (c = FLOW_TLS \<or> c = FLOW_HTTP \<or> h = [])"
proof (cases "fe_classification_done f \<or> length p = 0")
  case True
  then show ?thesis by (auto simp: classify_def same_flow_def)
next
  case False
  show ?thesis
  proof (cases "flow_reasm_append f p")
    case None
    then show ?thesis using False by (auto simp: classify_def same_flow_def)
  next
    case (Some f1)
    have f1: "same_flow f f1" using Some by (auto simp: flow_reasm_append_def same_flow_def split: if_splits)
    obtain r1 where r1: "tls_parse_client_hello_sni (fe_reasm f1) n = Some r1" using tls_parse_client_hello_sni_total by blast
    obtain r2 where r2: "http_parse_host (fe_reasm f1) n = Some r2" using http_parse_host_total by blast
    show ?thesis
      using False Some f1 r1 r2 by (cases r1; cases r2) (auto simp: classify_def same_flow_def)
  qed
qed

lemma flow_seq_is_next_same: "same_flow f (fst (flow_seq_is_next f seq n))"
  by (simp add: flow_seq_is_next_def same_flow_def)

lemma same_flow_trans: "same_flow f g \<Longrightarrow> same_flow g h \<Longrightarrow> same_flow f h"
  by (simp add: same_flow_def)

definition decided_ok :: "flow_entry \<Rightarrow> bool" where
  "decided_ok e \<longleftrightarrow> (fe_strategy_decided e \<longrightarrow> strategy_chain_is_safe (fe_chain e) \<and> fe_strategy e = fe_chain e ! 0)"

lemma decided_ok_same: "same_flow f g \<Longrightarrow> decided_ok f \<Longrightarrow> decided_ok g"
  by (simp add: same_flow_def decided_ok_def)

definition flows_ok :: "flow_table \<Rightarrow> bool" where
  "flows_ok t \<longleftrightarrow> flow_inv t \<and> list_all decided_ok (ft_entries t)"

lemma flows_ok_update:
  assumes "flows_ok t" "i < FLOW_TABLE_MAX" "fe_in_use e = fe_in_use (ft_entries t ! i)" "fe_key e = fe_key (ft_entries t ! i)"
    "length (fe_reasm e) \<le> FLOW_REASSEMBLY_CAP" "decided_ok e"
  shows "flows_ok (t\<lparr>ft_entries := (ft_entries t)[i := e]\<rparr>)"
proof -
  have "flow_inv (t\<lparr>ft_entries := (ft_entries t)[i := e]\<rparr>)"
    using assms by (intro flow_inv_update) (simp_all add: flows_ok_def)
  moreover have "list_all decided_ok ((ft_entries t)[i := e])"
    using assms set_update_subset_insert [of "ft_entries t" i e] by (auto simp: flows_ok_def list_all_iff)
  ultimately show ?thesis by (simp add: flows_ok_def)
qed

lemma flows_ok_entry:
  assumes "flows_ok t" "i < FLOW_TABLE_MAX"
  shows "length (fe_reasm (ft_entries t ! i)) \<le> FLOW_REASSEMBLY_CAP" "decided_ok (ft_entries t ! i)"
  using assms by (auto simp: flows_ok_def flow_inv_def list_all_length)

lemma flow_lookup_frame:
  assumes "flows_ok t" "flow_lookup_or_create t key now = (t', i)"
  shows "flows_ok t'" "i < FLOW_TABLE_MAX" "fe_last_seen (ft_entries t' ! i) = now"
    "fe_in_use (ft_entries t' ! i)" "fe_key (ft_entries t' ! i) = key"
proof -
  have inv: "flow_inv t" using assms(1) by (simp add: flows_ok_def)
  have i: "i = flow_slot t key" using assms(2) by (auto simp: flow_lookup_or_create_eq Let_def split: if_splits)
  show lt: "i < FLOW_TABLE_MAX" using flow_slot_bound [OF inv] i by simp
  then have len: "i < length (ft_entries t)" using inv by (simp add: flow_inv_def)
  have inv': "flow_inv t'" using flow_lookup_inv [OF inv, of key now] assms(2) by simp
  have *: "ft_entries t' = (ft_entries t)[i := ft_entries t' ! i] \<and> fe_last_seen (ft_entries t' ! i) = now \<and>
      fe_in_use (ft_entries t' ! i) \<and> fe_key (ft_entries t' ! i) = key \<and> decided_ok (ft_entries t' ! i)"
  proof (cases "first_idx (flow_matches key) (ft_entries t)")
    case None
    then show ?thesis
      using assms(2) len by (auto simp: flow_lookup_or_create_eq Let_def decided_ok_def simp flip: i)
  next
    case (Some j)
    then have "j = i" by (simp add: i flow_slot_def slot_for_def)
    then have "flow_matches key (ft_entries t ! i)" using Some by (simp add: first_idx_Some)
    moreover have "decided_ok (ft_entries t ! i)" by (rule flows_ok_entry [OF assms(1) lt])
    ultimately show ?thesis
      using assms(2) len Some by (auto simp: flow_lookup_or_create_eq Let_def flow_matches_def decided_ok_def simp flip: i)
  qed
  then have "list_all decided_ok (ft_entries t')"
    using assms(1) set_update_subset_insert [of "ft_entries t" i "ft_entries t' ! i"]
    by (auto simp: flows_ok_def list_all_iff)
  then show "flows_ok t'" using inv' by (simp add: flows_ok_def)
  show "fe_last_seen (ft_entries t' ! i) = now" "fe_in_use (ft_entries t' ! i)" "fe_key (ft_entries t' ! i) = key"
    using * by blast+
qed

lemma flow_evict_ok: "flows_ok t \<Longrightarrow> flows_ok (fst (flow_evict_expired t now timeout))"
  using flow_evict_inv [of t now timeout]
  by (auto simp: flows_ok_def flow_evict_expired_def Let_def list_all_iff zero_entry_def decided_ok_def)

section \<open>The invariant of the engine\<close>

definition engine_inv :: "engine_ctx \<Rightarrow> bool" where
  "engine_inv ctx \<longleftrightarrow> flows_ok (ec_flows ctx) \<and> cfg_inv (ec_strategies ctx) \<and> cache_inv (ec_discovered ctx)"

lemma has_explicit_rule_in:
  "strategy_has_explicit_rule cfg d = Some chain \<Longrightarrow> \<exists>r \<in> set (rules cfg). rule_chain r = chain"
  by (auto simp: strategy_has_explicit_rule_def find_Some_iff split: option.splits)

lemma resolve_chain_safe:
  assumes "cfg_inv cfg" "cache_inv cache" "strategy_resolve_chain cfg (Some cache) fp now d = (src, chain, e)"
  shows "strategy_chain_is_safe chain"
proof (cases "strategy_has_explicit_rule cfg d")
  case (Some c)
  then show ?thesis
    using assms has_explicit_rule_in [OF Some] by (auto simp: strategy_resolve_chain_def cfg_inv_def list_all_iff)
next
  case None
  show ?thesis
  proof (cases "discovery_cache_lookup cache d fp DISCOVERY_CACHE_DEFAULT_TTL_SECONDS now")
    case None
    then show ?thesis
      using assms(3) \<open>strategy_has_explicit_rule cfg d = None\<close> by (auto simp: strategy_resolve_chain_def strategy_chain_is_safe_iff)
  next
    case (Some e)
    then have "e \<in> set cache" using lookup_cache_at by blast
    then show ?thesis
      using assms(2,3) Some \<open>strategy_has_explicit_rule cfg d = None\<close>
      by (auto simp: strategy_resolve_chain_def cache_inv_def list_all_iff)
  qed
qed

text \<open>What tracking gives: it always returns, keeps the invariant, leaves the counters of the verdicts
  alone, and the flow it returns is live and stamped now.\<close>

lemma track_flow_total:
  assumes "engine_inv ctx"
  shows "\<exists>ctx' i c h. track_flow key tcp now ctx = Some (ctx', i, c, h) \<and> engine_inv ctx' \<and> i < FLOW_TABLE_MAX \<and>
    ec_strategies ctx' = ec_strategies ctx \<and> ec_discovered ctx' = ec_discovered ctx \<and> ec_fingerprint ctx' = ec_fingerprint ctx \<and>
    packets_seen (ec_stats ctx') = packets_seen (ec_stats ctx) \<and> packets_passed (ec_stats ctx') = packets_passed (ec_stats ctx) \<and>
    fe_last_seen (ft_entries (ec_flows ctx') ! i) = now"
proof -
  obtain fl i where l: "flow_lookup_or_create (ec_flows ctx) key now = (fl, i)" by (cases "flow_lookup_or_create (ec_flows ctx) key now")
  have ok: "flows_ok (ec_flows ctx)" using assms by (simp add: engine_inv_def)
  note fr = flow_lookup_frame [OF ok l]
  define f1 where "f1 = (if \<not> ft_live_count fl \<noteq> ft_live_count (ec_flows ctx) \<and>
      tcp_flags tcp AND TCP_FLAG_SYN \<noteq> 0 \<and> tcp_flags tcp AND TCP_FLAG_ACK = 0
    then flow_restart (ft_entries fl ! i) now else ft_entries fl ! i)"
  have f1: "fe_in_use f1" "fe_key f1 = key" "fe_last_seen f1 = now" "length (fe_reasm f1) \<le> FLOW_REASSEMBLY_CAP" "decided_ok f1"
    using fr flows_ok_entry [OF fr(1,2)] by (auto simp: f1_def flow_restart_def decided_ok_def)
  obtain f2 nx where f2: "flow_seq_is_next f1 (tcp_seq tcp) (length (tcp_payload tcp)) = (f2, nx)"
    by (cases "flow_seq_is_next f1 (tcp_seq tcp) (length (tcp_payload tcp))")
  have s12: "same_flow f1 f2" using flow_seq_is_next_same [of f1 "tcp_seq tcp" "length (tcp_payload tcp)"] f2 by simp
  obtain f3 c h where f3: "(if nx then classify f2 (tcp_payload tcp) 256 else Some (f2, FLOW_UNCLASSIFIED, [])) = Some (f3, c, h)"
      "same_flow f2 f3"
    using classify_total [of f2 "tcp_payload tcp" 256] by (cases nx) (auto simp: same_flow_def)
  have s13: "same_flow f1 f3" by (rule same_flow_trans [OF s12 f3(2)])
  have len: "i < length (ft_entries fl)" using fr(1,2) by (simp add: flows_ok_def flow_inv_def)
  have "flows_ok (fl\<lparr>ft_entries := (ft_entries fl)[i := f3]\<rparr>)"
    using s13 f1 fr decided_ok_same [OF s13 f1(5)] by (intro flows_ok_update) (auto simp: same_flow_def)
  moreover define st where "st = (if ft_live_count fl \<noteq> ft_live_count (ec_flows ctx)
    then flows_created_update Suc (ec_stats ctx) else ec_stats ctx)"
  moreover have "track_flow key tcp now ctx =
      Some (ctx\<lparr>ec_flows := fl\<lparr>ft_entries := (ft_entries fl)[i := f3]\<rparr>, ec_stats := st\<rparr>, i, c, h)"
    unfolding track_flow_def Let_def l prod.case f1_def [symmetric] f2 f3(1) st_def by simp
  moreover have "packets_seen st = packets_seen (ec_stats ctx)" "packets_passed st = packets_passed (ec_stats ctx)"
    by (simp_all add: st_def)
  moreover have "fe_last_seen f3 = now" using s13 f1(3) by (simp add: same_flow_def)
  ultimately show ?thesis
    using assms fr(2) len by (simp add: engine_inv_def)
qed

text \<open>What a packet may lead to.\<close>

definition accepted :: "byte \<Rightarrow> bytes \<Rightarrow> trace \<Rightarrow> bool" where
  "accepted ttl raw new \<longleftrightarrow> new = [Verdict NF_ACCEPT] \<or> (\<exists>d ok. is_decoy ttl raw d \<and> new = [Inject d ok, Verdict NF_ACCEPT])"

definition dropped :: "byte \<Rightarrow> bytes \<Rightarrow> trace \<Rightarrow> bool" where
  "dropped ttl raw new \<longleftrightarrow>
     (\<exists>injs tcp k s1 s2. new = injs @ [Verdict NF_DROP] \<and> tcp_of_v4 raw = Some tcp \<and>
        tls_find_sni_split (tcp_payload tcp) = Some (int k) \<and> 0 < k \<and> k < length (tcp_payload tcp) \<and>
        cut_in_two raw k s1 s2 \<and> replaced_by ttl raw s1 s2 injs)"

definition outcome :: "bytes \<Rightarrow> engine_ctx \<times> trace \<Rightarrow> engine_ctx \<times> trace \<Rightarrow> bool" where
  "outcome raw s s' \<longleftrightarrow>
     (\<exists>new. snd s' = snd s @ new \<and> engine_inv (fst s') \<and>
        packets_seen (ec_stats (fst s')) = packets_seen (ec_stats (fst s)) \<and>
        (accepted (fake_ttl (ec_strategies (fst s))) raw new \<and>
           packets_passed (ec_stats (fst s')) = packets_passed (ec_stats (fst s)) + 1 \<or>
         dropped (fake_ttl (ec_strategies (fst s))) raw new \<and>
           packets_passed (ec_stats (fst s')) = packets_passed (ec_stats (fst s))))"

lemma outcome_accept:
  assumes "engine_inv (fst s)" "emits s s' injs" "accepted (fake_ttl (ec_strategies (fst s))) raw (injs @ [Verdict NF_ACCEPT])"
  shows "outcome raw s (accept s')"
proof -
  obtain st where st: "snd s' = snd s @ injs" "fst s' = (fst s)\<lparr>ec_stats := st\<rparr>"
      "packets_seen st = packets_seen (ec_stats (fst s))" "packets_passed st = packets_passed (ec_stats (fst s))"
    using assms(2) by (auto simp: emits_def)
  then have "snd (accept s') = snd s @ injs @ [Verdict NF_ACCEPT]" "engine_inv (fst (accept s'))"
      "packets_seen (ec_stats (fst (accept s'))) = packets_seen (ec_stats (fst s))"
      "packets_passed (ec_stats (fst (accept s'))) = packets_passed (ec_stats (fst s)) + 1"
    using assms(1) by (simp_all add: accept_def set_verdict_def bump_def engine_inv_def)
  then show ?thesis using assms(3) unfolding outcome_def by (intro exI [of _ "injs @ [Verdict NF_ACCEPT]"]) simp
qed

lemma outcome_accept_plain: "engine_inv (fst s) \<Longrightarrow> outcome raw s (accept s)"
  by (rule outcome_accept [OF _ emits_refl]) (simp_all add: accepted_def)

lemma outcome_drop:
  assumes inv: "engine_inv (fst s)" and v: "tcp_of_v4 raw = Some tcp"
    and o: "chain_outcome (fake_ttl (ec_strategies (fst s))) raw tcp s (True, s')"
  shows "outcome raw s s'"
proof -
  obtain injs k s1 s2 where e: "emits s s' (injs @ [Verdict NF_DROP])"
    and k: "tls_find_sni_split (tcp_payload tcp) = Some (int k)" "0 < k" "k < length (tcp_payload tcp)"
      "cut_in_two raw k s1 s2" "replaced_by (fake_ttl (ec_strategies (fst s))) raw s1 s2 injs"
    using o by (auto simp: chain_outcome_def)
  have "dropped (fake_ttl (ec_strategies (fst s))) raw (injs @ [Verdict NF_DROP])"
    using v k unfolding dropped_def by blast
  then show ?thesis
    using e inv unfolding outcome_def emits_def by (auto simp: engine_inv_def intro!: exI [of _ "injs @ [Verdict NF_DROP]"])
qed

lemma outcome_chain:
  assumes inv: "engine_inv (fst s)" and v: "tcp_of_v4 raw = Some tcp"
  shows "\<exists>s'. (do { (handled, s) \<leftarrow> try_apply_chain send raw tcp chain s; if handled then Some s else Some (accept s) }) = Some s' \<and>
    outcome raw s s'"
proof -
  obtain h s1 where r: "try_apply_chain send raw tcp chain s = Some (h, s1)"
    and o: "chain_outcome (fake_ttl (ec_strategies (fst s))) raw tcp s (h, s1)"
    using try_apply_chain_outcome [of send raw tcp chain s] by (metis surj_pair)
  show ?thesis
  proof (cases h)
    case True
    then show ?thesis using r o outcome_drop [OF inv v] by simp
  next
    case False
    then have "emits s s1 [] \<or> (\<exists>d ok. is_decoy (fake_ttl (ec_strategies (fst s))) raw d \<and> emits s s1 [Inject d ok])"
      using o by (simp add: chain_outcome_def)
    then have "outcome raw s (accept s1)"
    proof (elim disjE exE conjE)
      assume "emits s s1 []"
      then show ?thesis by (rule outcome_accept [OF inv]) (simp add: accepted_def)
    next
      fix d ok assume d: "is_decoy (fake_ttl (ec_strategies (fst s))) raw d" and e: "emits s s1 [Inject d ok]"
      show ?thesis by (rule outcome_accept [OF inv e]) (use d in \<open>auto simp: accepted_def\<close>)
    qed
    then show ?thesis using r False by simp
  qed
qed

text \<open>The shape of \<^const>\<open>finish_packet\<close>: after the decision and the eviction, either the chain is tried,
  which needs an IPv4 packet that was just classified as TLS, or the packet is accepted.\<close>

lemma finish_packet_form:
  assumes inv: "engine_inv ctx" and i: "i < FLOW_TABLE_MAX"
  shows "\<exists>ctx' chain go.
    finish_packet send raw is_v4 tcp now (ctx, i, c, h) tr =
      (if go then do { (handled, s) \<leftarrow> try_apply_chain send raw tcp chain (ctx', tr); if handled then Some s else Some (accept s) }
       else Some (accept (ctx', tr))) \<and>
    engine_inv ctx' \<and> ec_strategies ctx' = ec_strategies ctx \<and> packets_seen (ec_stats ctx') = packets_seen (ec_stats ctx) \<and>
    packets_passed (ec_stats ctx') = packets_passed (ec_stats ctx) \<and> (go \<longrightarrow> is_v4 \<and> c = FLOW_TLS)"
proof -
  obtain src chain e where r: "strategy_resolve_chain (ec_strategies ctx) (Some (ec_discovered ctx)) (ec_fingerprint ctx) now h =
      (src, chain, e)" by (cases "strategy_resolve_chain (ec_strategies ctx) (Some (ec_discovered ctx)) (ec_fingerprint ctx) now h")
  let ?f = "ft_entries (ec_flows ctx) ! i"
  define f where "f = (if h \<noteq> [] then ?f\<lparr>fe_strategy := chain ! 0, fe_chain := chain, fe_strategy_decided := True\<rparr> else ?f)"
  have fo: "flows_ok (ec_flows ctx)" using inv by (simp add: engine_inv_def)
  have safe: "strategy_chain_is_safe chain" using resolve_chain_safe [OF _ _ r] inv by (simp add: engine_inv_def)
  have "flows_ok ((ec_flows ctx)\<lparr>ft_entries := (ft_entries (ec_flows ctx))[i := f]\<rparr>)"
    using flows_ok_entry [OF fo i] safe by (intro flows_ok_update [OF fo i]) (auto simp: f_def decided_ok_def)
  then have ev: "flows_ok (fst (flow_evict_expired ((ec_flows ctx)\<lparr>ft_entries := (ft_entries (ec_flows ctx))[i := f]\<rparr>) now
      FLOW_DEFAULT_TIMEOUT_SECONDS))" by (rule flow_evict_ok)
  obtain fl n where fl: "flow_evict_expired ((ec_flows ctx)\<lparr>ft_entries := (ft_entries (ec_flows ctx))[i := f]\<rparr>) now
      FLOW_DEFAULT_TIMEOUT_SECONDS = (fl, n)"
    by (cases "flow_evict_expired ((ec_flows ctx)\<lparr>ft_entries := (ft_entries (ec_flows ctx))[i := f]\<rparr>) now FLOW_DEFAULT_TIMEOUT_SECONDS")
  define ctx' where "ctx' = ctx\<lparr>ec_flows := fl, ec_stats := flows_expired_update (\<lambda>m. m + n) (ec_stats ctx)\<rparr>"
  define ch where "ch = (if h \<noteq> [] then chain else if fe_strategy_decided ?f then fe_chain ?f else [STRATEGY_PASS])"
  define go where "go = (is_v4 \<and> c = FLOW_TLS \<and> (if h \<noteq> [] then chain ! 0 else if fe_strategy_decided ?f then fe_strategy ?f
      else STRATEGY_PASS) \<noteq> STRATEGY_PASS \<and> length (fe_reasm (ft_entries fl ! i)) = length (tcp_payload tcp))"
  have "finish_packet send raw is_v4 tcp now (ctx, i, c, h) tr =
      (if go then do { (handled, s) \<leftarrow> try_apply_chain send raw tcp ch (ctx', tr); if handled then Some s else Some (accept s) }
       else Some (accept (ctx', tr)))"
    by (cases "h = []") (use fl in \<open>simp_all add: finish_packet_def Let_def r f_def ch_def go_def ctx'_def\<close>)
  moreover have "engine_inv ctx'" using inv ev fl by (simp add: engine_inv_def ctx'_def)
  ultimately show ?thesis
    by (intro exI [of _ ctx'] exI [of _ ch] exI [of _ go]) (simp add: ctx'_def go_def)
qed

lemma finish_packet_outcome:
  assumes "engine_inv ctx" "i < FLOW_TABLE_MAX" and v: "is_v4 \<Longrightarrow> tcp_of_v4 raw = Some tcp"
  shows "\<exists>s'. finish_packet send raw is_v4 tcp now (ctx, i, c, h) tr = Some s' \<and> outcome raw (ctx, tr) s' \<and>
    (\<not> (is_v4 \<and> c = FLOW_TLS) \<longrightarrow> snd s' = tr @ [Verdict NF_ACCEPT])"
proof -
  obtain ctx' chain go where eq: "finish_packet send raw is_v4 tcp now (ctx, i, c, h) tr =
      (if go then do { (handled, s) \<leftarrow> try_apply_chain send raw tcp chain (ctx', tr); if handled then Some s else Some (accept s) }
       else Some (accept (ctx', tr)))"
    and f: "engine_inv ctx'" "ec_strategies ctx' = ec_strategies ctx" "packets_seen (ec_stats ctx') = packets_seen (ec_stats ctx)"
      "packets_passed (ec_stats ctx') = packets_passed (ec_stats ctx)" "go \<longrightarrow> is_v4 \<and> c = FLOW_TLS"
    using finish_packet_form [OF assms(1,2), of send raw is_v4 tcp now c h tr] by blast
  have inv': "engine_inv (fst (ctx', tr))" using f(1) by simp
  have lift: "outcome raw (ctx, tr) s'" if "outcome raw (ctx', tr) s'" for s'
    using that f by (simp add: outcome_def)
  show ?thesis
  proof (cases go)
    case True
    then show ?thesis using outcome_chain [OF inv' v, of send chain] f(5) eq lift by auto
  next
    case False
    have "snd (accept (ctx', tr)) = tr @ [Verdict NF_ACCEPT]" by (simp add: accept_def set_verdict_def bump_def)
    then show ?thesis using False eq lift [OF outcome_accept_plain [OF inv']] by simp
  qed
qed

section \<open>The callback\<close>

lemma view_of_ipv4_header: "packet_parse_ipv4 raw = Some (Inr ip) \<Longrightarrow> length (ip4_header ip) = 20"
  by (auto simp: packet_parse_ipv4_Inr_iff view_of_ipv4_def ipv4_wf_def)

lemma view_of_ipv6_header: "packet_parse_ipv6 raw = Some (Inr ip) \<Longrightarrow> length (ip6_header ip) = 40"
  by (auto simp: packet_parse_ipv6_Inr_iff view_of_ipv6_def ipv6_wf_def)

lemma view_of_tcp_header: "packet_parse_tcp t = Some (Inr tcp) \<Longrightarrow> length (tcp_header tcp) = 20"
  by (auto simp: packet_parse_tcp_Inr_iff view_of_tcp_def tcp_wf_def)

lemma build_flow_key_total:
  "length (ip4_header ip4) = 20 \<Longrightarrow> length (tcp_header tcp) = 20 \<Longrightarrow> build_flow_key_v4 ip4 tcp \<noteq> None"
  "length (ip6_header ip6) = 40 \<Longrightarrow> length (tcp_header tcp) = 20 \<Longrightarrow> build_flow_key_v6 ip6 tcp \<noteq> None"
  by (simp_all add: build_flow_key_v4_def build_flow_key_v6_def mem_simps)

lemma tracked_outcome:
  assumes "engine_inv ctx" "is_v4 \<Longrightarrow> tcp_of_v4 raw = Some tcp"
  shows "\<exists>s'. (do { tracked \<leftarrow> track_flow key tcp now ctx; finish_packet send raw is_v4 tcp now tracked tr }) = Some s' \<and>
    outcome raw (ctx, tr) s' \<and> (\<not> is_v4 \<longrightarrow> snd s' = tr @ [Verdict NF_ACCEPT])"
proof -
  obtain ctx' i c h where t: "track_flow key tcp now ctx = Some (ctx', i, c, h)" "engine_inv ctx'" "i < FLOW_TABLE_MAX"
      "ec_strategies ctx' = ec_strategies ctx" "packets_seen (ec_stats ctx') = packets_seen (ec_stats ctx)"
      "packets_passed (ec_stats ctx') = packets_passed (ec_stats ctx)"
    using track_flow_total [OF assms(1), of key tcp now] by blast
  obtain s' where "finish_packet send raw is_v4 tcp now (ctx', i, c, h) tr = Some s'" "outcome raw (ctx', tr) s'"
      "\<not> (is_v4 \<and> c = FLOW_TLS) \<longrightarrow> snd s' = tr @ [Verdict NF_ACCEPT]"
    using finish_packet_outcome [OF t(2,3) assms(2), where send = send and now = now and c = c and h = h and tr = tr] by blast
  then show ?thesis using t by (auto simp: outcome_def)
qed

text \<open>The claim the next lemmas make of each branch of the callback.\<close>

definition branch_ok :: "bytes \<Rightarrow> engine_ctx \<times> trace \<Rightarrow> (engine_ctx \<times> trace) option \<Rightarrow> bool" where
  "branch_ok raw s r \<longleftrightarrow>
     (\<exists>s'. r = Some s' \<and> outcome raw s s' \<and> (tcp_of_v4 raw = None \<longrightarrow> snd s' = snd s @ [Verdict NF_ACCEPT]))"

lemma branch_accept: "engine_inv (fst s) \<Longrightarrow> branch_ok raw s (Some (accept s))"
  using outcome_accept_plain [of s raw] by (simp add: branch_ok_def accept_def set_verdict_def bump_def)

lemma branch_reject: "engine_inv (fst s) \<Longrightarrow> branch_ok raw s (reject_packet st s)"
  using outcome_accept_plain [of s raw]
  by (auto simp: branch_ok_def reject_packet_def outcome_def accept_def set_verdict_def bump_def engine_inv_def)

lemma branch_v4:
  assumes inv: "engine_inv (fst s)" and ip: "packet_parse_ipv4 raw = Some (Inr ip4)" "ip4_protocol ip4 = 6"
  shows "branch_ok raw s (do {
        t \<leftarrow> packet_parse_tcp (ip4_payload ip4);
        case t of
          Inl _ \<Rightarrow> reject_packet PACKET_ERR_MALFORMED s
        | Inr tcp \<Rightarrow> do {
            key \<leftarrow> build_flow_key_v4 ip4 tcp;
            tracked \<leftarrow> track_flow key tcp now (fst s);
            finish_packet send raw True tcp now tracked (snd s)
          }
      })"
proof -
  obtain t where t: "packet_parse_tcp (ip4_payload ip4) = Some t" using packet_parse_tcp_total by blast
  show ?thesis
  proof (cases t)
    case (Inr tcp)
    have v: "tcp_of_v4 raw = Some tcp" using ip t Inr by (simp add: tcp_of_v4_def parse_v4_tcp_def)
    obtain key where k: "build_flow_key_v4 ip4 tcp = Some key"
      using build_flow_key_total(1) view_of_ipv4_header [OF ip(1)] view_of_tcp_header t Inr by blast
    show ?thesis
      using tracked_outcome [OF inv, of True raw tcp key now send "snd s"] v t Inr k by (simp add: branch_ok_def)
  qed (use t branch_reject [OF inv] in simp)
qed

lemma branch_v6:
  assumes inv: "engine_inv (fst s)" and ip: "packet_parse_ipv6 raw = Some (Inr ip6)"
  shows "branch_ok raw s (do {
        t \<leftarrow> packet_parse_tcp (ip6_payload ip6);
        case t of
          Inl _ \<Rightarrow> reject_packet PACKET_ERR_MALFORMED s
        | Inr tcp \<Rightarrow> do {
            key \<leftarrow> build_flow_key_v6 ip6 tcp;
            tracked \<leftarrow> track_flow key tcp now (fst s);
            finish_packet send raw False tcp now tracked (snd s)
          }
      })"
proof -
  obtain t where t: "packet_parse_tcp (ip6_payload ip6) = Some t" using packet_parse_tcp_total by blast
  show ?thesis
  proof (cases t)
    case (Inr tcp)
    obtain key where k: "build_flow_key_v6 ip6 tcp = Some key"
      using build_flow_key_total(2) view_of_ipv6_header [OF ip] view_of_tcp_header t Inr by blast
    show ?thesis
      using tracked_outcome [OF inv, of False raw tcp key now send "snd s"] t Inr k by (auto simp: branch_ok_def)
  qed (use t branch_reject [OF inv] in simp)
qed

lemma packet_callback_branch:
  assumes "engine_inv (fst s)"
  shows "branch_ok raw (bump True (packets_seen_update Suc) s) (packet_callback send raw now s)"
proof -
  define s1 where "s1 = bump True (packets_seen_update Suc) s"
  have inv: "engine_inv (fst s1)" using assms by (simp add: s1_def bump_def engine_inv_def)
  obtain r4 where r4: "packet_parse_ipv4 raw = Some r4" using packet_parse_ipv4_total by blast
  obtain r6 where r6: "packet_parse_ipv6 raw = Some r6" using packet_parse_ipv6_total by blast
  note unf = packet_callback_def Let_def s1_def [symmetric] mem_simps r4 r6
  have "branch_ok raw s1 (packet_callback send raw now s)"
  proof (cases "length raw < 1")
    case True
    then show ?thesis using branch_accept [OF inv] by (simp add: unf)
  next
    case False
    have "branch_ok raw s1 (packet_callback send raw now s)" if "drop_bit 4 (raw ! 0) = 4"
    proof (cases r4)
      case (Inr ip4)
      then show ?thesis
        using False that branch_v4 [OF inv, of raw ip4 now send] branch_reject [OF inv, of raw] r4 by (simp add: unf)
    qed (use False that branch_reject [OF inv] in \<open>simp add: unf\<close>)
    moreover have "branch_ok raw s1 (packet_callback send raw now s)" if "drop_bit 4 (raw ! 0) = 6"
    proof (cases r6)
      case (Inr ip6)
      then show ?thesis using False that branch_v6 [OF inv, of raw ip6 now send] r6 by (simp add: unf)
    qed (use False that branch_reject [OF inv] in \<open>simp add: unf\<close>)
    moreover have "branch_ok raw s1 (packet_callback send raw now s)"
      if "drop_bit 4 (raw ! 0) \<noteq> 4" "drop_bit 4 (raw ! 0) \<noteq> 6"
      using False that branch_reject [OF inv] by (simp add: unf)
    ultimately show ?thesis by blast
  qed
  then show ?thesis by (simp add: s1_def)
qed

section \<open>Reachable states\<close>

lemma cfg_inv_parse: "cfg_inv cfg \<Longrightarrow> cfg_inv (fst (strategy_config_parse cfg inp))"
  by (simp add: strategy_config_parse_def Let_def parse_lines_inv)

lemma load_strategy_config_inv: "engine_inv ctx \<Longrightarrow> engine_inv (load_strategy_config f ctx)"
  by (cases f) (simp_all add: load_strategy_config_def engine_inv_def cfg_inv_parse)

lemma cache_inv_load: "cache_inv (fst (discovery_cache_load_file f))"
proof -
  have "cache_inv discovery_cache_init" by (simp add: cache_inv_def discovery_cache_init_def)
  then show ?thesis
    by (cases f) (simp_all add: discovery_cache_load_file_def discovery_cache_parse_def cache_parse_lines_inv)
qed

lemma load_discovery_cache_inv: "engine_inv ctx \<Longrightarrow> engine_inv (load_discovery_cache f current now ctx)"
  by (simp add: load_discovery_cache_def engine_inv_def cache_inv_load)

lemma flows_ok_init: "flows_ok flow_table_init"
  using flow_inv_init by (simp add: flows_ok_def flow_table_init_def list_all_length zero_entry_def decided_ok_def)

lemma engine_init_inv: "engine_inv (engine_init conf cache current now)"
  unfolding engine_init_def
  by (intro load_discovery_cache_inv load_strategy_config_inv)
    (simp add: engine_inv_def flows_ok_init cfg_inv_init cache_inv_def discovery_cache_init_def)

lemma flows_ok_invalidate: "flows_ok t \<Longrightarrow> flows_ok (fst (flow_invalidate_decisions t))"
  using flow_invalidate_inv [of t]
  by (auto simp: flows_ok_def flow_invalidate_decisions_def Let_def list_all_iff decided_ok_def)

lemma reload_inv: "engine_inv ctx \<Longrightarrow> engine_inv (reload_strategies conf cache current now ctx)"
proof -
  assume inv: "engine_inv ctx"
  have "engine_inv (load_discovery_cache cache current now (load_strategy_config conf (ctx\<lparr>ec_strategies := strategy_config_init\<rparr>)))"
    using inv by (intro load_discovery_cache_inv load_strategy_config_inv) (simp add: engine_inv_def cfg_inv_init)
  then show ?thesis by (simp add: reload_strategies_def Let_def engine_inv_def flows_ok_invalidate)
qed

lemma reload_stats: "ec_stats (reload_strategies conf cache current now ctx) = ec_stats ctx"
  by (cases conf) (simp_all add: reload_strategies_def Let_def load_discovery_cache_def load_strategy_config_def)

lemma refresh_inv: "engine_inv ctx \<Longrightarrow> engine_inv (maybe_refresh_unknown_fingerprint current now ctx)"
  by (simp add: maybe_refresh_unknown_fingerprint_def engine_inv_def)

lemma refresh_stats: "ec_stats (maybe_refresh_unknown_fingerprint current now ctx) = ec_stats ctx"
  by (simp add: maybe_refresh_unknown_fingerprint_def)

definition is_verdict :: "action \<Rightarrow> bool" where
  "is_verdict a = (case a of Verdict _ \<Rightarrow> True | Inject _ _ \<Rightarrow> False)"

lemma replaced_by_no_verdict: "replaced_by ttl raw s1 s2 injs \<Longrightarrow> filter is_verdict injs = []"
proof -
  assume "replaced_by ttl raw s1 s2 injs"
  then have "list_all (\<lambda>a. \<not> is_verdict a) injs"
    by (auto simp: replaced_by_def list_all_iff is_verdict_def split: action.splits)
  then show ?thesis by (simp add: list_all_iff filter_False)
qed

lemma accepted_verdict: "accepted ttl raw new \<Longrightarrow> filter is_verdict new = [Verdict NF_ACCEPT] \<and> last new = Verdict NF_ACCEPT"
  by (auto simp: accepted_def is_verdict_def)

lemma dropped_verdict: "dropped ttl raw new \<Longrightarrow> filter is_verdict new = [Verdict NF_DROP] \<and> last new = Verdict NF_DROP"
  using replaced_by_no_verdict by (auto simp: dropped_def is_verdict_def)

text \<open>The counters agree with the trace.\<close>

definition counted :: "engine_ctx \<times> trace \<Rightarrow> bool" where
  "counted s \<longleftrightarrow> packets_seen (ec_stats (fst s)) = length (filter is_verdict (snd s)) \<and>
     packets_passed (ec_stats (fst s)) = length (filter (\<lambda>a. a = Verdict NF_ACCEPT) (snd s))"

lemma filter_verdict:
  "filter is_verdict xs = [Verdict v] \<Longrightarrow> filter (\<lambda>a. a = Verdict w) xs = (if v = w then [Verdict v] else [])"
proof -
  assume "filter is_verdict xs = [Verdict v]"
  moreover have "filter (\<lambda>a. a = Verdict w) xs = filter (\<lambda>a. a = Verdict w) (filter is_verdict xs)"
    by (induction xs) (auto simp: is_verdict_def)
  ultimately show ?thesis by (simp del: filter_filter)
qed

lemma outcome_counted:
  assumes "counted s" "outcome raw (bump True (packets_seen_update Suc) s) s'"
  shows "counted s'"
proof -
  obtain new where n: "snd s' = snd s @ new" "packets_seen (ec_stats (fst s')) = packets_seen (ec_stats (fst s)) + 1"
    "filter is_verdict new = [Verdict NF_ACCEPT] \<and> packets_passed (ec_stats (fst s')) = packets_passed (ec_stats (fst s)) + 1 \<or>
     filter is_verdict new = [Verdict NF_DROP] \<and> packets_passed (ec_stats (fst s')) = packets_passed (ec_stats (fst s))"
    using assms(2) accepted_verdict dropped_verdict unfolding outcome_def bump_def by fastforce
  then show ?thesis
    using assms(1) filter_verdict [of new _ NF_ACCEPT] unfolding counted_def by (elim disjE) auto
qed

lemma callback_step:
  assumes "engine_inv (fst s)" "packet_callback send raw now s = Some s'"
  shows "engine_inv (fst s')" "counted s \<Longrightarrow> counted s'"
proof -
  have o: "outcome raw (bump True (packets_seen_update Suc) s) s'"
    using packet_callback_branch [OF assms(1), of raw send now] assms(2) by (simp add: branch_ok_def)
  then show "engine_inv (fst s')" by (auto simp: outcome_def)
  show "counted s \<Longrightarrow> counted s'" using outcome_counted [OF _ o] .
qed

lemma engine_reachable_inv:
  "engine_reachable send s \<Longrightarrow> engine_inv (fst s) \<and> counted s"
proof (induction rule: engine_reachable.induct)
  case (start conf cache current now)
  have "ec_stats (engine_init conf cache current now) = zero_stats"
    by (cases conf) (simp_all add: engine_init_def load_discovery_cache_def load_strategy_config_def)
  then show ?case using engine_init_inv by (simp add: counted_def zero_stats_def)
next
  case (step s s')
  from step.hyps(2) show ?case
  proof cases
    case (reload ctx tr conf cache current now)
    then show ?thesis using step.IH by (simp add: reload_inv counted_def reload_stats)
  next
    case (refresh ctx tr current now)
    then show ?thesis using step.IH by (simp add: refresh_inv counted_def refresh_stats)
  next
    case (packet raw now)
    then show ?thesis using step.IH callback_step by blast
  qed
qed

section \<open>Properties\<close>

text \<open>Claim C2: the callback always returns (no access outside a buffer), gives exactly one verdict
  and gives it last, and keeps the invariant. Either the packet is accepted, after at most one decoy
  of it; or it is dropped, and then the packet is IPv4/TCP, both pieces of it (two TCP segments, or
  two IP fragments, cut inside the server name) were built, everything injected is one of the two
  pieces or a decoy, and both pieces are injected unless a send failed. The counters follow.\<close>

theorem callback_correct:
  assumes "engine_inv ctx"
  shows "\<exists>ctx' new. packet_callback send raw now (ctx, tr) = Some (ctx', tr @ new) \<and> engine_inv ctx' \<and>
    packets_seen (ec_stats ctx') = packets_seen (ec_stats ctx) + 1 \<and>
    (accepted (fake_ttl (ec_strategies ctx)) raw new \<and> packets_passed (ec_stats ctx') = packets_passed (ec_stats ctx) + 1 \<or>
     dropped (fake_ttl (ec_strategies ctx)) raw new \<and> packets_passed (ec_stats ctx') = packets_passed (ec_stats ctx)) \<and>
    (\<exists>v. filter is_verdict new = [Verdict v] \<and> last new = Verdict v)"
proof -
  obtain s' where s': "packet_callback send raw now (ctx, tr) = Some s'"
      "outcome raw (bump True (packets_seen_update Suc) (ctx, tr)) s'"
    using packet_callback_branch [of "(ctx, tr)" raw send now] assms by (auto simp: branch_ok_def)
  then obtain new where n: "snd s' = tr @ new" "engine_inv (fst s')" "packets_seen (ec_stats (fst s')) = packets_seen (ec_stats ctx) + 1"
      "accepted (fake_ttl (ec_strategies ctx)) raw new \<and> packets_passed (ec_stats (fst s')) = packets_passed (ec_stats ctx) + 1 \<or>
       dropped (fake_ttl (ec_strategies ctx)) raw new \<and> packets_passed (ec_stats (fst s')) = packets_passed (ec_stats ctx)"
    by (auto simp: outcome_def bump_def)
  then have "\<exists>v. filter is_verdict new = [Verdict v] \<and> last new = Verdict v"
    using accepted_verdict dropped_verdict by blast
  moreover have "s' = (fst s', tr @ new)" using n(1) by (simp add: prod_eq_iff)
  ultimately show ?thesis using n s'(1) by (intro exI [of _ "fst s'"] exI [of _ new]) simp
qed

theorem callback_correct_witness:
  "\<exists>ctx' new v. packet_callback (\<lambda>_ _. True) sample_v4 7 (engine_init Cannot_open Cannot_open 1 0, []) = Some (ctx', [] @ new) \<and>
     filter is_verdict new = [Verdict v]"
  using callback_correct [OF engine_init_inv, of "\<lambda>_ _. True" sample_v4 7 Cannot_open Cannot_open 1 0 "[]"] by blast



text \<open>A packet that is not IPv4 with a well-formed TCP header (IPv6, UDP, fragments, garbage)
  is accepted and nothing is injected.\<close>

theorem other_packets_untouched:
  assumes "engine_inv ctx" "tcp_of_v4 raw = None"
  shows "\<exists>ctx'. packet_callback send raw now (ctx, tr) = Some (ctx', tr @ [Verdict NF_ACCEPT])"
proof -
  have "branch_ok raw (bump True (packets_seen_update Suc) (ctx, tr)) (packet_callback send raw now (ctx, tr))"
    by (rule packet_callback_branch) (simp add: assms(1))
  then obtain s' where "packet_callback send raw now (ctx, tr) = Some s'" "snd s' = tr @ [Verdict NF_ACCEPT]"
    using assms(2) by (auto simp: branch_ok_def bump_def)
  then show ?thesis by (cases s') auto
qed

theorem other_packets_untouched_witness:
  "\<exists>ctx'. packet_callback (\<lambda>_ _. True) sample_v6 7 (engine_init Cannot_open Cannot_open 1 0, []) = Some (ctx', [] @ [Verdict NF_ACCEPT])"
proof (rule other_packets_untouched [OF engine_init_inv])
  show "tcp_of_v4 sample_v6 = None" by code_simp
qed

section \<open>Classification over several segments\<close>

text \<open>The segments of one flow, in order, through \<^const>\<open>classify\<close>: the final entry and what each call
  reported.\<close>

fun classify_all :: "flow_entry \<Rightarrow> bytes list \<Rightarrow> (flow_entry \<times> (flow_class \<times> string) list) option" where
  "classify_all f [] = Some (f, [])"
| "classify_all f (p # ps) = do {
     (f1, c, h) \<leftarrow> classify f p 256;
     (f2, rs) \<leftarrow> classify_all f1 ps;
     Some (f2, (c, h) # rs)
   }"

lemma classify_all_done:
  "fe_classification_done f \<Longrightarrow> classify_all f ps = Some (f, replicate (length ps) (FLOW_UNCLASSIFIED, []))"
  by (induction ps) (simp_all add: classify_def)

lemma tls_prefix_answer:
  assumes "tls_parse_client_hello_sni (d @ later) n = Some (Inr host)" "length (d @ later) \<le> TLS_CLIENTHELLO_CAP"
  shows "tls_parse_client_hello_sni d n = Some (Inl PACKET_ERR_TRUNCATED) \<or> tls_parse_client_hello_sni d n = Some (Inr host)"
  using tls_parse_append [OF assms(2), of n] assms(1) by (auto simp: kept_def)

lemma classify_all_hello:
  assumes "tls_parse_client_hello_sni (fe_reasm f @ concat ps) 256 = Some (Inr host)"
    and "length (fe_reasm f @ concat ps) \<le> TLS_CLIENTHELLO_CAP"
    and "list_all (\<lambda>p. p \<noteq> []) ps" "ps \<noteq> []" "\<not> fe_classification_done f"
    and "tls_parse_client_hello_sni (fe_reasm f) 256 = Some (Inl PACKET_ERR_TRUNCATED)"
  shows "\<exists>f' i j. classify_all f ps =
      Some (f', replicate i (FLOW_UNCLASSIFIED, []) @ (FLOW_TLS, host_string host) # replicate j (FLOW_UNCLASSIFIED, [])) \<and>
    fe_classification_done f' \<and> fe_class_hint f' = FLOW_TLS \<and> i + 1 + j = length ps \<and>
    fe_reasm f' = fe_reasm f @ concat (take (i + 1) ps)"
  using assms
proof (induction ps arbitrary: f)
  case (Cons p ps)
  define f1 where "f1 = f\<lparr>fe_reasm := fe_reasm f @ p\<rparr>"
  have cap: "length (fe_reasm f @ p @ concat ps) \<le> TLS_CLIENTHELLO_CAP" using Cons.prems(2) by simp
  have app: "flow_reasm_append f p = Some f1"
    using cap by (simp add: flow_reasm_append_def f1_def FLOW_REASSEMBLY_CAP_def TLS_CLIENTHELLO_CAP_def)
  have p: "length p \<noteq> 0" using Cons.prems(3) by simp
  have "tls_parse_client_hello_sni (fe_reasm f1 @ concat ps) 256 = Some (Inr host)" using Cons.prems(1) by (simp add: f1_def)
  then consider "tls_parse_client_hello_sni (fe_reasm f1) 256 = Some (Inr host)"
    | "tls_parse_client_hello_sni (fe_reasm f1) 256 = Some (Inl PACKET_ERR_TRUNCATED)"
    using tls_prefix_answer [of "fe_reasm f1" "concat ps" 256 host] cap by (auto simp: f1_def)
  then show ?case
  proof cases
    case 1
    define f2 where "f2 = f1\<lparr>fe_classification_done := True, fe_class_hint := FLOW_TLS\<rparr>"
    have "classify f p 256 = Some (f2, FLOW_TLS, host_string host)"
      using app p 1 Cons.prems(5) by (simp add: classify_def f2_def)
    moreover have "classify_all f2 ps = Some (f2, replicate (length ps) (FLOW_UNCLASSIFIED, []))"
      by (rule classify_all_done) (simp add: f2_def)
    ultimately show ?thesis
      by (intro exI [of _ f2] exI [of _ 0] exI [of _ "length ps"]) (simp add: f2_def f1_def)
  next
    case 2
    have c: "classify f p 256 = Some (f1, FLOW_UNCLASSIFIED, [])"
      using app p 2 Cons.prems(5) by (simp add: classify_def)
    have "ps \<noteq> []" using 2 Cons.prems(1) by (auto simp: f1_def)
    then obtain f' i j where "classify_all f1 ps =
        Some (f', replicate i (FLOW_UNCLASSIFIED, []) @ (FLOW_TLS, host_string host) # replicate j (FLOW_UNCLASSIFIED, []))"
      "fe_classification_done f'" "fe_class_hint f' = FLOW_TLS" "i + 1 + j = length ps" "fe_reasm f' = fe_reasm f1 @ concat (take (i + 1) ps)"
      using Cons.IH [of f1] Cons.prems 2 by (auto simp: f1_def)
    then show ?thesis
      using c by (intro exI [of _ f'] exI [of _ "Suc i"] exI [of _ j]) (simp add: f1_def)
  qed
qed simp

text \<open>Claim C19: how a ClientHello is cut into TCP segments does not matter: fed in order to a fresh flow,
  exactly one segment (the one that completes the server name) is reported as TLS, with the host name
  of the whole hello; the others are reported as unclassified.\<close>

theorem classification_ignores_segmentation:
  assumes "tls_parse_client_hello_sni (concat ps) 256 = Some (Inr host)" "length (concat ps) \<le> TLS_CLIENTHELLO_CAP"
    and "list_all (\<lambda>p. p \<noteq> []) ps"
  shows "\<exists>f' i j. classify_all (flow_reset key now) ps =
      Some (f', replicate i (FLOW_UNCLASSIFIED, []) @ (FLOW_TLS, host_string host) # replicate j (FLOW_UNCLASSIFIED, [])) \<and>
    fe_class_hint f' = FLOW_TLS \<and> i + 1 + j = length ps \<and> fe_reasm f' = concat (take (i + 1) ps)"
proof -
  have e: "tls_parse_client_hello_sni [] 256 = Some (Inl PACKET_ERR_TRUNCATED)" by code_simp
  then have "ps \<noteq> []" using assms(1) by (cases ps) auto
  moreover have "fe_reasm (flow_reset key now) = []" "\<not> fe_classification_done (flow_reset key now)"
    by (simp_all add: flow_reset_def zero_entry_def)
  ultimately show ?thesis
    using classify_all_hello [of "flow_reset key now" ps host] assms e by auto
qed

theorem classification_ignores_segmentation_witness:
  "\<exists>f' i j. classify_all (flow_reset zero_key 0) [take 60 (hello_record sample_hello), drop 60 (hello_record sample_hello)] =
     Some (f', replicate i (FLOW_UNCLASSIFIED, []) @ (FLOW_TLS, ''a.io'') # replicate j (FLOW_UNCLASSIFIED, [])) \<and> i + 1 + j = 2"
proof -
  let ?ps = "[take 60 (hello_record sample_hello), drop 60 (hello_record sample_hello)]"
  have "tls_parse_client_hello_sni (concat ?ps) 256 = Some (Inr [97, 46, 105, 111])"
    using tls_parse_hello [OF sample_hello_ok, of 256] by (simp add: sample_hello_def)
  moreover have "length (concat ?ps) \<le> TLS_CLIENTHELLO_CAP" "list_all (\<lambda>p. p \<noteq> []) ?ps" by code_simp+
  moreover have "host_string [97, 46, 105, 111] = ''a.io''" by code_simp
  ultimately show ?thesis
    using classification_ignores_segmentation [of ?ps "[97, 46, 105, 111]" zero_key 0] by fastforce
qed

section \<open>A packet that is replaced\<close>

definition sample_tls_v4 :: bytes where
  "sample_tls_v4 = [0x45, 0, 0, 156] @ take 36 (drop 4 sample_v4) @ hello_record sample_hello"

text \<open>A flow that the table does not know yet, and whose first data segment is a whole ClientHello.\<close>

lemma flow_evict_keeps:
  assumes "i < length (ft_entries t)" "fe_last_seen (ft_entries t ! i) = now" "0 \<le> timeout"
  shows "ft_entries (fst (flow_evict_expired t now timeout)) ! i = ft_entries t ! i"
  using assms by (simp add: flow_evict_expired_def Let_def flow_expired_def)

lemma track_flow_first:
  assumes inv: "engine_inv ctx" and new: "\<not> (\<exists>e \<in> set (ft_entries (ec_flows ctx)). fe_in_use e \<and> fe_key e = key)"
    and hello: "tls_parse_client_hello_sni (tcp_payload tcp) 256 = Some (Inr host)"
      "tcp_payload tcp \<noteq> []" "length (tcp_payload tcp) \<le> FLOW_REASSEMBLY_CAP"
  shows "\<exists>ctx' i. track_flow key tcp now ctx = Some (ctx', i, FLOW_TLS, host_string host) \<and> i < length (ft_entries (ec_flows ctx')) \<and>
    ec_strategies ctx' = ec_strategies ctx \<and> ec_discovered ctx' = ec_discovered ctx \<and> ec_fingerprint ctx' = ec_fingerprint ctx \<and>
    fe_last_seen (ft_entries (ec_flows ctx') ! i) = now \<and> fe_reasm (ft_entries (ec_flows ctx') ! i) = tcp_payload tcp"
proof -
  obtain fl i where l: "flow_lookup_or_create (ec_flows ctx) key now = (fl, i)" by (cases "flow_lookup_or_create (ec_flows ctx) key now")
  have ok: "flows_ok (ec_flows ctx)" using inv by (simp add: engine_inv_def)
  have "first_idx (flow_matches key) (ft_entries (ec_flows ctx)) = None" using new by (auto simp: first_idx_None flow_matches_def)
  moreover have i: "i < length (ft_entries fl)" "i < length (ft_entries (ec_flows ctx))"
    using flow_lookup_frame(1,2) [OF ok l] ok by (simp_all add: flows_ok_def flow_inv_def)
  ultimately have e: "ft_entries fl ! i = flow_reset key now"
    using l by (auto simp: flow_lookup_or_create_eq Let_def)
  define f where "f = (flow_reset key now)\<lparr>fe_seq_initialized := True, fe_next_seq := tcp_seq tcp + of_nat (length (tcp_payload tcp)),
      fe_reasm := tcp_payload tcp, fe_classification_done := True, fe_class_hint := FLOW_TLS\<rparr>"
  have "flow_restart (flow_reset key now) now = flow_reset key now" by (simp add: flow_restart_def)
  moreover have "flow_seq_is_next (flow_reset key now) (tcp_seq tcp) (length (tcp_payload tcp)) =
      ((flow_reset key now)\<lparr>fe_seq_initialized := True, fe_next_seq := tcp_seq tcp + of_nat (length (tcp_payload tcp))\<rparr>, True)"
    using hello(2) by (simp add: flow_seq_is_next_def flow_reset_def zero_entry_def)
  moreover have "classify ((flow_reset key now)\<lparr>fe_seq_initialized := True, fe_next_seq := tcp_seq tcp + of_nat (length (tcp_payload tcp))\<rparr>)
      (tcp_payload tcp) 256 = Some (f, FLOW_TLS, host_string host)"
    using hello by (simp add: classify_def flow_reasm_append_def flow_reset_def zero_entry_def f_def)
  ultimately have "\<exists>st. track_flow key tcp now ctx =
      Some (ctx\<lparr>ec_flows := fl\<lparr>ft_entries := (ft_entries fl)[i := f]\<rparr>, ec_stats := st\<rparr>, i, FLOW_TLS, host_string host)"
    by (intro exI [of _ "if ft_live_count fl \<noteq> ft_live_count (ec_flows ctx) then flows_created_update Suc (ec_stats ctx)
          else ec_stats ctx"]) (simp add: track_flow_def l e Let_def)
  then show ?thesis using i(1) by (auto simp: f_def flow_reset_def)
qed

lemma finish_packet_applies:
  assumes "i < length (ft_entries (ec_flows ctx))" "fe_last_seen (ft_entries (ec_flows ctx) ! i) = now"
    and "fe_reasm (ft_entries (ec_flows ctx) ! i) = tcp_payload tcp" "h \<noteq> []"
    and "strategy_resolve_chain (ec_strategies ctx) (Some (ec_discovered ctx)) (ec_fingerprint ctx) now h = (src, chain, e)"
    and "chain ! 0 \<noteq> STRATEGY_PASS"
  shows "\<exists>ctx'. finish_packet send raw True tcp now (ctx, i, FLOW_TLS, h) tr =
    do { (handled, s) \<leftarrow> try_apply_chain send raw tcp chain (ctx', tr); if handled then Some s else Some (accept s) }"
proof -
  define f where "f = (ft_entries (ec_flows ctx) ! i)\<lparr>fe_strategy := chain ! 0, fe_chain := chain, fe_strategy_decided := True\<rparr>"
  define t where "t = (ec_flows ctx)\<lparr>ft_entries := (ft_entries (ec_flows ctx))[i := f]\<rparr>"
  have "ft_entries (fst (flow_evict_expired t now FLOW_DEFAULT_TIMEOUT_SECONDS)) ! i = f"
    using flow_evict_keeps [of i t now FLOW_DEFAULT_TIMEOUT_SECONDS] assms(1,2)
    by (simp add: t_def f_def FLOW_DEFAULT_TIMEOUT_SECONDS_def)
  then show ?thesis
    using assms by (auto simp: finish_packet_def Let_def f_def t_def split: prod.split)
qed

lemma inject_all_ok: "(\<And>tr b. send tr b) \<Longrightarrow> inject_or_log send b (ctx, tr) = (True, ctx, tr @ [Inject b True])"
  by (simp add: inject_or_log_def Let_def)

lemma callback_v4_tracked:
  assumes "tcp_of_v4 raw = Some tcp" "build_flow_key_v4 (view_of_ipv4 raw) tcp = Some key"
  shows "packet_callback send raw now (ctx, tr) = do {
    tracked \<leftarrow> track_flow key tcp now (upd_stats (packets_seen_update Suc) ctx);
    finish_packet send raw True tcp now tracked tr }"
proof -
  have wf: "ipv4_wf raw" "raw ! 9 = 6" "tcp_wf (ipv4_payload_of raw)" "tcp = view_of_tcp (ipv4_payload_of raw)"
    using assms(1) by (simp_all add: tcp_of_v4_Some v4_tcp_wf_def)
  have "packet_parse_ipv4 raw = Some (Inr (view_of_ipv4 raw))" using wf(1) by (simp add: packet_parse_ipv4_Inr_iff)
  moreover have "packet_parse_tcp (ip4_payload (view_of_ipv4 raw)) = Some (Inr tcp)"
    using wf by (simp add: packet_parse_tcp_Inr_iff view_of_ipv4_def ipv4_payload_of_def)
  moreover have "\<not> length raw < 1" "drop_bit 4 (raw ! 0) = 4" "ip4_protocol (view_of_ipv4 raw) = 6"
    using wf by (auto simp: ipv4_wf_def view_of_ipv4_def)
  ultimately show ?thesis
    using assms(2) by (simp add: packet_callback_def Let_def mem_simps bump_def)
qed

text \<open>Claim C18: packet mode does its work: when the first data packet of a flow carries a whole ClientHello,
  the chain for its server name is \<open>split\<close> and the raw sends succeed, then exactly the two TCP segments
  that a cut inside the server name gives are sent, in order, and the original is dropped.\<close>

theorem first_hello_is_split:
  assumes "engine_inv ctx" "tcp_of_v4 raw = Some tcp" "build_flow_key_v4 (view_of_ipv4 raw) tcp = Some key"
    and "\<not> (\<exists>e \<in> set (ft_entries (ec_flows ctx)). fe_in_use e \<and> fe_key e = key)"
    and "tls_parse_client_hello_sni (tcp_payload tcp) 256 = Some (Inr host)" "2 \<le> length host" "host_string host \<noteq> []"
    and "length (tcp_payload tcp) \<le> FLOW_REASSEMBLY_CAP"
    and "strategy_resolve_chain (ec_strategies ctx) (Some (ec_discovered ctx)) (ec_fingerprint ctx) now (host_string host) =
           (src, [STRATEGY_SPLIT], e)"
    and "\<And>tr b. send tr b"
  shows "\<exists>ctx' p k s1 s2. packet_callback send raw now (ctx, tr) = Some (ctx', tr @ [Inject s1 True, Inject s2 True, Verdict NF_DROP]) \<and>
    packet_split_tcp_v4 raw k = Some (Inr (s1, s2)) \<and> take (length host) (drop p (tcp_payload tcp)) = host \<and>
    p < k \<and> k < p + length host"
proof -
  obtain p k where k: "tls_find_sni_split (tcp_payload tcp) = Some (int k)" "p < k" "k < p + length host"
      "p + length host \<le> length (tcp_payload tcp)" "take (length host) (drop p (tcp_payload tcp)) = host"
    using split_inside_host [OF assms(5,6)] by blast
  then have kl: "0 < k" "k < length (tcp_payload tcp)" by simp_all
  then obtain s1 s2 where s: "packet_split_tcp_v4 raw k = Some (Inr (s1, s2))"
    using seg4.split_Inr_iff [of raw k] assms(2) by fastforce
  have chain: "\<exists>c'. try_apply_chain send raw tcp [STRATEGY_SPLIT] (c, tr) =
      Some (True, c', tr @ [Inject s1 True, Inject s2 True, Verdict NF_DROP])" for c
    using k(1) kl s assms(10) by (simp add: try_apply_chain_def inject_both_def inject_all_ok bump_def set_verdict_def)
  have inv: "engine_inv (upd_stats (packets_seen_update Suc) ctx)" using assms(1) by (simp add: engine_inv_def)
  obtain ctx1 i where t: "track_flow key tcp now (upd_stats (packets_seen_update Suc) ctx) = Some (ctx1, i, FLOW_TLS, host_string host)"
      "i < length (ft_entries (ec_flows ctx1))" "ec_strategies ctx1 = ec_strategies ctx" "ec_discovered ctx1 = ec_discovered ctx"
      "ec_fingerprint ctx1 = ec_fingerprint ctx" "fe_last_seen (ft_entries (ec_flows ctx1) ! i) = now"
      "fe_reasm (ft_entries (ec_flows ctx1) ! i) = tcp_payload tcp"
    using track_flow_first [OF inv _ assms(5), of key now] assms(4,8) kl by fastforce
  obtain ctx2 where "finish_packet send raw True tcp now (ctx1, i, FLOW_TLS, host_string host) tr =
      do { (handled, s) \<leftarrow> try_apply_chain send raw tcp [STRATEGY_SPLIT] (ctx2, tr); if handled then Some s else Some (accept s) }"
    using finish_packet_applies [OF t(2,6,7) assms(7), of src "[STRATEGY_SPLIT]" e send raw tr] assms(9) t(3,4,5) by auto
  then obtain c' where "packet_callback send raw now (ctx, tr) = Some (c', tr @ [Inject s1 True, Inject s2 True, Verdict NF_DROP])"
    using callback_v4_tracked [OF assms(2,3), of send now ctx tr] t(1) chain [of ctx2] by auto
  then show ?thesis using s k by blast
qed

lemma lookup_live_entry:
  assumes "flows_ok t" "flow_lookup_or_create t key now = (t', i)" "e \<in> set (ft_entries t)" "fe_in_use e" "fe_key e = key"
  shows "ft_entries t' ! i = e\<lparr>fe_last_seen := now\<rparr>"
proof -
  have inv: "flow_inv t" using assms(1) by (simp add: flows_ok_def)
  obtain j where j: "j < length (ft_entries t)" "ft_entries t ! j = e" using assms(3) by (auto simp: in_set_conv_nth)
  have "first_idx (flow_matches key) (ft_entries t) \<noteq> None" using assms(3-5) by (auto simp: first_idx_None flow_matches_def)
  then obtain m where m: "first_idx (flow_matches key) (ft_entries t) = Some m" by blast
  then have "m < length (ft_entries t)" "fe_in_use (ft_entries t ! m)" "fe_key (ft_entries t ! m) = key"
    by (simp_all add: first_idx_Some flow_matches_def)
  then have "m = j" using inv j assms(4,5) by (auto simp: flow_inv_def)
  then show ?thesis using assms(2) m j by (auto simp: flow_lookup_or_create_eq flow_slot_def slot_for_def Let_def)
qed

definition sample_ctx :: engine_ctx where
  "sample_ctx = engine_init (Contents ''default = split'') Cannot_open 1 0"

lemma sample_ctx_facts:
  "engine_inv sample_ctx" "ec_flows sample_ctx = flow_table_init" "ec_discovered sample_ctx = []" "ec_fingerprint sample_ctx = 1"
  "ec_strategies sample_ctx = fst (strategy_config_parse strategy_config_init ''default = split'')"
  unfolding sample_ctx_def by (rule engine_init_inv)
    (simp_all add: engine_init_def load_discovery_cache_def load_strategy_config_def discovery_cache_load_file_def discovery_cache_init_def)

theorem first_hello_is_split_witness:
  "\<exists>ctx' s1 s2 k. packet_callback (\<lambda>_ _. True) sample_tls_v4 7 (sample_ctx, []) =
      Some (ctx', [Inject s1 True, Inject s2 True, Verdict NF_DROP]) \<and> packet_split_tcp_v4 sample_tls_v4 k = Some (Inr (s1, s2))"
proof -
  have "map_option tcp_payload (tcp_of_v4 sample_tls_v4) = Some (hello_record sample_hello)" by code_simp
  then obtain tcp where tcp: "tcp_of_v4 sample_tls_v4 = Some tcp" "tcp_payload tcp = hello_record sample_hello" by auto
  have wf: "packet_parse_ipv4 sample_tls_v4 = Some (Inr (view_of_ipv4 sample_tls_v4))"
    "packet_parse_tcp (ipv4_payload_of sample_tls_v4) = Some (Inr tcp)"
    using tcp(1) by (simp_all add: tcp_of_v4_Some v4_tcp_wf_def packet_parse_ipv4_Inr_iff packet_parse_tcp_Inr_iff)
  obtain key where key: "build_flow_key_v4 (view_of_ipv4 sample_tls_v4) tcp = Some key"
    using build_flow_key_total(1) view_of_ipv4_header [OF wf(1)] view_of_tcp_header [OF wf(2)] by blast
  have host: "tls_parse_client_hello_sni (hello_record sample_hello) 256 = Some (Inr [97, 46, 105, 111])"
    using tls_parse_hello [OF sample_hello_ok, of 256] by (simp add: sample_hello_def)
  have hs: "host_string [97, 46, 105, 111] = ''a.io''" by code_simp
  have len: "length (hello_record sample_hello) \<le> FLOW_REASSEMBLY_CAP" by code_simp
  have chain: "strategy_resolve_chain (fst (strategy_config_parse strategy_config_init ''default = split'')) (Some []) 1 7 ''a.io'' =
      (STRATEGY_SOURCE_DEFAULT, [STRATEGY_SPLIT], None)" by code_simp
  have free: "\<not> (\<exists>e \<in> set (ft_entries (ec_flows sample_ctx)). fe_in_use e \<and> fe_key e = key)"
    by (simp add: sample_ctx_facts flow_table_init_def zero_entry_def)
  show ?thesis
    using first_hello_is_split [OF sample_ctx_facts(1) tcp(1) key free, of "[97, 46, 105, 111]" 7 STRATEGY_SOURCE_DEFAULT None
        "\<lambda>_ _. True" "[]"] tcp(2) host hs len chain by (auto simp: sample_ctx_facts)
qed

text \<open>Once a flow is classified, no later packet of it is touched: an IPv4 packet of a live,
  classified flow that is not a new SYN is accepted and nothing is injected.\<close>

theorem classified_flow_untouched:
  assumes "engine_inv ctx" "tcp_of_v4 raw = Some tcp" "build_flow_key_v4 (view_of_ipv4 raw) tcp = Some key"
    and "e \<in> set (ft_entries (ec_flows ctx))" "fe_in_use e" "fe_key e = key" "fe_classification_done e"
    and "tcp_flags tcp AND TCP_FLAG_SYN = 0 \<or> tcp_flags tcp AND TCP_FLAG_ACK \<noteq> 0"
  shows "\<exists>ctx'. packet_callback send raw now (ctx, tr) = Some (ctx', tr @ [Verdict NF_ACCEPT])"
proof -
  define ctx1 where "ctx1 = upd_stats (packets_seen_update Suc) ctx"
  have inv: "engine_inv ctx1" "flows_ok (ec_flows ctx1)" using assms(1) by (simp_all add: engine_inv_def ctx1_def)
  obtain fl i where l: "flow_lookup_or_create (ec_flows ctx1) key now = (fl, i)" by (cases "flow_lookup_or_create (ec_flows ctx1) key now")
  have done1: "fe_classification_done (ft_entries fl ! i)"
    using lookup_live_entry [OF inv(2) l, of e] assms(4-7) by (simp add: ctx1_def)
  obtain ctx' j c h where t: "track_flow key tcp now ctx1 = Some (ctx', j, c, h)" "engine_inv ctx'" "j < FLOW_TABLE_MAX"
    using track_flow_total [OF inv(1), of key tcp now] by blast
  have "c \<noteq> FLOW_TLS"
    using t(1) l done1 assms(8) by (auto simp: track_flow_def Let_def flow_seq_is_next_def classify_def split: if_splits)
  then obtain s' where "finish_packet send raw True tcp now (ctx', j, c, h) tr = Some s'" "snd s' = tr @ [Verdict NF_ACCEPT]"
    using finish_packet_outcome [OF t(2,3), of True raw tcp send now c h tr] assms(2) by auto
  then show ?thesis
    using callback_v4_tracked [OF assms(2,3), of send now ctx tr] t(1) by (cases s') (auto simp: ctx1_def)
qed

lemma sample_v4_flow:
  "\<exists>tcp key. tcp_of_v4 sample_v4 = Some tcp \<and> build_flow_key_v4 (view_of_ipv4 sample_v4) tcp = Some key \<and>
     tcp_flags tcp AND TCP_FLAG_SYN = 0"
proof -
  have "tcp_of_v4 sample_v4 \<noteq> None \<and> build_flow_key_v4 (view_of_ipv4 sample_v4) (the (tcp_of_v4 sample_v4)) \<noteq> None \<and>
      tcp_flags (the (tcp_of_v4 sample_v4)) AND TCP_FLAG_SYN = 0" by code_simp
  then show ?thesis by auto
qed

theorem classified_flow_untouched_witness:
  "\<exists>ctx ctx'. packet_callback (\<lambda>_ _. True) sample_v4 7 (ctx, []) = Some (ctx', [] @ [Verdict NF_ACCEPT]) \<and> ft_live_count (ec_flows ctx) = 1"
proof -
  obtain tcp key where t: "tcp_of_v4 sample_v4 = Some tcp" "build_flow_key_v4 (view_of_ipv4 sample_v4) tcp = Some key"
      "tcp_flags tcp AND TCP_FLAG_SYN = 0" using sample_v4_flow by blast
  obtain fl i where l: "flow_lookup_or_create flow_table_init key 5 = (fl, i)" by (cases "flow_lookup_or_create flow_table_init key 5")
  note fr = flow_lookup_frame [OF flows_ok_init l]
  define e where "e = (ft_entries fl ! i)\<lparr>fe_classification_done := True\<rparr>"
  have len: "i < length (ft_entries fl)" using fr(1,2) by (simp add: flows_ok_def flow_inv_def)
  define ctx where "ctx = sample_ctx\<lparr>ec_flows := fl\<lparr>ft_entries := (ft_entries fl)[i := e]\<rparr>\<rparr>"
  have "flows_ok (fl\<lparr>ft_entries := (ft_entries fl)[i := e]\<rparr>)"
    using flows_ok_entry [OF fr(1,2)] by (intro flows_ok_update [OF fr(1,2)]) (simp_all add: e_def decided_ok_def)
  then have inv: "engine_inv ctx" using sample_ctx_facts(1) by (simp add: engine_inv_def ctx_def)
  have e: "e \<in> set (ft_entries (ec_flows ctx))" "fe_in_use e" "fe_key e = key" "fe_classification_done e"
    using len fr(4,5) by (simp_all add: ctx_def e_def set_update_memI)
  have "first_idx (flow_matches key) (ft_entries flow_table_init) = None"
    by (simp add: first_idx_None flow_matches_def flow_table_init_def zero_entry_def)
  then have "ft_live_count fl = 1"
    using l fr(2) by (auto simp: flow_lookup_or_create_eq Let_def flow_table_init_def zero_entry_def)
  then show ?thesis
    using classified_flow_untouched [OF inv t(1,2) e, of "\<lambda>_ _. True" 7 "[]"] t(3) by (auto simp: ctx_def)
qed

text \<open>After a reload no flow keeps a decision made against the old files, the flows themselves
  (keys, buffered bytes, sequence numbers) are kept, and the configuration is the one the file now
  holds on top of the defaults; a file that cannot be opened gives the defaults.\<close>

theorem reload_forgets_decisions:
  "let ctx' = reload_strategies conf cache current now ctx in
    list_all (\<lambda>e. \<not> (fe_in_use e \<and> fe_strategy_decided e)) (ft_entries (ec_flows ctx')) \<and>
    map fe_key (ft_entries (ec_flows ctx')) = map fe_key (ft_entries (ec_flows ctx)) \<and>
    map fe_reasm (ft_entries (ec_flows ctx')) = map fe_reasm (ft_entries (ec_flows ctx)) \<and>
    map fe_next_seq (ft_entries (ec_flows ctx')) = map fe_next_seq (ft_entries (ec_flows ctx)) \<and>
    ec_strategies ctx' = (case conf of Contents s \<Rightarrow> fst (strategy_config_parse strategy_config_init (take 8191 s))
      | _ \<Rightarrow> strategy_config_init) \<and>
    ec_discovered ctx' = fst (discovery_cache_load_file cache) \<and> ec_fingerprint ctx' = current"
proof -
  define ctx' where "ctx' = reload_strategies conf cache current now ctx"
  have fl: "ec_flows ctx' = fst (flow_invalidate_decisions (ec_flows ctx))"
    by (cases conf) (simp_all add: ctx'_def reload_strategies_def Let_def load_discovery_cache_def load_strategy_config_def)
  have "fst (strategy_config_parse strategy_config_init []) = strategy_config_init" by code_simp
  then have "ec_strategies ctx' = (case conf of Contents s \<Rightarrow> fst (strategy_config_parse strategy_config_init (take 8191 s))
      | _ \<Rightarrow> strategy_config_init)"
    "ec_discovered ctx' = fst (discovery_cache_load_file cache)" "ec_fingerprint ctx' = current"
    by (cases conf; simp add: ctx'_def reload_strategies_def Let_def load_discovery_cache_def load_strategy_config_def)+
  then show ?thesis
    unfolding ctx'_def [symmetric] Let_def by (auto simp: fl flow_invalidate_decisions_def Let_def list_all_iff)
qed

text \<open>\<open>fake_decoys_sent\<close> also counts decoys that were not sent: in the chain fake+split it grows
  although every raw send failed, while the chain fake alone counts only sent decoys.\<close>

theorem unsent_decoy_is_counted:
  "\<exists>s'. try_apply_chain (\<lambda>_ _. False) sample_tls_v4 (the (tcp_of_v4 sample_tls_v4)) [STRATEGY_FAKE, STRATEGY_SPLIT] (sample_ctx, []) =
      Some (True, s') \<and> fake_decoys_sent (ec_stats (fst s')) = 1 \<and> list_all (\<lambda>a. case a of Inject _ ok \<Rightarrow> \<not> ok | _ \<Rightarrow> True) (snd s') \<and>
   (\<exists>s''. try_apply_chain (\<lambda>_ _. False) sample_tls_v4 (the (tcp_of_v4 sample_tls_v4)) [STRATEGY_FAKE] (sample_ctx, []) =
      Some (False, s'') \<and> fake_decoys_sent (ec_stats (fst s'')) = 0)"
proof -
  have st: "ec_stats sample_ctx = zero_stats"
    by (simp add: sample_ctx_def engine_init_def load_discovery_cache_def load_strategy_config_def)
  have "map_option (tls_find_sni_split \<circ> tcp_payload) (tcp_of_v4 sample_tls_v4) = Some (Some 109)" by code_simp
  then have off: "tls_find_sni_split (tcp_payload (the (tcp_of_v4 sample_tls_v4))) = Some 109" by auto
  have len: "length (tcp_payload (the (tcp_of_v4 sample_tls_v4))) = 116" by code_simp
  have "case packet_split_tcp_v4 sample_tls_v4 109 of Some (Inr _) \<Rightarrow> True | _ \<Rightarrow> False" by code_simp
  then obtain s1 s2 where s: "packet_split_tcp_v4 sample_tls_v4 109 = Some (Inr (s1, s2))" by (auto split: option.splits sum.splits)
  have "tcp_of_v4 sample_tls_v4 \<noteq> None" by code_simp
  then obtain v where v: "tcp_of_v4 sample_tls_v4 = Some v" "tcp_payload v \<noteq> []" using len by fastforce
  have "\<exists>d. build_decoy sample_ctx sample_tls_v4 = Some (Some d)"
    using packet_make_fake_tcp_v4_eq [of sample_tls_v4 "fake_ttl (ec_strategies sample_ctx)"] v
    by (auto simp: build_decoy_def tcp_of_v4_Some view_of_tcp_def)
  then obtain d where d: "build_decoy sample_ctx sample_tls_v4 = Some (Some d)" by blast
  show ?thesis
    by (simp add: try_apply_chain_def off len s d inject_or_log_def inject_both_def inject_decoy_def set_verdict_def bump_def st zero_stats_def)
qed

end
