(* ===== verification/Policy.thy ===== *)
theory Policy
  imports Strategy
begin

text \<open>
  The attempt plan of the transparent daemon, first half of \<open>src/transparent/policy.c\<close>: the list of
  known-blocked hosts and the ladder of attempts for one connection (\<open>tp_plan_next\<close>,
  \<open>tp_plan_record\<close>). The loop that alternates them is \<open>run_plan\<close> of \<open>src/transparent/conn.c\<close>; its
  attempts and its lookup are parameters here.
\<close>

section \<open>Data\<close>

datatype tp_target = TP_TARGET_ORIGINAL | TP_TARGET_TRUSTED

record tp_step =
  st_target :: tp_target
  st_strategy :: t_strategy

datatype tp_result = TP_RES_OK | TP_RES_ALERT | TP_RES_CONNECT_FAIL | TP_RES_RESET | TP_RES_CLOSED | TP_RES_TIMEOUT
  | TP_RES_NOT_TLS | TP_RES_SKIPPED

datatype tp_trust = TP_TRUST_UNKNOWN | TP_TRUST_NONE | TP_TRUST_MATCH | TP_TRUST_MISMATCH

datatype tp_source = TP_SRC_NONE | TP_SRC_MANUAL | TP_SRC_CACHED | TP_SRC_LADDER | TP_SRC_COOLDOWN

definition TP_MAX_ATTEMPTS :: nat where "TP_MAX_ATTEMPTS = 4"
definition TP_REPLY_TIMEOUT_MS :: nat where "TP_REPLY_TIMEOUT_MS = 4000"

text \<open>\<open>tried\<close> and \<open>results\<close> up to \<open>ntried\<close> are one list of pairs.\<close>

record tp_plan =
  has_host :: bool
  pl_listed :: bool
  preferred :: t_strategy
  has_manual :: bool
  manual :: t_strategy
  has_cached :: bool
  cached :: tp_step
  in_cooldown :: bool
  direct_bad :: bool
  trust :: tp_trust
  tried :: "(tp_step \<times> tp_result) list"

text \<open>\<open>*out\<close> and \<open>*timeout_ms\<close> are written for an attempt only.\<close>

datatype tp_next = TP_NEXT_ATTEMPT tp_step nat | TP_NEXT_NEED_DNS | TP_NEXT_DONE

definition tp_target_name :: "tp_target \<Rightarrow> string" where
  "tp_target_name t = (if t = TP_TARGET_TRUSTED then ''trusted'' else ''original'')"

definition tp_result_name :: "tp_result \<Rightarrow> string" where
  "tp_result_name r = (case r of
     TP_RES_OK \<Rightarrow> ''ok'' | TP_RES_ALERT \<Rightarrow> ''alert'' | TP_RES_CONNECT_FAIL \<Rightarrow> ''connect-fail'' | TP_RES_RESET \<Rightarrow> ''reset''
   | TP_RES_CLOSED \<Rightarrow> ''closed'' | TP_RES_TIMEOUT \<Rightarrow> ''timeout'' | TP_RES_NOT_TLS \<Rightarrow> ''not-tls'' | TP_RES_SKIPPED \<Rightarrow> ''skipped'')"

definition tp_source_name :: "tp_source \<Rightarrow> string" where
  "tp_source_name s =
     (if s = TP_SRC_MANUAL then ''manual''
      else if s = TP_SRC_CACHED then ''cached''
      else if s = TP_SRC_LADDER then ''auto''
      else if s = TP_SRC_COOLDOWN then ''cooldown''
      else ''none'')"

section \<open>Known-blocked hosts\<close>

definition g_listed :: "string list" where
  "g_listed =
     [''discord.com'', ''discordapp.com'', ''discordapp.net'', ''discord.gg'',
      ''discord.media'', ''discord.dev'', ''discord.new'', ''discord.gift'',
      ''discordstatus.com'', ''discordcdn.com'', ''dis.gd'',
      ''roblox.com'', ''rbxcdn.com'', ''wattpad.com'',
      ''instagram.com'', ''cdninstagram.com'',
      ''rutracker.org'', ''nyaa.si'', ''1337x.to'', ''thepiratebay.org'']"

text \<open>\<open>strncasecmp(a, b, n) == 0\<close> on strings of at least \<open>n\<close> characters.\<close>

definition same_prefix :: "nat \<Rightarrow> string \<Rightarrow> string \<Rightarrow> bool" where
  "same_prefix n a b = ieq (take n a) (take n b)"

definition tp_host_listed :: "string option \<Rightarrow> bool" where
  "tp_host_listed host_arg =
     (case host_arg of
        None \<Rightarrow> False
      | Some host \<Rightarrow>
          let hlen = length (trim_right (\<lambda>c. c = CHR ''.'') host) in
          list_ex (\<lambda>d. let dlen = length d in
            if hlen = dlen \<and> same_prefix dlen host d then True
            else hlen > dlen \<and> host ! (hlen - dlen - 1) = CHR ''.'' \<and> same_prefix dlen (drop (hlen - dlen) host) d) g_listed)"

section \<open>The plan\<close>

definition step_of :: "tp_target \<Rightarrow> t_strategy \<Rightarrow> tp_step" where
  "step_of target strategy = \<lparr>st_target = target, st_strategy = strategy\<rparr>"

definition tp_plan_init :: tp_plan where
  "tp_plan_init = \<lparr>has_host = False, pl_listed = False, preferred = STRATEGY_PASS, has_manual = False, manual = STRATEGY_PASS,
     has_cached = False, cached = step_of TP_TARGET_ORIGINAL STRATEGY_PASS, in_cooldown = False, direct_bad = False,
     trust = TP_TRUST_UNKNOWN, tried = []\<rparr>"

definition stream_strategy :: "t_strategy \<Rightarrow> t_strategy" where
  "stream_strategy s = (if s = STRATEGY_PASS \<or> s = STRATEGY_TLSREC_SPLIT then s else STRATEGY_TLSREC)"

definition first_bypass :: "tp_plan \<Rightarrow> t_strategy" where
  "first_bypass p = (if preferred p = STRATEGY_TLSREC_SPLIT then STRATEGY_TLSREC_SPLIT else STRATEGY_TLSREC)"

definition second_bypass :: "tp_plan \<Rightarrow> t_strategy" where
  "second_bypass p = (if first_bypass p = STRATEGY_TLSREC then STRATEGY_TLSREC_SPLIT else STRATEGY_TLSREC)"

definition normalize :: "tp_plan \<Rightarrow> tp_step \<Rightarrow> tp_step" where
  "normalize p s =
     (let s = (if st_target s = TP_TARGET_TRUSTED \<and> trust p \<noteq> TP_TRUST_MISMATCH then s\<lparr>st_target := TP_TARGET_ORIGINAL\<rparr> else s) in
      s\<lparr>st_strategy := stream_strategy (st_strategy s)\<rparr>)"

text \<open>The result of the first attempt of the step \<open>s\<close>, if it was tried.\<close>

definition was_tried :: "tp_plan \<Rightarrow> tp_step \<Rightarrow> tp_result option" where
  "was_tried p s =
     map_option snd (List.find (\<lambda>(t, r). st_target t = st_target s \<and> st_strategy t = st_strategy s) (tried p))"

definition offer :: "tp_step \<Rightarrow> tp_next" where
  "offer s = TP_NEXT_ATTEMPT s TP_REPLY_TIMEOUT_MS"

definition original_unreachable :: "tp_plan \<Rightarrow> bool" where
  "original_unreachable p = list_ex (\<lambda>(t, r). st_target t = TP_TARGET_ORIGINAL \<and> r = TP_RES_CONNECT_FAIL) (tried p)"

definition next_bypass :: "tp_plan \<Rightarrow> tp_target \<Rightarrow> tp_step option" where
  "next_bypass p target =
     (let s = step_of target (first_bypass p) in
      if was_tried p s = None then Some s
      else let s = step_of target (second_bypass p) in if was_tried p s = None then Some s else None)"

text \<open>From the question whether the trusted resolver disagrees on.\<close>

definition plan_after_direct :: "tp_plan \<Rightarrow> tp_result \<Rightarrow> tp_next" where
  "plan_after_direct p direct_result =
     (if trust p = TP_TRUST_UNKNOWN then TP_NEXT_NEED_DNS
      else if trust p = TP_TRUST_MISMATCH then
        let s = step_of TP_TARGET_TRUSTED STRATEGY_PASS in
        if was_tried p s = None then offer s
        else (case next_bypass p TP_TARGET_TRUSTED of Some s \<Rightarrow> offer s | None \<Rightarrow> TP_NEXT_DONE)
      else if direct_result = TP_RES_CONNECT_FAIL \<or> original_unreachable p then TP_NEXT_DONE
      else (case next_bypass p TP_TARGET_ORIGINAL of Some s \<Rightarrow> offer s | None \<Rightarrow> TP_NEXT_DONE))"

text \<open>From the bypasses of a listed host on.\<close>

definition plan_ladder :: "tp_plan \<Rightarrow> tp_next" where
  "plan_ladder p =
     (let direct = step_of TP_TARGET_ORIGINAL STRATEGY_PASS in
      case (if pl_listed p \<and> \<not> original_unreachable p then next_bypass p TP_TARGET_ORIGINAL else None) of
        Some s \<Rightarrow> offer s
      | None \<Rightarrow>
          if direct_bad p then plan_after_direct p TP_RES_SKIPPED
          else if original_unreachable p \<and> was_tried p direct = None then plan_after_direct p TP_RES_CONNECT_FAIL
          else (case was_tried p direct of None \<Rightarrow> offer direct | Some r \<Rightarrow> plan_after_direct p r))"

definition tp_plan_next :: "tp_plan \<Rightarrow> tp_next" where
  "tp_plan_next p =
     (let direct = step_of TP_TARGET_ORIGINAL STRATEGY_PASS; ntried = length (tried p) in
      if ntried \<ge> TP_MAX_ATTEMPTS then TP_NEXT_DONE
      else if ntried > 0 \<and> (snd (tried p ! (ntried - 1)) = TP_RES_OK \<or> snd (tried p ! (ntried - 1)) = TP_RES_ALERT) then TP_NEXT_DONE
      else if \<not> has_host p \<or> has_manual p \<and> stream_strategy (manual p) = STRATEGY_PASS then
        if ntried = 0 then offer direct else TP_NEXT_DONE
      else if in_cooldown p then
        if ntried > 0 then TP_NEXT_DONE
        else if pl_listed p then offer (step_of TP_TARGET_ORIGINAL (first_bypass p))
        else offer direct
      else if has_manual p then
        if ntried > 0 then TP_NEXT_DONE
        else if trust p = TP_TRUST_UNKNOWN then TP_NEXT_NEED_DNS
        else offer (normalize p (step_of TP_TARGET_TRUSTED (manual p)))
      else if has_cached p then
        if st_target (cached p) = TP_TARGET_TRUSTED \<and> trust p = TP_TRUST_UNKNOWN then TP_NEXT_NEED_DNS
        else let s = normalize p (cached p) in
          if was_tried p s = None then offer s else plan_ladder p
      else plan_ladder p)"

definition tp_plan_record :: "tp_plan \<Rightarrow> tp_step \<Rightarrow> tp_result \<Rightarrow> tp_plan" where
  "tp_plan_record p step r = (if length (tried p) \<ge> TP_MAX_ATTEMPTS then p else p\<lparr>tried := tried p @ [(step, r)]\<rparr>)"

definition tp_plan_source :: "tp_plan \<Rightarrow> tp_source" where
  "tp_plan_source p =
     (if \<not> has_host p then TP_SRC_NONE
      else if has_manual p then TP_SRC_MANUAL
      else if in_cooldown p then TP_SRC_COOLDOWN
      else if has_cached p \<and> length (tried p) \<le> 1 then TP_SRC_CACHED
      else TP_SRC_LADDER)"

section \<open>The loop\<close>

text \<open>\<open>run_plan\<close> up to its outcome: the attempt is a parameter, and so is the lookup behind
  \<open>TP_NEXT_NEED_DNS\<close>, which sets the plan's trust. A step is the answer that was committed;
  \<^const>\<open>None\<close> means that no attempt got one. The bound counts rounds; see the termination lemma.\<close>

fun plan_loop :: "(tp_step \<Rightarrow> nat \<Rightarrow> 'u \<Rightarrow> (tp_result \<times> 'u) option) \<Rightarrow> ('u \<Rightarrow> (tp_trust \<times> 'u) option) \<Rightarrow> nat \<Rightarrow> tp_plan \<Rightarrow> 'u \<Rightarrow>
    (tp_step option \<times> tp_plan \<times> 'u) option" where
  "plan_loop attempt lookup (Suc fuel) p u =
     (case tp_plan_next p of
        TP_NEXT_DONE \<Rightarrow> Some (None, p, u)
      | TP_NEXT_NEED_DNS \<Rightarrow> do { (t, u) \<leftarrow> lookup u; plan_loop attempt lookup fuel (p\<lparr>trust := t\<rparr>) u }
      | TP_NEXT_ATTEMPT step timeout \<Rightarrow> do {
          (r, u) \<leftarrow> attempt step timeout u;
          let p = tp_plan_record p step r;
          if r = TP_RES_OK \<or> r = TP_RES_ALERT then Some (Some step, p, u) else plan_loop attempt lookup fuel p u
        })"
| "plan_loop attempt lookup 0 p u = None"

section \<open>What is offered\<close>

definition direct_step :: tp_step where
  "direct_step = step_of TP_TARGET_ORIGINAL STRATEGY_PASS"

text \<open>A step the plan may offer in the state \<open>p\<close>.\<close>

definition offer_ok :: "tp_plan \<Rightarrow> tp_step \<Rightarrow> bool" where
  "offer_ok p s \<longleftrightarrow> was_tried p s = None \<and> st_strategy s \<in> {STRATEGY_PASS, STRATEGY_TLSREC, STRATEGY_TLSREC_SPLIT} \<and>
     (st_target s = TP_TARGET_TRUSTED \<longrightarrow> trust p = TP_TRUST_MISMATCH)"

lemma was_tried_Nil [simp]: "tried p = [] \<Longrightarrow> was_tried p s = None"
  by (simp add: was_tried_def)

lemma was_tried_None: "was_tried p s = None \<longleftrightarrow> s \<notin> fst ` set (tried p)"
proof -
  have "t = s \<longleftrightarrow> st_target t = st_target s \<and> st_strategy t = st_strategy s" for t :: tp_step
    by (auto intro: tp_step.equality)
  then show ?thesis by (auto simp: was_tried_def find_None_iff image_iff)
qed

lemma bypass_kinds:
  "first_bypass p \<in> {STRATEGY_PASS, STRATEGY_TLSREC, STRATEGY_TLSREC_SPLIT}"
  "second_bypass p \<in> {STRATEGY_PASS, STRATEGY_TLSREC, STRATEGY_TLSREC_SPLIT}"
  "first_bypass p \<noteq> STRATEGY_PASS" "second_bypass p \<noteq> STRATEGY_PASS" "first_bypass p \<noteq> second_bypass p"
  by (auto simp: first_bypass_def second_bypass_def)

lemma step_of_sel [simp]: "st_target (step_of t s) = t" "st_strategy (step_of t s) = s"
  by (simp_all add: step_of_def)

lemma next_bypass_Some:
  assumes "next_bypass p target = Some s"
  shows "was_tried p s = None" "st_target s = target" "st_strategy s \<in> {STRATEGY_TLSREC, STRATEGY_TLSREC_SPLIT}"
  using assms bypass_kinds [of p] by (auto simp: next_bypass_def Let_def split: if_splits)

lemma normalize_ok: "st_strategy (normalize p s) \<in> {STRATEGY_PASS, STRATEGY_TLSREC, STRATEGY_TLSREC_SPLIT}"
  "st_target (normalize p s) = TP_TARGET_TRUSTED \<Longrightarrow> trust p = TP_TRUST_MISMATCH"
  by (auto simp: normalize_def Let_def stream_strategy_def split: if_splits)

lemma offer_eq: "offer s = TP_NEXT_ATTEMPT s' t \<longleftrightarrow> s' = s \<and> t = TP_REPLY_TIMEOUT_MS" "offer s \<noteq> TP_NEXT_DONE" "offer s \<noteq> TP_NEXT_NEED_DNS"
    "offer s = offer s' \<longleftrightarrow> s = s'"
  by (auto simp: offer_def)

lemma after_direct_cases:
  "plan_after_direct p r = TP_NEXT_DONE \<or> plan_after_direct p r = TP_NEXT_NEED_DNS \<and> trust p = TP_TRUST_UNKNOWN \<or>
   (\<exists>s. plan_after_direct p r = offer s \<and> offer_ok p s \<and> trust p \<noteq> TP_TRUST_UNKNOWN \<and>
     (trust p = TP_TRUST_MISMATCH \<and> st_target s = TP_TARGET_TRUSTED \<or>
      trust p \<noteq> TP_TRUST_MISMATCH \<and> st_target s = TP_TARGET_ORIGINAL \<and> \<not> original_unreachable p \<and> r \<noteq> TP_RES_CONNECT_FAIL))"
  using next_bypass_Some [of p TP_TARGET_TRUSTED] next_bypass_Some [of p TP_TARGET_ORIGINAL]
  by (auto simp: plan_after_direct_def Let_def offer_ok_def offer_eq split: option.splits)

lemma ladder_cases:
  "plan_ladder p = TP_NEXT_DONE \<or> plan_ladder p = TP_NEXT_NEED_DNS \<and> trust p = TP_TRUST_UNKNOWN \<or>
   (\<exists>s. plan_ladder p = offer s \<and> offer_ok p s \<and>
     (s = direct_step \<or> pl_listed p \<and> \<not> original_unreachable p \<and> st_target s = TP_TARGET_ORIGINAL \<or>
      trust p \<noteq> TP_TRUST_UNKNOWN \<and> (direct_bad p \<or> original_unreachable p \<or> was_tried p direct_step \<noteq> None) \<and>
      (trust p = TP_TRUST_MISMATCH \<and> st_target s = TP_TARGET_TRUSTED \<or>
       trust p \<noteq> TP_TRUST_MISMATCH \<and> st_target s = TP_TARGET_ORIGINAL \<and> \<not> original_unreachable p)))"
proof -
  consider (bypass) s where "pl_listed p" "\<not> original_unreachable p" "next_bypass p TP_TARGET_ORIGINAL = Some s" "plan_ladder p = offer s"
    | (direct) "plan_ladder p = offer direct_step" "was_tried p direct_step = None"
    | (after) r where "plan_ladder p = plan_after_direct p r" "direct_bad p \<or> original_unreachable p \<or> was_tried p direct_step \<noteq> None"
    unfolding plan_ladder_def Let_def direct_step_def [symmetric]
    by (cases "pl_listed p \<and> \<not> original_unreachable p"; cases "next_bypass p TP_TARGET_ORIGINAL";
        cases "was_tried p direct_step"; cases "direct_bad p"; cases "original_unreachable p") auto
  then show ?thesis
  proof cases
    case bypass
    then show ?thesis using next_bypass_Some [OF bypass(3)] by (auto simp: offer_ok_def)
  next
    case direct
    then show ?thesis by (auto simp: offer_ok_def direct_step_def)
  next
    case (after r)
    then show ?thesis using after_direct_cases [of p r] by auto
  qed
qed

lemma direct_ok: "tried p = [] \<Longrightarrow> offer_ok p (step_of TP_TARGET_ORIGINAL STRATEGY_PASS)"
  "tried p = [] \<Longrightarrow> offer_ok p (step_of TP_TARGET_ORIGINAL (first_bypass p))"
  using bypass_kinds(1) [of p] by (simp_all add: offer_ok_def)

lemma normalize_offer_ok: "was_tried p (normalize p s) = None \<Longrightarrow> offer_ok p (normalize p s)"
  using normalize_ok [of p s] by (auto simp: offer_ok_def)

text \<open>The branches of \<open>tp_plan_next\<close> before the ladder.\<close>

lemma plan_next_ladder:
  obtains (stop) "tp_plan_next p = TP_NEXT_DONE"
    | (early) s where "tp_plan_next p = offer s" "offer_ok p s" "length (tried p) < TP_MAX_ATTEMPTS"
        "s = direct_step \<or> in_cooldown p \<and> pl_listed p \<or> has_manual p \<or> has_cached p"
    | (dns) "tp_plan_next p = TP_NEXT_NEED_DNS" "trust p = TP_TRUST_UNKNOWN"
    | (ladder) "tp_plan_next p = plan_ladder p" "length (tried p) < TP_MAX_ATTEMPTS" "has_host p" "\<not> in_cooldown p" "\<not> has_manual p"
proof -
  note defs = tp_plan_next_def Let_def direct_step_def
  consider "length (tried p) \<ge> TP_MAX_ATTEMPTS"
    | "length (tried p) < TP_MAX_ATTEMPTS" "tp_plan_next p = TP_NEXT_DONE"
    | "length (tried p) < TP_MAX_ATTEMPTS" "tp_plan_next p \<noteq> TP_NEXT_DONE" "\<not> has_host p \<or> has_manual p \<and> stream_strategy (manual p) = STRATEGY_PASS"
    | "length (tried p) < TP_MAX_ATTEMPTS" "tp_plan_next p \<noteq> TP_NEXT_DONE" "\<not> (\<not> has_host p \<or> has_manual p \<and> stream_strategy (manual p) = STRATEGY_PASS)"
        "in_cooldown p \<or> has_manual p"
    | "length (tried p) < TP_MAX_ATTEMPTS" "tp_plan_next p \<noteq> TP_NEXT_DONE" "has_host p" "\<not> in_cooldown p" "\<not> has_manual p"
    by (cases "length (tried p) < TP_MAX_ATTEMPTS") auto
  then show thesis
  proof cases
    case 1
    then show thesis using stop by (simp add: defs)
  next
    case 2
    then show thesis using stop by blast
  next
    case 3
    then have "tried p = []" "tp_plan_next p = offer direct_step" by (auto simp: defs split: if_splits)
    then show thesis using early [of direct_step] 3(1) direct_ok(1) [of p] by (simp add: direct_step_def)
  next
    case 4
    then have n: "tried p = []" by (auto simp: defs split: if_splits)
    then show thesis
      using 4 early direct_ok [OF n] dns normalize_offer_ok [of p "step_of TP_TARGET_TRUSTED (manual p)"]
      by (auto simp: defs split: if_splits)
  next
    case 5
    then show thesis
      using early [of "normalize p (cached p)"] normalize_offer_ok [of p "cached p"] dns ladder
      by (cases "has_cached p") (auto simp: defs split: if_splits)
  qed
qed

lemma plan_next_cases:
  "tp_plan_next p = TP_NEXT_DONE \<or> tp_plan_next p = TP_NEXT_NEED_DNS \<and> trust p = TP_TRUST_UNKNOWN \<or>
   (\<exists>s. tp_plan_next p = offer s \<and> offer_ok p s \<and> length (tried p) < TP_MAX_ATTEMPTS)"
  by (cases p rule: plan_next_ladder) (use ladder_cases [of p] in auto)

section \<open>Running the plan\<close>

definition answered :: "tp_result \<Rightarrow> bool" where
  "answered r \<longleftrightarrow> r = TP_RES_OK \<or> r = TP_RES_ALERT"

definition plan_inv :: "tp_plan \<Rightarrow> bool" where
  "plan_inv p \<longleftrightarrow> length (tried p) \<le> TP_MAX_ATTEMPTS \<and> distinct (map fst (tried p)) \<and>
     list_all (\<lambda>(s, r). st_strategy s \<in> {STRATEGY_PASS, STRATEGY_TLSREC, STRATEGY_TLSREC_SPLIT} \<and>
       (st_target s = TP_TARGET_TRUSTED \<longrightarrow> trust p = TP_TRUST_MISMATCH)) (tried p)"

text \<open>Rounds left: attempts, one lookup, and the round that ends.\<close>

definition plan_rounds :: "tp_plan \<Rightarrow> nat" where
  "plan_rounds p = (TP_MAX_ATTEMPTS - length (tried p)) + (if trust p = TP_TRUST_UNKNOWN then 1 else 0) + 1"

lemma plan_inv_trust: "plan_inv p \<Longrightarrow> trust p = TP_TRUST_UNKNOWN \<Longrightarrow> plan_inv (p\<lparr>trust := t\<rparr>)"
  by (auto simp: plan_inv_def list_all_iff)

lemma plan_inv_record:
  "plan_inv p \<Longrightarrow> offer_ok p s \<Longrightarrow> length (tried p) < TP_MAX_ATTEMPTS \<Longrightarrow> plan_inv (tp_plan_record p s r)"
  by (auto simp: plan_inv_def tp_plan_record_def offer_ok_def was_tried_None)

text \<open>What the plan makes of its attempts: \<open>I\<close> is kept by attempts without an answer and by lookups, \<open>J\<close> holds
  after one that is answered.\<close>

definition plan_outcome :: "('u \<Rightarrow> bool) \<Rightarrow> (tp_step \<Rightarrow> tp_result \<Rightarrow> 'u \<Rightarrow> bool) \<Rightarrow> tp_step option \<Rightarrow> tp_plan \<Rightarrow> 'u \<Rightarrow> bool" where
  "plan_outcome I J res p u \<longleftrightarrow> (case res of
     None \<Rightarrow> list_all (\<lambda>(s, r). \<not> answered r) (tried p) \<and> I u
   | Some s \<Rightarrow> \<exists>ts r. tried p = ts @ [(s, r)] \<and> answered r \<and> list_all (\<lambda>(s, r). \<not> answered r) ts \<and> J s r u)"

lemma plan_loop_run:
  assumes attempt: "\<And>s t u. I u \<Longrightarrow> \<exists>r u'. attempt s t u = Some (r, u') \<and> (if answered r then J s r u' else I u')"
    and lookup: "\<And>u. I u \<Longrightarrow> \<exists>t u'. lookup u = Some (t, u') \<and> t \<noteq> TP_TRUST_UNKNOWN \<and> I u'"
  shows "plan_rounds p \<le> fuel \<Longrightarrow> plan_inv p \<Longrightarrow> list_all (\<lambda>(s, r). \<not> answered r) (tried p) \<Longrightarrow> I u \<Longrightarrow>
    \<exists>res p' u'. plan_loop attempt lookup fuel p u = Some (res, p', u') \<and> plan_inv p' \<and> plan_outcome I J res p' u'"
proof (induction fuel arbitrary: p u)
  case 0
  then show ?case by (simp add: plan_rounds_def)
next
  case (Suc fuel)
  consider (stop) "tp_plan_next p = TP_NEXT_DONE"
    | (dns) "tp_plan_next p = TP_NEXT_NEED_DNS" "trust p = TP_TRUST_UNKNOWN"
    | (att) s where "tp_plan_next p = TP_NEXT_ATTEMPT s TP_REPLY_TIMEOUT_MS" "offer_ok p s" "length (tried p) < TP_MAX_ATTEMPTS"
    using plan_next_cases [of p] by (auto simp: offer_def)
  then show ?case
  proof cases
    case stop
    then show ?thesis using Suc.prems by (simp add: plan_outcome_def)
  next
    case dns
    obtain t u1 where l: "lookup u = Some (t, u1)" "t \<noteq> TP_TRUST_UNKNOWN" "I u1" using lookup Suc.prems(4) by blast
    show ?thesis
      using Suc.IH [of "p\<lparr>trust := t\<rparr>" u1] Suc.prems dns l plan_inv_trust by (simp add: plan_rounds_def)
  next
    case (att s)
    obtain r u1 where a: "attempt s TP_REPLY_TIMEOUT_MS u = Some (r, u1)" "if answered r then J s r u1 else I u1"
      using attempt Suc.prems(4) by blast
    let ?p = "tp_plan_record p s r"
    have inv: "plan_inv ?p" using plan_inv_record Suc.prems(2) att(2,3) by blast
    have t: "tried ?p = tried p @ [(s, r)]" "trust ?p = trust p" using att(3) by (simp_all add: tp_plan_record_def)
    show ?thesis
    proof (cases "answered r")
      case True
      then show ?thesis using att a inv t Suc.prems(3) by (simp add: answered_def Let_def plan_outcome_def)
    next
      case False
      then have "\<exists>res p' u'. plan_loop attempt lookup fuel ?p u1 = Some (res, p', u') \<and> plan_inv p' \<and> plan_outcome I J res p' u'"
        using Suc.prems att(3) t inv a(2) by (intro Suc.IH) (auto simp: plan_rounds_def)
      then show ?thesis using att(1) a(1) False by (simp add: answered_def Let_def)
    qed
  qed
qed

lemma plan_run_inv:
  assumes "\<And>s t u. I u \<Longrightarrow> \<exists>r u'. attempt s t u = Some (r, u') \<and> (if answered r then J s r u' else I u')"
    and "\<And>u. I u \<Longrightarrow> \<exists>t u'. lookup u = Some (t, u') \<and> t \<noteq> TP_TRUST_UNKNOWN \<and> I u'"
    and "tried p = []" "I u"
  shows "\<exists>res p' u'. plan_loop attempt lookup 6 p u = Some (res, p', u') \<and> plan_inv p' \<and> plan_outcome I J res p' u'"
  by (rule plan_loop_run [OF assms(1,2)]) (use assms(3,4) in \<open>simp_all add: plan_rounds_def plan_inv_def TP_MAX_ATTEMPTS_def\<close>)

section \<open>Listed hosts\<close>

lemma trim_right_append: "\<exists>rest. s = trim_right P s @ rest"
  unfolding trim_right_def by (metis rev_append rev_rev_ident takeWhile_dropWhile_id)

lemma listed_one:
  "(if length h = length d \<and> same_prefix (length d) (h @ rest) d then True
    else length h > length d \<and> (h @ rest) ! (length h - length d - 1) = CHR ''.'' \<and>
      same_prefix (length d) (drop (length h - length d) (h @ rest)) d) \<longleftrightarrow>
   ieq h d \<or> (\<exists>p q. h = p @ CHR ''.'' # q \<and> ieq q d)" (is "?l \<longleftrightarrow> ?r")
proof
  assume l: ?l
  show ?r
  proof (cases "length h = length d \<and> same_prefix (length d) (h @ rest) d")
    case False
    let ?k = "length h - length d - 1"
    have k: "length d < length h" "(h @ rest) ! ?k = CHR ''.''" "same_prefix (length d) (drop (Suc ?k) (h @ rest)) d"
      using l False by (auto simp: Suc_diff_Suc)
    have lt: "?k < length h" using k(1) by simp
    have "h ! ?k = CHR ''.''" using k(2) lt by (simp add: nth_append)
    moreover have "h = take ?k h @ h ! ?k # drop (Suc ?k) h" by (rule id_take_nth_drop [OF lt])
    moreover have "ieq (drop (Suc ?k) h) d" using k by (simp add: same_prefix_def)
    ultimately show ?thesis by metis
  qed (auto simp: same_prefix_def)
next
  assume r: ?r
  show ?l
  proof (cases "ieq h d")
    case True
    then show ?thesis using ieq_length [OF True] by (simp add: same_prefix_def)
  next
    case False
    then obtain p q where pq: "h = p @ CHR ''.'' # q" "ieq q d" using r by auto
    have "length q = length d" using ieq_length [OF pq(2)] .
    then show ?thesis using pq by (simp add: same_prefix_def nth_append)
  qed
qed

text \<open>A listed domain, or a subdomain of one, in any letter case and with any number of final dots.\<close>

lemma host_listed_iff:
  "tp_host_listed (Some host) \<longleftrightarrow>
   (\<exists>d \<in> set g_listed. let h = trim_right (\<lambda>c. c = CHR ''.'') host in
      ieq h d \<or> (\<exists>p q. h = p @ CHR ''.'' # q \<and> ieq q d))"
proof -
  let ?h = "trim_right (\<lambda>c. c = CHR ''.'') host"
  obtain rest where h: "host = ?h @ rest" using trim_right_append by blast
  show ?thesis
    unfolding tp_host_listed_def Let_def option.case list_ex_iff
    using listed_one [of ?h _ rest] unfolding h [symmetric] by simp
qed

section \<open>Properties\<close>

text \<open>Claim C4. Running a plan always ends, within four attempts, one lookup and six rounds: no step is
  tried twice, every step is a plain pass or a TLS record split, the trusted address is used only when
  the trusted resolver disagreed with the application's address, and the run either commits the last
  step tried, the first to get a TLS answer, or ends with no answer to any.\<close>

theorem plan_run_correct:
  assumes "\<And>s t u. attempt s t u \<noteq> None" "\<And>u. \<exists>t u'. lookup u = Some (t, u') \<and> t \<noteq> TP_TRUST_UNKNOWN" and "tried p = []"
  shows "\<exists>res p' u'. plan_loop attempt lookup 6 p u = Some (res, p', u') \<and>
    length (tried p') \<le> 4 \<and> distinct (map fst (tried p')) \<and>
    list_all (\<lambda>(s, r). st_strategy s \<in> {STRATEGY_PASS, STRATEGY_TLSREC, STRATEGY_TLSREC_SPLIT} \<and>
      (st_target s = TP_TARGET_ORIGINAL \<or> trust p' = TP_TRUST_MISMATCH)) (tried p') \<and>
    (case res of None \<Rightarrow> list_all (\<lambda>(s, r). \<not> answered r) (tried p')
     | Some s \<Rightarrow> \<exists>ts r. tried p' = ts @ [(s, r)] \<and> answered r \<and> list_all (\<lambda>(s, r). \<not> answered r) ts)"
proof -
  have a: "\<exists>r u'. attempt s t u = Some (r, u') \<and> (if answered r then True else True)" for s t u using assms(1) [of s t u] by auto
  have l: "\<exists>t u'. lookup u = Some (t, u') \<and> t \<noteq> TP_TRUST_UNKNOWN \<and> True" for u using assms(2) [of u] by simp
  obtain res p' u' where w: "plan_loop attempt lookup 6 p u = Some (res, p', u')" "plan_inv p'" "plan_outcome (\<lambda>u. True) (\<lambda>s r u. True) res p' u'"
    using plan_run_inv [where I = "\<lambda>u. True" and J = "\<lambda>s r u. True" and u = u and attempt = attempt and lookup = lookup,
        OF a l assms(3)] by blast
  have "st_target s = TP_TARGET_ORIGINAL \<or> st_target s = TP_TARGET_TRUSTED" for s :: tp_step
    by (cases "st_target s") simp_all
  then show ?thesis
    using w by (intro exI [of _ res] exI [of _ p'] exI [of _ u'])
      (auto simp: plan_inv_def plan_outcome_def TP_MAX_ATTEMPTS_def list_all_iff split: option.splits)
qed

theorem plan_run_correct_witness:
  "\<exists>res p' u'. plan_loop (\<lambda>s t u. Some (TP_RES_RESET, u)) (\<lambda>u. Some (TP_TRUST_MATCH, u)) 6 (tp_plan_init\<lparr>has_host := True\<rparr>) () =
     Some (res, p', u') \<and> length (tried p') \<le> 4 \<and> distinct (map fst (tried p'))"
  using plan_run_correct [of "\<lambda>s t u. Some (TP_RES_RESET, u)" "\<lambda>u. Some (TP_TRUST_MATCH, u)" "tp_plan_init\<lparr>has_host := True\<rparr>" "()"]
  by (auto simp: tp_plan_init_def)

text \<open>For a host with no manual rule, no cached decision and no place on the list, nothing but
  the plain connection to the application's own address is offered before that connection failed or is
  known to be bad, and before the trusted resolver was asked; and no rewrite is offered for an address
  that did not accept the connection.\<close>

theorem bypass_only_after_direct_failed:
  assumes "tp_plan_next p = TP_NEXT_ATTEMPT s t" "s \<noteq> direct_step"
    and "\<not> pl_listed p" "\<not> has_manual p" "\<not> has_cached p"
  shows "has_host p \<and> \<not> in_cooldown p \<and> trust p \<noteq> TP_TRUST_UNKNOWN \<and>
    (direct_bad p \<or> original_unreachable p \<or> was_tried p direct_step \<noteq> None) \<and>
    (st_target s = TP_TARGET_TRUSTED \<and> trust p = TP_TRUST_MISMATCH \<or>
     st_target s = TP_TARGET_ORIGINAL \<and> trust p \<noteq> TP_TRUST_MISMATCH \<and> \<not> original_unreachable p)"
  by (cases p rule: plan_next_ladder) (use assms ladder_cases [of p] in \<open>auto simp: offer_def\<close>)

theorem bypass_only_after_direct_failed_witness:
  "tp_plan_next (tp_plan_init\<lparr>has_host := True, trust := TP_TRUST_MATCH, tried := [(direct_step, TP_RES_RESET)]\<rparr>) =
     TP_NEXT_ATTEMPT (step_of TP_TARGET_ORIGINAL STRATEGY_TLSREC) 4000 \<and>
   \<not> original_unreachable (tp_plan_init\<lparr>has_host := True, trust := TP_TRUST_MATCH, tried := [(direct_step, TP_RES_RESET)]\<rparr>)"
proof -
  let ?p = "tp_plan_init\<lparr>has_host := True, trust := TP_TRUST_MATCH, tried := [(direct_step, TP_RES_RESET)]\<rparr>"
  have n: "tp_plan_next ?p = TP_NEXT_ATTEMPT (step_of TP_TARGET_ORIGINAL STRATEGY_TLSREC) 4000" by code_simp
  moreover have "step_of TP_TARGET_ORIGINAL STRATEGY_TLSREC \<noteq> direct_step" by (simp add: direct_step_def step_of_def)
  ultimately show ?thesis using bypass_only_after_direct_failed [OF n] by (simp add: tp_plan_init_def)
qed

text \<open>A host is on the built-in list exactly when, without its final dots and whatever its
  letter case, it is one of the listed domains or a subdomain of one.\<close>

theorem host_listed_correct:
  "tp_host_listed (Some host) \<longleftrightarrow>
   (\<exists>d \<in> set g_listed. let h = trim_right (\<lambda>c. c = CHR ''.'') host in
      ieq h d \<or> (\<exists>p q. h = p @ CHR ''.'' # q \<and> ieq q d))"
  by (rule host_listed_iff)

text \<open>During a host's cooldown its manual rule is not applied - the plain connection is offered
  instead - while the source of the attempt is still reported as the manual rule.\<close>

theorem cooldown_overrides_manual:
  "tp_plan_next (tp_plan_init\<lparr>has_host := True, has_manual := True, manual := STRATEGY_TLSREC, in_cooldown := True\<rparr>) =
     TP_NEXT_ATTEMPT direct_step 4000 \<and>
   tp_plan_source (tp_plan_init\<lparr>has_host := True, has_manual := True, manual := STRATEGY_TLSREC, in_cooldown := True\<rparr>) = TP_SRC_MANUAL"
  by code_simp

end
