(* ===== verification/Decisions.thy ===== *)
theory Decisions
  imports Policy Discovery Slots
begin

text \<open>
  The per-host memory of the transparent daemon, second half of \<open>src/transparent/policy.c\<close>: decisions
  (which step worked for a host on a network), cooldowns and direct-bad marks, and the decisions file.
  Whether \<open>realloc\<close> succeeds is a parameter. \<open>d->entries\<close> up to \<open>d->count\<close> is a list; the time is an
  integer.
\<close>

section \<open>State\<close>

definition TP_COOLDOWN_SECONDS :: int where "TP_COOLDOWN_SECONDS = 60"
definition TP_COOLDOWN_MAX :: nat where "TP_COOLDOWN_MAX = 64"
definition TP_DECISION_TTL_SECONDS :: int where "TP_DECISION_TTL_SECONDS = 24 * 3600"
definition TP_DECISIONS_MAX :: nat where "TP_DECISIONS_MAX = 2048"
definition TP_DIRECT_BAD_MAX :: nat where "TP_DIRECT_BAD_MAX = 128"
definition TP_DIRECT_BAD_TTL_SECONDS :: int where "TP_DIRECT_BAD_TTL_SECONDS = 3600"

record tp_decision =
  td_host :: string
  td_fingerprint :: u64
  td_family :: int
  td_step :: tp_step
  td_validated_at :: int
  td_quic_blocked_at :: int

record tp_cooldown =
  cd_host :: string
  cd_until :: int

record tp_mark =
  mk_host :: string
  mk_fingerprint :: u64
  mk_family :: int
  mk_until :: int

record tp_decisions =
  d_entries :: "tp_decision list"
  d_cap :: nat
  d_cooldown :: "tp_cooldown list"
  d_direct_bad :: "tp_mark list"
  d_dirty :: bool

definition decision0 :: tp_decision where
  "decision0 = \<lparr>td_host = [], td_fingerprint = 0, td_family = 0, td_step = step_of TP_TARGET_ORIGINAL STRATEGY_PASS,
     td_validated_at = 0, td_quic_blocked_at = 0\<rparr>"

definition cooldown0 :: tp_cooldown where "cooldown0 = \<lparr>cd_host = [], cd_until = 0\<rparr>"

definition mark0 :: tp_mark where "mark0 = \<lparr>mk_host = [], mk_fingerprint = 0, mk_family = 0, mk_until = 0\<rparr>"

definition tp_decisions_init :: tp_decisions where
  "tp_decisions_init = \<lparr>d_entries = [], d_cap = 0, d_cooldown = replicate TP_COOLDOWN_MAX cooldown0,
     d_direct_bad = replicate TP_DIRECT_BAD_MAX mark0, d_dirty = False\<rparr>"

section \<open>Decisions\<close>

definition fresh :: "tp_decision \<Rightarrow> u64 \<Rightarrow> int \<Rightarrow> bool" where
  "fresh e fp now = (fp \<noteq> NETFP_UNKNOWN \<and> td_fingerprint e = fp \<and> now \<ge> td_validated_at e \<and>
     now - td_validated_at e < TP_DECISION_TTL_SECONDS)"

definition dec_match :: "string \<Rightarrow> u64 \<Rightarrow> int \<Rightarrow> tp_decision \<Rightarrow> bool" where
  "dec_match host fp family e = (td_fingerprint e = fp \<and> td_family e = family \<and> ieq (td_host e) host)"

definition dec_find :: "tp_decisions \<Rightarrow> string \<Rightarrow> u64 \<Rightarrow> int \<Rightarrow> nat option" where
  "dec_find d host fp family = first_idx (dec_match host fp family) (d_entries d)"

definition tp_decision_lookup :: "tp_decisions \<Rightarrow> string \<Rightarrow> u64 \<Rightarrow> int \<Rightarrow> int \<Rightarrow> tp_decision option" where
  "tp_decision_lookup d host fp family now =
     (case dec_find d host fp family of
        None \<Rightarrow> None
      | Some i \<Rightarrow> if \<not> fresh (d_entries d ! i) fp now then None else Some (d_entries d ! i))"

definition remove_entry :: "tp_decisions \<Rightarrow> nat \<Rightarrow> tp_decisions" where
  "remove_entry d i = d\<lparr>d_entries := butlast ((d_entries d)[i := last (d_entries d)]), d_dirty := True\<rparr>"

text \<open>The slot handed out, in the table that has it: a fresh one at the end, or the least recently
  validated one. Both callers clear it first. \<^const>\<open>None\<close> is \<open>NULL\<close>.\<close>

definition new_slot :: "bool \<Rightarrow> tp_decisions \<Rightarrow> (tp_decisions \<times> nat) option" where
  "new_slot realloc_ok d =
     (let count = length (d_entries d); oldest = Some (d, oldest_idx td_validated_at (d_entries d)) in
      if count < d_cap d then Some (d\<lparr>d_entries := d_entries d @ [decision0]\<rparr>, count)
      else if d_cap d < TP_DECISIONS_MAX then
        let cap = (if d_cap d \<noteq> 0 then d_cap d * 2 else 16);
            cap = (if cap > TP_DECISIONS_MAX then TP_DECISIONS_MAX else cap) in
        if realloc_ok then Some (d\<lparr>d_cap := cap, d_entries := d_entries d @ [decision0]\<rparr>, count)
        else if count = 0 then None else oldest
      else oldest)"

definition put_decision :: "bool \<Rightarrow> string \<Rightarrow> u64 \<Rightarrow> int \<Rightarrow> tp_step \<Rightarrow> int \<Rightarrow> tp_decisions \<Rightarrow> tp_decisions option" where
  "put_decision realloc_ok host fp family step validated d =
     (case dec_find d host fp family of
        Some i \<Rightarrow> Some (d\<lparr>d_entries := (d_entries d)[i := (d_entries d ! i)\<lparr>td_step := step, td_validated_at := validated\<rparr>]\<rparr>)
      | None \<Rightarrow>
          (case new_slot realloc_ok d of
             None \<Rightarrow> None
           | Some (d, i) \<Rightarrow> Some (d\<lparr>d_entries := (d_entries d)[i := decision0\<lparr>td_host := take 255 host, td_fingerprint := fp,
               td_family := family, td_step := step, td_validated_at := validated\<rparr>]\<rparr>)))"

section \<open>Cooldowns and marks\<close>

definition cd_match :: "string \<Rightarrow> tp_cooldown \<Rightarrow> bool" where
  "cd_match host e = (cd_host e \<noteq> [] \<and> ieq (cd_host e) host)"

definition cooldown_find :: "tp_decisions \<Rightarrow> string \<Rightarrow> nat option" where
  "cooldown_find d host = first_idx (cd_match host) (d_cooldown d)"

definition clear_cooldown :: "string \<Rightarrow> tp_decisions \<Rightarrow> tp_decisions" where
  "clear_cooldown host d =
     (case cooldown_find d host of
        None \<Rightarrow> d | Some i \<Rightarrow> d\<lparr>d_cooldown := (d_cooldown d)[i := (d_cooldown d ! i)\<lparr>cd_host := []\<rparr>]\<rparr>)"

definition tp_decision_success :: "bool \<Rightarrow> tp_decisions \<Rightarrow> string \<Rightarrow> u64 \<Rightarrow> int \<Rightarrow> int \<Rightarrow> tp_step \<Rightarrow> tp_decisions" where
  "tp_decision_success realloc_ok d host fp family now step =
     (let d = clear_cooldown host d in
      if fp = NETFP_UNKNOWN \<or> length host \<ge> STRATEGY_DOMAIN_MAX then d
      else let e = dec_find d host fp family in
        if st_target step = TP_TARGET_ORIGINAL \<and> st_strategy step = STRATEGY_PASS then
          (case e of Some i \<Rightarrow> remove_entry d i | None \<Rightarrow> d)
        else if (case e of None \<Rightarrow> False | Some i \<Rightarrow>
            fresh (d_entries d ! i) fp now \<and> st_target (td_step (d_entries d ! i)) = st_target step \<and>
            st_strategy (td_step (d_entries d ! i)) = st_strategy step \<and>
            now - td_validated_at (d_entries d ! i) < TP_DECISION_TTL_SECONDS div 2) then d
        else (case put_decision realloc_ok host fp family step now d of
                None \<Rightarrow> d | Some d \<Rightarrow> d\<lparr>d_dirty := True\<rparr>))"

definition cd_reusable :: "int \<Rightarrow> tp_cooldown \<Rightarrow> bool" where
  "cd_reusable now e = (cd_host e = [] \<or> cd_until e \<le> now)"

definition tp_decision_failure :: "tp_decisions \<Rightarrow> string \<Rightarrow> u64 \<Rightarrow> int \<Rightarrow> int \<Rightarrow> tp_decisions" where
  "tp_decision_failure d host fp family now =
     (let cd = slot_for (cd_match host) (cd_reusable now) cd_until (d_cooldown d);
          d = (if length host < STRATEGY_DOMAIN_MAX
               then d\<lparr>d_cooldown := (d_cooldown d)[cd := \<lparr>cd_host = host, cd_until = now + TP_COOLDOWN_SECONDS\<rparr>]\<rparr> else d) in
      case dec_find d host fp family of Some i \<Rightarrow> remove_entry d i | None \<Rightarrow> d)"

definition tp_in_cooldown :: "tp_decisions \<Rightarrow> string \<Rightarrow> int \<Rightarrow> bool" where
  "tp_in_cooldown d host now =
     (case first_idx (cd_match host) (d_cooldown d) of Some i \<Rightarrow> cd_until (d_cooldown d ! i) > now | None \<Rightarrow> False)"

definition mk_match :: "string \<times> u64 \<times> int \<Rightarrow> tp_mark \<Rightarrow> bool" where
  "mk_match k e = (case k of (host, fp, family) \<Rightarrow>
     mk_host e \<noteq> [] \<and> mk_fingerprint e = fp \<and> mk_family e = family \<and> ieq (mk_host e) host)"

definition mark_find :: "tp_decisions \<Rightarrow> string \<Rightarrow> u64 \<Rightarrow> int \<Rightarrow> nat option" where
  "mark_find d host fp family = first_idx (mk_match (host, fp, family)) (d_direct_bad d)"

definition mk_reusable :: "int \<Rightarrow> tp_mark \<Rightarrow> bool" where
  "mk_reusable now e = (mk_host e = [] \<or> mk_until e \<le> now)"

definition tp_direct_bad_mark :: "tp_decisions \<Rightarrow> string \<Rightarrow> u64 \<Rightarrow> int \<Rightarrow> int \<Rightarrow> tp_decisions" where
  "tp_direct_bad_mark d host fp family now =
     (if fp = NETFP_UNKNOWN \<or> length host \<ge> STRATEGY_DOMAIN_MAX then d
      else let m = slot_for (mk_match (host, fp, family)) (mk_reusable now) mk_until (d_direct_bad d) in
        d\<lparr>d_direct_bad := (d_direct_bad d)[m :=
          \<lparr>mk_host = host, mk_fingerprint = fp, mk_family = family, mk_until = now + TP_DIRECT_BAD_TTL_SECONDS\<rparr>]\<rparr>)"

definition tp_direct_bad :: "tp_decisions \<Rightarrow> string \<Rightarrow> u64 \<Rightarrow> int \<Rightarrow> int \<Rightarrow> bool" where
  "tp_direct_bad d host fp family now =
     (if fp = NETFP_UNKNOWN then False
      else case mark_find d host fp family of None \<Rightarrow> False | Some i \<Rightarrow> mk_until (d_direct_bad d ! i) > now)"

definition tp_decisions_network_changed :: "tp_decisions \<Rightarrow> tp_decisions" where
  "tp_decisions_network_changed d = d\<lparr>d_cooldown := replicate TP_COOLDOWN_MAX cooldown0,
     d_direct_bad := replicate TP_DIRECT_BAD_MAX mark0\<rparr>"

section \<open>The decisions file\<close>

text \<open>\<open>sscanf(line, "%255s %llx %d %31s %31s %lld", ...)\<close>, \<^const>\<open>None\<close> unless it converts six.\<close>

definition scan_decision :: "string \<Rightarrow> (string \<times> u64 \<times> int \<times> string \<times> string \<times> int) option" where
  "scan_decision line = do {
     (host, r) \<leftarrow> scan_word 255 line;
     (fp, r) \<leftarrow> scan_hex r;
     (family, r) \<leftarrow> scan_int r;
     (strat, r) \<leftarrow> scan_word 31 r;
     (target, r) \<leftarrow> scan_word 31 r;
     (validated, r) \<leftarrow> scan_dec r;
     Some (host, fp, family, strat, target, validated)
   }"

text \<open>\<^const>\<open>None\<close> is the result -1.\<close>

definition dec_parse_line :: "bool \<Rightarrow> tp_decisions \<Rightarrow> string \<Rightarrow> tp_decisions option" where
  "dec_parse_line realloc_ok d line = do {
     (host, fp, family, strat, target, validated) \<leftarrow> scan_decision line;
     strategy \<leftarrow> (if (family \<noteq> 4 \<and> family \<noteq> 6) \<or> fp = NETFP_UNKNOWN then None else strategy_from_name strat);
     if strategy \<noteq> STRATEGY_PASS \<and> strategy \<noteq> STRATEGY_TLSREC \<and> strategy \<noteq> STRATEGY_TLSREC_SPLIT then None
     else do {
       tgt \<leftarrow> (if target = ''original'' then Some TP_TARGET_ORIGINAL
               else if target = ''trusted'' then Some TP_TARGET_TRUSTED else None);
       if tgt = TP_TARGET_ORIGINAL \<and> strategy = STRATEGY_PASS then None
       else put_decision realloc_ok host fp family \<lparr>st_target = tgt, st_strategy = strategy\<rparr> validated d
     }
   }"

text \<open>The body of the reading loop for one line: the table and the number of lines skipped.\<close>

definition dec_line :: "bool \<Rightarrow> string \<Rightarrow> tp_decisions \<times> nat \<Rightarrow> tp_decisions \<times> nat" where
  "dec_line realloc_ok raw st =
     (case st of (d, skipped) \<Rightarrow>
      let line = trim_left (\<lambda>c. c = CHR '' '' \<or> c = CHR 0x09 \<or> c = CHR 0x0D) raw in
      if line = [] \<or> hd line = CHR ''#'' then (d, skipped)
      else case dec_parse_line realloc_ok d line of None \<Rightarrow> (d, skipped + 1) | Some d \<Rightarrow> (d, skipped))"

function dec_lines :: "bool \<Rightarrow> string \<Rightarrow> tp_decisions \<times> nat \<Rightarrow> tp_decisions \<times> nat" where
  "dec_lines realloc_ok inp st = (if inp = [] then st
     else dec_lines realloc_ok (snd (cut_line inp)) (dec_line realloc_ok (fst (cut_line inp)) st))"
  by pat_completeness auto
termination
  by (relation "measure (\<lambda>(ok, inp, st). length inp)") (auto simp: cut_line_shorter)

declare dec_lines.simps [simp del]

definition tp_decisions_parse :: "bool \<Rightarrow> tp_decisions \<Rightarrow> string \<Rightarrow> tp_decisions \<times> nat" where
  "tp_decisions_parse realloc_ok d inp =
     (case dec_lines realloc_ok inp (d, 0) of (d, skipped) \<Rightarrow> (d\<lparr>d_dirty := False\<rparr>, skipped))"

definition dec_header :: string where
  "dec_header = ''# dpi-proxyd decisions: host fingerprint family strategy target validated_at'' @ [CHR 0x0A]"

definition dec_text :: "tp_decision \<Rightarrow> string" where
  "dec_text e = td_host e @ '' '' @ hex_fixed 16 (unat (td_fingerprint e)) @ '' '' @ print_lld (td_family e) @ '' '' @
     strategy_name (st_strategy (td_step e)) @ '' '' @ tp_target_name (st_target (td_step e)) @ '' '' @
     print_lld (td_validated_at e) @ [CHR 0x0A]"

text \<open>What is written, the empty text standing for the result 0.\<close>

fun dec_serialize_loop :: "nat \<Rightarrow> tp_decision list \<Rightarrow> string \<Rightarrow> string" where
  "dec_serialize_loop out_size (e # es) out =
     (if length (dec_text e) \<ge> out_size - length out then []
      else dec_serialize_loop out_size es (out @ dec_text e))"
| "dec_serialize_loop out_size [] out = out"

definition tp_decisions_serialize :: "tp_decisions \<Rightarrow> nat \<Rightarrow> string" where
  "tp_decisions_serialize d out_size =
     (if length dec_header \<ge> out_size then [] else dec_serialize_loop out_size (d_entries d) dec_header)"

section \<open>The three tables\<close>

abbreviation dec_key :: "string \<times> u64 \<times> int \<Rightarrow> tp_decision \<Rightarrow> bool" where
  "dec_key k \<equiv> dec_match (fst k) (fst (snd k)) (snd (snd k))"

abbreviation same_key :: "string \<times> u64 \<times> int \<Rightarrow> string \<times> u64 \<times> int \<Rightarrow> bool" where
  "same_key k k' \<equiv> snd k = snd k' \<and> ieq (fst k) (fst k')"

interpretation dec_slots: slot_store dec_key "\<lambda>now e. False" td_validated_at same_key
  by unfold_locales (auto simp: dec_match_def ieq_iff)

interpretation cd_slots: slot_store cd_match cd_reusable cd_until ieq
  by unfold_locales (auto simp: cd_match_def ieq_iff)

interpretation mk_slots: slot_store mk_match mk_reusable mk_until same_key
  by unfold_locales (auto simp: mk_match_def ieq_iff)

definition dec_at :: "tp_decisions \<Rightarrow> string \<times> u64 \<times> int \<Rightarrow> tp_decision option" where
  "dec_at d k = List.find (dec_key k) (d_entries d)"

definition is_direct_step :: "tp_step \<Rightarrow> bool" where
  "is_direct_step s \<longleftrightarrow> st_target s = TP_TARGET_ORIGINAL \<and> st_strategy s = STRATEGY_PASS"

definition decision_ok :: "tp_decision \<Rightarrow> bool" where
  "decision_ok e \<longleftrightarrow> td_fingerprint e \<noteq> NETFP_UNKNOWN \<and> length (td_host e) < STRATEGY_DOMAIN_MAX \<and> \<not> is_direct_step (td_step e)"

definition decisions_inv :: "tp_decisions \<Rightarrow> bool" where
  "decisions_inv d \<longleftrightarrow>
     length (d_entries d) \<le> d_cap d \<and> d_cap d \<le> TP_DECISIONS_MAX \<and> dec_slots.unique (d_entries d) \<and>
     list_all decision_ok (d_entries d) \<and>
     length (d_cooldown d) = TP_COOLDOWN_MAX \<and> cd_slots.unique (d_cooldown d) \<and>
     length (d_direct_bad d) = TP_DIRECT_BAD_MAX \<and> mk_slots.unique (d_direct_bad d)"

lemma dec_find_at: "dec_at d k = map_option ((!) (d_entries d)) (dec_find d (fst k) (fst (snd k)) (snd (snd k)))"
  by (simp add: dec_at_def dec_find_def first_idx_find)

lemma lookup_at: "tp_decision_lookup d host fp family now =
  (case dec_at d (host, fp, family) of None \<Rightarrow> None | Some e \<Rightarrow> if fresh e fp now then Some e else None)"
  by (auto simp: tp_decision_lookup_def dec_find_at split: option.split)

lemma dec_find_Some: "dec_find d host fp family = Some i \<Longrightarrow> i < length (d_entries d) \<and> dec_match host fp family (d_entries d ! i)"
  by (simp add: dec_find_def first_idx_Some)

subsection \<open>Removing\<close>

definition removed :: "'a list \<Rightarrow> nat \<Rightarrow> 'a list" where
  "removed xs i = butlast (xs[i := last xs])"

lemma removed_nth:
  assumes "i < length xs" "j < length xs - 1"
  shows "removed xs i ! j = xs ! (if j = i then length xs - 1 else j)"
proof -
  have "removed xs i ! j = xs[i := last xs] ! j" using assms by (simp add: removed_def nth_butlast)
  moreover have "xs \<noteq> []" using assms by auto
  ultimately show ?thesis using assms by (simp add: nth_list_update last_conv_nth)
qed

lemma removed_length [simp]: "length (removed xs i) = length xs - 1"
  by (simp add: removed_def)

lemma removed_set: "i < length xs \<Longrightarrow> set (removed xs i) \<subseteq> set xs"
proof
  fix x assume i: "i < length xs" and "x \<in> set (removed xs i)"
  then obtain j where "j < length xs - 1" "x = removed xs i ! j" by (auto simp: in_set_conv_nth)
  then show "x \<in> set xs" using removed_nth [OF i] i by auto
qed

lemma removed_unique:
  assumes "dec_slots.unique es" "i < length es"
  shows "dec_slots.unique (removed es i)"
  unfolding dec_slots.unique_def
proof (intro allI impI)
  fix k a b
  assume ab: "a < length (removed es i)" "b < length (removed es i)" "dec_key k (removed es i ! a)" "dec_key k (removed es i ! b)"
  let ?f = "\<lambda>j. if j = i then length es - 1 else j"
  have "dec_key k (es ! ?f a)" "dec_key k (es ! ?f b)" "?f a < length es" "?f b < length es"
    using ab assms(2) removed_nth [OF assms(2)] by auto
  then have "?f a = ?f b" using assms(1) unfolding dec_slots.unique_def by blast
  then show "a = b" using ab by (auto split: if_splits)
qed

lemma removed_find:
  assumes u: "dec_slots.unique es" and i: "i < length es" "dec_key k (es ! i)"
  shows "List.find (dec_key k') (removed es i) = (if same_key k k' then None else List.find (dec_key k') es)"
proof (cases "same_key k k'")
  case True
  have "\<not> dec_key k' (removed es i ! j)" if j: "j < length es - 1" for j
  proof
    assume a: "dec_key k' (removed es i ! j)"
    let ?j = "if j = i then length es - 1 else j"
    from a have m: "dec_key k' (es ! ?j)" using removed_nth [OF i(1) j] by simp
    have "same_key k' k" using True by (simp add: ieq_sym)
    then have "dec_key k (es ! ?j)" using dec_slots.match_same [OF m] by blast
    moreover have "?j < length es" using j by auto
    ultimately have "?j = i" using u i unfolding dec_slots.unique_def by blast
    then show False using j i by (auto split: if_splits)
  qed
  then show ?thesis using True by (auto simp: find_None_iff in_set_conv_nth)
next
  case False
  show ?thesis
  proof (cases "\<exists>j < length es. dec_key k' (es ! j)")
    case True
    then obtain j where j: "j < length es" "dec_key k' (es ! j)" by blast
    have "j \<noteq> i" using False i(2) j(2) dec_slots.match_same by metis
    let ?j = "if j = length es - 1 then i else j"
    have "?j < length (removed es i)" "removed es i ! ?j = es ! j"
      using j i \<open>j \<noteq> i\<close> removed_nth [OF i(1), of ?j] by auto
    then have "List.find (dec_key k') (removed es i) = Some (es ! j)"
      using dec_slots.unique_find [OF removed_unique [OF u i(1)], of ?j k'] j(2) by simp
    then show ?thesis using False dec_slots.unique_find [OF u j] by simp
  next
    case no: False
    then have "List.find (dec_key k') es = None" by (auto simp: find_None_iff in_set_conv_nth)
    moreover have "List.find (dec_key k') (removed es i) = None"
      using no removed_set [OF i(1)] by (fastforce simp: find_None_iff in_set_conv_nth)
    ultimately show ?thesis using False by simp
  qed
qed

lemma remove_entry_removed: "remove_entry d i = d\<lparr>d_entries := removed (d_entries d) i, d_dirty := True\<rparr>"
  by (simp add: remove_entry_def removed_def)

subsection \<open>Storing\<close>

abbreviation dec_slot :: "string \<times> u64 \<times> int \<Rightarrow> tp_decision list \<Rightarrow> nat" where
  "dec_slot k es \<equiv> slot_for (dec_key k) (\<lambda>e. False) td_validated_at es"

text \<open>The entry written: the one that was there with the new step, or a new one.\<close>

definition stored_as :: "string \<times> u64 \<times> int \<Rightarrow> tp_step \<Rightarrow> int \<Rightarrow> tp_decision \<Rightarrow> bool" where
  "stored_as k step validated e \<longleftrightarrow> dec_key k e \<and> td_step e = step \<and> td_validated_at e = validated \<and>
     length (td_host e) < STRATEGY_DOMAIN_MAX"

lemma no_false_idx: "first_idx (\<lambda>e. False) es = None"
  by (simp add: first_idx_None)

lemma put_decision_cases:
  assumes host: "length host < STRATEGY_DOMAIN_MAX" and ok: "list_all decision_ok (d_entries d)"
    and put: "put_decision realloc_ok host fp family step validated d = Some d'"
  obtains (append) e where "d_entries d' = d_entries d @ [e]" "dec_at d (host, fp, family) = None" "stored_as (host, fp, family) step validated e"
      "length (d_entries d) < d_cap d \<or> d_cap d < TP_DECISIONS_MAX \<and> realloc_ok"
  | (over) e where "d_entries d' = (d_entries d)[dec_slot (host, fp, family) (d_entries d) := e]" "stored_as (host, fp, family) step validated e"
      "d_entries d \<noteq> [] \<or> d_cap d \<ge> TP_DECISIONS_MAX" "d_cap d' = d_cap d"
      "dec_at d (host, fp, family) = None \<Longrightarrow> length (d_entries d) \<ge> d_cap d \<and> (d_cap d \<ge> TP_DECISIONS_MAX \<or> \<not> realloc_ok)"
proof (cases "dec_find d host fp family")
  case (Some i)
  note i = dec_find_Some [OF Some]
  let ?e = "(d_entries d ! i)\<lparr>td_step := step, td_validated_at := validated\<rparr>"
  have sl: "dec_slot (host, fp, family) (d_entries d) = i" using Some by (simp add: slot_for_def dec_find_def)
  have "length (td_host (d_entries d ! i)) < STRATEGY_DOMAIN_MAX" using ok i by (auto simp: list_all_length decision_ok_def)
  then have "stored_as (host, fp, family) step validated ?e" using i by (simp add: stored_as_def dec_match_def)
  moreover have "d' = d\<lparr>d_entries := (d_entries d)[i := ?e]\<rparr>" using put Some by (simp add: put_decision_def)
  moreover have "d_entries d \<noteq> []" using i by auto
  moreover have "dec_at d (host, fp, family) \<noteq> None" using Some by (simp add: dec_find_at)
  ultimately show thesis using over [of ?e] sl by auto
next
  case None
  then have no: "dec_at d (host, fp, family) = None" "first_idx (dec_key (host, fp, family)) (d_entries d) = None"
    by (simp_all add: dec_find_at dec_find_def)
  define e where "e = decision0\<lparr>td_host := take 255 host, td_fingerprint := fp, td_family := family, td_step := step,
    td_validated_at := validated\<rparr>"
  have "take 255 host = host" using host by (simp add: STRATEGY_DOMAIN_MAX_def)
  then have st: "stored_as (host, fp, family) step validated e"
    using host by (simp add: stored_as_def e_def dec_match_def)
  obtain d1 i where n: "new_slot realloc_ok d = Some (d1, i)" "d' = d1\<lparr>d_entries := (d_entries d1)[i := e]\<rparr>"
    using put None by (auto simp: put_decision_def e_def split: option.splits)
  consider (app) "d_entries d1 = d_entries d @ [decision0]" "i = length (d_entries d)"
      "length (d_entries d) < d_cap d \<or> d_cap d < TP_DECISIONS_MAX \<and> realloc_ok"
    | (old) "d1 = d" "i = oldest_idx td_validated_at (d_entries d)" "\<not> length (d_entries d) < d_cap d"
      "d_cap d \<ge> TP_DECISIONS_MAX \<or> \<not> realloc_ok \<and> d_entries d \<noteq> []"
    using n(1) by (auto simp: new_slot_def Let_def split: if_splits)
  then show thesis
  proof cases
    case app
    then have "d_entries d' = d_entries d @ [e]" using n(2) by simp
    then show thesis using append no(1) st app(3) by blast
  next
    case old
    then have "d_entries d' = (d_entries d)[dec_slot (host, fp, family) (d_entries d) := e]" "d_cap d' = d_cap d"
      using n(2) no(2) by (simp_all add: slot_for_def no_false_idx)
    then show thesis using over [of e] st old by auto
  qed
qed

lemma append_unique:
  assumes "dec_slots.unique es" "List.find (dec_key k) es = None" "dec_key k e"
  shows "dec_slots.unique (es @ [e])"
  using assms by (intro dec_slots.unique_append [where k = k]) (auto simp: find_None_iff)

lemma find_append_one: "List.find P (es @ [e]) = (case List.find P es of Some x \<Rightarrow> Some x | None \<Rightarrow> if P e then Some e else None)"
  by (induction es) auto

lemma put_decision_inv:
  assumes inv: "decisions_inv d" and a: "length host < STRATEGY_DOMAIN_MAX" "fp \<noteq> NETFP_UNKNOWN" "\<not> is_direct_step step"
    and put: "put_decision realloc_ok host fp family step validated d = Some d'"
  shows "decisions_inv d'" "\<exists>e. dec_at d' (host, fp, family) = Some e \<and> stored_as (host, fp, family) step validated e"
    "\<not> same_key (host, fp, family) k' \<Longrightarrow> dec_at d' k' = dec_at d k' \<or>
       dec_at d' k' = None \<and> length (d_entries d) \<ge> d_cap d \<and> (d_cap d \<ge> TP_DECISIONS_MAX \<or> \<not> realloc_ok) \<and>
       (\<exists>e. dec_at d k' = Some e \<and> (\<forall>x \<in> set (d_entries d). td_validated_at e \<le> td_validated_at x))"
proof -
  let ?k = "(host, fp, family)"
  have u: "dec_slots.unique (d_entries d)" and ok: "list_all decision_ok (d_entries d)" using inv by (simp_all add: decisions_inv_def)
  have new_ok: "decision_ok e" if "stored_as ?k step validated e" for e
    using that a by (auto simp: stored_as_def decision_ok_def dec_match_def)
  have frame: "d_cooldown d' = d_cooldown d" "d_direct_bad d' = d_direct_bad d"
    using put by (auto simp: put_decision_def new_slot_def Let_def split: option.splits if_splits)
  have cap: "d_cap d' \<le> TP_DECISIONS_MAX" "length (d_entries d') \<le> d_cap d'"
    using put inv by (auto simp: put_decision_def new_slot_def Let_def decisions_inv_def TP_DECISIONS_MAX_def split: option.splits if_splits)
  have goal: "decisions_inv d' \<and> (\<exists>e. dec_at d' ?k = Some e \<and> stored_as ?k step validated e) \<and>
    (\<not> same_key ?k k' \<longrightarrow> dec_at d' k' = dec_at d k' \<or>
       dec_at d' k' = None \<and> length (d_entries d) \<ge> d_cap d \<and> (d_cap d \<ge> TP_DECISIONS_MAX \<or> \<not> realloc_ok) \<and>
       (\<exists>e. dec_at d k' = Some e \<and> (\<forall>x \<in> set (d_entries d). td_validated_at e \<le> td_validated_at x)))"
  proof (rule put_decision_cases [OF a(1) ok put])
    fix e
    assume e: "d_entries d' = d_entries d @ [e]" "dec_at d ?k = None" "stored_as ?k step validated e"
    have m: "dec_key ?k e" using e(3) by (simp add: stored_as_def)
    have "dec_slots.unique (d_entries d')" using append_unique [OF u, of ?k e] e m by (simp add: dec_at_def)
    moreover have "dec_at d' ?k = Some e" using e m by (simp add: dec_at_def find_append_one)
    moreover have "dec_at d' k' = dec_at d k'" if "\<not> same_key ?k k'"
      using that e(1) dec_slots.match_same [OF m, of k'] by (auto simp: dec_at_def find_append_one split: option.split)
    ultimately show ?thesis using inv e new_ok frame cap by (simp add: decisions_inv_def)
  next
    fix e
    assume e: "d_entries d' = (d_entries d)[dec_slot ?k (d_entries d) := e]" "stored_as ?k step validated e"
      "d_entries d \<noteq> [] \<or> d_cap d \<ge> TP_DECISIONS_MAX" "d_cap d' = d_cap d"
      "dec_at d ?k = None \<Longrightarrow> length (d_entries d) \<ge> d_cap d \<and> (d_cap d \<ge> TP_DECISIONS_MAX \<or> \<not> realloc_ok)"
    have m: "dec_key ?k e" using e(2) by (simp add: stored_as_def)
    have ne: "d_entries d \<noteq> []"
      using e(3,5) by (cases "d_entries d = []") (auto simp: dec_at_def TP_DECISIONS_MAX_def)
    let ?i = "dec_slot ?k (d_entries d)"
    note st = dec_slots.store [OF u ne m]
    have "list_all decision_ok (d_entries d')"
      using ok new_ok [OF e(2)] e(1) by (auto simp: list_all_iff dest: set_update_subset_insert [THEN subsetD])
    then have "decisions_inv d'" using inv st(1) e(1,4) frame cap by (simp add: decisions_inv_def)
    moreover have "dec_at d' ?k = Some e" using st(2) e(1) by (simp add: dec_at_def)
    moreover have "dec_at d' k' = dec_at d k' \<or>
       dec_at d' k' = None \<and> length (d_entries d) \<ge> d_cap d \<and> (d_cap d \<ge> TP_DECISIONS_MAX \<or> \<not> realloc_ok) \<and>
       (\<exists>e. dec_at d k' = Some e \<and> (\<forall>x \<in> set (d_entries d). td_validated_at e \<le> td_validated_at x))" if ns: "\<not> same_key ?k k'"
    proof -
      consider "dec_at d' k' = dec_at d k'"
        | "dec_at d' k' = None" "dec_key k' (d_entries d ! ?i)" "\<forall>x \<in> set (d_entries d). td_validated_at (d_entries d ! ?i) \<le> td_validated_at x"
        using st(3) [OF ns] e(1) by (auto simp: dec_at_def)
      then show ?thesis
      proof cases
        case 2
        have i: "?i < length (d_entries d)" by (rule slot_for_bound [OF ne])
        have "\<not> dec_key ?k (d_entries d ! ?i)" using 2(2) ns dec_slots.match_same by metis
        then have "dec_at d ?k = None"
          using slot_for_cases [OF ne, of "dec_key ?k" "\<lambda>e. False" td_validated_at] by (auto simp: dec_at_def find_None_iff)
        then show ?thesis using 2 e(5) dec_slots.unique_find [OF u i 2(2)] by (auto simp: dec_at_def)
      qed simp
    qed
    ultimately show ?thesis using e(2) by blast
  qed
  then show "decisions_inv d'" "\<exists>e. dec_at d' ?k = Some e \<and> stored_as ?k step validated e" by simp_all
  show "\<not> same_key ?k k' \<Longrightarrow> dec_at d' k' = dec_at d k' \<or>
       dec_at d' k' = None \<and> length (d_entries d) \<ge> d_cap d \<and> (d_cap d \<ge> TP_DECISIONS_MAX \<or> \<not> realloc_ok) \<and>
       (\<exists>e. dec_at d k' = Some e \<and> (\<forall>x \<in> set (d_entries d). td_validated_at e \<le> td_validated_at x))"
    using goal by simp
qed

lemma put_decision_room:
  "decisions_inv d \<Longrightarrow> put_decision True host fp family step validated d \<noteq> None"
  by (auto simp: put_decision_def new_slot_def Let_def split: option.splits if_splits)

lemma remove_entry_inv:
  assumes inv: "decisions_inv d" and i: "dec_find d host fp family = Some i"
  shows "decisions_inv (remove_entry d i)"
    "dec_at (remove_entry d i) k' = (if same_key (host, fp, family) k' then None else dec_at d k')"
proof -
  have u: "dec_slots.unique (d_entries d)" using inv by (simp add: decisions_inv_def)
  note f = dec_find_Some [OF i]
  show "decisions_inv (remove_entry d i)"
    using inv f removed_unique [OF u, of i] removed_set [of i "d_entries d"]
    by (auto simp: remove_entry_removed decisions_inv_def list_all_iff)
  show "dec_at (remove_entry d i) k' = (if same_key (host, fp, family) k' then None else dec_at d k')"
    using removed_find [OF u, of i "(host, fp, family)" k'] f by (simp add: dec_at_def remove_entry_removed)
qed

subsection \<open>The operations keep the invariant\<close>

lemma cooldown_ne: "decisions_inv d \<Longrightarrow> d_cooldown d \<noteq> []" "decisions_inv d \<Longrightarrow> d_direct_bad d \<noteq> []"
  by (auto simp: decisions_inv_def TP_COOLDOWN_MAX_def TP_DIRECT_BAD_MAX_def)

lemma init_inv: "decisions_inv tp_decisions_init"
  by (simp add: decisions_inv_def tp_decisions_init_def dec_slots.unique_def cd_slots.unique_def mk_slots.unique_def
      cd_match_def mk_match_def cooldown0_def mark0_def split: prod.splits)

lemma network_changed_inv: "decisions_inv d \<Longrightarrow> decisions_inv (tp_decisions_network_changed d)"
  by (simp add: decisions_inv_def tp_decisions_network_changed_def cd_slots.unique_def mk_slots.unique_def
      cd_match_def mk_match_def cooldown0_def mark0_def split: prod.splits)

lemma clear_cooldown_frame: "d_entries (clear_cooldown host d) = d_entries d" "d_cap (clear_cooldown host d) = d_cap d"
  "d_direct_bad (clear_cooldown host d) = d_direct_bad d"
  by (simp_all add: clear_cooldown_def split: option.split)

lemma cd_find: "cooldown_find d host = Some i \<Longrightarrow> i < length (d_cooldown d) \<and> cd_match host (d_cooldown d ! i)"
  by (simp add: cooldown_find_def first_idx_Some)

lemma clear_cooldown_inv:
  assumes "decisions_inv d"
  shows "decisions_inv (clear_cooldown host d)" "\<not> tp_in_cooldown (clear_cooldown host d) host' now \<or> \<not> ieq host host'"
proof -
  show "decisions_inv (clear_cooldown host d)"
    using assms cd_slots.unique_clear [of "d_cooldown d" "(d_cooldown d ! i)\<lparr>cd_host := []\<rparr>" i for i]
    by (auto simp: clear_cooldown_def decisions_inv_def cd_match_def split: option.split)
  have "cooldown_find (clear_cooldown host d) host' = None" if "ieq host host'"
  proof (cases "cooldown_find d host")
    case None
    have "cd_match host' = cd_match host" using that by (auto simp: cd_match_def ieq_iff fun_eq_iff)
    then show ?thesis using None by (simp add: clear_cooldown_def cooldown_find_def)
  next
    case (Some i)
    have u: "cd_slots.unique (d_cooldown d)" using assms by (simp add: decisions_inv_def)
    have eq: "cd_match host' = cd_match host" using that by (auto simp: cd_match_def ieq_iff fun_eq_iff)
    have "\<not> cd_match host ((d_cooldown d)[i := (d_cooldown d ! i)\<lparr>cd_host := []\<rparr>] ! j)" if "j < length (d_cooldown d)" for j
      using that cd_find [OF Some] u unfolding cd_slots.unique_def by (cases "j = i") (auto simp: cd_match_def)
    moreover have "clear_cooldown host d = d\<lparr>d_cooldown := (d_cooldown d)[i := (d_cooldown d ! i)\<lparr>cd_host := []\<rparr>]\<rparr>"
      by (simp add: clear_cooldown_def Some)
    ultimately show ?thesis
      by (auto simp: cooldown_find_def first_idx_None eq in_set_conv_nth)
  qed
  then show "\<not> tp_in_cooldown (clear_cooldown host d) host' now \<or> \<not> ieq host host'"
    by (auto simp: tp_in_cooldown_def cooldown_find_def)
qed

lemma success_inv: "decisions_inv d \<Longrightarrow> decisions_inv (tp_decision_success realloc_ok d host fp family now step)"
proof -
  assume inv: "decisions_inv d"
  define d1 where "d1 = clear_cooldown host d"
  have i1: "decisions_inv d1" unfolding d1_def using inv by (rule clear_cooldown_inv)
  consider (skip) "fp = NETFP_UNKNOWN \<or> length host \<ge> STRATEGY_DOMAIN_MAX" | (direct) "is_direct_step step"
    | (other) "fp \<noteq> NETFP_UNKNOWN" "length host < STRATEGY_DOMAIN_MAX" "\<not> is_direct_step step"
    using not_le by blast
  then show ?thesis
  proof cases
    case skip
    then show ?thesis using i1 by (simp add: tp_decision_success_def d1_def Let_def)
  next
    case direct
    then show ?thesis
      using i1 remove_entry_inv(1) [OF i1, of host fp family]
      by (auto simp: tp_decision_success_def d1_def [symmetric] Let_def is_direct_step_def split: option.split)
  next
    case other
    have "decisions_inv (d2\<lparr>d_dirty := True\<rparr>)" if "put_decision realloc_ok host fp family step now d1 = Some d2" for d2
      using put_decision_inv(1) [OF i1 other(2,1,3) that] by (simp add: decisions_inv_def)
    then show ?thesis
      using i1 other by (auto simp: tp_decision_success_def d1_def [symmetric] Let_def is_direct_step_def split: option.split)
  qed
qed

lemma failure_inv: "decisions_inv d \<Longrightarrow> decisions_inv (tp_decision_failure d host fp family now)"
proof -
  assume inv: "decisions_inv d"
  let ?c = "\<lparr>cd_host = host, cd_until = now + TP_COOLDOWN_SECONDS\<rparr>"
  let ?i = "slot_for (cd_match host) (cd_reusable now) cd_until (d_cooldown d)"
  define d1 where "d1 = (if length host < STRATEGY_DOMAIN_MAX then d\<lparr>d_cooldown := (d_cooldown d)[?i := ?c]\<rparr> else d)"
  have u: "cd_slots.unique (d_cooldown d)" using inv by (simp add: decisions_inv_def)
  have "cd_slots.unique ((d_cooldown d)[?i := ?c])"
  proof (cases "host = []")
    case True
    then show ?thesis using cd_slots.unique_clear [OF u, of ?c] by (simp add: cd_match_def)
  next
    case False
    then have "cd_match host ?c" by (simp add: cd_match_def)
    then show ?thesis using cd_slots.store(1) [OF u cooldown_ne(1) [OF inv]] by blast
  qed
  then have i1: "decisions_inv d1" using inv by (simp add: d1_def decisions_inv_def)
  have "tp_decision_failure d host fp family now = (case dec_find d1 host fp family of Some i \<Rightarrow> remove_entry d1 i | None \<Rightarrow> d1)"
    by (simp only: tp_decision_failure_def Let_def d1_def)
  then show ?thesis using i1 remove_entry_inv(1) [OF i1, of host fp family] by (simp split: option.split)
qed

lemma mark_inv: "decisions_inv d \<Longrightarrow> decisions_inv (tp_direct_bad_mark d host fp family now)"
proof -
  assume inv: "decisions_inv d"
  let ?m = "\<lparr>mk_host = host, mk_fingerprint = fp, mk_family = family, mk_until = now + TP_DIRECT_BAD_TTL_SECONDS\<rparr>"
  let ?i = "slot_for (mk_match (host, fp, family)) (mk_reusable now) mk_until (d_direct_bad d)"
  have u: "mk_slots.unique (d_direct_bad d)" using inv by (simp add: decisions_inv_def)
  have "mk_slots.unique ((d_direct_bad d)[?i := ?m])"
  proof (cases "host = []")
    case True
    then show ?thesis using mk_slots.unique_clear [OF u, of ?m] by (simp add: mk_match_def split: prod.splits)
  next
    case False
    then have "mk_match (host, fp, family) ?m" by (simp add: mk_match_def)
    then show ?thesis using mk_slots.store(1) [OF u cooldown_ne(2) [OF inv]] by blast
  qed
  then show ?thesis using inv by (simp add: tp_direct_bad_mark_def Let_def decisions_inv_def)
qed

lemma scan_word_length: "scan_word w s = Some (t, r) \<Longrightarrow> length t \<le> w"
  by (auto simp: scan_word_def Let_def split: if_splits)

lemma dec_parse_line_inv:
  assumes "decisions_inv d" "dec_parse_line realloc_ok d line = Some d'"
  shows "decisions_inv d'"
proof -
  obtain host fp family strat target validated where sc: "scan_decision line = Some (host, fp, family, strat, target, validated)"
    using assms(2) by (cases "scan_decision line") (auto simp: dec_parse_line_def)
  have h: "length host < STRATEGY_DOMAIN_MAX"
    using sc scan_word_length [of 255 line host] by (auto simp: scan_decision_def STRATEGY_DOMAIN_MAX_def split: Option.bind_splits)
  let ?st = "if (family \<noteq> 4 \<and> family \<noteq> 6) \<or> fp = NETFP_UNKNOWN then None else strategy_from_name strat"
  let ?tg = "if target = ''original'' then Some TP_TARGET_ORIGINAL else if target = ''trusted'' then Some TP_TARGET_TRUSTED else None"
  obtain strategy where st: "?st = Some strategy" using assms(2) sc by (cases ?st) (auto simp: dec_parse_line_def)
  obtain tgt where tg: "?tg = Some tgt" using assms(2) sc st by (cases ?tg) (auto simp: dec_parse_line_def split: if_splits)
  have put: "put_decision realloc_ok host fp family \<lparr>st_target = tgt, st_strategy = strategy\<rparr> validated d = Some d'"
    and nd: "\<not> (tgt = TP_TARGET_ORIGINAL \<and> strategy = STRATEGY_PASS)"
    using assms(2) by (simp_all add: dec_parse_line_def sc st tg split: if_splits)
  have fp: "fp \<noteq> NETFP_UNKNOWN" using st by (auto split: if_splits)
  show ?thesis using put_decision_inv(1) [OF assms(1) h fp _ put] nd by (simp add: is_direct_step_def)
qed

lemma dec_lines_inv: "decisions_inv (fst st) \<Longrightarrow> decisions_inv (fst (dec_lines realloc_ok inp st))"
proof (induction realloc_ok inp st rule: dec_lines.induct)
  case (1 realloc_ok inp st)
  have "decisions_inv (fst (dec_line realloc_ok raw st))" for raw
    using 1(2) dec_parse_line_inv by (auto simp: dec_line_def Let_def split: prod.split option.split)
  then show ?case using 1 by (subst dec_lines.simps) auto
qed

lemma parse_inv: "decisions_inv d \<Longrightarrow> decisions_inv (fst (tp_decisions_parse realloc_ok d inp))"
  using dec_lines_inv [of "(d, 0)" realloc_ok inp]
  by (cases "dec_lines realloc_ok inp (d, 0)") (simp add: tp_decisions_parse_def decisions_inv_def)

section \<open>The file and back\<close>

definition dec_text_ok :: "tp_decision \<Rightarrow> bool" where
  "dec_text_ok e \<longleftrightarrow> clean (td_host e) \<and> hd (td_host e) \<noteq> CHR ''#'' \<and> (td_family e = 4 \<or> td_family e = 6) \<and>
     st_strategy (td_step e) \<in> {STRATEGY_PASS, STRATEGY_TLSREC, STRATEGY_TLSREC_SPLIT} \<and>
     - 9223372036854775808 \<le> td_validated_at e \<and> td_validated_at e \<le> 9223372036854775807 \<and> td_quic_blocked_at e = 0"

definition dec_body :: "tp_decision \<Rightarrow> string" where
  "dec_body e = td_host e @ CHR '' '' # hex_fixed 16 (unat (td_fingerprint e)) @ CHR '' '' # print_lld (td_family e) @ CHR '' '' #
     strategy_name (st_strategy (td_step e)) @ CHR '' '' # tp_target_name (st_target (td_step e)) @ CHR '' '' #
     print_lld (td_validated_at e)"

lemma dec_text_body: "dec_text e = dec_body e @ [CHR 0x0A]"
  by (simp add: dec_text_def dec_body_def)

lemma clean_strategy: "clean (strategy_name s)" "length (strategy_name s) \<le> 31"
  using strategy_name_facts(1,3,4) [of s] by (simp_all add: clean_def)

lemma clean_target: "clean (tp_target_name t)" "length (tp_target_name t) \<le> 31"
  by (simp_all add: tp_target_name_def clean_def isspace_c_def)

lemma blank_not_digit: "hex_digit (CHR '' '') = None" "dec_digit (CHR '' '') = None"
  by code_simp+

lemma scan_int_family:
  assumes "f = 4 \<or> f = 6"
  shows "scan_int (CHR '' '' # print_lld f @ CHR '' '' # r) = Some (f, CHR '' '' # r)"
proof -
  have "scan_dec ([CHR '' ''] @ print_lld f @ CHR '' '' # r) = Some (f, CHR '' '' # r)"
    using assms by (intro scan_dec_print) (auto simp: blank_not_digit isspace_c_def)
  then show ?thesis using assms by (auto simp: scan_int_def)
qed

lemma scan_decision_body:
  assumes ok: "dec_text_ok e" and len: "length (td_host e) < 256"
  shows "scan_decision (dec_body e) =
    Some (td_host e, td_fingerprint e, td_family e, strategy_name (st_strategy (td_step e)), tp_target_name (st_target (td_step e)), td_validated_at e)"
proof -
  have c: "clean (td_host e)" "td_family e = 4 \<or> td_family e = 6" using ok by (simp_all add: dec_text_ok_def)
  have v: "scan_dec (CHR '' '' # print_lld (td_validated_at e)) = Some (td_validated_at e, [])"
    using scan_dec_print [of "td_validated_at e" "[]" "'' ''"] ok by (simp add: dec_text_ok_def isspace_c_def)
  have h: "scan_hex (CHR '' '' # hex_fixed 16 (unat (td_fingerprint e)) @ CHR '' '' # r) = Some (td_fingerprint e, CHR '' '' # r)" for r
    using scan_hex_fixed [of "CHR '' '' # r" "td_fingerprint e"] by (simp add: scan_hex_blank blank_not_digit)
  show ?thesis
    using len c unfolding scan_decision_def dec_body_def
    by (simp add: clean_word h scan_int_family scan_word_blank clean_strategy clean_target v)
qed

lemma append_new:
  assumes "decisions_inv d" "length (d_entries d) < TP_DECISIONS_MAX" "dec_at d (td_host e, td_fingerprint e, td_family e) = None"
    and "length (td_host e) < STRATEGY_DOMAIN_MAX" "td_quic_blocked_at e = 0"
  shows "\<exists>cap. put_decision True (td_host e) (td_fingerprint e) (td_family e) (td_step e) (td_validated_at e) d =
    Some (d\<lparr>d_cap := cap, d_entries := d_entries d @ [e]\<rparr>)"
proof -
  have f: "dec_find d (td_host e) (td_fingerprint e) (td_family e) = None" using assms(3) by (simp add: dec_find_at)
  have "take 255 (td_host e) = td_host e" using assms(4) by (simp add: STRATEGY_DOMAIN_MAX_def)
  then have e: "decision0\<lparr>td_host := take 255 (td_host e), td_fingerprint := td_fingerprint e, td_family := td_family e,
      td_step := td_step e, td_validated_at := td_validated_at e\<rparr> = e"
    using assms(5) by (intro tp_decision.equality) (simp_all add: decision0_def)
  have cap: "d\<lparr>d_entries := es\<rparr> = d\<lparr>d_cap := d_cap d, d_entries := es\<rparr>" for es by simp
  show ?thesis
  proof (cases "length (d_entries d) < d_cap d")
    case True
    then show ?thesis using f e cap by (simp add: put_decision_def new_slot_def Let_def) (metis cap)
  next
    case False
    then have "d_cap d < TP_DECISIONS_MAX" using assms(1,2) by (simp add: decisions_inv_def)
    then show ?thesis using f e False by (simp add: put_decision_def new_slot_def Let_def) blast
  qed
qed

lemma parse_line_body:
  assumes inv: "decisions_inv d" "length (d_entries d) < TP_DECISIONS_MAX" "dec_at d (td_host e, td_fingerprint e, td_family e) = None"
    and e: "dec_text_ok e" "decision_ok e"
  shows "\<exists>cap. dec_parse_line True d (dec_body e) = Some (d\<lparr>d_cap := cap, d_entries := d_entries d @ [e]\<rparr>)"
proof -
  have len: "length (td_host e) < STRATEGY_DOMAIN_MAX" and fp: "td_fingerprint e \<noteq> NETFP_UNKNOWN" and nd: "\<not> is_direct_step (td_step e)"
    and q: "td_quic_blocked_at e = 0" "td_family e = 4 \<or> td_family e = 6"
    and s: "st_strategy (td_step e) \<in> {STRATEGY_PASS, STRATEGY_TLSREC, STRATEGY_TLSREC_SPLIT}"
    using e by (simp_all add: decision_ok_def dec_text_ok_def)
  have tg: "(if tp_target_name t = ''original'' then Some TP_TARGET_ORIGINAL else if tp_target_name t = ''trusted'' then Some TP_TARGET_TRUSTED else None) = Some t" for t
    by (cases t) (simp_all add: tp_target_name_def)
  have st: "\<lparr>st_target = st_target (td_step e), st_strategy = st_strategy (td_step e)\<rparr> = td_step e" by simp
  have "dec_parse_line True d (dec_body e) =
      put_decision True (td_host e) (td_fingerprint e) (td_family e) (td_step e) (td_validated_at e) d"
    using scan_decision_body [OF e(1)] len fp nd q s
    by (auto simp: dec_parse_line_def tg st STRATEGY_DOMAIN_MAX_def is_direct_step_def)
  then show ?thesis using append_new [OF inv len q(1)] by simp
qed

lemma cut_dec_text:
  assumes "dec_text_ok e" "length (td_host e) < 256"
  shows "cut_line (dec_text e @ rest) = (dec_body e, rest)"
proof -
  have "length (print_lld (td_family e)) \<le> 20" "length (print_lld (td_validated_at e)) \<le> 20"
    using assms(1) by (auto simp: dec_text_ok_def intro: print_lld_length)
  moreover have "length (tp_target_name (st_target (td_step e))) \<le> 8" by (simp add: tp_target_name_def)
  ultimately have "length (dec_body e) \<le> 511"
    using assms(2) strategy_name_facts(3) [of "st_strategy (td_step e)"] by (simp add: dec_body_def)
  moreover have "CHR 0x0A \<notin> set (dec_body e)" "CHR 0x00 \<notin> set (dec_body e)"
    using clean_no_nl [of "td_host e"] assms(1) clean_no_nl [OF clean_hex] clean_no_nl [OF clean_print_lld]
      clean_no_nl [OF clean_strategy(1)] clean_no_nl [OF clean_target(1)] by (auto simp: dec_body_def dec_text_ok_def)
  ultimately show ?thesis using cut_line_append [of "dec_body e" rest] by (simp add: dec_text_body)
qed

lemma dec_line_body:
  assumes "dec_text_ok e"
  shows "dec_line True (dec_body e) (d, k) = (case dec_parse_line True d (dec_body e) of None \<Rightarrow> (d, k + 1) | Some d \<Rightarrow> (d, k))"
proof -
  obtain c r where h: "td_host e = c # r" "\<not> isspace_c c" "c \<noteq> CHR ''#''"
    using assms by (cases "td_host e") (auto simp: dec_text_ok_def clean_def)
  then have "dec_body e \<noteq> []" "hd (dec_body e) = c" by (simp_all add: dec_body_def)
  then show ?thesis using h by (simp add: dec_line_def trim_left_id isspace_c_def)
qed

lemma unique_prefix: "dec_slots.unique (es @ fs) \<Longrightarrow> dec_slots.unique es"
  unfolding dec_slots.unique_def by (metis (no_types) length_append nth_append trans_less_add1)

lemma prefix_inv: "decisions_inv (d\<lparr>d_entries := es @ fs\<rparr>) \<Longrightarrow> decisions_inv (d\<lparr>d_entries := es\<rparr>)"
  using unique_prefix by (auto simp: decisions_inv_def)

lemma unique_next:
  assumes "dec_slots.unique (es @ e # fs)"
  shows "List.find (dec_key (td_host e, td_fingerprint e, td_family e)) es = None"
proof -
  have "\<not> dec_key (td_host e, td_fingerprint e, td_family e) (es ! j)" if "j < length es" for j
  proof
    assume m: "dec_key (td_host e, td_fingerprint e, td_family e) (es ! j)"
    have "j = length es"
      using assms that m unfolding dec_slots.unique_def
      by (elim allE [of _ "(td_host e, td_fingerprint e, td_family e)"] allE [of _ j] allE [of _ "length es"])
        (simp add: nth_append dec_match_def)
    then show False using that by simp
  qed
  then show ?thesis by (auto simp: find_None_iff in_set_conv_nth)
qed

lemma dec_lines_concat:
  "list_all dec_text_ok es \<Longrightarrow> list_all decision_ok es \<Longrightarrow> decisions_inv d \<Longrightarrow> length (d_entries d @ es) \<le> TP_DECISIONS_MAX \<Longrightarrow>
   dec_slots.unique (d_entries d @ es) \<Longrightarrow>
   \<exists>cap. dec_lines True (concat (map dec_text es)) (d, k) = (d\<lparr>d_cap := cap, d_entries := d_entries d @ es\<rparr>, k)"
proof (induction es arbitrary: d)
  case Nil
  then show ?case by (intro exI [of _ "d_cap d"]) (simp add: dec_lines.simps)
next
  case (Cons e es)
  let ?rest = "concat (map dec_text es)"
  have e: "dec_text_ok e" "decision_ok e" and len: "length (td_host e) < 256"
    using Cons.prems by (simp_all add: decision_ok_def STRATEGY_DOMAIN_MAX_def)
  have "dec_at d (td_host e, td_fingerprint e, td_family e) = None"
    using unique_next [OF Cons.prems(5)] by (simp add: dec_at_def)
  then obtain cap where p: "dec_parse_line True d (dec_body e) = Some (d\<lparr>d_cap := cap, d_entries := d_entries d @ [e]\<rparr>)"
    using parse_line_body [OF Cons.prems(3) _ _ e] Cons.prems(4) by auto
  let ?d = "d\<lparr>d_cap := cap, d_entries := d_entries d @ [e]\<rparr>"
  have inv: "decisions_inv ?d" by (rule dec_parse_line_inv [OF Cons.prems(3) p])
  have "dec_lines True (dec_text e @ ?rest) (d, k) = dec_lines True ?rest (?d, k)"
    unfolding dec_lines.simps [of True "dec_text e @ ?rest"] cut_dec_text [OF e(1) len] fst_conv snd_conv
      dec_line_body [OF e(1)] p by (simp add: dec_text_body)
  moreover obtain cap' where "dec_lines True ?rest (?d, k) = (?d\<lparr>d_cap := cap', d_entries := d_entries ?d @ es\<rparr>, k)"
    using Cons.IH [OF _ _ inv] Cons.prems by auto
  ultimately show ?case by auto
qed

lemma dec_serialize_loop_eq:
  "length out < n \<Longrightarrow> dec_serialize_loop n es out =
   (if length out + length (concat (map dec_text es)) < n then out @ concat (map dec_text es) else [])"
proof (induction es arbitrary: out)
  case (Cons e es)
  then show ?case using Cons.IH [of "out @ dec_text e"] by auto
qed simp

section \<open>What success and failure leave behind\<close>

lemma put_decision_frame: "put_decision realloc_ok host fp family step now d = Some d' \<Longrightarrow> d_cooldown d' = d_cooldown d"
  by (auto simp: put_decision_def new_slot_def Let_def split: option.splits if_splits)

lemma fresh_now: "fp \<noteq> NETFP_UNKNOWN \<Longrightarrow> td_fingerprint e = fp \<Longrightarrow> td_validated_at e = now \<Longrightarrow> fresh e fp now"
  by (simp add: fresh_def TP_DECISION_TTL_SECONDS_def)

definition kept_or_evicted :: "tp_decisions \<Rightarrow> tp_decisions \<Rightarrow> string \<times> u64 \<times> int \<Rightarrow> bool" where
  "kept_or_evicted d d' k \<longleftrightarrow> dec_at d' k = dec_at d k \<or>
     dec_at d' k = None \<and> length (d_entries d) = TP_DECISIONS_MAX \<and>
     (\<exists>e. dec_at d k = Some e \<and> (\<forall>x \<in> set (d_entries d). td_validated_at e \<le> td_validated_at x))"

lemma success_effect:
  fixes family now :: int and step :: tp_step
  assumes inv: "decisions_inv d" and a: "fp \<noteq> NETFP_UNKNOWN" "length host < STRATEGY_DOMAIN_MAX"
  defines "d' \<equiv> tp_decision_success True d host fp family now step"
  shows "d_cooldown d' = d_cooldown (clear_cooldown host d)"
    "case tp_decision_lookup d' host fp family now of None \<Rightarrow> is_direct_step step | Some e \<Rightarrow> \<not> is_direct_step step \<and> td_step e = step"
    "\<not> same_key (host, fp, family) k \<Longrightarrow> kept_or_evicted d d' k"
proof -
  define d1 where "d1 = clear_cooldown host d"
  have i1: "decisions_inv d1" unfolding d1_def using inv by (rule clear_cooldown_inv)
  have e1: "d_entries d1 = d_entries d" "d_cap d1 = d_cap d" unfolding d1_def by (rule clear_cooldown_frame)+
  have at1: "dec_at d1 q = dec_at d q" for q by (simp add: dec_at_def e1)
  have "d_cooldown d' = d_cooldown d1 \<and>
    (case tp_decision_lookup d' host fp family now of None \<Rightarrow> is_direct_step step | Some e \<Rightarrow> \<not> is_direct_step step \<and> td_step e = step) \<and>
    (\<not> same_key (host, fp, family) k \<longrightarrow> kept_or_evicted d d' k)"
  proof (cases "is_direct_step step")
    case True
    then have d': "d' = (case dec_find d1 host fp family of Some i \<Rightarrow> remove_entry d1 i | None \<Rightarrow> d1)"
      using a by (simp add: d'_def tp_decision_success_def d1_def [symmetric] Let_def is_direct_step_def)
    show ?thesis
    proof (cases "dec_find d1 host fp family")
      case None
      then show ?thesis using True at1 d' by (simp add: lookup_at dec_find_at kept_or_evicted_def)
    next
      case (Some i)
      then show ?thesis
        using True at1 d' remove_entry_inv(2) [OF i1 Some]
        by (simp add: lookup_at kept_or_evicted_def) (simp add: remove_entry_def)
    qed
  next
    case nd: False
    let ?steady = "case dec_find d1 host fp family of None \<Rightarrow> False | Some i \<Rightarrow>
            fresh (d_entries d1 ! i) fp now \<and> st_target (td_step (d_entries d1 ! i)) = st_target step \<and>
            st_strategy (td_step (d_entries d1 ! i)) = st_strategy step \<and>
            now - td_validated_at (d_entries d1 ! i) < TP_DECISION_TTL_SECONDS div 2"
    show ?thesis
    proof (cases ?steady)
      case True
      then obtain i where i: "dec_find d1 host fp family = Some i" "fresh (d_entries d1 ! i) fp now" "td_step (d_entries d1 ! i) = step"
        by (auto split: option.splits intro: tp_step.equality)
      have "d' = d1" using a nd True by (auto simp: d'_def tp_decision_success_def d1_def [symmetric] Let_def is_direct_step_def)
      then show ?thesis using i nd at1 by (simp add: lookup_at dec_find_at kept_or_evicted_def)
    next
      case False
      obtain d2 where p: "put_decision True host fp family step now d1 = Some d2" using put_decision_room [OF i1] by blast
      have d': "d' = d2\<lparr>d_dirty := True\<rparr>"
        using a nd False p by (auto simp: d'_def tp_decision_success_def d1_def [symmetric] Let_def is_direct_step_def)
      note put = put_decision_inv [OF i1 a(2,1) nd p]
      obtain e where e: "dec_at d2 (host, fp, family) = Some e" "stored_as (host, fp, family) step now e" using put(2) by blast
      have at2: "dec_at d' q = dec_at d2 q" for q by (simp add: d' dec_at_def)
      have "fresh e fp now" "td_step e = step" using e(2) a(1) by (auto simp: stored_as_def dec_match_def intro: fresh_now)
      then have l: "tp_decision_lookup d' host fp family now = Some e" using e(1) by (simp add: lookup_at at2)
      have "kept_or_evicted d d' k" if "\<not> same_key (host, fp, family) k"
        using put(3) [OF that] i1 at1 at2 e1 by (auto simp: kept_or_evicted_def decisions_inv_def)
      then show ?thesis using l nd \<open>td_step e = step\<close> put_decision_frame [OF p] d' by simp
    qed
  qed
  then show "d_cooldown d' = d_cooldown (clear_cooldown host d)"
    "case tp_decision_lookup d' host fp family now of None \<Rightarrow> is_direct_step step | Some e \<Rightarrow> \<not> is_direct_step step \<and> td_step e = step"
    "\<not> same_key (host, fp, family) k \<Longrightarrow> kept_or_evicted d d' k"
    by (simp_all add: d1_def)
qed

lemma failure_effect:
  fixes family now :: int and fp :: u64
  assumes inv: "decisions_inv d" and a: "length host < STRATEGY_DOMAIN_MAX" "host \<noteq> []"
  defines "d' \<equiv> tp_decision_failure d host fp family now"
  shows "tp_in_cooldown d' host t \<longleftrightarrow> t < now + 60"
    "dec_at d' k = (if same_key (host, fp, family) k then None else dec_at d k)"
    "\<not> ieq host host' \<Longrightarrow> tp_in_cooldown d' host' t \<longrightarrow> tp_in_cooldown d host' t"
proof -
  let ?c = "\<lparr>cd_host = host, cd_until = now + TP_COOLDOWN_SECONDS\<rparr>"
  let ?i = "slot_for (cd_match host) (cd_reusable now) cd_until (d_cooldown d)"
  define d1 where "d1 = d\<lparr>d_cooldown := (d_cooldown d)[?i := ?c]\<rparr>"
  have u: "cd_slots.unique (d_cooldown d)" using inv by (simp add: decisions_inv_def)
  have m: "cd_match host ?c" using a by (simp add: cd_match_def)
  note st = cd_slots.store [OF u cooldown_ne(1) [OF inv] m, where now = now]
  have i1: "decisions_inv d1" using inv st(1) by (simp add: d1_def decisions_inv_def)
  have d': "d' = (case dec_find d1 host fp family of Some i \<Rightarrow> remove_entry d1 i | None \<Rightarrow> d1)"
    using a by (simp only: d'_def tp_decision_failure_def Let_def d1_def if_True)
  have cd: "d_cooldown d' = (d_cooldown d)[?i := ?c]"
    unfolding d' by (simp add: d1_def remove_entry_def split: option.split)
  have ic: "tp_in_cooldown q h t = (case List.find (cd_match h) (d_cooldown q) of None \<Rightarrow> False | Some c \<Rightarrow> cd_until c > t)" for q h
    by (auto simp: tp_in_cooldown_def first_idx_find split: option.split)
  show "tp_in_cooldown d' host t \<longleftrightarrow> t < now + 60" using st(2) by (simp add: ic cd TP_COOLDOWN_SECONDS_def)
  show "\<not> ieq host host' \<Longrightarrow> tp_in_cooldown d' host' t \<longrightarrow> tp_in_cooldown d host' t"
    using st(3) [of host'] by (auto simp: ic cd split: option.splits)
  have at1: "dec_at d1 q = dec_at d q" for q by (simp add: dec_at_def d1_def)
  show "dec_at d' k = (if same_key (host, fp, family) k then None else dec_at d k)"
  proof (cases "dec_find d1 host fp family")
    case None
    have "dec_key k = dec_key (host, fp, family)" if "same_key (host, fp, family) k"
      using that by (auto simp: dec_match_def ieq_iff fun_eq_iff)
    moreover have "dec_at d1 (host, fp, family) = None" using None by (simp add: dec_find_at)
    ultimately have "dec_at d1 k = None" if "same_key (host, fp, family) k" using that by (simp only: dec_at_def)
    then show ?thesis using at1 None by (simp add: d')
  next
    case (Some i)
    then show ?thesis using at1 remove_entry_inv(2) [OF i1 Some] by (simp add: d')
  qed
qed

section \<open>States of the table\<close>

inductive decisions_reachable :: "tp_decisions \<Rightarrow> bool" where
  init: "decisions_reachable tp_decisions_init"
| success: "decisions_reachable d \<Longrightarrow> decisions_reachable (tp_decision_success realloc_ok d host fp family now step)"
| failure: "decisions_reachable d \<Longrightarrow> decisions_reachable (tp_decision_failure d host fp family now)"
| bad: "decisions_reachable d \<Longrightarrow> decisions_reachable (tp_direct_bad_mark d host fp family now)"
| network: "decisions_reachable d \<Longrightarrow> decisions_reachable (tp_decisions_network_changed d)"
| parse: "decisions_reachable d \<Longrightarrow> decisions_reachable (fst (tp_decisions_parse realloc_ok d inp))"

lemma decisions_reachable_inv: "decisions_reachable d \<Longrightarrow> decisions_inv d"
  by (induction rule: decisions_reachable.induct)
    (simp_all add: init_inv success_inv failure_inv mark_inv network_changed_inv parse_inv)

section \<open>Properties\<close>

text \<open>Whatever the daemon records, marks or loads, and whether or not memory can be had, its
  table has at most 2048 decisions, no two for the same host, network and family; every decision is
  for a known network and is not the plain connection; and the cooldown and mark tables keep their
  size and have one slot per key.\<close>

theorem decisions_invariant:
  assumes "decisions_reachable d"
  shows "decisions_inv d"
  using assms by (rule decisions_reachable_inv)

theorem decisions_invariant_witness:
  "decisions_inv (tp_decision_failure (tp_decision_success True tp_decisions_init ''a.io'' 7 4 100 (step_of TP_TARGET_TRUSTED STRATEGY_TLSREC)) ''b.io'' 7 4 101)"
  by (rule decisions_invariant) (intro decisions_reachable.intros)

text \<open>Claim C16. After a connection succeeded with a step, the host is not in cooldown, and a lookup on
  that network and family finds exactly that step - or nothing, when the step was the plain
  connection; every other host keeps its decision, except that the least recently validated one may
  be evicted when the table is full.\<close>

theorem success_recorded:
  assumes "decisions_inv d" "fp \<noteq> NETFP_UNKNOWN" "length host < STRATEGY_DOMAIN_MAX"
  shows "let d' = tp_decision_success True d host fp family now step in
    \<not> tp_in_cooldown d' host t \<and>
    (case tp_decision_lookup d' host fp family now of None \<Rightarrow> is_direct_step step
     | Some e \<Rightarrow> \<not> is_direct_step step \<and> td_step e = step) \<and>
    (same_key (host, fp, family) k \<or> kept_or_evicted d d' k)"
proof -
  let ?d = "tp_decision_success True d host fp family now step"
  note e = success_effect [OF assms, where family = family and now = now and step = step]
  have "tp_in_cooldown ?d host t = tp_in_cooldown (clear_cooldown host d) host t" by (simp only: tp_in_cooldown_def e(1))
  then have "\<not> tp_in_cooldown ?d host t" using clear_cooldown_inv(2) [OF assms(1), of host host t] by simp
  then show ?thesis using e(2) e(3) [of k] unfolding Let_def by blast
qed

theorem success_recorded_witness:
  "\<exists>e. tp_decision_lookup (tp_decision_success True tp_decisions_init ''a.io'' 7 4 100 (step_of TP_TARGET_TRUSTED STRATEGY_TLSREC))
     ''a.io'' 7 4 100 = Some e \<and> td_step e = step_of TP_TARGET_TRUSTED STRATEGY_TLSREC"
proof -
  have "\<not> is_direct_step (step_of TP_TARGET_TRUSTED STRATEGY_TLSREC)" by (simp add: is_direct_step_def)
  moreover have "(7 :: u64) \<noteq> NETFP_UNKNOWN" "length ''a.io'' < STRATEGY_DOMAIN_MAX" by code_simp+
  ultimately show ?thesis
    using success_recorded [OF init_inv, where fp = 7 and host = "''a.io''" and family = 4 and now = 100 and
        step = "step_of TP_TARGET_TRUSTED STRATEGY_TLSREC" and t = 0 and k = "([], 0, 0)"]
    by (auto simp: Let_def split: option.splits)
qed

text \<open>After every attempt to a host failed, the host is in cooldown for exactly 60 seconds, its
  decision on that network and family is gone and every other decision is as it was, and no other host
  enters a cooldown.\<close>

theorem failure_recorded:
  assumes "decisions_inv d" "length host < STRATEGY_DOMAIN_MAX" "host \<noteq> []"
  shows "let d' = tp_decision_failure d host fp family now in
    (tp_in_cooldown d' host t \<longleftrightarrow> t < now + 60) \<and>
    tp_decision_lookup d' host fp family t = None \<and>
    (same_key (host, fp, family) k \<or> dec_at d' k = dec_at d k) \<and>
    (ieq host host' \<or> \<not> tp_in_cooldown d' host' t \<or> tp_in_cooldown d host' t)"
  using failure_effect [OF assms, where fp = fp and family = family and now = now] by (simp add: Let_def lookup_at) blast

theorem failure_recorded_witness:
  "tp_in_cooldown (tp_decision_failure tp_decisions_init ''a.io'' 7 4 100) ''a.io'' 159 \<and>
   \<not> tp_in_cooldown (tp_decision_failure tp_decisions_init ''a.io'' 7 4 100) ''a.io'' 160"
proof -
  have "length ''a.io'' < STRATEGY_DOMAIN_MAX" "''a.io'' \<noteq> []" by (simp_all add: STRATEGY_DOMAIN_MAX_def)
  then show ?thesis
    using failure_recorded [OF init_inv, where host = "''a.io''" and fp = 7 and family = 4 and now = 100 and t = 159 and k = "([], 0, 0)" and host' = "[]"]
      failure_recorded [OF init_inv, where host = "''a.io''" and fp = 7 and family = 4 and now = 100 and t = 160 and k = "([], 0, 0)" and host' = "[]"]
    by (simp add: Let_def)
qed

text \<open>The decisions file round-trips: what \<open>tp_decisions_serialize\<close> writes for a table in its
  invariant is parsed, with no line skipped, into the same decisions in the same order.\<close>

theorem decisions_roundtrip:
  assumes "decisions_inv d" "list_all dec_text_ok (d_entries d)" "tp_decisions_serialize d n \<noteq> []"
  shows "\<exists>cap. tp_decisions_parse True tp_decisions_init (tp_decisions_serialize d n) =
    (tp_decisions_init\<lparr>d_cap := cap, d_entries := d_entries d\<rparr>, 0)"
proof -
  let ?s = "concat (map dec_text (d_entries d))"
  have ser: "tp_decisions_serialize d n = dec_header @ ?s"
    using assms(3) by (auto simp: tp_decisions_serialize_def dec_serialize_loop_eq split: if_splits)
  have "cut_line (dec_header @ ?s) = (butlast dec_header, ?s)"
    using cut_line_append [of "butlast dec_header" ?s] by (simp add: dec_header_def)
  moreover have "dec_line True (butlast dec_header) (tp_decisions_init, 0) = (tp_decisions_init, 0)" by code_simp
  moreover have "dec_header \<noteq> []" by (simp add: dec_header_def)
  ultimately have l: "dec_lines True (dec_header @ ?s) (tp_decisions_init, 0) = dec_lines True ?s (tp_decisions_init, 0)"
    by (subst dec_lines.simps) simp
  have "d_entries tp_decisions_init = []" by (simp add: tp_decisions_init_def)
  then obtain cap where "dec_lines True ?s (tp_decisions_init, 0) = (tp_decisions_init\<lparr>d_cap := cap, d_entries := d_entries d\<rparr>, 0)"
    using dec_lines_concat [OF assms(2) _ init_inv, of 0] assms(1) by (auto simp: decisions_inv_def)
  moreover have "d_dirty tp_decisions_init = False" by (simp add: tp_decisions_init_def)
  ultimately show ?thesis by (intro exI [of _ cap]) (simp add: tp_decisions_parse_def ser l)
qed

theorem decisions_roundtrip_witness:
  "\<exists>d cap. length (d_entries d) = 1 \<and> tp_decisions_parse True tp_decisions_init (tp_decisions_serialize d 4096) =
    (tp_decisions_init\<lparr>d_cap := cap, d_entries := d_entries d\<rparr>, 0)"
proof -
  define e where "e = \<lparr>td_host = ''a.io'', td_fingerprint = 0xFE, td_family = 4, td_step = step_of TP_TARGET_TRUSTED STRATEGY_TLSREC,
    td_validated_at = 1700000000, td_quic_blocked_at = 0\<rparr>"
  define d where "d = tp_decisions_init\<lparr>d_cap := 16, d_entries := [e]\<rparr>"
  have "decision_ok e" by (simp add: decision_ok_def e_def NETFP_UNKNOWN_def STRATEGY_DOMAIN_MAX_def is_direct_step_def)
  then have inv: "decisions_inv d"
    using init_inv by (simp add: d_def decisions_inv_def tp_decisions_init_def TP_DECISIONS_MAX_def dec_slots.unique_def)
  have ok: "dec_text_ok e" by (simp add: e_def dec_text_ok_def clean_def isspace_c_def)
  have "length (print_lld (td_family e)) \<le> 20" "length (print_lld (td_validated_at e)) \<le> 20"
    by (rule print_lld_length; simp add: e_def)+
  then have "length (dec_text e) < 200"
    using strategy_name_facts(3) [of "st_strategy (td_step e)"] by (simp add: dec_text_def tp_target_name_def e_def)
  then have "tp_decisions_serialize d 4096 \<noteq> []"
    by (simp add: tp_decisions_serialize_def d_def dec_header_def)
  moreover have "list_all dec_text_ok (d_entries d)" "length (d_entries d) = 1" using ok by (simp_all add: d_def)
  ultimately show ?thesis using decisions_roundtrip [OF inv, of 4096] by (intro exI [of _ d]) blast
qed

end
