(* ===== verification/Dns.thy ===== *)
theory Dns
  imports Text
begin

text \<open>
  The packet codec of \<open>src/dns/dns.c\<close>: names, queries, responses, and the header-and-question replies
  of the forwarder. A routine that fills a caller's buffer and returns its length returns the bytes
  written, the empty list standing for the result 0; \<^const>\<open>None\<close> is an access outside the packet.
\<close>

section \<open>Data\<close>

definition DNS_NAME_MAX :: nat where "DNS_NAME_MAX = 254"
definition DNS_MAX_ADDRS :: nat where "DNS_MAX_ADDRS = 8"
definition DNS_QTYPE_A :: u16 where "DNS_QTYPE_A = 1"
definition DNS_QTYPE_AAAA :: u16 where "DNS_QTYPE_AAAA = 28"
definition DNS_TTL_MIN :: u32 where "DNS_TTL_MIN = 30"
definition DNS_TTL_MAX :: u32 where "DNS_TTL_MAX = 3600"
definition DNS_NEGATIVE_TTL :: u32 where "DNS_NEGATIVE_TTL = 30"

datatype dns_status = DNS_OK | DNS_NODATA | DNS_NXDOMAIN | DNS_ERR_TIMEOUT | DNS_ERR_MALFORMED | DNS_ERR_SERVFAIL
  | DNS_ERR_ALL_FAILED

record dns_addr =
  da_family :: nat
  da_addr :: bytes

text \<open>The first \<open>count\<close> addresses.\<close>

record dns_answer =
  an_addrs :: "dns_addr list"
  an_ttl :: u32

definition dns_status_name :: "dns_status \<Rightarrow> string" where
  "dns_status_name s =
     (if s = DNS_OK then ''ok''
      else if s = DNS_NODATA then ''nodata''
      else if s = DNS_NXDOMAIN then ''nxdomain''
      else if s = DNS_ERR_TIMEOUT then ''timeout''
      else if s = DNS_ERR_MALFORMED then ''malformed''
      else if s = DNS_ERR_SERVFAIL then ''servfail''
      else ''all_failed'')"

section \<open>Names and queries\<close>

text \<open>One round per label; the dot after it is skipped.\<close>

function encode_labels :: "string \<Rightarrow> bytes \<Rightarrow> bytes option" where
  "encode_labels s out =
     (if s = [] then Some out
      else let label = takeWhile (\<lambda>c. c \<noteq> CHR ''.'') s in
        if length label = 0 \<or> length label > 63 then None
        else encode_labels (drop (length label + 1) s) (out @ [of_nat (length label)] @ map of_char label))"
  by pat_completeness auto
termination
  by (relation "measure (\<lambda>(s, out). length s)") (auto simp: neq_Nil_conv)

declare encode_labels.simps [simp del]

definition encode_name :: "string \<Rightarrow> nat \<Rightarrow> bytes" where
  "encode_name name out_size =
     (let name = (if name \<noteq> [] \<and> last name = CHR ''.'' then butlast name else name); len = length name in
      if len = 0 \<or> len > 253 \<or> len + 2 > out_size then []
      else case encode_labels name [] of None \<Rightarrow> [] | Some out \<Rightarrow> out @ [0])"

definition dns_build_query :: "u16 \<Rightarrow> string \<Rightarrow> u16 \<Rightarrow> nat \<Rightarrow> bytes" where
  "dns_build_query qid name qtype out_size =
     (if out_size < 12 + 4 then []
      else let enc = encode_name name (out_size - 12 - 4) in
        if enc = [] then []
        else be16_bytes qid @ [0x01, 0] @ be16_bytes 1 @ [0, 0, 0, 0, 0, 0] @ enc @ be16_bytes qtype @ be16_bytes 1)"

section \<open>Responses\<close>

text \<open>\<open>tolower\<close> on a byte in the C locale.\<close>

definition tolower_b :: "byte \<Rightarrow> byte" where
  "tolower_b b = (if 65 \<le> b \<and> b \<le> 90 then b + 32 else b)"

text \<open>The position after the name; the inner \<^const>\<open>None\<close> is the result -1.\<close>

function skip_name :: "bytes \<Rightarrow> nat \<Rightarrow> nat \<Rightarrow> nat option option" where
  "skip_name pkt pos guard =
     (if pos < length pkt \<and> guard < 128 then do {
        b \<leftarrow> rd8 pkt pos;
        if b = 0 then Some (Some (pos + 1))
        else if b AND 0xC0 = 0xC0 then
          (if pos + 2 > length pkt then Some None else Some (Some (pos + 2)))
        else if b AND 0xC0 \<noteq> 0 then Some None
        else skip_name pkt (pos + 1 + unat b) (guard + 1)
      }
      else Some None)"
  by pat_completeness auto
termination
  by (relation "measure (\<lambda>(pkt, pos, guard). 128 - guard)") auto

declare skip_name.simps [simp del]

text \<open>The comparing loop of \<open>question_matches\<close> and of \<open>reply_matches\<close>.\<close>

fun same_bytes :: "bytes \<Rightarrow> nat \<Rightarrow> bytes \<Rightarrow> bool option" where
  "same_bytes pkt pos (e # es) = do {
     b \<leftarrow> rd8 pkt pos;
     if tolower_b b \<noteq> tolower_b e then Some False else same_bytes pkt (pos + 1) es
   }"
| "same_bytes pkt pos [] = Some True"

definition question_matches :: "bytes \<Rightarrow> nat \<Rightarrow> string \<Rightarrow> u16 \<Rightarrow> nat option option" where
  "question_matches pkt pos name qtype =
     (let enc = encode_name name (DNS_NAME_MAX + 2); enc_len = length enc in
      if enc_len = 0 \<or> pos + enc_len + 4 > length pkt then Some None
      else do {
        same \<leftarrow> same_bytes pkt pos enc;
        if \<not> same then Some None
        else do {
          t \<leftarrow> rd16 pkt (pos + enc_len);
          c \<leftarrow> rd16 pkt (pos + enc_len + 2);
          if t \<noteq> qtype \<or> c \<noteq> 1 then Some None else Some (Some (pos + enc_len + 4))
        }
      })"

text \<open>The answer loop: \<open>ancount\<close> records from \<open>pos\<close> on.\<close>

fun parse_answers :: "bytes \<Rightarrow> u16 \<Rightarrow> nat \<Rightarrow> nat \<Rightarrow> dns_answer \<Rightarrow> (dns_status \<times> dns_answer) option" where
  "parse_answers pkt qtype (Suc ancount) pos out = do {
     r \<leftarrow> skip_name pkt pos 0;
     case r of
       None \<Rightarrow> Some (DNS_ERR_MALFORMED, out)
     | Some pos \<Rightarrow>
         if pos + 10 > length pkt then Some (DNS_ERR_MALFORMED, out)
         else do {
           rtype \<leftarrow> rd16 pkt pos;
           ttl \<leftarrow> rd32 pkt (pos + 4);
           rdlen16 \<leftarrow> rd16 pkt (pos + 8);
           let rdlen = unat rdlen16;
           let pos = pos + 10;
           if pos + rdlen > length pkt then Some (DNS_ERR_MALFORMED, out)
           else if rtype = qtype \<and> length (an_addrs out) < DNS_MAX_ADDRS \<and>
                (qtype = DNS_QTYPE_A \<and> rdlen = 4 \<or> qtype = DNS_QTYPE_AAAA \<and> rdlen = 16)
           then do {
             a \<leftarrow> sub_buf pkt pos rdlen;
             let addr = \<lparr>da_family = (if qtype = DNS_QTYPE_A then 4 else 6), da_addr = a @ replicate (16 - rdlen) 0\<rparr>;
             parse_answers pkt qtype ancount (pos + rdlen)
               \<lparr>an_addrs = an_addrs out @ [addr], an_ttl = (if ttl < an_ttl out then ttl else an_ttl out)\<rparr>
           }
           else parse_answers pkt qtype ancount (pos + rdlen) out
         }
   }"
| "parse_answers pkt qtype 0 pos out = Some (if an_addrs out = [] then DNS_NODATA else DNS_OK, out)"

definition dns_parse_response :: "bytes \<Rightarrow> u16 \<Rightarrow> string \<Rightarrow> u16 \<Rightarrow> (dns_status \<times> dns_answer) option" where
  "dns_parse_response pkt qid name qtype =
     (let out = \<lparr>an_addrs = [], an_ttl = DNS_TTL_MAX\<rparr> in
      if length pkt < 12 then Some (DNS_ERR_MALFORMED, out)
      else do {
        i \<leftarrow> rd16 pkt 0;
        b2 \<leftarrow> rd8 pkt 2;
        qd \<leftarrow> rd16 pkt 4;
        if i \<noteq> qid \<or> b2 AND 0x80 = 0 \<or> b2 AND 0x02 \<noteq> 0 \<or> qd \<noteq> 1 then Some (DNS_ERR_MALFORMED, out)
        else do {
          q \<leftarrow> question_matches pkt 12 name qtype;
          case q of
            None \<Rightarrow> Some (DNS_ERR_MALFORMED, out)
          | Some pos \<Rightarrow> do {
              b3 \<leftarrow> rd8 pkt 3;
              let rcode = b3 AND 0x0F;
              if rcode = 3 then Some (DNS_NXDOMAIN, out)
              else if rcode \<noteq> 0 then Some (DNS_ERR_SERVFAIL, out)
              else do {
                ancount \<leftarrow> rd16 pkt 6;
                parse_answers pkt qtype (unat ancount) pos out
              }
            }
        }
      })"

section \<open>The client's query\<close>

text \<open>The label loop of \<open>dns_query_info\<close>: \<open>name\<close> is what was written so far. The inner \<^const>\<open>None\<close> is
  the result -1.\<close>

function query_labels :: "bytes \<Rightarrow> nat \<Rightarrow> nat \<Rightarrow> bytes \<Rightarrow> (nat \<times> bytes) option option" where
  "query_labels pkt name_size pos name =
     (if pos < length pkt then do {
        lab8 \<leftarrow> rd8 pkt pos;
        if lab8 = 0 then Some (Some (pos, name))
        else let lab = unat lab8 in
          if lab8 AND 0xC0 \<noteq> 0 \<or> pos + 1 + lab > length pkt \<or> length name + lab + 2 > name_size then Some None
          else do {
            text \<leftarrow> sub_buf pkt (pos + 1) lab;
            query_labels pkt name_size (pos + 1 + lab)
              ((if length name > 0 then name @ [46] else name) @ map tolower_b text)
          }
      }
      else Some (Some (pos, name)))"
  by pat_completeness auto
termination
  by (relation "measure (\<lambda>(pkt, name_size, pos, name). length pkt - pos)") (auto simp: rd8_def split: if_splits)

declare query_labels.simps [simp del]

text \<open>\<open>name\<close> (before its terminator), \<open>*qtype\<close> and \<open>*udp_size\<close>.\<close>

definition dns_query_info :: "bytes \<Rightarrow> nat \<Rightarrow> (bytes \<times> u16 \<times> u16) option option" where
  "dns_query_info pkt name_size =
     (if length pkt < 12 then Some None
      else do {
        b2 \<leftarrow> rd8 pkt 2;
        qd \<leftarrow> rd16 pkt 4;
        if b2 AND 0x80 \<noteq> 0 \<or> b2 AND 0x78 \<noteq> 0 \<or> qd \<noteq> 1 \<or> name_size < 2 then Some None
        else do {
          r \<leftarrow> query_labels pkt name_size 12 [];
          case r of
            None \<Rightarrow> Some None
          | Some (pos, name) \<Rightarrow>
              if pos + 5 > length pkt then Some None
              else do {
                qtype \<leftarrow> rd16 pkt (pos + 1);
                let pos = pos + 5;
                an \<leftarrow> rd16 pkt 6;
                ns \<leftarrow> rd16 pkt 8;
                ar \<leftarrow> rd16 pkt 10;
                if an = 0 \<and> ns = 0 \<and> ar \<ge> 1 \<and> pos + 11 \<le> length pkt then do {
                  root \<leftarrow> rd8 pkt pos;
                  opt \<leftarrow> rd16 pkt (pos + 1);
                  size \<leftarrow> rd16 pkt (pos + 3);
                  Some (Some (name, qtype, if root = 0 \<and> opt = 41 \<and> size > 512 then size else 512))
                }
                else Some (Some (name, qtype, 512))
              }
        }
      })"

function question_end :: "bytes \<Rightarrow> nat \<Rightarrow> nat option option" where
  "question_end pkt pos =
     (if pos < length pkt then do {
        b \<leftarrow> rd8 pkt pos;
        if b = 0 then Some (Some pos)
        else if b AND 0xC0 \<noteq> 0 then Some None
        else question_end pkt (pos + 1 + unat b)
      }
      else Some (Some pos))"
  by pat_completeness auto
termination
  by (relation "measure (\<lambda>(pkt, pos). length pkt - pos)") (auto simp: rd8_def split: if_splits)

declare question_end.simps [simp del]

definition question_len :: "bytes \<Rightarrow> nat option" where
  "question_len pkt = do {
     r \<leftarrow> question_end pkt 12;
     case r of None \<Rightarrow> Some 0
     | Some pos \<Rightarrow> if pos + 5 > length pkt then Some 0 else Some (pos + 5 - 12)
   }"

definition reply_matches :: "bytes \<Rightarrow> bytes \<Rightarrow> bool option" where
  "reply_matches query reply = do {
     ql \<leftarrow> question_len query;
     if ql = 0 \<or> length reply < 12 + ql then Some False
     else do {
       rid \<leftarrow> rd16 reply 0;
       qid \<leftarrow> rd16 query 0;
       b2 \<leftarrow> rd8 reply 2;
       qd \<leftarrow> rd16 reply 4;
       if rid \<noteq> qid \<or> b2 AND 0x80 = 0 \<or> qd \<noteq> 1 then Some False
       else do {
         q \<leftarrow> sub_buf query 12 ql;
         same_bytes reply 12 q
       }
     }
   }"

definition dns_truncated_reply :: "bytes \<Rightarrow> nat \<Rightarrow> bytes option" where
  "dns_truncated_reply query out_size = do {
     ql \<leftarrow> question_len query;
     if ql = 0 \<or> out_size < 12 + ql then Some []
     else do {
       out \<leftarrow> sub_buf query 0 (12 + ql);
       b2 \<leftarrow> rd8 query 2;
       out \<leftarrow> st8 out 2 ((b2 AND 0x79) OR 0x80 OR 0x02);
       out \<leftarrow> st8 out 3 0x80;
       out \<leftarrow> st16 out 6 0;
       out \<leftarrow> st16 out 8 0;
       st16 out 10 0
     }
   }"

definition dns_servfail_reply :: "bytes \<Rightarrow> nat \<Rightarrow> bytes option" where
  "dns_servfail_reply query out_size = do {
     out \<leftarrow> dns_truncated_reply query out_size;
     if out = [] then Some []
     else do {
       b2 \<leftarrow> rd8 out 2;
       out \<leftarrow> st8 out 2 (b2 AND NOT 0x02);
       st8 out 3 (0x80 OR 0x02)
     }
   }"

text \<open>The inner \<^const>\<open>None\<close> is the result -1.\<close>

definition dns_reply_rcode :: "bytes \<Rightarrow> byte option option" where
  "dns_reply_rcode pkt =
     (if length pkt < 12 then Some None
      else do {
        b2 \<leftarrow> rd8 pkt 2;
        if b2 AND 0x80 = 0 then Some None
        else do { b3 \<leftarrow> rd8 pkt 3; Some (Some (b3 AND 0x0F)) }
      })"

definition dns_reply_answer_count :: "bytes \<Rightarrow> nat option" where
  "dns_reply_answer_count pkt = (if length pkt < 12 then Some 0 else do { c \<leftarrow> rd16 pkt 6; Some (unat c) })"

section \<open>Local names\<close>

definition in_zone :: "string \<Rightarrow> string \<Rightarrow> bool" where
  "in_zone name zone =
     (let n = length name; z = length zone in
      if n = z then name = zone
      else n > z \<and> name ! (n - z - 1) = CHR ''.'' \<and> drop (n - z) name = zone)"

definition local_zones :: "string list" where
  "local_zones =
     [''local'', ''localhost'', ''localdomain'', ''lan'', ''home'', ''home.arpa'',
      ''internal'', ''intranet'', ''corp'',
      ''10.in-addr.arpa'', ''168.192.in-addr.arpa'', ''254.169.in-addr.arpa'',
      ''c.f.ip6.arpa'', ''d.f.ip6.arpa'', ''8.e.f.ip6.arpa'', ''9.e.f.ip6.arpa'',
      ''a.e.f.ip6.arpa'', ''b.e.f.ip6.arpa'']"

definition dns_name_is_local :: "string \<Rightarrow> bool" where
  "dns_name_is_local name =
     (if name = [] then False
      else if CHR ''.'' \<notin> set name then True
      else if list_ex (in_zone name) local_zones then True
      else if list_ex (\<lambda>octet. in_zone name (dec_nat octet @ ''.172.in-addr.arpa'')) [16..<32] then True
      else list_ex (\<lambda>octet. in_zone name (dec_nat octet @ ''.100.in-addr.arpa'')) [64..<128])"

section \<open>Reading fields of a concatenation\<close>

lemma be16_zero: "be16 0 0 = 0"
  by (simp add: be16_def)

lemma dns_rd8_at: "n = length pre \<Longrightarrow> rd8 (pre @ b # post) n = Some b"
  by (simp add: rd8_def nth_append)

lemma rd16_at: "n = length pre \<Longrightarrow> rd16 (pre @ be16_bytes v @ post) n = Some v"
  by (simp add: rd16_def rd8_def nth_append be16_bytes_def)

lemma rd32_at: "n = length pre \<Longrightarrow> rd32 (pre @ be32_bytes v @ post) n = Some v"
  by (simp add: rd32_def rd8_def nth_append be32_bytes_def numeral_2_eq_2 numeral_3_eq_3)

lemma sub_buf_at: "n = length pre \<Longrightarrow> m = length xs \<Longrightarrow> sub_buf (pre @ xs @ post) n m = Some xs"
  by (simp add: sub_buf_def)

section \<open>Labels\<close>

definition wire_labels :: "bytes list \<Rightarrow> bytes" where
  "wire_labels ls = concat (map (\<lambda>l. of_nat (length l) # l) ls)"

definition labels_ok :: "bytes list \<Rightarrow> bool" where
  "labels_ok ls \<longleftrightarrow> list_all (\<lambda>l. 1 \<le> length l \<and> length l \<le> 63) ls"

lemma label_length_byte:
  assumes "1 \<le> n" "n \<le> 63"
  shows "(of_nat n :: byte) \<noteq> 0" "(of_nat n :: byte) AND 0xC0 = 0" "unat (of_nat n :: byte) = n"
    "(of_nat n :: byte) AND 0xC0 \<noteq> 0xC0" "tolower_b (of_nat n) = of_nat n"
proof -
  have "list_all (\<lambda>n. (of_nat n :: byte) \<noteq> 0 \<and> (of_nat n :: byte) AND 0xC0 = 0 \<and> unat (of_nat n :: byte) = n \<and>
      (of_nat n :: byte) AND 0xC0 \<noteq> 0xC0 \<and> tolower_b (of_nat n) = of_nat n) [1..<64]" by code_simp
  then show "(of_nat n :: byte) \<noteq> 0" "(of_nat n :: byte) AND 0xC0 = 0" "unat (of_nat n :: byte) = n"
    "(of_nat n :: byte) AND 0xC0 \<noteq> 0xC0" "tolower_b (of_nat n) = of_nat n"
    using assms by (auto simp: list_all_iff)
qed

lemma wire_labels_Cons: "wire_labels (l # ls) = of_nat (length l) # l @ wire_labels ls"
  by (simp add: wire_labels_def)

lemma wire_labels_Nil [simp]: "wire_labels [] = []"
  by (simp add: wire_labels_def)

text \<open>A name on the wire: labels, then the root or a compression pointer.\<close>

definition wire_name :: "bytes \<Rightarrow> bool" where
  "wire_name nm \<longleftrightarrow> (\<exists>ls. labels_ok ls \<and> length ls < 128 \<and>
     (nm = wire_labels ls @ [0] \<or> (\<exists>a b. a AND 0xC0 = 0xC0 \<and> nm = wire_labels ls @ [a, b])))"

lemma skip_name_labels:
  "labels_ok ls \<Longrightarrow> guard + length ls < 128 \<Longrightarrow> tail \<noteq> [] \<Longrightarrow>
   skip_name (pre @ wire_labels ls @ tail) (length pre) guard =
   skip_name (pre @ wire_labels ls @ tail) (length pre + length (wire_labels ls)) (guard + length ls)"
proof (induction ls arbitrary: pre guard)
  case (Cons l ls)
  let ?pkt = "pre @ wire_labels (l # ls) @ tail"
  have l: "1 \<le> length l" "length l \<le> 63" "labels_ok ls" using Cons.prems(1) by (simp_all add: labels_ok_def)
  note b = label_length_byte [OF l(1,2)]
  have rd: "rd8 ?pkt (length pre) = Some (of_nat (length l))" unfolding wire_labels_Cons by (simp add: dns_rd8_at)
  have "skip_name ?pkt (length pre) guard = skip_name ?pkt (length pre + 1 + length l) (guard + 1)"
    using rd b Cons.prems(2) by (subst skip_name.simps) (simp add: wire_labels_Cons)
  also have "?pkt = (pre @ of_nat (length l) # l) @ wire_labels ls @ tail" by (simp add: wire_labels_Cons)
  also have "skip_name \<dots> (length pre + 1 + length l) (guard + 1) =
      skip_name \<dots> (length (pre @ of_nat (length l) # l) + length (wire_labels ls)) (guard + 1 + length ls)"
    using Cons.IH [of "guard + 1" "pre @ of_nat (length l) # l"] l(3) Cons.prems(2,3) by simp
  finally show ?case by (simp add: wire_labels_Cons add.assoc)
qed simp

lemma skip_name_wire:
  assumes "wire_name nm"
  shows "skip_name (pre @ nm @ post) (length pre) 0 = Some (Some (length pre + length nm))"
proof -
  obtain ls where ls: "labels_ok ls" "length ls < 128"
    "nm = wire_labels ls @ [0] \<or> (\<exists>a b. a AND 0xC0 = 0xC0 \<and> nm = wire_labels ls @ [a, b])"
    using assms by (auto simp: wire_name_def)
  let ?q = "pre @ wire_labels ls"
  have z: "skip_name (?q @ 0 # t) (length ?q) g = Some (Some (length ?q + 1))" if "g < 128" for t g
    using that dns_rd8_at [of "length ?q" ?q 0 t] by (subst skip_name.simps) simp
  have p: "skip_name (?q @ a # b # t) (length ?q) g = Some (Some (length ?q + 2))" if "g < 128" "a AND 0xC0 = 0xC0" for a b t g
    using that dns_rd8_at [of "length ?q" ?q a "b # t"] by (subst skip_name.simps) auto
  from ls(3) show ?thesis
  proof (elim disjE exE conjE)
    assume nm: "nm = wire_labels ls @ [0]"
    show ?thesis using skip_name_labels [OF ls(1), of 0 "0 # post" pre] z [of "length ls" post] ls(2) by (simp add: nm)
  next
    fix a b assume ab: "a AND 0xC0 = 0xC0" and nm: "nm = wire_labels ls @ [a, b]"
    show ?thesis using skip_name_labels [OF ls(1), of 0 "a # b # post" pre] p [of "length ls" a b post] ls(2) ab by (simp add: nm)
  qed
qed

lemma skip_name_total: "\<exists>r. skip_name pkt pos guard = Some r \<and> (\<forall>p. r = Some p \<longrightarrow> p \<le> length pkt)"
proof (induction pkt pos guard rule: skip_name.induct)
  case (1 pkt pos guard)
  show ?case
  proof (cases "pos < length pkt \<and> guard < 128")
    case True
    then show ?thesis using 1 [OF True, of "pkt ! pos"] by (subst skip_name.simps) (auto simp: mem_simps)
  next
    case False
    then show ?thesis by (subst skip_name.simps) auto
  qed
qed

lemma same_bytes_eq:
  "pos + length es \<le> length pkt \<Longrightarrow>
   same_bytes pkt pos es = Some (map tolower_b (take (length es) (drop pos pkt)) = map tolower_b es)"
proof (induction es arbitrary: pos)
  case (Cons e es)
  then have d: "drop pos pkt = pkt ! pos # drop (pos + 1) pkt" by (simp add: Cons_nth_drop_Suc)
  show ?case using Cons by (auto simp: mem_simps d)
qed simp

section \<open>Encoded names\<close>

text \<open>The dotted text of a list of labels.\<close>

fun dotted :: "string list \<Rightarrow> string" where
  "dotted [] = []"
| "dotted [l] = l"
| "dotted (l # ls) = l @ CHR ''.'' # dotted ls"

definition label_texts_ok :: "string list \<Rightarrow> bool" where
  "label_texts_ok ls \<longleftrightarrow> list_all (\<lambda>l. 1 \<le> length l \<and> length l \<le> 63 \<and> CHR ''.'' \<notin> set l) ls"

abbreviation label_bytes :: "string list \<Rightarrow> bytes list" where
  "label_bytes ls \<equiv> map (map of_char) ls"

lemma label_texts_wire: "label_texts_ok ls \<Longrightarrow> labels_ok (label_bytes ls)"
  by (auto simp: label_texts_ok_def labels_ok_def list_all_iff)

lemma takeWhile_dot: "CHR ''.'' \<notin> set l \<Longrightarrow> takeWhile (\<lambda>c. c \<noteq> CHR ''.'') (l @ CHR ''.'' # r) = l"
  "CHR ''.'' \<notin> set l \<Longrightarrow> takeWhile (\<lambda>c. c \<noteq> CHR ''.'') l = l"
  by (induction l) auto

lemma dotted_nonempty: "ls \<noteq> [] \<Longrightarrow> label_texts_ok ls \<Longrightarrow> dotted ls \<noteq> []"
  by (cases ls rule: dotted.cases) (auto simp: label_texts_ok_def)

lemma dotted_last: "ls \<noteq> [] \<Longrightarrow> label_texts_ok ls \<Longrightarrow> last (dotted ls) \<noteq> CHR ''.''"
proof (induction ls rule: dotted.induct)
  case (2 l)
  then have "l \<noteq> []" "CHR ''.'' \<notin> set l" by (auto simp: label_texts_ok_def)
  then show ?case using last_in_set [of l] by (metis dotted.simps(2))
next
  case (3 l m ls)
  then show ?case using dotted_nonempty [of "m # ls"] by (simp add: label_texts_ok_def)
qed simp

lemma encode_labels_dotted:
  "ls \<noteq> [] \<Longrightarrow> label_texts_ok ls \<Longrightarrow> encode_labels (dotted ls) out = Some (out @ wire_labels (label_bytes ls))"
proof (induction ls arbitrary: out rule: dotted.induct)
  case (2 l)
  have l: "1 \<le> length l" "length l \<le> 63" "CHR ''.'' \<notin> set l" using 2 by (simp_all add: label_texts_ok_def)
  then have "l \<noteq> []" by auto
  then show ?case
    using l by (subst encode_labels.simps) (simp add: takeWhile_dot encode_labels.simps [of "[]"] wire_labels_Cons)
next
  case (3 l m ls)
  have l: "1 \<le> length l" "length l \<le> 63" "CHR ''.'' \<notin> set l" "label_texts_ok (m # ls)"
    using 3(3) by (simp_all add: label_texts_ok_def)
  have "l \<noteq> []" using l(1) by auto
  then have "encode_labels (dotted (l # m # ls)) out = encode_labels (dotted (m # ls)) (out @ [of_nat (length l)] @ map of_char l)"
    using l by (subst encode_labels.simps) (simp add: takeWhile_dot)
  also have "\<dots> = Some ((out @ [of_nat (length l)] @ map of_char l) @ wire_labels (label_bytes (m # ls)))"
    using l(4) by (intro 3(1)) simp_all
  finally show ?case by (simp add: wire_labels_Cons)
qed simp

lemma dotted_length: "ls \<noteq> [] \<Longrightarrow> length (wire_labels (label_bytes ls)) = length (dotted ls) + 1"
  by (induction ls rule: dotted.induct) (simp_all add: wire_labels_Cons)

text \<open>A host name that fits a query.\<close>

definition name_ok :: "string list \<Rightarrow> bool" where
  "name_ok ls \<longleftrightarrow> ls \<noteq> [] \<and> label_texts_ok ls \<and> length (dotted ls) \<le> 253"

lemma encode_name_dotted:
  assumes "name_ok ls" "length (dotted ls) + 2 \<le> n"
  shows "encode_name (dotted ls) n = wire_labels (label_bytes ls) @ [0]"
    "encode_name (dotted ls @ ''.'') n = wire_labels (label_bytes ls) @ [0]"
  using assms dotted_nonempty [of ls] dotted_last [of ls] encode_labels_dotted [of ls "[]"]
  by (auto simp: encode_name_def name_ok_def Let_def)

section \<open>Building a query and reading it back\<close>

text \<open>What the label loop writes for a list of labels.\<close>

definition add_label :: "bytes \<Rightarrow> bytes \<Rightarrow> bytes" where
  "add_label name l = (if length name > 0 then name @ [46] else name) @ map tolower_b l"

lemma add_label_length: "length name + length l \<le> length (add_label name l)"
  by (simp add: add_label_def)

lemma add_labels_length: "length name \<le> length (foldl add_label name ls)"
proof (induction ls arbitrary: name)
  case (Cons l ls)
  show ?case using Cons.IH [of "add_label name l"] add_label_length [of name l] by simp
qed simp

lemma query_labels_wire:
  "labels_ok ls \<Longrightarrow> length (foldl add_label name ls) + 2 \<le> size_max \<Longrightarrow>
   query_labels (pre @ wire_labels ls @ 0 # post) size_max (length pre) name =
   Some (Some (length pre + length (wire_labels ls), foldl add_label name ls))"
proof (induction ls arbitrary: pre name)
  case Nil
  then show ?case by (subst query_labels.simps) (simp add: dns_rd8_at)
next
  case (Cons l ls)
  let ?pkt = "pre @ wire_labels (l # ls) @ 0 # post"
  have l: "1 \<le> length l" "length l \<le> 63" "labels_ok ls" using Cons.prems(1) by (simp_all add: labels_ok_def)
  note b = label_length_byte [OF l(1,2)]
  have pkt: "?pkt = (pre @ of_nat (length l) # l) @ wire_labels ls @ 0 # post" by (simp add: wire_labels_Cons)
  have rd: "rd8 ?pkt (length pre) = Some (of_nat (length l))" unfolding wire_labels_Cons by (simp add: dns_rd8_at)
  have sb: "sub_buf ?pkt (length pre + 1) (length l) = Some l"
    using sub_buf_at [of "length pre + 1" "pre @ [of_nat (length l)]" "length l" l "wire_labels ls @ 0 # post"]
    by (simp add: wire_labels_Cons)
  have fits: "length name + length l + 2 \<le> size_max"
    using Cons.prems(2) add_label_length [of name l] add_labels_length [of "add_label name l" ls] by simp
  have "query_labels ?pkt size_max (length pre) name =
      query_labels ?pkt size_max (length pre + 1 + length l) (add_label name l)"
    using rd sb b fits by (subst query_labels.simps) (simp add: wire_labels_Cons add_label_def Let_def)
  also have "\<dots> = Some (Some (length (pre @ of_nat (length l) # l) + length (wire_labels ls), foldl add_label name (l # ls)))"
    unfolding pkt using Cons.IH [of "add_label name l" "pre @ of_nat (length l) # l"] l(3) Cons.prems(2) by simp
  finally show ?case by (simp add: wire_labels_Cons add.assoc)
qed

lemma add_labels_dotted:
  "ls \<noteq> [] \<Longrightarrow> label_texts_ok ls \<Longrightarrow>
   foldl add_label name (label_bytes ls) = add_label name (map of_char (dotted ls))"
proof (induction ls arbitrary: name rule: dotted.induct)
  case (3 l m ls)
  have "1 \<le> length l" "label_texts_ok (m # ls)" using 3(3) by (simp_all add: label_texts_ok_def)
  then have ne: "l \<noteq> []" "label_texts_ok (m # ls)" by auto
  have "foldl add_label name (label_bytes (l # m # ls)) = add_label (add_label name (map of_char l)) (map of_char (dotted (m # ls)))"
    using 3(1) [of "add_label name (map of_char l)"] ne(2) by simp
  also have "\<dots> = add_label name (map of_char (dotted (l # m # ls)))"
    using ne(1) by (simp add: add_label_def tolower_b_def)
  finally show ?case .
qed simp_all

text \<open>The bytes of the lower-case name.\<close>

definition lower_name :: "string \<Rightarrow> bytes" where
  "lower_name s = map (\<lambda>c. tolower_b (of_char c)) s"

lemma build_query_dotted:
  assumes "name_ok ls" "length (dotted ls) + 18 \<le> out_size"
  shows "dns_build_query qid (dotted ls) qtype out_size =
    be16_bytes qid @ [0x01, 0] @ be16_bytes 1 @ [0, 0, 0, 0, 0, 0] @ wire_labels (label_bytes ls) @ [0] @
    be16_bytes qtype @ be16_bytes 1"
  using assms encode_name_dotted(1) [of ls "out_size - 12 - 4"] by (simp add: dns_build_query_def Let_def)

lemma query_info_build:
  assumes n: "name_ok ls" "length (dotted ls) + 18 \<le> out_size" "length (dotted ls) + 2 \<le> name_size"
  shows "dns_query_info (dns_build_query qid (dotted ls) qtype out_size) name_size =
    Some (Some (lower_name (dotted ls), qtype, 512))"
proof -
  let ?w = "wire_labels (label_bytes ls)"
  let ?h = "be16_bytes qid @ [0x01, 0] @ be16_bytes 1 @ [0, 0, 0, 0, 0, 0]"
  let ?pkt = "?h @ ?w @ [0] @ be16_bytes qtype @ be16_bytes 1"
  have ok: "ls \<noteq> []" "label_texts_ok ls" using n(1) by (simp_all add: name_ok_def)
  have joined: "foldl add_label [] (label_bytes ls) = lower_name (dotted ls)"
    by (simp add: add_labels_dotted [OF ok] add_label_def lower_name_def)
  have lh: "length ?h = 12" by simp
  have q: "query_labels ?pkt name_size 12 [] = Some (Some (12 + length ?w, lower_name (dotted ls)))"
    using query_labels_wire [OF label_texts_wire [OF ok(2)], of "[]" name_size ?h "be16_bytes qtype @ be16_bytes 1"] n(3)
    unfolding lh joined by (simp add: lower_name_def)
  have t: "rd16 ?pkt (12 + length ?w + 1) = Some qtype"
    using rd16_at [of "12 + length ?w + 1" "?h @ ?w @ [0]" qtype "be16_bytes 1"] by simp
  have hd: "rd8 ?pkt 2 = Some 1" "rd16 ?pkt 4 = Some 1" "rd16 ?pkt 6 = Some 0" "rd16 ?pkt 8 = Some 0" "rd16 ?pkt 10 = Some 0"
    by (simp_all add: rd8_def rd16_def be16_bytes_def be16_zero)
  have "dns_query_info ?pkt name_size = Some (Some (lower_name (dotted ls), qtype, 512))"
    unfolding dns_query_info_def using q t hd n(3) by (simp add: numeral_eq_Suc)
  then show ?thesis by (simp only: build_query_dotted [OF n(1,2)] append_assoc)
qed

section \<open>Resource records\<close>

record rr =
  rr_name :: bytes
  rr_type :: u16
  rr_class :: u16
  rr_ttl :: u32
  rr_data :: bytes

definition wire_rr :: "rr \<Rightarrow> bytes" where
  "wire_rr r = rr_name r @ be16_bytes (rr_type r) @ be16_bytes (rr_class r) @ be32_bytes (rr_ttl r) @
     be16_bytes (of_nat (length (rr_data r))) @ rr_data r"

definition rr_ok :: "rr \<Rightarrow> bool" where
  "rr_ok r \<longleftrightarrow> wire_name (rr_name r) \<and> length (rr_data r) < 65536"

text \<open>The records that carry an address of the type asked for, and the answer they make.\<close>

definition addr_rr :: "u16 \<Rightarrow> rr \<Rightarrow> bool" where
  "addr_rr qtype r \<longleftrightarrow> rr_type r = qtype \<and>
     (qtype = DNS_QTYPE_A \<and> length (rr_data r) = 4 \<or> qtype = DNS_QTYPE_AAAA \<and> length (rr_data r) = 16)"

definition rr_addr :: "u16 \<Rightarrow> rr \<Rightarrow> dns_addr" where
  "rr_addr qtype r =
     \<lparr>da_family = (if qtype = DNS_QTYPE_A then 4 else 6), da_addr = rr_data r @ replicate (16 - length (rr_data r)) 0\<rparr>"

definition rr_answer :: "u16 \<Rightarrow> rr list \<Rightarrow> dns_answer \<Rightarrow> dns_answer" where
  "rr_answer qtype rs out =
     (let hits = take (DNS_MAX_ADDRS - length (an_addrs out)) (filter (addr_rr qtype) rs) in
      \<lparr>an_addrs = an_addrs out @ map (rr_addr qtype) hits, an_ttl = foldl min (an_ttl out) (map rr_ttl hits)\<rparr>)"

lemma rr_answer_Nil [simp]: "rr_answer qtype [] out = out"
  by (simp add: rr_answer_def)

lemma rr_answer_Cons:
  "rr_answer qtype (r # rs) out =
   (if addr_rr qtype r \<and> length (an_addrs out) < DNS_MAX_ADDRS
    then rr_answer qtype rs \<lparr>an_addrs = an_addrs out @ [rr_addr qtype r], an_ttl = min (an_ttl out) (rr_ttl r)\<rparr>
    else rr_answer qtype rs out)"
proof -
  have "DNS_MAX_ADDRS - length (an_addrs out) = Suc (DNS_MAX_ADDRS - Suc (length (an_addrs out)))"
    if "length (an_addrs out) < DNS_MAX_ADDRS" using that by simp
  then show ?thesis by (simp add: rr_answer_def Let_def)
qed

lemma parse_answers_Cons:
  assumes "rr_ok r"
  shows "parse_answers (pre @ wire_rr r @ post) qtype (Suc n) (length pre) out =
    parse_answers (pre @ wire_rr r @ post) qtype n (length pre + length (wire_rr r))
      (if addr_rr qtype r \<and> length (an_addrs out) < DNS_MAX_ADDRS
       then \<lparr>an_addrs = an_addrs out @ [rr_addr qtype r], an_ttl = min (an_ttl out) (rr_ttl r)\<rparr> else out)"
proof -
  let ?nm = "rr_name r" and ?d = "rr_data r"
  let ?l = "be16_bytes (of_nat (length ?d))"
  let ?pkt = "pre @ wire_rr r @ post"
  let ?p = "length pre + length ?nm"
  have ok: "wire_name ?nm" "length ?d < 65536" using assms by (simp_all add: rr_ok_def)
  have ud: "unat (of_nat (length ?d) :: u16) = length ?d" using ok(2) by (simp add: unat_of_nat take_bit_nat_eq_self)
  have sk: "skip_name ?pkt (length pre) 0 = Some (Some ?p)"
    using skip_name_wire [OF ok(1)] by (simp add: wire_rr_def)
  have f1: "rd16 ?pkt ?p = Some (rr_type r)"
    using rd16_at [of ?p "pre @ ?nm" "rr_type r"] by (simp add: wire_rr_def)
  have f2: "rd32 ?pkt (?p + 4) = Some (rr_ttl r)"
    using rd32_at [of "?p + 4" "pre @ ?nm @ be16_bytes (rr_type r) @ be16_bytes (rr_class r)" "rr_ttl r"]
    by (simp add: wire_rr_def)
  have f3: "rd16 ?pkt (?p + 8) = Some (of_nat (length ?d))"
    using rd16_at [of "?p + 8" "pre @ ?nm @ be16_bytes (rr_type r) @ be16_bytes (rr_class r) @ be32_bytes (rr_ttl r)"]
    by (simp add: wire_rr_def)
  have f4: "sub_buf ?pkt (?p + 10) (length ?d) = Some ?d"
    using sub_buf_at [of "?p + 10"
        "pre @ ?nm @ be16_bytes (rr_type r) @ be16_bytes (rr_class r) @ be32_bytes (rr_ttl r) @ ?l" "length ?d" ?d post]
    by (simp add: wire_rr_def)
  have len: "length ?pkt = ?p + 10 + length ?d + length post" "length (wire_rr r) = length ?nm + 10 + length ?d"
    by (simp_all add: wire_rr_def)
  have mn: "(if rr_ttl r < an_ttl out then rr_ttl r else an_ttl out) = min (an_ttl out) (rr_ttl r)"
    by (auto simp: min_def)
  show ?thesis
    unfolding parse_answers.simps sk len(2) using f1 f2 f3 f4 ud
    by (auto simp: len(1) mn addr_rr_def rr_addr_def add.assoc Let_def simp del: length_append)
qed

lemma parse_answers_wire:
  "list_all rr_ok rs \<Longrightarrow>
   parse_answers (pre @ concat (map wire_rr rs) @ post) qtype (length rs) (length pre) out =
   Some (if an_addrs (rr_answer qtype rs out) = [] then DNS_NODATA else DNS_OK, rr_answer qtype rs out)"
proof (induction rs arbitrary: pre out)
  case (Cons r rs)
  let ?out = "if addr_rr qtype r \<and> length (an_addrs out) < DNS_MAX_ADDRS
       then \<lparr>an_addrs = an_addrs out @ [rr_addr qtype r], an_ttl = min (an_ttl out) (rr_ttl r)\<rparr> else out"
  have "rr_answer qtype (r # rs) out = rr_answer qtype rs ?out" by (simp add: rr_answer_Cons)
  then show ?case
    using Cons.prems Cons.IH [of "pre @ wire_rr r" ?out]
      parse_answers_Cons [of r pre "concat (map wire_rr rs) @ post" qtype "length rs" out] by simp
qed simp

section \<open>Authentic responses\<close>

text \<open>The checks on the header and the question: the transaction id, the response bit, no truncation,
  one question, and that question the one asked, up to letter case.\<close>

definition authentic :: "bytes \<Rightarrow> u16 \<Rightarrow> string \<Rightarrow> u16 \<Rightarrow> bool" where
  "authentic pkt qid name qtype =
     (let enc = encode_name name 256; n = length enc in
      n > 0 \<and> 16 + n \<le> length pkt \<and> take 2 pkt = be16_bytes qid \<and> bit (pkt ! 2) 7 \<and> \<not> bit (pkt ! 2) 1 \<and>
      take 2 (drop 4 pkt) = be16_bytes 1 \<and> map tolower_b (take n (drop 12 pkt)) = map tolower_b enc \<and>
      take 4 (drop (12 + n) pkt) = be16_bytes qtype @ be16_bytes 1)"

lemma be16_bytes_eq: "be16_bytes v = be16_bytes w \<longleftrightarrow> v = w"
  unfolding be16_bytes_def by (metis be16_hi8_lo8 list.inject)

lemma rd16_take: "pos + 2 \<le> length pkt \<Longrightarrow> rd16 pkt pos = Some v \<longleftrightarrow> take 2 (drop pos pkt) = be16_bytes v"
proof -
  assume a: "pos + 2 \<le> length pkt"
  then have d: "take 2 (drop pos pkt) = [pkt ! pos, pkt ! (pos + 1)]"
    by (simp add: numeral_2_eq_2 take_Suc_conv_app_nth)
  have "be16 x y = v \<longleftrightarrow> [x, y] = be16_bytes v" for x y
    by (auto simp: be16_bytes_def)
  then show ?thesis using a by (simp add: rd16_def rd8_def d)
qed

lemma byte_bits: "b AND 0x80 = 0 \<longleftrightarrow> \<not> bit b 7" "b AND 0x02 = 0 \<longleftrightarrow> \<not> bit b 1" for b :: byte
  using and_exp_eq_0_iff_not_bit [of b 7] and_exp_eq_0_iff_not_bit [of b 1] by simp_all

lemma question_matches_eq:
  "question_matches pkt pos name qtype =
   (let enc = encode_name name 256; n = length enc in
    Some (if n > 0 \<and> pos + n + 4 \<le> length pkt \<and> map tolower_b (take n (drop pos pkt)) = map tolower_b enc \<and>
             take 4 (drop (pos + n) pkt) = be16_bytes qtype @ be16_bytes 1
          then Some (pos + n + 4) else None))"
proof (cases "encode_name name 256 \<noteq> [] \<and> pos + length (encode_name name 256) + 4 \<le> length pkt")
  case True
  let ?enc = "encode_name name 256" and ?n = "length (encode_name name 256)"
  have four: "take 4 xs = take 2 xs @ take 2 (drop 2 xs)" for xs :: bytes
    by (simp flip: take_add)
  have f: "take 4 (drop (pos + ?n) pkt) = be16_bytes qtype @ be16_bytes 1 \<longleftrightarrow>
      rd16 pkt (pos + ?n) = Some qtype \<and> rd16 pkt (pos + ?n + 2) = Some 1"
    using True by (subst four, subst append_eq_append_conv) (auto simp: rd16_take add.commute)
  obtain t c where tc: "rd16 pkt (pos + ?n) = Some t" "rd16 pkt (pos + ?n + 2) = Some c"
    using True by (simp add: mem_simps)
  show ?thesis
    using True same_bytes_eq [of pos ?enc pkt] f tc
    by (auto simp: question_matches_def Let_def DNS_NAME_MAX_def)
next
  case False
  then show ?thesis by (auto simp: question_matches_def Let_def DNS_NAME_MAX_def)
qed

lemma parse_response_inauthentic:
  assumes "\<not> authentic pkt qid name qtype"
  shows "dns_parse_response pkt qid name qtype = Some (DNS_ERR_MALFORMED, \<lparr>an_addrs = [], an_ttl = DNS_TTL_MAX\<rparr>)"
proof (cases "length pkt < 12")
  case False
  then have rd: "rd8 pkt 2 = Some (pkt ! 2)" "\<exists>v. rd16 pkt 0 = Some v" "\<exists>v. rd16 pkt 4 = Some v"
    by (simp_all add: mem_simps)
  then obtain v w where vw: "rd16 pkt 0 = Some v" "rd16 pkt 4 = Some w" by blast
  have "v = qid \<longleftrightarrow> take 2 pkt = be16_bytes qid" "w = 1 \<longleftrightarrow> take 2 (drop 4 pkt) = be16_bytes 1"
    using False vw rd16_take [of 0 pkt] rd16_take [of 4 pkt] by (auto simp: be16_bytes_eq)
  then show ?thesis
    using False rd vw assms
    by (auto simp: dns_parse_response_def Let_def question_matches_eq authentic_def byte_bits)
qed (simp add: dns_parse_response_def)

lemma parse_response_authentic:
  assumes "authentic pkt qid name qtype"
  shows "dns_parse_response pkt qid name qtype =
    (let out = \<lparr>an_addrs = [], an_ttl = DNS_TTL_MAX\<rparr>; rcode = pkt ! 3 AND 0x0F in
     if rcode = 3 then Some (DNS_NXDOMAIN, out)
     else if rcode \<noteq> 0 then Some (DNS_ERR_SERVFAIL, out)
     else parse_answers pkt qtype (unat (be16 (pkt ! 6) (pkt ! 7))) (16 + length (encode_name name 256)) out)"
proof -
  have len: "16 + length (encode_name name 256) \<le> length pkt" using assms by (simp add: authentic_def Let_def)
  then have rd: "rd16 pkt 0 = Some qid" "rd16 pkt 4 = Some 1" "rd8 pkt 2 = Some (pkt ! 2)" "rd8 pkt 3 = Some (pkt ! 3)"
    "rd16 pkt 6 = Some (be16 (pkt ! 6) (pkt ! 7))"
    using assms rd16_take [of 0 pkt qid] rd16_take [of 4 pkt 1] by (auto simp: authentic_def Let_def mem_simps)
  show ?thesis
    using len rd assms
    by (simp add: dns_parse_response_def Let_def question_matches_eq authentic_def byte_bits add.commute)
qed

section \<open>What an answer is\<close>

definition answer_ok :: "u16 \<Rightarrow> dns_answer \<Rightarrow> bool" where
  "answer_ok qtype out \<longleftrightarrow> length (an_addrs out) \<le> DNS_MAX_ADDRS \<and> an_ttl out \<le> DNS_TTL_MAX \<and>
     list_all (\<lambda>a. length (da_addr a) = 16 \<and> da_family a = (if qtype = DNS_QTYPE_A then 4 else 6)) (an_addrs out)"

lemma answer_ok_empty: "answer_ok qtype \<lparr>an_addrs = [], an_ttl = DNS_TTL_MAX\<rparr>"
  by (simp add: answer_ok_def)

lemma answer_ok_add:
  assumes "answer_ok qtype out" "length (an_addrs out) < DNS_MAX_ADDRS" "length a = 16"
  shows "answer_ok qtype \<lparr>an_addrs = an_addrs out @ [\<lparr>da_family = (if qtype = DNS_QTYPE_A then 4 else 6), da_addr = a\<rparr>],
     an_ttl = (if ttl < an_ttl out then ttl else an_ttl out)\<rparr>"
  using assms by (auto simp: answer_ok_def)

lemma parse_answers_ok:
  "answer_ok qtype out \<Longrightarrow> \<exists>st out'. parse_answers pkt qtype n pos out = Some (st, out') \<and> answer_ok qtype out' \<and>
     (st = DNS_ERR_MALFORMED \<or> st = DNS_NODATA \<and> an_addrs out' = [] \<or> st = DNS_OK \<and> an_addrs out' \<noteq> [])"
proof (induction n arbitrary: pos out)
  case (Suc n)
  obtain r where r: "skip_name pkt pos 0 = Some r" using skip_name_total [of pkt pos 0] by auto
  consider "r = None" | p where "r = Some p" "p + 10 > length pkt" | p where "r = Some p" "p + 10 \<le> length pkt"
    by (cases r) (auto simp: not_le[symmetric])
  then show ?case
  proof cases
    case (3 p)
    then obtain t ttl l where f: "rd16 pkt p = Some t" "rd32 pkt (p + 4) = Some ttl" "rd16 pkt (p + 8) = Some l"
      by (simp add: mem_simps)
    note ih = Suc.IH [OF Suc.prems, of "p + 10 + unat l"]
    consider "p + 10 + unat l > length pkt"
      | "p + 10 + unat l \<le> length pkt" "t = qtype \<and> length (an_addrs out) < DNS_MAX_ADDRS \<and>
           (qtype = DNS_QTYPE_A \<and> unat l = 4 \<or> qtype = DNS_QTYPE_AAAA \<and> unat l = 16)"
      | "p + 10 + unat l \<le> length pkt" "\<not> (t = qtype \<and> length (an_addrs out) < DNS_MAX_ADDRS \<and>
           (qtype = DNS_QTYPE_A \<and> unat l = 4 \<or> qtype = DNS_QTYPE_AAAA \<and> unat l = 16))"
      by linarith
    then show ?thesis
    proof cases
      case a: 2
      let ?a = "take (unat l) (drop (p + 10) pkt) @ replicate (16 - unat l) 0"
      have "length ?a = 16" using a by auto
      then have "answer_ok qtype \<lparr>an_addrs = an_addrs out @ [\<lparr>da_family = (if qtype = DNS_QTYPE_A then 4 else 6), da_addr = ?a\<rparr>],
         an_ttl = (if ttl < an_ttl out then ttl else an_ttl out)\<rparr>"
        using answer_ok_add Suc.prems a(2) by blast
      from Suc.IH [OF this, of "p + 10 + unat l"] show ?thesis
        using a by (simp add: r 3 f sub_buf_def Let_def)
    next
      case b: 3
      then have e: "(t = qtype \<and> length (an_addrs out) < DNS_MAX_ADDRS \<and>
           (qtype = DNS_QTYPE_A \<and> unat l = 4 \<or> qtype = DNS_QTYPE_AAAA \<and> unat l = 16)) = False" by blast
      show ?thesis using ih b(1) unfolding parse_answers.simps by (simp add: r 3 f Let_def e split del: if_split)
    qed (use Suc.prems in \<open>simp add: r 3 f Let_def\<close>)
  qed (use Suc.prems in \<open>simp_all add: r\<close>)
qed simp

lemma dns_response_safe_ok:
  "\<exists>st out. dns_parse_response pkt qid name qtype = Some (st, out) \<and> answer_ok qtype out \<and>
     (st = DNS_ERR_MALFORMED \<or> authentic pkt qid name qtype) \<and>
     (st = DNS_OK \<longleftrightarrow> st \<noteq> DNS_ERR_MALFORMED \<and> an_addrs out \<noteq> [])"
proof (cases "authentic pkt qid name qtype")
  case True
  then show ?thesis
    using parse_answers_ok [OF answer_ok_empty] answer_ok_empty [of qtype]
    by (force simp: parse_response_authentic Let_def)
next
  case False
  then show ?thesis using answer_ok_empty by (simp add: parse_response_inauthentic)
qed

section \<open>Replies of the forwarder\<close>

lemma question_end_query_labels:
  "query_labels pkt n pos name = Some (Some (p, nm)) \<Longrightarrow> question_end pkt pos = Some (Some p) \<and> pos \<le> p"
proof (induction pkt n pos name rule: query_labels.induct)
  case (1 pkt n pos name)
  show ?case
  proof (cases "pos < length pkt \<and> pkt ! pos \<noteq> 0")
    case True
    let ?l = "unat (pkt ! pos)"
    have c: "\<not> (pkt ! pos AND 0xC0 \<noteq> 0 \<or> pos + 1 + ?l > length pkt \<or> length name + ?l + 2 > n)"
      using 1(2) True by (subst (asm) query_labels.simps) (simp add: mem_simps Let_def split: if_splits)
    have q: "query_labels pkt n (pos + 1 + ?l)
        ((if length name > 0 then name @ [46] else name) @ map tolower_b (take ?l (drop (pos + 1) pkt))) = Some (Some (p, nm))"
      using 1(2) True c by (subst (asm) query_labels.simps) (simp add: rd8_def sub_buf_def Let_def)
    have "question_end pkt (pos + 1 + ?l) = Some (Some p) \<and> pos + 1 + ?l \<le> p"
      using 1(1) [OF _ _ _ refl c _ q] True c by (simp add: rd8_def sub_buf_def)
    then show ?thesis using True c by (subst question_end.simps) (simp add: rd8_def)
  next
    case False
    then show ?thesis
      using 1(2) by (subst (asm) query_labels.simps, subst question_end.simps) (auto simp: rd8_def split: if_splits)
  qed
qed

lemma query_labels_total: "query_labels pkt n pos name \<noteq> None"
proof (induction pkt n pos name rule: query_labels.induct)
  case (1 pkt n pos name)
  show ?case by (subst query_labels.simps) (use 1 in \<open>auto simp: rd8_def sub_buf_def Let_def\<close>)
qed

lemma query_info_total: "dns_query_info pkt n \<noteq> None"
  using query_labels_total [of pkt n 12 "[]"]
  by (auto simp: dns_query_info_def mem_simps Let_def split: option.splits)

lemma query_info_question:
  assumes "dns_query_info query n = Some (Some info)"
  shows "\<exists>ql. question_len query = Some ql \<and> 5 \<le> ql \<and> 12 + ql \<le> length query \<and>
    rd16 query 4 = Some 1 \<and> query ! 2 AND 0x78 = 0"
proof -
  have len: "\<not> length query < 12" using assms by (auto simp: dns_query_info_def)
  then obtain q where f: "rd8 query 2 = Some (query ! 2)" "rd16 query 4 = Some q" by (simp add: mem_simps)
  have c: "\<not> (query ! 2 AND 0x80 \<noteq> 0 \<or> query ! 2 AND 0x78 \<noteq> 0 \<or> q \<noteq> 1 \<or> n < 2)"
    using assms len f by (simp add: dns_query_info_def split: if_splits)
  obtain p nm where p: "query_labels query n 12 [] = Some (Some (p, nm))" "p + 5 \<le> length query"
    using assms len f c
    by (auto simp: dns_query_info_def not_le[symmetric] split: option.splits if_splits Option.bind_splits)
  have "question_end query 12 = Some (Some p)" "12 \<le> p" using question_end_query_labels [OF p(1)] by simp_all
  then show ?thesis using p(2) f(2) c by (auto simp: question_len_def)
qed

text \<open>The header and the question of the query with the flag bytes \<open>f\<close> and \<open>g\<close> and no records.\<close>

definition header_reply :: "bytes \<Rightarrow> byte \<Rightarrow> byte \<Rightarrow> nat \<Rightarrow> bytes" where
  "header_reply query f g ql =
     [query ! 0, query ! 1, f, g, query ! 4, query ! 5, 0, 0, 0, 0, 0, 0] @ take ql (drop 12 query)"

lemma be16_bytes_zero: "be16_bytes 0 = [0, 0]"
  by (simp add: be16_bytes_def hi8_def lo8_def)

lemma truncated_reply_eq:
  assumes "question_len query = Some ql" "5 \<le> ql" "12 + ql \<le> length query" "12 + ql \<le> out_size"
  shows "dns_truncated_reply query out_size = Some (header_reply query ((query ! 2 AND 0x79) OR 0x80 OR 0x02) 0x80 ql)"
proof -
  have "take 12 query = map ((!) query) [0..<12]" using assms(3) by (simp add: list_eq_iff_nth_eq)
  then have "take 12 query = [query ! 0, query ! 1, query ! 2, query ! 3, query ! 4, query ! 5, query ! 6, query ! 7,
      query ! 8, query ! 9, query ! 10, query ! 11]" by (simp add: upt_rec numeral_eq_Suc)
  then have t: "take (12 + ql) query = [query ! 0, query ! 1, query ! 2, query ! 3, query ! 4, query ! 5, query ! 6,
      query ! 7, query ! 8, query ! 9, query ! 10, query ! 11] @ take ql (drop 12 query)"
    by (simp only: take_add)
  show ?thesis
    using assms by (simp add: dns_truncated_reply_def sub_buf_def t st8_def st16_def blit_def put_def rd8_def
        header_reply_def be16_bytes_zero)
qed

lemma servfail_reply_eq:
  assumes "question_len query = Some ql" "5 \<le> ql" "12 + ql \<le> length query" "12 + ql \<le> out_size"
  shows "dns_servfail_reply query out_size =
    Some (header_reply query (((query ! 2 AND 0x79) OR 0x80 OR 0x02) AND NOT 0x02) (0x80 OR 0x02) ql)"
  unfolding dns_servfail_reply_def truncated_reply_eq [OF assms]
  by (simp add: header_reply_def rd8_def st8_def blit_def put_def)

lemma header_reply_matches:
  assumes "question_len query = Some ql" "5 \<le> ql" "12 + ql \<le> length query" "rd16 query 4 = Some 1" "bit f 7"
  shows "reply_matches query (header_reply query f g ql) = Some True"
proof -
  let ?r = "header_reply query f g ql"
  have lr: "length ?r = 12 + ql" using assms(3) by (simp add: header_reply_def)
  have "take ql (drop 12 ?r) = take ql (drop 12 query)" by (simp add: header_reply_def)
  then have "same_bytes ?r 12 (take ql (drop 12 query)) = Some True"
    using assms(3) lr by (subst same_bytes_eq) simp_all
  moreover have "rd16 ?r 0 = rd16 query 0" "rd16 ?r 4 = rd16 query 4" "rd8 ?r 2 = Some f"
    using assms(3) by (auto simp: header_reply_def rd16_def rd8_def)
  moreover have "\<exists>v. rd16 query 0 = Some v" using assms(3) by (simp add: mem_simps)
  ultimately show ?thesis using assms lr by (auto simp: reply_matches_def sub_buf_def byte_bits)
qed

lemma header_reply_fields:
  assumes "bit f 7"
  shows "dns_reply_rcode (header_reply query f g ql) = Some (Some (g AND 0x0F))"
    "dns_reply_answer_count (header_reply query f g ql) = Some 0" "header_reply query f g ql ! 2 = f"
  using assms by (simp_all add: header_reply_def dns_reply_rcode_def dns_reply_answer_count_def rd8_def rd16_def byte_bits be16_zero)

lemma reply_flags:
  "bit ((b AND 0x79) OR 0x80 OR 0x02) 7" "bit ((b AND 0x79) OR 0x80 OR 0x02) 1"
  "bit (((b AND 0x79) OR 0x80 OR 0x02) AND NOT 0x02) 7" "\<not> bit (((b AND 0x79) OR 0x80 OR 0x02) AND NOT 0x02) 1" for b :: byte
  by (simp_all add: bit_simps bit_numeral_rec)

section \<open>Local zones\<close>

lemma in_zone_iff: "in_zone name zone \<longleftrightarrow> name = zone \<or> (\<exists>p. name = p @ CHR ''.'' # zone)"
proof
  assume a: "in_zone name zone"
  show "name = zone \<or> (\<exists>p. name = p @ CHR ''.'' # zone)"
  proof (cases "length name = length zone")
    case False
    let ?k = "length name - length zone - 1"
    have "length zone < length name" "name ! ?k = CHR ''.''" "drop (Suc ?k) name = zone"
      using a False by (auto simp: in_zone_def Let_def Suc_diff_Suc)
    then have "name = take ?k name @ CHR ''.'' # zone"
      using id_take_nth_drop [of ?k name] by simp
    then show ?thesis by blast
  qed (use a in \<open>simp add: in_zone_def\<close>)
next
  assume "name = zone \<or> (\<exists>p. name = p @ CHR ''.'' # zone)"
  then show "in_zone name zone" by (auto simp: in_zone_def Let_def nth_append)
qed

section \<open>Properties\<close>

text \<open>A query that \<open>dns_build_query\<close> makes for a host name is read back by \<open>dns_query_info\<close>
  with that name in lower case, its type, and the UDP size of a client without EDNS.\<close>

theorem dns_query_roundtrip:
  assumes "name_ok ls" "length (dotted ls) + 18 \<le> out_size" "length (dotted ls) + 2 \<le> name_size"
  shows "dns_query_info (dns_build_query qid (dotted ls) qtype out_size) name_size =
    Some (Some (lower_name (dotted ls), qtype, 512))"
  using assms by (rule query_info_build)

theorem dns_query_roundtrip_witness:
  "dns_query_info (dns_build_query 0x1234 ''Www.example.org'' DNS_QTYPE_AAAA 512) 254 =
   Some (Some (map of_char ''www.example.org'', DNS_QTYPE_AAAA, 512))"
proof -
  let ?ls = "[''Www'', ''example'', ''org'']"
  have d: "dotted ?ls = ''Www.example.org''" by simp
  have "name_ok ?ls" "length (dotted ?ls) + 18 \<le> 512" "length (dotted ?ls) + 2 \<le> 254" by code_simp+
  from dns_query_roundtrip [OF this, where qid = "0x1234" and qtype = DNS_QTYPE_AAAA] show ?thesis
    unfolding d by (simp add: lower_name_def tolower_b_def)
qed

text \<open>Claim C26. \<open>dns_parse_response\<close> on a well-formed response - the id asked with, the response bit, no
  truncation, the question in any letter case, then any records, compressed names included - returns
  the first eight addresses of the type asked for, in order, with the least of their TTLs capped at an
  hour, and reports no data when there is none.\<close>

theorem dns_response_correct:
  assumes "name_ok ls" "list_all rr_ok rs" "length rs < 65536" "bit b2 7" "\<not> bit b2 1" "b3 AND 0x0F = 0"
    and "map tolower_b q = map tolower_b (wire_labels (label_bytes ls) @ [0])" "length counts = 4"
  shows "dns_parse_response
      (be16_bytes qid @ [b2, b3] @ be16_bytes 1 @ be16_bytes (of_nat (length rs)) @ counts @
       q @ be16_bytes qtype @ be16_bytes 1 @ concat (map wire_rr rs) @ post) qid (dotted ls) qtype =
    (let hits = take 8 (filter (addr_rr qtype) rs) in
     Some (if hits = [] then DNS_NODATA else DNS_OK,
       \<lparr>an_addrs = map (rr_addr qtype) hits, an_ttl = foldl min 3600 (map rr_ttl hits)\<rparr>))"
proof -
  let ?h = "be16_bytes qid @ [b2, b3] @ be16_bytes 1 @ be16_bytes (of_nat (length rs)) @ counts"
  let ?pre = "?h @ q @ be16_bytes qtype @ be16_bytes 1"
  let ?pkt = "?pre @ concat (map wire_rr rs) @ post"
  have enc: "encode_name (dotted ls) 256 = wire_labels (label_bytes ls) @ [0]"
    using encode_name_dotted(1) [OF assms(1), of 256] assms(1) by (simp add: name_ok_def)
  have lq: "length q = length (encode_name (dotted ls) 256)"
    using arg_cong [OF assms(7), of length] by (simp add: enc)
  have "authentic ?pkt qid (dotted ls) qtype"
    using assms(4,5,7,8) lq unfolding authentic_def Let_def enc
    by (simp add: be16_bytes_def numeral_eq_Suc)
  from parse_response_authentic [OF this] have
    "dns_parse_response ?pkt qid (dotted ls) qtype =
     parse_answers ?pkt qtype (length rs) (length ?pre) \<lparr>an_addrs = [], an_ttl = DNS_TTL_MAX\<rparr>"
    using assms(3,6,8) lq by (simp add: be16_bytes_def nth_append unat_of_nat take_bit_nat_eq_self)
  also have "\<dots> = Some (if an_addrs (rr_answer qtype rs \<lparr>an_addrs = [], an_ttl = DNS_TTL_MAX\<rparr>) = [] then DNS_NODATA
      else DNS_OK, rr_answer qtype rs \<lparr>an_addrs = [], an_ttl = DNS_TTL_MAX\<rparr>)"
    using parse_answers_wire [OF assms(2), of ?pre post] by simp
  finally show ?thesis by (simp add: rr_answer_def Let_def DNS_MAX_ADDRS_def DNS_TTL_MAX_def)
qed

theorem dns_response_correct_witness:
  "dns_parse_response
     (be16_bytes 9 @ [0x81, 0x80] @ be16_bytes 1 @ be16_bytes 2 @ [0, 0, 0, 0] @ [1, 65, 2, 98, 99, 0] @
      be16_bytes 1 @ be16_bytes 1 @
      concat (map wire_rr [\<lparr>rr_name = [0xC0, 12], rr_type = 5, rr_class = 1, rr_ttl = 60, rr_data = [1, 120, 0]\<rparr>,
        \<lparr>rr_name = [1, 120, 0], rr_type = 1, rr_class = 1, rr_ttl = 300, rr_data = [10, 0, 0, 1]\<rparr>])) 9 ''a.bc'' 1 =
   Some (DNS_OK, \<lparr>an_addrs = [\<lparr>da_family = 4, da_addr = [10, 0, 0, 1, 0, 0, 0, 0, 0, 0, 0, 0, 0, 0, 0, 0]\<rparr>], an_ttl = 300\<rparr>)"
proof -
  let ?ls = "[''a'', ''bc'']"
  let ?r1 = "\<lparr>rr_name = [0xC0, 12], rr_type = 5, rr_class = 1, rr_ttl = 60, rr_data = [1, 120, 0]\<rparr> :: rr"
  let ?r2 = "\<lparr>rr_name = [1, 120, 0], rr_type = 1, rr_class = 1, rr_ttl = 300, rr_data = [10, 0, 0, 1]\<rparr> :: rr"
  let ?q = "[1, 65, 2, 98, 99, 0] :: bytes"
  have d: "dotted ?ls = ''a.bc''" by simp
  have n: "name_ok ?ls" by code_simp
  have w: "wire_name [0xC0, 12]" "wire_name [1, 120, 0]"
    unfolding wire_name_def by (rule exI [of _ "[]"], simp add: labels_ok_def) (rule exI [of _ "[[120]]"], simp add: labels_ok_def wire_labels_def)
  then have r: "list_all rr_ok [?r1, ?r2]" by (simp add: rr_ok_def)
  have q: "map tolower_b ?q = map tolower_b (wire_labels (label_bytes ?ls) @ [0])" by code_simp
  have b: "bit (0x81 :: byte) 7" "\<not> bit (0x81 :: byte) 1" "(0x80 :: byte) AND 0x0F = 0" "length [?r1, ?r2] < 65536" by simp_all
  have res: "(let hits = take 8 (filter (addr_rr 1) [?r1, ?r2]) in
     Some (if hits = [] then DNS_NODATA else DNS_OK,
       \<lparr>an_addrs = map (rr_addr 1) hits, an_ttl = foldl min 3600 (map rr_ttl hits)\<rparr>)) =
     Some (DNS_OK, \<lparr>an_addrs = [\<lparr>da_family = 4, da_addr = [10, 0, 0, 1, 0, 0, 0, 0, 0, 0, 0, 0, 0, 0, 0, 0]\<rparr>], an_ttl = 300\<rparr>)"
    by code_simp
  have two: "of_nat (length [?r1, ?r2]) = (2 :: u16)" by simp
  show ?thesis
    using dns_response_correct [OF n r b(4,1,2,3) q, of "[0, 0, 0, 0]" 9 1 "[]"] unfolding res d two by simp
qed

text \<open>Claim C27. Whatever bytes arrive, \<open>dns_parse_response\<close> reads only inside the packet and ends; any
  result but malformed comes from a response with the transaction id, the response bit and the
  question that were asked, untruncated; and the answer has at most eight addresses, each 16 bytes
  and of the family asked for, and a TTL of at most an hour.\<close>

theorem dns_response_safe:
  "\<exists>st out. dns_parse_response pkt qid name qtype = Some (st, out) \<and> answer_ok qtype out \<and>
     (st = DNS_ERR_MALFORMED \<or> authentic pkt qid name qtype) \<and>
     (st = DNS_OK \<longleftrightarrow> st \<noteq> DNS_ERR_MALFORMED \<and> an_addrs out \<noteq> [])"
  by (rule dns_response_safe_ok)

text \<open>Claim C28. For a query the forwarder accepts, the two replies it makes itself - truncated and
  SERVFAIL - carry no records, echo the id and the question so that they match the query, and say
  respectively "truncated" with no error, and "server failure" without the truncation bit.\<close>

theorem forwarder_replies:
  assumes "dns_query_info query name_size = Some (Some info)" "length query \<le> out_size"
  shows "\<exists>t f. dns_truncated_reply query out_size = Some t \<and> dns_servfail_reply query out_size = Some f \<and>
     reply_matches query t = Some True \<and> reply_matches query f = Some True \<and>
     bit (t ! 2) 1 \<and> \<not> bit (f ! 2) 1 \<and>
     dns_reply_rcode t = Some (Some 0) \<and> dns_reply_rcode f = Some (Some 2) \<and>
     dns_reply_answer_count t = Some 0 \<and> dns_reply_answer_count f = Some 0"
proof -
  obtain ql where q: "question_len query = Some ql" "5 \<le> ql" "12 + ql \<le> length query" "rd16 query 4 = Some 1"
    using query_info_question [OF assms(1)] by blast
  then have o: "12 + ql \<le> out_size" using assms(2) by simp
  show ?thesis
    unfolding truncated_reply_eq [OF q(1-3) o] servfail_reply_eq [OF q(1-3) o]
    using q reply_flags [of "query ! 2"] by (simp add: header_reply_matches header_reply_fields)
qed

theorem forwarder_replies_witness:
  "\<exists>t f. dns_truncated_reply (dns_build_query 7 ''a.bc'' 1 512) 512 = Some t \<and>
     dns_servfail_reply (dns_build_query 7 ''a.bc'' 1 512) 512 = Some f \<and> dns_reply_rcode t = Some (Some 0) \<and>
     dns_reply_rcode f = Some (Some 2)"
proof -
  have "dns_query_info (dns_build_query 7 ''a.bc'' 1 512) 254 = Some (Some (map of_char ''a.bc'', 1, 512))"
    by code_simp
  moreover have "length (dns_build_query 7 ''a.bc'' 1 512) \<le> 512" by code_simp
  ultimately show ?thesis using forwarder_replies [of "dns_build_query 7 ''a.bc'' 1 512" 254 _ 512] by blast
qed

text \<open>A name is local exactly when it is a single label or lies in one of the private zones:
  the listed ones, the reverse zones of 172.16/12, or those of 100.64/10.\<close>

theorem local_names:
  "dns_name_is_local name \<longleftrightarrow> name \<noteq> [] \<and>
     (CHR ''.'' \<notin> set name \<or>
      (\<exists>zone \<in> set local_zones \<union> (\<lambda>n. dec_nat n @ ''.172.in-addr.arpa'') ` {16..<32} \<union>
         (\<lambda>n. dec_nat n @ ''.100.in-addr.arpa'') ` {64..<128}.
       name = zone \<or> (\<exists>p. name = p @ CHR ''.'' # zone)))"
proof -
  have "(if a then False else if b then True else if c then True else if d then True else e) \<longleftrightarrow> \<not> a \<and> (b \<or> (c \<or> d) \<or> e)"
    for a b c d e by simp
  moreover have "in_zone name = (\<lambda>zone. name = zone \<or> (\<exists>p. name = p @ CHR ''.'' # zone))"
    by (rule ext) (rule in_zone_iff)
  ultimately show ?thesis
    by (simp only: dns_name_is_local_def list_ex_iff set_upt bex_Un bex_simps)
qed

end
