(* ===== verification/Quic.thy ===== *)
theory Quic
  imports Dns Slots
begin

text \<open>
  \<open>src/transparent/quic.c\<close>: the table of addresses whose UDP port 443 is already rejected, so that
  the firewall is only updated for new ones or when an entry is past half the life of its firewall
  element. The firewall update (\<open>tpp_quic_block\<close>) is the list of addresses handed out; the clock is a
  parameter, read once per address as in the code.
\<close>

section \<open>Data\<close>

definition QUIC_SEEN_MAX :: nat where "QUIC_SEEN_MAX = 512"
definition TP_QUIC_BLOCK_TIMEOUT_S :: int where "TP_QUIC_BLOCK_TIMEOUT_S = 3600"

record quic_seen =
  qs_family :: nat
  qs_addr :: bytes
  qs_added_at :: int

text \<open>\<open>len = (family == 6) ? 16 : 4\<close>; addresses are compared and stored up to it.\<close>

definition addr_len :: "nat \<Rightarrow> nat" where
  "addr_len family = (if family = 6 then 16 else 4)"

type_synonym quic_key = "nat \<times> bytes"

definition quic_key :: "dns_addr \<Rightarrow> quic_key" where
  "quic_key a = (da_family a, take (addr_len (da_family a)) (da_addr a))"

fun quic_match :: "quic_key \<Rightarrow> quic_seen \<Rightarrow> bool" where
  "quic_match (family, addr) e \<longleftrightarrow> qs_family e = family \<and> qs_addr e = addr"

section \<open>Operations\<close>

text \<open>The list is the first \<open>g_seen_count\<close> entries of \<open>g_seen\<close>; the result says whether the caller must
  hand the address to the platform layer.\<close>

definition note_addr :: "quic_seen list \<Rightarrow> quic_key \<Rightarrow> int \<Rightarrow> bool \<times> quic_seen list" where
  "note_addr seen k now =
     (case first_idx (quic_match k) seen of
        Some i \<Rightarrow>
          if now - qs_added_at (seen ! i) < TP_QUIC_BLOCK_TIMEOUT_S div 2 then (False, seen)
          else (True, seen[i := (seen ! i)\<lparr>qs_added_at := now\<rparr>])
      | None \<Rightarrow>
          let e = \<lparr>qs_family = fst k, qs_addr = snd k, qs_added_at = now\<rparr> in
          if length seen < QUIC_SEEN_MAX then (True, seen @ [e])
          else (True, seen[oldest_idx qs_added_at seen := e]))"

text \<open>The loop over the addresses of an answer; \<open>clock i\<close> is the time read for the address \<open>i\<close>.\<close>

fun block_loop :: "(nat \<Rightarrow> int) \<Rightarrow> nat \<Rightarrow> dns_addr list \<Rightarrow> quic_seen list \<Rightarrow> dns_addr list \<times> quic_seen list" where
  "block_loop clock i (a # as) seen =
     (case note_addr seen (quic_key a) (clock i) of (add, seen) \<Rightarrow>
        case block_loop clock (i + 1) as seen of (rest, seen) \<Rightarrow>
          (if add then a # rest else rest, seen))"
| "block_loop clock i [] seen = ([], seen)"

definition tpd_quic_block_answer :: "(nat \<Rightarrow> int) \<Rightarrow> dns_answer \<Rightarrow> quic_seen list \<Rightarrow> dns_addr list \<times> quic_seen list" where
  "tpd_quic_block_answer clock ans seen = block_loop clock 0 (take DNS_MAX_ADDRS (an_addrs ans)) seen"

definition tpd_quic_block :: "(nat \<Rightarrow> int) \<Rightarrow> nat \<Rightarrow> bytes \<Rightarrow> quic_seen list \<Rightarrow> dns_addr list \<times> quic_seen list" where
  "tpd_quic_block clock family addr seen =
     tpd_quic_block_answer clock \<lparr>an_addrs = [\<lparr>da_family = family, da_addr = take (addr_len family) addr\<rparr>], an_ttl = 0\<rparr> seen"

definition tpd_quic_forget :: "quic_seen list \<Rightarrow> quic_seen list" where
  "tpd_quic_forget seen = []"

section \<open>The table stays small and keeps its promise\<close>

lemma quic_match_key: "quic_match k e \<longleftrightarrow> k = (qs_family e, qs_addr e)"
  by (cases k) auto

interpretation quic_slots: slot_store quic_match "\<lambda>now e. False" qs_added_at "(=)"
  by unfold_locales (auto simp: quic_match_key)

text \<open>What was handed to the platform layer, and when; the log of one answer, beside \<^const>\<open>block_loop\<close>.\<close>

type_synonym quic_log = "(quic_key \<times> int) list"

fun block_log :: "(nat \<Rightarrow> int) \<Rightarrow> nat \<Rightarrow> dns_addr list \<Rightarrow> quic_seen list \<Rightarrow> quic_log" where
  "block_log clock i (a # as) seen =
     (case note_addr seen (quic_key a) (clock i) of (add, seen) \<Rightarrow>
        (if add then [(quic_key a, clock i)] else []) @ block_log clock (i + 1) as seen)"
| "block_log clock i [] seen = []"

text \<open>One entry per address, and every entry was handed out at its time.\<close>

definition quic_inv :: "quic_log \<Rightarrow> quic_seen list \<Rightarrow> bool" where
  "quic_inv log seen \<longleftrightarrow> length seen \<le> QUIC_SEEN_MAX \<and> quic_slots.unique seen \<and>
     (\<forall>e \<in> set seen. ((qs_family e, qs_addr e), qs_added_at e) \<in> set log)"

lemma quic_inv_put:
  assumes inv: "quic_inv log seen" and i: "i = slot_for (quic_match k) (\<lambda>e. False) qs_added_at seen" and ne: "seen \<noteq> []"
  shows "quic_inv (log @ [(k, now)]) (seen[i := \<lparr>qs_family = fst k, qs_addr = snd k, qs_added_at = now\<rparr>])"
proof -
  let ?e = "\<lparr>qs_family = fst k, qs_addr = snd k, qs_added_at = now\<rparr>"
  have "quic_slots.unique (seen[i := ?e])"
    using inv ne i quic_slots.store(1) [of seen k ?e] by (simp add: quic_inv_def quic_match_key)
  then show ?thesis
    using inv by (auto simp: quic_inv_def dest!: set_update_subset_insert [THEN subsetD])
qed

lemma quic_inv_append:
  assumes inv: "quic_inv log seen" and new: "first_idx (quic_match k) seen = None" and room: "length seen < QUIC_SEEN_MAX"
  shows "quic_inv (log @ [(k, now)]) (seen @ [\<lparr>qs_family = fst k, qs_addr = snd k, qs_added_at = now\<rparr>])"
proof -
  have "quic_slots.unique (seen @ [\<lparr>qs_family = fst k, qs_addr = snd k, qs_added_at = now\<rparr>])"
    using inv new by (intro quic_slots.unique_append [where k = k]) (auto simp: quic_inv_def first_idx_None quic_match_key)
  then show ?thesis using inv room by (auto simp: quic_inv_def)
qed

lemma note_addr_ok:
  assumes inv: "quic_inv log seen" and n: "note_addr seen k now = (add, seen')"
  shows "quic_inv (if add then log @ [(k, now)] else log) seen'"
    and "\<not> add \<Longrightarrow> \<exists>t. (k, t) \<in> set log \<and> now - t < TP_QUIC_BLOCK_TIMEOUT_S div 2"
proof -
  show "\<not> add \<Longrightarrow> \<exists>t. (k, t) \<in> set log \<and> now - t < TP_QUIC_BLOCK_TIMEOUT_S div 2"
    using n inv by (auto simp: note_addr_def quic_inv_def first_idx_Some quic_match_key Let_def split: option.splits if_splits)
  show "quic_inv (if add then log @ [(k, now)] else log) seen'"
  proof (cases "first_idx (quic_match k) seen")
    case None
    show ?thesis
    proof (cases "length seen < QUIC_SEEN_MAX")
      case True
      then show ?thesis using quic_inv_append [OF inv None] n None by (auto simp: note_addr_def Let_def)
    next
      case False
      then have "seen \<noteq> []" by (auto simp: QUIC_SEEN_MAX_def)
      moreover have "first_idx (\<lambda>e. False) seen = None" by (simp add: first_idx_None)
      ultimately show ?thesis
        using quic_inv_put [OF inv, of "oldest_idx qs_added_at seen" k now] n None False
        by (auto simp: note_addr_def Let_def slot_for_def)
    qed
  next
    case (Some i)
    obtain f a t where e: "seen ! i = \<lparr>qs_family = f, qs_addr = a, qs_added_at = t\<rparr>" by (cases "seen ! i")
    have "k = (f, a)" "seen \<noteq> []" using Some by (auto simp: first_idx_Some quic_match_key e)
    then show ?thesis
      using quic_inv_put [OF inv, of i k now] n Some inv by (auto simp: note_addr_def slot_for_def e split: if_splits)
  qed
qed

lemma block_loop_ok:
  assumes "quic_inv log seen" "block_loop clock i as seen = (fresh, seen')"
  shows "quic_inv (log @ block_log clock i as seen) seen'"
    and "map fst (block_log clock i as seen) = map quic_key fresh"
    and "\<forall>j < length as. quic_key (as ! j) \<in> quic_key ` set fresh \<or>
      (\<exists>t. (quic_key (as ! j), t) \<in> set log \<and> clock (i + j) - t < TP_QUIC_BLOCK_TIMEOUT_S div 2)"
  using assms
proof (induction as arbitrary: i log seen fresh seen')
  case Nil
  { case 1 then show ?case by simp }
  { case 2 then show ?case by simp }
  { case 3 then show ?case by simp }
next
  case (Cons a as)
  note IH = Cons.IH
  have cons: "quic_inv (log @ block_log clock i (a # as) seen) seen' \<and>
      map fst (block_log clock i (a # as) seen) = map quic_key fresh \<and>
      (\<forall>j < length (a # as). quic_key ((a # as) ! j) \<in> quic_key ` set fresh \<or>
        (\<exists>t. (quic_key ((a # as) ! j), t) \<in> set log \<and> clock (i + j) - t < TP_QUIC_BLOCK_TIMEOUT_S div 2))"
    if inv: "quic_inv log seen" and run: "block_loop clock i (a # as) seen = (fresh, seen')"
    for log seen fresh seen' i
  proof -
    obtain add seen1 where n: "note_addr seen (quic_key a) (clock i) = (add, seen1)" by fastforce
    obtain rest where r: "block_loop clock (i + 1) as seen1 = (rest, seen')" "fresh = (if add then a # rest else rest)"
      using run n by (auto split: prod.splits if_splits)
    let ?log = "if add then log @ [(quic_key a, clock i)] else log"
    note N = note_addr_ok [OF inv n]
    have later: "quic_key (as ! j) \<in> quic_key ` set fresh \<or>
        (\<exists>t. (quic_key (as ! j), t) \<in> set log \<and> clock (i + 1 + j) - t < TP_QUIC_BLOCK_TIMEOUT_S div 2)" if "j < length as" for j
      using IH(3) [OF N(1) r(1)] that r(2) by (cases add) (auto dest!: spec [of _ j])
    have first: "quic_key a \<in> quic_key ` set fresh \<or>
        (\<exists>t. (quic_key a, t) \<in> set log \<and> clock i - t < TP_QUIC_BLOCK_TIMEOUT_S div 2)" using N(2) r(2) by auto
    have "quic_key ((a # as) ! j) \<in> quic_key ` set fresh \<or>
        (\<exists>t. (quic_key ((a # as) ! j), t) \<in> set log \<and> clock (i + j) - t < TP_QUIC_BLOCK_TIMEOUT_S div 2)" if "j < length (a # as)" for j
      using first later [of "j - 1"] that by (cases j) auto
    moreover have "quic_inv (log @ block_log clock i (a # as) seen) seen'"
      using IH(1) [OF N(1) r(1)] n by (cases add) simp_all
    moreover have "map fst (block_log clock i (a # as) seen) = map quic_key fresh"
      using IH(2) [OF N(1) r(1)] n r(2) by (cases add) simp_all
    ultimately show ?thesis by blast
  qed
  { case 1 then show ?case using cons by blast }
  { case 2 then show ?case using cons by blast }
  { case 3 then show ?case using cons by blast }
qed

text \<open>The table and the log over the life of the daemon; a change of network empties both.\<close>

inductive quic_reachable :: "quic_log \<Rightarrow> quic_seen list \<Rightarrow> bool" where
  q_init: "quic_reachable [] []"
| q_block: "quic_reachable log seen \<Longrightarrow> tpd_quic_block_answer clock ans seen = (fresh, seen') \<Longrightarrow>
    quic_reachable (log @ block_log clock 0 (take DNS_MAX_ADDRS (an_addrs ans)) seen) seen'"
| q_forget: "quic_reachable log seen \<Longrightarrow> quic_reachable [] (tpd_quic_forget seen)"

lemma quic_reachable_inv: "quic_reachable log seen \<Longrightarrow> quic_inv log seen"
proof (induction rule: quic_reachable.induct)
  case (q_block log seen clock ans fresh seen')
  then show ?case using block_loop_ok(1) by (simp add: tpd_quic_block_answer_def)
qed (simp_all add: quic_inv_def tpd_quic_forget_def quic_slots.unique_def)

text \<open>Every address of an answer passed to the QUIC filter is refused: it is handed to the
  platform layer now, or it was less than half the life of a firewall element ago. The table never
  outgrows its 512 entries, and what is handed out is an entry of the answer.\<close>

theorem quic_block_effective:
  assumes "quic_reachable log seen" "tpd_quic_block_answer clock ans seen = (fresh, seen')"
  shows "length seen' \<le> QUIC_SEEN_MAX \<and> set fresh \<subseteq> set (an_addrs ans) \<and>
    (\<forall>j < length (take DNS_MAX_ADDRS (an_addrs ans)).
      quic_key (an_addrs ans ! j) \<in> quic_key ` set fresh \<or>
      (\<exists>t. (quic_key (an_addrs ans ! j), t) \<in> set log \<and> clock j - t < TP_QUIC_BLOCK_TIMEOUT_S div 2))"
proof -
  have run: "block_loop clock 0 (take DNS_MAX_ADDRS (an_addrs ans)) seen = (fresh, seen')"
    using assms(2) by (simp add: tpd_quic_block_answer_def)
  have sub: "set fresh \<subseteq> set as" if "block_loop clock i as seen = (fresh, seen')" for as i seen fresh
    using that by (induction as arbitrary: i seen fresh) (fastforce split: prod.splits if_splits)+
  note B = block_loop_ok [OF quic_reachable_inv [OF assms(1)] run]
  show ?thesis
    using B(1,3) sub [OF run] set_take_subset [of DNS_MAX_ADDRS "an_addrs ans"] by (auto simp: quic_inv_def)
qed

theorem quic_block_effective_witness:
  "tpd_quic_block_answer (\<lambda>i. 100) \<lparr>an_addrs = [\<lparr>da_family = 4, da_addr = [1, 2, 3, 4]\<rparr>], an_ttl = 60\<rparr> [] =
     ([\<lparr>da_family = 4, da_addr = [1, 2, 3, 4]\<rparr>], [\<lparr>qs_family = 4, qs_addr = [1, 2, 3, 4], qs_added_at = 100\<rparr>]) \<and>
   length [\<lparr>qs_family = 4, qs_addr = [1, 2, 3, 4], qs_added_at = 100\<rparr> :: quic_seen] \<le> QUIC_SEEN_MAX"
proof -
  have "tpd_quic_block_answer (\<lambda>i. 100) \<lparr>an_addrs = [\<lparr>da_family = 4, da_addr = [1, 2, 3, 4]\<rparr>], an_ttl = 60\<rparr> [] =
     ([\<lparr>da_family = 4, da_addr = [1, 2, 3, 4]\<rparr>], [\<lparr>qs_family = 4, qs_addr = [1, 2, 3, 4], qs_added_at = 100\<rparr>])"
    by code_simp
  then show ?thesis using quic_block_effective [OF q_init] by blast
qed

end
