(* ===== verification/Resolver.thy ===== *)
theory Resolver
  imports Dns Slots
begin

text \<open>
  The trusted resolver of \<open>src/dns/dns.c\<close>: the answer cache, the health of the servers, the walk over
  them for a lookup (\<open>dns_resolve\<close>) and for a forwarded query (\<open>dns_exchange\<close>). The transport is a
  parameter: it is given the server, the query, the size of the reply buffer and the timeout, and
  returns the reply - the empty one for a timeout, \<^const>\<open>None\<close> for a local error - and its own
  state. The lock callbacks around the shared state are not modelled: one caller runs at a time.
\<close>

section \<open>State\<close>

definition DNS_MAX_SERVERS :: nat where "DNS_MAX_SERVERS = 12"
definition DNS_CACHE_SIZE :: nat where "DNS_CACHE_SIZE = 256"
definition DNS_SERVER_FAIL_LIMIT :: u32 where "DNS_SERVER_FAIL_LIMIT = 3"
definition DNS_SERVER_BACKOFF_SECONDS :: int where "DNS_SERVER_BACKOFF_SECONDS = 60"

record dns_server_health =
  consecutive_failures :: u32
  skip_until :: int
  h_queries :: "64 word"
  h_failures :: "64 word"

record dns_cache_entry =
  ce_name :: string
  ce_qtype :: u16
  ce_status :: dns_status
  ce_answer :: dns_answer
  ce_expires_at :: int
  ce_last_used :: int

record dns_resolver =
  server_count :: nat
  health :: "dns_server_health list"
  dns_cache :: "dns_cache_entry list"
  timeout_ms :: int
  next_id :: u16
  cache_hits :: "64 word"
  cache_misses :: "64 word"

type_synonym 'u dns_transport = "nat \<Rightarrow> bytes \<Rightarrow> nat \<Rightarrow> int \<Rightarrow> 'u \<Rightarrow> bytes option \<times> 'u"

definition health0 :: dns_server_health where
  "health0 = \<lparr>consecutive_failures = 0, skip_until = 0, h_queries = 0, h_failures = 0\<rparr>"

definition cache_entry0 :: dns_cache_entry where
  "cache_entry0 = \<lparr>ce_name = [], ce_qtype = 0, ce_status = DNS_OK, ce_answer = \<lparr>an_addrs = [], an_ttl = 0\<rparr>,
     ce_expires_at = 0, ce_last_used = 0\<rparr>"

definition dns_resolver_init :: "nat \<Rightarrow> int \<Rightarrow> u16 \<Rightarrow> dns_resolver" where
  "dns_resolver_init count timeout id_seed =
     (let count = (if count > DNS_MAX_SERVERS then DNS_MAX_SERVERS else count) in
      \<lparr>server_count = count, health = replicate DNS_MAX_SERVERS health0,
       dns_cache = replicate DNS_CACHE_SIZE cache_entry0, timeout_ms = timeout, next_id = id_seed,
       cache_hits = 0, cache_misses = 0\<rparr>)"

definition dns_cache_flush :: "dns_resolver \<Rightarrow> dns_resolver" where
  "dns_cache_flush r = r\<lparr>dns_cache := replicate DNS_CACHE_SIZE cache_entry0\<rparr>"

definition dns_resolver_healthy :: "dns_resolver \<Rightarrow> int \<Rightarrow> bool" where
  "dns_resolver_healthy r now = list_ex (\<lambda>i. skip_until (health r ! i) \<le> now) [0..<server_count r]"

section \<open>The cache\<close>

fun name_ieq :: "string \<Rightarrow> string \<Rightarrow> bool" where
  "name_ieq (a # as) (b # bs) = (if tolower_c a \<noteq> tolower_c b then False else name_ieq as bs)"
| "name_ieq as bs = (as = [] \<and> bs = [])"

definition cache_match :: "string \<times> u16 \<Rightarrow> dns_cache_entry \<Rightarrow> bool" where
  "cache_match k e = (ce_name e \<noteq> [] \<and> ce_qtype e = snd k \<and> name_ieq (ce_name e) (fst k))"

definition cache_find :: "dns_resolver \<Rightarrow> string \<Rightarrow> u16 \<Rightarrow> nat option" where
  "cache_find r name qtype = first_idx (cache_match (name, qtype)) (dns_cache r)"

definition cache_reusable :: "int \<Rightarrow> dns_cache_entry \<Rightarrow> bool" where
  "cache_reusable now e = (ce_name e = [] \<or> ce_expires_at e \<le> now)"

definition clamp_ttl :: "dns_status \<Rightarrow> dns_answer \<Rightarrow> u32" where
  "clamp_ttl status answer =
     (let ttl = (if status = DNS_OK then an_ttl answer else DNS_NEGATIVE_TTL);
          ttl = (if ttl < DNS_TTL_MIN then DNS_TTL_MIN else ttl) in
      if ttl > DNS_TTL_MAX then DNS_TTL_MAX else ttl)"

definition cache_store :: "dns_resolver \<Rightarrow> string \<Rightarrow> u16 \<Rightarrow> dns_status \<Rightarrow> dns_answer \<Rightarrow> int \<Rightarrow> dns_resolver" where
  "cache_store r name qtype status answer now =
     (if length name \<ge> DNS_NAME_MAX then r
      else let slot = slot_for (cache_match (name, qtype)) (cache_reusable now) ce_last_used (dns_cache r);
               ttl = clamp_ttl status answer in
        r\<lparr>dns_cache := (dns_cache r)[slot :=
          \<lparr>ce_name = name, ce_qtype = qtype, ce_status = status, ce_answer = answer\<lparr>an_ttl := ttl\<rparr>,
           ce_expires_at = now + uint ttl, ce_last_used = now\<rparr>]\<rparr>)"

section \<open>The servers\<close>

definition server_result :: "dns_resolver \<Rightarrow> nat \<Rightarrow> bool \<Rightarrow> int \<Rightarrow> dns_resolver" where
  "server_result r idx ok now =
     (let h = health r ! idx; h = h\<lparr>h_queries := h_queries h + 1\<rparr>;
          h' = (if ok then h\<lparr>consecutive_failures := 0, skip_until := 0\<rparr>
                else let h = h\<lparr>h_failures := h_failures h + 1, consecutive_failures := consecutive_failures h + 1\<rparr> in
                  if consecutive_failures h \<ge> DNS_SERVER_FAIL_LIMIT
                  then h\<lparr>skip_until := now + DNS_SERVER_BACKOFF_SECONDS\<rparr> else h) in
      r\<lparr>health := (health r)[idx := h']\<rparr>)"

text \<open>The two passes that fill \<open>order\<close>: the servers not backed off, then those backed off.\<close>

definition order_pass :: "dns_resolver \<Rightarrow> int \<Rightarrow> bool \<Rightarrow> nat list" where
  "order_pass r now pass = filter (\<lambda>i. (skip_until (health r ! i) > now) = pass) [0..<server_count r]"

definition server_order :: "dns_resolver \<Rightarrow> int \<Rightarrow> nat list" where
  "server_order r now = order_pass r now False @ order_pass r now True"

definition authoritative :: "dns_status \<Rightarrow> bool" where
  "authoritative st = (st = DNS_OK \<or> st = DNS_NODATA \<or> st = DNS_NXDOMAIN)"

definition query_server :: "'u dns_transport \<Rightarrow> int \<Rightarrow> nat \<Rightarrow> u16 \<Rightarrow> string \<Rightarrow> u16 \<Rightarrow> dns_answer \<Rightarrow> 'u \<Rightarrow>
    (dns_status \<times> dns_answer \<times> 'u) option" where
  "query_server transport timeout idx qid name qtype out u =
     (let query = dns_build_query qid name qtype 512 in
      if query = [] then Some (DNS_ERR_MALFORMED, out, u)
      else case transport idx query 1500 timeout u of
        (None, u) \<Rightarrow> Some (DNS_ERR_SERVFAIL, out, u)
      | (Some reply, u) \<Rightarrow>
          if reply = [] then Some (DNS_ERR_TIMEOUT, out, u)
          else do { (st, out) \<leftarrow> dns_parse_response reply qid name qtype; Some (st, out, u) })"

text \<open>The walk of \<open>dns_resolve\<close>: \<open>i\<close> is the position in \<open>order\<close>.\<close>

fun resolve_walk :: "'u dns_transport \<Rightarrow> u16 \<Rightarrow> string \<Rightarrow> u16 \<Rightarrow> int \<Rightarrow> nat list \<Rightarrow> nat \<Rightarrow> dns_resolver \<Rightarrow> dns_answer \<Rightarrow> 'u \<Rightarrow>
    (dns_status \<times> dns_answer \<times> dns_resolver \<times> 'u) option" where
  "resolve_walk transport qid name qtype now (s # order) i r out u = do {
     (st, out, u) \<leftarrow> query_server transport (timeout_ms r) s (qid + of_nat i) name qtype out u;
     let r = server_result r s (authoritative st) now;
     if authoritative st then Some (st, out, cache_store r name qtype st out now, u)
     else resolve_walk transport qid name qtype now order (i + 1) r out u
   }"
| "resolve_walk transport qid name qtype now [] i r out u = Some (DNS_ERR_ALL_FAILED, out\<lparr>an_addrs := []\<rparr>, r, u)"

definition dns_resolve :: "'u dns_transport \<Rightarrow> dns_resolver \<Rightarrow> string \<Rightarrow> u16 \<Rightarrow> int \<Rightarrow> dns_answer \<Rightarrow> 'u \<Rightarrow>
    (dns_status \<times> dns_answer \<times> dns_resolver \<times> 'u) option" where
  "dns_resolve transport r name qtype now out u =
     (let miss = (let r = r\<lparr>cache_misses := cache_misses r + 1\<rparr>; order = server_order r now; qid = next_id r;
                      r = r\<lparr>next_id := next_id r + of_nat (server_count r)\<rparr> in
                  resolve_walk transport qid name qtype now order 0 r out u) in
      case cache_find r name qtype of
        None \<Rightarrow> miss
      | Some i \<Rightarrow>
          let hit = dns_cache r ! i in
          if ce_expires_at hit > now
          then Some (ce_status hit, ce_answer hit,
                 r\<lparr>cache_hits := cache_hits r + 1, dns_cache := (dns_cache r)[i := hit\<lparr>ce_last_used := now\<rparr>]\<rparr>, u)
          else miss)"

text \<open>The walk of \<open>dns_exchange\<close>. The inner \<^const>\<open>None\<close> is the result -1.\<close>

fun exchange_walk :: "'u dns_transport \<Rightarrow> bytes \<Rightarrow> nat \<Rightarrow> int \<Rightarrow> nat list \<Rightarrow> dns_resolver \<Rightarrow> 'u \<Rightarrow>
    (bytes option \<times> dns_resolver \<times> 'u) option" where
  "exchange_walk transport query reply_size now (s # order) r u = do {
     let (got, u) = transport s query reply_size (timeout_ms r) u;
     ok \<leftarrow> (case got of None \<Rightarrow> Some False | Some reply \<Rightarrow> if reply = [] then Some False else reply_matches query reply);
     rcode \<leftarrow> (if ok then do { b \<leftarrow> rd8 (the got) 3; Some (Some (b AND 0x0F)) } else Some None);
     let ok = (if rcode = Some 2 \<or> rcode = Some 5 then False else ok);
     let r = server_result r s ok now;
     if ok then Some (got, r, u) else exchange_walk transport query reply_size now order r u
   }"
| "exchange_walk transport query reply_size now [] r u = Some (None, r, u)"

definition dns_exchange :: "'u dns_transport \<Rightarrow> dns_resolver \<Rightarrow> bytes \<Rightarrow> nat \<Rightarrow> int \<Rightarrow> 'u \<Rightarrow>
    (bytes option \<times> dns_resolver \<times> 'u) option" where
  "dns_exchange transport r query reply_size now u =
     (if length query < 12 then Some (None, r, u)
      else do {
        ql \<leftarrow> question_len query;
        if ql = 0 then Some (None, r, u)
        else exchange_walk transport query reply_size now (server_order r now) r u
      })"

section \<open>The invariant\<close>

lemma name_ieq_ieq: "name_ieq a b = ieq a b"
  by (induction a b rule: name_ieq.induct) auto

lemma cache_match_ieq: "cache_match k e \<longleftrightarrow> ce_name e \<noteq> [] \<and> ce_qtype e = snd k \<and> ieq (ce_name e) (fst k)"
  by (simp add: cache_match_def name_ieq_ieq)

interpretation dns_slots: slot_store cache_match cache_reusable ce_last_used "\<lambda>k k'. snd k = snd k' \<and> ieq (fst k) (fst k')"
  by unfold_locales (auto simp: cache_match_ieq ieq_iff)

text \<open>A used entry holds an authoritative answer with a TTL between half a minute and an hour.\<close>

definition cache_entry_ok :: "dns_cache_entry \<Rightarrow> bool" where
  "cache_entry_ok e \<longleftrightarrow> ce_name e = [] \<or>
     authoritative (ce_status e) \<and> answer_ok (ce_qtype e) (ce_answer e) \<and> DNS_TTL_MIN \<le> an_ttl (ce_answer e)"

definition resolver_inv :: "dns_resolver \<Rightarrow> bool" where
  "resolver_inv r \<longleftrightarrow> server_count r \<le> DNS_MAX_SERVERS \<and> length (health r) = DNS_MAX_SERVERS \<and>
     length (dns_cache r) = DNS_CACHE_SIZE \<and> dns_slots.unique (dns_cache r) \<and> list_all cache_entry_ok (dns_cache r)"

lemma clamp_ttl_bounds: "DNS_TTL_MIN \<le> clamp_ttl st a" "clamp_ttl st a \<le> DNS_TTL_MAX"
  by (auto simp: clamp_ttl_def Let_def DNS_TTL_MIN_def DNS_TTL_MAX_def DNS_NEGATIVE_TTL_def not_le not_less)

lemma clamp_ttl_int: "30 \<le> uint (clamp_ttl st a)" "uint (clamp_ttl st a) \<le> 3600"
  using clamp_ttl_bounds [of st a] by (simp_all add: word_le_def DNS_TTL_MIN_def DNS_TTL_MAX_def)

lemma cache_entry0_ok: "cache_entry_ok cache_entry0"
  by (simp add: cache_entry_ok_def cache_entry0_def)

lemma empty_cache_unique: "dns_slots.unique (replicate n cache_entry0)"
  by (simp add: dns_slots.unique_def cache_match_def cache_entry0_def)

lemma resolver_init_inv: "resolver_inv (dns_resolver_init n timeout id_seed)"
  by (simp add: resolver_inv_def dns_resolver_init_def Let_def empty_cache_unique list_all_iff cache_entry0_ok)

lemma cache_flush_inv: "resolver_inv r \<Longrightarrow> resolver_inv (dns_cache_flush r)"
  by (simp add: resolver_inv_def dns_cache_flush_def empty_cache_unique list_all_iff cache_entry0_ok)

lemma server_result_frame:
  "dns_cache (server_result r s ok now) = dns_cache r" "server_count (server_result r s ok now) = server_count r"
  "length (health (server_result r s ok now)) = length (health r)" "next_id (server_result r s ok now) = next_id r"
  "timeout_ms (server_result r s ok now) = timeout_ms r"
  by (simp_all add: server_result_def Let_def)

lemma server_result_inv: "resolver_inv r \<Longrightarrow> resolver_inv (server_result r s ok now)"
  by (simp add: resolver_inv_def server_result_frame)

lemma list_all_update: "list_all P xs \<Longrightarrow> P x \<Longrightarrow> list_all P (xs[i := x])"
  by (auto simp: list_all_iff dest: set_update_subset_insert [THEN subsetD])

lemma cache_nonempty: "resolver_inv r \<Longrightarrow> dns_cache r \<noteq> []"
  by (auto simp: resolver_inv_def DNS_CACHE_SIZE_def)

lemma cache_store_inv:
  assumes r: "resolver_inv r" and st: "authoritative st" and a: "answer_ok qtype answer" and n: "name \<noteq> []"
  shows "resolver_inv (cache_store r name qtype st answer now)"
proof (cases "length name \<ge> DNS_NAME_MAX")
  case False
  define e where "e = \<lparr>ce_name = name, ce_qtype = qtype, ce_status = st, ce_answer = answer\<lparr>an_ttl := clamp_ttl st answer\<rparr>,
    ce_expires_at = now + uint (clamp_ttl st answer), ce_last_used = now\<rparr>"
  have m: "cache_match (name, qtype) e" using n by (simp add: e_def cache_match_ieq)
  have "cache_entry_ok e"
    using st a clamp_ttl_bounds [of st answer] clamp_ttl_int [of st answer] by (simp add: e_def cache_entry_ok_def answer_ok_def)
  moreover have "dns_slots.unique (dns_cache r)" using r by (simp add: resolver_inv_def)
  ultimately show ?thesis
    using r False dns_slots.store(1) [OF _ cache_nonempty [OF r] m, of now]
    by (simp add: cache_store_def Let_def e_def [symmetric] resolver_inv_def list_all_update)
qed (use r in \<open>simp add: cache_store_def\<close>)

lemma cache_find_Some:
  assumes "resolver_inv r" "cache_find r name qtype = Some i"
  shows "i < length (dns_cache r)" "cache_match (name, qtype) (dns_cache r ! i)" "cache_entry_ok (dns_cache r ! i)"
  using assms by (auto simp: cache_find_def first_idx_Some resolver_inv_def list_all_length)

section \<open>The walk\<close>

lemma server_order_set: "set (server_order r now) = {..<server_count r}" "distinct (server_order r now)"
  by (auto simp: server_order_def order_pass_def)

text \<open>A transport that also keeps the list of servers it was called for.\<close>

definition log_transport :: "'u dns_transport \<Rightarrow> ('u \<times> nat list) dns_transport" where
  "log_transport transport s query n t u = (let (r, u') = transport s query n t (fst u) in (r, (u', snd u @ [s])))"

lemma build_query_empty: "dns_build_query qid name qtype 512 = [] \<longleftrightarrow> encode_name name 496 = []"
  by (simp add: dns_build_query_def Let_def be16_bytes_def)

lemma query_server_log:
  assumes "encode_name name 496 \<noteq> []"
  shows "\<exists>st out' u'. query_server (log_transport transport) t s qid name qtype out (u, log) = Some (st, out', (u', log @ [s])) \<and>
    (authoritative st \<longrightarrow> answer_ok qtype out')"
proof -
  obtain g u' where tr: "transport s (dns_build_query qid name qtype 512) 1500 t u = (g, u')" by fastforce
  show ?thesis
  proof (cases "g = None \<or> g = Some []")
    case False
    then obtain reply where "g = Some reply" "reply \<noteq> []" by auto
    then show ?thesis
      using assms tr dns_response_safe_ok [of reply qid name qtype]
      by (auto simp: query_server_def Let_def build_query_empty log_transport_def)
  qed (use assms tr in \<open>auto simp: query_server_def Let_def build_query_empty log_transport_def authoritative_def\<close>)
qed

lemma resolve_walk_log:
  assumes "encode_name name 496 \<noteq> []" "name \<noteq> []" "resolver_inv r"
  shows "\<exists>st out' r' u' k. resolve_walk (log_transport transport) qid name qtype now order i r out (u, log) =
      Some (st, out', r', (u', log @ take k order)) \<and> k \<le> length order \<and> resolver_inv r' \<and>
    (authoritative st \<and> answer_ok qtype out' \<or> st = DNS_ERR_ALL_FAILED \<and> k = length order \<and> an_addrs out' = [])"
  using assms(3)
proof (induction order arbitrary: i r out u log)
  case (Cons s order)
  obtain st o1 u1 where q: "query_server (log_transport transport) (timeout_ms r) s (qid + of_nat i) name qtype out (u, log) =
      Some (st, o1, (u1, log @ [s]))" "authoritative st \<longrightarrow> answer_ok qtype o1"
    using query_server_log [OF assms(1), of transport "timeout_ms r" s "qid + of_nat i" qtype out u log] by blast
  let ?r = "server_result r s (authoritative st) now"
  have inv: "resolver_inv ?r" using Cons.prems by (rule server_result_inv)
  show ?case
  proof (cases "authoritative st")
    case True
    then show ?thesis
      using q cache_store_inv [OF inv _ _ assms(2), of st qtype o1 now] by (intro exI [of _ 1] exI) (auto simp: Let_def)
  next
    case False
    obtain st' o2 r2 u2 k where w: "resolve_walk (log_transport transport) qid name qtype now order (i + 1) ?r o1 (u1, log @ [s]) =
        Some (st', o2, r2, (u2, (log @ [s]) @ take k order))" "k \<le> length order" "resolver_inv r2"
      "authoritative st' \<and> answer_ok qtype o2 \<or> st' = DNS_ERR_ALL_FAILED \<and> k = length order \<and> an_addrs o2 = []"
      using Cons.IH [OF inv] by blast
    show ?thesis
      by (rule exI [of _ st'], rule exI [of _ o2], rule exI [of _ r2], rule exI [of _ u2], rule exI [of _ "Suc k"])
        (use q False w in \<open>auto simp: Let_def\<close>)
  qed
qed auto

text \<open>The log does not change what the walk does.\<close>

lemma query_server_unlog:
  "query_server transport t s qid name qtype out u =
   map_option (\<lambda>(st, out', u'). (st, out', fst u')) (query_server (log_transport transport) t s qid name qtype out (u, log))"
  by (auto simp: query_server_def Let_def log_transport_def map_option_case split: prod.split option.split Option.bind_splits)

lemma resolve_walk_unlog:
  "resolve_walk transport qid name qtype now order i r out u =
   map_option (\<lambda>(st, out', r', u'). (st, out', r', fst u'))
     (resolve_walk (log_transport transport) qid name qtype now order i r out (u, log))"
proof (induction order arbitrary: i r out u log)
  case (Cons s order)
  have ih: "map_option (\<lambda>(st, out', r', u'). (st, out', r', fst u'))
      (resolve_walk (log_transport transport) qid name qtype now order j q o1 w) =
    resolve_walk transport qid name qtype now order j q o1 (fst w)" for j q o1 w
    using Cons.IH [of j q o1 "fst w" "snd w"] by simp
  show ?case
    using query_server_unlog [of transport "timeout_ms r" s "qid + of_nat i" name qtype out u log]
    by (cases "query_server (log_transport transport) (timeout_ms r) s (qid + of_nat i) name qtype out (u, log)")
      (auto simp: Let_def ih)
qed simp

definition miss_state :: "dns_resolver \<Rightarrow> dns_resolver" where
  "miss_state r = r\<lparr>cache_misses := cache_misses r + 1, next_id := next_id r + of_nat (server_count r)\<rparr>"

lemma miss_state_inv: "resolver_inv r \<Longrightarrow> resolver_inv (miss_state r)"
  by (simp add: resolver_inv_def miss_state_def)

lemma resolve_miss:
  assumes "case cache_find r name qtype of None \<Rightarrow> True | Some i \<Rightarrow> ce_expires_at (dns_cache r ! i) \<le> now"
  shows "dns_resolve transport r name qtype now out u =
    resolve_walk transport (next_id r) name qtype now (server_order r now) 0 (miss_state r) out u"
proof -
  have "server_order (r\<lparr>cache_misses := cache_misses r + 1\<rparr>) now = server_order r now"
    by (simp add: server_order_def order_pass_def)
  then show ?thesis
    using assms by (auto simp: dns_resolve_def Let_def miss_state_def split: option.splits)
qed

lemma resolve_hit:
  assumes "cache_find r name qtype = Some i" "now < ce_expires_at (dns_cache r ! i)"
  shows "dns_resolve transport r name qtype now out u =
    Some (ce_status (dns_cache r ! i), ce_answer (dns_cache r ! i),
      r\<lparr>cache_hits := cache_hits r + 1, dns_cache := (dns_cache r)[i := (dns_cache r ! i)\<lparr>ce_last_used := now\<rparr>]\<rparr>, u)"
  using assms by (simp add: dns_resolve_def Let_def)

lemma hit_inv:
  assumes r: "resolver_inv r" and i: "cache_find r name qtype = Some i"
  shows "resolver_inv (r\<lparr>cache_hits := h, dns_cache := (dns_cache r)[i := (dns_cache r ! i)\<lparr>ce_last_used := now\<rparr>]\<rparr>)"
proof -
  note f = cache_find_Some [OF r i]
  have "cache_entry_ok ((dns_cache r ! i)\<lparr>ce_last_used := now\<rparr>)" using f(3) by (simp add: cache_entry_ok_def)
  moreover have "dns_slots.unique ((dns_cache r)[i := (dns_cache r ! i)\<lparr>ce_last_used := now\<rparr>])"
    by (rule dns_slots.unique_same_key) (use r f(1) in \<open>auto simp: resolver_inv_def cache_match_def\<close>)
  ultimately show ?thesis using r by (simp add: resolver_inv_def list_all_update)
qed

lemma encode_name_nonempty: "encode_name name n \<noteq> [] \<Longrightarrow> name \<noteq> []"
  by (auto simp: encode_name_def)

lemma resolve_log:
  assumes r: "resolver_inv r" and e: "encode_name name 496 \<noteq> []"
  shows "\<exists>st out' r' u' k. dns_resolve (log_transport transport) r name qtype now out (u, []) =
      Some (st, out', r', (u', take k (server_order r now))) \<and> resolver_inv r' \<and>
    (authoritative st \<and> answer_ok qtype out' \<or>
     st = DNS_ERR_ALL_FAILED \<and> k = length (server_order r now) \<and> an_addrs out' = [])"
proof (cases "case cache_find r name qtype of None \<Rightarrow> True | Some i \<Rightarrow> ce_expires_at (dns_cache r ! i) \<le> now")
  case True
  show ?thesis
    unfolding resolve_miss [OF True]
    using resolve_walk_log [OF e encode_name_nonempty [OF e] miss_state_inv [OF r], of transport "next_id r" qtype now
        "server_order r now" 0 out u "[]"] unfolding append_Nil by blast
next
  case False
  then obtain i where i: "cache_find r name qtype = Some i" "now < ce_expires_at (dns_cache r ! i)"
    by (auto split: option.splits)
  have "cache_match (name, qtype) (dns_cache r ! i)" "cache_entry_ok (dns_cache r ! i)"
    using cache_find_Some [OF r i(1)] by simp_all
  then have "authoritative (ce_status (dns_cache r ! i)) \<and> answer_ok qtype (ce_answer (dns_cache r ! i))"
    by (auto simp: cache_entry_ok_def cache_match_def)
  then show ?thesis
    unfolding resolve_hit [OF i] using hit_inv [OF r i(1)] by (intro exI [of _ 0] exI) auto
qed

text \<open>A name that makes no query: every server is charged with a failure.\<close>

lemma resolve_walk_invalid:
  assumes "encode_name name 496 = []"
  shows "resolve_walk transport qid name qtype now order i r out u =
    Some (DNS_ERR_ALL_FAILED, out\<lparr>an_addrs := []\<rparr>, foldl (\<lambda>r s. server_result r s False now) r order, u)"
  by (induction order arbitrary: i r)
    (simp_all add: query_server_def Let_def build_query_empty assms authoritative_def)

lemma resolve_unlog:
  "dns_resolve transport r name qtype now out u =
   map_option (\<lambda>(st, out', r', u'). (st, out', r', fst u')) (dns_resolve (log_transport transport) r name qtype now out (u, []))"
proof (cases "case cache_find r name qtype of None \<Rightarrow> True | Some i \<Rightarrow> ce_expires_at (dns_cache r ! i) \<le> now")
  case True
  show ?thesis unfolding resolve_miss [OF True] by (rule resolve_walk_unlog)
next
  case False
  then obtain i where i: "cache_find r name qtype = Some i" "now < ce_expires_at (dns_cache r ! i)"
    by (auto split: option.splits)
  show ?thesis unfolding resolve_hit [OF i] by simp
qed

lemma foldl_server_result_inv: "resolver_inv r \<Longrightarrow> resolver_inv (foldl (\<lambda>r s. server_result r s ok now) r order)"
  by (induction order arbitrary: r) (simp_all add: server_result_inv)

lemma resolve_inv:
  assumes r: "resolver_inv r" and d: "dns_resolve transport r name qtype now out u = Some (st, out', r', u')"
  shows "resolver_inv r'"
proof (cases "encode_name name 496 = []")
  case False
  then show ?thesis
    using resolve_log [OF r, of name transport qtype now out u] d by (auto simp: resolve_unlog [of transport])
next
  case True
  show ?thesis
  proof (cases "case cache_find r name qtype of None \<Rightarrow> True | Some i \<Rightarrow> ce_expires_at (dns_cache r ! i) \<le> now")
    case m: True
    then show ?thesis
      using d foldl_server_result_inv [OF miss_state_inv [OF r]]
      by (auto simp: resolve_miss [OF m] resolve_walk_invalid [OF True])
  next
    case False
    then obtain i where i: "cache_find r name qtype = Some i" "now < ce_expires_at (dns_cache r ! i)"
      by (auto split: option.splits)
    show ?thesis using d hit_inv [OF r i(1)] by (auto simp: resolve_hit [OF i])
  qed
qed

section \<open>Forwarding\<close>

lemma question_end_total: "\<exists>r. question_end pkt pos = Some r"
proof (induction pkt pos rule: question_end.induct)
  case (1 pkt pos)
  show ?case
  proof (cases "pos < length pkt")
    case True
    then show ?thesis using 1 [OF True, of "pkt ! pos"] by (subst question_end.simps) (auto simp: mem_simps)
  next
    case False
    then show ?thesis by (subst question_end.simps) auto
  qed
qed

lemma question_len_total: "\<exists>ql. question_len pkt = Some ql \<and> (ql = 0 \<or> 12 + ql \<le> length pkt)"
  using question_end_total [of pkt 12] by (auto simp: question_len_def split: option.split)

lemma reply_matches_total: "\<exists>b. reply_matches query reply = Some b \<and> \<not> (b \<and> length reply < 12)"
proof -
  obtain ql where q: "question_len query = Some ql" "ql = 0 \<or> 12 + ql \<le> length query"
    using question_len_total by blast
  show ?thesis
  proof (cases "ql = 0 \<or> length reply < 12 + ql")
    case False
    then have "\<exists>b. same_bytes reply 12 (take ql (drop 12 query)) = Some b"
      using q(2) by (subst same_bytes_eq) auto
    then show ?thesis using q False by (auto simp: reply_matches_def mem_simps)
  qed (use q in \<open>auto simp: reply_matches_def\<close>)
qed

text \<open>A reply the forwarder takes: it answers the query and is neither SERVFAIL nor REFUSED.\<close>

definition usable_reply :: "bytes \<Rightarrow> bytes \<Rightarrow> bool" where
  "usable_reply query reply \<longleftrightarrow> reply_matches query reply = Some True \<and>
     dns_reply_rcode reply \<noteq> Some (Some 2) \<and> dns_reply_rcode reply \<noteq> Some (Some 5)"

lemma reply_matches_header:
  assumes "reply_matches query reply = Some True"
  shows "12 \<le> length reply" "dns_reply_rcode reply = Some (Some (reply ! 3 AND 0x0F))"
proof -
  show l: "12 \<le> length reply" using reply_matches_total [of query reply] assms by auto
  have "reply ! 2 AND 0x80 \<noteq> 0"
    using assms l by (auto simp: reply_matches_def mem_simps split: Option.bind_splits if_splits)
  then show "dns_reply_rcode reply = Some (Some (reply ! 3 AND 0x0F))" using l by (simp add: dns_reply_rcode_def mem_simps)
qed

lemma exchange_step:
  assumes tr: "transport s query reply_size (timeout_ms r) u = (got, u')"
  shows "exchange_walk transport query reply_size now (s # order) r u =
    (let ok = (case got of None \<Rightarrow> False | Some reply \<Rightarrow> reply \<noteq> [] \<and> usable_reply query reply);
         r' = server_result r s ok now in
     if ok then Some (got, r', u') else exchange_walk transport query reply_size now order r' u')"
proof (cases "got = None \<or> got = Some []")
  case True
  then show ?thesis using tr by (auto simp: Let_def)
next
  case False
  then obtain reply where g: "got = Some reply" "reply \<noteq> []" by auto
  obtain b where b: "reply_matches query reply = Some b" using reply_matches_total by blast
  show ?thesis
  proof (cases b)
    case True
    have "rd8 reply 3 = Some (reply ! 3)" using reply_matches_header(1) [of query reply] b True by (simp add: mem_simps)
    moreover have "usable_reply query reply \<longleftrightarrow> reply ! 3 AND 0x0F \<noteq> 2 \<and> reply ! 3 AND 0x0F \<noteq> 5"
      using reply_matches_header(2) [of query reply] b True by (simp add: usable_reply_def)
    ultimately show ?thesis using tr g b True by (auto simp: Let_def)
  next
    case False
    then show ?thesis using tr g b by (simp add: Let_def usable_reply_def)
  qed
qed

lemma exchange_walk_log:
  assumes "resolver_inv r"
  shows "\<exists>got r' u' k. exchange_walk (log_transport transport) query reply_size now order r (u, log) =
      Some (got, r', (u', log @ take k order)) \<and> k \<le> length order \<and> resolver_inv r' \<and>
    (case got of None \<Rightarrow> k = length order | Some reply \<Rightarrow> usable_reply query reply)"
  using assms
proof (induction order arbitrary: r u log)
  case (Cons s order)
  obtain got u1 where tr: "log_transport transport s query reply_size (timeout_ms r) (u, log) = (got, (u1, log @ [s]))"
    by (cases "transport s query reply_size (timeout_ms r) u") (simp add: log_transport_def)
  define ok where "ok = (case got of None \<Rightarrow> False | Some reply \<Rightarrow> reply \<noteq> [] \<and> usable_reply query reply)"
  let ?r = "server_result r s ok now"
  have inv: "resolver_inv ?r" using Cons.prems by (rule server_result_inv)
  show ?case
  proof (cases ok)
    case True
    then obtain reply where g: "got = Some reply" "usable_reply query reply" by (auto simp: ok_def split: option.splits)
    have "exchange_walk (log_transport transport) query reply_size now (s # order) r (u, log) = Some (got, ?r, (u1, log @ [s]))"
      using True by (simp add: exchange_step [of "log_transport transport", OF tr] ok_def [symmetric] Let_def del: exchange_walk.simps)
    then show ?thesis
      using inv g by (intro exI [of _ got] exI [of _ ?r] exI [of _ u1] exI [of _ 1]) simp
  next
    case False
    obtain g2 r2 u2 k where w: "exchange_walk (log_transport transport) query reply_size now order ?r (u1, log @ [s]) =
        Some (g2, r2, (u2, (log @ [s]) @ take k order))" "k \<le> length order" "resolver_inv r2"
      "case g2 of None \<Rightarrow> k = length order | Some reply \<Rightarrow> usable_reply query reply"
      using Cons.IH [OF inv] by blast
    show ?thesis
      by (rule exI [of _ g2], rule exI [of _ r2], rule exI [of _ u2], rule exI [of _ "Suc k"])
        (use False w in \<open>simp add: exchange_step [of "log_transport transport", OF tr] ok_def [symmetric] Let_def del: exchange_walk.simps split: option.splits\<close>)
  qed
qed (auto split: option.splits)

lemma exchange_log:
  assumes "resolver_inv r"
  shows "\<exists>got r' u' k. dns_exchange (log_transport transport) r query reply_size now (u, []) =
      Some (got, r', (u', take k (server_order r now))) \<and> resolver_inv r' \<and>
    (case got of None \<Rightarrow> question_len query = Some 0 \<or> length query < 12 \<or> k = length (server_order r now)
     | Some reply \<Rightarrow> usable_reply query reply)"
proof -
  obtain ql where q: "question_len query = Some ql" using question_len_total by blast
  show ?thesis
  proof (cases "length query < 12 \<or> ql = 0")
    case True
    then show ?thesis
      using assms q by (intro exI [of _ None] exI [of _ r] exI [of _ u] exI [of _ 0]) (auto simp: dns_exchange_def)
  next
    case False
    then have "dns_exchange (log_transport transport) r query reply_size now (u, []) =
        exchange_walk (log_transport transport) query reply_size now (server_order r now) r (u, [])"
      using q by (simp add: dns_exchange_def)
    moreover obtain got r' u' k where w: "exchange_walk (log_transport transport) query reply_size now (server_order r now) r (u, []) =
        Some (got, r', (u', take k (server_order r now)))" "resolver_inv r'"
      "case got of None \<Rightarrow> k = length (server_order r now) | Some reply \<Rightarrow> usable_reply query reply"
      using exchange_walk_log [OF assms, of transport query reply_size now "server_order r now" u "[]"]
      unfolding append_Nil by blast
    ultimately show ?thesis
      by (intro exI [of _ got] exI [of _ r'] exI [of _ u'] exI [of _ k]) (auto split: option.splits)
  qed
qed

lemma exchange_walk_inv:
  "resolver_inv r \<Longrightarrow> exchange_walk transport query reply_size now order r u = Some (got, r', u') \<Longrightarrow> resolver_inv r'"
proof (induction order arbitrary: r u)
  case (Cons s order)
  obtain g u1 where tr: "transport s query reply_size (timeout_ms r) u = (g, u1)" by fastforce
  let ?ok = "case g of None \<Rightarrow> False | Some reply \<Rightarrow> reply \<noteq> [] \<and> usable_reply query reply"
  have inv: "resolver_inv (server_result r s ?ok now)" using Cons.prems(1) by (rule server_result_inv)
  have e: "(if ?ok then Some (g, server_result r s ?ok now, u1)
      else exchange_walk transport query reply_size now order (server_result r s ?ok now) u1) = Some (got, r', u')"
    using Cons.prems(2) by (simp add: exchange_step [of transport, OF tr] Let_def del: exchange_walk.simps)
  show ?case
  proof (cases ?ok)
    case True
    then show ?thesis using e inv by simp
  next
    case False
    then show ?thesis using e by (intro Cons.IH [OF inv, of u1]) simp
  qed
qed simp

lemma exchange_inv:
  assumes "resolver_inv r" "dns_exchange transport r query reply_size now u = Some (got, r', u')"
  shows "resolver_inv r'"
proof -
  obtain ql where "question_len query = Some ql" using question_len_total by blast
  then show ?thesis using assms exchange_walk_inv [OF assms(1)] by (auto simp: dns_exchange_def split: if_splits)
qed

section \<open>States of the resolver\<close>

inductive resolver_reachable :: "'u dns_transport \<Rightarrow> dns_resolver \<Rightarrow> bool" for transport where
  init: "resolver_reachable transport (dns_resolver_init count timeout id_seed)"
| flush: "resolver_reachable transport r \<Longrightarrow> resolver_reachable transport (dns_cache_flush r)"
| resolve: "resolver_reachable transport r \<Longrightarrow>
    dns_resolve transport r name qtype now out u = Some (st, out', r', u') \<Longrightarrow> resolver_reachable transport r'"
| exchange: "resolver_reachable transport r \<Longrightarrow>
    dns_exchange transport r query reply_size now u = Some (got, r', u') \<Longrightarrow> resolver_reachable transport r'"

lemma reachable_inv: "resolver_reachable transport r \<Longrightarrow> resolver_inv r"
proof (induction rule: resolver_reachable.induct)
  case (resolve r name qtype now out u st out' r' u')
  show ?case using resolve_inv [OF resolve.IH resolve.hyps(2)] .
next
  case (exchange r query reply_size now u got r' u')
  show ?case using exchange_inv [OF exchange.IH exchange.hyps(2)] .
qed (simp_all add: resolver_init_inv cache_flush_inv)

section \<open>Charging the servers\<close>

lemma server_result_fail:
  "s < length (health r) \<Longrightarrow> health (server_result r s False now) =
    (health r)[s := (let h = health r ! s; c = consecutive_failures h + 1 in
      h\<lparr>h_queries := h_queries h + 1, h_failures := h_failures h + 1, consecutive_failures := c,
        skip_until := (if c \<ge> 3 then now + 60 else skip_until h)\<rparr>)]"
  by (simp add: server_result_def Let_def DNS_SERVER_FAIL_LIMIT_def DNS_SERVER_BACKOFF_SECONDS_def)

lemma fail_all:
  "distinct order \<Longrightarrow> set order \<subseteq> {..<length (health r)} \<Longrightarrow> i \<in> set order \<Longrightarrow>
   consecutive_failures (health (foldl (\<lambda>r s. server_result r s False now) r order) ! i) = consecutive_failures (health r ! i) + 1 \<and>
   (consecutive_failures (health r ! i) + 1 \<ge> 3 \<longrightarrow>
    skip_until (health (foldl (\<lambda>r s. server_result r s False now) r order) ! i) = now + 60)"
proof (induction order arbitrary: r)
  case (Cons s order)
  let ?r = "server_result r s False now"
  have len: "length (health ?r) = length (health r)" by (rule server_result_frame)
  have keep: "health (foldl (\<lambda>r s. server_result r s False now) q os) ! j = health q ! j" if "j \<notin> set os" for j q os
    using that by (induction os arbitrary: q) (simp_all add: server_result_def Let_def)
  show ?case
  proof (cases "i = s")
    case True
    then show ?thesis using Cons.prems keep [of s order ?r] by (simp add: server_result_fail Let_def)
  next
    case False
    moreover have "health ?r ! i = health r ! i" using False by (simp add: server_result_def Let_def)
    ultimately show ?thesis using Cons.prems Cons.IH [of ?r] len by simp
  qed
qed simp

definition empty_cache :: "dns_resolver \<Rightarrow> bool" where
  "empty_cache r \<longleftrightarrow> list_all (\<lambda>e. ce_name e = []) (dns_cache r)"

lemma foldl_server_result_cache: "dns_cache (foldl (\<lambda>r s. server_result r s ok now) r order) = dns_cache r"
  "server_count (foldl (\<lambda>r s. server_result r s ok now) r order) = server_count r"
  by (induction order arbitrary: r) (simp_all add: server_result_frame)

lemma resolve_invalid:
  assumes e: "encode_name name 496 = []" and r: "resolver_inv r" "empty_cache r"
  shows "\<exists>r'. dns_resolve transport r name qtype now out u = Some (DNS_ERR_ALL_FAILED, out\<lparr>an_addrs := []\<rparr>, r', u) \<and>
    resolver_inv r' \<and> empty_cache r' \<and> server_count r' = server_count r \<and>
    (\<forall>i < server_count r. consecutive_failures (health r' ! i) = consecutive_failures (health r ! i) + 1 \<and>
      (consecutive_failures (health r ! i) + 1 \<ge> 3 \<longrightarrow> skip_until (health r' ! i) = now + 60))"
proof -
  let ?r = "foldl (\<lambda>r s. server_result r s False now) (miss_state r) (server_order r now)"
  have "cache_find r name qtype = None"
    using r(2) by (simp add: cache_find_def first_idx_None empty_cache_def list_all_iff cache_match_def)
  then have d: "dns_resolve transport r name qtype now out u = Some (DNS_ERR_ALL_FAILED, out\<lparr>an_addrs := []\<rparr>, ?r, u)"
    by (subst resolve_miss) (simp_all add: resolve_walk_invalid [OF e])
  have sub: "set (server_order r now) \<subseteq> {..<length (health (miss_state r))}"
    using r(1) by (auto simp: server_order_set resolver_inv_def miss_state_def)
  have hm: "health (miss_state r) = health r" by (simp add: miss_state_def)
  have "\<forall>i < server_count r. consecutive_failures (health ?r ! i) = consecutive_failures (health r ! i) + 1 \<and>
      (consecutive_failures (health r ! i) + 1 \<ge> 3 \<longrightarrow> skip_until (health ?r ! i) = now + 60)"
    using fail_all [OF server_order_set(2) sub, of _ now] unfolding hm server_order_set by simp
  moreover have "resolver_inv ?r" using r(1) by (intro foldl_server_result_inv miss_state_inv)
  moreover have "empty_cache ?r" "server_count ?r = server_count r"
    using r(2) by (simp_all add: empty_cache_def foldl_server_result_cache miss_state_def)
  ultimately show ?thesis using d by blast
qed

lemma resolve_walk_store:
  "resolve_walk transport qid name qtype now order i r out u = Some (st, out', r', u') \<Longrightarrow> authoritative st \<Longrightarrow> resolver_inv r \<Longrightarrow>
   \<exists>r0. resolver_inv r0 \<and> r' = cache_store r0 name qtype st out' now \<and> name \<noteq> [] \<and> answer_ok qtype out'"
proof (induction order arbitrary: i r out u)
  case (Cons s order)
  have e: "encode_name name 496 \<noteq> []"
    using Cons.prems(1,2) resolve_walk_invalid [of name transport qid qtype now "s # order" i r out u]
    by (auto simp: authoritative_def)
  obtain st1 o1 u1 where q: "query_server transport (timeout_ms r) s (qid + of_nat i) name qtype out u = Some (st1, o1, u1)"
    "authoritative st1 \<longrightarrow> answer_ok qtype o1"
    using query_server_log [OF e, of transport "timeout_ms r" s "qid + of_nat i" qtype out u "[]"]
    by (auto simp: query_server_unlog [of transport _ _ _ _ _ _ _ "[]"])
  have inv: "resolver_inv (server_result r s (authoritative st1) now)" using Cons.prems(3) by (rule server_result_inv)
  show ?case
  proof (cases "authoritative st1")
    case True
    then show ?thesis
      using Cons.prems(1) q inv encode_name_nonempty [OF e]
      by (intro exI [of _ "server_result r s (authoritative st1) now"]) (auto simp: Let_def)
  next
    case False
    then show ?thesis using Cons.prems(1) q Cons.prems(2) inv by (intro Cons.IH) (auto simp: Let_def)
  qed
qed (simp add: authoritative_def)

lemma stored_found:
  assumes r: "resolver_inv r" and n: "name \<noteq> []" "length name < DNS_NAME_MAX" and eq: "ieq name name2"
  shows "\<exists>i. cache_find (cache_store r name qtype st answer now) name2 qtype = Some i \<and>
    dns_cache (cache_store r name qtype st answer now) ! i =
      \<lparr>ce_name = name, ce_qtype = qtype, ce_status = st, ce_answer = answer\<lparr>an_ttl := clamp_ttl st answer\<rparr>,
       ce_expires_at = now + uint (clamp_ttl st answer), ce_last_used = now\<rparr>"
proof -
  define e where "e = \<lparr>ce_name = name, ce_qtype = qtype, ce_status = st, ce_answer = answer\<lparr>an_ttl := clamp_ttl st answer\<rparr>,
    ce_expires_at = now + uint (clamp_ttl st answer), ce_last_used = now\<rparr>"
  have m: "cache_match (name, qtype) e" using n by (simp add: e_def cache_match_ieq)
  have "cache_match (name2, qtype) = cache_match (name, qtype)"
    using eq by (auto simp: cache_match_ieq ieq_iff fun_eq_iff)
  moreover have "dns_slots.unique (dns_cache r)" using r by (simp add: resolver_inv_def)
  ultimately have "List.find (cache_match (name2, qtype)) (dns_cache (cache_store r name qtype st answer now)) = Some e"
    using dns_slots.store(2) [OF _ cache_nonempty [OF r] m, of now] n
    by (simp add: cache_store_def Let_def e_def [symmetric])
  then show ?thesis by (auto simp: first_idx_find cache_find_def e_def)
qed

section \<open>Properties\<close>



text \<open>Claim C25. An authoritative answer just fetched is served from the cache, whatever the letter case
  of the name, until its clamped TTL - never less than 30 seconds, never more than an hour - has
  passed: the same status and addresses, and the transport is not called.\<close>

theorem resolve_then_cached:
  assumes r: "resolver_inv r" "cache_find r name qtype = None" "length name < DNS_NAME_MAX"
    and d: "dns_resolve transport r name qtype now out u = Some (st, out', r', u')" "authoritative st"
    and later: "ieq name name2" "now2 < now + uint (clamp_ttl st out')"
  shows "30 \<le> uint (clamp_ttl st out') \<and> uint (clamp_ttl st out') \<le> 3600 \<and>
    (\<exists>r''. dns_resolve transport2 r' name2 qtype now2 out2 u2 = Some (st, out'\<lparr>an_ttl := clamp_ttl st out'\<rparr>, r'', u2))"
proof -
  have "resolve_walk transport (next_id r) name qtype now (server_order r now) 0 (miss_state r) out u = Some (st, out', r', u')"
    using d(1) r(2) by (simp add: resolve_miss)
  from resolve_walk_store [OF this d(2) miss_state_inv [OF r(1)]]
  obtain r0 where r0: "resolver_inv r0" "r' = cache_store r0 name qtype st out' now" "name \<noteq> []" by blast
  obtain i where i: "cache_find r' name2 qtype = Some i"
    "dns_cache r' ! i = \<lparr>ce_name = name, ce_qtype = qtype, ce_status = st, ce_answer = out'\<lparr>an_ttl := clamp_ttl st out'\<rparr>,
       ce_expires_at = now + uint (clamp_ttl st out'), ce_last_used = now\<rparr>"
    using stored_found [OF r0(1,3) r(3) later(1)] unfolding r0(2) by blast
  show ?thesis using resolve_hit [OF i(1), of now2 transport2 out2 u2] i(2) later(2) clamp_ttl_int by simp
qed

theorem resolve_then_cached_witness:
  "\<exists>r' r''. dns_resolve (\<lambda>s q n t u. (Some [0, 7, 0x81, 0x83, 0, 1, 0, 0, 0, 0, 0, 0, 1, 97, 2, 98, 99, 0, 0, 1, 0, 1], u))
      (dns_resolver_init 2 1000 7) ''a.bc'' 1 100 \<lparr>an_addrs = [], an_ttl = 0\<rparr> () = Some (DNS_NXDOMAIN, \<lparr>an_addrs = [], an_ttl = 3600\<rparr>, r', ()) \<and>
    dns_resolve (\<lambda>s q n t u. (None, u)) r' ''A.Bc'' 1 129 \<lparr>an_addrs = [], an_ttl = 0\<rparr> () =
      Some (DNS_NXDOMAIN, \<lparr>an_addrs = [], an_ttl = 30\<rparr>, r'', ())"
proof -
  let ?tr = "\<lambda>s q n t u. (Some [0, 7, 0x81, 0x83, 0, 1, 0, 0, 0, 0, 0, 0, 1, 97, 2, 98, 99, 0, 0, 1, 0, 1], u) :: bytes option \<times> unit"
  let ?r = "dns_resolver_init 2 1000 7" and ?o = "\<lparr>an_addrs = [], an_ttl = 0\<rparr> :: dns_answer"
  let ?a = "\<lparr>an_addrs = [], an_ttl = 3600\<rparr> :: dns_answer"
  have q: "query_server ?tr 1000 0 7 ''a.bc'' 1 ?o () = Some (DNS_NXDOMAIN, ?a, ())" by code_simp
  have o: "server_order ?r 100 = [0, 1]" by code_simp
  have n: "cache_find ?r ''a.bc'' 1 = None"
    by (simp add: cache_find_def first_idx_None dns_resolver_init_def Let_def cache_match_def cache_entry0_def)
  have t: "timeout_ms (miss_state ?r) = 1000" "next_id ?r = 7" by (simp_all add: dns_resolver_init_def miss_state_def Let_def)
  have d: "\<exists>r'. dns_resolve ?tr ?r ''a.bc'' 1 100 ?o () = Some (DNS_NXDOMAIN, ?a, r', ())"
    using n q by (subst resolve_miss) (simp_all add: o t authoritative_def Let_def)
  then obtain r' where r': "dns_resolve ?tr ?r ''a.bc'' 1 100 ?o () = Some (DNS_NXDOMAIN, ?a, r', ())" by blast
  have c: "clamp_ttl DNS_NXDOMAIN ?a = 30" "length ''a.bc'' < DNS_NAME_MAX" "ieq ''a.bc'' ''A.Bc''" "authoritative DNS_NXDOMAIN" by code_simp+
  show ?thesis
    using r' resolve_then_cached [OF resolver_init_inv n c(2) r' c(4) c(3), of 129 "\<lambda>s q n t u. (None, u)" ?o "()"] c(1) by auto
qed

text \<open>From its initialisation on, whatever it is asked and whatever the transport does, the
  resolver has at most twelve servers and exactly 256 cache slots, no two of which answer for the same
  name and type, and every used slot holds an authoritative answer of the right address family with a
  TTL between 30 seconds and an hour.\<close>

theorem resolver_invariant:
  assumes "resolver_reachable transport r"
  shows "resolver_inv r"
  using assms by (rule reachable_inv)

theorem resolver_invariant_witness: "resolver_inv (dns_cache_flush (dns_resolver_init 3 1000 7))"
  by (rule resolver_invariant [of "\<lambda>s q n t u. (None, u)"]) (rule resolver_reachable.flush [OF resolver_reachable.init])

text \<open>\<open>dns_exchange\<close> asks the servers in the same order and returns the first reply that has
  the query's id and question and is neither SERVFAIL nor REFUSED; it gives up only on a malformed
  query or after asking every server. It always ends and keeps the invariant.\<close>

theorem exchange_correct:
  assumes "resolver_inv r"
  shows "\<exists>got r' u' k. dns_exchange (log_transport transport) r query reply_size now (u, []) =
      Some (got, r', (u', take k (server_order r now))) \<and> resolver_inv r' \<and>
    (case got of None \<Rightarrow> question_len query = Some 0 \<or> length query < 12 \<or> k = length (server_order r now)
     | Some reply \<Rightarrow> reply_matches query reply = Some True \<and> dns_reply_rcode reply \<noteq> Some (Some 2) \<and>
         dns_reply_rcode reply \<noteq> Some (Some 5))"
  using exchange_log [OF assms] unfolding usable_reply_def .

theorem exchange_correct_witness:
  "\<exists>got r' k. dns_exchange (log_transport (\<lambda>s q n t u. (Some q, u))) (dns_resolver_init 2 1000 7) [] 1500 0 ((), []) =
     Some (got, r', ((), take k [0, 1])) \<and> resolver_inv r'"
proof -
  have "server_order (dns_resolver_init 2 1000 7) 0 = [0, 1]" by code_simp
  then show ?thesis
    using exchange_correct [OF resolver_init_inv [of 2 1000 7], of "\<lambda>s q n t u. (Some q, u)" "[]" 1500 0 "()"] by auto
qed

text \<open>Three lookups of a name that cannot be asked for - an empty label, a label over 63 bytes -
  never call the transport, and leave every server backed off for a minute: the resolver reports itself
  unhealthy although no server was contacted.\<close>

theorem invalid_name_blames_servers:
  assumes "encode_name name 496 = []"
  shows "\<exists>r1 r2 r3. dns_resolve transport (dns_resolver_init n timeout id_seed) name qtype now out u =
      Some (DNS_ERR_ALL_FAILED, out\<lparr>an_addrs := []\<rparr>, r1, u) \<and>
    dns_resolve transport r1 name qtype now out u = Some (DNS_ERR_ALL_FAILED, out\<lparr>an_addrs := []\<rparr>, r2, u) \<and>
    dns_resolve transport r2 name qtype now out u = Some (DNS_ERR_ALL_FAILED, out\<lparr>an_addrs := []\<rparr>, r3, u) \<and>
    \<not> dns_resolver_healthy r3 (now + 59)"
proof -
  let ?r = "dns_resolver_init n timeout id_seed"
  have e0: "empty_cache ?r" by (simp add: empty_cache_def dns_resolver_init_def Let_def cache_entry0_def list_all_iff)
  have h0: "consecutive_failures (health ?r ! i) = 0" if "i < server_count ?r" for i
    using that by (simp add: dns_resolver_init_def Let_def health0_def split: if_splits)
  note step = resolve_invalid [OF assms, where transport = transport and qtype = qtype and now = now and out = out and u = u]
  from step [OF resolver_init_inv e0] obtain r1 where r1:
    "dns_resolve transport ?r name qtype now out u = Some (DNS_ERR_ALL_FAILED, out\<lparr>an_addrs := []\<rparr>, r1, u)"
    "resolver_inv r1" "empty_cache r1" "server_count r1 = server_count ?r"
    "\<forall>i < server_count ?r. consecutive_failures (health r1 ! i) = 1" using h0 by auto
  from step [OF r1(2,3)] obtain r2 where r2:
    "dns_resolve transport r1 name qtype now out u = Some (DNS_ERR_ALL_FAILED, out\<lparr>an_addrs := []\<rparr>, r2, u)"
    "resolver_inv r2" "empty_cache r2" "server_count r2 = server_count ?r"
    "\<forall>i < server_count ?r. consecutive_failures (health r2 ! i) = 2" using r1 by auto
  from step [OF r2(2,3)] obtain r3 where r3:
    "dns_resolve transport r2 name qtype now out u = Some (DNS_ERR_ALL_FAILED, out\<lparr>an_addrs := []\<rparr>, r3, u)"
    "server_count r3 = server_count ?r" "\<forall>i < server_count ?r. skip_until (health r3 ! i) = now + 60" using r2 by auto
  then have "\<not> dns_resolver_healthy r3 (now + 59)" by (simp add: dns_resolver_healthy_def list_ex_iff)
  then show ?thesis using r1(1) r2(1) r3(1) by blast
qed

theorem invalid_name_blames_servers_witness:
  "\<exists>r1 r2 r3. dns_resolve (\<lambda>s q n t u. (Some q, Suc u)) (dns_resolver_init 2 1000 7) ''a..b'' 1 100 \<lparr>an_addrs = [], an_ttl = 0\<rparr> 0 =
      Some (DNS_ERR_ALL_FAILED, \<lparr>an_addrs = [], an_ttl = 0\<rparr>, r1, 0) \<and>
    dns_resolve (\<lambda>s q n t u. (Some q, Suc u)) r1 ''a..b'' 1 100 \<lparr>an_addrs = [], an_ttl = 0\<rparr> 0 =
      Some (DNS_ERR_ALL_FAILED, \<lparr>an_addrs = [], an_ttl = 0\<rparr>, r2, 0) \<and>
    dns_resolve (\<lambda>s q n t u. (Some q, Suc u)) r2 ''a..b'' 1 100 \<lparr>an_addrs = [], an_ttl = 0\<rparr> 0 =
      Some (DNS_ERR_ALL_FAILED, \<lparr>an_addrs = [], an_ttl = 0\<rparr>, r3, 0) \<and> \<not> dns_resolver_healthy r3 159"
proof -
  have "encode_name ''a..b'' 496 = []" by code_simp
  from invalid_name_blames_servers [OF this, of "\<lambda>s q n t u. (Some q, Suc u)" 2 1000 7 1 100 "\<lparr>an_addrs = [], an_ttl = 0\<rparr>" 0]
  show ?thesis by simp
qed

end
