(* ===== verification/Relay.thy ===== *)
theory Relay
  imports Tls Strategy "HOL-Library.Sublist"
begin

text \<open>
  \<open>src/relay.c\<close>: sending the client's first write upstream, unchanged or cut in one of three ways, and
  copying both directions until both are finished. The system calls are a parameter: a record of
  functions on the state \<open>'u\<close> of the outside world. Every call is also noted in a trace, from which the
  theorems read what was sent and received. An interrupted call is retried as the code does, and a
  relay lasts as long as its peers talk, so these loops are \<open>partial_function\<close>s; that they end is proved
  for peers that send and interrupt only finitely often. The millisecond between two writes is left out.
\<close>

section \<open>Sockets\<close>

datatype send_result = Sent nat | Send_interrupted | Send_error

datatype recv_result = Received bytes | Recv_interrupted | Recv_error

datatype poll_result = Ready bool bool | Poll_timeout | Poll_interrupted | Poll_error

text \<open>\<open>s_poll a b timeout\<close> waits for one of two descriptors, of which -1 is ignored.\<close>

record 'u sockets =
  s_send :: "int \<Rightarrow> bytes \<Rightarrow> 'u \<Rightarrow> send_result \<times> 'u"
  s_recv :: "int \<Rightarrow> nat \<Rightarrow> 'u \<Rightarrow> recv_result \<times> 'u"
  s_poll :: "int \<Rightarrow> int \<Rightarrow> int \<Rightarrow> 'u \<Rightarrow> poll_result \<times> 'u"
  s_shutdown :: "int \<Rightarrow> 'u \<Rightarrow> 'u"
  s_linger :: "int \<Rightarrow> 'u \<Rightarrow> 'u"

datatype net_event = Ev_send int bytes send_result | Ev_recv int recv_result | Ev_poll poll_result
  | Ev_shutdown int | Ev_linger int | Ev_connect int | Ev_close int

type_synonym 'u net = "'u \<times> net_event list"

text \<open>Calls that leave no trace.\<close>

definition on_net :: "('u \<Rightarrow> 'a \<times> 'u) \<Rightarrow> 'u net \<Rightarrow> 'a \<times> 'u net" where
  "on_net f w = (case f (fst w) of (x, u) \<Rightarrow> (x, u, snd w))"

definition do_send :: "'u sockets \<Rightarrow> int \<Rightarrow> bytes \<Rightarrow> 'u net \<Rightarrow> send_result \<times> 'u net" where
  "do_send io fd b w = (case s_send io fd b (fst w) of (r, u) \<Rightarrow> (r, u, snd w @ [Ev_send fd b r]))"

definition do_recv :: "'u sockets \<Rightarrow> int \<Rightarrow> nat \<Rightarrow> 'u net \<Rightarrow> recv_result \<times> 'u net" where
  "do_recv io fd cap w = (case s_recv io fd cap (fst w) of (r, u) \<Rightarrow> (r, u, snd w @ [Ev_recv fd r]))"

definition do_poll :: "'u sockets \<Rightarrow> int \<Rightarrow> int \<Rightarrow> int \<Rightarrow> 'u net \<Rightarrow> poll_result \<times> 'u net" where
  "do_poll io a b timeout w = (case s_poll io a b timeout (fst w) of (r, u) \<Rightarrow> (r, u, snd w @ [Ev_poll r]))"

definition do_shutdown :: "'u sockets \<Rightarrow> int \<Rightarrow> 'u net \<Rightarrow> 'u net" where
  "do_shutdown io fd w = (s_shutdown io fd (fst w), snd w @ [Ev_shutdown fd])"

definition reset_connection :: "'u sockets \<Rightarrow> int \<Rightarrow> 'u net \<Rightarrow> 'u net" where
  "reset_connection io fd w = (s_linger io fd (fst w), snd w @ [Ev_linger fd])"

definition BUFFER_SIZE :: nat where "BUFFER_SIZE = 16384"

section \<open>The first write\<close>

text \<open>\<^const>\<open>True\<close> is the result 0, \<^const>\<open>False\<close> the result -1; \<open>k\<close> is the count of bytes already sent.\<close>

partial_function (option) relay_send_all :: "'u sockets \<Rightarrow> int \<Rightarrow> bytes \<Rightarrow> nat \<Rightarrow> 'u net \<Rightarrow> (bool \<times> 'u net) option" where
  "relay_send_all io fd buffer k w =
     (if k < length buffer then
        (case do_send io fd (drop k buffer) w of
           (Send_interrupted, w) \<Rightarrow> relay_send_all io fd buffer k w
         | (Send_error, w) \<Rightarrow> Some (False, w)
         | (Sent n, w) \<Rightarrow> if n = 0 then Some (False, w) else relay_send_all io fd buffer (k + n) w)
      else Some (True, w))"

datatype relay_split = RELAY_SPLIT_NONE | RELAY_SPLIT_TCP | RELAY_SPLIT_TLS_RECORD | RELAY_SPLIT_TLS_RECORD_TCP

definition RELAY_TLSREC_TCP_CUT :: nat where "RELAY_TLSREC_TCP_CUT = 3"

text \<open>Two writes, the second only after the first succeeded.\<close>

definition send_two :: "'u sockets \<Rightarrow> int \<Rightarrow> bytes \<Rightarrow> bytes \<Rightarrow> 'u net \<Rightarrow> (bool \<times> 'u net) option" where
  "send_two io fd first second w = do {
     (ok, w) \<leftarrow> relay_send_all io fd first 0 w;
     if \<not> ok then Some (False, w) else relay_send_all io fd second 0 w
   }"

definition send_first_tls :: "'u sockets \<Rightarrow> int \<Rightarrow> bytes \<Rightarrow> 'u net \<Rightarrow> (bool \<times> 'u net) option" where
  "send_first_tls io fd buffer w = do {
     split \<leftarrow> tls_find_sni_split buffer;
     if split \<le> 0 \<or> nat split \<ge> length buffer then relay_send_all io fd buffer 0 w
     else send_two io fd (take (nat split) buffer) (drop (nat split) buffer) w
   }"

definition send_first_tls_record :: "'u sockets \<Rightarrow> int \<Rightarrow> bytes \<Rightarrow> 'u net \<Rightarrow> (bool \<times> 'u net) option" where
  "send_first_tls_record io fd buffer w = do {
     at \<leftarrow> tls_record_split_point buffer;
     (out_len, out) \<leftarrow> tls_fragment_first_record buffer at (replicate (BUFFER_SIZE + 5) 0);
     if out_len < 0 then relay_send_all io fd buffer 0 w
     else do {
       first \<leftarrow> sub_buf out 0 (5 + at);
       second \<leftarrow> sub_buf out (5 + at) (nat out_len - (5 + at));
       send_two io fd first second w
     }
   }"

definition send_first_tls_record_tcp :: "'u sockets \<Rightarrow> int \<Rightarrow> bytes \<Rightarrow> 'u net \<Rightarrow> (bool \<times> 'u net) option" where
  "send_first_tls_record_tcp io fd buffer w = do {
     at \<leftarrow> tls_record_split_point buffer;
     (out_len, out) \<leftarrow> tls_fragment_first_record buffer at (replicate (BUFFER_SIZE + 5) 0);
     if out_len \<le> int RELAY_TLSREC_TCP_CUT then relay_send_all io fd buffer 0 w
     else do {
       first \<leftarrow> sub_buf out 0 RELAY_TLSREC_TCP_CUT;
       second \<leftarrow> sub_buf out RELAY_TLSREC_TCP_CUT (nat out_len - RELAY_TLSREC_TCP_CUT);
       send_two io fd first second w
     }
   }"

definition relay_split_for :: "t_strategy \<Rightarrow> relay_split" where
  "relay_split_for s =
     (if s = STRATEGY_TLSREC then RELAY_SPLIT_TLS_RECORD
      else if s = STRATEGY_TLSREC_SPLIT then RELAY_SPLIT_TLS_RECORD_TCP
      else RELAY_SPLIT_NONE)"

definition relay_send_first :: "'u sockets \<Rightarrow> int \<Rightarrow> bytes \<Rightarrow> relay_split \<Rightarrow> 'u net \<Rightarrow> (bool \<times> 'u net) option" where
  "relay_send_first io fd buf split_tls w =
     (if split_tls = RELAY_SPLIT_TLS_RECORD then send_first_tls_record io fd buf w
      else if split_tls = RELAY_SPLIT_TLS_RECORD_TCP then send_first_tls_record_tcp io fd buf w
      else if split_tls = RELAY_SPLIT_TCP then send_first_tls io fd buf w
      else relay_send_all io fd buf 0 w)"

section \<open>The pump\<close>

record relay_stats =
  up_bytes :: u64
  down_bytes :: u64
  client_eof_first :: bool
  upstream_reset :: bool

definition relay_stats0 :: relay_stats where
  "relay_stats0 = \<lparr>up_bytes = 0, down_bytes = 0, client_eof_first = False, upstream_reset = False\<rparr>"

text \<open>The status and the counter; the status is 1 for data moved, 0 at the end of the stream, -1 on a
  read error, -2 on a write error.\<close>

definition forward_once :: "'u sockets \<Rightarrow> int \<Rightarrow> int \<Rightarrow> u64 \<Rightarrow> 'u net \<Rightarrow> (int \<times> u64 \<times> 'u net) option" where
  "forward_once io src dst counter w =
     (case do_recv io src BUFFER_SIZE w of
        (Received bytes, w) \<Rightarrow>
          if bytes = [] then Some (0, counter, w)
          else do {
            (ok, w) \<leftarrow> relay_send_all io dst bytes 0 w;
            if \<not> ok then Some (- 2, counter, w) else Some (1, counter + of_nat (length bytes), w)
          }
      | (Recv_interrupted, w) \<Rightarrow> Some (1, counter, w)
      | (Recv_error, w) \<Rightarrow> Some (- 1, counter, w))"

definition wait_readable :: "'u sockets \<Rightarrow> int \<Rightarrow> int \<Rightarrow> bool \<Rightarrow> bool \<Rightarrow> int \<Rightarrow> 'u net \<Rightarrow> poll_result \<times> 'u net" where
  "wait_readable io client_fd upstream_fd up_open down_open timeout_ms w =
     do_poll io (if up_open then client_fd else - 1) (if down_open then upstream_fd else - 1) timeout_ms w"

record pump_state =
  up_open :: bool
  down_open :: bool
  pstats :: relay_stats

definition pump0 :: pump_state where
  "pump0 = \<lparr>up_open = True, down_open = True, pstats = relay_stats0\<rparr>"

text \<open>A pass of the loop: it goes on, or the function returns.\<close>

datatype 'u pump_next = Pump_again pump_state "'u net" | Pump_return int pump_state "'u net"

definition pump_client :: "'u sockets \<Rightarrow> int \<Rightarrow> int \<Rightarrow> pump_state \<Rightarrow> 'u net \<Rightarrow> 'u pump_next option" where
  "pump_client io client_fd upstream_fd s w = do {
     (status, n, w) \<leftarrow> forward_once io client_fd upstream_fd (up_bytes (pstats s)) w;
     let s = s\<lparr>pstats := (pstats s)\<lparr>up_bytes := n\<rparr>\<rparr>;
     if status = 0 then
       let s = s\<lparr>up_open := False\<rparr>;
           s = (if down_open s then s\<lparr>pstats := (pstats s)\<lparr>client_eof_first := True\<rparr>\<rparr> else s) in
       Some (Pump_again s (do_shutdown io upstream_fd w))
     else if status < 0 then Some (Pump_return 0 s w)
     else Some (Pump_again s w)
   }"

definition pump_upstream :: "'u sockets \<Rightarrow> int \<Rightarrow> int \<Rightarrow> pump_state \<Rightarrow> 'u net \<Rightarrow> 'u pump_next option" where
  "pump_upstream io client_fd upstream_fd s w = do {
     (status, n, w) \<leftarrow> forward_once io upstream_fd client_fd (down_bytes (pstats s)) w;
     let s = s\<lparr>pstats := (pstats s)\<lparr>down_bytes := n\<rparr>\<rparr>;
     if status = 0 then Some (Pump_again (s\<lparr>down_open := False\<rparr>) (do_shutdown io client_fd w))
     else if status = - 1 then
       Some (Pump_return 0 (s\<lparr>pstats := (pstats s)\<lparr>upstream_reset := True\<rparr>\<rparr>) (reset_connection io client_fd w))
     else if status < 0 then Some (Pump_return 0 s w)
     else Some (Pump_again s w)
   }"

definition pump_round :: "'u sockets \<Rightarrow> int \<Rightarrow> int \<Rightarrow> int \<Rightarrow> pump_state \<Rightarrow> 'u net \<Rightarrow> 'u pump_next option" where
  "pump_round io client_fd upstream_fd idle_timeout_ms s w =
     (if \<not> (up_open s \<or> down_open s) then Some (Pump_return 0 s w)
      else case wait_readable io client_fd upstream_fd (up_open s) (down_open s) idle_timeout_ms w of
        (Poll_interrupted, w) \<Rightarrow> Some (Pump_again s w)
      | (Poll_error, w) \<Rightarrow> Some (Pump_return (- 1) s w)
      | (Poll_timeout, w) \<Rightarrow> Some (Pump_return (- 1) s w)
      | (Ready client_ready upstream_ready, w) \<Rightarrow> do {
          r \<leftarrow> (if client_ready then pump_client io client_fd upstream_fd s w else Some (Pump_again s w));
          case r of
            Pump_return c s w \<Rightarrow> Some (Pump_return c s w)
          | Pump_again s w \<Rightarrow> if upstream_ready then pump_upstream io client_fd upstream_fd s w else Some (Pump_again s w)
        })"

partial_function (option) pump_loop ::
    "'u sockets \<Rightarrow> int \<Rightarrow> int \<Rightarrow> int \<Rightarrow> pump_state \<Rightarrow> 'u net \<Rightarrow> (int \<times> relay_stats \<times> 'u net) option" where
  "pump_loop io client_fd upstream_fd idle_timeout_ms s w =
     pump_round io client_fd upstream_fd idle_timeout_ms s w \<bind> (\<lambda>r. case r of
       Pump_return c s w \<Rightarrow> Some (c, pstats s, w)
     | Pump_again s w \<Rightarrow> pump_loop io client_fd upstream_fd idle_timeout_ms s w)"

definition relay_pump_timeout :: "'u sockets \<Rightarrow> int \<Rightarrow> int \<Rightarrow> int \<Rightarrow> 'u net \<Rightarrow> (int \<times> relay_stats \<times> 'u net) option" where
  "relay_pump_timeout io client_fd upstream_fd idle_timeout_ms w =
     pump_loop io client_fd upstream_fd idle_timeout_ms pump0 w"

definition relay_pump :: "'u sockets \<Rightarrow> int \<Rightarrow> int \<Rightarrow> 'u net \<Rightarrow> (int \<times> relay_stats \<times> 'u net) option" where
  "relay_pump io client_fd upstream_fd w = relay_pump_timeout io client_fd upstream_fd (- 1) w"

section \<open>A whole connection\<close>

partial_function (option) wait_retry :: "'u sockets \<Rightarrow> int \<Rightarrow> int \<Rightarrow> 'u net \<Rightarrow> (poll_result \<times> 'u net) option" where
  "wait_retry io client_fd upstream_fd w =
     (case wait_readable io client_fd upstream_fd True True (- 1) w of
        (Poll_interrupted, w) \<Rightarrow> wait_retry io client_fd upstream_fd w
      | (r, w) \<Rightarrow> Some (r, w))"

partial_function (option) recv_retry :: "'u sockets \<Rightarrow> int \<Rightarrow> 'u net \<Rightarrow> (recv_result \<times> 'u net) option" where
  "recv_retry io fd w =
     (case do_recv io fd BUFFER_SIZE w of
        (Recv_interrupted, w) \<Rightarrow> recv_retry io fd w
      | (r, w) \<Rightarrow> Some (r, w))"

text \<open>\<open>relay_connection\<close> looks at \<open>client_ready\<close> only; a wait without a timeout never times out, and the
  code would then read the flags as the wait left them, both zero.\<close>

definition relay_connection :: "'u sockets \<Rightarrow> int \<Rightarrow> int \<Rightarrow> relay_split \<Rightarrow> 'u net \<Rightarrow> (int \<times> 'u net) option" where
  "relay_connection io client_fd upstream_fd split_tls w =
     (let pump = (\<lambda>w. map_option (\<lambda>(c, st, w). (c, w)) (relay_pump io client_fd upstream_fd w)) in
      if split_tls = RELAY_SPLIT_NONE then pump w
      else do {
        (r, w) \<leftarrow> wait_retry io client_fd upstream_fd w;
        case r of
          Poll_error \<Rightarrow> Some (- 1, w)
        | Ready True _ \<Rightarrow> do {
            (b, w) \<leftarrow> recv_retry io client_fd w;
            case b of
              Received bytes \<Rightarrow>
                if bytes = [] then Some (0, w)
                else do {
                  (ok, w) \<leftarrow> relay_send_first io upstream_fd bytes split_tls w;
                  if \<not> ok then Some (- 1, w) else pump w
                }
            | _ \<Rightarrow> Some (0, w)
          }
        | _ \<Rightarrow> pump w
      })"

section \<open>Reading the trace\<close>

fun sent_of :: "int \<Rightarrow> net_event \<Rightarrow> bytes" where
  "sent_of fd (Ev_send f b (Sent n)) = (if f = fd then take n b else [])"
| "sent_of fd _ = []"

fun rcvd_of :: "int \<Rightarrow> net_event \<Rightarrow> bytes" where
  "rcvd_of fd (Ev_recv f (Received b)) = (if f = fd then b else [])"
| "rcvd_of fd _ = []"

text \<open>The bytes a socket took, and the bytes read from it.\<close>

definition sent_on :: "int \<Rightarrow> net_event list \<Rightarrow> bytes" where
  "sent_on fd tr = concat (map (sent_of fd) tr)"

definition rcvd_on :: "int \<Rightarrow> net_event list \<Rightarrow> bytes" where
  "rcvd_on fd tr = concat (map (rcvd_of fd) tr)"

lemma on_simps [simp]:
  "sent_on fd [] = []" "sent_on fd (e # tr) = sent_of fd e @ sent_on fd tr" "sent_on fd (tr @ tr') = sent_on fd tr @ sent_on fd tr'"
  "rcvd_on fd [] = []" "rcvd_on fd (e # tr) = rcvd_of fd e @ rcvd_on fd tr" "rcvd_on fd (tr @ tr') = rcvd_on fd tr @ rcvd_on fd tr'"
  by (simp_all add: sent_on_def rcvd_on_def)

text \<open>A stretch of calls to \<open>send\<close> on one socket, and one that ends with a failed one.\<close>

definition sends_to :: "int \<Rightarrow> net_event list \<Rightarrow> bool" where
  "sends_to fd tr = list_all (\<lambda>e. case e of Ev_send f b r \<Rightarrow> f = fd | _ \<Rightarrow> False) tr"

definition send_failed :: "net_event list \<Rightarrow> bool" where
  "send_failed tr = (tr \<noteq> [] \<and> (case last tr of Ev_send f b r \<Rightarrow> r = Send_error \<or> r = Sent 0 | _ \<Rightarrow> False))"

lemma sends_to_simps [simp]:
  "sends_to fd []" "sends_to fd (tr @ tr') \<longleftrightarrow> sends_to fd tr \<and> sends_to fd tr'"
  "sends_to fd (Ev_send f b r # tr) \<longleftrightarrow> f = fd \<and> sends_to fd tr"
  by (simp_all add: sends_to_def)

text \<open>No connection is opened or closed.\<close>

definition no_conn :: "net_event list \<Rightarrow> bool" where
  "no_conn tr = list_all (\<lambda>e. case e of Ev_connect fd \<Rightarrow> False | Ev_close fd \<Rightarrow> False | _ \<Rightarrow> True) tr"

lemma no_conn_simps [simp]:
  "no_conn []" "no_conn (tr @ tr') \<longleftrightarrow> no_conn tr \<and> no_conn tr'" "no_conn (Ev_send fd b s # tr) = no_conn tr"
  "no_conn (Ev_recv fd r # tr) = no_conn tr" "no_conn (Ev_poll p # tr) = no_conn tr" "no_conn (Ev_shutdown fd # tr) = no_conn tr"
  "no_conn (Ev_linger fd # tr) = no_conn tr" "\<not> no_conn (Ev_connect fd # tr)" "\<not> no_conn (Ev_close fd # tr)"
  by (simp_all add: no_conn_def)

lemma sends_to_no_conn [simp]: "sends_to fd tr \<Longrightarrow> no_conn tr"
  by (induction tr) (auto simp: sends_to_def no_conn_def split: net_event.splits)

lemma sends_to_other:
  assumes "sends_to fd tr"
  shows "fd' \<noteq> fd \<Longrightarrow> sent_on fd' tr = []" and "rcvd_on fd' tr = []"
    and "Ev_recv f r \<notin> set tr" "Ev_shutdown f \<notin> set tr" "Ev_linger f \<notin> set tr"
proof -
  have *: "fd' \<noteq> fd \<Longrightarrow> sent_of fd' (Ev_send fd b s) = []" for b s by (cases s) auto
  show "fd' \<noteq> fd \<Longrightarrow> sent_on fd' tr = []" and "rcvd_on fd' tr = []"
    and "Ev_recv f r \<notin> set tr" "Ev_shutdown f \<notin> set tr" "Ev_linger f \<notin> set tr"
    using assms by (induction tr) (auto simp: sends_to_def * split: net_event.splits)
qed

fun opened_of :: "net_event \<Rightarrow> int list" where
  "opened_of (Ev_connect fd) = (if fd < 0 then [] else [fd])"
| "opened_of _ = []"

fun closed_of :: "net_event \<Rightarrow> int list" where
  "closed_of (Ev_close fd) = [fd]"
| "closed_of _ = []"

text \<open>The descriptors that were opened and closed, in order.\<close>

definition opened :: "net_event list \<Rightarrow> int list" where
  "opened tr = concat (map opened_of tr)"

definition closed :: "net_event list \<Rightarrow> int list" where
  "closed tr = concat (map closed_of tr)"

lemma opened_simps [simp]: "opened [] = []" "opened (e # tr) = opened_of e @ opened tr" "opened (tr @ tr') = opened tr @ opened tr'"
  by (simp_all add: opened_def)

lemma closed_simps [simp]: "closed [] = []" "closed (e # tr) = closed_of e @ closed tr" "closed (tr @ tr') = closed tr @ closed tr'"
  by (simp_all add: closed_def)

lemma no_conn_opened [simp]: "no_conn tr \<Longrightarrow> opened tr = []" "no_conn tr \<Longrightarrow> closed tr = []"
  by (induction tr) (auto simp: no_conn_def split: net_event.splits)

text \<open>Reading only receives, on one descriptor.\<close>

definition reads :: "int \<Rightarrow> net_event list \<Rightarrow> bool" where
  "reads fd tr = list_all (\<lambda>e. case e of Ev_recv f r \<Rightarrow> f = fd | _ \<Rightarrow> False) tr"

lemma reads_on: "reads fd tr \<Longrightarrow> sent_on f tr = []" "reads fd tr \<Longrightarrow> no_conn tr"
  by (induction tr) (auto simp: reads_def no_conn_def split: net_event.splits)

text \<open>Talk on one descriptor.\<close>

definition on_fd :: "int \<Rightarrow> net_event list \<Rightarrow> bool" where
  "on_fd fd tr = list_all (\<lambda>e. case e of Ev_send f b r \<Rightarrow> f = fd | Ev_recv f r \<Rightarrow> f = fd | _ \<Rightarrow> False) tr"

lemma on_fd_simps [simp]:
  "on_fd fd []" "on_fd fd (tr @ tr') \<longleftrightarrow> on_fd fd tr \<and> on_fd fd tr'" "on_fd fd (Ev_send f b r # tr) \<longleftrightarrow> f = fd \<and> on_fd fd tr"
  by (simp_all add: on_fd_def)

lemma on_fd_no_conn [simp]: "on_fd fd tr \<Longrightarrow> no_conn tr"
  by (induction tr) (auto simp: on_fd_def no_conn_def split: net_event.splits)

lemma reads_on_fd [simp]: "reads fd tr \<Longrightarrow> on_fd fd tr"
  by (induction tr) (auto simp: reads_def on_fd_def split: net_event.splits)

section \<open>What is relied on\<close>

text \<open>The documented behaviour of the calls: \<open>send\<close> takes a prefix of what it is given, \<open>recv\<close> gives at
  most what it is asked for, \<open>poll\<close> reports a descriptor it was given, and only reports when there is
  one. The measure \<open>work\<close> bounds how often the world still interrupts a call or delivers bytes.\<close>

definition send_ok :: "'u sockets \<Rightarrow> ('u \<Rightarrow> nat) \<Rightarrow> bool" where
  "send_ok io work \<longleftrightarrow> (\<forall>fd b u. case s_send io fd b u of
     (Sent n, u') \<Rightarrow> n \<le> length b \<and> work u' \<le> work u
   | (Send_interrupted, u') \<Rightarrow> work u' < work u
   | (Send_error, u') \<Rightarrow> work u' \<le> work u)"

definition recv_ok :: "'u sockets \<Rightarrow> ('u \<Rightarrow> nat) \<Rightarrow> bool" where
  "recv_ok io work \<longleftrightarrow> (\<forall>fd cap u. case s_recv io fd cap u of
     (Received b, u') \<Rightarrow> length b \<le> cap \<and> (if b = [] then work u' \<le> work u else work u' < work u)
   | (Recv_interrupted, u') \<Rightarrow> work u' < work u
   | (Recv_error, u') \<Rightarrow> work u' \<le> work u)"

definition poll_ok :: "'u sockets \<Rightarrow> ('u \<Rightarrow> nat) \<Rightarrow> bool" where
  "poll_ok io work \<longleftrightarrow> (\<forall>a b t u. case s_poll io a b t u of
     (Ready c d, u') \<Rightarrow> (c \<or> d) \<and> (c \<longrightarrow> a \<noteq> - 1) \<and> (d \<longrightarrow> b \<noteq> - 1) \<and> work u' \<le> work u
   | (Poll_interrupted, u') \<Rightarrow> work u' < work u
   | (_, u') \<Rightarrow> work u' \<le> work u)"

definition sockets_ok :: "'u sockets \<Rightarrow> ('u \<Rightarrow> nat) \<Rightarrow> bool" where
  "sockets_ok io work \<longleftrightarrow> send_ok io work \<and> recv_ok io work \<and> poll_ok io work \<and>
     (\<forall>fd u. work (s_shutdown io fd u) \<le> work u) \<and> (\<forall>fd u. work (s_linger io fd u) \<le> work u)"

lemma send_law: "send_ok io work \<Longrightarrow> s_send io fd b u = (r, u') \<Longrightarrow>
    (case r of Sent n \<Rightarrow> n \<le> length b \<and> work u' \<le> work u | Send_interrupted \<Rightarrow> work u' < work u | Send_error \<Rightarrow> work u' \<le> work u)"
  unfolding send_ok_def by (metis (mono_tags, lifting) case_prod_conv)

lemma recv_law: "recv_ok io work \<Longrightarrow> s_recv io fd cap u = (r, u') \<Longrightarrow>
    (case r of Received b \<Rightarrow> length b \<le> cap \<and> (if b = [] then work u' \<le> work u else work u' < work u)
     | Recv_interrupted \<Rightarrow> work u' < work u | Recv_error \<Rightarrow> work u' \<le> work u)"
  unfolding recv_ok_def by (metis (mono_tags, lifting) case_prod_conv)

lemma poll_law: "poll_ok io work \<Longrightarrow> s_poll io a b t u = (r, u') \<Longrightarrow>
    (case r of Ready c d \<Rightarrow> (c \<or> d) \<and> (c \<longrightarrow> a \<noteq> - 1) \<and> (d \<longrightarrow> b \<noteq> - 1) \<and> work u' \<le> work u
     | Poll_interrupted \<Rightarrow> work u' < work u | _ \<Rightarrow> work u' \<le> work u)"
  unfolding poll_ok_def by (metis (mono_tags, lifting) case_prod_conv)

section \<open>Sending a buffer\<close>

text \<open>What a series of writes of \<open>b\<close> does: it returns, sends all of \<open>b\<close> or a prefix of it, nothing else.\<close>

definition sends :: "('u \<Rightarrow> nat) \<Rightarrow> int \<Rightarrow> bytes \<Rightarrow> 'u net \<Rightarrow> (bool \<times> 'u net) option \<Rightarrow> bool" where
  "sends work fd b w res \<longleftrightarrow> (\<exists>ok u' evs m. res = Some (ok, u', snd w @ evs) \<and> sends_to fd evs \<and>
     sent_on fd evs = take m b \<and> (if ok then m = length b else send_failed evs) \<and> work u' \<le> work (fst w))"

lemma sendsI:
  "res = Some (ok, u', snd w @ evs) \<Longrightarrow> sends_to fd evs \<Longrightarrow> sent_on fd evs = take m b \<Longrightarrow>
   (if ok then m = length b else send_failed evs) \<Longrightarrow> work u' \<le> work (fst w) \<Longrightarrow> sends work fd b w res"
  unfolding sends_def by blast

lemma relay_send_all_rest:
  assumes io: "send_ok io work"
  shows "sends work fd (drop k b) w (relay_send_all io fd b k w)"
proof (induction "length b - k + work (fst w)" arbitrary: k w rule: less_induct)
  case less
  show ?case
  proof (cases "k < length b")
    case False
    then show ?thesis
      by (intro sendsI [where ok = True and u' = "fst w" and evs = "[]" and m = 0]) (simp_all add: relay_send_all.simps)
  next
    case True
    obtain r u where s: "s_send io fd (drop k b) (fst w) = (r, u)" by fastforce
    note law = send_law [OF io s]
    let ?e = "Ev_send fd (drop k b) r"
    have step: "do_send io fd (drop k b) w = (r, u, snd w @ [?e])" by (simp add: do_send_def s)
    have more: "sends work fd (drop k b) w res" if IH: "sends work fd (drop (k + n) b) (u, snd w @ [?e]) res"
      and n: "sent_of fd ?e = take n (drop k b)" "n \<le> length b - k" "work u \<le> work (fst w)" for n res
    proof -
      from IH obtain ok u' evs m where *: "res = Some (ok, u', snd w @ [?e] @ evs)" "sends_to fd evs"
        "sent_on fd evs = take m (drop (k + n) b)" "if ok then m = length (drop (k + n) b) else send_failed evs" "work u' \<le> work u"
        by (auto simp: sends_def)
      have "sent_on fd (?e # evs) = take (n + m) (drop k b)"
        using *(3) n(1) by (simp add: take_add add.commute [of k n])
      then show ?thesis
        by (rule sendsI [where ok = ok and u' = u' and evs = "?e # evs" and m = "n + m", rotated 2])
          (use * n in \<open>auto simp: send_failed_def split: if_splits\<close>)
    qed
    show ?thesis
    proof (cases r)
      case (Sent n)
      show ?thesis
      proof (cases "n = 0")
        case True
        then show ?thesis using \<open>k < length b\<close> Sent step law
          by (intro sendsI [where ok = False and u' = u and evs = "[?e]" and m = 0])
            (simp_all add: relay_send_all.simps [of io fd b k] send_failed_def)
      next
        case False
        have "sends work fd (drop (k + n) b) (u, snd w @ [?e]) (relay_send_all io fd b (k + n) (u, snd w @ [?e]))"
          using False \<open>k < length b\<close> law Sent by (intro less) auto
        from more [OF this] show ?thesis using \<open>k < length b\<close> Sent step law False
          by (subst relay_send_all.simps) simp
      qed
    next
      case Send_interrupted
      have "sends work fd (drop (k + 0) b) (u, snd w @ [?e]) (relay_send_all io fd b k (u, snd w @ [?e]))"
        using \<open>k < length b\<close> law Send_interrupted by (simp, intro less) auto
      from more [OF this] show ?thesis using \<open>k < length b\<close> Send_interrupted step law
        by (subst relay_send_all.simps) simp
    next
      case Send_error
      then show ?thesis using \<open>k < length b\<close> step law
        by (intro sendsI [where ok = False and u' = u and evs = "[?e]" and m = 0])
          (simp_all add: relay_send_all.simps [of io fd b k] send_failed_def)
    qed
  qed
qed

lemma relay_send_all_sends: "send_ok io work \<Longrightarrow> sends work fd b w (relay_send_all io fd b 0 w)"
  using relay_send_all_rest [of io work fd 0 b w] by simp

lemma send_two_sends:
  assumes io: "send_ok io work"
  shows "sends work fd (a @ b) w (send_two io fd a b w)"
proof -
  from relay_send_all_sends [OF io, of fd a w] obtain ok u evs m where
    1: "relay_send_all io fd a 0 w = Some (ok, u, snd w @ evs)" "sends_to fd evs" "sent_on fd evs = take m a"
      "if ok then m = length a else send_failed evs" "work u \<le> work (fst w)" by (auto simp: sends_def)
  show ?thesis
  proof (cases ok)
    case False
    then show ?thesis using 1
      by (intro sendsI [where ok = False and u' = u and evs = evs and m = "min m (length a)"])
        (auto simp: send_two_def min_def)
  next
    case True
    from relay_send_all_sends [OF io, of fd b "(u, snd w @ evs)"] obtain ok' u' evs' m' where
      2: "relay_send_all io fd b 0 (u, snd w @ evs) = Some (ok', u', snd w @ evs @ evs')" "sends_to fd evs'"
        "sent_on fd evs' = take m' b" "if ok' then m' = length b else send_failed evs'" "work u' \<le> work u" by (auto simp: sends_def)
    then show ?thesis using 1 True
      by (intro sendsI [where ok = ok' and u' = u' and evs = "evs @ evs'" and m = "length a + m'"])
        (auto simp: send_two_def send_failed_def split: if_splits)
  qed
qed

section \<open>The first write\<close>

text \<open>What the server must read as the client's first write: those bytes, or two records that it
  gathers back into them.\<close>

definition first_write :: "bytes \<Rightarrow> relay_split \<Rightarrow> bytes" where
  "first_write buf split = (case tls_record_split_point buf of None \<Rightarrow> buf | Some at \<Rightarrow>
     if split \<in> {RELAY_SPLIT_TLS_RECORD, RELAY_SPLIT_TLS_RECORD_TCP} \<and> frag_args_ok buf at (replicate (BUFFER_SIZE + 5) 0)
     then frag_bytes buf (unat (be16 (buf ! 3) (buf ! 4))) at else buf)"

lemma send_first_tls_sends:
  assumes io: "send_ok io work"
  shows "sends work fd b w (send_first_tls io fd b w)"
proof -
  obtain k where k: "tls_find_sni_split b = Some k" using tls_find_sni_split_total [of b] by auto
  show ?thesis
    using relay_send_all_sends [OF io, of fd b w] send_two_sends [OF io, of fd "take (nat k) b" "drop (nat k) b" w]
    by (simp add: send_first_tls_def k)
qed

lemma record_writes:
  assumes io: "send_ok io work" and at: "tls_record_split_point b = Some at"
    and s: "s \<in> {RELAY_SPLIT_TLS_RECORD, RELAY_SPLIT_TLS_RECORD_TCP}"
  shows "sends work fd (first_write b s) w (send_first_tls_record io fd b w)"
    and "sends work fd (first_write b s) w (send_first_tls_record_tcp io fd b w)"
proof -
  let ?o = "replicate (BUFFER_SIZE + 5) 0 :: bytes" and ?rl = "unat (be16 (b ! 3) (b ! 4))"
  show "sends work fd (first_write b s) w (send_first_tls_record io fd b w)"
    and "sends work fd (first_write b s) w (send_first_tls_record_tcp io fd b w)"
  proof (atomize (full), cases "frag_args_ok b at ?o")
    case False
    then show "sends work fd (first_write b s) w (send_first_tls_record io fd b w) \<and>
        sends work fd (first_write b s) w (send_first_tls_record_tcp io fd b w)"
      using relay_send_all_sends [OF io, of fd b w] s at
      by (simp add: first_write_def send_first_tls_record_def send_first_tls_record_tcp_def tls_fragment_first_record_bad)
  next
    case True
    obtain out where f: "tls_fragment_first_record b at ?o = Some (int (length b + 5), out)" "length out = length ?o"
      "take (length b + 5) out = frag_bytes b ?rl at" using tls_fragment_first_record_ok [OF True] by blast
    have len: "6 \<le> length b" "at < length b - 5" "length b + 5 \<le> length out" using True f(2) by (auto simp: frag_args_ok_def)
    have cut: "take k out @ take (length b + 5 - k) (drop k out) = first_write b s" if "k \<le> length b + 5" for k
      using f(3) s at True take_add [of k "length b + 5 - k" out] that by (auto simp: first_write_def)
    have two: "sends work fd (first_write b s) w
        (send_two io fd (take k out) (take (length b + 5 - k) (drop k out)) w)" if "k \<le> length b + 5" for k
      using send_two_sends [OF io, of fd "take k out" "take (length b + 5 - k) (drop k out)" w] cut [OF that] by simp
    have n: "nat (int (length b) + 5) = length b + 5" "5 + at \<le> length out" "at \<le> length b" using len by simp_all
    show "sends work fd (first_write b s) w (send_first_tls_record io fd b w) \<and>
        sends work fd (first_write b s) w (send_first_tls_record_tcp io fd b w)"
      using two [of "5 + at"] two [of RELAY_TLSREC_TCP_CUT] at f(1) len
      by (simp add: send_first_tls_record_def send_first_tls_record_tcp_def sub_buf_def RELAY_TLSREC_TCP_CUT_def n)
  qed
qed

lemma relay_send_first_sends:
  assumes io: "send_ok io work"
  shows "sends work fd (first_write b s) w (relay_send_first io fd b s w)"
proof -
  have "tls_record_split_point b \<noteq> None"
    using tls_find_sni_split_total [of b] by (auto simp: tls_record_split_point_def)
  then obtain at where at: "tls_record_split_point b = Some at" by blast
  note r = record_writes [OF io at, where fd = fd and w = w]
  show ?thesis
    using r [where s = RELAY_SPLIT_TLS_RECORD] r [where s = RELAY_SPLIT_TLS_RECORD_TCP] send_first_tls_sends [OF io, of fd b w]
      relay_send_all_sends [OF io, of fd b w]
    by (cases s) (simp_all add: relay_send_first_def first_write_def at)
qed

text \<open>A first write that is one handshake record, complete or still arriving.\<close>

definition one_record :: "bytes \<Rightarrow> bool" where
  "one_record b = (let rl = unat (be16 (b ! 3) (b ! 4)) in
     rl \<le> 16384 \<and> (length b < 5 + rl + 5 \<or> b ! (5 + rl) \<noteq> 0x16))"

lemma first_write_gathers:
  assumes one: "one_record b" and ne: "first_write b s \<noteq> b" and room: "length b + 5 \<le> length out"
  shows "\<exists>out'. tls_coalesce_handshake_records (first_write b s) out = Some (int (length b), out') \<and> take (length b) out' = b"
proof -
  let ?o = "replicate (BUFFER_SIZE + 5) 0 :: bytes" and ?rl = "unat (be16 (b ! 3) (b ! 4))"
  obtain at where f: "first_write b s = frag_bytes b ?rl at" and ok: "frag_args_ok b at ?o"
    using ne by (auto simp: first_write_def split: option.splits if_splits)
  have a: "6 \<le> length b" "b ! 0 = 0x16" "1 \<le> at" "at < ?rl" "at < length b - 5" using ok by (simp_all add: frag_args_ok_def)
  have "length (drop (5 + ?rl) b) < 5 \<or> drop (5 + ?rl) b ! 0 \<noteq> 0x16"
    using one by (auto simp: one_record_def Let_def)
  then show ?thesis
    using coalesce_frag_bytes [OF a refl _ _ room] one unfolding f by (auto simp: one_record_def Let_def)
qed

section \<open>The pump\<close>

abbreviation eof_on :: "int \<Rightarrow> net_event" where
  "eof_on fd \<equiv> Ev_recv fd (Received [])"

text \<open>The first end of stream in the trace is the client's.\<close>

fun eof_first :: "int \<Rightarrow> int \<Rightarrow> net_event list \<Rightarrow> bool" where
  "eof_first c up [] = False"
| "eof_first c up (e # tr) = (if e = eof_on c then True else if e = eof_on up then False else eof_first c up tr)"

lemma eof_first_append [simp]:
  "eof_first c up (xs @ ys) = (if eof_on c \<in> set xs \<or> eof_on up \<in> set xs then eof_first c up xs else eof_first c up ys)"
  by (induction xs) auto

lemma eof_first_sends [simp]: "sends_to fd tr \<Longrightarrow> \<not> eof_first c up tr"
  by (induction tr) (auto simp: sends_to_def split: net_event.splits)

lemma eof_first_none [simp]: "eof_on c \<notin> set tr \<Longrightarrow> \<not> eof_first c up tr"
  by (induction tr) auto

text \<open>Between two passes everything read was forwarded and counted, and every end of stream was passed on.\<close>

definition pump_inv :: "int \<Rightarrow> int \<Rightarrow> pump_state \<Rightarrow> net_event list \<Rightarrow> bool" where
  "pump_inv c up s tr \<longleftrightarrow> no_conn tr \<and>
     sent_on up tr = rcvd_on c tr \<and> sent_on c tr = rcvd_on up tr \<and>
     up_bytes (pstats s) = of_nat (length (rcvd_on c tr)) \<and> down_bytes (pstats s) = of_nat (length (rcvd_on up tr)) \<and>
     (up_open s \<longleftrightarrow> eof_on c \<notin> set tr) \<and> (down_open s \<longleftrightarrow> eof_on up \<notin> set tr) \<and>
     (Ev_shutdown up \<in> set tr \<longleftrightarrow> eof_on c \<in> set tr) \<and> (Ev_shutdown c \<in> set tr \<longleftrightarrow> eof_on up \<in> set tr) \<and>
     (client_eof_first (pstats s) \<longleftrightarrow> eof_first c up tr) \<and>
     \<not> upstream_reset (pstats s) \<and> Ev_linger c \<notin> set tr \<and> Ev_recv up Recv_error \<notin> set tr"

text \<open>What holds when the pump returns.\<close>

definition pump_done :: "int \<Rightarrow> int \<Rightarrow> int \<Rightarrow> relay_stats \<Rightarrow> net_event list \<Rightarrow> bool" where
  "pump_done c up code st tr \<longleftrightarrow> (code = 0 \<or> code = - 1) \<and> no_conn tr \<and>
     prefix (sent_on up tr) (rcvd_on c tr) \<and> prefix (sent_on c tr) (rcvd_on up tr) \<and>
     (if send_failed tr then code = 0
      else sent_on up tr = rcvd_on c tr \<and> sent_on c tr = rcvd_on up tr \<and>
        up_bytes st = of_nat (length (rcvd_on c tr)) \<and> down_bytes st = of_nat (length (rcvd_on up tr)) \<and>
        (code = 0 \<longrightarrow> Ev_recv c Recv_error \<in> set tr \<or> Ev_recv up Recv_error \<in> set tr \<or> eof_on c \<in> set tr \<and> eof_on up \<in> set tr)) \<and>
     (Ev_shutdown up \<in> set tr \<longleftrightarrow> eof_on c \<in> set tr) \<and> (Ev_shutdown c \<in> set tr \<longleftrightarrow> eof_on up \<in> set tr) \<and>
     (client_eof_first st \<longleftrightarrow> eof_first c up tr) \<and>
     (upstream_reset st \<longleftrightarrow> Ev_recv up Recv_error \<in> set tr) \<and> (upstream_reset st \<longleftrightarrow> Ev_linger c \<in> set tr)"

lemma forward_once_cases:
  assumes io: "send_ok io work" "recv_ok io work"
  obtains (eof) u' where "forward_once io src dst n w = Some (0, n, u', snd w @ [eof_on src])" "work u' \<le> work (fst w)"
  | (moved) b u' evs where "forward_once io src dst n w = Some (1, n + of_nat (length b), u', snd w @ Ev_recv src (Received b) # evs)"
      "b \<noteq> []" "sends_to dst evs" "sent_on dst evs = b" "work u' < work (fst w)"
  | (interrupted) u' where "forward_once io src dst n w = Some (1, n, u', snd w @ [Ev_recv src Recv_interrupted])" "work u' < work (fst w)"
  | (failed) u' where "forward_once io src dst n w = Some (- 1, n, u', snd w @ [Ev_recv src Recv_error])" "work u' \<le> work (fst w)"
  | (unsent) b u' evs m where "forward_once io src dst n w = Some (- 2, n, u', snd w @ Ev_recv src (Received b) # evs)"
      "b \<noteq> []" "sends_to dst evs" "sent_on dst evs = take m b" "send_failed evs"
proof -
  obtain r u where r: "s_recv io src BUFFER_SIZE (fst w) = (r, u)" by fastforce
  note law = recv_law [OF io(2) r]
  have step: "do_recv io src BUFFER_SIZE w = (r, u, snd w @ [Ev_recv src r])" by (simp add: do_recv_def r)
  show ?thesis
  proof (cases r)
    case (Received b)
    show ?thesis
    proof (cases "b = []")
      case True
      then show ?thesis using eof [of u] Received step law by (simp add: forward_once_def)
    next
      case False
      from relay_send_all_sends [OF io(1), of dst b "(u, snd w @ [Ev_recv src r])"]
      obtain ok u' evs m where 1: "relay_send_all io dst b 0 (u, snd w @ [Ev_recv src r]) = Some (ok, u', snd w @ Ev_recv src r # evs)"
        "sends_to dst evs" "sent_on dst evs = take m b" "if ok then m = length b else send_failed evs" "work u' \<le> work u"
        by (auto simp: sends_def)
      show ?thesis
        using moved [where b = b and u' = u' and evs = evs] unsent [where b = b and u' = u' and evs = evs and m = m] 1 False Received step law
        by (cases ok) (simp_all add: forward_once_def)
    qed
  qed (use interrupted [of u] failed [of u] step law in \<open>simp_all add: forward_once_def\<close>)
qed

definition pump_size :: "('u \<Rightarrow> nat) \<Rightarrow> pump_state \<Rightarrow> 'u \<Rightarrow> nat" where
  "pump_size work s u = work u + (if up_open s then 1 else 0) + (if down_open s then 1 else 0)"

text \<open>What a half of a pass does, starting from a trace \<open>tr @ evs\<close> of which the pump made \<open>evs\<close>.\<close>

definition pump_half :: "('u \<Rightarrow> nat) \<Rightarrow> int \<Rightarrow> int \<Rightarrow> net_event list \<Rightarrow> pump_state \<Rightarrow> 'u \<Rightarrow> 'u pump_next option \<Rightarrow> bool" where
  "pump_half work c up tr s u res \<longleftrightarrow>
     (\<exists>s' u' evs. res = Some (Pump_again s' (u', tr @ evs)) \<and> pump_inv c up s' evs \<and> pump_size work s' u' < pump_size work s u) \<or>
     (\<exists>code s' u' evs. res = Some (Pump_return code s' (u', tr @ evs)) \<and> pump_done c up code (pstats s') evs)"

lemma send_failed_append: "send_failed evs \<Longrightarrow> send_failed (tr @ evs)"
  by (auto simp: send_failed_def)

lemma not_send_failed: "\<not> send_failed (tr @ [Ev_recv f r])" "\<not> send_failed (tr @ [Ev_linger f])" "\<not> send_failed (tr @ [Ev_poll p])"
  by (simp_all add: send_failed_def)

lemma pump_client_half:
  assumes io: "send_ok io work" "recv_ok io work" "\<And>fd u. work (s_shutdown io fd u) \<le> work u"
    and ne: "c \<noteq> up" and inv: "pump_inv c up s evs" and up: "up_open s"
  shows "pump_half work c up tr s u (pump_client io c up s (u, tr @ evs))"
  using io(1,2)
proof (cases rule: forward_once_cases [where src = c and dst = up and n = "up_bytes (pstats s)" and w = "(u, tr @ evs)"])
  case (eof u')
  let ?s = "if down_open s then s\<lparr>up_open := False, pstats := (pstats s)\<lparr>client_eof_first := True\<rparr>\<rparr> else s\<lparr>up_open := False\<rparr>"
  have "pump_client io c up s (u, tr @ evs) = Some (Pump_again ?s (do_shutdown io up (u', tr @ evs @ [eof_on c])))"
    using eof(1) inv up by (cases "down_open s") (simp_all add: pump_client_def Let_def)
  then show ?thesis
    using inv up ne eof io(3) [of up u'] unfolding pump_half_def
    by (intro disjI1 exI [of _ ?s] exI [of _ "s_shutdown io up u'"] exI [of _ "evs @ [eof_on c, Ev_shutdown up]"])
      (auto simp: do_shutdown_def pump_inv_def pump_size_def)
next
  case (moved b u' evs1)
  let ?s = "s\<lparr>pstats := (pstats s)\<lparr>up_bytes := up_bytes (pstats s) + of_nat (length b)\<rparr>\<rparr>"
  note o = sends_to_other [OF moved(3)]
  show ?thesis
    using inv ne moved o unfolding pump_half_def
    by (intro disjI1 exI [of _ ?s] exI [of _ u'] exI [of _ "evs @ Ev_recv c (Received b) # evs1"])
      (auto simp: pump_client_def pump_inv_def pump_size_def)
next
  case (interrupted u')
  show ?thesis
    using inv ne interrupted unfolding pump_half_def
    by (intro disjI1 exI [of _ s] exI [of _ u'] exI [of _ "evs @ [Ev_recv c Recv_interrupted]"])
      (auto simp: pump_client_def pump_inv_def pump_size_def)
next
  case (failed u')
  show ?thesis
    using inv ne failed unfolding pump_half_def
    by (intro disjI2 exI [of _ 0] exI [of _ s] exI [of _ u'] exI [of _ "evs @ [Ev_recv c Recv_error]"])
      (auto simp: pump_client_def pump_inv_def pump_done_def not_send_failed)
next
  case (unsent b u' evs1 m)
  note o = sends_to_other [OF unsent(3)]
  have "send_failed (evs @ Ev_recv c (Received b) # evs1)" using send_failed_append [OF unsent(5), of "evs @ [Ev_recv c (Received b)]"] by simp
  then show ?thesis
    using inv ne unsent o unfolding pump_half_def
    by (intro disjI2 exI [of _ 0] exI [of _ s] exI [of _ u'] exI [of _ "evs @ Ev_recv c (Received b) # evs1"])
      (auto simp: pump_client_def pump_inv_def pump_done_def take_is_prefix)
qed

lemma pump_upstream_half:
  assumes io: "send_ok io work" "recv_ok io work" "\<And>fd u. work (s_shutdown io fd u) \<le> work u"
    and ne: "c \<noteq> up" and inv: "pump_inv c up s evs" and down: "down_open s"
  shows "pump_half work c up tr s u (pump_upstream io c up s (u, tr @ evs))"
  using io(1,2)
proof (cases rule: forward_once_cases [where src = up and dst = c and n = "down_bytes (pstats s)" and w = "(u, tr @ evs)"])
  case (eof u')
  show ?thesis
    using inv down ne eof io(3) [of c u'] unfolding pump_half_def
    by (intro disjI1 exI [of _ "s\<lparr>down_open := False\<rparr>"] exI [of _ "s_shutdown io c u'"] exI [of _ "evs @ [eof_on up, Ev_shutdown c]"])
      (auto simp: pump_upstream_def do_shutdown_def pump_inv_def pump_size_def)
next
  case (moved b u' evs1)
  let ?s = "s\<lparr>pstats := (pstats s)\<lparr>down_bytes := down_bytes (pstats s) + of_nat (length b)\<rparr>\<rparr>"
  note o = sends_to_other [OF moved(3)]
  show ?thesis
    using inv ne moved o unfolding pump_half_def
    by (intro disjI1 exI [of _ ?s] exI [of _ u'] exI [of _ "evs @ Ev_recv up (Received b) # evs1"])
      (auto simp: pump_upstream_def pump_inv_def pump_size_def)
next
  case (interrupted u')
  show ?thesis
    using inv ne interrupted unfolding pump_half_def
    by (intro disjI1 exI [of _ s] exI [of _ u'] exI [of _ "evs @ [Ev_recv up Recv_interrupted]"])
      (auto simp: pump_upstream_def pump_inv_def pump_size_def)
next
  case (failed u')
  let ?s = "s\<lparr>pstats := (pstats s)\<lparr>upstream_reset := True\<rparr>\<rparr>"
  have "\<not> send_failed (evs @ [Ev_recv up Recv_error, Ev_linger c])" using not_send_failed(2) [of "evs @ [Ev_recv up Recv_error]"] by simp
  then show ?thesis
    using inv ne failed unfolding pump_half_def
    by (intro disjI2 exI [of _ 0] exI [of _ ?s] exI [of _ "s_linger io c u'"] exI [of _ "evs @ [Ev_recv up Recv_error, Ev_linger c]"])
      (auto simp: pump_upstream_def reset_connection_def pump_inv_def pump_done_def)
next
  case (unsent b u' evs1 m)
  note o = sends_to_other [OF unsent(3)]
  have "send_failed (evs @ Ev_recv up (Received b) # evs1)" using send_failed_append [OF unsent(5), of "evs @ [Ev_recv up (Received b)]"] by simp
  then show ?thesis
    using inv ne unsent o unfolding pump_half_def
    by (intro disjI2 exI [of _ 0] exI [of _ s] exI [of _ u'] exI [of _ "evs @ Ev_recv up (Received b) # evs1"])
      (auto simp: pump_upstream_def pump_inv_def pump_done_def take_is_prefix)
qed

lemma pump_inv_poll: "pump_inv c up s evs \<Longrightarrow> pump_inv c up s (evs @ [Ev_poll r])"
  by (auto simp: pump_inv_def)

lemma pump_half_trans:
  assumes "pump_size work s' u' \<le> pump_size work s u" "pump_half work c up tr s' u' res"
  shows "pump_half work c up tr s u res"
  using assms unfolding pump_half_def by (elim disjE exE conjE) (auto dest: order.strict_trans2)

lemma pump_round_half:
  assumes io: "sockets_ok io work" and ne: "c \<noteq> up" and inv: "pump_inv c up s evs"
  shows "pump_half work c up tr s u (pump_round io c up t s (u, tr @ evs))"
proof (cases "up_open s \<or> down_open s")
  case False
  then show ?thesis
    using inv unfolding pump_half_def
    by (intro disjI2 exI [of _ 0] exI [of _ s] exI [of _ u] exI [of _ evs])
      (auto simp: pump_round_def pump_inv_def pump_done_def)
next
  case True
  obtain r u1 where p: "s_poll io (if up_open s then c else - 1) (if down_open s then up else - 1) t u = (r, u1)" by fastforce
  have ok: "send_ok io work" "recv_ok io work" "poll_ok io work" "\<And>fd u. work (s_shutdown io fd u) \<le> work u"
    using io by (simp_all add: sockets_ok_def)
  note law = poll_law [OF ok(3) p]
  let ?w = "(u1, tr @ evs @ [Ev_poll r])"
  have step: "wait_readable io c up (up_open s) (down_open s) t (u, tr @ evs) = (r, ?w)"
    by (simp add: wait_readable_def do_poll_def p)
  note inv1 = pump_inv_poll [OF inv, of r]
  show ?thesis
  proof (cases r)
    case (Ready cr ur)
    then have sz: "pump_size work s u1 \<le> pump_size work s u" using law by (simp add: pump_size_def)
    have open_c: "cr \<Longrightarrow> up_open s" and open_u: "ur \<Longrightarrow> down_open s" using law Ready by (auto split: if_splits)
    show ?thesis
    proof (cases cr)
      case False
      then have "pump_half work c up tr s u1 (pump_upstream io c up s ?w)"
        using law Ready open_u pump_upstream_half [OF ok(1,2,4) ne inv1, of tr u1] by simp
      then show ?thesis
        using pump_half_trans [OF sz] True False Ready law step by (simp add: pump_round_def)
    next
      case c: True
      have h: "pump_half work c up tr s u1 (pump_client io c up s ?w)"
        using pump_client_half [OF ok(1,2,4) ne inv1 open_c [OF c], of tr u1] by simp
      show ?thesis
      proof (cases "\<exists>s' u' evs'. pump_client io c up s ?w = Some (Pump_again s' (u', tr @ evs')) \<and> pump_inv c up s' evs' \<and>
          pump_size work s' u' < pump_size work s u1")
        case False
        then obtain code s' u' evs' where "pump_client io c up s ?w = Some (Pump_return code s' (u', tr @ evs'))"
          "pump_done c up code (pstats s') evs'" using h unfolding pump_half_def by blast
        then show ?thesis using True c Ready step unfolding pump_half_def by (auto simp: pump_round_def)
      next
        case again: True
        then obtain s' u' evs' where a: "pump_client io c up s ?w = Some (Pump_again s' (u', tr @ evs'))" "pump_inv c up s' evs'"
          "pump_size work s' u' < pump_size work s u1" by blast
        show ?thesis
        proof (cases ur)
          case False
          then show ?thesis using True c Ready step a sz unfolding pump_half_def by (auto simp: pump_round_def)
        next
          case ur: True
          have "down_open s'" using a(1) open_u [OF ur]
            by (auto simp: pump_client_def Let_def bind_eq_Some_conv split: if_splits)
          then have "pump_half work c up tr s' u' (pump_upstream io c up s' (u', tr @ evs'))"
            using pump_upstream_half [OF ok(1,2,4) ne a(2)] by blast
          then show ?thesis
            using pump_half_trans [of work s' u' s u] a sz True c ur Ready step by (simp add: pump_round_def)
        qed
      qed
    qed
  next
    case Poll_interrupted
    then show ?thesis using True step law inv1 unfolding pump_half_def
      by (intro disjI1 exI [of _ s] exI [of _ u1] exI [of _ "evs @ [Ev_poll r]"]) (auto simp: pump_round_def pump_size_def)
  next
    case Poll_timeout
    then show ?thesis using True step inv1 unfolding pump_half_def
      by (intro disjI2 exI [of _ "- 1"] exI [of _ s] exI [of _ u1] exI [of _ "evs @ [Ev_poll r]"])
        (auto simp: pump_round_def pump_inv_def pump_done_def not_send_failed)
  next
    case Poll_error
    then show ?thesis using True step inv1 unfolding pump_half_def
      by (intro disjI2 exI [of _ "- 1"] exI [of _ s] exI [of _ u1] exI [of _ "evs @ [Ev_poll r]"])
        (auto simp: pump_round_def pump_inv_def pump_done_def not_send_failed)
  qed
qed

lemma pump_loop_done:
  assumes io: "sockets_ok io work" and ne: "c \<noteq> up"
  shows "pump_inv c up s evs \<Longrightarrow>
    \<exists>code st u' evs'. pump_loop io c up t s (u, tr @ evs) = Some (code, st, u', tr @ evs') \<and> pump_done c up code st evs'"
proof (induction "pump_size work s u" arbitrary: s u evs rule: less_induct)
  case less
  from pump_round_half [OF io ne less.prems, of tr u t]
  consider s' u' evs' where "pump_round io c up t s (u, tr @ evs) = Some (Pump_again s' (u', tr @ evs'))" "pump_inv c up s' evs'"
      "pump_size work s' u' < pump_size work s u"
    | code s' u' evs' where "pump_round io c up t s (u, tr @ evs) = Some (Pump_return code s' (u', tr @ evs'))"
      "pump_done c up code (pstats s') evs'" unfolding pump_half_def by blast
  then show ?case
  proof cases
    case 1
    then show ?thesis using less.hyps [OF 1(3,2)] by (subst pump_loop.simps) simp
  next
    case 2
    then show ?thesis by (subst pump_loop.simps) auto
  qed
qed

lemma pump0_inv: "pump_inv c up pump0 []"
  by (simp add: pump_inv_def pump0_def relay_stats0_def)

lemma pump_from_start:
  assumes "sockets_ok io work" "c \<noteq> up"
  shows "\<exists>code st u' evs. relay_pump_timeout io c up t w = Some (code, st, u', snd w @ evs) \<and> pump_done c up code st evs"
  using pump_loop_done [OF assms pump0_inv, of t "fst w" "snd w"] by (simp add: relay_pump_timeout_def)

section \<open>A whole connection\<close>

text \<open>Stretches of a trace in which nothing but interrupted calls happens.\<close>

definition idle :: "net_event list \<Rightarrow> bool" where
  "idle tr = list_all (\<lambda>e. case e of Ev_poll r \<Rightarrow> True | Ev_recv f r \<Rightarrow> r = Recv_interrupted | _ \<Rightarrow> False) tr"

lemma idle_on: "idle tr \<Longrightarrow> sent_on fd tr = []" "idle tr \<Longrightarrow> rcvd_on fd tr = []" "idle tr \<Longrightarrow> no_conn tr"
  by (induction tr) (auto simp: idle_def no_conn_def split: net_event.splits)

lemma wait_retry_total:
  assumes io: "poll_ok io work"
  shows "\<exists>r u' evs. wait_retry io c up w = Some (r, u', snd w @ evs) \<and> idle evs"
proof (induction "work (fst w)" arbitrary: w rule: less_induct)
  case less
  obtain r u where p: "s_poll io c up (- 1) (fst w) = (r, u)" by fastforce
  have step: "wait_readable io c up True True (- 1) w = (r, u, snd w @ [Ev_poll r])"
    by (simp add: wait_readable_def do_poll_def p)
  show ?case
  proof (cases "r = Poll_interrupted")
    case True
    then obtain r' u' evs where "wait_retry io c up (u, snd w @ [Ev_poll r]) = Some (r', u', snd w @ [Ev_poll r] @ evs)" "idle evs"
      using less [of "(u, snd w @ [Ev_poll r])"] poll_law [OF io p] by auto
    then show ?thesis using True step by (subst wait_retry.simps) (auto simp: idle_def)
  next
    case False
    then show ?thesis using step
      by (subst wait_retry.simps) (cases r; auto simp: idle_def)
  qed
qed

lemma recv_retry_total:
  assumes io: "recv_ok io work"
  shows "\<exists>r u' evs. recv_retry io fd w = Some (r, u', snd w @ evs @ [Ev_recv fd r]) \<and> idle evs \<and>
    (case r of Received b \<Rightarrow> length b \<le> BUFFER_SIZE | _ \<Rightarrow> True)"
proof (induction "work (fst w)" arbitrary: w rule: less_induct)
  case less
  obtain r u where p: "s_recv io fd BUFFER_SIZE (fst w) = (r, u)" by fastforce
  have step: "do_recv io fd BUFFER_SIZE w = (r, u, snd w @ [Ev_recv fd r])" by (simp add: do_recv_def p)
  show ?case
  proof (cases "r = Recv_interrupted")
    case True
    then obtain r' u' evs where "recv_retry io fd (u, snd w @ [Ev_recv fd r]) = Some (r', u', snd w @ Ev_recv fd r # evs @ [Ev_recv fd r'])"
        "idle evs" "case r' of Received b \<Rightarrow> length b \<le> BUFFER_SIZE | _ \<Rightarrow> True"
      using less [of "(u, snd w @ [Ev_recv fd r])"] recv_law [OF io p] by auto
    then show ?thesis using True step
      by (subst recv_retry.simps) (intro exI [of _ r'] exI [of _ u'] exI [of _ "Ev_recv fd r # evs"], auto simp: idle_def)
  next
    case False
    then show ?thesis using step recv_law [OF io p]
      by (subst recv_retry.simps) (cases r; auto simp: idle_def intro!: exI [of _ "[]"])
  qed
qed

lemma first_write_Nil [simp]: "first_write [] s = []"
  by (simp add: first_write_def frag_args_ok_def split: option.split)

text \<open>What a connection does: all of the client's bytes \<open>b @ rest\<close> reach the server, the first write \<open>b\<close> in
  the form the split mode gives it.\<close>

definition relayed :: "int \<Rightarrow> int \<Rightarrow> relay_split \<Rightarrow> int \<Rightarrow> net_event list \<Rightarrow> bool" where
  "relayed c up split code tr \<longleftrightarrow> no_conn tr \<and> (\<exists>b rest. rcvd_on c tr = b @ rest \<and> length b \<le> BUFFER_SIZE \<and>
     prefix (sent_on up tr) (first_write b split @ rest) \<and> prefix (sent_on c tr) (rcvd_on up tr) \<and>
     (\<not> send_failed tr \<longrightarrow> sent_on up tr = first_write b split @ rest \<and> sent_on c tr = rcvd_on up tr) \<and>
     (code = 0 \<or> code = - 1))"

lemma relayedI:
  "rcvd_on c tr = b @ rest \<Longrightarrow> length b \<le> BUFFER_SIZE \<Longrightarrow> prefix (sent_on up tr) (first_write b split @ rest) \<Longrightarrow>
   prefix (sent_on c tr) (rcvd_on up tr) \<Longrightarrow>
   (\<not> send_failed tr \<Longrightarrow> sent_on up tr = first_write b split @ rest \<and> sent_on c tr = rcvd_on up tr) \<Longrightarrow>
   code = 0 \<or> code = - 1 \<Longrightarrow> no_conn tr \<Longrightarrow> relayed c up split code tr"
  unfolding relayed_def by blast

lemma pump_relayed:
  assumes io: "sockets_ok io work" and ne: "c \<noteq> up"
    and pre: "rcvd_on c pre = b" "sent_on up pre = first_write b split" "sent_on c pre = []" "rcvd_on up pre = []" "length b \<le> BUFFER_SIZE" "no_conn pre"
  shows "\<exists>code st u' evs. relay_pump io c up (u, tr @ pre) = Some (code, st, u', tr @ pre @ evs) \<and> relayed c up split code (pre @ evs)"
proof -
  obtain code st u' evs where p: "relay_pump io c up (u, tr @ pre) = Some (code, st, u', tr @ pre @ evs)" "pump_done c up code st evs"
    using pump_from_start [OF io ne, of "- 1" "(u, tr @ pre)"] by (auto simp: relay_pump_def)
  have "relayed c up split code (pre @ evs)"
    by (rule relayedI [where b = b and rest = "rcvd_on c evs"])
      (use p(2) pre send_failed_append [of evs pre] in \<open>auto simp: pump_done_def split: if_splits\<close>)
  then show ?thesis using p(1) by blast
qed

lemma relay_connection_relayed:
  assumes io: "sockets_ok io work" and ne: "c \<noteq> up"
  shows "\<exists>code u' evs. relay_connection io c up split w = Some (code, u', snd w @ evs) \<and> relayed c up split code evs"
proof -
  let ?pump = "\<lambda>w. map_option (\<lambda>(code, st, w). (code, w)) (relay_pump io c up w)"
  have ok: "send_ok io work" "recv_ok io work" "poll_ok io work" using io by (simp_all add: sockets_ok_def)
  have pump: "\<exists>code u' evs. ?pump (u, snd w @ pre) = Some (code, u', snd w @ evs) \<and> relayed c up split code evs"
    if "rcvd_on c pre = b" "sent_on up pre = first_write b split" "sent_on c pre = []" "rcvd_on up pre = []" "length b \<le> BUFFER_SIZE" "no_conn pre"
    for u pre b
    using pump_relayed [OF io ne that, of u "snd w"] by fastforce
  have quiet: "relayed c up split code tr" if "sent_on up tr = []" "sent_on c tr = []" "rcvd_on c tr = []" "rcvd_on up tr = []"
    "code = 0 \<or> code = - 1" "no_conn tr" for code tr using that by (auto simp: relayed_def intro!: exI [of _ "[]"])
  obtain r u1 e1 where w1: "wait_retry io c up w = Some (r, u1, snd w @ e1)" "idle e1" using wait_retry_total [OF ok(3)] by blast
  obtain rr u2 e2 where w2: "recv_retry io c (u1, snd w @ e1) = Some (rr, u2, snd w @ e1 @ e2 @ [Ev_recv c rr])" "idle e2"
      "case rr of Received b \<Rightarrow> length b \<le> BUFFER_SIZE | _ \<Rightarrow> True" using recv_retry_total [OF ok(2), of c "(u1, snd w @ e1)"] by auto
  let ?pre = "e1 @ e2 @ [Ev_recv c rr]"
  note on = idle_on [OF w1(2)] idle_on [OF w2(2)]
  consider "split = RELAY_SPLIT_NONE"
    | "split \<noteq> RELAY_SPLIT_NONE" "r = Poll_error"
    | "split \<noteq> RELAY_SPLIT_NONE" "r \<noteq> Poll_error" "\<And>x. r \<noteq> Ready True x"
    | x where "split \<noteq> RELAY_SPLIT_NONE" "r = Ready True x" "rr = Received [] \<or> rr = Recv_interrupted \<or> rr = Recv_error"
    | x b where "split \<noteq> RELAY_SPLIT_NONE" "r = Ready True x" "rr = Received b" "b \<noteq> []"
    by (cases rr) metis+
  then show ?thesis
  proof cases
    case 1
    then show ?thesis using pump [of "[]" "[]" "fst w"] by (simp add: relay_connection_def)
  next
    case 2
    then show ?thesis using 2 w1 on quiet [of e1 "- 1"] by (simp add: relay_connection_def)
  next
    case 3
    then show ?thesis using 3 w1 on pump [of e1 "[]" u1]
      by (cases r) (auto simp: relay_connection_def split: bool.splits)
  next
    case 4
    then show ?thesis using 4 w1 w2 on ne quiet [of ?pre 0] by (auto simp: relay_connection_def)
  next
    case (5 x b)
    from relay_send_first_sends [OF ok(1), of up b split "(u2, snd w @ ?pre)"]
    obtain sent_ok u3 e3 m where w3: "relay_send_first io up b split (u2, snd w @ ?pre) = Some (sent_ok, u3, snd w @ ?pre @ e3)"
      "sends_to up e3" "sent_on up e3 = take m (first_write b split)" "if sent_ok then m = length (first_write b split) else send_failed e3"
      by (auto simp: sends_def)
    note o = sends_to_other [OF w3(2)]
    have b: "length b \<le> BUFFER_SIZE" using w2(3) 5 by simp
    show ?thesis
    proof (cases sent_ok)
      case True
      then show ?thesis using w1 w2 w3 5 on o ne b pump [of "?pre @ e3" b u3] by (simp add: relay_connection_def)
    next
      case False
      then have "relayed c up split (- 1) (?pre @ e3)"
        using w3 5 on o ne b send_failed_append [of e3 ?pre]
        by (intro relayedI [where b = b and rest = "[]"]) (auto simp: take_is_prefix)
      then show ?thesis using w1 w2 w3 5 False by (simp add: relay_connection_def)
    qed
  qed
qed

section \<open>A concrete pair of peers\<close>

text \<open>Peers that have a list of chunks each to send, on the descriptors 3 and 4; the first few writes are
  interrupted, and a write takes at most 20 bytes.\<close>

type_synonym demo_world = "bytes list \<times> bytes list \<times> nat"

fun demo_send :: "int \<Rightarrow> bytes \<Rightarrow> demo_world \<Rightarrow> send_result \<times> demo_world" where
  "demo_send fd b (xs, ys, Suc n) = (Send_interrupted, xs, ys, n)"
| "demo_send fd b (xs, ys, 0) = (Sent (min 20 (length b)), xs, ys, 0)"

fun demo_recv :: "int \<Rightarrow> nat \<Rightarrow> demo_world \<Rightarrow> recv_result \<times> demo_world" where
  "demo_recv fd cap (xs, ys, n) =
     (if fd = 3 then (case xs of [] \<Rightarrow> (Received [], xs, ys, n) | x # xs' \<Rightarrow> (Received (take cap x), xs', ys, n))
      else (case ys of [] \<Rightarrow> (Received [], xs, ys, n) | y # ys' \<Rightarrow> (Received (take cap y), xs, ys', n)))"

definition demo_poll :: "int \<Rightarrow> int \<Rightarrow> int \<Rightarrow> demo_world \<Rightarrow> poll_result \<times> demo_world" where
  "demo_poll a b t u = (if a = - 1 \<and> b = - 1 then Poll_error else Ready (a \<noteq> - 1) (b \<noteq> - 1), u)"

definition demo_sockets :: "demo_world sockets" where
  "demo_sockets = \<lparr>s_send = demo_send, s_recv = demo_recv, s_poll = demo_poll, s_shutdown = (\<lambda>fd u. u), s_linger = (\<lambda>fd u. u)\<rparr>"

definition demo_work :: "demo_world \<Rightarrow> nat" where
  "demo_work u = (case u of (xs, ys, n) \<Rightarrow> length xs + length ys + n)"

lemma demo_sockets_ok: "sockets_ok demo_sockets demo_work"
proof -
  have "send_ok demo_sockets demo_work"
    unfolding send_ok_def
  proof (intro allI)
    fix fd b and u :: demo_world
    obtain xs ys n where "u = (xs, ys, n)" by (cases u)
    then show "case s_send demo_sockets fd b u of (Sent n, u') \<Rightarrow> n \<le> length b \<and> demo_work u' \<le> demo_work u
      | (Send_interrupted, u') \<Rightarrow> demo_work u' < demo_work u | (Send_error, u') \<Rightarrow> demo_work u' \<le> demo_work u"
      by (cases n) (simp_all add: demo_sockets_def demo_work_def)
  qed
  then show ?thesis
    by (auto simp: sockets_ok_def recv_ok_def poll_ok_def demo_sockets_def demo_work_def demo_poll_def split: list.splits)
qed

section \<open>Correctness\<close>

text \<open>Sending the first write ends, uses no other socket, and puts on the wire either the whole
  of its image under the split mode or a prefix of it followed by a failed write. The image is the
  buffer itself unless a record mode applies to it, and then it is five bytes longer and the server's
  gathering of handshake records gives back the buffer.\<close>

theorem first_write_delivered:
  assumes "send_ok io work"
  shows "\<exists>ok u' evs. relay_send_first io fd b split w = Some (ok, u', snd w @ evs) \<and> sends_to fd evs \<and>
    prefix (sent_on fd evs) (first_write b split) \<and> (if ok then sent_on fd evs = first_write b split else send_failed evs) \<and>
    (split = RELAY_SPLIT_NONE \<or> split = RELAY_SPLIT_TCP \<longrightarrow> first_write b split = b) \<and>
    (one_record b \<and> first_write b split \<noteq> b \<longrightarrow> length (first_write b split) = length b + 5 \<and>
      (\<exists>out. tls_coalesce_handshake_records (first_write b split) (replicate (length b + 5) 0) = Some (int (length b), out) \<and>
        take (length b) out = b))"
proof -
  obtain ok u' evs m where s: "relay_send_first io fd b split w = Some (ok, u', snd w @ evs)" "sends_to fd evs"
    "sent_on fd evs = take m (first_write b split)" "if ok then m = length (first_write b split) else send_failed evs"
    using relay_send_first_sends [OF assms, of fd b split w] by (auto simp: sends_def)
  have "split = RELAY_SPLIT_NONE \<or> split = RELAY_SPLIT_TCP \<longrightarrow> first_write b split = b"
    by (auto simp: first_write_def split: option.split)
  moreover have "first_write b split \<noteq> b \<longrightarrow> length (first_write b split) = length b + 5"
    by (auto simp: first_write_def frag_bytes_def frag_args_ok_def split: option.split)
  ultimately show ?thesis
    using s first_write_gathers [of b split "replicate (length b + 5) 0"] by (auto simp: take_is_prefix)
qed

text \<open>Claim C8. The pump ends whenever its peers send and interrupt only finitely often. Every byte it sent one
  peer it had received from the other, in that order; unless its last act was a failed write, nothing
  was left behind and the two counters are right. Each end of stream is passed on as a shutdown and
  nothing else is; an error of the server is reported and resets the client's connection; and
  \<open>client_eof_first\<close> says which side finished first.\<close>

theorem pump_correct:
  assumes "sockets_ok io work" "client_fd \<noteq> upstream_fd"
  shows "\<exists>code st u' evs. relay_pump_timeout io client_fd upstream_fd t w = Some (code, st, u', snd w @ evs) \<and>
    pump_done client_fd upstream_fd code st evs"
  by (rule pump_from_start [OF assms])

text \<open>A relayed connection ends under the same condition, and unless a write failed the server got
  exactly the client's bytes, the first write in the form of its split mode, and the client exactly the
  server's.\<close>

theorem connection_correct:
  assumes "sockets_ok io work" "client_fd \<noteq> upstream_fd"
  shows "\<exists>code u' evs. relay_connection io client_fd upstream_fd split w = Some (code, u', snd w @ evs) \<and>
    relayed client_fd upstream_fd split code evs"
  by (rule relay_connection_relayed [OF assms])

definition demo_hello :: bytes where
  "demo_hello = [0x16, 3, 1, 0, 4, 10, 11, 12, 13]"

theorem first_write_delivered_witness:
  "\<exists>ok u' evs out. relay_send_first demo_sockets 4 demo_hello RELAY_SPLIT_TLS_RECORD (([], [], 2), []) = Some (ok, u', evs) \<and>
     sends_to 4 evs \<and> prefix (sent_on 4 evs) (first_write demo_hello RELAY_SPLIT_TLS_RECORD) \<and>
     length (first_write demo_hello RELAY_SPLIT_TLS_RECORD) = 14 \<and>
     tls_coalesce_handshake_records (first_write demo_hello RELAY_SPLIT_TLS_RECORD) (replicate 14 0) = Some (9, out) \<and>
     take 9 out = demo_hello"
proof -
  have "send_ok demo_sockets demo_work" using demo_sockets_ok by (simp add: sockets_ok_def)
  note th = first_write_delivered [OF this, of 4 demo_hello RELAY_SPLIT_TLS_RECORD "(([], [], 2), [])"]
  have h: "one_record demo_hello" "length demo_hello = 9" by code_simp+
  have "tls_record_split_point demo_hello = Some 1" by code_simp
  moreover have "unat (be16 0 4) = 4" by code_simp
  ultimately have "first_write demo_hello RELAY_SPLIT_TLS_RECORD = frag_bytes demo_hello 4 1"
    by (simp add: first_write_def frag_args_ok_def demo_hello_def BUFFER_SIZE_def)
  moreover have "frag_bytes demo_hello 4 1 \<noteq> demo_hello" by code_simp
  ultimately show ?thesis using th h by auto
qed

theorem pump_correct_witness:
  "\<exists>code st u' evs. relay_pump_timeout demo_sockets 3 4 1000 (([[1, 2], [3]], [[9]], 1), []) = Some (code, st, u', evs) \<and>
     pump_done 3 4 code st evs"
  using pump_correct [OF demo_sockets_ok, of 3 4 1000 "(([[1, 2], [3]], [[9]], 1), [])"] by simp

theorem connection_correct_witness:
  "\<exists>code u' evs. relay_connection demo_sockets 3 4 RELAY_SPLIT_TLS_RECORD_TCP (([demo_hello, [1]], [[9]], 1), []) = Some (code, u', evs) \<and>
     relayed 3 4 RELAY_SPLIT_TLS_RECORD_TCP code evs"
  using connection_correct [OF demo_sockets_ok, of 3 4 RELAY_SPLIT_TLS_RECORD_TCP "(([demo_hello, [1]], [[9]], 1), [])"] by simp

end
