(* ===== verification/Net.thy ===== *)
theory Net
  imports Relay
begin

text \<open>
  Opening connections: \<open>src/transparent/net.c\<close>, which the connection handler and the verifier use, and the
  preparation of sockets of \<open>src/dns/dns_udp.c\<close>. The system calls are functions of a record; the trace
  notes the descriptor of every socket that is opened and closed.
\<close>

section \<open>Addresses and calls\<close>

datatype af = AF_INET | AF_INET6

record sockaddr =
  sa_family :: af
  sa_addr :: bytes
  sa_port :: u16

text \<open>\<open>connect\<close> on a non-blocking socket: done, under way, refused because the local port is taken, or failed.\<close>

datatype connect_result = Connected | Connect_pending | Connect_in_use | Connect_failed

text \<open>\<open>n_wait_in\<close> and \<open>n_wait_out\<close> are \<open>compat_wait\<close> for reading and for writing, \<^const>\<open>True\<close> when the socket
  became ready; \<open>n_so_clear\<close> is \<^const>\<open>True\<close> when the socket has no pending error.\<close>

record 'u dialling =
  n_io :: "'u sockets"
  n_socket :: "sockaddr \<Rightarrow> 'u \<Rightarrow> int \<times> 'u"
  n_prepare :: "int \<Rightarrow> af \<Rightarrow> 'u \<Rightarrow> bool \<times> 'u"
  n_connect :: "int \<Rightarrow> sockaddr \<Rightarrow> 'u \<Rightarrow> connect_result \<times> 'u"
  n_wait_in :: "int \<Rightarrow> int \<Rightarrow> 'u \<Rightarrow> bool \<times> 'u"
  n_wait_out :: "int \<Rightarrow> int \<Rightarrow> 'u \<Rightarrow> bool \<times> 'u"
  n_so_clear :: "int \<Rightarrow> 'u \<Rightarrow> bool \<times> 'u"
  n_now_ms :: "'u \<Rightarrow> int \<times> 'u"
  n_close :: "int \<Rightarrow> 'u \<Rightarrow> 'u"
  n_set_mark :: "int \<Rightarrow> int \<Rightarrow> 'u \<Rightarrow> 'u"

definition net_socket :: "'u dialling \<Rightarrow> sockaddr \<Rightarrow> 'u net \<Rightarrow> int \<times> 'u net" where
  "net_socket env a w = (case n_socket env a (fst w) of (fd, u) \<Rightarrow> (fd, u, snd w @ [Ev_connect fd]))"

definition compat_close :: "'u dialling \<Rightarrow> int \<Rightarrow> 'u net \<Rightarrow> 'u net" where
  "compat_close env fd w = (n_close env fd (fst w), snd w @ [Ev_close fd])"

section \<open>Connecting\<close>

text \<open>The result is the descriptor, -2 when the local port was in use, -1 otherwise.\<close>

definition try_connect :: "'u dialling \<Rightarrow> sockaddr \<Rightarrow> int \<Rightarrow> 'u net \<Rightarrow> int \<times> 'u net" where
  "try_connect env addr timeout_ms w =
     (case net_socket env addr w of (fd, w) \<Rightarrow>
        if fd < 0 then (- 1, w)
        else case on_net (n_prepare env fd (sa_family addr)) w of (prepared, w) \<Rightarrow>
        if \<not> prepared then (- 1, compat_close env fd w)
        else case on_net (n_connect env fd addr) w of (r, w) \<Rightarrow>
        if r = Connect_in_use then (- 2, compat_close env fd w)
        else if r = Connect_failed then (- 1, compat_close env fd w)
        else case on_net (n_wait_out env fd timeout_ms) w of (ready, w) \<Rightarrow>
        if \<not> ready then (- 1, compat_close env fd w)
        else case on_net (n_so_clear env fd) w of (clear, w) \<Rightarrow>
        if \<not> clear then (- 1, compat_close env fd w)
        else (fd, w))"

text \<open>The loop that takes a new socket while the local port is in use; \<open>tries\<close> counts the earlier ones.\<close>

definition CONNECT_TRIES :: nat where "CONNECT_TRIES = 8"

function retry_busy :: "('u net \<Rightarrow> int \<times> 'u net) \<Rightarrow> nat \<Rightarrow> 'u net \<Rightarrow> int \<times> 'u net" where
  "retry_busy connect tries w =
     (case connect w of (fd, w) \<Rightarrow>
        if fd = - 2 \<and> tries + 1 < CONNECT_TRIES then retry_busy connect (tries + 1) w else (fd, w))"
  by pat_completeness auto
termination by (relation "measure (\<lambda>(connect, tries, w). CONNECT_TRIES - tries)") auto

declare retry_busy.simps [simp del]

definition tpd_connect :: "'u dialling \<Rightarrow> sockaddr \<Rightarrow> int \<Rightarrow> 'u net \<Rightarrow> int \<times> 'u net" where
  "tpd_connect env addr timeout_ms w =
     (case retry_busy (try_connect env addr timeout_ms) 0 w of (fd, w) \<Rightarrow> (if fd < 0 then - 1 else fd, w))"

section \<open>What a dial does\<close>

text \<open>Opening and closing sockets only.\<close>

definition only_conn :: "net_event list \<Rightarrow> bool" where
  "only_conn tr = list_all (\<lambda>e. case e of Ev_connect fd \<Rightarrow> True | Ev_close fd \<Rightarrow> True | _ \<Rightarrow> False) tr"

lemma only_conn_simps [simp]: "only_conn []" "only_conn (a @ b) \<longleftrightarrow> only_conn a \<and> only_conn b" "only_conn (Ev_connect fd # a) = only_conn a"
  "only_conn (Ev_close fd # a) = only_conn a"
  by (simp_all add: only_conn_def)

lemma only_conn_quiet: "only_conn tr \<Longrightarrow> sent_on fd tr = []" "only_conn tr \<Longrightarrow> rcvd_on fd tr = []"
  by (induction tr) (auto simp: only_conn_def split: net_event.splits)

text \<open>A dial gives a descriptor, the only one it opened and did not close, or a negative number; it opens at
  most \<open>n\<close> sockets, and \<open>busy\<close> says whether it may report a port in use.\<close>

definition dialled :: "('u \<Rightarrow> nat) \<Rightarrow> nat \<Rightarrow> bool \<Rightarrow> 'u net \<Rightarrow> int \<times> 'u net \<Rightarrow> bool" where
  "dialled work n busy w res \<longleftrightarrow> (\<exists>fd u evs. res = (fd, u, snd w @ evs) \<and> only_conn evs \<and> work u \<le> work (fst w) \<and>
     opened evs = closed evs @ (if fd < 0 then [] else [fd]) \<and> length (opened evs) \<le> n \<and> (fd < 0 \<longrightarrow> fd = - 1 \<or> busy \<and> fd = - 2))"

lemma dialledI:
  "res = (fd, u, snd w @ evs) \<Longrightarrow> only_conn evs \<Longrightarrow> work u \<le> work (fst w) \<Longrightarrow>
   opened evs = closed evs @ (if fd < 0 then [] else [fd]) \<Longrightarrow> length (opened evs) \<le> n \<Longrightarrow> (fd < 0 \<Longrightarrow> fd = - 1 \<or> busy \<and> fd = - 2) \<Longrightarrow>
   dialled work n busy w res"
  unfolding dialled_def by blast

text \<open>What is relied on: the calls do not make the world busier.\<close>

definition dialling_ok :: "'u dialling \<Rightarrow> ('u \<Rightarrow> nat) \<Rightarrow> bool" where
  "dialling_ok env work \<longleftrightarrow> (\<forall>u. (\<forall>a. work (snd (n_socket env a u)) \<le> work u) \<and> (\<forall>fd f. work (snd (n_prepare env fd f u)) \<le> work u) \<and>
     (\<forall>fd a. work (snd (n_connect env fd a u)) \<le> work u) \<and> (\<forall>fd t. work (snd (n_wait_in env fd t u)) \<le> work u) \<and>
     (\<forall>fd t. work (snd (n_wait_out env fd t u)) \<le> work u) \<and> (\<forall>fd. work (snd (n_so_clear env fd u)) \<le> work u) \<and>
     work (snd (n_now_ms env u)) \<le> work u \<and> (\<forall>fd. work (n_close env fd u) \<le> work u) \<and> (\<forall>fd m. work (n_set_mark env fd m u) \<le> work u))"

lemma dialling_laws:
  assumes "dialling_ok env work"
  shows "n_socket env a u = (fd, u') \<Longrightarrow> work u' \<le> work u" "n_prepare env fd f u = (p, u') \<Longrightarrow> work u' \<le> work u"
    "n_connect env fd a u = (c, u') \<Longrightarrow> work u' \<le> work u" "n_wait_in env fd t u = (p, u') \<Longrightarrow> work u' \<le> work u"
    "n_wait_out env fd t u = (p, u') \<Longrightarrow> work u' \<le> work u" "n_so_clear env fd u = (p, u') \<Longrightarrow> work u' \<le> work u"
    "n_now_ms env u = (t, u') \<Longrightarrow> work u' \<le> work u" "work (n_close env fd u) \<le> work u" "work (n_set_mark env fd m u) \<le> work u"
  using assms unfolding dialling_ok_def by (metis snd_conv)+

text \<open>The ends of a single try.\<close>

lemma dialled_unopened: "fd < 0 \<Longrightarrow> work u \<le> work (fst w) \<Longrightarrow> dialled work 1 True w (- 1, u, snd w @ [Ev_connect fd])"
  by (rule dialledI [where evs = "[Ev_connect fd]" and fd = "- 1" and u = u]) auto

lemma dialled_open: "0 \<le> fd \<Longrightarrow> work u \<le> work (fst w) \<Longrightarrow> dialled work 1 True w (fd, u, snd w @ [Ev_connect fd])"
  by (rule dialledI [where evs = "[Ev_connect fd]" and fd = fd and u = u]) auto

lemma dialled_shut:
  assumes "dialling_ok env work" "0 \<le> fd" "v = - 1 \<or> v = - 2" "work u \<le> work (fst w)"
  shows "dialled work 1 True w (v, compat_close env fd (u, snd w @ [Ev_connect fd]))"
  using assms dialling_laws(8) [OF assms(1), of fd u]
  by (intro dialledI [where evs = "[Ev_connect fd, Ev_close fd]" and u = "n_close env fd u"]) (auto simp: compat_close_def)

lemma try_connect_dialled:
  assumes env: "dialling_ok env work"
  shows "dialled work 1 True w (try_connect env addr timeout_ms w)"
proof -
  note law = dialling_laws [OF env]
  obtain fd u1 where s: "n_socket env addr (fst w) = (fd, u1)" by fastforce
  obtain p u2 where p: "n_prepare env fd (sa_family addr) u1 = (p, u2)" by fastforce
  obtain c u3 where c: "n_connect env fd addr u2 = (c, u3)" by fastforce
  obtain r u4 where r: "n_wait_out env fd timeout_ms u3 = (r, u4)" by fastforce
  obtain k u5 where k: "n_so_clear env fd u4 = (k, u5)" by fastforce
  note le = law(1) [OF s] law(2) [OF p] law(3) [OF c] law(5) [OF r] law(6) [OF k]
  have eq: "try_connect env addr timeout_ms w =
    (if fd < 0 then (- 1, u1, snd w @ [Ev_connect fd])
     else if \<not> p then (- 1, compat_close env fd (u2, snd w @ [Ev_connect fd]))
     else if c = Connect_in_use then (- 2, compat_close env fd (u3, snd w @ [Ev_connect fd]))
     else if c = Connect_failed then (- 1, compat_close env fd (u3, snd w @ [Ev_connect fd]))
     else if \<not> r then (- 1, compat_close env fd (u4, snd w @ [Ev_connect fd]))
     else if \<not> k then (- 1, compat_close env fd (u5, snd w @ [Ev_connect fd]))
     else (fd, u5, snd w @ [Ev_connect fd]))"
    by (simp add: try_connect_def net_socket_def on_net_def s p c r k cong: if_cong)
  show ?thesis unfolding eq using dialled_unopened [of fd work u1 w] dialled_open [of fd work u5 w] dialled_shut [OF env, where fd = fd and w = w] le by auto
qed

lemma retry_busy_dialled:
  assumes one: "\<And>w. dialled work 1 True w (connect w)"
  shows "tries < CONNECT_TRIES \<Longrightarrow> dialled work (CONNECT_TRIES - tries) True w (retry_busy connect tries w)"
proof (induction "CONNECT_TRIES - tries" arbitrary: tries w rule: less_induct)
  case less
  obtain fd u evs where c: "connect w = (fd, u, snd w @ evs)" "only_conn evs" "work u \<le> work (fst w)"
    "opened evs = closed evs @ (if fd < 0 then [] else [fd])" "length (opened evs) \<le> 1" "fd < 0 \<longrightarrow> fd = - 1 \<or> fd = - 2"
    using one [of w] unfolding dialled_def by auto
  show ?case
  proof (cases "fd = - 2 \<and> tries + 1 < CONNECT_TRIES")
    case True
    have "dialled work (CONNECT_TRIES - (tries + 1)) True (u, snd w @ evs) (retry_busy connect (tries + 1) (u, snd w @ evs))"
      using less.hyps [of "tries + 1" "(u, snd w @ evs)"] True by auto
    then obtain fd' u' evs' where r: "retry_busy connect (tries + 1) (u, snd w @ evs) = (fd', u', snd w @ evs @ evs')" "only_conn evs'" "work u' \<le> work u"
      "opened evs' = closed evs' @ (if fd' < 0 then [] else [fd'])" "length (opened evs') \<le> CONNECT_TRIES - (tries + 1)"
      "fd' < 0 \<longrightarrow> fd' = - 1 \<or> fd' = - 2" unfolding dialled_def by auto
    show ?thesis
      by (rule dialledI [of _ fd' u' _ "evs @ evs'"]) (use True c r in \<open>auto simp: retry_busy.simps [of connect tries w]\<close>)
  next
    case False
    then show ?thesis using c less.prems
      by (intro dialledI [of _ fd u _ evs]) (auto simp: retry_busy.simps [of connect tries w])
  qed
qed

lemma dialled_abandon:
  "dialled work n True w res \<Longrightarrow> dialled work n False w (case res of (fd, w') \<Rightarrow> (if fd < 0 then - 1 else fd, w'))"
  unfolding dialled_def by auto

lemma tpd_connect_dialled:
  assumes "dialling_ok env work"
  shows "dialled work CONNECT_TRIES False w (tpd_connect env addr timeout_ms w)"
proof -
  have "dialled work (CONNECT_TRIES - 0) True w (retry_busy (try_connect env addr timeout_ms) 0 w)"
    by (rule retry_busy_dialled [OF try_connect_dialled [OF assms]]) (simp add: CONNECT_TRIES_def)
  from dialled_abandon [OF this] show ?thesis by (simp add: tpd_connect_def)
qed

end
