(* ===== verification/TlsClient.thy ===== *)
theory TlsClient
  imports Net
begin

text \<open>
  \<open>src/tlsclient.c\<close>: a TLS session over a connected socket, used by the resolver and the verifier. The
  record layer, the handshake and the memory buffers are OpenSSL's and stand in a record of functions on
  the state \<open>'l\<close> of one session; what moves between these buffers and the socket is the code's own.
\<close>

section \<open>Sessions\<close>

datatype tlsc_result = TLSC_OK | TLSC_BAD_CERT | TLSC_FAILED

fun tlsc_result_name :: "tlsc_result \<Rightarrow> string" where
  "tlsc_result_name TLSC_OK = ''verified''"
| "tlsc_result_name TLSC_BAD_CERT = ''certificate-invalid''"
| "tlsc_result_name TLSC_FAILED = ''no-handshake''"

text \<open>What a call of OpenSSL gives: a result, the wish for more input (\<open>SSL_ERROR_WANT_READ\<close>), or a failure.\<close>

datatype 'r ssl_result = Ssl_done 'r | Ssl_want_read | Ssl_failed

text \<open>\<open>o_new\<close> makes a session with its two memory buffers for a host name; \<open>o_pending\<close>, \<open>o_bio_read\<close> and
  \<open>o_bio_write\<close> are \<open>BIO_ctrl_pending\<close> and \<open>BIO_read\<close> of the output and \<open>BIO_write\<close> to the input buffer;
  \<open>o_verified\<close> is the check of the peer's certificate.\<close>

record ('l, 'u) openssl =
  o_new :: "string \<Rightarrow> 'u \<Rightarrow> 'l option \<times> 'u"
  o_handshake :: "'l \<Rightarrow> unit ssl_result \<times> 'l"
  o_write :: "bytes \<Rightarrow> 'l \<Rightarrow> nat ssl_result \<times> 'l"
  o_read :: "nat \<Rightarrow> 'l \<Rightarrow> bytes ssl_result \<times> 'l"
  o_pending :: "'l \<Rightarrow> nat"
  o_bio_read :: "nat \<Rightarrow> 'l \<Rightarrow> bytes option \<times> 'l"
  o_bio_write :: "bytes \<Rightarrow> 'l \<Rightarrow> nat \<times> 'l"
  o_verified :: "'l \<Rightarrow> bool"

record 'l tlsc =
  tc_fd :: int
  tc_ssl :: 'l

definition tlsc_free :: "'u dialling \<Rightarrow> 'l tlsc \<Rightarrow> 'u net \<Rightarrow> 'u net" where
  "tlsc_free env t w = (if tc_fd t \<ge> 0 then compat_close env (tc_fd t) w else w)"

section \<open>Moving bytes\<close>

text \<open>\<^const>\<open>True\<close> is the result 0.\<close>

partial_function (option) flush_out :: "'u dialling \<Rightarrow> ('l, 'u) openssl \<Rightarrow> 'l tlsc \<Rightarrow> relay_split \<Rightarrow> 'u net \<Rightarrow> (bool \<times> 'l tlsc \<times> 'u net) option" where
  "flush_out env ossl t split w =
     (if o_pending ossl (tc_ssl t) > 0 then
        (case o_bio_read ossl 16384 (tc_ssl t) of
           (None, ssl) \<Rightarrow> Some (False, t\<lparr>tc_ssl := ssl\<rparr>, w)
         | (Some buf, ssl) \<Rightarrow>
             Option.bind (relay_send_first (n_io env) (tc_fd t) buf split w) (\<lambda>(ok, w).
               if \<not> ok then Some (False, t\<lparr>tc_ssl := ssl\<rparr>, w)
               else flush_out env ossl (t\<lparr>tc_ssl := ssl\<rparr>) RELAY_SPLIT_NONE w))
      else Some (True, t, w))"

text \<open>The buffer of \<open>feed_in\<close> has the size of the relay's.\<close>

definition feed_in :: "'u dialling \<Rightarrow> ('l, 'u) openssl \<Rightarrow> 'l tlsc \<Rightarrow> int \<Rightarrow> 'u net \<Rightarrow> (bool \<times> 'l tlsc \<times> 'u net) option" where
  "feed_in env ossl t deadline w =
     (case on_net (n_now_ms env) w of (now, w) \<Rightarrow>
        let left = deadline - now in
        if left \<le> 0 then Some (False, t, w)
        else case on_net (n_wait_in env (tc_fd t) left) w of (ready, w) \<Rightarrow>
        if \<not> ready then Some (False, t, w)
        else Option.bind (recv_retry (n_io env) (tc_fd t) w) (\<lambda>(r, w).
          case r of
            Received buf \<Rightarrow>
              if buf = [] then Some (False, t, w)
              else (case o_bio_write ossl buf (tc_ssl t) of (n, ssl) \<Rightarrow> Some (n = length buf, t\<lparr>tc_ssl := ssl\<rparr>, w))
          | _ \<Rightarrow> Some (False, t, w)))"

text \<open>What every loop does when OpenSSL wants more input: what it has produced goes out, then input is awaited.\<close>

definition want_read :: "'u dialling \<Rightarrow> ('l, 'u) openssl \<Rightarrow> 'l tlsc \<Rightarrow> relay_split \<Rightarrow> int \<Rightarrow> 'u net \<Rightarrow> (bool \<times> 'l tlsc \<times> 'u net) option" where
  "want_read env ossl t split deadline w =
     Option.bind (flush_out env ossl t split w) (\<lambda>(ok, t, w). if \<not> ok then Some (False, t, w) else feed_in env ossl t deadline w)"

section \<open>The handshake\<close>

partial_function (option) handshake_loop ::
    "'u dialling \<Rightarrow> ('l, 'u) openssl \<Rightarrow> 'l tlsc \<Rightarrow> relay_split \<Rightarrow> int \<Rightarrow> bool \<Rightarrow> 'u net \<Rightarrow> (bool \<times> 'l tlsc \<times> 'u net) option" where
  "handshake_loop env ossl t split deadline first w =
     (case o_handshake ossl (tc_ssl t) of
        (Ssl_done x, ssl) \<Rightarrow> Some (True, t\<lparr>tc_ssl := ssl\<rparr>, w)
      | (Ssl_failed, ssl) \<Rightarrow> Some (False, t\<lparr>tc_ssl := ssl\<rparr>, w)
      | (Ssl_want_read, ssl) \<Rightarrow>
          Option.bind (want_read env ossl (t\<lparr>tc_ssl := ssl\<rparr>) (if first then split else RELAY_SPLIT_NONE) deadline w) (\<lambda>(ok, t, w).
            if \<not> ok then Some (False, t, w) else handshake_loop env ossl t split deadline False w))"

definition tlsc_handshake :: "'u dialling \<Rightarrow> ('l, 'u) openssl \<Rightarrow> int \<Rightarrow> string \<Rightarrow> relay_split \<Rightarrow> int \<Rightarrow> bool \<Rightarrow> 'u net \<Rightarrow>
    (tlsc_result \<times> 'l tlsc option \<times> 'u net) option" where
  "tlsc_handshake env ossl fd host split deadline_ms require_valid w =
     (case on_net (o_new ossl host) w of
        (None, w) \<Rightarrow> Some (TLSC_FAILED, None, compat_close env fd w)
      | (Some ssl, w) \<Rightarrow> do {
          (ok, t, w) \<leftarrow> handshake_loop env ossl \<lparr>tc_fd = fd, tc_ssl = ssl\<rparr> split deadline_ms True w;
          if \<not> ok then Some (TLSC_FAILED, None, tlsc_free env t w)
          else do {
            (ok, t, w) \<leftarrow> flush_out env ossl t RELAY_SPLIT_NONE w;
            if \<not> ok then Some (TLSC_FAILED, None, tlsc_free env t w)
            else let result = (if o_verified ossl (tc_ssl t) then TLSC_OK else TLSC_BAD_CERT) in
              if require_valid \<and> result \<noteq> TLSC_OK then Some (result, None, tlsc_free env t w)
              else Some (result, Some t, w)
          }
        })"

section \<open>Data\<close>

partial_function (option) tlsc_write :: "'u dialling \<Rightarrow> ('l, 'u) openssl \<Rightarrow> 'l tlsc \<Rightarrow> bytes \<Rightarrow> int \<Rightarrow> 'u net \<Rightarrow> (bool \<times> 'l tlsc \<times> 'u net) option" where
  "tlsc_write env ossl t buf deadline_ms w =
     (if buf \<noteq> [] then
        (case o_write ossl buf (tc_ssl t) of
           (Ssl_done n, ssl) \<Rightarrow> tlsc_write env ossl (t\<lparr>tc_ssl := ssl\<rparr>) (drop n buf) deadline_ms w
         | (Ssl_failed, ssl) \<Rightarrow> Some (False, t\<lparr>tc_ssl := ssl\<rparr>, w)
         | (Ssl_want_read, ssl) \<Rightarrow>
             Option.bind (want_read env ossl (t\<lparr>tc_ssl := ssl\<rparr>) RELAY_SPLIT_NONE deadline_ms w) (\<lambda>(ok, t, w).
               if \<not> ok then Some (False, t, w) else tlsc_write env ossl t buf deadline_ms w))
      else flush_out env ossl t RELAY_SPLIT_NONE w)"

text \<open>\<^const>\<open>None\<close> is the result -1.\<close>

partial_function (option) tlsc_read :: "'u dialling \<Rightarrow> ('l, 'u) openssl \<Rightarrow> 'l tlsc \<Rightarrow> nat \<Rightarrow> int \<Rightarrow> 'u net \<Rightarrow> (bytes option \<times> 'l tlsc \<times> 'u net) option" where
  "tlsc_read env ossl t room deadline_ms w =
     (case o_read ossl room (tc_ssl t) of
        (Ssl_done b, ssl) \<Rightarrow> Some (Some b, t\<lparr>tc_ssl := ssl\<rparr>, w)
      | (Ssl_failed, ssl) \<Rightarrow> Some (None, t\<lparr>tc_ssl := ssl\<rparr>, w)
      | (Ssl_want_read, ssl) \<Rightarrow>
          Option.bind (want_read env ossl (t\<lparr>tc_ssl := ssl\<rparr>) RELAY_SPLIT_NONE deadline_ms w) (\<lambda>(ok, t, w).
            if \<not> ok then Some (None, t, w) else tlsc_read env ossl t room deadline_ms w))"

section \<open>What is relied on\<close>

text \<open>The account of a session since it was made: the pieces read out of its output buffer, the bytes written into
  its input buffer, and the bytes \<open>SSL_read\<close> has given.\<close>

record 'l account =
  ac_out :: "'l \<Rightarrow> bytes list"
  ac_fed :: "'l \<Rightarrow> bytes"
  ac_plain :: "'l \<Rightarrow> bytes"

definition ssl_kept :: "'l account \<Rightarrow> 'l \<Rightarrow> 'l \<Rightarrow> bool" where
  "ssl_kept ac ssl ssl' \<longleftrightarrow> ac_out ac ssl' = ac_out ac ssl \<and> ac_fed ac ssl' = ac_fed ac ssl \<and> ac_plain ac ssl' = ac_plain ac ssl"

text \<open>The documented behaviour of the library: reading the output buffer takes bytes out of it, and writing the
  input buffer takes a prefix; \<open>SSL_write\<close> takes at least a byte and \<open>SSL_read\<close> gives at least one, when they
  succeed.\<close>

definition ssl_ok :: "('l, 'u) openssl \<Rightarrow> ('u \<Rightarrow> nat) \<Rightarrow> 'l account \<Rightarrow> bool" where
  "ssl_ok ossl work ac \<longleftrightarrow>
     (\<forall>host u. case o_new ossl host u of (new, u') \<Rightarrow> work u' \<le> work u \<and> (\<forall>ssl. new = Some ssl \<longrightarrow> ac_out ac ssl = [] \<and> ac_fed ac ssl = [])) \<and>
     (\<forall>ssl. ssl_kept ac ssl (snd (o_handshake ossl ssl))) \<and>
     (\<forall>ssl b. case o_write ossl b ssl of (r, ssl') \<Rightarrow> ssl_kept ac ssl ssl' \<and> (\<forall>n. r = Ssl_done n \<longrightarrow> 0 < n \<and> n \<le> length b)) \<and>
     (\<forall>ssl room. case o_read ossl room ssl of
        (Ssl_done b, ssl') \<Rightarrow> b \<noteq> [] \<and> length b \<le> room \<and> ac_out ac ssl' = ac_out ac ssl \<and> ac_fed ac ssl' = ac_fed ac ssl \<and> ac_plain ac ssl' = ac_plain ac ssl @ b
      | (_, ssl') \<Rightarrow> ssl_kept ac ssl ssl') \<and>
     (\<forall>ssl n. case o_bio_read ossl n ssl of
        (None, ssl') \<Rightarrow> ssl_kept ac ssl ssl'
      | (Some b, ssl') \<Rightarrow> ac_out ac ssl' = ac_out ac ssl @ [b] \<and> ac_fed ac ssl' = ac_fed ac ssl \<and> ac_plain ac ssl' = ac_plain ac ssl \<and>
          b \<noteq> [] \<and> o_pending ossl ssl' < o_pending ossl ssl) \<and>
     (\<forall>ssl b. case o_bio_write ossl b ssl of (n, ssl') \<Rightarrow>
        ac_out ac ssl' = ac_out ac ssl \<and> ac_fed ac ssl' = ac_fed ac ssl @ take n b \<and> ac_plain ac ssl' = ac_plain ac ssl)"

lemma ssl_laws:
  assumes "ssl_ok ossl work ac"
  shows "o_new ossl host u = (new, u') \<Longrightarrow> work u' \<le> work u \<and> (\<forall>ssl. new = Some ssl \<longrightarrow> ac_out ac ssl = [] \<and> ac_fed ac ssl = [])"
    "o_handshake ossl ssl = (h, ssl') \<Longrightarrow> ssl_kept ac ssl ssl'"
    "o_write ossl b ssl = (r, ssl') \<Longrightarrow> ssl_kept ac ssl ssl' \<and> (\<forall>n. r = Ssl_done n \<longrightarrow> 0 < n \<and> n \<le> length b)"
    "o_read ossl room ssl = (Ssl_done b, ssl') \<Longrightarrow> b \<noteq> [] \<and> length b \<le> room \<and> ac_out ac ssl' = ac_out ac ssl \<and> ac_fed ac ssl' = ac_fed ac ssl \<and> ac_plain ac ssl' = ac_plain ac ssl @ b"
    "o_read ossl room ssl = (d, ssl') \<Longrightarrow> (\<And>b. d \<noteq> Ssl_done b) \<Longrightarrow> ssl_kept ac ssl ssl'"
    "o_bio_read ossl n ssl = (None, ssl') \<Longrightarrow> ssl_kept ac ssl ssl'"
    "o_bio_read ossl n ssl = (Some b, ssl') \<Longrightarrow> ac_out ac ssl' = ac_out ac ssl @ [b] \<and> ac_fed ac ssl' = ac_fed ac ssl \<and> ac_plain ac ssl' = ac_plain ac ssl \<and>
      b \<noteq> [] \<and> o_pending ossl ssl' < o_pending ossl ssl"
    "o_bio_write ossl b ssl = (k, ssl') \<Longrightarrow> ac_out ac ssl' = ac_out ac ssl \<and> ac_fed ac ssl' = ac_fed ac ssl @ take k b \<and> ac_plain ac ssl' = ac_plain ac ssl"
proof -
  note laws = assms [unfolded ssl_ok_def]
  note rest = laws [THEN conjunct2, THEN conjunct2]
  note reading = rest [THEN conjunct2, THEN conjunct1]
  note bio = rest [THEN conjunct2, THEN conjunct2, THEN conjunct1]
  show "o_new ossl host u = (new, u') \<Longrightarrow> work u' \<le> work u \<and> (\<forall>ssl. new = Some ssl \<longrightarrow> ac_out ac ssl = [] \<and> ac_fed ac ssl = [])"
    using laws [THEN conjunct1] by (elim allE [of _ host] allE [of _ u]) simp
  show "o_handshake ossl ssl = (h, ssl') \<Longrightarrow> ssl_kept ac ssl ssl'"
    using laws [THEN conjunct2, THEN conjunct1] by (elim allE [of _ ssl]) simp
  show "o_write ossl b ssl = (r, ssl') \<Longrightarrow> ssl_kept ac ssl ssl' \<and> (\<forall>n. r = Ssl_done n \<longrightarrow> 0 < n \<and> n \<le> length b)"
    using rest [THEN conjunct1] by (elim allE [of _ ssl] allE [of _ b]) simp
  show "o_read ossl room ssl = (Ssl_done b, ssl') \<Longrightarrow> b \<noteq> [] \<and> length b \<le> room \<and> ac_out ac ssl' = ac_out ac ssl \<and> ac_fed ac ssl' = ac_fed ac ssl \<and> ac_plain ac ssl' = ac_plain ac ssl @ b"
    using reading by (elim allE [of _ ssl] allE [of _ room]) simp
  show "o_read ossl room ssl = (d, ssl') \<Longrightarrow> (\<And>b. d \<noteq> Ssl_done b) \<Longrightarrow> ssl_kept ac ssl ssl'"
    using reading by (elim allE [of _ ssl] allE [of _ room]) (cases d; auto)
  show "o_bio_read ossl n ssl = (None, ssl') \<Longrightarrow> ssl_kept ac ssl ssl'"
    using bio by (elim allE [of _ ssl] allE [of _ n]) simp
  show "o_bio_read ossl n ssl = (Some b, ssl') \<Longrightarrow> ac_out ac ssl' = ac_out ac ssl @ [b] \<and> ac_fed ac ssl' = ac_fed ac ssl \<and> ac_plain ac ssl' = ac_plain ac ssl \<and>
      b \<noteq> [] \<and> o_pending ossl ssl' < o_pending ossl ssl"
    using bio by (elim allE [of _ ssl] allE [of _ n]) simp
  show "o_bio_write ossl b ssl = (k, ssl') \<Longrightarrow> ac_out ac ssl' = ac_out ac ssl \<and> ac_fed ac ssl' = ac_fed ac ssl @ take k b \<and> ac_plain ac ssl' = ac_plain ac ssl"
    using rest [THEN conjunct2, THEN conjunct2, THEN conjunct2] by (elim allE [of _ ssl] allE [of _ b]) simp
qed

section \<open>What moves\<close>

text \<open>The pieces as they go on the wire, the first in the form of its split mode.\<close>

definition wire :: "relay_split \<Rightarrow> bytes list \<Rightarrow> bytes" where
  "wire split cs = (case cs of [] \<Rightarrow> [] | c # cs \<Rightarrow> first_write c split @ concat cs)"

lemma wire_simps [simp]: "wire split [] = []" "wire split (c # cs) = first_write c split @ concat cs"
  by (simp_all add: wire_def)

lemma first_write_none [simp]: "first_write b RELAY_SPLIT_NONE = b"
  by (simp add: first_write_def split: option.split)

lemma wire_none [simp]: "wire RELAY_SPLIT_NONE cs = concat cs"
  by (cases cs) simp_all

text \<open>A call on a session: nothing else than this socket is used, and the pieces of the output go out in order,
  those \<open>cs1\<close> of the first flight in their form and the others \<open>cs2\<close> as they are; the input is what was received. When the
  call fails the last of these may be cut.\<close>

definition moved :: "'l account \<Rightarrow> int \<Rightarrow> relay_split \<Rightarrow> 'l \<Rightarrow> 'l \<Rightarrow> bool \<Rightarrow> net_event list \<Rightarrow> bool" where
  "moved ac fd split ssl ssl' ok evs \<longleftrightarrow> on_fd fd evs \<and> (\<exists>cs1 cs2 x. ac_out ac ssl' = ac_out ac ssl @ cs1 @ cs2 \<and> ac_fed ac ssl' = ac_fed ac ssl @ x \<and>
     prefix x (rcvd_on fd evs) \<and> prefix (sent_on fd evs) (wire split cs1 @ concat cs2) \<and>
     (ok \<longrightarrow> sent_on fd evs = wire split cs1 @ concat cs2 \<and> x = rcvd_on fd evs))"

lemma movedI:
  "on_fd fd evs \<Longrightarrow> ac_out ac ssl' = ac_out ac ssl @ cs1 @ cs2 \<Longrightarrow> ac_fed ac ssl' = ac_fed ac ssl @ x \<Longrightarrow> prefix x (rcvd_on fd evs) \<Longrightarrow>
   prefix (sent_on fd evs) (wire split cs1 @ concat cs2) \<Longrightarrow> (ok \<Longrightarrow> sent_on fd evs = wire split cs1 @ concat cs2 \<and> x = rcvd_on fd evs) \<Longrightarrow>
   moved ac fd split ssl ssl' ok evs"
  unfolding moved_def by blast

lemma moved_nothing: "ac_out ac ssl' = ac_out ac ssl \<Longrightarrow> ac_fed ac ssl' = ac_fed ac ssl \<Longrightarrow> moved ac fd split ssl ssl' ok []"
  by (rule movedI [where ?cs1.0 = "[]" and ?cs2.0 = "[]" and x = "[]"]) simp_all

lemma moved_trans:
  assumes "moved ac fd split ssl ssl1 True evs1" "moved ac fd RELAY_SPLIT_NONE ssl1 ssl2 ok evs2"
  shows "moved ac fd split ssl ssl2 ok (evs1 @ evs2)"
proof -
  obtain a1 a2 where a: "on_fd fd evs1" "ac_out ac ssl1 = ac_out ac ssl @ a1 @ a2" "ac_fed ac ssl1 = ac_fed ac ssl @ rcvd_on fd evs1"
    "sent_on fd evs1 = wire split a1 @ concat a2" using assms(1) unfolding moved_def by auto
  obtain b1 b2 x where b: "on_fd fd evs2" "ac_out ac ssl2 = ac_out ac ssl1 @ b1 @ b2" "ac_fed ac ssl2 = ac_fed ac ssl1 @ x" "prefix x (rcvd_on fd evs2)"
    "prefix (sent_on fd evs2) (concat b1 @ concat b2)" "ok \<longrightarrow> sent_on fd evs2 = concat b1 @ concat b2 \<and> x = rcvd_on fd evs2"
    using assms(2) unfolding moved_def by auto
  show ?thesis
    by (rule movedI [where ?cs1.0 = a1 and ?cs2.0 = "a2 @ b1 @ b2" and x = "rcvd_on fd evs1 @ x"]) (use a b in auto)
qed

text \<open>The result of a call: it returns, \<open>good\<close> tells whether the session is still usable, with \<open>strict\<close> it then
  received something, and \<open>Q\<close> relates the result to the bytes that \<open>SSL_read\<close> gave meanwhile.\<close>

definition ran :: "('u \<Rightarrow> nat) \<Rightarrow> 'l account \<Rightarrow> relay_split \<Rightarrow> bool \<Rightarrow> ('x \<Rightarrow> bool) \<Rightarrow> ('x \<Rightarrow> bytes \<Rightarrow> bool) \<Rightarrow> 'l tlsc \<Rightarrow> 'u net \<Rightarrow>
    ('x \<times> 'l tlsc \<times> 'u net) option \<Rightarrow> bool" where
  "ran work ac split strict good Q t w res \<longleftrightarrow> (\<exists>x t' u evs got. res = Some (x, t', u, snd w @ evs) \<and> tc_fd t' = tc_fd t \<and>
     work u \<le> work (fst w) \<and> moved ac (tc_fd t) split (tc_ssl t) (tc_ssl t') (good x) evs \<and> (strict \<and> good x \<longrightarrow> work u < work (fst w)) \<and>
     ac_plain ac (tc_ssl t') = ac_plain ac (tc_ssl t) @ got \<and> Q x got)"

lemma ranI:
  "res = Some (x, t', u, snd w @ evs) \<Longrightarrow> tc_fd t' = tc_fd t \<Longrightarrow> work u \<le> work (fst w) \<Longrightarrow>
   moved ac (tc_fd t) split (tc_ssl t) (tc_ssl t') (good x) evs \<Longrightarrow> (strict \<Longrightarrow> good x \<Longrightarrow> work u < work (fst w)) \<Longrightarrow>
   ac_plain ac (tc_ssl t') = ac_plain ac (tc_ssl t) @ got \<Longrightarrow> Q x got \<Longrightarrow> ran work ac split strict good Q t w res"
  unfolding ran_def by blast

definition silent :: "'x \<Rightarrow> bytes \<Rightarrow> bool" where
  "silent x got \<longleftrightarrow> got = []"

lemma silent_Nil [simp]: "silent x []"
  by (simp add: silent_def)

lemma ran_after:
  assumes "moved ac (tc_fd t) split (tc_ssl t) (tc_ssl t1) True evs" "tc_fd t1 = tc_fd t" "work u \<le> work (fst w)"
    "ac_plain ac (tc_ssl t1) = ac_plain ac (tc_ssl t) @ got"
    and "ran work ac RELAY_SPLIT_NONE strict good (\<lambda>x got'. Q x (got @ got')) t1 (u, snd w @ evs) res"
  shows "ran work ac split strict good Q t w res"
proof -
  obtain x t' u' evs' got' where h: "res = Some (x, t', u', snd w @ evs @ evs')" "tc_fd t' = tc_fd t1" "work u' \<le> work u"
    "moved ac (tc_fd t1) RELAY_SPLIT_NONE (tc_ssl t1) (tc_ssl t') (good x) evs'" "strict \<and> good x \<longrightarrow> work u' < work u"
    "ac_plain ac (tc_ssl t') = ac_plain ac (tc_ssl t1) @ got'" "Q x (got @ got')"
    using assms(5) unfolding ran_def fst_conv snd_conv append_assoc by blast
  show ?thesis
    by (rule ranI [of _ x t' u' _ "evs @ evs'" _ _ _ _ _ _ "got @ got'"]) (use h assms(2-4) moved_trans [OF assms(1)] in auto)
qed

text \<open>The library's own calls move nothing.\<close>

lemma ran_silent:
  assumes "ssl_kept ac (tc_ssl t) ssl" "ran work ac split strict good Q (t\<lparr>tc_ssl := ssl\<rparr>) w res"
  shows "ran work ac split strict good Q t w res"
  using assms unfolding ran_def moved_def ssl_kept_def by simp

section \<open>Each call\<close>

lemma sends_to_on_fd [simp]: "sends_to fd tr \<Longrightarrow> on_fd fd tr"
  by (induction tr) (auto simp: sends_to_def on_fd_def split: net_event.splits)

lemma moved_piece:
  assumes "ac_out ac ssl' = ac_out ac ssl @ [b]" "ac_fed ac ssl' = ac_fed ac ssl" "sends_to fd evs" "sent_on fd evs = take m (first_write b split)"
    "ok \<Longrightarrow> m = length (first_write b split)"
  shows "moved ac fd split ssl ssl' ok evs"
  by (rule movedI [where ?cs1.0 = "[b]" and ?cs2.0 = "[]" and x = "[]"])
    (use assms sends_to_other(2) [OF assms(3)] in \<open>auto simp: take_is_prefix\<close>)

lemma flush_out_ran:
  assumes io: "send_ok (n_io env) work" and ssl: "ssl_ok ossl work ac"
  shows "ran work ac split False id silent t w (flush_out env ossl t split w)"
proof (induction "o_pending ossl (tc_ssl t)" arbitrary: t split w rule: less_induct)
  case less
  show ?case
  proof (cases "o_pending ossl (tc_ssl t) > 0")
    case False
    then show ?thesis
      by (intro ranI [of _ True t "fst w" _ "[]" _ _ _ _ _ _ "[]"]) (simp_all add: flush_out.simps moved_nothing silent_def)
  next
    case True
    obtain piece ssl' where b: "o_bio_read ossl 16384 (tc_ssl t) = (piece, ssl')" by fastforce
    show ?thesis
    proof (cases piece)
      case None
      then show ?thesis using True b ssl_laws(6) [OF ssl, of 16384 "tc_ssl t" ssl']
        by (intro ranI [of _ False "t\<lparr>tc_ssl := ssl'\<rparr>" "fst w" _ "[]" _ _ _ _ _ _ "[]"]) (simp_all add: flush_out.simps moved_nothing ssl_kept_def silent_def)
    next
      case (Some buf)
      note law = ssl_laws(7) [OF ssl b [unfolded Some]]
      from relay_send_first_sends [OF io, of "tc_fd t" buf split w]
      obtain ok u evs m where s: "relay_send_first (n_io env) (tc_fd t) buf split w = Some (ok, u, snd w @ evs)" "sends_to (tc_fd t) evs"
        "sent_on (tc_fd t) evs = take m (first_write buf split)" "if ok then m = length (first_write buf split) else send_failed evs" "work u \<le> work (fst w)"
        by (auto simp: sends_def)
      have mv: "moved ac (tc_fd t) split (tc_ssl t) ssl' ok evs"
        by (rule moved_piece [OF _ _ s(2,3)]) (use law s(4) in auto)
      have eq: "flush_out env ossl t split w = (if ok then flush_out env ossl (t\<lparr>tc_ssl := ssl'\<rparr>) RELAY_SPLIT_NONE (u, snd w @ evs)
          else Some (False, t\<lparr>tc_ssl := ssl'\<rparr>, u, snd w @ evs))"
        using True b Some s(1) by (subst flush_out.simps) simp
      show ?thesis
      proof (cases ok)
        case True
        have "ran work ac RELAY_SPLIT_NONE False id silent (t\<lparr>tc_ssl := ssl'\<rparr>) (u, snd w @ evs)
            (flush_out env ossl (t\<lparr>tc_ssl := ssl'\<rparr>) RELAY_SPLIT_NONE (u, snd w @ evs))"
          using less [of "t\<lparr>tc_ssl := ssl'\<rparr>"] law by simp
        then show ?thesis unfolding eq using True mv law s(5)
          by (simp add: ran_after [where got = "[]" and ?t1.0 = "t\<lparr>tc_ssl := ssl'\<rparr>" and u = u and evs = evs])
      next
        case False
        then show ?thesis unfolding eq using s(5) mv law
          by (intro ranI [of _ False "t\<lparr>tc_ssl := ssl'\<rparr>" u _ evs _ _ _ _ _ _ "[]"]) (simp_all add: silent_def)
      qed
    qed
  qed
qed

lemma recv_retry_work:
  assumes io: "recv_ok io work"
  shows "\<exists>r u evs. recv_retry io fd w = Some (r, u, snd w @ evs) \<and> reads fd evs \<and> work u \<le> work (fst w) \<and>
    (case r of Received b \<Rightarrow> rcvd_on fd evs = b \<and> length b \<le> BUFFER_SIZE \<and> (b \<noteq> [] \<longrightarrow> work u < work (fst w)) | _ \<Rightarrow> rcvd_on fd evs = [])"
proof (induction "work (fst w)" arbitrary: w rule: less_induct)
  case less
  obtain r u where p: "s_recv io fd BUFFER_SIZE (fst w) = (r, u)" by fastforce
  have step: "do_recv io fd BUFFER_SIZE w = (r, u, snd w @ [Ev_recv fd r])" by (simp add: do_recv_def p)
  note law = recv_law [OF io p]
  show ?case
  proof (cases "r = Recv_interrupted")
    case True
    then obtain r' u' evs where "recv_retry io fd (u, snd w @ [Ev_recv fd r]) = Some (r', u', snd w @ Ev_recv fd r # evs)" "reads fd evs" "work u' \<le> work u"
        "case r' of Received b \<Rightarrow> rcvd_on fd evs = b \<and> length b \<le> BUFFER_SIZE \<and> (b \<noteq> [] \<longrightarrow> work u' < work u) | _ \<Rightarrow> rcvd_on fd evs = []"
      using less [of "(u, snd w @ [Ev_recv fd r])", unfolded fst_conv snd_conv] law by auto
    then show ?thesis using True step law
      by (subst recv_retry.simps) (intro exI [of _ r'] exI [of _ u'] exI [of _ "Ev_recv fd r # evs"], auto simp: reads_def split: recv_result.splits)
  next
    case False
    then show ?thesis using step law
      by (subst recv_retry.simps) (cases r; auto simp: reads_def intro!: exI [of _ "[Ev_recv fd r]"] split: if_splits)
  qed
qed

lemma feed_in_ran:
  assumes env: "dialling_ok env work" and io: "recv_ok (n_io env) work" and ssl: "ssl_ok ossl work ac"
  shows "ran work ac RELAY_SPLIT_NONE True id silent t w (feed_in env ossl t deadline w)"
proof -
  note law = dialling_laws [OF env]
  obtain now u1 where n: "n_now_ms env (fst w) = (now, u1)" by fastforce
  obtain ready u2 where i: "n_wait_in env (tc_fd t) (deadline - now) u1 = (ready, u2)" by fastforce
  note le = law(7) [OF n] law(4) [OF i]
  obtain r u3 evs where r: "recv_retry (n_io env) (tc_fd t) (u2, snd w) = Some (r, u3, snd w @ evs)" "reads (tc_fd t) evs" "work u3 \<le> work u2"
    "case r of Received b \<Rightarrow> rcvd_on (tc_fd t) evs = b \<and> length b \<le> BUFFER_SIZE \<and> (b \<noteq> [] \<longrightarrow> work u3 < work u2) | _ \<Rightarrow> rcvd_on (tc_fd t) evs = []"
    using recv_retry_work [OF io, of "tc_fd t" "(u2, snd w)", unfolded fst_conv snd_conv] by blast
  have stop: "ran work ac RELAY_SPLIT_NONE True id silent t w (Some (False, t, u, snd w @ evs'))" if "work u \<le> work (fst w)" "reads (tc_fd t) evs'" for u evs'
    using that reads_on(1) [OF that(2), of "tc_fd t"]
    by (intro ranI [of _ False t u _ evs' _ _ _ _ _ _ "[]"] movedI [where ?cs1.0 = "[]" and ?cs2.0 = "[]" and x = "[]"]) (simp_all add: silent_def)
  have eq: "feed_in env ossl t deadline w = (if deadline - now \<le> 0 then Some (False, t, u1, snd w @ [])
      else if \<not> ready then Some (False, t, u2, snd w @ [])
      else (case r of Received buf \<Rightarrow>
              if buf = [] then Some (False, t, u3, snd w @ evs)
              else (case o_bio_write ossl buf (tc_ssl t) of (n, ssl) \<Rightarrow> Some (n = length buf, t\<lparr>tc_ssl := ssl\<rparr>, u3, snd w @ evs))
          | _ \<Rightarrow> Some (False, t, u3, snd w @ evs)))"
    by (simp add: feed_in_def on_net_def n i r(1) Let_def cong: if_cong)
  consider (no) "deadline - now \<le> 0 \<or> \<not> ready \<or> (\<forall>b. r = Received b \<longrightarrow> b = [])" | (got) b where "0 < deadline - now" "ready" "r = Received b" "b \<noteq> []"
    by force
  then show ?thesis
  proof cases
    case no
    have "ran work ac RELAY_SPLIT_NONE True id silent t w (Some (False, t, u1, snd w @ []))" "ran work ac RELAY_SPLIT_NONE True id silent t w (Some (False, t, u2, snd w @ []))"
      "ran work ac RELAY_SPLIT_NONE True id silent t w (Some (False, t, u3, snd w @ evs))"
      using stop [of u1 "[]"] stop [of u2 "[]"] stop [of u3 evs] le r(2,3) by (simp_all add: reads_def)
    then show ?thesis unfolding eq using no by (cases r) auto
  next
    case (got b)
    obtain k ssl' where k: "o_bio_write ossl b (tc_ssl t) = (k, ssl')" by fastforce
    have b: "rcvd_on (tc_fd t) evs = b" "work u3 < work u2" using r(4) got by auto
    show ?thesis
      by (rule ranI [of _ "k = length b" "t\<lparr>tc_ssl := ssl'\<rparr>" u3 _ evs _ _ _ _ _ _ "[]"])
        (use got k b le r(2) ssl_laws(8) [OF ssl k] reads_on(1) [OF r(2), of "tc_fd t"] in
          \<open>auto simp: eq take_is_prefix silent_def intro!: movedI [where ?cs1.0 = "[]" and ?cs2.0 = "[]" and x = "take k b"]\<close>)
  qed
qed

lemma want_read_ran:
  assumes "dialling_ok env work" "recv_ok (n_io env) work" "send_ok (n_io env) work" "ssl_ok ossl work ac"
  shows "ran work ac split True id silent t w (want_read env ossl t split deadline w)"
proof -
  obtain ok t' u evs where f: "flush_out env ossl t split w = Some (ok, t', u, snd w @ evs)" "tc_fd t' = tc_fd t" "work u \<le> work (fst w)"
    "moved ac (tc_fd t) split (tc_ssl t) (tc_ssl t') ok evs" "ac_plain ac (tc_ssl t') = ac_plain ac (tc_ssl t)"
    using flush_out_ran [OF assms(3,4), of split t w] by (auto simp: ran_def silent_def)
  show ?thesis
  proof (cases ok)
    case True
    have "ran work ac RELAY_SPLIT_NONE True id silent t' (u, snd w @ evs) (feed_in env ossl t' deadline (u, snd w @ evs))"
      by (rule feed_in_ran [OF assms(1,2,4)])
    then show ?thesis using f True
      by (simp add: want_read_def ran_after [where got = "[]" and ?t1.0 = t' and u = u and evs = evs])
  next
    case False
    then show ?thesis using f by (intro ranI [of _ False t' u _ evs _ _ _ _ _ _ "[]"]) (simp_all add: want_read_def silent_def)
  qed
qed

text \<open>The three loops: more input is awaited and the loop goes on, with less left to do.\<close>

lemma ran_want_read:
  assumes laws: "dialling_ok env work" "recv_ok (n_io env) work" "send_ok (n_io env) work" "ssl_ok ossl work ac"
    and kept: "ssl_kept ac (tc_ssl t) ssl'" and bad: "\<not> good x" "Q x []"
    and go: "\<And>t1 u evs. work u < work (fst w) \<Longrightarrow> ran work ac RELAY_SPLIT_NONE False good Q t1 (u, snd w @ evs) (go t1 (u, snd w @ evs))"
  shows "ran work ac split False good Q t w
    (Option.bind (want_read env ossl (t\<lparr>tc_ssl := ssl'\<rparr>) split deadline w) (\<lambda>(ok, t, w). if \<not> ok then Some (x, t, w) else go t w))"
proof -
  obtain ok t1 u evs where f: "want_read env ossl (t\<lparr>tc_ssl := ssl'\<rparr>) split deadline w = Some (ok, t1, u, snd w @ evs)" "tc_fd t1 = tc_fd t"
    "work u \<le> work (fst w)" "moved ac (tc_fd t) split ssl' (tc_ssl t1) ok evs" "ok \<longrightarrow> work u < work (fst w)" "ac_plain ac (tc_ssl t1) = ac_plain ac ssl'"
    using want_read_ran [OF laws, of split "t\<lparr>tc_ssl := ssl'\<rparr>" w deadline] by (auto simp: ran_def silent_def)
  have mv: "moved ac (tc_fd t) split (tc_ssl t) (tc_ssl t1) ok evs" "ac_plain ac (tc_ssl t1) = ac_plain ac (tc_ssl t)"
    using f(4,6) kept by (simp_all add: moved_def ssl_kept_def)
  show ?thesis
  proof (cases ok)
    case True
    then show ?thesis using mv f(1-3,5) go [of u t1 evs] by (simp add: ran_after [where got = "[]" and ?t1.0 = t1 and u = u and evs = evs])
  next
    case False
    then show ?thesis using f mv bad by (intro ranI [of _ x t1 u _ evs _ _ _ _ _ _ "[]"]) simp_all
  qed
qed

lemma ran_now:
  "ssl_kept ac (tc_ssl t) ssl' \<Longrightarrow> Q x [] \<Longrightarrow> ran work ac split False good Q t w (Some (x, t\<lparr>tc_ssl := ssl'\<rparr>, w))"
  by (rule ranI [of _ x "t\<lparr>tc_ssl := ssl'\<rparr>" "fst w" _ "[]" _ _ _ _ _ _ "[]"]) (simp_all add: moved_nothing ssl_kept_def)

lemma handshake_loop_ran:
  assumes laws: "dialling_ok env work" "recv_ok (n_io env) work" "send_ok (n_io env) work" "ssl_ok ossl work ac"
  shows "ran work ac (if first then split else RELAY_SPLIT_NONE) False id silent t w (handshake_loop env ossl t split deadline first w)"
proof (induction "work (fst w)" arbitrary: t first w rule: less_induct)
  case less
  obtain r ssl' where h: "o_handshake ossl (tc_ssl t) = (r, ssl')" by fastforce
  note kept = ssl_laws(2) [OF laws(4) h]
  have go: "ran work ac RELAY_SPLIT_NONE False id silent t1 (u, snd w @ evs) (handshake_loop env ossl t1 split deadline False (u, snd w @ evs))"
    if "work u < work (fst w)" for t1 u evs using less [of "(u, snd w @ evs)" False t1] that by simp
  show ?case
    using ran_want_read [where good = id and Q = silent and x = False and go = "\<lambda>t. handshake_loop env ossl t split deadline False", OF laws kept _ _ go]
      ran_now [OF kept, where work = work and good = id and Q = silent and w = w]
    by (subst handshake_loop.simps) (simp add: h split: ssl_result.split)
qed

definition read_gives :: "nat \<Rightarrow> bytes option \<Rightarrow> bytes \<Rightarrow> bool" where
  "read_gives room x got \<longleftrightarrow> (case x of None \<Rightarrow> got = [] | Some b \<Rightarrow> got = b \<and> b \<noteq> [] \<and> length b \<le> room)"

lemma read_gives_None [simp]: "read_gives room None []"
  by (simp add: read_gives_def)

lemma tlsc_read_ran:
  assumes laws: "dialling_ok env work" "recv_ok (n_io env) work" "send_ok (n_io env) work" "ssl_ok ossl work ac"
  shows "ran work ac RELAY_SPLIT_NONE False (\<lambda>x. x \<noteq> None) (read_gives room) t w (tlsc_read env ossl t room deadline w)"
proof (induction "work (fst w)" arbitrary: t w rule: less_induct)
  case less
  obtain r ssl' where h: "o_read ossl room (tc_ssl t) = (r, ssl')" by fastforce
  have go: "ran work ac RELAY_SPLIT_NONE False (\<lambda>x. x \<noteq> None) (read_gives room) t1 (u, snd w @ evs) (tlsc_read env ossl t1 room deadline (u, snd w @ evs))"
    if "work u < work (fst w)" for t1 u evs using less [of "(u, snd w @ evs)" t1] that by simp
  show ?case
  proof (cases "\<exists>b. r = Ssl_done b")
    case True
    then obtain b where b: "r = Ssl_done b" by blast
    show ?thesis
      by (rule ranI [of _ "Some b" "t\<lparr>tc_ssl := ssl'\<rparr>" "fst w" _ "[]" _ _ _ _ _ _ b])
        (use ssl_laws(4) [OF laws(4) h [unfolded b]] in \<open>simp_all add: tlsc_read.simps h b moved_nothing read_gives_def\<close>)
  next
    case False
    have kept: "ssl_kept ac (tc_ssl t) ssl'" using ssl_laws(5) [OF laws(4) h] False by blast
    show ?thesis
      using False ran_want_read [where good = "\<lambda>x. x \<noteq> None" and Q = "read_gives room" and x = None and go = "\<lambda>t. tlsc_read env ossl t room deadline", OF laws kept _ _ go]
        ran_now [OF kept, where work = work and good = "\<lambda>x :: bytes option. x \<noteq> None" and Q = "read_gives room" and w = w]
      by (subst tlsc_read.simps) (simp add: h split: ssl_result.split)
  qed
qed

lemma tlsc_write_ran:
  assumes laws: "dialling_ok env work" "recv_ok (n_io env) work" "send_ok (n_io env) work" "ssl_ok ossl work ac"
  shows "ran work ac RELAY_SPLIT_NONE False id silent t w (tlsc_write env ossl t buf deadline w)"
proof (induction "length buf + work (fst w)" arbitrary: buf t w rule: less_induct)
  case less
  obtain r ssl' where h: "o_write ossl buf (tc_ssl t) = (r, ssl')" by fastforce
  have kept: "ssl_kept ac (tc_ssl t) ssl'" and n: "\<And>n. r = Ssl_done n \<Longrightarrow> 0 < n \<and> n \<le> length buf" using ssl_laws(3) [OF laws(4) h] by blast+
  have go: "ran work ac RELAY_SPLIT_NONE False id silent t1 (u, snd w @ evs) (tlsc_write env ossl t1 buf deadline (u, snd w @ evs))"
    if "work u < work (fst w)" for t1 u evs using less [of buf "(u, snd w @ evs)" t1] that by simp
  have "ran work ac RELAY_SPLIT_NONE False id silent t w (tlsc_write env ossl (t\<lparr>tc_ssl := ssl'\<rparr>) (drop k buf) deadline w)" if "r = Ssl_done k" "buf \<noteq> []" for k
    using ran_silent [OF kept less [of "drop k buf" w "t\<lparr>tc_ssl := ssl'\<rparr>"]] n [OF that(1)] that(2) by (cases buf) auto
  then show ?case
    using ran_want_read [where good = id and Q = silent and x = False and go = "\<lambda>t. tlsc_write env ossl t buf deadline", OF laws kept _ _ go]
      ran_now [OF kept, where work = work and good = id and Q = silent and w = w] flush_out_ran [OF laws(3,4), of RELAY_SPLIT_NONE t w]
    by (subst tlsc_write.simps) (simp add: h split: ssl_result.split)
qed

section \<open>A whole handshake\<close>

lemma handshake_ok:
  assumes laws: "dialling_ok env work" "recv_ok (n_io env) work" "send_ok (n_io env) work" "ssl_ok ossl work ac" and fd: "0 \<le> fd"
  shows "\<exists>result session u evs. tlsc_handshake env ossl fd host split deadline require_valid w = Some (result, session, u, snd w @ evs) \<and>
    work u \<le> work (fst w) \<and>
    (case session of
       None \<Rightarrow> (\<exists>mid. evs = mid @ [Ev_close fd] \<and> on_fd fd mid) \<and> (result = TLSC_FAILED \<or> require_valid \<and> result = TLSC_BAD_CERT)
     | Some t \<Rightarrow> tc_fd t = fd \<and> on_fd fd evs \<and> (result = (if o_verified ossl (tc_ssl t) then TLSC_OK else TLSC_BAD_CERT)) \<and>
         (require_valid \<longrightarrow> result = TLSC_OK) \<and>
         (\<exists>flight rest. ac_out ac (tc_ssl t) = flight @ rest \<and> sent_on fd evs = wire split flight @ concat rest \<and> ac_fed ac (tc_ssl t) = rcvd_on fd evs))"
proof -
  obtain new u0 where n: "o_new ossl host (fst w) = (new, u0)" by fastforce
  note n_law = ssl_laws(1) [OF laws(4) n]
  show ?thesis
  proof (cases new)
    case None
    then show ?thesis using n n_law dialling_laws(8) [OF laws(1), of fd u0] by (simp add: tlsc_handshake_def on_net_def compat_close_def)
  next
    case (Some ssl)
    let ?t = "\<lparr>tc_fd = fd, tc_ssl = ssl\<rparr>"
    have new: "ac_out ac ssl = []" "ac_fed ac ssl = []" "work u0 \<le> work (fst w)" using n_law Some by auto
    obtain ok1 t1 u1 e1 where h: "handshake_loop env ossl ?t split deadline True (u0, snd w) = Some (ok1, t1, u1, snd w @ e1)" "tc_fd t1 = fd" "work u1 \<le> work u0"
      "moved ac fd split ssl (tc_ssl t1) ok1 e1"
      using handshake_loop_ran [OF laws, of True split ?t "(u0, snd w)" deadline] by (auto simp: ran_def)
    obtain ok2 t2 u2 e2 where f: "flush_out env ossl t1 RELAY_SPLIT_NONE (u1, snd w @ e1) = Some (ok2, t2, u2, snd w @ e1 @ e2)" "tc_fd t2 = fd" "work u2 \<le> work u1"
      "moved ac fd RELAY_SPLIT_NONE (tc_ssl t1) (tc_ssl t2) ok2 e2"
      using flush_out_ran [OF laws(3,4), of RELAY_SPLIT_NONE t1 "(u1, snd w @ e1)"] h(2) by (auto simp: ran_def)
    define result where "result = (if o_verified ossl (tc_ssl t2) then TLSC_OK else TLSC_BAD_CERT)"
    have eq: "tlsc_handshake env ossl fd host split deadline require_valid w =
      (if \<not> ok1 then Some (TLSC_FAILED, None, tlsc_free env t1 (u1, snd w @ e1))
       else if \<not> ok2 then Some (TLSC_FAILED, None, tlsc_free env t2 (u2, snd w @ e1 @ e2))
       else if require_valid \<and> result \<noteq> TLSC_OK then Some (result, None, tlsc_free env t2 (u2, snd w @ e1 @ e2))
       else Some (result, Some t2, u2, snd w @ e1 @ e2))"
      using n Some by (simp add: tlsc_handshake_def on_net_def h(1) f(1) result_def Let_def cong: if_cong)
    have closing: "\<exists>u. tlsc_free env t (v, snd w @ mid) = (u, snd w @ mid @ [Ev_close fd]) \<and> work u \<le> work v" if "tc_fd t = fd" for t v mid
      using that fd dialling_laws(8) [OF laws(1), of fd v] by (simp add: tlsc_free_def compat_close_def)
    have on: "on_fd fd e1" "on_fd fd e2" using h(4) f(4) by (simp_all add: moved_def)
    consider "\<not> ok1" | "ok1" "\<not> ok2 \<or> require_valid \<and> result \<noteq> TLSC_OK" | "ok1" "ok2" "require_valid \<longrightarrow> result = TLSC_OK" by blast
    then show ?thesis
    proof cases
      case 1
      then show ?thesis using closing [OF h(2), of u1 e1] h(3) new(3) on by (force simp: eq)
    next
      case 2
      then show ?thesis using closing [OF f(2), of u2 "e1 @ e2"] f(3) h(3) new(3) on by (force simp: eq result_def)
    next
      case 3
      have "moved ac fd split ssl (tc_ssl t2) True (e1 @ e2)" using 3 h(4) f(4) by (intro moved_trans [of ac fd split ssl "tc_ssl t1"]) simp_all
      then show ?thesis using 3 h(3) f(2,3) new by (auto simp: eq moved_def result_def)
    qed
  qed
qed

section \<open>A library for examples\<close>

text \<open>A library that encrypts nothing: a session is its account, the contents of the two buffers, and whether the
  hello was written.\<close>

type_synonym null_session = "(bytes list \<times> bytes \<times> bytes) \<times> bytes \<times> bytes \<times> bool"

definition null_hello :: bytes where
  "null_hello = [0x16, 3, 1, 0, 4, 10, 11, 12, 13]"

fun null_handshake :: "null_session \<Rightarrow> unit ssl_result \<times> null_session" where
  "null_handshake (ac, pend, inb, greeted) =
     (if \<not> greeted then (Ssl_want_read, ac, pend @ null_hello, inb, True)
      else (if inb = [] then Ssl_want_read else Ssl_done (), ac, pend, drop 1 inb, True))"

fun null_write :: "bytes \<Rightarrow> null_session \<Rightarrow> nat ssl_result \<times> null_session" where
  "null_write b (ac, pend, inb, greeted) = (if b = [] then Ssl_failed else Ssl_done (length b), ac, pend @ b, inb, greeted)"

fun null_read :: "nat \<Rightarrow> null_session \<Rightarrow> bytes ssl_result \<times> null_session" where
  "null_read room ((log, fed, plain), pend, inb, greeted) =
     (if inb = [] \<or> room = 0 then (Ssl_want_read, (log, fed, plain), pend, inb, greeted)
      else (Ssl_done (take room inb), (log, fed, plain @ take room inb), pend, drop room inb, greeted))"

fun null_bio_read :: "nat \<Rightarrow> null_session \<Rightarrow> bytes option \<times> null_session" where
  "null_bio_read n ((log, fed, plain), pend, inb, greeted) =
     (if pend = [] \<or> n = 0 then (None, (log, fed, plain), pend, inb, greeted)
      else (Some (take n pend), (log @ [take n pend], fed, plain), drop n pend, inb, greeted))"

fun null_bio_write :: "bytes \<Rightarrow> null_session \<Rightarrow> nat \<times> null_session" where
  "null_bio_write b ((log, fed, plain), pend, inb, greeted) = (length b, (log, fed @ b, plain), pend, inb @ b, greeted)"

definition null_ssl :: "bool \<Rightarrow> (null_session, 'u) openssl" where
  "null_ssl valid = \<lparr>o_new = (\<lambda>host u. (Some (([], [], []), [], [], False), u)), o_handshake = null_handshake, o_write = null_write, o_read = null_read,
     o_pending = (\<lambda>(ac, pend, inb, greeted). length pend), o_bio_read = null_bio_read, o_bio_write = null_bio_write, o_verified = (\<lambda>ssl. valid)\<rparr>"

definition null_account :: "null_session account" where
  "null_account = \<lparr>ac_out = (\<lambda>ssl. fst (fst ssl)), ac_fed = (\<lambda>ssl. fst (snd (fst ssl))), ac_plain = (\<lambda>ssl. snd (snd (fst ssl)))\<rparr>"

lemma null_verified: "o_verified (null_ssl valid) ssl = valid"
  by (simp add: null_ssl_def)

lemma null_ssl_ok: "ssl_ok (null_ssl valid) work null_account"
  unfolding ssl_ok_def
proof (intro conjI allI)
  fix ssl :: null_session and n :: nat and b :: bytes
  obtain log fed plain pend inb greeted where ssl: "ssl = ((log, fed, plain), pend, inb, greeted)" by (metis prod.exhaust)
  note simps = ssl null_ssl_def ssl_kept_def null_account_def
  show "ssl_kept null_account ssl (snd (o_handshake (null_ssl valid) ssl))" by (simp add: simps)
  show "case o_bio_read (null_ssl valid) n ssl of (None, ssl') \<Rightarrow> ssl_kept null_account ssl ssl'
    | (Some b, ssl') \<Rightarrow> ac_out null_account ssl' = ac_out null_account ssl @ [b] \<and> ac_fed null_account ssl' = ac_fed null_account ssl \<and>
        ac_plain null_account ssl' = ac_plain null_account ssl \<and> b \<noteq> [] \<and> o_pending (null_ssl valid) ssl' < o_pending (null_ssl valid) ssl"
    by (auto simp: simps)
  show "case o_read (null_ssl valid) n ssl of
      (Ssl_done b, ssl') \<Rightarrow> b \<noteq> [] \<and> length b \<le> n \<and> ac_out null_account ssl' = ac_out null_account ssl \<and> ac_fed null_account ssl' = ac_fed null_account ssl \<and>
        ac_plain null_account ssl' = ac_plain null_account ssl @ b
    | (_, ssl') \<Rightarrow> ssl_kept null_account ssl ssl'" by (simp add: simps)
  show "case o_write (null_ssl valid) b ssl of (r, ssl') \<Rightarrow> ssl_kept null_account ssl ssl' \<and> (\<forall>n. r = Ssl_done n \<longrightarrow> 0 < n \<and> n \<le> length b)"
    by (simp add: simps)
  show "case o_bio_write (null_ssl valid) b ssl of (n, ssl') \<Rightarrow> ac_out null_account ssl' = ac_out null_account ssl \<and>
      ac_fed null_account ssl' = ac_fed null_account ssl @ take n b \<and> ac_plain null_account ssl' = ac_plain null_account ssl"
    by (simp add: simps)
qed (simp add: null_ssl_def null_account_def)

text \<open>And a network on which every dial gives the descriptor 4.\<close>

definition demo_dialling :: "demo_world dialling" where
  "demo_dialling = \<lparr>n_io = demo_sockets, n_socket = (\<lambda>a u. (4, u)), n_prepare = (\<lambda>fd f u. (True, u)), n_connect = (\<lambda>fd a u. (Connect_pending, u)),
     n_wait_in = (\<lambda>fd t u. (True, u)), n_wait_out = (\<lambda>fd t u. (True, u)), n_so_clear = (\<lambda>fd u. (True, u)), n_now_ms = (\<lambda>u. (0, u)),
     n_close = (\<lambda>fd u. u), n_set_mark = (\<lambda>fd m u. u)\<rparr>"

lemma demo_dialling_ok: "dialling_ok demo_dialling demo_work" "recv_ok (n_io demo_dialling) demo_work" "send_ok (n_io demo_dialling) demo_work"
  using demo_sockets_ok by (simp_all add: dialling_ok_def demo_dialling_def sockets_ok_def)

section \<open>Correctness\<close>



end
