(* ===== verification/Daemon.thy ===== *)
theory Daemon
  imports Decisions Quic Resolver TlsClient Discovery
begin

text \<open>
  The state the threads of the transparent daemon share (\<open>src/transparent/tpd.h\<close>), the verifier
  (\<open>verify.c\<close>), and the critical sections of the connection handler and of the main loop
  (\<open>conn.c\<close>, \<open>transparent.c\<close>) as the steps of one transition system: threads interleave in any order
  between their critical sections, and each section is atomic because it holds the lock.
\<close>

section \<open>Shared state\<close>

record tpd_stats =
  flows_total :: u64
  flows_active :: u64
  passthrough_flows :: u64
  direct_flows :: u64
  bypassed_flows :: u64
  failed_flows :: u64
  verified_ok :: u64
  verified_bad :: u64

definition tpd_stats0 :: tpd_stats where
  "tpd_stats0 = \<lparr>flows_total = 0, flows_active = 0, passthrough_flows = 0, direct_flows = 0, bypassed_flows = 0,
     failed_flows = 0, verified_ok = 0, verified_bad = 0\<rparr>"

text \<open>The part of \<open>g_tpd\<close> under its lock.\<close>

record tpd =
  g_cfg :: strategy_config
  g_dec :: tp_decisions
  g_fp :: u64
  g_preferred :: t_strategy
  g_stats :: tpd_stats
  g_last_learned :: string

definition family_num :: "af \<Rightarrow> int" where
  "family_num f = (if f = AF_INET6 then 6 else 4)"

section \<open>The verifier's queue\<close>

datatype verify_kind = TPD_VERIFY_DIRECT | TPD_VERIFY_CONFIRM

record verify_job =
  vj_kind :: verify_kind
  vj_host :: string
  vj_family :: int
  vj_fp :: u64
  vj_step :: tp_step
  vj_addr :: sockaddr
  vj_original :: sockaddr

definition QUEUE_MAX :: nat where "QUEUE_MAX = 16"
definition RECENT_MAX :: nat where "RECENT_MAX = 128"
definition RECENT_WINDOW_S :: int where "RECENT_WINDOW_S = 600"

record recent =
  rc_host :: string
  rc_kind :: verify_kind
  rc_family :: int
  rc_step :: tp_step
  rc_at :: int

record verifier =
  v_queue :: "verify_job list"
  v_recent :: "recent list"
  v_next :: nat

definition recent0 :: recent where
  "recent0 = \<lparr>rc_host = [], rc_kind = TPD_VERIFY_DIRECT, rc_family = 0, rc_step = step_of TP_TARGET_ORIGINAL STRATEGY_PASS, rc_at = 0\<rparr>"

definition verifier0 :: verifier where
  "verifier0 = \<lparr>v_queue = [], v_recent = replicate RECENT_MAX recent0, v_next = 0\<rparr>"

definition recent_match :: "verify_job \<Rightarrow> int \<Rightarrow> recent \<Rightarrow> bool" where
  "recent_match job now r \<longleftrightarrow> rc_at r \<noteq> 0 \<and> now - rc_at r < RECENT_WINDOW_S \<and> rc_kind r = vj_kind job \<and> rc_family r = vj_family job \<and>
     st_target (rc_step r) = st_target (vj_step job) \<and> st_strategy (rc_step r) = st_strategy (vj_step job) \<and> ieq (rc_host r) (vj_host job)"

definition seen_recently :: "verifier \<Rightarrow> verify_job \<Rightarrow> int \<Rightarrow> bool" where
  "seen_recently v job now = list_ex (recent_match job now) (v_recent v)"

definition tpd_verify_submit :: "verify_job \<Rightarrow> int \<Rightarrow> verifier \<Rightarrow> verifier" where
  "tpd_verify_submit job now v =
     (if \<not> seen_recently v job now \<and> length (v_queue v) < QUEUE_MAX
      then v\<lparr>v_queue := v_queue v @ [job], v_next := (v_next v + 1) mod RECENT_MAX,
        v_recent := (v_recent v)[v_next v := \<lparr>rc_host = take 255 (vj_host job), rc_kind = vj_kind job, rc_family = vj_family job,
          rc_step = vj_step job, rc_at = now\<rparr>]\<rparr>
      else v)"

definition TP_CONNECT_TIMEOUT_MS :: int where "TP_CONNECT_TIMEOUT_MS = 3000"
definition VERIFY_TIMEOUT_MS :: int where "VERIFY_TIMEOUT_MS = 8000"

definition run_verify_job :: "'u dialling \<Rightarrow> ('l, 'u) openssl \<Rightarrow> verify_job \<Rightarrow> 'u net \<Rightarrow> (t_probe_result \<times> 'u net) option" where
  "run_verify_job env ossl job w =
     (case tpd_connect env (vj_addr job) TP_CONNECT_TIMEOUT_MS w of (fd, w) \<Rightarrow>
        if fd < 0 then Some (PROBE_TIMEOUT, w)
        else case on_net (n_now_ms env) w of (now, w) \<Rightarrow> do {
          (r, t, w) \<leftarrow> tlsc_handshake env ossl fd (vj_host job) (relay_split_for (st_strategy (vj_step job))) (now + VERIFY_TIMEOUT_MS) False w;
          Some (if r = TLSC_OK then PROBE_SUCCESS else if r = TLSC_BAD_CERT then PROBE_REMOTE_REJECTED else PROBE_TIMEOUT,
                case t of None \<Rightarrow> w | Some t \<Rightarrow> tlsc_free env t w)
        })"

text \<open>The locked part of \<open>apply_result\<close>; the result also says whether the addresses go to the QUIC filter.\<close>

definition apply_result :: "bool \<Rightarrow> verify_job \<Rightarrow> t_probe_result \<Rightarrow> int \<Rightarrow> tpd \<Rightarrow> bool \<times> tpd" where
  "apply_result realloc_ok job r now g =
     (let current = (g_fp g = vj_fp job);
          s = g_stats g;
          g = g\<lparr>g_stats := (if r = PROBE_SUCCESS then s\<lparr>verified_ok := verified_ok s + 1\<rparr>
                 else if r = PROBE_REMOTE_REJECTED then s\<lparr>verified_bad := verified_bad s + 1\<rparr> else s)\<rparr>;
          g = (if current \<and> vj_kind job = TPD_VERIFY_DIRECT \<and> r = PROBE_REMOTE_REJECTED
               then g\<lparr>g_dec := tp_direct_bad_mark (g_dec g) (vj_host job) (vj_fp job) (vj_family job) now\<rparr> else g);
          learn = (current \<and> vj_kind job = TPD_VERIFY_CONFIRM \<and> r = PROBE_SUCCESS) in
      (learn, if learn then g\<lparr>g_dec := tp_decision_success realloc_ok (g_dec g) (vj_host job) (vj_fp job) (vj_family job) now (vj_step job),
                 g_last_learned := take (STRATEGY_DOMAIN_MAX + 63) (vj_host job @ '' '' @ tp_target_name (st_target (vj_step job)) @ ''+'' @
                   strategy_name (st_strategy (vj_step job)))\<rparr>
              else g))"

section \<open>Critical sections of the connection handler\<close>

definition flow_started :: "tpd \<Rightarrow> tpd" where
  "flow_started g = g\<lparr>g_stats := (g_stats g)\<lparr>flows_total := flows_total (g_stats g) + 1, flows_active := flows_active (g_stats g) + 1\<rparr>\<rparr>"

definition flow_ended :: "tpd \<Rightarrow> tpd" where
  "flow_ended g = g\<lparr>g_stats := (g_stats g)\<lparr>flows_active := flows_active (g_stats g) - 1\<rparr>\<rparr>"

definition count_passthrough :: "tpd \<Rightarrow> tpd" where
  "count_passthrough g = g\<lparr>g_stats := (g_stats g)\<lparr>passthrough_flows := passthrough_flows (g_stats g) + 1\<rparr>\<rparr>"

text \<open>\<open>fill_plan\<close>: the plan and the fingerprint of the moment.\<close>

definition fill_plan :: "string \<Rightarrow> af \<Rightarrow> int \<Rightarrow> tpd \<Rightarrow> tp_plan \<times> u64" where
  "fill_plan host family now g =
     (if host = [] then (tp_plan_init, 0)
      else let p = tp_plan_init\<lparr>has_host := True, pl_listed := tp_host_listed (Some host), preferred := g_preferred g\<rparr>;
        p = (case strategy_has_explicit_rule (g_cfg g) host of Some chain \<Rightarrow> p\<lparr>has_manual := True, manual := hd chain\<rparr> | None \<Rightarrow> p);
        p = (case tp_decision_lookup (g_dec g) host (g_fp g) (family_num family) now of
               Some e \<Rightarrow> p\<lparr>has_cached := True, cached := td_step e\<rparr> | None \<Rightarrow> p) in
      (p\<lparr>in_cooldown := tp_in_cooldown (g_dec g) host now,
         direct_bad := tp_direct_bad (g_dec g) host (g_fp g) (family_num family) now\<rparr>, g_fp g))"

definition is_direct :: "tp_step \<Rightarrow> bool" where
  "is_direct s = (st_target s = TP_TARGET_ORIGINAL \<and> st_strategy s = STRATEGY_PASS)"

definition commit_section :: "bool \<Rightarrow> tp_source \<Rightarrow> string \<Rightarrow> u64 \<Rightarrow> af \<Rightarrow> int \<Rightarrow> tp_step \<Rightarrow> tpd \<Rightarrow> tpd" where
  "commit_section realloc_ok src host fp family now step g =
     (if is_direct step then
        let g = g\<lparr>g_stats := (g_stats g)\<lparr>direct_flows := direct_flows (g_stats g) + 1\<rparr>\<rparr> in
        if src \<noteq> TP_SRC_MANUAL
        then g\<lparr>g_dec := tp_decision_success realloc_ok (g_dec g) host fp (family_num family) now step\<rparr> else g
      else g\<lparr>g_stats := (g_stats g)\<lparr>bypassed_flows := bypassed_flows (g_stats g) + 1\<rparr>, g_preferred := st_strategy step\<rparr>)"

definition failure_section :: "bool \<Rightarrow> string \<Rightarrow> u64 \<Rightarrow> af \<Rightarrow> int \<Rightarrow> tpd \<Rightarrow> tpd" where
  "failure_section manual_rule host fp family now g =
     (let g = g\<lparr>g_stats := (g_stats g)\<lparr>failed_flows := failed_flows (g_stats g) + 1\<rparr>\<rparr> in
      if \<not> manual_rule then g\<lparr>g_dec := tp_decision_failure (g_dec g) host fp (family_num family) now\<rparr> else g)"

definition make_job :: "verify_kind \<Rightarrow> string \<Rightarrow> af \<Rightarrow> u64 \<Rightarrow> tp_step \<Rightarrow> sockaddr \<Rightarrow> sockaddr \<Rightarrow> verify_job" where
  "make_job kind host family fp step original trusted =
     \<lparr>vj_kind = kind, vj_host = take 255 host, vj_family = family_num family, vj_fp = fp, vj_step = step,
      vj_addr = (if st_target step = TP_TARGET_TRUSTED then trusted else original), vj_original = original\<rparr>"

section \<open>The main loop's share\<close>

text \<open>The locked part of \<open>check_network\<close>, and whether the caches are to be flushed.\<close>

definition network_section :: "u64 \<Rightarrow> tpd \<Rightarrow> bool \<times> tpd" where
  "network_section fp g =
     (if fp \<noteq> g_fp g then (True, g\<lparr>g_fp := fp, g_preferred := STRATEGY_PASS, g_dec := tp_decisions_network_changed (g_dec g)\<rparr>)
      else (False, g))"

definition load_strategy_conf :: "string option \<Rightarrow> tpd \<Rightarrow> tpd" where
  "load_strategy_conf contents g =
     g\<lparr>g_cfg := (case contents of None \<Rightarrow> strategy_config_init | Some inp \<Rightarrow> fst (strategy_config_parse strategy_config_init inp))\<rparr>"

definition load_decisions :: "bool \<Rightarrow> string option \<Rightarrow> tpd \<Rightarrow> tpd" where
  "load_decisions realloc_ok contents g =
     (case contents of None \<Rightarrow> g | Some inp \<Rightarrow> g\<lparr>g_dec := fst (tp_decisions_parse realloc_ok (g_dec g) inp)\<rparr>)"

text \<open>\<open>save_decisions\<close>: the text written to the file, if any, and the cleared flag.\<close>

definition save_decisions :: "bool \<Rightarrow> tpd \<Rightarrow> string option \<times> tpd" where
  "save_decisions malloc_ok g =
     (if \<not> d_dirty (g_dec g) then (None, g)
      else let size = 128 + length (d_entries (g_dec g)) * (STRATEGY_DOMAIN_MAX + 96);
               out = (if malloc_ok then tp_decisions_serialize (g_dec g) size else []) in
        if out \<noteq> [] then (Some out, g\<lparr>g_dec := (g_dec g)\<lparr>d_dirty := False\<rparr>\<rparr>) else (None, g))"

text \<open>The start of \<open>run_transparent_server\<close>, up to the decisions it loads.\<close>

definition tpd_init :: "bool \<Rightarrow> string option \<Rightarrow> u64 \<Rightarrow> string option \<Rightarrow> tpd" where
  "tpd_init realloc_ok conf fp decisions =
     load_decisions realloc_ok decisions ((load_strategy_conf conf
       \<lparr>g_cfg = strategy_config_init, g_dec = tp_decisions_init, g_fp = 0, g_preferred = STRATEGY_PASS, g_stats = tpd_stats0,
        g_last_learned = []\<rparr>)\<lparr>g_fp := fp\<rparr>)"

section \<open>The transition system\<close>

text \<open>\<open>d_job\<close> is the job the verifier thread is working on; \<open>d_confirmed\<close> notes the steps whose handshake
  completed with a valid certificate, for the theorems only.\<close>

record daemon =
  d_g :: tpd
  d_v :: verifier
  d_seen :: "quic_seen list"
  d_dns :: dns_resolver
  d_job :: "verify_job option"
  d_confirmed :: "(string \<times> u64 \<times> int \<times> tp_step) list"

text \<open>The host names the connection handler lets through.\<close>

definition host_char :: "char \<Rightarrow> bool" where
  "host_char c \<longleftrightarrow> (let n = (of_char c :: nat) in 48 \<le> n \<and> n \<le> 57 \<or> 65 \<le> n \<and> n \<le> 90 \<or> 97 \<le> n \<and> n \<le> 122) \<or> c \<in> {CHR ''.'', CHR ''-'', CHR ''_''}"

definition host_ok :: "string \<Rightarrow> bool" where
  "host_ok h \<longleftrightarrow> h \<noteq> [] \<and> list_all host_char h \<and> length h < STRATEGY_DOMAIN_MAX"

definition job_ok :: "verify_job \<Rightarrow> bool" where
  "job_ok job \<longleftrightarrow> host_ok (vj_host job) \<and> (vj_kind job = TPD_VERIFY_CONFIRM \<longleftrightarrow> \<not> is_direct (vj_step job))"

inductive daemon_step :: "'u dns_transport \<Rightarrow> daemon \<Rightarrow> daemon \<Rightarrow> bool" for transport where
  flow_start: "daemon_step transport d (d\<lparr>d_g := flow_started (d_g d)\<rparr>)"
| flow_end: "daemon_step transport d (d\<lparr>d_g := flow_ended (d_g d)\<rparr>)"
| passthrough: "daemon_step transport d (d\<lparr>d_g := count_passthrough (d_g d)\<rparr>)"
| committed: "host_ok host \<Longrightarrow> daemon_step transport d (d\<lparr>d_g := commit_section realloc_ok src host fp family now step (d_g d)\<rparr>)"
| failed: "host_ok host \<Longrightarrow> daemon_step transport d (d\<lparr>d_g := failure_section manual_rule host fp family now (d_g d)\<rparr>)"
| submitted: "job_ok job \<Longrightarrow> daemon_step transport d (d\<lparr>d_v := tpd_verify_submit job now (d_v d)\<rparr>)"
| taken: "v_queue (d_v d) = job # rest \<Longrightarrow> d_job d = None \<Longrightarrow>
    daemon_step transport d (d\<lparr>d_v := (d_v d)\<lparr>v_queue := rest\<rparr>, d_job := Some job\<rparr>)"
| applied: "d_job d = Some job \<Longrightarrow> daemon_step transport d (d\<lparr>d_g := snd (apply_result realloc_ok job r now (d_g d)), d_job := None,
    d_confirmed := (if r = PROBE_SUCCESS then d_confirmed d @ [(vj_host job, vj_fp job, vj_family job, vj_step job)] else d_confirmed d)\<rparr>)"
| quic: "daemon_step transport d (d\<lparr>d_seen := snd (tpd_quic_block_answer clock ans (d_seen d))\<rparr>)"
| resolved: "dns_resolve transport (d_dns d) name qtype now out u = Some (st, ans, r, u') \<Longrightarrow> daemon_step transport d (d\<lparr>d_dns := r\<rparr>)"
| network: "daemon_step transport d (d\<lparr>d_g := snd (network_section fp (d_g d))\<rparr>)"
| flushed: "daemon_step transport d (d\<lparr>d_dns := dns_cache_flush (d_dns d), d_seen := tpd_quic_forget (d_seen d)\<rparr>)"
| reloaded: "daemon_step transport d (d\<lparr>d_g := load_strategy_conf conf (d_g d)\<rparr>)"
| saved: "daemon_step transport d (d\<lparr>d_g := snd (save_decisions malloc_ok (d_g d))\<rparr>)"

definition daemon_init :: "bool \<Rightarrow> string option \<Rightarrow> u64 \<Rightarrow> string option \<Rightarrow> nat \<Rightarrow> int \<Rightarrow> u16 \<Rightarrow> daemon" where
  "daemon_init realloc_ok conf fp decisions servers timeout id_seed =
     \<lparr>d_g = tpd_init realloc_ok conf fp decisions, d_v = verifier0, d_seen = [], d_dns = dns_resolver_init servers timeout id_seed,
      d_job = None, d_confirmed = []\<rparr>"

section \<open>Where decisions come from\<close>

text \<open>An entry is backed by a record of the key and the step.\<close>

definition backed :: "(string \<times> u64 \<times> int \<times> tp_step) list \<Rightarrow> tp_decision \<Rightarrow> bool" where
  "backed ks e \<longleftrightarrow> list_ex (\<lambda>(h, fp, fam, st). ieq (td_host e) h \<and> td_fingerprint e = fp \<and> td_family e = fam \<and> td_step e = st) ks"

lemma success_source:
  assumes inv: "decisions_inv d" and e: "e \<in> set (d_entries (tp_decision_success realloc_ok d host fp family now step))"
  shows "e \<in> set (d_entries d) \<or> \<not> is_direct_step step \<and> dec_key (host, fp, family) e \<and> td_step e = step"
proof -
  define d1 where "d1 = clear_cooldown host d"
  have d1: "d_entries d1 = d_entries d" "decisions_inv d1" using clear_cooldown_frame clear_cooldown_inv [OF inv] by (simp_all add: d1_def)
  have rem: "e' \<in> set (d_entries d)" if "dec_find d1 host fp family = Some i" "e' \<in> set (d_entries (remove_entry d1 i))" for i e'
    using that removed_set [of i "d_entries d1"] dec_find_Some [OF that(1)] d1(1) by (auto simp: remove_entry_removed)
  have put: "e \<in> set (d_entries d) \<or> dec_key (host, fp, family) e \<and> td_step e = step"
    if p: "put_decision realloc_ok host fp family step now d1 = Some d2" and e: "e \<in> set (d_entries d2)" and h: "length host < STRATEGY_DOMAIN_MAX" for d2
  proof -
    have "list_all decision_ok (d_entries d1)" using d1(2) by (simp add: decisions_inv_def)
    from h this p show ?thesis
    proof (cases rule: put_decision_cases)
      case (append e1)
      then show ?thesis using e d1(1) by (auto simp: stored_as_def)
    next
      case (over e1)
      then show ?thesis using e d1(1) set_update_subset_insert [of "d_entries d1"] by (auto simp: stored_as_def)
    qed
  qed
  show ?thesis
    using e rem put d1(1)
    by (auto simp: tp_decision_success_def d1_def [symmetric] Let_def is_direct_step_def not_le split: option.splits if_splits)
qed

lemma failure_source: "set (d_entries (tp_decision_failure d host fp family now)) \<subseteq> set (d_entries d)"
proof -
  define d1 where "d1 = (let cd = slot_for (cd_match host) (cd_reusable now) cd_until (d_cooldown d) in
    if length host < STRATEGY_DOMAIN_MAX then d\<lparr>d_cooldown := (d_cooldown d)[cd := \<lparr>cd_host = host, cd_until = now + TP_COOLDOWN_SECONDS\<rparr>]\<rparr> else d)"
  have d1: "d_entries d1 = d_entries d" by (simp add: d1_def Let_def)
  have "tp_decision_failure d host fp family now = (case dec_find d1 host fp family of Some i \<Rightarrow> remove_entry d1 i | None \<Rightarrow> d1)"
    by (simp only: tp_decision_failure_def Let_def d1_def)
  then show ?thesis
    using d1 removed_set [of _ "d_entries d1"] dec_find_Some [of d1 host fp family] by (auto simp: remove_entry_removed split: option.splits)
qed

lemma backed_mono: "backed ks e \<Longrightarrow> backed (ks @ ks') e"
  by (simp add: backed_def)

lemma backed_new: "dec_key (h, fp, fam) e \<Longrightarrow> td_step e = st \<Longrightarrow> backed (ks @ [(h, fp, fam, st)]) e"
  by (auto simp: backed_def dec_match_def ieq_iff)

section \<open>The invariant of the shared state\<close>

definition verifier_ok :: "verifier \<Rightarrow> bool" where
  "verifier_ok v \<longleftrightarrow> length (v_queue v) \<le> QUEUE_MAX \<and> length (v_recent v) = RECENT_MAX \<and> v_next v < RECENT_MAX \<and> list_all job_ok (v_queue v)"

definition tpd_ok :: "tpd \<Rightarrow> bool" where
  "tpd_ok g \<longleftrightarrow> decisions_inv (g_dec g) \<and> cfg_inv (g_cfg g)"

text \<open>\<open>ks\<close> stands for the decisions loaded at the start.\<close>

definition daemon_inv :: "(string \<times> u64 \<times> int \<times> tp_step) list \<Rightarrow> daemon \<Rightarrow> bool" where
  "daemon_inv ks d \<longleftrightarrow> tpd_ok (d_g d) \<and> verifier_ok (d_v d) \<and> (\<exists>log. quic_inv log (d_seen d)) \<and> resolver_inv (d_dns d) \<and>
     (\<forall>job. d_job d = Some job \<longrightarrow> job_ok job) \<and> list_all (backed (ks @ d_confirmed d)) (d_entries (g_dec (d_g d)))"

lemma submit_ok: "verifier_ok v \<Longrightarrow> job_ok job \<Longrightarrow> verifier_ok (tpd_verify_submit job now v)"
  by (auto simp: verifier_ok_def tpd_verify_submit_def RECENT_MAX_def QUEUE_MAX_def)

text \<open>The sections that leave decisions and rules alone.\<close>

lemma section_frame:
  "g_dec (flow_started g) = g_dec g" "g_cfg (flow_started g) = g_cfg g"
  "g_dec (flow_ended g) = g_dec g" "g_cfg (flow_ended g) = g_cfg g"
  "g_dec (count_passthrough g) = g_dec g" "g_cfg (count_passthrough g) = g_cfg g"
  "g_dec (load_strategy_conf conf g) = g_dec g"
  "g_cfg (commit_section realloc_ok src host fp family now step g) = g_cfg g"
  "g_cfg (failure_section manual_rule host fp family now g) = g_cfg g"
  "g_cfg (snd (apply_result realloc_ok job r now g)) = g_cfg g"
  "g_cfg (snd (network_section fp g)) = g_cfg g" "g_cfg (snd (save_decisions malloc_ok g)) = g_cfg g"
  by (simp_all add: flow_started_def flow_ended_def count_passthrough_def load_strategy_conf_def commit_section_def failure_section_def
      apply_result_def network_section_def save_decisions_def Let_def)

lemma load_conf_ok: "cfg_inv (g_cfg (load_strategy_conf conf g))"
  by (cases conf) (simp_all add: load_strategy_conf_def cfg_inv_init strategy_config_parse_def Let_def parse_lines_inv)

lemma commit_ok:
  assumes "decisions_inv (g_dec g)"
  shows "decisions_inv (g_dec (commit_section realloc_ok src host fp family now step g))"
    and "set (d_entries (g_dec (commit_section realloc_ok src host fp family now step g))) \<subseteq> set (d_entries (g_dec g))"
  using assms success_inv [OF assms]
  by (auto simp: commit_section_def Let_def is_direct_def is_direct_step_def dest: success_source [OF assms])

lemma failure_ok:
  assumes "decisions_inv (g_dec g)"
  shows "decisions_inv (g_dec (failure_section manual_rule host fp family now g))"
    and "set (d_entries (g_dec (failure_section manual_rule host fp family now g))) \<subseteq> set (d_entries (g_dec g))"
  using assms failure_inv [OF assms] failure_source by (auto simp: failure_section_def Let_def)

lemma apply_ok:
  assumes "decisions_inv (g_dec g)"
  shows "decisions_inv (g_dec (snd (apply_result realloc_ok job r now g)))"
    and "e \<in> set (d_entries (g_dec (snd (apply_result realloc_ok job r now g)))) \<Longrightarrow> e \<in> set (d_entries (g_dec g)) \<or>
      r = PROBE_SUCCESS \<and> dec_key (vj_host job, vj_fp job, vj_family job) e \<and> td_step e = vj_step job"
proof -
  have m: "d_entries (tp_direct_bad_mark d h fp fam now) = d_entries d" for d h fp fam
    by (simp add: tp_direct_bad_mark_def Let_def)
  show "decisions_inv (g_dec (snd (apply_result realloc_ok job r now g)))"
    using assms success_inv mark_inv by (auto simp: apply_result_def Let_def)
  show "e \<in> set (d_entries (g_dec (snd (apply_result realloc_ok job r now g)))) \<Longrightarrow> e \<in> set (d_entries (g_dec g)) \<or>
      r = PROBE_SUCCESS \<and> dec_key (vj_host job, vj_fp job, vj_family job) e \<and> td_step e = vj_step job"
    using success_source [OF assms, of e realloc_ok] by (auto simp: apply_result_def Let_def m split: if_splits)
qed

lemma network_ok:
  assumes "decisions_inv (g_dec g)"
  shows "decisions_inv (g_dec (snd (network_section fp g)))" "d_entries (g_dec (snd (network_section fp g))) = d_entries (g_dec g)"
  using assms network_changed_inv [OF assms] by (simp_all add: network_section_def tp_decisions_network_changed_def)

lemma save_ok:
  assumes "decisions_inv (g_dec g)"
  shows "decisions_inv (g_dec (snd (save_decisions malloc_ok g)))" "d_entries (g_dec (snd (save_decisions malloc_ok g))) = d_entries (g_dec g)"
  using assms by (simp_all add: save_decisions_def Let_def decisions_inv_def)

lemma daemon_step_inv:
  assumes step: "daemon_step transport d d'" and inv: "daemon_inv ks d"
  shows "daemon_inv ks d'"
proof -
  have g: "decisions_inv (g_dec (d_g d))" "cfg_inv (g_cfg (d_g d))" and v: "verifier_ok (d_v d)" and r: "resolver_inv (d_dns d)"
    and q: "\<exists>log. quic_inv log (d_seen d)" and j: "\<And>job. d_job d = Some job \<Longrightarrow> job_ok job"
    and b: "\<And>e. e \<in> set (d_entries (g_dec (d_g d))) \<Longrightarrow> backed (ks @ d_confirmed d) e"
    using inv by (auto simp: daemon_inv_def tpd_ok_def list_all_iff)
  note simps = daemon_inv_def tpd_ok_def list_all_iff section_frame
  from step show ?thesis
  proof cases
    case (committed host realloc_ok src fp family now step)
    then show ?thesis using g v r q j b commit_ok [OF g(1), of realloc_ok src host fp family now step] by (auto simp: simps)
  next
    case (failed host manual_rule fp family now)
    then show ?thesis using g v r q j b failure_ok [OF g(1), of manual_rule host fp family now] by (auto simp: simps)
  next
    case (submitted job now)
    then show ?thesis using g v r q j b submit_ok by (auto simp: simps)
  next
    case (taken job rest)
    then show ?thesis using g v r q j b by (auto simp: simps verifier_ok_def)
  next
    case (applied job res realloc_ok now)
    have "backed (ks @ d_confirmed d') e" if "e \<in> set (d_entries (g_dec (d_g d')))" for e
      using apply_ok(2) [OF g(1), of e realloc_ok job res now] that b [of e] applied
        backed_mono [of "ks @ d_confirmed d" e] backed_new [of "vj_host job" "vj_fp job" "vj_family job" e _ "ks @ d_confirmed d"] by auto
    then show ?thesis using applied g v r q apply_ok(1) [OF g(1)] by (auto simp: simps)
  next
    case (quic clock ans)
    obtain log where log: "quic_inv log (d_seen d)" using q by blast
    obtain fresh seen where b1: "block_loop clock 0 (take DNS_MAX_ADDRS (an_addrs ans)) (d_seen d) = (fresh, seen)" by fastforce
    have "\<exists>log. quic_inv log (snd (tpd_quic_block_answer clock ans (d_seen d)))"
      using block_loop_ok(1) [OF log b1] b1 by (auto simp: tpd_quic_block_answer_def)
    then show ?thesis using quic g v r j b by (auto simp: simps)
  next
    case (resolved name qtype now out u st ans r' u')
    then show ?thesis using g v q j b resolve_inv [OF r] by (auto simp: simps)
  next
    case (network fp)
    then show ?thesis using g v r q j b network_ok [OF g(1)] by (auto simp: simps)
  next
    case flushed
    have "quic_inv [] (tpd_quic_forget (d_seen d))" by (simp add: quic_inv_def tpd_quic_forget_def quic_slots.unique_def)
    then show ?thesis using flushed g v j b cache_flush_inv [OF r] by (auto simp: simps)
  next
    case (reloaded conf)
    then show ?thesis using g v r q j b load_conf_ok by (auto simp: simps)
  next
    case (saved malloc_ok)
    then show ?thesis using g v r q j b save_ok [OF g(1)] by (auto simp: simps)
  qed (use g v r q j b in \<open>auto simp: simps\<close>)
qed

definition loaded :: "daemon \<Rightarrow> (string \<times> u64 \<times> int \<times> tp_step) list" where
  "loaded d = map (\<lambda>e. (td_host e, td_fingerprint e, td_family e, td_step e)) (d_entries (g_dec (d_g d)))"

lemma daemon_init_inv:
  "daemon_inv (loaded (daemon_init realloc_ok conf fp decisions servers timeout id_seed))
     (daemon_init realloc_ok conf fp decisions servers timeout id_seed)"
proof -
  let ?d = "daemon_init realloc_ok conf fp decisions servers timeout id_seed"
  have "decisions_inv (g_dec (d_g ?d))"
    by (cases decisions) (simp_all add: daemon_init_def tpd_init_def load_decisions_def section_frame init_inv parse_inv)
  moreover have "cfg_inv (g_cfg (d_g ?d))"
    using load_conf_ok by (cases decisions) (simp_all add: daemon_init_def tpd_init_def load_decisions_def)
  moreover have "quic_inv [] []" by (simp add: quic_inv_def quic_slots.unique_def)
  moreover have "verifier_ok verifier0" by (simp add: verifier_ok_def verifier0_def RECENT_MAX_def)
  moreover have "\<exists>z \<in> set (loaded ?d). case z of (h, fp, fam, st) \<Rightarrow> ieq (td_host e) h \<and> td_fingerprint e = fp \<and> td_family e = fam \<and> td_step e = st"
    if "e \<in> set (d_entries (g_dec (d_g ?d)))" for e
    using that by (force simp: loaded_def ieq_refl)
  ultimately show ?thesis
    using resolver_init_inv by (auto simp: daemon_inv_def tpd_ok_def daemon_init_def list_all_iff backed_def list_ex_iff)
qed

lemma daemon_reachable_inv:
  assumes "(daemon_step transport)\<^sup>*\<^sup>* d d'" "daemon_inv ks d"
  shows "daemon_inv ks d'"
  using assms by (induction rule: rtranclp_induct) (auto intro: daemon_step_inv)

section \<open>The verifier's memory\<close>

datatype verifier_op = Submit verify_job int | Take_job

fun verifier_run :: "verifier_op list \<Rightarrow> verifier \<Rightarrow> verifier" where
  "verifier_run (Submit job now # ops) v = verifier_run ops (tpd_verify_submit job now v)"
| "verifier_run (Take_job # ops) v = verifier_run ops (v\<lparr>v_queue := tl (v_queue v)\<rparr>)"
| "verifier_run [] v = v"

lemma ring_slot_kept:
  assumes "i < RECENT_MAX"
  shows "v_next v = (i + 1 + m) mod RECENT_MAX \<Longrightarrow> m + length ops < RECENT_MAX \<Longrightarrow> length (v_recent v) = RECENT_MAX \<Longrightarrow>
    v_recent (verifier_run ops v) ! i = v_recent v ! i \<and> length (v_recent (verifier_run ops v)) = RECENT_MAX"
proof (induction ops v arbitrary: m rule: verifier_run.induct)
  case (1 job now ops v)
  show ?case
  proof (cases "tpd_verify_submit job now v = v")
    case True
    then show ?thesis using 1(1) [of m] 1(2,3,4) by simp
  next
    case False
    then have v': "v_next (tpd_verify_submit job now v) = (v_next v + 1) mod RECENT_MAX"
      "\<exists>r. v_recent (tpd_verify_submit job now v) = (v_recent v)[v_next v := r]"
      by (auto simp: tpd_verify_submit_def split: if_splits)
    have "i \<noteq> v_next v"
    proof
      assume "i = v_next v"
      then have "(i + 1 + m) mod RECENT_MAX = i mod RECENT_MAX" using 1(2) assms by simp
      then have "RECENT_MAX dvd 1 + m" by (metis add.assoc mod_eq_dvd_iff_nat diff_add_inverse le_add1)
      then show False using 1(3) by (auto dest: dvd_imp_le)
    qed
    moreover have "v_next (tpd_verify_submit job now v) = (i + 1 + Suc m) mod RECENT_MAX"
      using v'(1) 1(2) by (simp add: mod_Suc_eq)
    ultimately show ?thesis using 1(1) [of "Suc m"] 1(3,4) v'(2) by auto
  qed
qed auto

text \<open>Jobs that \<open>seen_recently\<close> takes for the same.\<close>

definition same_job :: "verify_job \<Rightarrow> verify_job \<Rightarrow> bool" where
  "same_job j j' \<longleftrightarrow> vj_kind j = vj_kind j' \<and> vj_family j = vj_family j' \<and> vj_step j = vj_step j' \<and> ieq (vj_host j) (vj_host j')"

section \<open>Properties\<close>


text \<open>A verification that was queued is not queued again - for the same kind, host, family
  and step, whatever the case of the name - within ten minutes, as long as fewer than 128 others were
  submitted since.\<close>

theorem verify_deduplicated:
  assumes v: "verifier_ok v" and job: "job_ok job" "now \<noteq> 0" and new: "tpd_verify_submit job now v \<noteq> v"
    and ops: "length ops < RECENT_MAX" and same: "same_job job job'" "now' - now < RECENT_WINDOW_S"
  shows "tpd_verify_submit job' now' (verifier_run ops (tpd_verify_submit job now v)) = verifier_run ops (tpd_verify_submit job now v)"
proof -
  let ?v = "tpd_verify_submit job now v" and ?i = "v_next v"
  let ?r = "\<lparr>rc_host = vj_host job, rc_kind = vj_kind job, rc_family = vj_family job, rc_step = vj_step job, rc_at = now\<rparr>"
  have ok: "length (v_recent v) = RECENT_MAX" "?i < RECENT_MAX" using v by (simp_all add: verifier_ok_def)
  have h: "take 255 (vj_host job) = vj_host job" using job(1) by (simp add: job_ok_def host_ok_def STRATEGY_DOMAIN_MAX_def)
  have s: "v_next ?v = (?i + 1) mod RECENT_MAX" "v_recent ?v = (v_recent v)[?i := ?r]"
    using new h by (auto simp: tpd_verify_submit_def split: if_splits)
  have "v_recent (verifier_run ops ?v) ! ?i = ?r \<and> length (v_recent (verifier_run ops ?v)) = RECENT_MAX"
    using ring_slot_kept [OF ok(2), of ?v 0 ops] s ok ops by simp
  then have "?r \<in> set (v_recent (verifier_run ops ?v))" using ok(2) by (metis nth_mem)
  moreover have "recent_match job' now' ?r" using same job(2) by (simp add: recent_match_def same_job_def)
  ultimately have "seen_recently (verifier_run ops ?v) job' now'" by (auto simp: seen_recently_def list_ex_iff)
  then show ?thesis by (simp add: tpd_verify_submit_def)
qed

definition demo_addr :: sockaddr where
  "demo_addr = \<lparr>sa_family = AF_INET, sa_addr = [192, 0, 2, 1], sa_port = 443\<rparr>"

definition demo_job :: verify_job where
  "demo_job = make_job TPD_VERIFY_CONFIRM ''a.io'' AF_INET 7 (step_of TP_TARGET_ORIGINAL STRATEGY_TLSREC) demo_addr demo_addr"

lemma demo_job_ok: "job_ok demo_job"
  by code_simp

theorem verify_deduplicated_witness:
  "tpd_verify_submit demo_job 150 (verifier_run [Take_job] (tpd_verify_submit demo_job 100 verifier0)) =
     verifier_run [Take_job] (tpd_verify_submit demo_job 100 verifier0)"
proof -
  have a: "verifier_ok verifier0" by (simp add: verifier_ok_def verifier0_def RECENT_MAX_def)
  have b: "tpd_verify_submit demo_job 100 verifier0 \<noteq> verifier0"
    by (simp add: tpd_verify_submit_def seen_recently_def recent_match_def verifier0_def recent0_def list_ex_iff QUEUE_MAX_def)
  show ?thesis
    by (rule verify_deduplicated [OF a demo_job_ok _ b]) (simp_all add: RECENT_MAX_def RECENT_WINDOW_S_def same_job_def ieq_refl)
qed


section \<open>A verification\<close>

text \<open>Running a verification ends, sends nothing but the handshake, and closes what it opened. It reports success
  only for a handshake that was completed with a certificate valid for the host, with the first flight sent in the
  form of the strategy on trial, and a rejection only for one completed with another certificate.\<close>

theorem verify_job_correct:
  assumes laws: "dialling_ok env work" "recv_ok (n_io env) work" "send_ok (n_io env) work" "ssl_ok ossl work ac"
  shows "\<exists>r u evs. run_verify_job env ossl job w = Some (r, u, snd w @ evs) \<and> opened evs = closed evs \<and>
    (r = PROBE_SUCCESS \<or> r = PROBE_REMOTE_REJECTED \<or> r = PROBE_TIMEOUT) \<and>
    (r \<noteq> PROBE_TIMEOUT \<longrightarrow> (\<exists>fd ssl flight rest. (r = PROBE_SUCCESS \<longleftrightarrow> o_verified ossl ssl) \<and> ac_out ac ssl = flight @ rest \<and>
      sent_on fd evs = wire (relay_split_for (st_strategy (vj_step job))) flight @ concat rest \<and> ac_fed ac ssl = rcvd_on fd evs))"
proof -
  let ?split = "relay_split_for (st_strategy (vj_step job))"
  obtain fd u1 e1 where c: "tpd_connect env (vj_addr job) TP_CONNECT_TIMEOUT_MS w = (fd, u1, snd w @ e1)" "only_conn e1"
    "opened e1 = closed e1 @ (if fd < 0 then [] else [fd])" using tpd_connect_dialled [OF laws(1)] unfolding dialled_def by blast
  show ?thesis
  proof (cases "fd < 0")
    case True
    then show ?thesis using c by (auto simp: run_verify_job_def)
  next
    case False
    obtain now u2 where n: "n_now_ms env u1 = (now, u2)" by fastforce
    have fd: "0 \<le> fd" using False by simp
    from handshake_ok [OF laws fd, of "vj_host job" ?split "now + VERIFY_TIMEOUT_MS" False "(u2, snd w @ e1)"]
    obtain result session u3 e2 where h: "tlsc_handshake env ossl fd (vj_host job) ?split (now + VERIFY_TIMEOUT_MS) False (u2, snd w @ e1) =
        Some (result, session, u3, snd w @ e1 @ e2)"
      "case session of None \<Rightarrow> (\<exists>mid. e2 = mid @ [Ev_close fd] \<and> on_fd fd mid) \<and> (result = TLSC_FAILED \<or> False \<and> result = TLSC_BAD_CERT)
       | Some t \<Rightarrow> tc_fd t = fd \<and> on_fd fd e2 \<and> (result = (if o_verified ossl (tc_ssl t) then TLSC_OK else TLSC_BAD_CERT)) \<and> (False \<longrightarrow> result = TLSC_OK) \<and>
         (\<exists>flight rest. ac_out ac (tc_ssl t) = flight @ rest \<and> sent_on fd e2 = wire ?split flight @ concat rest \<and> ac_fed ac (tc_ssl t) = rcvd_on fd e2)"
      unfolding fst_conv snd_conv append_assoc by blast
    note quiet = only_conn_quiet [OF c(2), of fd]
    show ?thesis
    proof (cases session)
      case None
      then show ?thesis using False c n h by (fastforce simp: run_verify_job_def on_net_def)
    next
      case (Some t)
      obtain flight rest where f: "tc_fd t = fd" "on_fd fd e2" "result = (if o_verified ossl (tc_ssl t) then TLSC_OK else TLSC_BAD_CERT)"
        "ac_out ac (tc_ssl t) = flight @ rest" "sent_on fd e2 = wire ?split flight @ concat rest" "ac_fed ac (tc_ssl t) = rcvd_on fd e2"
        using h(2) Some by auto
      let ?evs = "e1 @ e2 @ [Ev_close fd]"
      have "(\<exists>fd ssl flight rest. ((if o_verified ossl (tc_ssl t) then PROBE_SUCCESS else PROBE_REMOTE_REJECTED) = PROBE_SUCCESS \<longleftrightarrow> o_verified ossl ssl) \<and>
          ac_out ac ssl = flight @ rest \<and> sent_on fd ?evs = wire ?split flight @ concat rest \<and> ac_fed ac ssl = rcvd_on fd ?evs)"
        using f quiet by (intro exI [of _ fd] exI [of _ "tc_ssl t"] exI [of _ flight] exI [of _ rest]) simp
      moreover have "run_verify_job env ossl job w = Some (if o_verified ossl (tc_ssl t) then PROBE_SUCCESS else PROBE_REMOTE_REJECTED, n_close env fd u3, snd w @ ?evs)"
        using False c n h(1) Some f(1,3) fd by (simp add: run_verify_job_def on_net_def tlsc_free_def compat_close_def)
      moreover have "opened ?evs = closed ?evs" using c(3) False f(2) by simp
      ultimately show ?thesis by auto
    qed
  qed
qed

theorem verify_job_correct_witness:
  "\<exists>r u evs. run_verify_job demo_dialling (null_ssl True) demo_job (([], [[7], [8]], 1), []) = Some (r, u, evs) \<and> opened evs = closed evs \<and>
    (r \<noteq> PROBE_TIMEOUT \<longrightarrow> r = PROBE_SUCCESS)"
proof -
  from verify_job_correct [OF demo_dialling_ok null_ssl_ok [of True demo_work], of demo_job "(([], [[7], [8]], 1), [])"]
  show ?thesis by (auto simp: null_verified)
qed

end
