(* ===== verification/Conn.thy ===== *)
theory Conn
  imports Daemon
begin

text \<open>
  \<open>src/transparent/conn.c\<close>: one redirected connection from accept to close - reading the ClientHello,
  filling and running the plan, the attempts, committing the one that was answered, and the effects on
  the state shared with the other threads. Everything outside is a record of functions: the sockets of
  \<open>Relay\<close>, connecting, waiting, the clocks, the resolver's transport, and \<open>e_lock\<close>, which stands for what
  other threads did to the shared state until this thread got a lock.
\<close>

section \<open>The outside\<close>

record 'u conn_env =
  e_io :: "'u sockets"
  e_original :: "int \<Rightarrow> af \<Rightarrow> 'u \<Rightarrow> sockaddr option \<times> 'u"
  e_connect :: "sockaddr \<Rightarrow> 'u \<Rightarrow> int \<times> 'u"
  e_wait :: "int \<Rightarrow> int \<Rightarrow> 'u \<Rightarrow> bool \<times> 'u"
  e_close :: "int \<Rightarrow> 'u \<Rightarrow> 'u"
  e_now :: "'u \<Rightarrow> int \<times> 'u"
  e_now_ms :: "'u \<Rightarrow> int \<times> 'u"
  e_dns :: "'u dns_transport"
  e_realloc :: bool
  e_lock :: "daemon \<Rightarrow> 'u \<Rightarrow> daemon \<times> 'u"

definition do_connect :: "'u conn_env \<Rightarrow> sockaddr \<Rightarrow> 'u net \<Rightarrow> int \<times> 'u net" where
  "do_connect env addr w = (case e_connect env addr (fst w) of (fd, u) \<Rightarrow> (fd, u, snd w @ [Ev_connect fd]))"

definition do_close :: "'u conn_env \<Rightarrow> int \<Rightarrow> 'u net \<Rightarrow> 'u net" where
  "do_close env fd w = (e_close env fd (fst w), snd w @ [Ev_close fd])"

section \<open>The connection\<close>

definition FIRST_BYTES_WAIT_MS :: int where "FIRST_BYTES_WAIT_MS = 1000"
definition CLIENT_HELLO_WAIT_MS :: int where "CLIENT_HELLO_WAIT_MS = 2000"
definition SUSPICIOUS_MAX_UP_BYTES :: u64 where "SUSPICIOUS_MAX_UP_BYTES = 100"
definition SUSPICIOUS_MAX_SECONDS :: int where "SUSPICIOUS_MAX_SECONDS = 15"
definition TLS_SNI_HOST_MAX :: nat where "TLS_SNI_HOST_MAX = 256"

text \<open>\<open>t_conn\<close> without its plan, and the descriptor of the attempt under way. \<open>c_trusted\<close> is only read after
  \<open>resolve_trusted\<close> has set it.\<close>

record conn =
  c_client :: int
  c_family :: af
  c_original :: sockaddr
  c_hello :: bytes
  c_host :: string
  c_trusted :: sockaddr
  c_reply :: bytes
  c_fp :: u64
  c_upstream :: int

record 'u cw =
  w_conn :: conn
  w_daemon :: daemon
  w_net :: "'u net"

section \<open>Reading the ClientHello\<close>

text \<open>Coalescing writes into the scratch buffer \<open>c->reply\<close>; only what it wrote is read.\<close>

definition coalesce_hello :: "bytes \<Rightarrow> bytes option option" where
  "coalesce_hello hello = do {
     (merged, out) \<leftarrow> tls_coalesce_handshake_records hello (replicate BUFFER_SIZE 0);
     if merged > 0 then do { b \<leftarrow> sub_buf out 0 (nat merged); Some (Some b) } else Some None
   }"

definition parse_hello :: "bytes \<Rightarrow> (packet_status + string) option" where
  "parse_hello hello = do {
     merged \<leftarrow> coalesce_hello hello;
     rc \<leftarrow> tls_parse_client_hello_sni (case merged of Some b \<Rightarrow> b | None \<Rightarrow> hello) TLS_SNI_HOST_MAX;
     Some (case rc of
             Inl e \<Rightarrow> Inl e
           | Inr raw \<Rightarrow> let host = cstr (map (\<lambda>b. char_of (unat b)) raw) in
               if list_all host_char host then Inr host else Inl PACKET_ERR_MALFORMED)
   }"

text \<open>The loop of \<open>read_client_hello\<close>: what was read, and the host name ([] for none).\<close>

partial_function (option) read_hello :: "'u conn_env \<Rightarrow> int \<Rightarrow> int \<Rightarrow> int \<Rightarrow> bytes \<Rightarrow> 'u net \<Rightarrow> (bytes \<times> string \<times> 'u net) option" where
  "read_hello env fd deadline_ms wait_ms hello w =
     (if length hello < BUFFER_SIZE then
        (case on_net (e_wait env fd wait_ms) w of (ready, w) \<Rightarrow>
           if \<not> ready then Some (hello, [], w)
           else (case do_recv (e_io env) fd (BUFFER_SIZE - length hello) w of
              (Recv_interrupted, w) \<Rightarrow> read_hello env fd deadline_ms wait_ms hello w
            | (Recv_error, w) \<Rightarrow> Some (hello, [], w)
            | (Received b, w) \<Rightarrow>
                if b = [] then Some (hello, [], w)
                else Option.bind (parse_hello (hello @ b)) (\<lambda>rc.
                  if rc = Inl PACKET_ERR_TRUNCATED then
                    (case on_net (e_now_ms env) w of (now, w) \<Rightarrow>
                       if deadline_ms - now \<le> 0 then Some (hello @ b, [], w)
                       else read_hello env fd deadline_ms (deadline_ms - now) (hello @ b) w)
                  else Some (hello @ b, case rc of Inr host \<Rightarrow> host | Inl e \<Rightarrow> [], w))))
      else Some (hello, [], w))"

definition read_client_hello :: "'u conn_env \<Rightarrow> int \<Rightarrow> 'u net \<Rightarrow> (bytes \<times> string \<times> 'u net) option" where
  "read_client_hello env fd w = do {
     let (now, w) = on_net (e_now_ms env) w;
     (hello, host, w) \<leftarrow> read_hello env fd (now + CLIENT_HELLO_WAIT_MS) FIRST_BYTES_WAIT_MS [] w;
     merged \<leftarrow> coalesce_hello hello;
     Some (case merged of Some b \<Rightarrow> b | None \<Rightarrow> hello, host, w)
   }"

section \<open>The trusted resolver\<close>

definition addr_equal :: "sockaddr \<Rightarrow> dns_addr \<Rightarrow> bool" where
  "addr_equal ss a =
     (if sa_family ss = AF_INET \<and> da_family a = 4 then take 4 (sa_addr ss) = take 4 (da_addr a)
      else if sa_family ss = AF_INET6 \<and> da_family a = 6 then take 16 (sa_addr ss) = take 16 (da_addr a)
      else False)"

definition trusted_addr :: "sockaddr \<Rightarrow> dns_addr \<Rightarrow> sockaddr" where
  "trusted_addr original a =
     (if da_family a = 6 then \<lparr>sa_family = AF_INET6, sa_addr = take 16 (da_addr a), sa_port = sa_port original\<rparr>
      else \<lparr>sa_family = AF_INET, sa_addr = take 4 (da_addr a), sa_port = sa_port original\<rparr>)"

definition lock_shared :: "'u conn_env \<Rightarrow> 'u cw \<Rightarrow> 'u cw" where
  "lock_shared env s = (case e_lock env (w_daemon s) (fst (w_net s)) of (d, u) \<Rightarrow> s\<lparr>w_daemon := d, w_net := (u, snd (w_net s))\<rparr>)"

definition read_clock :: "'u conn_env \<Rightarrow> 'u cw \<Rightarrow> int \<times> 'u cw" where
  "read_clock env s = (case on_net (e_now env) (w_net s) of (now, w) \<Rightarrow> (now, s\<lparr>w_net := w\<rparr>))"

definition resolve_trusted :: "'u conn_env \<Rightarrow> 'u cw \<Rightarrow> (tp_trust \<times> 'u cw) option" where
  "resolve_trusted env s = do {
     let (now, s) = read_clock env s;
     let s = lock_shared env s;
     let c = w_conn s;
     (st, ans, r, u) \<leftarrow> dns_resolve (e_dns env) (d_dns (w_daemon s)) (c_host c)
        (if c_family c = AF_INET6 then DNS_QTYPE_AAAA else DNS_QTYPE_A) now \<lparr>an_addrs = [], an_ttl = 0\<rparr> (fst (w_net s));
     let s = s\<lparr>w_daemon := (w_daemon s)\<lparr>d_dns := r\<rparr>, w_net := (u, snd (w_net s))\<rparr>;
     Some (case an_addrs ans of
             [] \<Rightarrow> (TP_TRUST_NONE, s)
           | a # as \<Rightarrow>
               if st \<noteq> DNS_OK then (TP_TRUST_NONE, s)
               else if list_ex (addr_equal (c_original c)) (a # as) then (TP_TRUST_MATCH, s)
               else (TP_TRUST_MISMATCH, s\<lparr>w_conn := c\<lparr>c_trusted := trusted_addr (c_original c) a\<rparr>\<rparr>))
   }"

section \<open>Attempts\<close>

definition attempt :: "'u conn_env \<Rightarrow> tp_step \<Rightarrow> nat \<Rightarrow> 'u cw \<Rightarrow> (tp_result \<times> 'u cw) option" where
  "attempt env step timeout s =
     (let c = w_conn s;
          dst = (if st_target step = TP_TARGET_TRUSTED then c_trusted c else c_original c);
          (fd, w) = do_connect env dst (w_net s);
          give_up = (\<lambda>r w. Some (r, s\<lparr>w_conn := c\<lparr>c_upstream := - 1\<rparr>, w_net := w\<rparr>)) in
      if fd < 0 then give_up TP_RES_CONNECT_FAIL w
      else do {
        (ok, w) \<leftarrow> relay_send_first (e_io env) fd (c_hello c) (relay_split_for (st_strategy step)) w;
        if \<not> ok then give_up TP_RES_RESET (do_close env fd w)
        else case on_net (e_wait env fd (int timeout)) w of (ready, w) \<Rightarrow>
          if \<not> ready then give_up TP_RES_TIMEOUT (do_close env fd w)
          else do {
            (r, w) \<leftarrow> recv_retry (e_io env) fd w;
            case r of
              Received b \<Rightarrow>
                (case b of
                   [] \<Rightarrow> give_up TP_RES_CLOSED (do_close env fd w)
                 | b0 # rest \<Rightarrow>
                     let c = c\<lparr>c_reply := b\<rparr> in
                     if b0 = 0x16 then Some (TP_RES_OK, s\<lparr>w_conn := c\<lparr>c_upstream := fd\<rparr>, w_net := w\<rparr>)
                     else if b0 = 0x15 then Some (TP_RES_ALERT, s\<lparr>w_conn := c\<lparr>c_upstream := fd\<rparr>, w_net := w\<rparr>)
                     else Some (TP_RES_NOT_TLS, s\<lparr>w_conn := c\<lparr>c_upstream := - 1\<rparr>, w_net := do_close env fd w\<rparr>))
            | _ \<Rightarrow> give_up TP_RES_RESET (do_close env fd w)
          }
      })"

definition passthrough_conn :: "'u conn_env \<Rightarrow> 'u cw \<Rightarrow> 'u cw option" where
  "passthrough_conn env s =
     (let c = w_conn s; (fd, w) = do_connect env (c_original c) (w_net s) in
      if fd < 0 then Some (s\<lparr>w_net := w\<rparr>)
      else do {
        (ok, w) \<leftarrow> (if c_hello c = [] then Some (True, w) else relay_send_all (e_io env) fd (c_hello c) 0 w);
        w \<leftarrow> (if ok then map_option (\<lambda>(code, st, w). w) (relay_pump (e_io env) (c_client c) fd w) else Some w);
        Some (s\<lparr>w_net := do_close env fd w\<rparr>)
      })"

section \<open>Committing\<close>

definition submit_job :: "'u conn_env \<Rightarrow> verify_kind \<Rightarrow> tp_step \<Rightarrow> 'u cw \<Rightarrow> 'u cw" where
  "submit_job env kind step s =
     (let c = w_conn s; job = make_job kind (c_host c) (c_family c) (c_fp c) step (c_original c) (c_trusted c);
          (now, s) = read_clock env s; s = lock_shared env s in
      s\<lparr>w_daemon := (w_daemon s)\<lparr>d_v := tpd_verify_submit job now (d_v (w_daemon s))\<rparr>\<rparr>)"

definition tpd_quic_block_sockaddr :: "'u conn_env \<Rightarrow> sockaddr \<Rightarrow> 'u cw \<Rightarrow> 'u cw" where
  "tpd_quic_block_sockaddr env ss s =
     (let s = lock_shared env s; (now, s) = read_clock env s in
      s\<lparr>w_daemon := (w_daemon s)\<lparr>d_seen := snd (tpd_quic_block (\<lambda>i. now) (if sa_family ss = AF_INET6 then 6 else 4) (sa_addr ss)
         (d_seen (w_daemon s)))\<rparr>\<rparr>)"

definition commit_shared :: "'u conn_env \<Rightarrow> tp_source \<Rightarrow> tp_step \<Rightarrow> 'u cw \<Rightarrow> 'u cw" where
  "commit_shared env src step s =
     (let s = lock_shared env s; c = w_conn s;
          (now, s) = (if is_direct step \<and> src \<noteq> TP_SRC_MANUAL then read_clock env s else (0, s)) in
      s\<lparr>w_daemon := (w_daemon s)\<lparr>d_g := commit_section (e_realloc env) src (c_host c) (c_fp c) (c_family c) now step (d_g (w_daemon s))\<rparr>\<rparr>)"

definition commit :: "'u conn_env \<Rightarrow> tp_plan \<Rightarrow> tp_step \<Rightarrow> int \<Rightarrow> 'u cw \<Rightarrow> 'u cw option" where
  "commit env plan step started s =
     (let src = tp_plan_source plan;
          s = commit_shared env src step s;
          s = (if \<not> is_direct step then tpd_quic_block_sockaddr env (c_original (w_conn s)) s else s);
          s = (if \<not> is_direct step \<and> src \<noteq> TP_SRC_MANUAL \<and> src \<noteq> TP_SRC_CACHED then submit_job env TPD_VERIFY_CONFIRM step s else s);
          c = w_conn s in do {
      (ok, w) \<leftarrow> relay_send_all (e_io env) (c_client c) (c_reply c) 0 (w_net s);
      (rs, w) \<leftarrow> (if ok then map_option (\<lambda>(code, st, w). (st, w)) (relay_pump (e_io env) (c_client c) (c_upstream c) w)
                   else Some (relay_stats0, w));
      let s = s\<lparr>w_net := w\<rparr>;
      Some (if is_direct step \<and> src \<noteq> TP_SRC_MANUAL \<and> client_eof_first rs \<and> up_bytes rs < SUSPICIOUS_MAX_UP_BYTES
            then (let (now, s) = read_clock env s in
                  if now - started \<le> SUSPICIOUS_MAX_SECONDS then submit_job env TPD_VERIFY_DIRECT step s else s)
            else s)
    })"

section \<open>Running the plan\<close>

definition plan_failed :: "'u conn_env \<Rightarrow> tp_plan \<Rightarrow> 'u cw \<Rightarrow> 'u cw" where
  "plan_failed env plan s =
     (let s = lock_shared env s; c = w_conn s;
          (now, s) = (if \<not> has_manual plan then read_clock env s else (0, s)) in
      s\<lparr>w_daemon := (w_daemon s)\<lparr>d_g := failure_section (has_manual plan) (c_host c) (c_fp c) (c_family c) now (d_g (w_daemon s))\<rparr>\<rparr>)"

definition run_plan :: "'u conn_env \<Rightarrow> tp_plan \<Rightarrow> 'u cw \<Rightarrow> (tp_plan \<times> 'u cw) option" where
  "run_plan env plan s =
     (let (started, s) = read_clock env s in do {
      (res, plan, s) \<leftarrow> plan_loop (attempt env) (resolve_trusted env) 6 plan s;
      case res of
        Some step \<Rightarrow> do {
          s \<leftarrow> commit env plan step started s;
          Some (plan, s\<lparr>w_net := do_close env (c_upstream (w_conn s)) (w_net s)\<rparr>)
        }
      | None \<Rightarrow> Some (plan, plan_failed env plan s)
    })"

section \<open>The handler\<close>

definition shared :: "'u conn_env \<Rightarrow> (tpd \<Rightarrow> tpd) \<Rightarrow> 'u cw \<Rightarrow> 'u cw" where
  "shared env f s = (let s = lock_shared env s in s\<lparr>w_daemon := (w_daemon s)\<lparr>d_g := f (d_g (w_daemon s))\<rparr>\<rparr>)"

definition fill_conn :: "'u conn_env \<Rightarrow> 'u cw \<Rightarrow> tp_plan \<times> 'u cw" where
  "fill_conn env s =
     (let (now, s) = read_clock env s;
          s = (if c_host (w_conn s) \<noteq> [] then lock_shared env s else s);
          (plan, fp) = fill_plan (c_host (w_conn s)) (c_family (w_conn s)) now (d_g (w_daemon s)) in
      (plan, s\<lparr>w_conn := (w_conn s)\<lparr>c_fp := fp\<rparr>\<rparr>))"

definition last_unanswered :: "tp_plan \<Rightarrow> bool" where
  "last_unanswered plan \<longleftrightarrow> has_host plan \<and> tried plan \<noteq> [] \<and> snd (last (tried plan)) \<noteq> TP_RES_OK \<and> snd (last (tried plan)) \<noteq> TP_RES_ALERT"

definition tpd_handle_connection :: "'u conn_env \<Rightarrow> int \<Rightarrow> af \<Rightarrow> daemon \<Rightarrow> 'u net \<Rightarrow> (daemon \<times> 'u net) option" where
  "tpd_handle_connection env client_fd family d w =
     (case on_net (e_original env client_fd family) w of
        (None, w) \<Rightarrow> Some (d, do_close env client_fd w)
      | (Some original, w) \<Rightarrow>
          let c = \<lparr>c_client = client_fd, c_family = family, c_original = original, c_hello = [], c_host = [],
                   c_trusted = original, c_reply = [], c_fp = 0, c_upstream = - 1\<rparr>;
              s = shared env flow_started \<lparr>w_conn = c, w_daemon = d, w_net = w\<rparr> in do {
          (hello, host, w) \<leftarrow> read_client_hello env client_fd (w_net s);
          let s = s\<lparr>w_conn := c\<lparr>c_hello := hello, c_host := host\<rparr>, w_net := w\<rparr>;
          let (plan, s) = fill_conn env s;
          (plan, s) \<leftarrow> (if \<not> has_host plan \<or> (in_cooldown plan \<and> \<not> pl_listed plan) \<or> (has_manual plan \<and> manual plan = STRATEGY_PASS)
             then map_option (Pair plan) (passthrough_conn env (shared env count_passthrough s))
             else run_plan env plan s);
          let w = (if last_unanswered plan then reset_connection (e_io env) client_fd (w_net s) else w_net s);
          let s = shared env flow_ended (s\<lparr>w_net := do_close env client_fd w\<rparr>);
          Some (w_daemon s, w_net s)
        })"

section \<open>Traces of a connection\<close>

text \<open>Attempts that came to nothing: the client was sent nothing and gave nothing, every descriptor is closed,
  and no server answered with a handshake record or an alert.\<close>

fun tls_answer :: "net_event \<Rightarrow> bool" where
  "tls_answer (Ev_recv fd (Received (b # bs))) \<longleftrightarrow> b = 0x16 \<or> b = 0x15"
| "tls_answer _ \<longleftrightarrow> False"

definition fruitless :: "int \<Rightarrow> net_event list \<Rightarrow> bool" where
  "fruitless client tr \<longleftrightarrow> sent_on client tr = [] \<and> rcvd_on client tr = [] \<and> closed tr = opened tr \<and> list_all (\<lambda>e. \<not> tls_answer e) tr"

lemma no_tls_answer:
  "sends_to fd tr \<Longrightarrow> list_all (\<lambda>e. \<not> tls_answer e) tr" "idle tr \<Longrightarrow> list_all (\<lambda>e. \<not> tls_answer e) tr"
  by (induction tr) (auto simp: sends_to_def idle_def split: net_event.splits)

lemma fruitless_append: "fruitless client tr \<Longrightarrow> fruitless client tr' \<Longrightarrow> fruitless client (tr @ tr')"
  by (simp add: fruitless_def)

text \<open>An attempt that was answered: the ClientHello went out in the form of the step, and nothing but the
  answer came back.\<close>

definition answered_trace :: "conn \<Rightarrow> relay_split \<Rightarrow> net_event list \<Rightarrow> bool" where
  "answered_trace c split tr \<longleftrightarrow> (\<exists>mid. tr = Ev_connect (c_upstream c) # mid \<and> 0 \<le> c_upstream c \<and> c_upstream c \<noteq> c_client c \<and> no_conn mid \<and>
     sent_on (c_client c) mid = [] \<and> rcvd_on (c_client c) mid = [] \<and> sent_on (c_upstream c) mid = first_write (c_hello c) split \<and>
     rcvd_on (c_upstream c) mid = c_reply c \<and> c_reply c \<noteq> [])"

section \<open>What is relied on\<close>

text \<open>A new descriptor is not the client's; other threads change the shared state only by steps of the
  daemon; and waiting or reading the clock makes no new work.\<close>

definition env_ok :: "'u conn_env \<Rightarrow> ('u \<Rightarrow> nat) \<Rightarrow> int \<Rightarrow> bool" where
  "env_ok env work client \<longleftrightarrow> sockets_ok (e_io env) work \<and> (\<forall>addr u. fst (e_connect env addr u) \<noteq> client) \<and>
     (\<forall>fd t u. work (snd (e_wait env fd t u)) \<le> work u) \<and> (\<forall>u. work (snd (e_now_ms env u)) \<le> work u) \<and>
     (\<forall>d u. (daemon_step (e_dns env))\<^sup>*\<^sup>* d (fst (e_lock env d u)))"

lemma env_sockets: "env_ok env work client \<Longrightarrow> send_ok (e_io env) work" "env_ok env work client \<Longrightarrow> recv_ok (e_io env) work"
  "env_ok env work client \<Longrightarrow> sockets_ok (e_io env) work"
  by (simp_all add: env_ok_def sockets_ok_def)

section \<open>Attempts\<close>

definition same_conn :: "conn \<Rightarrow> conn \<Rightarrow> bool" where
  "same_conn c c' \<longleftrightarrow> c_client c' = c_client c \<and> c_family c' = c_family c \<and> c_original c' = c_original c \<and> c_hello c' = c_hello c \<and>
     c_host c' = c_host c \<and> c_fp c' = c_fp c"

definition attempt_done :: "tp_step \<Rightarrow> 'u cw \<Rightarrow> (tp_result \<times> 'u cw) option \<Rightarrow> bool" where
  "attempt_done step s res \<longleftrightarrow> (\<exists>r s' evs. res = Some (r, s') \<and> same_conn (w_conn s) (w_conn s') \<and> w_daemon s' = w_daemon s \<and>
     snd (w_net s') = snd (w_net s) @ evs \<and>
     (if answered r then answered_trace (w_conn s') (relay_split_for (st_strategy step)) evs else fruitless (c_client (w_conn s)) evs))"

lemma attempt_doneI:
  "same_conn (w_conn s) (w_conn s') \<Longrightarrow> w_daemon s' = w_daemon s \<Longrightarrow> snd (w_net s') = snd (w_net s) @ evs \<Longrightarrow>
   (if answered r then answered_trace (w_conn s') (relay_split_for (st_strategy step)) evs else fruitless (c_client (w_conn s)) evs) \<Longrightarrow>
   attempt_done step s (Some (r, s'))"
  unfolding attempt_done_def by blast

lemma attempt_ok:
  assumes env: "env_ok env work (c_client (w_conn s))"
  shows "attempt_done step s (attempt env step timeout s)"
proof -
  let ?c = "w_conn s" and ?tr = "snd (w_net s)" and ?split = "relay_split_for (st_strategy step)"
  define dst where "dst = (if st_target step = TP_TARGET_TRUSTED then c_trusted ?c else c_original ?c)"
  obtain fd u1 where k: "e_connect env dst (fst (w_net s)) = (fd, u1)" by fastforce
  have ne: "fd \<noteq> c_client ?c" using env k by (auto simp: env_ok_def) (metis fst_conv)
  have k': "do_connect env dst (w_net s) = (fd, u1, ?tr @ [Ev_connect fd])" by (simp add: do_connect_def k)
  define give_up where "give_up = (\<lambda>r w. Some (r, s\<lparr>w_conn := ?c\<lparr>c_upstream := - 1\<rparr>, w_net := w\<rparr>) :: (tp_result \<times> 'a cw) option)"
  have lost: "attempt_done step s (give_up r (do_close env fd (u, ?tr @ Ev_connect fd # evs)))"
    if "\<not> answered r" "no_conn evs" "sent_on (c_client ?c) evs = []" "rcvd_on (c_client ?c) evs = []" "\<not> fd < 0"
      "list_all (\<lambda>e. \<not> tls_answer e) evs" for r u evs
    using that unfolding give_up_def
    by (intro attempt_doneI [where evs = "Ev_connect fd # evs @ [Ev_close fd]"])
      (auto simp: same_conn_def do_close_def fruitless_def)
  show ?thesis
  proof (cases "fd < 0")
    case True
    then have "attempt env step timeout s = give_up TP_RES_CONNECT_FAIL (u1, ?tr @ [Ev_connect fd])"
      by (simp add: attempt_def Let_def dst_def [symmetric] k' give_up_def)
    moreover have "attempt_done step s (give_up TP_RES_CONNECT_FAIL (u1, ?tr @ [Ev_connect fd]))"
      unfolding give_up_def using True
      by (intro attempt_doneI [where evs = "[Ev_connect fd]"]) (auto simp: same_conn_def fruitless_def answered_def)
    ultimately show ?thesis by simp
  next
    case up: False
    from relay_send_first_sends [OF env_sockets(1) [OF env], of fd "c_hello ?c" ?split "(u1, ?tr @ [Ev_connect fd])"]
    obtain ok u2 e2 m where 2: "relay_send_first (e_io env) fd (c_hello ?c) ?split (u1, ?tr @ [Ev_connect fd]) = Some (ok, u2, ?tr @ Ev_connect fd # e2)"
      "sends_to fd e2" "sent_on fd e2 = take m (first_write (c_hello ?c) ?split)"
      "if ok then m = length (first_write (c_hello ?c) ?split) else send_failed e2" by (auto simp: sends_def)
    note o2 = sends_to_other [OF 2(2)]
    obtain ready u3 where 3: "on_net (e_wait env fd (int timeout)) (u2, ?tr @ Ev_connect fd # e2) = (ready, u3, ?tr @ Ev_connect fd # e2)"
      by (cases "e_wait env fd (int timeout) u2") (simp add: on_net_def)
    obtain r u4 e4 where 4: "recv_retry (e_io env) fd (u3, ?tr @ Ev_connect fd # e2) = Some (r, u4, ?tr @ Ev_connect fd # e2 @ e4 @ [Ev_recv fd r])"
      "idle e4" using recv_retry_total [OF env_sockets(2) [OF env], of fd "(u3, ?tr @ Ev_connect fd # e2)"] by auto
    note o4 = idle_on [OF 4(2)] and quiet = no_tls_answer(1) [OF 2(2)] no_tls_answer(2) [OF 4(2)]
    let ?e = "e2 @ e4 @ [Ev_recv fd r]"
    have step: "attempt env step timeout s =
        (if \<not> ok then give_up TP_RES_RESET (do_close env fd (u2, ?tr @ Ev_connect fd # e2))
         else if \<not> ready then give_up TP_RES_TIMEOUT (do_close env fd (u3, ?tr @ Ev_connect fd # e2))
         else case r of
           Received b \<Rightarrow> (case b of
               [] \<Rightarrow> give_up TP_RES_CLOSED (do_close env fd (u4, ?tr @ Ev_connect fd # ?e))
             | b0 # rest \<Rightarrow>
                 let c = ?c\<lparr>c_reply := b\<rparr>; w = (u4, ?tr @ Ev_connect fd # ?e) in
                 if b0 = 0x16 then Some (TP_RES_OK, s\<lparr>w_conn := c\<lparr>c_upstream := fd\<rparr>, w_net := w\<rparr>)
                 else if b0 = 0x15 then Some (TP_RES_ALERT, s\<lparr>w_conn := c\<lparr>c_upstream := fd\<rparr>, w_net := w\<rparr>)
                 else Some (TP_RES_NOT_TLS, s\<lparr>w_conn := c\<lparr>c_upstream := - 1\<rparr>, w_net := do_close env fd w\<rparr>))
         | _ \<Rightarrow> give_up TP_RES_RESET (do_close env fd (u4, ?tr @ Ev_connect fd # ?e)))"
      using up by (simp add: attempt_def Let_def dst_def [symmetric] k' 2(1) 3 4(1) give_up_def split: recv_result.split list.split)
    have e: "no_conn ?e" "sent_on (c_client ?c) ?e = []" "rcvd_on (c_client ?c) ?e = []" using ne 2(2) o2 o4 by (cases r; auto)+
    consider (unsent) "\<not> ok" | (late) "ok" "\<not> ready" | (none) "ok" "ready" "r = Received [] \<or> r = Recv_interrupted \<or> r = Recv_error"
      | (got) b0 rest where "ok" "ready" "r = Received (b0 # rest)"
      by (metis list.exhaust recv_result.exhaust)
    then show ?thesis
    proof cases
      case unsent
      then show ?thesis using lost [of TP_RES_RESET e2] 2(2) o2 ne up quiet by (simp add: step answered_def)
    next
      case late
      then show ?thesis using lost [of TP_RES_TIMEOUT e2] 2(2) o2 ne up quiet by (simp add: step answered_def)
    next
      case none
      then show ?thesis using lost [of TP_RES_CLOSED ?e] lost [of TP_RES_RESET ?e] e up quiet by (auto simp: step answered_def)
    next
      case (got b0 rest)
      let ?c' = "?c\<lparr>c_reply := b0 # rest, c_upstream := fd\<rparr>"
      have a: "answered_trace ?c' ?split (Ev_connect fd # ?e)"
        using got up ne e 2(3,4) o2 o4 by (auto simp: answered_trace_def)
      have live: "attempt_done step s (Some (x, s\<lparr>w_conn := ?c', w_net := (u4, ?tr @ Ev_connect fd # ?e)\<rparr>))" if "answered x" for x
        using a that by (intro attempt_doneI [where evs = "Ev_connect fd # ?e"]) (auto simp: same_conn_def)
      have dead: "b0 \<noteq> 0x16 \<Longrightarrow> b0 \<noteq> 0x15 \<Longrightarrow> attempt_done step s (Some (TP_RES_NOT_TLS, s\<lparr>w_conn := ?c\<lparr>c_reply := b0 # rest, c_upstream := - 1\<rparr>,
          w_net := do_close env fd (u4, ?tr @ Ev_connect fd # ?e)\<rparr>))"
        using e up quiet got by (intro attempt_doneI [where evs = "Ev_connect fd # ?e @ [Ev_close fd]"])
          (auto simp: same_conn_def do_close_def fruitless_def answered_def)
      show ?thesis
        using got live [of TP_RES_OK] live [of TP_RES_ALERT] dead by (auto simp: step Let_def answered_def)
    qed
  qed
qed

section \<open>The shared state\<close>

text \<open>Work on the shared state only: the connection and the trace stay, and the daemon makes steps.\<close>

definition silent :: "'u conn_env \<Rightarrow> 'u cw \<Rightarrow> 'u cw \<Rightarrow> bool" where
  "silent env s s' \<longleftrightarrow> w_conn s' = w_conn s \<and> snd (w_net s') = snd (w_net s) \<and>
     (daemon_step (e_dns env))\<^sup>*\<^sup>* (w_daemon s) (w_daemon s')"

lemma silent_refl: "silent env s s"
  by (simp add: silent_def)

lemma silent_trans [trans]: "silent env s s' \<Longrightarrow> silent env s' s'' \<Longrightarrow> silent env s s''"
  by (auto simp: silent_def)

lemma lock_silent: "env_ok env work client \<Longrightarrow> silent env s (lock_shared env s)"
  by (auto simp: silent_def lock_shared_def env_ok_def split: prod.split) (metis fst_conv)

lemma clock_silent: "silent env s (snd (read_clock env s))"
  by (auto simp: silent_def read_clock_def on_net_def split: prod.split)

lemma step_silent: "daemon_step (e_dns env) (w_daemon s) d \<Longrightarrow> silent env s (s\<lparr>w_daemon := d\<rparr>)"
  by (auto simp: silent_def)

lemma locked_step:
  assumes "env_ok env work client" "\<And>d. daemon_step (e_dns env) d (f d)"
  shows "silent env s ((lock_shared env s)\<lparr>w_daemon := f (w_daemon (lock_shared env s))\<rparr>)"
  using silent_trans [OF lock_silent [OF assms(1)] step_silent [OF assms(2)]] by blast

lemma shared_silent:
  assumes "env_ok env work client" "\<And>d. daemon_step (e_dns env) d (d\<lparr>d_g := f (d_g d)\<rparr>)"
  shows "silent env s (shared env f s)"
  using locked_step [OF assms(1), of "\<lambda>d. d\<lparr>d_g := f (d_g d)\<rparr>" s] assms(2) by (simp add: shared_def Let_def)

lemma submit_silent:
  assumes env: "env_ok env work client" and host: "host_ok (c_host (w_conn s))" and k: "kind = TPD_VERIFY_CONFIRM \<longleftrightarrow> \<not> is_direct step"
  shows "silent env s (submit_job env kind step s)"
proof -
  let ?c = "w_conn s"
  let ?job = "make_job kind (c_host ?c) (c_family ?c) (c_fp ?c) step (c_original ?c) (c_trusted ?c)"
  obtain now s1 where s1: "read_clock env s = (now, s1)" by fastforce
  have "silent env s s1" using clock_silent [of env s] s1 by simp
  moreover have "take 255 (c_host ?c) = c_host ?c" using host by (simp add: host_ok_def STRATEGY_DOMAIN_MAX_def)
  then have "job_ok ?job" using host k by (simp add: job_ok_def make_job_def)
  then have "daemon_step (e_dns env) d (d\<lparr>d_v := tpd_verify_submit ?job now (d_v d)\<rparr>)" for d by (rule submitted)
  then have "silent env s1 (submit_job env kind step s)"
    using locked_step [OF env, of "\<lambda>d. d\<lparr>d_v := tpd_verify_submit ?job now (d_v d)\<rparr>" s1] by (simp add: submit_job_def Let_def s1)
  ultimately show ?thesis by (rule silent_trans)
qed

lemma quic_silent:
  assumes env: "env_ok env work client"
  shows "silent env s (tpd_quic_block_sockaddr env ss s)"
proof -
  let ?f = "\<lambda>now d. d\<lparr>d_seen := snd (tpd_quic_block (\<lambda>i. now) (if sa_family ss = AF_INET6 then 6 else 4) (sa_addr ss) (d_seen d))\<rparr>"
  obtain now s1 where s1: "read_clock env (lock_shared env s) = (now, s1)" by fastforce
  have a: "silent env s s1" using silent_trans [OF lock_silent [OF env, of s] clock_silent [of env "lock_shared env s"]] s1 by simp
  have "daemon_step (e_dns env) (w_daemon s1) (?f now (w_daemon s1))" unfolding tpd_quic_block_def by (rule quic)
  from silent_trans [OF a step_silent [OF this]] show ?thesis by (simp add: tpd_quic_block_sockaddr_def Let_def s1)
qed

lemma commit_shared_silent:
  assumes env: "env_ok env work client" and host: "host_ok (c_host (w_conn s))"
  shows "silent env s (commit_shared env src step s)"
proof -
  let ?s1 = "lock_shared env s"
  obtain now s2 where s2: "(if is_direct step \<and> src \<noteq> TP_SRC_MANUAL then read_clock env ?s1 else (0, ?s1)) = (now, s2)" by fastforce
  have c: "w_conn ?s1 = w_conn s" using lock_silent [OF env, of s] by (simp add: silent_def)
  have "silent env ?s1 s2" using s2 clock_silent [of env ?s1] silent_refl [of env ?s1] by (auto split: if_splits)
  with lock_silent [OF env] have a: "silent env s s2" by (rule silent_trans)
  let ?g = "commit_section (e_realloc env) src (c_host (w_conn s)) (c_fp (w_conn s)) (c_family (w_conn s)) now step"
  have "daemon_step (e_dns env) (w_daemon s2) ((w_daemon s2)\<lparr>d_g := ?g (d_g (w_daemon s2))\<rparr>)" by (rule committed [OF host])
  from silent_trans [OF a step_silent [OF this]] show ?thesis by (simp add: commit_shared_def Let_def s2 c)
qed

lemma plan_failed_silent:
  assumes env: "env_ok env work client" and host: "host_ok (c_host (w_conn s))"
  shows "silent env s (plan_failed env plan s)"
proof -
  let ?s1 = "lock_shared env s"
  obtain now s2 where s2: "(if \<not> has_manual plan then read_clock env ?s1 else (0, ?s1)) = (now, s2)" by fastforce
  have c: "w_conn ?s1 = w_conn s" using lock_silent [OF env, of s] by (simp add: silent_def)
  have "silent env ?s1 s2" using s2 clock_silent [of env ?s1] silent_refl [of env ?s1] by (auto split: if_splits)
  with lock_silent [OF env] have a: "silent env s s2" by (rule silent_trans)
  let ?g = "failure_section (has_manual plan) (c_host (w_conn s)) (c_fp (w_conn s)) (c_family (w_conn s)) now"
  have "daemon_step (e_dns env) (w_daemon s2) ((w_daemon s2)\<lparr>d_g := ?g (d_g (w_daemon s2))\<rparr>)" by (rule failed [OF host])
  from silent_trans [OF a step_silent [OF this]] show ?thesis by (simp add: plan_failed_def Let_def s2 c)
qed

lemma dns_resolve_total:
  assumes "resolver_inv r"
  shows "\<exists>st ans r' u'. dns_resolve transport r name qtype now out u = Some (st, ans, r', u')"
proof (cases "encode_name name 496 = []")
  case False
  then show ?thesis using resolve_log [OF assms, of name transport qtype now out u] by (auto simp: resolve_unlog [of transport])
next
  case True
  show ?thesis
  proof (cases "case cache_find r name qtype of None \<Rightarrow> True | Some i \<Rightarrow> ce_expires_at (dns_cache r ! i) \<le> now")
    case m: True
    then show ?thesis by (simp add: resolve_miss [OF m] resolve_walk_invalid [OF True])
  next
    case False
    then obtain i where i: "cache_find r name qtype = Some i" "now < ce_expires_at (dns_cache r ! i)" by (auto split: option.splits)
    show ?thesis by (simp add: resolve_hit [OF i])
  qed
qed

lemma resolve_trusted_ok:
  assumes env: "env_ok env work client" and inv: "daemon_inv ks (w_daemon s)"
  shows "\<exists>t s'. resolve_trusted env s = Some (t, s') \<and> t \<noteq> TP_TRUST_UNKNOWN \<and> same_conn (w_conn s) (w_conn s') \<and>
    snd (w_net s') = snd (w_net s) \<and> (daemon_step (e_dns env))\<^sup>*\<^sup>* (w_daemon s) (w_daemon s')"
proof -
  obtain now s1 where s1: "read_clock env s = (now, s1)" by fastforce
  let ?s = "lock_shared env s1" and ?q = "if c_family (w_conn s) = AF_INET6 then DNS_QTYPE_AAAA else DNS_QTYPE_A"
  have "silent env s s1" using clock_silent [of env s] s1 by simp
  then have sil: "silent env s ?s" using lock_silent [OF env] by (rule silent_trans)
  then have "daemon_inv ks (w_daemon ?s)" using daemon_reachable_inv inv by (auto simp: silent_def)
  then have r: "resolver_inv (d_dns (w_daemon ?s))" by (simp add: daemon_inv_def)
  from dns_resolve_total [OF r, where transport = "e_dns env" and name = "c_host (w_conn s)" and qtype = ?q and now = now and
      out = "\<lparr>an_addrs = [], an_ttl = 0\<rparr>" and u = "fst (w_net ?s)"]
  obtain st ans r u where d: "dns_resolve (e_dns env) (d_dns (w_daemon ?s)) (c_host (w_conn s)) ?q now \<lparr>an_addrs = [], an_ttl = 0\<rparr>
      (fst (w_net ?s)) = Some (st, ans, r, u)" by blast
  have "daemon_step (e_dns env) (w_daemon ?s) ((w_daemon ?s)\<lparr>d_dns := r\<rparr>)" by (rule resolved [OF d])
  then have p: "(daemon_step (e_dns env))\<^sup>*\<^sup>* (w_daemon s) ((w_daemon ?s)\<lparr>d_dns := r\<rparr>)" using sil by (auto simp: silent_def)
  have c: "w_conn ?s = w_conn s" "snd (w_net ?s) = snd (w_net s)" using sil by (simp_all add: silent_def)
  show ?thesis
    using p c d by (cases "an_addrs ans") (auto simp: resolve_trusted_def Let_def s1 same_conn_def)
qed

section \<open>The ClientHello\<close>

lemma coalesce_hello_total:
  assumes "length hello \<le> BUFFER_SIZE"
  shows "\<exists>m. coalesce_hello hello = Some m"
proof (cases "5 \<le> length hello \<and> hello ! 0 = 0x16")
  case True
  obtain bs n rest where g: "gather hello = (bs, n, rest)" by (cases "gather hello")
  from tls_coalesce_eq [OF _ _ _ g, of "replicate BUFFER_SIZE 0"] True assms
  obtain out' where c: "tls_coalesce_handshake_records hello (replicate BUFFER_SIZE 0) =
      Some (if length bs < 2 \<or> 16384 < n then - 1 else int (length (coalesced hello)), out')"
    "2 \<le> length bs \<and> n \<le> 16384 \<longrightarrow> take (length (coalesced hello)) out' = coalesced hello" by auto
  have "length (coalesced hello) \<le> length out'" if "\<not> (length bs < 2 \<or> 16384 < n)"
  proof -
    have "length (take (length (coalesced hello)) out') = length (coalesced hello)" using c(2) that by simp
    then show ?thesis by simp
  qed
  then show ?thesis using c(1) by (cases "length bs < 2 \<or> 16384 < n") (auto simp: coalesce_hello_def sub_buf_def)
next
  case False
  then have "tls_coalesce_handshake_records hello (replicate BUFFER_SIZE 0) = Some (- 1, replicate BUFFER_SIZE 0)"
    by (cases "length hello < 5") (auto simp: tls_coalesce_handshake_records_def Let_def rd8_def)
  then show ?thesis by (simp add: coalesce_hello_def)
qed

lemma parsed_host_short:
  assumes "tls_parse_client_hello_sni d n = Some (Inr host)"
  shows "length host < n"
proof -
  obtain pos e where "e \<le> length d" "sni_ext d pos e n = Some (Inr host)"
    using tls_walks_agree [of d n] assms by (auto simp: agree_def)
  then show ?thesis using sni_ext_name [of d pos e n host] by blast
qed

lemma parse_hello_total:
  assumes "length hello \<le> BUFFER_SIZE"
  shows "\<exists>rc. parse_hello hello = Some rc \<and> (\<forall>h. rc = Inr h \<longrightarrow> h = [] \<or> host_ok h)"
proof -
  obtain m where m: "coalesce_hello hello = Some m" using coalesce_hello_total [OF assms] by blast
  let ?d = "case m of Some b \<Rightarrow> b | None \<Rightarrow> hello"
  obtain rc where rc: "tls_parse_client_hello_sni ?d TLS_SNI_HOST_MAX = Some rc"
    using tls_parse_client_hello_sni_total [of ?d TLS_SNI_HOST_MAX] by blast
  show ?thesis
  proof (cases rc)
    case (Inl e)
    then show ?thesis using m rc by (simp add: parse_hello_def)
  next
    case (Inr raw)
    let ?h = "cstr (map (\<lambda>b. char_of (unat b)) raw)"
    have "length ?h \<le> length raw" using length_takeWhile_le [of _ "map (\<lambda>b. char_of (unat b) :: char) raw"] by (simp add: cstr_def)
    then have "length ?h < STRATEGY_DOMAIN_MAX"
      using parsed_host_short [of ?d TLS_SNI_HOST_MAX raw] rc Inr by (simp add: STRATEGY_DOMAIN_MAX_def TLS_SNI_HOST_MAX_def)
    then have "list_all host_char ?h \<Longrightarrow> ?h = [] \<or> host_ok ?h" by (simp add: host_ok_def)
    moreover have "parse_hello hello = Some (if list_all host_char ?h then Inr ?h else Inl PACKET_ERR_MALFORMED)"
      using m rc Inr by (simp add: parse_hello_def Let_def)
    ultimately show ?thesis by (cases "list_all host_char ?h") simp_all
  qed
qed

definition hello_read :: "int \<Rightarrow> bytes \<Rightarrow> 'u net \<Rightarrow> (bytes \<times> string \<times> 'u net) option \<Rightarrow> bool" where
  "hello_read fd hello w res \<longleftrightarrow> (\<exists>host u evs. res = Some (hello @ rcvd_on fd evs, host, u, snd w @ evs) \<and>
     length (hello @ rcvd_on fd evs) \<le> BUFFER_SIZE \<and> reads fd evs \<and> (host = [] \<or> host_ok host))"

lemma hello_readI:
  "res = Some (hello @ rcvd_on fd evs, host, u, snd w @ evs) \<Longrightarrow> length (hello @ rcvd_on fd evs) \<le> BUFFER_SIZE \<Longrightarrow>
   reads fd evs \<Longrightarrow> host = [] \<or> host_ok host \<Longrightarrow> hello_read fd hello w res"
  unfolding hello_read_def by blast

lemma hello_read_after:
  assumes "hello_read fd (hello @ rcvd_of fd e) (u, snd w @ [e]) res" "reads fd [e]"
  shows "hello_read fd hello w res"
proof -
  obtain host u' evs where "res = Some ((hello @ rcvd_of fd e) @ rcvd_on fd evs, host, u', (snd w @ [e]) @ evs)"
    "length ((hello @ rcvd_of fd e) @ rcvd_on fd evs) \<le> BUFFER_SIZE" "reads fd evs" "host = [] \<or> host_ok host"
    using assms(1) by (auto simp: hello_read_def)
  then show ?thesis using assms(2) by (intro hello_readI [where evs = "e # evs"]) (auto simp: reads_def)
qed

lemma read_hello_ok:
  assumes env: "env_ok env work client"
  shows "length hello \<le> BUFFER_SIZE \<Longrightarrow> hello_read fd hello w (read_hello env fd deadline_ms wait_ms hello w)"
proof (induction "work (fst w)" arbitrary: wait_ms hello w rule: less_induct)
  case less
  obtain ready u1 where w1: "e_wait env fd wait_ms (fst w) = (ready, u1)" by fastforce
  have k1: "work u1 \<le> work (fst w)" using env w1 by (auto simp: env_ok_def) (metis snd_conv)
  obtain r u2 where w2: "s_recv (e_io env) fd (BUFFER_SIZE - length hello) u1 = (r, u2)" by fastforce
  obtain now u3 where w3: "e_now_ms env u2 = (now, u3)" by fastforce
  note law = recv_law [OF env_sockets(2) [OF env] w2]
  define e where "e = Ev_recv fd r"
  have e: "reads fd [e]" by (simp add: reads_def e_def)
  have stop: "hello_read fd hello w (Some (hello, [], u, snd w))" for u
    by (rule hello_readI [where evs = "[]" and host = "[]" and u = u]) (simp_all add: less.prems reads_def)
  have eq: "read_hello env fd deadline_ms wait_ms hello w = (if length hello < BUFFER_SIZE then
      if \<not> ready then Some (hello, [], u1, snd w)
      else (case r of
              Recv_interrupted \<Rightarrow> read_hello env fd deadline_ms wait_ms hello (u2, snd w @ [e])
            | Recv_error \<Rightarrow> Some (hello, [], u2, snd w @ [e])
            | Received b \<Rightarrow>
                if b = [] then Some (hello, [], u2, snd w @ [e])
                else Option.bind (parse_hello (hello @ b)) (\<lambda>rc.
                  if rc = Inl PACKET_ERR_TRUNCATED then
                    (if deadline_ms - now \<le> 0 then Some (hello @ b, [], u3, snd w @ [e])
                     else read_hello env fd deadline_ms (deadline_ms - now) (hello @ b) (u3, snd w @ [e]))
                  else Some (hello @ b, case rc of Inr host \<Rightarrow> host | Inl e \<Rightarrow> [], u2, snd w @ [e])))
      else Some (hello, [], w))"
    by (subst read_hello.simps) (simp add: on_net_def w1 do_recv_def w2 w3 e_def split: recv_result.split cong: if_cong)
  consider (no) "length hello = BUFFER_SIZE \<or> \<not> ready" | (again) "length hello < BUFFER_SIZE" "ready" "r = Recv_interrupted"
    | (fin) "length hello < BUFFER_SIZE" "ready" "r = Recv_error \<or> r = Received []"
    | (got) b where "length hello < BUFFER_SIZE" "ready" "r = Received b" "b \<noteq> []"
    using less.prems by (cases r) force+
  then show ?case
  proof cases
    case no
    then show ?thesis unfolding eq using stop [of u1] stop [of "fst w"] less.prems by auto
  next
    case again
    then have "hello_read fd (hello @ rcvd_of fd e) (u2, snd w @ [e]) (read_hello env fd deadline_ms wait_ms hello (u2, snd w @ [e]))"
      using less.hyps [of "(u2, snd w @ [e])" hello wait_ms] less.prems law k1 by (simp add: e_def)
    from hello_read_after [OF this e] show ?thesis unfolding eq using again by simp
  next
    case fin
    then have "hello_read fd hello w (Some (hello, [], u2, snd w @ [e]))"
      using less.prems e by (intro hello_readI [where evs = "[e]"]) (auto simp: e_def)
    then show ?thesis unfolding eq using fin by auto
  next
    case (got b)
    have len: "length (hello @ b) \<le> BUFFER_SIZE" using law got by auto
    obtain rc where rc: "parse_hello (hello @ b) = Some rc" "\<forall>h. rc = Inr h \<longrightarrow> h = [] \<or> host_ok h" using parse_hello_total [OF len] by blast
    have k3: "work u3 < work (fst w)" using env w3 law k1 got by (auto simp: env_ok_def) (metis le_less_trans less_le_trans snd_conv)
    have one: "hello_read fd hello w (Some (hello @ b, host, u, snd w @ [e]))" if "host = [] \<or> host_ok host" for host u
      using that len e got by (intro hello_readI [where evs = "[e]"]) (auto simp: e_def)
    have "hello_read fd (hello @ rcvd_of fd e) (u3, snd w @ [e]) (read_hello env fd deadline_ms t (hello @ b) (u3, snd w @ [e]))" for t
      using less.hyps [of "(u3, snd w @ [e])" "hello @ b" t] len k3 got by (simp add: e_def)
    note more = hello_read_after [OF this e]
    show ?thesis unfolding eq using got rc one more by (auto split: sum.splits)
  qed
qed

text \<open>What the attempts send is the bytes read, merged into one record if they were several.\<close>

definition merged_hello :: "bytes \<Rightarrow> bytes \<Rightarrow> bool" where
  "merged_hello raw hello \<longleftrightarrow> (\<exists>m. coalesce_hello raw = Some m \<and> hello = (case m of Some b \<Rightarrow> b | None \<Rightarrow> raw))"

lemma read_client_hello_ok:
  assumes "env_ok env work client"
  shows "\<exists>hello host u evs. read_client_hello env fd w = Some (hello, host, u, snd w @ evs) \<and> merged_hello (rcvd_on fd evs) hello \<and>
    reads fd evs \<and> (host = [] \<or> host_ok host)"
proof -
  obtain now u where w: "e_now_ms env (fst w) = (now, u)" by fastforce
  from read_hello_ok [OF assms, of "[]" fd "(u, snd w)" "now + CLIENT_HELLO_WAIT_MS" FIRST_BYTES_WAIT_MS]
  obtain host u' evs where h: "read_hello env fd (now + CLIENT_HELLO_WAIT_MS) FIRST_BYTES_WAIT_MS [] (u, snd w) =
      Some (rcvd_on fd evs, host, u', snd w @ evs)" "length (rcvd_on fd evs) \<le> BUFFER_SIZE" "reads fd evs" "host = [] \<or> host_ok host"
    by (auto simp: hello_read_def)
  obtain m where "coalesce_hello (rcvd_on fd evs) = Some m" using coalesce_hello_total [OF h(2)] by blast
  then show ?thesis using h w by (auto simp: read_client_hello_def on_net_def Let_def merged_hello_def)
qed

section \<open>Carrying the connection\<close>

text \<open>Between client and server: \<open>out\<close> opens the stream to the server, and everything else is passed on both
  ways, unless a write failed and ended it.\<close>

definition bridged :: "int \<Rightarrow> int \<Rightarrow> bytes \<Rightarrow> net_event list \<Rightarrow> bool" where
  "bridged client fd out tr \<longleftrightarrow> no_conn tr \<and> prefix (sent_on fd tr) (out @ rcvd_on client tr) \<and> prefix (sent_on client tr) (rcvd_on fd tr) \<and>
     (\<not> send_failed tr \<longrightarrow> sent_on fd tr = out @ rcvd_on client tr \<and> sent_on client tr = rcvd_on fd tr)"

lemma pump_bridged:
  assumes pre: "no_conn pre" "sent_on fd pre = out" "rcvd_on client pre = []" "sent_on client pre = rcvd_on fd pre"
    and "pump_done client fd code st evs"
  shows "bridged client fd out (pre @ evs)"
  using assms send_failed_append [of evs pre] by (auto simp: bridged_def pump_done_def split: if_splits)

lemma failed_bridged:
  assumes "no_conn pre" "sent_on fd pre = take n out" "rcvd_on client pre = []" "sent_on client pre = take m (rcvd_on fd pre)" "send_failed pre"
  shows "bridged client fd out pre"
  using assms by (auto simp: bridged_def take_is_prefix prefix_prefix)

definition carried :: "int \<Rightarrow> bytes \<Rightarrow> net_event list \<Rightarrow> bool" where
  "carried client hello tr \<longleftrightarrow> (\<exists>pre fd split mid. tr = pre @ Ev_connect fd # mid @ [Ev_close fd] \<and> fruitless client pre \<and> 0 \<le> fd \<and> fd \<noteq> client \<and>
     bridged client fd (first_write hello split) mid)"

lemma carriedI:
  "tr = pre @ Ev_connect fd # mid @ [Ev_close fd] \<Longrightarrow> fruitless client pre \<Longrightarrow> 0 \<le> fd \<Longrightarrow> fd \<noteq> client \<Longrightarrow>
   bridged client fd (first_write hello split) mid \<Longrightarrow> carried client hello tr"
  unfolding carried_def by blast

lemma carried_closed: "carried client hello tr \<Longrightarrow> closed tr = opened tr"
  by (auto simp: carried_def fruitless_def bridged_def)

lemma passthrough_ok:
  assumes env: "env_ok env work (c_client (w_conn s))"
  shows "\<exists>s' evs. passthrough_conn env s = Some s' \<and> w_conn s' = w_conn s \<and> w_daemon s' = w_daemon s \<and> snd (w_net s') = snd (w_net s) @ evs \<and>
    (fruitless (c_client (w_conn s)) evs \<or> carried (c_client (w_conn s)) (c_hello (w_conn s)) evs)"
proof -
  let ?c = "w_conn s" and ?tr = "snd (w_net s)"
  obtain fd u1 where k: "e_connect env (c_original ?c) (fst (w_net s)) = (fd, u1)" by fastforce
  have ne: "c_client ?c \<noteq> fd" using env k by (auto simp: env_ok_def) (metis fst_conv)
  have k': "do_connect env (c_original ?c) (w_net s) = (fd, u1, ?tr @ [Ev_connect fd])" by (simp add: do_connect_def k)
  show ?thesis
  proof (cases "fd < 0")
    case True
    then show ?thesis using k' by (intro exI [of _ "s\<lparr>w_net := (u1, ?tr @ [Ev_connect fd])\<rparr>"]) (auto simp: passthrough_conn_def fruitless_def)
  next
    case False
    from relay_send_all_sends [OF env_sockets(1) [OF env], of fd "c_hello ?c" "(u1, ?tr @ [Ev_connect fd])"]
    obtain ok u2 e2 m where 2: "(if c_hello ?c = [] then Some (True, u1, ?tr @ [Ev_connect fd]) else
        relay_send_all (e_io env) fd (c_hello ?c) 0 (u1, ?tr @ [Ev_connect fd])) = Some (ok, u2, ?tr @ Ev_connect fd # e2)"
      "sends_to fd e2" "sent_on fd e2 = take m (c_hello ?c)" "if ok then m = length (c_hello ?c) else send_failed e2"
      by (cases "c_hello ?c = []") (auto simp: sends_def)
    from pump_from_start [OF env_sockets(3) [OF env] ne, of "- 1" "(u2, ?tr @ Ev_connect fd # e2)"]
    obtain code st u3 e3 where 3: "relay_pump (e_io env) (c_client ?c) fd (u2, ?tr @ Ev_connect fd # e2) =
        Some (code, st, u3, ?tr @ Ev_connect fd # e2 @ e3)" "pump_done (c_client ?c) fd code st e3" by (auto simp: relay_pump_def)
    note o = sends_to_other [OF 2(2)] and nc = sends_to_no_conn [OF 2(2)]
    have fw: "first_write (c_hello ?c) RELAY_SPLIT_NONE = c_hello ?c" by (simp add: first_write_def split: option.split)
    define mid where "mid = (if ok then e2 @ e3 else e2)"
    have "bridged (c_client ?c) fd (c_hello ?c) mid"
      using pump_bridged [OF nc _ _ _ 3(2), of "c_hello ?c"] failed_bridged [OF nc 2(3), of "c_client ?c" 0] 2(4) 2(3) o ne by (auto simp: mid_def)
    then have c: "carried (c_client ?c) (c_hello ?c) (Ev_connect fd # mid @ [Ev_close fd])"
      using False ne by (intro carriedI [where pre = "[]" and fd = fd and mid = mid and split = RELAY_SPLIT_NONE]) (auto simp: fruitless_def fw)
    have "\<exists>u. passthrough_conn env s = Some (s\<lparr>w_net := (u, ?tr @ Ev_connect fd # mid @ [Ev_close fd])\<rparr>)"
      using False 2(1) 3(1) by (cases ok) (auto simp: passthrough_conn_def k' do_close_def mid_def Let_def simp del: relay_send_all.simps)
    then show ?thesis using c by force
  qed
qed

lemma silent_conn: "silent env s s' \<Longrightarrow> w_conn s' = w_conn s" "silent env s s' \<Longrightarrow> snd (w_net s') = snd (w_net s)"
  "silent env s s' \<Longrightarrow> (daemon_step (e_dns env))\<^sup>*\<^sup>* (w_daemon s) (w_daemon s')"
  by (simp_all add: silent_def)

text \<open>What \<open>commit\<close> does to the shared state before it relays.\<close>

definition commit_before :: "'u conn_env \<Rightarrow> tp_plan \<Rightarrow> tp_step \<Rightarrow> 'u cw \<Rightarrow> 'u cw" where
  "commit_before env plan step s =
     (let src = tp_plan_source plan; s = commit_shared env src step s;
          s = (if \<not> is_direct step then tpd_quic_block_sockaddr env (c_original (w_conn s)) s else s) in
      if \<not> is_direct step \<and> src \<noteq> TP_SRC_MANUAL \<and> src \<noteq> TP_SRC_CACHED then submit_job env TPD_VERIFY_CONFIRM step s else s)"

definition commit_after :: "'u conn_env \<Rightarrow> tp_plan \<Rightarrow> tp_step \<Rightarrow> int \<Rightarrow> relay_stats \<Rightarrow> 'u cw \<Rightarrow> 'u cw" where
  "commit_after env plan step started rs s =
     (if is_direct step \<and> tp_plan_source plan \<noteq> TP_SRC_MANUAL \<and> client_eof_first rs \<and> up_bytes rs < SUSPICIOUS_MAX_UP_BYTES
      then (let (now, s) = read_clock env s in
            if now - started \<le> SUSPICIOUS_MAX_SECONDS then submit_job env TPD_VERIFY_DIRECT step s else s)
      else s)"

lemma commit_parts:
  "commit env plan step started s = (let s = commit_before env plan step s; c = w_conn s in do {
     (ok, w) \<leftarrow> relay_send_all (e_io env) (c_client c) (c_reply c) 0 (w_net s);
     (rs, w) \<leftarrow> (if ok then map_option (\<lambda>(code, st, w). (st, w)) (relay_pump (e_io env) (c_client c) (c_upstream c) w)
                  else Some (relay_stats0, w));
     Some (commit_after env plan step started rs (s\<lparr>w_net := w\<rparr>))
   })"
  unfolding commit_def commit_before_def commit_after_def Let_def ..

lemma commit_before_silent:
  assumes env: "env_ok env work client" and host: "host_ok (c_host (w_conn s))"
  shows "silent env s (commit_before env plan step s)"
proof -
  let ?src = "tp_plan_source plan"
  let ?s1 = "commit_shared env ?src step s"
  let ?s2 = "if \<not> is_direct step then tpd_quic_block_sockaddr env (c_original (w_conn ?s1)) ?s1 else ?s1"
  have 1: "silent env s ?s1" by (rule commit_shared_silent [OF env host])
  then have 2: "silent env s ?s2" using silent_trans [OF 1 quic_silent [OF env]] by simp
  then have "host_ok (c_host (w_conn ?s2))" using host by (simp only: silent_conn)
  from submit_silent [OF env this, of TPD_VERIFY_CONFIRM step] have "silent env s (submit_job env TPD_VERIFY_CONFIRM step ?s2)" if "\<not> is_direct step"
    using that silent_trans [OF 2] by blast
  then show ?thesis unfolding commit_before_def Let_def using 2 by simp
qed

lemma commit_after_silent:
  assumes env: "env_ok env work client" and host: "host_ok (c_host (w_conn s))"
  shows "silent env s (commit_after env plan step started rs s)"
proof -
  obtain now s1 where s1: "read_clock env s = (now, s1)" by fastforce
  have 1: "silent env s s1" using clock_silent [of env s] s1 by simp
  then have "host_ok (c_host (w_conn s1))" using host by (simp only: silent_conn)
  from submit_silent [OF env this, of TPD_VERIFY_DIRECT step] have "silent env s (submit_job env TPD_VERIFY_DIRECT step s1)" if "is_direct step"
    using that silent_trans [OF 1] by blast
  then show ?thesis using 1 silent_refl [of env s] by (simp add: commit_after_def s1)
qed

lemma commit_bridges:
  assumes env: "env_ok env work (c_client (w_conn s))" and host: "host_ok (c_host (w_conn s))"
    and tr: "snd (w_net s) = tr @ evs" "answered_trace (w_conn s) split evs"
  shows "\<exists>s' mid. commit env plan step started s = Some s' \<and> w_conn s' = w_conn s \<and> (daemon_step (e_dns env))\<^sup>*\<^sup>* (w_daemon s) (w_daemon s') \<and>
    snd (w_net s') = tr @ Ev_connect (c_upstream (w_conn s)) # mid \<and>
    bridged (c_client (w_conn s)) (c_upstream (w_conn s)) (first_write (c_hello (w_conn s)) split) mid"
proof -
  let ?c = "w_conn s"
  let ?cl = "c_client ?c" and ?up = "c_upstream ?c" and ?out = "first_write (c_hello ?c) split" and ?s1 = "commit_before env plan step s"
  obtain pre where pre: "evs = Ev_connect ?up # pre" "?cl \<noteq> ?up" "no_conn pre" "sent_on ?cl pre = []" "rcvd_on ?cl pre = []"
      "sent_on ?up pre = ?out" "rcvd_on ?up pre = c_reply ?c" using tr(2) by (auto simp: answered_trace_def)
  note sil = commit_before_silent [OF env host, of plan step]
  note c1 = silent_conn [OF sil]
  let ?tr = "tr @ Ev_connect ?up # pre"
  have w1: "w_net ?s1 = (fst (w_net ?s1), ?tr)" using c1(2) tr(1) pre(1) by (metis prod.collapse)
  from relay_send_all_sends [OF env_sockets(1) [OF env], of ?cl "c_reply ?c" "w_net ?s1"]
  obtain ok u2 e2 m where 2: "relay_send_all (e_io env) ?cl (c_reply ?c) 0 (w_net ?s1) = Some (ok, u2, ?tr @ e2)"
    "sends_to ?cl e2" "sent_on ?cl e2 = take m (c_reply ?c)" "if ok then m = length (c_reply ?c) else send_failed e2"
    using w1 by (auto simp: sends_def) (metis append_Cons append_assoc snd_conv)
  from pump_from_start [OF env_sockets(3) [OF env] pre(2), of "- 1" "(u2, ?tr @ e2)"]
  obtain code st u3 e3 where 3: "relay_pump (e_io env) ?cl ?up (u2, ?tr @ e2) = Some (code, st, u3, ?tr @ e2 @ e3)" "pump_done ?cl ?up code st e3"
    by (auto simp: relay_pump_def)
  note o = sends_to_other [OF 2(2)] and nc = sends_to_no_conn [OF 2(2)]
  define mid u rs where "mid = (if ok then pre @ e2 @ e3 else pre @ e2)" and "u = (if ok then u3 else u2)" and "rs = (if ok then st else relay_stats0)"
  let ?s2 = "?s1\<lparr>w_net := (u, tr @ Ev_connect ?up # mid)\<rparr>"
  have "commit env plan step started s = Some (commit_after env plan step started rs ?s2)"
    using 2(1) 3(1) c1(1) by (cases ok) (simp_all add: commit_parts Let_def mid_def u_def rs_def)
  moreover have "silent env ?s2 (commit_after env plan step started rs ?s2)" by (rule commit_after_silent [OF env]) (use c1(1) host in simp)
  then have "w_conn (commit_after env plan step started rs ?s2) = ?c"
    "(daemon_step (e_dns env))\<^sup>*\<^sup>* (w_daemon s) (w_daemon (commit_after env plan step started rs ?s2))"
    "snd (w_net (commit_after env plan step started rs ?s2)) = tr @ Ev_connect ?up # mid"
    using c1 by (auto simp: silent_def)
  moreover have "bridged ?cl ?up ?out mid"
  proof (cases ok)
    case True
    then show ?thesis using pump_bridged [OF _ _ _ _ 3(2), of "pre @ e2" ?out] pre nc o 2(3,4) by (simp add: mid_def)
  next
    case False
    then show ?thesis
      using failed_bridged [of "pre @ e2" ?up "length ?out" ?out ?cl m] pre nc o 2(3,4) send_failed_append [of e2 pre] by (simp add: mid_def)
  qed
  ultimately show ?thesis by blast
qed

section \<open>The plan and the handler\<close>

lemma same_conn_trans: "same_conn c c' \<Longrightarrow> same_conn c' c'' \<Longrightarrow> same_conn c c''"
  by (simp add: same_conn_def)

text \<open>The states between two attempts, and the one after an answered attempt.\<close>

definition trying :: "'u conn_env \<Rightarrow> 'u cw \<Rightarrow> 'u cw \<Rightarrow> bool" where
  "trying env s0 s \<longleftrightarrow> same_conn (w_conn s0) (w_conn s) \<and> (daemon_step (e_dns env))\<^sup>*\<^sup>* (w_daemon s0) (w_daemon s) \<and>
     (\<exists>evs. snd (w_net s) = snd (w_net s0) @ evs \<and> fruitless (c_client (w_conn s0)) evs)"

definition got_answer :: "'u conn_env \<Rightarrow> 'u cw \<Rightarrow> tp_step \<Rightarrow> tp_result \<Rightarrow> 'u cw \<Rightarrow> bool" where
  "got_answer env s0 step r s \<longleftrightarrow> same_conn (w_conn s0) (w_conn s) \<and> (daemon_step (e_dns env))\<^sup>*\<^sup>* (w_daemon s0) (w_daemon s) \<and>
     (\<exists>pre evs. snd (w_net s) = snd (w_net s0) @ pre @ evs \<and> fruitless (c_client (w_conn s0)) pre \<and>
       answered_trace (w_conn s) (relay_split_for (st_strategy step)) evs)"

lemma attempt_trying:
  assumes env: "env_ok env work (c_client (w_conn s0))" and "trying env s0 s"
  shows "\<exists>r s'. attempt env step timeout s = Some (r, s') \<and> (if answered r then got_answer env s0 step r s' else trying env s0 s')"
proof -
  obtain pre where s: "same_conn (w_conn s0) (w_conn s)" "(daemon_step (e_dns env))\<^sup>*\<^sup>* (w_daemon s0) (w_daemon s)"
    "snd (w_net s) = snd (w_net s0) @ pre" "fruitless (c_client (w_conn s0)) pre" using assms(2) by (auto simp: trying_def)
  have c: "c_client (w_conn s) = c_client (w_conn s0)" using s(1) by (simp add: same_conn_def)
  obtain r s' evs where a: "attempt env step timeout s = Some (r, s')" "same_conn (w_conn s) (w_conn s')" "w_daemon s' = w_daemon s"
    "snd (w_net s') = snd (w_net s) @ evs"
    "if answered r then answered_trace (w_conn s') (relay_split_for (st_strategy step)) evs else fruitless (c_client (w_conn s)) evs"
    using attempt_ok [of env work s step timeout] env c by (auto simp: attempt_done_def)
  have "got_answer env s0 step r s'" if "answered r"
    unfolding got_answer_def using that s a same_conn_trans [OF s(1) a(2)] by (intro conjI exI [of _ pre] exI [of _ evs]) auto
  moreover have "trying env s0 s'" if "\<not> answered r"
    unfolding trying_def using that s a c same_conn_trans [OF s(1) a(2)] fruitless_append [OF s(4)] by (intro conjI exI [of _ "pre @ evs"]) auto
  ultimately show ?thesis using a(1) by simp
qed

lemma lookup_trying:
  assumes env: "env_ok env work (c_client (w_conn s0))" and inv: "daemon_inv ks (w_daemon s0)" and t: "trying env s0 s"
  shows "\<exists>t s'. resolve_trusted env s = Some (t, s') \<and> t \<noteq> TP_TRUST_UNKNOWN \<and> trying env s0 s'"
proof -
  have "daemon_inv ks (w_daemon s)" using daemon_reachable_inv inv t by (auto simp: trying_def)
  from resolve_trusted_ok [OF env this] obtain t s' where r: "resolve_trusted env s = Some (t, s')" "t \<noteq> TP_TRUST_UNKNOWN"
    "same_conn (w_conn s) (w_conn s')" "snd (w_net s') = snd (w_net s)" "(daemon_step (e_dns env))\<^sup>*\<^sup>* (w_daemon s) (w_daemon s')" by blast
  have "trying env s0 s'" using r(3,4,5) t same_conn_trans [of "w_conn s0" "w_conn s" "w_conn s'"] by (auto simp: trying_def)
  then show ?thesis using r(1,2) by blast
qed

text \<open>How a connection ends: nothing came of it, or it was carried to its end.\<close>

definition plan_ran :: "'u conn_env \<Rightarrow> 'u cw \<Rightarrow> (tp_plan \<times> 'u cw) option \<Rightarrow> bool" where
  "plan_ran env s res \<longleftrightarrow> (\<exists>plan s' evs. res = Some (plan, s') \<and> same_conn (w_conn s) (w_conn s') \<and>
     (daemon_step (e_dns env))\<^sup>*\<^sup>* (w_daemon s) (w_daemon s') \<and> snd (w_net s') = snd (w_net s) @ evs \<and>
     (fruitless (c_client (w_conn s)) evs \<or> carried (c_client (w_conn s)) (c_hello (w_conn s)) evs \<and> \<not> last_unanswered plan))"

lemma plan_ranI:
  "res = Some (plan, s') \<Longrightarrow> same_conn (w_conn s) (w_conn s') \<Longrightarrow> (daemon_step (e_dns env))\<^sup>*\<^sup>* (w_daemon s) (w_daemon s') \<Longrightarrow>
   snd (w_net s') = snd (w_net s) @ evs \<Longrightarrow>
   fruitless (c_client (w_conn s)) evs \<or> carried (c_client (w_conn s)) (c_hello (w_conn s)) evs \<and> \<not> last_unanswered plan \<Longrightarrow> plan_ran env s res"
  unfolding plan_ran_def by blast

lemma run_plan_ok:
  assumes env: "env_ok env work (c_client (w_conn s))" and inv: "daemon_inv ks (w_daemon s)" and host: "host_ok (c_host (w_conn s))"
    and new: "tried plan = []"
  shows "plan_ran env s (run_plan env plan s)"
proof -
  obtain started s1 where s1: "read_clock env s = (started, s1)" by fastforce
  note sil = silent_conn [OF clock_silent [of env s, unfolded s1 snd_conv]]
  have t0: "trying env s s1" using sil by (simp add: trying_def same_conn_def fruitless_def)
  obtain res p' s2 where p: "plan_loop (attempt env) (resolve_trusted env) 6 plan s1 = Some (res, p', s2)"
    "plan_outcome (trying env s) (got_answer env s) res p' s2"
    using plan_run_inv [where I = "trying env s" and J = "got_answer env s" and attempt = "attempt env" and lookup = "resolve_trusted env",
        OF attempt_trying [OF env] lookup_trying [OF env inv] new t0] by blast
  show ?thesis
  proof (cases res)
    case None
    then have t: "trying env s s2" using p(2) by (simp add: plan_outcome_def)
    then have h: "host_ok (c_host (w_conn s2))" using host by (simp add: trying_def same_conn_def)
    note f = silent_conn [OF plan_failed_silent [OF env h, of p']]
    have "run_plan env plan s = Some (p', plan_failed env p' s2)" using None p(1) by (simp add: run_plan_def s1)
    then show ?thesis using t f by (auto simp: plan_ran_def trying_def)
  next
    case (Some step)
    then obtain ts r where o: "tried p' = ts @ [(step, r)]" "answered r" "got_answer env s step r s2" using p(2) by (auto simp: plan_outcome_def)
    let ?split = "relay_split_for (st_strategy step)" and ?c = "w_conn s2"
    obtain pre evs where g: "same_conn (w_conn s) ?c" "(daemon_step (e_dns env))\<^sup>*\<^sup>* (w_daemon s) (w_daemon s2)"
      "snd (w_net s2) = (snd (w_net s) @ pre) @ evs" "fruitless (c_client (w_conn s)) pre" "answered_trace ?c ?split evs"
      using o(3) by (auto simp: got_answer_def)
    have c: "c_client ?c = c_client (w_conn s)" "c_hello ?c = c_hello (w_conn s)" "c_host ?c = c_host (w_conn s)" using g(1) by (simp_all add: same_conn_def)
    have "env_ok env work (c_client ?c)" "host_ok (c_host ?c)" using env host c by simp_all
    from commit_bridges [OF this g(3,5), of p' step started] obtain s3 mid where m: "commit env p' step started s2 = Some s3" "w_conn s3 = ?c" "(daemon_step (e_dns env))\<^sup>*\<^sup>* (w_daemon s2) (w_daemon s3)"
      "snd (w_net s3) = (snd (w_net s) @ pre) @ Ev_connect (c_upstream ?c) # mid" "bridged (c_client ?c) (c_upstream ?c) (first_write (c_hello ?c) ?split) mid"
      by blast
    have "\<not> last_unanswered p'" using o(1,2) by (simp add: last_unanswered_def answered_def)
    moreover have "run_plan env plan s = Some (p', s3\<lparr>w_net := do_close env (c_upstream ?c) (w_net s3)\<rparr>)"
      using Some p(1) m(1,2) by (simp add: run_plan_def s1)
    moreover have "carried (c_client (w_conn s)) (c_hello (w_conn s)) (pre @ Ev_connect (c_upstream ?c) # mid @ [Ev_close (c_upstream ?c)])"
      using g(4,5) m(5) c by (intro carriedI) (auto simp: answered_trace_def)
    ultimately show ?thesis using g(1,2) m(2,3,4)
      by (intro plan_ranI [where plan = p' and s' = "s3\<lparr>w_net := do_close env (c_upstream ?c) (w_net s3)\<rparr>"
            and evs = "pre @ Ev_connect (c_upstream ?c) # mid @ [Ev_close (c_upstream ?c)]"]) (auto simp: do_close_def)
  qed
qed

text \<open>The trace of a handled connection. When the original address is not known, the client is closed at
  once.\<close>

definition handled :: "int \<Rightarrow> net_event list \<Rightarrow> bool" where
  "handled client tr \<longleftrightarrow> tr = [Ev_close client] \<or>
     (\<exists>hs hello evs fin. tr = hs @ evs @ fin \<and> reads client hs \<and> merged_hello (rcvd_on client hs) hello \<and>
        (fruitless client evs \<and> (fin = [Ev_close client] \<or> fin = [Ev_linger client, Ev_close client]) \<or>
         carried client hello evs \<and> fin = [Ev_close client]))"

lemma handledI:
  "tr = hs @ evs @ fin \<Longrightarrow> reads client hs \<Longrightarrow> merged_hello (rcvd_on client hs) hello \<Longrightarrow>
   fruitless client evs \<and> (fin = [Ev_close client] \<or> fin = [Ev_linger client, Ev_close client]) \<or>
         carried client hello evs \<and> fin = [Ev_close client] \<Longrightarrow> handled client tr"
  unfolding handled_def by blast

lemma handled_closed: "handled client tr \<Longrightarrow> closed tr = opened tr @ [client]"
  by (auto simp: handled_def fruitless_def reads_on dest: carried_closed)

lemma fill_conn_ok:
  assumes env: "env_ok env work client"
  shows "\<exists>plan s' fp. fill_conn env s = (plan, s') \<and> w_conn s' = (w_conn s)\<lparr>c_fp := fp\<rparr> \<and> snd (w_net s') = snd (w_net s) \<and>
    (daemon_step (e_dns env))\<^sup>*\<^sup>* (w_daemon s) (w_daemon s') \<and> tried plan = [] \<and> (has_host plan \<longleftrightarrow> c_host (w_conn s) \<noteq> [])"
proof -
  obtain now s1 where s1: "read_clock env s = (now, s1)" by fastforce
  let ?s2 = "if c_host (w_conn s1) \<noteq> [] then lock_shared env s1 else s1"
  obtain plan fp where p: "fill_plan (c_host (w_conn ?s2)) (c_family (w_conn ?s2)) now (d_g (w_daemon ?s2)) = (plan, fp)" by fastforce
  have 1: "silent env s s1" using clock_silent [of env s] s1 by simp
  then have "silent env s ?s2" using silent_trans [OF 1 lock_silent [OF env]] by simp
  note sil = silent_conn [OF this]
  have "tried plan = [] \<and> (has_host plan \<longleftrightarrow> c_host (w_conn ?s2) \<noteq> [])"
    using p by (auto simp: fill_plan_def Let_def tp_plan_init_def split: if_splits option.splits)
  then show ?thesis using sil p s1 by (auto simp: fill_conn_def Let_def)
qed

lemma handler_ok:
  assumes env: "env_ok env work client_fd" and inv: "daemon_inv ks d"
  shows "\<exists>d' u evs. tpd_handle_connection env client_fd family d w = Some (d', u, snd w @ evs) \<and>
    (daemon_step (e_dns env))\<^sup>*\<^sup>* d d' \<and> handled client_fd evs"
proof (cases "e_original env client_fd family (fst w)")
  case (Pair orig u0)
  show ?thesis
  proof (cases orig)
    case None
    then show ?thesis using Pair by (simp add: tpd_handle_connection_def on_net_def do_close_def handled_def)
  next
    case (Some original)
    define c where "c = \<lparr>c_client = client_fd, c_family = family, c_original = original, c_hello = [], c_host = [],
      c_trusted = original, c_reply = [], c_fp = 0, c_upstream = - 1\<rparr>"
    define s0 where "s0 = shared env flow_started \<lparr>w_conn = c, w_daemon = d, w_net = (u0, snd w)\<rparr>"
    have "silent env \<lparr>w_conn = c, w_daemon = d, w_net = (u0, snd w)\<rparr> s0" unfolding s0_def by (rule shared_silent [OF env flow_start])
    then have s0: "snd (w_net s0) = snd w" "(daemon_step (e_dns env))\<^sup>*\<^sup>* d (w_daemon s0)" by (auto simp: silent_def)
    obtain hello host u1 hs where r: "read_client_hello env client_fd (w_net s0) = Some (hello, host, u1, snd w @ hs)"
      "merged_hello (rcvd_on client_fd hs) hello" "reads client_fd hs" "host = [] \<or> host_ok host"
      using read_client_hello_ok [OF env, of client_fd "w_net s0"] s0(1) by auto
    define s1 where "s1 = s0\<lparr>w_conn := c\<lparr>c_hello := hello, c_host := host\<rparr>, w_net := (u1, snd w @ hs)\<rparr>"
    from fill_conn_ok [OF env, of s1] obtain plan s2 fp where f: "fill_conn env s1 = (plan, s2)" "w_conn s2 = (w_conn s1)\<lparr>c_fp := fp\<rparr>"
      "snd (w_net s2) = snd (w_net s1)" "(daemon_step (e_dns env))\<^sup>*\<^sup>* (w_daemon s1) (w_daemon s2)" "tried plan = []"
      "has_host plan \<longleftrightarrow> c_host (w_conn s1) \<noteq> []" by blast
    define pass where "pass = (\<not> has_host plan \<or> in_cooldown plan \<and> \<not> pl_listed plan \<or> has_manual plan \<and> manual plan = STRATEGY_PASS)"
    define ran where "ran = (if pass then map_option (Pair plan) (passthrough_conn env (shared env count_passthrough s2)) else run_plan env plan s2)"
    have c2: "c_client (w_conn s2) = client_fd" "c_hello (w_conn s2) = hello" "c_host (w_conn s2) = host" "snd (w_net s2) = snd w @ hs"
      using f by (simp_all add: s1_def c_def)
    have d2: "(daemon_step (e_dns env))\<^sup>*\<^sup>* d (w_daemon s2)" using s0(2) f(4) by (simp add: s1_def)
    have "plan_ran env s2 ran"
    proof (cases pass)
      case True
      let ?s = "shared env count_passthrough s2"
      note sil = silent_conn [OF shared_silent [OF env passthrough, of s2]]
      from passthrough_ok [of env work ?s] env c2(1) sil(1) obtain s' evs where t: "passthrough_conn env ?s = Some s'" "w_conn s' = w_conn s2"
        "w_daemon s' = w_daemon ?s" "snd (w_net s') = snd (w_net s2) @ evs" "fruitless client_fd evs \<or> carried client_fd (c_hello (w_conn s2)) evs"
        using sil(2) by auto
      have "\<not> last_unanswered plan" using f(5) by (simp add: last_unanswered_def)
      then show ?thesis using t True sil(3) c2(1)
        by (intro plan_ranI [where plan = plan and s' = s' and evs = evs]) (auto simp: ran_def same_conn_def)
    next
      case False
      have "daemon_inv ks (w_daemon s2)" by (rule daemon_reachable_inv [OF d2 inv])
      moreover have "host_ok (c_host (w_conn s2))" using False f(6) r(4) c2(3) by (auto simp: pass_def s1_def)
      ultimately show ?thesis using run_plan_ok [of env work s2 ks plan] env c2(1) f(5) False by (simp add: ran_def)
    qed
    then obtain plan' s3 evs where p: "ran = Some (plan', s3)" "same_conn (w_conn s2) (w_conn s3)" "(daemon_step (e_dns env))\<^sup>*\<^sup>* (w_daemon s2) (w_daemon s3)"
      "snd (w_net s3) = snd w @ hs @ evs" "fruitless client_fd evs \<or> carried client_fd hello evs \<and> \<not> last_unanswered plan'"
      using c2 by (auto simp: plan_ran_def)
    define w3 where "w3 = (if last_unanswered plan' then reset_connection (e_io env) client_fd (w_net s3) else w_net s3)"
    define s4 where "s4 = shared env flow_ended (s3\<lparr>w_net := do_close env client_fd w3\<rparr>)"
    have "silent env (s3\<lparr>w_net := do_close env client_fd w3\<rparr>) s4" unfolding s4_def by (rule shared_silent [OF env flow_end])
    note s4 = silent_conn [OF this]
    define fin where "fin = (if last_unanswered plan' then [Ev_linger client_fd, Ev_close client_fd] else [Ev_close client_fd])"
    have "snd (w_net s4) = snd w @ hs @ evs @ fin" using s4(2) p(4) by (simp add: w3_def do_close_def reset_connection_def fin_def)
    moreover have "handled client_fd (hs @ evs @ fin)" using r(2,3) p(5)
      by (intro handledI [where hello = hello]) (auto simp: fin_def split: if_splits)
    moreover have "(daemon_step (e_dns env))\<^sup>*\<^sup>* d (w_daemon s4)" using d2 p(3) s4(3) by simp
    moreover have "tpd_handle_connection env client_fd family d w = Some (w_daemon s4, w_net s4)"
      using Pair Some r(1) f(1) p(1)
      by (cases pass) (auto simp: tpd_handle_connection_def on_net_def c_def [symmetric] s0_def [symmetric] s1_def [symmetric] pass_def
          ran_def w3_def [symmetric] s4_def [symmetric] Let_def)
    ultimately show ?thesis by (metis prod.collapse)
  qed
qed

section \<open>Peers for the witness\<close>

definition demo_env :: "demo_world conn_env" where
  "demo_env = \<lparr>e_io = demo_sockets, e_original = (\<lambda>fd family u. (Some demo_addr, u)), e_connect = (\<lambda>addr u. (4, u)), e_wait = (\<lambda>fd t u. (True, u)),
     e_close = (\<lambda>fd u. u), e_now = Pair 100, e_now_ms = Pair 5, e_dns = (\<lambda>s q n t u. (None, u)), e_realloc = True, e_lock = Pair\<rparr>"

lemma demo_env_ok: "env_ok demo_env demo_work 3"
  using demo_sockets_ok by (simp add: env_ok_def demo_env_def)

section \<open>Correctness of the handler\<close>



end
