(* ===== verification/Socks.thy ===== *)
theory Socks
  imports Relay Text
begin

text \<open>
  SOCKS mode: \<open>src/socks.c\<close> and \<open>src/upstream.c\<close>. The negotiation with a client, the request, connecting to
  the address it names, the reply and the relay, over the socket calls of \<open>Relay\<close>. Name resolution,
  \<open>socket\<close> and \<open>connect\<close> are functions of a record; so is \<open>inet_ntop\<close> for IPv6.
\<close>

section \<open>The outside\<close>

record ('a, 'u) socks_env =
  x_io :: "'u sockets"
  x_ntop6 :: "bytes \<Rightarrow> string option"
  x_getaddrinfo :: "string \<Rightarrow> string \<Rightarrow> 'u \<Rightarrow> 'a list option \<times> 'u"
  x_socket :: "'a \<Rightarrow> 'u \<Rightarrow> int \<times> 'u"
  x_connect :: "int \<Rightarrow> 'a \<Rightarrow> 'u \<Rightarrow> bool \<times> 'u"
  x_close :: "int \<Rightarrow> 'u \<Rightarrow> 'u"
  x_split_env :: "string option"

definition SOCKET_INVALID :: int where "SOCKET_INVALID = - 1"

definition open_socket :: "('a, 'u) socks_env \<Rightarrow> 'a \<Rightarrow> 'u net \<Rightarrow> int \<times> 'u net" where
  "open_socket env a w = (case x_socket env a (fst w) of (fd, u) \<Rightarrow> (fd, u, snd w @ [Ev_connect fd]))"

definition socket_close :: "('a, 'u) socks_env \<Rightarrow> int \<Rightarrow> 'u net \<Rightarrow> 'u net" where
  "socket_close env fd w = (x_close env fd (fst w), snd w @ [Ev_close fd])"

section \<open>Connecting\<close>

fun try_addresses :: "('a, 'u) socks_env \<Rightarrow> 'a list \<Rightarrow> 'u net \<Rightarrow> int \<times> 'u net" where
  "try_addresses env [] w = (SOCKET_INVALID, w)"
| "try_addresses env (a # as) w =
     (case open_socket env a w of (fd, w) \<Rightarrow>
        if fd = SOCKET_INVALID then try_addresses env as w
        else case x_connect env fd a (fst w) of (ok, u) \<Rightarrow>
          if ok then (fd, u, snd w) else try_addresses env as (socket_close env fd (u, snd w)))"

definition connect_upstream :: "('a, 'u) socks_env \<Rightarrow> string \<Rightarrow> int \<Rightarrow> 'u net \<Rightarrow> int \<times> 'u net" where
  "connect_upstream env host port w =
     (case x_getaddrinfo env host (take 15 (print_lld port)) (fst w) of
        (None, u) \<Rightarrow> (SOCKET_INVALID, u, snd w)
      | (Some as, u) \<Rightarrow> try_addresses env as (u, snd w))"

section \<open>The protocol\<close>

datatype exact = Exact bytes | Exact_eof | Exact_error

partial_function (option) recv_exact :: "'u sockets \<Rightarrow> int \<Rightarrow> nat \<Rightarrow> bytes \<Rightarrow> 'u net \<Rightarrow> (exact \<times> 'u net) option" where
  "recv_exact io fd n got w =
     (if length got < n then
        (case do_recv io fd (n - length got) w of
           (Received b, w) \<Rightarrow> if b = [] then Some (Exact_eof, w) else recv_exact io fd n (got @ b) w
         | (Recv_interrupted, w) \<Rightarrow> recv_exact io fd n got w
         | (Recv_error, w) \<Rightarrow> Some (Exact_error, w))
      else Some (Exact got, w))"

text \<open>Reading a field and going on with it, or giving up.\<close>

definition with_exact :: "'u sockets \<Rightarrow> int \<Rightarrow> nat \<Rightarrow> 'u net \<Rightarrow> (bytes \<Rightarrow> 'u net \<Rightarrow> ('b option \<times> 'u net) option) \<Rightarrow> ('b option \<times> 'u net) option" where
  "with_exact io fd n w k = do {
     (r, w) \<leftarrow> recv_exact io fd n [] w;
     case r of Exact b \<Rightarrow> k b w | _ \<Rightarrow> Some (None, w)
   }"

definition socks_negotiate :: "'u sockets \<Rightarrow> int \<Rightarrow> 'u net \<Rightarrow> (unit option \<times> 'u net) option" where
  "socks_negotiate io fd w =
     with_exact io fd 2 w (\<lambda>header w.
       if header ! 0 \<noteq> 0x05 then Some (None, w)
       else if header ! 1 = 0 then Some (None, w)
       else with_exact io fd (unat (header ! 1)) w (\<lambda>methods w.
         case do_send io fd [0x05, 0x00] w of (r, w) \<Rightarrow> Some (if r = Sent 2 then Some () else None, w)))"

definition send_result :: "'u sockets \<Rightarrow> int \<Rightarrow> bool \<Rightarrow> 'u net \<Rightarrow> bool \<times> 'u net" where
  "send_result io fd success w =
     (case do_send io fd [0x05, if success then 0x00 else 0x01, 0x00, 0x01, 0, 0, 0, 0, 0, 0] w of (r, w) \<Rightarrow> (r = Sent 10, w))"

definition host_text :: "bytes \<Rightarrow> string" where
  "host_text b = cstr (map (\<lambda>x. char_of (unat x)) b)"

text \<open>\<open>inet_ntop\<close> for IPv4.\<close>

definition dotted_quad :: "bytes \<Rightarrow> string" where
  "dotted_quad b = dec_nat (unat (b ! 0)) @ ''.'' @ dec_nat (unat (b ! 1)) @ ''.'' @ dec_nat (unat (b ! 2)) @ ''.'' @ dec_nat (unat (b ! 3))"

definition port_of :: "bytes \<Rightarrow> int" where
  "port_of b = uint (be16 (b ! 0) (b ! 1))"

definition read_target :: "('a, 'u) socks_env \<Rightarrow> int \<Rightarrow> nat \<Rightarrow> 'u net \<Rightarrow> ((string \<times> int) option \<times> 'u net) option" where
  "read_target env fd host_size w =
     (let io = x_io env in
      with_exact io fd 4 w (\<lambda>header w.
        if header ! 0 \<noteq> 0x05 \<or> header ! 1 \<noteq> 0x01 then Some (None, w)
        else if header ! 3 = 0x03 then
          with_exact io fd 1 w (\<lambda>len w.
            if len ! 0 = 0 \<or> unat (len ! 0) \<ge> host_size then Some (None, w)
            else with_exact io fd (unat (len ! 0)) w (\<lambda>name w.
              with_exact io fd 2 w (\<lambda>port_buf w. Some (Some (host_text name, port_of port_buf), w))))
        else if header ! 3 = 0x01 then
          with_exact io fd 4 w (\<lambda>addr4 w.
            with_exact io fd 2 w (\<lambda>port_buf w. Some (Some (dotted_quad addr4, port_of port_buf), w)))
        else if header ! 3 = 0x04 then
          with_exact io fd 16 w (\<lambda>addr6 w.
            case x_ntop6 env addr6 of
              None \<Rightarrow> Some (None, w)
            | Some host \<Rightarrow> with_exact io fd 2 w (\<lambda>port_buf w. Some (Some (host, port_of port_buf), w)))
        else Some (None, snd (send_result io fd False w))))"

section \<open>A client\<close>

definition split_mode :: "string option \<Rightarrow> relay_split" where
  "split_mode env =
     (case env of
        None \<Rightarrow> RELAY_SPLIT_NONE
      | Some v \<Rightarrow> if v = ''1'' then RELAY_SPLIT_TCP else if v = ''record'' then RELAY_SPLIT_TLS_RECORD else RELAY_SPLIT_NONE)"

text \<open>\<open>handle_client\<close> from the target to the end.\<close>

definition serve_target :: "('a, 'u) socks_env \<Rightarrow> int \<Rightarrow> string \<Rightarrow> int \<Rightarrow> 'u net \<Rightarrow> 'u net option" where
  "serve_target env client_fd host port w =
     (case connect_upstream env host port w of (fd, w) \<Rightarrow>
        if fd = SOCKET_INVALID then Some (snd (send_result (x_io env) client_fd False w))
        else case send_result (x_io env) client_fd True w of (sent, w) \<Rightarrow>
          if \<not> sent then Some (socket_close env fd w)
          else do {
            (code, w) \<leftarrow> relay_connection (x_io env) client_fd fd (split_mode (x_split_env env)) w;
            Some (socket_close env fd w)
          })"

definition handle_client :: "('a, 'u) socks_env \<Rightarrow> int \<Rightarrow> 'u net \<Rightarrow> 'u net option" where
  "handle_client env client_fd w = do {
     let io = x_io env;
     (ok, w) \<leftarrow> socks_negotiate io client_fd w;
     if ok = None then Some w
     else do {
       (target, w) \<leftarrow> read_target env client_fd 256 w;
       case target of
         None \<Rightarrow> Some w
       | Some (host, port) \<Rightarrow> serve_target env client_fd host port w
     }
   }"

definition client_thread :: "('a, 'u) socks_env \<Rightarrow> int \<Rightarrow> 'u net \<Rightarrow> 'u net option" where
  "client_thread env client_fd w = map_option (socket_close env client_fd) (handle_client env client_fd w)"

section \<open>What a call does\<close>

text \<open>The call returns, and its result and its part of the trace satisfy \<open>P\<close>.\<close>

definition runs :: "net_event list \<Rightarrow> ('b \<Rightarrow> net_event list \<Rightarrow> bool) \<Rightarrow> ('b \<times> 'u net) option \<Rightarrow> bool" where
  "runs tr P res \<longleftrightarrow> (\<exists>x u evs. res = Some (x, u, tr @ evs) \<and> P x evs)"

lemma runs_now: "P x evs \<Longrightarrow> runs tr P (Some (x, u, tr @ evs))"
  unfolding runs_def by blast

lemma runsI: "res = Some (x, u, tr @ evs) \<Longrightarrow> P x evs \<Longrightarrow> runs tr P res"
  unfolding runs_def by blast

definition exact_read :: "int \<Rightarrow> nat \<Rightarrow> bytes \<Rightarrow> exact \<Rightarrow> net_event list \<Rightarrow> bool" where
  "exact_read fd n got r evs \<longleftrightarrow> reads fd evs \<and> (\<forall>b. r = Exact b \<longrightarrow> b = got @ rcvd_on fd evs \<and> length b = n)"

lemma recv_exact_runs:
  assumes io: "recv_ok io work"
  shows "length got \<le> n \<Longrightarrow>
    runs (snd w) (exact_read fd n got) (recv_exact io fd n got w)"
proof (induction "work (fst w)" arbitrary: got w rule: less_induct)
  case less
  obtain r u where r: "s_recv io fd (n - length got) (fst w) = (r, u)" by fastforce
  note law = recv_law [OF io r]
  define e where "e = Ev_recv fd r"
  have step: "do_recv io fd (n - length got) w = (r, u, snd w @ [e])" by (simp add: do_recv_def r e_def)
  have after: "runs (snd w) (exact_read fd n got) res" if h: "runs (snd w @ [e]) (exact_read fd n (got @ rcvd_of fd e)) res" for res
  proof -
    obtain x u' evs where "res = Some (x, u', snd w @ [e] @ evs)" "exact_read fd n (got @ rcvd_of fd e) x evs"
      using h unfolding runs_def append_assoc by blast
    then show ?thesis by (intro runsI [of _ x u' _ "[e] @ evs"]) (auto simp: exact_read_def reads_def e_def)
  qed
  have eq: "recv_exact io fd n got w = (if length got < n then
      (case r of Received b \<Rightarrow> if b = [] then Some (Exact_eof, u, snd w @ [e]) else recv_exact io fd n (got @ b) (u, snd w @ [e])
       | Recv_interrupted \<Rightarrow> recv_exact io fd n got (u, snd w @ [e])
       | Recv_error \<Rightarrow> Some (Exact_error, u, snd w @ [e])) else Some (Exact got, w))"
    by (subst recv_exact.simps) (simp add: step split: recv_result.split)
  have stop: "runs (snd w) (exact_read fd n got) (Some (x, u, snd w @ [e]))" if "x = Exact_eof \<or> x = Exact_error" for x
    using that by (intro runsI [of _ x u _ "[e]"]) (auto simp: exact_read_def reads_def e_def)
  show ?case
  proof (cases "length got < n")
    case False
    then show ?thesis unfolding eq using less.prems by (intro runsI [of _ "Exact got" "fst w" _ "[]"]) (simp_all add: exact_read_def reads_def)
  next
    case lt: True
    show ?thesis
    proof (cases r)
      case (Received b)
      have "b \<noteq> [] \<Longrightarrow> runs (snd w @ [e]) (exact_read fd n (got @ b)) (recv_exact io fd n (got @ b) (u, snd w @ [e]))"
        using less.hyps [of "(u, snd w @ [e])" "got @ b"] law lt Received by auto
      then show ?thesis unfolding eq using lt Received after [of "recv_exact io fd n (got @ b) (u, snd w @ [e])"] stop [of Exact_eof] by (cases "b = []") (simp_all add: e_def)
    next
      case Recv_interrupted
      then have "runs (snd w @ [e]) (exact_read fd n got) (recv_exact io fd n got (u, snd w @ [e]))"
        using less.hyps [of "(u, snd w @ [e])" got] law lt by auto
      then show ?thesis unfolding eq using lt Recv_interrupted after [of "recv_exact io fd n got (u, snd w @ [e])"] by (simp add: e_def)
    next
      case Recv_error
      then show ?thesis unfolding eq using lt stop by simp
    qed
  qed
qed

lemma with_exact_runs:
  assumes io: "recv_ok io work" and pre: "reads fd pre" and fail: "\<And>evs. reads fd evs \<Longrightarrow> P None evs"
    and go: "\<And>b u evs. reads fd evs \<Longrightarrow> rcvd_on fd evs = rcvd_on fd pre @ b \<Longrightarrow> length b = n \<Longrightarrow> runs tr P (k b (u, tr @ evs))"
  shows "runs tr P (with_exact io fd n (u, tr @ pre) k)"
proof -
  obtain r u' evs where r: "recv_exact io fd n [] (u, tr @ pre) = Some (r, u', tr @ pre @ evs)" "reads fd evs"
    "\<forall>b. r = Exact b \<longrightarrow> b = rcvd_on fd evs \<and> length b = n"
    using recv_exact_runs [OF io, where got = "[]" and n = n and fd = fd and w = "(u, tr @ pre)"] by (auto simp: runs_def exact_read_def)
  have all: "reads fd (pre @ evs)" using pre r(2) by (simp add: reads_def)
  show ?thesis
  proof (cases r)
    case (Exact b)
    then have "rcvd_on fd (pre @ evs) = rcvd_on fd pre @ b" "length b = n" using r(3) by auto
    from go [OF all this, of u'] show ?thesis using Exact r(1) by (simp add: with_exact_def)
  qed (use r(1) fail [OF all] in \<open>auto simp: with_exact_def intro!: runsI\<close>)
qed

section \<open>The messages\<close>

definition greeting :: "bytes \<Rightarrow> bytes" where
  "greeting methods = [5, of_nat (length methods)] @ methods"

datatype target = Domain bytes | IPv4 bytes | IPv6 bytes

fun target_bytes :: "target \<Rightarrow> bytes" where
  "target_bytes (Domain d) = [3, of_nat (length d)] @ d"
| "target_bytes (IPv4 a) = [1] @ a"
| "target_bytes (IPv6 a) = [4] @ a"

fun target_ok :: "target \<Rightarrow> bool" where
  "target_ok (Domain d) \<longleftrightarrow> d \<noteq> [] \<and> length d < 256"
| "target_ok (IPv4 a) \<longleftrightarrow> length a = 4"
| "target_ok (IPv6 a) \<longleftrightarrow> length a = 16"

definition request :: "8 word \<Rightarrow> target \<Rightarrow> u16 \<Rightarrow> bytes" where
  "request rsv t port = [5, 1, rsv] @ target_bytes t @ be16_bytes port"

fun target_host :: "(bytes \<Rightarrow> string option) \<Rightarrow> target \<Rightarrow> string option" where
  "target_host ntop6 (Domain d) = Some (host_text d)"
| "target_host ntop6 (IPv4 a) = Some (dotted_quad a)"
| "target_host ntop6 (IPv6 a) = ntop6 a"

definition reply_bytes :: "bool \<Rightarrow> bytes" where
  "reply_bytes success = [5, if success then 0 else 1, 0, 1, 0, 0, 0, 0, 0, 0]"

section \<open>Negotiation and request\<close>

lemma send_runs:
  assumes "\<And>r. prefix (sent_of fd (Ev_send fd b r)) b \<Longrightarrow> P (f r) (pre @ [Ev_send fd b r])"
  shows "runs tr P (case do_send io fd b (u, tr @ pre) of (r, w) \<Rightarrow> Some (f r, w))"
proof -
  obtain r u' where r: "s_send io fd b u = (r, u')" by fastforce
  have "prefix (sent_of fd (Ev_send fd b r)) b" by (cases r) (auto simp: take_is_prefix)
  then show ?thesis using assms [of r] by (intro runsI [of _ "f r" u' _ "pre @ [Ev_send fd b r]"]) (simp_all add: do_send_def r)
qed

definition negotiated :: "int \<Rightarrow> unit option \<Rightarrow> net_event list \<Rightarrow> bool" where
  "negotiated fd r evs \<longleftrightarrow> on_fd fd evs \<and> prefix (sent_on fd evs) [5, 0] \<and>
     (r \<noteq> None \<longrightarrow> sent_on fd evs = [5, 0] \<and> (\<exists>ms. ms \<noteq> [] \<and> length ms < 256 \<and> rcvd_on fd evs = greeting ms))"

lemma list2: "length b = 2 \<Longrightarrow> b = [b ! 0, b ! 1]"
  by (auto simp: length_Suc_conv numeral_2_eq_2)

lemma list4: "length b = 4 \<Longrightarrow> b = [b ! 0, b ! 1, b ! 2, b ! 3]"
  by (auto simp: length_Suc_conv eval_nat_numeral)

lemma negotiated_None: "reads fd evs \<Longrightarrow> negotiated fd None evs"
  by (simp add: negotiated_def reads_on)

lemma negotiated_field:
  assumes io: "recv_ok io work" and pre: "reads fd pre"
    and go: "\<And>b u evs. reads fd evs \<Longrightarrow> rcvd_on fd evs = rcvd_on fd pre @ b \<Longrightarrow> length b = n \<Longrightarrow> runs tr (negotiated fd) (k b (u, tr @ evs))"
  shows "runs tr (negotiated fd) (with_exact io fd n (u, tr @ pre) k)"
  by (rule with_exact_runs [OF io pre]) (auto intro: negotiated_None go)

lemma reads_Nil [simp]: "reads fd []"
  by (simp add: reads_def)

lemma negotiate_runs:
  fixes io :: "'u sockets"
  assumes io: "recv_ok io work"
  shows "runs tr (negotiated fd) (socks_negotiate io fd (u, tr @ []))"
  unfolding socks_negotiate_def
proof (rule negotiated_field [OF io reads_Nil])
  fix b evs and u :: 'u assume r: "reads fd evs" "rcvd_on fd evs = rcvd_on fd [] @ b" "length b = 2"
  have stop: "runs tr (negotiated fd) (Some (None, u, tr @ evs))" by (rule runs_now) (rule negotiated_None [OF r(1)])
  have "runs tr (negotiated fd) (with_exact io fd (unat (b ! 1)) (u, tr @ evs) (\<lambda>methods w.
      case do_send io fd [0x05, 0x00] w of (r, w) \<Rightarrow> Some (if r = Sent 2 then Some () else None, w)))" if h: "b ! 0 = 5" "b ! 1 \<noteq> 0"
  proof (rule negotiated_field [OF io r(1)])
    fix ms u evs' assume m: "reads fd evs'" "rcvd_on fd evs' = rcvd_on fd evs @ ms" "length ms = unat (b ! 1)"
    have b: "b = [5, of_nat (length ms)]" using list2 [OF r(3)] h m(3) by simp
    have "ms \<noteq> []" "length ms < 256" using m(3) h(2) unat_byte_less [of "b ! 1"] by (auto simp: unat_eq_zero)
    then have "rcvd_on fd evs' = greeting ms \<and> ms \<noteq> [] \<and> length ms < 256" using r(2) m(2) b by (simp add: greeting_def)
    then show "runs tr (negotiated fd)
        (case do_send io fd [0x05, 0x00] (u, tr @ evs') of (r, w) \<Rightarrow> Some (if r = Sent 2 then Some () else None, w))"
      using m(1) by (intro send_runs) (auto simp: negotiated_def reads_on)
  qed
  then show "runs tr (negotiated fd) (if b ! 0 \<noteq> 0x05 then Some (None, u, tr @ evs) else if b ! 1 = 0 then Some (None, u, tr @ evs)
      else with_exact io fd (unat (b ! 1)) (u, tr @ evs) (\<lambda>methods w.
        case do_send io fd [0x05, 0x00] w of (r, w) \<Rightarrow> Some (if r = Sent 2 then Some () else None, w)))"
    using stop by simp
qed

definition targeted :: "(bytes \<Rightarrow> string option) \<Rightarrow> int \<Rightarrow> (string \<times> int) option \<Rightarrow> net_event list \<Rightarrow> bool" where
  "targeted ntop6 fd r evs \<longleftrightarrow> on_fd fd evs \<and> prefix (sent_on fd evs) (reply_bytes False) \<and>
     (\<forall>host port. r = Some (host, port) \<longrightarrow> sent_on fd evs = [] \<and>
        (\<exists>rsv t p. target_ok t \<and> rcvd_on fd evs = request rsv t p \<and> target_host ntop6 t = Some host \<and> port = uint p))"

lemma targeted_None: "reads fd evs \<Longrightarrow> targeted ntop6 fd None evs"
  by (simp add: targeted_def reads_on)

lemma targeted_field:
  assumes io: "recv_ok io work" and pre: "reads fd pre"
    and go: "\<And>b u evs. reads fd evs \<Longrightarrow> rcvd_on fd evs = rcvd_on fd pre @ b \<Longrightarrow> length b = n \<Longrightarrow> runs tr (targeted ntop6 fd) (k b (u, tr @ evs))"
  shows "runs tr (targeted ntop6 fd) (with_exact io fd n (u, tr @ pre) k)"
  by (rule with_exact_runs [OF io pre]) (auto intro: targeted_None go)

text \<open>The port ends every request.\<close>

lemma port_runs:
  assumes io: "recv_ok io work" and pre: "reads fd evs" "rcvd_on fd evs = [5, 1, rsv] @ target_bytes t" "target_ok t" "target_host ntop6 t = Some host"
  shows "runs tr (targeted ntop6 fd) (with_exact io fd 2 (u, tr @ evs) (\<lambda>port_buf w. Some (Some (host, port_of port_buf), w)))"
proof (rule targeted_field [OF io pre(1)])
  fix b u evs' assume b: "reads fd evs'" "rcvd_on fd evs' = rcvd_on fd evs @ b" "length b = 2"
  have "rcvd_on fd evs' = request rsv t (be16 (b ! 0) (b ! 1))"
    using pre(2) b(2) list2 [OF b(3)] by (simp add: request_def be16_bytes_def)
  moreover have "port_of b = uint (be16 (b ! 0) (b ! 1))" by (simp add: port_of_def)
  ultimately have "targeted ntop6 fd (Some (host, port_of b)) evs'"
    using pre b(1) unfolding targeted_def by (auto simp: reads_on)
  then show "runs tr (targeted ntop6 fd) (Some (Some (host, port_of b), u, tr @ evs'))" by (rule runs_now)
qed

lemma read_target_runs:
  fixes env :: "('a, 'u) socks_env"
  assumes io: "recv_ok (x_io env) work"
  shows "runs tr (targeted (x_ntop6 env) fd) (read_target env fd 256 (u, tr @ []))"
  unfolding read_target_def Let_def
proof (rule targeted_field [OF io reads_Nil])
  let ?P = "targeted (x_ntop6 env) fd"
  fix b evs and u :: 'u assume r: "reads fd evs" "rcvd_on fd evs = rcvd_on fd [] @ b" "length b = 4"
  have stop: "runs tr ?P (Some (None, u, tr @ evs))" if "reads fd evs" for evs and u :: 'u by (rule runs_now) (rule targeted_None [OF that])
  have domain: "runs tr ?P (with_exact (x_io env) fd 1 (u, tr @ evs) (\<lambda>len w.
            if len ! 0 = 0 \<or> unat (len ! 0) \<ge> 256 then Some (None, w)
            else with_exact (x_io env) fd (unat (len ! 0)) w (\<lambda>name w.
              with_exact (x_io env) fd 2 w (\<lambda>port_buf w. Some (Some (host_text name, port_of port_buf), w)))))"
    if h: "b = [5, 1, b ! 2, 3]"
  proof (rule targeted_field [OF io r(1)])
    fix len u evs1 assume l: "reads fd evs1" "rcvd_on fd evs1 = rcvd_on fd evs @ len" "length len = 1"
    have "runs tr ?P (with_exact (x_io env) fd (unat (len ! 0)) (u, tr @ evs1) (\<lambda>name w.
              with_exact (x_io env) fd 2 w (\<lambda>port_buf w. Some (Some (host_text name, port_of port_buf), w))))" if nz: "len ! 0 \<noteq> 0"
    proof (rule targeted_field [OF io l(1)])
      fix name u evs2 assume n: "reads fd evs2" "rcvd_on fd evs2 = rcvd_on fd evs1 @ name" "length name = unat (len ! 0)"
      have "len = [of_nat (length name)]" using l(3) n(3) by (auto simp: length_Suc_conv)
      moreover have "target_ok (Domain name)" using n(3) nz unat_byte_less [of "len ! 0"] by (auto simp: unat_eq_zero)
      ultimately show "runs tr ?P (with_exact (x_io env) fd 2 (u, tr @ evs2) (\<lambda>port_buf w. Some (Some (host_text name, port_of port_buf), w)))"
        using r(2) l(2) n h by (intro port_runs [OF io, where t = "Domain name" and rsv = "b ! 2"]) auto
    qed
    then show "runs tr ?P (if len ! 0 = 0 \<or> unat (len ! 0) \<ge> 256 then Some (None, u, tr @ evs1)
        else with_exact (x_io env) fd (unat (len ! 0)) (u, tr @ evs1) (\<lambda>name w.
              with_exact (x_io env) fd 2 w (\<lambda>port_buf w. Some (Some (host_text name, port_of port_buf), w))))"
      using stop [OF l(1)] by simp
  qed
  have v4: "runs tr ?P (with_exact (x_io env) fd 4 (u, tr @ evs) (\<lambda>addr4 w.
            with_exact (x_io env) fd 2 w (\<lambda>port_buf w. Some (Some (dotted_quad addr4, port_of port_buf), w))))"
    if h: "b = [5, 1, b ! 2, 1]"
    using r(2) h by (intro targeted_field [OF io r(1)] port_runs [OF io, where t = "IPv4 _" and rsv = "b ! 2"]) auto
  have v6: "runs tr ?P (with_exact (x_io env) fd 16 (u, tr @ evs) (\<lambda>addr6 w.
            case x_ntop6 env addr6 of
              None \<Rightarrow> Some (None, w)
            | Some host \<Rightarrow> with_exact (x_io env) fd 2 w (\<lambda>port_buf w. Some (Some (host, port_of port_buf), w))))"
    if h: "b = [5, 1, b ! 2, 4]"
  proof (rule targeted_field [OF io r(1)])
    fix a u evs1 assume a: "reads fd evs1" "rcvd_on fd evs1 = rcvd_on fd evs @ a" "length a = 16"
    show "runs tr ?P (case x_ntop6 env a of None \<Rightarrow> Some (None, u, tr @ evs1)
        | Some host \<Rightarrow> with_exact (x_io env) fd 2 (u, tr @ evs1) (\<lambda>port_buf w. Some (Some (host, port_of port_buf), w)))"
      using stop [OF a(1)] a r(2) h by (cases "x_ntop6 env a") (auto intro!: port_runs [OF io, where t = "IPv6 a" and rsv = "b ! 2"])
  qed
  have no: "runs tr ?P (Some (None, snd (send_result (x_io env) fd False (u, tr @ evs))))"
    unfolding send_result_def case_prod_beta snd_conv
    using send_runs [where f = "\<lambda>r. None" and P = ?P and b = "reply_bytes False" and fd = fd and pre = evs and io = "x_io env" and tr = tr and u = u] r(1)
    by (auto simp: targeted_def reads_on reply_bytes_def case_prod_beta)
  have b: "b = [5, 1, b ! 2, k]" if "b ! 0 = 5" "b ! 1 = 1" "b ! 3 = k" for k using list4 [OF r(3)] that by simp
  note kinds = domain [OF b] v4 [OF b] v6 [OF b]
  show "runs tr ?P (if b ! 0 \<noteq> 0x05 \<or> b ! 1 \<noteq> 0x01 then Some (None, u, tr @ evs)
      else if b ! 3 = 0x03 then with_exact (x_io env) fd 1 (u, tr @ evs) (\<lambda>len w.
            if len ! 0 = 0 \<or> unat (len ! 0) \<ge> 256 then Some (None, w)
            else with_exact (x_io env) fd (unat (len ! 0)) w (\<lambda>name w.
              with_exact (x_io env) fd 2 w (\<lambda>port_buf w. Some (Some (host_text name, port_of port_buf), w))))
      else if b ! 3 = 0x01 then with_exact (x_io env) fd 4 (u, tr @ evs) (\<lambda>addr4 w.
            with_exact (x_io env) fd 2 w (\<lambda>port_buf w. Some (Some (dotted_quad addr4, port_of port_buf), w)))
      else if b ! 3 = 0x04 then with_exact (x_io env) fd 16 (u, tr @ evs) (\<lambda>addr6 w.
            case x_ntop6 env addr6 of
              None \<Rightarrow> Some (None, w)
            | Some host \<Rightarrow> with_exact (x_io env) fd 2 w (\<lambda>port_buf w. Some (Some (host, port_of port_buf), w)))
      else Some (None, snd (send_result (x_io env) fd False (u, tr @ evs))))"
    using stop [OF r(1)] kinds no by simp
qed

section \<open>Connecting\<close>

text \<open>What is relied on: a new descriptor is \<open>SOCKET_INVALID\<close> or not negative, and not the client's.\<close>

definition socks_env_ok :: "('a, 'u) socks_env \<Rightarrow> ('u \<Rightarrow> nat) \<Rightarrow> int \<Rightarrow> bool" where
  "socks_env_ok env work client \<longleftrightarrow> sockets_ok (x_io env) work \<and>
     (\<forall>a u. fst (x_socket env a u) = SOCKET_INVALID \<or> 0 \<le> fst (x_socket env a u) \<and> fst (x_socket env a u) \<noteq> client)"

definition opens :: "net_event list \<Rightarrow> bool" where
  "opens tr = list_all (\<lambda>e. case e of Ev_connect fd \<Rightarrow> True | Ev_close fd \<Rightarrow> True | _ \<Rightarrow> False) tr"

lemma opens_on: "opens tr \<Longrightarrow> sent_on fd tr = []" "opens tr \<Longrightarrow> rcvd_on fd tr = []"
  by (induction tr) (auto simp: opens_def split: net_event.splits)

text \<open>Every descriptor but the one returned is closed, and that one is connected to one of the addresses.\<close>

definition connected :: "('a, 'u) socks_env \<Rightarrow> int \<Rightarrow> 'a list \<Rightarrow> int \<Rightarrow> net_event list \<Rightarrow> bool" where
  "connected env client as fd evs \<longleftrightarrow> opens evs \<and>
     (if fd = SOCKET_INVALID then opened evs = closed evs
      else opened evs = closed evs @ [fd] \<and> 0 \<le> fd \<and> fd \<noteq> client \<and> (\<exists>a \<in> set as. \<exists>u u'. x_connect env fd a u = (True, u')))"

lemma try_addresses_connected:
  assumes env: "socks_env_ok env work client"
  shows "\<exists>fd u evs. try_addresses env as w = (fd, u, snd w @ evs) \<and> connected env client as fd evs"
proof (induction as arbitrary: w)
  case Nil
  show ?case by (auto simp: connected_def opens_def prod_eq_iff intro!: exI [of _ "fst w"])
next
  case (Cons a as)
  obtain fd u where s: "x_socket env a (fst w) = (fd, u)" by fastforce
  have fd: "fd = SOCKET_INVALID \<or> 0 \<le> fd \<and> fd \<noteq> client" using env s by (auto simp: socks_env_ok_def) (metis fst_conv)+
  obtain ok u' where c: "x_connect env fd a u = (ok, u')" by fastforce
  have more: "\<exists>fd' v evs. try_addresses env as (u'', snd w @ pre) = (fd', v, snd w @ evs) \<and> connected env client (a # as) fd' evs"
    if "opens pre" "opened pre = closed pre" for u'' pre
  proof -
    obtain fd' v evs where "try_addresses env as (u'', snd w @ pre) = (fd', v, (snd w @ pre) @ evs)" "connected env client as fd' evs"
      using Cons.IH [of "(u'', snd w @ pre)"] by auto
    then show ?thesis using that by (intro exI [of _ fd'] exI [of _ v] exI [of _ "pre @ evs"]) (auto simp: connected_def opens_def split: if_splits)
  qed
  consider "fd = SOCKET_INVALID" | "fd \<noteq> SOCKET_INVALID" "ok" | "fd \<noteq> SOCKET_INVALID" "\<not> ok" by blast
  then show ?case
  proof cases
    case 1
    then show ?thesis using more [of "[Ev_connect fd]" u] s by (simp add: open_socket_def opens_def SOCKET_INVALID_def)
  next
    case 2
    then have "connected env client (a # as) fd [Ev_connect fd]" using fd c by (auto simp: connected_def opens_def)
    then show ?thesis using 2 s c by (simp add: open_socket_def)
  next
    case 3
    then show ?thesis using more [of "[Ev_connect fd, Ev_close fd]" "x_close env fd u'"] s c fd
      by (simp add: open_socket_def socket_close_def opens_def)
  qed
qed

section \<open>A whole client\<close>

text \<open>Refused: the client was never told of success, and nothing stays open.\<close>

definition refused :: "int \<Rightarrow> net_event list \<Rightarrow> bool" where
  "refused client tr \<longleftrightarrow> closed tr = opened tr \<and>
     (prefix (sent_on client tr) ([5, 0] @ reply_bytes False) \<or> (\<exists>m < 10. sent_on client tr = [5, 0] @ take m (reply_bytes True)))"

text \<open>Proxied: a well-formed greeting and request were read and answered, the host they name was resolved and
  connected, and the rest was relayed.\<close>

definition proxied :: "('a, 'u) socks_env \<Rightarrow> int \<Rightarrow> net_event list \<Rightarrow> bool" where
  "proxied env client tr \<longleftrightarrow> (\<exists>hs cs fd rel code ms rsv t p host as u u'.
     tr = hs @ cs @ [Ev_send client (reply_bytes True) (Sent 10)] @ rel @ [Ev_close fd] \<and>
     on_fd client hs \<and> sent_on client hs = [5, 0] \<and> rcvd_on client hs = greeting ms @ request rsv t p \<and>
     ms \<noteq> [] \<and> length ms < 256 \<and> target_ok t \<and> target_host (x_ntop6 env) t = Some host \<and>
     x_getaddrinfo env host (print_lld (uint p)) u = (Some as, u') \<and> fd \<noteq> SOCKET_INVALID \<and> connected env client as fd cs \<and>
     relayed client fd (split_mode (x_split_env env)) code rel)"

lemma proxied_closed: "proxied env client tr \<Longrightarrow> closed tr = opened tr"
  by (auto simp: proxied_def connected_def relayed_def)

lemma port_text: "take 15 (print_lld (uint (p :: u16))) = print_lld (uint p)"
proof -
  have "uint p < 2 ^ 16" using uint_bounded [of p] by simp
  then have "nat (uint p) < 10 ^ 15" by (subst nat_less_iff) auto
  then have "length (dec_nat (nat (uint p))) \<le> 15" by (rule dec_nat_length) simp
  then show ?thesis by (simp add: print_lld_def)
qed

lemma send_result_effect:
  assumes "send_ok io work"
  obtains r u' m where "send_result io fd b (u, tr) = (r = Sent 10, u', tr @ [Ev_send fd (reply_bytes b) r])"
    "sent_of fd (Ev_send fd (reply_bytes b) r) = take m (reply_bytes b)" "r \<noteq> Sent 10 \<longrightarrow> m < 10"
proof -
  obtain r u' where r: "s_send io fd (reply_bytes b) u = (r, u')" by fastforce
  note law = send_law [OF assms r]
  define m where "m = (case r of Sent n \<Rightarrow> n | _ \<Rightarrow> 0)"
  have "send_result io fd b (u, tr) = (r = Sent 10, u', tr @ [Ev_send fd (reply_bytes b) r])"
    using r by (simp add: send_result_def do_send_def reply_bytes_def)
  moreover have "sent_of fd (Ev_send fd (reply_bytes b) r) = take m (reply_bytes b)" by (cases r) (simp_all add: m_def)
  moreover have "r \<noteq> Sent 10 \<longrightarrow> m < 10" using law by (cases r) (auto simp: m_def reply_bytes_def)
  ultimately show ?thesis by (rule that)
qed

lemma upstream_connected:
  assumes env: "socks_env_ok env work client"
  shows "\<exists>fd u' evs as. connect_upstream env host (uint (p :: u16)) (u, tr) = (fd, u', tr @ evs) \<and> connected env client as fd evs \<and>
    (fd \<noteq> SOCKET_INVALID \<longrightarrow> (\<exists>v v'. x_getaddrinfo env host (print_lld (uint p)) v = (Some as, v')))"
proof -
  obtain addrs u3 where g: "x_getaddrinfo env host (print_lld (uint p)) u = (addrs, u3)" by fastforce
  show ?thesis
  proof (cases addrs)
    case None
    then show ?thesis using g by (intro exI [of _ SOCKET_INVALID]) (auto simp: connect_upstream_def port_text connected_def opens_def)
  next
    case (Some as)
    then obtain fd v evs where "connect_upstream env host (uint p) (u, tr) = (fd, v, tr @ evs)" "connected env client as fd evs"
      using try_addresses_connected [OF env, of as "(u3, tr)"] g by (auto simp: connect_upstream_def port_text)
    then show ?thesis using g Some by blast
  qed
qed

lemma serve_target_ok:
  assumes env: "socks_env_ok env work client"
    and hs: "on_fd client hs" "sent_on client hs = [5, 0]" "rcvd_on client hs = greeting ms @ request rsv t p" "ms \<noteq> []" "length ms < 256"
      "target_ok t" "target_host (x_ntop6 env) t = Some host"
  shows "\<exists>u' evs. serve_target env client host (uint p) (u, tr @ hs) = Some (u', tr @ evs) \<and> (refused client evs \<or> proxied env client evs)"
proof -
  let ?io = "x_io env" and ?split = "split_mode (x_split_env env)"
  have ok: "sockets_ok ?io work" "send_ok ?io work" using env by (simp_all add: socks_env_ok_def sockets_ok_def)
  obtain fd u1 cs as where c: "connect_upstream env host (uint p) (u, tr @ hs) = (fd, u1, (tr @ hs) @ cs)" "connected env client as fd cs"
    "fd \<noteq> SOCKET_INVALID \<longrightarrow> (\<exists>v v'. x_getaddrinfo env host (print_lld (uint p)) v = (Some as, v'))"
    using upstream_connected [OF env, of host p u "tr @ hs"] by blast
  have on: "sent_on client hs = [5, 0]" "sent_on client cs = []" "closed hs = []" "opened hs = []" using hs c(2) opens_on(1) by (auto simp: connected_def)
  obtain r u2 m where no: "send_result ?io client False (u1, tr @ hs @ cs) = (r = Sent 10, u2, (tr @ hs @ cs) @ [Ev_send client (reply_bytes False) r])"
    "sent_of client (Ev_send client (reply_bytes False) r) = take m (reply_bytes False)" by (rule send_result_effect [OF ok(2)])
  obtain r' u3 m' where yes: "send_result ?io client True (u1, tr @ hs @ cs) = (r' = Sent 10, u3, (tr @ hs @ cs) @ [Ev_send client (reply_bytes True) r'])"
    "sent_of client (Ev_send client (reply_bytes True) r') = take m' (reply_bytes True)" "r' \<noteq> Sent 10 \<longrightarrow> m' < 10" by (rule send_result_effect [OF ok(2)])
  let ?e = "hs @ cs @ [Ev_send client (reply_bytes True) r']"
  consider (none) "fd = SOCKET_INVALID" | (unsent) "fd \<noteq> SOCKET_INVALID" "r' \<noteq> Sent 10" | (up) "fd \<noteq> SOCKET_INVALID" "r' = Sent 10" by blast
  then show ?thesis
  proof cases
    case none
    then have "refused client (hs @ cs @ [Ev_send client (reply_bytes False) r])"
      using on c(2) no(2) by (auto simp: refused_def connected_def take_is_prefix)
    then show ?thesis using none c(1) no(1) by (simp add: serve_target_def)
  next
    case unsent
    then have "refused client (?e @ [Ev_close fd])" using on c(2) yes(2,3) by (auto simp: refused_def connected_def)
    then show ?thesis using unsent c(1) yes(1) by (simp add: serve_target_def socket_close_def)
  next
    case up
    have "client \<noteq> fd" using up c(2) by (auto simp: connected_def)
    from relay_connection_relayed [OF ok(1) this, of ?split "(u3, tr @ ?e)"] obtain code u4 rel where
      x: "relay_connection ?io client fd ?split (u3, tr @ ?e) = Some (code, u4, (tr @ ?e) @ rel)" "relayed client fd ?split code rel" by auto
    have "proxied env client (?e @ rel @ [Ev_close fd])" unfolding proxied_def using up hs c(2,3) x(2) by fastforce
    then show ?thesis using up c(1) yes(1) x(1) by (simp add: serve_target_def socket_close_def)
  qed
qed

lemma handle_client_ok:
  assumes env: "socks_env_ok env work client"
  shows "\<exists>u evs. handle_client env client w = Some (u, snd w @ evs) \<and> (refused client evs \<or> proxied env client evs)"
proof -
  let ?io = "x_io env" and ?tr = "snd w"
  have ok: "recv_ok ?io work" using env by (simp add: socks_env_ok_def sockets_ok_def)
  obtain neg u1 e1 where 1: "socks_negotiate ?io client w = Some (neg, u1, ?tr @ e1)" "negotiated client neg e1"
    using negotiate_runs [OF ok, of ?tr client "fst w"] by (auto simp: runs_def)
  obtain target u2 e2 where 2: "read_target env client 256 (u1, ?tr @ e1) = Some (target, u2, ?tr @ e1 @ e2)" "targeted (x_ntop6 env) client target e2"
    using read_target_runs [OF ok, of "?tr @ e1" client u1] by (auto simp: runs_def)
  have off: "on_fd client e1" "on_fd client e2" using 1(2) 2(2) by (simp_all add: negotiated_def targeted_def)
  consider (bad) "neg = None" | (none) "neg \<noteq> None" "target = None" | (got) host port where "neg \<noteq> None" "target = Some (host, port)" by fastforce
  then show ?thesis
  proof cases
    case bad
    have "refused client e1" using 1(2) off prefix_prefix [of "sent_on client e1" "[5, 0]" "reply_bytes False"] by (auto simp: refused_def negotiated_def)
    then show ?thesis using 1 bad by (simp add: handle_client_def)
  next
    case none
    then have "refused client (e1 @ e2)" using 1(2) 2(2) off by (auto simp: refused_def negotiated_def targeted_def)
    then show ?thesis using 1 2 none by (simp add: handle_client_def)
  next
    case (got host port)
    obtain ms where n: "sent_on client e1 = [5, 0]" "rcvd_on client e1 = greeting ms" "ms \<noteq> []" "length ms < 256"
      using 1(2) got by (auto simp: negotiated_def)
    obtain rsv t p where q: "sent_on client e2 = []" "rcvd_on client e2 = request rsv t p" "target_ok t" "target_host (x_ntop6 env) t = Some host" "port = uint p"
      using 2(2) got by (auto simp: targeted_def)
    have "handle_client env client w = serve_target env client host port (u2, ?tr @ e1 @ e2)"
      using 1(1) 2(1) got by (simp add: handle_client_def)
    then show ?thesis using serve_target_ok [OF env, of "e1 @ e2" ms rsv t p host u2 ?tr] off n q by simp
  qed
qed

section \<open>Any segmentation\<close>

text \<open>A client that has the bytes \<open>stream u\<close> still to send, in whatever pieces, and takes what it is sent.\<close>

definition delivers :: "'u sockets \<Rightarrow> int \<Rightarrow> ('u \<Rightarrow> bytes) \<Rightarrow> bool" where
  "delivers io fd stream \<longleftrightarrow>
     (\<forall>cap u. 0 < cap \<longrightarrow> (case s_recv io fd cap u of
        (Received b, u') \<Rightarrow> stream u = b @ stream u' \<and> (b = [] \<longrightarrow> stream u = [])
      | (Recv_interrupted, u') \<Rightarrow> stream u' = stream u
      | (Recv_error, u') \<Rightarrow> False)) \<and>
     (\<forall>b u. fst (s_send io fd b u) = Sent (length b) \<and> stream (snd (s_send io fd b u)) = stream u)"

lemma recv_exact_delivers:
  assumes io: "recv_ok io work" "delivers io fd stream"
  shows "stream (fst w) = b @ rest \<Longrightarrow> length (got @ b) = n \<Longrightarrow>
    \<exists>u tr. recv_exact io fd n got w = Some (Exact (got @ b), u, tr) \<and> stream u = rest"
proof (induction "work (fst w)" arbitrary: got b w rule: less_induct)
  case less
  obtain r u where r: "s_recv io fd (n - length got) (fst w) = (r, u)" by fastforce
  note law = recv_law [OF io(1) r]
  have step: "do_recv io fd (n - length got) w = (r, u, snd w @ [Ev_recv fd r])" by (simp add: do_recv_def r)
  show ?case
  proof (cases "b = []")
    case True
    then show ?thesis using less.prems by (subst recv_exact.simps) (auto simp: prod_eq_iff)
  next
    case False
    then have lt: "length got < n" using less.prems(2) by auto
    then have d: "case r of Received c \<Rightarrow> stream (fst w) = c @ stream u \<and> (c = [] \<longrightarrow> stream (fst w) = []) | Recv_interrupted \<Rightarrow> stream u = stream (fst w)
        | Recv_error \<Rightarrow> False" using io(2) r unfolding delivers_def by (auto dest!: spec [of _ "n - length got"] spec [of _ "fst w"])
    show ?thesis
    proof (cases r)
      case (Received c)
      have "length c \<le> length b" using law Received less.prems(2) by auto
      then obtain b' where b: "b = c @ b'" using d Received less.prems(1) by (auto simp: append_eq_append_conv2)
      have "c \<noteq> []" using d Received less.prems(1) False by auto
      then show ?thesis
        using less.hyps [of "(u, snd w @ [Ev_recv fd r])" b' "got @ c"] law d Received b lt less.prems step by (subst recv_exact.simps) auto
    next
      case Recv_interrupted
      then show ?thesis using less.hyps [of "(u, snd w @ [Ev_recv fd r])" b got] law d lt less.prems step by (subst recv_exact.simps) auto
    next
      case Recv_error
      then show ?thesis using d by simp
    qed
  qed
qed

lemma exact_delivers:
  assumes "recv_ok io work" "delivers io fd stream" "stream (fst w) = b @ rest" "length b = n"
  shows "\<exists>u tr. recv_exact io fd n [] w = Some (Exact b, u, tr) \<and> stream u = rest"
  using recv_exact_delivers [OF assms(1,2,3), of "[]" n] assms(4) by auto

lemma with_exact_Exact: "recv_exact io fd n [] w = Some (Exact b, w') \<Longrightarrow> with_exact io fd n w k = k b w'"
  by (simp add: with_exact_def)

lemma negotiate_delivers:
  assumes io: "recv_ok io work" "delivers io fd stream" and ms: "ms \<noteq> []" "length ms < 256" and st: "stream (fst w) = greeting ms @ rest"
  shows "\<exists>u tr. socks_negotiate io fd w = Some (Some (), u, tr) \<and> stream u = rest"
proof -
  let ?n = "of_nat (length ms) :: 8 word"
  have n: "unat ?n = length ms" using ms(2) by (simp add: unat_of_nat)
  then have nz: "?n \<noteq> 0" using ms(1) by auto
  obtain u1 t1 where 1: "recv_exact io fd 2 [] w = Some (Exact [5, ?n], u1, t1)" "stream u1 = ms @ rest"
    using exact_delivers [OF io, of w "[5, ?n]" "ms @ rest" 2] st by (auto simp: greeting_def)
  obtain u2 t2 where 2: "recv_exact io fd (unat ?n) [] (u1, t1) = Some (Exact ms, u2, t2)" "stream u2 = rest"
    using exact_delivers [OF io, of "(u1, t1)" ms rest "unat ?n"] 1(2) n by auto
  obtain r u3 where s: "s_send io fd [5, 0] u2 = (r, u3)" by fastforce
  have "fst (s_send io fd [5, 0] u2) = Sent (length [5 :: 8 word, 0])" "stream (snd (s_send io fd [5, 0] u2)) = stream u2"
    using io(2) unfolding delivers_def by blast+
  then have "r = Sent 2" "stream u3 = rest" using s 2(2) by simp_all
  then show ?thesis using s nz by (simp add: socks_negotiate_def with_exact_Exact [OF 1(1)] with_exact_Exact [OF 2(1)] do_send_def)
qed

lemma read_target_delivers:
  assumes io: "recv_ok (x_io env) work" "delivers (x_io env) fd stream" and t: "target_ok t" "target_host (x_ntop6 env) t = Some host"
    and st: "stream (fst w) = request rsv t p @ rest"
  shows "\<exists>u tr. read_target env fd 256 w = Some (Some (host, uint p), u, tr) \<and> stream u = rest"
proof -
  let ?io = "x_io env"
  obtain atyp body where tb: "target_bytes t = atyp # body" by (cases t) auto
  obtain u1 t1 where 1: "recv_exact ?io fd 4 [] w = Some (Exact [5, 1, rsv, atyp], u1, t1)" "stream u1 = body @ be16_bytes p @ rest"
    using exact_delivers [OF io, of w "[5, 1, rsv, atyp]" "body @ be16_bytes p @ rest" 4] st tb by (auto simp: request_def)
  have port: "\<exists>u t'. recv_exact ?io fd 2 [] (v, tr) = Some (Exact (be16_bytes p), u, t') \<and> stream u = rest" if "stream v = be16_bytes p @ rest" for v tr
    using exact_delivers [OF io, of "(v, tr)" "be16_bytes p" rest 2] that by auto
  have p: "port_of (be16_bytes p) = uint p" by (simp add: port_of_def be16_bytes_def)
  have addr: "\<exists>u2 t2 u3 t3. recv_exact ?io fd (length a) [] (v, tr) = Some (Exact a, u2, t2) \<and>
      recv_exact ?io fd 2 [] (u2, t2) = Some (Exact (be16_bytes p), u3, t3) \<and> stream u3 = rest" if "stream v = a @ be16_bytes p @ rest" for a v tr
    using exact_delivers [OF io, of "(v, tr)" a "be16_bytes p @ rest" "length a"] that port by fastforce
  show ?thesis
  proof (cases t)
    case (Domain d)
    let ?n = "of_nat (length d) :: 8 word"
    have n: "unat ?n = length d" using Domain t(1) by (simp add: unat_of_nat)
    have nz: "?n \<noteq> 0" using n Domain t(1) by auto
    have b: "atyp = 3" "body = ?n # d" "host = host_text d" "length d < 256" using Domain tb t by auto
    obtain u2 t2 where 2: "recv_exact ?io fd 1 [] (u1, t1) = Some (Exact [?n], u2, t2)" "stream u2 = d @ be16_bytes p @ rest"
      using exact_delivers [OF io, of "(u1, t1)" "[?n]" "d @ be16_bytes p @ rest" 1] 1(2) b(2) by auto
    from addr [OF 2(2), of t2] obtain u3 t3 u4 t4 where 3: "recv_exact ?io fd (length d) [] (u2, t2) = Some (Exact d, u3, t3)"
      "recv_exact ?io fd 2 [] (u3, t3) = Some (Exact (be16_bytes p), u4, t4)" "stream u4 = rest" by blast
    show ?thesis using b nz n 3(3)
      by (simp add: read_target_def with_exact_Exact [OF 1(1)] with_exact_Exact [OF 2(1)] with_exact_Exact [OF 3(1)] with_exact_Exact [OF 3(2)] p Let_def
          del: One_nat_def)
  next
    case (IPv4 a)
    have b: "atyp = 1" "body = a" "host = dotted_quad a" "length a = 4" using IPv4 tb t by auto
    from addr [of u1 a t1] 1(2) b obtain u3 t3 u4 t4 where 3: "recv_exact ?io fd 4 [] (u1, t1) = Some (Exact a, u3, t3)"
      "recv_exact ?io fd 2 [] (u3, t3) = Some (Exact (be16_bytes p), u4, t4)" "stream u4 = rest" by auto
    show ?thesis using b 3(3) by (simp add: read_target_def with_exact_Exact [OF 1(1)] with_exact_Exact [OF 3(1)] with_exact_Exact [OF 3(2)] p)
  next
    case (IPv6 a)
    have b: "atyp = 4" "body = a" "x_ntop6 env a = Some host" "length a = 16" using IPv6 tb t by auto
    from addr [of u1 a t1] 1(2) b obtain u3 t3 u4 t4 where 3: "recv_exact ?io fd 16 [] (u1, t1) = Some (Exact a, u3, t3)"
      "recv_exact ?io fd 2 [] (u3, t3) = Some (Exact (be16_bytes p), u4, t4)" "stream u4 = rest" by auto
    show ?thesis using b 3(3) by (simp add: read_target_def with_exact_Exact [OF 1(1)] with_exact_Exact [OF 3(1)] with_exact_Exact [OF 3(2)] p)
  qed
qed

section \<open>A concrete client\<close>

text \<open>It sends three bytes at a time, and some of the calls are interrupted first.\<close>

type_synonym slow_client = "bytes \<times> nat"

fun slow_recv :: "int \<Rightarrow> nat \<Rightarrow> slow_client \<Rightarrow> recv_result \<times> slow_client" where
  "slow_recv fd cap (b, Suc k) = (Recv_interrupted, b, k)"
| "slow_recv fd cap (b, 0) = (Received (take (min cap 3) b), drop (min cap 3) b, 0)"

definition slow_env :: "(unit, slow_client) socks_env" where
  "slow_env = \<lparr>x_io = \<lparr>s_send = (\<lambda>fd b u. (Sent (length b), u)), s_recv = slow_recv, s_poll = (\<lambda>a b t u. (Poll_error, u)),
       s_shutdown = (\<lambda>fd u. u), s_linger = (\<lambda>fd u. u)\<rparr>,
     x_ntop6 = (\<lambda>a. None), x_getaddrinfo = (\<lambda>host port u. (Some [()], u)), x_socket = (\<lambda>a u. (4, u)), x_connect = (\<lambda>fd a u. (True, u)),
     x_close = (\<lambda>fd u. u), x_split_env = Some ''record''\<rparr>"

definition slow_work :: "slow_client \<Rightarrow> nat" where
  "slow_work u = length (fst u) + snd u"

lemma slow_recv_ok: "recv_ok (x_io slow_env) slow_work"
  unfolding recv_ok_def
proof (intro allI)
  fix fd cap and u :: slow_client
  obtain b k where "u = (b, k)" by fastforce
  then show "case s_recv (x_io slow_env) fd cap u of
      (Received b, u') \<Rightarrow> length b \<le> cap \<and> (if b = [] then slow_work u' \<le> slow_work u else slow_work u' < slow_work u)
    | (Recv_interrupted, u') \<Rightarrow> slow_work u' < slow_work u | (Recv_error, u') \<Rightarrow> slow_work u' \<le> slow_work u"
    by (cases k) (auto simp: slow_env_def slow_work_def)
qed

lemma slow_delivers: "delivers (x_io slow_env) 3 fst"
  unfolding delivers_def
proof (intro conjI allI impI)
  fix cap :: nat and u :: slow_client assume "0 < cap"
  then show "case s_recv (x_io slow_env) 3 cap u of (Received b, u') \<Rightarrow> fst u = b @ fst u' \<and> (b = [] \<longrightarrow> fst u = [])
      | (Recv_interrupted, u') \<Rightarrow> fst u' = fst u | (Recv_error, u') \<Rightarrow> False"
    by (cases u; cases "snd u") (auto simp: slow_env_def)
qed (simp_all add: slow_env_def)

lemma slow_env_ok: "socks_env_ok slow_env slow_work 3"
  using slow_recv_ok by (simp add: socks_env_ok_def sockets_ok_def send_ok_def poll_ok_def slow_env_def slow_work_def SOCKET_INVALID_def)

section \<open>Properties\<close>

text \<open>Claim C13. Serving a SOCKS client ends when its peers interrupt and send only finitely often. Either the
  client never gets a complete success reply; or it sent a well-formed greeting and a CONNECT request,
  was answered \<open>05 00\<close> and a success reply, the host and port of exactly that request were resolved and one of the
  addresses connected, and from then on everything is relayed between the two with the first write in the
  form the environment variable asks for. All descriptors are closed in the end.\<close>

theorem socks_client_correct:
  assumes "socks_env_ok env work client_fd"
  shows "\<exists>u evs. client_thread env client_fd w = Some (u, snd w @ evs @ [Ev_close client_fd]) \<and>
    (refused client_fd evs \<or> proxied env client_fd evs) \<and> closed evs = opened evs"
proof -
  obtain u evs where h: "handle_client env client_fd w = Some (u, snd w @ evs)" "refused client_fd evs \<or> proxied env client_fd evs"
    using handle_client_ok [OF assms] by blast
  moreover have "closed evs = opened evs" using h(2) proxied_closed by (auto simp: refused_def)
  ultimately show ?thesis by (auto simp: client_thread_def socket_close_def)
qed

theorem socks_client_correct_witness:
  "\<exists>u evs. client_thread slow_env 3 ((greeting [0] @ request 0 (Domain [97, 46, 98]) 443 @ [1, 2, 3], 2), []) = Some (u, evs @ [Ev_close 3]) \<and>
     (refused 3 evs \<or> proxied slow_env 3 evs)"
  using socks_client_correct [OF slow_env_ok, of "((greeting [0] @ request 0 (Domain [97, 46, 98]) 443 @ [1, 2, 3], 2), [])"] by auto

text \<open>However the bytes of a well-formed greeting and request are cut into pieces by the network,
  the negotiation succeeds and the request is read as the host and port it encodes, and not one byte that
  follows it is consumed.\<close>

theorem socks_request_roundtrip:
  assumes "recv_ok (x_io env) work" "delivers (x_io env) fd stream" "ms \<noteq> []" "length ms < 256"
    and "target_ok t" "target_host (x_ntop6 env) t = Some host" "stream (fst w) = greeting ms @ request rsv t p @ rest"
  shows "\<exists>u tr u' tr'. socks_negotiate (x_io env) fd w = Some (Some (), u, tr) \<and>
    read_target env fd 256 (u, tr) = Some (Some (host, uint p), u', tr') \<and> stream u' = rest"
proof -
  obtain u tr where n: "socks_negotiate (x_io env) fd w = Some (Some (), u, tr)" "stream u = request rsv t p @ rest"
    using negotiate_delivers [OF assms(1,2,3,4,7)] by blast
  then show ?thesis using read_target_delivers [OF assms(1,2,5,6), of "(u, tr)" rsv p rest] by auto
qed

theorem socks_request_roundtrip_witness:
  "\<exists>u tr u' tr'. socks_negotiate (x_io slow_env) 3 ((greeting [0, 2] @ request 0 (IPv4 [192, 0, 2, 7]) 443 @ [22], 5), []) = Some (Some (), u, tr) \<and>
     read_target slow_env 3 256 (u, tr) = Some (Some (''192.0.2.7'', 443), u', tr') \<and> fst u' = [22]"
proof -
  have "dotted_quad [192, 0, 2, 7] = ''192.0.2.7''" by code_simp
  then show ?thesis
    using socks_request_roundtrip [OF slow_recv_ok slow_delivers, of "[0, 2]" "IPv4 [192, 0, 2, 7]" "''192.0.2.7''"
        "((greeting [0, 2] @ request 0 (IPv4 [192, 0, 2, 7]) 443 @ [22], 5), [])" 0 443 "[22]"] by simp
qed

end
