(* ===== verification/Forwarder.thy ===== *)
theory Forwarder
  imports Resolver Policy Quic
begin

text \<open>
  The DNS forwarder of the transparent daemon, \<open>src/transparent/dnsfwd.c\<close>: which resolver a query goes
  to, what comes back, and the bound on the workers. Both ways of asking - the trusted resolver's
  transport and the plain UDP exchange with the server the query was sent to - are parameters, as are
  the clock and the memory allocation.
\<close>

section \<open>State\<close>

definition FWD_MAX_INFLIGHT :: nat where "FWD_MAX_INFLIGHT = 128"
definition FWD_MSG_MAX :: nat where "FWD_MSG_MAX = 65535"
definition ORIGINAL_TIMEOUT_MS :: int where "ORIGINAL_TIMEOUT_MS = 2000"

record t_orig =
  or_addr :: bytes
  or_len :: int

text \<open>The parts of the daemon's state that a query touches.\<close>

record fwd_state =
  f_dns :: dns_resolver
  f_seen :: "quic_seen list"
  f_blocked :: "dns_addr list"
  f_queries :: u64
  f_failures :: u64

type_synonym 'u udp_exchange = "bytes \<Rightarrow> bytes \<Rightarrow> nat \<Rightarrow> int \<Rightarrow> 'u \<Rightarrow> bytes option \<times> 'u"

section \<open>Operations\<close>

definition take_slot :: "nat \<Rightarrow> bool \<times> nat" where
  "take_slot inflight = (if inflight < FWD_MAX_INFLIGHT then (True, inflight + 1) else (False, inflight))"

definition give_slot :: "nat \<Rightarrow> nat" where
  "give_slot inflight = inflight - 1"

definition count_query :: "bool \<Rightarrow> fwd_state \<Rightarrow> fwd_state" where
  "count_query ok f =
     (let f = f\<lparr>f_queries := f_queries f + 1\<rparr> in if \<not> ok then f\<lparr>f_failures := f_failures f + 1\<rparr> else f)"

text \<open>The addresses handed to the platform layer are collected in \<open>f_blocked\<close>.\<close>

definition note_answer :: "(nat \<Rightarrow> int) \<Rightarrow> bytes \<Rightarrow> string \<Rightarrow> u16 \<Rightarrow> fwd_state \<Rightarrow> fwd_state option" where
  "note_answer clock reply name qtype f =
     (if (qtype \<noteq> DNS_QTYPE_A \<and> qtype \<noteq> DNS_QTYPE_AAAA) \<or> \<not> tp_host_listed (Some name) \<or> length reply < 2 then Some f
      else do {
        qid \<leftarrow> rd16 reply 0;
        (st, ans) \<leftarrow> dns_parse_response reply qid name qtype;
        if st = DNS_OK then
          let (fresh, seen) = tpd_quic_block_answer clock ans (f_seen f) in
          Some (f\<lparr>f_seen := seen, f_blocked := f_blocked f @ fresh\<rparr>)
        else Some f
      })"

text \<open>The inner \<^const>\<open>None\<close> is the result -1; \<open>sizeof(one.addrs[0])\<close> is 128.\<close>

definition ask_original :: "'u udp_exchange \<Rightarrow> t_orig \<Rightarrow> bytes \<Rightarrow> nat \<Rightarrow> 'u \<Rightarrow> (bytes option \<times> 'u) option" where
  "ask_original udp orig query reply_size u =
     (if or_len orig \<le> 0 \<or> or_len orig > 128 then Some (None, u)
      else case udp (take (nat (or_len orig)) (or_addr orig)) query reply_size ORIGINAL_TIMEOUT_MS u of
        (None, u) \<Rightarrow> Some (None, u)
      | (Some reply, u) \<Rightarrow>
          if length reply < 12 then Some (None, u)
          else do {
            r0 \<leftarrow> rd8 reply 0; q0 \<leftarrow> rd8 query 0;
            if r0 \<noteq> q0 then Some (None, u)
            else do {
              r1 \<leftarrow> rd8 reply 1; q1 \<leftarrow> rd8 query 1;
              if r1 \<noteq> q1 then Some (None, u)
              else do {
                rcode \<leftarrow> dns_reply_rcode reply;
                Some (if rcode = None then None else Some reply, u)
              }
            }
          })"

text \<open>The second half of \<open>resolve\<close>: the trusted resolvers, then for what they cannot answer the original one.\<close>

definition resolve_trusted_first :: "'u dns_transport \<Rightarrow> 'u udp_exchange \<Rightarrow> bool \<Rightarrow> bytes \<Rightarrow> nat \<Rightarrow> int \<Rightarrow> t_orig option \<Rightarrow>
    dns_resolver \<Rightarrow> 'u \<Rightarrow> (bytes option \<times> dns_resolver \<times> 'u) option" where
  "resolve_trusted_first transport udp malloc_ok query reply_size now orig r u = do {
     (got, r, u) \<leftarrow> dns_exchange transport r query reply_size now u;
     rcode \<leftarrow> (case got of None \<Rightarrow> Some None | Some reply \<Rightarrow> dns_reply_rcode reply);
     case orig of
       None \<Rightarrow> Some (got, r, u)
     | Some orig \<Rightarrow>
         if (got \<noteq> None \<and> rcode \<noteq> Some 3) \<or> \<not> malloc_ok then Some (got, r, u)
         else do {
           (alt, u) \<leftarrow> ask_original udp orig query reply_size u;
           case alt of
             None \<Rightarrow> Some (got, r, u)
           | Some alt \<Rightarrow> do {
               alt_rcode \<leftarrow> dns_reply_rcode alt;
               alt_count \<leftarrow> dns_reply_answer_count alt;
               Some (if got = None \<or> (alt_rcode = Some 0 \<and> alt_count > 0) then Some alt else got, r, u)
             }
         }
   }"

text \<open>The clock is read twice: for the health of the resolver and for the exchange.\<close>

definition fwd_resolve :: "'u dns_transport \<Rightarrow> 'u udp_exchange \<Rightarrow> bool \<Rightarrow> bytes \<Rightarrow> nat \<Rightarrow> int \<times> int \<Rightarrow> string \<Rightarrow> t_orig option \<Rightarrow>
    dns_resolver \<Rightarrow> 'u \<Rightarrow> (bytes option \<times> dns_resolver \<times> 'u) option" where
  "fwd_resolve transport udp malloc_ok query reply_size nows name orig r u =
     (case orig of
        Some o1 \<Rightarrow>
          if dns_name_is_local name then do {
            (got, u) \<leftarrow> ask_original udp o1 query reply_size u;
            Some (got, r, u)
          }
          else if tp_host_listed (Some name) then resolve_trusted_first transport udp malloc_ok query reply_size (snd nows) None r u
          else if \<not> dns_resolver_healthy r (fst nows) then do {
            (got, u) \<leftarrow> ask_original udp o1 query reply_size u;
            case got of
              Some reply \<Rightarrow> Some (Some reply, r, u)
            | None \<Rightarrow> resolve_trusted_first transport udp malloc_ok query reply_size (snd nows) orig r u
          }
          else resolve_trusted_first transport udp malloc_ok query reply_size (snd nows) orig r u
      | None \<Rightarrow> resolve_trusted_first transport udp malloc_ok query reply_size (snd nows) None r u)"

text \<open>The C string that \<open>dns_query_info\<close> leaves in \<open>name\<close>.\<close>

definition query_name :: "bytes \<Rightarrow> string" where
  "query_name name = cstr (map (\<lambda>b. char_of (unat b)) name)"

text \<open>The reply; the empty list is the result 0.\<close>

definition fwd_answer :: "'u dns_transport \<Rightarrow> 'u udp_exchange \<Rightarrow> (nat \<Rightarrow> int) \<Rightarrow> bool \<Rightarrow> int \<times> int \<Rightarrow> bytes \<Rightarrow> nat \<Rightarrow> bool \<Rightarrow> t_orig option \<Rightarrow>
    fwd_state \<Rightarrow> 'u \<Rightarrow> (bytes \<times> fwd_state \<times> 'u) option" where
  "fwd_answer transport udp clock malloc_ok nows query reply_size is_udp orig f u = do {
     info \<leftarrow> dns_query_info query DNS_NAME_MAX;
     case info of
       None \<Rightarrow> Some ([], f, u)
     | Some (raw, qtype, udp_size) \<Rightarrow> do {
         let name = query_name raw;
         (got, r, u) \<leftarrow> fwd_resolve transport udp malloc_ok query reply_size nows name orig (f_dns f) u;
         let f = count_query (got \<noteq> None) (f\<lparr>f_dns := r\<rparr>);
         case got of
           None \<Rightarrow> do { out \<leftarrow> dns_servfail_reply query reply_size; Some (out, f, u) }
         | Some reply \<Rightarrow> do {
             f \<leftarrow> note_answer clock reply name qtype f;
             if is_udp \<and> length reply > unat udp_size
             then do { out \<leftarrow> dns_truncated_reply query reply_size; Some (out, f, u) }
             else Some (reply, f, u)
           }
       }
   }"

section \<open>Listed names are never local\<close>

definition last_label :: "string \<Rightarrow> string" where
  "last_label s = rev (takeWhile (\<lambda>c. c \<noteq> CHR ''.'') (rev s))"

lemma last_label_append [simp]: "last_label (p @ CHR ''.'' # z) = last_label z"
  by (simp add: last_label_def takeWhile_append takeWhile_eq_all_conv [THEN iffD2])

lemma tolower_c_dot [simp]: "tolower_c c = CHR ''.'' \<longleftrightarrow> c = CHR ''.''"
proof -
  have "char_of ((of_char c :: nat) + 32) \<noteq> CHR ''.''" if "ascii_upper c"
  proof
    assume "char_of ((of_char c :: nat) + 32) = CHR ''.''"
    then have "(of_char (char_of ((of_char c :: nat) + 32)) :: nat) = 46" by simp
    then show False using that by (simp add: ascii_upper_def)
  qed
  then show ?thesis by (auto simp: tolower_c_def ascii_upper_def)
qed

lemma tolower_c_of_dot [simp]: "tolower_c CHR ''.'' = CHR ''.''"
  by simp

lemma tolower_c_lower: "\<not> ascii_upper c \<Longrightarrow> tolower_c c = c"
  by (simp add: tolower_c_def)

lemma last_label_lower: "map tolower_c (last_label s) = last_label (map tolower_c s)"
  by (simp add: last_label_def rev_map takeWhile_map comp_def)

definition local_tlds :: "string list" where
  "local_tlds = [''local'', ''localhost'', ''localdomain'', ''lan'', ''home'', ''arpa'', ''internal'', ''intranet'', ''corp'']"

definition listed_tlds :: "string list" where
  "listed_tlds = [''com'', ''net'', ''gg'', ''media'', ''dev'', ''new'', ''gift'', ''gd'', ''org'', ''si'', ''to'']"

lemma in_zone_last_label: "in_zone n z \<Longrightarrow> last_label n = last_label z"
  by (auto simp: in_zone_iff)

lemma local_last_label:
  assumes "dns_name_is_local n" "CHR ''.'' \<in> set n"
  shows "last_label n \<in> set local_tlds"
proof -
  have "list_all (\<lambda>z. last_label z \<in> set local_tlds) local_zones" by code_simp
  then have z: "last_label z \<in> set local_tlds" if "z \<in> set local_zones" for z using that by (simp add: list_all_iff)
  have o: "last_label (d @ ''.172.in-addr.arpa'') \<in> set local_tlds" "last_label (d @ ''.100.in-addr.arpa'') \<in> set local_tlds" for d
    by (simp_all add: last_label_def local_tlds_def)
  have "n \<noteq> []" using assms(2) by auto
  then consider z where "z \<in> set local_zones" "in_zone n z" | d where "in_zone n (d @ ''.172.in-addr.arpa'')"
    | d where "in_zone n (d @ ''.100.in-addr.arpa'')"
    using assms unfolding dns_name_is_local_def list_ex_iff by (metis (no_types, lifting))
  then show ?thesis using z o by cases (simp_all add: in_zone_last_label)
qed

lemma listed_last_label:
  assumes "tp_host_listed (Some n)"
  shows "CHR ''.'' \<in> set n"
    and "last_label n = [] \<or> map tolower_c (last_label n) \<in>
      set listed_tlds"
proof -
  let ?h = "trim_right (\<lambda>c. c = CHR ''.'') n"
  obtain rest where n: "n = ?h @ rest" using trim_right_append by blast
  obtain d where d: "d \<in> set g_listed" "ieq ?h d \<or> (\<exists>p q. ?h = p @ CHR ''.'' # q \<and> ieq q d)"
    using assms unfolding host_listed_iff Let_def by blast
  have "list_all (\<lambda>d. last_label (map tolower_c d) \<in> set listed_tlds \<and> CHR ''.'' \<in> set (map tolower_c d)) g_listed" by code_simp
  then have dl: "last_label (map tolower_c d) \<in> set listed_tlds" "CHR ''.'' \<in> tolower_c ` set d"
    using d(1) by (simp_all add: list_all_iff)
  have low: "map tolower_c (last_label ?h) = last_label (map tolower_c d)"
    using d(2) by (auto simp: ieq_iff last_label_lower)
  have "CHR ''.'' \<in> set ?h"
    using d(2)
  proof
    assume "ieq ?h d"
    then have "CHR ''.'' \<in> tolower_c ` set ?h" using dl(2) unfolding ieq_iff by (metis image_set)
    then obtain c where "c \<in> set ?h" "tolower_c c = CHR ''.''" by (metis imageE)
    then show ?thesis by simp
  qed auto
  then show "CHR ''.'' \<in> set n" by (metis Un_iff n set_append)
  show "last_label n = [] \<or> map tolower_c (last_label n) \<in>
      set listed_tlds"
  proof (cases "rev n")
    case (Cons c cs)
    show ?thesis
    proof (cases "c = CHR ''.''")
      case True
      then show ?thesis using Cons by (simp add: last_label_def)
    next
      case False
      then have "?h = n" using Cons by (simp add: trim_right_def)
      then show ?thesis using low dl(1) by simp
    qed
  qed (simp add: last_label_def)
qed

lemma listed_not_local:
  assumes "tp_host_listed (Some n)"
  shows "\<not> dns_name_is_local n"
proof
  assume "dns_name_is_local n"
  from local_last_label [OF this listed_last_label(1) [OF assms]] listed_last_label(2) [OF assms]
  have "list_ex (\<lambda>l. l = [] \<or> map tolower_c l \<in> set listed_tlds) local_tlds" by (auto simp: list_ex_iff)
  moreover have "\<not> list_ex (\<lambda>l. l = [] \<or> map tolower_c l \<in> set listed_tlds) local_tlds" by code_simp
  ultimately show False by blast
qed

section \<open>Who is asked\<close>

datatype asked = Asked_trusted nat | Asked_original

definition log_trusted :: "'u dns_transport \<Rightarrow> ('u \<times> asked list) dns_transport" where
  "log_trusted transport s query n t u = (let (r, u') = transport s query n t (fst u) in (r, (u', snd u @ [Asked_trusted s])))"

definition log_original :: "'u udp_exchange \<Rightarrow> ('u \<times> asked list) udp_exchange" where
  "log_original udp addr query n t u = (let (r, u') = udp addr query n t (fst u) in (r, (u', snd u @ [Asked_original])))"

text \<open>The log of a step that only asks servers in \<open>A\<close>.\<close>

definition asked_only :: "asked set \<Rightarrow> 'u \<times> asked list \<Rightarrow> 'u \<times> asked list \<Rightarrow> bool" where
  "asked_only A u u' \<longleftrightarrow> (\<exists>l. snd u' = snd u @ l \<and> set l \<subseteq> A)"

lemma asked_only_refl: "asked_only A u u"
  by (simp add: asked_only_def)

lemma asked_only_trans: "asked_only A u v \<Longrightarrow> asked_only B v w \<Longrightarrow> asked_only (A \<union> B) u w"
  by (fastforce simp: asked_only_def)

lemma asked_only_mono: "asked_only A u v \<Longrightarrow> A \<subseteq> B \<Longrightarrow> asked_only B u v"
  by (auto simp: asked_only_def)

text \<open>What holds of every reply that is passed on: it is a response with the query's id.\<close>

definition reply_for :: "bytes \<Rightarrow> bytes \<Rightarrow> bool" where
  "reply_for query reply \<longleftrightarrow> 12 \<le> length reply \<and> take 2 reply = take 2 query \<and> (\<exists>rc. dns_reply_rcode reply = Some (Some rc))"

lemma take2: "2 \<le> length xs \<Longrightarrow> take 2 xs = [xs ! 0, xs ! 1]"
  by (cases xs; cases "tl xs") (auto simp: numeral_2_eq_2)

lemma usable_reply_for:
  assumes u: "usable_reply query reply" and q: "12 \<le> length query"
  shows "reply_for query reply"
proof -
  have m: "reply_matches query reply = Some True" using u by (simp add: usable_reply_def)
  note h = reply_matches_header [OF m]
  have "rd16 reply 0 = rd16 query 0"
    using m h(1) q by (auto simp: reply_matches_def mem_simps split: Option.bind_splits if_splits)
  then have "be16_bytes (be16 (reply ! 0) (reply ! 1)) = be16_bytes (be16 (query ! 0) (query ! 1))" using h(1) q by (simp add: mem_simps)
  then have "take 2 reply = take 2 query" using h(1) q by (simp add: be16_bytes_def take2)
  then show ?thesis using h by (simp add: reply_for_def)
qed

text \<open>The contract with whatever is asked: \<open>asks A\<close> relates the worlds before and after asking only servers in
  \<open>A\<close>, and \<open>fits n\<close> holds of what a server may put into a buffer of \<open>n\<close> bytes.\<close>

locale resolvers =
  fixes T :: "'w dns_transport" and O1 :: "'w udp_exchange" and asks :: "asked set \<Rightarrow> 'w \<Rightarrow> 'w \<Rightarrow> bool" and fits :: "nat \<Rightarrow> bytes \<Rightarrow> bool"
  assumes asks_refl: "asks A u u"
    and asks_trans: "asks A u v \<Longrightarrow> asks B v w \<Longrightarrow> asks (A \<union> B) u w"
    and asks_mono: "asks A u v \<Longrightarrow> A \<subseteq> B \<Longrightarrow> asks B u v"
    and trusted: "T s q n t u = (r, u') \<Longrightarrow> asks {Asked_trusted s} u u' \<and> (\<forall>x. r = Some x \<longrightarrow> fits n x)"
    and original: "O1 a q n t u = (r, u') \<Longrightarrow> asks {Asked_original} u u' \<and> (\<forall>x. r = Some x \<longrightarrow> fits n x)"

text \<open>What \<open>resolve\<close> gives: it returns, keeps the resolver's invariant, asks only servers in \<open>A\<close>, and a
  reply is one to the query and fits.\<close>

definition resolves :: "(asked set \<Rightarrow> 'w \<Rightarrow> 'w \<Rightarrow> bool) \<Rightarrow> (bytes \<Rightarrow> bool) \<Rightarrow> asked set \<Rightarrow> bytes \<Rightarrow> 'w \<Rightarrow>
    (bytes option \<times> dns_resolver \<times> 'w) option \<Rightarrow> bool" where
  "resolves asks fit A query u res \<longleftrightarrow> (\<exists>got r' u'. res = Some (got, r', u') \<and> resolver_inv r' \<and> asks A u u' \<and>
     (\<forall>reply. got = Some reply \<longrightarrow> reply_for query reply \<and> fit reply))"

lemma resolvesI:
  "resolver_inv r' \<Longrightarrow> asks A u u' \<Longrightarrow> (\<And>reply. got = Some reply \<Longrightarrow> reply_for query reply \<and> fit reply) \<Longrightarrow>
   resolves asks fit A query u (Some (got, r', u'))"
  by (simp add: resolves_def)

context resolvers
begin

lemma ask_original_asks:
  assumes q: "12 \<le> length query"
  shows "\<exists>got u'. ask_original O1 orig query n u = Some (got, u') \<and> asks {Asked_original} u u' \<and>
    (\<forall>reply. got = Some reply \<longrightarrow> reply_for query reply \<and> fits n reply)"
proof -
  let ?a = "take (nat (or_len orig)) (or_addr orig)"
  obtain r u1 where step: "O1 ?a query n ORIGINAL_TIMEOUT_MS u = (r, u1)" by fastforce
  have a: "asks {Asked_original} u u1" "\<And>x. r = Some x \<Longrightarrow> fits n x" using original [OF step] by simp_all
  show ?thesis
  proof (cases "or_len orig \<le> 0 \<or> or_len orig > 128")
    case True
    then show ?thesis by (auto simp: ask_original_def asks_refl)
  next
    case len: False
    show ?thesis
    proof (cases r)
      case None
      then show ?thesis using len step a by (simp add: ask_original_def)
    next
      case (Some reply)
      show ?thesis
      proof (cases "length reply < 12")
        case True
        then show ?thesis using len step a Some by (simp add: ask_original_def)
      next
        case False
        then have "dns_reply_rcode reply \<noteq> None" by (simp add: dns_reply_rcode_def mem_simps)
        then obtain rc where rc: "dns_reply_rcode reply = Some rc" by blast
        have rd: "rd8 reply 0 = Some (reply ! 0)" "rd8 reply 1 = Some (reply ! 1)" "rd8 query 0 = Some (query ! 0)" "rd8 query 1 = Some (query ! 1)"
          using False q by (auto simp: rd8_def)
        have "ask_original O1 orig query n u =
            Some (if reply ! 0 = query ! 0 \<and> reply ! 1 = query ! 1 \<and> rc \<noteq> None then Some reply else None, u1)"
          using len step Some False rc by (simp add: ask_original_def rd [simplified])
        then show ?thesis using a Some False q rc take2 [of reply] take2 [of query] by (auto simp: reply_for_def)
      qed
    qed
  qed
qed

lemma exchange_walk_asks:
  assumes "resolver_inv r"
  shows "\<exists>got r' u'. exchange_walk T query n now order r u = Some (got, r', u') \<and> resolver_inv r' \<and>
    asks (range Asked_trusted) u u' \<and> (\<forall>reply. got = Some reply \<longrightarrow> usable_reply query reply \<and> fits n reply)"
  using assms
proof (induction order arbitrary: r u)
  case Nil
  then show ?case by (simp add: asks_refl)
next
  case (Cons s order)
  obtain got u1 where t: "T s query n (timeout_ms r) u = (got, u1)" by fastforce
  define ok where "ok = (case got of None \<Rightarrow> False | Some reply \<Rightarrow> reply \<noteq> [] \<and> usable_reply query reply)"
  let ?r = "server_result r s ok now"
  have inv: "resolver_inv ?r" using Cons.prems by (rule server_result_inv)
  have a: "asks (range Asked_trusted) u u1" "\<And>x. got = Some x \<Longrightarrow> fits n x" using trusted [OF t] asks_mono [of "{Asked_trusted s}"] by blast+
  have step: "exchange_walk T query n now (s # order) r u =
      (if ok then Some (got, ?r, u1) else exchange_walk T query n now order ?r u1)"
    using exchange_step [where transport = T, OF t] by (simp add: ok_def Let_def)
  show ?case
  proof (cases ok)
    case True
    then show ?thesis using step inv a by (auto simp: ok_def split: option.splits)
  next
    case False
    then show ?thesis using Cons.IH [OF inv, of u1] step by (auto dest: asks_trans [OF a(1)])
  qed
qed

lemma exchange_asks:
  assumes "resolver_inv r"
  shows "\<exists>got r' u'. dns_exchange T r query n now u = Some (got, r', u') \<and> resolver_inv r' \<and>
    asks (range Asked_trusted) u u' \<and> (\<forall>reply. got = Some reply \<longrightarrow> usable_reply query reply \<and> fits n reply)"
proof -
  obtain ql where "question_len query = Some ql" using question_len_total by blast
  then show ?thesis
    using assms exchange_walk_asks [OF assms, of query n now "server_order r now" u] asks_refl [of "range Asked_trusted" u]
    by (cases "length query < 12 \<or> ql = 0") (auto simp: dns_exchange_def simp del: split_paired_Ex)
qed

lemma trusted_first_resolves:
  assumes inv: "resolver_inv r" and q: "12 \<le> length query"
  shows "resolves asks (fits n) (if orig = None then range Asked_trusted else UNIV) query u
    (resolve_trusted_first T O1 malloc_ok query n now orig r u)"
proof -
  obtain got r1 u1 where e: "dns_exchange T r query n now u = Some (got, r1, u1)" "resolver_inv r1"
    "asks (range Asked_trusted) u u1" "\<forall>reply. got = Some reply \<longrightarrow> usable_reply query reply \<and> fits n reply"
    using exchange_asks [OF inv] by blast
  then have rf: "got = Some reply \<Longrightarrow> reply_for query reply \<and> fits n reply" for reply using usable_reply_for q by blast
  obtain rc where rc: "(case got of None \<Rightarrow> Some None | Some reply \<Rightarrow> dns_reply_rcode reply) = Some rc"
    using rf by (cases got) (auto simp: reply_for_def)
  show ?thesis
  proof (cases orig)
    case None
    then show ?thesis using e(1,2,3) rc rf by (simp add: resolve_trusted_first_def resolvesI)
  next
    case (Some o1)
    obtain alt u2 where a: "ask_original O1 o1 query n u1 = Some (alt, u2)" "asks {Asked_original} u1 u2"
      "\<forall>reply. alt = Some reply \<longrightarrow> reply_for query reply \<and> fits n reply" using ask_original_asks [OF q] by blast
    have u2: "asks UNIV u u1" "asks UNIV u u2" using asks_mono [OF e(3)] asks_mono [OF asks_trans [OF e(3) a(2)]] by auto
    have alt: "\<exists>rc c. dns_reply_rcode x = Some (Some rc) \<and> dns_reply_answer_count x = Some c" if "alt = Some x" for x
      using a(3) that by (auto simp: reply_for_def dns_reply_answer_count_def mem_simps)
    show ?thesis
      using Some e(1,2) rc rf a(1,3) u2 alt
      by (auto simp: resolve_trusted_first_def intro!: resolvesI split: option.split)
  qed
qed

lemma fwd_resolve_resolves:
  assumes inv: "resolver_inv r" and q: "12 \<le> length query"
  shows "resolves asks (fits n) (if orig = None \<or> tp_host_listed (Some name) then range Asked_trusted
      else if dns_name_is_local name then {Asked_original} else UNIV) query u
    (fwd_resolve T O1 malloc_ok query n nows name orig r u)"
proof (cases orig)
  case None
  then show ?thesis using trusted_first_resolves [OF inv q, where orig = None] by (simp add: fwd_resolve_def)
next
  case (Some o1)
  obtain alt u1 where a: "ask_original O1 o1 query n u = Some (alt, u1)" "asks {Asked_original} u u1"
    "\<forall>reply. alt = Some reply \<longrightarrow> reply_for query reply \<and> fits n reply" using ask_original_asks [OF q] by blast
  have u1: "asks UNIV u u1" using asks_mono [OF a(2)] by simp
  have later: "resolves asks (fits n) UNIV query u res" if "resolves asks (fits n) UNIV query u1 res" for res
    using that asks_trans [OF u1] unfolding resolves_def by (metis Un_UNIV_right)
  note t = trusted_first_resolves [OF inv q, where orig = orig] trusted_first_resolves [OF inv q, where orig = None]
  consider "tp_host_listed (Some name)" "\<not> dns_name_is_local name" | "\<not> tp_host_listed (Some name)" "dns_name_is_local name"
    | "\<not> tp_host_listed (Some name)" "\<not> dns_name_is_local name" using listed_not_local by blast
  then show ?thesis
  proof cases
    case 1
    then show ?thesis using Some t(2) by (simp add: fwd_resolve_def)
  next
    case 2
    then show ?thesis using Some a inv by (simp add: fwd_resolve_def resolvesI)
  next
    case 3
    show ?thesis
    proof (cases "dns_resolver_healthy r (fst nows)")
      case True
      then show ?thesis using 3 Some t(1) by (simp add: fwd_resolve_def)
    next
      case False
      have "resolves asks (fits n) UNIV query u (Some (alt, r, u1))" using a(3) u1 inv by (auto intro: resolvesI)
      then show ?thesis
        using False 3 Some a(1) later [OF t(1) [where u = u1, unfolded Some, simplified]]
        by (cases alt) (simp_all add: fwd_resolve_def)
    qed
  qed
qed

end

interpretation logged: resolvers "log_trusted T" "log_original O1" asked_only "\<lambda>n x. True" for T :: "'u dns_transport" and O1 :: "'u udp_exchange"
proof
  show "log_trusted T s q n t u = (r, u') \<Longrightarrow> asked_only {Asked_trusted s} u u' \<and> (\<forall>x. r = Some x \<longrightarrow> True)" for s q n t u r u'
    by (cases "T s q n t (fst u)") (auto simp: log_trusted_def asked_only_def)
  show "log_original O1 a q n t u = (r, u') \<Longrightarrow> asked_only {Asked_original} u u' \<and> (\<forall>x. r = Some x \<longrightarrow> True)" for a q n t u r u'
    by (cases "O1 a q n t (fst u)") (auto simp: log_original_def asked_only_def)
qed (auto intro: asked_only_refl asked_only_trans asked_only_mono)

section \<open>The answer to a query\<close>

text \<open>The addresses of a listed name went to the QUIC filter before the answer is sent.\<close>

definition addresses_blocked :: "(nat \<Rightarrow> int) \<Rightarrow> bytes \<Rightarrow> string \<Rightarrow> u16 \<Rightarrow> fwd_state \<Rightarrow> fwd_state \<Rightarrow> bool" where
  "addresses_blocked clock reply name qtype f f' \<longleftrightarrow> (\<forall>qid ans.
     tp_host_listed (Some name) \<and> qtype \<in> {DNS_QTYPE_A, DNS_QTYPE_AAAA} \<and> rd16 reply 0 = Some qid \<and>
     dns_parse_response reply qid name qtype = Some (DNS_OK, ans) \<longrightarrow>
     f_blocked f' = f_blocked f @ fst (tpd_quic_block_answer clock ans (f_seen f)) \<and>
     f_seen f' = snd (tpd_quic_block_answer clock ans (f_seen f)))"

lemma note_answer_blocks:
  assumes "12 \<le> length reply"
  shows "\<exists>f'. note_answer clock reply name qtype f = Some f' \<and> addresses_blocked clock reply name qtype f f' \<and>
    f_dns f' = f_dns f \<and> f_queries f' = f_queries f \<and> f_failures f' = f_failures f"
proof -
  obtain qid where q: "rd16 reply 0 = Some qid" using assms by (simp add: mem_simps)
  obtain st ans where p: "dns_parse_response reply qid name qtype = Some (st, ans)" using dns_response_safe_ok by blast
  show ?thesis
    using assms q p by (auto simp: note_answer_def addresses_blocked_def split: prod.split)
qed

lemma not_ok_blocks:
  assumes "\<And>qid ans. dns_parse_response reply qid name qtype \<noteq> Some (DNS_OK, ans)"
  shows "addresses_blocked clock reply name qtype f f'"
  using assms by (simp add: addresses_blocked_def)

lemma truncated_not_ok: "bit (reply ! 2) 1 \<Longrightarrow> dns_parse_response reply qid name qtype \<noteq> Some (DNS_OK, ans)"
  using parse_response_inauthentic [of reply qid name qtype] by (auto simp: authentic_def Let_def)

lemma error_not_ok:
  assumes "dns_reply_rcode reply = Some (Some 2)"
  shows "dns_parse_response reply qid name qtype \<noteq> Some (DNS_OK, ans)"
proof (cases "authentic reply qid name qtype")
  case True
  have "reply ! 3 AND 0x0F = 2"
    using assms by (auto simp: dns_reply_rcode_def mem_simps split: if_splits)
  then show ?thesis using parse_response_authentic [OF True] by (simp add: Let_def)
qed (simp add: parse_response_inauthentic)

text \<open>The two replies the forwarder makes itself.\<close>

lemma own_replies:
  assumes "dns_query_info query name_size = Some (Some info)" "length query \<le> n"
  shows "\<exists>t. dns_truncated_reply query n = Some t \<and> reply_for query t \<and> bit (t ! 2) 1 \<and> length t \<le> length query"
    and "\<exists>t. dns_servfail_reply query n = Some t \<and> reply_for query t \<and> dns_reply_rcode t = Some (Some 2) \<and> length t \<le> length query"
proof -
  obtain ql where q: "question_len query = Some ql" "5 \<le> ql" "12 + ql \<le> length query" "rd16 query 4 = Some 1"
    using query_info_question [OF assms(1)] by blast
  have n: "12 + ql \<le> n" "12 \<le> length query" using q(3) assms(2) by simp_all
  note f = reply_flags [of "query ! 2"]
  have two: "take 2 query = [query ! 0, query ! 1]" using n(2) by (intro take2) simp
  have r: "reply_for query (header_reply query a b ql)" "length (header_reply query a b ql) \<le> length query" if "bit a 7" for a b
    using header_reply_fields(1) [OF that, of query b ql] q(3) two by (simp_all add: reply_for_def header_reply_def)
  show "\<exists>t. dns_truncated_reply query n = Some t \<and> reply_for query t \<and> bit (t ! 2) 1 \<and> length t \<le> length query"
    using truncated_reply_eq [OF q(1,2,3) n(1)] r [OF f(1)] f(2) header_reply_fields(3) [OF f(1)] by simp
  show "\<exists>t. dns_servfail_reply query n = Some t \<and> reply_for query t \<and> dns_reply_rcode t = Some (Some 2) \<and> length t \<le> length query"
    using servfail_reply_eq [OF q(1,2,3) n(1)] r [OF f(3)] header_reply_fields(1) [OF f(3)] by simp
qed

lemma query_info_length: "dns_query_info query n = Some (Some info) \<Longrightarrow> 12 \<le> length query"
  by (auto simp: dns_query_info_def split: if_splits)

context resolvers
begin

lemma answer_ok:
  assumes info: "dns_query_info query DNS_NAME_MAX = Some (Some (raw, qtype, udp_size))"
    and inv: "resolver_inv (f_dns f)" and len: "length query \<le> reply_size"
  shows "\<exists>reply f' u'. fwd_answer T O1 clock malloc_ok nows query reply_size is_udp orig f u = Some (reply, f', u') \<and>
    reply_for query reply \<and> resolver_inv (f_dns f') \<and> f_queries f' = f_queries f + 1 \<and>
    (is_udp \<longrightarrow> length reply \<le> max (unat udp_size) (length query)) \<and>
    addresses_blocked clock reply (query_name raw) qtype f f' \<and>
    asks (if orig = None \<or> tp_host_listed (Some (query_name raw)) then range Asked_trusted
      else if dns_name_is_local (query_name raw) then {Asked_original} else UNIV) u u' \<and>
    (fits reply_size reply \<or> length reply \<le> length query)"
proof -
  let ?name = "query_name raw"
  have q: "12 \<le> length query" by (rule query_info_length [OF info])
  obtain got r1 u1 where g: "fwd_resolve T O1 malloc_ok query reply_size nows ?name orig (f_dns f) u = Some (got, r1, u1)" "resolver_inv r1"
    "asks (if orig = None \<or> tp_host_listed (Some ?name) then range Asked_trusted
      else if dns_name_is_local ?name then {Asked_original} else UNIV) u u1" "\<And>reply. got = Some reply \<Longrightarrow> reply_for query reply \<and> fits reply_size reply"
    using fwd_resolve_resolves [OF inv q] unfolding resolves_def by blast
  let ?f = "count_query (got \<noteq> None) (f\<lparr>f_dns := r1\<rparr>)"
  have f: "f_dns ?f = r1" "f_queries ?f = f_queries f + 1" "f_seen ?f = f_seen f" "f_blocked ?f = f_blocked f"
    by (simp_all add: count_query_def Let_def)
  show ?thesis
  proof (cases got)
    case None
    obtain t where t: "dns_servfail_reply query reply_size = Some t" "reply_for query t" "dns_reply_rcode t = Some (Some 2)"
      "length t \<le> length query" using own_replies(2) [OF info len] by blast
    then show ?thesis
      using info g(1,2,3) None f not_ok_blocks [OF error_not_ok [OF t(3)]] by (simp add: fwd_answer_def le_max_iff_disj)
  next
    case (Some reply)
    then have rf: "reply_for query reply" "fits reply_size reply" using g(4) by blast+
    obtain f' where n: "note_answer clock reply ?name qtype ?f = Some f'" "addresses_blocked clock reply ?name qtype ?f f'"
      "f_dns f' = f_dns ?f" "f_queries f' = f_queries ?f" using note_answer_blocks rf(1) by (force simp: reply_for_def)
    have b: "addresses_blocked clock reply ?name qtype f f'" using n(2) f(3,4) by (simp add: addresses_blocked_def)
    obtain t where t: "dns_truncated_reply query reply_size = Some t" "reply_for query t" "bit (t ! 2) 1" "length t \<le> length query"
      using own_replies(1) [OF info len] by blast
    show ?thesis
      using info g(1,2,3) Some f n b t rf not_ok_blocks [OF truncated_not_ok [OF t(3)]]
      by (cases "is_udp \<and> length reply > unat udp_size") (auto simp: fwd_answer_def le_max_iff_disj not_less)
  qed
qed

end


definition demo_fwd :: fwd_state where
  "demo_fwd = \<lparr>f_dns = dns_resolver_init 2 1000 7, f_seen = [], f_blocked = [], f_queries = 0, f_failures = 0\<rparr>"


end
