(* ===== verification/DnsServer.thy ===== *)
theory DnsServer
  imports Forwarder Relay
begin

text \<open>
  The listening half of \<open>src/transparent/dnsfwd.c\<close>: the workers that read a query, have it answered by
  \<open>answer\<close> and send the reply, the framing of DNS over TCP (two length bytes before each message), and the
  bound on the number of workers.
\<close>

section \<open>Framed messages\<close>

definition FWD_TCP_IDLE_MS :: int where "FWD_TCP_IDLE_MS = 10000"

type_synonym 'u waiting = "int \<Rightarrow> int \<Rightarrow> 'u \<Rightarrow> bool \<times> 'u"

text \<open>\<^const>\<open>None\<close> is the result -1.\<close>

partial_function (option) read_full :: "'u sockets \<Rightarrow> 'u waiting \<Rightarrow> int \<Rightarrow> nat \<Rightarrow> bytes \<Rightarrow> 'u net \<Rightarrow> (bytes option \<times> 'u net) option" where
  "read_full io wait fd len buf w =
     (if length buf < len then
        (case on_net (wait fd FWD_TCP_IDLE_MS) w of (ready, w) \<Rightarrow>
           if \<not> ready then Some (None, w)
           else (case do_recv io fd (len - length buf) w of
              (Recv_interrupted, w) \<Rightarrow> read_full io wait fd len buf w
            | (Recv_error, w) \<Rightarrow> Some (None, w)
            | (Received b, w) \<Rightarrow> if b = [] then Some (None, w) else read_full io wait fd len (buf @ b) w))
      else Some (Some buf, w))"

partial_function (option) write_full :: "'u sockets \<Rightarrow> int \<Rightarrow> bytes \<Rightarrow> 'u net \<Rightarrow> (bool \<times> 'u net) option" where
  "write_full io fd buf w =
     (if buf = [] then Some (True, w)
      else (case do_send io fd buf w of
         (Send_interrupted, w) \<Rightarrow> write_full io fd buf w
       | (Send_error, w) \<Rightarrow> Some (False, w)
       | (Sent n, w) \<Rightarrow> if n = 0 then Some (False, w) else write_full io fd (drop n buf) w))"

section \<open>Workers\<close>

type_synonym ('s, 'u) answerer = "bytes \<Rightarrow> 's \<Rightarrow> 'u \<Rightarrow> (bytes \<times> 's \<times> 'u) option"

text \<open>The loop of \<open>tcp_worker\<close>.\<close>

partial_function (option) tcp_queries :: "'u sockets \<Rightarrow> 'u waiting \<Rightarrow> ('s, 'u) answerer \<Rightarrow> int \<Rightarrow> 's \<Rightarrow> 'u net \<Rightarrow> ('s \<times> 'u net) option" where
  "tcp_queries io wait answer fd s w =
     Option.bind (read_full io wait fd 2 [] w) (\<lambda>(hdr, w).
       case hdr of
         None \<Rightarrow> Some (s, w)
       | Some hdr \<Rightarrow>
           let qlen = unat (be16 (hdr ! 0) (hdr ! 1)) in
           if qlen < 12 then Some (s, w)
           else Option.bind (read_full io wait fd qlen [] w) (\<lambda>(query, w).
             case query of
               None \<Rightarrow> Some (s, w)
             | Some query \<Rightarrow>
                 Option.bind (answer query s (fst w)) (\<lambda>(reply, s, u).
                   if reply = [] then Some (s, u, snd w)
                   else Option.bind (write_full io fd (be16_bytes (of_nat (length reply)) @ reply) (u, snd w)) (\<lambda>(ok, w).
                     if \<not> ok then Some (s, w) else tcp_queries io wait answer fd s w))))"

definition tcp_worker :: "'u sockets \<Rightarrow> 'u waiting \<Rightarrow> (int \<Rightarrow> 'u \<Rightarrow> 'u) \<Rightarrow> ('s, 'u) answerer \<Rightarrow> bool \<Rightarrow> int \<Rightarrow> 's \<Rightarrow> 'u net \<Rightarrow> ('s \<times> 'u net) option" where
  "tcp_worker io wait close_fd answer malloc_ok fd s w = do {
     (s, w) \<leftarrow> (if malloc_ok then tcp_queries io wait answer fd s w else Some (s, w));
     Some (s, close_fd fd (fst w), snd w @ [Ev_close fd])
   }"

text \<open>The datagram that is sent back, if any.\<close>

definition udp_worker :: "('s, 'u) answerer \<Rightarrow> bool \<Rightarrow> bytes \<Rightarrow> 's \<Rightarrow> 'u \<Rightarrow> (bytes option \<times> 's \<times> 'u) option" where
  "udp_worker answer malloc_ok query s u =
     (if \<not> malloc_ok then Some (None, s, u)
      else do { (reply, s, u) \<leftarrow> answer query s u; Some (if reply \<noteq> [] then Some reply else None, s, u) })"

text \<open>How the workers call \<open>answer\<close>; the clocks and whether memory can be had are read from the world.\<close>

type_synonym 'u moments = "'u \<Rightarrow> ((nat \<Rightarrow> int) \<times> bool \<times> int \<times> int) \<times> 'u"

definition worker_answer :: "'u dns_transport \<Rightarrow> 'u udp_exchange \<Rightarrow> 'u moments \<Rightarrow> bool \<Rightarrow> t_orig option \<Rightarrow> (fwd_state, 'u) answerer" where
  "worker_answer transport udp moments is_udp orig query f u =
     (case moments u of ((clock, malloc_ok, nows), u) \<Rightarrow>
        fwd_answer transport udp clock malloc_ok nows query FWD_MSG_MAX is_udp orig f u)"

section \<open>Slots\<close>

text \<open>The state is \<open>g_inflight\<close> and the number of workers that hold a slot. A query that finds none is dropped,
  and a worker that cannot be started gives its slot back.\<close>

inductive slot_step :: "nat \<times> nat \<Rightarrow> nat \<times> nat \<Rightarrow> bool" where
  started: "take_slot inflight = (True, inflight') \<Longrightarrow> slot_step (inflight, workers) (inflight', workers + 1)"
| dropped: "take_slot inflight = (False, inflight') \<Longrightarrow> slot_step (inflight, workers) (inflight', workers)"
| unstarted: "take_slot inflight = (True, inflight') \<Longrightarrow> slot_step (inflight, workers) (give_slot inflight', workers)"
| finished: "0 < workers \<Longrightarrow> slot_step (inflight, workers) (give_slot inflight, workers - 1)"

section \<open>What is relied on\<close>

definition frame :: "bytes \<Rightarrow> bytes" where
  "frame b = be16_bytes (of_nat (length b)) @ b"

text \<open>The contract of \<open>answer\<close>: it returns, keeps the invariant \<open>good\<close>, and its reply, empty for a query it
  does not accept, is one to the query and fits a frame.\<close>

definition answers_ok :: "('s, 'u) answerer \<Rightarrow> ('s \<Rightarrow> bool) \<Rightarrow> (bytes \<Rightarrow> bool) \<Rightarrow> ('u \<Rightarrow> nat) \<Rightarrow> bool" where
  "answers_ok answer good accepts work \<longleftrightarrow> (\<forall>q s u. good s \<and> length q \<le> FWD_MSG_MAX \<longrightarrow>
     (\<exists>r s' u'. answer q s u = Some (r, s', u') \<and> good s' \<and> work u' \<le> work u \<and>
        (if accepts q then reply_for q r \<and> length r \<le> FWD_MSG_MAX else r = [])))"

lemma answersD:
  assumes "answers_ok answer good accepts work" "good s" "length q \<le> FWD_MSG_MAX"
  obtains r s' u' where "answer q s u = Some (r, s', u')" "good s'" "work u' \<le> work u"
    "if accepts q then reply_for q r \<and> length r \<le> FWD_MSG_MAX else r = []"
  using assms unfolding answers_ok_def by blast

definition server_ok :: "'u sockets \<Rightarrow> 'u waiting \<Rightarrow> ('u \<Rightarrow> nat) \<Rightarrow> bool" where
  "server_ok io wait work \<longleftrightarrow> send_ok io work \<and> recv_ok io work \<and> (\<forall>fd t u. work (snd (wait fd t u)) \<le> work u)"

section \<open>Reading and writing\<close>

text \<open>\<open>write_full\<close> is \<open>relay_send_all\<close> written with a moving pointer.\<close>

lemma write_full_relay:
  assumes io: "send_ok io work"
  shows "k \<le> length b \<Longrightarrow> write_full io fd (drop k b) w = relay_send_all io fd b k w"
proof (induction "length b - k + work (fst w)" arbitrary: k w rule: less_induct)
  case less
  obtain r u where r: "s_send io fd (drop k b) (fst w) = (r, u)" by fastforce
  note law = send_law [OF io r]
  have step: "do_send io fd (drop k b) w = (r, u, snd w @ [Ev_send fd (drop k b) r])" by (simp add: do_send_def r)
  show ?case
  proof (cases "k < length b")
    case False
    then show ?thesis by (subst write_full.simps, subst relay_send_all.simps) simp
  next
    case True
    then show ?thesis
    proof (cases r)
      case (Sent n)
      have "0 < n \<Longrightarrow> write_full io fd (drop (k + n) b) (u, snd w @ [Ev_send fd (drop k b) r]) = relay_send_all io fd b (k + n) (u, snd w @ [Ev_send fd (drop k b) r])"
        using less.hyps [of "k + n" "(u, snd w @ [Ev_send fd (drop k b) r])"] law Sent True by auto
      then show ?thesis using True step Sent by (subst write_full.simps, subst relay_send_all.simps) (auto simp: add.commute)
    next
      case Send_interrupted
      then have "write_full io fd (drop k b) (u, snd w @ [Ev_send fd (drop k b) r]) = relay_send_all io fd b k (u, snd w @ [Ev_send fd (drop k b) r])"
        using less.hyps [of k "(u, snd w @ [Ev_send fd (drop k b) r])"] law less.prems by auto
      then show ?thesis using True step Send_interrupted by (subst write_full.simps, subst relay_send_all.simps) simp
    next
      case Send_error
      then show ?thesis using True step by (subst write_full.simps, subst relay_send_all.simps) simp
    qed
  qed
qed

lemma write_full_sends: "send_ok io work \<Longrightarrow> sends work fd b w (write_full io fd b w)"
  using write_full_relay [of io work 0 b fd w] relay_send_all_sends [of io work fd b w] by simp

definition full_read :: "('u \<Rightarrow> nat) \<Rightarrow> int \<Rightarrow> nat \<Rightarrow> bytes \<Rightarrow> 'u net \<Rightarrow> (bytes option \<times> 'u net) option \<Rightarrow> bool" where
  "full_read work fd len buf w res \<longleftrightarrow> (\<exists>r u evs. res = Some (r, u, snd w @ evs) \<and> reads fd evs \<and> work u \<le> work (fst w) \<and>
     (case r of None \<Rightarrow> length (buf @ rcvd_on fd evs) < len
      | Some b \<Rightarrow> b = buf @ rcvd_on fd evs \<and> length b = len \<and> (length buf < len \<longrightarrow> work u < work (fst w))))"

lemma full_readI:
  "res = Some (r, u, snd w @ evs) \<Longrightarrow> reads fd evs \<Longrightarrow> work u \<le> work (fst w) \<Longrightarrow>
   (case r of None \<Rightarrow> length (buf @ rcvd_on fd evs) < len
      | Some b \<Rightarrow> b = buf @ rcvd_on fd evs \<and> length b = len \<and> (length buf < len \<longrightarrow> work u < work (fst w))) \<Longrightarrow> full_read work fd len buf w res"
  unfolding full_read_def by blast

lemma full_read_after:
  assumes "full_read work fd len (buf @ rcvd_of fd e) (u, snd w @ [e]) res" "reads fd [e]" "work u \<le> work (fst w)" "work u < work (fst w)"
  shows "full_read work fd len buf w res"
proof -
  obtain r u' evs where h: "res = Some (r, u', (snd w @ [e]) @ evs)" "reads fd evs" "work u' \<le> work u"
    "case r of None \<Rightarrow> length ((buf @ rcvd_of fd e) @ rcvd_on fd evs) < len
      | Some b \<Rightarrow> b = (buf @ rcvd_of fd e) @ rcvd_on fd evs \<and> length b = len"
    using assms(1) unfolding full_read_def by (auto split: option.splits)
  show ?thesis
    by (rule full_readI [where r = r and u = u' and evs = "e # evs"])
      (use h assms(2-4) in \<open>auto simp: reads_def split: option.splits\<close>)
qed

lemma read_full_ok:
  assumes env: "server_ok io wait work"
  shows "length buf \<le> len \<Longrightarrow> full_read work fd len buf w (read_full io wait fd len buf w)"
proof (induction "work (fst w)" arbitrary: buf w rule: less_induct)
  case less
  obtain ready u1 where w1: "wait fd FWD_TCP_IDLE_MS (fst w) = (ready, u1)" by fastforce
  have k1: "work u1 \<le> work (fst w)" using env w1 unfolding server_ok_def by (metis snd_conv)
  obtain r u where w2: "s_recv io fd (len - length buf) u1 = (r, u)" by fastforce
  have "recv_ok io work" using env by (simp add: server_ok_def)
  note law = recv_law [OF this w2]
  define e where "e = Ev_recv fd r"
  have e: "reads fd [e]" by (simp add: reads_def e_def)
  have eq: "read_full io wait fd len buf w = (if length buf < len then
      if \<not> ready then Some (None, u1, snd w)
      else (case r of
              Recv_interrupted \<Rightarrow> read_full io wait fd len buf (u, snd w @ [e])
            | Recv_error \<Rightarrow> Some (None, u, snd w @ [e])
            | Received b \<Rightarrow> if b = [] then Some (None, u, snd w @ [e]) else read_full io wait fd len (buf @ b) (u, snd w @ [e]))
      else Some (Some buf, w))"
    by (subst read_full.simps) (simp add: on_net_def w1 do_recv_def w2 e_def split: recv_result.split cong: if_cong)
  consider (full) "length buf = len" | (late) "length buf < len" "\<not> ready" | (again) "length buf < len" "ready" "r = Recv_interrupted"
    | (fin) "length buf < len" "ready" "r = Recv_error \<or> r = Received []"
    | (got) b where "length buf < len" "ready" "r = Received b" "b \<noteq> []"
    using less.prems by (cases r) force+
  then show ?case
  proof cases
    case full
    then show ?thesis unfolding eq by (intro full_readI [where r = "Some buf" and u = "fst w" and evs = "[]"]) (simp_all add: reads_def)
  next
    case late
    then show ?thesis unfolding eq using k1 by (intro full_readI [where r = None and u = u1 and evs = "[]"]) (simp_all add: reads_def)
  next
    case again
    then have "full_read work fd len (buf @ rcvd_of fd e) (u, snd w @ [e]) (read_full io wait fd len buf (u, snd w @ [e]))"
      using less.hyps [of "(u, snd w @ [e])" buf] less.prems law k1 by (simp add: e_def)
    from full_read_after [OF this e] show ?thesis unfolding eq using again law k1 by simp
  next
    case fin
    then show ?thesis unfolding eq using law k1 e
      by (intro full_readI [where r = None and u = u and evs = "[e]"]) (auto simp: e_def)
  next
    case got
    then have "full_read work fd len (buf @ rcvd_of fd e) (u, snd w @ [e]) (read_full io wait fd len (buf @ b) (u, snd w @ [e]))"
      using less.hyps [of "(u, snd w @ [e])" "buf @ b"] law k1 by (auto simp: e_def)
    from full_read_after [OF this e] show ?thesis unfolding eq using got law k1 by simp
  qed
qed

section \<open>The conversation\<close>

text \<open>Queries and replies in turn: each query is read whole before its reply is sent, and each reply is sent
  whole before the next query is read.\<close>

inductive dialogue :: "(bytes \<Rightarrow> bool) \<Rightarrow> int \<Rightarrow> (bytes \<times> bytes) list \<Rightarrow> net_event list \<Rightarrow> bool" for accepts fd where
  no_query: "dialogue accepts fd [] []"
| one_query: "reads fd r \<Longrightarrow> rcvd_on fd r = frame q \<Longrightarrow> accepts q \<Longrightarrow> sends_to fd s \<Longrightarrow> sent_on fd s = frame a \<Longrightarrow> reply_for q a \<Longrightarrow>
    dialogue accepts fd qas evs \<Longrightarrow> dialogue accepts fd ((q, a) # qas) (r @ s @ evs)"

text \<open>How it ends: with no further query that is accepted, or with a reply that could not be sent.\<close>

definition hung_up :: "(bytes \<Rightarrow> bool) \<Rightarrow> int \<Rightarrow> net_event list \<Rightarrow> bool" where
  "hung_up accepts fd tr \<longleftrightarrow>
     (reads fd tr \<and> (\<forall>q. rcvd_on fd tr = frame q \<longrightarrow> \<not> (accepts q \<and> length q \<le> FWD_MSG_MAX))) \<or>
     (\<exists>r s q a. tr = r @ s \<and> reads fd r \<and> rcvd_on fd r = frame q \<and> accepts q \<and> reply_for q a \<and>
        sends_to fd s \<and> prefix (sent_on fd s) (frame a) \<and> send_failed s)"

lemma frame_unique:
  assumes "h @ x = frame q" "length h = 2" "length q \<le> FWD_MSG_MAX"
  shows "x = q" "unat (be16 (h ! 0) (h ! 1)) = length q"
proof -
  have h: "h = be16_bytes (of_nat (length q))" "x = q" using assms(1,2) by (auto simp: frame_def append_eq_append_conv)
  show "x = q" by (rule h)
  show "unat (be16 (h ! 0) (h ! 1)) = length q"
    unfolding h(1) using assms(3) by (simp add: be16_bytes_def unat_of_nat FWD_MSG_MAX_def)
qed

lemma frame_of:
  assumes "length h = 2" "unat (be16 (h ! 0) (h ! 1)) = length q"
  shows "h @ q = frame q"
proof -
  have "of_nat (length q) = be16 (h ! 0) (h ! 1)" using assms(2) [symmetric] by simp
  then show ?thesis using take2 [of h] assms(1) by (simp add: frame_def be16_bytes_def)
qed

text \<open>What the loop of the worker gives.\<close>

definition conversed :: "(bytes \<Rightarrow> bool) \<Rightarrow> ('s \<Rightarrow> bool) \<Rightarrow> int \<Rightarrow> 'u net \<Rightarrow> ('s \<times> 'u net) option \<Rightarrow> bool" where
  "conversed accepts good fd w res \<longleftrightarrow> (\<exists>s u qas evs end1. res = Some (s, u, snd w @ evs @ end1) \<and> good s \<and>
     dialogue accepts fd qas evs \<and> hung_up accepts fd end1)"

lemma conversed_end:
  "good s \<Longrightarrow> hung_up accepts fd evs \<Longrightarrow> conversed accepts good fd w (Some (s, u, snd w @ evs))"
  unfolding conversed_def by (metis append_Nil no_query)

lemma conversed_more:
  assumes "conversed accepts good fd (u, snd w @ r @ s) res" "reads fd r" "rcvd_on fd r = frame q" "accepts q"
    "sends_to fd s" "sent_on fd s = frame a" "reply_for q a"
  shows "conversed accepts good fd w res"
proof -
  obtain s1 u1 qas evs end1 where h: "res = Some (s1, u1, (snd w @ r @ s) @ evs @ end1)" "good s1" "dialogue accepts fd qas evs" "hung_up accepts fd end1"
    using assms(1) unfolding conversed_def by auto
  have "dialogue accepts fd ((q, a) # qas) (r @ s @ evs)" by (rule one_query) (use assms h in auto)
  then show ?thesis unfolding conversed_def using h
    by (intro exI [of _ s1] exI [of _ u1] exI [of _ "(q, a) # qas"] exI [of _ "r @ s @ evs"] exI [of _ end1]) simp
qed

lemma hung_up_reading:
  assumes "reads fd tr" "\<And>q. rcvd_on fd tr = frame q \<Longrightarrow> length q \<le> FWD_MSG_MAX \<Longrightarrow> \<not> accepts q"
  shows "hung_up accepts fd tr"
  using assms unfolding hung_up_def by blast

lemma reads_append [simp]: "reads fd (a @ b) \<longleftrightarrow> reads fd a \<and> reads fd b"
  by (simp add: reads_def)


text \<open>A pass of the loop, from the query on.\<close>

definition tcp_reply :: "'u sockets \<Rightarrow> 'u waiting \<Rightarrow> ('s, 'u) answerer \<Rightarrow> int \<Rightarrow> bytes \<Rightarrow> 's \<Rightarrow> 'u net \<Rightarrow> ('s \<times> 'u net) option" where
  "tcp_reply io wait answer fd query s w =
     Option.bind (answer query s (fst w)) (\<lambda>(reply, s, u).
       if reply = [] then Some (s, u, snd w)
       else Option.bind (write_full io fd (frame reply) (u, snd w)) (\<lambda>(ok, w).
         if \<not> ok then Some (s, w) else tcp_queries io wait answer fd s w))"

lemma tcp_query_read:
  assumes env: "server_ok io wait work" and long: "\<And>q. accepts q \<Longrightarrow> 12 \<le> length q"
  obtains (stop) u evs where "tcp_queries io wait answer fd s w = Some (s, u, snd w @ evs)" "hung_up accepts fd evs"
  | (query) q u evs where "tcp_queries io wait answer fd s w = tcp_reply io wait answer fd q s (u, snd w @ evs)"
      "reads fd evs" "rcvd_on fd evs = frame q" "length q \<le> FWD_MSG_MAX" "work u < work (fst w)"
proof -
  from read_full_ok [OF env, of "[]" 2 fd w]
  obtain h u1 e1 where r1: "read_full io wait fd 2 [] w = Some (h, u1, snd w @ e1)" "reads fd e1" "work u1 \<le> work (fst w)"
    "case h of None \<Rightarrow> length ([] @ rcvd_on fd e1) < 2
      | Some b \<Rightarrow> b = [] @ rcvd_on fd e1 \<and> length b = 2 \<and> (length ([] :: bytes) < 2 \<longrightarrow> work u1 < work (fst w))"
    unfolding full_read_def by auto
  show thesis
  proof (cases h)
    case None
    have "hung_up accepts fd e1"
      by (rule hung_up_reading [OF r1(2)]) (use r1(4) None in \<open>auto simp: frame_def\<close>)
    then show thesis using r1 None by (intro stop) (subst tcp_queries.simps, simp)
  next
    case (Some hdr)
    define qlen where "qlen = unat (be16 (hdr ! 0) (hdr ! 1))"
    have hdr: "rcvd_on fd e1 = hdr" "length hdr = 2" "work u1 < work (fst w)" using r1(4) Some by auto
    have framed: "x = q" "qlen = length q" if "hdr @ x = frame q" "length q \<le> FWD_MSG_MAX" for x q
      using frame_unique [OF that(1) hdr(2) that(2)] by (simp_all add: qlen_def)
    have eq: "tcp_queries io wait answer fd s w =
      (if qlen < 12 then Some (s, u1, snd w @ e1)
       else Option.bind (read_full io wait fd qlen [] (u1, snd w @ e1)) (\<lambda>(query, w).
             case query of None \<Rightarrow> Some (s, w) | Some query \<Rightarrow> tcp_reply io wait answer fd query s w))"
      by (subst tcp_queries.simps, unfold tcp_reply_def frame_def) (simp add: r1(1) Some qlen_def)
    from read_full_ok [OF env, of "[]" qlen fd "(u1, snd w @ e1)"]
    obtain q' u2 e2 where r2: "read_full io wait fd qlen [] (u1, snd w @ e1) = Some (q', u2, snd w @ e1 @ e2)" "reads fd e2" "work u2 \<le> work u1"
      "case q' of None \<Rightarrow> length (rcvd_on fd e2) < qlen | Some b \<Rightarrow> b = rcvd_on fd e2 \<and> length b = qlen"
      by (auto simp: full_read_def split: option.splits)
    have rd: "reads fd (e1 @ e2)" using r1(2) r2(2) by simp
    consider (short) "qlen < 12" | (cut) "12 \<le> qlen" "q' = None" | (whole) q where "12 \<le> qlen" "q' = Some q" by (cases q') force+
    then show thesis
    proof cases
      case short
      have "hung_up accepts fd e1"
        by (rule hung_up_reading [OF r1(2)]) (use framed(2) [of "[]"] long short in \<open>fastforce simp: hdr(1)\<close>)
      then show thesis using short by (intro stop) (simp add: eq)
    next
      case cut
      have "\<not> accepts q" if "rcvd_on fd (e1 @ e2) = frame q" "length q \<le> FWD_MSG_MAX" for q
        using framed [of "rcvd_on fd e2" q] that r2(4) cut hdr(1) by simp
      from hung_up_reading [OF rd this] show thesis using cut r2(1) by (intro stop) (simp add: eq)
    next
      case whole
      then have q: "rcvd_on fd e2 = q" "length q = qlen" using r2(4) by auto
      then have "rcvd_on fd (e1 @ e2) = frame q" using frame_of [OF hdr(2), of q] hdr(1) by (simp add: qlen_def)
      moreover have "length q \<le> FWD_MSG_MAX"
        using q(2) unat_be16_less [of "hdr ! 0" "hdr ! 1"] by (simp add: qlen_def FWD_MSG_MAX_def)
      ultimately show thesis using whole rd r2(1,3) hdr(3) by (intro query [of q u2 "e1 @ e2"]) (simp_all add: eq)
    qed
  qed
qed

text \<open>Answering a query that was read.\<close>

lemma tcp_reply_cases:
  assumes env: "server_ok io wait work" and ans: "answers_ok answer good accepts work" and good: "good s"
    and rd: "reads fd r" "rcvd_on fd r = frame q" "length q \<le> FWD_MSG_MAX"
  obtains (stop) s' u' evs where "tcp_reply io wait answer fd q s (u, tr @ r) = Some (s', u', tr @ evs)" "good s'" "hung_up accepts fd evs"
  | (next_query) s' u' e a where "tcp_reply io wait answer fd q s (u, tr @ r) = tcp_queries io wait answer fd s' (u', tr @ r @ e)" "good s'"
      "work u' \<le> work u" "accepts q" "sends_to fd e" "sent_on fd e = frame a" "reply_for q a"
proof -
  obtain a s' u1 where a: "answer q s u = Some (a, s', u1)" "good s'" "work u1 \<le> work u"
    "if accepts q then reply_for q a \<and> length a \<le> FWD_MSG_MAX else a = []"
    using answersD [OF ans good rd(3)] by blast
  show thesis
  proof (cases "accepts q")
    case False
    have "hung_up accepts fd r"
      by (rule hung_up_reading [OF rd(1)]) (use rd(2) False in \<open>auto simp: frame_def append_eq_append_conv\<close>)
    then show thesis using a False by (intro stop) (simp_all add: tcp_reply_def)
  next
    case acc: True
    then have a2: "reply_for q a" "a \<noteq> []" using a(4) by (auto simp: reply_for_def)
    have "send_ok io work" using env by (simp add: server_ok_def)
    from write_full_sends [OF this, of fd "frame a" "(u1, tr @ r)"]
    obtain ok u2 e m where w: "write_full io fd (frame a) (u1, tr @ r) = Some (ok, u2, tr @ r @ e)" "sends_to fd e"
      "sent_on fd e = take m (frame a)" "if ok then m = length (frame a) else send_failed e" "work u2 \<le> work u1"
      by (auto simp: sends_def)
    show thesis
    proof (cases ok)
      case True
      then show thesis using acc a a2 w by (intro next_query [of s' u2 e a]) (simp_all add: tcp_reply_def)
    next
      case False
      then have "hung_up accepts fd (r @ e)"
        unfolding hung_up_def using rd acc a2(1) w take_is_prefix
        by (intro disjI2 exI [of _ r] exI [of _ e] exI [of _ q] exI [of _ a]) auto
      then show thesis using False a a2 w by (intro stop [of s' u2 "r @ e"]) (simp_all add: tcp_reply_def)
    qed
  qed
qed

lemma tcp_queries_ok:
  assumes env: "server_ok io wait work" and ans: "answers_ok answer good accepts work" and long: "\<And>q. accepts q \<Longrightarrow> 12 \<le> length q"
  shows "good s \<Longrightarrow> conversed accepts good fd w (tcp_queries io wait answer fd s w)"
proof (induction "work (fst w)" arbitrary: s w rule: less_induct)
  case less
  show ?case
  proof (rule tcp_query_read [OF env long, where fd = fd and answer = answer and s = s and w = w])
    fix u evs assume "tcp_queries io wait answer fd s w = Some (s, u, snd w @ evs)" "hung_up accepts fd evs"
    then show ?thesis using conversed_end [where good = good] less.prems by simp
  next
    fix q u evs assume q: "tcp_queries io wait answer fd s w = tcp_reply io wait answer fd q s (u, snd w @ evs)"
      "reads fd evs" "rcvd_on fd evs = frame q" "length q \<le> FWD_MSG_MAX" "work u < work (fst w)"
    show ?thesis
    proof (rule tcp_reply_cases [OF env ans less.prems q(2-4), where u = u and tr = "snd w"])
      fix s' u' evs' assume "tcp_reply io wait answer fd q s (u, snd w @ evs) = Some (s', u', snd w @ evs')" "good s'" "hung_up accepts fd evs'"
      then show ?thesis using conversed_end [of good s' accepts fd evs' w u'] q(1) by simp
    next
      fix s' u' e a assume n: "tcp_reply io wait answer fd q s (u, snd w @ evs) = tcp_queries io wait answer fd s' (u', snd w @ evs @ e)" "good s'"
        "work u' \<le> work u" "accepts q" "sends_to fd e" "sent_on fd e = frame a" "reply_for q a"
      have "conversed accepts good fd (u', snd w @ evs @ e) (tcp_queries io wait answer fd s' (u', snd w @ evs @ e))"
        using less.hyps n(2,3) q(5) by simp
      from conversed_more [OF this q(2,3) n(4-7)] show ?thesis using q(1) n(1) by simp
    qed
  qed
qed

section \<open>The answers\<close>

text \<open>A server that is asked gives at most what there is room for, and does not delay the loops for ever.\<close>

definition upstream_ok :: "('a \<Rightarrow> bytes \<Rightarrow> nat \<Rightarrow> int \<Rightarrow> 'u \<Rightarrow> bytes option \<times> 'u) \<Rightarrow> ('u \<Rightarrow> nat) \<Rightarrow> bool" where
  "upstream_ok T work \<longleftrightarrow> (\<forall>a q n t u. work (snd (T a q n t u)) \<le> work u \<and> (\<forall>x. fst (T a q n t u) = Some x \<longrightarrow> length x \<le> n))"

definition accepts_query :: "bytes \<Rightarrow> bool" where
  "accepts_query q \<longleftrightarrow> (case dns_query_info q DNS_NAME_MAX of Some (Some info) \<Rightarrow> True | _ \<Rightarrow> False)"

lemma upstream_resolvers:
  assumes "upstream_ok T work" "upstream_ok O1 work"
  shows "resolvers T O1 (\<lambda>A u u'. work u' \<le> work u) (\<lambda>n x. length x \<le> n)"
  using assms by unfold_locales (auto simp: upstream_ok_def intro: order_trans, (metis fst_conv snd_conv)+)

lemma worker_answers:
  assumes up: "upstream_ok T work" "upstream_ok O1 work" and m: "\<And>u. work (snd (moments u)) \<le> work u"
  shows "answers_ok (worker_answer T O1 moments is_udp orig) (\<lambda>f. resolver_inv (f_dns f)) accepts_query work"
  unfolding answers_ok_def
proof (intro allI impI, elim conjE)
  fix q :: bytes and f :: fwd_state and u assume inv: "resolver_inv (f_dns f)" and len: "length q \<le> FWD_MSG_MAX"
  obtain clock malloc_ok nows u1 where mo: "moments u = ((clock, malloc_ok, nows), u1)" by (metis prod.exhaust)
  have u1: "work u1 \<le> work u" using m [of u] mo by simp
  show "\<exists>r s' u'. worker_answer T O1 moments is_udp orig q f u = Some (r, s', u') \<and> resolver_inv (f_dns s') \<and> work u' \<le> work u \<and>
    (if accepts_query q then reply_for q r \<and> length r \<le> FWD_MSG_MAX else r = [])"
  proof (cases "accepts_query q")
    case True
    then obtain raw qtype udp_size where info: "dns_query_info q DNS_NAME_MAX = Some (Some (raw, qtype, udp_size))"
      by (auto simp: accepts_query_def split: option.splits)
    from resolvers.answer_ok [OF upstream_resolvers [OF up] info inv len, of clock malloc_ok nows is_udp orig u1]
    show ?thesis using mo True u1 len by (auto simp: worker_answer_def)
  next
    case False
    then have "dns_query_info q DNS_NAME_MAX = Some None"
      using query_info_total [of q DNS_NAME_MAX] by (auto simp: accepts_query_def split: option.splits)
    then show ?thesis using mo False u1 inv by (simp add: worker_answer_def fwd_answer_def)
  qed
qed

lemma accepts_query_length: "accepts_query q \<Longrightarrow> 12 \<le> length q"
  using query_info_length by (auto simp: accepts_query_def split: option.splits)

section \<open>Correctness\<close>

text \<open>Claim C14. Serving a DNS connection over TCP ends when its peer sends and interrupts only finitely often. It
  is a dialogue: every query that was received whole and is one to answer was answered, in order, by one
  framed message with its id, sent whole before the next query was read. The connection is closed at the
  end and nowhere before, and it ended because there was no further query to answer or because a
  reply could not be sent. The resolver's invariant is kept.\<close>

theorem tcp_worker_correct:
  assumes env: "server_ok io wait work" and up: "upstream_ok T work" "upstream_ok O1 work" and m: "\<And>u. work (snd (moments u)) \<le> work u"
    and inv: "resolver_inv (f_dns f)"
  shows "\<exists>f' u' qas evs end1. tcp_worker io wait close_fd (worker_answer T O1 moments False orig) malloc_ok fd f w =
      Some (f', u', snd w @ evs @ end1 @ [Ev_close fd]) \<and> resolver_inv (f_dns f') \<and>
    dialogue accepts_query fd qas evs \<and> hung_up accepts_query fd end1"
proof (cases malloc_ok)
  case True
  from tcp_queries_ok [OF env worker_answers [OF up m, where is_udp = False and orig = orig] accepts_query_length, where s = f and fd = fd and w = w] inv
  show ?thesis using True by (fastforce simp: tcp_worker_def conversed_def)
next
  case False
  have "hung_up accepts_query fd []" by (rule hung_up_reading) (simp_all add: reads_def frame_def be16_bytes_def)
  then show ?thesis using False inv no_query [of accepts_query fd] by (force simp: tcp_worker_def)
qed

text \<open>Waiting for a peer that is always ready.\<close>

definition demo_waiting :: "demo_world waiting" where
  "demo_waiting fd t u = (True, u)"

theorem tcp_worker_correct_witness:
  "\<exists>f' u' qas evs end1. tcp_worker demo_sockets demo_waiting (\<lambda>fd u. u)
      (worker_answer (\<lambda>s q n t u. (None, u)) (\<lambda>a q n t u. (None, u)) (\<lambda>u. ((\<lambda>i. 0, True, 0, 0), u)) False None) True 3 demo_fwd
      (([[0], [12, 1], [2, 3, 4, 5, 6, 7, 8, 9, 10, 11, 12]], [], 1), []) = Some (f', u', evs @ end1 @ [Ev_close 3]) \<and>
    resolver_inv (f_dns f') \<and> dialogue accepts_query 3 qas evs \<and> hung_up accepts_query 3 end1"
proof -
  have env: "server_ok demo_sockets demo_waiting demo_work"
    using demo_sockets_ok by (simp add: server_ok_def sockets_ok_def demo_waiting_def)
  have up: "upstream_ok (\<lambda>s q n t u. (None, u)) demo_work" by (simp add: upstream_ok_def)
  have inv: "resolver_inv (f_dns demo_fwd)" by (simp add: demo_fwd_def resolver_init_inv)
  show ?thesis
    using tcp_worker_correct [OF env up up _ inv, of "\<lambda>u. ((\<lambda>i. 0, True, 0, 0), u)" "\<lambda>fd u. u" None True 3
      "(([[0], [12, 1], [2, 3, 4, 5, 6, 7, 8, 9, 10, 11, 12]], [], 1), [])"] by simp
qed

text \<open>However queries arrive and workers start, fail to start and finish, the counter of slots is the
  number of workers that run, at most 128; a worker that finishes finds its own slot to give back.\<close>

theorem slots_bounded:
  assumes "slot_step\<^sup>*\<^sup>* (0, 0) (inflight, workers)"
  shows "inflight = workers \<and> workers \<le> FWD_MAX_INFLIGHT"
proof -
  have step: "fst t = snd t \<and> snd t \<le> FWD_MAX_INFLIGHT" if "slot_step s t" "fst s = snd s \<and> snd s \<le> FWD_MAX_INFLIGHT" for s t
    using that by cases (auto simp: take_slot_def give_slot_def split: if_splits)
  have "fst s = snd s \<and> snd s \<le> FWD_MAX_INFLIGHT" if "slot_step\<^sup>*\<^sup>* (0, 0) s" for s
    using that by (induction rule: rtranclp_induct) (auto dest: step)
  from this [OF assms] show ?thesis by simp
qed

theorem slots_bounded_witness: "slot_step\<^sup>*\<^sup>* (0, 0) (1, 1) \<and> (1 :: nat) \<le> FWD_MAX_INFLIGHT"
proof -
  have "slot_step\<^sup>*\<^sup>* (0, 0) (1, 1)"
    using started [of 0 1 0] by (intro r_into_rtranclp) (simp add: take_slot_def FWD_MAX_INFLIGHT_def)
  then show ?thesis using slots_bounded [of 1 1] by blast
qed

end
