(* ===== verification/Reflect.thy ===== *)
theory Reflect
  imports Quic Net Discovery
begin

text \<open>
  The packet path of the Windows layer, \<open>src/transparent/platform_windows.c\<close>. An outgoing packet of a new
  flow \<open>A:p \<rightarrow> D:443\<close> is turned into \<open>D:p \<rightarrow> A:port\<close> and injected inbound, so that it reaches the listener as
  if the remote host had connected; what the listener sends back is turned into \<open>D:443 \<rightarrow> A:p\<close>. A hash
  table remembers the flows that were reflected. Ports of packets are kept in network order, as the code
  keeps them; the machine is little-endian.
\<close>

section \<open>Data\<close>

definition ntohs :: "u16 \<Rightarrow> u16" where
  "ntohs v = push_bit 8 v OR drop_bit 8 v"

abbreviation htons :: "u16 \<Rightarrow> u16" where
  "htons \<equiv> ntohs"

definition OWN_PORT_LO :: int where "OWN_PORT_LO = 45000"
definition OWN_PORT_HI :: int where "OWN_PORT_HI = 45999"
definition FLOW_BUCKETS :: nat where "FLOW_BUCKETS = 4096"
definition FLOW_TCP_IDLE_MS :: int where "FLOW_TCP_IDLE_MS = 2 * 3600 * 1000"
definition FLOW_TCP_CLOSING_MS :: int where "FLOW_TCP_CLOSING_MS = 30 * 1000"
definition FLOW_UDP_IDLE_MS :: int where "FLOW_UDP_IDLE_MS = 60 * 1000"
definition QUIC_MAX :: nat where "QUIC_MAX = 1024"

datatype ip_proto = IPPROTO_TCP | IPPROTO_UDP

fun proto_num :: "ip_proto \<Rightarrow> u32" where
  "proto_num IPPROTO_TCP = 6"
| "proto_num IPPROTO_UDP = 17"

record win_flow =
  fl_proto :: ip_proto
  fl_family :: nat
  fl_local :: bytes
  fl_lport :: u16
  fl_remote :: bytes
  fl_oport :: u16
  fl_closing :: bool
  fl_last :: int

record win_quic =
  wq_family :: nat
  wq_addr :: bytes
  wq_until :: int

text \<open>The static variables that decide what happens to a packet. The flow table is a function from the
  bucket number to the chain; \<open>r_div\<close> and \<open>r_thread\<close> say whether the handle is open and the
  first worker was started.\<close>

record reflector =
  r_port :: int
  r_dns_port :: int
  r_ipv6 :: bool
  r_flows :: "nat \<Rightarrow> win_flow list"
  r_quic :: "win_quic list"
  r_div :: bool
  r_thread :: bool

text \<open>The fields of the headers that are read or written.\<close>

record tcphdr =
  th_src :: u16
  th_dst :: u16
  th_syn :: bool
  th_ack :: bool
  th_fin :: bool
  th_rst :: bool

record udphdr =
  uh_src :: u16
  uh_dst :: u16

record pkt =
  p_family :: nat
  p_src :: bytes
  p_dst :: bytes
  p_tcp :: "tcphdr option"
  p_udp :: "udphdr option"
  p_payload :: bytes

section \<open>The flow table\<close>

definition fnv32 :: "bytes \<Rightarrow> u32 \<Rightarrow> u32" where
  "fnv32 bs h = fold (\<lambda>b h. (h XOR ucast b) * 16777619) bs h"

definition bucket :: "ip_proto \<Rightarrow> nat \<Rightarrow> bytes \<Rightarrow> u16 \<Rightarrow> u16 \<Rightarrow> nat" where
  "bucket proto family remote lport oport =
     (let h = 2166136261 XOR proto_num proto XOR push_bit 8 (ucast oport :: u32);
          h = fnv32 (take (addr_len family) remote) h;
          h = (h XOR ucast lport) * 16777619 in
      unat h mod FLOW_BUCKETS)"

definition flow_is :: "ip_proto \<Rightarrow> nat \<Rightarrow> bytes option \<Rightarrow> u16 \<Rightarrow> bytes \<Rightarrow> u16 \<Rightarrow> win_flow \<Rightarrow> bool" where
  "flow_is proto family lcl lport remote oport f \<longleftrightarrow>
     fl_proto f = proto \<and> fl_family f = family \<and> fl_lport f = lport \<and> fl_oport f = oport \<and>
     take (addr_len family) (fl_remote f) = take (addr_len family) remote \<and>
     (case lcl of None \<Rightarrow> True | Some l \<Rightarrow> take (addr_len family) (fl_local f) = take (addr_len family) l)"

definition find_flow :: "ip_proto \<Rightarrow> nat \<Rightarrow> bytes option \<Rightarrow> u16 \<Rightarrow> bytes \<Rightarrow> u16 \<Rightarrow> (nat \<Rightarrow> win_flow list) \<Rightarrow> win_flow option" where
  "find_flow proto family lcl lport remote oport flows =
     List.find (flow_is proto family lcl lport remote oport) (flows (bucket proto family remote lport oport))"

text \<open>A store through the pointer that \<open>find\<close> returned.\<close>

fun update_first :: "('a \<Rightarrow> bool) \<Rightarrow> ('a \<Rightarrow> 'a) \<Rightarrow> 'a list \<Rightarrow> 'a list" where
  "update_first P g (x # xs) = (if P x then g x # xs else x # update_first P g xs)"
| "update_first P g [] = []"

definition store_flow :: "ip_proto \<Rightarrow> nat \<Rightarrow> bytes \<Rightarrow> u16 \<Rightarrow> bytes \<Rightarrow> u16 \<Rightarrow> (win_flow \<Rightarrow> win_flow) \<Rightarrow> (nat \<Rightarrow> win_flow list) \<Rightarrow> nat \<Rightarrow> win_flow list" where
  "store_flow proto family lcl lport remote oport g flows =
     (let b = bucket proto family remote lport oport in
      flows(b := update_first (flow_is proto family (Some lcl) lport remote oport) g (flows b)))"

text \<open>\<open>calloc_ok\<close> says whether there was memory for a new entry.\<close>

definition add_flow :: "bool \<Rightarrow> ip_proto \<Rightarrow> nat \<Rightarrow> bytes \<Rightarrow> u16 \<Rightarrow> bytes \<Rightarrow> u16 \<Rightarrow> int \<Rightarrow> (nat \<Rightarrow> win_flow list) \<Rightarrow> nat \<Rightarrow> win_flow list" where
  "add_flow calloc_ok proto family lcl lport remote oport now flows =
     (let b = bucket proto family remote lport oport;
          n = addr_len family;
          fill = \<lparr>fl_proto = proto, fl_family = family, fl_local = take n lcl, fl_lport = lport,
            fl_remote = take n remote, fl_oport = oport, fl_closing = False, fl_last = now\<rparr> in
      case find_flow proto family (Some lcl) lport remote oport flows of
        Some f \<Rightarrow> store_flow proto family lcl lport remote oport (\<lambda>f. fill) flows
      | None \<Rightarrow> if calloc_ok then flows(b := fill # flows b) else flows)"

definition flow_limit :: "win_flow \<Rightarrow> int" where
  "flow_limit f =
     (if fl_proto f = IPPROTO_UDP then FLOW_UDP_IDLE_MS
      else if fl_closing f then FLOW_TCP_CLOSING_MS else FLOW_TCP_IDLE_MS)"

definition sweep_flows :: "int \<Rightarrow> reflector \<Rightarrow> reflector" where
  "sweep_flows now r = r\<lparr>r_flows := (\<lambda>b. filter (\<lambda>f. \<not> now - fl_last f > flow_limit f) (r_flows r b))\<rparr>"

definition free_flows :: "reflector \<Rightarrow> reflector" where
  "free_flows r = r\<lparr>r_flows := (\<lambda>b. [])\<rparr>"

section \<open>Address classes and the QUIC table\<close>

definition private_v4 :: "bytes \<Rightarrow> bool" where
  "private_v4 a \<longleftrightarrow> a ! 0 = 0 \<or> a ! 0 = 10 \<or> a ! 0 = 127 \<or> a ! 0 \<ge> 224 \<or>
     a ! 0 = 100 \<and> a ! 1 AND 0xC0 = 64 \<or>
     a ! 0 = 169 \<and> a ! 1 = 254 \<or>
     a ! 0 = 172 \<and> a ! 1 AND 0xF0 = 16 \<or>
     a ! 0 = 192 \<and> a ! 1 = 168"

definition private_v6 :: "bytes \<Rightarrow> bool" where
  "private_v6 a \<longleftrightarrow> a ! 0 AND 0xFE = 0xFC \<or> a ! 0 = 0xFE \<and> a ! 1 AND 0xC0 = 0x80 \<or>
     a ! 0 = 0xFF \<or> take 16 a = replicate 15 0 @ [1]"

definition quic_is :: "nat \<Rightarrow> bytes \<Rightarrow> win_quic \<Rightarrow> bool" where
  "quic_is family addr q \<longleftrightarrow> wq_family q = family \<and> take (addr_len family) (wq_addr q) = take (addr_len family) addr"

definition quic_blocked :: "win_quic list \<Rightarrow> nat \<Rightarrow> bytes \<Rightarrow> int \<Rightarrow> bool" where
  "quic_blocked qs family addr now = list_ex (\<lambda>q. quic_is family addr q \<and> wq_until q > now) qs"

definition quic_block_one :: "int \<Rightarrow> win_quic list \<Rightarrow> dns_addr \<Rightarrow> win_quic list" where
  "quic_block_one now qs a =
     (let e = \<lparr>wq_family = da_family a, wq_addr = take (addr_len (da_family a)) (da_addr a),
            wq_until = now + TP_QUIC_BLOCK_TIMEOUT_S * 1000\<rparr> in
      case first_idx (quic_is (da_family a) (da_addr a)) qs of
        Some j \<Rightarrow> qs[j := e]
      | None \<Rightarrow> if length qs < QUIC_MAX then qs @ [e] else qs[oldest_idx wq_until qs := e])"

definition tpp_quic_block :: "int \<Rightarrow> dns_addr list \<Rightarrow> reflector \<Rightarrow> reflector" where
  "tpp_quic_block now addrs r = r\<lparr>r_quic := foldl (quic_block_one now) (r_quic r) addrs\<rparr>"

definition tpp_quic_flush :: "reflector \<Rightarrow> reflector" where
  "tpp_quic_flush r = r\<lparr>r_quic := []\<rparr>"

section \<open>The packet path\<close>

text \<open>What the WinDivert parser found, and \<^const>\<open>None\<close> when it failed.\<close>

record parsed =
  w_ip :: "(bytes \<times> bytes) option"
  w_ip6 :: "(bytes \<times> bytes) option"
  w_tcp :: "tcphdr option"
  w_udp :: "udphdr option"
  w_data :: bytes

definition parse_pkt :: "parsed option \<Rightarrow> pkt option" where
  "parse_pkt h = do {
     h \<leftarrow> h;
     p \<leftarrow> (case w_ip h of
        Some (s, d) \<Rightarrow> Some \<lparr>p_family = 4, p_src = s, p_dst = d, p_tcp = w_tcp h, p_udp = w_udp h, p_payload = w_data h\<rparr>
      | None \<Rightarrow> case w_ip6 h of
        Some (s, d) \<Rightarrow> Some \<lparr>p_family = 6, p_src = s, p_dst = d, p_tcp = w_tcp h, p_udp = w_udp h, p_payload = w_data h\<rparr>
      | None \<Rightarrow> None);
     if p_tcp p \<noteq> None \<or> p_udp p \<noteq> None then Some p else None
   }"

definition swap_addrs :: "pkt \<Rightarrow> pkt" where
  "swap_addrs p = p\<lparr>p_src := p_dst p, p_dst := p_src p\<rparr>"

definition own_port :: "u16 \<Rightarrow> bool" where
  "own_port port_net \<longleftrightarrow> OWN_PORT_LO \<le> uint (ntohs port_net) \<and> uint (ntohs port_net) \<le> OWN_PORT_HI"

definition set_sport :: "u16 \<Rightarrow> pkt \<Rightarrow> pkt" where
  "set_sport port p = (if p_tcp p \<noteq> None then p\<lparr>p_tcp := map_option (\<lambda>t. t\<lparr>th_src := port\<rparr>) (p_tcp p)\<rparr>
     else p\<lparr>p_udp := map_option (\<lambda>u. u\<lparr>uh_src := port\<rparr>) (p_udp p)\<rparr>)"

definition set_dport :: "u16 \<Rightarrow> pkt \<Rightarrow> pkt" where
  "set_dport port p = (if p_tcp p \<noteq> None then p\<lparr>p_tcp := map_option (\<lambda>t. t\<lparr>th_dst := port\<rparr>) (p_tcp p)\<rparr>
     else p\<lparr>p_udp := map_option (\<lambda>u. u\<lparr>uh_dst := port\<rparr>) (p_udp p)\<rparr>)"

text \<open>The source and destination ports; \<^const>\<open>None\<close> is a read through a null pointer.\<close>

definition pkt_ports :: "pkt \<Rightarrow> (u16 \<times> u16) option" where
  "pkt_ports p = (case p_tcp p of Some t \<Rightarrow> Some (th_src t, th_dst t)
     | None \<Rightarrow> map_option (\<lambda>u. (uh_src u, uh_dst u)) (p_udp p))"

definition pkt_proto :: "pkt \<Rightarrow> ip_proto" where
  "pkt_proto p = (if p_tcp p \<noteq> None then IPPROTO_TCP else IPPROTO_UDP)"

definition pkt_closes :: "pkt \<Rightarrow> bool" where
  "pkt_closes p = (case p_tcp p of None \<Rightarrow> False | Some t \<Rightarrow> th_fin t \<or> th_rst t)"

definition pkt_opens :: "pkt \<Rightarrow> bool" where
  "pkt_opens p = (case p_tcp p of None \<Rightarrow> True | Some t \<Rightarrow> th_syn t \<and> \<not> th_ack t)"

definition note_packet :: "int \<Rightarrow> bool \<Rightarrow> win_flow \<Rightarrow> win_flow" where
  "note_packet now closes f = f\<lparr>fl_last := now, fl_closing := (closes \<or> fl_closing f)\<rparr>"

text \<open>The service whose listener sent the packet, 0 when none did.\<close>

definition reply_svc :: "reflector \<Rightarrow> ip_proto \<Rightarrow> u16 \<Rightarrow> int" where
  "reply_svc r proto sport =
     (if uint (ntohs sport) = r_port r \<and> proto = IPPROTO_TCP then 443
      else if r_dns_port r > 0 \<and> uint (ntohs sport) = r_dns_port r then 53 else 0)"

text \<open>The third part of \<open>handle\<close>: may this destination be reflected?\<close>

definition left_alone :: "reflector \<Rightarrow> pkt \<Rightarrow> int \<Rightarrow> bool" where
  "left_alone r p svc =
     (if svc = 443 \<and> pkt_proto p = IPPROTO_TCP then
        p_family p = 4 \<and> private_v4 (p_dst p) \<or> p_family p = 6 \<and> private_v6 (p_dst p) \<or> p_family p = 6 \<and> \<not> r_ipv6 r
      else \<not> (svc = 53 \<and> r_dns_port r > 0) \<or> p_family p = 6 \<and> \<not> r_ipv6 r)"

text \<open>The result: whether the packet is sent, the packet and its direction (\<^const>\<open>True\<close> is outbound), and the
  new state.\<close>

definition handle :: "bool \<Rightarrow> pkt \<Rightarrow> bool \<Rightarrow> int \<Rightarrow> reflector \<Rightarrow> (bool \<times> pkt \<times> bool \<times> reflector) option" where
  "handle calloc_ok p outbound now r = do {
     (sport, dport) \<leftarrow> pkt_ports p;
     let proto = pkt_proto p;
     let svc = reply_svc r proto sport;
     if svc \<noteq> 0 then
       (if find_flow proto (p_family p) (Some (p_src p)) dport (p_dst p) (of_int svc) (r_flows r) = None then Some (True, p, outbound, r)
        else Some (True, set_sport (htons (of_int svc)) (swap_addrs p), False,
          r\<lparr>r_flows := store_flow proto (p_family p) (p_src p) dport (p_dst p) (of_int svc) (note_packet now (pkt_closes p)) (r_flows r)\<rparr>))
     else if p_udp p \<noteq> None \<and> uint (ntohs dport) = 443 then
       Some (\<not> (p_payload p \<noteq> [] \<and> hd (p_payload p) \<ge> 0xC0 \<and> quic_blocked (r_quic r) (p_family p) (p_dst p) now), p, outbound, r)
     else if own_port sport then Some (True, p, outbound, r)
     else do {
       let svc = uint (ntohs dport);
       if left_alone r p svc then Some (True, p, outbound, r)
       else do {
         let flows =
           (if find_flow proto (p_family p) (Some (p_src p)) sport (p_dst p) (of_int svc) (r_flows r) = None \<and> pkt_opens p
            then add_flow calloc_ok proto (p_family p) (p_src p) sport (p_dst p) (of_int svc) now (r_flows r) else r_flows r);
         if find_flow proto (p_family p) (Some (p_src p)) sport (p_dst p) (of_int svc) flows = None then Some (True, p, outbound, r\<lparr>r_flows := flows\<rparr>)
         else Some (True, set_dport (htons (of_int (if svc = 443 \<and> proto = IPPROTO_TCP then r_port r else r_dns_port r))) (swap_addrs p), False,
           r\<lparr>r_flows := store_flow proto (p_family p) (p_src p) sport (p_dst p) (of_int svc) (note_packet now (pkt_closes p)) flows\<rparr>)
       }
     }
   }"

section \<open>The interface of the layer\<close>

text \<open>What a worker does with a packet it received: \<^const>\<open>None\<close> when it is dropped, and otherwise the packet that is
  sent (unchanged when it could not be parsed) with its direction.\<close>

datatype sent = Sent_raw bool | Sent_pkt pkt bool

definition worker_packet :: "bool \<Rightarrow> parsed option \<Rightarrow> bool \<Rightarrow> int \<Rightarrow> reflector \<Rightarrow> (sent option \<times> reflector) option" where
  "worker_packet calloc_ok h outbound now r =
     (case parse_pkt h of
        None \<Rightarrow> Some (Some (Sent_raw outbound), r)
      | Some p \<Rightarrow> do {
          (send, p', outbound', r') \<leftarrow> handle calloc_ok p outbound now r;
          Some (if send then Some (Sent_pkt p' outbound') else None, r')
        })"

definition stop_workers :: "reflector \<Rightarrow> reflector" where
  "stop_workers r = r\<lparr>r_thread := False, r_div := False\<rparr>"

definition tpp_remove :: "reflector \<Rightarrow> reflector" where
  "tpp_remove r = free_flows (stop_workers r)"

text \<open>\<open>open_ok\<close> and \<open>thread_ok\<close> are the outcomes of \<open>WinDivertOpen\<close> and of creating the first thread.\<close>

definition tpp_install :: "bool \<Rightarrow> bool \<Rightarrow> int \<Rightarrow> bool \<Rightarrow> int \<Rightarrow> reflector \<Rightarrow> bool \<times> reflector" where
  "tpp_install open_ok thread_ok port ipv6 dns_port r =
     (let r = (tpp_remove r)\<lparr>r_port := port, r_ipv6 := ipv6, r_dns_port := dns_port\<rparr> in
      if \<not> open_ok then (False, r)
      else (thread_ok, r\<lparr>r_div := True, r_thread := thread_ok\<rparr>))"

text \<open>\<open>active\<close> says whether the first thread is still running.\<close>

definition tpp_refresh :: "bool \<Rightarrow> bool \<Rightarrow> bool \<Rightarrow> int \<Rightarrow> reflector \<Rightarrow> int \<times> reflector" where
  "tpp_refresh active open_ok thread_ok now r =
     (let r = sweep_flows now r in
      if r_div r \<and> r_thread r \<and> active then (0, r)
      else case tpp_install open_ok thread_ok (r_port r) (r_ipv6 r) (r_dns_port r) r of (ok, r) \<Rightarrow> (if ok then 1 else - 1, r))"

definition sock_addr :: "sockaddr \<Rightarrow> nat \<times> bytes \<times> u16" where
  "sock_addr ss = (if sa_family ss = AF_INET6 then 6 else 4, sa_addr ss, htons (sa_port ss))"

text \<open>\<open>peer\<close> and \<open>self\<close> are what \<open>getpeername\<close> and \<open>getsockname\<close> gave.\<close>

definition tpp_original_dst :: "sockaddr option \<Rightarrow> sockaddr option \<Rightarrow> reflector \<Rightarrow> sockaddr option" where
  "tpp_original_dst peer self r = do {
     peer \<leftarrow> peer;
     self \<leftarrow> self;
     let (_, remote, port) = sock_addr peer;
     let (fam, lcl, lport) = sock_addr self;
     _ \<leftarrow> find_flow IPPROTO_TCP fam (Some lcl) port remote 443 (r_flows r);
     Some (if fam = 6 then \<lparr>sa_family = AF_INET6, sa_addr = take 16 remote, sa_port = 443\<rparr>
           else \<lparr>sa_family = AF_INET, sa_addr = take 4 remote, sa_port = 443\<rparr>)
   }"

definition tpp_dns_peer_ok :: "sockaddr \<Rightarrow> bool \<Rightarrow> reflector \<Rightarrow> bool" where
  "tpp_dns_peer_ok peer tcp r =
     (let (fam, remote, port) = sock_addr peer in
      find_flow (if tcp then IPPROTO_TCP else IPPROTO_UDP) fam None port remote 53 (r_flows r) \<noteq> None)"

text \<open>The counter is the static variable \<open>g_own_next\<close>; \<open>bind_port\<close> is \<open>bind\<close>. The first result is the port that
  was bound.\<close>

fun prepare_tries :: "(af \<Rightarrow> int \<Rightarrow> 'u \<Rightarrow> bool \<times> 'u) \<Rightarrow> af \<Rightarrow> nat \<Rightarrow> u32 \<Rightarrow> 'u \<Rightarrow> int option \<times> u32 \<times> 'u" where
  "prepare_tries bind_port family (Suc tries) own_next u =
     (let own_next = own_next + 1;
          port = OWN_PORT_LO + uint own_next mod (OWN_PORT_HI - OWN_PORT_LO + 1) in
      case bind_port family port u of (ok, u) \<Rightarrow>
        if ok then (Some port, own_next, u) else prepare_tries bind_port family tries own_next u)"
| "prepare_tries bind_port family 0 own_next u = (None, own_next, u)"

definition tpp_prepare_socket :: "(af \<Rightarrow> int \<Rightarrow> 'u \<Rightarrow> bool \<times> 'u) \<Rightarrow> af \<Rightarrow> u32 \<Rightarrow> 'u \<Rightarrow> int option \<times> u32 \<times> 'u" where
  "tpp_prepare_socket bind_port family own_next u = prepare_tries bind_port family 64 own_next u"

text \<open>What the routing and neighbour tables say of the default route: interface, gateway and the gateway's hardware address.\<close>

definition tpp_network_fingerprint :: "(bytes \<times> bytes \<times> bytes option) option \<Rightarrow> u64" where
  "tpp_network_fingerprint route = (case route of
     None \<Rightarrow> NETFP_UNKNOWN
   | Some (luid, gw, mac) \<Rightarrow>
       let h = fnv1a (fnv1a 1469598103934665603 luid) gw;
           h = (case mac of None \<Rightarrow> h | Some m \<Rightarrow> fnv1a h m) in
       if h = NETFP_UNKNOWN then 1 else h)"

text \<open>The names of the running processes in the order of the snapshot.\<close>

fun tpp_conflict :: "string list \<Rightarrow> string option" where
  "tpp_conflict (exe # rest) =
     (if ieq exe ''goodbyedpi.exe'' then Some ''GoodbyeDPI is running''
      else if ieq exe ''winws.exe'' then Some ''zapret (winws) is running''
      else tpp_conflict rest)"
| "tpp_conflict [] = None"

section \<open>The table as a map\<close>

type_synonym win_flow_key = "ip_proto \<times> nat \<times> bytes \<times> u16 \<times> bytes \<times> u16"

definition win_key :: "ip_proto \<Rightarrow> nat \<Rightarrow> bytes \<Rightarrow> u16 \<Rightarrow> bytes \<Rightarrow> u16 \<Rightarrow> win_flow_key" where
  "win_key proto family lcl lport remote oport =
     (proto, family, take (addr_len family) lcl, lport, take (addr_len family) remote, oport)"

definition key_of :: "win_flow \<Rightarrow> win_flow_key" where
  "key_of f = win_key (fl_proto f) (fl_family f) (fl_local f) (fl_lport f) (fl_remote f) (fl_oport f)"

fun key_bucket :: "win_flow_key \<Rightarrow> nat" where
  "key_bucket (proto, family, lcl, lport, remote, oport) = bucket proto family remote lport oport"

definition flow_at :: "(nat \<Rightarrow> win_flow list) \<Rightarrow> win_flow_key \<Rightarrow> win_flow option" where
  "flow_at flows k = List.find (\<lambda>f. key_of f = k) (flows (key_bucket k))"

definition flows_inv :: "(nat \<Rightarrow> win_flow list) \<Rightarrow> bool" where
  "flows_inv flows \<longleftrightarrow> (\<forall>b. distinct (map key_of (flows b)) \<and> (\<forall>f \<in> set (flows b). key_bucket (key_of f) = b))"

lemma bucket_take [simp]: "bucket proto family (take (addr_len family) remote) lport oport = bucket proto family remote lport oport"
  by (simp add: bucket_def)

lemma key_bucket_win [simp]: "key_bucket (win_key proto family lcl lport remote oport) = bucket proto family remote lport oport"
  by (simp add: win_key_def)

lemma flow_is_key: "flow_is proto family (Some lcl) lport remote oport = (\<lambda>f. key_of f = win_key proto family lcl lport remote oport)"
  by (auto simp: flow_is_def key_of_def win_key_def fun_eq_iff)

lemma find_flow_at: "find_flow proto family (Some lcl) lport remote oport flows = flow_at flows (win_key proto family lcl lport remote oport)"
  by (simp add: find_flow_def flow_at_def flow_is_key)

lemma find_update_first:
  "(\<And>f. key_of (g f) = key_of f) \<Longrightarrow> List.find (\<lambda>f. key_of f = k') (update_first (\<lambda>f. key_of f = k) g fs) =
     (if k' = k then map_option g (List.find (\<lambda>f. key_of f = k') fs) else List.find (\<lambda>f. key_of f = k') fs)"
  by (induction fs) auto

lemma update_first_keys: "(\<And>f. key_of (g f) = key_of f) \<Longrightarrow> map key_of (update_first P g fs) = map key_of fs"
  by (induction fs) auto

lemma note_packet_key [simp]: "key_of (note_packet now c f) = key_of f"
  by (simp add: note_packet_def key_of_def)

lemma update_first_all:
  "(\<And>f. key_of (g f) = key_of f) \<Longrightarrow> (\<forall>f \<in> set (update_first P g fs). Q (key_of f)) \<longleftrightarrow> (\<forall>f \<in> set fs. Q (key_of f))"
  by (induction fs) auto

lemma store_flow_at:
  assumes "\<And>f. key_of (g f) = key_of f"
  shows "flow_at (store_flow proto family lcl lport remote oport g flows) k =
    (if k = win_key proto family lcl lport remote oport then map_option g (flow_at flows k) else flow_at flows k)"
  using assms by (auto simp: flow_at_def store_flow_def Let_def flow_is_key find_update_first)

lemma store_flow_inv:
  assumes "flows_inv flows" "\<And>f. key_of (g f) = key_of f"
  shows "flows_inv (store_flow proto family lcl lport remote oport g flows)"
  using assms(1) unfolding flows_inv_def store_flow_def Let_def by (auto simp: update_first_keys [OF assms(2)] update_first_all [OF assms(2), where Q = "\<lambda>k. key_bucket k = _"])

lemma flow_at_None: "flow_at flows k = None \<Longrightarrow> k \<notin> set (map key_of (flows (key_bucket k)))"
  by (auto simp: flow_at_def find_None_iff)

lemma add_flow_at:
  assumes "flow_at flows (win_key proto family lcl lport remote oport) = None"
  shows "flow_at (add_flow calloc_ok proto family lcl lport remote oport now flows) k =
    (if calloc_ok \<and> k = win_key proto family lcl lport remote oport then
       Some \<lparr>fl_proto = proto, fl_family = family, fl_local = take (addr_len family) lcl, fl_lport = lport,
          fl_remote = take (addr_len family) remote, fl_oport = oport, fl_closing = False, fl_last = now\<rparr>
     else flow_at flows k)"
  using assms by (auto simp: add_flow_def Let_def find_flow_at flow_at_def key_of_def win_key_def)

lemma add_flow_inv:
  assumes "flows_inv flows" "flow_at flows (win_key proto family lcl lport remote oport) = None"
  shows "flows_inv (add_flow calloc_ok proto family lcl lport remote oport now flows)"
  using assms flow_at_None [OF assms(2)]
  by (auto simp: add_flow_def Let_def find_flow_at flows_inv_def key_of_def win_key_def)

lemma find_filter_distinct:
  "distinct (map key_of fs) \<Longrightarrow> List.find (\<lambda>f. key_of f = k) (filter P fs) =
     (case List.find (\<lambda>f. key_of f = k) fs of None \<Rightarrow> None | Some f \<Rightarrow> if P f then Some f else None)"
proof (induction fs)
  case (Cons f fs)
  show ?case
  proof (cases "key_of f = k")
    case True
    then have "List.find (\<lambda>f. key_of f = k) fs = None" using Cons.prems by (auto simp: find_None_iff image_iff)
    then show ?thesis using Cons True by auto
  next
    case False
    then show ?thesis using Cons by auto
  qed
qed simp

lemma sweep_flow_at:
  assumes "flows_inv (r_flows r)"
  shows "flow_at (r_flows (sweep_flows now r)) k =
    (case flow_at (r_flows r) k of None \<Rightarrow> None | Some f \<Rightarrow> if now - fl_last f \<le> flow_limit f then Some f else None)"
  using find_filter_distinct [of "r_flows r (key_bucket k)" k] assms
  by (auto simp: flow_at_def sweep_flows_def flows_inv_def not_less cong: option.case_cong)

lemma sweep_inv: "flows_inv (r_flows r) \<Longrightarrow> flows_inv (r_flows (sweep_flows now r))"
  by (auto simp: flows_inv_def sweep_flows_def distinct_map_filter)

section \<open>What happens to a packet\<close>

text \<open>The packets that are reflected when their flow is known or can be entered, and the key of that flow.\<close>

definition intercepted :: "reflector \<Rightarrow> pkt \<Rightarrow> bool" where
  "intercepted r p \<longleftrightarrow> (case pkt_ports p of None \<Rightarrow> False | Some (sport, dport) \<Rightarrow>
     reply_svc r (pkt_proto p) sport = 0 \<and> \<not> (p_udp p \<noteq> None \<and> uint (ntohs dport) = 443) \<and> \<not> own_port sport \<and>
     \<not> left_alone r p (uint (ntohs dport)))"

definition pkt_key :: "pkt \<Rightarrow> win_flow_key" where
  "pkt_key p = (case pkt_ports p of None \<Rightarrow> undefined | Some (sport, dport) \<Rightarrow>
     win_key (pkt_proto p) (p_family p) (p_src p) sport (p_dst p) (ntohs dport))"

definition reply_key :: "reflector \<Rightarrow> pkt \<Rightarrow> win_flow_key" where
  "reply_key r p = (case pkt_ports p of None \<Rightarrow> undefined | Some (sport, dport) \<Rightarrow>
     win_key (pkt_proto p) (p_family p) (p_src p) dport (p_dst p) (of_int (reply_svc r (pkt_proto p) sport)))"

definition is_reply :: "reflector \<Rightarrow> pkt \<Rightarrow> bool" where
  "is_reply r p \<longleftrightarrow> (case pkt_ports p of None \<Rightarrow> False | Some (sport, dport) \<Rightarrow> reply_svc r (pkt_proto p) sport \<noteq> 0)"

definition refused_quic :: "reflector \<Rightarrow> pkt \<Rightarrow> int \<Rightarrow> bool" where
  "refused_quic r p now \<longleftrightarrow> (\<exists>u. p_udp p = Some u) \<and> (\<exists>sport dport. pkt_ports p = Some (sport, dport) \<and> ntohs dport = 443) \<and>
     p_payload p \<noteq> [] \<and> hd (p_payload p) \<ge> 0xC0 \<and> quic_blocked (r_quic r) (p_family p) (p_dst p) now"

definition to_listener :: "reflector \<Rightarrow> pkt \<Rightarrow> pkt" where
  "to_listener r p = set_dport (htons (of_int (if pkt_proto p = IPPROTO_TCP \<and> snd (snd (snd (snd (snd (pkt_key p))))) = 443
     then r_port r else r_dns_port r))) (swap_addrs p)"

definition to_application :: "reflector \<Rightarrow> pkt \<Rightarrow> pkt" where
  "to_application r p = set_sport (htons (snd (snd (snd (snd (snd (reply_key r p))))))) (swap_addrs p)"

text \<open>The three things that happen to a packet: it goes on unchanged (or is a refused QUIC packet), it is an
  answer of a listener, or it is reflected.\<close>

inductive handled_as :: "bool \<Rightarrow> pkt \<Rightarrow> bool \<Rightarrow> int \<Rightarrow> reflector \<Rightarrow> bool \<times> pkt \<times> bool \<times> reflector \<Rightarrow> bool" for calloc_ok p outbound now r where
  unchanged: "is_reply r p \<and> flow_at (r_flows r) (reply_key r p) = None \<or>
      \<not> is_reply r p \<and> (\<not> intercepted r p \<or> flow_at (r_flows r) (pkt_key p) = None \<and> \<not> (calloc_ok \<and> pkt_opens p)) \<Longrightarrow>
    snt = (is_reply r p \<or> \<not> refused_quic r p now) \<Longrightarrow> handled_as calloc_ok p outbound now r (snt, p, outbound, r)"
| answer: "is_reply r p \<Longrightarrow> flow_at (r_flows r) (reply_key r p) = Some f \<Longrightarrow>
    flows_inv (r_flows r) \<longrightarrow> flows_inv flows \<Longrightarrow>
    (\<And>k. flow_at flows k = (if k = reply_key r p then Some (note_packet now (pkt_closes p) f) else flow_at (r_flows r) k)) \<Longrightarrow>
    handled_as calloc_ok p outbound now r (True, to_application r p, False, r\<lparr>r_flows := flows\<rparr>)"
| reflected: "\<not> is_reply r p \<Longrightarrow> intercepted r p \<Longrightarrow> flow_at (r_flows r) (pkt_key p) = Some f \<or>
      flow_at (r_flows r) (pkt_key p) = None \<and> calloc_ok \<and> pkt_opens p \<and> key_of f = pkt_key p \<and> \<not> fl_closing f \<Longrightarrow>
    flows_inv (r_flows r) \<longrightarrow> flows_inv flows \<Longrightarrow>
    (\<And>k. flow_at flows k = (if k = pkt_key p then Some (note_packet now (pkt_closes p) f) else flow_at (r_flows r) k)) \<Longrightarrow>
    handled_as calloc_ok p outbound now r (True, to_listener r p, False, r\<lparr>r_flows := flows\<rparr>)"

lemma svc_443 [simp]: "uint (x :: u16) = 443 \<longleftrightarrow> x = 443"
  using word_uint_eq_iff [of x 443] by simp

lemma handle_total: "pkt_ports p \<noteq> None \<Longrightarrow> \<exists>x. handle calloc_ok p outbound now r = Some x"
  unfolding handle_def Let_def by (auto split: prod.split)

lemma reply_handled:
  assumes ports: "pkt_ports p = Some (sport, dport)" and svc: "reply_svc r (pkt_proto p) sport \<noteq> 0"
    and h: "handle calloc_ok p outbound now r = Some x"
  shows "handled_as calloc_ok p outbound now r x"
proof -
  have rep: "is_reply r p" using ports svc by (simp add: is_reply_def)
  have key: "reply_key r p = win_key (pkt_proto p) (p_family p) (p_src p) dport (p_dst p) (of_int (reply_svc r (pkt_proto p) sport))"
    using ports by (simp add: reply_key_def)
  show ?thesis
  proof (cases "flow_at (r_flows r) (reply_key r p)")
    case None
    then have "x = (True, p, outbound, r)" using h ports svc by (simp add: handle_def find_flow_at key)
    then show ?thesis using handled_as.unchanged [of r p calloc_ok True now outbound] rep None by simp
  next
    case (Some f)
    let ?flows = "store_flow (pkt_proto p) (p_family p) (p_src p) dport (p_dst p) (of_int (reply_svc r (pkt_proto p) sport)) (note_packet now (pkt_closes p)) (r_flows r)"
    have "x = (True, to_application r p, False, r\<lparr>r_flows := ?flows\<rparr>)"
      using h ports svc Some by (simp add: handle_def find_flow_at key to_application_def win_key_def Let_def)
    then show ?thesis using handled_as.answer [OF rep Some, of ?flows now] Some
      by (auto simp: store_flow_inv store_flow_at key)
  qed
qed

lemma intercepted_handled:
  assumes ports: "pkt_ports p = Some (sport, dport)" and int: "intercepted r p" and norep: "\<not> is_reply r p"
    and h: "handle calloc_ok p outbound now r = Some x"
  shows "handled_as calloc_ok p outbound now r x"
proof -
  note c = ports int [unfolded intercepted_def ports option.case prod.case]
  let ?add = "add_flow calloc_ok (pkt_proto p) (p_family p) (p_src p) sport (p_dst p) (ntohs dport) now"
  let ?note = "store_flow (pkt_proto p) (p_family p) (p_src p) sport (p_dst p) (ntohs dport) (note_packet now (pkt_closes p))"
  have key: "pkt_key p = win_key (pkt_proto p) (p_family p) (p_src p) sport (p_dst p) (ntohs dport)"
    using ports by (simp add: pkt_key_def)
  have out: "to_listener r p = set_dport (htons (of_int (if ntohs dport = 443 \<and> pkt_proto p = IPPROTO_TCP then r_port r else r_dns_port r))) (swap_addrs p)"
    by (auto simp: to_listener_def key win_key_def)
  define flows where "flows = (if flow_at (r_flows r) (pkt_key p) = None \<and> pkt_opens p then ?add (r_flows r) else r_flows r)"
  have x: "x = (if flow_at flows (pkt_key p) = None then (True, p, outbound, r\<lparr>r_flows := flows\<rparr>)
      else (True, to_listener r p, False, r\<lparr>r_flows := ?note flows\<rparr>))"
    using h c unfolding out by (auto simp: handle_def find_flow_at key [symmetric] flows_def Let_def split: if_splits)
  have noq: "\<not> refused_quic r p now" using c by (auto simp: refused_quic_def)
  show ?thesis
  proof (cases "flow_at flows (pkt_key p)")
    case None
    then have n: "flow_at (r_flows r) (pkt_key p) = None" "\<not> (calloc_ok \<and> pkt_opens p)"
      using add_flow_at [where k = "pkt_key p"] by (auto simp: flows_def key split: if_splits)
    then have "flows = r_flows r" by (auto simp: flows_def add_flow_def find_flow_at key)
    then show ?thesis using handled_as.unchanged [of r p calloc_ok True now outbound] x n norep noq None by simp
  next
    case (Some f)
    have inv: "flows_inv (r_flows r) \<longrightarrow> flows_inv (?note flows)"
      by (auto simp: flows_def key intro!: store_flow_inv add_flow_inv)
    have at: "flow_at (?note flows) k = (if k = pkt_key p then Some (note_packet now (pkt_closes p) f) else flow_at (r_flows r) k)" for k
      using Some by (auto simp: store_flow_at key flows_def add_flow_at split: if_splits)
    have f: "flow_at (r_flows r) (pkt_key p) = Some f \<or>
        flow_at (r_flows r) (pkt_key p) = None \<and> calloc_ok \<and> pkt_opens p \<and> key_of f = pkt_key p \<and> \<not> fl_closing f"
      using Some by (auto simp: flows_def key add_flow_at key_of_def win_key_def split: if_splits)
    show ?thesis unfolding x using Some handled_as.reflected [OF norep int f inv at] by simp
  qed
qed

lemma handle_handled:
  assumes "handle calloc_ok p outbound now r = Some x"
  shows "handled_as calloc_ok p outbound now r x"
proof (cases "pkt_ports p")
  case None
  then show ?thesis using assms by (simp add: handle_def)
next
  case (Some ports)
  then obtain sport dport where ports: "pkt_ports p = Some (sport, dport)" by (cases ports) auto
  show ?thesis
  proof (cases "is_reply r p \<or> intercepted r p")
    case True
    then show ?thesis using reply_handled [OF ports _ assms] intercepted_handled [OF ports _ _ assms] ports by (auto simp: is_reply_def)
  next
    case False
    then have "x = (\<not> refused_quic r p now, p, outbound, r)"
      using assms ports by (auto simp: handle_def is_reply_def intercepted_def refused_quic_def Let_def split: if_splits)
    then show ?thesis using handled_as.unchanged [of r p calloc_ok _ now outbound] False by simp
  qed
qed

section \<open>Histories\<close>

text \<open>The operations of the worker threads, the heartbeat and the daemon at a time \<open>now\<close>, with the packets handled since
  interception was last installed, and the operations that start afresh.\<close>

inductive win_step :: "int \<Rightarrow> reflector \<times> pkt list \<Rightarrow> reflector \<times> pkt list \<Rightarrow> bool" where
  step_packet: "handle calloc_ok p True now r = Some (snt, p', out', r') \<Longrightarrow> win_step now (r, h) (r', p # h)"
| step_refresh: "tpp_refresh active open_ok thread_ok now r = (0, r') \<Longrightarrow> win_step now (r, h) (r', h)"
| step_block: "win_step now (r, h) (tpp_quic_block now addrs r, h)"
| step_flush: "win_step now (r, h) (tpp_quic_flush r, h)"

inductive win_restart :: "reflector \<times> pkt list \<Rightarrow> reflector \<times> pkt list \<Rightarrow> bool" where
  restart_install: "tpp_install open_ok thread_ok port inet_six dns_port r = (ok, r') \<Longrightarrow> win_restart (r, h) (r', [])"
| restart_refresh: "tpp_refresh active open_ok thread_ok now r = (rc, r') \<Longrightarrow> rc \<noteq> 0 \<Longrightarrow> win_restart (r, h) (r', [])"
| restart_remove: "win_restart (r, h) (tpp_remove r, [])"

definition win_run :: "reflector \<times> pkt list \<Rightarrow> reflector \<times> pkt list \<Rightarrow> bool" where
  "win_run = (\<lambda>s s'. (\<exists>now. win_step now s s') \<or> win_restart s s')\<^sup>*\<^sup>*"

definition win_within :: "int \<Rightarrow> int \<Rightarrow> reflector \<times> pkt list \<Rightarrow> reflector \<times> pkt list \<Rightarrow> bool" where
  "win_within lo hi = (\<lambda>s s'. \<exists>now. lo \<le> now \<and> now \<le> hi \<and> win_step now s s')\<^sup>*\<^sup>*"

definition reflector0 :: reflector where
  "reflector0 = \<lparr>r_port = 0, r_dns_port = 0, r_ipv6 = False, r_flows = (\<lambda>b. []), r_quic = [], r_div = False, r_thread = False\<rparr>"

text \<open>What decides whether a packet is intercepted does not change while packets are handled.\<close>

definition same_config :: "reflector \<Rightarrow> reflector \<Rightarrow> bool" where
  "same_config r r' \<longleftrightarrow> r_port r' = r_port r \<and> r_dns_port r' = r_dns_port r \<and> r_ipv6 r' = r_ipv6 r"

definition win_inv :: "reflector \<times> pkt list \<Rightarrow> bool" where
  "win_inv s \<longleftrightarrow> flows_inv (r_flows (fst s)) \<and> (\<forall>k f. flow_at (r_flows (fst s)) k = Some f \<longrightarrow>
     (\<exists>p \<in> set (snd s). intercepted (fst s) p \<and> pkt_opens p \<and> pkt_key p = k))"

lemma intercepted_cong: "same_config r r' \<Longrightarrow> intercepted r' p = intercepted r p"
  by (simp add: intercepted_def same_config_def reply_svc_def left_alone_def split: option.split)

lemma flow_at_empty [simp]: "flow_at (\<lambda>b. []) k = None"
  by (simp add: flow_at_def)

lemma win_inv_empty: "r_flows r = (\<lambda>b. []) \<Longrightarrow> win_inv (r, h)"
  by (simp add: win_inv_def flows_inv_def)

lemma refresh_cases:
  assumes "tpp_refresh active open_ok thread_ok now r = (rc, r')"
  obtains "rc = 0" "r' = sweep_flows now r" | "rc \<noteq> 0" "r_flows r' = (\<lambda>b. [])"
  using assms by (auto simp: tpp_refresh_def tpp_install_def tpp_remove_def free_flows_def Let_def split: if_splits)

lemma step_config: "win_step now (r, h) (r', h') \<Longrightarrow> same_config r r' \<and> set h \<subseteq> set h'"
proof (induction now "(r, h)" "(r', h')" rule: win_step.induct)
  case (step_packet calloc_ok p now snt p' out')
  from handle_handled [OF step_packet(1)] show ?case using step_packet(2) by cases (auto simp: same_config_def)
next
  case (step_refresh active open_ok thread_ok now)
  then show ?case by (auto simp: same_config_def sweep_flows_def elim!: refresh_cases)
qed (auto simp: same_config_def tpp_quic_block_def tpp_quic_flush_def)

text \<open>What an operation does to the table: entries appear only for an intercepted packet that opens a flow, and an entry
  disappears only when it was idle for too long.\<close>

lemma step_flows:
  assumes "win_step now (r, h) (r', h')" "flows_inv (r_flows r)"
  shows "flows_inv (r_flows r')"
    "flow_at (r_flows r') k = Some f' \<Longrightarrow> flow_at (r_flows r) k \<noteq> None \<or> (\<exists>p \<in> set h'. intercepted r p \<and> pkt_opens p \<and> pkt_key p = k)"
    "flow_at (r_flows r) k = Some f \<Longrightarrow> (\<exists>f'. flow_at (r_flows r') k = Some f' \<and> (fl_last f' = fl_last f \<or> fl_last f' = now)) \<or>
       flow_limit f < now - fl_last f"
  using assms
proof (induction now "(r, h)" "(r', h')" rule: win_step.induct)
  case (step_packet calloc_ok p now snt p' out')
  from handle_handled [OF step_packet(1)] have ha: "handled_as calloc_ok p True now r (snt, p', out', r')" .
  { case 1 show ?case using ha 1 by cases auto }
  { case 2 show ?case using ha 2 step_packet by cases (auto split: if_splits) }
  { case 3 show ?case using ha 3 by cases (auto simp: note_packet_def) }
next
  case (step_refresh active open_ok thread_ok now)
  then have r': "r' = sweep_flows now r" by (auto elim: refresh_cases)
  { case 1 then show ?case by (simp add: r' sweep_inv) }
  { case 2 then show ?case by (auto simp: r' sweep_flow_at split: option.splits if_splits) }
  { case 3 then show ?case by (auto simp: r' sweep_flow_at) }
qed (auto simp: tpp_quic_block_def tpp_quic_flush_def)

lemma win_step_inv:
  assumes "win_step now s s'" "win_inv s"
  shows "win_inv s'"
proof -
  obtain r h r' h' where s: "s = (r, h)" "s' = (r', h')" by (cases s; cases s') auto
  have st: "win_step now (r, h) (r', h')" and inv: "flows_inv (r_flows r)" using assms by (auto simp: s win_inv_def)
  note cfg = step_config [OF st]
  have cong: "intercepted r' p = intercepted r p" for p using cfg intercepted_cong by blast
  have old: "\<exists>p \<in> set h. intercepted r p \<and> pkt_opens p \<and> pkt_key p = k" if "flow_at (r_flows r) k \<noteq> None" for k
    using assms(2) that unfolding win_inv_def s fst_conv snd_conv not_None_eq by blast
  have "\<exists>p \<in> set h'. intercepted r' p \<and> pkt_opens p \<and> pkt_key p = k" if "flow_at (r_flows r') k = Some f" for k f
    using step_flows(2) [OF st inv that] old [of k] cfg unfolding cong by blast
  then show ?thesis using step_flows(1) [OF st inv] by (simp add: win_inv_def s)
qed

lemma win_restart_inv: "win_restart s s' \<Longrightarrow> win_inv s'"
  by (induction rule: win_restart.induct)
    (auto intro!: win_inv_empty elim!: refresh_cases
      simp: tpp_remove_def free_flows_def tpp_install_def Let_def split: if_splits)

lemma win_run_inv: "win_run s s' \<Longrightarrow> win_inv s \<Longrightarrow> win_inv s'"
  unfolding win_run_def by (induction rule: rtranclp_induct) (auto intro: win_step_inv win_restart_inv)

lemma reflector0_inv: "win_inv (reflector0, [])"
  by (simp add: reflector0_def win_inv_empty)

lemma flow_limit_min: "FLOW_TCP_CLOSING_MS \<le> flow_limit f"
  by (simp add: flow_limit_def FLOW_TCP_CLOSING_MS_def FLOW_TCP_IDLE_MS_def FLOW_UDP_IDLE_MS_def)

lemma win_within_keeps:
  assumes "win_within t (t + FLOW_TCP_CLOSING_MS) s s'" "win_inv s" "flow_at (r_flows (fst s)) k = Some f" "t \<le> fl_last f"
  shows "win_inv s' \<and> same_config (fst s) (fst s') \<and> (\<exists>f'. flow_at (r_flows (fst s')) k = Some f' \<and> t \<le> fl_last f')"
  using assms(1) unfolding win_within_def
proof (induction rule: rtranclp_induct)
  case base
  then show ?case using assms(2-4) by (auto simp: same_config_def)
next
  case (step s1 s2)
  then obtain f1 now where f1: "flow_at (r_flows (fst s1)) k = Some f1" "t \<le> fl_last f1"
    and now: "t \<le> now" "now \<le> t + FLOW_TCP_CLOSING_MS" and st: "win_step now (fst s1, snd s1) (fst s2, snd s2)"
    and s1: "win_inv s1" "same_config (fst s) (fst s1)" by auto
  have "\<not> flow_limit f1 < now - fl_last f1" using flow_limit_min [of f1] now f1(2) by simp
  then have "\<exists>f'. flow_at (r_flows (fst s2)) k = Some f' \<and> t \<le> fl_last f'"
    using step_flows(3) [OF st _ f1(1)] s1 f1(2) now by (auto simp: win_inv_def)
  moreover have "win_inv s2" using win_step_inv [OF st] s1 by simp
  moreover have "same_config (fst s) (fst s2)" using step_config [OF st] s1 by (simp add: same_config_def)
  ultimately show ?case by simp
qed

section \<open>A reflected connection\<close>

lemma ntohs_ntohs [simp]: "ntohs (ntohs v) = v"
  by (rule bit_word_eqI) (auto simp: ntohs_def bit_simps)

lemma uint_of_port: "0 \<le> port \<Longrightarrow> port < 65536 \<Longrightarrow> uint (of_int port :: u16) = port"
  by (simp add: uint_word_of_int)

text \<open>An application's packet to port 443, and the answer of the listener to it.\<close>

definition syn_packet :: "af \<Rightarrow> bytes \<Rightarrow> u16 \<Rightarrow> bytes \<Rightarrow> bytes \<Rightarrow> pkt" where
  "syn_packet fam lcl lport remote payload =
     \<lparr>p_family = (if fam = AF_INET6 then 6 else 4), p_src = lcl, p_dst = remote,
      p_tcp = Some \<lparr>th_src = htons lport, th_dst = htons 443, th_syn = True, th_ack = False, th_fin = False, th_rst = False\<rparr>,
      p_udp = None, p_payload = payload\<rparr>"

definition listener_packet :: "int \<Rightarrow> af \<Rightarrow> bytes \<Rightarrow> u16 \<Rightarrow> bytes \<Rightarrow> tcphdr \<Rightarrow> bytes \<Rightarrow> pkt" where
  "listener_packet port fam lcl lport remote flags payload =
     \<lparr>p_family = (if fam = AF_INET6 then 6 else 4), p_src = lcl, p_dst = remote,
      p_tcp = Some (flags\<lparr>th_src := htons (of_int port), th_dst := htons lport\<rparr>), p_udp = None, p_payload = payload\<rparr>"

definition fam_addr_ok :: "af \<Rightarrow> bytes \<Rightarrow> bool" where
  "fam_addr_ok fam a \<longleftrightarrow> length a = (if fam = AF_INET6 then 16 else 4)"

lemma syn_key: "fam_addr_ok fam lcl \<Longrightarrow> fam_addr_ok fam remote \<Longrightarrow> pkt_key (syn_packet fam lcl lport remote payload) =
    (IPPROTO_TCP, if fam = AF_INET6 then 6 else 4, lcl, htons lport, remote, 443)"
  by (simp add: pkt_key_def syn_packet_def pkt_ports_def pkt_proto_def win_key_def addr_len_def fam_addr_ok_def)

lemma reflect_syn:
  assumes int: "intercepted r (syn_packet fam lcl lport remote payload)" and ok: "fam_addr_ok fam lcl" "fam_addr_ok fam remote"
  shows "\<exists>r'. handle True (syn_packet fam lcl lport remote payload) True now r =
      Some (True, (syn_packet fam remote lport lcl payload)\<lparr>p_tcp := Some \<lparr>th_src = htons lport, th_dst = htons (of_int (r_port r)),
         th_syn = True, th_ack = False, th_fin = False, th_rst = False\<rparr>\<rparr>, False, r') \<and>
    same_config r r' \<and> (\<exists>f. flow_at (r_flows r') (IPPROTO_TCP, if fam = AF_INET6 then 6 else 4, lcl, htons lport, remote, 443) = Some f \<and> fl_last f = now)"
proof -
  let ?p = "syn_packet fam lcl lport remote payload"
  have "pkt_ports ?p \<noteq> None" by (simp add: syn_packet_def pkt_ports_def)
  then obtain x where x: "handle True ?p True now r = Some x" using handle_total by blast
  have norep: "\<not> is_reply r ?p" using int by (auto simp: intercepted_def is_reply_def split: option.splits)
  have out: "to_listener r ?p = (syn_packet fam remote lport lcl payload)\<lparr>p_tcp := Some \<lparr>th_src = htons lport, th_dst = htons (of_int (r_port r)),
      th_syn = True, th_ack = False, th_fin = False, th_rst = False\<rparr>\<rparr>"
    unfolding to_listener_def syn_key [OF ok] by (simp add: syn_packet_def pkt_proto_def set_dport_def swap_addrs_def)
  have op: "pkt_opens ?p" by (simp add: syn_packet_def pkt_opens_def)
  from handle_handled [OF x] show ?thesis
  proof cases
    case (reflected f flows)
    then show ?thesis using x out syn_key [OF ok] by (auto simp: same_config_def note_packet_def)
  qed (use norep int op in auto)
qed

lemma answer_listener:
  assumes port: "0 < r_port r" "r_port r < 65536" and ok: "fam_addr_ok fam lcl" "fam_addr_ok fam remote"
    and known: "flow_at (r_flows r) (IPPROTO_TCP, if fam = AF_INET6 then 6 else 4, lcl, htons lport, remote, 443) \<noteq> None"
  shows "\<exists>r'. handle calloc_ok (listener_packet (r_port r) fam lcl lport remote flags payload) True now r =
      Some (True, (listener_packet (r_port r) fam remote lport lcl flags payload)\<lparr>p_tcp := Some (flags\<lparr>th_src := htons 443, th_dst := htons lport\<rparr>)\<rparr>, False, r')"
proof -
  let ?q = "listener_packet (r_port r) fam lcl lport remote flags payload"
  have ports: "pkt_ports ?q = Some (htons (of_int (r_port r)), htons lport)" "pkt_proto ?q = IPPROTO_TCP"
    by (simp_all add: listener_packet_def pkt_ports_def pkt_proto_def)
  have svc: "reply_svc r IPPROTO_TCP (htons (of_int (r_port r))) = 443" using port by (simp add: reply_svc_def uint_of_port)
  have rep: "is_reply r ?q" by (simp add: is_reply_def ports svc)
  have key: "reply_key r ?q = (IPPROTO_TCP, if fam = AF_INET6 then 6 else 4, lcl, htons lport, remote, 443)"
    using ok by (simp add: reply_key_def ports svc) (simp add: listener_packet_def win_key_def addr_len_def fam_addr_ok_def)
  obtain x where x: "handle calloc_ok ?q True now r = Some x" using handle_total [of ?q] ports by blast
  have out: "to_application r ?q = (listener_packet (r_port r) fam remote lport lcl flags payload)\<lparr>p_tcp := Some (flags\<lparr>th_src := htons 443, th_dst := htons lport\<rparr>)\<rparr>"
    by (simp add: to_application_def key) (simp add: listener_packet_def set_sport_def swap_addrs_def)
  from handle_handled [OF x] show ?thesis
    by cases (use known key rep out x in auto)
qed

lemma original_of:
  assumes ok: "fam_addr_ok fam lcl" "fam_addr_ok fam remote"
    and known: "flow_at (r_flows r) (IPPROTO_TCP, if fam = AF_INET6 then 6 else 4, lcl, htons lport, remote, 443) \<noteq> None"
  shows "tpp_original_dst (Some \<lparr>sa_family = fam, sa_addr = remote, sa_port = lport\<rparr>) (Some \<lparr>sa_family = fam, sa_addr = lcl, sa_port = pt\<rparr>) r =
    Some \<lparr>sa_family = fam, sa_addr = remote, sa_port = 443\<rparr>"
  using assms by (cases fam) (auto simp: tpp_original_dst_def sock_addr_def find_flow_at win_key_def addr_len_def fam_addr_ok_def)


text \<open>A connection from 10.0.0.2 to 1.2.3.4.\<close>

definition demo_reflector :: reflector where
  "demo_reflector = snd (tpp_install True True 1091 False 0 reflector0)"

lemma demo_reflector_facts: "win_run (reflector0, []) (demo_reflector, [])" "r_port demo_reflector = 1091"
    "intercepted demo_reflector (syn_packet AF_INET [10, 0, 0, 2] 50000 [1, 2, 3, 4] [])"
proof -
  have "win_restart (reflector0, []) (demo_reflector, [])"
    by (rule restart_install [where open_ok = True and thread_ok = True and port = 1091 and inet_six = False and dns_port = 0])
      (simp add: demo_reflector_def tpp_install_def Let_def)
  then show "win_run (reflector0, []) (demo_reflector, [])" unfolding win_run_def by (intro r_into_rtranclp) simp
  show "r_port demo_reflector = 1091" by (simp add: demo_reflector_def tpp_install_def Let_def)
  have "own_port (htons 50000) = False" "ntohs (ntohs 50000) = 50000" by (simp_all add: own_port_def OWN_PORT_HI_def OWN_PORT_LO_def)
  then show "intercepted demo_reflector (syn_packet AF_INET [10, 0, 0, 2] 50000 [1, 2, 3, 4] [])"
    by (simp add: intercepted_def syn_packet_def pkt_ports_def reply_svc_def pkt_proto_def left_alone_def private_v4_def
      demo_reflector_def tpp_install_def tpp_remove_def free_flows_def stop_workers_def reflector0_def Let_def word_le_nat_alt)
qed


text \<open>The listener takes a connection only when its opening packet was reflected since interception was installed: a
  TCP SYN of this machine to port 443 of the very address the connection claims to come from, which is not a private one,
  and not from the ports of the daemon's own sockets. Anyone else who connects to the listener is refused.\<close>

theorem only_reflected_accepted:
  assumes run: "win_run (reflector0, []) (r, h)" and dst: "tpp_original_dst (Some peer) (Some self) r = Some dst"
    and ok: "fam_addr_ok (sa_family self) (sa_addr peer)" "fam_addr_ok (sa_family self) (sa_addr self)"
  shows "dst = \<lparr>sa_family = sa_family self, sa_addr = sa_addr peer, sa_port = 443\<rparr> \<and>
    (\<exists>p \<in> set h. \<exists>t. p_tcp p = Some t \<and> th_syn t \<and> \<not> th_ack t \<and> ntohs (th_src t) = sa_port peer \<and> ntohs (th_dst t) = 443 \<and>
       take (length (sa_addr self)) (p_src p) = sa_addr self \<and> take (length (sa_addr peer)) (p_dst p) = sa_addr peer \<and>
       \<not> own_port (th_src t) \<and> (if sa_family self = AF_INET6 then \<not> private_v6 (p_dst p) else \<not> private_v4 (p_dst p)))"
proof -
  define fam where "fam = (if sa_family self = AF_INET6 then 6 else 4 :: nat)"
  have len: "length (sa_addr peer) = addr_len fam" "length (sa_addr self) = addr_len fam" using ok by (auto simp: fam_addr_ok_def fam_def addr_len_def)
  obtain f where f: "flow_at (r_flows r) (IPPROTO_TCP, fam, sa_addr self, htons (sa_port peer), sa_addr peer, 443) = Some f"
    and d: "dst = \<lparr>sa_family = sa_family self, sa_addr = sa_addr peer, sa_port = 443\<rparr>"
    using dst len by (cases "sa_family self") (auto simp: tpp_original_dst_def sock_addr_def find_flow_at win_key_def fam_def addr_len_def split: bind_splits)
  from win_run_inv [OF run reflector0_inv] f obtain p where p: "p \<in> set h" "intercepted r p" "pkt_opens p"
    "pkt_key p = (IPPROTO_TCP, fam, sa_addr self, htons (sa_port peer), sa_addr peer, 443)" unfolding win_inv_def fst_conv snd_conv by blast
  obtain t where t: "p_tcp p = Some t" using p(2,4)
    by (cases "p_tcp p") (auto simp: pkt_key_def pkt_proto_def win_key_def intercepted_def split: option.splits)
  have ports: "pkt_ports p = Some (th_src t, th_dst t)" "pkt_proto p = IPPROTO_TCP" by (simp_all add: pkt_ports_def pkt_proto_def t)
  have k: "p_family p = fam" "take (addr_len fam) (p_src p) = sa_addr self" "th_src t = htons (sa_port peer)"
    "take (addr_len fam) (p_dst p) = sa_addr peer" "ntohs (th_dst t) = 443" using p(4) by (auto simp: pkt_key_def ports win_key_def)
  have "\<not> own_port (th_src t)" "\<not> left_alone r p 443" using p(2) k(5) by (auto simp: intercepted_def ports)
  moreover have "th_syn t \<and> \<not> th_ack t" using p(3) by (simp add: pkt_opens_def t)
  ultimately show ?thesis using d p(1) t k len by (intro conjI bexI [of _ p] exI [of _ t]) (auto simp: left_alone_def ports fam_def)
qed

theorem only_reflected_accepted_witness:
  "\<exists>r' h. win_run (reflector0, []) (r', h) \<and>
    (\<exists>p \<in> set h. \<exists>t. p_tcp p = Some t \<and> th_syn t \<and> ntohs (th_src t) = 50000 \<and> \<not> private_v4 (p_dst p))"
proof -
  let ?p = "syn_packet AF_INET [10, 0, 0, 2] 50000 [1, 2, 3, 4] []"
  have ok: "fam_addr_ok AF_INET [10, 0, 0, 2]" "fam_addr_ok AF_INET [1, 2, 3, 4]" by (simp_all add: fam_addr_ok_def)
  obtain x r' f where r': "handle True ?p True 7 demo_reflector = Some (True, x, False, r')"
    "flow_at (r_flows r') (IPPROTO_TCP, 4, [10, 0, 0, 2], htons 50000, [1, 2, 3, 4], 443) = Some f"
    using reflect_syn [OF demo_reflector_facts(3) ok, of 7] by auto
  have run: "win_run (reflector0, []) (r', [?p])"
    using rtranclp.rtrancl_into_rtrancl [OF demo_reflector_facts(1) [unfolded win_run_def], of "(r', [?p])"] step_packet [OF r'(1), of "[]"]
    unfolding win_run_def by blast
  have d: "tpp_original_dst (Some \<lparr>sa_family = AF_INET, sa_addr = [1, 2, 3, 4], sa_port = 50000\<rparr>)
      (Some \<lparr>sa_family = AF_INET, sa_addr = [10, 0, 0, 2], sa_port = 1091\<rparr>) r' = Some \<lparr>sa_family = AF_INET, sa_addr = [1, 2, 3, 4], sa_port = 443\<rparr>"
    using original_of [OF ok, of r' 50000 1091] r'(2) by simp
  have "\<exists>p \<in> set [?p]. \<exists>t. p_tcp p = Some t \<and> th_syn t \<and> ntohs (th_src t) = 50000 \<and> \<not> private_v4 (p_dst p)"
    using only_reflected_accepted [OF run d] ok by auto
  then show ?thesis using run by blast
qed

text \<open>What may happen to a packet that was parsed. It is dropped only when it starts a QUIC handshake with an address whose
  block has not expired; or it goes out unchanged; or it comes back inbound with its addresses exchanged, as an answer of a
  listener to a known flow, or as the packet of an application that does not use the daemon's own ports, to a public address
  on port 443 or to port 53, which opens a flow or belongs to a known one.\<close>

definition packet_fate :: "reflector \<Rightarrow> pkt \<Rightarrow> int \<Rightarrow> sent option \<Rightarrow> reflector \<Rightarrow> bool" where
  "packet_fate r p now out r' \<longleftrightarrow>
     out = None \<and> r' = r \<and> refused_quic r p now \<or>
     out = Some (Sent_pkt p True) \<and> r' = r \<or>
     (\<exists>p' sport dport. out = Some (Sent_pkt p' False) \<and> pkt_ports p = Some (sport, dport) \<and>
        p_src p' = p_dst p \<and> p_dst p' = p_src p \<and> p_payload p' = p_payload p \<and>
        (is_reply r p \<and> flow_at (r_flows r) (reply_key r p) \<noteq> None \<or>
         \<not> own_port sport \<and> (ntohs dport = 443 \<and> \<not> (if p_family p = 6 then private_v6 (p_dst p) else p_family p = 4 \<and> private_v4 (p_dst p)) \<or> ntohs dport = 53) \<and>
         (pkt_opens p \<or> flow_at (r_flows r) (pkt_key p) \<noteq> None)))"

lemma uint16_53 [simp]: "uint (x :: u16) = 53 \<longleftrightarrow> x = 53"
  using word_uint_eq_iff [of x 53] by simp

lemma handled_fate:
  assumes "handled_as calloc_ok p True now r (snt, p', dir, r')" "pkt_ports p = Some (sport, dport)"
  shows "packet_fate r p now (if snt then Some (Sent_pkt p' dir) else None) r'"
  using assms(1)
proof cases
  case unchanged
  then show ?thesis by (auto simp: packet_fate_def)
next
  case (answer f flows)
  then show ?thesis using assms(2) by (auto simp: packet_fate_def to_application_def set_sport_def swap_addrs_def)
next
  case (reflected f flows)
  then have "\<not> own_port sport" "\<not> left_alone r p (uint (ntohs dport))" using assms(2) by (auto simp: intercepted_def)
  then have "\<not> own_port sport \<and> (ntohs dport = 443 \<and> \<not> (if p_family p = 6 then private_v6 (p_dst p) else p_family p = 4 \<and> private_v4 (p_dst p)) \<or> ntohs dport = 53)"
    by (auto simp: left_alone_def split: if_splits)
  then show ?thesis using reflected assms(2) by (auto simp: packet_fate_def to_listener_def set_dport_def swap_addrs_def)
qed


section \<open>The daemon's own sockets\<close>

lemma prepared_port:
  "prepare_tries bind_port family tries own_next u = (Some port, own_next', u') \<Longrightarrow> OWN_PORT_LO \<le> port \<and> port \<le> OWN_PORT_HI"
proof (induction tries arbitrary: own_next u)
  case (Suc tries)
  have "0 \<le> uint (own_next + 1) mod (OWN_PORT_HI - OWN_PORT_LO + 1)" "uint (own_next + 1) mod (OWN_PORT_HI - OWN_PORT_LO + 1) < OWN_PORT_HI - OWN_PORT_LO + 1"
    by (simp_all add: OWN_PORT_HI_def OWN_PORT_LO_def)
  then show ?case using Suc by (auto simp: Let_def split: prod.splits if_splits)
qed simp

text \<open>The daemon's own connections never come back to it: a packet to port 443 from a socket that
  \<open>tpp_prepare_socket\<close> has bound goes out unchanged, unless the listeners were put on those very ports.\<close>

theorem own_sockets_not_reflected:
  assumes prep: "tpp_prepare_socket bind_port family own_next u = (Some port, own_next', u')"
    and conf: "r_port r < OWN_PORT_LO" "r_dns_port r < OWN_PORT_LO"
    and tcp: "p_tcp p = Some t" "p_udp p = None" "th_src t = htons (of_int port)"
  shows "handle calloc_ok p outbound now r = Some (True, p, outbound, r)"
proof -
  have range: "OWN_PORT_LO \<le> port" "port \<le> OWN_PORT_HI" using prepared_port [OF prep [unfolded tpp_prepare_socket_def]] by auto
  then have "uint (ntohs (th_src t)) = port" using tcp(3) by (simp add: uint_of_port OWN_PORT_LO_def OWN_PORT_HI_def)
  then show ?thesis using tcp range conf
    by (simp add: handle_def pkt_ports_def reply_svc_def pkt_proto_def own_port_def)
qed

theorem own_sockets_not_reflected_witness:
  "handle True ((syn_packet AF_INET [10, 0, 0, 2] 1 [1, 2, 3, 4] [])\<lparr>p_tcp := Some \<lparr>th_src = htons 45006, th_dst = htons 443, th_syn = True, th_ack = False,
      th_fin = False, th_rst = False\<rparr>\<rparr>) True 7 demo_reflector =
    Some (True, (syn_packet AF_INET [10, 0, 0, 2] 1 [1, 2, 3, 4] [])\<lparr>p_tcp := Some \<lparr>th_src = htons 45006, th_dst = htons 443, th_syn = True, th_ack = False,
      th_fin = False, th_rst = False\<rparr>\<rparr>, True, demo_reflector)"
proof -
  have p: "tpp_prepare_socket (\<lambda>f port u. (True, u)) AF_INET 5 () = (Some 45006, 6, ())"
    using prepare_tries.simps(1) [of "\<lambda>f port u. (True, u)" AF_INET 63 5 "()"]
    by (simp add: tpp_prepare_socket_def OWN_PORT_LO_def OWN_PORT_HI_def Let_def)
  have c: "r_port demo_reflector < OWN_PORT_LO" "r_dns_port demo_reflector < OWN_PORT_LO"
    by (simp_all add: demo_reflector_def tpp_install_def Let_def OWN_PORT_LO_def)
  let ?t = "\<lparr>th_src = htons 45006, th_dst = htons 443, th_syn = True, th_ack = False, th_fin = False, th_rst = False\<rparr>"
  show ?thesis using own_sockets_not_reflected [OF p c, where p = "(syn_packet AF_INET [10, 0, 0, 2] 1 [1, 2, 3, 4] [])\<lparr>p_tcp := Some ?t\<rparr>" and t = ?t]
    by (simp add: syn_packet_def)
qed

section \<open>Blocked QUIC addresses\<close>

lemma quic_is_da: "quic_is fam a q \<Longrightarrow> quic_is fam' a' q \<Longrightarrow> fam' = fam \<and> quic_is fam' a' = quic_is fam a"
  by (auto simp: quic_is_def fun_eq_iff)

lemma quic_blockedI: "q \<in> set qs \<Longrightarrow> quic_is fam a q \<Longrightarrow> t < wq_until q \<Longrightarrow> quic_blocked qs fam a t"
  by (auto simp: quic_blocked_def list_ex_iff)

lemma quic_block_one_ok:
  fixes a :: dns_addr and now t :: int
  assumes "length qs < QUIC_MAX"
  defines "qs' \<equiv> quic_block_one now qs a"
  shows "length qs' \<le> Suc (length qs)"
    "t < now + TP_QUIC_BLOCK_TIMEOUT_S * 1000 \<Longrightarrow> quic_blocked qs' (da_family a) (da_addr a) t"
    "quic_blocked qs fam addr t \<Longrightarrow> t < now + TP_QUIC_BLOCK_TIMEOUT_S * 1000 \<Longrightarrow> quic_blocked qs' fam addr t"
proof -
  let ?e = "\<lparr>wq_family = da_family a, wq_addr = take (addr_len (da_family a)) (da_addr a), wq_until = now + TP_QUIC_BLOCK_TIMEOUT_S * 1000\<rparr>"
  have e: "quic_is (da_family a) (da_addr a) ?e" by (simp add: quic_is_def)
  have cs: "(\<exists>j < length qs. quic_is (da_family a) (da_addr a) (qs ! j) \<and> qs' = qs[j := ?e]) \<or> qs' = qs @ [?e]"
    using assms by (auto simp: qs'_def quic_block_one_def Let_def first_idx_Some split: option.split)
  show "length qs' \<le> Suc (length qs)" using cs by auto
  have mem: "?e \<in> set qs'" using cs by (auto intro: set_update_memI)
  then show "t < now + TP_QUIC_BLOCK_TIMEOUT_S * 1000 \<Longrightarrow> quic_blocked qs' (da_family a) (da_addr a) t"
    using quic_blockedI [OF mem e] by simp
  assume b: "quic_blocked qs fam addr t" and t: "t < now + TP_QUIC_BLOCK_TIMEOUT_S * 1000"
  then obtain i where i: "i < length qs" "quic_is fam addr (qs ! i)" "t < wq_until (qs ! i)"
    by (auto simp: quic_blocked_def list_ex_length)
  show "quic_blocked qs' fam addr t"
  proof (cases "qs ! i \<in> set qs'")
    case True
    then show ?thesis using i quic_blockedI by blast
  next
    case False
    then obtain j where j: "quic_is (da_family a) (da_addr a) (qs ! j)" "qs' = qs[j := ?e]" "j < length qs" using cs i by auto
    then have "j = i" using False i by (metis length_list_update nth_list_update_neq nth_mem)
    then have "quic_is fam addr ?e" using quic_is_da [of "da_family a" "da_addr a" "qs ! i" fam addr] j i e by metis
    then show ?thesis using quic_blockedI [OF mem _] t by simp
  qed
qed

lemma quic_block_all:
  "length qs + length addrs \<le> QUIC_MAX \<Longrightarrow> t < now + TP_QUIC_BLOCK_TIMEOUT_S * 1000 \<Longrightarrow>
   length (foldl (quic_block_one now) qs addrs) \<le> length qs + length addrs \<and>
   (\<forall>fam addr. quic_blocked qs fam addr t \<longrightarrow> quic_blocked (foldl (quic_block_one now) qs addrs) fam addr t) \<and>
   (\<forall>a \<in> set addrs. quic_blocked (foldl (quic_block_one now) qs addrs) (da_family a) (da_addr a) t)"
proof (induction addrs arbitrary: qs)
  case (Cons a addrs)
  have room: "length qs < QUIC_MAX" using Cons.prems by simp
  note one = quic_block_one_ok [OF room, where now = now and a = a]
  have "length (quic_block_one now qs a) + length addrs \<le> QUIC_MAX" using one(1) Cons.prems by simp
  then show ?case using Cons.IH [of "quic_block_one now qs a"] one Cons.prems by auto
qed simp

end
