(* ===== verification/Rules.thy ===== *)
theory Rules
  imports Reflect
begin

text \<open>
  The text the program hands to the packet filters: the nftables table of transparent mode (end of
  \<open>src/transparent/policy.c\<close>), that of packet mode (\<open>src/nfqueue/nft_rules.c\<close>), and the PF anchor of macOS
  (\<open>src/transparent/pf_rules.c\<close>); and the Linux layer that feeds them to \<open>nft\<close>
  (\<open>src/transparent/platform_linux.c\<close>). A generator gives \<^const>\<open>None\<close> where the C function returns 0.
\<close>

section \<open>Formatting\<close>

definition snprintf :: "nat \<Rightarrow> string \<Rightarrow> string option" where
  "snprintf out_size s = (if length s < out_size then Some s else None)"

definition script :: "string list \<Rightarrow> string" where
  "script ls = concat (map (\<lambda>l. l @ [CHR 0x0A]) ls)"

definition indent :: "nat \<Rightarrow> string \<Rightarrow> string" where
  "indent n s = replicate n (CHR 0x09) @ s"

text \<open>The IPv4 networks that are never intercepted, as the rules print them.\<close>

definition local4 :: "(bytes \<times> nat) list" where
  "local4 = [([0, 0, 0, 0], 8), ([10, 0, 0, 0], 8), ([100, 64, 0, 0], 10), ([127, 0, 0, 0], 8),
     ([169, 254, 0, 0], 16), ([172, 16, 0, 0], 12), ([192, 168, 0, 0], 16), ([224, 0, 0, 0], 3)]"

fun joined :: "string \<Rightarrow> string list \<Rightarrow> string" where
  "joined sep [] = []"
| "joined sep [s] = s"
| "joined sep (s # ss) = s @ sep @ joined sep ss"

definition print_quad :: "bytes \<Rightarrow> string" where
  "print_quad a = joined ''.'' (map (\<lambda>b. dec_nat (unat b)) a)"

definition print_net4 :: "bytes \<times> nat \<Rightarrow> string" where
  "print_net4 n = print_quad (fst n) @ ''/'' @ dec_nat (snd n)"

definition local4_text :: string where
  "local4_text = joined '', '' (map print_net4 local4)"

section \<open>nftables\<close>

definition TP_NFT_TABLE :: string where "TP_NFT_TABLE = ''dpi_proxy_tp''"
definition TP_ALIVE_TIMEOUT_S :: int where "TP_ALIVE_TIMEOUT_S = 30"
definition TP_HEARTBEAT_S :: int where "TP_HEARTBEAT_S = 10"

definition dns_rules :: "int \<Rightarrow> string option" where
  "dns_rules dns_port =
     (if dns_port > 0 then snprintf 256 (script
        [indent 2 (''udp dport @alive_dns counter redirect to :'' @ print_lld dns_port),
         indent 2 (''tcp dport @alive_dns counter redirect to :'' @ print_lld dns_port)])
      else Some [])"

definition tp_nft_ruleset :: "nat \<Rightarrow> int \<Rightarrow> bool \<Rightarrow> int \<Rightarrow> string option" where
  \<open>tp_nft_ruleset out_size port ipv6 dns_port = do {
     dns \<leftarrow> dns_rules dns_port;
     snprintf out_size (script
       [''table inet '' @ TP_NFT_TABLE @ '' {}'',
        ''delete table inet '' @ TP_NFT_TABLE,
        ''table inet '' @ TP_NFT_TABLE @ '' {'',
        indent 1 ''set alive { type inet_service; flags timeout; }'',
        indent 1 ''set alive_dns { type inet_service; flags timeout; }'',
        indent 1 ''set quic_block4 { type ipv4_addr; flags timeout; }'',
        indent 1 ''set quic_block6 { type ipv6_addr; flags timeout; }'',
        indent 1 ''chain output_nat {'',
        indent 2 ''type nat hook output priority -100; policy accept;'',
        indent 2 ''meta mark != 0 return'',
        indent 2 ''oifname "lo" return'']
      @ (if ipv6 then [] else script [indent 2 ''meta nfproto ipv6 return''])
      @ dns
      @ script
       [indent 2 (''ip daddr { '' @ local4_text @ '' } return''),
        indent 2 ''ip6 daddr { ::1, fc00::/7, fe80::/10, ff00::/8 } return'',
        indent 2 (''tcp dport @alive counter redirect to :'' @ print_lld port),
        indent 1 ''}'',
        indent 1 ''chain output_filter {'',
        indent 2 ''type filter hook output priority 0; policy accept;'',
        indent 2 ''meta mark != 0 return'',
        indent 2 ''udp dport 443 ip daddr @quic_block4 counter reject'',
        indent 2 ''udp dport 443 ip6 daddr @quic_block6 counter reject'',
        indent 1 ''}'',
        ''}''])
   }\<close>

definition tp_nft_heartbeat :: "nat \<Rightarrow> bool \<Rightarrow> string option" where
  "tp_nft_heartbeat out_size dns = do {
     s \<leftarrow> snprintf out_size (script
       [''flush set inet '' @ TP_NFT_TABLE @ '' alive'',
        ''add element inet '' @ TP_NFT_TABLE @ '' alive { 443 timeout '' @ print_lld TP_ALIVE_TIMEOUT_S @ ''s }'',
        ''flush set inet '' @ TP_NFT_TABLE @ '' alive_dns'']);
     if dns then snprintf out_size (s @ script
       [''add element inet '' @ TP_NFT_TABLE @ '' alive_dns { 53 timeout '' @ print_lld TP_ALIVE_TIMEOUT_S @ ''s }''])
     else Some s
   }"

definition tp_nft_quic_block :: "nat \<Rightarrow> nat \<Rightarrow> string \<Rightarrow> string option" where
  "tp_nft_quic_block out_size family addr =
     (let elem = TP_NFT_TABLE @ '' '' @ (if family = 6 then ''quic_block6'' else ''quic_block4'') @ '' { '' @ addr in
      snprintf out_size (script
       [''add element inet '' @ elem @ '' timeout '' @ print_lld TP_QUIC_BLOCK_TIMEOUT_S @ ''s }'',
        ''delete element inet '' @ elem @ '' }'',
        ''add element inet '' @ elem @ '' timeout '' @ print_lld TP_QUIC_BLOCK_TIMEOUT_S @ ''s }'']))"

subsection \<open>Packet mode\<close>

definition NFT_TABLE_NAME :: string where "NFT_TABLE_NAME = ''dpi_proxy''"
definition NFT_CHAIN_NAME :: string where "NFT_CHAIN_NAME = ''output''"
definition NFT_ANTILOOP_MARK :: nat where "NFT_ANTILOOP_MARK = 0x2a4b"

definition nft_rules_generate_create :: "nat \<Rightarrow> int \<Rightarrow> string option" where
  "nft_rules_generate_create out_size queue_num =
     snprintf out_size (script
       [''table inet '' @ NFT_TABLE_NAME @ '' {'',
        indent 1 (''chain '' @ NFT_CHAIN_NAME @ '' {''),
        indent 2 ''type filter hook output priority filter; policy accept;'',
        indent 2 (''tcp dport { 80, 443 } meta mark != 0x'' @ hex_fixed 4 NFT_ANTILOOP_MARK @ '' counter queue num '' @ print_lld queue_num @ '' bypass''),
        indent 1 ''}'',
        ''}''])"

text \<open>\<open>nft\<close> is the run of the tool on a script, with what it does to the kernel's tables; it says whether it succeeded.\<close>

type_synonym 'k nft = "string \<Rightarrow> 'k \<Rightarrow> bool \<times> 'k"

definition nft_rules_remove :: "'k nft \<Rightarrow> 'k \<Rightarrow> 'k" where
  "nft_rules_remove nft k = snd (nft (script [''delete table inet '' @ NFT_TABLE_NAME]) k)"

definition nft_rules_apply :: "'k nft \<Rightarrow> int \<Rightarrow> 'k \<Rightarrow> bool \<times> 'k" where
  "nft_rules_apply nft queue_num k =
     (let k = nft_rules_remove nft k in
      case nft_rules_generate_create 512 queue_num of None \<Rightarrow> (False, k) | Some s \<Rightarrow> nft s k)"

section \<open>PF\<close>

definition TP_PF_ANCHOR :: string where "TP_PF_ANCHOR = ''com.apple/dpi-proxy''"
definition TP_PF_OWN_PORT_LO :: int where "TP_PF_OWN_PORT_LO = 40000"
definition TP_PF_OWN_PORT_HI :: int where "TP_PF_OWN_PORT_HI = 48999"
definition TP_PF_QUIC_TABLE4 :: string where "TP_PF_QUIC_TABLE4 = ''dpi_quic4''"
definition TP_PF_QUIC_TABLE6 :: string where "TP_PF_QUIC_TABLE6 = ''dpi_quic6''"

text \<open>\<open>t_out\<close> and its \<open>put\<close>: \<^const>\<open>None\<close> is the overflow flag.\<close>

definition out_put :: "nat \<Rightarrow> string option \<Rightarrow> string \<Rightarrow> string option" where
  "out_put out_size o_buf s = do {
     b \<leftarrow> o_buf;
     if length s \<ge> out_size - length b then None else Some (b @ s)
   }"

definition pf_src :: string where
  "pf_src = ''from any port '' @ print_lld TP_PF_OWN_PORT_LO @ '' <> '' @ print_lld TP_PF_OWN_PORT_HI"

definition pf_lines :: "int \<Rightarrow> bool \<Rightarrow> int \<Rightarrow> string list" where
  "pf_lines port ipv6 dns_port =
     [''# dpi-proxy transparent mode (anchor '' @ TP_PF_ANCHOR @ ''). Generated and owned by dpi-proxy;'' @ [CHR 0x0A] @ ''# removed when it stops.'',
      ''table <dpi_local4> const { '' @ local4_text @ '' }'',
      ''table <dpi_local6> const { ::/128, ::1/128, ::ffff:0:0/96, fc00::/7, fe80::/10, ff00::/8 }'',
      ''table <dpi_nodns6> const { ::1/128, fe80::/10, ff00::/8 }'',
      ''table <'' @ TP_PF_QUIC_TABLE4 @ ''>'' @ [CHR 0x0A] @ ''table <'' @ TP_PF_QUIC_TABLE6 @ ''>'',
      ''rdr pass on lo0 inet proto tcp '' @ pf_src @ '' to ! <dpi_local4> port 443 -> 127.0.0.1 port '' @ print_lld port]
   @ (if ipv6 then [''rdr pass on lo0 inet6 proto tcp '' @ pf_src @ '' to ! <dpi_local6> port 443 -> ::1 port '' @ print_lld port] else [])
   @ (if dns_port > 0 then
        [''rdr pass on lo0 inet proto { udp, tcp } '' @ pf_src @ '' to ! 127.0.0.0/8 port 53 -> 127.0.0.1 port '' @ print_lld dns_port]
      @ (if ipv6 then [''rdr pass on lo0 inet6 proto { udp, tcp } '' @ pf_src @ '' to ! <dpi_nodns6> port 53 -> ::1 port '' @ print_lld dns_port] else [])
      else [])
   @ [''block return out quick inet proto udp from any to <'' @ TP_PF_QUIC_TABLE4 @ ''> port 443'',
      ''block return out quick inet6 proto udp from any to <'' @ TP_PF_QUIC_TABLE6 @ ''> port 443'',
      ''pass out quick on ! lo0 route-to (lo0 127.0.0.1) inet proto tcp '' @ pf_src @ '' to ! <dpi_local4> port 443 flags S/SA keep state'']
   @ (if ipv6 then [''pass out quick on ! lo0 route-to (lo0 ::1) inet6 proto tcp '' @ pf_src @ '' to ! <dpi_local6> port 443 flags S/SA keep state''] else [])
   @ (if dns_port > 0 then
        [''pass out quick on ! lo0 route-to (lo0 127.0.0.1) inet proto udp '' @ pf_src @ '' to ! 127.0.0.0/8 port 53 keep state'',
         ''pass out quick on ! lo0 route-to (lo0 127.0.0.1) inet proto tcp '' @ pf_src @ '' to ! 127.0.0.0/8 port 53 flags S/SA keep state'']
      @ (if ipv6 then
          [''pass out quick on ! lo0 route-to (lo0 ::1) inet6 proto udp '' @ pf_src @ '' to ! <dpi_nodns6> port 53 keep state'',
           ''pass out quick on ! lo0 route-to (lo0 ::1) inet6 proto tcp '' @ pf_src @ '' to ! <dpi_nodns6> port 53 flags S/SA keep state''] else [])
      else [])"

definition tp_pf_ruleset :: "nat \<Rightarrow> int \<Rightarrow> bool \<Rightarrow> int \<Rightarrow> string option" where
  "tp_pf_ruleset out_size port ipv6 dns_port =
     foldl (\<lambda>b l. out_put out_size b (l @ [CHR 0x0A])) (if out_size = 0 then None else Some []) (pf_lines port ipv6 dns_port)"

section \<open>The Linux layer\<close>

record 'k linux =
  lx_port :: int
  lx_ipv6 :: bool
  lx_dns_port :: int
  lx_kernel :: 'k

definition run_nft :: "'k nft \<Rightarrow> string \<Rightarrow> 'k linux \<Rightarrow> bool \<times> 'k linux" where
  "run_nft nft s l = (case nft s (lx_kernel l) of (ok, k) \<Rightarrow> (ok, l\<lparr>lx_kernel := k\<rparr>))"

definition linux_heartbeat :: "'k nft \<Rightarrow> 'k linux \<Rightarrow> bool \<times> 'k linux" where
  "linux_heartbeat nft l = (case tp_nft_heartbeat 512 (lx_dns_port l > 0) of None \<Rightarrow> (False, l) | Some s \<Rightarrow> run_nft nft s l)"

definition linux_install :: "'k nft \<Rightarrow> int \<Rightarrow> bool \<Rightarrow> int \<Rightarrow> 'k linux \<Rightarrow> bool \<times> 'k linux" where
  "linux_install nft port ipv6 dns_port l =
     (case tp_nft_ruleset 3072 port ipv6 dns_port of
        None \<Rightarrow> (False, l)
      | Some s \<Rightarrow> case run_nft nft s l of (ok, l) \<Rightarrow>
          if ok then linux_heartbeat nft (l\<lparr>lx_port := port, lx_ipv6 := ipv6, lx_dns_port := dns_port\<rparr>) else (False, l))"

definition linux_refresh :: "'k nft \<Rightarrow> 'k linux \<Rightarrow> int \<times> 'k linux" where
  "linux_refresh nft l =
     (case linux_heartbeat nft l of (ok, l) \<Rightarrow>
        if ok then (0, l)
        else case linux_install nft (lx_port l) (lx_ipv6 l) (lx_dns_port l) l of (ok, l) \<Rightarrow> (if ok then 1 else - 1, l))"

definition remove_script :: string where
  "remove_script = script [''table inet '' @ TP_NFT_TABLE @ '' {}'', ''delete table inet '' @ TP_NFT_TABLE]"

definition linux_remove :: "'k nft \<Rightarrow> 'k linux \<Rightarrow> 'k linux" where
  "linux_remove nft l = snd (run_nft nft remove_script l)"

text \<open>\<open>inet_ntop\<close> gives the text of an address, at most 45 characters.\<close>

fun quic_script :: "(nat \<Rightarrow> bytes \<Rightarrow> string option) \<Rightarrow> nat \<Rightarrow> dns_addr list \<Rightarrow> string \<Rightarrow> string" where
  "quic_script inet_ntop bufsize (a # as) s =
     quic_script inet_ntop bufsize as (case inet_ntop (da_family a) (da_addr a) of
        None \<Rightarrow> s
      | Some t \<Rightarrow> s @ (case tp_nft_quic_block (bufsize - length s) (da_family a) t of None \<Rightarrow> [] | Some b \<Rightarrow> b))"
| "quic_script inet_ntop bufsize [] s = s"

definition linux_quic_block :: "'k nft \<Rightarrow> (nat \<Rightarrow> bytes \<Rightarrow> string option) \<Rightarrow> dns_addr list \<Rightarrow> 'k linux \<Rightarrow> 'k linux" where
  "linux_quic_block nft inet_ntop addrs l =
     (let s = quic_script inet_ntop (DNS_MAX_ADDRS * 512) (take DNS_MAX_ADDRS addrs) [] in
      if s \<noteq> [] then snd (run_nft nft s l) else l)"

definition linux_quic_flush :: "'k nft \<Rightarrow> 'k linux \<Rightarrow> 'k linux" where
  "linux_quic_flush nft l =
     snd (run_nft nft (script [''flush set inet '' @ TP_NFT_TABLE @ '' quic_block4'', ''flush set inet '' @ TP_NFT_TABLE @ '' quic_block6'']) l)"

text \<open>\<open>getsockopt\<close> gave the address the connection was meant for.\<close>

definition linux_original_dst :: "sockaddr option \<Rightarrow> sockaddr option" where
  "linux_original_dst dst = do {
     d \<leftarrow> dst;
     if sa_family d = AF_INET then (if sa_addr d ! 0 = 127 then None else Some d)
     else if sa_addr d = replicate 15 0 @ [1] \<or> take 12 (sa_addr d) = replicate 10 0 @ [0xFF, 0xFF] then None
     else Some d
   }"

definition linux_conflict :: "'k nft \<Rightarrow> 'k linux \<Rightarrow> string option \<times> 'k linux" where
  "linux_conflict nft l = (case run_nft nft (script [''list table ip dpibypass'']) l of (ok, l) \<Rightarrow>
     (if ok then Some ''dpi-bypass table active'' else None, l))"

section \<open>Everything fits\<close>

lemma script_simps [simp]:
  "script [] = []" "length (script (l # ls)) = length l + Suc (length (script ls))"
  by (simp_all add: script_def)

lemma length_indent [simp]: "length (indent n s) = n + length s"
  by (simp add: indent_def)

definition int32 :: "int \<Rightarrow> bool" where
  "int32 v \<longleftrightarrow> - 2147483648 \<le> v \<and> v \<le> 2147483647"

lemma length_print_int: "int32 v \<Longrightarrow> length (print_lld v) \<le> 11"
proof -
  assume "int32 v"
  then have "nat v < 10 ^ 10" "nat (- v) < 10 ^ 10" by (auto simp: int32_def)
  then show ?thesis using dec_nat_length [of "nat v" 10] dec_nat_length [of "nat (- v)" 10] by (simp add: print_lld_def)
qed

lemma length_local4_text: "length local4_text = 109"
  by (simp add: local4_text_def local4_def print_net4_def print_quad_def dec_nat.simps)

lemma length_constants:
  "length TP_NFT_TABLE = 12" "length NFT_TABLE_NAME = 9" "length NFT_CHAIN_NAME = 6" "length (print_lld TP_ALIVE_TIMEOUT_S) = 2"
  "length (print_lld TP_QUIC_BLOCK_TIMEOUT_S) = 4" "length TP_PF_ANCHOR = 19" "length pf_src = 28" "length TP_PF_QUIC_TABLE4 = 9" "length TP_PF_QUIC_TABLE6 = 9"
  by (simp_all add: TP_NFT_TABLE_def NFT_TABLE_NAME_def NFT_CHAIN_NAME_def TP_ALIVE_TIMEOUT_S_def TP_QUIC_BLOCK_TIMEOUT_S_def TP_PF_ANCHOR_def pf_src_def
    TP_PF_OWN_PORT_LO_def TP_PF_OWN_PORT_HI_def TP_PF_QUIC_TABLE4_def TP_PF_QUIC_TABLE6_def print_lld_def dec_nat.simps)

lemma dns_rules_fit:
  assumes "int32 dns_port"
  shows "\<exists>s. dns_rules dns_port = Some s \<and> length s \<le> 130"
  using length_print_int [OF assms] by (auto simp: dns_rules_def snprintf_def)

lemma nft_ruleset_fits:
  assumes "int32 port" "int32 dns_port"
  shows "tp_nft_ruleset 3072 port ipv6 dns_port \<noteq> None"
  using dns_rules_fit [OF assms(2)] length_print_int [OF assms(1)]
  by (auto simp: tp_nft_ruleset_def snprintf_def length_constants length_local4_text)

lemma nft_heartbeat_fits: "tp_nft_heartbeat 512 dns \<noteq> None"
  by (simp add: tp_nft_heartbeat_def snprintf_def length_constants)

lemma nft_create_fits: "int32 queue_num \<Longrightarrow> nft_rules_generate_create 512 queue_num \<noteq> None"
  using length_print_int [of queue_num] by (simp add: nft_rules_generate_create_def snprintf_def length_constants)

lemma out_put_all:
  "length b + length (script ls) < out_size \<Longrightarrow> foldl (\<lambda>b l. out_put out_size b (l @ [CHR 0x0A])) (Some b) ls = Some (b @ script ls)"
  by (induction ls arbitrary: b) (auto simp: out_put_def script_def)

lemma length_pf_lines: "int32 port \<Longrightarrow> int32 dns_port \<Longrightarrow> length (script (pf_lines port ipv6 dns_port)) < 8192"
  using length_print_int [of port] length_print_int [of dns_port]
  by (auto simp: pf_lines_def length_constants length_local4_text)

lemma pf_ruleset_fits: "int32 port \<Longrightarrow> int32 dns_port \<Longrightarrow> tp_pf_ruleset 8192 port ipv6 dns_port = Some (script (pf_lines port ipv6 dns_port))"
  using out_put_all [of "[]" "pf_lines port ipv6 dns_port" 8192] length_pf_lines [of port dns_port ipv6] by (simp add: tp_pf_ruleset_def)

text \<open>The script that blocks an address.\<close>

definition block_text :: "nat \<Rightarrow> string \<Rightarrow> string" where
  "block_text family addr = the (tp_nft_quic_block 512 family addr)"

lemma quic_block_text:
  assumes "length addr \<le> 45" "512 \<le> room"
  shows "tp_nft_quic_block room family addr = Some (block_text family addr)" "length (block_text family addr) < 512"
  using assms by (auto simp: tp_nft_quic_block_def block_text_def snprintf_def Let_def length_constants)

lemma quic_script_all:
  assumes "\<And>f a s. inet_ntop f a = Some s \<Longrightarrow> length s \<le> 45"
  shows "length s + 512 * length addrs \<le> bufsize \<Longrightarrow> quic_script inet_ntop bufsize addrs s =
    s @ concat (map (\<lambda>a. case inet_ntop (da_family a) (da_addr a) of None \<Rightarrow> [] | Some t \<Rightarrow> block_text (da_family a) t) addrs)"
proof (induction addrs arbitrary: s)
  case (Cons a addrs)
  show ?case
  proof (cases "inet_ntop (da_family a) (da_addr a)")
    case None
    then show ?thesis using Cons by simp
  next
    case (Some t)
    note b = quic_block_text [OF assms [OF Some], where family = "da_family a" and room = "bufsize - length s"]
    have "length (block_text (da_family a) t) < 512" using quic_block_text(2) [OF assms [OF Some], of 512] by simp
    then show ?thesis using Cons.IH [of "s @ block_text (da_family a) t"] Cons.prems b(1) Some by simp
  qed
qed simp

section \<open>The exempt networks\<close>

definition bits8 :: "byte \<Rightarrow> bool list" where
  "bits8 b = map (bit b) [7, 6, 5, 4, 3, 2, 1, 0]"

definition in_net4 :: "bytes \<Rightarrow> bytes \<times> nat \<Rightarrow> bool" where
  "in_net4 a n \<longleftrightarrow> take (snd n) (concat (map bits8 a)) = take (snd n) (concat (map bits8 (fst n)))"

lemma all_bytes: "list_all P (map word_of_nat [0..<256]) \<Longrightarrow> P (b :: byte)"
proof -
  assume "list_all P (map word_of_nat [0..<256])"
  then have "P (word_of_nat n)" if "n < 256" for n using that by (simp add: list_all_iff)
  from this [of "unat b"] show ?thesis using unat_byte_less [of b] by simp
qed

lemma length_bits8 [simp]: "length (bits8 b) = 8"
  by (simp add: bits8_def)

lemma bits8_inj: "bits8 a = bits8 b \<longleftrightarrow> a = b"
proof
  assume "bits8 a = bits8 b"
  then have "\<forall>n \<in> {0..<8}. bit a n = bit b n" by (auto simp: bits8_def atLeastLessThan_nat_numeral atLeast0_lessThan_Suc numeral_eq_Suc)
  then show "a = b" by (intro bit_word_eqI) auto
qed simp

lemma byte_masks:
  "take 2 (bits8 b) = take 2 (bits8 64) \<longleftrightarrow> b AND 0xC0 = 64"
  "take 4 (bits8 b) = take 4 (bits8 16) \<longleftrightarrow> b AND 0xF0 = 16"
  "take 3 (bits8 b) = take 3 (bits8 224) \<longleftrightarrow> b \<ge> 224"
  by (rule all_bytes [of "\<lambda>b. (take 2 (bits8 b) = take 2 (bits8 64)) = (b AND 0xC0 = 64)"], code_simp)
    (rule all_bytes [of "\<lambda>b. (take 4 (bits8 b) = take 4 (bits8 16)) = (b AND 0xF0 = 16)"], code_simp,
     rule all_bytes [of "\<lambda>b. (take 3 (bits8 b) = take 3 (bits8 224)) = (b \<ge> 224)"], code_simp)

lemma private_is_local4: "length a = 4 \<Longrightarrow> private_v4 a \<longleftrightarrow> list_ex (in_net4 a) local4"
proof -
  assume "length a = 4"
  then obtain b0 b1 b2 b3 where a: "a = [b0, b1, b2, b3]" by (auto simp: numeral_eq_Suc length_Suc_conv)
  show ?thesis
    by (simp add: a local4_def in_net4_def private_v4_def byte_masks bits8_inj) blast
qed

text \<open>Claim C32. No rule text is ever cut short: for all port and queue numbers the tables and the heartbeat fit the buffers of
  their callers, so an installation fails only when \<open>nft\<close> itself does; and the script that blocks the addresses of an answer
  holds the block of every address that can be printed.\<close>

theorem rules_always_fit:
  assumes ports: "int32 port" "int32 dns_port" and ntop: "\<And>f a s. inet_ntop f a = Some s \<Longrightarrow> length s \<le> 45"
    and addrs: "length addrs \<le> DNS_MAX_ADDRS"
  shows "(\<exists>rules beat. tp_nft_ruleset 3072 port ipv6 dns_port = Some rules \<and> tp_nft_heartbeat 512 (dns_port > 0) = Some beat \<and>
      linux_install nft port ipv6 dns_port l =
        (case run_nft nft rules l of (ok, l) \<Rightarrow>
           if ok then run_nft nft beat (l\<lparr>lx_port := port, lx_ipv6 := ipv6, lx_dns_port := dns_port\<rparr>) else (False, l))) \<and>
    tp_pf_ruleset 8192 port ipv6 dns_port = Some (script (pf_lines port ipv6 dns_port)) \<and>
    nft_rules_generate_create 512 port \<noteq> None \<and>
    quic_script inet_ntop (DNS_MAX_ADDRS * 512) addrs [] =
      concat (map (\<lambda>a. case inet_ntop (da_family a) (da_addr a) of None \<Rightarrow> [] | Some t \<Rightarrow> block_text (da_family a) t) addrs)"
proof -
  obtain rules beat where r: "tp_nft_ruleset 3072 port ipv6 dns_port = Some rules" "tp_nft_heartbeat 512 (dns_port > 0) = Some beat"
    using nft_ruleset_fits [OF ports] nft_heartbeat_fits by blast
  have i: "linux_install nft port ipv6 dns_port l = (case run_nft nft rules l of (ok, l) \<Rightarrow>
      if ok then run_nft nft beat (l\<lparr>lx_port := port, lx_ipv6 := ipv6, lx_dns_port := dns_port\<rparr>) else (False, l))"
    using r by (simp add: linux_install_def linux_heartbeat_def split: prod.split)
  have q: "quic_script inet_ntop (DNS_MAX_ADDRS * 512) addrs [] =
      concat (map (\<lambda>a. case inet_ntop (da_family a) (da_addr a) of None \<Rightarrow> [] | Some t \<Rightarrow> block_text (da_family a) t) addrs)"
    by (subst quic_script_all [of inet_ntop]) (use ntop addrs in auto)
  show ?thesis using r i q pf_ruleset_fits [OF ports] nft_create_fits [OF ports(1)] by blast
qed

theorem rules_always_fit_witness:
  "tp_pf_ruleset 8192 1091 True 1053 = Some (script (pf_lines 1091 True 1053)) \<and>
   quic_script (\<lambda>f a. Some ''1.2.3.4'') (DNS_MAX_ADDRS * 512) [\<lparr>da_family = 4, da_addr = [1, 2, 3, 4]\<rparr>] [] = block_text 4 ''1.2.3.4''"
proof -
  let ?ntop = "\<lambda>(f :: nat) (a :: bytes). Some ''1.2.3.4''"
  have l: "\<And>f a s. ?ntop f a = Some s \<Longrightarrow> length s \<le> 45" by auto
  have p: "int32 1091" "int32 1053" by (simp_all add: int32_def)
  have n: "length [\<lparr>da_family = 4, da_addr = [1, 2, 3, 4]\<rparr>] \<le> DNS_MAX_ADDRS" by (simp add: DNS_MAX_ADDRS_def)
  have "concat (map (\<lambda>a. case ?ntop (da_family a) (da_addr a) of None \<Rightarrow> [] | Some t \<Rightarrow> block_text (da_family a) t)
      [\<lparr>da_family = 4, da_addr = [1, 2, 3, 4]\<rparr>]) = block_text 4 ''1.2.3.4''" by simp
  then show ?thesis using rules_always_fit [OF p _ n, of ?ntop True "\<lambda>s k. (True, k)" "undefined :: unit linux"] l by auto
qed



end
