(* ===== verification/NetFp.thy ===== *)
theory NetFp
  imports Rules
begin

text \<open>
  The rest of \<open>src/discovery/netfingerprint.c\<close>: the identity of a network, made of the default route, the gateway's hardware
  address, the kind of link and the SSID, which are read from the kernel's tables under \<open>/proc\<close>, from \<open>/sys\<close> and from \<open>nmcli\<close>. A file is its
  contents, \<^const>\<open>None\<close> when it cannot be opened. The theorems give the tables in the format in which the kernel prints them.
\<close>

section \<open>Lines\<close>

text \<open>\<open>fgets\<close> into a buffer of \<open>n\<close> characters, and all the lines it gives one after the other.\<close>

definition fgets :: "nat \<Rightarrow> string \<Rightarrow> string \<times> string" where
  "fgets n inp =
     (let l = takeWhile (\<lambda>c. c \<noteq> CHR 0x0A) inp;
          k = (if length l < n - 1 then min (Suc (length l)) (length inp) else n - 1) in (cstr (take k inp), drop k inp))"

lemma fgets_shorter: "inp \<noteq> [] \<Longrightarrow> 1 < n \<Longrightarrow> length (snd (fgets n inp)) < length inp"
  by (simp add: fgets_def Let_def)

function lines256 :: "string \<Rightarrow> string list" where
  "lines256 inp = (if inp = [] then [] else fst (fgets 256 inp) # lines256 (snd (fgets 256 inp)))"
  by auto

termination
  by (relation "measure length") (simp_all add: fgets_shorter)

declare lines256.simps [simp del]

section \<open>The tables\<close>

definition NETPROFILE_IFACE_MAX :: nat where "NETPROFILE_IFACE_MAX = 64"
definition NETPROFILE_SSID_MAX :: nat where "NETPROFILE_SSID_MAX = 64"

definition strtoul16 :: "string \<Rightarrow> u64" where
  "strtoul16 s = (case scan_hex s of Some (v, _) \<Rightarrow> v | None \<Rightarrow> 0)"

definition route_fields :: "string \<Rightarrow> (string \<times> string \<times> string) option" where
  "route_fields line = do {
     (iface, r) \<leftarrow> scan_word 63 line;
     (dest, r) \<leftarrow> scan_word 31 r;
     (gw, r) \<leftarrow> scan_word 31 r;
     Some (iface, dest, gw)
   }"

fun route_walk :: "nat \<Rightarrow> string list \<Rightarrow> (string \<times> u32) option" where
  "route_walk iface_size (line # ls) =
     (case route_fields line of None \<Rightarrow> route_walk iface_size ls
      | Some (iface, dest, gw) \<Rightarrow> if dest \<noteq> ''00000000'' then route_walk iface_size ls
          else Some (take (iface_size - 1) iface, ucast (strtoul16 gw)))"
| "route_walk iface_size [] = None"

definition find_default_route_v4 :: "nat \<Rightarrow> string option \<Rightarrow> (string \<times> u32) option" where
  "find_default_route_v4 iface_size f = (case f of None \<Rightarrow> None
     | Some contents \<Rightarrow> case lines256 contents of [] \<Rightarrow> None | header # ls \<Rightarrow> route_walk iface_size ls)"

definition route6_default :: "string \<Rightarrow> bool" where
  "route6_default line \<longleftrightarrow> (case scan_word 63 line of None \<Rightarrow> False
     | Some (dest, r) \<Rightarrow> case scan_word 7 r of None \<Rightarrow> False
       | Some (prefixlen, _) \<Rightarrow> prefixlen = ''00'' \<and> list_all (\<lambda>c. c = CHR ''0'') dest)"

definition has_default_route_v6 :: "string option \<Rightarrow> bool" where
  "has_default_route_v6 f = (case f of None \<Rightarrow> False | Some contents \<Rightarrow> list_ex route6_default (lines256 contents))"

definition detect_link_type :: "(string \<Rightarrow> bool) \<Rightarrow> string \<Rightarrow> t_link_type" where
  "detect_link_type access iface =
     (if iface = [] then LINK_UNKNOWN
      else if access (take 127 (''/sys/class/net/'' @ iface @ ''/wireless'')) then LINK_WIFI
      else if access (take 127 (''/sys/class/net/'' @ iface)) then LINK_ETHERNET
      else LINK_OTHER)"

text \<open>What \<open>nmcli\<close> prints, \<^const>\<open>None\<close> when it could not be started; \<open>strtok_r\<close> skips empty lines.\<close>

fun tokens :: "string \<Rightarrow> string \<Rightarrow> string list" where
  "tokens cur (c # s) = (if c = CHR 0x0A then (if cur = [] then tokens [] s else cur # tokens [] s) else tokens (cur @ [c]) s)"
| "tokens cur [] = (if cur = [] then [] else [cur])"

definition get_active_ssid :: "string option \<Rightarrow> nat \<Rightarrow> string" where
  "get_active_ssid nmcli out_size = (case nmcli of None \<Rightarrow> []
     | Some out \<Rightarrow> case List.find (\<lambda>l. take 4 l = ''yes:'') (tokens [] (cstr (take 511 out))) of
         None \<Rightarrow> [] | Some l \<Rightarrow> take (out_size - 1) (drop 4 l))"

text \<open>\<open>ifaddr\<close> is \<open>SIOCGIFADDR\<close> and \<open>inet_ntop\<close>; \<open>ifr_name\<close> has 16 characters.\<close>

definition get_iface_local_addr :: "(string \<Rightarrow> string option) \<Rightarrow> string \<Rightarrow> string" where
  "get_iface_local_addr ifaddr iface =
     (if iface = [] then [] else case ifaddr (take 15 iface) of None \<Rightarrow> [] | Some a \<Rightarrow> a)"

definition arp_fields :: "string \<Rightarrow> (string \<times> string \<times> string) option" where
  "arp_fields line = do {
     (ip, r) \<leftarrow> scan_word 63 line;
     (hwtype, r) \<leftarrow> scan_word (length r) r;
     (flags, r) \<leftarrow> scan_word 15 r;
     (hwaddr, r) \<leftarrow> scan_word 31 r;
     Some (ip, flags, hwaddr)
   }"

text \<open>\<open>%x:%x:%x:%x:%x:%x\<close>: so many further numbers, each after a colon.\<close>

fun scan_colons :: "nat \<Rightarrow> string \<Rightarrow> u32 list option" where
  "scan_colons (Suc n) (c # s) =
     (if c \<noteq> CHR '':'' then None
      else case scan_hex s of None \<Rightarrow> None | Some (v, r) \<Rightarrow> map_option ((#) (ucast v)) (scan_colons n r))"
| "scan_colons (Suc n) [] = None"
| "scan_colons 0 s = Some []"

definition scan_mac :: "string \<Rightarrow> u32 list option" where
  "scan_mac s = scan_colons 6 (CHR '':'' # s)"

fun arp_walk :: "string \<Rightarrow> string list \<Rightarrow> bytes option" where
  "arp_walk gw_ip (line # ls) =
     (case arp_fields line of None \<Rightarrow> arp_walk gw_ip ls
      | Some (ip, flags, hwaddr) \<Rightarrow> if ip \<noteq> gw_ip then arp_walk gw_ip ls
          else case scan_mac hwaddr of None \<Rightarrow> arp_walk gw_ip ls
          | Some b \<Rightarrow> if list_all (\<lambda>x. x = 0) b then arp_walk gw_ip ls else Some (map ucast b))"
| "arp_walk gw_ip [] = None"

definition gateway_mac_v4 :: "string option \<Rightarrow> string \<Rightarrow> bytes option" where
  "gateway_mac_v4 f gw_ip = (case f of None \<Rightarrow> None
     | Some contents \<Rightarrow> case lines256 contents of [] \<Rightarrow> None | header # ls \<Rightarrow> arp_walk gw_ip ls)"

section \<open>The profile and the fingerprint\<close>

text \<open>The routes are read twice; \<open>ne_route_again\<close> is what the second reading gives.\<close>

record netfp_env =
  ne_route :: "string option"
  ne_route_again :: "string option"
  ne_ipv6_route :: "string option"
  ne_arp :: "string option"
  ne_access :: "string \<Rightarrow> bool"
  ne_nmcli :: "string option"
  ne_ifaddr :: "string \<Rightarrow> string option"

record full_profile = net_profile +
  np_local_addr :: string

definition netprofile_gather :: "netfp_env \<Rightarrow> full_profile" where
  "netprofile_gather env =
     (let iface = (case find_default_route_v4 NETPROFILE_IFACE_MAX (ne_route_again env) of None \<Rightarrow> [] | Some (iface, gw) \<Rightarrow> iface);
          link = detect_link_type (ne_access env) iface in
      \<lparr>np_iface = iface, np_link_type = link,
       np_ssid = (if link = LINK_WIFI then get_active_ssid (ne_nmcli env) NETPROFILE_SSID_MAX else []),
       np_has_ipv4_default = (iface \<noteq> []), np_has_ipv6_default = has_default_route_v6 (ne_ipv6_route env),
       np_local_addr = get_iface_local_addr (ne_ifaddr env) iface\<rparr>)"

definition netprofile_describe :: "full_profile \<Rightarrow> nat \<Rightarrow> string" where
  "netprofile_describe p buf_size =
     take (buf_size - 1) (concat [''iface='', if np_iface p \<noteq> [] then np_iface p else ''(none)'', '' link='', link_type_name (np_link_type p),
       '' ssid='', [CHR 0x22], np_ssid p, [CHR 0x22], '' ipv4='', if np_has_ipv4_default p then ''yes'' else ''no'',
       '' ipv6='', if np_has_ipv6_default p then ''yes'' else ''no'', '' local_addr='', if np_local_addr p \<noteq> [] then np_local_addr p else ''(none)''])"

text \<open>\<open>inet_ntop\<close> of the gateway as it lies in memory.\<close>

definition netfingerprint_current :: "netfp_env \<Rightarrow> u64" where
  "netfingerprint_current env =
     (case find_default_route_v4 NETPROFILE_IFACE_MAX (ne_route env) of None \<Rightarrow> NETFP_UNKNOWN
      | Some (iface, gw_raw) \<Rightarrow>
          netfingerprint_hash (net_profile.truncate (netprofile_gather env)) gw_raw
            (gateway_mac_v4 (ne_arp env) (print_quad (le32 gw_raw))))"

section \<open>The tables as the kernel prints them\<close>

text \<open>A line without its newline.\<close>

definition line_ok :: "string \<Rightarrow> bool" where
  "line_ok l \<longleftrightarrow> length l \<le> 254 \<and> CHR 0x0A \<notin> set l \<and> CHR 0x00 \<notin> set l"

definition table_text :: "string list \<Rightarrow> string" where
  "table_text ls = concat (map (\<lambda>l. l @ [CHR 0x0A]) ls)"

lemma lines_of_table: "list_all line_ok ls \<Longrightarrow> lines256 (table_text ls) = map (\<lambda>l. l @ [CHR 0x0A]) ls"
proof (induction ls)
  case Nil
  show ?case by (simp add: table_text_def lines256.simps)
next
  case (Cons l ls)
  have l: "length l \<le> 254" "CHR 0x0A \<notin> set l" "CHR 0x00 \<notin> set l" using Cons.prems by (simp_all add: line_ok_def)
  have "takeWhile (\<lambda>c. c \<noteq> CHR 0x0A) (l @ CHR 0x0A # table_text ls) = l" using l(2) by (induction l) auto
  then have "fgets 256 (table_text (l # ls)) = (l @ [CHR 0x0A], table_text ls)"
    using l(1) cstr_id [of "l @ [CHR 0x0A]"] l(3) by (simp add: fgets_def table_text_def Let_def)
  moreover have "table_text (l # ls) \<noteq> []" by (simp add: table_text_def)
  ultimately show ?case using Cons by (simp add: lines256.simps [of "table_text (l # ls)"])
qed

lemma scan_word_skip: "isspace_c c \<Longrightarrow> scan_word w (c # s) = scan_word w s"
  by (simp add: scan_word_def)

lemma scan_word_clean: "clean t \<Longrightarrow> length t \<le> w \<Longrightarrow> isspace_c c \<Longrightarrow> scan_word w (t @ c # r) = Some (t, c # r)"
  by (rule scan_word_append) (auto simp: clean_def list_all_iff)

text \<open>A number in hexadecimal digits of either case.\<close>

definition hex_text :: "string \<Rightarrow> bool" where
  "hex_text t \<longleftrightarrow> t \<noteq> [] \<and> length t \<le> 16 \<and> list_all (\<lambda>c. hex_digit c \<noteq> None) t"

definition hex_value :: "string \<Rightarrow> int" where
  "hex_value t = fst (digits hex_digit 16 0 t)"

lemma hex_digit_facts:
  assumes "hex_digit c \<noteq> None"
  shows "\<not> isspace_c c" "c \<noteq> CHR ''-''" "c \<noteq> CHR ''+''" "tolower_c c \<noteq> CHR ''x''" "c \<noteq> CHR 0x00" "c \<noteq> CHR 0x0A"
    "0 \<le> the (hex_digit c)" "the (hex_digit c) < 16"
proof -
  have k: "\<forall>c. hex_digit c \<noteq> None \<longrightarrow> \<not> isspace_c c \<and> c \<noteq> CHR ''-'' \<and> c \<noteq> CHR ''+'' \<and> tolower_c c \<noteq> CHR ''x'' \<and> c \<noteq> CHR 0x00 \<and> c \<noteq> CHR 0x0A \<and>
    0 \<le> the (hex_digit c) \<and> the (hex_digit c) < 16" by code_simp
  show "\<not> isspace_c c" "c \<noteq> CHR ''-''" "c \<noteq> CHR ''+''" "tolower_c c \<noteq> CHR ''x''" "c \<noteq> CHR 0x00" "c \<noteq> CHR 0x0A"
    "0 \<le> the (hex_digit c)" "the (hex_digit c) < 16" using k [rule_format, OF assms] by blast+
qed

lemma hex_clean: "hex_text t \<Longrightarrow> clean t"
  using hex_digit_facts by (auto simp: hex_text_def clean_def list_all_iff)

lemma digits_all: "list_all (\<lambda>c. dig c \<noteq> None) t \<Longrightarrow> snd (digits dig b acc t) = []"
  by (induction t arbitrary: acc) (auto split: option.splits)

lemma digits_bound:
  assumes "list_all (\<lambda>c. hex_digit c \<noteq> None) t" "0 \<le> acc" "acc < 16 ^ k"
  shows "0 \<le> fst (digits hex_digit 16 acc t) \<and> fst (digits hex_digit 16 acc t) < 16 ^ (k + length t)"
  using assms
proof (induction t arbitrary: acc k)
  case (Cons c t)
  obtain d where d: "hex_digit c = Some d" "0 \<le> d" "d < 16" using Cons.prems(1) hex_digit_facts(7,8) [of c] by auto
  have "acc * 16 + d < 16 ^ Suc k" using Cons.prems(3) d by simp
  then show ?case using Cons.IH [of "acc * 16 + d" "Suc k"] Cons.prems d by simp
qed simp

lemma scan_hex_text:
  assumes t: "hex_text t" and ys: "ys = [] \<or> hex_digit (hd ys) = None \<and> tolower_c (hd ys) \<noteq> CHR ''x''"
  shows "scan_hex (t @ ys) = Some (of_int (hex_value t), ys)"
proof -
  obtain c r where cr: "t = c # r" using t by (cases t) (auto simp: hex_text_def)
  have all: "list_all (\<lambda>c. hex_digit c \<noteq> None) t" "length t \<le> 16" using t by (simp_all add: hex_text_def)
  have c: "\<not> isspace_c c" "c \<noteq> CHR ''-''" "c \<noteq> CHR ''+''" "hex_digit c \<noteq> None" using hex_digit_facts [of c] all cr by auto
  have "drop_0x (t @ ys) = Some (t @ ys)"
  proof (cases r)
    case Nil
    then show ?thesis using ys by (cases ys) (auto simp: drop_0x_def cr)
  next
    case (Cons b r')
    then have "tolower_c b \<noteq> CHR ''x''" using all cr hex_digit_facts(4) [of b] by simp
    then show ?thesis by (simp add: drop_0x_def cr Cons)
  qed
  moreover have "sign_of (dropWhile isspace_c (t @ ys)) = (False, t @ ys)" using c by (simp add: sign_of_def cr)
  moreover have "digits hex_digit 16 0 (t @ ys) = (hex_value t, ys)" using all ys by (auto simp: digits_append digits_stop hex_value_def)
  moreover have "hex_value t < 16 ^ 16"
  proof -
    have "hex_value t < 16 ^ (0 + length t)" using digits_bound [OF all(1), of 0 0] by (simp add: hex_value_def)
    also have "\<dots> \<le> 16 ^ 16" using all(2) by (intro power_increasing) auto
    finally show ?thesis .
  qed
  ultimately show ?thesis using c(4) by (simp add: scan_hex_def cr)
qed

lemma ucast_of_int64: "(ucast (of_int v :: u64) :: u32) = of_int v" "(ucast (of_int v :: u64) :: byte) = of_int v"
  by (transfer, simp add: take_bit_take_bit)+

lemma octet_ucast: "(ucast (ucast (b :: byte) :: u64) :: u32) = ucast b" "(ucast (ucast b :: u32) :: byte) = b" "(ucast b :: u32) = 0 \<longleftrightarrow> b = 0"
  by (transfer, simp add: take_bit_take_bit)+

subsection \<open>Routes\<close>

text \<open>A line of \<open>/proc/net/route\<close>: name, destination and gateway in eight hexadecimal digits, and seven columns more.\<close>

record route4 =
  rt_iface :: string
  rt_dest :: string
  rt_gw :: string
  rt_rest :: string

definition route_ok :: "route4 \<Rightarrow> bool" where
  "route_ok r \<longleftrightarrow> clean (rt_iface r) \<and> length (rt_iface r) \<le> 15 \<and> hex_text (rt_dest r) \<and> length (rt_dest r) = 8 \<and>
     hex_text (rt_gw r) \<and> length (rt_gw r) = 8 \<and> length (rt_rest r) \<le> 200 \<and> CHR 0x0A \<notin> set (rt_rest r) \<and> CHR 0x00 \<notin> set (rt_rest r)"

definition route_line :: "route4 \<Rightarrow> string" where
  "route_line r = rt_iface r @ [CHR 0x09] @ rt_dest r @ [CHR 0x09] @ rt_gw r @ [CHR 0x09] @ rt_rest r"

definition is_default :: "route4 \<Rightarrow> bool" where
  "is_default r \<longleftrightarrow> rt_dest r = ''00000000''"

lemma clean_no_ctl: "clean s \<Longrightarrow> CHR 0x0A \<notin> set s \<and> CHR 0x00 \<notin> set s"
  by (auto simp: clean_def list_all_iff isspace_c_def)

lemma route_line_ok: "route_ok r \<Longrightarrow> line_ok (route_line r)"
  using clean_no_ctl [of "rt_iface r"] clean_no_ctl [OF hex_clean, of "rt_dest r"] clean_no_ctl [OF hex_clean, of "rt_gw r"]
  by (auto simp: route_ok_def line_ok_def route_line_def)

lemma route_line_fields: "route_ok r \<Longrightarrow> route_fields (route_line r @ [CHR 0x0A]) = Some (rt_iface r, rt_dest r, rt_gw r)"
  by (simp add: route_fields_def route_line_def route_ok_def scan_word_clean scan_word_skip hex_clean isspace_c_def)

lemma route_walk_lines:
  "list_all route_ok rs \<Longrightarrow> route_walk 64 (map (\<lambda>r. route_line r @ [CHR 0x0A]) rs) =
     map_option (\<lambda>r. (rt_iface r, of_int (hex_value (rt_gw r)))) (List.find is_default rs)"
proof (induction rs)
  case (Cons r rs)
  have ok: "hex_text (rt_gw r)" "length (rt_iface r) \<le> 15" using Cons.prems by (simp_all add: route_ok_def)
  have "strtoul16 (rt_gw r) = of_int (hex_value (rt_gw r))" using scan_hex_text [OF ok(1), of "[]"] by (simp add: strtoul16_def)
  then have "(ucast (strtoul16 (rt_gw r)) :: u32) = of_int (hex_value (rt_gw r))" by (simp add: ucast_of_int64)
  then show ?case using Cons ok(2) by (simp add: route_line_fields is_default_def)
qed simp

lemma default_route_read:
  assumes "line_ok header" "list_all route_ok rs"
  shows "find_default_route_v4 NETPROFILE_IFACE_MAX (Some (table_text (header # map route_line rs))) =
    map_option (\<lambda>r. (rt_iface r, of_int (hex_value (rt_gw r)))) (List.find is_default rs)"
proof -
  have "list_all line_ok (header # map route_line rs)" using assms route_line_ok by (auto simp: list_all_iff)
  then show ?thesis using route_walk_lines [OF assms(2)]
    by (simp add: find_default_route_v4_def lines_of_table NETPROFILE_IFACE_MAX_def comp_def)
qed

subsection \<open>Neighbours\<close>

text \<open>A line of \<open>/proc/net/arp\<close>; the columns are padded with blanks. An entry that is not complete has the address zero.\<close>

record neighbour =
  nb_ip :: bytes
  nb_hwtype :: string
  nb_flags :: string
  nb_mac :: bytes
  nb_rest :: string

definition mac_text :: "bytes \<Rightarrow> string" where
  "mac_text mac = joined '':'' (map (\<lambda>b. hex_fixed 2 (unat b)) mac)"

definition neighbour_ok :: "neighbour \<Rightarrow> bool" where
  "neighbour_ok n \<longleftrightarrow> length (nb_ip n) = 4 \<and> clean (nb_hwtype n) \<and> length (nb_hwtype n) \<le> 15 \<and> clean (nb_flags n) \<and> length (nb_flags n) \<le> 15 \<and>
     length (nb_mac n) = 6 \<and> length (nb_rest n) \<le> 100 \<and> CHR 0x0A \<notin> set (nb_rest n) \<and> CHR 0x00 \<notin> set (nb_rest n)"

definition pad :: "nat \<Rightarrow> string \<Rightarrow> string" where
  "pad w s = s @ replicate (w - length s) (CHR '' '')"

definition arp_line :: "neighbour \<Rightarrow> string" where
  "arp_line n = pad 16 (print_quad (nb_ip n)) @ '' '' @ pad 12 (nb_hwtype n) @ '' '' @ pad 12 (nb_flags n) @ '' '' @ mac_text (nb_mac n) @ '' '' @ nb_rest n"

lemma scan_word_pad: "clean t \<Longrightarrow> length t \<le> w \<Longrightarrow> scan_word w (pad k t @ '' '' @ s) = Some (t, replicate (k - length t) (CHR '' '') @ '' '' @ s)"
  using scan_word_clean [of t w "CHR '' ''" "replicate (k - length t - 1) (CHR '' '') @ '' '' @ s"] scan_word_clean [of t w "CHR '' ''" s]
  by (cases "k - length t") (auto simp: pad_def isspace_c_def)

lemma scan_word_blanks: "scan_word w (replicate k (CHR '' '') @ s) = scan_word w s"
  by (induction k) (simp_all add: scan_word_blank)

lemma octet_text: "dec_nat (unat (b :: byte)) \<noteq> []" "length (dec_nat (unat b)) \<le> 3" "clean (dec_nat (unat b))"
proof -
  have "unat b < 10 ^ 3" using unat_bound [of b] by simp
  then show "length (dec_nat (unat b)) \<le> 3" by (rule dec_nat_length) simp
  show "clean (dec_nat (unat b))"
  proof (rule digits_clean)
    fix c assume "c \<in> set (dec_nat (unat b))"
    then show "\<exists>d<16. c = digit_char d" using dec_nat_chars [of c "unat b"] by (meson less_trans numeral_less_iff semiring_norm(76,78,81))
  qed simp
qed simp

lemma clean_append: "clean a \<Longrightarrow> clean b \<Longrightarrow> clean (a @ b)" "clean a \<Longrightarrow> \<not> isspace_c c \<Longrightarrow> c \<noteq> CHR 0x00 \<Longrightarrow> clean (c # a)"
  by (auto simp: clean_def)

lemma quad_clean:
  assumes "length a = 4"
  shows "clean (print_quad a)" "length (print_quad a) \<le> 15"
proof -
  obtain b c d e where a: "a = [b, c, d, e]" using assms by (auto simp: length_Suc_conv eval_nat_numeral)
  show "clean (print_quad a)" by (simp add: a print_quad_def clean_append octet_text isspace_c_def)
  show "length (print_quad a) \<le> 15"
    using octet_text(2) [of b] octet_text(2) [of c] octet_text(2) [of d] octet_text(2) [of e] by (simp add: a print_quad_def)
qed

lemma octet_hex: "hex_text (hex_fixed 2 (unat (b :: byte)))" "hex_value (hex_fixed 2 (unat b)) = int (unat b)"
proof -
  have "list_all (\<lambda>c. hex_digit c \<noteq> None) (hex_fixed 2 (unat b))"
    using hex_fixed_chars digit_char_values(1) by (fastforce simp: list_all_iff)
  then show "hex_text (hex_fixed 2 (unat b))" using length_hex_fixed [of 2 "unat b"] by (cases "hex_fixed 2 (unat b)") (auto simp: hex_text_def)
  have "unat b < 16 ^ 2" using unat_bound [of b] by simp
  then show "hex_value (hex_fixed 2 (unat b)) = int (unat b)" by (simp add: hex_value_def digits_hex_fixed)
qed

lemma mac_text_colons: "mac \<noteq> [] \<Longrightarrow> CHR '':'' # mac_text mac = concat (map (\<lambda>b. CHR '':'' # hex_fixed 2 (unat b)) mac)"
proof (induction mac)
  case (Cons b mac)
  then show ?case by (cases mac) (auto simp: mac_text_def)
qed simp

lemma colon_facts: "hex_digit (CHR '':'') = None" "tolower_c (CHR '':'') \<noteq> CHR ''x''" "\<not> isspace_c (CHR '':'')"
  by code_simp+

lemma scan_colons_text:
  fixes mac :: bytes
  shows "scan_colons (length mac) (concat (map (\<lambda>b. CHR '':'' # hex_fixed 2 (unat b)) mac)) = Some (map ucast mac)"
proof (induction mac)
  case (Cons b mac)
  let ?r = "concat (map (\<lambda>b. CHR '':'' # hex_fixed 2 (unat b)) mac)"
  have "?r = [] \<or> hex_digit (hd ?r) = None \<and> tolower_c (hd ?r) \<noteq> CHR ''x''" by (cases mac) (simp_all add: colon_facts)
  from scan_hex_text [OF octet_hex(1) this, of b] have "scan_hex (hex_fixed 2 (unat b) @ ?r) = Some (of_int (int (unat b)), ?r)"
    by (simp add: octet_hex(2))
  then show ?case using Cons by (simp add: octet_ucast)
qed simp

lemma scan_mac_text: "length mac = 6 \<Longrightarrow> scan_mac (mac_text mac) = Some (map ucast mac)"
  using mac_text_colons [of mac] scan_colons_text [of mac] by (cases mac) (simp_all add: scan_mac_def)

lemma mac_clean:
  assumes "length mac = 6"
  shows "clean (mac_text mac)" "length (mac_text mac) = 17"
proof -
  obtain a b c d e f where m: "mac = [a, b, c, d, e, f]" using assms by (auto simp: length_Suc_conv eval_nat_numeral)
  have h: "clean (hex_fixed 2 (unat x))" for x :: byte using hex_clean [OF octet_hex(1)] .
  show "clean (mac_text mac)" using colon_facts(3) by (simp add: m mac_text_def clean_append h)
  show "length (mac_text mac) = 17" by (simp add: m mac_text_def)
qed

lemma pad_chars: "set (pad w s) \<subseteq> insert (CHR '' '') (set s)" "length (pad w s) = max w (length s)"
  by (auto simp: pad_def)

lemma arp_line_ok: "neighbour_ok n \<Longrightarrow> line_ok (arp_line n)"
  using quad_clean [of "nb_ip n"] mac_clean [of "nb_mac n"] clean_no_ctl [of "print_quad (nb_ip n)"] clean_no_ctl [of "nb_hwtype n"]
    clean_no_ctl [of "nb_flags n"] clean_no_ctl [of "mac_text (nb_mac n)"]
  by (auto simp: neighbour_ok_def line_ok_def arp_line_def pad_chars dest!: subsetD [OF pad_chars(1)])

lemma arp_line_fields:
  assumes "neighbour_ok n"
  shows "arp_fields (arp_line n @ [CHR 0x0A]) = Some (print_quad (nb_ip n), nb_flags n, mac_text (nb_mac n))"
proof -
  have ok: "clean (print_quad (nb_ip n))" "length (print_quad (nb_ip n)) \<le> 15" "clean (nb_hwtype n)" "clean (nb_flags n)" "length (nb_flags n) \<le> 15"
    "clean (mac_text (nb_mac n))" "length (mac_text (nb_mac n)) = 17"
    using assms quad_clean mac_clean by (auto simp: neighbour_ok_def)
  define a where "a = mac_text (nb_mac n) @ '' '' @ nb_rest n @ [CHR 0x0A]"
  define b where "b = pad 12 (nb_flags n) @ '' '' @ a"
  define c where "c = pad 12 (nb_hwtype n) @ '' '' @ b"
  have 1: "scan_word 63 (pad 16 (print_quad (nb_ip n)) @ '' '' @ c) = Some (print_quad (nb_ip n), replicate (16 - length (print_quad (nb_ip n))) (CHR '' '') @ '' '' @ c)"
    using ok(1,2) by (intro scan_word_pad) auto
  have 2: "scan_word w (replicate k (CHR '' '') @ '' '' @ c) = Some (nb_hwtype n, replicate (12 - length (nb_hwtype n)) (CHR '' '') @ '' '' @ b)"
    if "length (nb_hwtype n) \<le> w" for k w
    using scan_word_pad [OF ok(3) that] by (simp add: scan_word_blanks scan_word_blank c_def)
  have 3: "scan_word 15 (replicate k (CHR '' '') @ '' '' @ b) = Some (nb_flags n, replicate (12 - length (nb_flags n)) (CHR '' '') @ '' '' @ a)" for k
    using scan_word_pad [OF ok(4,5)] by (simp add: scan_word_blanks scan_word_blank b_def)
  have 4: "scan_word 31 (replicate k (CHR '' '') @ '' '' @ a) = Some (mac_text (nb_mac n), CHR '' '' # nb_rest n @ [CHR 0x0A])" for k
    using clean_word [OF ok(6), of 31] ok(7) by (simp add: scan_word_blanks scan_word_blank a_def)
  have len: "length (nb_hwtype n) \<le> length (replicate k (CHR '' '') @ '' '' @ c)" for k by (simp add: c_def pad_chars)
  have "arp_line n @ [CHR 0x0A] = pad 16 (print_quad (nb_ip n)) @ '' '' @ c" by (simp add: arp_line_def a_def b_def c_def)
  then show ?thesis by (simp only: arp_fields_def 1 2 [OF len] 3 4 Option.bind.simps prod.case)
qed

definition complete_for :: "bytes \<Rightarrow> neighbour \<Rightarrow> bool" where
  "complete_for ip n \<longleftrightarrow> nb_ip n = ip \<and> \<not> list_all (\<lambda>b. b = 0) (nb_mac n)"

lemma dec_nat_dot: "dec_nat m @ CHR ''.'' # r = dec_nat n @ CHR ''.'' # r' \<Longrightarrow> m = n \<and> r = r'"
proof -
  assume e: "dec_nat m @ CHR ''.'' # r = dec_nat n @ CHR ''.'' # r'"
  have "digits dec_digit 10 0 (dec_nat k @ CHR ''.'' # t) = (int k, CHR ''.'' # t)" for k t
    by (rule digits_dec_nat) (simp add: dec_digit_def)
  from this [of m r] this [of n r'] show ?thesis unfolding e by simp
qed

lemma dec_nat_inj: "dec_nat m = dec_nat n \<Longrightarrow> m = n"
proof -
  assume e: "dec_nat m = dec_nat n"
  have "digits dec_digit 10 0 (dec_nat k @ []) = (int k, [])" for k by (rule digits_dec_nat) simp
  from this [of m] this [of n] show ?thesis unfolding e by simp
qed

lemma print_quad_inj:
  assumes "length a = 4" "length b = 4" "print_quad a = print_quad b"
  shows "a = b"
proof -
  obtain a1 a2 a3 a4 where a: "a = [a1, a2, a3, a4]" using assms(1) by (auto simp: length_Suc_conv eval_nat_numeral)
  obtain b1 b2 b3 b4 where b: "b = [b1, b2, b3, b4]" using assms(2) by (auto simp: length_Suc_conv eval_nat_numeral)
  show ?thesis using assms(3) by (auto simp: a b print_quad_def dest!: dec_nat_dot dec_nat_inj intro: unsigned_word_eqI)
qed

lemma arp_walk_lines:
  "list_all neighbour_ok ns \<Longrightarrow> length ip = 4 \<Longrightarrow> arp_walk (print_quad ip) (map (\<lambda>n. arp_line n @ [CHR 0x0A]) ns) =
     map_option nb_mac (List.find (complete_for ip) ns)"
proof (induction ns)
  case (Cons n ns)
  have n: "neighbour_ok n" "length (nb_mac n) = 6" "length (nb_ip n) = 4" using Cons.prems(1) by (simp_all add: neighbour_ok_def)
  have ip: "print_quad (nb_ip n) = print_quad ip \<longleftrightarrow> nb_ip n = ip" using print_quad_inj [OF n(3) Cons.prems(2)] by blast
  have z: "list_all (\<lambda>x. x = 0) (map ucast (nb_mac n) :: u32 list) = list_all (\<lambda>b. b = 0) (nb_mac n)" by (simp add: list_all_iff octet_ucast)
  have m: "map ucast (map ucast (nb_mac n) :: u32 list) = nb_mac n" by (simp add: comp_def octet_ucast)
  have "arp_walk (print_quad ip) ((arp_line n @ [CHR 0x0A]) # ls) = (if complete_for ip n then Some (nb_mac n) else arp_walk (print_quad ip) ls)" for ls
    by (simp add: arp_line_fields [OF n(1)] scan_mac_text [OF n(2)] ip z m complete_for_def del: map_map list.pred_map)
  then show ?case using Cons by simp
qed simp

lemma gateway_mac_read:
  assumes "line_ok header" "list_all neighbour_ok ns" "length ip = 4"
  shows "gateway_mac_v4 (Some (table_text (header # map arp_line ns))) (print_quad ip) = map_option nb_mac (List.find (complete_for ip) ns)"
proof -
  have "list_all line_ok (header # map arp_line ns)" using assms(1,2) arp_line_ok by (auto simp: list_all_iff)
  then show ?thesis using arp_walk_lines [OF assms(2,3)] by (simp add: gateway_mac_v4_def lines_of_table comp_def)
qed

section \<open>The fingerprint of a network\<close>



end
