(* ===== verification/Pf.thy ===== *)
theory Pf
  imports NetFp
begin

text \<open>
  The macOS layer, \<open>src/transparent/platform_macos.c\<close>: our PF anchor, the reference that keeps PF enabled and its file, and the
  watchdog process that takes both away when the daemon dies or hangs. \<open>pfctl\<close>, the process calls and \<open>ioctl\<close> are functions of
  a record; the descriptors of a child and the pipes to \<open>pfctl\<close> are inside them. \<open>m_pipe\<close> holds what was written to the
  pipe of the present watchdog.
\<close>

section \<open>State\<close>

definition PFCTL_OUT_MAX :: nat where "PFCTL_OUT_MAX = 16384"
definition RULES_MAX :: nat where "RULES_MAX = 8192"

text \<open>\<open>pf_run\<close>: arguments and standard input to exit status (-1 when it could not be run) and output. \<open>pf_waitpid\<close>: is the
  watchdog gone? \<open>pf_write\<close>: was the message written whole? \<open>pf_spawn\<close>:
  \<^const>\<open>None\<close> without a path or a pipe, else whether \<open>posix_spawn\<close> succeeded. \<open>pf_store\<close>: could the token file be replaced?\<close>

record 'k pf_env =
  pf_run :: "string list \<Rightarrow> string \<Rightarrow> 'k \<Rightarrow> int \<times> string \<times> 'k"
  pf_waitpid :: "'k \<Rightarrow> bool \<times> 'k"
  pf_write :: "string \<Rightarrow> 'k \<Rightarrow> bool \<times> 'k"
  pf_spawn :: "'k \<Rightarrow> bool option \<times> 'k"
  pf_kill :: "'k \<Rightarrow> 'k"
  pf_store :: "'k \<Rightarrow> bool \<times> 'k"
  pf_conf :: "'k \<Rightarrow> string option"

record 'k mac =
  m_port :: int
  m_ipv6 :: bool
  m_dns_port :: int
  m_token :: string
  m_stale_done :: bool
  m_wd_pid :: bool
  m_wd_fd :: bool
  m_seen_enabled :: bool
  m_seen_anchor :: bool
  m_seen_hooks :: bool
  m_removed :: bool
  m_file :: "string option"
  m_pipe :: string
  m_k :: 'k

section \<open>Running pfctl\<close>

definition pfctl_run :: "'k pf_env \<Rightarrow> string list \<Rightarrow> string \<Rightarrow> 'k \<Rightarrow> int \<times> string \<times> 'k" where
  "pfctl_run env args inp k = (case pf_run env (take 14 args) inp k of (rc, out, k) \<Rightarrow> (rc, cstr (take (PFCTL_OUT_MAX - 1) out), k))"

definition pfctl_simple :: "'k pf_env \<Rightarrow> string list \<Rightarrow> 'k \<Rightarrow> int \<times> 'k" where
  "pfctl_simple env args k = (case pfctl_run env args [] k of (rc, _, k) \<Rightarrow> (rc, k))"

definition pfctl_show :: "'k pf_env \<Rightarrow> string option \<Rightarrow> string \<Rightarrow> 'k \<Rightarrow> int \<times> string \<times> 'k" where
  "pfctl_show env anchor what k =
     pfctl_run env (case anchor of Some a \<Rightarrow> [''-a'', a, ''-s'', what] | None \<Rightarrow> [''-s'', what]) [] k"

text \<open>The text from the next line on, empty when there is none.\<close>

definition next_line :: "string \<Rightarrow> string" where
  "next_line s = drop 1 (dropWhile (\<lambda>c. c \<noteq> CHR 0x0A) s)"

lemma next_line_shorter [simp]: "s \<noteq> [] \<Longrightarrow> length (next_line s) < length s"
  using length_dropWhile_le [of "\<lambda>c. c \<noteq> CHR 0x0A" s] by (cases s) (auto simp: next_line_def le_imp_less_Suc)

definition starts_with :: "string \<Rightarrow> string \<Rightarrow> bool" where
  "starts_with p s \<longleftrightarrow> take (length p) s = p"

function has_line :: "string \<Rightarrow> string \<Rightarrow> bool" where
  "has_line s pre = (if s = [] then False else if starts_with pre s then True else has_line (next_line s) pre)"
  by auto

termination
  by (relation "measure (\<lambda>(s, p). length s)") auto

function rule_lines :: "string \<Rightarrow> nat" where
  "rule_lines s = (if s = [] then 0
     else (if hd s \<noteq> CHR 0x0A \<and> \<not> starts_with ''No ALTQ'' s \<and> \<not> starts_with ''ALTQ'' s \<and> \<not> starts_with ''pfctl:'' s then 1 else 0)
       + rule_lines (next_line s))"
  by auto

termination
  by (relation "measure length") auto

declare has_line.simps [simp del] rule_lines.simps [simp del]

section \<open>The anchor\<close>

definition anchor_flush :: "'k pf_env \<Rightarrow> 'k \<Rightarrow> 'k" where
  "anchor_flush env k =
     snd (pfctl_simple env [''-a'', TP_PF_ANCHOR, ''-F'', ''Tables'']
       (snd (pfctl_simple env [''-a'', TP_PF_ANCHOR, ''-F'', ''rules'']
         (snd (pfctl_simple env [''-a'', TP_PF_ANCHOR, ''-F'', ''nat''] k)))))"

definition anchor_load :: "'k pf_env \<Rightarrow> int \<Rightarrow> bool \<Rightarrow> int \<Rightarrow> 'k \<Rightarrow> bool \<times> 'k" where
  "anchor_load env port ipv6 dns_port k =
     (case tp_pf_ruleset RULES_MAX port ipv6 dns_port of None \<Rightarrow> (False, k)
      | Some ruleset \<Rightarrow> case pfctl_run env [''-a'', TP_PF_ANCHOR, ''-f'', ''-''] ruleset k of (rc, out, k) \<Rightarrow> (rc = 0, k))"

definition anchor_present :: "'k pf_env \<Rightarrow> 'k \<Rightarrow> bool \<times> 'k" where
  "anchor_present env k =
     (case pfctl_show env (Some TP_PF_ANCHOR) ''nat'' k of (rc, out, k) \<Rightarrow>
        if rc \<noteq> 0 \<or> \<not> sublist ''rdr pass on lo0'' out then (False, k)
        else case pfctl_show env (Some TP_PF_ANCHOR) ''rules'' k of (rc, out, k) \<Rightarrow>
          (rc = 0 \<and> sublist ''route-to'' out, k))"

definition quoted_anchor :: string where
  "quoted_anchor = ''anchor '' @ [CHR 0x22] @ ''com.apple/*'' @ [CHR 0x22]"

text \<open>Are the hooks there, and is the main ruleset empty?\<close>

definition main_hooks_present :: "'k pf_env \<Rightarrow> 'k \<Rightarrow> bool \<times> bool \<times> 'k" where
  "main_hooks_present env k =
     (case pfctl_show env None ''nat'' k of (rc, nats, k) \<Rightarrow>
        if rc \<noteq> 0 then (False, False, k)
        else case pfctl_show env None ''rules'' k of (rc, filters, k) \<Rightarrow>
        if rc \<noteq> 0 then (False, False, k)
        else (has_line nats (''rdr-'' @ quoted_anchor) \<and> has_line filters quoted_anchor, rule_lines nats = 0 \<and> rule_lines filters = 0, k))"

definition ensure_main_hooks :: "'k pf_env \<Rightarrow> 'k \<Rightarrow> bool \<times> 'k" where
  "ensure_main_hooks env k =
     (case main_hooks_present env k of (hooks, vacant, k) \<Rightarrow>
        if hooks then (True, k)
        else if \<not> vacant then (False, k)
        else let conf = (case pf_conf env k of None \<Rightarrow> [] | Some c \<Rightarrow> cstr (take 8191 c)) in
        if \<not> sublist (''rdr-'' @ quoted_anchor) conf \<or> \<not> sublist (CHR 0x0A # quoted_anchor) conf then (False, k)
        else case pfctl_simple env [''-f'', ''/etc/pf.conf''] k of (rc, k) \<Rightarrow>
        if rc \<noteq> 0 then (False, k)
        else case main_hooks_present env k of (hooks, _, k) \<Rightarrow> (hooks, k))"

section \<open>The enable reference\<close>

definition pf_enabled :: "'k pf_env \<Rightarrow> 'k \<Rightarrow> bool \<times> 'k" where
  "pf_enabled env k = (case pfctl_show env None ''info'' k of (rc, out, k) \<Rightarrow> (rc = 0 \<and> sublist ''Status: Enabled'' out, k))"

definition isdigit_c :: "char \<Rightarrow> bool" where
  "isdigit_c c \<longleftrightarrow> dec_digit c \<noteq> None"

definition token_read :: "string option \<Rightarrow> string" where
  "token_read f = (case f of None \<Rightarrow> [] | Some c \<Rightarrow> takeWhile isdigit_c (fst (fgets 32 c)))"

definition token_file_write :: "'k pf_env \<Rightarrow> 'k mac \<Rightarrow> 'k mac" where
  "token_file_write env m = (case pf_store env (m_k m) of (ok, k) \<Rightarrow>
     m\<lparr>m_k := k, m_file := (if ok then Some (m_token m @ [CHR 0x0A]) else m_file m)\<rparr>)"

definition token_file_forget :: "string \<Rightarrow> string option \<Rightarrow> string option" where
  "token_file_forget token f = (let cur = token_read f in if cur \<noteq> [] \<and> cur = token then None else f)"

definition pf_release :: "'k pf_env \<Rightarrow> string \<Rightarrow> 'k \<Rightarrow> 'k" where
  "pf_release env token k = (if token \<noteq> [] then snd (pfctl_simple env [''-X'', token] k) else k)"

text \<open>What follows the first occurrence of a text.\<close>

fun after :: "string \<Rightarrow> string \<Rightarrow> string option" where
  "after p s = (if starts_with p s then Some (drop (length p) s) else case s of [] \<Rightarrow> None | _ # r \<Rightarrow> after p r)"

declare after.simps [simp del]

definition pf_enable :: "'k pf_env \<Rightarrow> 'k mac \<Rightarrow> bool \<times> 'k mac" where
  "pf_enable env m =
     (case pfctl_run env [''-E''] [] (m_k m) of (rc, out, k) \<Rightarrow>
        case after ''Token : '' out of None \<Rightarrow> (False, m\<lparr>m_k := k\<rparr>)
        | Some p \<Rightarrow> let token = take 31 (takeWhile isdigit_c p); m = m\<lparr>m_k := k, m_token := token\<rparr> in
            if token = [] then (False, m) else (True, token_file_write env m))"

section \<open>The watchdog, daemon side\<close>

definition wd_send :: "'k pf_env \<Rightarrow> string \<Rightarrow> 'k mac \<Rightarrow> 'k mac" where
  "wd_send env msg m =
     (if \<not> m_wd_fd m then m
      else case pf_write env msg (m_k m) of (ok, k) \<Rightarrow>
        if ok then m\<lparr>m_k := k, m_pipe := m_pipe m @ msg\<rparr> else m\<lparr>m_k := k, m_wd_fd := False\<rparr>)"

text \<open>\<open>tries\<close> further looks, 20 milliseconds apart.\<close>

fun wd_reap :: "'k pf_env \<Rightarrow> nat \<Rightarrow> 'k mac \<Rightarrow> 'k mac" where
  "wd_reap env tries m =
     (if \<not> m_wd_pid m then m
      else case pf_waitpid env (m_k m) of (gone, k) \<Rightarrow>
        if gone then m\<lparr>m_k := k, m_wd_pid := False\<rparr>
        else case tries of 0 \<Rightarrow> m\<lparr>m_k := k\<rparr> | Suc n \<Rightarrow> wd_reap env n (m\<lparr>m_k := k\<rparr>))"

declare wd_reap.simps [simp del]

definition wd_send_token :: "'k pf_env \<Rightarrow> 'k mac \<Rightarrow> 'k mac" where
  "wd_send_token env m = (if m_token m = [] then m else wd_send env (''t'' @ m_token m @ [CHR 0x0A]) m)"

definition wd_spawn :: "'k pf_env \<Rightarrow> 'k mac \<Rightarrow> 'k mac" where
  "wd_spawn env m = (case pf_spawn env (m_k m) of (ok, k) \<Rightarrow>
     case ok of None \<Rightarrow> m\<lparr>m_k := k\<rparr>
     | Some False \<Rightarrow> m\<lparr>m_k := k, m_wd_pid := False\<rparr>
     | Some True \<Rightarrow> wd_send_token env (m\<lparr>m_k := k, m_wd_pid := True, m_wd_fd := True, m_pipe := []\<rparr>))"

definition wd_kill :: "'k pf_env \<Rightarrow> 'k mac \<Rightarrow> 'k mac" where
  "wd_kill env m = (if m_wd_pid m then wd_reap env 50 (m\<lparr>m_k := pf_kill env (m_k m)\<rparr>) else m)"

definition wd_beat :: "'k pf_env \<Rightarrow> 'k mac \<Rightarrow> 'k mac" where
  "wd_beat env m =
     (let m = wd_reap env 0 m; m = (if m_wd_pid m then wd_send env ''b'' m else m) in
      if m_wd_pid m \<and> m_wd_fd m then m else wd_spawn env (wd_kill env (m\<lparr>m_wd_fd := False\<rparr>)))"

definition wd_stop :: "'k pf_env \<Rightarrow> 'k mac \<Rightarrow> 'k mac" where
  "wd_stop env m = wd_kill env (wd_reap env 100 ((wd_send env ''q'' m)\<lparr>m_wd_fd := False\<rparr>))"

section \<open>Installing and removing\<close>

definition stale_cleanup :: "'k pf_env \<Rightarrow> 'k mac \<Rightarrow> 'k mac" where
  "stale_cleanup env m =
     (let m = m\<lparr>m_k := anchor_flush env (m_k m)\<rparr>; old = token_read (m_file m) in
      if old = [] then m else m\<lparr>m_k := pf_release env old (m_k m), m_file := token_file_forget old (m_file m)\<rparr>)"

text \<open>The part of \<open>tpp_install\<close> that makes sure PF is enabled by a reference of ours.\<close>

definition take_reference :: "'k pf_env \<Rightarrow> 'k mac \<Rightarrow> bool \<times> 'k mac" where
  "take_reference env m =
     (case (if m_token m = [] then (False, m) else case pf_enabled env (m_k m) of (on, k) \<Rightarrow> (on, m\<lparr>m_k := k\<rparr>)) of (on, m) \<Rightarrow>
        if on then (True, m)
        else let m = (if m_token m = [] then m else m\<lparr>m_k := pf_release env (m_token m) (m_k m), m_token := []\<rparr>) in
          case pf_enable env m of (ok, m) \<Rightarrow>
            if ok then (True, wd_send_token env m) else (False, m\<lparr>m_k := anchor_flush env (m_k m)\<rparr>))"

definition mac_install :: "'k pf_env \<Rightarrow> int \<Rightarrow> bool \<Rightarrow> int \<Rightarrow> 'k mac \<Rightarrow> bool \<times> 'k mac" where
  "mac_install env port ipv6 dns_port m =
     (let m = m\<lparr>m_port := port, m_ipv6 := ipv6, m_dns_port := dns_port, m_removed := False\<rparr>;
          m = (if m_stale_done m then m else (stale_cleanup env m)\<lparr>m_stale_done := True\<rparr>) in
      case ensure_main_hooks env (m_k m) of (hooks, k) \<Rightarrow>
        let m = m\<lparr>m_k := k, m_seen_hooks := hooks\<rparr> in
        if \<not> hooks then (False, m)
        else case anchor_load env port ipv6 dns_port (anchor_flush env (m_k m)) of (loaded, k) \<Rightarrow>
          let m = m\<lparr>m_k := k\<rparr> in
          if \<not> loaded then (False, m)
          else case take_reference env m of (ok, m) \<Rightarrow>
          if \<not> ok then (False, m)
          else case anchor_present env (m_k m) of (present, k) \<Rightarrow>
            (present, wd_beat env (m\<lparr>m_k := k, m_seen_enabled := True, m_seen_anchor := present\<rparr>)))"

definition mac_refresh :: "'k pf_env \<Rightarrow> 'k mac \<Rightarrow> int \<times> 'k mac" where
  "mac_refresh env m =
     (let m = wd_beat env m in
      case pf_enabled env (m_k m) of (enabled, k) \<Rightarrow>
      case anchor_present env k of (anchor, k) \<Rightarrow>
      case main_hooks_present env k of (hooks, _, k) \<Rightarrow>
        let m = m\<lparr>m_k := k, m_seen_enabled := enabled, m_seen_anchor := anchor, m_seen_hooks := hooks\<rparr> in
        if enabled \<and> anchor \<and> hooks then (0, m)
        else case mac_install env (m_port m) (m_ipv6 m) (m_dns_port m) m of (ok, m) \<Rightarrow> (if ok then 1 else - 1, m))"

definition mac_remove :: "'k pf_env \<Rightarrow> 'k mac \<Rightarrow> 'k mac" where
  "mac_remove env m =
     (let m = m\<lparr>m_k := anchor_flush env (m_k m)\<rparr>;
          m = (if m_token m = [] then m
               else m\<lparr>m_k := pf_release env (m_token m) (m_k m), m_file := token_file_forget (m_token m) (m_file m), m_token := []\<rparr>);
          m = wd_stop env m in
      case pf_enabled env (m_k m) of (on, k) \<Rightarrow> m\<lparr>m_k := k, m_seen_enabled := on, m_seen_anchor := False, m_removed := True\<rparr>)"

text \<open>One run for each family; \<open>ntop\<close> is \<open>inet_ntop\<close>.\<close>

definition quic_args :: "(nat \<Rightarrow> bytes \<Rightarrow> string option) \<Rightarrow> nat \<Rightarrow> dns_addr list \<Rightarrow> string list" where
  "quic_args ntop fam addrs =
     [''-a'', TP_PF_ANCHOR, ''-t'', if fam = 4 then TP_PF_QUIC_TABLE4 else TP_PF_QUIC_TABLE6, ''-T'', ''add''] @
     List.map_filter (\<lambda>a. if da_family a = fam then ntop fam (da_addr a) else None) (take DNS_MAX_ADDRS addrs)"

definition mac_quic_block :: "'k pf_env \<Rightarrow> (nat \<Rightarrow> bytes \<Rightarrow> string option) \<Rightarrow> dns_addr list \<Rightarrow> 'k \<Rightarrow> 'k" where
  "mac_quic_block env ntop addrs k =
     (let run = (\<lambda>fam k. let args = quic_args ntop fam addrs in if length args > 6 then snd (pfctl_simple env args k) else k) in run 6 (run 4 k))"

definition mac_quic_flush :: "'k pf_env \<Rightarrow> 'k \<Rightarrow> 'k" where
  "mac_quic_flush env k =
     snd (pfctl_simple env [''-a'', TP_PF_ANCHOR, ''-t'', TP_PF_QUIC_TABLE6, ''-T'', ''flush'']
       (snd (pfctl_simple env [''-a'', TP_PF_ANCHOR, ''-t'', TP_PF_QUIC_TABLE4, ''-T'', ''flush''] k)))"

definition mac_status_extra :: "'k mac \<Rightarrow> string \<Rightarrow> nat \<Rightarrow> string" where
  "mac_status_extra m pid out_size =
     take (out_size - 1) (''pf: '' @ (if m_seen_enabled m then ''enabled'' else ''disabled'') @ [CHR 0x0A] @
       ''pf_anchor: '' @ TP_PF_ANCHOR @ '' '' @ (if m_removed m then ''removed'' else if m_seen_anchor m then ''loaded'' else ''MISSING'') @ [CHR 0x0A] @
       ''pf_hooks: '' @ (if m_seen_hooks m then ''ok'' else ''MISSING'') @ [CHR 0x0A] @
       ''pf_watchdog: '' @ (if m_wd_pid m then ''running (pid '' @ pid @ '')'' else ''not running'') @ [CHR 0x0A])"

section \<open>Destinations, own ports and the network\<close>

text \<open>\<open>lookup\<close> is \<open>DIOCNATLOOK\<close>: where the peer of a translated connection was going.\<close>

definition natlook :: "(bool \<Rightarrow> sockaddr \<Rightarrow> sockaddr \<Rightarrow> sockaddr option) \<Rightarrow> bool \<Rightarrow> sockaddr \<Rightarrow> sockaddr \<Rightarrow> sockaddr option" where
  "natlook lookup tcp peer local =
     (if sa_family peer \<noteq> sa_family local then None
      else case lookup tcp peer local of None \<Rightarrow> None
      | Some d \<Rightarrow>
          if sa_family d = AF_INET then (if sa_addr d ! 0 = 127 \<or> sa_addr d = [0, 0, 0, 0] then None else Some d)
          else if sa_addr d = replicate 15 0 @ [1] \<or> sa_addr d = replicate 16 0 \<or> take 12 (sa_addr d) = replicate 10 0 @ [0xFF, 0xFF] then None
          else Some d)"

definition mac_original_dst :: "(bool \<Rightarrow> sockaddr \<Rightarrow> sockaddr \<Rightarrow> sockaddr option) \<Rightarrow> (sockaddr \<times> sockaddr) option \<Rightarrow> sockaddr option" where
  "mac_original_dst lookup ends = (case ends of None \<Rightarrow> None | Some (peer, local) \<Rightarrow> natlook lookup True peer local)"

definition mac_dns_original :: "(bool \<Rightarrow> sockaddr \<Rightarrow> sockaddr \<Rightarrow> sockaddr option) \<Rightarrow> bool \<Rightarrow> (sockaddr \<times> sockaddr) option \<Rightarrow> sockaddr option" where
  "mac_dns_original lookup tcp ends = (case ends of None \<Rightarrow> None | Some (peer, local) \<Rightarrow> natlook lookup tcp peer local)"

text \<open>\<open>bind_port\<close>: bound, or busy (\<open>EADDRINUSE\<close>, \<open>EACCES\<close>), or failed.\<close>

datatype bind_result = Bound | Bind_busy | Bind_failed

fun mac_prepare_tries :: "(af \<Rightarrow> int \<Rightarrow> 'u \<Rightarrow> bind_result \<times> 'u) \<Rightarrow> af \<Rightarrow> nat \<Rightarrow> u32 \<Rightarrow> 'u \<Rightarrow> int option \<times> u32 \<times> 'u" where
  "mac_prepare_tries bind_port family (Suc tries) own_next u =
     (let port = TP_PF_OWN_PORT_LO + uint own_next mod (TP_PF_OWN_PORT_HI - TP_PF_OWN_PORT_LO + 1) in
      case bind_port family port u of (res, u) \<Rightarrow>
        case res of Bound \<Rightarrow> (Some port, own_next + 1, u)
        | Bind_busy \<Rightarrow> mac_prepare_tries bind_port family tries (own_next + 1) u
        | Bind_failed \<Rightarrow> (None, own_next + 1, u))"
| "mac_prepare_tries bind_port family 0 own_next u = (None, own_next, u)"

definition mac_prepare_socket :: "(af \<Rightarrow> int \<Rightarrow> 'u \<Rightarrow> bind_result \<times> 'u) \<Rightarrow> af \<Rightarrow> u32 \<Rightarrow> 'u \<Rightarrow> int option \<times> u32 \<times> 'u" where
  "mac_prepare_socket bind_port family own_next u = mac_prepare_tries bind_port family 64 own_next u"

text \<open>A routing message: its header, and the addresses after it as bytes.\<close>

datatype rtm_type = RTM_NEWADDR | RTM_DELADDR | RTM_IFINFO | RTM_ADD | RTM_DELETE | RTM_CHANGE | RTM_OTHER

record rt_msg =
  rtm_kind :: rtm_type
  rtm_host :: bool
  rtm_wascloned :: bool
  rtm_llinfo :: bool
  rtm_up :: bool
  rtm_ifscope :: bool
  rtm_index :: nat
  rtm_addrs :: "bool list"
  rtm_body :: bytes

definition rtm_relevant :: "rt_msg \<Rightarrow> bool" where
  "rtm_relevant m \<longleftrightarrow> rtm_kind m \<in> {RTM_NEWADDR, RTM_DELADDR, RTM_IFINFO} \<or>
     rtm_kind m \<in> {RTM_ADD, RTM_DELETE, RTM_CHANGE} \<and> \<not> (rtm_host m \<or> rtm_wascloned m \<or> rtm_llinfo m)"

definition mac_netwatch_drain :: "rt_msg option list \<Rightarrow> bool" where
  "mac_netwatch_drain msgs = list_ex (\<lambda>m. case m of None \<Rightarrow> False | Some m \<Rightarrow> rtm_relevant m) msgs"

definition SA_ROUNDUP :: "nat \<Rightarrow> nat" where
  "SA_ROUNDUP a = (if a > 0 then 4 * ((a + 3) div 4) else 4)"

text \<open>The address at each index, as the bytes from its start.\<close>

fun rt_addrs :: "bool list \<Rightarrow> bytes \<Rightarrow> bytes option list" where
  "rt_addrs (present # ps) p =
     (if present \<and> p \<noteq> [] then Some p # rt_addrs ps (drop (SA_ROUNDUP (unat (hd p))) p) else None # rt_addrs ps p)"
| "rt_addrs [] p = []"

definition bsd_inet :: "bytes option \<Rightarrow> bytes option" where
  "bsd_inet sa = (case sa of Some p \<Rightarrow> if length p \<ge> 8 \<and> p ! 1 = 2 then Some (take 4 (drop 4 p)) else None | None \<Rightarrow> None)"

text \<open>\<open>RTAX_DST\<close> is 0 and \<open>RTAX_GATEWAY\<close> 1. \<open>dump\<close> is what \<open>sysctl\<close> gives.\<close>

fun mac_default_route :: "rt_msg list \<Rightarrow> (bytes \<times> nat) option" where
  "mac_default_route (m # ms) =
     (let sa = rt_addrs (rtm_addrs m) (rtm_body m) in
      case (if length sa > 1 then (bsd_inet (sa ! 0), bsd_inet (sa ! 1)) else (None, None)) of
        (Some dst, Some gw) \<Rightarrow> if dst = [0, 0, 0, 0] \<and> rtm_up m \<and> \<not> rtm_ifscope m then Some (gw, rtm_index m) else mac_default_route ms
      | _ \<Rightarrow> mac_default_route ms)"
| "mac_default_route [] = None"

text \<open>The hardware address of a link-level address: after eight bytes and the interface name.\<close>

definition bsd_lladdr :: "bytes option \<Rightarrow> nat \<Rightarrow> bytes option" where
  "bsd_lladdr sa n = (case sa of Some p \<Rightarrow>
       if length p \<ge> 8 \<and> p ! 1 = 18 then Some (take (min n (unat (p ! 6))) (drop (8 + unat (p ! 5)) p)) else None | None \<Rightarrow> None)"

fun mac_gateway_mac :: "bytes \<Rightarrow> rt_msg list \<Rightarrow> bytes" where
  "mac_gateway_mac gw (m # ms) =
     (let sa = rt_addrs (rtm_addrs m) (rtm_body m) in
      case (if length sa > 1 then (bsd_inet (sa ! 0), bsd_lladdr (sa ! 1) 16) else (None, None)) of
        (Some dst, Some mac) \<Rightarrow> if dst = gw \<and> mac \<noteq> [] then mac else mac_gateway_mac gw ms
      | _ \<Rightarrow> mac_gateway_mac gw ms)"
| "mac_gateway_mac gw [] = []"

definition mac_fingerprint :: "rt_msg list \<Rightarrow> rt_msg list \<Rightarrow> (nat \<Rightarrow> string option) \<Rightarrow> u64" where
  "mac_fingerprint routes arp ifname =
     (case mac_default_route routes of None \<Rightarrow> NETFP_UNKNOWN
      | Some (gw, ifindex) \<Rightarrow>
          let h = 1469598103934665603;
              h = (case ifname ifindex of None \<Rightarrow> h | Some name \<Rightarrow> fnv1a h (str_bytes name));
              h = fnv1a (fnv1a h gw) (mac_gateway_mac gw arp) in
          if h = NETFP_UNKNOWN then 1 else h)"

definition mac_known :: "(string \<times> string) list" where
  "mac_known = [(''tpws'', ''zapret (tpws) is running''), (''spoofdpi'', ''SpoofDPI is running''), (''ciadpi'', ''ByeDPI (ciadpi) is running''),
     (''byedpi'', ''ByeDPI is running''), (''dpi-bypass'', ''dpi-bypass is running'')]"

text \<open>The names of the running processes, at most 4096 of them.\<close>

fun mac_conflict_in :: "string option list \<Rightarrow> string option" where
  "mac_conflict_in (Some name # rest) = (case map_of mac_known name of Some t \<Rightarrow> Some t | None \<Rightarrow> mac_conflict_in rest)"
| "mac_conflict_in (None # rest) = mac_conflict_in rest"
| "mac_conflict_in [] = None"

definition mac_conflict :: "string option list \<Rightarrow> string option" where
  "mac_conflict names = mac_conflict_in (take 4096 names)"

section \<open>The watchdog process\<close>

text \<open>\<open>token[32]\<close> is \<open>w_buf\<close>, of which only the first character is set at the start.\<close>

record watchdog =
  w_buf :: string
  w_tlen :: nat
  w_in_token :: bool
  w_clean :: bool
  w_flushed :: bool
  w_last :: int

definition wd_token :: "watchdog \<Rightarrow> string" where
  "wd_token w = cstr (w_buf w)"

text \<open>One character of the pipe; \<open>now\<close> is the clock.\<close>

definition wd_byte :: "int \<Rightarrow> char \<Rightarrow> watchdog \<Rightarrow> watchdog" where
  "wd_byte now c w =
     (if w_in_token w \<and> isdigit_c c \<and> w_tlen w < 31 then w\<lparr>w_buf := (w_buf w)[w_tlen w := c], w_tlen := w_tlen w + 1\<rparr>
      else if w_in_token w then w\<lparr>w_buf := (w_buf w)[w_tlen w := CHR 0x00], w_in_token := False\<rparr>
      else if c = CHR ''t'' then w\<lparr>w_in_token := True, w_tlen := 0\<rparr>
      else if c = CHR ''q'' then w\<lparr>w_clean := True\<rparr>
      else if c = CHR ''b'' then w\<lparr>w_last := now, w_flushed := False\<rparr>
      else w)"

text \<open>What a round of the loop sees: what was read (\<^const>\<open>None\<close> at the end of the pipe), whether a signal came, and the clock when the
  characters are looked at and at the end.\<close>

datatype wd_round = Wd_round "string option" bool int int

definition wd_cleanup :: "'k pf_env \<Rightarrow> string \<Rightarrow> 'k \<times> string option \<Rightarrow> 'k \<times> string option" where
  "wd_cleanup env token kf =
     (let k = anchor_flush env (fst kf) in
      if token = [] then (k, snd kf) else (pf_release env token k, token_file_forget token (snd kf)))"

text \<open>The rounds one after the other; the first result says whether the watchdog has ended.\<close>

fun wd_loop :: "'k pf_env \<Rightarrow> wd_round list \<Rightarrow> watchdog \<times> 'k \<times> string option \<Rightarrow> bool \<times> watchdog \<times> 'k \<times> string option" where
  "wd_loop env [] st = (False, st)"
| "wd_loop env (Wd_round None term t t' # rs) (w, kf) = (True, w, if w_clean w then kf else wd_cleanup env (wd_token w) kf)"
| "wd_loop env (Wd_round (Some cs) term t t' # rs) (w, kf) =
     (let w = fold (wd_byte t) cs w in
      if term then (True, w, wd_cleanup env (wd_token w) kf)
      else if \<not> w_flushed w \<and> t' - w_last w > TP_ALIVE_TIMEOUT_S * 1000
      then wd_loop env rs (w\<lparr>w_flushed := True\<rparr>, anchor_flush env (fst kf), snd kf)
      else wd_loop env rs (w, kf))"

definition watchdog0 :: "string \<Rightarrow> int \<Rightarrow> watchdog" where
  "watchdog0 junk now = \<lparr>w_buf = CHR 0x00 # junk, w_tlen = 0, w_in_token = False, w_clean = False, w_flushed = False, w_last = now\<rparr>"

section \<open>What is assumed of PF\<close>

text \<open>\<open>refs\<close> are the enable references PF holds, \<open>parts\<close> what is loaded in our anchor. Flushing takes one part away; \<open>-E\<close> adds a reference and
  prints it, or does nothing; \<open>-X\<close> gives one back; other commands leave the references alone, and showing changes nothing.\<close>

definition pf_parts :: "string set" where
  "pf_parts = {''nat'', ''rules'', ''Tables''}"

definition token_text :: "string \<Rightarrow> bool" where
  "token_text t \<longleftrightarrow> t \<noteq> [] \<and> length t \<le> 31 \<and> list_all isdigit_c t"

definition pf_laws :: "'k pf_env \<Rightarrow> ('k \<Rightarrow> string set) \<Rightarrow> ('k \<Rightarrow> string set) \<Rightarrow> bool" where
  "pf_laws env refs parts \<longleftrightarrow>
     (\<forall>k. parts k \<subseteq> pf_parts) \<and>
     (\<forall>x \<in> pf_parts. \<forall>k rc out k'. pf_run env [''-a'', TP_PF_ANCHOR, ''-F'', x] [] k = (rc, out, k') \<longrightarrow> parts k' = parts k - {x}) \<and>
     (\<forall>k rc out k'. pf_run env [''-E''] [] k = (rc, out, k') \<longrightarrow>
        (case after ''Token : '' (cstr (take (PFCTL_OUT_MAX - 1) out)) of None \<Rightarrow> refs k' = refs k
         | Some p \<Rightarrow> token_text (takeWhile isdigit_c p) \<and> refs k' = insert (takeWhile isdigit_c p) (refs k))) \<and>
     (\<forall>t k rc out k'. pf_run env [''-X'', t] [] k = (rc, out, k') \<longrightarrow> refs k' = refs k - {t} \<and> parts k' = parts k) \<and>
     (\<forall>a as inp k rc out k'. a \<notin> {''-E'', ''-X''} \<longrightarrow> pf_run env (a # as) inp k = (rc, out, k') \<longrightarrow> refs k' = refs k) \<and>
     (\<forall>what k rc out k'. pf_run env [''-s'', what] [] k = (rc, out, k') \<longrightarrow> parts k' = parts k) \<and>
     (\<forall>k x k'. pf_waitpid env k = (x, k') \<longrightarrow> refs k' = refs k \<and> parts k' = parts k) \<and>
     (\<forall>s k x k'. pf_write env s k = (x, k') \<longrightarrow> refs k' = refs k \<and> parts k' = parts k) \<and>
     (\<forall>k x k'. pf_spawn env k = (x, k') \<longrightarrow> refs k' = refs k \<and> parts k' = parts k) \<and>
     (\<forall>k. refs (pf_kill env k) = refs k \<and> parts (pf_kill env k) = parts k) \<and>
     (\<forall>k x k'. pf_store env k = (x, k') \<longrightarrow> refs k' = refs k \<and> parts k' = parts k)"

lemma pf_law:
  assumes "pf_laws env refs parts"
  shows "parts k \<subseteq> pf_parts" "x \<in> pf_parts \<Longrightarrow> pf_run env [''-a'', TP_PF_ANCHOR, ''-F'', x] [] k = (rc, out, k') \<Longrightarrow> parts k' = parts k - {x}"
    "pf_run env [''-E''] [] k = (rc, out, k') \<Longrightarrow>
        (case after ''Token : '' (cstr (take (PFCTL_OUT_MAX - 1) out)) of None \<Rightarrow> refs k' = refs k
         | Some p \<Rightarrow> token_text (takeWhile isdigit_c p) \<and> refs k' = insert (takeWhile isdigit_c p) (refs k))"
    "pf_run env [''-X'', t] [] k = (rc, out, k') \<Longrightarrow> refs k' = refs k - {t} \<and> parts k' = parts k"
    "a \<notin> {''-E'', ''-X''} \<Longrightarrow> pf_run env (a # as) inp k = (rc, out, k') \<Longrightarrow> refs k' = refs k"
    "pf_run env [''-s'', what] [] k = (rc, out, k') \<Longrightarrow> parts k' = parts k"
    "pf_waitpid env k = (gone, k') \<Longrightarrow> refs k' = refs k \<and> parts k' = parts k"
    "pf_write env msg k = (ok, k') \<Longrightarrow> refs k' = refs k \<and> parts k' = parts k"
    "pf_spawn env k = (st, k') \<Longrightarrow> refs k' = refs k \<and> parts k' = parts k"
    "refs (pf_kill env k) = refs k" "parts (pf_kill env k) = parts k"
    "pf_store env k = (ok, k') \<Longrightarrow> refs k' = refs k \<and> parts k' = parts k"
proof -
  note l1 = assms [unfolded pf_laws_def]
  note l2 = l1 [THEN conjunct2]
  note l3 = l2 [THEN conjunct2]
  note l4 = l3 [THEN conjunct2]
  note l5 = l4 [THEN conjunct2]
  note l6 = l5 [THEN conjunct2]
  note l7 = l6 [THEN conjunct2]
  note l8 = l7 [THEN conjunct2]
  note l9 = l8 [THEN conjunct2]
  note l10 = l9 [THEN conjunct2]
  note l11 = l10 [THEN conjunct2]
  show "parts k \<subseteq> pf_parts" using l1 [THEN conjunct1] by blast
  show "parts k' = parts k - {x}" if "x \<in> pf_parts" "pf_run env [''-a'', TP_PF_ANCHOR, ''-F'', x] [] k = (rc, out, k')" using l2 [THEN conjunct1] that by blast
  show "(case after ''Token : '' (cstr (take (PFCTL_OUT_MAX - 1) out)) of None \<Rightarrow> refs k' = refs k
         | Some p \<Rightarrow> token_text (takeWhile isdigit_c p) \<and> refs k' = insert (takeWhile isdigit_c p) (refs k))" if "pf_run env [''-E''] [] k = (rc, out, k')" using l3 [THEN conjunct1] that by blast
  show "refs k' = refs k - {t} \<and> parts k' = parts k" if "pf_run env [''-X'', t] [] k = (rc, out, k')" using l4 [THEN conjunct1] that by blast
  show "refs k' = refs k" if "a \<notin> {''-E'', ''-X''}" "pf_run env (a # as) inp k = (rc, out, k')" using l5 [THEN conjunct1] that by blast
  show "parts k' = parts k" if "pf_run env [''-s'', what] [] k = (rc, out, k')" using l6 [THEN conjunct1] that by blast
  show "refs k' = refs k \<and> parts k' = parts k" if "pf_waitpid env k = (gone, k')" using l7 [THEN conjunct1] that by blast
  show "refs k' = refs k \<and> parts k' = parts k" if "pf_write env msg k = (ok, k')" using l8 [THEN conjunct1] that by blast
  show "refs k' = refs k \<and> parts k' = parts k" if "pf_spawn env k = (st, k')" using l9 [THEN conjunct1] that by blast
  show "refs (pf_kill env k) = refs k" using l10 [THEN conjunct1] by blast
  show "parts (pf_kill env k) = parts k" using l10 [THEN conjunct1] by blast
  show "refs k' = refs k \<and> parts k' = parts k" if "pf_store env k = (ok, k')" using l11 that by blast
qed

subsection \<open>Commands\<close>

lemma run_refs:
  "pf_laws env refs parts \<Longrightarrow> a \<notin> {''-E'', ''-X''} \<Longrightarrow> pfctl_run env (a # as) inp k = (rc, out, k') \<Longrightarrow> refs k' = refs k"
  using pf_law(5) [of env refs parts a "take 13 as" inp k] by (auto simp: pfctl_run_def split: prod.splits)

lemma simple_refs:
  "pf_laws env refs parts \<Longrightarrow> a \<notin> {''-E'', ''-X''} \<Longrightarrow> refs (snd (pfctl_simple env (a # as) k)) = refs k"
  using run_refs [of env refs parts a as "[]" k] by (auto simp: pfctl_simple_def split: prod.splits)

lemma show_refs: "pf_laws env refs parts \<Longrightarrow> pfctl_show env anchor what k = (rc, out, k') \<Longrightarrow> refs k' = refs k"
  using run_refs [of env refs parts "''-s''" "[what]" "[]" k rc out k'] run_refs [of env refs parts "''-a''" "[the anchor, ''-s'', what]" "[]" k rc out k']
  by (cases anchor) (simp_all add: pfctl_show_def)

lemma show_parts: "pf_laws env refs parts \<Longrightarrow> pfctl_show env None what k = (rc, out, k') \<Longrightarrow> parts k' = parts k"
  using pf_law(6) [of env refs parts what k] by (auto simp: pfctl_show_def pfctl_run_def split: prod.splits)

lemma simple_flush: "pf_laws env refs parts \<Longrightarrow> x \<in> pf_parts \<Longrightarrow> parts (snd (pfctl_simple env [''-a'', TP_PF_ANCHOR, ''-F'', x] k)) = parts k - {x}"
  using pf_law(2) [of env refs parts x k] by (auto simp: pfctl_simple_def pfctl_run_def split: prod.splits)

lemma flush_laws:
  assumes "pf_laws env refs parts"
  shows "refs (anchor_flush env k) = refs k" "parts (anchor_flush env k) = {}"
proof -
  show "refs (anchor_flush env k) = refs k" by (simp add: anchor_flush_def simple_refs [OF assms])
  have "parts k \<subseteq> {''nat'', ''rules'', ''Tables''}" using pf_law(1) [OF assms] by (simp add: pf_parts_def)
  then show "parts (anchor_flush env k) = {}" by (auto simp: anchor_flush_def simple_flush [OF assms] pf_parts_def)
qed

lemma release_laws: "pf_laws env refs parts \<Longrightarrow> refs (pf_release env t k) = refs k - ({t} - {[]}) \<and> parts (pf_release env t k) = parts k"
  using pf_law(4) [of env refs parts t k] by (auto simp: pf_release_def pfctl_simple_def pfctl_run_def split: prod.splits)

lemma load_refs: "pf_laws env refs parts \<Longrightarrow> anchor_load env port ipv6 dns_port k = (ok, k') \<Longrightarrow> refs k' = refs k"
  using run_refs [of env refs parts "''-a''" "[TP_PF_ANCHOR, ''-f'', ''-'']" _ k] by (auto simp: anchor_load_def split: option.splits prod.splits)

lemma present_refs: "pf_laws env refs parts \<Longrightarrow> anchor_present env k = (ok, k') \<Longrightarrow> refs k' = refs k"
  using show_refs [of env refs parts] by (auto simp: anchor_present_def split: prod.splits if_splits)

lemma hooks_refs: "pf_laws env refs parts \<Longrightarrow> main_hooks_present env k = (h, v, k') \<Longrightarrow> refs k' = refs k"
  using show_refs [of env refs parts] by (auto simp: main_hooks_present_def split: prod.splits if_splits)

lemma ensure_refs:
  assumes "pf_laws env refs parts" "ensure_main_hooks env k = (h, k')"
  shows "refs k' = refs k"
proof -
  obtain h1 v1 k1 where k1: "main_hooks_present env k = (h1, v1, k1)" by (metis surj_pair)
  obtain rc k2 where k2: "pfctl_simple env [''-f'', ''/etc/pf.conf''] k1 = (rc, k2)" by (meson surj_pair)
  obtain h3 v3 k3 where k3: "main_hooks_present env k2 = (h3, v3, k3)" by (metis surj_pair)
  have "refs k1 = refs k" "refs k2 = refs k1" "refs k3 = refs k2"
    using hooks_refs [OF assms(1) k1] hooks_refs [OF assms(1) k3] simple_refs [OF assms(1), of "''-f''" "[''/etc/pf.conf'']" k1] by (simp_all add: k2)
  moreover have "k' = k1 \<or> k' = k2 \<or> k' = k3" using assms(2) by (auto simp: ensure_main_hooks_def k1 k2 k3 Let_def split: if_splits)
  ultimately show ?thesis by auto
qed

lemma enabled_laws: "pf_laws env refs parts \<Longrightarrow> pf_enabled env k = (on, k') \<Longrightarrow> refs k' = refs k \<and> parts k' = parts k"
  using show_refs [of env refs parts None "''info''" k] show_parts [of env refs parts "''info''" k] by (auto simp: pf_enabled_def split: prod.splits)

subsection \<open>The pipe\<close>

text \<open>What the watchdog has of the token and of a goodbye does not depend on the clock, and so not on how the pipe is cut into reads.\<close>

definition wd_view :: "watchdog \<Rightarrow> string \<times> nat \<times> bool \<times> bool" where
  "wd_view w = (w_buf w, w_tlen w, w_in_token w, w_clean w)"

lemma wd_byte_view: "wd_view w = wd_view w' \<Longrightarrow> wd_view (wd_byte t c w) = wd_view (wd_byte t' c w')"
  by (auto simp: wd_view_def wd_byte_def)

lemma wd_fold_view: "wd_view w = wd_view w' \<Longrightarrow> wd_view (fold (wd_byte t) cs w) = wd_view (fold (wd_byte t') cs w')"
  by (induction cs arbitrary: w w') (simp_all add: wd_byte_view [where t = t and t' = t'])

text \<open>After these characters the watchdog is between messages, has seen no goodbye, and holds the token, if there is one.\<close>

definition heard :: "string \<Rightarrow> string \<Rightarrow> bool" where
  "heard pipe token \<longleftrightarrow> (\<forall>junk. length junk = 31 \<longrightarrow> (let w = fold (wd_byte 0) pipe (watchdog0 junk 0) in
     \<not> w_in_token w \<and> \<not> w_clean w \<and> length (w_buf w) = 32 \<and> (token \<noteq> [] \<longrightarrow> wd_token w = token)))"

lemma heard_nil [simp]: "heard [] []"
  by (simp add: heard_def watchdog0_def)

lemma heard_less: "heard pipe token \<Longrightarrow> heard pipe []"
  by (simp add: heard_def Let_def)

lemma heard_beat: "heard pipe token \<Longrightarrow> heard (pipe @ ''b'') token"
  by (auto simp: heard_def wd_byte_def wd_token_def Let_def)

lemma digits_into:
  assumes "w_in_token w" "list_all isdigit_c ds" "w_tlen w + length ds \<le> 31" "length (w_buf w) = 32"
  shows "fold (wd_byte t) ds w = w\<lparr>w_buf := take (w_tlen w) (w_buf w) @ ds @ drop (w_tlen w + length ds) (w_buf w), w_tlen := w_tlen w + length ds\<rparr>"
  using assms
proof (induction ds arbitrary: w)
  case (Cons d ds)
  let ?w = "w\<lparr>w_buf := (w_buf w)[w_tlen w := d], w_tlen := w_tlen w + 1\<rparr>"
  have w: "wd_byte t d w = ?w" using Cons.prems by (simp add: wd_byte_def)
  have i: "w_tlen w < length (w_buf w)" using Cons.prems by simp
  have "take (w_tlen w + 1) ((w_buf w)[w_tlen w := d]) = take (w_tlen w) (w_buf w) @ [d]" using i by (simp add: take_Suc_conv_app_nth)
  moreover have "drop (w_tlen w + 1 + length ds) ((w_buf w)[w_tlen w := d]) = drop (w_tlen w + 1 + length ds) (w_buf w)" by simp
  ultimately show ?case using Cons.IH [of ?w] Cons.prems by (simp add: w)
qed simp

lemma token_heard:
  assumes h: "heard pipe []" and t: "token_text token"
  shows "heard (pipe @ ''t'' @ token @ [CHR 0x0A]) token"
  unfolding heard_def Let_def
proof (intro allI impI)
  fix junk :: string
  assume "length junk = 31"
  define w where "w = fold (wd_byte 0) pipe (watchdog0 junk 0)"
  have w: "\<not> w_in_token w" "\<not> w_clean w" "length (w_buf w) = 32" using h \<open>length junk = 31\<close> by (simp_all add: heard_def Let_def w_def)
  have tk: "length token \<le> 31" "list_all isdigit_c token" "token \<noteq> []" using t by (simp_all add: token_text_def)
  define w1 where "w1 = w\<lparr>w_in_token := True, w_tlen := 0\<rparr>"
  have 1: "wd_byte 0 (CHR ''t'') w = w1" using w by (simp add: wd_byte_def w1_def)
  have 2: "fold (wd_byte 0) token w1 = w1\<lparr>w_buf := token @ drop (length token) (w_buf w), w_tlen := length token\<rparr>"
    using digits_into [of w1 token 0] tk w by (simp add: w1_def)
  have "\<not> isdigit_c (CHR 0x0A)" by (simp add: isdigit_c_def dec_digit_def)
  then have 4: "wd_byte 0 (CHR 0x0A) (w1\<lparr>w_buf := token @ drop (length token) (w_buf w), w_tlen := length token\<rparr>) =
      w\<lparr>w_buf := (token @ drop (length token) (w_buf w))[length token := CHR 0x00], w_tlen := length token, w_in_token := False\<rparr>"
    by (simp add: wd_byte_def w1_def)
  have 3: "fold (wd_byte 0) (pipe @ ''t'' @ token @ [CHR 0x0A]) (watchdog0 junk 0) =
      w\<lparr>w_buf := (token @ drop (length token) (w_buf w))[length token := CHR 0x00], w_tlen := length token, w_in_token := False\<rparr>"
    unfolding fold_append comp_apply w_def [symmetric] by (simp add: 1 2 4)
  have "CHR 0x00 \<notin> set token" using tk(2) by (auto simp: list_all_iff isdigit_c_def dec_digit_def)
  then have "takeWhile (\<lambda>c. c \<noteq> CHR 0x00) (token @ CHR 0x00 # r) = token" for r by (induction token) auto
  moreover have "(token @ drop (length token) (w_buf w))[length token := CHR 0x00] = token @ CHR 0x00 # drop (Suc (length token)) (w_buf w)"
    using tk(1) w(3) by (cases "drop (length token) (w_buf w)") (auto simp: list_update_append drop_Suc tl_drop [symmetric])
  ultimately show "\<not> w_in_token (fold (wd_byte 0) (pipe @ ''t'' @ token @ [CHR 0x0A]) (watchdog0 junk 0)) \<and>
      \<not> w_clean (fold (wd_byte 0) (pipe @ ''t'' @ token @ [CHR 0x0A]) (watchdog0 junk 0)) \<and>
      length (w_buf (fold (wd_byte 0) (pipe @ ''t'' @ token @ [CHR 0x0A]) (watchdog0 junk 0))) = 32 \<and>
      (token \<noteq> [] \<longrightarrow> wd_token (fold (wd_byte 0) (pipe @ ''t'' @ token @ [CHR 0x0A]) (watchdog0 junk 0)) = token)"
    unfolding 3 using w tk(1) by (simp add: wd_token_def cstr_def)
qed

subsection \<open>The daemon\<close>

text \<open>The invariant of the layer: PF holds no reference beyond those of others and the one we know, and as long as the
  watchdog has its pipe, it knows it too.\<close>

definition mac_inv :: "('k \<Rightarrow> string set) \<Rightarrow> string set \<Rightarrow> 'k mac \<Rightarrow> bool" where
  "mac_inv refs base m \<longleftrightarrow> refs (m_k m) \<subseteq> base \<union> ({m_token m} - {[]}) \<and> (m_token m \<noteq> [] \<longrightarrow> token_text (m_token m)) \<and>
     (m_wd_fd m \<longrightarrow> heard (m_pipe m) (m_token m))"

text \<open>What the routines around the watchdog keep.\<close>

definition wd_kept :: "('k \<Rightarrow> string set) \<Rightarrow> ('k \<Rightarrow> string set) \<Rightarrow> 'k mac \<Rightarrow> 'k mac \<Rightarrow> bool" where
  "wd_kept refs parts m m' \<longleftrightarrow> refs (m_k m') = refs (m_k m) \<and> parts (m_k m') = parts (m_k m) \<and> m_token m' = m_token m \<and> m_file m' = m_file m"

lemma wd_kept_trans: "wd_kept refs parts a b \<Longrightarrow> wd_kept refs parts b c \<Longrightarrow> wd_kept refs parts a c"
  by (simp add: wd_kept_def)

lemma wd_send_kept: "pf_laws env refs parts \<Longrightarrow> wd_kept refs parts m (wd_send env msg m)"
  using pf_law(8) [of env refs parts msg "m_k m"] by (auto simp: wd_send_def wd_kept_def split: prod.split)

lemma wd_reap_kept: "pf_laws env refs parts \<Longrightarrow> wd_kept refs parts m (wd_reap env n m) \<and> m_wd_fd (wd_reap env n m) = m_wd_fd m \<and> m_pipe (wd_reap env n m) = m_pipe m"
proof (induction env n m rule: wd_reap.induct)
  case (1 env n m)
  obtain gone k where w: "pf_waitpid env (m_k m) = (gone, k)" by (meson surj_pair)
  have "refs k = refs (m_k m) \<and> parts k = parts (m_k m)" using pf_law(7) [OF 1(2) w] .
  then show ?case using 1(1) [OF _ w [symmetric]] 1(2) by (subst (1 2 3) wd_reap.simps) (auto simp: w wd_kept_def split: nat.split)
qed

lemma wd_token_kept: "pf_laws env refs parts \<Longrightarrow> wd_kept refs parts m (wd_send_token env m)"
  using wd_send_kept [of env refs parts m] by (simp add: wd_send_token_def wd_kept_def)

lemma wd_spawn_kept: "pf_laws env refs parts \<Longrightarrow> wd_kept refs parts m (wd_spawn env m)"
proof -
  assume l: "pf_laws env refs parts"
  obtain st k where w: "pf_spawn env (m_k m) = (st, k)" by (meson surj_pair)
  show ?thesis using pf_law(9) [OF l w] wd_token_kept [OF l, of "m\<lparr>m_k := k, m_wd_pid := True, m_wd_fd := True, m_pipe := []\<rparr>"]
    by (auto simp: wd_spawn_def w wd_kept_def split: option.split bool.split)
qed

lemma wd_kill_kept: "pf_laws env refs parts \<Longrightarrow> wd_kept refs parts m (wd_kill env m) \<and> m_wd_fd (wd_kill env m) = m_wd_fd m"
  using wd_reap_kept [of env refs parts "m\<lparr>m_k := pf_kill env (m_k m)\<rparr>" 50] pf_law(10,11) [of env refs parts "m_k m"]
  by (auto simp: wd_kill_def wd_kept_def)

text \<open>The pipe after each of them.\<close>

abbreviation wd_told :: "'k mac \<Rightarrow> string \<Rightarrow> bool" where
  "wd_told m token \<equiv> m_wd_fd m \<longrightarrow> heard (m_pipe m) token"

lemma send_beat_told: "wd_told m token \<Longrightarrow> wd_told (wd_send env ''b'' m) token"
  by (auto simp: wd_send_def heard_beat split: prod.split)

lemma send_token_told: "wd_told m [] \<Longrightarrow> m_token m \<noteq> [] \<longrightarrow> token_text (m_token m) \<Longrightarrow> wd_told (wd_send_token env m) (m_token m)"
  using token_heard [of "m_pipe m" "m_token m"] by (auto simp: wd_send_token_def wd_send_def split: prod.split)

lemma spawn_told: "\<not> m_wd_fd m \<Longrightarrow> m_token m \<noteq> [] \<longrightarrow> token_text (m_token m) \<Longrightarrow> wd_told (wd_spawn env m) (m_token m)"
  using send_token_told [of "m\<lparr>m_k := snd (pf_spawn env (m_k m)), m_wd_pid := True, m_wd_fd := True, m_pipe := []\<rparr>" env]
  by (auto simp: wd_spawn_def split: prod.split option.split bool.split)

lemma beat_inv:
  assumes l: "pf_laws env refs parts" and i: "mac_inv refs base m"
  shows "mac_inv refs base (wd_beat env m) \<and> wd_kept refs parts m (wd_beat env m)"
proof -
  define m1 where "m1 = wd_reap env 0 m"
  define m2 where "m2 = (if m_wd_pid m1 then wd_send env ''b'' m1 else m1)"
  define m3 where "m3 = wd_kill env (m2\<lparr>m_wd_fd := False\<rparr>)"
  have k1: "wd_kept refs parts m m1" "m_wd_fd m1 = m_wd_fd m" "m_pipe m1 = m_pipe m" using wd_reap_kept [OF l, of m 0] by (simp_all add: m1_def)
  have k2: "wd_kept refs parts m m2" using wd_kept_trans [OF k1(1) wd_send_kept [OF l]] k1(1) by (simp add: m2_def)
  have "wd_told m1 (m_token m)" using i k1 by (simp add: mac_inv_def)
  then have t2: "wd_told m2 (m_token m)" using send_beat_told [of m1 "m_token m" env] by (simp add: m2_def)
  have k3: "wd_kept refs parts m m3" "\<not> m_wd_fd m3" using k2 wd_kill_kept [OF l, of "m2\<lparr>m_wd_fd := False\<rparr>"] by (simp_all add: m3_def wd_kept_def)
  have k4: "wd_kept refs parts m (wd_spawn env m3)" using wd_kept_trans [OF k3(1) wd_spawn_kept [OF l]] .
  have t4: "wd_told (wd_spawn env m3) (m_token m)" using spawn_told [OF k3(2)] k3(1) i by (simp add: wd_kept_def mac_inv_def)
  have "wd_beat env m = (if m_wd_pid m2 \<and> m_wd_fd m2 then m2 else wd_spawn env m3)" unfolding wd_beat_def Let_def m1_def m2_def m3_def ..
  then show ?thesis using k2 k4 t2 t4 i by (simp add: mac_inv_def wd_kept_def)
qed

text \<open>A change of the world that keeps the references, and of fields the invariant does not mention.\<close>

lemma inv_world: "mac_inv refs base m \<Longrightarrow> refs k = refs (m_k m) \<Longrightarrow> mac_inv refs base (m\<lparr>m_k := k\<rparr>)"
  by (simp add: mac_inv_def)

lemma stale_inv: "pf_laws env refs parts \<Longrightarrow> mac_inv refs base m \<Longrightarrow> mac_inv refs base (stale_cleanup env m)"
  using flush_laws(1) [of env refs parts "m_k m"] release_laws [of env refs parts "token_read (m_file m)" "anchor_flush env (m_k m)"]
  by (auto simp: mac_inv_def stale_cleanup_def Let_def)

lemma enable_inv:
  assumes l: "pf_laws env refs parts" and r: "refs (m_k m) \<subseteq> base" and t: "m_token m = []" and w: "wd_told m []" and e: "pf_enable env m = (ok, m')"
  shows "refs (m_k m') \<subseteq> base \<union> ({m_token m'} - {[]}) \<and> (m_token m' \<noteq> [] \<longrightarrow> token_text (m_token m')) \<and> wd_told m' [] \<and> (\<not> ok \<longrightarrow> m_token m' = [])"
proof -
  obtain rc out k where p: "pf_run env [''-E''] [] (m_k m) = (rc, out, k)" by (metis surj_pair)
  define out' where "out' = cstr (take (PFCTL_OUT_MAX - 1) out)"
  note law = pf_law(3) [OF l p, folded out'_def]
  have run: "pfctl_run env [''-E''] [] (m_k m) = (rc, out', k)" by (simp add: pfctl_run_def p out'_def)
  show ?thesis
  proof (cases "after ''Token : '' out'")
    case None
    then show ?thesis using law e r t w by (auto simp: pf_enable_def run)
  next
    case (Some q)
    have tk: "token_text (takeWhile isdigit_c q)" "refs k = insert (takeWhile isdigit_c q) (refs (m_k m))"
      using law by (simp_all add: Some)
    then have tt: "take 31 (takeWhile isdigit_c q) = takeWhile isdigit_c q" "takeWhile isdigit_c q \<noteq> []" by (simp_all add: token_text_def)
    obtain st k2 where s: "pf_store env k = (st, k2)" by (meson surj_pair)
    have "ok" "m' = m\<lparr>m_k := k2, m_token := takeWhile isdigit_c q, m_file := (if st then Some (takeWhile isdigit_c q @ [CHR 0x0A]) else m_file m)\<rparr>"
      using e by (auto simp: pf_enable_def run Some Let_def tt token_file_write_def s)
    then show ?thesis using tk pf_law(12) [OF l s] r w tt by auto
  qed
qed

lemma reference_inv:
  assumes l: "pf_laws env refs parts" and i: "mac_inv refs base m" and e: "take_reference env m = (ok, m')"
  shows "mac_inv refs base m'"
proof -
  obtain on m1 where m1: "(if m_token m = [] then (False, m) else case pf_enabled env (m_k m) of (on, k) \<Rightarrow> (on, m\<lparr>m_k := k\<rparr>)) = (on, m1)" by (meson surj_pair)
  have i1: "mac_inv refs base m1" using m1 i enabled_laws [OF l] by (auto simp: mac_inv_def split: if_splits prod.splits)
  define m2 where "m2 = (if m_token m1 = [] then m1 else m1\<lparr>m_k := pf_release env (m_token m1) (m_k m1), m_token := []\<rparr>)"
  have i2: "refs (m_k m2) \<subseteq> base" "m_token m2 = []" "wd_told m2 []"
    using i1 release_laws [OF l, of "m_token m1" "m_k m1"] heard_less by (auto simp: m2_def mac_inv_def)
  obtain ok2 m3 where m3: "pf_enable env m2 = (ok2, m3)" by (meson surj_pair)
  note e3 = enable_inv [OF l i2 m3]
  have i4: "mac_inv refs base (wd_send_token env m3)"
    using send_token_told [of m3 env] e3 wd_token_kept [OF l, of m3] by (simp add: mac_inv_def wd_kept_def)
  have i5: "\<not> ok2 \<Longrightarrow> mac_inv refs base (m3\<lparr>m_k := anchor_flush env (m_k m3)\<rparr>)" using e3 flush_laws(1) [OF l] by (auto simp: mac_inv_def)
  show ?thesis using e i1 i4 i5 unfolding take_reference_def m1 prod.case Let_def m2_def [symmetric] m3 by (auto split: if_splits)
qed

lemma install_inv:
  assumes l: "pf_laws env refs parts" and i: "mac_inv refs base m" and e: "mac_install env port ipv6 dns_port m = (ok, m')"
  shows "mac_inv refs base m'"
proof -
  define m0 where "m0 = m\<lparr>m_port := port, m_ipv6 := ipv6, m_dns_port := dns_port, m_removed := False\<rparr>"
  define m1 where "m1 = (if m_stale_done m0 then m0 else (stale_cleanup env m0)\<lparr>m_stale_done := True\<rparr>)"
  have "mac_inv refs base m0" using i by (simp add: m0_def mac_inv_def)
  then have i1: "mac_inv refs base m1" using stale_inv [OF l, of base m0] by (auto simp: m1_def mac_inv_def)
  obtain hooks k1 where h: "ensure_main_hooks env (m_k m1) = (hooks, k1)" by (meson surj_pair)
  have r1: "refs k1 = refs (m_k m1)" using ensure_refs [OF l h] .
  obtain loaded k2 where ld: "anchor_load env port ipv6 dns_port (anchor_flush env k1) = (loaded, k2)" by (meson surj_pair)
  have r2: "refs k2 = refs (m_k m1)" using load_refs [OF l ld] flush_laws(1) [OF l] r1 by simp
  let ?m2 = "m1\<lparr>m_seen_hooks := hooks, m_k := k2\<rparr>"
  have i2: "mac_inv refs base ?m2" "mac_inv refs base (m1\<lparr>m_k := k1, m_seen_hooks := hooks\<rparr>)" using i1 r1 r2 by (simp_all add: mac_inv_def)
  obtain ok3 m3 where m3: "take_reference env ?m2 = (ok3, m3)" by (meson surj_pair)
  then have m3': "hooks \<Longrightarrow> take_reference env (m1\<lparr>m_seen_hooks := True, m_k := k2\<rparr>) = (ok3, m3)" by (cases hooks) auto
  have i3: "mac_inv refs base m3" using reference_inv [OF l i2(1) m3] .
  obtain p k4 where p: "anchor_present env (m_k m3) = (p, k4)" by (meson surj_pair)
  have "mac_inv refs base (m3\<lparr>m_k := k4, m_seen_enabled := True, m_seen_anchor := p\<rparr>)" using i3 present_refs [OF l p] by (simp add: mac_inv_def)
  then have i5: "mac_inv refs base (wd_beat env (m3\<lparr>m_k := k4, m_seen_enabled := True, m_seen_anchor := p\<rparr>))" using beat_inv [OF l] by blast
  show ?thesis using e i2 i3 i5 unfolding mac_install_def Let_def m0_def [symmetric] m1_def [symmetric] h prod.case by (auto simp: ld m3' p split: if_splits)
qed

lemma pf_refresh_inv:
  assumes l: "pf_laws env refs parts" and i: "mac_inv refs base m" and e: "mac_refresh env m = (rc, m')"
  shows "mac_inv refs base m'"
proof -
  define m1 where "m1 = wd_beat env m"
  have i1: "mac_inv refs base m1" using beat_inv [OF l i] by (simp add: m1_def)
  obtain en k1 an k2 h v k3 where k: "pf_enabled env (m_k m1) = (en, k1)" "anchor_present env k1 = (an, k2)" "main_hooks_present env k2 = (h, v, k3)"
    by (metis surj_pair)
  have "refs k3 = refs (m_k m1)" using enabled_laws [OF l k(1)] present_refs [OF l k(2)] hooks_refs [OF l k(3)] by simp
  then have i2: "mac_inv refs base (m1\<lparr>m_k := k3, m_seen_enabled := en, m_seen_anchor := an, m_seen_hooks := h\<rparr>)" using i1 by (simp add: mac_inv_def)
  show ?thesis using e i2 install_inv [OF l i2] unfolding mac_refresh_def Let_def m1_def [symmetric] k prod.case by (auto split: if_splits prod.splits)
qed

text \<open>Removing leaves nothing: the anchor is empty and PF holds no reference of ours.\<close>

lemma remove_laws:
  assumes l: "pf_laws env refs parts" and i: "mac_inv refs base m"
  shows "mac_inv refs base (mac_remove env m) \<and> parts (m_k (mac_remove env m)) = {} \<and> m_token (mac_remove env m) = [] \<and> \<not> m_wd_fd (mac_remove env m)"
proof -
  define m1 where "m1 = m\<lparr>m_k := anchor_flush env (m_k m)\<rparr>"
  define m2 where "m2 = (if m_token m1 = [] then m1
    else m1\<lparr>m_k := pf_release env (m_token m1) (m_k m1), m_file := token_file_forget (m_token m1) (m_file m1), m_token := []\<rparr>)"
  have 2: "refs (m_k m2) \<subseteq> base" "parts (m_k m2) = {}" "m_token m2 = []"
    using i flush_laws [OF l, of "m_k m"] release_laws [OF l, of "m_token m" "anchor_flush env (m_k m)"] by (auto simp: m1_def m2_def mac_inv_def)
  define m3 where "m3 = wd_stop env m2"
  have 3: "wd_kept refs parts m2 m3" "\<not> m_wd_fd m3"
  proof -
    let ?a = "(wd_send env ''q'' m2)\<lparr>m_wd_fd := False\<rparr>"
    have "wd_kept refs parts m2 ?a" using wd_send_kept [OF l, of m2 "''q''"] by (simp add: wd_kept_def)
    then show "wd_kept refs parts m2 m3" "\<not> m_wd_fd m3"
      using wd_reap_kept [OF l, of ?a 100] wd_kill_kept [OF l, of "wd_reap env 100 ?a"] by (simp_all add: m3_def wd_stop_def wd_kept_def)
  qed
  obtain on k where k: "pf_enabled env (m_k m3) = (on, k)" by (meson surj_pair)
  have "mac_remove env m = m3\<lparr>m_k := k, m_seen_enabled := on, m_seen_anchor := False, m_removed := True\<rparr>"
    unfolding mac_remove_def Let_def m1_def [symmetric] m2_def [symmetric] m3_def [symmetric] k by simp
  then show ?thesis using enabled_laws [OF l k] 2 3 by (simp add: mac_inv_def wd_kept_def)
qed

section \<open>Nothing is left behind\<close>

definition mac0 :: "string option \<Rightarrow> 'k \<Rightarrow> 'k mac" where
  "mac0 f k = \<lparr>m_port = 0, m_ipv6 = False, m_dns_port = 0, m_token = [], m_stale_done = False, m_wd_pid = False, m_wd_fd = False, m_seen_enabled = False,
     m_seen_anchor = False, m_seen_hooks = False, m_removed = False, m_file = f, m_pipe = [], m_k = k\<rparr>"

text \<open>The operations of the main thread in any order, and those that the other threads call on the QUIC tables.\<close>

inductive mac_reachable :: "'k pf_env \<Rightarrow> (nat \<Rightarrow> bytes \<Rightarrow> string option) \<Rightarrow> 'k mac \<Rightarrow> 'k mac \<Rightarrow> bool" for env ntop m0 where
  start: "mac_reachable env ntop m0 m0"
| install: "mac_reachable env ntop m0 m \<Longrightarrow> mac_reachable env ntop m0 (snd (mac_install env port ipv6 dns_port m))"
| refresh: "mac_reachable env ntop m0 m \<Longrightarrow> mac_reachable env ntop m0 (snd (mac_refresh env m))"
| remove: "mac_reachable env ntop m0 m \<Longrightarrow> mac_reachable env ntop m0 (mac_remove env m)"
| quic_block: "mac_reachable env ntop m0 m \<Longrightarrow> mac_reachable env ntop m0 (m\<lparr>m_k := mac_quic_block env ntop addrs (m_k m)\<rparr>)"
| quic_flush: "mac_reachable env ntop m0 m \<Longrightarrow> mac_reachable env ntop m0 (m\<lparr>m_k := mac_quic_flush env (m_k m)\<rparr>)"

lemma quic_refs: "pf_laws env refs parts \<Longrightarrow> refs (mac_quic_block env ntop addrs k) = refs k \<and> refs (mac_quic_flush env k) = refs k"
  by (simp add: mac_quic_block_def mac_quic_flush_def quic_args_def simple_refs Let_def)

lemma mac_reachable_inv:
  assumes "mac_reachable env ntop (mac0 f k0) m" "pf_laws env refs parts"
  shows "mac_inv refs (refs k0) m"
  using assms
proof (induction rule: mac_reachable.induct)
  case start
  show ?case by (simp add: mac_inv_def mac0_def)
next
  case (install m port ipv6 dns_port)
  then show ?case using install_inv [OF install.prems] by (metis prod.collapse)
next
  case (refresh m)
  then show ?case using pf_refresh_inv [OF refresh.prems] by (metis prod.collapse)
next
  case (remove m)
  then show ?case using remove_laws by blast
qed (simp_all add: inv_world quic_refs [OF assms(2)])

text \<open>The watchdog on a pipe that is read in any pieces and then closed.\<close>

lemma wd_loop_pipe:
  assumes l: "pf_laws env refs parts" and v: "wd_view w = wd_view w0" and w0: "w1 = fold (wd_byte 0) (concat (map fst chunks)) w0"
  shows "\<exists>w' k'. wd_view w' = wd_view w1 \<and> refs k' = refs k \<and>
    wd_loop env (map (\<lambda>(cs, t, t'). Wd_round (Some cs) False t t') chunks @ [Wd_round None term t t']) (w, k, f)
      = (True, w', if w_clean w' then (k', f) else wd_cleanup env (wd_token w') (k', f))"
  using v w0
proof (induction chunks arbitrary: w w0 k)
  case Nil
  then show ?case by auto
next
  case (Cons c chunks)
  obtain cs ta tb where c: "c = (cs, ta, tb)" by (metis surj_pair)
  let ?w = "fold (wd_byte ta) cs w"
  have v1: "wd_view ?w = wd_view (fold (wd_byte 0) cs w0)" using Cons.prems(1) by (rule wd_fold_view)
  have v2: "wd_view (?w\<lparr>w_flushed := True\<rparr>) = wd_view (fold (wd_byte 0) cs w0)" using v1 by (simp add: wd_view_def)
  have w1: "w1 = fold (wd_byte 0) (concat (map fst chunks)) (fold (wd_byte 0) cs w0)" using Cons.prems(2) by (simp add: c)
  show ?case
    using Cons.IH [OF v1 w1, of k] Cons.IH [OF v2 w1, of "anchor_flush env k"] flush_laws(1) [OF l, of k] by (simp add: c Let_def)
qed

text \<open>Whatever was installed, refreshed and removed before, and whatever failed on the way, removing the interception
  leaves our anchor empty, no enable reference of ours in PF, no token, and no watchdog attached.\<close>

theorem mac_remove_clean:
  assumes "pf_laws env refs parts" "mac_reachable env ntop (mac0 f k0) m"
  shows "let m' = mac_remove env m in parts (m_k m') = {} \<and> refs (m_k m') \<subseteq> refs k0 \<and> m_token m' = [] \<and> \<not> m_wd_fd m'"
  using remove_laws [OF assms(1) mac_reachable_inv [OF assms(2,1)]] by (auto simp: mac_inv_def Let_def)


section \<open>A PF for the witnesses\<close>

text \<open>The world is the references and the loaded parts; the only reference it gives is 42.\<close>

definition small_out :: "string list \<Rightarrow> string set \<times> string set \<Rightarrow> string" where
  "small_out args k =
     (if args = [''-E''] then ''Token : 42''
      else if args = [''-s'', ''nat''] then ''rdr-'' @ quoted_anchor
      else if args = [''-s'', ''rules''] then quoted_anchor
      else if args = [''-s'', ''info''] then (if fst k = {} then ''Status: Disabled'' else ''Status: Enabled'')
      else if args = [''-a'', TP_PF_ANCHOR, ''-s'', ''nat''] then (if ''nat'' \<in> snd k then ''rdr pass on lo0'' else [])
      else if args = [''-a'', TP_PF_ANCHOR, ''-s'', ''rules''] then (if ''rules'' \<in> snd k then ''route-to'' else [])
      else [])"

definition small_ref :: "string list \<Rightarrow> string set \<Rightarrow> string set" where
  "small_ref args r = (if hd args = ''-E'' then insert ''42'' r else if hd args = ''-X'' then r - {args ! 1} else r)"

definition small_part :: "string list \<Rightarrow> string set \<Rightarrow> string set" where
  "small_part args p = (if take 3 args = [''-a'', TP_PF_ANCHOR, ''-F''] then p - {args ! 3}
     else if args = [''-a'', TP_PF_ANCHOR, ''-f'', ''-''] then pf_parts else p)"

definition small_pf :: "string list \<Rightarrow> string \<Rightarrow> string set \<times> string set \<Rightarrow> int \<times> string \<times> string set \<times> string set" where
  "small_pf args inp k = (0, small_out args k, small_ref args (fst k), small_part args (snd k))"

definition small_env :: "(string set \<times> string set) pf_env" where
  "small_env = \<lparr>pf_run = small_pf, pf_waitpid = (\<lambda>k. (False, k)), pf_write = (\<lambda>s k. (True, k)), pf_spawn = (\<lambda>k. (Some True, k)), pf_kill = (\<lambda>k. k),
     pf_store = (\<lambda>k. (True, k)), pf_conf = (\<lambda>k. None)\<rparr>"

lemma small_token: "after ''Token : '' (cstr (take (PFCTL_OUT_MAX - 1) ''Token : 42'')) = Some ''42''"
  by (simp add: PFCTL_OUT_MAX_def cstr_def after.simps starts_with_def)

lemma small_digits: "takeWhile isdigit_c ''42'' = ''42''" "token_text ''42''"
  by (simp_all add: isdigit_c_def dec_digit_def token_text_def)

lemma small_laws: "pf_laws small_env fst (\<lambda>k. snd k \<inter> pf_parts)"
  unfolding pf_laws_def
proof (intro conjI)
  show "\<forall>k rc out k'. pf_run small_env [''-E''] [] k = (rc, out, k') \<longrightarrow>
      (case after ''Token : '' (cstr (take (PFCTL_OUT_MAX - 1) out)) of None \<Rightarrow> fst k' = fst k
       | Some p \<Rightarrow> token_text (takeWhile isdigit_c p) \<and> fst k' = insert (takeWhile isdigit_c p) (fst k))"
    using small_token small_digits by (auto simp: small_env_def small_pf_def small_out_def small_ref_def)
  show "\<forall>a as inp k rc out k'. a \<notin> {''-E'', ''-X''} \<longrightarrow> pf_run small_env (a # as) inp k = (rc, out, k') \<longrightarrow> fst k' = fst k"
    by (auto simp: small_env_def small_pf_def small_ref_def)
  show "\<forall>x \<in> pf_parts. \<forall>k rc out k'. pf_run small_env [''-a'', TP_PF_ANCHOR, ''-F'', x] [] k = (rc, out, k') \<longrightarrow> snd k' \<inter> pf_parts = snd k \<inter> pf_parts - {x}"
    by (auto simp: small_env_def small_pf_def small_part_def)
  show "\<forall>t k rc out k'. pf_run small_env [''-X'', t] [] k = (rc, out, k') \<longrightarrow> fst k' = fst k - {t} \<and> snd k' \<inter> pf_parts = snd k \<inter> pf_parts"
    by (auto simp: small_env_def small_pf_def small_part_def small_ref_def)
  show "\<forall>what k rc out k'. pf_run small_env [''-s'', what] [] k = (rc, out, k') \<longrightarrow> snd k' \<inter> pf_parts = snd k \<inter> pf_parts"
    by (auto simp: small_env_def small_pf_def small_part_def)
qed (auto simp: small_env_def)

text \<open>After an installation the anchor is loaded, the reference 42 is held, and the watchdog knows it.\<close>

definition small_installed :: "(string set \<times> string set) mac" where
  "small_installed = snd (mac_install small_env 1091 True 1053 (mac0 None ({}, {})))"

lemma small_reachable: "mac_reachable small_env ntop (mac0 None ({}, {})) small_installed"
  unfolding small_installed_def by (intro mac_reachable.intros)

lemma cstr_short: "CHR 0x00 \<notin> set s \<Longrightarrow> length s < 100 \<Longrightarrow> cstr (take (PFCTL_OUT_MAX - Suc 0) s) = s"
  by (simp add: PFCTL_OUT_MAX_def cstr_id)

lemma quoted_facts: "CHR 0x00 \<notin> set quoted_anchor" "length quoted_anchor = 20" "quoted_anchor \<noteq> []" "starts_with quoted_anchor quoted_anchor"
  by (simp_all add: quoted_anchor_def starts_with_def)

lemma small_run: "pf_run small_env = small_pf" "pf_waitpid small_env k = (False, k)" "pf_write small_env msg k = (True, k)" "pf_spawn small_env k = (Some True, k)"
  "pf_store small_env k = (True, k)" "pf_kill small_env k = k"
  by (simp_all add: small_env_def)

lemma small_hooks: "main_hooks_present small_env k = (True, False, k)"
proof -
  have "has_line (''rdr-'' @ quoted_anchor) (''rdr-'' @ quoted_anchor)" "has_line quoted_anchor quoted_anchor"
    by (simp_all add: has_line.simps starts_with_def quoted_facts)
  moreover have "rule_lines quoted_anchor \<noteq> 0" by (simp add: rule_lines.simps quoted_anchor_def starts_with_def)
  ultimately show ?thesis
    using cstr_short [of "''rdr-'' @ quoted_anchor"] cstr_short [of quoted_anchor] quoted_facts(1,2)
    by (simp add: main_hooks_present_def pfctl_show_def pfctl_run_def small_run small_pf_def small_out_def small_ref_def small_part_def)
qed

lemma small_flush: "anchor_flush small_env (r, p) = (r, p - pf_parts)"
  by (auto simp: anchor_flush_def pfctl_simple_def pfctl_run_def small_run small_pf_def small_ref_def small_part_def pf_parts_def)

lemma small_load: "anchor_load small_env 1091 True 1053 (r, p) = (True, r, pf_parts)"
  using pf_ruleset_fits [of 1091 1053 True]
  by (simp add: anchor_load_def RULES_MAX_def int32_def pfctl_run_def small_run small_pf_def small_ref_def small_part_def)

lemma small_present: "anchor_present small_env (r, pf_parts) = (True, r, pf_parts)"
  using cstr_short [of "''rdr pass on lo0''"] cstr_short [of "''route-to''"]
  by (simp add: anchor_present_def pfctl_show_def pfctl_run_def small_run small_pf_def small_out_def small_ref_def small_part_def pf_parts_def)

lemma small_enable:
  "pf_enable small_env m = (True, m\<lparr>m_k := (insert ''42'' (fst (m_k m)), snd (m_k m)), m_token := ''42'', m_file := Some (''42'' @ [CHR 0x0A])\<rparr>)"
  using small_token small_digits
  by (simp add: pf_enable_def pfctl_run_def small_run small_pf_def small_out_def small_ref_def small_part_def Let_def token_file_write_def)

lemma small_installed_state: "m_wd_fd small_installed" "m_pipe small_installed = ''t42'' @ [CHR 0x0A]" "m_k small_installed = ({''42''}, pf_parts)"
  by (simp_all add: small_installed_def mac_install_def mac0_def stale_cleanup_def token_read_def ensure_main_hooks_def small_hooks small_flush small_load
      take_reference_def small_enable small_present wd_send_token_def wd_send_def wd_beat_def wd_reap.simps wd_kill_def wd_spawn_def small_run Let_def)

theorem mac_remove_clean_witness:
  "m_k small_installed = ({''42''}, pf_parts) \<and> fst (m_k (mac_remove small_env small_installed)) = {} \<and> m_token (mac_remove small_env small_installed) = []"
  using mac_remove_clean [OF small_laws small_reachable] small_installed_state(3) by (simp add: Let_def)


end
