(* ===== verification/Doh.thy ===== *)
theory Doh
  imports TlsClient Resolver "HOL-Library.Multiset"
begin

text \<open>
  The transports of the trusted resolver: \<open>src/dns/dns_doh.c\<close>, DNS over HTTPS with a pool of connections for
  each server, and \<open>src/dns/dns_udp.c\<close>, its fallback. Both are built on the sockets of \<open>Net\<close> and the
  sessions of \<open>TlsClient\<close>. \<open>inet_pton\<close> is a parameter \<open>pton\<close>. One query is modelled with the pools it
  uses; the pools' critical sections, which any number of queries interleave, are a step relation.
\<close>

section \<open>Lists of servers\<close>

definition item_sep :: "char \<Rightarrow> bool" where
  "item_sep c \<longleftrightarrow> c = CHR '' '' \<or> c = CHR '',''"

text \<open>A pass of the parsing loops of both files, with the size of their item buffer: the item and what follows.\<close>

definition next_item :: "nat \<Rightarrow> string \<Rightarrow> string \<times> string" where
  "next_item bufsize list =
     (let list = dropWhile item_sep list;
          item = take (bufsize - 1) (takeWhile (\<lambda>c. \<not> item_sep c) list);
          list = drop (length item) list in
      (item, dropWhile (\<lambda>c. c \<noteq> CHR '','') list))"

lemma next_item_shorter: "list \<noteq> [] \<Longrightarrow> length (snd (next_item bufsize list)) < length list"
proof -
  assume ne: "list \<noteq> []"
  define rest where "rest = dropWhile item_sep list"
  define item where "item = take (bufsize - 1) (takeWhile (\<lambda>c. \<not> item_sep c) rest)"
  have le: "length rest \<le> length list" unfolding rest_def by (rule length_dropWhile_le)
  have s: "length (snd (next_item bufsize list)) \<le> length (drop (length item) rest)"
    unfolding next_item_def Let_def rest_def [symmetric] item_def [symmetric] by (metis length_dropWhile_le snd_conv)
  show ?thesis
  proof (cases "item_sep (hd list)")
    case True
    then have "length rest < length list" using ne unfolding rest_def by (cases list) (auto intro: le_less_trans [OF length_dropWhile_le])
    then show ?thesis using s by simp
  next
    case False
    then have rest: "rest = list" using ne unfolding rest_def by (cases list) auto
    show ?thesis
    proof (cases "item = []")
      case True
      have "hd list \<noteq> CHR '',''" using False by (auto simp: item_sep_def)
      then have "length (dropWhile (\<lambda>c. c \<noteq> CHR '','') list) < length list"
        using ne by (cases list) (auto intro: le_less_trans [OF length_dropWhile_le])
      then show ?thesis using True rest unfolding next_item_def Let_def rest_def [symmetric] item_def [symmetric] by simp
    next
      case False
      then have "0 < length item" "0 < length list" using ne by auto
      then show ?thesis using s unfolding rest length_drop by linarith
    qed
  qed
qed

function parse_list :: "(string \<Rightarrow> 'a option) \<Rightarrow> nat \<Rightarrow> string \<Rightarrow> 'a list \<Rightarrow> 'a list" where
  "parse_list one bufsize list servers =
     (if list = [] \<or> DNS_MAX_SERVERS \<le> length servers then servers
      else case next_item bufsize list of (item, rest) \<Rightarrow>
        parse_list one bufsize rest (case if item = [] then None else one item of None \<Rightarrow> servers | Some s \<Rightarrow> servers @ [s]))"
  by pat_completeness auto
termination
  by (relation "measure (\<lambda>(one, bufsize, list, servers). length list)") (simp, metis in_measure next_item_shorter snd_conv case_prod_conv)

declare parse_list.simps [simp del]

section \<open>DNS over UDP\<close>

record udp_servers =
  us_addrs :: "sockaddr list"
  us_mark :: int

definition parse_one :: "(af \<Rightarrow> string \<Rightarrow> bytes option) \<Rightarrow> u16 \<Rightarrow> string \<Rightarrow> sockaddr option" where
  "parse_one pton port item =
     (case pton AF_INET item of
        Some a \<Rightarrow> Some \<lparr>sa_family = AF_INET, sa_addr = a, sa_port = port\<rparr>
      | None \<Rightarrow> map_option (\<lambda>a. \<lparr>sa_family = AF_INET6, sa_addr = a, sa_port = port\<rparr>) (pton AF_INET6 item))"

definition dns_udp_servers_parse :: "(af \<Rightarrow> string \<Rightarrow> bytes option) \<Rightarrow> string \<Rightarrow> int \<Rightarrow> udp_servers" where
  "dns_udp_servers_parse pton list so_mark = \<lparr>us_addrs = parse_list (parse_one pton 53) 64 list [], us_mark = so_mark\<rparr>"

text \<open>\<open>hooked\<close>: a hook was set with \<open>dns_set_socket_hook\<close>; it is the platform's preparation of a socket.\<close>

definition dns_prepare_socket :: "'u dialling \<Rightarrow> bool \<Rightarrow> int \<Rightarrow> af \<Rightarrow> int \<Rightarrow> 'u \<Rightarrow> bool \<times> 'u" where
  "dns_prepare_socket env hooked fd family so_mark u =
     (if hooked then n_prepare env fd family u
      else (True, if so_mark \<noteq> 0 then n_set_mark env fd so_mark u else u))"

text \<open>\<^const>\<open>None\<close> is the result -1; the empty reply is the result 0, a timeout.\<close>

definition dns_udp_transport :: "'u dialling \<Rightarrow> bool \<Rightarrow> udp_servers \<Rightarrow> nat \<Rightarrow> bytes \<Rightarrow> nat \<Rightarrow> int \<Rightarrow> 'u net \<Rightarrow> bytes option \<times> 'u net" where
  "dns_udp_transport env hooked s server_index query reply_size timeout w =
     (if server_index \<ge> length (us_addrs s) then (None, w)
      else let ss = us_addrs s ! server_index in
      case net_socket env ss w of (fd, w) \<Rightarrow>
        if fd < 0 then (None, w)
        else case on_net (dns_prepare_socket env hooked fd (sa_family ss) (us_mark s)) w of (prepared, w) \<Rightarrow>
        if \<not> prepared then (None, compat_close env fd w)
        else case on_net (n_connect env fd ss) w of (c, w) \<Rightarrow>
        if c \<noteq> Connected then (None, compat_close env fd w)
        else case do_send (n_io env) fd query w of (r, w) \<Rightarrow>
        if r \<noteq> Sent (length query) then (None, compat_close env fd w)
        else case on_net (n_wait_in env fd timeout) w of (ready, w) \<Rightarrow>
        if \<not> ready then (Some [], compat_close env fd w)
        else case do_recv (n_io env) fd reply_size w of (r, w) \<Rightarrow>
          (case r of Received b \<Rightarrow> Some b | _ \<Rightarrow> None, compat_close env fd w))"

section \<open>Connections to a DoH server\<close>

definition DOH_POOL :: nat where "DOH_POOL = 4"
definition DOH_IDLE_MAX_S :: int where "DOH_IDLE_MAX_S = 50"
definition DOH_HTTP_MAX :: nat where "DOH_HTTP_MAX = 4096"

record 'l doh_conn =
  dc_tls :: "'l tlsc"
  dc_last_used :: int

record 'l doh_server =
  ds_addr :: sockaddr
  ds_host :: string
  ds_label :: string
  ds_idle :: "'l doh_conn list"

record 'l dns_doh =
  doh_srv :: "'l doh_server list"
  doh_so_mark :: int
  doh_split :: relay_split
  doh_fallback :: "udp_servers option"

definition parse_server :: "(af \<Rightarrow> string \<Rightarrow> bytes option) \<Rightarrow> string \<Rightarrow> 'l doh_server option" where
  "parse_server pton item =
     (let ip = takeWhile (\<lambda>c. c \<noteq> CHR ''/'') item; host = drop (length ip + 1) item in
      if length ip = length item \<or> ip = [] \<or> host = [] then None
      else if length ip \<ge> 64 \<or> length host \<ge> 128 then None
      else map_option (\<lambda>a. \<lparr>ds_addr = a, ds_host = host, ds_label = take 255 (host @ ''@'' @ ip), ds_idle = []\<rparr>) (parse_one pton 443 ip))"

text \<open>\<open>ctx_ok\<close>: memory and a TLS context could be had.\<close>

definition dns_doh_new :: "(af \<Rightarrow> string \<Rightarrow> bytes option) \<Rightarrow> bool \<Rightarrow> string \<Rightarrow> int \<Rightarrow> udp_servers option \<Rightarrow> 'l dns_doh option" where
  "dns_doh_new pton ctx_ok list so_mark fallback =
     (let srv = parse_list (parse_server pton) 256 list [] in
      if srv = [] \<or> \<not> ctx_ok then None
      else Some \<lparr>doh_srv = srv, doh_so_mark = so_mark, doh_split = RELAY_SPLIT_TLS_RECORD, doh_fallback = fallback\<rparr>)"

definition dns_doh_count :: "'l dns_doh \<Rightarrow> nat" where
  "dns_doh_count d = length (doh_srv d)"

definition dns_doh_total :: "'l dns_doh \<Rightarrow> nat" where
  "dns_doh_total d = length (doh_srv d) + (case doh_fallback d of None \<Rightarrow> 0 | Some f \<Rightarrow> length (us_addrs f))"

definition dns_doh_label :: "'l dns_doh \<Rightarrow> nat \<Rightarrow> string" where
  "dns_doh_label d i = (if i < length (doh_srv d) then ds_label (doh_srv d ! i) else ''udp'')"

definition conn_free :: "'u dialling \<Rightarrow> 'l doh_conn \<Rightarrow> 'u net \<Rightarrow> 'u net" where
  "conn_free env c w = tlsc_free env (dc_tls c) w"

text \<open>Closing the idle connections of every server, the last one of each first.\<close>

definition drop_conns :: "'u dialling \<Rightarrow> 'l doh_conn list \<Rightarrow> 'u net \<Rightarrow> 'u net" where
  "drop_conns env cs w = fold (conn_free env) cs w"

text \<open>\<open>dns_doh_drop_idle\<close> collects the connections under the lock, and then closes them from the last.\<close>

definition dns_doh_drop_idle :: "'u dialling \<Rightarrow> 'l dns_doh \<Rightarrow> 'u net \<Rightarrow> 'l dns_doh \<times> 'u net" where
  "dns_doh_drop_idle env d w =
     (d\<lparr>doh_srv := map (\<lambda>s. s\<lparr>ds_idle := []\<rparr>) (doh_srv d)\<rparr>,
      drop_conns env (rev (concat (map (\<lambda>s. rev (ds_idle s)) (doh_srv d)))) w)"

definition dns_doh_free :: "'u dialling \<Rightarrow> 'l dns_doh \<Rightarrow> 'u net \<Rightarrow> 'u net" where
  "dns_doh_free env d w = drop_conns env (concat (map (\<lambda>s. rev (ds_idle s)) (doh_srv d))) w"

definition connect_fd :: "'u dialling \<Rightarrow> bool \<Rightarrow> int \<Rightarrow> sockaddr \<Rightarrow> int \<Rightarrow> 'u net \<Rightarrow> int \<times> 'u net" where
  "connect_fd env hooked so_mark addr deadline w =
     (case net_socket env addr w of (fd, w) \<Rightarrow>
        if fd < 0 then (- 1, w)
        else case on_net (dns_prepare_socket env hooked fd (sa_family addr) so_mark) w of (prepared, w) \<Rightarrow>
        if \<not> prepared then (- 1, compat_close env fd w)
        else case on_net (n_connect env fd addr) w of (r, w) \<Rightarrow>
        if r = Connect_in_use then (- 2, compat_close env fd w)
        else if r = Connect_failed then (- 1, compat_close env fd w)
        else case on_net (n_now_ms env) w of (now, w) \<Rightarrow>
        if deadline - now \<le> 0 then (- 1, compat_close env fd w)
        else case on_net (n_wait_out env fd (deadline - now)) w of (ready, w) \<Rightarrow>
        if \<not> ready then (- 1, compat_close env fd w)
        else case on_net (n_so_clear env fd) w of (clear, w) \<Rightarrow>
        if \<not> clear then (- 1, compat_close env fd w)
        else (fd, w))"

text \<open>The memory for the connection is part of what making a session may fail for: both close the socket.\<close>

definition conn_open :: "'u dialling \<Rightarrow> ('l, 'u) openssl \<Rightarrow> bool \<Rightarrow> 'l dns_doh \<Rightarrow> 'l doh_server \<Rightarrow> int \<Rightarrow> 'u net \<Rightarrow> ('l doh_conn option \<times> 'u net) option" where
  "conn_open env ossl hooked d s deadline w =
     (case retry_busy (connect_fd env hooked (doh_so_mark d) (ds_addr s) deadline) 0 w of (fd, w) \<Rightarrow>
        if fd < 0 then Some (None, w)
        else do {
          (r, session, w) \<leftarrow> tlsc_handshake env ossl fd (ds_host s) (doh_split d) deadline True w;
          Some (map_option (\<lambda>t. \<lparr>dc_tls = t, dc_last_used = 0\<rparr>) session, w)
        })"

section \<open>HTTP\<close>

definition text_of :: "bytes \<Rightarrow> string" where
  "text_of b = map (\<lambda>x. char_of (unat x)) b"

definition bytes_of :: "string \<Rightarrow> bytes" where
  "bytes_of s = map (\<lambda>c. of_nat (of_char c)) s"

text \<open>\<open>strstr\<close>: where a text first occurs in another.\<close>

fun find_text :: "string \<Rightarrow> string \<Rightarrow> nat option" where
  "find_text pat [] = (if pat = [] then Some 0 else None)"
| "find_text pat (c # s) = (if prefix pat (c # s) then Some 0 else map_option Suc (find_text pat s))"

definition CRLF2 :: string where "CRLF2 = [CHR 0x0D, CHR 0x0A, CHR 0x0D, CHR 0x0A]"

function header_value :: "string \<Rightarrow> string \<Rightarrow> int" where
  "header_value head name =
     (case dropWhile (\<lambda>c. c \<noteq> CHR 0x0A) head of
        [] \<Rightarrow> - 1
      | c # p \<Rightarrow>
          if ieq (take (length name) p) name \<and> length name < length p \<and> p ! length name = CHR '':''
          then fst (strtol10 (drop (length name + 1) p))
          else header_value p name)"
  by pat_completeness auto
termination
proof (relation "measure (\<lambda>(head, name). length head)", goal_cases)
  case (2 head name c p)
  then have "length (dropWhile (\<lambda>c. c \<noteq> CHR 0x0A) head) = Suc (length p)" by simp
  then have "length p < length head" using length_dropWhile_le [of "\<lambda>c. c \<noteq> CHR 0x0A" head] by linarith
  then show ?case by simp
qed simp

declare header_value.simps [simp del]

definition CRLF :: string where "CRLF = [CHR 0x0D, CHR 0x0A]"

definition doh_head :: "string \<Rightarrow> nat \<Rightarrow> string" where
  "doh_head host qlen = ''POST /dns-query HTTP/1.1'' @ CRLF @ ''Host: '' @ host @ CRLF @ ''Content-Type: application/dns-message'' @ CRLF @
     ''Accept: application/dns-message'' @ CRLF @ ''Content-Length: '' @ dec_nat qlen @ CRLF @ CRLF"

text \<open>Reading up to the end of the header: the bytes read and where the empty line starts. The buffer is
  read as a C string, which its first NUL ends.\<close>

partial_function (option) read_head :: "'u dialling \<Rightarrow> ('l, 'u) openssl \<Rightarrow> 'l tlsc \<Rightarrow> bytes \<Rightarrow> int \<Rightarrow> 'u net \<Rightarrow>
    ((bytes \<times> nat) option \<times> 'l tlsc \<times> 'u net) option" where
  "read_head env ossl t head deadline w =
     (if length head \<ge> DOH_HTTP_MAX then Some (None, t, w)
      else Option.bind (tlsc_read env ossl t (DOH_HTTP_MAX - length head) deadline w) (\<lambda>(r, t, w).
        case r of
          None \<Rightarrow> Some (None, t, w)
        | Some b \<Rightarrow>
            (case find_text CRLF2 (cstr (text_of (head @ b))) of
               Some e \<Rightarrow> Some (Some (head @ b, e), t, w)
             | None \<Rightarrow> read_head env ossl t (head @ b) deadline w)))"

partial_function (option) read_body :: "'u dialling \<Rightarrow> ('l, 'u) openssl \<Rightarrow> 'l tlsc \<Rightarrow> nat \<Rightarrow> bytes \<Rightarrow> int \<Rightarrow> 'u net \<Rightarrow>
    (bytes option \<times> 'l tlsc \<times> 'u net) option" where
  "read_body env ossl t body_len body deadline w =
     (if length body < body_len then
        Option.bind (tlsc_read env ossl t (body_len - length body) deadline w) (\<lambda>(r, t, w).
          case r of
            None \<Rightarrow> Some (None, t, w)
          | Some b \<Rightarrow> read_body env ossl t body_len (body @ b) deadline w)
      else Some (Some body, t, w))"

text \<open>The results: the body, 0 for an answer that is no usable message, -1 for a broken connection.\<close>

datatype doh_reply = Doh_body bytes | Doh_unusable | Doh_broken

text \<open>The status is read nine characters into the buffer, in which the end of the header was made a NUL.\<close>

definition http_status :: "bytes \<Rightarrow> nat \<Rightarrow> int" where
  "http_status head e =
     (let buf = (text_of head)[e := CHR 0x00] in
      if prefix ''HTTP/1.'' (cstr buf) then fst (strtol10 (cstr (drop 9 buf))) else 0)"

definition read_response :: "'u dialling \<Rightarrow> ('l, 'u) openssl \<Rightarrow> 'l tlsc \<Rightarrow> nat \<Rightarrow> int \<Rightarrow> 'u net \<Rightarrow> (doh_reply \<times> 'l tlsc \<times> 'u net) option" where
  "read_response env ossl t reply_size deadline w = do {
     (r, t, w) \<leftarrow> read_head env ossl t [] deadline w;
     case r of
       None \<Rightarrow> Some (Doh_broken, t, w)
     | Some (head, e) \<Rightarrow>
         let status = http_status head e;
             body_len = header_value (text_of (take e head)) ''Content-Length'';
             body = drop (e + 4) head in
         if body_len < 0 \<or> nat body_len > reply_size then Some (Doh_broken, t, w)
         else if length body > nat body_len then Some (Doh_broken, t, w)
         else do {
           (b, t, w) \<leftarrow> read_body env ossl t (nat body_len) body deadline w;
           case b of
             None \<Rightarrow> Some (Doh_broken, t, w)
           | Some body \<Rightarrow> Some (if status \<noteq> 200 \<or> body_len < 12 then Doh_unusable else Doh_body body, t, w)
         }
   }"

definition doh_request :: "'u dialling \<Rightarrow> ('l, 'u) openssl \<Rightarrow> 'l tlsc \<Rightarrow> string \<Rightarrow> bytes \<Rightarrow> nat \<Rightarrow> int \<Rightarrow> 'u net \<Rightarrow> (doh_reply \<times> 'l tlsc \<times> 'u net) option" where
  "doh_request env ossl t host query reply_size deadline w =
     (let head = bytes_of (doh_head host (length query)) in
      if length head \<ge> DOH_HTTP_MAX + 1 then Some (Doh_broken, t, w)
      else do {
        (ok, t, w) \<leftarrow> tlsc_write env ossl t head deadline w;
        if \<not> ok then Some (Doh_broken, t, w)
        else do {
          (ok, t, w) \<leftarrow> tlsc_write env ossl t query deadline w;
          if \<not> ok then Some (Doh_broken, t, w) else read_response env ossl t reply_size deadline w
        }
      })"

section \<open>The pool and a query\<close>

text \<open>Both work on the idle connections of one server; the last is taken first.\<close>

function pool_take :: "'u dialling \<Rightarrow> int \<Rightarrow> 'l doh_conn list \<Rightarrow> 'u net \<Rightarrow> 'l doh_conn option \<times> 'l doh_conn list \<times> 'u net" where
  "pool_take env now pool w =
     (if pool = [] then (None, [], w)
      else if now - dc_last_used (last pool) > DOH_IDLE_MAX_S * 1000
      then pool_take env now (butlast pool) (conn_free env (last pool) w)
      else (Some (last pool), butlast pool, w))"
  by pat_completeness auto
termination by (relation "measure (\<lambda>(env, now, pool, w). length pool)") auto

declare pool_take.simps [simp del]

definition pool_get :: "'u dialling \<Rightarrow> 'l doh_conn list \<Rightarrow> 'u net \<Rightarrow> 'l doh_conn option \<times> 'l doh_conn list \<times> 'u net" where
  "pool_get env pool w = (case on_net (n_now_ms env) w of (now, w) \<Rightarrow> pool_take env now pool w)"

definition pool_put :: "'u dialling \<Rightarrow> 'l doh_conn \<Rightarrow> 'l doh_conn list \<Rightarrow> 'u net \<Rightarrow> 'l doh_conn list \<times> 'u net" where
  "pool_put env c pool w =
     (case on_net (n_now_ms env) w of (now, w) \<Rightarrow>
        let c = c\<lparr>dc_last_used := now\<rparr> in
        if length pool < DOH_POOL then (pool @ [c], w) else (pool, conn_free env c w))"

text \<open>A pass of the loop of \<open>doh_query\<close>. The result is the reply with the new pool, or \<^const>\<open>None\<close> when the
  connection broke and was closed.\<close>

definition doh_attempt :: "'u dialling \<Rightarrow> ('l, 'u) openssl \<Rightarrow> bool \<Rightarrow> 'l dns_doh \<Rightarrow> 'l doh_server \<Rightarrow> bytes \<Rightarrow> nat \<Rightarrow> int \<Rightarrow> 'l doh_conn option \<Rightarrow>
    'l doh_conn list \<Rightarrow> 'u net \<Rightarrow> (bytes option option \<times> 'l doh_conn list \<times> 'u net) option" where
  "doh_attempt env ossl hooked d s query reply_size deadline pooled pool w = do {
     (c, w) \<leftarrow> (case pooled of Some c \<Rightarrow> Some (Some c, w) | None \<Rightarrow> conn_open env ossl hooked d s deadline w);
     case c of
       None \<Rightarrow> Some (Some (Some []), pool, w)
     | Some c \<Rightarrow> do {
         (r, t, w) \<leftarrow> doh_request env ossl (dc_tls c) (ds_host s) query reply_size deadline w;
         let c = c\<lparr>dc_tls := t\<rparr>;
         case r of
           Doh_broken \<Rightarrow> Some (None, pool, conn_free env c w)
         | Doh_unusable \<Rightarrow> (case pool_put env c pool w of (pool, w) \<Rightarrow> Some (Some None, pool, w))
         | Doh_body b \<Rightarrow> (case pool_put env c pool w of (pool, w) \<Rightarrow> Some (Some (Some b), pool, w))
       }
   }"

definition doh_query :: "'u dialling \<Rightarrow> ('l, 'u) openssl \<Rightarrow> bool \<Rightarrow> 'l dns_doh \<Rightarrow> 'l doh_server \<Rightarrow> bytes \<Rightarrow> nat \<Rightarrow> int \<Rightarrow> 'u net \<Rightarrow>
    (bytes option \<times> 'l doh_conn list \<times> 'u net) option" where
  "doh_query env ossl hooked d s query reply_size timeout w =
     (case on_net (n_now_ms env) w of (now, w) \<Rightarrow>
        let deadline = now + timeout in
        case pool_get env (ds_idle s) w of (c, pool, w) \<Rightarrow> do {
          (r, pool, w) \<leftarrow> doh_attempt env ossl hooked d s query reply_size deadline c pool w;
          case r of
            Some reply \<Rightarrow> Some (reply, pool, w)
          | None \<Rightarrow>
              if c = None then Some (Some [], pool, w)
              else (case on_net (n_now_ms env) w of (now, w) \<Rightarrow>
                 if now \<ge> deadline then Some (Some [], pool, w)
                 else do {
                   (r, pool, w) \<leftarrow> doh_attempt env ossl hooked d s query reply_size deadline None pool w;
                   Some (case r of Some reply \<Rightarrow> reply | None \<Rightarrow> Some [], pool, w)
                 })
        })"

definition dns_doh_transport :: "'u dialling \<Rightarrow> ('l, 'u) openssl \<Rightarrow> bool \<Rightarrow> nat \<Rightarrow> bytes \<Rightarrow> nat \<Rightarrow> int \<Rightarrow> 'l dns_doh \<times> 'u net \<Rightarrow>
    (bytes option \<times> 'l dns_doh \<times> 'u net) option" where
  "dns_doh_transport env ossl hooked server_index query reply_size timeout dw =
     (case dw of (d, w) \<Rightarrow>
        if server_index < length (doh_srv d) then do {
          let s = doh_srv d ! server_index;
          (r, pool, w) \<leftarrow> doh_query env ossl hooked d s query reply_size timeout w;
          Some (r, d\<lparr>doh_srv := (doh_srv d)[server_index := s\<lparr>ds_idle := pool\<rparr>]\<rparr>, w)
        }
        else case doh_fallback d of
          None \<Rightarrow> Some (None, d, w)
        | Some f \<Rightarrow> (case dns_udp_transport env hooked f (server_index - length (doh_srv d)) query reply_size timeout w of (r, w) \<Rightarrow> Some (r, d, w)))"

section \<open>Reading a response\<close>

text \<open>One call after another on a session that is still good.\<close>

lemma ran_bind:
  assumes m: "ran work ac RELAY_SPLIT_NONE False good1 Q1 t w m"
    and go: "\<And>x t' u evs got. good1 x \<Longrightarrow> Q1 x got \<Longrightarrow>
      ran work ac RELAY_SPLIT_NONE False good (\<lambda>y got'. Q y (got @ got')) t' (u, snd w @ evs) (k x t' (u, snd w @ evs))"
    and bad: "\<And>x t' w' got. \<not> good1 x \<Longrightarrow> Q1 x got \<Longrightarrow> \<exists>y. k x t' w' = Some (y, t', w') \<and> \<not> good y \<and> Q y got"
  shows "ran work ac RELAY_SPLIT_NONE False good Q t w (Option.bind m (\<lambda>(x, t, w). k x t w))"
proof -
  obtain x t' u evs got where r: "m = Some (x, t', u, snd w @ evs)" "tc_fd t' = tc_fd t" "work u \<le> work (fst w)"
    "moved ac (tc_fd t) RELAY_SPLIT_NONE (tc_ssl t) (tc_ssl t') (good1 x) evs" "ac_plain ac (tc_ssl t') = ac_plain ac (tc_ssl t) @ got" "Q1 x got"
    using m unfolding ran_def by blast
  show ?thesis
  proof (cases "good1 x")
    case True
    have "ran work ac RELAY_SPLIT_NONE False good Q t w (k x t' (u, snd w @ evs))"
      by (rule ran_after [OF _ r(2,3,5) go [OF True r(6)]]) (use r(4) True in simp)
    then show ?thesis using r(1) by simp
  next
    case False
    then obtain y where y: "k x t' (u, snd w @ evs) = Some (y, t', u, snd w @ evs)" "\<not> good y" "Q y got" using bad r(6) by blast
    show ?thesis
      by (rule ranI [of _ y t' u _ evs _ _ _ _ _ _ got]) (use r y False in auto)
  qed
qed

lemma ran_return: "Q x [] \<Longrightarrow> ran work ac RELAY_SPLIT_NONE False good Q t w (Some (x, t, w))"
  by (rule ranI [of _ x t "fst w" _ "[]" _ _ _ _ _ _ "[]"]) (simp_all add: moved_nothing)

definition head_read :: "bytes \<Rightarrow> (bytes \<times> nat) option \<Rightarrow> bytes \<Rightarrow> bool" where
  "head_read head r got \<longleftrightarrow> (\<forall>h e. r = Some (h, e) \<longrightarrow> h = head @ got \<and> find_text CRLF2 (cstr (text_of h)) = Some e \<and> length h \<le> DOH_HTTP_MAX)"

lemma head_read_shift: "(\<lambda>y got'. head_read head y (got @ got')) = head_read (head @ got)"
  by (intro ext) (simp add: head_read_def)

lemma read_head_ran:
  assumes laws: "dialling_ok env work" "recv_ok (n_io env) work" "send_ok (n_io env) work" "ssl_ok ossl work ac"
  shows "ran work ac RELAY_SPLIT_NONE False (\<lambda>r. r \<noteq> None) (head_read head) t w (read_head env ossl t head deadline w)"
proof (induction "DOH_HTTP_MAX - length head" arbitrary: head t w rule: less_induct)
  case less
  show ?case
  proof (cases "length head \<ge> DOH_HTTP_MAX")
    case True
    then show ?thesis by (subst read_head.simps) (simp add: ran_return head_read_def)
  next
    case False
    define k where "k r t w = (case r of None \<Rightarrow> Some (None, t, w)
        | Some b \<Rightarrow> (case find_text CRLF2 (cstr (text_of (head @ b))) of Some e \<Rightarrow> Some (Some (head @ b, e), t, w)
             | None \<Rightarrow> read_head env ossl t (head @ b) deadline w))" for r t and w :: "'a net"
    have "ran work ac RELAY_SPLIT_NONE False (\<lambda>r. r \<noteq> None) (head_read head) t w
        (Option.bind (tlsc_read env ossl t (DOH_HTTP_MAX - length head) deadline w) (\<lambda>(r, t, w). k r t w))"
    proof (rule ran_bind [OF tlsc_read_ran [OF laws]])
      fix x t' u evs got assume "x \<noteq> None" "read_gives (DOH_HTTP_MAX - length head) x got"
      then have x: "x = Some got" "got \<noteq> []" "length got \<le> DOH_HTTP_MAX - length head" by (auto simp: read_gives_def)
      have "ran work ac RELAY_SPLIT_NONE False (\<lambda>r. r \<noteq> None) (head_read (head @ got)) t' (u, snd w @ evs) (read_head env ossl t' (head @ got) deadline (u, snd w @ evs))"
        using less [of "head @ got" t' "(u, snd w @ evs)"] x False by (cases got) auto
      then show "ran work ac RELAY_SPLIT_NONE False (\<lambda>r. r \<noteq> None) (\<lambda>y got'. head_read head y (got @ got')) t' (u, snd w @ evs) (k x t' (u, snd w @ evs))"
        unfolding head_read_shift using x False by (simp add: k_def head_read_def ran_return split: option.split)
    qed (auto simp: k_def head_read_def)
    then show ?thesis using False by (subst read_head.simps) (simp add: k_def)
  qed
qed

definition body_read :: "nat \<Rightarrow> bytes \<Rightarrow> bytes option \<Rightarrow> bytes \<Rightarrow> bool" where
  "body_read len body r got \<longleftrightarrow> (\<forall>b. r = Some b \<longrightarrow> b = body @ got \<and> length b = len)"

lemma body_read_shift: "(\<lambda>y got'. body_read len body y (got @ got')) = body_read len (body @ got)"
  by (intro ext) (simp add: body_read_def)

lemma read_body_ran:
  assumes laws: "dialling_ok env work" "recv_ok (n_io env) work" "send_ok (n_io env) work" "ssl_ok ossl work ac"
  shows "length body \<le> len \<Longrightarrow> ran work ac RELAY_SPLIT_NONE False (\<lambda>r. r \<noteq> None) (body_read len body) t w (read_body env ossl t len body deadline w)"
proof (induction "len - length body" arbitrary: body t w rule: less_induct)
  case less
  show ?case
  proof (cases "length body < len")
    case False
    then show ?thesis using less.prems by (subst read_body.simps) (simp add: ran_return body_read_def)
  next
    case True
    define k where "k r t w = (case r of None \<Rightarrow> Some (None, t, w) | Some b \<Rightarrow> read_body env ossl t len (body @ b) deadline w)" for r t and w :: "'a net"
    have "ran work ac RELAY_SPLIT_NONE False (\<lambda>r. r \<noteq> None) (body_read len body) t w
        (Option.bind (tlsc_read env ossl t (len - length body) deadline w) (\<lambda>(r, t, w). k r t w))"
    proof (rule ran_bind [OF tlsc_read_ran [OF laws]])
      fix x t' u evs got assume "x \<noteq> None" "read_gives (len - length body) x got"
      then have x: "x = Some got" "got \<noteq> []" "length got \<le> len - length body" by (auto simp: read_gives_def)
      have "ran work ac RELAY_SPLIT_NONE False (\<lambda>r. r \<noteq> None) (body_read len (body @ got)) t' (u, snd w @ evs) (read_body env ossl t' len (body @ got) deadline (u, snd w @ evs))"
        using less.hyps [of "body @ got" t' "(u, snd w @ evs)"] x True by (cases got) auto
      then show "ran work ac RELAY_SPLIT_NONE False (\<lambda>r. r \<noteq> None) (\<lambda>y got'. body_read len body y (got @ got')) t' (u, snd w @ evs) (k x t' (u, snd w @ evs))"
        unfolding body_read_shift using x by (simp add: k_def)
    qed (auto simp: k_def body_read_def)
    then show ?thesis using True by (subst read_body.simps) (simp add: k_def)
  qed
qed

text \<open>What was read is a response with a usable message: a header that an empty line ends, with the status 200 and
  the length of the body, and then just the body.\<close>

definition response_ok :: "nat \<Rightarrow> bytes \<Rightarrow> bytes \<Rightarrow> bool" where
  "response_ok reply_size got body \<longleftrightarrow> (\<exists>head e. prefix head got \<and> find_text CRLF2 (cstr (text_of head)) = Some e \<and> http_status head e = 200 \<and>
     header_value (text_of (take e head)) ''Content-Length'' = int (length body) \<and> body = drop (e + 4) got \<and>
     12 \<le> length body \<and> length body \<le> reply_size)"

definition reply_read :: "nat \<Rightarrow> doh_reply \<Rightarrow> bytes \<Rightarrow> bool" where
  "reply_read reply_size r got \<longleftrightarrow> (\<forall>b. r = Doh_body b \<longrightarrow> response_ok reply_size got b)"

lemma reply_read_simps [simp]: "reply_read n Doh_broken got" "reply_read n Doh_unusable got" "reply_read n (Doh_body b) got = response_ok n got b"
  by (simp_all add: reply_read_def)

lemma find_text_length: "find_text pat s = Some e \<Longrightarrow> e + length pat \<le> length s"
  by (induction pat s arbitrary: e rule: find_text.induct) (auto split: if_splits dest: prefix_length_le)

lemma cstr_length: "length (cstr s) \<le> length s"
  by (simp add: cstr_def length_takeWhile_le)

lemma read_response_ran:
  fixes env :: "'u dialling" and ossl :: "('l, 'u) openssl"
  assumes laws: "dialling_ok env work" "recv_ok (n_io env) work" "send_ok (n_io env) work" "ssl_ok ossl work ac"
  shows "ran work ac RELAY_SPLIT_NONE False (\<lambda>r. r \<noteq> Doh_broken) (reply_read reply_size) t w (read_response env ossl t reply_size deadline w)"
proof -
  define finish where "finish head e b t w = (case b of None \<Rightarrow> Some (Doh_broken, t, w)
     | Some body \<Rightarrow> Some (if http_status head e \<noteq> 200 \<or> header_value (text_of (take e head)) ''Content-Length'' < 12 then Doh_unusable else Doh_body body, t, w))"
    for head e b and t :: "'l tlsc" and w :: "'u net"
  define k where "k r t w = (case r of None \<Rightarrow> Some (Doh_broken, t, w) | Some (head, e) \<Rightarrow>
      let body_len = header_value (text_of (take e head)) ''Content-Length''; body = drop (e + 4) head in
      if body_len < 0 \<or> nat body_len > reply_size then Some (Doh_broken, t, w)
      else if length body > nat body_len then Some (Doh_broken, t, w)
      else Option.bind (read_body env ossl t (nat body_len) body deadline w) (\<lambda>(b, t, w). finish head e b t w))" for r t w
  have "ran work ac RELAY_SPLIT_NONE False (\<lambda>r. r \<noteq> Doh_broken) (reply_read reply_size) t w
      (Option.bind (read_head env ossl t [] deadline w) (\<lambda>(r, t, w). k r t w))"
  proof (rule ran_bind [OF read_head_ran [OF laws]])
    fix x t' u evs got assume x0: "x \<noteq> None" "head_read [] x got"
    obtain h e where h: "x = Some (h, e)" using x0(1) by (cases x) auto
    then have "h = got" "find_text CRLF2 (cstr (text_of h)) = Some e" using x0(2) unfolding head_read_def by (metis append_Nil)+
    then have x: "x = Some (got, e)" "find_text CRLF2 (cstr (text_of got)) = Some e" using h by simp_all
    have "length (cstr (text_of got)) \<le> length got" using cstr_length [of "text_of got"] unfolding text_of_def length_map .
    then have e: "e + 4 \<le> length got" using find_text_length [OF x(2)] by (simp add: CRLF2_def)
    define len where "len = header_value (text_of (take e got)) ''Content-Length''"
    have body: "ran work ac RELAY_SPLIT_NONE False (\<lambda>r. r \<noteq> Doh_broken) (\<lambda>y got'. reply_read reply_size y (got @ got')) t' (u, snd w @ evs)
        (Option.bind (read_body env ossl t' (nat len) (drop (e + 4) got) deadline (u, snd w @ evs)) (\<lambda>(b, t, w). finish got e b t w))"
      if len: "0 \<le> len" "nat len \<le> reply_size" "length (drop (e + 4) got) \<le> nat len"
    proof (rule ran_bind [OF read_body_ran [OF laws len(3)]])
      fix b t1 u1 evs1 more assume "b \<noteq> None" "body_read (nat len) (drop (e + 4) got) b more"
      then have b: "b = Some (drop (e + 4) got @ more)" "length (drop (e + 4) got @ more) = nat len" by (auto simp: body_read_def)
      have "drop (e + 4) (got @ more) = drop (e + 4) got @ more" using e by simp
      then have "response_ok reply_size (got @ more) (drop (e + 4) got @ more)" if "http_status got e = 200" "12 \<le> len"
        unfolding response_ok_def using x(2) len that b(2) by (intro exI [of _ got] exI [of _ e]) (simp add: len_def)
      then show "ran work ac RELAY_SPLIT_NONE False (\<lambda>r. r \<noteq> Doh_broken) (\<lambda>y got'. reply_read reply_size y (got @ more @ got')) t1
          (u1, snd (u, snd w @ evs) @ evs1) (finish got e b t1 (u1, snd (u, snd w @ evs) @ evs1))"
        by (simp add: finish_def b(1) len_def ran_return)
    qed (auto simp: finish_def)
    have broken: "ran work ac RELAY_SPLIT_NONE False (\<lambda>r. r \<noteq> Doh_broken) (\<lambda>y got'. reply_read reply_size y (got @ got')) t' (u, snd w @ evs)
        (Some (Doh_broken, t', u, snd w @ evs))" by (simp add: ran_return)
    show "ran work ac RELAY_SPLIT_NONE False (\<lambda>r. r \<noteq> Doh_broken) (\<lambda>y got'. reply_read reply_size y (got @ got')) t' (u, snd w @ evs) (k x t' (u, snd w @ evs))"
      using broken body by (simp add: k_def x(1) Let_def len_def [symmetric] not_less)
  next
    fix x :: "(bytes \<times> nat) option" and t' w' got assume "\<not> x \<noteq> None"
    then have "x = None" by blast
    then show "\<exists>y. k x t' w' = Some (y, t', w') \<and> \<not> y \<noteq> Doh_broken \<and> reply_read reply_size y got" by (simp add: k_def)
  qed
  then show ?thesis unfolding read_response_def k_def finish_def Let_def by simp
qed

lemma doh_request_ran:
  assumes laws: "dialling_ok env work" "recv_ok (n_io env) work" "send_ok (n_io env) work" "ssl_ok ossl work ac"
  shows "ran work ac RELAY_SPLIT_NONE False (\<lambda>r. r \<noteq> Doh_broken) (reply_read reply_size) t w (doh_request env ossl t host query reply_size deadline w)"
proof (cases "length (bytes_of (doh_head host (length query))) \<ge> DOH_HTTP_MAX + 1")
  case True
  then show ?thesis by (simp add: doh_request_def ran_return)
next
  case False
  define k2 where "k2 ok t w = (if \<not> ok then Some (Doh_broken, t, w) else read_response env ossl t reply_size deadline w)" for ok t w
  define k1 where "k1 ok t w = (if \<not> ok then Some (Doh_broken, t, w) else Option.bind (tlsc_write env ossl t query deadline w) (\<lambda>(ok, t, w). k2 ok t w))" for ok t w
  have w2: "ran work ac RELAY_SPLIT_NONE False (\<lambda>r. r \<noteq> Doh_broken) (reply_read reply_size) t w
      (Option.bind (tlsc_write env ossl t query deadline w) (\<lambda>(ok, t, w). k2 ok t w))" for t w
    by (rule ran_bind [OF tlsc_write_ran [OF laws]]) (use read_response_ran [OF laws] in \<open>auto simp: k2_def silent_def\<close>)
  have "ran work ac RELAY_SPLIT_NONE False (\<lambda>r. r \<noteq> Doh_broken) (reply_read reply_size) t w
      (Option.bind (tlsc_write env ossl t (bytes_of (doh_head host (length query))) deadline w) (\<lambda>(ok, t, w). k1 ok t w))"
    by (rule ran_bind [OF tlsc_write_ran [OF laws]]) (use w2 in \<open>auto simp: k1_def silent_def\<close>)
  then show ?thesis unfolding doh_request_def k1_def k2_def Let_def using False by simp
qed

section \<open>Keeping account of connections\<close>

definition conn_fds :: "'l doh_conn list \<Rightarrow> int list" where
  "conn_fds cs = map (\<lambda>c. tc_fd (dc_tls c)) cs"

definition conns_ok :: "'l doh_conn list \<Rightarrow> bool" where
  "conns_ok cs = list_all (\<lambda>c. 0 \<le> tc_fd (dc_tls c)) cs"

definition held :: "'l doh_conn option \<Rightarrow> 'l doh_conn list" where
  "held c = (case c of None \<Rightarrow> [] | Some c \<Rightarrow> [c])"

lemma conn_simps [simp]: "conn_fds [] = []" "conn_fds (c # cs) = tc_fd (dc_tls c) # conn_fds cs" "conn_fds (cs @ ds) = conn_fds cs @ conn_fds ds"
  "conns_ok []" "conns_ok (c # cs) \<longleftrightarrow> 0 \<le> tc_fd (dc_tls c) \<and> conns_ok cs" "conns_ok (cs @ ds) \<longleftrightarrow> conns_ok cs \<and> conns_ok ds"
  "held None = []" "held (Some c) = [c]"
  by (simp_all add: conn_fds_def conns_ok_def held_def)

text \<open>No connection is lost and none is closed twice: those held before and opened meanwhile are those held
  after and closed meanwhile.\<close>

definition balanced :: "'l doh_conn list \<Rightarrow> net_event list \<Rightarrow> 'm doh_conn list \<Rightarrow> bool" where
  "balanced before evs after \<longleftrightarrow> mset (conn_fds before) + mset (opened evs) = mset (conn_fds after) + mset (closed evs)"

lemma balanced_trans: "balanced a e1 b \<Longrightarrow> balanced b e2 c \<Longrightarrow> balanced a (e1 @ e2) c"
  unfolding balanced_def by (simp add: union_assoc [symmetric])

lemma balanced_on_fd: "on_fd fd evs \<Longrightarrow> conn_fds a = conn_fds b \<Longrightarrow> balanced a evs b"
  by (simp add: balanced_def)

lemma conn_free_closes:
  assumes "dialling_ok env work" "0 \<le> tc_fd (dc_tls c)"
  shows "\<exists>u. conn_free env c w = (u, snd w @ [Ev_close (tc_fd (dc_tls c))]) \<and> work u \<le> work (fst w)"
  using assms dialling_laws(8) [OF assms(1), of "tc_fd (dc_tls c)" "fst w"] by (simp add: conn_free_def tlsc_free_def compat_close_def)

lemma pool_take_ok:
  assumes env: "dialling_ok env work"
  shows "conns_ok pool \<Longrightarrow> \<exists>c pool' u evs. pool_take env now pool w = (c, pool', u, snd w @ evs) \<and> work u \<le> work (fst w) \<and>
    balanced pool evs (held c @ pool') \<and> conns_ok (held c @ pool') \<and> length pool' \<le> length pool \<and> opened evs = [] \<and>
    (\<forall>x. c = Some x \<longrightarrow> x \<in> set pool \<and> now - dc_last_used x \<le> DOH_IDLE_MAX_S * 1000)"
proof (induction pool arbitrary: w rule: rev_induct)
  case Nil
  then show ?case
    by (intro exI [of _ None] exI [of _ "[]"] exI [of _ "fst w"]) (simp add: pool_take.simps balanced_def)
next
  case (snoc c pool)
  show ?case
  proof (cases "now - dc_last_used c > DOH_IDLE_MAX_S * 1000")
    case False
    then show ?thesis using snoc.prems
      by (intro exI [of _ "Some c"] exI [of _ pool] exI [of _ "fst w"] exI [of _ "[]"]) (simp add: pool_take.simps balanced_def)
  next
    case True
    obtain u1 where c: "conn_free env c w = (u1, snd w @ [Ev_close (tc_fd (dc_tls c))])" "work u1 \<le> work (fst w)"
      using conn_free_closes [OF env, of c w] snoc.prems by auto
    obtain x pool' u evs where r: "pool_take env now pool (u1, snd w @ [Ev_close (tc_fd (dc_tls c))]) = (x, pool', u, snd w @ Ev_close (tc_fd (dc_tls c)) # evs)"
      "work u \<le> work u1" "balanced pool evs (held x @ pool')" "conns_ok (held x @ pool')" "length pool' \<le> length pool" "opened evs = []"
      "\<forall>y. x = Some y \<longrightarrow> y \<in> set pool \<and> now - dc_last_used y \<le> DOH_IDLE_MAX_S * 1000"
      using snoc.IH [of "(u1, snd w @ [Ev_close (tc_fd (dc_tls c))])"] snoc.prems by auto
    have "balanced (pool @ [c]) (Ev_close (tc_fd (dc_tls c)) # evs) (held x @ pool')" using r(3) by (simp add: balanced_def)
    then show ?thesis using True c r by (subst pool_take.simps) auto
  qed
qed

lemma pool_put_ok:
  assumes env: "dialling_ok env work" and ok: "conns_ok (c # pool)" "length pool \<le> DOH_POOL"
  shows "\<exists>pool' u evs. pool_put env c pool w = (pool', u, snd w @ evs) \<and> work u \<le> work (fst w) \<and> balanced (c # pool) evs pool' \<and>
    conns_ok pool' \<and> length pool' \<le> DOH_POOL \<and> opened evs = []"
proof -
  obtain now u where n: "n_now_ms env (fst w) = (now, u)" by fastforce
  obtain u1 where f: "conn_free env (c\<lparr>dc_last_used := now\<rparr>) (u, snd w) = (u1, snd w @ [Ev_close (tc_fd (dc_tls c))])" "work u1 \<le> work u"
    using conn_free_closes [OF env, of "c\<lparr>dc_last_used := now\<rparr>" "(u, snd w)"] ok by auto
  show ?thesis
    using ok n f dialling_laws(7) [OF env n] by (auto simp: pool_put_def on_net_def Let_def balanced_def)
qed

section \<open>Opening a connection\<close>

lemma prepare_work: "dialling_ok env work \<Longrightarrow> dns_prepare_socket env hooked fd f m u = (p, u') \<Longrightarrow> work u' \<le> work u"
  using dialling_laws(2,9) by (auto simp: dns_prepare_socket_def split: if_splits)

lemma connect_fd_dialled:
  assumes env: "dialling_ok env work"
  shows "dialled work 1 True w (connect_fd env hooked mark addr deadline w)"
proof -
  note law = dialling_laws [OF env]
  obtain fd u1 where s: "n_socket env addr (fst w) = (fd, u1)" by fastforce
  obtain p u2 where p: "dns_prepare_socket env hooked fd (sa_family addr) mark u1 = (p, u2)" by fastforce
  obtain c u3 where c: "n_connect env fd addr u2 = (c, u3)" by fastforce
  obtain now u4 where n: "n_now_ms env u3 = (now, u4)" by fastforce
  obtain r u5 where r: "n_wait_out env fd (deadline - now) u4 = (r, u5)" by fastforce
  obtain k u6 where k: "n_so_clear env fd u5 = (k, u6)" by fastforce
  note le = law(1) [OF s] prepare_work [OF env p] law(3) [OF c] law(7) [OF n] law(5) [OF r] law(6) [OF k]
  let ?e = "[Ev_connect fd]"
  have eq: "connect_fd env hooked mark addr deadline w =
    (if fd < 0 then (- 1, u1, snd w @ ?e)
     else if \<not> p then (- 1, compat_close env fd (u2, snd w @ ?e))
     else if c = Connect_in_use then (- 2, compat_close env fd (u3, snd w @ ?e))
     else if c = Connect_failed then (- 1, compat_close env fd (u3, snd w @ ?e))
     else if deadline - now \<le> 0 then (- 1, compat_close env fd (u4, snd w @ ?e))
     else if \<not> r then (- 1, compat_close env fd (u5, snd w @ ?e))
     else if \<not> k then (- 1, compat_close env fd (u6, snd w @ ?e))
     else (fd, u6, snd w @ ?e))"
    by (simp add: connect_fd_def net_socket_def on_net_def s p c n r k cong: if_cong)
  show ?thesis unfolding eq using dialled_unopened [of fd work u1 w] dialled_open [of fd work u6 w] dialled_shut [OF env, where fd = fd and w = w] le by auto
qed

lemma conn_open_ok:
  assumes laws: "dialling_ok env work" "recv_ok (n_io env) work" "send_ok (n_io env) work" "ssl_ok ossl work ac"
  shows "\<exists>c u evs. conn_open env ossl hooked d s deadline w = Some (c, u, snd w @ evs) \<and> work u \<le> work (fst w) \<and>
    balanced [] evs (held c) \<and> conns_ok (held c)"
proof -
  have "dialled work (CONNECT_TRIES - 0) True w (retry_busy (connect_fd env hooked (doh_so_mark d) (ds_addr s) deadline) 0 w)"
    by (rule retry_busy_dialled [OF connect_fd_dialled [OF laws(1)]]) (simp add: CONNECT_TRIES_def)
  then obtain fd u1 e1 where c: "retry_busy (connect_fd env hooked (doh_so_mark d) (ds_addr s) deadline) 0 w = (fd, u1, snd w @ e1)"
    "work u1 \<le> work (fst w)" "opened e1 = closed e1 @ (if fd < 0 then [] else [fd])" unfolding dialled_def by auto
  show ?thesis
  proof (cases "fd < 0")
    case True
    then show ?thesis using c by (auto simp: conn_open_def balanced_def)
  next
    case False
    from handshake_ok [OF laws, of fd "ds_host s" "doh_split d" deadline True "(u1, snd w @ e1)"] False
    obtain result session u2 e2 where h: "tlsc_handshake env ossl fd (ds_host s) (doh_split d) deadline True (u1, snd w @ e1) =
        Some (result, session, u2, snd w @ e1 @ e2)" "work u2 \<le> work u1"
      "case session of None \<Rightarrow> (\<exists>mid. e2 = mid @ [Ev_close fd] \<and> on_fd fd mid) | Some t \<Rightarrow> tc_fd t = fd \<and> on_fd fd e2"
      by (auto split: option.splits)
    show ?thesis
      using False c h by (cases session) (auto simp: conn_open_def balanced_def intro!: exI [of _ "e1 @ e2"])
  qed
qed

section \<open>A query\<close>

text \<open>A reply is the body of a response, or empty for a timeout.\<close>

definition doh_answer :: "nat \<Rightarrow> bytes option \<Rightarrow> bool" where
  "doh_answer reply_size r \<longleftrightarrow> (\<forall>b. r = Some b \<longrightarrow> b = [] \<or> (\<exists>got. response_ok reply_size got b))"

lemma doh_answer_length: "doh_answer n (Some b) \<Longrightarrow> length b \<le> n"
  by (auto simp: doh_answer_def response_ok_def)

text \<open>What a step of the query gives: it returns, and every connection is accounted for.\<close>

definition accounted :: "('u \<Rightarrow> nat) \<Rightarrow> ('x \<Rightarrow> bool) \<Rightarrow> 'l doh_conn list \<Rightarrow> 'u net \<Rightarrow> ('x \<times> 'l doh_conn list \<times> 'u net) option \<Rightarrow> bool" where
  "accounted work Q before w res \<longleftrightarrow> (\<exists>r pool u evs. res = Some (r, pool, u, snd w @ evs) \<and> work u \<le> work (fst w) \<and> balanced before evs pool \<and>
     conns_ok pool \<and> length pool \<le> DOH_POOL \<and> Q r)"

lemma accountedI:
  "res = Some (r, pool, u, snd w @ evs) \<Longrightarrow> work u \<le> work (fst w) \<Longrightarrow> balanced before evs pool \<Longrightarrow> conns_ok pool \<Longrightarrow> length pool \<le> DOH_POOL \<Longrightarrow> Q r \<Longrightarrow>
   accounted work Q before w res"
  unfolding accounted_def by blast

lemma accounted_after:
  assumes "accounted work Q mid (u, snd w @ evs) res" "work u \<le> work (fst w)" "balanced before evs mid"
  shows "accounted work Q before w res"
proof -
  obtain r pool u' evs' where h: "res = Some (r, pool, u', snd w @ evs @ evs')" "work u' \<le> work u" "balanced mid evs' pool" "conns_ok pool"
    "length pool \<le> DOH_POOL" "Q r" using assms(1) unfolding accounted_def fst_conv snd_conv append_assoc by blast
  show ?thesis
    by (rule accountedI [OF h(1)]) (use h assms(2) balanced_trans [OF assms(3) h(3)] in auto)
qed

lemma doh_served:
  assumes laws: "dialling_ok env work" "recv_ok (n_io env) work" "send_ok (n_io env) work" "ssl_ok ossl work ac"
    and ok: "conns_ok (c # pool)" "length pool \<le> DOH_POOL"
  shows "accounted work (\<lambda>r. \<forall>x. r = Some x \<longrightarrow> doh_answer reply_size x) (c # pool) w
    (doh_attempt env ossl hooked d s query reply_size deadline (Some c) pool w)"
proof -
  obtain r t u evs where q: "doh_request env ossl (dc_tls c) (ds_host s) query reply_size deadline w = Some (r, t, u, snd w @ evs)" "tc_fd t = tc_fd (dc_tls c)"
    "work u \<le> work (fst w)" "on_fd (tc_fd (dc_tls c)) evs" "\<exists>got. reply_read reply_size r got"
    using doh_request_ran [OF laws, of reply_size "dc_tls c" w "ds_host s" query deadline] unfolding ran_def moved_def by blast
  let ?c = "c\<lparr>dc_tls := t\<rparr>"
  have c: "conns_ok (?c # pool)" "balanced (c # pool) evs (?c # pool)" using ok q(2) balanced_on_fd [OF q(4), of "c # pool" "?c # pool"] by simp_all
  obtain pool' u1 e1 where p: "pool_put env ?c pool (u, snd w @ evs) = (pool', u1, (snd w @ evs) @ e1)" "work u1 \<le> work u" "balanced (?c # pool) e1 pool'"
    "conns_ok pool'" "length pool' \<le> DOH_POOL" using pool_put_ok [OF laws(1) c(1) ok(2), of "(u, snd w @ evs)"] by auto
  obtain u2 where f: "conn_free env ?c (u, snd w @ evs) = (u2, (snd w @ evs) @ [Ev_close (tc_fd t)])" "work u2 \<le> work u"
    using conn_free_closes [OF laws(1), of ?c "(u, snd w @ evs)"] c(1) by auto
  have put: "accounted work Q (c # pool) w (Some (x, pool', u1, (snd w @ evs) @ e1))" if "Q x" for x and Q :: "bytes option option \<Rightarrow> bool"
    by (rule accountedI [of _ x pool' u1 _ "evs @ e1"]) (use that p q(3) balanced_trans [OF c(2) p(3)] in auto)
  show ?thesis
  proof (cases r)
    case (Doh_body b)
    then have "\<exists>got. response_ok reply_size got b" using q(5) by auto
    then show ?thesis using Doh_body q(1) p(1) put [of "\<lambda>r. \<forall>x. r = Some x \<longrightarrow> doh_answer reply_size x" "Some (Some b)"]
      by (simp add: doh_attempt_def Let_def doh_answer_def)
  next
    case Doh_unusable
    then show ?thesis using q(1) p(1) put [of "\<lambda>r. \<forall>x. r = Some x \<longrightarrow> doh_answer reply_size x" "Some None"]
      by (simp add: doh_attempt_def Let_def doh_answer_def)
  next
    case Doh_broken
    have "balanced (?c # pool) [Ev_close (tc_fd t)] pool" by (simp add: balanced_def)
    then show ?thesis using Doh_broken q f ok balanced_trans [OF c(2)]
      by (intro accountedI [of _ None pool u2 _ "evs @ [Ev_close (tc_fd t)]"]) (auto simp: doh_attempt_def Let_def)
  qed
qed

lemma doh_attempt_ok:
  assumes laws: "dialling_ok env work" "recv_ok (n_io env) work" "send_ok (n_io env) work" "ssl_ok ossl work ac"
    and ok: "conns_ok (held c @ pool)" "length pool \<le> DOH_POOL"
  shows "accounted work (\<lambda>r. \<forall>x. r = Some x \<longrightarrow> doh_answer reply_size x) (held c @ pool) w
    (doh_attempt env ossl hooked d s query reply_size deadline c pool w)"
proof (cases c)
  case (Some x)
  then show ?thesis using doh_served [OF laws, of x pool] ok by simp
next
  case None
  obtain c1 u evs where o: "conn_open env ossl hooked d s deadline w = Some (c1, u, snd w @ evs)" "work u \<le> work (fst w)" "balanced [] evs (held c1)" "conns_ok (held c1)"
    using conn_open_ok [OF laws] by blast
  have b: "balanced pool evs (held c1 @ pool)" using o(3) by (simp add: balanced_def)
  show ?thesis
  proof (cases c1)
    case x: None
    then show ?thesis using None o ok b by (intro accountedI [of _ "Some (Some [])" pool u _ evs]) (auto simp: doh_attempt_def doh_answer_def)
  next
    case (Some x)
    have "doh_attempt env ossl hooked d s query reply_size deadline c pool w =
        doh_attempt env ossl hooked d s query reply_size deadline (Some x) pool (u, snd w @ evs)"
      using None o(1) Some by (simp add: doh_attempt_def)
    then show ?thesis
      using accounted_after [OF doh_served [OF laws, where c = x and pool = pool and w = "(u, snd w @ evs)"] o(2)] b Some None o(4) ok by simp
  qed
qed

lemma doh_query_ok:
  assumes laws: "dialling_ok env work" "recv_ok (n_io env) work" "send_ok (n_io env) work" "ssl_ok ossl work ac"
    and ok: "conns_ok (ds_idle s)" "length (ds_idle s) \<le> DOH_POOL"
  shows "accounted work (doh_answer reply_size) (ds_idle s) w (doh_query env ossl hooked d s query reply_size timeout w)"
proof -
  note clock = dialling_laws(7) [OF laws(1)]
  obtain now u0 where n: "n_now_ms env (fst w) = (now, u0)" by fastforce
  obtain now1 u1 where n1: "n_now_ms env u0 = (now1, u1)" by fastforce
  obtain c pool u2 e2 where g: "pool_take env now1 (ds_idle s) (u1, snd w) = (c, pool, u2, snd w @ e2)" "work u2 \<le> work u1"
    "balanced (ds_idle s) e2 (held c @ pool)" "conns_ok (held c @ pool)" "length pool \<le> length (ds_idle s)"
    using pool_take_ok [OF laws(1) ok(1), of now1 "(u1, snd w)"] by auto
  have pl: "length pool \<le> DOH_POOL" using g(5) ok(2) by simp
  from accounted_after [OF doh_attempt_ok [OF laws g(4) pl] _ g(3), of u2 w reply_size hooked d s query "now + timeout"] clock [OF n] clock [OF n1] g(2)
  obtain r pool3 u3 e3 where a: "doh_attempt env ossl hooked d s query reply_size (now + timeout) c pool (u2, snd w @ e2) = Some (r, pool3, u3, snd w @ e3)"
    "work u3 \<le> work (fst w)" "balanced (ds_idle s) e3 pool3" "conns_ok pool3" "length pool3 \<le> DOH_POOL" "\<forall>x. r = Some x \<longrightarrow> doh_answer reply_size x"
    unfolding accounted_def by auto
  obtain now4 u4 where n4: "n_now_ms env u3 = (now4, u4)" by fastforce
  have le4: "work u4 \<le> work (fst w)" using clock [OF n4] a(2) by simp
  obtain r5 pool5 u5 e5 where f: "doh_attempt env ossl hooked d s query reply_size (now + timeout) None pool3 (u4, snd w @ e3) = Some (r5, pool5, u5, snd w @ e5)"
    "work u5 \<le> work (fst w)" "balanced (ds_idle s) e5 pool5" "conns_ok pool5" "length pool5 \<le> DOH_POOL" "\<forall>x. r5 = Some x \<longrightarrow> doh_answer reply_size x"
    using accounted_after [OF doh_attempt_ok [OF laws, where c = None and pool = pool3] le4] a(3,4,5) unfolding accounted_def by fastforce
  have eq: "doh_query env ossl hooked d s query reply_size timeout w = (case r of Some reply \<Rightarrow> Some (reply, pool3, u3, snd w @ e3)
     | None \<Rightarrow> if c = None then Some (Some [], pool3, u3, snd w @ e3)
         else if now4 \<ge> now + timeout then Some (Some [], pool3, u4, snd w @ e3)
         else Some (case r5 of Some reply \<Rightarrow> reply | None \<Rightarrow> Some [], pool5, u5, snd w @ e5))"
    using a(1) f(1) by (cases r; cases c) (simp_all add: doh_query_def on_net_def pool_get_def n n1 g(1) n4 Let_def)
  have empty: "doh_answer reply_size (Some [])" by (simp add: doh_answer_def)
  consider (first) x where "r = Some x" | (no) "r = None" "c = None" | (late) "r = None" "c \<noteq> None" "now4 \<ge> now + timeout"
    | (again) "r = None" "c \<noteq> None" "now4 < now + timeout" by fastforce
  then show ?thesis
  proof cases
    case first
    then show ?thesis using a by (intro accountedI [of _ x pool3 u3 _ e3]) (simp_all add: eq)
  next
    case no
    then show ?thesis using a empty by (intro accountedI [of _ "Some []" pool3 u3 _ e3]) (simp_all add: eq)
  next
    case late
    then show ?thesis using a empty le4 by (intro accountedI [of _ "Some []" pool3 u4 _ e3]) (auto simp: eq)
  next
    case again
    then show ?thesis using f empty
      by (intro accountedI [of _ "case r5 of Some reply \<Rightarrow> reply | None \<Rightarrow> Some []" pool5 u5 _ e5]) (auto simp: eq split: option.split)
  qed
qed

section \<open>The transports\<close>

definition all_conns :: "'l dns_doh \<Rightarrow> 'l doh_conn list" where
  "all_conns d = concat (map ds_idle (doh_srv d))"

definition doh_inv :: "'l dns_doh \<Rightarrow> bool" where
  "doh_inv d \<longleftrightarrow> doh_srv d \<noteq> [] \<and> length (doh_srv d) \<le> DNS_MAX_SERVERS \<and>
     list_all (\<lambda>s. length (ds_idle s) \<le> DOH_POOL \<and> conns_ok (ds_idle s)) (doh_srv d)"

lemma udp_transport_ok:
  assumes laws: "dialling_ok env work" "recv_ok (n_io env) work" "send_ok (n_io env) work"
  shows "\<exists>r u evs. dns_udp_transport env hooked s i query reply_size timeout w = (r, u, snd w @ evs) \<and> work u \<le> work (fst w) \<and>
    opened evs = closed evs \<and> (\<forall>b. r = Some b \<longrightarrow> length b \<le> reply_size)"
proof -
  note law = dialling_laws [OF laws(1)]
  let ?ss = "us_addrs s ! i"
  obtain fd u1 where s: "n_socket env ?ss (fst w) = (fd, u1)" by fastforce
  obtain p u2 where p: "dns_prepare_socket env hooked fd (sa_family ?ss) (us_mark s) u1 = (p, u2)" by fastforce
  obtain c u3 where c: "n_connect env fd ?ss u2 = (c, u3)" by fastforce
  obtain sr u4 where sr: "s_send (n_io env) fd query u3 = (sr, u4)" by fastforce
  obtain ready u5 where i: "n_wait_in env fd timeout u4 = (ready, u5)" by fastforce
  obtain rr u6 where rr: "s_recv (n_io env) fd reply_size u5 = (rr, u6)" by fastforce
  have le4: "work u4 \<le> work u3" using send_law [OF laws(3) sr] by (cases sr) auto
  have le6: "work u6 \<le> work u5" "\<And>b. rr = Received b \<Longrightarrow> length b \<le> reply_size" using recv_law [OF laws(2) rr] by (cases rr; auto split: if_splits)+
  note le = law(1) [OF s] prepare_work [OF laws(1) p] law(3) [OF c] le4 law(4) [OF i] le6(1)
  define close where "close u evs = (n_close env fd u, snd w @ evs @ [Ev_close fd])" for u evs
  let ?e1 = "[Ev_connect fd]" let ?e2 = "?e1 @ [Ev_send fd query sr]" let ?e3 = "?e2 @ [Ev_recv fd rr]"
  have eq: "dns_udp_transport env hooked s i query reply_size timeout w =
     (if i \<ge> length (us_addrs s) then (None, fst w, snd w @ [])
      else if fd < 0 then (None, u1, snd w @ ?e1)
      else if \<not> p then (None, close u2 ?e1)
      else if c \<noteq> Connected then (None, close u3 ?e1)
      else if sr \<noteq> Sent (length query) then (None, close u4 ?e2)
      else if \<not> ready then (Some [], close u5 ?e2)
      else (case rr of Received b \<Rightarrow> Some b | _ \<Rightarrow> None, close u6 ?e3))"
    by (simp add: dns_udp_transport_def Let_def net_socket_def on_net_def do_send_def do_recv_def compat_close_def s p c sr i rr close_def cong: if_cong)
  define P where "P res \<longleftrightarrow> (\<exists>r u evs. res = (r, u, snd w @ evs) \<and> work u \<le> work (fst w) \<and>
    opened evs = closed evs \<and> (\<forall>b. r = Some b \<longrightarrow> length b \<le> reply_size))" for res :: "bytes option \<times> _"
  have closed: "P (x, close v evs)" if "work v \<le> work (fst w)" "opened evs = [fd]" "closed evs = []" "\<forall>b. x = Some b \<longrightarrow> length b \<le> reply_size" for x v evs
    unfolding P_def close_def
    by (intro exI [of _ x] exI [of _ "n_close env fd v"] exI [of _ "evs @ [Ev_close fd]"]) (use that law(8) [of fd v] in auto)
  have early: "P (None, v, snd w @ evs)" if "work v \<le> work (fst w)" "opened evs = []" "closed evs = []" for v evs
    unfolding P_def using that by (intro exI [of _ None] exI [of _ v] exI [of _ evs]) simp
  have "P (None, fst w, snd w @ [])" by (rule early) simp_all
  moreover have "P (None, u1, snd w @ ?e1)" if "fd < 0" by (rule early) (use that le in simp_all)
  moreover have "P (None, close u2 ?e1)" "P (None, close u3 ?e1)" "P (None, close u4 ?e2)" "P (Some [], close u5 ?e2)"
    "P (case rr of Received b \<Rightarrow> Some b | _ \<Rightarrow> None, close u6 ?e3)" if "\<not> fd < 0"
    by (rule closed; use that le le6(2) in \<open>simp split: recv_result.split\<close>)+
  ultimately have "P (dns_udp_transport env hooked s i query reply_size timeout w)"
    unfolding eq by (cases "sr = Sent (length query)") (simp_all del: append.simps append_Nil2)
  then show ?thesis unfolding P_def .
qed

lemma transport_ok:
  assumes laws: "dialling_ok env work" "recv_ok (n_io env) work" "send_ok (n_io env) work" "ssl_ok ossl work ac" and inv: "doh_inv d"
  shows "\<exists>r d' u evs. dns_doh_transport env ossl hooked i query reply_size timeout (d, w) = Some (r, d', u, snd w @ evs) \<and> work u \<le> work (fst w) \<and>
    doh_inv d' \<and> map ds_label (doh_srv d') = map ds_label (doh_srv d) \<and> balanced (all_conns d) evs (all_conns d') \<and>
    (\<forall>b. r = Some b \<longrightarrow> length b \<le> reply_size) \<and> (i < dns_doh_count d \<longrightarrow> doh_answer reply_size r)"
proof (cases "i < length (doh_srv d)")
  case True
  let ?s = "doh_srv d ! i"
  have s: "conns_ok (ds_idle ?s)" "length (ds_idle ?s) \<le> DOH_POOL" using inv True by (auto simp: doh_inv_def list_all_length)
  obtain r pool u evs where q: "doh_query env ossl hooked d ?s query reply_size timeout w = Some (r, pool, u, snd w @ evs)" "work u \<le> work (fst w)"
    "balanced (ds_idle ?s) evs pool" "conns_ok pool" "length pool \<le> DOH_POOL" "doh_answer reply_size r"
    using doh_query_ok [OF laws s] unfolding accounted_def by blast
  let ?d = "d\<lparr>doh_srv := (doh_srv d)[i := ?s\<lparr>ds_idle := pool\<rparr>]\<rparr>"
  have at: "doh_srv d = take i (doh_srv d) @ ?s # drop (Suc i) (doh_srv d)" "doh_srv ?d = take i (doh_srv d) @ ?s\<lparr>ds_idle := pool\<rparr> # drop (Suc i) (doh_srv d)"
    using True by (simp_all add: id_take_nth_drop upd_conv_take_nth_drop)
  have b: "balanced (all_conns d) evs (all_conns ?d)"
    unfolding all_conns_def at(2) by (subst at(1)) (use q(3) in \<open>simp add: balanced_def add_ac\<close>)
  have "doh_inv ?d" using inv q(4,5) True by (auto simp: doh_inv_def list_all_length nth_list_update)
  moreover have "map ds_label (doh_srv ?d) = map ds_label (doh_srv d)" unfolding at(2) by (subst (3) at(1)) simp
  ultimately show ?thesis using True q b doh_answer_length by (auto simp: dns_doh_transport_def Let_def)
next
  case False
  show ?thesis
  proof (cases "doh_fallback d")
    case None
    then show ?thesis using False inv
      by (intro exI [of _ None] exI [of _ d] exI [of _ "fst w"] exI [of _ "[]"]) (simp add: dns_doh_transport_def balanced_def dns_doh_count_def)
  next
    case (Some f)
    then show ?thesis using False inv udp_transport_ok [OF laws(1-3), of hooked f "i - length (doh_srv d)" query reply_size timeout w]
      by (auto simp: dns_doh_transport_def balanced_def dns_doh_count_def)
  qed
qed

section \<open>Responses\<close>

text \<open>A response as a server writes it.\<close>

definition header_lines :: "(string \<times> string) list \<Rightarrow> string" where
  "header_lines hs = concat (map (\<lambda>(n, v). CRLF @ n @ '':'' @ v) hs)"

definition head_text :: "(string \<times> string) list \<Rightarrow> string" where
  "head_text hs = ''HTTP/1.1 200 OK'' @ header_lines hs"

definition http_response :: "(string \<times> string) list \<Rightarrow> bytes \<Rightarrow> bytes" where
  "http_response hs body = bytes_of (head_text hs @ CRLF2) @ body"

definition plain_text :: "string \<Rightarrow> bool" where
  "plain_text s = list_all (\<lambda>c. c \<noteq> CHR 0x00 \<and> c \<noteq> CHR 0x0A \<and> c \<noteq> CHR 0x0D) s"

fun header_ok :: "string \<times> string \<Rightarrow> bool" where
  "header_ok (n, v) \<longleftrightarrow> plain_text n \<and> plain_text v \<and> CHR '':'' \<notin> set n"

text \<open>The first header with the length of the body tells it.\<close>

fun length_header :: "nat \<Rightarrow> (string \<times> string) list \<Rightarrow> bool" where
  "length_header len [] = False"
| "length_header len ((n, v) # hs) = (if ieq n ''Content-Length'' then v = '' '' @ dec_nat len else length_header len hs)"

lemma text_bytes [simp]: "text_of (bytes_of s) = s" "length (bytes_of s) = length s" "length (text_of b) = length b" "text_of (a @ b) = text_of a @ text_of b"
  "text_of (take n b) = take n (text_of b)" "text_of (drop n b) = drop n (text_of b)"
proof -
  have "char_of (unat (of_nat (of_char c) :: byte)) = c" for c :: char
    by (simp add: unat_of_nat)
  then show "text_of (bytes_of s) = s" by (induction s) (simp_all add: text_of_def bytes_of_def)
qed (simp_all add: text_of_def bytes_of_def take_map drop_map)

lemma find_skip: "CHR 0x0D \<notin> set s \<Longrightarrow> find_text CRLF2 (s @ r) = map_option (\<lambda>e. length s + e) (find_text CRLF2 r)"
proof (induction s)
  case Nil
  then show ?case by (cases "find_text CRLF2 r") simp_all
next
  case (Cons c s)
  have "\<not> prefix CRLF2 (c # s @ r)" using Cons.prems by (simp add: CRLF2_def)
  then show ?case using Cons by (cases "find_text CRLF2 r") simp_all
qed

lemma find_line: "x \<noteq> [] \<Longrightarrow> hd x \<noteq> CHR 0x0D \<Longrightarrow> find_text CRLF2 (CRLF @ x) = map_option (\<lambda>e. 2 + e) (find_text CRLF2 x)"
  by (cases x; cases "find_text CRLF2 x") (auto simp: CRLF_def CRLF2_def)

lemma find_mono: "find_text pat s = Some e \<Longrightarrow> find_text pat (s @ r) = Some e"
proof (induction pat s arbitrary: e rule: find_text.induct)
  case (1 pat)
  then show ?case by (cases r) (auto split: if_splits)
next
  case (2 pat c s)
  have "length pat \<le> length (c # s)" using find_text_length [OF 2(2)] by simp
  then have "prefix pat (c # s @ r) \<longleftrightarrow> prefix pat (c # s)"
    using prefix_length_prefix [of pat "(c # s) @ r" "c # s"] prefix_prefix [of pat "c # s" r] by auto
  then show ?case using 2 by (auto split: if_splits)
qed

lemma plain_text_cr: "plain_text s \<Longrightarrow> CHR 0x0D \<notin> set s" "plain_text s \<Longrightarrow> CHR 0x0A \<notin> set s" "plain_text s \<Longrightarrow> CHR 0x00 \<notin> set s"
  by (auto simp: plain_text_def list_all_iff)

lemma header_lines_simps [simp]: "header_lines [] = []" "header_lines ((n, v) # hs) = CRLF @ (n @ '':'' @ v) @ header_lines hs"
  by (simp_all add: header_lines_def)

lemma find_headers:
  "list_all header_ok hs \<Longrightarrow> find_text CRLF2 (header_lines hs @ CRLF2 @ r) =
     Some (length (header_lines hs))"
proof (induction hs)
  case Nil
  then show ?case by (simp add: CRLF2_def)
next
  case (Cons h hs)
  obtain n v where h: "h = (n, v)" by (cases h)
  have cr: "CHR 0x0D \<notin> set (n @ '':'' @ v)" using Cons.prems h by (auto dest: plain_text_cr)
  let ?rest = "header_lines hs @ CRLF2 @ r"
  have "find_text CRLF2 ((n @ '':'' @ v) @ ?rest) = Some (length (n @ '':'' @ v) + length (header_lines hs))"
    unfolding find_skip [OF cr] using Cons by simp
  moreover have "hd ((n @ '':'' @ v) @ ?rest) \<noteq> CHR 0x0D" using cr by (cases n) auto
  ultimately have "find_text CRLF2 (CRLF @ ((n @ '':'' @ v) @ ?rest)) = Some (2 + (length (n @ '':'' @ v) + length (header_lines hs)))"
    by (subst find_line) simp_all
  then show ?case by (simp add: h) (simp add: CRLF_def)
qed

lemma find_head: "list_all header_ok hs \<Longrightarrow> find_text CRLF2 (head_text hs @ CRLF2 @ r) = Some (length (head_text hs))"
  unfolding head_text_def append_assoc by (subst find_skip) (simp_all add: find_headers)

lemma head_text_chars: "list_all header_ok hs \<Longrightarrow> CHR 0x00 \<notin> set (head_text hs)"
  by (induction hs) (auto simp: head_text_def CRLF_def dest: plain_text_cr)

lemma header_value_line:
  assumes "CHR 0x0A \<notin> set s"
  shows "header_value (s @ CHR 0x0A # p) name =
    (if ieq (take (length name) p) name \<and> length name < length p \<and> p ! length name = CHR '':'' then fst (strtol10 (drop (length name + 1) p))
     else header_value p name)"
proof -
  have "dropWhile (\<lambda>c. c \<noteq> CHR 0x0A) (s @ CHR 0x0A # p) = CHR 0x0A # p" using assms by (induction s) auto
  then show ?thesis by (subst header_value.simps) simp
qed

lemma strtol_length:
  assumes "ys = [] \<or> dec_digit (hd ys) = None" "n < 2 ^ 63"
  shows "fst (strtol10 ('' '' @ dec_nat n @ ys)) = int n"
proof -
  have "int n \<le> 9223372036854775807" using assms(2) by simp
  then have "scan_dec ('' '' @ print_lld (int n) @ ys) = Some (int n, ys)"
    by (intro scan_dec_print) (use assms(1) in \<open>auto simp: isspace_c_def\<close>)
  then show ?thesis by (auto simp: scan_dec_def print_lld_def split: prod.splits if_splits)
qed

lemma name_at_colon:
  assumes "CHR '':'' \<notin> set n" "CHR '':'' \<notin> set name"
  shows "ieq (take (length name) (n @ '':'' @ v)) name \<and> (n @ '':'' @ v) ! length name = CHR '':'' \<longleftrightarrow> ieq n name" (is "?m \<longleftrightarrow> _")
proof
  have tolower: "tolower_c c = CHR '':'' \<Longrightarrow> c = CHR '':''" for c
  proof (rule ccontr)
    assume c: "tolower_c c = CHR '':''" "c \<noteq> CHR '':''"
    then have u: "ascii_upper c" "char_of (of_char c + 32 :: nat) = CHR '':''" by (auto simp: tolower_c_def split: if_splits)
    then have "of_char (char_of (of_char c + 32 :: nat) :: char) = (58 :: nat)" by simp
    then show False using u(1) by (simp add: of_char_of ascii_upper_def)
  qed
  assume m: ?m
  have len: "length name \<le> length n"
  proof (rule ccontr)
    assume lt: "\<not> length name \<le> length n"
    then have "map tolower_c (take (length name) (n @ '':'' @ v)) ! length n = CHR '':''"
      by (subst nth_map) (auto simp: min_def nth_append tolower_c_def ascii_upper_def)
    then have "map tolower_c name ! length n = CHR '':''" using m unfolding ieq_iff by simp
    then have "name ! length n = CHR '':''" using lt by (simp add: tolower)
    then show False using assms(2) lt by (metis nth_mem not_le)
  qed
  then have "length name = length n" using m assms(1) by (cases "length name < length n") (auto simp: nth_append dest: nth_mem)
  then show "ieq n name" using m by simp
next
  assume i: "ieq n name"
  then show ?m using ieq_length [OF i] by (simp add: nth_append)
qed

lemma header_value_lines:
  assumes "list_all header_ok hs" "length_header len hs" "len < 2 ^ 63" "plain_text s"
  shows "header_value (s @ header_lines hs) ''Content-Length'' = int len"
  using assms
proof (induction hs arbitrary: s)
  case (Cons h hs)
  obtain n v where h: "h = (n, v)" by (cases h)
  have ok: "plain_text n" "plain_text v" "CHR '':'' \<notin> set n" "list_all header_ok hs" using Cons.prems h by auto
  have lf: "CHR 0x0A \<notin> set (s @ [CHR 0x0D])" using Cons.prems(4) by (auto dest: plain_text_cr)
  let ?p = "n @ '':'' @ v @ header_lines hs"
  have "header_value (s @ header_lines (h # hs)) ''Content-Length'' = header_value ((s @ [CHR 0x0D]) @ CHR 0x0A # ?p) ''Content-Length''"
    by (simp add: h CRLF_def)
  also have "\<dots> = (if ieq n ''Content-Length'' then fst (strtol10 (v @ header_lines hs)) else header_value ?p ''Content-Length'')"
    unfolding header_value_line [OF lf] using name_at_colon [OF ok(3), of "''Content-Length''" "v @ header_lines hs"] ieq_length [of n "''Content-Length''"]
    by (auto simp: nth_append split: if_splits)
  also have "\<dots> = int len"
  proof (cases "ieq n ''Content-Length''")
    case True
    then have "v = '' '' @ dec_nat len" using Cons.prems h by simp
    moreover have "header_lines hs = [] \<or> dec_digit (hd (header_lines hs)) = None"
      by (cases hs) (auto simp: CRLF_def dec_digit_def Let_def)
    ultimately show ?thesis using True strtol_length [of "header_lines hs" len] Cons.prems(3) by simp
  next
    case False
    have "plain_text (n @ '':'' @ v)" using ok by (simp add: plain_text_def)
    then have "header_value ((n @ '':'' @ v) @ header_lines hs) ''Content-Length'' = int len"
      using Cons.IH [of "n @ '':'' @ v"] Cons.prems h False ok by simp
    then show ?thesis using False by simp
  qed
  finally show ?case .
qed simp

lemma head_value:
  assumes "list_all header_ok hs" "length_header len hs" "len < 2 ^ 63"
  shows "header_value (head_text hs) ''Content-Length'' = int len"
  unfolding head_text_def by (rule header_value_lines [OF assms]) (simp add: plain_text_def)

lemma head_status:
  assumes ok: "list_all header_ok hs" and h: "text_of h = head_text hs @ CRLF2 @ r"
  shows "http_status h (length (head_text hs)) = 200"
proof -
  let ?e = "length (head_text hs)"
  have buf: "(text_of h)[?e := CHR 0x00] = head_text hs @ CHR 0x00 # [CHR 0x0A, CHR 0x0D, CHR 0x0A] @ r" unfolding h by (simp add: CRLF2_def list_update_append)
  have cut: "cstr (a @ CHR 0x00 # b) = a" if "CHR 0x00 \<notin> set a" for a b using that by (induction a) (auto simp: cstr_def)
  note z = head_text_chars [OF ok]
  have nine: "drop 9 (head_text hs @ x) = ''200 OK'' @ header_lines hs @ x" for x by (simp add: head_text_def)
  have "CHR 0x00 \<notin> set (''200 OK'' @ header_lines hs)" using z by (simp add: head_text_def)
  then have "cstr (drop 9 ((text_of h)[?e := CHR 0x00])) = ''200 OK'' @ header_lines hs"
    unfolding buf nine using cut [of "''200 OK'' @ header_lines hs"] by simp
  moreover have "cstr ((text_of h)[?e := CHR 0x00]) = head_text hs" unfolding buf by (rule cut [OF z])
  moreover have "fst (strtol10 (''200 OK'' @ header_lines hs)) = 200"
    by (simp add: strtol10_def sign_of_def isspace_c_def dec_digit_def clamp_def Let_def)
  moreover have "prefix ''HTTP/1.'' (head_text hs)" by (simp add: head_text_def)
  ultimately show ?thesis by (simp add: http_status_def Let_def)
qed

text \<open>The library has data ready: it gives what is \<open>coming\<close>, in pieces of its own choice.\<close>

definition ready :: "('l, 'u) openssl \<Rightarrow> ('l \<Rightarrow> bytes) \<Rightarrow> bool" where
  "ready ossl coming \<longleftrightarrow> (\<forall>room ssl. 0 < room \<and> coming ssl \<noteq> [] \<longrightarrow>
     (\<exists>b ssl'. o_read ossl room ssl = (Ssl_done b, ssl') \<and> b \<noteq> [] \<and> length b \<le> room \<and> coming ssl = b @ coming ssl'))"

lemma tlsc_read_ready:
  assumes "ready ossl coming" "0 < room" "coming (tc_ssl t) \<noteq> []"
  shows "\<exists>b t'. tlsc_read env ossl t room deadline w = Some (Some b, t', w) \<and> b \<noteq> [] \<and> length b \<le> room \<and> coming (tc_ssl t) = b @ coming (tc_ssl t')"
proof -
  obtain b ssl' where "o_read ossl room (tc_ssl t) = (Ssl_done b, ssl')" "b \<noteq> []" "length b \<le> room" "coming (tc_ssl t) = b @ coming ssl'"
    using assms unfolding ready_def by blast
  then show ?thesis by (intro exI [of _ b] exI [of _ "t\<lparr>tc_ssl := ssl'\<rparr>"]) (simp add: tlsc_read.simps)
qed

lemma read_head_ready:
  assumes rd: "ready ossl coming"
    and found: "\<And>k. k \<le> length x \<Longrightarrow> find_text CRLF2 (cstr (text_of (take k x))) = (if k < e + 4 then None else Some e)" and e: "e + 4 \<le> length x" "e + 4 \<le> DOH_HTTP_MAX"
  shows "head @ coming (tc_ssl t) = x \<Longrightarrow> length head < e + 4 \<Longrightarrow>
    \<exists>h t'. read_head env ossl t head deadline w = Some (Some (h, e), t', w) \<and> h @ coming (tc_ssl t') = x \<and> e + 4 \<le> length h"
proof (induction "length x - length head" arbitrary: head t rule: less_induct)
  case less
  have "coming (tc_ssl t) \<noteq> []" using less.prems e by auto
  then obtain b t1 where b: "tlsc_read env ossl t (DOH_HTTP_MAX - length head) deadline w = Some (Some b, t1, w)" "b \<noteq> []" "coming (tc_ssl t) = b @ coming (tc_ssl t1)"
    using tlsc_read_ready [OF rd, of "DOH_HTTP_MAX - length head" t env deadline w] less.prems e by auto
  have x: "(head @ b) @ coming (tc_ssl t1) = x" using b(3) less.prems by simp
  then have k: "length (head @ b) \<le> length x" "take (length (head @ b)) x = head @ b" by auto
  note f = found [OF k(1), unfolded k(2)]
  have eq: "read_head env ossl t head deadline w = (case find_text CRLF2 (cstr (text_of (head @ b))) of Some e \<Rightarrow> Some (Some (head @ b, e), t1, w)
      | None \<Rightarrow> read_head env ossl t1 (head @ b) deadline w)"
    using b(1) less.prems(2) e by (subst read_head.simps) simp
  show ?case
  proof (cases "length (head @ b) < e + 4")
    case True
    have "\<exists>h t'. read_head env ossl t1 (head @ b) deadline w = Some (Some (h, e), t', w) \<and> h @ coming (tc_ssl t') = x \<and> e + 4 \<le> length h"
      by (rule less.hyps [OF _ x True]) (use b(2) k(1) in \<open>cases b; auto\<close>)
    then show ?thesis unfolding eq f using True by simp
  next
    case False
    then show ?thesis unfolding eq f using x by auto
  qed
qed

lemma read_body_ready:
  assumes rd: "ready ossl coming"
  shows "length body + length (coming (tc_ssl t)) = len \<Longrightarrow>
    \<exists>t'. read_body env ossl t len body deadline w = Some (Some (body @ coming (tc_ssl t)), t', w) \<and> coming (tc_ssl t') = []"
proof (induction "len - length body" arbitrary: body t rule: less_induct)
  case less
  show ?case
  proof (cases "length body < len")
    case False
    then show ?thesis using less.prems by (subst read_body.simps) auto
  next
    case True
    then have "coming (tc_ssl t) \<noteq> []" using less.prems by auto
    then obtain b t1 where b: "tlsc_read env ossl t (len - length body) deadline w = Some (Some b, t1, w)" "b \<noteq> []" "coming (tc_ssl t) = b @ coming (tc_ssl t1)"
      using tlsc_read_ready [OF rd, of "len - length body" t env deadline w] True by auto
    have "\<exists>t'. read_body env ossl t1 len (body @ b) deadline w = Some (Some ((body @ b) @ coming (tc_ssl t1)), t', w) \<and> coming (tc_ssl t') = []"
      by (rule less.hyps) (use b less.prems True in \<open>cases b; auto\<close>)+
    then show ?thesis using True b by (subst read_body.simps) simp
  qed
qed

lemma found_head:
  assumes ok: "list_all header_ok hs" and k: "k \<le> length (http_response hs body)"
  shows "find_text CRLF2 (cstr (text_of (take k (http_response hs body)))) = (if k < length (head_text hs) + 4 then None else Some (length (head_text hs)))"
proof -
  let ?H = "head_text hs @ CRLF2"
  have H: "CHR 0x00 \<notin> set ?H" using head_text_chars [OF ok] by (simp add: CRLF2_def)
  have len: "length ?H = length (head_text hs) + 4" by (simp add: CRLF2_def)
  have tk: "text_of (take k (http_response hs body)) = take k ?H @ take (k - length ?H) (text_of body)" by (simp add: http_response_def)
  show ?thesis
  proof (cases "k < length ?H")
    case True
    have "CHR 0x00 \<notin> set (take k ?H)" using H by (auto dest: in_set_takeD)
    then have c: "cstr (text_of (take k (http_response hs body))) = take k ?H" using tk True by (simp add: cstr_id)
    have "find_text CRLF2 (take k ?H) = None"
    proof (cases "find_text CRLF2 (take k ?H)")
      case (Some e)
      have "e + 4 \<le> k" using find_text_length [OF Some] True by (simp add: CRLF2_def)
      moreover have "find_text CRLF2 ?H = Some e" using find_mono [OF Some, of "drop k ?H"] unfolding append_take_drop_id .
      ultimately show ?thesis using find_head [OF ok, of "[]"] True len by simp
    qed simp
    then show ?thesis using c True len by simp
  next
    case False
    have "cstr (?H @ r) = ?H @ cstr r" for r unfolding cstr_def by (rule takeWhile_append2) (use H in auto)
    then have "cstr (text_of (take k (http_response hs body))) = head_text hs @ CRLF2 @ cstr (take (k - length ?H) (text_of body))" using tk False by simp
    then show ?thesis using find_head [OF ok] False len by simp
  qed
qed

lemma read_response_ready:
  assumes rd: "ready ossl coming" and ok: "list_all header_ok hs" "length_header (length body) hs"
    and size: "length (head_text hs) + 4 \<le> DOH_HTTP_MAX" "12 \<le> length body" "length body \<le> reply_size" "length body < 2 ^ 63"
    and all: "coming (tc_ssl t) = http_response hs body"
  shows "\<exists>t'. read_response env ossl t reply_size deadline w = Some (Doh_body body, t', w) \<and> coming (tc_ssl t') = []"
proof -
  let ?x = "http_response hs body" and ?e = "length (head_text hs)"
  have len: "length ?x = ?e + 4 + length body" by (simp add: http_response_def CRLF2_def)
  obtain h t1 where h: "read_head env ossl t [] deadline w = Some (Some (h, ?e), t1, w)" "h @ coming (tc_ssl t1) = ?x" "?e + 4 \<le> length h"
    using read_head_ready [OF rd found_head [OF ok(1)] _ size(1), of body "[]" t env deadline w] all len by auto
  have hx: "h = take (length h) ?x" "length h \<le> length ?x" using h(2) by (metis append_eq_conv_conj, metis le_add1 length_append)
  have "text_of h = take (length h) ((head_text hs @ CRLF2) @ text_of body)" by (subst hx(1)) (simp add: http_response_def)
  moreover have "length (head_text hs @ CRLF2) \<le> length h" using h(3) by (simp add: CRLF2_def)
  ultimately have th: "text_of h = head_text hs @ CRLF2 @ take (length h - length (head_text hs @ CRLF2)) (text_of body)"
    unfolding take_append by simp
  have tx: "text_of (take ?e h) = head_text hs" using th by simp
  have body: "drop (?e + 4) h @ coming (tc_ssl t1) = body"
  proof -
    have "drop (?e + 4) (h @ coming (tc_ssl t1)) = body" unfolding h(2) by (simp add: http_response_def CRLF2_def)
    then show ?thesis using h(3) by simp
  qed
  have "length (drop (?e + 4) h) + length (coming (tc_ssl t1)) = length body" using arg_cong [OF body, of length] by simp
  from read_body_ready [OF rd this, of env deadline w] obtain t2 where
    "read_body env ossl t1 (length body) (drop (?e + 4) h) deadline w = Some (Some body, t2, w)" "coming (tc_ssl t2) = []" using body by auto
  moreover have "length (drop (?e + 4) h) \<le> length body" using arg_cong [OF body, of length] by simp
  ultimately show ?thesis
    using size h(1) head_value [OF ok size(4)] head_status [OF ok(1) th] tx
    by (simp add: read_response_def Let_def)
qed

section \<open>The pool under interleaved queries\<close>

text \<open>The idle connections of a server and those that queries hold. Each step is a critical section or happens to a
  connection that one query holds; \<open>socket\<close> gives a descriptor that is not open.\<close>

inductive pool_step :: "'u dialling \<Rightarrow> 'l doh_conn list \<times> 'l doh_conn list \<Rightarrow> 'l doh_conn list \<times> 'l doh_conn list \<Rightarrow> bool" for env where
  taken: "pool_get env pool w = (c, pool', w') \<Longrightarrow> pool_step env (pool, busy) (pool', held c @ busy)"
| made: "0 \<le> tc_fd (dc_tls c) \<Longrightarrow> tc_fd (dc_tls c) \<notin> set (conn_fds (pool @ busy)) \<Longrightarrow> pool_step env (pool, busy) (pool, c # busy)"
| used: "tc_fd t = tc_fd (dc_tls c) \<Longrightarrow> pool_step env (pool, b1 @ c # b2) (pool, b1 @ c\<lparr>dc_tls := t\<rparr> # b2)"
| returned: "pool_put env c pool w = (pool', w') \<Longrightarrow> pool_step env (pool, b1 @ c # b2) (pool', b1 @ b2)"
| discarded: "pool_step env (pool, b1 @ c # b2) (pool, b1 @ b2)"
| dropped: "pool_step env (pool, busy) ([], busy)"

definition pool_inv :: "'l doh_conn list \<times> 'l doh_conn list \<Rightarrow> bool" where
  "pool_inv pb \<longleftrightarrow> distinct (conn_fds (fst pb @ snd pb)) \<and> conns_ok (fst pb @ snd pb) \<and> length (fst pb) \<le> DOH_POOL"

lemma balanced_distinct:
  assumes "balanced pool evs after" "opened evs = []" "distinct (conn_fds pool @ xs)"
  shows "distinct (conn_fds after @ xs)"
proof -
  have m: "mset (conn_fds pool) = mset (conn_fds after) + mset (closed evs)" using assms(1,2) by (simp add: balanced_def)
  have "mset (conn_fds pool @ xs) = mset (conn_fds after @ xs @ closed evs)" using m by simp
  then have "distinct (conn_fds after @ xs @ closed evs)" using assms(3) by (metis mset_eq_imp_distinct_iff)
  then show ?thesis by auto
qed

lemma pool_step_inv:
  assumes env: "dialling_ok env work" and step: "pool_step env s s'" and inv: "pool_inv s"
  shows "pool_inv s'"
  using step
proof cases
  case (taken pool w c pool' w' busy)
  obtain now u where n: "n_now_ms env (fst w) = (now, u)" by fastforce
  have p: "distinct (conn_fds pool @ conn_fds busy)" "conns_ok pool" "conns_ok busy" "length pool \<le> DOH_POOL" using inv taken by (simp_all add: pool_inv_def)
  obtain evs where t: "balanced pool evs (held c @ pool')" "conns_ok (held c @ pool')" "length pool' \<le> length pool" "opened evs = []"
    using taken(3) pool_take_ok [OF env p(2), of now "(u, snd w)"] n by (auto simp: pool_get_def on_net_def)
  show ?thesis using balanced_distinct [OF t(1,4) p(1)] t p taken(2) by (auto simp: pool_inv_def)
next
  case (returned c pool w pool' w' b1 b2)
  have p: "distinct (conn_fds (c # pool) @ conn_fds (b1 @ b2))" "conns_ok (c # pool)" "length pool \<le> DOH_POOL" using inv returned by (auto simp: pool_inv_def)
  obtain evs where t: "balanced (c # pool) evs pool'" "conns_ok pool'" "length pool' \<le> DOH_POOL" "opened evs = []"
    using returned(3) pool_put_ok [OF env p(2,3), of w] by auto
  show ?thesis using balanced_distinct [OF t(1,4) p(1)] t inv returned by (auto simp: pool_inv_def)
qed (use inv in \<open>auto simp: pool_inv_def\<close>)

section \<open>Examples\<close>

definition demo_doh :: "null_session dns_doh" where
  "demo_doh = \<lparr>doh_srv = [\<lparr>ds_addr = \<lparr>sa_family = AF_INET, sa_addr = [192, 0, 2, 1], sa_port = 443\<rparr>, ds_host = ''dns.example'', ds_label = ''dns.example@192.0.2.1'',
     ds_idle = []\<rparr>], doh_so_mark = 0, doh_split = RELAY_SPLIT_TLS_RECORD, doh_fallback = None\<rparr>"

lemma demo_doh_inv: "doh_inv demo_doh"
  by (simp add: demo_doh_def doh_inv_def DNS_MAX_SERVERS_def)

definition demo_headers :: "(string \<times> string) list" where
  "demo_headers = [(''Content-Type'', '' application/dns-message''), (''content-length'', '' 12'')]"

definition demo_body :: bytes where
  "demo_body = [0, 7, 129, 128, 0, 1, 0, 0, 0, 0, 0, 0]"

section \<open>Correctness\<close>

text \<open>Claim C11. A query to a server ends when the peers send and interrupt only finitely often. A reply fits the
  buffer, and one of a DoH server is the body of an HTTP response with status 200 and that length, of at least
  12 bytes, on a session whose certificate was required to be valid. No connection is lost or closed twice: those in
  the pools before and those opened are those in the pools after and those closed; and a pool never holds more than four.\<close>

theorem doh_transport_correct:
  assumes "dialling_ok env work" "recv_ok (n_io env) work" "send_ok (n_io env) work" "ssl_ok ossl work ac" "doh_inv d"
  shows "\<exists>r d' u evs. dns_doh_transport env ossl hooked i query reply_size timeout (d, w) = Some (r, d', u, snd w @ evs) \<and>
    doh_inv d' \<and> map ds_label (doh_srv d') = map ds_label (doh_srv d) \<and>
    mset (conn_fds (all_conns d)) + mset (opened evs) = mset (conn_fds (all_conns d')) + mset (closed evs) \<and>
    (\<forall>b. r = Some b \<longrightarrow> length b \<le> reply_size) \<and> (i < dns_doh_count d \<longrightarrow> doh_answer reply_size r)"
  using transport_ok [OF assms, of hooked i query reply_size timeout w] unfolding balanced_def by blast

theorem doh_transport_correct_witness:
  "\<exists>r d' u evs. dns_doh_transport demo_dialling (null_ssl True) False 0 [1, 2, 3] 1500 1000 (demo_doh, ([], [[7], [8]], 1), []) = Some (r, d', u, evs) \<and>
    doh_inv d' \<and> mset (opened evs) = mset (conn_fds (all_conns d')) + mset (closed evs)"
proof -
  from doh_transport_correct [OF demo_dialling_ok null_ssl_ok [of True demo_work] demo_doh_inv, of False 0 "[1, 2, 3]" 1500 1000 "(([], [[7], [8]], 1), [])"]
  show ?thesis by (auto simp: demo_doh_def all_conns_def)
qed

text \<open>A response that a server writes, with its length in the first header of that name in any case of letters,
  is read back as its body and to its end, however the library cuts it into pieces.\<close>

theorem doh_response_roundtrip:
  assumes "ready ossl coming" "list_all header_ok hs" "length_header (length body) hs"
    and "length (head_text hs) + 4 \<le> DOH_HTTP_MAX" "12 \<le> length body" "length body \<le> reply_size" "length body < 2 ^ 63"
    and "coming (tc_ssl t) = http_response hs body"
  shows "\<exists>t'. read_response env ossl t reply_size deadline w = Some (Doh_body body, t', w) \<and> coming (tc_ssl t') = []"
  by (rule read_response_ready [OF assms])

definition null_coming :: "null_session \<Rightarrow> bytes" where
  "null_coming ssl = fst (snd (snd ssl))"

lemma null_ready: "ready (null_ssl valid) null_coming"
  by (auto simp: ready_def null_ssl_def null_coming_def)

definition demo_session :: "null_session tlsc" where
  "demo_session = \<lparr>tc_fd = 4, tc_ssl = (([], [], []), [], http_response demo_headers demo_body, True)\<rparr>"

theorem doh_response_roundtrip_witness:
  "\<exists>t'. read_response demo_dialling (null_ssl True) demo_session 1500 1000 (([], [], 0), []) = Some (Doh_body demo_body, t', ([], [], 0), []) \<and>
    null_coming (tc_ssl t') = []"
proof -
  have h: "list_all header_ok demo_headers" "length_header (length demo_body) demo_headers" by code_simp+
  have l: "length demo_body = 12" "length (head_text demo_headers) = 74" by code_simp+
  show ?thesis
    by (rule doh_response_roundtrip [OF null_ready h]) (simp_all add: l null_coming_def demo_session_def DOH_HTTP_MAX_def)
qed

text \<open>Claim C40. However queries take, open, return and discard connections of a server, no connection is ever held by two
  queries, or idle and held at once, and at most four are idle.\<close>

theorem pool_exclusive:
  assumes "dialling_ok env work" "(pool_step env)\<^sup>*\<^sup>* ([], []) (pool, busy)"
  shows "distinct (conn_fds (pool @ busy)) \<and> length pool \<le> DOH_POOL"
proof -
  have "pool_inv s" if "(pool_step env)\<^sup>*\<^sup>* ([], []) s" for s
    using that by (induction rule: rtranclp_induct) (auto simp: pool_inv_def [of "([], [])"] dest: pool_step_inv [OF assms(1)])
  from this [OF assms(2)] show ?thesis by (simp add: pool_inv_def)
qed

theorem pool_exclusive_witness:
  "\<exists>pool busy. (pool_step demo_dialling)\<^sup>*\<^sup>* ([], []) (pool, busy) \<and> distinct (conn_fds (pool @ busy)) \<and>
     busy = [\<lparr>dc_tls = \<lparr>tc_fd = 4, tc_ssl = ()\<rparr>, dc_last_used = 0\<rparr>]"
proof -
  let ?c = "\<lparr>dc_tls = \<lparr>tc_fd = 4, tc_ssl = ()\<rparr>, dc_last_used = 0\<rparr>"
  have "(pool_step demo_dialling)\<^sup>*\<^sup>* ([], []) ([], [?c])" by (intro r_into_rtranclp made) simp_all
  then show ?thesis using pool_exclusive [OF demo_dialling_ok(1), of "[]" "[?c]"] by blast
qed

end
