(* ===== verification/Server.thy ===== *)
theory Server
  imports Daemon Doh Rules
begin

text \<open>
  \<open>src/transparent/transparent.c\<close>: options, files, the status file, the network watch, the listeners, the main loop and the
  life of the transparent server, with the setup of the DNS forwarder (end of \<open>src/transparent/dnsfwd.c\<close>). The platform layer
  (\<open>tp_platform.h\<close>) and the system calls are functions of a record on an arbitrary world; a trace notes the calls that decide
  what is intercepted. The loop runs for a number of rounds, after which the server is still running unless it was stopped.
\<close>

section \<open>Options\<close>

record tp_options =
  o_port :: int
  o_debug :: bool
  o_strategy_conf :: string
  o_decisions_file :: string
  o_status_file :: string
  o_log_file :: "string option"
  o_dns_servers :: string
  o_dns_port :: int
  o_doh :: bool

definition TP_DEFAULT_PORT :: int where "TP_DEFAULT_PORT = 1091"
definition TP_DEFAULT_DNS_PORT :: int where "TP_DEFAULT_DNS_PORT = 1053"
definition DNS_DEFAULT_SERVERS :: string where "DNS_DEFAULT_SERVERS = ''1.1.1.1,1.0.0.1,8.8.8.8,8.8.4.4,9.9.9.9''"
definition DNS_DOH_DEFAULT_SERVERS :: string where
  "DNS_DOH_DEFAULT_SERVERS = ''1.1.1.1/cloudflare-dns.com,1.0.0.1/cloudflare-dns.com,8.8.8.8/dns.google,8.8.4.4/dns.google''"

definition atoi :: "string \<Rightarrow> int" where
  "atoi s = sint (of_int (fst (strtol10 s)) :: u32)"

text \<open>The environment maps the name of a variable to its value.\<close>

definition env_or :: "(string \<Rightarrow> string option) \<Rightarrow> string \<Rightarrow> 'a \<Rightarrow> (string \<Rightarrow> 'a) \<Rightarrow> 'a" where
  "env_or getenv name fallback f = (case getenv name of Some v \<Rightarrow> if v \<noteq> [] then f v else fallback | None \<Rightarrow> fallback)"

text \<open>The paths are those of Linux.\<close>

definition tp_options_default :: "(string \<Rightarrow> string option) \<Rightarrow> tp_options" where
  "tp_options_default getenv =
     \<lparr>o_port = (case getenv ''DPI_PROXY_TP_PORT'' of Some v \<Rightarrow> if atoi v > 0 \<and> atoi v < 65536 then atoi v else TP_DEFAULT_PORT | None \<Rightarrow> TP_DEFAULT_PORT),
      o_debug = (getenv ''DPI_PROXY_LOG_LEVEL'' = Some ''debug''),
      o_strategy_conf = env_or getenv ''DPI_PROXY_STRATEGY_CONF'' ''/etc/dpi-proxy/strategy.conf'' (\<lambda>v. v),
      o_decisions_file = env_or getenv ''DPI_PROXY_TP_DECISIONS'' ''/var/lib/dpi-proxy/tp-decisions.conf'' (\<lambda>v. v),
      o_status_file = env_or getenv ''DPI_PROXY_TP_STATUS'' ''/run/dpi-proxy/transparent.status'' (\<lambda>v. v),
      o_log_file = env_or getenv ''DPI_PROXY_LOG_FILE'' None Some,
      o_dns_servers = env_or getenv ''DPI_PROXY_DNS_SERVERS'' DNS_DEFAULT_SERVERS (\<lambda>v. v),
      o_dns_port = (case getenv ''DPI_PROXY_TP_DNS'' of
          None \<Rightarrow> TP_DEFAULT_DNS_PORT
        | Some v \<Rightarrow> if v = ''off'' \<or> v = ''0'' then 0
            else if atoi v > 0 \<and> atoi v < 65536 then atoi v else TP_DEFAULT_DNS_PORT),
      o_doh = (case getenv ''DPI_PROXY_DOH'' of Some v \<Rightarrow> \<not> (v = ''off'' \<or> v = ''0'') | None \<Rightarrow> True)\<rparr>"

section \<open>Files\<close>

type_synonym fs = "string \<Rightarrow> string option"

definition FILE_MAX :: nat where "FILE_MAX = 4 * 1024 * 1024"
definition LOG_FILE_MAX :: nat where "LOG_FILE_MAX = 4 * 1024 * 1024"

definition read_file :: "bool \<Rightarrow> fs \<Rightarrow> string \<Rightarrow> string option" where
  "read_file malloc_ok fs path = do {
     c \<leftarrow> fs path;
     if length c > FILE_MAX \<or> \<not> malloc_ok then None else Some c
   }"

text \<open>How the calls on the temporary file end: opened, so many bytes written, closed without an error, renamed.\<close>

record write_outcome =
  wo_open :: bool
  wo_written :: nat
  wo_close :: bool
  wo_rename :: bool

definition tmp_of :: "string \<Rightarrow> string" where
  "tmp_of path = path @ ''.tmp''"

text \<open>The states of the file system one after the other, and whether the result is 0.\<close>

definition write_file_atomic :: "write_outcome \<Rightarrow> string \<Rightarrow> string \<Rightarrow> fs \<Rightarrow> bool \<times> fs list" where
  "write_file_atomic out path data fs =
     (let tmp = tmp_of path; w = min (wo_written out) (length data) in
      if length tmp \<ge> 4096 then (False, [fs])
      else if \<not> wo_open out then (False, [fs])
      else let fs1 = fs(tmp := Some []); fs2 = fs(tmp := Some (take w data)) in
        if \<not> wo_close out \<or> w \<noteq> length data \<or> \<not> wo_rename out then (False, [fs, fs1, fs2, fs2(tmp := None)])
        else (True, [fs, fs1, fs2, fs2(tmp := None, path := fs2 tmp)]))"

definition log_to_file :: "bool \<Rightarrow> string \<Rightarrow> string \<Rightarrow> string \<Rightarrow> fs \<Rightarrow> fs" where
  "log_to_file open_ok path stamp line fs =
     (if \<not> open_ok then fs
      else let c = (case fs path of None \<Rightarrow> [] | Some c \<Rightarrow> c) @ stamp @ '' '' @ line @ [CHR 0x0A];
               fs = fs(path := Some c); old = path @ ''.1'' in
        if length c > LOG_FILE_MAX \<and> length old < 4096 then fs(old := Some c, path := None) else fs)"

section \<open>The world\<close>

datatype server_event = Sv_listening int int | Sv_closed int | Sv_install int bool int bool | Sv_refresh int | Sv_remove | Sv_handler int af
  | Sv_round int | Sv_netcheck

record 'u server_env =
  se_dial :: "'u dialling"
  se_plat_init :: "'u \<Rightarrow> bool \<times> 'u"
  se_install :: "int \<Rightarrow> bool \<Rightarrow> int \<Rightarrow> 'u \<Rightarrow> bool \<times> 'u"
  se_refresh :: "'u \<Rightarrow> int \<times> 'u"
  se_remove :: "'u \<Rightarrow> 'u"
  se_quic_flush :: "'u \<Rightarrow> 'u"
  se_fingerprint :: "'u \<Rightarrow> u64 \<times> 'u"
  se_conflict :: "'u \<Rightarrow> string option \<times> 'u"
  se_drain :: "'u \<Rightarrow> bool \<times> 'u"
  se_extra :: "'u \<Rightarrow> string \<times> 'u"
  se_name :: string
  se_netwatch :: int
  se_wildcard :: bool
  se_socket :: "af \<Rightarrow> bool \<Rightarrow> 'u \<Rightarrow> int \<times> 'u"
  se_bind :: "int \<Rightarrow> af \<Rightarrow> bool \<Rightarrow> int \<Rightarrow> 'u \<Rightarrow> bool \<times> 'u"
  se_listen :: "int \<Rightarrow> 'u \<Rightarrow> bool \<times> 'u"
  se_close :: "int \<Rightarrow> 'u \<Rightarrow> 'u"
  se_accept :: "int \<Rightarrow> 'u \<Rightarrow> int \<times> 'u"
  se_thread :: "'u \<Rightarrow> bool \<times> 'u"
  se_poll :: "int list \<Rightarrow> 'u \<Rightarrow> bool list option \<times> 'u"
  se_now_ms :: "'u \<Rightarrow> int \<times> 'u"
  se_now :: "'u \<Rightarrow> int \<times> 'u"
  se_stop :: "'u \<Rightarrow> bool \<times> 'u"
  se_reload :: "'u \<Rightarrow> bool \<times> 'u"
  se_mem :: "'u \<Rightarrow> bool \<times> 'u"
  se_write :: "'u \<Rightarrow> write_outcome \<times> 'u"
  se_tls :: "'u \<Rightarrow> bool \<times> 'u"
  se_pid :: int

record ('l, 'u) server =
  sv_d :: daemon
  sv_doh :: "'l dns_doh option"
  sv_servers :: udp_servers
  sv_conflict :: "string option"
  sv_ipv6 :: bool
  sv_dns_intercept :: bool
  sv_started :: int
  sv_dns_queries :: u64
  sv_dns_failures :: u64
  sv_fs :: fs
  sv_u :: 'u
  sv_trace :: "server_event list"

definition call :: "('u \<Rightarrow> 'x \<times> 'u) \<Rightarrow> ('l, 'u) server \<Rightarrow> 'x \<times> ('l, 'u) server" where
  "call f s = (case f (sv_u s) of (x, u) \<Rightarrow> (x, s\<lparr>sv_u := u\<rparr>))"

definition note_event :: "server_event \<Rightarrow> ('l, 'u) server \<Rightarrow> ('l, 'u) server" where
  "note_event e s = s\<lparr>sv_trace := sv_trace s @ [e]\<rparr>"

definition close_fd :: "'u server_env \<Rightarrow> int \<Rightarrow> ('l, 'u) server \<Rightarrow> ('l, 'u) server" where
  "close_fd env fd s = note_event (Sv_closed fd) (s\<lparr>sv_u := se_close env fd (sv_u s)\<rparr>)"

definition plat_remove :: "'u server_env \<Rightarrow> ('l, 'u) server \<Rightarrow> ('l, 'u) server" where
  "plat_remove env s = note_event Sv_remove (s\<lparr>sv_u := se_remove env (sv_u s)\<rparr>)"

section \<open>Saving, status, conflicts, network\<close>

definition write_file :: "'u server_env \<Rightarrow> string \<Rightarrow> string \<Rightarrow> ('l, 'u) server \<Rightarrow> ('l, 'u) server" where
  "write_file env path data s = (case call (se_write env) s of (out, s) \<Rightarrow>
     s\<lparr>sv_fs := last (snd (write_file_atomic out path data (sv_fs s)))\<rparr>)"

definition save :: "'u server_env \<Rightarrow> tp_options \<Rightarrow> ('l, 'u) server \<Rightarrow> ('l, 'u) server" where
  "save env opt s = (case call (se_mem env) s of (malloc_ok, s) \<Rightarrow>
     case save_decisions malloc_ok (d_g (sv_d s)) of (contents, g) \<Rightarrow>
       let s = s\<lparr>sv_d := (sv_d s)\<lparr>d_g := g\<rparr>\<rparr> in
       case contents of None \<Rightarrow> s | Some c \<Rightarrow> write_file env (o_decisions_file opt) c s)"

definition status_line :: "string \<Rightarrow> string \<Rightarrow> string" where
  "status_line key v = key @ '': '' @ v @ [CHR 0x0A]"

definition status_text :: "'u server_env \<Rightarrow> tp_options \<Rightarrow> string \<Rightarrow> int \<Rightarrow> bool \<Rightarrow> string \<Rightarrow> ('l, 'u) server \<Rightarrow> string" where
  "status_text env opt engine now dns_ok extra s =
     (let g = d_g (sv_d s); st = g_stats g; lu = (\<lambda>v :: u64. dec_nat (unat v)) in
      concat [status_line ''engine'' engine, status_line ''mode'' ''transparent'', status_line ''pid'' (print_lld (se_pid env)),
        status_line ''started'' (print_lld (sv_started s)), status_line ''updated'' (print_lld now), status_line ''port'' (print_lld (o_port opt)),
        status_line ''dns'' (if dns_ok then ''healthy'' else ''degraded''), status_line ''network'' (hex_fixed 16 (unat (g_fp g))),
        status_line ''flows'' (lu (flows_total st)), status_line ''active'' (lu (flows_active st)), status_line ''passthrough'' (lu (passthrough_flows st)),
        status_line ''direct'' (lu (direct_flows st)), status_line ''bypassed'' (lu (bypassed_flows st)), status_line ''failures'' (lu (failed_flows st)),
        status_line ''verified_ok'' (lu (verified_ok st)), status_line ''verified_bad'' (lu (verified_bad st)),
        status_line ''decisions'' (dec_nat (length (d_entries (g_dec g)))),
        status_line ''last_learned'' (if g_last_learned g \<noteq> [] then g_last_learned g else ''-''),
        status_line ''dns_intercept'' (if sv_dns_intercept s then (if sv_doh s \<noteq> None then ''doh'' else ''plain'') else ''off''),
        status_line ''dns_queries'' (lu (sv_dns_queries s)), status_line ''dns_failures'' (lu (sv_dns_failures s)),
        status_line ''conflict'' (case sv_conflict s of None \<Rightarrow> ''none'' | Some c \<Rightarrow> c), status_line ''interception'' (se_name env), extra])"

definition write_status :: "'u server_env \<Rightarrow> tp_options \<Rightarrow> string \<Rightarrow> ('l, 'u) server \<Rightarrow> ('l, 'u) server" where
  "write_status env opt engine s =
     (case call (se_now env) s of (t, s) \<Rightarrow>
      case call (se_extra env) s of (extra, s) \<Rightarrow>
      case call (se_now env) s of (now, s) \<Rightarrow>
        let txt = status_text env opt engine now (dns_resolver_healthy (d_dns (sv_d s)) t) extra s in
        if 0 < length txt \<and> length txt < 3072 then write_file env (o_status_file opt) txt s else s)"

definition check_conflicts :: "'u server_env \<Rightarrow> ('l, 'u) server \<Rightarrow> ('l, 'u) server" where
  "check_conflicts env s = (case call (se_conflict env) s of (seen, s) \<Rightarrow> s\<lparr>sv_conflict := seen\<rparr>)"

definition drop_idle :: "'u server_env \<Rightarrow> ('l, 'u) server \<Rightarrow> ('l, 'u) server" where
  "drop_idle env s = (case sv_doh s of None \<Rightarrow> s
     | Some doh \<Rightarrow> case dns_doh_drop_idle (se_dial env) doh (sv_u s, []) of (doh, u, _) \<Rightarrow> s\<lparr>sv_doh := Some doh, sv_u := u\<rparr>)"

definition check_network :: "'u server_env \<Rightarrow> ('l, 'u) server \<Rightarrow> ('l, 'u) server" where
  "check_network env s = (case call (se_fingerprint env) s of (fp, s) \<Rightarrow>
     case network_section fp (d_g (sv_d s)) of (changed, g) \<Rightarrow>
       let s = s\<lparr>sv_d := (sv_d s)\<lparr>d_g := g\<rparr>\<rparr> in
       if \<not> changed then s
       else let s = drop_idle env (s\<lparr>sv_d := (sv_d s)\<lparr>d_dns := dns_cache_flush (d_dns (sv_d s))\<rparr>\<rparr>);
                s = s\<lparr>sv_u := se_quic_flush env (sv_u s)\<rparr> in
         s\<lparr>sv_d := (sv_d s)\<lparr>d_seen := tpd_quic_forget (d_seen (sv_d s))\<rparr>\<rparr>)"

definition reload_conf :: "'u server_env \<Rightarrow> tp_options \<Rightarrow> ('l, 'u) server \<Rightarrow> ('l, 'u) server" where
  "reload_conf env opt s = (case call (se_mem env) s of (ok, s) \<Rightarrow>
     s\<lparr>sv_d := (sv_d s)\<lparr>d_g := load_strategy_conf (read_file ok (sv_fs s) (o_strategy_conf opt)) (d_g (sv_d s))\<rparr>\<rparr>)"

definition heartbeat :: "'u server_env \<Rightarrow> tp_options \<Rightarrow> ('l, 'u) server \<Rightarrow> ('l, 'u) server" where
  "heartbeat env opt s = (case call (se_refresh env) s of (rc, s) \<Rightarrow>
     write_status env opt ''running'' (save env opt (note_event (Sv_refresh rc) s)))"

section \<open>Listeners\<close>

text \<open>\<open>stream\<close> is \<open>SOCK_STREAM\<close>.\<close>

definition tpd_listen :: "'u server_env \<Rightarrow> af \<Rightarrow> bool \<Rightarrow> int \<Rightarrow> ('l, 'u) server \<Rightarrow> int \<times> ('l, 'u) server" where
  "tpd_listen env family stream port s =
     (case call (se_socket env family stream) s of (fd, s) \<Rightarrow>
        if fd < 0 then (- 1, s)
        else case call (se_bind env fd family (se_wildcard env) port) s of (bound, s) \<Rightarrow>
        if \<not> bound then (- 1, close_fd env fd s)
        else case (if stream then call (se_listen env fd) s else (True, s)) of (ok, s) \<Rightarrow>
        if \<not> ok then (- 1, close_fd env fd s) else (fd, note_event (Sv_listening fd port) s))"

definition accept_one :: "'u server_env \<Rightarrow> int \<Rightarrow> af \<Rightarrow> ('l, 'u) server \<Rightarrow> ('l, 'u) server" where
  "accept_one env listen_fd family s =
     (case call (se_accept env listen_fd) s of (fd, s) \<Rightarrow>
        if fd < 0 then s
        else case call (se_mem env) s of (ok, s) \<Rightarrow>
        if \<not> ok then close_fd env fd s
        else case call (se_thread env) s of (ok, s) \<Rightarrow>
        if ok then note_event (Sv_handler fd family) s else close_fd env fd s)"

definition close_open :: "'u server_env \<Rightarrow> int \<Rightarrow> ('l, 'u) server \<Rightarrow> ('l, 'u) server" where
  "close_open env fd s = (if fd \<ge> 0 then close_fd env fd s else s)"

definition start_family :: "'u server_env \<Rightarrow> af \<Rightarrow> int \<Rightarrow> ('l, 'u) server \<Rightarrow> bool \<times> ('l, 'u) server" where
  "start_family env family port s =
     (case tpd_listen env family False port s of (ufd, s) \<Rightarrow>
      case tpd_listen env family True port s of (tfd, s) \<Rightarrow>
      case (if ufd < 0 \<or> tfd < 0 then (False, s) else call (se_thread env) s) of (ok, s) \<Rightarrow>
        if \<not> ok then (False, close_open env tfd (close_open env ufd s))
        else case call (se_thread env) s of (ok, s) \<Rightarrow>
        if ok then (True, s) else (False, close_fd env tfd s))"

text \<open>\<open>*ipv6\<close> is \<open>sv_ipv6\<close>.\<close>

definition tpd_dnsfwd_start :: "'u server_env \<Rightarrow> int \<Rightarrow> ('l, 'u) server \<Rightarrow> bool \<times> ('l, 'u) server" where
  "tpd_dnsfwd_start env port s =
     (case start_family env AF_INET port s of (ok, s) \<Rightarrow>
        if \<not> ok then (False, s)
        else if sv_ipv6 s then (case start_family env AF_INET6 port s of (ok, s) \<Rightarrow> (True, if ok then s else s\<lparr>sv_ipv6 := False\<rparr>))
        else (True, s))"

section \<open>The main loop\<close>

definition NETCHANGE_SETTLE_MS :: int where "NETCHANGE_SETTLE_MS = 2000"
definition NETCHECK_INTERVAL_S :: int where "NETCHECK_INTERVAL_S = 60"

record timers =
  next_beat :: int
  net_due :: int
  next_netcheck :: int

definition timers_start :: "int \<Rightarrow> int \<Rightarrow> timers" where
  "timers_start t t' = \<lparr>next_beat = t + TP_HEARTBEAT_S * 1000, net_due = 0, next_netcheck = t' + NETCHECK_INTERVAL_S * 1000\<rparr>"

text \<open>What a round at the time \<open>now\<close> does with the timers: is the network checked, and is it time for a heartbeat?\<close>

definition net_timer :: "int \<Rightarrow> bool \<Rightarrow> timers \<Rightarrow> bool \<times> timers" where
  "net_timer now event ts =
     (let ts = (if event then ts\<lparr>net_due := now + NETCHANGE_SETTLE_MS\<rparr> else ts) in
      if net_due ts \<noteq> 0 \<and> now \<ge> net_due ts \<or> now \<ge> next_netcheck ts
      then (True, ts\<lparr>net_due := 0, next_netcheck := now + NETCHECK_INTERVAL_S * 1000\<rparr>) else (False, ts))"

definition beat_timer :: "int \<Rightarrow> timers \<Rightarrow> bool \<times> timers" where
  "beat_timer now ts = (if now \<ge> next_beat ts then (True, ts\<lparr>next_beat := now + TP_HEARTBEAT_S * 1000\<rparr>) else (False, ts))"

text \<open>The descriptors that are polled, and whether one of them is readable.\<close>

definition poll_fds :: "'u server_env \<Rightarrow> int \<Rightarrow> int \<Rightarrow> int list" where
  "poll_fds env lfd4 lfd6 = [lfd4] @ (if lfd6 \<ge> 0 then [lfd6] else []) @ (if se_netwatch env \<ge> 0 then [se_netwatch env] else [])"

definition readable :: "bool list \<Rightarrow> nat \<Rightarrow> bool" where
  "readable revents i \<longleftrightarrow> i < length revents \<and> revents ! i"

definition main_round :: "'u server_env \<Rightarrow> tp_options \<Rightarrow> int \<Rightarrow> int \<Rightarrow> timers \<times> ('l, 'u) server \<Rightarrow> bool \<times> timers \<times> ('l, 'u) server" where
  "main_round env opt lfd4 lfd6 ls = (case ls of (ts, s) \<Rightarrow>
     let fds = poll_fds env lfd4 lfd6 in
     case call (se_poll env fds) s of (polled, s) \<Rightarrow>
     case polled of None \<Rightarrow> (False, ts, s)
     | Some revents \<Rightarrow>
       let s = (if readable revents 0 then accept_one env lfd4 AF_INET s else s);
           s = (if lfd6 \<ge> 0 \<and> readable revents 1 then accept_one env lfd6 AF_INET6 s else s) in
       case call (se_now_ms env) s of (now, s) \<Rightarrow>
       let s = note_event (Sv_round now) s in
       case (if se_netwatch env \<ge> 0 \<and> readable revents (length fds - 1) then call (se_drain env) s else (False, s)) of (event, s) \<Rightarrow>
       case net_timer now event ts of (check, ts) \<Rightarrow>
         let s = (if check then note_event Sv_netcheck (check_conflicts env (check_network env s)) else s) in
       case call (se_reload env) s of (reload, s) \<Rightarrow>
         let s = (if reload then reload_conf env opt s else s) in
       case beat_timer now ts of (beat, ts) \<Rightarrow>
         (True, ts, if beat then heartbeat env opt s else s))"

text \<open>At most so many rounds; the first result says whether the loop is still running.\<close>

fun main_loop :: "nat \<Rightarrow> 'u server_env \<Rightarrow> tp_options \<Rightarrow> int \<Rightarrow> int \<Rightarrow> timers \<times> ('l, 'u) server \<Rightarrow> bool \<times> timers \<times> ('l, 'u) server" where
  "main_loop 0 env opt lfd4 lfd6 ls = (True, ls)"
| "main_loop (Suc n) env opt lfd4 lfd6 ls =
     (case call (se_stop env) (snd ls) of (stop, s) \<Rightarrow>
        if stop then (False, fst ls, s)
        else case main_round env opt lfd4 lfd6 (fst ls, s) of (go_on, ls) \<Rightarrow>
          if go_on then main_loop n env opt lfd4 lfd6 ls else (False, ls))"

section \<open>The life of the server\<close>

text \<open>The resolver, and the DoH transport when there is one; \<^const>\<open>None\<close> is the result -1.\<close>

definition init_dns :: "(af \<Rightarrow> string \<Rightarrow> bytes option) \<Rightarrow> tp_options \<Rightarrow> string \<Rightarrow> bool \<Rightarrow> bool \<Rightarrow> u16 \<Rightarrow> (dns_resolver \<times> 'l dns_doh option \<times> udp_servers) option" where
  "init_dns pton opt doh_servers tls_ok calloc_ok id_seed =
     (let servers = dns_udp_servers_parse pton (o_dns_servers opt) 0x2a4c;
          n = length (us_addrs servers);
          doh = (if o_doh opt then dns_doh_new pton tls_ok doh_servers 0x2a4c (if n > 0 then Some servers else None) else None) in
      if n = 0 \<and> doh = None then None
      else if \<not> calloc_ok then None
      else Some (case doh of Some d \<Rightarrow> dns_resolver_init (dns_doh_total d) 2500 id_seed | None \<Rightarrow> dns_resolver_init n 1500 id_seed, doh, servers))"

definition server0 :: "fs \<Rightarrow> 'u \<Rightarrow> int \<Rightarrow> ('l, 'u) server" where
  "server0 fs u now = \<lparr>sv_d = daemon_init True None 0 None 0 0 0, sv_doh = None, sv_servers = \<lparr>us_addrs = [], us_mark = 0\<rparr>, sv_conflict = None,
     sv_ipv6 = False, sv_dns_intercept = False, sv_started = now, sv_dns_queries = 0, sv_dns_failures = 0, sv_fs = fs, sv_u = u, sv_trace = []\<rparr>"

text \<open>From the platform layer to the decisions that were saved; \<open>id_seed\<close> is made of the process id and the time.\<close>

definition server_setup :: "'u server_env \<Rightarrow> (af \<Rightarrow> string \<Rightarrow> bytes option) \<Rightarrow> string \<Rightarrow> tp_options \<Rightarrow> ('l, 'u) server \<Rightarrow> bool \<times> ('l, 'u) server" where
  "server_setup env pton doh_servers opt s =
     (case call (se_plat_init env) s of (ok, s) \<Rightarrow>
        if \<not> ok then (False, s)
        else case call (se_tls env) s of (tls_ok, s) \<Rightarrow>
        case call (se_mem env) s of (mem, s) \<Rightarrow>
        case call (se_now env) s of (now, s) \<Rightarrow>
        case init_dns pton opt doh_servers tls_ok mem (of_int (se_pid env) XOR of_int now) of
          None \<Rightarrow> (False, s)
        | Some (dns, doh, servers) \<Rightarrow>
            case call (se_mem env) s of (ok1, s) \<Rightarrow>
            case call (se_fingerprint env) s of (fp, s) \<Rightarrow>
            case call (se_mem env) s of (ok2, s) \<Rightarrow>
            case call (se_mem env) s of (realloc_ok, s) \<Rightarrow>
              (True, s\<lparr>sv_d := (sv_d s)\<lparr>d_dns := dns, d_g := tpd_init realloc_ok (read_file ok1 (sv_fs s) (o_strategy_conf opt)) fp
                  (read_file ok2 (sv_fs s) (o_decisions_file opt))\<rparr>, sv_doh := doh, sv_servers := servers\<rparr>))"

definition server_listen :: "'u server_env \<Rightarrow> tp_options \<Rightarrow> ('l, 'u) server \<Rightarrow> int \<times> int \<times> ('l, 'u) server" where
  "server_listen env opt s =
     (case tpd_listen env AF_INET True (o_port opt) s of (lfd4, s) \<Rightarrow>
        if lfd4 < 0 then (lfd4, - 1, s)
        else case tpd_listen env AF_INET6 True (o_port opt) s of (lfd6, s) \<Rightarrow>
        let s = s\<lparr>sv_ipv6 := (lfd6 \<ge> 0)\<rparr> in
        case (if o_dns_port opt > 0 then tpd_dnsfwd_start env (o_dns_port opt) s else (False, s)) of (fwd, s) \<Rightarrow>
          (lfd4, lfd6, s\<lparr>sv_dns_intercept := fwd\<rparr>))"

definition server_install :: "'u server_env \<Rightarrow> tp_options \<Rightarrow> ('l, 'u) server \<Rightarrow> bool \<times> ('l, 'u) server" where
  "server_install env opt s =
     (case call (se_tls env) s of (ctx, s) \<Rightarrow>
      case (if ctx then call (se_thread env) s else (False, s)) of (verifier, s) \<Rightarrow>
        if \<not> verifier then (False, s)
        else let dns = (if sv_dns_intercept s then o_dns_port opt else 0) in
        case call (se_install env (o_port opt) (sv_ipv6 s) dns) s of (ok, s) \<Rightarrow>
          (ok, note_event (Sv_install (o_port opt) (sv_ipv6 s) dns ok) s))"

text \<open>The result of the server, \<^const>\<open>None\<close> while it runs.\<close>

definition run_transparent_server :: "nat \<Rightarrow> 'u server_env \<Rightarrow> (af \<Rightarrow> string \<Rightarrow> bytes option) \<Rightarrow> string \<Rightarrow> tp_options \<Rightarrow> ('l, 'u) server \<Rightarrow> int option \<times> ('l, 'u) server" where
  "run_transparent_server rounds env pton doh_servers opt s =
     (case server_setup env pton doh_servers opt s of (ok, s) \<Rightarrow>
        if \<not> ok then (Some (- 1), s)
        else case server_listen env opt s of (lfd4, lfd6, s) \<Rightarrow>
        if lfd4 < 0 then (Some (- 1), s)
        else case server_install env opt (check_conflicts env s) of (ok, s) \<Rightarrow>
        if \<not> ok then (Some (- 1), close_open env lfd6 (close_fd env lfd4 (plat_remove env s)))
        else case call (se_now_ms env) (write_status env opt ''running'' s) of (t, s) \<Rightarrow>
        case call (se_now_ms env) s of (t', s) \<Rightarrow>
        case main_loop rounds env opt lfd4 lfd6 (timers_start t t', s) of (running, _, s) \<Rightarrow>
          if running then (None, s)
          else (Some 0, write_status env opt ''stopped'' (save env opt (plat_remove env s))))"

section \<open>Descriptors and the trace\<close>

text \<open>What the theorems need of the system: \<open>fds\<close> are the open descriptors of the main thread in a world; a new socket or
  accepted connection is not one of them, closing takes away one, and no other call does; the resolver's connections are not
  among them.\<close>

definition keeps :: "('u \<Rightarrow> int set) \<Rightarrow> ('u \<Rightarrow> 'x \<times> 'u) \<Rightarrow> bool" where
  "keeps fds f \<longleftrightarrow> (\<forall>u x u'. f u = (x, u') \<longrightarrow> fds u \<subseteq> fds u')"

definition opens_new :: "('u \<Rightarrow> int set) \<Rightarrow> ('u \<Rightarrow> int \<times> 'u) \<Rightarrow> bool" where
  "opens_new fds f \<longleftrightarrow> (\<forall>u fd u'. f u = (fd, u') \<longrightarrow> fds u \<subseteq> fds u' \<and> (0 \<le> fd \<longrightarrow> fd \<notin> fds u \<and> fd \<in> fds u'))"

definition fds_ok :: "'u server_env \<Rightarrow> ('u \<Rightarrow> int set) \<Rightarrow> bool" where
  "fds_ok env fds \<longleftrightarrow>
     (\<forall>fam st. opens_new fds (se_socket env fam st)) \<and> (\<forall>fd. opens_new fds (se_accept env fd)) \<and>
     (\<forall>fd u. fds u - {fd} \<subseteq> fds (se_close env fd u)) \<and>
     (\<forall>fd fam w port. keeps fds (se_bind env fd fam w port)) \<and> (\<forall>fd. keeps fds (se_listen env fd)) \<and> keeps fds (se_thread env) \<and>
     keeps fds (se_mem env) \<and> keeps fds (se_tls env) \<and> (\<forall>p v d. keeps fds (se_install env p v d)) \<and> keeps fds (se_refresh env) \<and>
     keeps fds (se_conflict env) \<and> keeps fds (se_fingerprint env) \<and> keeps fds (se_drain env) \<and> keeps fds (se_extra env) \<and>
     (\<forall>l. keeps fds (se_poll env l)) \<and> keeps fds (se_now_ms env) \<and> keeps fds (se_now env) \<and> keeps fds (se_stop env) \<and>
     keeps fds (se_reload env) \<and> keeps fds (se_write env) \<and> (\<forall>u. fds u \<subseteq> fds (se_quic_flush env u)) \<and>
     (\<forall>fd u. fds u \<subseteq> fds (n_close (se_dial env) fd u))"

text \<open>A stretch of the server's work: the events it adds are of the given kinds, and every descriptor open at its start stays
  open.\<close>

definition stays :: "('u \<Rightarrow> int set) \<Rightarrow> (server_event \<Rightarrow> bool) \<Rightarrow> ('l, 'u) server \<Rightarrow> ('l, 'u) server \<Rightarrow> bool" where
  "stays fds P s s' \<longleftrightarrow> (\<exists>evs. sv_trace s' = sv_trace s @ evs \<and> list_all P evs \<and>
     (\<forall>fd \<in> fds (sv_u s). fd \<in> fds (sv_u s') \<and> Sv_closed fd \<notin> set evs))"

lemma fds_laws:
  assumes "fds_ok env fds"
  shows "opens_new fds (se_socket env fam st)" "opens_new fds (se_accept env fd)" "fds u - {fd} \<subseteq> fds (se_close env fd u)"
    "keeps fds (se_bind env fd fam w port)" "keeps fds (se_listen env fd)" "keeps fds (se_thread env)"
    "keeps fds (se_mem env)" "keeps fds (se_tls env)" "keeps fds (se_install env p v d)" "keeps fds (se_refresh env)"
    "keeps fds (se_conflict env)" "keeps fds (se_fingerprint env)" "keeps fds (se_drain env)" "keeps fds (se_extra env)"
    "keeps fds (se_poll env l)" "keeps fds (se_now_ms env)" "keeps fds (se_now env)" "keeps fds (se_stop env)"
    "keeps fds (se_reload env)" "keeps fds (se_write env)" "fds u \<subseteq> fds (se_quic_flush env u)" "fds u \<subseteq> fds (n_close (se_dial env) fd u)"
  using assms unfolding fds_ok_def by blast+

lemma stays_refl [simp]: "stays fds P s s"
  by (simp add: stays_def)

lemma stays_trans: "stays fds P a b \<Longrightarrow> stays fds P b c \<Longrightarrow> stays fds P a c"
  unfolding stays_def by fastforce

lemma stays_mono: "stays fds P a b \<Longrightarrow> (\<And>e. P e \<Longrightarrow> Q e) \<Longrightarrow> stays fds Q a b"
  unfolding stays_def by (metis (mono_tags, lifting) list.pred_mono_strong)

text \<open>Changes of other fields, and of the world by a call that keeps the descriptors.\<close>

lemma stays_same: "sv_trace s' = sv_trace s \<Longrightarrow> fds (sv_u s) \<subseteq> fds (sv_u s') \<Longrightarrow> stays fds P s s'"
  by (auto simp: stays_def)

lemma stays_call: "keeps fds f \<Longrightarrow> call f s = (x, s') \<Longrightarrow> stays fds P s s'"
  by (rule stays_same) (fastforce simp: call_def keeps_def split: prod.splits)+

lemma stays_event: "P e \<Longrightarrow> \<forall>fd. e \<noteq> Sv_closed fd \<Longrightarrow> stays fds P s (note_event e s)"
  by (auto simp: stays_def note_event_def)

lemma stays_close:
  assumes "stays fds P s s1" "fd \<notin> fds (sv_u s)" "P (Sv_closed fd)" "fds_ok env fds"
  shows "stays fds P s (close_fd env fd s1)"
proof -
  obtain evs where e: "sv_trace s1 = sv_trace s @ evs" "list_all P evs" "\<And>g. g \<in> fds (sv_u s) \<Longrightarrow> g \<in> fds (sv_u s1) \<and> Sv_closed g \<notin> set evs"
    using assms(1) unfolding stays_def by blast
  have "g \<in> fds (se_close env fd (sv_u s1))" if "g \<in> fds (sv_u s)" for g
    using e(3) [OF that] fds_laws(3) [OF assms(4), where u = "sv_u s1" and fd = fd] assms(2) that by auto
  then show ?thesis unfolding stays_def
    by (intro exI [of _ "evs @ [Sv_closed fd]"]) (use e assms(2,3) in \<open>auto simp: close_fd_def note_event_def\<close>)
qed

lemma called: "call f s = (x, s') \<Longrightarrow> f (sv_u s) = (x, sv_u s') \<and> sv_trace s' = sv_trace s"
  by (auto simp: call_def split: prod.splits)

lemma opens_stays:
  assumes "opens_new fds f" "call f s = (fd, s')"
  shows "stays fds P s s'" "0 \<le> fd \<Longrightarrow> fd \<notin> fds (sv_u s) \<and> fd \<in> fds (sv_u s')"
  using assms called [OF assms(2)] by (auto simp: opens_new_def intro!: stays_same)

text \<open>The events that happen before anything is installed, and those of the loop.\<close>

fun setup_event :: "server_event \<Rightarrow> bool" where
  "setup_event (Sv_listening fd port) = True"
| "setup_event (Sv_closed fd) = True"
| "setup_event (Sv_handler fd fam) = True"
| "setup_event e = False"

fun loop_event :: "server_event \<Rightarrow> bool" where
  "loop_event (Sv_refresh rc) = True"
| "loop_event (Sv_closed fd) = True"
| "loop_event (Sv_handler fd fam) = True"
| "loop_event (Sv_round t) = True"
| "loop_event Sv_netcheck = True"
| "loop_event e = False"

definition listens :: "('u \<Rightarrow> int set) \<Rightarrow> int \<Rightarrow> int \<Rightarrow> ('l, 'u) server \<Rightarrow> ('l, 'u) server \<Rightarrow> bool" where
  "listens fds fd port s s' \<longleftrightarrow> fd \<notin> fds (sv_u s) \<and> fd \<in> fds (sv_u s') \<and> (\<exists>a b. sv_trace s' = sv_trace s @ a @ Sv_listening fd port # b \<and> Sv_closed fd \<notin> set b)"

lemma listen_bound:
  assumes ok: "fds_ok env fds" and s1: "call (se_socket env family stream) s = (fd, s1)" and fd: "0 \<le> fd"
    and s2: "call (se_bind env fd family (se_wildcard env) port) s1 = (b, s2)"
    and s3: "(if stream then call (se_listen env fd) s2 else (True, s2)) = (li, s3)"
  shows "stays fds setup_event s s2 \<and> stays fds setup_event s s3 \<and> fd \<in> fds (sv_u s3) \<and> sv_trace s3 = sv_trace s"
proof -
  note o = opens_stays [OF fds_laws(1) [OF ok] s1]
  have k2: "stays fds setup_event s s2" using stays_trans [OF o(1) stays_call [OF fds_laws(4) [OF ok] s2]] .
  have u2: "fd \<in> fds (sv_u s2)" "sv_trace s2 = sv_trace s"
    using called [OF s2] called [OF s1] o(2) [OF fd] fds_laws(4) [OF ok, of fd family "se_wildcard env" port] by (auto simp: keeps_def)
  show ?thesis
  proof (cases stream)
    case True
    then have c: "call (se_listen env fd) s2 = (li, s3)" using s3 by simp
    show ?thesis using k2 stays_trans [OF k2 stays_call [OF fds_laws(5) [OF ok] c]] called [OF c] u2 fds_laws(5) [OF ok, of fd]
      by (auto simp: keeps_def)
  qed (use s3 k2 u2 in auto)
qed

lemma listen_stays:
  assumes ok: "fds_ok env fds" and l: "tpd_listen env family stream port s = (fd, s')"
  shows "stays fds setup_event s s' \<and> (0 \<le> fd \<longrightarrow> listens fds fd port s s')"
proof -
  obtain fd1 s1 where s1: "call (se_socket env family stream) s = (fd1, s1)" by (cases "call (se_socket env family stream) s")
  note o = opens_stays [OF fds_laws(1) [OF ok] s1]
  show ?thesis
  proof (cases "fd1 < 0")
    case True
    then show ?thesis using l o(1) by (auto simp: tpd_listen_def s1)
  next
    case False
    then have fd: "0 \<le> fd1" and fresh: "fd1 \<notin> fds (sv_u s)" using o(2) by auto
    obtain b s2 where s2: "call (se_bind env fd1 family (se_wildcard env) port) s1 = (b, s2)"
      by (cases "call (se_bind env fd1 family (se_wildcard env) port) s1")
    obtain li s3 where s3: "(if stream then call (se_listen env fd1) s2 else (True, s2)) = (li, s3)" by (meson surj_pair)
    note k = listen_bound [OF ok s1 fd s2 s3]
    have cl: "stays fds setup_event s (close_fd env fd1 s2)" "stays fds setup_event s (close_fd env fd1 s3)"
      using stays_close [OF _ fresh(1) _ ok] k by auto
    have ev: "stays fds setup_event s (note_event (Sv_listening fd1 port) s3)"
      using stays_trans [OF _ stays_event [of setup_event "Sv_listening fd1 port" fds s3]] k by auto
    have li: "listens fds fd1 port s (note_event (Sv_listening fd1 port) s3)"
      unfolding listens_def using k fresh by (intro conjI exI [of _ "[]"]) (auto simp: note_event_def)
    show ?thesis using l False s1 s2 s3 cl ev li by (auto simp: tpd_listen_def split: if_splits)
  qed
qed

text \<open>A listener stays one through work that keeps the descriptors.\<close>

lemma listens_later:
  assumes "listens fds fd port s s1" "stays fds P s1 s2" "stays fds Q s0 s"
  shows "listens fds fd port s0 s2"
proof -
  obtain a b where t: "fd \<notin> fds (sv_u s)" "fd \<in> fds (sv_u s1)" "sv_trace s1 = sv_trace s @ a @ Sv_listening fd port # b" "Sv_closed fd \<notin> set b"
    using assms(1) unfolding listens_def by blast
  obtain evs where e: "sv_trace s2 = sv_trace s1 @ evs" "fd \<in> fds (sv_u s2)" "Sv_closed fd \<notin> set evs"
    using assms(2) t(2) unfolding stays_def by blast
  obtain evs0 where e0: "sv_trace s = sv_trace s0 @ evs0" "fds (sv_u s0) \<subseteq> fds (sv_u s)" using assms(3) unfolding stays_def by blast
  have "sv_trace s2 = sv_trace s0 @ (evs0 @ a) @ Sv_listening fd port # (b @ evs)" "Sv_closed fd \<notin> set (b @ evs)" using t e e0 by auto
  then show ?thesis unfolding listens_def using t(1) e(2) e0(2) by blast
qed

lemma close_open_stays:
  "stays fds setup_event s s1 \<Longrightarrow> 0 \<le> fd \<longrightarrow> fd \<notin> fds (sv_u s) \<Longrightarrow> fds_ok env fds \<Longrightarrow> stays fds setup_event s (close_open env fd s1)"
  by (simp add: close_open_def stays_close)

lemma start_family_stays:
  assumes ok: "fds_ok env fds" and st: "start_family env family port s = (up, s')"
  shows "stays fds setup_event s s' \<and> (up \<longrightarrow> (\<exists>ufd tfd. listens fds ufd port s s' \<and> listens fds tfd port s s'))"
proof -
  obtain ufd s1 tfd s2 where s1: "tpd_listen env family False port s = (ufd, s1)" and s2: "tpd_listen env family True port s1 = (tfd, s2)"
    by (meson surj_pair)
  note k1 = listen_stays [OF ok s1] and k2 = listen_stays [OF ok s2]
  have k: "stays fds setup_event s s2" using k1 k2 stays_trans by blast
  have l: "0 \<le> ufd \<Longrightarrow> listens fds ufd port s s2" "0 \<le> tfd \<Longrightarrow> listens fds tfd port s s2"
    using listens_later [of fds ufd port s s1 setup_event s2 setup_event s] listens_later [of fds tfd port s1 s2 setup_event s2 setup_event s] k1 k2 by auto
  have fresh: "0 \<le> ufd \<longrightarrow> ufd \<notin> fds (sv_u s)" "0 \<le> tfd \<longrightarrow> tfd \<notin> fds (sv_u s)" using l by (auto simp: listens_def)
  obtain t1 s3 where s3: "(if ufd < 0 \<or> tfd < 0 then (False, s2) else call (se_thread env) s2) = (t1, s3)" by (meson surj_pair)
  have k3: "stays fds setup_event s2 s3" using s3 stays_call [OF fds_laws(6) [OF ok]] by (auto split: if_splits)
  obtain t2 s4 where s4: "call (se_thread env) s3 = (t2, s4)" by (meson surj_pair)
  have k4: "stays fds setup_event s2 s4" using k3 stays_call [OF fds_laws(6) [OF ok] s4] stays_trans by blast
  have c: "stays fds setup_event s (close_open env tfd (close_open env ufd s3))"
    using close_open_stays [OF close_open_stays [OF stays_trans [OF k k3] fresh(1) ok] fresh(2) ok] .
  have c4: "0 \<le> tfd \<Longrightarrow> stays fds setup_event s (close_fd env tfd s4)" using stays_close [OF stays_trans [OF k k4] _ _ ok] fresh by auto
  have up: "listens fds ufd port s s4" "listens fds tfd port s s4" if "t1"
    using that s3 listens_later [OF _ k4 stays_refl] l by (auto split: if_splits)
  show ?thesis using st s3 c c4 up stays_trans [OF k k4] by (auto simp: start_family_def s1 s2 s4 split: if_splits)
qed

lemma dnsfwd_stays:
  assumes ok: "fds_ok env fds" and st: "tpd_dnsfwd_start env port s = (up, s')"
  shows "stays fds setup_event s s' \<and> (up \<longrightarrow> (\<exists>ufd tfd. listens fds ufd port s s' \<and> listens fds tfd port s s'))"
proof -
  obtain up1 s1 up2 s2 where s1: "start_family env AF_INET port s = (up1, s1)" and s2: "start_family env AF_INET6 port s1 = (up2, s2)"
    by (meson surj_pair)
  note k1 = start_family_stays [OF ok s1] and k2 = start_family_stays [OF ok s2]
  have l: "listens fds fd port s s2" if "listens fds fd port s s1" for fd using listens_later [OF that _ stays_refl] k2 by blast
  have same: "stays fds setup_event s (s2\<lparr>sv_ipv6 := False\<rparr>)" "listens fds fd port s (s2\<lparr>sv_ipv6 := False\<rparr>) = listens fds fd port s s2" for fd
    using stays_trans [of fds setup_event s s1 s2] k1 k2 by (auto simp: stays_def listens_def)
  show ?thesis using st k1 k2 l same stays_trans [of fds setup_event s s1 s2]
    by (auto simp: tpd_dnsfwd_start_def s1 s2 split: if_splits)
qed

section \<open>The loop as steps of the daemon\<close>

text \<open>Work of the main thread: it keeps the descriptors, and what it does to the shared state are steps of the daemon.\<close>

definition works :: "('u \<Rightarrow> int set) \<Rightarrow> 'v dns_transport \<Rightarrow> ('l, 'u) server \<Rightarrow> ('l, 'u) server \<Rightarrow> bool" where
  "works fds transport s s' \<longleftrightarrow> stays fds loop_event s s' \<and> (daemon_step transport)\<^sup>*\<^sup>* (sv_d s) (sv_d s')"

lemma works_refl [simp]: "works fds transport s s"
  by (simp add: works_def)

lemma works_trans: "works fds transport a b \<Longrightarrow> works fds transport b c \<Longrightarrow> works fds transport a c"
  unfolding works_def using stays_trans rtranclp_trans by metis

lemma works_call: "keeps fds f \<Longrightarrow> call f s = (x, s') \<Longrightarrow> works fds transport s s'"
  by (simp add: works_def stays_call) (auto simp: call_def split: prod.splits)

lemma works_step:
  assumes "daemon_step transport (sv_d s) d"
  shows "works fds transport s (s\<lparr>sv_d := d\<rparr>)"
  using assms by (simp add: works_def stays_same)

lemma works_same: "sv_trace s' = sv_trace s \<Longrightarrow> fds (sv_u s) \<subseteq> fds (sv_u s') \<Longrightarrow> sv_d s' = sv_d s \<Longrightarrow> works fds transport s s'"
  by (simp add: works_def stays_same)

lemma works_event: "loop_event e \<Longrightarrow> \<forall>fd. e \<noteq> Sv_closed fd \<Longrightarrow> works fds transport s (note_event e s)"
  by (simp add: works_def stays_event) (simp add: note_event_def)

text \<open>A call, and then the rest.\<close>

lemma works_then: "keeps fds f \<Longrightarrow> (\<And>x s1. call f s = (x, s1) \<Longrightarrow> works fds transport s1 (k x s1)) \<Longrightarrow>
    works fds transport s (case call f s of (x, s1) \<Rightarrow> k x s1)"
  using works_call works_trans by (metis (no_types, lifting) case_prod_conv surj_pair)

lemma write_file_works: "fds_ok env fds \<Longrightarrow> works fds transport s (write_file env path data s)"
  unfolding write_file_def by (rule works_then [OF fds_laws(20)]) (auto intro: works_same)

lemma save_works:
  fixes s :: "('l, 'u) server"
  assumes env: "fds_ok env fds"
  shows "works fds transport s (save env opt s)"
  unfolding save_def
proof (rule works_then [OF fds_laws(7) [OF env]])
  fix ok and s1 :: "('l, 'u) server"
  obtain contents g where g: "save_decisions ok (d_g (sv_d s1)) = (contents, g)" by (meson surj_pair)
  have "works fds transport s1 (s1\<lparr>sv_d := (sv_d s1)\<lparr>d_g := g\<rparr>\<rparr>)"
    using works_step [where s = s1, OF daemon_step.saved [where malloc_ok = ok]] by (simp add: g)
  then show "works fds transport s1 (case save_decisions ok (d_g (sv_d s1)) of (contents, g) \<Rightarrow>
      let s = s1\<lparr>sv_d := (sv_d s1)\<lparr>d_g := g\<rparr>\<rparr> in case contents of None \<Rightarrow> s | Some c \<Rightarrow> write_file env (o_decisions_file opt) c s)"
    by (auto simp: g Let_def intro: works_trans [OF _ write_file_works [OF env]] split: option.split)
qed

lemma status_works: "fds_ok env fds \<Longrightarrow> works fds transport s (write_status env opt engine s)"
  unfolding write_status_def Let_def
  by (rule works_then [OF fds_laws(17)], assumption, rule works_then [OF fds_laws(14)], assumption, rule works_then [OF fds_laws(17)], assumption)
    (simp add: write_file_works)

lemma conflicts_works: "fds_ok env fds \<Longrightarrow> works fds transport s (check_conflicts env s)"
  unfolding check_conflicts_def by (rule works_then [OF fds_laws(11)]) (auto intro: works_same)

lemma drop_conns_fds:
  assumes "fds_ok env fds"
  shows "fds (fst w) \<subseteq> fds (fst (drop_conns (se_dial env) cs w))"
  unfolding drop_conns_def
proof (induction cs arbitrary: w)
  case (Cons c cs)
  have "fds (fst w) \<subseteq> fds (fst (conn_free (se_dial env) c w))"
    using fds_laws(22) [OF assms] by (simp add: conn_free_def tlsc_free_def compat_close_def)
  then show ?case using Cons.IH [of "conn_free (se_dial env) c w"] by simp
qed simp

lemma drop_idle_works: "fds_ok env fds \<Longrightarrow> works fds transport s (drop_idle env s)"
  using drop_conns_fds [of env fds "(sv_u s, [])"]
  by (auto simp: drop_idle_def dns_doh_drop_idle_def case_prod_beta intro!: works_same split: option.split) blast

lemma network_works:
  fixes s :: "('l, 'u) server"
  assumes ok: "fds_ok env fds"
  shows "works fds transport s (check_network env s)"
  unfolding check_network_def
proof (rule works_then [OF fds_laws(12) [OF ok]])
  fix fp and s1 :: "('l, 'u) server"
  obtain ch g where g: "network_section fp (d_g (sv_d s1)) = (ch, g)" by (meson surj_pair)
  let ?s2 = "s1\<lparr>sv_d := (sv_d s1)\<lparr>d_g := g\<rparr>\<rparr>"
  let ?s3 = "?s2\<lparr>sv_d := (sv_d ?s2)\<lparr>d_dns := dns_cache_flush (d_dns (sv_d ?s2)), d_seen := tpd_quic_forget (d_seen (sv_d ?s2))\<rparr>\<rparr>"
  have w2: "works fds transport s1 ?s2"
    using works_step [where s = s1, OF daemon_step.network [where fp = fp]] by (simp add: g)
  have w3: "works fds transport ?s2 ?s3" by (rule works_step [OF daemon_step.flushed])
  define s4 where "s4 = drop_idle env ?s3"
  have w4: "works fds transport ?s3 (s4\<lparr>sv_u := se_quic_flush env (sv_u s4)\<rparr>)"
    unfolding s4_def by (rule works_trans [OF drop_idle_works [OF ok] works_same]) (simp_all add: fds_laws(21) [OF ok])
  have swap: "(drop_idle env (?s2\<lparr>sv_d := (sv_d ?s2)\<lparr>d_dns := dns_cache_flush (d_dns (sv_d ?s2))\<rparr>\<rparr>))
      = s4\<lparr>sv_d := (sv_d ?s2)\<lparr>d_dns := dns_cache_flush (d_dns (sv_d ?s2))\<rparr>\<rparr>"
    and d4: "sv_d s4 = sv_d ?s3"
    by (auto simp: s4_def drop_idle_def split: option.split prod.split)
  have "works fds transport s1 (s4\<lparr>sv_u := se_quic_flush env (sv_u s4)\<rparr>)" using works_trans [OF works_trans [OF w2 w3] w4] .
  then show "works fds transport s1 (case network_section fp (d_g (sv_d s1)) of (changed, g) \<Rightarrow>
       let s = s1\<lparr>sv_d := (sv_d s1)\<lparr>d_g := g\<rparr>\<rparr> in
       if \<not> changed then s
       else let s = drop_idle env (s\<lparr>sv_d := (sv_d s)\<lparr>d_dns := dns_cache_flush (d_dns (sv_d s))\<rparr>\<rparr>);
                s = s\<lparr>sv_u := se_quic_flush env (sv_u s)\<rparr> in
         s\<lparr>sv_d := (sv_d s)\<lparr>d_seen := tpd_quic_forget (d_seen (sv_d s))\<rparr>\<rparr>)"
    unfolding g prod.case Let_def swap using w2 d4 by (auto simp: works_def stays_def)
qed

lemma reload_works: "fds_ok env fds \<Longrightarrow> works fds transport s (reload_conf env opt s)"
  unfolding reload_conf_def by (rule works_then [OF fds_laws(7)]) (auto intro: works_step daemon_step.reloaded)

lemma heartbeat_works: "fds_ok env fds \<Longrightarrow> works fds transport s (heartbeat env opt s)"
  unfolding heartbeat_def
  by (rule works_then [OF fds_laws(10)], assumption)
    (rule works_trans [OF works_event works_trans [OF save_works status_works]], auto)

lemma sv_d_simps [simp]: "sv_d (note_event e s) = sv_d s" "sv_d (close_fd env fd s) = sv_d s"
  by (simp_all add: note_event_def close_fd_def)

lemma accept_works:
  assumes ok: "fds_ok env fds"
  shows "works fds transport s (accept_one env lfd family s)"
proof -
  obtain fd s1 m s2 th s3 where c: "call (se_accept env lfd) s = (fd, s1)" "call (se_mem env) s1 = (m, s2)" "call (se_thread env) s2 = (th, s3)"
    by (meson surj_pair)
  note o = opens_stays [OF fds_laws(2) [OF ok] c(1)]
  have k2: "stays fds loop_event s s2" and k3: "stays fds loop_event s s3"
    using stays_trans [OF o(1) stays_call [OF fds_laws(7) [OF ok] c(2)]] stays_trans [OF _ stays_call [OF fds_laws(6) [OF ok] c(3)]] by auto
  have d: "sv_d s1 = sv_d s" "sv_d s2 = sv_d s" "sv_d s3 = sv_d s" using c by (auto simp: call_def split: prod.splits)
  have cl: "0 \<le> fd \<Longrightarrow> stays fds loop_event s (close_fd env fd s2)" "0 \<le> fd \<Longrightarrow> stays fds loop_event s (close_fd env fd s3)"
    using stays_close [OF k2 _ _ ok] stays_close [OF k3 _ _ ok] o(2) by auto
  have ev: "stays fds loop_event s (note_event (Sv_handler fd family) s3)" using stays_trans [OF k3 stays_event] by simp
  show ?thesis using o(1) cl ev d by (auto simp: accept_one_def c works_def)
qed

lemma round_works:
  assumes ok: "fds_ok env fds" and r: "main_round env opt lfd4 lfd6 (ts, s) = (go_on, ts', s')"
  shows "works fds transport s s'"
proof -
  obtain polled s1 where s1: "call (se_poll env (poll_fds env lfd4 lfd6)) s = (polled, s1)" by (meson surj_pair)
  have w1: "works fds transport s s1" using works_call [OF fds_laws(15) [OF ok] s1] .
  show ?thesis
  proof (cases polled)
    case None
    then show ?thesis using r w1 by (simp add: main_round_def s1 Let_def)
  next
    case (Some revents)
    define s2 where "s2 = (if readable revents 0 then accept_one env lfd4 AF_INET s1 else s1)"
    define s3 where "s3 = (if lfd6 \<ge> 0 \<and> readable revents 1 then accept_one env lfd6 AF_INET6 s2 else s2)"
    obtain now s4a where s4a: "call (se_now_ms env) s3 = (now, s4a)" by (meson surj_pair)
    define s4 where "s4 = note_event (Sv_round now) s4a"
    obtain event s5 where s5: "(if se_netwatch env \<ge> 0 \<and> readable revents (length (poll_fds env lfd4 lfd6) - 1) then call (se_drain env) s4 else (False, s4)) = (event, s5)"
      by (meson surj_pair)
    obtain check ts1 where ts1: "net_timer now event ts = (check, ts1)" by (meson surj_pair)
    define s6 where "s6 = (if check then note_event Sv_netcheck (check_conflicts env (check_network env s5)) else s5)"
    obtain rel s7 where s7: "call (se_reload env) s6 = (rel, s7)" by (meson surj_pair)
    define s8 where "s8 = (if rel then reload_conf env opt s7 else s7)"
    obtain beat ts2 where ts2: "beat_timer now ts1 = (beat, ts2)" by (meson surj_pair)
    have s': "s' = (if beat then heartbeat env opt s8 else s8)"
      using r unfolding main_round_def prod.case Let_def s1 Some option.case s2_def [symmetric] s3_def [symmetric] s4a s4_def [symmetric] s5 ts1 s6_def [symmetric] s7 s8_def [symmetric] ts2
      by simp
    have w2: "works fds transport s1 s2" and w3: "works fds transport s2 s3" by (simp_all add: s2_def s3_def accept_works [OF ok])
    have w4: "works fds transport s3 s4"
      unfolding s4_def by (rule works_trans [OF works_call [OF fds_laws(16) [OF ok] s4a] works_event]) simp_all
    have w5: "works fds transport s4 s5" using s5 by (auto intro: works_call [OF fds_laws(13) [OF ok]] split: if_splits)
    have w6: "works fds transport s5 s6"
      by (simp add: s6_def works_trans [OF works_trans [OF network_works [OF ok] conflicts_works [OF ok]] works_event])
    have w7: "works fds transport s6 s7" using works_call [OF fds_laws(19) [OF ok] s7] .
    have w8: "works fds transport s7 s8" by (simp add: s8_def reload_works [OF ok])
    have w9: "works fds transport s8 s'" by (simp add: s' heartbeat_works [OF ok])
    show ?thesis
      by (rule works_trans [OF w1 works_trans [OF w2 works_trans [OF w3 works_trans [OF w4 works_trans [OF w5 works_trans [OF w6 works_trans [OF w7 works_trans [OF w8 w9]]]]]]]])
  qed
qed

lemma loop_works: "fds_ok env fds \<Longrightarrow> main_loop n env opt lfd4 lfd6 (ts, s) = (running, ts', s') \<Longrightarrow> works fds transport s s'"
proof (induction n arbitrary: ts s)
  case (Suc n)
  obtain stop s1 where s1: "call (se_stop env) s = (stop, s1)" by (meson surj_pair)
  have w1: "works fds transport s s1" using works_call [OF fds_laws(18) [OF Suc.prems(1)] s1] .
  obtain go ts2 s2 where s2: "main_round env opt lfd4 lfd6 (ts, s1) = (go, ts2, s2)" by (metis surj_pair)
  have w2: "works fds transport s1 s2" using round_works [OF Suc.prems(1) s2] .
  consider "s' = s1" | "s' = s2" | "main_loop n env opt lfd4 lfd6 (ts2, s2) = (running, ts', s')"
    using Suc.prems(2) by (auto simp: s1 s2 split: if_splits)
  then show ?case
  proof cases
    case 3
    then show ?thesis using works_trans [OF works_trans [OF w1 w2] Suc.IH [OF Suc.prems(1)]] by blast
  qed (use w1 works_trans [OF w1 w2] in auto)
qed simp

section \<open>Nothing is left behind\<close>

fun is_install :: "server_event \<Rightarrow> bool" where
  "is_install (Sv_install p v d ok) = True"
| "is_install e = False"

text \<open>May packets be redirected after these events?\<close>

fun intercepting :: "bool \<Rightarrow> server_event list \<Rightarrow> bool" where
  "intercepting on (Sv_install p v d ok # es) = intercepting True es"
| "intercepting on (Sv_refresh rc # es) = intercepting True es"
| "intercepting on (Sv_remove # es) = intercepting False es"
| "intercepting on (e # es) = intercepting on es"
| "intercepting on [] = on"

definition served :: "server_event list \<Rightarrow> int \<Rightarrow> bool" where
  "served evs port \<longleftrightarrow> (\<exists>fd a b. evs = a @ Sv_listening fd port # b \<and> Sv_closed fd \<notin> set b)"

text \<open>Whatever is installed points at listeners.\<close>

definition redirect_ok :: "server_event list \<Rightarrow> bool" where
  "redirect_ok evs \<longleftrightarrow> (\<forall>pre p v d ok post. evs = pre @ Sv_install p v d ok # post \<longrightarrow> served pre p \<and> (d = 0 \<or> served pre d))"

lemma intercepting_append: "intercepting on (a @ b) = intercepting (intercepting on a) b"
  by (induction on a rule: intercepting.induct) auto

lemma intercepting_setup: "list_all setup_event evs \<Longrightarrow> intercepting on evs = on"
  by (induction on evs rule: intercepting.induct) auto

lemma no_install:
  "list_all setup_event evs \<Longrightarrow> filter is_install evs = []" "list_all loop_event evs \<Longrightarrow> filter is_install evs = [] \<and> Sv_remove \<notin> set evs"
  by (induction evs) (auto elim!: setup_event.elims loop_event.elims)

lemma install_unique:
  assumes "a @ I # b = pre @ I' # post" "filter is_install a = []" "filter is_install b = []" "is_install I" "is_install I'"
  shows "pre = a \<and> I' = I \<and> post = b"
proof -
  have "filter is_install (a @ I # b) = [I]" using assms(2-4) by simp
  then have "filter is_install pre = [] \<and> filter is_install post = []" unfolding assms(1) using assms(5) by (auto simp: append_eq_Cons_conv filter_empty_conv)
  then have "takeWhile (\<lambda>e. \<not> is_install e) (pre @ I' # post) = pre" using assms(5) by (auto simp: takeWhile_append2 filter_empty_conv)
  moreover have "takeWhile (\<lambda>e. \<not> is_install e) (a @ I # b) = a" using assms(2,4) by (auto simp: takeWhile_append2 filter_empty_conv)
  ultimately have "pre = a" using assms(1) by simp
  then show ?thesis using assms(1) by simp
qed

lemma redirect_ok_none: "filter is_install evs = [] \<Longrightarrow> redirect_ok evs"
  by (auto simp: redirect_ok_def)

lemma redirect_ok_one:
  assumes "filter is_install a = []" "filter is_install b = []" "served a p" "d = 0 \<or> served a d"
  shows "redirect_ok (a @ Sv_install p v d ok # b)"
  unfolding redirect_ok_def using install_unique [OF _ assms(1,2)] assms(3,4) by fastforce

lemma setup_trace: "server_setup env pton doh_servers opt s = (ok, s') \<Longrightarrow> sv_trace s' = sv_trace s"
  by (auto simp: server_setup_def call_def split: prod.splits if_splits option.splits)

lemma listens_served: "listens fds fd port s s' \<Longrightarrow> served (sv_trace s') port"
  unfolding listens_def served_def by (metis append.assoc)

lemma server_listen_stays:
  assumes ok: "fds_ok env fds" and l: "server_listen env opt s = (lfd4, lfd6, s')"
  shows "stays fds setup_event s s' \<and> (0 \<le> lfd4 \<longrightarrow> listens fds lfd4 (o_port opt) s s' \<and>
     (sv_dns_intercept s' \<longrightarrow> served (sv_trace s') (o_dns_port opt)))"
proof -
  obtain f4 s1 where s1: "tpd_listen env AF_INET True (o_port opt) s = (f4, s1)" by (meson surj_pair)
  note k1 = listen_stays [OF ok s1]
  show ?thesis
  proof (cases "f4 < 0")
    case True
    then show ?thesis using l k1 by (auto simp: server_listen_def s1)
  next
    case False
    obtain f6 s2 where s2: "tpd_listen env AF_INET6 True (o_port opt) s1 = (f6, s2)" by (meson surj_pair)
    let ?s3 = "s2\<lparr>sv_ipv6 := (f6 \<ge> 0)\<rparr>"
    obtain up s4 where s4: "(if o_dns_port opt > 0 then tpd_dnsfwd_start env (o_dns_port opt) ?s3 else (False, ?s3)) = (up, s4)" by (meson surj_pair)
    have r: "lfd4 = f4" "s' = s4\<lparr>sv_dns_intercept := up\<rparr>" using l False by (auto simp: server_listen_def s1 s2 s4 Let_def)
    have k3: "stays fds setup_event s1 ?s3" using listen_stays [OF ok s2] stays_trans [OF _ stays_same] by (auto simp: stays_def)
    have k4: "stays fds setup_event ?s3 s4 \<and> (up \<longrightarrow> served (sv_trace s4) (o_dns_port opt))"
      using s4 dnsfwd_stays [OF ok] listens_served by (auto split: if_splits) blast
    have k5: "stays fds setup_event s4 s'" by (simp add: r stays_same)
    have k: "stays fds setup_event s1 s'" using stays_trans [OF k3 stays_trans [OF conjunct1 [OF k4] k5]] .
    have "listens fds lfd4 (o_port opt) s s'" using listens_later [OF _ k stays_refl] k1 False r(1) by simp
    then show ?thesis using stays_trans [OF conjunct1 [OF k1] k] k4 by (simp add: r)
  qed
qed

lemma install_cases:
  assumes ok: "fds_ok env fds" and i: "server_install env opt s = (up, s')"
  obtains (no_try) "\<not> up" "stays fds setup_event s s'"
  | (tried) s1 where "stays fds setup_event s s1" "s' = note_event (Sv_install (o_port opt) (sv_ipv6 s) (if sv_dns_intercept s then o_dns_port opt else 0) up) s1"
      "sv_trace s1 = sv_trace s"
proof -
  obtain ctx s1 where s1: "call (se_tls env) s = (ctx, s1)" by (meson surj_pair)
  obtain v s2 where s2: "(if ctx then call (se_thread env) s1 else (False, s1)) = (v, s2)" by (meson surj_pair)
  have "stays fds setup_event s1 s2" using s2 by (auto intro: stays_call [OF fds_laws(6) [OF ok]] split: if_splits)
  then have k2: "stays fds setup_event s s2" using stays_trans [OF stays_call [OF fds_laws(8) [OF ok] s1]] by blast
  have same: "sv_ipv6 s2 = sv_ipv6 s" "sv_dns_intercept s2 = sv_dns_intercept s" "sv_trace s2 = sv_trace s"
    using s1 s2 by (auto simp: call_def split: prod.splits if_splits)
  define dns where "dns = (if sv_dns_intercept s then o_dns_port opt else 0)"
  obtain w s3 where s3: "call (se_install env (o_port opt) (sv_ipv6 s) dns) s2 = (w, s3)" by (meson surj_pair)
  have k3: "stays fds setup_event s s3" using stays_trans [OF k2 stays_call [OF fds_laws(9) [OF ok] s3]] .
  have same3: "sv_ipv6 s3 = sv_ipv6 s" "sv_trace s3 = sv_trace s" using s3 same by (auto simp: call_def split: prod.splits)
  show ?thesis
  proof (cases v)
    case False
    then show ?thesis using i k2 no_try by (auto simp: server_install_def s1 s2)
  next
    case True
    then show ?thesis using i k3 s3 same same3 tried [of s3] by (auto simp: server_install_def s1 s2 Let_def dns_def)
  qed
qed

lemma stays_trace: "stays fds P s s' \<Longrightarrow> \<exists>evs. sv_trace s' = sv_trace s @ evs \<and> list_all P evs"
  unfolding stays_def by blast

lemma close_events: "list_all setup_event evs \<Longrightarrow> sv_trace s = T @ evs \<Longrightarrow>
    \<exists>evs. sv_trace (close_open env fd6 (close_fd env fd4 s)) = T @ evs \<and> list_all setup_event evs"
  by (auto simp: close_open_def close_fd_def note_event_def)

lemma works_tail:
  assumes "works fds transport s s'"
  shows "\<exists>evs. sv_trace s' = sv_trace s @ evs \<and> list_all loop_event evs"
  using assms stays_trace unfolding works_def by blast

text \<open>How the server ends, and what its trace looks like then.\<close>

lemma server_trace:
  assumes ok: "fds_ok env fds" and run: "run_transparent_server n env pton doh_servers opt s0 = (rc, s)" and s0: "sv_trace s0 = []"
  obtains (refused) "rc \<noteq> None" "list_all setup_event (sv_trace s)"
  | (undone) e1 e2 I where "rc \<noteq> None" "sv_trace s = e1 @ I @ Sv_remove # e2" "list_all setup_event e1" "list_all setup_event e2"
      "I = [] \<or> (\<exists>v d ok. I = [Sv_install (o_port opt) v d ok] \<and> served e1 (o_port opt) \<and> (d = 0 \<or> served e1 d))"
  | (ran) e1 e2 v d fd a b tail where "sv_trace s = e1 @ Sv_install (o_port opt) v d True # e2 @ tail" "list_all setup_event e1" "list_all loop_event e2"
      "e1 = a @ Sv_listening fd (o_port opt) # b" "Sv_closed fd \<notin> set b" "Sv_closed fd \<notin> set e2" "d = 0 \<or> served e1 d"
      "rc = None \<and> tail = [] \<or> rc \<noteq> None \<and> (\<exists>e3. tail = Sv_remove # e3 \<and> list_all loop_event e3 \<and> (\<forall>r. Sv_refresh r \<notin> set e3))"
proof -
  obtain up0 s1 where s1: "server_setup env pton doh_servers opt s0 = (up0, s1)" by (meson surj_pair)
  have t1: "sv_trace s1 = []" using setup_trace [OF s1] s0 by simp
  obtain lfd4 lfd6 s2 where s2: "server_listen env opt s1 = (lfd4, lfd6, s2)" by (metis surj_pair)
  note k2 = server_listen_stays [OF ok s2]
  have e2: "list_all setup_event (sv_trace s2)" using stays_trace [OF conjunct1 [OF k2]] t1 by auto
  let ?s3 = "check_conflicts env s2"
  have t3: "sv_trace ?s3 = sv_trace s2" "sv_dns_intercept ?s3 = sv_dns_intercept s2" by (auto simp: check_conflicts_def call_def split: prod.split)
  obtain up s4 where s4: "server_install env opt ?s3 = (up, s4)" by (meson surj_pair)
  show thesis
  proof (cases "\<not> up0 \<or> lfd4 < 0")
    case True
    then have "rc \<noteq> None \<and> list_all setup_event (sv_trace s)" using run t1 e2 by (auto simp: run_transparent_server_def s1 s2 split: if_splits)
    then show thesis using refused by blast
  next
    case False
    have k3: "stays fds setup_event s2 ?s3"
      by (rule stays_same) (use t3 fds_laws(11) [OF ok] in \<open>auto simp: check_conflicts_def call_def keeps_def split: prod.split\<close>)
    have lis: "listens fds lfd4 (o_port opt) s1 ?s3" "sv_dns_intercept ?s3 \<longrightarrow> served (sv_trace ?s3) (o_dns_port opt)"
      using k2 False listens_later [OF _ k3 stays_refl] t3 by auto
    from ok s4 show thesis
    proof (cases rule: install_cases)
      case no_try
      obtain e where e: "sv_trace s4 = sv_trace ?s3 @ e" "list_all setup_event e" using stays_trace [OF no_try(2)] by blast
      have "sv_trace (plat_remove env s4) = (sv_trace s2 @ e @ [] @ [Sv_remove]) @ []" using e t3 by (simp add: plat_remove_def note_event_def)
      from close_events [OF _ this, of env lfd6 lfd4] obtain e' where "sv_trace s = (sv_trace s2 @ e) @ [] @ Sv_remove # e'" "list_all setup_event e'" "rc \<noteq> None"
        using run False no_try by (auto simp: run_transparent_server_def s1 s2 s4)
      then show thesis using undone [of "sv_trace s2 @ e" "[]" e'] e2 e(2) by simp
    next
      case (tried s5)
      define d where "d = (if sv_dns_intercept ?s3 then o_dns_port opt else 0)"
      have t4: "sv_trace s4 = sv_trace s2 @ [Sv_install (o_port opt) (sv_ipv6 ?s3) d up]" using tried t3 by (simp add: note_event_def d_def)
      have sv: "served (sv_trace s2) (o_port opt)" "d = 0 \<or> served (sv_trace s2) d" using listens_served [OF lis(1)] lis(2) t3 by (auto simp: d_def)
      show thesis
      proof (cases up)
        case no: False
        have "sv_trace (plat_remove env s4) = (sv_trace s2 @ [Sv_install (o_port opt) (sv_ipv6 ?s3) d up] @ [Sv_remove]) @ []" using t4 by (simp add: plat_remove_def note_event_def)
        from close_events [OF _ this, of env lfd6 lfd4] obtain e' where "sv_trace s = sv_trace s2 @ [Sv_install (o_port opt) (sv_ipv6 ?s3) d up] @ Sv_remove # e'"
          "list_all setup_event e'" "rc \<noteq> None" using run False no by (auto simp: run_transparent_server_def s1 s2 s4)
        then show thesis using undone [of "sv_trace s2" "[Sv_install (o_port opt) (sv_ipv6 ?s3) d up]" e'] e2 sv by auto
      next
        case yes: True
        let ?s6 = "write_status env opt ''running'' s4"
        obtain tm s7 tm' s8 where s78: "call (se_now_ms env) ?s6 = (tm, s7)" "call (se_now_ms env) s7 = (tm', s8)" by (meson surj_pair)
        obtain running ts9 s9 where s9: "main_loop n env opt lfd4 lfd6 (timers_start tm tm', s8) = (running, ts9, s9)" by (metis surj_pair)
        let ?T = "\<lambda>(i :: nat) (q :: bytes) (k :: nat) (m :: int) (u :: unit). (None :: bytes option, u)"
        have w: "works fds ?T s4 s9"
          by (rule works_trans [OF status_works [OF ok] works_trans [OF works_call [OF fds_laws(16) [OF ok] s78(1)] works_trans [OF works_call [OF fds_laws(16) [OF ok] s78(2)] loop_works [OF ok s9]]]])
        from lis(1) obtain a b where ab: "sv_trace s2 = a @ Sv_listening lfd4 (o_port opt) # b" "Sv_closed lfd4 \<notin> set b" "lfd4 \<in> fds (sv_u ?s3)"
          unfolding listens_def using t3 t1 by auto
        have "lfd4 \<in> fds (sv_u s4)" using tried ab(3) unfolding stays_def by (auto simp: note_event_def)
        then obtain e where e: "sv_trace s9 = sv_trace s4 @ e" "list_all loop_event e" "Sv_closed lfd4 \<notin> set e"
          using w unfolding works_def stays_def by blast
        have r: "(rc, s) = (if running then (None, s9) else (Some 0, write_status env opt ''stopped'' (save env opt (plat_remove env s9))))"
          using run False yes by (auto simp: run_transparent_server_def s1 s2 s4 s78 s9)
        have q: "\<exists>e3. sv_trace (write_status env opt ''stopped'' (save env opt (plat_remove env s9))) = sv_trace s9 @ Sv_remove # e3 \<and> e3 = []"
          by (auto simp: write_status_def save_def write_file_def plat_remove_def note_event_def call_def Let_def split: prod.split option.split)
        show thesis
        proof (cases running)
          case True
          then show thesis using r e t4 yes ran [of "sv_trace s2" "sv_ipv6 ?s3" d e "[]" a lfd4 b] e2 ab sv by simp
        next
          case no: False
          then show thesis using r e t4 yes q ran [of "sv_trace s2" "sv_ipv6 ?s3" d e "[Sv_remove]" a lfd4 b] e2 ab sv by auto
        qed
      qed
    qed
  qed
qed

end
