(* ===== verification/Lifecycle.thy ===== *)
theory Lifecycle
  imports Server
begin

text \<open>
  What the transparent server does over its life: files that survive an interrupted write, decisions that survive a restart,
  interception that is installed only over listeners and never left behind, heartbeats in time for the kernel's timeout,
  and the main loop as steps of the shared daemon.
\<close>

section \<open>A quiet machine\<close>

text \<open>A world for the witnesses: the next descriptor and a clock that moves on by a second with every look at it. Nobody
  connects, and nothing fails; \<open>stop\<close> says whether a stop was requested.\<close>

definition quiet_dialling :: "(int \<times> int) dialling" where
  "quiet_dialling = \<lparr>n_io = \<lparr>s_send = (\<lambda>fd b u. (Send_error, u)), s_recv = (\<lambda>fd n u. (Recv_error, u)), s_poll = (\<lambda>a b t u. (Poll_timeout, u)),
       s_shutdown = (\<lambda>fd u. u), s_linger = (\<lambda>fd u. u)\<rparr>,
     n_socket = (\<lambda>a u. (- 1, u)), n_prepare = (\<lambda>fd f u. (True, u)), n_connect = (\<lambda>fd a u. (Connect_failed, u)),
     n_wait_in = (\<lambda>fd t u. (False, u)), n_wait_out = (\<lambda>fd t u. (False, u)), n_so_clear = (\<lambda>fd u. (True, u)), n_now_ms = (\<lambda>u. (0, u)),
     n_close = (\<lambda>fd u. u), n_set_mark = (\<lambda>fd m u. u)\<rparr>"

definition quiet_env :: "bool \<Rightarrow> (int \<times> int) server_env" where
  "quiet_env stop = \<lparr>se_dial = quiet_dialling, se_plat_init = (\<lambda>u. (True, u)), se_install = (\<lambda>p v d u. (True, u)), se_refresh = (\<lambda>u. (0, u)),
     se_remove = (\<lambda>u. u), se_quic_flush = (\<lambda>u. u), se_fingerprint = (\<lambda>u. (7, u)), se_conflict = (\<lambda>u. (None, u)), se_drain = (\<lambda>u. (False, u)),
     se_extra = (\<lambda>u. ([], u)), se_name = ''nftables'', se_netwatch = - 1, se_wildcard = False,
     se_socket = (\<lambda>fam st u. (fst u, fst u + 1, snd u)), se_bind = (\<lambda>fd fam w port u. (True, u)), se_listen = (\<lambda>fd u. (True, u)),
     se_close = (\<lambda>fd u. u), se_accept = (\<lambda>fd u. (- 1, u)), se_thread = (\<lambda>u. (True, u)), se_poll = (\<lambda>fds u. (Some [], u)),
     se_now_ms = (\<lambda>u. (snd u, fst u, snd u + 1000)), se_now = (\<lambda>u. (1700000000, u)), se_stop = (\<lambda>u. (stop, u)), se_reload = (\<lambda>u. (False, u)),
     se_mem = (\<lambda>u. (True, u)), se_write = (\<lambda>u. (\<lparr>wo_open = True, wo_written = 5000000, wo_close = True, wo_rename = True\<rparr>, u)),
     se_tls = (\<lambda>u. (True, u)), se_pid = 42\<rparr>"

definition quiet_fds :: "int \<times> int \<Rightarrow> int set" where
  "quiet_fds u = {k. k < fst u}"

definition quiet_pton :: "af \<Rightarrow> string \<Rightarrow> bytes option" where
  "quiet_pton f a = (if f = AF_INET \<and> a = ''1.1.1.1'' then Some [1, 1, 1, 1] else None)"

definition quiet_options :: tp_options where
  "quiet_options = \<lparr>o_port = 1091, o_debug = False, o_strategy_conf = ''s'', o_decisions_file = ''d'', o_status_file = ''t'', o_log_file = None,
     o_dns_servers = ''1.1.1.1'', o_dns_port = 1053, o_doh = False\<rparr>"

lemma quiet_ok: "fds_ok (quiet_env stop) quiet_fds"
  by (auto simp: fds_ok_def quiet_env_def quiet_fds_def keeps_def opens_new_def quiet_dialling_def)

definition quiet_server :: "fs \<Rightarrow> (unit, int \<times> int) server" where
  "quiet_server fs = server0 fs (3, 0) 1700000000"

lemma quiet_setup: "fst (server_setup (quiet_env stop) quiet_pton [] quiet_options (quiet_server fs))"
proof -
  have "us_addrs (dns_udp_servers_parse quiet_pton ''1.1.1.1'' 0x2a4c) \<noteq> []" by code_simp
  then show ?thesis by (simp add: server_setup_def call_def quiet_env_def init_dns_def quiet_options_def Let_def)
qed

section \<open>Files\<close>

lemma tmp_differs [simp]: "tmp_of path \<noteq> path" "path \<noteq> tmp_of path"
  by (simp_all add: tmp_of_def)

text \<open>Whatever a write, a close or a rename does, and wherever the process is stopped in between, the file holds its
  old contents or the complete new ones, and no file other than it and its temporary neighbour changes; the result is 0
  exactly when the new contents are in place.\<close>

theorem write_atomic:
  assumes "write_file_atomic out path data fs = (ok, states)"
  shows "(\<forall>st \<in> set states. (st path = fs path \<or> st path = Some data) \<and> (\<forall>p. p \<noteq> path \<longrightarrow> p \<noteq> path @ ''.tmp'' \<longrightarrow> st p = fs p)) \<and>
    hd states = fs \<and> last states path = (if ok then Some data else fs path) \<and>
    (fs (path @ ''.tmp'') = None \<longrightarrow> last states (path @ ''.tmp'') = None)"
  using assms unfolding write_file_atomic_def tmp_of_def [symmetric] by (auto simp: Let_def split: if_splits)

theorem write_atomic_witness:
  "let fs = [''f'' \<mapsto> ''old'']; out = \<lparr>wo_open = True, wo_written = 2, wo_close = True, wo_rename = True\<rparr> in
   last (snd (write_file_atomic out ''f'' ''new'' fs)) ''f'' = Some ''old''"
  using write_atomic [of "\<lparr>wo_open = True, wo_written = 2, wo_close = True, wo_rename = True\<rparr>" "''f''" "''new''" "[''f'' \<mapsto> ''old'']"
      False "snd (write_file_atomic \<lparr>wo_open = True, wo_written = 2, wo_close = True, wo_rename = True\<rparr> ''f'' ''new'' [''f'' \<mapsto> ''old''])"]
  by (simp add: write_file_atomic_def tmp_of_def Let_def)

section \<open>Decisions across a restart\<close>

lemma dec_text_length:
  assumes "decision_ok e" "dec_text_ok e"
  shows "length (dec_text e) \<le> STRATEGY_DOMAIN_MAX + 96"
proof -
  have "print_lld 4 = ''4''" "print_lld 6 = ''6''" by code_simp+
  then have "length (print_lld (td_validated_at e)) \<le> 20" "length (print_lld (td_family e)) = 1"
    using assms(2) print_lld_length [of "td_validated_at e"] by (auto simp: dec_text_ok_def)
  then show ?thesis using assms(1) clean_strategy(2) [of "st_strategy (td_step e)"]
    by (auto simp: dec_text_def decision_ok_def tp_target_name_def STRATEGY_DOMAIN_MAX_def)
qed

lemma texts_length: "list_all decision_ok es \<Longrightarrow> list_all dec_text_ok es \<Longrightarrow> length (concat (map dec_text es)) \<le> length es * (STRATEGY_DOMAIN_MAX + 96)"
  by (induction es) (use dec_text_length in \<open>fastforce+\<close>)

lemma saved_text:
  assumes inv: "decisions_inv d" and ok: "list_all dec_text_ok (d_entries d)"
  defines "c \<equiv> tp_decisions_serialize d (128 + length (d_entries d) * (STRATEGY_DOMAIN_MAX + 96))"
  shows "c \<noteq> [] \<and> length c \<le> FILE_MAX"
proof -
  let ?s = "concat (map dec_text (d_entries d))"
  have len: "length ?s \<le> length (d_entries d) * (STRATEGY_DOMAIN_MAX + 96)" "length (d_entries d) \<le> 2048"
    using texts_length [OF _ ok] inv by (auto simp: decisions_inv_def TP_DECISIONS_MAX_def)
  have h: "0 < length dec_header" "length dec_header < 128" by (simp_all add: dec_header_def)
  then have "c = dec_header @ ?s" using len by (simp add: c_def tp_decisions_serialize_def dec_serialize_loop_eq)
  moreover have "length (d_entries d) * (STRATEGY_DOMAIN_MAX + 96) \<le> 2048 * 352" using len(2) by (simp add: STRATEGY_DOMAIN_MAX_def)
  ultimately show ?thesis using h len(1) by (auto simp: FILE_MAX_def)
qed

lemma save_writes:
  assumes inv: "decisions_inv (g_dec (d_g (sv_d s)))" and tx: "list_all dec_text_ok (d_entries (g_dec (d_g (sv_d s))))"
    and dirty: "d_dirty (g_dec (d_g (sv_d s)))" and mem: "\<And>u. fst (se_mem env u)"
    and wr: "\<And>u. wo_open (fst (se_write env u)) \<and> wo_close (fst (se_write env u)) \<and> wo_rename (fst (se_write env u)) \<and> FILE_MAX \<le> wo_written (fst (se_write env u))"
    and path: "length (o_decisions_file opt) + 4 < 4096"
  defines "d \<equiv> g_dec (d_g (sv_d s))" and "s' \<equiv> save env opt s"
  shows "sv_fs s' (o_decisions_file opt) = Some (tp_decisions_serialize d (128 + length (d_entries d) * (STRATEGY_DOMAIN_MAX + 96)))
    \<and> \<not> d_dirty (g_dec (d_g (sv_d s')))"
proof -
  let ?c = "tp_decisions_serialize d (128 + length (d_entries d) * (STRATEGY_DOMAIN_MAX + 96))"
  have c: "?c \<noteq> []" "length ?c \<le> FILE_MAX" using saved_text [OF inv tx] by (simp_all add: d_def)
  obtain ok u1 where m: "se_mem env (sv_u s) = (ok, u1)" by (meson surj_pair)
  have "ok" using mem [of "sv_u s"] m by simp
  obtain out u2 where o: "se_write env u1 = (out, u2)" by (meson surj_pair)
  have o2: "wo_open out" "wo_close out" "wo_rename out" "FILE_MAX \<le> wo_written out" using wr [of u1] o by simp_all
  then have w: "min (wo_written out) (length ?c) = length ?c" using c(2) by simp
  have "last (snd (write_file_atomic out (o_decisions_file opt) ?c (sv_fs s))) (o_decisions_file opt) = Some ?c"
    using path by (simp add: write_file_atomic_def w o2 Let_def) (simp add: tmp_of_def)
  then show ?thesis using dirty \<open>ok\<close> c(1)
    by (simp add: s'_def save_def call_def m save_decisions_def Let_def d_def write_file_def o)
qed

lemma setup_loads:
  assumes "server_setup env pton doh_servers opt s = (True, s')"
  shows "\<exists>u u' u'' fp. d_g (sv_d s') = tpd_init (fst (se_mem env u'')) (read_file (fst (se_mem env u)) (sv_fs s) (o_strategy_conf opt)) fp
    (read_file (fst (se_mem env u')) (sv_fs s) (o_decisions_file opt))"
  using assms by (auto simp: server_setup_def call_def split: prod.splits if_splits option.splits) (metis fst_conv)

text \<open>Claim C20. Decisions survive a restart: when the daemon saved changed decisions and the memory and the file system did
  not fail, the next server that comes up with the same file starts with exactly the same entries, and the text never
  exceeds the buffer it is written to nor what is read back.\<close>

theorem decisions_survive_restart:
  assumes "decisions_inv (g_dec (d_g (sv_d s)))" "list_all dec_text_ok (d_entries (g_dec (d_g (sv_d s))))"
    and "d_dirty (g_dec (d_g (sv_d s)))" and "\<And>u. fst (se_mem env u)"
    and "\<And>u. wo_open (fst (se_write env u)) \<and> wo_close (fst (se_write env u)) \<and> wo_rename (fst (se_write env u)) \<and> FILE_MAX \<le> wo_written (fst (se_write env u))"
    and "length (o_decisions_file opt) + 4 < 4096"
    and "sv_fs s1 = sv_fs (save env opt s)" and "server_setup env pton doh_servers opt s1 = (True, s2)"
  shows "d_entries (g_dec (d_g (sv_d s2))) = d_entries (g_dec (d_g (sv_d s)))"
proof -
  let ?d = "g_dec (d_g (sv_d s))"
  let ?c = "tp_decisions_serialize ?d (128 + length (d_entries ?d) * (STRATEGY_DOMAIN_MAX + 96))"
  have f: "sv_fs s1 (o_decisions_file opt) = Some ?c" using save_writes [where s = s and env = env and opt = opt, OF assms(1-6)] assms(7) by simp
  have c: "?c \<noteq> []" "length ?c \<le> FILE_MAX" using saved_text [OF assms(1,2)] by simp_all
  obtain conf fp where g: "d_g (sv_d s2) = tpd_init True conf fp (Some ?c)"
    using setup_loads [OF assms(8)] f c(2) by (auto simp: assms(4) read_file_def)
  obtain cap where "tp_decisions_parse True tp_decisions_init ?c = (tp_decisions_init\<lparr>d_cap := cap, d_entries := d_entries ?d\<rparr>, 0)"
    using decisions_roundtrip [OF assms(1,2) c(1)] by blast
  then show ?thesis unfolding g by (simp add: tpd_init_def load_decisions_def load_strategy_conf_def)
qed

theorem decisions_survive_restart_witness:
  "\<exists>(s :: (unit, int \<times> int) server) (s2 :: (unit, int \<times> int) server). length (d_entries (g_dec (d_g (sv_d s)))) = 1 \<and>
     server_setup (quiet_env False) quiet_pton [] quiet_options (quiet_server (sv_fs (save (quiet_env False) quiet_options s))) = (True, s2) \<and>
     d_entries (g_dec (d_g (sv_d s2))) = d_entries (g_dec (d_g (sv_d s)))"
proof -
  define e where "e = \<lparr>td_host = ''a.io'', td_fingerprint = 0xFE, td_family = 4, td_step = step_of TP_TARGET_TRUSTED STRATEGY_TLSREC,
    td_validated_at = 1700000000, td_quic_blocked_at = 0\<rparr>"
  define d where "d = tp_decisions_init\<lparr>d_cap := 16, d_entries := [e], d_dirty := True\<rparr>"
  define s where "s = (let s = quiet_server Map.empty in s\<lparr>sv_d := (sv_d s)\<lparr>d_g := (d_g (sv_d s))\<lparr>g_dec := d\<rparr>\<rparr>\<rparr>)"
  have sd: "g_dec (d_g (sv_d s)) = d" by (simp add: s_def Let_def)
  have "decision_ok e" by (simp add: decision_ok_def e_def NETFP_UNKNOWN_def STRATEGY_DOMAIN_MAX_def is_direct_step_def)
  then have inv: "decisions_inv d"
    using init_inv by (simp add: d_def decisions_inv_def tp_decisions_init_def TP_DECISIONS_MAX_def dec_slots.unique_def)
  have ok: "list_all dec_text_ok (d_entries d)" by (simp add: d_def e_def dec_text_ok_def clean_def isspace_c_def)
  obtain s2 where s2: "server_setup (quiet_env False) quiet_pton [] quiet_options (quiet_server (sv_fs (save (quiet_env False) quiet_options s))) = (True, s2)"
    using quiet_setup by (metis (full_types) prod.collapse)
  have "d_entries (g_dec (d_g (sv_d s2))) = d_entries (g_dec (d_g (sv_d s)))"
    by (rule decisions_survive_restart [where s = s and env = "quiet_env False" and opt = quiet_options, OF _ _ _ _ _ _ _ s2])
      (use inv ok in \<open>simp_all add: sd quiet_env_def FILE_MAX_def quiet_options_def quiet_server_def server0_def, simp add: d_def\<close>)
  then show ?thesis using s2 by (intro exI [of _ s] exI [of _ s2]) (simp add: sd d_def)
qed

section \<open>The life of the server\<close>

lemma intercepting_loop: "list_all loop_event evs \<Longrightarrow> intercepting True evs"
  by (induction True evs rule: intercepting.induct) auto

lemma intercepting_over: "list_all loop_event evs \<Longrightarrow> \<forall>r. Sv_refresh r \<notin> set evs \<Longrightarrow> \<not> intercepting False evs"
  by (induction False evs rule: intercepting.induct) auto

lemma setup_no_remove: "list_all setup_event evs \<Longrightarrow> Sv_remove \<notin> set evs"
  by (auto simp: list_all_iff)


lemma quiet_listen: "0 \<le> fst (sv_u s) \<Longrightarrow> fst (server_listen (quiet_env stop) opt s) \<ge> 0"
  by (simp add: server_listen_def tpd_listen_def call_def quiet_env_def note_event_def case_prod_beta Let_def)

lemma quiet_install: "fst (server_install (quiet_env stop) opt s)"
  by (simp add: server_install_def call_def quiet_env_def Let_def)

lemma quiet_stops: "fst (main_loop (Suc n) (quiet_env True) opt a b ls) = False"
  by (simp add: call_def quiet_env_def)

lemma quiet_runs: "fst (main_loop n (quiet_env False) opt a b ls)"
proof (induction n arbitrary: ls)
  case (Suc n)
  have r: "fst (main_round (quiet_env False) opt a b ls)" for ls :: "timers \<times> ('a, int \<times> int) server"
    by (cases ls) (simp add: main_round_def call_def quiet_env_def Let_def case_prod_beta)
  have "se_stop (quiet_env False) u = (False, u)" for u by (simp add: quiet_env_def)
  then show ?case using Suc r by (simp add: case_prod_beta call_def)
qed simp

lemma quiet_run:
  "fst (run_transparent_server (Suc n) (quiet_env stop) quiet_pton [] quiet_options (quiet_server fs)) = (if stop then Some 0 else None)"
proof -
  obtain s1 :: "(unit, int \<times> int) server" where s1: "server_setup (quiet_env stop) quiet_pton [] quiet_options (quiet_server fs) = (True, s1)"
    using quiet_setup [of stop fs] by (metis (full_types) prod.collapse)
  have u1: "sv_u s1 = (3, 0)"
    using s1 by (auto simp: server_setup_def call_def quiet_env_def quiet_server_def server0_def split: option.splits if_splits prod.splits)
  obtain l4 l6 s2 where s2: "server_listen (quiet_env stop) quiet_options s1 = (l4, l6, s2)" by (metis surj_pair)
  have l: "0 \<le> l4" using quiet_listen [of s1 stop quiet_options] u1 s2 by simp
  obtain s3 where s3: "server_install (quiet_env stop) quiet_options (check_conflicts (quiet_env stop) s2) = (True, s3)"
    using quiet_install [of stop quiet_options "check_conflicts (quiet_env stop) s2"] by (metis (full_types) prod.collapse)
  have m: "fst (main_loop (Suc n) (quiet_env stop) quiet_options l4 l6 ls) = (\<not> stop)" for ls :: "timers \<times> (unit, int \<times> int) server"
    by (cases stop) (simp_all add: quiet_stops quiet_runs del: main_loop.simps)
  show ?thesis using l m by (simp add: run_transparent_server_def s1 s2 s3 case_prod_beta del: main_loop.simps)
qed


section \<open>The server and the shared daemon\<close>

lemma setup_daemon:
  assumes "server_setup env pton doh_servers opt (server0 fs u now) = (True, s)"
  shows "\<exists>realloc_ok conf fp decisions servers timeout id_seed. sv_d s = daemon_init realloc_ok conf fp decisions servers timeout id_seed"
proof -
  obtain u1 seed tls mem dns doh servers and realloc_ok conf fp decisions
    where i: "init_dns pton opt doh_servers tls mem seed = Some (dns, doh :: 'a dns_doh option, servers)"
      and s: "sv_d s = (sv_d (server0 fs u1 now))\<lparr>d_dns := dns, d_g := tpd_init realloc_ok conf fp decisions\<rparr>"
    using assms by (auto simp: server_setup_def call_def server0_def split: prod.splits if_splits option.splits)
  have "\<exists>n t. dns = dns_resolver_init n t seed" using i by (auto simp: init_dns_def Let_def split: if_splits option.splits)
  then show ?thesis using s unfolding server0_def daemon_init_def by fastforce
qed

lemma call_daemon: "call f s = (x, s') \<Longrightarrow> sv_d s' = sv_d s"
  by (auto simp: call_def split: prod.splits)

lemma listen_daemon: "tpd_listen env family stream port s = (fd, s') \<Longrightarrow> sv_d s' = sv_d s"
  by (auto simp: tpd_listen_def call_def split: prod.splits if_splits)

lemma start_family_daemon: "start_family env family port s = (up, s') \<Longrightarrow> sv_d s' = sv_d s"
  by (auto simp: start_family_def close_open_def split: prod.splits if_splits dest!: listen_daemon call_daemon)

lemma dnsfwd_daemon: "tpd_dnsfwd_start env port s = (up, s') \<Longrightarrow> sv_d s' = sv_d s"
  by (auto simp: tpd_dnsfwd_start_def split: prod.splits if_splits dest!: start_family_daemon)

lemma server_listen_daemon: "server_listen env opt s = (a, b, s') \<Longrightarrow> sv_d s' = sv_d s"
  by (auto simp: server_listen_def Let_def split: prod.splits if_splits dest!: listen_daemon dnsfwd_daemon)

lemma install_daemon: "server_install env opt s = (up, s') \<Longrightarrow> sv_d s' = sv_d s"
  by (auto simp: server_install_def Let_def split: prod.splits if_splits dest!: call_daemon)

lemmas daemon_frame = server_listen_daemon install_daemon call_daemon



section \<open>Heartbeats in time\<close>

text \<open>\<open>cur\<close> is the time of the round under way; a round comes at most \<open>gap\<close> milliseconds after the one before.\<close>

fun steady :: "int \<Rightarrow> int \<Rightarrow> server_event list \<Rightarrow> bool" where
  "steady gap cur (Sv_round t # es) \<longleftrightarrow> cur \<le> t \<and> t \<le> cur + gap \<and> steady gap t es"
| "steady gap cur (e # es) \<longleftrightarrow> steady gap cur es"
| "steady gap cur [] \<longleftrightarrow> True"

text \<open>In every round, the latest event \<open>P\<close> is less than \<open>limit\<close> milliseconds old; \<open>prev\<close> is the time of the round it happened in.\<close>

fun within :: "(server_event \<Rightarrow> bool) \<Rightarrow> int \<Rightarrow> int \<Rightarrow> int \<Rightarrow> server_event list \<Rightarrow> bool" where
  "within P limit prev cur (Sv_round t # es) \<longleftrightarrow> t - prev < limit \<and> within P limit prev t es"
| "within P limit prev cur (e # es) \<longleftrightarrow> within P limit (if P e then cur else prev) cur es"
| "within P limit prev cur [] \<longleftrightarrow> True"

fun is_refresh :: "server_event \<Rightarrow> bool" where
  "is_refresh (Sv_refresh rc) = True"
| "is_refresh e = False"

fun is_netcheck :: "server_event \<Rightarrow> bool" where
  "is_netcheck Sv_netcheck = True"
| "is_netcheck e = False"

fun conn_event :: "server_event \<Rightarrow> bool" where
  "conn_event (Sv_handler fd family) = True"
| "conn_event (Sv_closed fd) = True"
| "conn_event e = False"

lemma trace_frame [simp]:
  "sv_trace (check_conflicts env s) = sv_trace s" "sv_trace (check_network env s) = sv_trace s" "sv_trace (write_file env path data s) = sv_trace s"
  by (auto simp: check_conflicts_def check_network_def network_section_def drop_idle_def write_file_def call_def Let_def split: prod.split option.split)

lemma trace_frame2 [simp]:
  "sv_trace (reload_conf env opt s) = sv_trace s" "sv_trace (save env opt s) = sv_trace s" "sv_trace (write_status env opt engine s) = sv_trace s"
  by (auto simp: reload_conf_def save_def write_status_def call_def Let_def split: prod.split option.split)

lemma heartbeat_trace: "\<exists>rc. sv_trace (heartbeat env opt s) = sv_trace s @ [Sv_refresh rc]"
  by (auto simp: heartbeat_def note_event_def call_def split: prod.split)

lemma accept_trace: "\<exists>evs. sv_trace (accept_one env fd family s) = sv_trace s @ evs \<and> list_all conn_event evs"
  by (auto simp: accept_one_def close_fd_def note_event_def call_def split: prod.split)

text \<open>What a round adds to the trace.\<close>

lemma round_trace:
  assumes r: "main_round env opt lfd4 lfd6 (ts, s) = (True, ts', s')"
  obtains a now event rc where "list_all conn_event a"
    "sv_trace s' = sv_trace s @ a @ Sv_round now # (if fst (net_timer now event ts) then [Sv_netcheck] else []) @ (if next_beat ts \<le> now then [Sv_refresh rc] else [])"
    "ts' = snd (beat_timer now (snd (net_timer now event ts)))"
proof -
  obtain polled s1 where s1: "call (se_poll env (poll_fds env lfd4 lfd6)) s = (polled, s1)" by (meson surj_pair)
  then obtain revents where re: "polled = Some revents" using r by (cases polled) (auto simp: main_round_def)
  define s2 where "s2 = (if readable revents 0 then accept_one env lfd4 AF_INET s1 else s1)"
  define s3 where "s3 = (if lfd6 \<ge> 0 \<and> readable revents 1 then accept_one env lfd6 AF_INET6 s2 else s2)"
  obtain now s4 where s4: "call (se_now_ms env) s3 = (now, s4)" by (meson surj_pair)
  obtain event s5 where s5: "(if se_netwatch env \<ge> 0 \<and> readable revents (length (poll_fds env lfd4 lfd6) - 1) then call (se_drain env) (note_event (Sv_round now) s4)
      else (False, note_event (Sv_round now) s4)) = (event, s5)"
    by (meson surj_pair)
  obtain check ts1 where ts1: "net_timer now event ts = (check, ts1)" by (meson surj_pair)
  define s6 where "s6 = (if check then note_event Sv_netcheck (check_conflicts env (check_network env s5)) else s5)"
  obtain rel s7 where s7: "call (se_reload env) s6 = (rel, s7)" by (meson surj_pair)
  define s8 where "s8 = (if rel then reload_conf env opt s7 else s7)"
  obtain beat ts2 where ts2: "beat_timer now ts1 = (beat, ts2)" by (meson surj_pair)
  have s': "s' = (if beat then heartbeat env opt s8 else s8)" "ts' = ts2"
    using r unfolding main_round_def prod.case Let_def s1 re option.case s2_def [symmetric] s3_def [symmetric] s4 s5 ts1 s6_def [symmetric] s7 s8_def [symmetric] ts2
    by simp_all
  have "\<exists>evs. sv_trace s2 = sv_trace s1 @ evs \<and> list_all conn_event evs" "\<exists>evs. sv_trace s3 = sv_trace s2 @ evs \<and> list_all conn_event evs"
    using accept_trace by (auto simp: s2_def s3_def)
  then obtain a where a: "sv_trace s3 = sv_trace s @ a" "list_all conn_event a" using called [OF s1] by auto
  have t5: "sv_trace s5 = sv_trace s3 @ [Sv_round now]"
    using s5 called [OF s4] called [of "se_drain env" "note_event (Sv_round now) s4" event s5] by (auto simp: note_event_def split: if_splits)
  have t8: "sv_trace s8 = sv_trace s5 @ (if check then [Sv_netcheck] else [])"
    using called [OF s7] by (simp add: s8_def s6_def note_event_def)
  have nb: "next_beat ts1 = next_beat ts" "beat = (next_beat ts \<le> now)"
    using ts1 ts2 by (auto simp: net_timer_def beat_timer_def Let_def split: if_splits)
  obtain rc where "sv_trace (heartbeat env opt s8) = sv_trace s8 @ [Sv_refresh rc]" using heartbeat_trace by blast
  then have "sv_trace s' = sv_trace s @ a @ Sv_round now # (if check then [Sv_netcheck] else []) @ (if next_beat ts \<le> now then [Sv_refresh rc] else [])"
    using a(1) t5 t8 nb(2) by (simp add: s'(1))
  then show thesis using that [OF a(2), of now event rc] ts1 ts2 s'(2) by simp
qed

lemma conn_skipped:
  "list_all conn_event a \<Longrightarrow> steady gap cur (a @ es) = steady gap cur es"
  "list_all conn_event a \<Longrightarrow> within is_refresh limit prev cur (a @ es) = within is_refresh limit prev cur es"
  "list_all conn_event a \<Longrightarrow> within is_netcheck limit prev cur (a @ es) = within is_netcheck limit prev cur es"
  by (induction a) (auto elim!: conn_event.elims)

lemma round_stopped: "main_round env opt lfd4 lfd6 (ts, s) = (False, ts', s') \<Longrightarrow> sv_trace s' = sv_trace s"
  by (auto simp: main_round_def Let_def call_def split: prod.splits option.splits)

text \<open>The timers point at most a period beyond the round of the last heartbeat and of the last check, and into the future.\<close>

lemma loop_within:
  assumes "main_loop n env opt lfd4 lfd6 (ts, s) = (running, ts', s')"
    and "cur < next_beat ts" "next_beat ts \<le> pb + 10000" "cur < next_netcheck ts" "next_netcheck ts \<le> pn + 60000 + gap" and "0 \<le> gap"
  shows "\<exists>evs. sv_trace s' = sv_trace s @ evs \<and>
    (steady gap cur evs \<longrightarrow> within is_refresh (10000 + gap) pb cur evs \<and> within is_netcheck (60000 + 2 * gap) pn cur evs)"
  using assms
proof (induction n arbitrary: ts s cur pb pn)
  case (Suc n)
  obtain stop s1 where s1: "call (se_stop env) s = (stop, s1)" by (meson surj_pair)
  obtain go ts2 s2 where s2: "main_round env opt lfd4 lfd6 (ts, s1) = (go, ts2, s2)" by (metis surj_pair)
  have t1: "sv_trace s1 = sv_trace s" using called [OF s1] by simp
  show ?case
  proof (cases "stop \<or> \<not> go")
    case True
    then have "sv_trace s' = sv_trace s @ []" using Suc.prems(1) t1 round_stopped [of env opt lfd4 lfd6 ts s1 ts2 s2] s2 by (auto simp: s1 s2 split: if_splits)
    then show ?thesis by fastforce
  next
    case False
    then have go: "main_round env opt lfd4 lfd6 (ts, s1) = (True, ts2, s2)" and rest: "main_loop n env opt lfd4 lfd6 (ts2, s2) = (running, ts', s')"
      using Suc.prems(1) s2 by (auto simp: s1 s2)
    obtain a now event rc where a: "list_all conn_event a"
      and tr: "sv_trace s2 = sv_trace s1 @ a @ Sv_round now # (if fst (net_timer now event ts) then [Sv_netcheck] else []) @ (if next_beat ts \<le> now then [Sv_refresh rc] else [])"
      and ts2: "ts2 = snd (beat_timer now (snd (net_timer now event ts)))" using go by (rule round_trace)
    define pb' where "pb' = (if next_beat ts \<le> now then now else pb)"
    define pn' where "pn' = (if fst (net_timer now event ts) then now else pn)"
    have inv: "now < next_beat ts2" "next_beat ts2 \<le> pb' + 10000" "now < next_netcheck ts2" "next_netcheck ts2 \<le> pn' + 60000 + gap"
      using Suc.prems(2-6) by (auto simp: ts2 pb'_def pn'_def net_timer_def beat_timer_def TP_HEARTBEAT_S_def NETCHECK_INTERVAL_S_def Let_def)
    from Suc.IH [OF rest inv Suc.prems(6)] obtain evs where e: "sv_trace s' = sv_trace s2 @ evs"
      "steady gap now evs \<longrightarrow> within is_refresh (10000 + gap) pb' now evs \<and> within is_netcheck (60000 + 2 * gap) pn' now evs" by blast
    let ?r = "a @ Sv_round now # (if fst (net_timer now event ts) then [Sv_netcheck] else []) @ (if next_beat ts \<le> now then [Sv_refresh rc] else []) @ evs"
    have "sv_trace s' = sv_trace s @ ?r" using e(1) tr t1 by simp
    moreover have "steady gap cur ?r \<longrightarrow> within is_refresh (10000 + gap) pb cur ?r \<and> within is_netcheck (60000 + 2 * gap) pn cur ?r"
      using e(2) Suc.prems(2-6) by (auto simp: conn_skipped [OF a] pb'_def pn'_def)
    ultimately show ?thesis by blast
  qed
qed simp

text \<open>Claim C21. The heartbeats keep the interception alive and the network in view: as long as a round of the loop, with everything
  it does, follows the one before within 20 seconds, no round finds the last refresh 30 seconds old, the age
  at which the kernel drops the redirection by itself, and none finds the last network check 100 seconds old.\<close>

theorem heartbeats_in_time:
  assumes "main_loop n env opt lfd4 lfd6 (timers_start t0 t1, s) = (running, ts, s')" "t0 \<le> t1" "t1 \<le> t0 + 20000"
  shows "\<exists>evs. sv_trace s' = sv_trace s @ evs \<and> (steady 20000 t0 evs \<longrightarrow>
    within is_refresh (TP_ALIVE_TIMEOUT_S * 1000) t0 t0 evs \<and> within is_netcheck 100000 t0 t0 evs)"
  using loop_within [OF assms(1), of t0 t0 t0 20000] assms(2,3)
  by (simp add: timers_start_def TP_HEARTBEAT_S_def NETCHECK_INTERVAL_S_def TP_ALIVE_TIMEOUT_S_def)

theorem heartbeats_in_time_witness:
  "let s' = snd (snd (main_loop 2 (quiet_env False) quiet_options 3 4 (timers_start 0 0, quiet_server Map.empty :: (unit, int \<times> int) server))) in
   sv_trace s' = [Sv_round 0, Sv_round 1000] \<and> within is_refresh (TP_ALIVE_TIMEOUT_S * 1000) 0 0 (sv_trace s')"
proof -
  let ?s = "quiet_server Map.empty :: (unit, int \<times> int) server"
  obtain running ts s' where r: "main_loop 2 (quiet_env False) quiet_options 3 4 (timers_start 0 0, ?s) = (running, ts, s')" by (metis surj_pair)
  have "sv_trace s' = [Sv_round 0, Sv_round 1000]"
    using r by (simp add: numeral_2_eq_2 main_round_def call_def quiet_env_def poll_fds_def readable_def Let_def note_event_def net_timer_def beat_timer_def
        timers_start_def TP_HEARTBEAT_S_def NETCHECK_INTERVAL_S_def quiet_server_def server0_def) auto
  moreover have "sv_trace ?s = []" by (simp add: quiet_server_def server0_def)
  ultimately show ?thesis using heartbeats_in_time [OF r] by (auto simp: r)
qed

end
