(* ===== verification/Spec2Isabelle.thy ===== *)
theory Spec2Isabelle
  imports Engine Conn Socks DnsServer Pf Lifecycle
begin

text \<open>
  A verification development for dpi-for-everyone, a program that gets connections past deep packet inspection. It has three
  modes, all in C. \<^emph>\<open>Packet mode\<close> (\<open>src/nfqueue\<close>, \<open>src/packet\<close>, \<open>src/flow\<close>, \<open>src/discovery\<close>, \<open>src/strategy\<close>, \<open>src/http\<close>,
  \<open>src/tls\<close>) takes packets from a netfilter queue, finds the host name of a connection's first bytes, and replaces the
  packet that carries it by two segments, fragments or decoys. \<^emph>\<open>SOCKS mode\<close> (\<open>src/socks.c\<close>, \<open>src/upstream.c\<close>, \<open>src/relay.c\<close>)
  relays connections and cuts the ClientHello. \<^emph>\<open>Transparent mode\<close> (\<open>src/transparent\<close>, \<open>src/dns\<close>, \<open>src/tlsclient.c\<close>) has the
  system redirect TCP 443 and DNS to a daemon that tries a ladder of ways to reach a host, learns which one worked, checks it
  by a TLS handshake of its own, and answers DNS through a trusted resolver. Paths below are relative to the repository.

  \<^bold>\<open>How code is modelled.\<close> A buffer with its length is a byte list; reading or writing outside it is \<^const>\<open>None\<close> of the
  option monad, and the theorems show that it does not happen. C integers are words of their width where they wrap
  (checksums, sequence numbers, ports, hashes, counters) and \<^typ>\<open>int\<close> or \<^typ>\<open>nat\<close> elsewhere. Structures are records
  and enumerations datatypes with the names of the code. System calls, OpenSSL, WinDivert, \<open>nft\<close>, the clock and the memory
  allocator are functions of a record over an arbitrary world type; what the theorems need of them is a named predicate
  (\<open>dialling_ok\<close>, \<open>recv_ok\<close>, \<open>send_ok\<close>, \<open>ssl_ok\<close>, \<open>fds_ok\<close>) that a concrete world is shown to satisfy. What a routine does to the
  outside is kept in a trace. Threads meet in critical sections; each is one step of a transition system.

  \<^bold>\<open>Shared theories.\<close>
  \<^item> \<open>Prelude\<close>: words, bounds-checked access, big-endian fields and the automation for them.
  \<^item> \<open>Slots\<close>: tables searched linearly; the contract of writing through a slot is a locale that is interpreted for the flow
    table, the DNS cache, the decisions, cooldowns and marks, and the QUIC addresses.
  \<^item> \<open>Text\<close>: C strings, lines, numbers, and the contract of a table keyed by host name.

  \<^bold>\<open>Packet mode.\<close>
  \<^item> \<open>Checksum\<close>, \<open>Packet\<close>, \<open>Rebuild\<close>: \<open>src/packet/checksum.c\<close>, \<open>ip.c\<close>, \<open>tcp.c\<close>. A stored checksum passes the receiver's
    check; the parsers never read outside the packet.
  \<^item> \<open>Split\<close>, \<open>Fragment\<close>: \<open>split.c\<close>, \<open>fragment.c\<close>, \<open>fake.c\<close>. The two segments or fragments are well-formed, carry the two
    parts of the payload, and a receiver puts them together to the original stream; a decoy is dropped by the receiver.
  \<^item> \<open>Tls\<close>, \<open>Http\<close>: \<open>src/tls.c\<close>, \<open>src/tls/sni_extract.c\<close>, \<open>src/http/http.c\<close>. Memory safety; every ClientHello and request
    of the reference grammar gives its host name; cutting into records and gathering them are inverse.
  \<^item> \<open>Strategy\<close>, \<open>Discovery\<close>, \<open>Flow\<close>: \<open>src/strategy/strategy.c\<close>, \<open>src/discovery/cache.c\<close>, \<open>ladder.c\<close>,
    \<open>src/flow/flow.c\<close>. Only safe chains are ever configured or cached, files are read back, the flow table keeps its invariant.
  \<^item> \<open>Engine\<close>: \<open>src/nfqueue/nfqueue_engine.c\<close>. Exactly one verdict for each packet, nothing lost when it is dropped, and the
    classification of a flow does not depend on how its first bytes are cut into packets.

  \<^bold>\<open>Relaying and SOCKS mode.\<close>
  \<^item> \<open>Relay\<close>: \<open>src/relay.c\<close>. The pump ends when its peers do and delivers each side the bytes of the other.
  \<^item> \<open>Socks\<close>: \<open>src/socks.c\<close>, \<open>src/upstream.c\<close>. A client is refused or connected where it asked; no socket is leaked.

  \<^bold>\<open>Names.\<close>
  \<^item> \<open>Dns\<close>, \<open>Resolver\<close>: \<open>src/dns/dns.c\<close>. The codec is safe and accepts only answers to its own question; a lookup asks healthy
    servers first, each once, and a fetched answer is served from the cache until it expires.
  \<^item> \<open>Net\<close>, \<open>TlsClient\<close>, \<open>Doh\<close>: \<open>src/transparent/net.c\<close>, \<open>src/tlsclient.c\<close>, \<open>src/dns/dns_doh.c\<close>, \<open>dns_udp.c\<close>. Handshakes
    and queries end; a pooled connection is in one place at a time and closed once.
  \<^item> \<open>Forwarder\<close>, \<open>DnsServer\<close>: \<open>src/transparent/dnsfwd.c\<close>. Which resolver a query goes to; one framed answer for each query.

  \<^bold>\<open>The transparent daemon.\<close>
  \<^item> \<open>Policy\<close>, \<open>Decisions\<close>, \<open>Quic\<close>: \<open>src/transparent/policy.c\<close>, \<open>quic.c\<close>. The ladder ends after at most four attempts and
    commits the first that was answered; what is remembered for a host is what succeeded there.
  \<^item> \<open>Daemon\<close>: the state the threads share (\<open>tpd.h\<close>), the verifier (\<open>verify.c\<close>) and all critical sections as one step
    relation: in every interleaving a decision is only kept if it was loaded or confirmed by a handshake.
  \<^item> \<open>Conn\<close>: \<open>src/transparent/conn.c\<close>, one connection from accept to close.
  \<^item> \<open>NetFp\<close>: \<open>src/discovery/netfingerprint.c\<close>, the identity of a network from the tables of the kernel.
  \<^item> \<open>Reflect\<close>: the packet path of \<open>src/transparent/platform_windows.c\<close>: a reflected connection reaches the listener, which
    learns where it was going, and the answers reach the application as if from there; everything else passes unchanged.
  \<^item> \<open>Rules\<close>: rule texts (\<open>policy.c\<close>, \<open>pf_rules.c\<close>, \<open>src/nfqueue/nft_rules.c\<close>) and \<open>platform_linux.c\<close>: every text fits its
    buffer, and the three systems exempt the same private networks.
  \<^item> \<open>Server\<close>, \<open>Lifecycle\<close>: \<open>src/transparent/transparent.c\<close> and the start of \<open>dnsfwd.c\<close>: interception is installed only over
    listeners, refreshed in time, and removed on every way out; the main thread's work are steps of \<open>Daemon\<close>; saved
    decisions are the ones the next start loads.
  \<^item> \<open>Pf\<close>: \<open>src/transparent/platform_macos.c\<close>: our anchor, the reference that keeps PF on, and the watchdog that takes
    both away when the daemon stops beating, whatever else happened.
  \<^item> This theory composes the forwarder with its real transports.

  \<^bold>\<open>Loops and bounds.\<close> Loops over a buffer or list recurse on it or on the distance to its end. The loops that wait for the
  outside (relaying, retries after an interrupted call, handshakes, reading a response) are \<open>partial_function\<close>s; that they
  return is proved from a measure \<open>work\<close> of what the peers may still do. \<open>plan_loop\<close> has six rounds of fuel - four attempts,
  one lookup and the round that ends it - and is shown never to run out. \<open>skip_name\<close> follows the code's own bound of 128 jumps.
  \<open>main_loop\<close> runs for any number of rounds, as the server runs until it is stopped, and the theorems hold for every number.

  \<^bold>\<open>Not modelled.\<close> The text of log lines and reports; the command lines (\<open>main.c\<close>, \<open>main_packet.c\<close>) and the Windows service,
  which parse arguments and start what is modelled; fork, exec and the pipes to child processes, which are
  functions of the environment records, as are \<open>ioctl\<close>, \<open>sysctl\<close> and routing sockets;
  the interiors of OpenSSL, WinDivert, nftables and pf; scheduling inside a critical section; the pauses between writes.
\<close>

section \<open>The forwarder over its real transports\<close>

text \<open>How \<open>run_transparent_server\<close> puts the DNS parts together: the resolver's transport is \<open>dns_doh_transport\<close>, and the
  network's own resolver is asked over UDP. The world of the forwarder is the DoH state and the network. \<open>sa_of\<close> reads the
  bytes of a socket address.\<close>

definition TP_SOCKET_MARK :: int where "TP_SOCKET_MARK = 0x2a4c"

definition doh_trusted :: "'u dialling \<Rightarrow> ('l, 'u) openssl \<Rightarrow> ('l dns_doh \<times> 'u net) dns_transport" where
  "doh_trusted env ossl i query n t dw =
     (case dns_doh_transport env ossl True i query n t dw of None \<Rightarrow> (None, dw) | Some r \<Rightarrow> r)"

definition udp_original :: "'u dialling \<Rightarrow> (bytes \<Rightarrow> sockaddr) \<Rightarrow> ('l dns_doh \<times> 'u net) udp_exchange" where
  "udp_original env sa_of addr query n t dw =
     (case dns_udp_transport env True \<lparr>us_addrs = [sa_of addr], us_mark = TP_SOCKET_MARK\<rparr> 0 query n t (snd dw) of (r, w) \<Rightarrow> (r, fst dw, w))"

text \<open>A stretch of work on the transports: the pools stay in order and every connection is accounted for.\<close>

definition doh_used :: "('u \<Rightarrow> nat) \<Rightarrow> 'l dns_doh \<times> 'u net \<Rightarrow> 'l dns_doh \<times> 'u net \<Rightarrow> bool" where
  "doh_used work dw dw' \<longleftrightarrow> (doh_inv (fst dw) \<longrightarrow> doh_inv (fst dw') \<and> work (fst (snd dw')) \<le> work (fst (snd dw)) \<and>
     (\<exists>evs. snd (snd dw') = snd (snd dw) @ evs \<and> balanced (all_conns (fst dw)) evs (all_conns (fst dw'))))"

lemma doh_used_refl: "doh_used work dw dw"
  by (auto simp: doh_used_def balanced_def)

lemma doh_used_trans:
  assumes "doh_used work a b" "doh_used work b c"
  shows "doh_used work a c"
proof (cases "doh_inv (fst a)")
  case True
  then obtain e1 e2 where "snd (snd b) = snd (snd a) @ e1" "balanced (all_conns (fst a)) e1 (all_conns (fst b))"
    "snd (snd c) = snd (snd b) @ e2" "balanced (all_conns (fst b)) e2 (all_conns (fst c))" using assms by (auto simp: doh_used_def)
  then show ?thesis using assms True balanced_trans unfolding doh_used_def by fastforce
qed (simp add: doh_used_def)

lemma doh_resolvers:
  assumes laws: "dialling_ok env work" "recv_ok (n_io env) work" "send_ok (n_io env) work" "ssl_ok ossl work ac"
  shows "resolvers (doh_trusted env ossl) (udp_original env sa_of) (\<lambda>A. doh_used work) (\<lambda>n x. True)"
proof
  show "doh_trusted env ossl s q n t u = (r, u') \<Longrightarrow> doh_used work u u' \<and> (\<forall>x. r = Some x \<longrightarrow> True)" for s q n t u r u'
    using transport_ok [OF laws, of "fst u" True s q n t "snd u"] by (cases u) (auto simp: doh_trusted_def doh_used_def)
  show "udp_original env sa_of a q n t u = (r, u') \<Longrightarrow> doh_used work u u' \<and> (\<forall>x. r = Some x \<longrightarrow> True)" for a q n t u r u'
    using udp_transport_ok [OF laws(1-3), of True "\<lparr>us_addrs = [sa_of a], us_mark = TP_SOCKET_MARK\<rparr>" 0 q n t "snd u"]
    by (auto simp: udp_original_def doh_used_def balanced_def)
qed (auto intro: doh_used_refl doh_used_trans)

text \<open>Claim C9. Over these transports every query that can be read is answered, by a message with its own id; the resolver's
  state and the connection pools keep their invariants, and no connection is lost or closed twice.\<close>

theorem dns_over_https_answers:
  assumes laws: "dialling_ok env work" "recv_ok (n_io env) work" "send_ok (n_io env) work" "ssl_ok ossl work ac"
    and info: "dns_query_info query DNS_NAME_MAX = Some (Some (raw, qtype, udp_size))"
    and inv: "resolver_inv (f_dns f)" "doh_inv d" and len: "length query \<le> reply_size"
  shows "\<exists>reply f' d' u evs. fwd_answer (doh_trusted env ossl) (udp_original env sa_of) clock malloc_ok nows query reply_size is_udp orig f (d, w) =
      Some (reply, f', d', u, snd w @ evs) \<and>
    reply_for query reply \<and> resolver_inv (f_dns f') \<and> doh_inv d' \<and>
    mset (conn_fds (all_conns d)) + mset (opened evs) = mset (conn_fds (all_conns d')) + mset (closed evs)"
proof -
  from resolvers.answer_ok [OF doh_resolvers [OF laws, of sa_of] info inv(1) len, of clock malloc_ok nows is_udp orig "(d, w)"]
  obtain reply f' dw where r: "fwd_answer (doh_trusted env ossl) (udp_original env sa_of) clock malloc_ok nows query reply_size is_udp orig f (d, w) = Some (reply, f', dw)"
    "reply_for query reply" "resolver_inv (f_dns f')" "doh_used work (d, w) dw" by blast
  then show ?thesis using inv(2) by (cases dw) (auto simp: doh_used_def balanced_def)
qed

theorem dns_over_https_answers_witness:
  "\<exists>reply f' d' u evs. fwd_answer (doh_trusted demo_dialling (null_ssl True)) (udp_original demo_dialling (\<lambda>b. demo_addr)) (\<lambda>i. 0) True (0, 0)
      (dns_build_query 7 ''discord.com'' 1 512) 512 True None demo_fwd (demo_doh, ([], [[7], [8]], 1), []) = Some (reply, f', d', u, evs) \<and>
    reply_for (dns_build_query 7 ''discord.com'' 1 512) reply \<and> doh_inv d'"
proof -
  let ?q = "dns_build_query 7 ''discord.com'' 1 512"
  have i: "dns_query_info ?q DNS_NAME_MAX = Some (Some (map of_char ''discord.com'', 1, 512))" by code_simp
  have l: "length ?q \<le> 512" by code_simp
  have r: "resolver_inv (f_dns demo_fwd)" by (simp add: demo_fwd_def resolver_init_inv)
  from dns_over_https_answers [OF demo_dialling_ok null_ssl_ok [of True demo_work] i r demo_doh_inv l, of "\<lambda>b. demo_addr" "\<lambda>i. 0" True "(0, 0)" True None
    "(([], [[7], [8]], 1), [])"]
  show ?thesis by auto
qed

end
